(* ===== verification/Prelude.thy ===== *)
theory Prelude
  imports Main "HOL-Library.While_Combinator" "HOL-Library.List_Lexorder"
    "HOL-Library.Product_Lexorder" "HOL-Library.Char_ord" "HOL-Library.Word"
begin

text \<open>
  Shared vocabulary of the development.

  The sources keep their data in ordered sets (\<^verbatim>\<open>yset\<close>), ordered maps (\<^verbatim>\<open>ymap\<close>) and vectors of
  ordered sets, and compute most of their tables by loops that run until a pass changes nothing.
  This theory models these three things once:

  \<^item> an ordered set is the list of its elements in iteration order, sorted by the comparator
    (\<^verbatim>\<open>operator <\<close>) of the element type; insertion keeps the set unchanged when an \<^emph>\<open>equivalent\<close>
    element (neither smaller nor greater) is already there, as \<^verbatim>\<open>std::set::insert\<close> does;
  \<^item> the locale \<open>key_order\<close> states what a comparator must satisfy to be used in a set: it
    compares the values of a key in a linear order. Every comparator of the sources is shown to
    satisfy it, by an interpretation in the theory that declares it;
  \<^item> \<open>changed_loop\<close> is the loop \<^verbatim>\<open>while (bChanged)\<close>, and the locale \<open>changed_pass\<close> states when
    it ends and what holds at the end.
\<close>

named_theorems oset_simps "facts on ordered sets used by the simplifier in the component theories"
named_theorems wf_intros "introduction facts for the well-formedness invariants"

section \<open>Ordered sets\<close>

fun oset_insert :: "('a \<Rightarrow> 'a \<Rightarrow> bool) \<Rightarrow> 'a \<Rightarrow> 'a list \<Rightarrow> 'a list" where
  "oset_insert lt x [] = [x]"
| "oset_insert lt x (y # ys) =
     (if lt x y then x # y # ys
      else if lt y x then y # oset_insert lt x ys
      else y # ys)"

definition oset_mem :: "('a \<Rightarrow> 'a \<Rightarrow> bool) \<Rightarrow> 'a \<Rightarrow> 'a list \<Rightarrow> bool" where
  "oset_mem lt x ys \<longleftrightarrow> list_ex (\<lambda>y. \<not> lt x y \<and> \<not> lt y x) ys"

text \<open>Insertion of a range, one element after the other.\<close>

definition oset_insert_all :: "('a \<Rightarrow> 'a \<Rightarrow> bool) \<Rightarrow> 'a list \<Rightarrow> 'a list \<Rightarrow> 'a list" where
  "oset_insert_all lt xs s = fold (oset_insert lt) xs s"

text \<open>
  The element an iterator that stands at \<open>x\<close> moves to: the first element greater than \<open>x\<close>,
  whatever was inserted since the iterator reached \<open>x\<close>.
\<close>

definition oset_next :: "('a \<Rightarrow> 'a \<Rightarrow> bool) \<Rightarrow> 'a \<Rightarrow> 'a list \<Rightarrow> 'a option" where
  "oset_next lt x s = List.find (lt x) s"

lemma oset_next_Some:
  "oset_next lt x s = Some y \<Longrightarrow> y \<in> set s \<and> lt x y"
  by (auto simp: oset_next_def find_Some_iff)

lemma oset_insert_not_Nil [simp]: "oset_insert lt x s \<noteq> []"
  by (cases s) auto

lemma set_oset_insert_subset: "set (oset_insert lt x s) \<subseteq> insert x (set s)"
  by (induction s) auto

lemma set_oset_insert_superset: "set s \<subseteq> set (oset_insert lt x s)"
  by (induction s) auto

lemma oset_insert_all_Nil [simp]: "oset_insert_all lt [] s = s"
  by (simp add: oset_insert_all_def)

lemma oset_insert_all_Cons [simp]:
  "oset_insert_all lt (x # xs) s = oset_insert_all lt xs (oset_insert lt x s)"
  by (simp add: oset_insert_all_def)

lemma set_oset_insert_all_superset: "set s \<subseteq> set (oset_insert_all lt xs s)"
proof (induction xs arbitrary: s)
  case (Cons x xs)
  then show ?case using set_oset_insert_superset by fastforce
qed simp

lemma set_oset_insert_all_subset: "set (oset_insert_all lt xs s) \<subseteq> set xs \<union> set s"
proof (induction xs arbitrary: s)
  case (Cons x xs)
  have "set (oset_insert_all lt (x # xs) s) \<subseteq> set xs \<union> set (oset_insert lt x s)"
    using Cons.IH by simp
  then show ?case using set_oset_insert_subset by fastforce
qed simp

text \<open>
  The contract of a comparator. \<open>key\<close> collects, in the order of comparison, what the
  comparator looks at.
\<close>

locale key_order =
  fixes lt :: "'a \<Rightarrow> 'a \<Rightarrow> bool"
    and key :: "'a \<Rightarrow> 'k::linorder"
  assumes lt_key: "lt x y \<longleftrightarrow> key x < key y"
begin

abbreviation ordered :: "'a list \<Rightarrow> bool" where
  "ordered s \<equiv> sorted_wrt lt s"

lemma lt_irrefl [simp]: "\<not> lt x x"
  by (simp add: lt_key)

lemma lt_trans: "lt x y \<Longrightarrow> lt y z \<Longrightarrow> lt x z"
  by (simp add: lt_key)

lemma lt_asym: "lt x y \<Longrightarrow> \<not> lt y x"
  by (simp add: lt_key)

lemma equiv_iff: "\<not> lt x y \<and> \<not> lt y x \<longleftrightarrow> key x = key y"
  by (auto simp: lt_key)

lemma ordered_iff: "ordered s \<longleftrightarrow> sorted_wrt (<) (map key s)"
  by (induction s) (auto simp: lt_key)

lemma ordered_distinct_keys: "ordered s \<Longrightarrow> distinct (map key s)"
  by (simp add: ordered_iff strict_sorted_iff)

lemma ordered_distinct: "ordered s \<Longrightarrow> distinct s"
  using ordered_distinct_keys distinct_map by blast

lemma keys_insert: "key ` set (oset_insert lt x s) = insert (key x) (key ` set s)"
proof (induction s)
  case (Cons y ys)
  then show ?case by (auto simp: lt_key not_less)
qed simp

lemma ordered_insert [intro]: "ordered s \<Longrightarrow> ordered (oset_insert lt x s)"
proof (induction s)
  case (Cons y ys)
  have *: "\<forall>z \<in> set (oset_insert lt x ys). z = x \<or> z \<in> set ys"
    using set_oset_insert_subset by fastforce
  show ?case
    using Cons * by (auto intro: lt_trans)
qed simp

lemma ordered_insert_all [intro]: "ordered s \<Longrightarrow> ordered (oset_insert_all lt xs s)"
  by (induction xs arbitrary: s) auto

lemma mem_iff: "oset_mem lt x s \<longleftrightarrow> key x \<in> key ` set s"
  unfolding oset_mem_def list_ex_iff equiv_iff by force

lemma insert_present: "ordered s \<Longrightarrow> oset_mem lt x s \<Longrightarrow> oset_insert lt x s = s"
proof (induction s)
  case Nil
  then show ?case by (simp add: oset_mem_def)
next
  case (Cons y ys)
  show ?case
  proof (cases "lt x y")
    case True
    have "\<not> oset_mem lt x (y # ys)"
      using Cons.prems(1) True by (auto simp: mem_iff lt_key dest: less_trans)
    then show ?thesis using Cons.prems(2) by simp
  next
    case False
    then show ?thesis
      using Cons by (auto simp: oset_mem_def)
  qed
qed

lemma insert_absent:
  "\<not> oset_mem lt x s \<Longrightarrow>
   set (oset_insert lt x s) = insert x (set s) \<and> length (oset_insert lt x s) = Suc (length s)"
  by (induction s) (auto simp: mem_iff lt_key)

lemma insert_length_mono: "length s \<le> length (oset_insert lt x s)"
  by (induction s) auto

lemma insert_grows_iff:
  "ordered s \<Longrightarrow> length s < length (oset_insert lt x s) \<longleftrightarrow> \<not> oset_mem lt x s"
  using insert_present insert_absent by (metis lessI nat_neq_iff)

lemma set_insert_inj:
  assumes "inj_on key (insert x (set s))"
  shows "set (oset_insert lt x s) = insert x (set s)"
proof (cases "oset_mem lt x s")
  case True
  then obtain y where "y \<in> set s" "key x = key y"
    by (auto simp: mem_iff)
  then have "x \<in> set s"
    using assms by (metis inj_onD insertCI)
  then show ?thesis
    using set_oset_insert_subset set_oset_insert_superset by (metis insert_absorb subset_antisym)
next
  case False
  then show ?thesis using insert_absent by blast
qed

lemma mem_inj:
  assumes "inj_on key (insert x (set s))"
  shows "oset_mem lt x s \<longleftrightarrow> x \<in> set s"
  using assms by (auto simp: mem_iff inj_on_def)

lemma set_insert_all_inj:
  assumes "inj_on key (set xs \<union> set s)"
  shows "set (oset_insert_all lt xs s) = set xs \<union> set s"
  using assms
proof (induction xs arbitrary: s)
  case (Cons x xs)
  have 1: "set (oset_insert lt x s) = insert x (set s)"
    by (rule set_insert_inj) (rule inj_on_subset [OF Cons.prems], auto)
  have "inj_on key (set xs \<union> set (oset_insert lt x s))"
    unfolding 1 by (rule inj_on_subset [OF Cons.prems]) auto
  then show ?case using Cons.IH 1 by simp
qed simp

lemma ordered_ext:
  assumes "ordered s" "ordered t" "set s = set t"
  shows "s = t"
proof -
  have "map key s = map key t"
    using assms by (intro strict_sorted_equal) (auto simp: ordered_iff)
  moreover have "inj_on key (set s \<union> set t)"
    using ordered_distinct_keys [OF assms(1)] assms(3) by (simp add: distinct_map)
  ultimately show ?thesis
    using map_inj_on by blast
qed

lemma next_least:
  assumes "ordered s" "z \<in> set s" "lt x z"
  shows "\<exists>y. oset_next lt x s = Some y \<and> (z = y \<or> lt y z)"
  using assms by (induction s) (auto simp: oset_next_def)

lemma next_decreases:
  assumes "oset_next lt x s = Some y"
  shows "{z \<in> set s. lt y z} \<subset> {z \<in> set s. lt x z}"
  using oset_next_Some [OF assms] by (auto simp: lt_key dest: less_trans)

end

text \<open>
  Ordered maps: the list of their entries in the order of the keys. \<open>omap_set\<close> is the assignment
  \<^verbatim>\<open>m[k] = v\<close>, \<open>omap_get\<close> is \<^verbatim>\<open>m.find(k)\<close>.
\<close>

fun omap_set :: "('a \<Rightarrow> 'a \<Rightarrow> bool) \<Rightarrow> 'a \<Rightarrow> 'v \<Rightarrow> ('a \<times> 'v) list \<Rightarrow> ('a \<times> 'v) list" where
  "omap_set lt k v [] = [(k, v)]"
| "omap_set lt k v (e # m) =
     (if lt k (fst e) then (k, v) # e # m
      else if lt (fst e) k then e # omap_set lt k v m
      else (fst e, v) # m)"

fun omap_get :: "('a \<Rightarrow> 'a \<Rightarrow> bool) \<Rightarrow> 'a \<Rightarrow> ('a \<times> 'v) list \<Rightarrow> 'v option" where
  "omap_get lt k [] = None"
| "omap_get lt k (e # m) =
     (if \<not> lt k (fst e) \<and> \<not> lt (fst e) k then Some (snd e) else omap_get lt k m)"

context key_order begin

lemma lt_eq: "lt = (\<lambda>x y. key x < key y)"
  by (intro ext) (rule lt_key)

lemma get_set: "omap_get lt k' (omap_set lt k v m) = (if key k = key k' then Some v else omap_get lt k' m)"
  unfolding lt_eq by (induction m) auto

lemma keys_set: "key ` fst ` set (omap_set lt k v m) = insert (key k) (key ` fst ` set m)"
proof (induction m)
  case (Cons e m)
  then show ?case by (auto simp: lt_key not_less)
qed simp

lemma ordered_set: "ordered (map fst m) \<Longrightarrow> ordered (map fst (omap_set lt k v m))"
proof (induction m)
  case (Cons e m)
  have *: "key (fst x) = key k \<or> (\<exists>y \<in> set m. key (fst x) = key (fst y))"
    if "x \<in> set (omap_set lt k v m)" for x
  proof -
    have "key (fst x) \<in> insert (key k) (key ` fst ` set m)"
      using that by (subst keys_set [where v = v, symmetric]) (intro imageI)
    then show ?thesis by auto
  qed
  show ?case
    using Cons * unfolding lt_eq by (fastforce dest: less_trans)
qed simp

lemma get_None: "omap_get lt k m = None \<longleftrightarrow> key k \<notin> key ` fst ` set m"
  unfolding lt_eq by (induction m) auto

lemma get_entry: "ordered (map fst m) \<Longrightarrow> (k, v) \<in> set m \<Longrightarrow> omap_get lt k m = Some v"
  unfolding lt_eq by (induction m) force+

lemma get_Some: "omap_get lt k m = Some v \<Longrightarrow> \<exists>k'. (k', v) \<in> set m \<and> key k' = key k"
proof (induction m)
  case (Cons e m)
  show ?case
  proof (cases "key k = key (fst e)")
    case True
    then have "(fst e, v) \<in> set (e # m)" "key (fst e) = key k"
      using Cons.prems by (auto simp: lt_key)
    then show ?thesis by blast
  next
    case False
    then show ?thesis using Cons by (auto simp: equiv_iff)
  qed
qed simp

end

text \<open>Sets of numbers are compared by the number itself, so equivalence is equality.\<close>

interpretation natset: key_order "(<) :: nat \<Rightarrow> nat \<Rightarrow> bool" "\<lambda>x. x"
  by unfold_locales simp

lemma set_nat_insert [simp, oset_simps]: "set (oset_insert (<) (x::nat) s) = insert x (set s)"
  by (rule natset.set_insert_inj) simp

lemma nat_mem_iff [simp, oset_simps]: "oset_mem (<) (x::nat) s \<longleftrightarrow> x \<in> set s"
  by (rule natset.mem_inj) simp

lemma set_nat_insert_all [simp, oset_simps]:
  "set (oset_insert_all (<) (xs::nat list) s) = set xs \<union> set s"
  by (rule natset.set_insert_all_inj) simp

lemma set_nat_omap_set:
  "natset.ordered (map fst m) \<Longrightarrow> set (omap_set (<) (k::nat) v m) = insert (k, v) {e \<in> set m. fst e \<noteq> k}"
proof (induction m)
  case (Cons e m)
  obtain k' v' where e: "e = (k', v')" by (cases e)
  have "\<forall>x \<in> set m. k' < fst x" using Cons.prems e by auto
  then show ?case
    using Cons e by (cases k k' rule: linorder_cases) fastforce+
qed simp

section \<open>Vectors of ordered sets of numbers\<close>

text \<open>
  The statement \<^verbatim>\<open>if (v[i].insert(a).second) bChanged = true;\<close> on a vector of number sets. An
  index outside the vector, undefined in the source, changes nothing here.
\<close>

definition vset_insert :: "nat \<Rightarrow> nat \<Rightarrow> nat list list \<times> bool \<Rightarrow> nat list list \<times> bool" where
  "vset_insert i a vc =
     (let (v, c) = vc
      in if i < length v \<and> \<not> oset_mem (<) a (v ! i)
         then (v[i := oset_insert (<) a (v ! i)], True) else (v, c))"

definition vset_insert_all :: "nat \<Rightarrow> nat list \<Rightarrow> nat list list \<times> bool \<Rightarrow> nat list list \<times> bool" where
  "vset_insert_all i as vc = fold (vset_insert i) as vc"

text \<open>The relation a vector of sets stands for.\<close>

definition vset_rel :: "nat list list \<Rightarrow> (nat \<times> nat) set" where
  "vset_rel v = {(i, a). i < length v \<and> a \<in> set (v ! i)}"

lemma vset_rel_iff [simp]: "(i, a) \<in> vset_rel v \<longleftrightarrow> i < length v \<and> a \<in> set (v ! i)"
  by (simp add: vset_rel_def)

lemma vset_insert_fst:
  "vset_rel (fst (vset_insert i a vc)) =
     (if i < length (fst vc) then insert (i, a) (vset_rel (fst vc)) else vset_rel (fst vc))"
  by (cases vc) (auto simp: vset_insert_def vset_rel_def nth_list_update split: if_splits)

lemma vset_insert_length [simp]: "length (fst (vset_insert i a vc)) = length (fst vc)"
  by (cases vc) (simp add: vset_insert_def)

lemma vset_insert_snd:
  "snd (vset_insert i a vc) \<longleftrightarrow>
     snd vc \<or> (i < length (fst vc) \<and> (i, a) \<notin> vset_rel (fst vc))"
  by (cases vc) (auto simp: vset_insert_def)

lemma vset_insert_same:
  "i < length (fst vc) \<longrightarrow> (i, a) \<in> vset_rel (fst vc) \<Longrightarrow> fst (vset_insert i a vc) = fst vc"
  by (cases vc) (auto simp: vset_insert_def)

text \<open>
  Every pass over such a vector is a sequence of insertions, so what a pass does is stated
  for any function built from them: it keeps the length, it grows the relation, and it leaves the
  vector alone when it reports no change.
\<close>

definition vset_step :: "nat list list \<times> bool \<Rightarrow> nat list list \<times> bool \<Rightarrow> bool" where
  "vset_step vc vc' \<longleftrightarrow>
     length (fst vc') = length (fst vc) \<and>
     vset_rel (fst vc) \<subseteq> vset_rel (fst vc') \<and>
     (snd vc \<longrightarrow> snd vc') \<and>
     (\<not> snd vc' \<longrightarrow> fst vc' = fst vc) \<and>
     (snd vc' \<longrightarrow> snd vc \<or> vset_rel (fst vc) \<noteq> vset_rel (fst vc')) \<and>
     (list_all (sorted_wrt (<)) (fst vc) \<longrightarrow> list_all (sorted_wrt (<)) (fst vc'))"

lemma vset_step_refl [intro!]: "vset_step vc vc"
  by (simp add: vset_step_def)

lemma vset_step_trans: "vset_step a b \<Longrightarrow> vset_step b c \<Longrightarrow> vset_step a c"
  unfolding vset_step_def by (intro conjI) (blast | metis subset_antisym)+

lemma vset_step_insert [intro!]: "vset_step vc (vset_insert i a vc)"
proof -
  obtain v c where vc: "vc = (v, c)" by (cases vc)
  have "list_all (sorted_wrt (<)) v \<longrightarrow>
      list_all (sorted_wrt (<)) (fst (vset_insert i a (v, c)))"
    by (auto simp: vset_insert_def list_all_length nth_list_update natset.ordered_insert)
  moreover have "fst (vset_insert i a (v, c)) = v" if "\<not> snd (vset_insert i a (v, c))"
    using that by (auto simp: vset_insert_def Let_def split: if_splits)
  moreover have "(i, a) \<in> vset_rel v" if "vset_rel v = insert (i, a) (vset_rel v)"
    using that by blast
  ultimately show ?thesis
    unfolding vset_step_def vc by (auto simp: vset_insert_fst vset_insert_snd)
qed

lemma vset_step_fold [intro!]:
  assumes "\<And>x vc. x \<in> set xs \<Longrightarrow> vset_step vc (f x vc)"
  shows "vset_step vc (fold f xs vc)"
  using assms
proof (induction xs arbitrary: vc)
  case (Cons x xs)
  have "vset_step vc (f x vc)" "vset_step (f x vc) (fold f xs (f x vc))"
    using Cons.prems by (auto intro!: Cons.IH)
  then show ?case by (auto intro: vset_step_trans)
qed auto

lemma vset_step_insert_all [intro!]: "vset_step vc (vset_insert_all i as vc)"
  unfolding vset_insert_all_def by blast

lemma vset_step_length: "vset_step vc vc' \<Longrightarrow> length (fst vc') = length (fst vc)"
  by (simp add: vset_step_def)

lemma vset_insert_all_length [simp]: "length (fst (vset_insert_all i as vc)) = length (fst vc)"
  by (rule vset_step_length) blast

lemma vset_insert_all_fst:
  "vset_rel (fst (vset_insert_all i as vc)) =
     (if i < length (fst vc) then {i} \<times> set as \<union> vset_rel (fst vc) else vset_rel (fst vc))"
proof (induction as arbitrary: vc)
  case Nil
  then show ?case by (simp add: vset_insert_all_def)
next
  case (Cons a as)
  have "vset_insert_all i (a # as) vc = vset_insert_all i as (vset_insert i a vc)"
    by (simp add: vset_insert_all_def)
  then show ?case using Cons by (auto simp: vset_insert_fst)
qed

lemma set_two: "length xs = 2 \<Longrightarrow> set xs = {xs ! 0, xs ! 1}"
  by (cases xs; cases "tl xs") auto

section \<open>Loops that run until nothing changes\<close>

text \<open>
  \<^verbatim>\<open>bool bChanged = true; while (bChanged) { bChanged = false; \<dots> }\<close>: \<open>pass\<close> is the body, given
  the state and returning the new state and the flag. The result is \<open>None\<close> when the loop never
  ends.
\<close>

definition changed_loop :: "('s \<Rightarrow> 's \<times> bool) \<Rightarrow> 's \<Rightarrow> 's option" where
  "changed_loop pass s = map_option fst (while_option snd (\<lambda>sc. pass (fst sc)) (s, True))"

lemma changed_loop_invariant:
  assumes "changed_loop pass s = Some t" and "P s"
    and "\<And>s. P s \<Longrightarrow> P (fst (pass s))"
  shows "P t"
proof -
  obtain tc where tc: "while_option snd (\<lambda>sc. pass (fst sc)) (s, True) = Some tc" "t = fst tc"
    using assms(1) by (auto simp: changed_loop_def)
  have "P (fst tc)"
    by (rule while_option_rule [OF _ tc(1)]) (use assms(2,3) in auto)
  then show ?thesis using tc by simp
qed

locale changed_pass =
  fixes pass :: "'s \<Rightarrow> 's \<times> bool"
    and inv :: "'s \<Rightarrow> bool"
    and m :: "'s \<Rightarrow> nat"
  assumes pass_inv: "inv s \<Longrightarrow> inv (fst (pass s))"
    and pass_changed: "inv s \<Longrightarrow> snd (pass s) \<Longrightarrow> m (fst (pass s)) < m s"
    and pass_unchanged: "inv s \<Longrightarrow> \<not> snd (pass s) \<Longrightarrow> fst (pass s) = s"
begin

lemma loop_ends:
  assumes "inv s"
  shows "\<exists>t. changed_loop pass s = Some t \<and> inv t \<and> pass t = (t, False)"
proof -
  define I where "I sc \<longleftrightarrow> inv (fst sc) \<and> (\<not> snd sc \<longrightarrow> pass (fst sc) = sc)" for sc
  define f where "f sc = 2 * m (fst sc) + (if snd sc then 1 else 0)" for sc
  have step: "I (pass (fst sc))" if "I sc" "snd sc" for sc
    using that pass_inv pass_unchanged by (auto simp: I_def prod_eq_iff)
  have dec: "f (pass (fst sc)) < f sc" if "I sc" "snd sc" for sc
    using that pass_changed [of "fst sc"] pass_unchanged [of "fst sc"]
    by (cases "snd (pass (fst sc))") (auto simp: I_def f_def)
  have "\<exists>tc. while_option snd (\<lambda>sc. pass (fst sc)) (s, True) = Some tc"
    by (rule measure_while_option_Some [where P = I and f = f])
      (use step dec assms in \<open>auto simp: I_def\<close>)
  then obtain tc where tc: "while_option snd (\<lambda>sc. pass (fst sc)) (s, True) = Some tc" by blast
  have "I tc"
    by (rule while_option_rule [OF _ tc]) (use step assms in \<open>auto simp: I_def\<close>)
  moreover have "\<not> snd tc" by (rule while_option_stop [OF tc])
  ultimately show ?thesis
    using tc by (cases tc) (auto simp: changed_loop_def I_def)
qed

end

text \<open>
  A pass over a vector of \<open>n\<close> sets that only inserts elements of a finite universe. Its loop
  ends, because the relation the vector stands for grows with every change.
\<close>

locale vset_pass =
  fixes pass :: "nat list list \<Rightarrow> nat list list \<times> bool"
    and n :: nat
    and U :: "nat set"
  assumes finite_U: "finite U"
    and pass_step: "length v = n \<Longrightarrow> vset_step (v, False) (pass v)"
    and pass_within: "length v = n \<Longrightarrow> vset_rel v \<subseteq> {..<n} \<times> U \<Longrightarrow>
      vset_rel (fst (pass v)) \<subseteq> {..<n} \<times> U"

sublocale vset_pass \<subseteq> changed_pass pass
  "\<lambda>v. length v = n \<and> vset_rel v \<subseteq> {..<n} \<times> U \<and> list_all (sorted_wrt (<)) v"
  "\<lambda>v. card ({..<n} \<times> U - vset_rel v)"
proof
  fix v :: "nat list list"
  let ?W = "{..<n} \<times> U"
  assume v: "length v = n \<and> vset_rel v \<subseteq> ?W \<and> list_all (sorted_wrt (<)) v"
  note st = pass_step [of v] and wi = pass_within [of v]
  show "length (fst (pass v)) = n \<and> vset_rel (fst (pass v)) \<subseteq> ?W \<and>
      list_all (sorted_wrt (<)) (fst (pass v))"
    using v st wi by (simp add: vset_step_def)
  show "card (?W - vset_rel (fst (pass v))) < card (?W - vset_rel v)" if "snd (pass v)"
  proof (rule psubset_card_mono)
    show "finite (?W - vset_rel v)" using finite_U by simp
    have "vset_rel v \<subset> vset_rel (fst (pass v))"
      using that v st by (auto simp: vset_step_def)
    moreover have "vset_rel (fst (pass v)) \<subseteq> ?W" using v wi by simp
    ultimately show "?W - vset_rel (fst (pass v)) \<subset> ?W - vset_rel v" by blast
  qed
  show "fst (pass v) = v" if "\<not> snd (pass v)"
    using that v st by (simp add: vset_step_def)
qed

text \<open>The sources always start such a loop on empty sets.\<close>

context vset_pass begin

lemma loop_from_empty:
  "\<exists>v. changed_loop pass (replicate n []) = Some v \<and> length v = n \<and>
     list_all (sorted_wrt (<)) v \<and> pass v = (v, False)"
proof -
  have "vset_rel (replicate n []) = {}" by (auto simp: vset_rel_def)
  then show ?thesis
    using loop_ends [of "replicate n []"] by (auto simp: list_all_length)
qed

end

text \<open>When a pass built from steps reports no change, each of its steps did nothing.\<close>

lemma vset_fold_unchanged:
  assumes "\<And>x vc. x \<in> set xs \<Longrightarrow> vset_step vc (f x vc)"
    and "fold f xs (v, False) = (v, False)" and "x \<in> set xs"
  shows "f x (v, False) = (v, False)"
  using assms
proof (induction xs)
  case (Cons y ys)
  obtain w c where y: "f y (v, False) = (w, c)" by (cases "f y (v, False)")
  have "vset_step (w, c) (v, False)"
    using vset_step_fold [of ys f "(w, c)"] Cons.prems y by auto
  moreover have "vset_step (v, False) (w, c)"
    using Cons.prems(1) [of y "(v, False)"] y by simp
  ultimately have "w = v \<and> \<not> c" by (auto simp: vset_step_def)
  then show ?case
    using Cons y by (auto split: if_splits)
qed simp

section \<open>Lists\<close>

lemma list_all2_setD1: "list_all2 P xs ys \<Longrightarrow> x \<in> set xs \<Longrightarrow> \<exists>y \<in> set ys. P x y"
  by (induction rule: list_all2_induct) auto

lemma list_all2_setD2: "list_all2 P xs ys \<Longrightarrow> y \<in> set ys \<Longrightarrow> \<exists>x \<in> set xs. P x y"
  by (induction rule: list_all2_induct) auto

lemma fold_invariant_list:
  assumes "P s" and "\<And>x s. x \<in> set xs \<Longrightarrow> P s \<Longrightarrow> P (f x s)"
  shows "P (fold f xs s)"
  using assms by (induction xs arbitrary: s) auto

end
