(* ===== verification/CommonTypes.thy ===== *)
theory CommonTypes
  imports Prelude
begin

text \<open>
  The encoded rules and LR items of \<^verbatim>\<open>afglrparserlib/commontypes.h\<close> and the key of the goto map of
  \<^verbatim>\<open>lr-items.h\<close>, with their comparators. A symbol number is an index into
  \<^verbatim>\<open>CWorkGrammar::m_UniqueGrammarItems\<close>, so it is a natural number here. The pointer
  \<^verbatim>\<open>CLRItem::m_pRule\<close> points into the immutable rule set of the grammar and is modelled by the rule
  it points to.

  Each comparator is shown to be a lexicographic order on a key, which is what \<^verbatim>\<open>yset\<close> needs of it;
  the interpretations make the facts on ordered sets available for rules, items and goto keys.
\<close>

type_synonym symbol = nat

record CWorkRightRulePart =
  m_Items :: "symbol list"
  m_SynMainItemNo :: nat

definition right_part_eq :: "CWorkRightRulePart \<Rightarrow> CWorkRightRulePart \<Rightarrow> bool" where
  "right_part_eq x y \<longleftrightarrow> m_Items x = m_Items y \<and> m_SynMainItemNo x = m_SynMainItemNo y"

definition right_part_less :: "CWorkRightRulePart \<Rightarrow> CWorkRightRulePart \<Rightarrow> bool" where
  "right_part_less x y =
     (if m_Items x \<noteq> m_Items y then m_Items x < m_Items y
      else m_SynMainItemNo x < m_SynMainItemNo y)"

record CWorkRule =
  m_OriginalRuleNo :: nat
  m_LeftPart :: symbol
  m_RightPart :: CWorkRightRulePart

definition work_rule_eq :: "CWorkRule \<Rightarrow> CWorkRule \<Rightarrow> bool" where
  "work_rule_eq x y \<longleftrightarrow>
     m_LeftPart x = m_LeftPart y \<and> right_part_eq (m_RightPart x) (m_RightPart y)"

definition work_rule_less :: "CWorkRule \<Rightarrow> CWorkRule \<Rightarrow> bool" where
  "work_rule_less x y =
     (if \<not> right_part_eq (m_RightPart x) (m_RightPart y)
      then right_part_less (m_RightPart x) (m_RightPart y)
      else m_LeftPart x < m_LeftPart y)"

record CLRItem =
  m_pRule :: CWorkRule
  m_DotSymbolNo :: nat

definition lr_item_less :: "CLRItem \<Rightarrow> CLRItem \<Rightarrow> bool" where
  "lr_item_less x y =
     (if m_DotSymbolNo x \<noteq> m_DotSymbolNo y then m_DotSymbolNo x < m_DotSymbolNo y
      else m_OriginalRuleNo (m_pRule x) < m_OriginalRuleNo (m_pRule y))"

definition lr_item_eq :: "CLRItem \<Rightarrow> CLRItem \<Rightarrow> bool" where
  "lr_item_eq x y \<longleftrightarrow>
     m_DotSymbolNo x = m_DotSymbolNo y \<and>
     m_OriginalRuleNo (m_pRule x) = m_OriginalRuleNo (m_pRule y)"

text \<open>The right part of a rule as a word, used all over the development.\<close>

abbreviation rhs :: "CWorkRule \<Rightarrow> symbol list" where
  "rhs r \<equiv> m_Items (m_RightPart r)"

definition IsFinished :: "CLRItem \<Rightarrow> bool" where
  "IsFinished it \<longleftrightarrow> length (rhs (m_pRule it)) = m_DotSymbolNo it"

definition GetSymbolNo :: "CLRItem \<Rightarrow> symbol" where
  "GetSymbolNo it = rhs (m_pRule it) ! m_DotSymbolNo it"

record CStateAndSymbol =
  m_SymbolNo :: symbol
  m_StateNo :: nat

definition state_and_symbol_less :: "CStateAndSymbol \<Rightarrow> CStateAndSymbol \<Rightarrow> bool" where
  "state_and_symbol_less x y =
     (if m_SymbolNo x \<noteq> m_SymbolNo y then m_SymbolNo x < m_SymbolNo y
      else m_StateNo x < m_StateNo y)"

section \<open>The comparators are orders\<close>

definition right_part_key :: "CWorkRightRulePart \<Rightarrow> symbol list \<times> nat" where
  "right_part_key x = (m_Items x, m_SynMainItemNo x)"

definition work_rule_key :: "CWorkRule \<Rightarrow> (symbol list \<times> nat) \<times> symbol" where
  "work_rule_key x = (right_part_key (m_RightPart x), m_LeftPart x)"

definition lr_item_key :: "CLRItem \<Rightarrow> nat \<times> nat" where
  "lr_item_key x = (m_DotSymbolNo x, m_OriginalRuleNo (m_pRule x))"

definition state_and_symbol_key :: "CStateAndSymbol \<Rightarrow> symbol \<times> nat" where
  "state_and_symbol_key x = (m_SymbolNo x, m_StateNo x)"

lemmas key_defs = right_part_key_def work_rule_key_def lr_item_key_def state_and_symbol_key_def

interpretation right_part: key_order right_part_less right_part_key
  by unfold_locales (auto simp: right_part_less_def key_defs)

interpretation work_rule: key_order work_rule_less work_rule_key
  by unfold_locales
    (auto simp: work_rule_less_def right_part_eq_def right_part_less_def key_defs)

interpretation lr_item: key_order lr_item_less lr_item_key
  by unfold_locales (auto simp: lr_item_less_def key_defs)

interpretation state_and_symbol: key_order state_and_symbol_less state_and_symbol_key
  by unfold_locales (auto simp: state_and_symbol_less_def key_defs)

lemma lr_item_eq_key: "lr_item_eq x y \<longleftrightarrow> lr_item_key x = lr_item_key y"
  by (auto simp: lr_item_eq_def key_defs)

lemma work_rule_eq_key: "work_rule_eq x y \<longleftrightarrow> work_rule_key x = work_rule_key y"
  by (auto simp: work_rule_eq_def right_part_eq_def key_defs)

lemma state_and_symbol_inj: "inj state_and_symbol_key"
  by (auto simp: inj_def key_defs)

text \<open>
  Equivalence under \<^verbatim>\<open>operator <\<close> is \<^verbatim>\<open>operator ==\<close>, for each of the two types that have both.
\<close>

lemma equivalence_is_equality:
  "(\<not> work_rule_less r s \<and> \<not> work_rule_less s r) = work_rule_eq r s"
  "(\<not> lr_item_less x y \<and> \<not> lr_item_less y x) = lr_item_eq x y"
  by (simp_all add: work_rule.equiv_iff lr_item.equiv_iff work_rule_eq_key lr_item_eq_key)

text \<open>
  On items of rules whose original numbers differ, equivalent items are equal, and the length
  of the right part bounds the dot.
\<close>

lemma lr_item_key_inj_on:
  assumes "inj_on m_OriginalRuleNo R" and "\<forall>it \<in> S. m_pRule it \<in> R"
  shows "inj_on lr_item_key S"
proof (rule inj_onI)
  fix x y assume "x \<in> S" "y \<in> S" "lr_item_key x = lr_item_key y"
  moreover from this have "m_pRule x = m_pRule y"
    using assms by (auto simp: key_defs inj_on_def)
  ultimately show "x = y"
    by (cases x, cases y) (auto simp: key_defs)
qed

end
