(* ===== verification/GrammarItem.thy ===== *)
theory GrammarItem
  imports CommonTypes "HOL-Library.Option_ord"
begin

text \<open>
  Grammar symbols: \<^verbatim>\<open>CGrammarItem\<close> and its \<^verbatim>\<open>SPostfixStore\<close> (\<^verbatim>\<open>afglrparserlib/grammaritem.h\<close>,
  \<^verbatim>\<open>grammaritem.cpp\<close>), the attribute names and values of \<^verbatim>\<open>agreement.h\<close>, the word-form regular
  expression holder of \<^verbatim>\<open>agreement.h\<close> and the article pointer of \<^verbatim>\<open>common/toma_constants.h\<close>.

  Modelling choices: a \<^verbatim>\<open>TGramBitSet\<close> is the vector of its chunks, which is what its comparator
  walks over; a \<^verbatim>\<open>TKeyWordType\<close> is the pair of index and full name of the descriptor it points to,
  \<open>None\<close> for the null pointer; wide strings are lists of code units; the attribute map is its
  sorted list of pairs. The compiled matcher of a regular expression is a function of its pattern
  and is left out.
\<close>

section \<open>Enumerations\<close>

datatype SimpleItemEnum = siUnknown | siString | siMeta | siRomanNumber | siFileList
  | siMorphologicalyUnknown | siMorphPattern | siNumber | siAnyWord

datatype ePrefix = HOM | NO_HOMS | EXCLUDE_FROM_NORM | HREG | HREG1 | HREG2 | DICT | LAT | ORGAN
  | GEO | NAME_DIC | LREG | DICT_KWTYPE | DICT_NOT_KWTYPE | REPLACE_INTERP | REG_EXP | NOT_REG_EXP
  | FIRST_LET_IN_SENT | IS_MULTIWORD | DICT_LABEL | DICT_NOT_LABEL

datatype ePostfix = NO_PREP | NO_HOMONYMS | ALL_LET | FIRST_LET | SECOND_LET | NOt | LATIN
  | DICT_ORG | DICT_GEO | DICT_NAME | YEs | PostfixCount

text \<open>The C++ enumerations compare as their numbers do.\<close>

fun item_type_no :: "SimpleItemEnum \<Rightarrow> nat" where
  "item_type_no siUnknown = 0"
| "item_type_no siString = 1"
| "item_type_no siMeta = 2"
| "item_type_no siRomanNumber = 3"
| "item_type_no siFileList = 4"
| "item_type_no siMorphologicalyUnknown = 5"
| "item_type_no siMorphPattern = 6"
| "item_type_no siNumber = 7"
| "item_type_no siAnyWord = 8"

fun postfix_no :: "ePostfix \<Rightarrow> nat" where
  "postfix_no NO_PREP = 0"
| "postfix_no NO_HOMONYMS = 1"
| "postfix_no ALL_LET = 2"
| "postfix_no FIRST_LET = 3"
| "postfix_no SECOND_LET = 4"
| "postfix_no NOt = 5"
| "postfix_no LATIN = 6"
| "postfix_no DICT_ORG = 7"
| "postfix_no DICT_GEO = 8"
| "postfix_no DICT_NAME = 9"
| "postfix_no YEs = 10"
| "postfix_no PostfixCount = 11"

lemma item_type_no_inj: "item_type_no x = item_type_no y \<longleftrightarrow> x = y"
  by (cases x; cases y) auto

lemma postfix_no_inj: "postfix_no x = postfix_no y \<longleftrightarrow> x = y"
  by (cases x; cases y) auto

instantiation SimpleItemEnum :: linorder
begin

definition less_eq_SimpleItemEnum :: "SimpleItemEnum \<Rightarrow> SimpleItemEnum \<Rightarrow> bool" where
  "less_eq_SimpleItemEnum x y \<longleftrightarrow> item_type_no x \<le> item_type_no y"

definition less_SimpleItemEnum :: "SimpleItemEnum \<Rightarrow> SimpleItemEnum \<Rightarrow> bool" where
  "less_SimpleItemEnum x y \<longleftrightarrow> item_type_no x < item_type_no y"

instance
  by standard
    (auto simp: less_eq_SimpleItemEnum_def less_SimpleItemEnum_def item_type_no_inj
      dest: order_antisym)

end

instantiation ePostfix :: linorder
begin

definition less_eq_ePostfix :: "ePostfix \<Rightarrow> ePostfix \<Rightarrow> bool" where
  "less_eq_ePostfix x y \<longleftrightarrow> postfix_no x \<le> postfix_no y"

definition less_ePostfix :: "ePostfix \<Rightarrow> ePostfix \<Rightarrow> bool" where
  "less_ePostfix x y \<longleftrightarrow> postfix_no x < postfix_no y"

instance
  by standard
    (auto simp: less_eq_ePostfix_def less_ePostfix_def postfix_no_inj dest: order_antisym)

end

section \<open>Attribute names and values\<close>

fun AlphabetPrefix :: "ePrefix \<Rightarrow> string" where
  "AlphabetPrefix HOM = ''Hom''"
| "AlphabetPrefix NO_HOMS = ''N0Homonym''"
| "AlphabetPrefix EXCLUDE_FROM_NORM = ''ExcludeFromNorm''"
| "AlphabetPrefix HREG = ''HReg''"
| "AlphabetPrefix HREG1 = ''HReg1''"
| "AlphabetPrefix HREG2 = ''HReg2''"
| "AlphabetPrefix DICT = ''Dict''"
| "AlphabetPrefix LAT = ''Lat''"
| "AlphabetPrefix ORGAN = ''Org''"
| "AlphabetPrefix GEO = ''Geo''"
| "AlphabetPrefix NAME_DIC = ''Name''"
| "AlphabetPrefix LREG = ''LReg''"
| "AlphabetPrefix DICT_KWTYPE = ''KWType''"
| "AlphabetPrefix DICT_NOT_KWTYPE = ''NotKWType''"
| "AlphabetPrefix REPLACE_INTERP = ''ReplaceInterp''"
| "AlphabetPrefix REG_EXP = ''RegExp''"
| "AlphabetPrefix NOT_REG_EXP = ''NotRegExp''"
| "AlphabetPrefix FIRST_LET_IN_SENT = ''FirstLetInSent''"
| "AlphabetPrefix IS_MULTIWORD = ''IsMultiword''"
| "AlphabetPrefix DICT_LABEL = ''Label''"
| "AlphabetPrefix DICT_NOT_LABEL = ''NotLabel''"

definition all_prefixes :: "ePrefix list" where
  "all_prefixes =
     [HOM, NO_HOMS, EXCLUDE_FROM_NORM, HREG, HREG1, HREG2, DICT, LAT, ORGAN, GEO, NAME_DIC, LREG,
      DICT_KWTYPE, DICT_NOT_KWTYPE, REPLACE_INTERP, REG_EXP, NOT_REG_EXP, FIRST_LET_IN_SENT,
      IS_MULTIWORD, DICT_LABEL, DICT_NOT_LABEL]"

text \<open>\<^verbatim>\<open>AttributeValues\<close>, in the order of \<^verbatim>\<open>ePostfix\<close>.\<close>

definition AttributeValues :: "(ePostfix \<times> string) list" where
  "AttributeValues =
     [(NO_PREP, ''not_prep''), (NO_HOMONYMS, ''no_homs''), (ALL_LET, ''all''), (FIRST_LET, ''one''),
      (SECOND_LET, ''two''), (NOt, ''not''), (LATIN, ''latin''), (DICT_ORG, ''org''),
      (DICT_GEO, ''geo''), (DICT_NAME, ''name''), (YEs, ''yes'')]"

definition Str2Postfix :: "string \<Rightarrow> ePostfix" where
  "Str2Postfix str =
     (case List.find (\<lambda>(_, v). v = str) AttributeValues of
        Some (p, _) \<Rightarrow> p | None \<Rightarrow> PostfixCount)"

definition IsNoneKWType :: "string \<Rightarrow> bool" where
  "IsNoneKWType name \<longleftrightarrow> name = ''none''"

section \<open>Article pointers and word-form regular expressions\<close>

type_synonym Wtroka = "nat list"
type_synonym TGramBitSet = "nat list"
type_synonym TKeyWordType = "(nat \<times> string) option"

record SArtPointer =
  m_strArt :: Wtroka
  m_KWType :: TKeyWordType

definition art_empty :: SArtPointer where
  "art_empty = \<lparr>m_strArt = [], m_KWType = None\<rparr>"

definition art_eq :: "SArtPointer \<Rightarrow> SArtPointer \<Rightarrow> bool" where
  "art_eq x y =
     (if m_KWType x \<noteq> m_KWType y then False
      else if m_KWType x \<noteq> None then True
      else m_strArt x = m_strArt y)"

definition art_less :: "SArtPointer \<Rightarrow> SArtPointer \<Rightarrow> bool" where
  "art_less x y =
     (if m_KWType x \<noteq> m_KWType y then m_KWType x < m_KWType y else m_strArt x < m_strArt y)"

definition PutKWType :: "TKeyWordType \<Rightarrow> SArtPointer \<Rightarrow> SArtPointer" where
  "PutKWType kw p = (if kw = None then p else p\<lparr>m_KWType := kw, m_strArt := []\<rparr>)"

definition PutStrType :: "Wtroka \<Rightarrow> SArtPointer \<Rightarrow> SArtPointer" where
  "PutStrType s p = (if s = [] then p else p\<lparr>m_strArt := s, m_KWType := None\<rparr>)"

definition PutType :: "TKeyWordType \<Rightarrow> Wtroka \<Rightarrow> SArtPointer \<Rightarrow> SArtPointer" where
  "PutType kw s p = (if kw \<noteq> None then PutKWType kw p else PutStrType s p)"

definition art_IsValid :: "SArtPointer \<Rightarrow> bool" where
  "art_IsValid p \<longleftrightarrow> m_KWType p \<noteq> None \<or> m_strArt p \<noteq> []"

datatype EApplyPlace = ApplyToFirstWord | ApplyToLastWord | ApplyToMainWord

record CWordFormRegExp =
  Place :: EApplyPlace
  IsNegative :: bool
  RegexPattern :: string

definition regexp_init :: CWordFormRegExp where
  "regexp_init = \<lparr>Place = ApplyToMainWord, IsNegative = False, RegexPattern = ''''\<rparr>"

definition regexp_eq :: "CWordFormRegExp \<Rightarrow> CWordFormRegExp \<Rightarrow> bool" where
  "regexp_eq x y \<longleftrightarrow> RegexPattern x = RegexPattern y \<and> IsNegative x = IsNegative y"

definition regexp_less :: "CWordFormRegExp \<Rightarrow> CWordFormRegExp \<Rightarrow> bool" where
  "regexp_less x y =
     (if IsNegative x \<noteq> IsNegative y then IsNegative x < IsNegative y
      else RegexPattern x < RegexPattern y)"

definition regexp_IsEmpty :: "CWordFormRegExp \<Rightarrow> bool" where
  "regexp_IsEmpty r \<longleftrightarrow> RegexPattern r = ''''"

section \<open>Postfix stores\<close>

record SPostfixStore =
  m_hom :: ePostfix
  m_nohomonyms :: ePostfix
  m_hreg :: ePostfix
  m_hreg1 :: ePostfix
  m_hreg2 :: ePostfix
  m_dict :: ePostfix
  m_lat :: ePostfix
  m_org_morph_dict :: ePostfix
  m_geo_morph_dict :: ePostfix
  m_name_morph_dict :: ePostfix
  m_lreg :: ePostfix
  m_fw :: ePostfix
  m_is_multiword :: ePostfix
  m_exclude_from_normalization :: ePostfix
  m_is_none_kwtype :: bool
  m_dict_kwtype :: SArtPointer
  m_dict_not_kwtype :: SArtPointer
  m_dict_label :: SArtPointer
  m_dict_not_label :: SArtPointer
  m_WordRegExp :: CWordFormRegExp

definition postfix_store_init :: SPostfixStore where
  "postfix_store_init =
     \<lparr>m_hom = PostfixCount, m_nohomonyms = PostfixCount, m_hreg = PostfixCount,
      m_hreg1 = PostfixCount, m_hreg2 = PostfixCount, m_dict = PostfixCount, m_lat = PostfixCount,
      m_org_morph_dict = PostfixCount, m_geo_morph_dict = PostfixCount,
      m_name_morph_dict = PostfixCount, m_lreg = PostfixCount, m_fw = PostfixCount,
      m_is_multiword = PostfixCount, m_exclude_from_normalization = PostfixCount,
      m_is_none_kwtype = False, m_dict_kwtype = art_empty, m_dict_not_kwtype = art_empty,
      m_dict_label = art_empty, m_dict_not_label = art_empty, m_WordRegExp = regexp_init\<rparr>"

definition postfix_store_eq :: "SPostfixStore \<Rightarrow> SPostfixStore \<Rightarrow> bool" where
  "postfix_store_eq x y \<longleftrightarrow>
     m_hom x = m_hom y
     \<and> m_nohomonyms x = m_nohomonyms y
     \<and> m_hreg x = m_hreg y
     \<and> m_hreg1 x = m_hreg1 y
     \<and> m_hreg2 x = m_hreg2 y
     \<and> m_dict x = m_dict y
     \<and> m_lat x = m_lat y
     \<and> m_org_morph_dict x = m_org_morph_dict y
     \<and> m_geo_morph_dict x = m_geo_morph_dict y
     \<and> m_name_morph_dict x = m_name_morph_dict y
     \<and> m_lreg x = m_lreg y
     \<and> m_fw x = m_fw y
     \<and> m_is_multiword x = m_is_multiword y
     \<and> m_exclude_from_normalization x = m_exclude_from_normalization y
     \<and> m_is_none_kwtype x = m_is_none_kwtype y
     \<and> art_eq (m_dict_kwtype x) (m_dict_kwtype y)
     \<and> art_eq (m_dict_not_kwtype x) (m_dict_not_kwtype y)
     \<and> regexp_eq (m_WordRegExp x) (m_WordRegExp y)"

definition postfix_store_less :: "SPostfixStore \<Rightarrow> SPostfixStore \<Rightarrow> bool" where
  "postfix_store_less x y =
     (if m_hom x \<noteq> m_hom y then m_hom x < m_hom y
      else if m_nohomonyms x \<noteq> m_nohomonyms y then m_nohomonyms x < m_nohomonyms y
      else if m_hreg x \<noteq> m_hreg y then m_hreg x < m_hreg y
      else if m_hreg1 x \<noteq> m_hreg1 y then m_hreg1 x < m_hreg1 y
      else if m_hreg2 x \<noteq> m_hreg2 y then m_hreg2 x < m_hreg2 y
      else if m_dict x \<noteq> m_dict y then m_dict x < m_dict y
      else if m_lat x \<noteq> m_lat y then m_lat x < m_lat y
      else if m_org_morph_dict x \<noteq> m_org_morph_dict y then m_org_morph_dict x < m_org_morph_dict y
      else if m_geo_morph_dict x \<noteq> m_geo_morph_dict y then m_geo_morph_dict x < m_geo_morph_dict y
      else if m_name_morph_dict x \<noteq> m_name_morph_dict y
        then m_name_morph_dict x < m_name_morph_dict y
      else if m_lreg x \<noteq> m_lreg y then m_lreg x < m_lreg y
      else if m_fw x \<noteq> m_fw y then m_fw x < m_fw y
      else if m_is_multiword x \<noteq> m_is_multiword y then m_is_multiword x < m_is_multiword y
      else if m_exclude_from_normalization x \<noteq> m_exclude_from_normalization y
        then m_exclude_from_normalization x < m_exclude_from_normalization y
      else if m_is_none_kwtype x \<noteq> m_is_none_kwtype y then m_is_none_kwtype x < m_is_none_kwtype y
      else if \<not> art_eq (m_dict_kwtype x) (m_dict_kwtype y)
        then art_less (m_dict_kwtype x) (m_dict_kwtype y)
      else if \<not> art_eq (m_dict_not_kwtype x) (m_dict_not_kwtype y)
        then art_less (m_dict_not_kwtype x) (m_dict_not_kwtype y)
      else regexp_less (m_WordRegExp x) (m_WordRegExp y))"

section \<open>Grammar items\<close>

record CGrammarItem =
  m_Type :: SimpleItemEnum
  m_ItemStrId :: string
  m_Lemma :: Wtroka
  m_Attributes :: "(string \<times> string) list"
  m_Source :: string
  m_ItemGrammems :: TGramBitSet
  m_NegativeItemGrammems :: TGramBitSet
  m_GrmAttribute :: string
  m_bGrammarRoot :: bool
  m_bSynMain :: bool
  m_bCanHaveManyHomonyms :: bool
  m_vReplaceInterp :: "int list"
  m_PostfixStore :: SPostfixStore

text \<open>The constructor: note that a fresh item counts as a grammar root.\<close>

definition grammar_item_init :: CGrammarItem where
  "grammar_item_init =
     \<lparr>m_Type = siUnknown, m_ItemStrId = '''', m_Lemma = [], m_Attributes = [],
      m_Source = ''<empty>'', m_ItemGrammems = [], m_NegativeItemGrammems = [],
      m_GrmAttribute = '''', m_bGrammarRoot = True, m_bSynMain = False,
      m_bCanHaveManyHomonyms = True, m_vReplaceInterp = [], m_PostfixStore = postfix_store_init\<rparr>"

definition grammar_item_less :: "CGrammarItem \<Rightarrow> CGrammarItem \<Rightarrow> bool" where
  "grammar_item_less x y =
     (if m_ItemStrId x \<noteq> m_ItemStrId y then m_ItemStrId x < m_ItemStrId y
      else if m_Type x \<noteq> m_Type y then m_Type x < m_Type y
      else if m_ItemGrammems x \<noteq> m_ItemGrammems y then m_ItemGrammems x < m_ItemGrammems y
      else if m_NegativeItemGrammems x \<noteq> m_NegativeItemGrammems y
        then m_NegativeItemGrammems x < m_NegativeItemGrammems y
      else if m_bCanHaveManyHomonyms x \<noteq> m_bCanHaveManyHomonyms y
        then m_bCanHaveManyHomonyms x < m_bCanHaveManyHomonyms y
      else if m_vReplaceInterp x \<noteq> m_vReplaceInterp y then m_vReplaceInterp x < m_vReplaceInterp y
      else if \<not> postfix_store_eq (m_PostfixStore x) (m_PostfixStore y)
        then postfix_store_less (m_PostfixStore x) (m_PostfixStore y)
      else m_Attributes x < m_Attributes y)"

definition grammar_item_eq :: "CGrammarItem \<Rightarrow> CGrammarItem \<Rightarrow> bool" where
  "grammar_item_eq x y \<longleftrightarrow>
     m_ItemStrId x = m_ItemStrId y
     \<and> m_Type x = m_Type y
     \<and> m_Attributes x = m_Attributes y
     \<and> m_ItemGrammems x = m_ItemGrammems y
     \<and> m_NegativeItemGrammems x = m_NegativeItemGrammems y
     \<and> m_bCanHaveManyHomonyms x = m_bCanHaveManyHomonyms y
     \<and> m_vReplaceInterp x = m_vReplaceInterp y
     \<and> postfix_store_eq (m_PostfixStore x) (m_PostfixStore y)"

fun HasPostfix :: "CGrammarItem \<Rightarrow> ePrefix \<Rightarrow> ePostfix" where
  "HasPostfix I HOM = m_hom (m_PostfixStore I)"
| "HasPostfix I HREG = m_hreg (m_PostfixStore I)"
| "HasPostfix I HREG1 = m_hreg1 (m_PostfixStore I)"
| "HasPostfix I HREG2 = m_hreg2 (m_PostfixStore I)"
| "HasPostfix I DICT = m_dict (m_PostfixStore I)"
| "HasPostfix I LAT = m_lat (m_PostfixStore I)"
| "HasPostfix I ORGAN = m_org_morph_dict (m_PostfixStore I)"
| "HasPostfix I GEO = m_geo_morph_dict (m_PostfixStore I)"
| "HasPostfix I NAME_DIC = m_name_morph_dict (m_PostfixStore I)"
| "HasPostfix I LREG = m_lreg (m_PostfixStore I)"
| "HasPostfix I FIRST_LET_IN_SENT = m_fw (m_PostfixStore I)"
| "HasPostfix I IS_MULTIWORD = m_is_multiword (m_PostfixStore I)"
| "HasPostfix I NO_HOMS = m_nohomonyms (m_PostfixStore I)"
| "HasPostfix I EXCLUDE_FROM_NORM = m_exclude_from_normalization (m_PostfixStore I)"
| "HasPostfix I _ = PostfixCount"

text \<open>\<^verbatim>\<open>GetPostfixKWType\<close> throws on any other prefix: \<open>None\<close> here.\<close>

fun GetPostfixKWType :: "CGrammarItem \<Rightarrow> ePrefix \<Rightarrow> SArtPointer option" where
  "GetPostfixKWType I DICT_KWTYPE = Some (m_dict_kwtype (m_PostfixStore I))"
| "GetPostfixKWType I DICT_NOT_KWTYPE = Some (m_dict_not_kwtype (m_PostfixStore I))"
| "GetPostfixKWType I DICT_LABEL = Some (m_dict_label (m_PostfixStore I))"
| "GetPostfixKWType I DICT_NOT_LABEL = Some (m_dict_not_label (m_PostfixStore I))"
| "GetPostfixKWType I _ = None"

text \<open>
  \<^verbatim>\<open>LoadPostfixStore\<close> moves an attribute into the store. The keyword-type pool and the decoder of
  attribute values are other parts of the system: \<open>find_kw\<close> is
  \<^verbatim>\<open>GetKWTypePool().FindMessageTypeByName\<close> and \<open>decode\<close> is \<^verbatim>\<open>NStr::DecodeTomita\<close>. The store update
  of one prefix is \<open>None\<close> for the prefixes of the \<^verbatim>\<open>default\<close> branch.
\<close>

fun store_attribute ::
  "(string \<Rightarrow> TKeyWordType) \<Rightarrow> (string \<Rightarrow> Wtroka) \<Rightarrow> ePrefix \<Rightarrow> string \<Rightarrow> SPostfixStore
     \<Rightarrow> SPostfixStore option" where
  "store_attribute find_kw decode HOM v s = Some (s\<lparr>m_hom := Str2Postfix v\<rparr>)"
| "store_attribute find_kw decode NO_HOMS v s = Some (s\<lparr>m_nohomonyms := Str2Postfix v\<rparr>)"
| "store_attribute find_kw decode EXCLUDE_FROM_NORM v s =
     Some (s\<lparr>m_exclude_from_normalization := Str2Postfix v\<rparr>)"
| "store_attribute find_kw decode HREG v s = Some (s\<lparr>m_hreg := Str2Postfix v\<rparr>)"
| "store_attribute find_kw decode HREG1 v s = Some (s\<lparr>m_hreg1 := Str2Postfix v\<rparr>)"
| "store_attribute find_kw decode HREG2 v s = Some (s\<lparr>m_hreg2 := Str2Postfix v\<rparr>)"
| "store_attribute find_kw decode FIRST_LET_IN_SENT v s = Some (s\<lparr>m_fw := Str2Postfix v\<rparr>)"
| "store_attribute find_kw decode IS_MULTIWORD v s = Some (s\<lparr>m_is_multiword := Str2Postfix v\<rparr>)"
| "store_attribute find_kw decode DICT v s = Some (s\<lparr>m_dict := Str2Postfix v\<rparr>)"
| "store_attribute find_kw decode LAT v s = Some (s\<lparr>m_lat := Str2Postfix v\<rparr>)"
| "store_attribute find_kw decode ORGAN v s = Some (s\<lparr>m_org_morph_dict := Str2Postfix v\<rparr>)"
| "store_attribute find_kw decode GEO v s = Some (s\<lparr>m_geo_morph_dict := Str2Postfix v\<rparr>)"
| "store_attribute find_kw decode NAME_DIC v s = Some (s\<lparr>m_name_morph_dict := Str2Postfix v\<rparr>)"
| "store_attribute find_kw decode LREG v s = Some (s\<lparr>m_lreg := Str2Postfix v\<rparr>)"
| "store_attribute find_kw decode DICT_KWTYPE v s =
     Some (if IsNoneKWType v then s\<lparr>m_is_none_kwtype := True\<rparr>
           else s\<lparr>m_dict_kwtype := PutType (find_kw v) (decode v) (m_dict_kwtype s)\<rparr>)"
| "store_attribute find_kw decode DICT_LABEL v s =
     Some (s\<lparr>m_dict_label := PutType (find_kw v) (decode v) (m_dict_label s)\<rparr>)"
| "store_attribute find_kw decode DICT_NOT_KWTYPE v s =
     Some (s\<lparr>m_dict_not_kwtype := PutType (find_kw v) (decode v) (m_dict_not_kwtype s)\<rparr>)"
| "store_attribute find_kw decode DICT_NOT_LABEL v s =
     Some (s\<lparr>m_dict_not_label := PutType (find_kw v) (decode v) (m_dict_not_label s)\<rparr>)"
| "store_attribute find_kw decode NOT_REG_EXP v s =
     Some (s\<lparr>m_WordRegExp := (m_WordRegExp s)\<lparr>IsNegative := True, RegexPattern := v\<rparr>\<rparr>)"
| "store_attribute find_kw decode REG_EXP v s =
     Some (s\<lparr>m_WordRegExp := (m_WordRegExp s)\<lparr>IsNegative := False, RegexPattern := v\<rparr>\<rparr>)"
| "store_attribute find_kw decode REPLACE_INTERP v s = None"

definition attr_erase :: "string \<Rightarrow> (string \<times> string) list \<Rightarrow> (string \<times> string) list" where
  "attr_erase name = filter (\<lambda>(k, _). k \<noteq> name)"

definition LoadPostfixStore1 ::
  "(string \<Rightarrow> TKeyWordType) \<Rightarrow> (string \<Rightarrow> Wtroka) \<Rightarrow> ePrefix \<Rightarrow> CGrammarItem \<Rightarrow> CGrammarItem" where
  "LoadPostfixStore1 find_kw decode p I =
     (case map_of (m_Attributes I) (AlphabetPrefix p) of
        None \<Rightarrow> I
      | Some v \<Rightarrow>
          (case store_attribute find_kw decode p v (m_PostfixStore I) of
             None \<Rightarrow> I
           | Some s \<Rightarrow> I\<lparr>m_PostfixStore := s,
                        m_Attributes := attr_erase (AlphabetPrefix p) (m_Attributes I)\<rparr>))"

definition LoadPostfixStore ::
  "(string \<Rightarrow> TKeyWordType) \<Rightarrow> (string \<Rightarrow> Wtroka) \<Rightarrow> CGrammarItem \<Rightarrow> CGrammarItem" where
  "LoadPostfixStore find_kw decode I = fold (LoadPostfixStore1 find_kw decode) all_prefixes I"


section \<open>The comparators are orders\<close>

text \<open>
  What a chain of \<^verbatim>\<open>if (a != b) return a < b;\<close> computes is the lexicographic order of the tuples of
  what it compares.
\<close>

lemma lex_step:
  fixes x y :: "'a::linorder" and u v :: "'b::linorder"
  shows "(x, u) < (y, v) \<longleftrightarrow> (if x \<noteq> y then x < y else u < v)"
  by auto

definition art_key :: "SArtPointer \<Rightarrow> TKeyWordType \<times> Wtroka" where
  "art_key p = (m_KWType p, m_strArt p)"

text \<open>Equality of pointers looks at the title only when there is no keyword type.\<close>

definition art_eq_key :: "SArtPointer \<Rightarrow> TKeyWordType \<times> Wtroka" where
  "art_eq_key p = (m_KWType p, if m_KWType p = None then m_strArt p else [])"

definition regexp_key :: "CWordFormRegExp \<Rightarrow> bool \<times> string" where
  "regexp_key r = (IsNegative r, RegexPattern r)"

definition postfix_store_key where
  "postfix_store_key s =
     (m_hom s, m_nohomonyms s, m_hreg s, m_hreg1 s, m_hreg2 s, m_dict s, m_lat s,
      m_org_morph_dict s, m_geo_morph_dict s, m_name_morph_dict s, m_lreg s, m_fw s,
      m_is_multiword s, m_exclude_from_normalization s, m_is_none_kwtype s,
      art_eq_key (m_dict_kwtype s), art_eq_key (m_dict_not_kwtype s), regexp_key (m_WordRegExp s))"

definition grammar_item_key where
  "grammar_item_key I =
     (m_ItemStrId I, m_Type I, m_ItemGrammems I, m_NegativeItemGrammems I,
      m_bCanHaveManyHomonyms I, m_vReplaceInterp I, postfix_store_key (m_PostfixStore I),
      m_Attributes I)"

interpretation art: key_order art_less art_key
  by unfold_locales (auto simp: art_less_def art_key_def lex_step)

interpretation regexp: key_order regexp_less regexp_key
  by unfold_locales (simp only: regexp_less_def regexp_key_def lex_step)

lemma art_eq_iff: "art_eq x y \<longleftrightarrow> art_eq_key x = art_eq_key y"
  by (auto simp: art_eq_def art_eq_key_def)

lemma art_less_if_not_eq: "\<not> art_eq x y \<Longrightarrow> art_less x y \<longleftrightarrow> art_eq_key x < art_eq_key y"
  by (auto simp: art_eq_def art_less_def art_eq_key_def lex_step)

lemma regexp_eq_iff: "regexp_eq x y \<longleftrightarrow> regexp_key x = regexp_key y"
  by (auto simp: regexp_eq_def regexp_key_def)

lemma postfix_store_eq_iff: "postfix_store_eq x y \<longleftrightarrow> postfix_store_key x = postfix_store_key y"
  by (simp add: postfix_store_eq_def postfix_store_key_def art_eq_iff regexp_eq_iff)

lemma postfix_store_less_iff:
  "postfix_store_less x y \<longleftrightarrow> postfix_store_key x < postfix_store_key y"
proof -
  have art: "(if \<not> art_eq a b then art_less a b else P) =
      (if art_eq_key a \<noteq> art_eq_key b then art_eq_key a < art_eq_key b else P)" for a b P
    by (auto simp: art_eq_iff art_less_if_not_eq)
  show ?thesis
    unfolding postfix_store_less_def postfix_store_key_def lex_step art regexp.lt_key ..
qed

interpretation postfix_store: key_order postfix_store_less postfix_store_key
  by unfold_locales (rule postfix_store_less_iff)

interpretation grammar_item: key_order grammar_item_less grammar_item_key
proof
  show "grammar_item_less x y \<longleftrightarrow> grammar_item_key x < grammar_item_key y" for x y
    unfolding grammar_item_less_def grammar_item_key_def lex_step postfix_store_eq_iff
      postfix_store_less_iff ..
qed

lemma grammar_item_eq_iff: "grammar_item_eq x y \<longleftrightarrow> grammar_item_key x = grammar_item_key y"
  by (auto simp: grammar_item_eq_def grammar_item_key_def postfix_store_eq_iff)

section \<open>Attribute values and postfix loading\<close>

lemma prefix_all: "p \<in> set all_prefixes"
  by (cases p) (simp_all add: all_prefixes_def)

lemma AlphabetPrefix_inj: "AlphabetPrefix p = AlphabetPrefix q \<longleftrightarrow> p = q"
  by (cases p; cases q) simp_all

lemma store_attribute_Some: "p \<noteq> REPLACE_INTERP \<Longrightarrow> \<exists>s'. store_attribute f d p v s = Some s'"
  by (cases p) auto

lemma map_of_attr_erase: "map_of (attr_erase n as) k = (if k = n then None else map_of as k)"
  by (induction as) (auto simp: attr_erase_def)

lemma LoadPostfixStore1_attr:
  "map_of (m_Attributes (LoadPostfixStore1 f d p I)) k =
     (if p \<noteq> REPLACE_INTERP \<and> k = AlphabetPrefix p then None else map_of (m_Attributes I) k)"
proof (cases "map_of (m_Attributes I) (AlphabetPrefix p)")
  case (Some v)
  show ?thesis
  proof (cases "p = REPLACE_INTERP")
    case False
    then obtain s' where "store_attribute f d p v (m_PostfixStore I) = Some s'"
      using store_attribute_Some by blast
    then show ?thesis
      using Some False by (simp add: LoadPostfixStore1_def map_of_attr_erase)
  qed (use Some in \<open>simp add: LoadPostfixStore1_def\<close>)
qed (simp add: LoadPostfixStore1_def)

lemma LoadPostfixStore_fold_attr:
  "map_of (m_Attributes (fold (LoadPostfixStore1 f d) ps I)) k =
     (if \<exists>p \<in> set ps. p \<noteq> REPLACE_INTERP \<and> k = AlphabetPrefix p then None
      else map_of (m_Attributes I) k)"
  by (induction ps arbitrary: I) (auto simp: LoadPostfixStore1_attr)

text \<open>What one prefix does to the store field of another: nothing.\<close>

definition postfix_prefixes :: "ePrefix list" where
  "postfix_prefixes =
     [HOM, NO_HOMS, EXCLUDE_FROM_NORM, HREG, HREG1, HREG2, DICT, LAT, ORGAN, GEO, NAME_DIC, LREG,
      FIRST_LET_IN_SENT, IS_MULTIWORD]"

lemma LoadPostfixStore1_HasPostfix:
  assumes "q \<in> set postfix_prefixes"
  shows "HasPostfix (LoadPostfixStore1 f d p I) q =
     (if p = q then case map_of (m_Attributes I) (AlphabetPrefix q) of
           None \<Rightarrow> HasPostfix I q | Some v \<Rightarrow> Str2Postfix v
      else HasPostfix I q)"
  using assms
  by (cases "map_of (m_Attributes I) (AlphabetPrefix p)"; cases p)
    (auto simp: LoadPostfixStore1_def postfix_prefixes_def split: if_splits)

lemma LoadPostfixStore_fold_HasPostfix:
  assumes "q \<in> set postfix_prefixes" "distinct ps"
  shows "HasPostfix (fold (LoadPostfixStore1 f d) ps I) q =
     (if q \<in> set ps then case map_of (m_Attributes I) (AlphabetPrefix q) of
           None \<Rightarrow> HasPostfix I q | Some v \<Rightarrow> Str2Postfix v
      else HasPostfix I q)"
  using assms(2)
proof (induction ps arbitrary: I)
  case (Cons p ps)
  then show ?case
    by (auto simp: LoadPostfixStore1_HasPostfix [OF assms(1)] LoadPostfixStore1_attr
        AlphabetPrefix_inj split: option.splits)
qed simp

lemma distinct_all_prefixes: "distinct all_prefixes"
  by (simp add: all_prefixes_def)

section \<open>Properties\<close>

text \<open>
  Two grammar items are equivalent for the ordered sets (neither is smaller) exactly when
  \<^verbatim>\<open>operator ==\<close> holds of them, although the two operators are written separately over some forty
  fields.
\<close>

lemma grammar_item_equivalence:
  "(\<not> grammar_item_less x y \<and> \<not> grammar_item_less y x) = grammar_item_eq x y"
  by (simp add: grammar_item.equiv_iff grammar_item_eq_iff)

text \<open>
  \<^verbatim>\<open>LoadPostfixStore\<close> moves the known attributes into the store: afterwards no attribute named by
  the alphabet is left, but for \<^verbatim>\<open>REPLACE_INTERP\<close>, every other attribute has its value, and each
  postfix the store holds is the one its attribute named.
\<close>

lemma LoadPostfixStore_correct:
  "(\<forall>k. map_of (m_Attributes (LoadPostfixStore f d I)) k =
     (if \<exists>p. p \<noteq> REPLACE_INTERP \<and> k = AlphabetPrefix p then None else map_of (m_Attributes I) k)) \<and>
   (\<forall>q \<in> set postfix_prefixes. HasPostfix (LoadPostfixStore f d I) q =
     (case map_of (m_Attributes I) (AlphabetPrefix q) of
        None \<Rightarrow> HasPostfix I q | Some v \<Rightarrow> Str2Postfix v))"
  by (auto simp: LoadPostfixStore_def LoadPostfixStore_fold_attr LoadPostfixStore_fold_HasPostfix
      prefix_all distinct_all_prefixes)

definition sample_attributes :: CGrammarItem where
  "sample_attributes = grammar_item_init\<lparr>m_Attributes := [(AlphabetPrefix HREG, ''yes''), (''x'', ''1'')]\<rparr>"

lemma LoadPostfixStore_correct_witness:
  "HREG \<in> set postfix_prefixes \<and>
   HasPostfix (LoadPostfixStore (\<lambda>_. None) (\<lambda>_. []) sample_attributes) HREG = Str2Postfix ''yes'' \<and>
   map_of (m_Attributes (LoadPostfixStore (\<lambda>_. None) (\<lambda>_. []) sample_attributes)) (AlphabetPrefix HREG) = None"
  using LoadPostfixStore_correct [of "\<lambda>_. None" "\<lambda>_. []" sample_attributes]
  by (auto simp: postfix_prefixes_def sample_attributes_def)

end
