(* ===== verification/WorkGrammar.thy ===== *)
theory WorkGrammar
  imports GrammarItem
begin

text \<open>
  Source and work grammars: \<^verbatim>\<open>CParseGrammar\<close> (\<^verbatim>\<open>sourcegrammar.h\<close>, \<^verbatim>\<open>sourcegrammarparser.cpp\<close>) and the
  symbol and rule tables of \<^verbatim>\<open>CWorkGrammar\<close> (\<^verbatim>\<open>simplegrammar.h\<close>, \<^verbatim>\<open>loader.cpp\<close>): encoding of symbols
  into numbers, validity of the rules, the index of rules by left part, and the augmentation by
  \<^verbatim>\<open>$NewRoot\<close> and \<^verbatim>\<open>$\<close>. The tables computed from the rules (\<^verbatim>\<open>m_FirstSets\<close>, \<^verbatim>\<open>m_FollowSets\<close>,
  \<^verbatim>\<open>m_RootPrefixes\<close>) are fields of the record and are computed in the theory on FIRST and FOLLOW.

  The main results are that encoding a parsed grammar gives a well-formed work grammar, and that
  augmenting it gives one in which the two new symbols occur in exactly one rule.
\<close>

section \<open>State\<close>

record CWorkGrammar =
  m_UniqueGrammarItems :: "CGrammarItem list"
  m_EncodedRules :: "CWorkRule list"
  m_FirstSets :: "nat list list"
  m_FollowSets :: "nat list list"
  m_RootPrefixes :: "CWorkRule list"

definition work_grammar_init :: CWorkGrammar where
  "work_grammar_init =
     \<lparr>m_UniqueGrammarItems = [], m_EncodedRules = [], m_FirstSets = [], m_FollowSets = [],
      m_RootPrefixes = []\<rparr>"

text \<open>The test \<^verbatim>\<open>m_UniqueGrammarItems[s].m_Type == siMeta\<close>.\<close>

definition is_meta :: "('a CWorkGrammar_scheme) \<Rightarrow> symbol \<Rightarrow> bool" where
  "is_meta G s \<longleftrightarrow>
     s < length (m_UniqueGrammarItems G) \<and> m_Type (m_UniqueGrammarItems G ! s) = siMeta"

definition NEW_ROOT :: string where "NEW_ROOT = ''$NewRoot''"

definition END_OF_INPUT :: string where "END_OF_INPUT = ''$''"

section \<open>Symbols and rules\<close>

fun find_item :: "CGrammarItem \<Rightarrow> CGrammarItem list \<Rightarrow> nat option" where
  "find_item I [] = None"
| "find_item I (J # Js) = (if grammar_item_eq J I then Some 0 else map_option Suc (find_item I Js))"

definition GetItemIdOrRegister :: "CGrammarItem \<Rightarrow> CGrammarItem list \<Rightarrow> nat \<times> CGrammarItem list" where
  "GetItemIdOrRegister I items =
     (case find_item I items of
        Some i \<Rightarrow> (i, items)
      | None \<Rightarrow> (length items, items @ [I\<lparr>m_bSynMain := False\<rparr>]))"

definition GetCountOfRoots :: "('a CWorkGrammar_scheme) \<Rightarrow> nat" where
  "GetCountOfRoots G = length (filter m_bGrammarRoot (m_UniqueGrammarItems G))"

definition GetRulesCount :: "('a CWorkGrammar_scheme) \<Rightarrow> nat" where
  "GetRulesCount G = length (m_EncodedRules G)"

definition IsValid :: "('a CWorkGrammar_scheme) \<Rightarrow> bool" where
  "IsValid G \<longleftrightarrow>
     list_all (\<lambda>r. \<not> m_SynMainItemNo (m_RightPart r) \<ge> length (rhs r)) (m_EncodedRules G)"

text \<open>\<^verbatim>\<open>IndexEncodedRules\<close>: the rules of each left part, in the order of the rule set.\<close>

definition IndexEncodedRules :: "('a CWorkGrammar_scheme) \<Rightarrow> CWorkRule list list" where
  "IndexEncodedRules G =
     fold (\<lambda>r index. index[m_LeftPart r := index ! m_LeftPart r @ [r]])
       (m_EncodedRules G) (replicate (length (m_UniqueGrammarItems G)) [])"

definition GetNewRoot :: "('a CWorkGrammar_scheme) \<Rightarrow> nat" where
  "GetNewRoot G = length (m_UniqueGrammarItems G) - 1"

definition GetEndOfStreamSymbol :: "('a CWorkGrammar_scheme) \<Rightarrow> nat" where
  "GetEndOfStreamSymbol G = length (m_UniqueGrammarItems G) - 2"

text \<open>
  \<^verbatim>\<open>AugmentGrammar\<close>: an exception is \<open>Inl\<close>; otherwise the returned flag, the grammar and the
  vector of rule agreements. The two new items are built from one local variable, so the new root
  inherits the lemma of the end symbol, and both keep the root flag of the constructor. On a reserved name
  the code has \<^verbatim>\<open>YASSERT(false)\<close> before it returns false: a build with assertions stops there, the model has
  the return of the build without them.
\<close>

definition end_of_input_item :: CGrammarItem where
  "end_of_input_item =
     grammar_item_init\<lparr>m_ItemStrId := END_OF_INPUT, m_Lemma := map of_char END_OF_INPUT,
       m_Type := siString\<rparr>"

definition new_root_item :: CGrammarItem where
  "new_root_item = end_of_input_item\<lparr>m_ItemStrId := NEW_ROOT, m_Type := siMeta\<rparr>"

fun find_root :: "CGrammarItem list \<Rightarrow> nat option" where
  "find_root [] = None"
| "find_root (I # Is) = (if m_bGrammarRoot I then Some 0 else map_option Suc (find_root Is))"

definition AugmentGrammar ::
  "('a CWorkGrammar_scheme) \<Rightarrow> 'agr list list
     \<Rightarrow> string + (bool \<times> ('a CWorkGrammar_scheme) \<times> 'agr list list)" where
  "AugmentGrammar G Agreements =
     (if GetCountOfRoots G \<noteq> 1 then Inl ''A simple grammar should have only one root.''
      else if list_ex (\<lambda>I. m_ItemStrId I = NEW_ROOT \<or> m_ItemStrId I = END_OF_INPUT)
                (m_UniqueGrammarItems G)
      then Inr (False, G, Agreements)
      else
        (let rootIndex = (case find_root (m_UniqueGrammarItems G) of Some i \<Rightarrow> i | None \<Rightarrow> 0);
             items = m_UniqueGrammarItems G @ [end_of_input_item] @ [new_root_item];
             R = \<lparr>m_OriginalRuleNo = length Agreements,
                  m_LeftPart = length items - 1,
                  m_RightPart = \<lparr>m_Items = [rootIndex, length items - 2], m_SynMainItemNo = 0\<rparr>\<rparr>
         in Inr (True,
                 G\<lparr>m_UniqueGrammarItems := items,
                   m_EncodedRules := oset_insert work_rule_less R (m_EncodedRules G)\<rparr>,
                 Agreements @ [[]])))"

section \<open>Encoding of a parsed grammar\<close>

text \<open>The source line information of \<^verbatim>\<open>CParseLeftPart\<close> is used in messages only and is left out.\<close>

record CParseRule =
  pr_LeftPart :: CGrammarItem
  pr_RightParts :: "CGrammarItem list list"

record CParseGrammar =
  m_Roots :: "CGrammarItem list"
  m_Rules :: "CParseRule list"

text \<open>
  One right part of \<^verbatim>\<open>AssignSynMainItemIfNotDefined\<close>; \<open>None\<close> is the error return. An empty right
  part, an assertion failure in the source, stays empty.
\<close>

definition assign_syn_main :: "CGrammarItem list \<Rightarrow> CGrammarItem list option" where
  "assign_syn_main RightPart =
     (let CountOfSynMainNodes = length (filter m_bSynMain RightPart)
      in if CountOfSynMainNodes = 0 then
           Some (case RightPart of [] \<Rightarrow> [] | I # Is \<Rightarrow> I\<lparr>m_bSynMain := True\<rparr> # Is)
         else if CountOfSynMainNodes > 1 then None
         else Some RightPart)"

fun map_all :: "('a \<Rightarrow> 'b option) \<Rightarrow> 'a list \<Rightarrow> 'b list option" where
  "map_all f [] = Some []"
| "map_all f (x # xs) =
     (case f x of None \<Rightarrow> None
      | Some y \<Rightarrow> (case map_all f xs of None \<Rightarrow> None | Some ys \<Rightarrow> Some (y # ys)))"

definition AssignSynMainItemIfNotDefined :: "CParseGrammar \<Rightarrow> CParseGrammar option" where
  "AssignSynMainItemIfNotDefined P =
     map_option (\<lambda>rs. P\<lparr>m_Rules := rs\<rparr>)
       (map_all (\<lambda>r. map_option (\<lambda>ps. r\<lparr>pr_RightParts := ps\<rparr>)
                       (map_all assign_syn_main (pr_RightParts r)))
          (m_Rules P))"

definition CheckCoherence :: "CParseGrammar \<Rightarrow> bool" where
  "CheckCoherence P =
     (let AllLeftParts =
        fold (\<lambda>r s. oset_insert grammar_item_less (pr_LeftPart r) s) (m_Rules P) []
      in list_all (\<lambda>r. list_all (list_all (\<lambda>I.
             m_Type I = siMeta \<longrightarrow> oset_mem grammar_item_less I AllLeftParts)) (pr_RightParts r))
           (m_Rules P))"

text \<open>
  \<^verbatim>\<open>EncodeGrammar\<close>. The innermost loop encodes one right part: it registers each item, clears
  its root flag and remembers the position of the main item. \<^verbatim>\<open>Rule\<close> is declared outside the loop
  over the right parts, so the main position of the previous right part, or an uninitialised
  value, stays when a right part has no main item.
\<close>

fun encode_right_part ::
  "CGrammarItem list \<Rightarrow> CGrammarItem list \<times> symbol list \<times> nat
     \<Rightarrow> CGrammarItem list \<times> symbol list \<times> nat" where
  "encode_right_part [] (items, enc, synmain) = (items, enc, synmain)"
| "encode_right_part (I # Is) (items, enc, synmain) =
     (let (i, items') = GetItemIdOrRegister I items;
          enc' = enc @ [i];
          synmain' = (if m_bSynMain I then length enc' - 1 else synmain);
          items'' = items'[i := (items' ! i)\<lparr>m_bGrammarRoot := False\<rparr>]
      in encode_right_part Is (items'', enc', synmain'))"

fun encode_right_parts ::
  "symbol \<Rightarrow> CGrammarItem list list \<Rightarrow> CGrammarItem list \<times> CWorkRule list \<times> nat \<times> nat
     \<Rightarrow> (CGrammarItem list \<times> CWorkRule list \<times> nat \<times> nat) option" where
  "encode_right_parts left [] st = Some st"
| "encode_right_parts left (P # Ps) (items, rules, RuleId, synmain) =
     (let (items', enc, synmain') = encode_right_part P (items, [], synmain);
          R = \<lparr>m_OriginalRuleNo = RuleId, m_LeftPart = left,
               m_RightPart = \<lparr>m_Items = enc, m_SynMainItemNo = synmain'\<rparr>\<rparr>
      in if oset_mem work_rule_less R rules then None
         else encode_right_parts left Ps
                (items', oset_insert work_rule_less R rules, RuleId + 1, synmain'))"

fun encode_rules ::
  "nat \<Rightarrow> CParseRule list \<Rightarrow> CGrammarItem list \<times> CWorkRule list \<times> nat
     \<Rightarrow> (CGrammarItem list \<times> CWorkRule list \<times> nat) option" where
  "encode_rules uninit [] st = Some st"
| "encode_rules uninit (r # rs) (items, rules, RuleId) =
     (let (left, items') = GetItemIdOrRegister (pr_LeftPart r) items
      in case encode_right_parts left (pr_RightParts r) (items', rules, RuleId, uninit) of
           None \<Rightarrow> None
         | Some (items'', rules', RuleId', _) \<Rightarrow> encode_rules uninit rs (items'', rules', RuleId'))"

definition mark_roots :: "CGrammarItem list \<Rightarrow> CGrammarItem list \<Rightarrow> CGrammarItem list" where
  "mark_roots roots items =
     (if roots = [] then items
      else map (\<lambda>I. I\<lparr>m_bGrammarRoot := list_ex (\<lambda>R. grammar_item_eq R I) roots\<rparr>) items)"

definition EncodeGrammar :: "nat \<Rightarrow> CParseGrammar \<Rightarrow> CWorkGrammar \<Rightarrow> CWorkGrammar option" where
  "EncodeGrammar uninit P Result =
     map_option (\<lambda>(items, rules, _).
         Result\<lparr>m_UniqueGrammarItems := mark_roots (m_Roots P) items, m_EncodedRules := rules\<rparr>)
       (encode_rules uninit (m_Rules P) ([], [], 0))"

section \<open>Well-formed grammars\<close>

definition wf_rule :: "CGrammarItem list \<Rightarrow> CWorkRule \<Rightarrow> bool" where
  "wf_rule items r \<longleftrightarrow>
     m_LeftPart r < length items \<and> m_Type (items ! m_LeftPart r) = siMeta \<and>
     rhs r \<noteq> [] \<and> list_all (\<lambda>s. s < length items) (rhs r)"

definition wf_grammar :: "('a CWorkGrammar_scheme) \<Rightarrow> bool" where
  "wf_grammar G \<longleftrightarrow>
     sorted_wrt work_rule_less (m_EncodedRules G) \<and>
     distinct (map m_OriginalRuleNo (m_EncodedRules G)) \<and>
     list_all (wf_rule (m_UniqueGrammarItems G)) (m_EncodedRules G)"

text \<open>
  After augmentation the last item is the new root, the one before it the end symbol; the new
  root has one rule, ending in the end symbol, and neither symbol occurs elsewhere.
\<close>

definition augmented :: "('a CWorkGrammar_scheme) \<Rightarrow> bool" where
  "augmented G \<longleftrightarrow>
     wf_grammar G \<and> 2 \<le> length (m_UniqueGrammarItems G) \<and>
     is_meta G (GetNewRoot G) \<and> \<not> is_meta G (GetEndOfStreamSymbol G) \<and>
     (\<exists>root. root < GetEndOfStreamSymbol G \<and>
        map rhs (filter (\<lambda>r. m_LeftPart r = GetNewRoot G) (m_EncodedRules G))
          = [[root, GetEndOfStreamSymbol G]]) \<and>
     list_all (\<lambda>r. GetNewRoot G \<notin> set (rhs r) \<and>
        (m_LeftPart r = GetNewRoot G \<or> GetEndOfStreamSymbol G \<notin> set (rhs r))) (m_EncodedRules G)"

lemma wf_grammar_ruleD:
  assumes "wf_grammar G" "r \<in> set (m_EncodedRules G)"
  shows "rhs r \<noteq> []" and "is_meta G (m_LeftPart r)"
    and "m_LeftPart r < length (m_UniqueGrammarItems G)"
    and "s \<in> set (rhs r) \<Longrightarrow> s < length (m_UniqueGrammarItems G)"
  using assms by (auto simp: wf_grammar_def wf_rule_def is_meta_def list_all_iff)

lemma wf_grammar_inj: "wf_grammar G \<Longrightarrow> inj_on m_OriginalRuleNo (set (m_EncodedRules G))"
  by (simp add: wf_grammar_def distinct_map)


section \<open>Lemmas on symbols and rules\<close>

lemma IndexEncodedRules_length [simp]:
  "length (IndexEncodedRules G) = length (m_UniqueGrammarItems G)"
proof -
  have "length (fold (\<lambda>r index. index[m_LeftPart r := index ! m_LeftPart r @ [r]]) rs ix) = length ix"
    for rs :: "CWorkRule list" and ix
    by (induction rs arbitrary: ix) auto
  then show ?thesis by (simp add: IndexEncodedRules_def)
qed

lemma IndexEncodedRules_nth:
  assumes "s < length (m_UniqueGrammarItems G)"
  shows "IndexEncodedRules G ! s = filter (\<lambda>r. m_LeftPart r = s) (m_EncodedRules G)"
proof -
  have "fold (\<lambda>r index. index[m_LeftPart r := index ! m_LeftPart r @ [r]]) rs ix ! s =
      ix ! s @ filter (\<lambda>r. m_LeftPart r = s) rs" if "s < length ix"
    for rs :: "CWorkRule list" and ix
    using that by (induction rs arbitrary: ix) (auto simp: nth_list_update)
  then show ?thesis using assms by (simp add: IndexEncodedRules_def)
qed

text \<open>
  Registration only extends the item vector: the keys of the items already there stay. The
  flags \<^verbatim>\<open>m_bSynMain\<close> and \<^verbatim>\<open>m_bGrammarRoot\<close> are not part of the key.
\<close>

abbreviation item_keys where "item_keys items \<equiv> map grammar_item_key items"

definition items_ext :: "CGrammarItem list \<Rightarrow> CGrammarItem list \<Rightarrow> bool" where
  "items_ext items items' \<longleftrightarrow> (\<exists>ks. item_keys items' = item_keys items @ ks)"

lemma items_ext_refl [intro!]: "items_ext items items"
  by (simp add: items_ext_def)

lemma items_ext_trans: "items_ext a b \<Longrightarrow> items_ext b c \<Longrightarrow> items_ext a c"
  by (auto simp: items_ext_def)

lemma items_ext_keys_eq: "item_keys items' = item_keys items \<Longrightarrow> items_ext items items'"
  by (simp add: items_ext_def)

lemma items_ext_length: "items_ext items items' \<Longrightarrow> length items \<le> length items'"
  by (auto simp: items_ext_def dest: arg_cong [where f = length])

lemma items_ext_nth:
  assumes "items_ext items items'" "i < length items"
  shows "grammar_item_key (items' ! i) = grammar_item_key (items ! i)"
proof -
  have "item_keys items' ! i = item_keys items ! i"
    using assms by (auto simp: items_ext_def nth_append)
  then show ?thesis
    using assms items_ext_length [OF assms(1)] by simp
qed

lemma item_key_type: "grammar_item_key I = grammar_item_key J \<Longrightarrow> m_Type I = m_Type J"
  by (simp add: grammar_item_key_def)

lemma wf_rule_ext:
  assumes "items_ext items items'" "wf_rule items r"
  shows "wf_rule items' r"
proof -
  have "m_Type (items' ! m_LeftPart r) = m_Type (items ! m_LeftPart r)"
    using assms items_ext_nth by (intro item_key_type) (simp add: wf_rule_def)
  then show ?thesis
    using assms items_ext_length [OF assms(1)] by (fastforce simp: wf_rule_def list_all_iff)
qed

lemma find_item_Some:
  "find_item I items = Some i \<Longrightarrow>
     i < length items \<and> grammar_item_key (items ! i) = grammar_item_key I"
  by (induction items arbitrary: i) (auto simp: grammar_item_eq_iff split: if_splits)

lemma find_item_None:
  "find_item I items = None \<longleftrightarrow> grammar_item_key I \<notin> set (item_keys items)"
  by (induction items) (auto simp: grammar_item_eq_iff)

lemma key_flags [simp]:
  "grammar_item_key (I\<lparr>m_bSynMain := b\<rparr>) = grammar_item_key I"
  "grammar_item_key (I\<lparr>m_bGrammarRoot := b\<rparr>) = grammar_item_key I"
  by (simp_all add: grammar_item_key_def)

lemma register_spec:
  assumes "GetItemIdOrRegister I items = (i, items')"
  shows "i < length items'" and "grammar_item_key (items' ! i) = grammar_item_key I"
    and "items_ext items items'"
    and "distinct (item_keys items) \<Longrightarrow> distinct (item_keys items')"
proof -
  have "i < length items' \<and> grammar_item_key (items' ! i) = grammar_item_key I \<and>
      items_ext items items' \<and> (distinct (item_keys items) \<longrightarrow> distinct (item_keys items'))"
  proof (cases "find_item I items")
    case None
    then show ?thesis
      using assms find_item_None [of I items]
      by (auto simp: GetItemIdOrRegister_def items_ext_def)
  next
    case (Some j)
    then show ?thesis
      using assms find_item_Some [OF Some] by (auto simp: GetItemIdOrRegister_def)
  qed
  then show "i < length items'" "grammar_item_key (items' ! i) = grammar_item_key I"
    "items_ext items items'" "distinct (item_keys items) \<Longrightarrow> distinct (item_keys items')"
    by blast+
qed

lemma update_root_keys: "item_keys (items[i := (items ! i)\<lparr>m_bGrammarRoot := b\<rparr>]) = item_keys items"
  by (metis key_flags(2) list_update_id map_update)

section \<open>Encoding is faithful\<close>

text \<open>What the numbers of a right part stand for.\<close>

definition decode_word where
  "decode_word items w = map (\<lambda>s. grammar_item_key (items ! s)) w"

definition decode_rule where
  "decode_rule items r = (grammar_item_key (items ! m_LeftPart r), decode_word items (rhs r))"

lemma decode_word_ext:
  assumes "items_ext items items'" "list_all (\<lambda>s. s < length items) w"
  shows "decode_word items' w = decode_word items w"
  using assms items_ext_nth by (auto simp: decode_word_def list_all_iff)

lemma decode_rule_ext:
  assumes "items_ext items items'" "wf_rule items r"
  shows "decode_rule items' r = decode_rule items r"
  using assms decode_word_ext items_ext_nth by (simp add: decode_rule_def wf_rule_def)

definition main_positions :: "CGrammarItem list \<Rightarrow> nat set" where
  "main_positions P = {j. j < length P \<and> m_bSynMain (P ! j)}"

lemma encode_right_part_spec:
  assumes "encode_right_part P (items, enc, sm) = (items', enc', sm')"
    and "list_all (\<lambda>s. s < length items) enc"
  shows "items_ext items items' \<and> length enc' = length enc + length P \<and>
     list_all (\<lambda>s. s < length items') enc' \<and>
     decode_word items' enc' = decode_word items enc @ item_keys P \<and>
     (distinct (item_keys items) \<longrightarrow> distinct (item_keys items')) \<and>
     (if main_positions P = {} then sm' = sm
      else \<exists>j \<in> main_positions P. sm' = length enc + j)"
  using assms
proof (induction P arbitrary: items enc sm)
  case Nil
  then show ?case by (auto simp: main_positions_def)
next
  case (Cons I P)
  obtain i items1 where reg: "GetItemIdOrRegister I items = (i, items1)"
    by (cases "GetItemIdOrRegister I items")
  define items2 where "items2 = items1[i := (items1 ! i)\<lparr>m_bGrammarRoot := False\<rparr>]"
  define sm1 where "sm1 = (if m_bSynMain I then length enc else sm)"
  have rec: "encode_right_part P (items2, enc @ [i], sm1) = (items', enc', sm')"
    using Cons.prems(1) reg by (simp add: items2_def sm1_def Let_def split: if_splits)
  note r = register_spec [OF reg]
  have keys2: "item_keys items2 = item_keys items1"
    by (simp add: items2_def update_root_keys)
  have ext2: "items_ext items items2"
    using r(3) keys2 items_ext_trans items_ext_keys_eq by blast
  have "length items2 = length items1" by (simp add: items2_def)
  then have all2: "list_all (\<lambda>s. s < length items2) (enc @ [i])"
    using Cons.prems(2) r(1) items_ext_length [OF r(3)] by (auto simp: list_all_iff)
  have dec2: "decode_word items2 (enc @ [i]) = decode_word items enc @ [grammar_item_key I]"
  proof -
    have "grammar_item_key (items2 ! i) = grammar_item_key I"
      using r(1,2) by (simp add: items2_def)
    then show ?thesis
      using decode_word_ext [OF ext2 Cons.prems(2)] by (simp add: decode_word_def)
  qed
  have IH: "items_ext items2 items'" "length enc' = Suc (length enc) + length P"
    "list_all (\<lambda>s. s < length items') enc'"
    "decode_word items' enc' = decode_word items2 (enc @ [i]) @ item_keys P"
    "distinct (item_keys items2) \<longrightarrow> distinct (item_keys items')"
    "if main_positions P = {} then sm' = sm1
     else \<exists>j \<in> main_positions P. sm' = Suc (length enc) + j"
    using Cons.IH [OF rec all2] by (simp_all split: if_splits)
  have pos: "main_positions (I # P) =
      (if m_bSynMain I then {0} else {}) \<union> Suc ` main_positions P"
  proof (rule set_eqI)
    fix j show "j \<in> main_positions (I # P) \<longleftrightarrow>
        j \<in> (if m_bSynMain I then {0} else {}) \<union> Suc ` main_positions P"
      by (cases j) (auto simp: main_positions_def)
  qed
  have main: "if main_positions (I # P) = {} then sm' = sm
      else \<exists>j \<in> main_positions (I # P). sm' = length enc + j"
    using IH(6) pos by (auto simp: sm1_def split: if_splits)
  show ?case
    using IH ext2 dec2 r(4) keys2 main by (auto intro: items_ext_trans)
qed


text \<open>
  The invariant of the encoding loops: the rules so far are an ordered set with distinct numbers
  below the next one, they are well formed, they decode to the pairs \<open>D\<close>, and they have a main
  position inside their right part when \<open>V\<close> holds.
\<close>

definition encode_inv where
  "encode_inv V D items rules n \<longleftrightarrow>
     sorted_wrt work_rule_less rules \<and> distinct (map m_OriginalRuleNo rules) \<and>
     (\<forall>r \<in> set rules. m_OriginalRuleNo r < n \<and> wf_rule items r) \<and>
     distinct (item_keys items) \<and> decode_rule items ` set rules = D \<and>
     (V \<longrightarrow> (\<forall>r \<in> set rules. m_SynMainItemNo (m_RightPart r) < length (rhs r)))"

lemma encode_inv_ext:
  assumes "encode_inv V D items rules n" "items_ext items items'" "distinct (item_keys items')"
  shows "encode_inv V D items' rules n"
proof -
  have "decode_rule items' r = decode_rule items r" if "r \<in> set rules" for r
    using assms that decode_rule_ext by (auto simp: encode_inv_def)
  then show ?thesis
    using assms wf_rule_ext by (auto simp: encode_inv_def)
qed

lemma encode_inv_insert:
  assumes inv: "encode_inv V D items rules n" and R: "wf_rule items R" "m_OriginalRuleNo R = n"
    and new: "\<not> oset_mem work_rule_less R rules"
    and main: "V \<longrightarrow> m_SynMainItemNo (m_RightPart R) < length (rhs R)"
  shows "encode_inv V (insert (decode_rule items R) D) items (oset_insert work_rule_less R rules) (n + 1)"
proof -
  have set: "set (oset_insert work_rule_less R rules) = insert R (set rules)"
    using work_rule.insert_absent [OF new] by simp
  have "m_OriginalRuleNo R \<notin> m_OriginalRuleNo ` set rules"
    using inv R(2) by (auto simp: encode_inv_def)
  moreover have "distinct (oset_insert work_rule_less R rules)"
    using inv by (intro work_rule.ordered_distinct work_rule.ordered_insert) (simp add: encode_inv_def)
  moreover have "inj_on m_OriginalRuleNo (set rules)"
    using inv by (simp add: encode_inv_def distinct_map)
  ultimately have "distinct (map m_OriginalRuleNo (oset_insert work_rule_less R rules))"
    by (auto simp: distinct_map set inj_on_insert)
  then show ?thesis
    using inv R main set work_rule.ordered_insert by (auto simp: encode_inv_def)
qed

lemma encode_right_parts_spec:
  assumes "encode_right_parts left Ps (items, rules, n, sm) = Some (items', rules', n', sm')"
    and "encode_inv V D items rules n"
    and "left < length items" "m_Type (items ! left) = siMeta"
    and "[] \<notin> set Ps" "V \<longrightarrow> (\<forall>P \<in> set Ps. main_positions P \<noteq> {})"
  shows "items_ext items items' \<and>
     encode_inv V (D \<union> Pair (grammar_item_key (items ! left)) ` item_keys ` set Ps) items' rules' n'"
  using assms
proof (induction Ps arbitrary: items rules n sm D)
  case Nil
  then show ?case by auto
next
  case (Cons P Ps)
  obtain items1 enc sm1 where part: "encode_right_part P (items, [], sm) = (items1, enc, sm1)"
    by (metis prod_cases3)
  define R where "R = \<lparr>m_OriginalRuleNo = n, m_LeftPart = left,
      m_RightPart = \<lparr>m_Items = enc, m_SynMainItemNo = sm1\<rparr>\<rparr>"
  have new: "\<not> oset_mem work_rule_less R rules"
    and rec: "encode_right_parts left Ps (items1, oset_insert work_rule_less R rules, n + 1, sm1)
       = Some (items', rules', n', sm')"
    using Cons.prems(1) part by (auto simp: R_def Let_def split: if_splits)
  note sp = encode_right_part_spec [OF part, simplified]
  have ext: "items_ext items items1" using sp by blast
  have key_left: "grammar_item_key (items1 ! left) = grammar_item_key (items ! left)"
    using items_ext_nth [OF ext Cons.prems(3)] .
  have len: "length enc = length P" using sp by simp
  have left1: "left < length items1" "m_Type (items1 ! left) = siMeta"
    using items_ext_length [OF ext] Cons.prems(3,4) item_key_type [OF key_left] by auto
  have wfR: "wf_rule items1 R"
    using sp left1 len Cons.prems(5) by (auto simp: wf_rule_def R_def)
  have mainR: "V \<longrightarrow> m_SynMainItemNo (m_RightPart R) < length (rhs R)"
    using sp len Cons.prems(6) by (auto simp: R_def main_positions_def split: if_splits)
  have dec: "decode_rule items1 R = (grammar_item_key (items ! left), item_keys P)"
    using sp key_left by (simp add: decode_rule_def decode_word_def R_def)
  have "encode_inv V D items1 rules n"
    using encode_inv_ext [OF Cons.prems(2) ext] sp Cons.prems(2) by (simp add: encode_inv_def)
  then have "encode_inv V (insert (grammar_item_key (items ! left), item_keys P) D) items1
      (oset_insert work_rule_less R rules) (n + 1)"
    using encode_inv_insert [OF _ wfR, of V D rules n] new mainR dec by (simp add: R_def)
  then have "items_ext items1 items' \<and>
     encode_inv V (insert (grammar_item_key (items ! left), item_keys P) D \<union>
       Pair (grammar_item_key (items1 ! left)) ` item_keys ` set Ps) items' rules' n'"
    using Cons.prems(5,6) left1 by (intro Cons.IH [OF rec]) auto
  moreover have "insert (grammar_item_key (items ! left), item_keys P) D \<union>
       Pair (grammar_item_key (items ! left)) ` item_keys ` set Ps =
     D \<union> Pair (grammar_item_key (items ! left)) ` item_keys ` set (P # Ps)"
    by auto
  ultimately show ?case
    using ext items_ext_trans key_left by auto
qed

text \<open>The pairs of left part and right part of a parsed grammar.\<close>

definition source_rules where
  "source_rules rs =
     (\<Union>r \<in> set rs. Pair (grammar_item_key (pr_LeftPart r)) ` item_keys ` set (pr_RightParts r))"

definition source_ok :: "CParseRule list \<Rightarrow> bool" where
  "source_ok rs \<longleftrightarrow>
     list_all (\<lambda>r. m_Type (pr_LeftPart r) = siMeta \<and> [] \<notin> set (pr_RightParts r)) rs"

definition has_main :: "CParseRule list \<Rightarrow> bool" where
  "has_main rs \<longleftrightarrow> list_all (\<lambda>r. list_all (list_ex m_bSynMain) (pr_RightParts r)) rs"

lemma list_ex_main: "list_ex m_bSynMain P \<longleftrightarrow> main_positions P \<noteq> {}"
  by (force simp: main_positions_def list_ex_iff in_set_conv_nth)

lemma encode_rules_spec:
  assumes "encode_rules u rs (items, rules, n) = Some (items', rules', n')"
    and "encode_inv (has_main all) D items rules n"
    and "source_ok rs" "set rs \<subseteq> set all"
  shows "encode_inv (has_main all) (D \<union> source_rules rs) items' rules' n'"
  using assms
proof (induction rs arbitrary: items rules n D)
  case Nil
  then show ?case by (simp add: source_rules_def)
next
  case (Cons r rs)
  obtain left items1 where reg: "GetItemIdOrRegister (pr_LeftPart r) items = (left, items1)"
    by (cases "GetItemIdOrRegister (pr_LeftPart r) items")
  obtain items2 rules2 n2 sm2 where
    parts: "encode_right_parts left (pr_RightParts r) (items1, rules, n, u) = Some (items2, rules2, n2, sm2)"
    and rec: "encode_rules u rs (items2, rules2, n2) = Some (items', rules', n')"
    using Cons.prems(1) reg by (auto split: option.splits prod.splits)
  note r = register_spec [OF reg]
  have inv1: "encode_inv (has_main all) D items1 rules n"
    using encode_inv_ext [OF Cons.prems(2) r(3)] r(4) Cons.prems(2) by (simp add: encode_inv_def)
  have meta: "m_Type (items1 ! left) = siMeta"
    using item_key_type [OF r(2)] Cons.prems(3) by (simp add: source_ok_def)
  have "encode_inv (has_main all)
     (D \<union> Pair (grammar_item_key (items1 ! left)) ` item_keys ` set (pr_RightParts r))
     items2 rules2 n2"
    using encode_right_parts_spec [OF parts inv1 r(1) meta] Cons.prems(3,4) list_ex_main
    by (auto simp: source_ok_def has_main_def list_all_iff)
  then have "encode_inv (has_main all)
     ((D \<union> Pair (grammar_item_key (pr_LeftPart r)) ` item_keys ` set (pr_RightParts r))
       \<union> source_rules rs) items' rules' n'"
    using Cons.prems(3,4) r(2) by (intro Cons.IH [OF rec]) (auto simp: source_ok_def)
  then show ?case by (simp add: source_rules_def Un_assoc)
qed

lemma mark_roots_keys: "item_keys (mark_roots roots items) = item_keys items"
  by (simp add: mark_roots_def)

lemma mark_roots_length [simp]: "length (mark_roots roots items) = length items"
  by (simp add: mark_roots_def)

lemma EncodeGrammar_inv:
  assumes "EncodeGrammar u P W = Some G" "source_ok (m_Rules P)"
  shows "\<exists>n. encode_inv (has_main (m_Rules P)) (source_rules (m_Rules P))
     (m_UniqueGrammarItems G) (m_EncodedRules G) n"
proof -
  obtain items rules n where enc: "encode_rules u (m_Rules P) ([], [], 0) = Some (items, rules, n)"
    and G: "G = W\<lparr>m_UniqueGrammarItems := mark_roots (m_Roots P) items, m_EncodedRules := rules\<rparr>"
    using assms(1) by (auto simp: EncodeGrammar_def)
  have "encode_inv (has_main (m_Rules P)) ({} \<union> source_rules (m_Rules P)) items rules n"
    by (rule encode_rules_spec [OF enc]) (use assms(2) in \<open>auto simp: encode_inv_def\<close>)
  then have "encode_inv (has_main (m_Rules P)) (source_rules (m_Rules P))
      (mark_roots (m_Roots P) items) rules n"
    using encode_inv_ext items_ext_keys_eq mark_roots_keys
    by (metis (no_types, lifting) encode_inv_def sup_bot_left)
  then show ?thesis using G by auto
qed


text \<open>Assigning main items makes every right part that is not empty have one.\<close>

lemma map_all_Some: "map_all f xs = Some ys \<Longrightarrow> list_all2 (\<lambda>x y. f x = Some y) xs ys"
  by (induction xs arbitrary: ys) (auto split: option.splits)

lemma assign_syn_main_spec:
  assumes "assign_syn_main P = Some Q"
  shows "item_keys Q = item_keys P" and "P \<noteq> [] \<Longrightarrow> list_ex m_bSynMain Q"
proof -
  have *: "filter m_bSynMain P \<noteq> [] \<Longrightarrow> list_ex m_bSynMain P"
    by (auto simp: filter_empty_conv list_ex_iff)
  show "item_keys Q = item_keys P"
    using assms by (auto simp: assign_syn_main_def Let_def split: if_splits list.splits)
  show "P \<noteq> [] \<Longrightarrow> list_ex m_bSynMain Q"
    using assms * by (auto simp: assign_syn_main_def Let_def split: if_splits list.splits)
qed

lemma AssignSynMain_spec:
  assumes "AssignSynMainItemIfNotDefined P = Some Q" "source_ok (m_Rules P)"
  shows "source_ok (m_Rules Q)" and "has_main (m_Rules Q)"
    and "source_rules (m_Rules Q) = source_rules (m_Rules P)" and "m_Roots Q = m_Roots P"
proof -
  define f where "f r = map_option (\<lambda>ps. r\<lparr>pr_RightParts := ps\<rparr>)
      (map_all assign_syn_main (pr_RightParts r))" for r :: CParseRule
  obtain rs where rs: "map_all f (m_Rules P) = Some rs" and Q: "Q = P\<lparr>m_Rules := rs\<rparr>"
    using assms(1) by (auto simp: AssignSynMainItemIfNotDefined_def f_def [abs_def])
  have f: "pr_LeftPart r' = pr_LeftPart r \<and>
      list_all2 (\<lambda>A B. assign_syn_main A = Some B) (pr_RightParts r) (pr_RightParts r')"
    if "f r = Some r'" for r r'
    using that map_all_Some by (auto simp: f_def)
  have ok: "(m_Type (pr_LeftPart r') = siMeta \<and> [] \<notin> set (pr_RightParts r')) \<and>
      list_all (list_ex m_bSynMain) (pr_RightParts r') \<and>
      Pair (grammar_item_key (pr_LeftPart r')) ` item_keys ` set (pr_RightParts r') =
      Pair (grammar_item_key (pr_LeftPart r)) ` item_keys ` set (pr_RightParts r)"
    if fr: "f r = Some r'" and r: "m_Type (pr_LeftPart r) = siMeta" "[] \<notin> set (pr_RightParts r)" for r r'
  proof -
    have l2: "list_all2 (\<lambda>A B. assign_syn_main A = Some B) (pr_RightParts r) (pr_RightParts r')"
      using f [OF fr] by simp
    have 1: "\<exists>B \<in> set (pr_RightParts r'). assign_syn_main A = Some B" if "A \<in> set (pr_RightParts r)" for A
      using list_all2_setD1 [OF l2 that] .
    have 2: "\<exists>A \<in> set (pr_RightParts r). assign_syn_main A = Some B" if "B \<in> set (pr_RightParts r')" for B
      using list_all2_setD2 [OF l2 that] .
    have "item_keys B \<in> item_keys ` set (pr_RightParts r)" "list_ex m_bSynMain B"
      if "B \<in> set (pr_RightParts r')" for B
      using 2 [OF that] assign_syn_main_spec r(2) by (metis image_eqI, metis)
    moreover have "item_keys A \<in> item_keys ` set (pr_RightParts r')" if "A \<in> set (pr_RightParts r)" for A
      using 1 [OF that] assign_syn_main_spec(1) by (metis image_eqI)
    ultimately have main: "list_all (list_ex m_bSynMain) (pr_RightParts r')"
      and keys: "item_keys ` set (pr_RightParts r') = item_keys ` set (pr_RightParts r)"
      by (auto simp: list_all_iff)
    from main have "[] \<notin> set (pr_RightParts r')" by (auto simp: list_all_iff)
    then show ?thesis
      using f [OF fr] r(1) main keys by simp
  qed
  have "list_all2 (\<lambda>r r'. f r = Some r') (m_Rules P) rs"
    by (rule map_all_Some [OF rs])
  then have all: "source_ok (m_Rules P) \<Longrightarrow>
      source_ok rs \<and> has_main rs \<and> source_rules rs = source_rules (m_Rules P)"
    by (induction rule: list_all2_induct)
      (use ok in \<open>auto simp: source_ok_def has_main_def source_rules_def\<close>)
  then show "source_ok (m_Rules Q)" "has_main (m_Rules Q)"
    "source_rules (m_Rules Q) = source_rules (m_Rules P)" "m_Roots Q = m_Roots P"
    using assms(2) Q by simp_all
qed

section \<open>Augmentation\<close>

lemma find_root_Some: "find_root items = Some i \<Longrightarrow> i < length items \<and> m_bGrammarRoot (items ! i)"
  by (induction items arbitrary: i) (auto split: if_splits)

lemma find_root_None: "find_root items = None \<longleftrightarrow> filter m_bGrammarRoot items = []"
  by (induction items) auto

lemma augmented_items:
  assumes "m_UniqueGrammarItems G' = m_UniqueGrammarItems G @ [end_of_input_item, new_root_item]"
  shows "GetNewRoot G' = Suc (length (m_UniqueGrammarItems G))"
    and "GetEndOfStreamSymbol G' = length (m_UniqueGrammarItems G)"
    and "is_meta G' (GetNewRoot G')" and "\<not> is_meta G' (GetEndOfStreamSymbol G')"
    and "s < length (m_UniqueGrammarItems G) \<Longrightarrow> is_meta G' s = is_meta G s"
  using assms
  by (auto simp: GetNewRoot_def GetEndOfStreamSymbol_def is_meta_def nth_append new_root_item_def
      end_of_input_item_def)

text \<open>
  The rule the augmentation adds is new, because its left part is: the rule set grows by it.
\<close>

lemma AugmentGrammar_augmented:
  assumes wf: "wf_grammar G" and nums: "\<forall>r \<in> set (m_EncodedRules G). m_OriginalRuleNo r < length A"
    and aug: "AugmentGrammar G A = Inr (True, G', A')"
  shows "augmented G'"
    and "\<exists>R. set (m_EncodedRules G') = insert R (set (m_EncodedRules G)) \<and>
           m_LeftPart R = GetNewRoot G' \<and> m_OriginalRuleNo R = length A \<and>
           (\<exists>root. rhs R = [root, GetEndOfStreamSymbol G'] \<and>
              root < length (m_UniqueGrammarItems G) \<and> m_bGrammarRoot (m_UniqueGrammarItems G ! root))"
    and "m_UniqueGrammarItems G' = m_UniqueGrammarItems G @ [end_of_input_item, new_root_item]"
proof -
  let ?n = "length (m_UniqueGrammarItems G)"
  have one: "GetCountOfRoots G = 1"
    using aug by (auto simp: AugmentGrammar_def split: if_splits)
  then obtain root where root: "find_root (m_UniqueGrammarItems G) = Some root"
    using find_root_None by (fastforce simp: GetCountOfRoots_def)
  note rt = find_root_Some [OF root]
  define R where "R = \<lparr>m_OriginalRuleNo = length A, m_LeftPart = Suc ?n,
      m_RightPart = \<lparr>m_Items = [root, ?n], m_SynMainItemNo = 0\<rparr>\<rparr>"
  have items: "m_UniqueGrammarItems G' = m_UniqueGrammarItems G @ [end_of_input_item, new_root_item]"
    and rules: "m_EncodedRules G' = oset_insert work_rule_less R (m_EncodedRules G)"
    using aug root by (auto simp: AugmentGrammar_def R_def Let_def split: if_splits)
  note ai = augmented_items [OF items]
  have small: "m_LeftPart r < ?n" "\<forall>s \<in> set (rhs r). s < ?n" if "r \<in> set (m_EncodedRules G)" for r
    using wf_grammar_ruleD [OF wf that] by auto
  have new: "\<not> oset_mem work_rule_less R (m_EncodedRules G)"
    using small by (force simp: work_rule.mem_iff R_def key_defs)
  have set: "set (m_EncodedRules G') = insert R (set (m_EncodedRules G))"
    using work_rule.insert_absent [OF new] rules by simp
  have sorted: "sorted_wrt work_rule_less (m_EncodedRules G')"
    using wf rules work_rule.ordered_insert by (simp add: wf_grammar_def)
  have "wf_rule (m_UniqueGrammarItems G') r" if "r \<in> set (m_EncodedRules G)" for r
    using that wf small [OF that]
    by (auto simp: wf_grammar_def wf_rule_def items nth_append list_all_iff less_Suc_eq)
  moreover have "wf_rule (m_UniqueGrammarItems G') R"
    using rt ai(3) by (auto simp: wf_rule_def items R_def nth_append new_root_item_def)
  moreover have "distinct (map m_OriginalRuleNo (m_EncodedRules G'))"
    using work_rule.ordered_distinct [OF sorted] wf_grammar_inj [OF wf] nums
    by (auto simp: distinct_map set R_def)
  ultimately have wf': "wf_grammar G'"
    using sorted set by (auto simp: wf_grammar_def list_all_iff)
  have "filter (\<lambda>r. m_LeftPart r = GetNewRoot G') (m_EncodedRules G') = [R]"
  proof -
    have "set (filter (\<lambda>r. m_LeftPart r = GetNewRoot G') (m_EncodedRules G')) = {R}"
      using small ai(1) by (fastforce simp: set R_def)
    moreover have "distinct (filter (\<lambda>r. m_LeftPart r = GetNewRoot G') (m_EncodedRules G'))"
      using work_rule.ordered_distinct [OF sorted] by simp
    ultimately show ?thesis
      by (metis distinct.simps(2) distinct_length_2_or_more empty_iff insert_iff list.exhaust list.set(1) list.set_intros(1,2) singletonD)
  qed
  then show "augmented G'"
    using wf' ai rt small set unfolding augmented_def
    by (auto simp: items R_def list_all_iff) fastforce+
  show "\<exists>R. set (m_EncodedRules G') = insert R (set (m_EncodedRules G)) \<and>
           m_LeftPart R = GetNewRoot G' \<and> m_OriginalRuleNo R = length A \<and>
           (\<exists>root. rhs R = [root, GetEndOfStreamSymbol G'] \<and>
              root < length (m_UniqueGrammarItems G) \<and> m_bGrammarRoot (m_UniqueGrammarItems G ! root))"
    using set ai rt by (intro exI [of _ R]) (simp add: R_def)
  show "m_UniqueGrammarItems G' = m_UniqueGrammarItems G @ [end_of_input_item, new_root_item]"
    by (rule items)
qed

section \<open>A sample grammar\<close>

text \<open>
  \<^verbatim>\<open>S -> a S b | a b\<close> with the root \<^verbatim>\<open>S\<close>, used to evaluate the definitions of this and the
  following theories on a concrete input.
\<close>

definition sample_S :: CGrammarItem where
  "sample_S = grammar_item_init\<lparr>m_ItemStrId := ''S'', m_Type := siMeta\<rparr>"

definition sample_a :: CGrammarItem where
  "sample_a = grammar_item_init\<lparr>m_ItemStrId := ''a'', m_Type := siString\<rparr>"

definition sample_b :: CGrammarItem where
  "sample_b = grammar_item_init\<lparr>m_ItemStrId := ''b'', m_Type := siString\<rparr>"

definition sample_parse :: CParseGrammar where
  "sample_parse = \<lparr>m_Roots = [sample_S],
     m_Rules = [\<lparr>pr_LeftPart = sample_S,
       pr_RightParts = [[sample_a, sample_S, sample_b], [sample_a, sample_b]]\<rparr>]\<rparr>"

definition sample_main :: CParseGrammar where
  "sample_main = \<lparr>m_Roots = [sample_S],
     m_Rules = [\<lparr>pr_LeftPart = sample_S,
       pr_RightParts = [[sample_a\<lparr>m_bSynMain := True\<rparr>, sample_S, sample_b],
         [sample_a\<lparr>m_bSynMain := True\<rparr>, sample_b]]\<rparr>]\<rparr>"

definition sample_rule :: "nat \<Rightarrow> symbol \<Rightarrow> symbol list \<Rightarrow> CWorkRule" where
  "sample_rule n l r = \<lparr>m_OriginalRuleNo = n, m_LeftPart = l,
     m_RightPart = \<lparr>m_Items = r, m_SynMainItemNo = 0\<rparr>\<rparr>"

definition sample_grammar :: CWorkGrammar where
  "sample_grammar = work_grammar_init\<lparr>
     m_UniqueGrammarItems := [sample_S, sample_a\<lparr>m_bGrammarRoot := False\<rparr>,
       sample_b\<lparr>m_bGrammarRoot := False\<rparr>],
     m_EncodedRules := [sample_rule 0 0 [1, 0, 2], sample_rule 1 0 [1, 2]]\<rparr>"

definition sample_augmented :: CWorkGrammar where
  "sample_augmented = sample_grammar\<lparr>
     m_UniqueGrammarItems := m_UniqueGrammarItems sample_grammar @ [end_of_input_item, new_root_item],
     m_EncodedRules := [sample_rule 2 4 [0, 3], sample_rule 0 0 [1, 0, 2], sample_rule 1 0 [1, 2]]\<rparr>"

lemma sample_evaluated:
  "AssignSynMainItemIfNotDefined sample_parse = Some sample_main"
  "EncodeGrammar 0 sample_main work_grammar_init = Some sample_grammar"
  "AugmentGrammar sample_grammar [[], []::nat list] = Inr (True, sample_augmented, [[], [], []])"
  by code_simp+

lemma sample_wf: "source_ok (m_Rules sample_main)" "wf_grammar sample_grammar" "wf_grammar sample_augmented"
  by code_simp+

lemma sample_nums: "\<forall>r \<in> set (m_EncodedRules sample_grammar). m_OriginalRuleNo r < length [[], []::nat list]"
  by code_simp

lemma sample_is_augmented: "augmented sample_augmented"
  by (rule AugmentGrammar_augmented(1) [OF sample_wf(2) sample_nums sample_evaluated(3)])

lemma augmented_wf:
  assumes "augmented G"
  shows "wf_grammar G" "GetNewRoot G < length (m_UniqueGrammarItems G)"
    "GetEndOfStreamSymbol G < length (m_UniqueGrammarItems G)" "GetEndOfStreamSymbol G \<noteq> GetNewRoot G"
  using assms by (auto simp: augmented_def GetNewRoot_def GetEndOfStreamSymbol_def)

section \<open>Properties\<close>

text \<open>
  C12. Assigning main items and encoding a parsed grammar gives a well-formed, valid work grammar:
  its rules are an ordered set with distinct numbers, every symbol number is in range, left parts
  are meta symbols, the main item of each rule lies inside its right part, no two item numbers
  stand for the same item, and the rules decode to exactly the rules of the source.
\<close>

theorem EncodeGrammar_correct:
  assumes "source_ok (m_Rules P)"
    and "AssignSynMainItemIfNotDefined P = Some Q"
    and "EncodeGrammar u Q W = Some G"
  shows "wf_grammar G \<and> IsValid G \<and> distinct (item_keys (m_UniqueGrammarItems G)) \<and>
     decode_rule (m_UniqueGrammarItems G) ` set (m_EncodedRules G) = source_rules (m_Rules P)"
  using EncodeGrammar_inv [OF assms(3)] AssignSynMain_spec [OF assms(2,1)]
  by (auto simp: encode_inv_def wf_grammar_def IsValid_def list_all_iff)

theorem EncodeGrammar_correct_witness:
  "source_ok (m_Rules sample_parse) \<and> IsValid sample_grammar \<and>
   decode_rule (m_UniqueGrammarItems sample_grammar) ` set (m_EncodedRules sample_grammar) =
     source_rules (m_Rules sample_parse)"
proof -
  have ok: "source_ok (m_Rules sample_parse)" by code_simp
  show ?thesis
    using EncodeGrammar_correct [OF ok sample_evaluated(1,2)] ok by simp
qed

text \<open>
  \<^verbatim>\<open>AugmentGrammar\<close>, every branch: it throws when the grammar does not have exactly one root, it
  returns false and changes nothing when a symbol has a reserved name, and otherwise it returns
  true, a well-formed grammar whose only new rule leads from the new root to the old root followed
  by the end symbol, and one more (empty) vector of agreements. The new root and the end symbol occur in no
  other rule.
\<close>

lemma AugmentGrammar_correct:
  assumes "wf_grammar G" and "\<forall>r \<in> set (m_EncodedRules G). m_OriginalRuleNo r < length A"
  shows "case AugmentGrammar G A of
      Inl _ \<Rightarrow> GetCountOfRoots G \<noteq> 1
    | Inr (False, G', A') \<Rightarrow> GetCountOfRoots G = 1 \<and> G' = G \<and> A' = A \<and>
        (\<exists>I \<in> set (m_UniqueGrammarItems G). m_ItemStrId I \<in> {NEW_ROOT, END_OF_INPUT})
    | Inr (True, G', A') \<Rightarrow> augmented G' \<and> A' = A @ [[]] \<and>
        m_UniqueGrammarItems G' = m_UniqueGrammarItems G @ [end_of_input_item, new_root_item] \<and>
        (\<exists>R root. set (m_EncodedRules G') = insert R (set (m_EncodedRules G)) \<and>
           m_LeftPart R = GetNewRoot G' \<and> m_OriginalRuleNo R = length A \<and>
           rhs R = [root, GetEndOfStreamSymbol G'] \<and>
           root < length (m_UniqueGrammarItems G) \<and> m_bGrammarRoot (m_UniqueGrammarItems G ! root))"
proof (cases "AugmentGrammar G A")
  case (Inl e)
  then show ?thesis by (auto simp: AugmentGrammar_def Let_def split: if_splits)
next
  case (Inr x)
  obtain b G' A' where x: "x = (b, G', A')" by (cases x)
  show ?thesis
  proof (cases b)
    case True
    have aug: "AugmentGrammar G A = Inr (True, G', A')" using Inr x True by simp
    then have "A' = A @ [[]]" by (auto simp: AugmentGrammar_def Let_def split: if_splits)
    then show ?thesis
      using AugmentGrammar_augmented [OF assms aug] aug by auto
  next
    case False
    then show ?thesis
      using Inr x by (auto simp: AugmentGrammar_def Let_def list_ex_iff split: if_splits)
  qed
qed

lemma AugmentGrammar_correct_witness:
  "wf_grammar sample_grammar \<and> augmented sample_augmented"
  using AugmentGrammar_correct [OF sample_wf(2) sample_nums] sample_wf by (simp add: sample_evaluated)

text \<open>
  \<^verbatim>\<open>IndexEncodedRules\<close> gives, for every symbol, the rules of that left part in the order of the
  rule set.
\<close>

lemma IndexEncodedRules_correct:
  "IndexEncodedRules G =
     map (\<lambda>s. filter (\<lambda>r. m_LeftPart r = s) (m_EncodedRules G)) [0..<length (m_UniqueGrammarItems G)]"
  by (rule nth_equalityI) (simp_all add: IndexEncodedRules_nth)

end
