(* ===== verification/FirstFollow.thy ===== *)
theory FirstFollow
  imports WorkGrammar
begin

text \<open>
  The FIRST and FOLLOW sets of \<^verbatim>\<open>CWorkGrammar\<close> (\<^verbatim>\<open>Build_FIRST_Set\<close>, \<^verbatim>\<open>Build_FOLLOW_Set\<close> of
  \<^verbatim>\<open>loader.cpp\<close>). Both loop over the rules until no set changes. They are shown to end, and the
  sets they leave are characterised by derivations of the grammar: a terminal is in FIRST of a
  symbol when the symbol derives a form that starts with it, and in FOLLOW of a symbol when it comes
  right after the symbol in a form derived from some left part.
\<close>

section \<open>The loops\<close>

text \<open>
  One rule of the FIRST pass. The source reads the first item of the right part without a test;
  rules with an empty right part, which a valid grammar has none of, are skipped here.
\<close>

definition first_rule ::
  "('a CWorkGrammar_scheme) \<Rightarrow> CWorkRule \<Rightarrow> nat list list \<times> bool \<Rightarrow> nat list list \<times> bool" where
  "first_rule G R vc =
     (case rhs R of [] \<Rightarrow> vc
      | SymbolNo # _ \<Rightarrow>
          if is_meta G SymbolNo then vset_insert_all (m_LeftPart R) (fst vc ! SymbolNo) vc
          else vset_insert (m_LeftPart R) SymbolNo vc)"

definition first_pass :: "('a CWorkGrammar_scheme) \<Rightarrow> nat list list \<Rightarrow> nat list list \<times> bool" where
  "first_pass G v = fold (first_rule G) (m_EncodedRules G) (v, False)"

definition Build_FIRST_Set :: "('a CWorkGrammar_scheme) \<Rightarrow> ('a CWorkGrammar_scheme) option" where
  "Build_FIRST_Set G =
     map_option (\<lambda>v. G\<lparr>m_FirstSets := v\<rparr>)
       (changed_loop (first_pass G) (replicate (length (m_UniqueGrammarItems G)) []))"

definition follow_pair ::
  "('a CWorkGrammar_scheme) \<Rightarrow> CWorkRule \<Rightarrow> nat \<Rightarrow> nat list list \<times> bool \<Rightarrow> nat list list \<times> bool" where
  "follow_pair G R i vc =
     (let SymbolNo = rhs R ! (i + 1)
      in if is_meta G SymbolNo then vset_insert_all (rhs R ! i) (m_FirstSets G ! SymbolNo) vc
         else vset_insert (rhs R ! i) SymbolNo vc)"

definition follow_rule ::
  "('a CWorkGrammar_scheme) \<Rightarrow> CWorkRule \<Rightarrow> nat list list \<times> bool \<Rightarrow> nat list list \<times> bool" where
  "follow_rule G R vc =
     (let vc' = fold (follow_pair G R) [0..<length (rhs R) - 1] vc;
          SymbolNo = last (rhs R)
      in if rhs R \<noteq> [] \<and> is_meta G SymbolNo
         then vset_insert_all SymbolNo (fst vc' ! m_LeftPart R) vc' else vc')"

definition follow_pass :: "('a CWorkGrammar_scheme) \<Rightarrow> nat list list \<Rightarrow> nat list list \<times> bool" where
  "follow_pass G v = fold (follow_rule G) (m_EncodedRules G) (v, False)"

definition Build_FOLLOW_Set :: "('a CWorkGrammar_scheme) \<Rightarrow> ('a CWorkGrammar_scheme) option" where
  "Build_FOLLOW_Set G =
     map_option (\<lambda>v. G\<lparr>m_FollowSets := v\<rparr>)
       (changed_loop (follow_pass G) (replicate (length (m_UniqueGrammarItems G)) []))"

section \<open>Derivations\<close>

definition derives1 :: "('a CWorkGrammar_scheme) \<Rightarrow> symbol list \<Rightarrow> symbol list \<Rightarrow> bool" where
  "derives1 G u v \<longleftrightarrow>
     (\<exists>R \<in> set (m_EncodedRules G). \<exists>p s. u = p @ m_LeftPart R # s \<and> v = p @ rhs R @ s)"

abbreviation derives :: "('a CWorkGrammar_scheme) \<Rightarrow> symbol list \<Rightarrow> symbol list \<Rightarrow> bool" where
  "derives G \<equiv> (derives1 G)\<^sup>*\<^sup>*"

lemma derives1_context: "derives1 G u v \<Longrightarrow> derives1 G (p @ u @ s) (p @ v @ s)"
  unfolding derives1_def by (metis append.assoc append_Cons)

lemma derives_context: "derives G u v \<Longrightarrow> derives G (p @ u @ s) (p @ v @ s)"
  by (induction rule: rtranclp_induct) (auto intro: derives1_context rtranclp.rtrancl_into_rtrancl)

lemma derives_rule: "R \<in> set (m_EncodedRules G) \<Longrightarrow> derives G [m_LeftPart R] (rhs R)"
  by (rule r_into_rtranclp) (force simp: derives1_def)

text \<open>The least relations closed under what the two loops do.\<close>

inductive first_of :: "('a CWorkGrammar_scheme) \<Rightarrow> symbol \<Rightarrow> symbol \<Rightarrow> bool" for G where
  first_terminal: "R \<in> set (m_EncodedRules G) \<Longrightarrow> rhs R = a # w \<Longrightarrow> \<not> is_meta G a \<Longrightarrow>
     first_of G (m_LeftPart R) a"
| first_meta: "R \<in> set (m_EncodedRules G) \<Longrightarrow> rhs R = Y # w \<Longrightarrow> is_meta G Y \<Longrightarrow> first_of G Y a \<Longrightarrow>
     first_of G (m_LeftPart R) a"

definition first_symbol :: "('a CWorkGrammar_scheme) \<Rightarrow> symbol \<Rightarrow> symbol \<Rightarrow> bool" where
  "first_symbol G Y a \<longleftrightarrow> (if is_meta G Y then first_of G Y a else a = Y)"

inductive follow_of :: "('a CWorkGrammar_scheme) \<Rightarrow> symbol \<Rightarrow> symbol \<Rightarrow> bool" for G where
  follow_next: "R \<in> set (m_EncodedRules G) \<Longrightarrow> rhs R = u @ X # Y # w \<Longrightarrow> first_symbol G Y a \<Longrightarrow>
     follow_of G X a"
| follow_last: "R \<in> set (m_EncodedRules G) \<Longrightarrow> rhs R = u @ [X] \<Longrightarrow> is_meta G X \<Longrightarrow>
     follow_of G (m_LeftPart R) a \<Longrightarrow> follow_of G X a"

lemma first_of_not_meta: "first_of G X a \<Longrightarrow> \<not> is_meta G a"
  by (induction rule: first_of.induct)

lemma first_of_cong:
  assumes "first_of G X a" "m_EncodedRules G' = m_EncodedRules G" "is_meta G' = is_meta G"
  shows "first_of G' X a"
  using assms(1) by induction (simp_all add: first_of.intros assms(2,3))

lemma first_symbol_not_meta: "first_symbol G X a \<Longrightarrow> \<not> is_meta G a"
  by (auto simp: first_symbol_def first_of_not_meta split: if_splits)

lemma follow_of_not_meta: "follow_of G X a \<Longrightarrow> \<not> is_meta G a"
  by (induction rule: follow_of.induct) (auto dest: first_symbol_not_meta)

lemma first_of_symbol:
  "R \<in> set (m_EncodedRules G) \<Longrightarrow> rhs R = Y # w \<Longrightarrow> first_symbol G Y a \<Longrightarrow>
   first_of G (m_LeftPart R) a"
  by (auto simp: first_symbol_def intro: first_of.intros split: if_splits)

lemma first_of_derives: "first_of G X a \<Longrightarrow> \<exists>w. derives G [X] (a # w)"
proof (induction rule: first_of.induct)
  case (first_terminal R a w)
  then show ?case by (metis derives_rule)
next
  case (first_meta R Y w a)
  then obtain w' where "derives G [Y] (a # w')" by blast
  then have "derives G (Y # w) (a # w' @ w)"
    using derives_context [of G "[Y]" "a # w'" "[]" w] by simp
  then show ?case
    using first_meta by (metis derives_rule rtranclp_trans)
qed

lemma first_symbol_derives: "first_symbol G X a \<Longrightarrow> \<exists>w. derives G [X] (a # w)"
  by (auto simp: first_symbol_def first_of_derives split: if_splits)

lemma derives_first_symbol:
  assumes "wf_grammar G" "derives G [X] v"
  shows "v \<noteq> [] \<and> (\<forall>a. first_symbol G (hd v) a \<longrightarrow> first_symbol G X a)"
  using assms(2)
proof (induction rule: rtranclp_induct)
  case base
  then show ?case by simp
next
  case (step u v)
  then obtain R p s where R: "R \<in> set (m_EncodedRules G)" "u = p @ m_LeftPart R # s"
    "v = p @ rhs R @ s"
    by (auto simp: derives1_def)
  have ne: "rhs R \<noteq> []" and meta: "is_meta G (m_LeftPart R)"
    using wf_grammar_ruleD [OF assms(1) R(1)] by auto
  show ?case
  proof (cases p)
    case Nil
    have "first_symbol G (m_LeftPart R) a" if "first_symbol G (hd (rhs R)) a" for a
      using that ne meta first_of_symbol [OF R(1)] by (cases "rhs R") (auto simp: first_symbol_def)
    then show ?thesis
      using step.IH R ne Nil by (cases "rhs R") auto
  next
    case (Cons y ys)
    then show ?thesis using step.IH R by simp
  qed
qed

lemma first_of_iff_derives:
  assumes "wf_grammar G" "is_meta G X"
  shows "first_of G X a \<longleftrightarrow> \<not> is_meta G a \<and> (\<exists>w. derives G [X] (a # w))"
  using derives_first_symbol [OF assms(1), of X "a # _"] assms(2)
  by (auto simp: first_of_not_meta first_of_derives first_symbol_def split: if_splits)

text \<open>Neighbours in a derived form follow each other.\<close>

definition may_follow :: "('a CWorkGrammar_scheme) \<Rightarrow> symbol \<Rightarrow> symbol \<Rightarrow> bool" where
  "may_follow G X Y \<longleftrightarrow> (is_meta G X \<longrightarrow> (\<forall>a. first_symbol G Y a \<longrightarrow> follow_of G X a))"

lemma successivelyI:
  assumes "\<And>u X Y w. xs = u @ X # Y # w \<Longrightarrow> P X Y"
  shows "successively P xs"
  using assms
proof (induction xs rule: induct_list012)
  case (3 x y zs)
  have "P x y" using "3.prems" [of "[]"] by simp
  moreover have "successively P (y # zs)"
    by (rule "3.IH"(2)) (metis "3.prems" append_Cons)
  ultimately show ?case by simp
qed auto

lemma derives_may_follow:
  assumes "wf_grammar G" "derives G [Z] v"
  shows "successively (may_follow G) v"
  using assms(2)
proof (induction rule: rtranclp_induct)
  case base
  then show ?case by simp
next
  case (step u v)
  then obtain R p s where R: "R \<in> set (m_EncodedRules G)" "u = p @ m_LeftPart R # s"
    "v = p @ rhs R @ s"
    by (auto simp: derives1_def)
  note wf = wf_grammar_ruleD [OF assms(1) R(1)]
  have inner: "successively (may_follow G) (rhs R)"
    by (rule successivelyI) (use R(1) in \<open>auto simp: may_follow_def intro: follow_next\<close>)
  have left: "p = [] \<or> may_follow G (last p) (hd (rhs R))"
    using step.IH R(2) first_of_symbol [OF R(1)] wf(1,2)
    by (cases "rhs R") (auto simp: successively_append_iff may_follow_def first_symbol_def)
  have right: "s = [] \<or> may_follow G (last (rhs R)) (hd s)"
  proof (cases s)
    case (Cons y ys)
    then have "may_follow G (m_LeftPart R) y"
      using step.IH R(2) by (simp add: successively_append_iff)
    moreover have "rhs R = butlast (rhs R) @ [last (rhs R)]" using wf(1) by simp
    ultimately show ?thesis
      using Cons wf(2) follow_last [OF R(1)] by (auto simp: may_follow_def)
  qed simp
  have "successively (may_follow G) p" "successively (may_follow G) s"
    using step.IH R(2) by (auto simp: successively_append_iff successively_Cons)
  then show ?case
    using inner left right R(3) wf(1) by (auto simp: successively_append_iff)
qed

lemma follow_of_derives:
  assumes "follow_of G X a"
  shows "\<exists>R u w. R \<in> set (m_EncodedRules G) \<and> derives G [m_LeftPart R] (u @ X # a # w)"
  using assms
proof (induction rule: follow_of.induct)
  case (follow_next R u X Y w a)
  then obtain w' where "derives G [Y] (a # w')" using first_symbol_derives by blast
  then have "derives G (u @ X # Y # w) (u @ X # a # w' @ w)"
    using derives_context [of G "[Y]" "a # w'" "u @ [X]" w] by simp
  then show ?case
    using follow_next by (metis derives_rule rtranclp_trans)
next
  case (follow_last R u X a)
  then obtain R' u' w where R': "R' \<in> set (m_EncodedRules G)"
    "derives G [m_LeftPart R'] (u' @ m_LeftPart R # a # w)" by blast
  have "derives G (u' @ m_LeftPart R # a # w) ((u' @ u) @ X # a # w)"
    using derives_context [OF derives_rule [OF follow_last(1)], of u' "a # w"] follow_last(2) by simp
  then show ?case using R' by (metis rtranclp_trans)
qed

lemma follow_of_iff_derives:
  assumes "wf_grammar G" "is_meta G X"
  shows "follow_of G X a \<longleftrightarrow>
     \<not> is_meta G a \<and> (\<exists>Z u w. is_meta G Z \<and> derives G [Z] (u @ X # a # w))"
proof
  assume "follow_of G X a"
  then show "\<not> is_meta G a \<and> (\<exists>Z u w. is_meta G Z \<and> derives G [Z] (u @ X # a # w))"
    using follow_of_derives follow_of_not_meta wf_grammar_ruleD(2) [OF assms(1)] by blast
next
  assume "\<not> is_meta G a \<and> (\<exists>Z u w. is_meta G Z \<and> derives G [Z] (u @ X # a # w))"
  then obtain Z u w where "\<not> is_meta G a" "derives G [Z] (u @ X # a # w)" by blast
  then show "follow_of G X a"
    using derives_may_follow [OF assms(1)] assms(2)
    by (fastforce simp: successively_append_iff may_follow_def first_symbol_def)
qed

section \<open>The loops compute the relations\<close>

definition grammar_symbols :: "('a CWorkGrammar_scheme) \<Rightarrow> symbol set" where
  "grammar_symbols G = (\<Union>R \<in> set (m_EncodedRules G). set (rhs R))"

lemma finite_grammar_symbols: "finite (grammar_symbols G)"
  by (simp add: grammar_symbols_def)

lemma first_rule_step: "vset_step vc (first_rule G R vc)"
  by (auto simp: first_rule_def split: list.split)

lemma follow_pair_step: "vset_step vc (follow_pair G R i vc)"
  by (auto simp: follow_pair_def Let_def)

lemma follow_rule_step: "vset_step vc (follow_rule G R vc)"
proof -
  have 1: "vset_step vc (fold (follow_pair G R) [0..<length (rhs R) - 1] vc)"
    by (auto intro: follow_pair_step)
  then show ?thesis
    by (auto simp: follow_rule_def Let_def intro: vset_step_trans)
qed

text \<open>What one step adds to the relation.\<close>

lemma first_rule_rel:
  assumes "length v = length (m_UniqueGrammarItems G)"
  shows "vset_rel (fst (first_rule G R (v, c))) = vset_rel v \<union>
     {(m_LeftPart R, a) |a Y w. m_LeftPart R < length v \<and> rhs R = Y # w \<and>
        (if is_meta G Y then (Y, a) \<in> vset_rel v else a = Y)}"
proof (cases "rhs R")
  case (Cons Y w)
  have "is_meta G Y \<Longrightarrow> Y < length v" using assms by (simp add: is_meta_def)
  then show ?thesis
    using Cons by (auto simp: first_rule_def vset_insert_fst vset_insert_all_fst)
qed (simp add: first_rule_def)

lemma follow_pair_rel:
  assumes "length v = length (m_UniqueGrammarItems G)" "length (m_FirstSets G) = length v"
  shows "vset_rel (fst (follow_pair G R i (v, c))) = vset_rel v \<union>
     {(rhs R ! i, a) |a. rhs R ! i < length v \<and>
        (if is_meta G (rhs R ! (i + 1)) then (rhs R ! (i + 1), a) \<in> vset_rel (m_FirstSets G)
         else a = rhs R ! (i + 1))}"
proof -
  have "is_meta G Y \<Longrightarrow> Y < length (m_FirstSets G)" for Y using assms by (simp add: is_meta_def)
  then show ?thesis
    by (auto simp: follow_pair_def Let_def vset_insert_fst vset_insert_all_fst)
qed


lemma first_rule_length [simp]: "length (fst (first_rule G R vc)) = length (fst vc)"
  by (rule vset_step_length [OF first_rule_step])

lemma follow_pair_length [simp]: "length (fst (follow_pair G R i vc)) = length (fst vc)"
  by (rule vset_step_length [OF follow_pair_step])

lemma follow_rule_length [simp]: "length (fst (follow_rule G R vc)) = length (fst vc)"
  by (rule vset_step_length [OF follow_rule_step])

text \<open>
  A property of the relation that every insertion keeps holds after the pass. \<open>Q\<close> is what the
  pairs in the relation satisfy.
\<close>

lemma first_pass_rel:
  assumes v: "length v = length (m_UniqueGrammarItems G)" "vset_rel v \<subseteq> Q"
    and Q: "\<And>R a Y w. R \<in> set (m_EncodedRules G) \<Longrightarrow> rhs R = Y # w \<Longrightarrow>
       m_LeftPart R < length (m_UniqueGrammarItems G) \<Longrightarrow>
       (if is_meta G Y then (Y, a) \<in> Q else a = Y) \<Longrightarrow> (m_LeftPart R, a) \<in> Q"
  shows "vset_rel (fst (first_pass G v)) \<subseteq> Q"
proof -
  define P where "P vc \<longleftrightarrow> length (fst vc) = length (m_UniqueGrammarItems G) \<and> vset_rel (fst vc) \<subseteq> Q"
    for vc :: "nat list list \<times> bool"
  have "P (fold (first_rule G) (m_EncodedRules G) (v, False))"
  proof (rule fold_invariant_list)
    fix R vc assume R: "R \<in> set (m_EncodedRules G)" and vc: "P vc"
    obtain v c where [simp]: "vc = (v, c)" by (cases vc)
    have len: "length v = length (m_UniqueGrammarItems G)" using vc by (simp add: P_def)
    have "(m_LeftPart R, a) \<in> Q" if "m_LeftPart R < length v" "rhs R = Y # w"
      "if is_meta G Y then (Y, a) \<in> vset_rel v else a = Y" for a Y w
      using that Q [OF R, of Y w a] vc len subsetD [of "vset_rel v" Q "(Y, a)"]
      by (auto simp: P_def split: if_splits)
    then show "P (first_rule G R vc)"
      using vc first_rule_rel [OF len, of R c] by (auto simp: P_def)
  qed (use v in \<open>simp add: P_def\<close>)
  then show ?thesis by (simp add: P_def first_pass_def)
qed

interpretation first: vset_pass "first_pass G" "length (m_UniqueGrammarItems G)" "grammar_symbols G"
  for G :: "'a CWorkGrammar_scheme"
proof
  show "finite (grammar_symbols G)" by (rule finite_grammar_symbols)
  show "vset_step (v, False) (first_pass G v)" for v
    unfolding first_pass_def by (auto intro: first_rule_step)
  show "vset_rel (fst (first_pass G v)) \<subseteq> {..<length (m_UniqueGrammarItems G)} \<times> grammar_symbols G"
    if "length v = length (m_UniqueGrammarItems G)"
      "vset_rel v \<subseteq> {..<length (m_UniqueGrammarItems G)} \<times> grammar_symbols G" for v
    by (rule first_pass_rel [OF that]) (force simp: grammar_symbols_def split: if_splits)
qed

lemma vset_rel_replicate [simp]: "vset_rel (replicate n []) = {}"
  by (auto simp: vset_rel_def)

lemma sorted_replicate [simp]: "list_all (sorted_wrt P) (replicate n [])"
  by (simp add: list_all_length)

text \<open>FIRST sets: the loop ends, and the sets are exactly the relation.\<close>

lemma Build_FIRST_Set_spec:
  assumes wf: "wf_grammar G"
  shows "\<exists>F. Build_FIRST_Set G = Some (G\<lparr>m_FirstSets := F\<rparr>) \<and>
     length F = length (m_UniqueGrammarItems G) \<and> list_all (sorted_wrt (<)) F \<and>
     (\<forall>X a. (X, a) \<in> vset_rel F \<longleftrightarrow> first_of G X a)"
proof -
  let ?n = "length (m_UniqueGrammarItems G)"
  obtain F where F: "changed_loop (first_pass G) (replicate ?n []) = Some F"
    "length F = ?n" "list_all (sorted_wrt (<)) F" "first_pass G F = (F, False)"
    using first.loop_from_empty [of G] by blast
  define P where "P v \<longleftrightarrow> length v = ?n \<and> vset_rel v \<subseteq> {(X, a). first_of G X a}" for v
  have "P F"
  proof (rule changed_loop_invariant [OF F(1)])
    show "P (replicate ?n [])" by (simp add: P_def)
    fix v assume v: "P v"
    have "vset_rel (fst (first_pass G v)) \<subseteq> {(X, a). first_of G X a}"
      by (rule first_pass_rel)
        (use v in \<open>auto simp: P_def intro: first_of.intros split: if_splits\<close>)
    moreover have "length (fst (first_pass G v)) = ?n"
      using v first.pass_step [of v G] by (simp add: P_def vset_step_def)
    ultimately show "P (fst (first_pass G v))" by (simp add: P_def)
  qed
  moreover have "(X, a) \<in> vset_rel F" if "first_of G X a" for X a
  proof -
    have fix1: "first_rule G R (F, False) = (F, False)" if "R \<in> set (m_EncodedRules G)" for R
      by (rule vset_fold_unchanged [OF first_rule_step _ that]) (use F(4) in \<open>simp add: first_pass_def\<close>)
    have closed: "(m_LeftPart R, a) \<in> vset_rel F" if "R \<in> set (m_EncodedRules G)" "rhs R = Y # w"
      "if is_meta G Y then (Y, a) \<in> vset_rel F else a = Y" for R a Y w
    proof -
      have "(m_LeftPart R, a) \<in> vset_rel (fst (first_rule G R (F, False)))"
        unfolding first_rule_rel [OF F(2)]
        using that(2,3) wf_grammar_ruleD(3) [OF wf that(1)] F(2) by auto
      then show ?thesis by (simp add: fix1 [OF that(1)])
    qed
    show ?thesis
      using that by induction (use closed in \<open>auto split: if_splits\<close>)
  qed
  ultimately have iff: "(X, a) \<in> vset_rel F \<longleftrightarrow> first_of G X a" for X a
    unfolding P_def by blast
  show ?thesis
    by (intro exI [of _ F] conjI allI iff) (use F in \<open>simp_all add: Build_FIRST_Set_def\<close>)
qed

definition follow_universe :: "('a CWorkGrammar_scheme) \<Rightarrow> symbol set" where
  "follow_universe G = grammar_symbols G \<union> (\<Union>s \<in> set (m_FirstSets G). set s)"

text \<open>
  One rule of the FOLLOW pass, with the pairs it adds: those of neighbours, and those of the last
  symbol, taken from the sets as they are after the neighbours.
\<close>

lemma follow_rule_rel:
  assumes v: "length v = length (m_UniqueGrammarItems G)" "length (m_FirstSets G) = length v"
      "vset_rel v \<subseteq> Q"
    and nxt: "\<And>u X Y w a. rhs R = u @ X # Y # w \<Longrightarrow> X < length v \<Longrightarrow>
       (if is_meta G Y then (Y, a) \<in> vset_rel (m_FirstSets G) else a = Y) \<Longrightarrow> (X, a) \<in> Q"
    and lst: "\<And>u X a. rhs R = u @ [X] \<Longrightarrow> is_meta G X \<Longrightarrow> (m_LeftPart R, a) \<in> Q \<Longrightarrow>
       m_LeftPart R < length v \<Longrightarrow> (X, a) \<in> Q"
    and left: "m_LeftPart R < length v"
  shows "vset_rel (fst (follow_rule G R (v, c))) \<subseteq> Q"
proof -
  define P where "P vc \<longleftrightarrow> length (fst vc) = length v \<and> vset_rel (fst vc) \<subseteq> Q"
    for vc :: "nat list list \<times> bool"
  have P: "P (fold (follow_pair G R) [0..<length (rhs R) - 1] (v, c))"
  proof (rule fold_invariant_list)
    fix i vc assume i: "i \<in> set [0..<length (rhs R) - 1]" and vc: "P vc"
    obtain v' c' where [simp]: "vc = (v', c')" by (cases vc)
    have len: "length v' = length (m_UniqueGrammarItems G)" "length (m_FirstSets G) = length v'"
      using vc v by (simp_all add: P_def)
    have split: "rhs R = take i (rhs R) @ rhs R ! i # rhs R ! (i + 1) # drop (i + 2) (rhs R)"
      using i by (simp add: Cons_nth_drop_Suc id_take_nth_drop [symmetric])
    show "P (follow_pair G R i vc)"
      using vc follow_pair_rel [OF len, of R i c'] nxt [OF split] len v(1)
      by (auto simp: P_def split: if_splits)
  qed (use v in \<open>simp add: P_def\<close>)
  obtain v' c' where vc': "fold (follow_pair G R) [0..<length (rhs R) - 1] (v, c) = (v', c')"
    by (metis surj_pair)
  have v': "length v' = length v" "vset_rel v' \<subseteq> Q" using P vc' by (simp_all add: P_def)
  show ?thesis
  proof (cases "rhs R \<noteq> [] \<and> is_meta G (last (rhs R))")
    case True
    then have "rhs R = butlast (rhs R) @ [last (rhs R)]" by simp
    then have "(last (rhs R), a) \<in> Q" if "a \<in> set (v' ! m_LeftPart R)" for a
      using lst [of "butlast (rhs R)" "last (rhs R)" a] True that v' left
        subsetD [OF v'(2), of "(m_LeftPart R, a)"] by simp
    then show ?thesis
      using True v' vc' by (auto simp: follow_rule_def vset_insert_all_fst)
  next
    case False
    then show ?thesis using v' vc' by (auto simp: follow_rule_def Let_def)
  qed
qed


lemma follow_pass_rel:
  assumes v: "length v = length (m_UniqueGrammarItems G)" "length (m_FirstSets G) = length v"
      "vset_rel v \<subseteq> Q"
    and wf: "wf_grammar G"
    and nxt: "\<And>R u X Y w a. R \<in> set (m_EncodedRules G) \<Longrightarrow> rhs R = u @ X # Y # w \<Longrightarrow>
       X < length v \<Longrightarrow>
       (if is_meta G Y then (Y, a) \<in> vset_rel (m_FirstSets G) else a = Y) \<Longrightarrow> (X, a) \<in> Q"
    and lst: "\<And>R u X a. R \<in> set (m_EncodedRules G) \<Longrightarrow> rhs R = u @ [X] \<Longrightarrow> is_meta G X \<Longrightarrow>
       (m_LeftPart R, a) \<in> Q \<Longrightarrow> (X, a) \<in> Q"
  shows "vset_rel (fst (follow_pass G v)) \<subseteq> Q"
proof -
  define P where "P vc \<longleftrightarrow> length (fst vc) = length v \<and> vset_rel (fst vc) \<subseteq> Q"
    for vc :: "nat list list \<times> bool"
  have "P (fold (follow_rule G) (m_EncodedRules G) (v, False))"
  proof (rule fold_invariant_list)
    fix R vc assume R: "R \<in> set (m_EncodedRules G)" and vc: "P vc"
    obtain v' c where [simp]: "vc = (v', c)" by (cases vc)
    have "vset_rel (fst (follow_rule G R (v', c))) \<subseteq> Q"
      by (rule follow_rule_rel)
        (use vc v wf_grammar_ruleD(3) [OF wf R] nxt [OF R] lst [OF R] in \<open>auto simp: P_def\<close>)
    then show "P (follow_rule G R vc)" using vc by (simp add: P_def)
  qed (use v in \<open>simp add: P_def\<close>)
  then show ?thesis by (simp add: P_def follow_pass_def)
qed

text \<open>
  The FOLLOW loop relies on the grammar being well formed and on FIRST sets of the right length,
  so its instance of the loop contract is a lemma under these hypotheses.
\<close>

lemma follow_vset_pass:
  assumes wf: "wf_grammar G" and F: "length (m_FirstSets G) = length (m_UniqueGrammarItems G)"
  shows "vset_pass (follow_pass G) (length (m_UniqueGrammarItems G)) (follow_universe G)"
proof
  show "finite (follow_universe G)"
    by (simp add: follow_universe_def finite_grammar_symbols)
  show "vset_step (v, False) (follow_pass G v)" for v
    unfolding follow_pass_def by (auto intro: follow_rule_step)
  let ?W = "{..<length (m_UniqueGrammarItems G)} \<times> follow_universe G"
  show "vset_rel (fst (follow_pass G v)) \<subseteq> ?W"
    if v: "length v = length (m_UniqueGrammarItems G)" "vset_rel v \<subseteq> ?W" for v
  proof (rule follow_pass_rel)
    show "(X, a) \<in> ?W" if "R \<in> set (m_EncodedRules G)" "rhs R = u @ X # Y # w" "X < length v"
      "if is_meta G Y then (Y, a) \<in> vset_rel (m_FirstSets G) else a = Y" for R u X Y w a
      using that v F
      by (force simp: follow_universe_def grammar_symbols_def split: if_splits)
    show "(X, a) \<in> ?W" if "R \<in> set (m_EncodedRules G)" "rhs R = u @ [X]" "is_meta G X"
      "(m_LeftPart R, a) \<in> ?W" for R u X a
      using that by (simp add: is_meta_def)
  qed (use assms v in simp_all)
qed

lemma follow_rule_unchanged:
  assumes fixed: "follow_rule G R (v, False) = (v, False)"
    and v: "length v = length (m_UniqueGrammarItems G)" "length (m_FirstSets G) = length v"
  shows "rhs R = u @ X # Y # w \<Longrightarrow> X < length v \<Longrightarrow>
       (if is_meta G Y then (Y, a) \<in> vset_rel (m_FirstSets G) else a = Y) \<Longrightarrow> (X, a) \<in> vset_rel v"
    and "rhs R = u @ [X] \<Longrightarrow> is_meta G X \<Longrightarrow> a \<in> set (v ! m_LeftPart R) \<Longrightarrow> (X, a) \<in> vset_rel v"
proof -
  obtain v' c' where vc': "fold (follow_pair G R) [0..<length (rhs R) - 1] (v, False) = (v', c')"
    by (metis surj_pair)
  have 1: "vset_step (v, False) (v', c')"
    unfolding vc' [symmetric] by (auto intro: follow_pair_step)
  have 2: "vset_step (v', c') (v, False)"
    using fixed vc' by (auto simp: follow_rule_def Let_def split: if_splits) (metis vset_step_insert_all)
  have same: "v' = v" "\<not> c'" using 1 2 by (auto simp: vset_step_def)
  have pairs: "follow_pair G R i (v, False) = (v, False)" if "i < length (rhs R) - 1" for i
    by (rule vset_fold_unchanged [OF follow_pair_step])
      (use vc' same that in auto)
  show "(X, a) \<in> vset_rel v" if eq: "rhs R = u @ X # Y # w" and "X < length v"
    "if is_meta G Y then (Y, a) \<in> vset_rel (m_FirstSets G) else a = Y"
  proof -
    have "(X, a) \<in> vset_rel (fst (follow_pair G R (length u) (v, False)))"
      unfolding follow_pair_rel [OF v] using that by (auto simp: nth_append split: if_splits)
    then show ?thesis using pairs [of "length u"] eq by simp
  qed
  show "(X, a) \<in> vset_rel v" if eq: "rhs R = u @ [X]" and meta: "is_meta G X"
    and a: "a \<in> set (v ! m_LeftPart R)"
  proof -
    have "X < length v" using meta v by (simp add: is_meta_def)
    then have "(X, a) \<in> vset_rel (fst (follow_rule G R (v, False)))"
      using that vc' same by (simp add: follow_rule_def Let_def vset_insert_all_fst)
    then show ?thesis by (simp add: fixed)
  qed
qed

lemma Build_FOLLOW_Set_spec:
  assumes wf: "wf_grammar G" and F: "length (m_FirstSets G) = length (m_UniqueGrammarItems G)"
    "\<forall>X a. (X, a) \<in> vset_rel (m_FirstSets G) \<longleftrightarrow> first_of G X a"
  shows "\<exists>W. Build_FOLLOW_Set G = Some (G\<lparr>m_FollowSets := W\<rparr>) \<and>
     length W = length (m_UniqueGrammarItems G) \<and> list_all (sorted_wrt (<)) W \<and>
     (\<forall>X a. (X, a) \<in> vset_rel W \<longleftrightarrow> X < length W \<and> follow_of G X a)"
proof -
  let ?n = "length (m_UniqueGrammarItems G)"
  have fs: "(if is_meta G Y then (Y, a) \<in> vset_rel (m_FirstSets G) else a = Y) = first_symbol G Y a"
    for Y a using F(2) by (simp add: first_symbol_def)
  obtain W where W: "changed_loop (follow_pass G) (replicate ?n []) = Some W"
    "length W = ?n" "list_all (sorted_wrt (<)) W" "follow_pass G W = (W, False)"
    using vset_pass.loop_from_empty [OF follow_vset_pass [OF wf F(1)]] by blast
  define P where "P v \<longleftrightarrow> length v = ?n \<and> vset_rel v \<subseteq> {(X, a). follow_of G X a}" for v
  have "P W"
  proof (rule changed_loop_invariant [OF W(1)])
    show "P (replicate ?n [])" by (simp add: P_def)
    fix v assume v: "P v"
    have "vset_rel (fst (follow_pass G v)) \<subseteq> {(X, a). follow_of G X a}"
      by (rule follow_pass_rel)
        (use v F(1) wf in \<open>auto simp: P_def fs intro: follow_of.intros\<close>)
    moreover have "length (fst (follow_pass G v)) = ?n"
      using v vset_pass.pass_step [OF follow_vset_pass [OF wf F(1)], of v] by (simp add: P_def vset_step_def)
    ultimately show "P (fst (follow_pass G v))" by (simp add: P_def)
  qed
  moreover have "(X, a) \<in> vset_rel W" if "follow_of G X a" "X < ?n" for X a
  proof -
    have fix1: "follow_rule G R (W, False) = (W, False)" if "R \<in> set (m_EncodedRules G)" for R
      by (rule vset_fold_unchanged [OF follow_rule_step _ that]) (use W(4) in \<open>simp add: follow_pass_def\<close>)
    have len: "length (m_FirstSets G) = length W" using F(1) W(2) by simp
    note closed = follow_rule_unchanged [OF fix1 W(2) len]
    show ?thesis
      using that
    proof (induction)
      case (follow_next R u X Y w a)
      then show ?case using closed(1) [OF _ follow_next(2)] fs W(2) by simp
    next
      case (follow_last R u X a)
      then have "(m_LeftPart R, a) \<in> vset_rel W" using wf_grammar_ruleD(3) [OF wf] by blast
      then show ?case using closed(2) [OF follow_last(1,2,3)] by auto
    qed
  qed
  ultimately have iff: "(X, a) \<in> vset_rel W \<longleftrightarrow> X < length W \<and> follow_of G X a" for X a
    unfolding P_def using W(2) by (metis (mono_tags, lifting) case_prodD mem_Collect_eq subsetD vset_rel_iff)
  show ?thesis
    by (intro exI [of _ W] conjI allI iff) (use W in \<open>simp_all add: Build_FOLLOW_Set_def\<close>)
qed

section \<open>Properties\<close>

text \<open>
  C10. \<^verbatim>\<open>Build_FIRST_Set\<close> ends on every well-formed grammar, and it leaves in \<^verbatim>\<open>m_FirstSets\<close>, for every
  meta symbol, exactly the terminals that begin a form derived from it; nothing else changes.
\<close>

theorem Build_FIRST_Set_correct:
  assumes "wf_grammar G"
  shows "\<exists>F. Build_FIRST_Set G = Some (G\<lparr>m_FirstSets := F\<rparr>) \<and>
     length F = length (m_UniqueGrammarItems G) \<and>
     (\<forall>X. is_meta G X \<longrightarrow>
        set (F ! X) = {a. \<not> is_meta G a \<and> (\<exists>w. derives G [X] (a # w))})"
proof -
  obtain F where F: "Build_FIRST_Set G = Some (G\<lparr>m_FirstSets := F\<rparr>)"
     "length F = length (m_UniqueGrammarItems G)"
     "\<forall>X a. (X, a) \<in> vset_rel F \<longleftrightarrow> first_of G X a"
    using Build_FIRST_Set_spec [OF assms] by blast
  have "set (F ! X) = {a. \<not> is_meta G a \<and> (\<exists>w. derives G [X] (a # w))}" if "is_meta G X" for X
    using F(2,3) that first_of_iff_derives [OF assms that] by (auto simp: is_meta_def)
  then show ?thesis using F by blast
qed

theorem Build_FIRST_Set_correct_witness:
  "wf_grammar sample_augmented \<and>
   Build_FIRST_Set sample_augmented = Some (sample_augmented\<lparr>m_FirstSets := [[1], [], [], [], [1]]\<rparr>) \<and>
   {a. \<not> is_meta sample_augmented a \<and> (\<exists>w. derives sample_augmented [0] (a # w))} = {1}"
proof -
  have ev: "Build_FIRST_Set sample_augmented = Some (sample_augmented\<lparr>m_FirstSets := [[1], [], [], [], [1]]\<rparr>)"
    "is_meta sample_augmented 0"
    by code_simp+
  obtain F where F: "Build_FIRST_Set sample_augmented = Some (sample_augmented\<lparr>m_FirstSets := F\<rparr>)"
    "set (F ! 0) = {a. \<not> is_meta sample_augmented a \<and> (\<exists>w. derives sample_augmented [0] (a # w))}"
    using Build_FIRST_Set_correct [OF sample_wf(3)] ev(2) by blast
  have "m_FirstSets (the (Build_FIRST_Set sample_augmented)) = F"
    unfolding F(1) option.sel by simp
  then have "F = [[1], [], [], [], [1]]" unfolding ev(1) option.sel by simp
  then show ?thesis using F(2) by (intro conjI sample_wf(3) ev(1)) simp
qed

text \<open>
  C11. \<^verbatim>\<open>Build_FOLLOW_Set\<close>, run after \<^verbatim>\<open>Build_FIRST_Set\<close>, ends on every well-formed grammar, and it
  leaves in \<^verbatim>\<open>m_FollowSets\<close>, for every meta symbol, exactly the terminals that come right after it in a
  form derived from a meta symbol.
\<close>

theorem Build_FOLLOW_Set_correct:
  assumes wf: "wf_grammar G" and first: "Build_FIRST_Set G = Some G'"
  shows "\<exists>W. Build_FOLLOW_Set G' = Some (G'\<lparr>m_FollowSets := W\<rparr>) \<and>
     length W = length (m_UniqueGrammarItems G) \<and>
     (\<forall>X. is_meta G X \<longrightarrow> set (W ! X) =
        {a. \<not> is_meta G a \<and> (\<exists>Z u w. is_meta G Z \<and> derives G [Z] (u @ X # a # w))})"
proof -
  obtain F where F: "G' = G\<lparr>m_FirstSets := F\<rparr>"
     "length F = length (m_UniqueGrammarItems G)"
     "\<forall>X a. (X, a) \<in> vset_rel F \<longleftrightarrow> first_of G X a"
    using Build_FIRST_Set_spec [OF wf] first by auto
  have same: "is_meta G' = is_meta G" "derives1 G' = derives1 G" "m_EncodedRules G' = m_EncodedRules G"
    by (auto simp: F(1) is_meta_def derives1_def fun_eq_iff)
  have wf': "wf_grammar G'" using wf by (simp add: F(1) wf_grammar_def)
  have "first_of G' X a \<longleftrightarrow> first_of G X a" for X a
    using first_of_cong [OF _ same(3,1)] first_of_cong [OF _ same(3,1) [symmetric]] by blast
  then obtain W where W: "Build_FOLLOW_Set G' = Some (G'\<lparr>m_FollowSets := W\<rparr>)"
     "length W = length (m_UniqueGrammarItems G')"
     "\<forall>X a. (X, a) \<in> vset_rel W \<longleftrightarrow> X < length W \<and> follow_of G' X a"
    using Build_FOLLOW_Set_spec [OF wf'] F by auto
  have "set (W ! X) = {a. \<not> is_meta G a \<and> (\<exists>Z u w. is_meta G Z \<and> derives G [Z] (u @ X # a # w))}"
    if "is_meta G X" for X
  proof -
    have "X < length W" using that W(2) by (simp add: F(1) is_meta_def)
    then have "a \<in> set (W ! X) \<longleftrightarrow> follow_of G' X a" for a using W(3) by auto
    then show ?thesis
      using that follow_of_iff_derives [OF wf', of X] by (simp add: same set_eq_iff)
  qed
  then show ?thesis using W by (auto simp: F(1))
qed

theorem Build_FOLLOW_Set_correct_witness:
  "wf_grammar sample_augmented \<and>
   Build_FOLLOW_Set (sample_augmented\<lparr>m_FirstSets := [[1], [], [], [], [1]]\<rparr>) =
     Some (sample_augmented\<lparr>m_FirstSets := [[1], [], [], [], [1]],
       m_FollowSets := [[2, 3], [1, 2], [], [], []]\<rparr>) \<and>
   {a. \<not> is_meta sample_augmented a \<and>
     (\<exists>Z u w. is_meta sample_augmented Z \<and> derives sample_augmented [Z] (u @ 0 # a # w))} = {2, 3}"
proof -
  let ?G = "sample_augmented\<lparr>m_FirstSets := [[1], [], [], [], [1]]\<rparr>"
  have ev: "Build_FIRST_Set sample_augmented = Some ?G"
    "Build_FOLLOW_Set ?G = Some (?G\<lparr>m_FollowSets := [[2, 3], [1, 2], [], [], []]\<rparr>)"
    "is_meta sample_augmented 0"
    by code_simp+
  obtain W where W: "Build_FOLLOW_Set ?G = Some (?G\<lparr>m_FollowSets := W\<rparr>)"
    "set (W ! 0) = {a. \<not> is_meta sample_augmented a \<and>
     (\<exists>Z u w. is_meta sample_augmented Z \<and> derives sample_augmented [Z] (u @ 0 # a # w))}"
    using Build_FOLLOW_Set_correct [OF sample_wf(3) ev(1)] ev(3) by blast
  have "m_FollowSets (the (Build_FOLLOW_Set ?G)) = W"
    unfolding W(1) option.sel by simp
  then have "W = [[2, 3], [1, 2], [], [], []]" unfolding ev(2) option.sel by simp
  then show ?thesis using W(2) by (intro conjI sample_wf(3) ev(2)) simp
qed

end
