(* ===== verification/AhoKorasick.thy ===== *)
theory AhoKorasick
  imports CommonTypes "HOL-Library.Monad_Syntax"
begin

text \<open>
  The string automaton of \<^verbatim>\<open>afglrparserlib/ahokorasick.h\<close> and \<^verbatim>\<open>ahokorasick.cpp\<close>: a trie of the right
  parts of a rule set, stored as a vector of nodes and one vector of child relations, with the failure
  function of Aho and Corasick.

  The theory holds the code: building the trie with a table of \<^verbatim>\<open>m_AlphabetSize\<close> cells per node,
  packing the table into the relation vector, computing the failure function breadth first, and
  reading a text. Node numbers are \<open>int\<close> with the value \<open>-1\<close> of the source, depths are bytes and child
  indexes 32-bit words. The loops that follow failure links are partial functions, \<open>None\<close> when they do
  not end.
\<close>

section \<open>Data\<close>

record 'i COccurrence =
  occ_first :: nat
  occ_second :: nat
  occ_GrammarRuleNo :: nat
  m_bAmbiguous :: bool
  m_pInputItem :: "'i option"

definition occurrence :: "nat \<Rightarrow> nat \<Rightarrow> nat \<Rightarrow> 'i COccurrence" where
  "occurrence first second ruleNo =
     \<lparr>occ_first = first, occ_second = second, occ_GrammarRuleNo = ruleNo, m_bAmbiguous = False, m_pInputItem = None\<rparr>"

record CTrieNode =
  m_FailureFunction :: int
  m_Parent :: int
  m_IncomingSymbol :: int
  m_GrammarRuleNo :: int
  m_ChildrenIndex :: "32 word"
  m_Depth :: "8 word"

definition trie_node :: CTrieNode where
  "trie_node =
     \<lparr>m_FailureFunction = - 1, m_Parent = - 1, m_IncomingSymbol = - 1, m_GrammarRuleNo = - 1,
      m_ChildrenIndex = 0, m_Depth = 0\<rparr>"

record CTrieRelation =
  m_RelationChar :: int
  m_ChildNo :: int

record CTrieHolder =
  m_AlphabetSize :: nat
  m_Nodes :: "CTrieNode list"
  m_ChildrenAux :: "int list"
  m_Children :: "CTrieRelation list"

section \<open>Children\<close>

definition GetChildrenCount :: "CTrieHolder \<Rightarrow> nat \<Rightarrow> nat" where
  "GetChildrenCount H NodeNo =
     (if NodeNo + 1 = length (m_Nodes H) then length (m_Children H) - unat (m_ChildrenIndex (m_Nodes H ! NodeNo))
      else unat (m_ChildrenIndex (m_Nodes H ! (NodeNo + 1)) - m_ChildrenIndex (m_Nodes H ! NodeNo)))"

text \<open>The relations an iterator of \<^verbatim>\<open>GetChildren\<close> is advanced over: always \<open>GetChildrenCount\<close> many.\<close>

definition GetChildren :: "CTrieHolder \<Rightarrow> nat \<Rightarrow> CTrieRelation list" where
  "GetChildren H NodeNo =
     take (GetChildrenCount H NodeNo) (drop (unat (m_ChildrenIndex (m_Nodes H ! NodeNo))) (m_Children H))"

definition trie_FindChild :: "CTrieHolder \<Rightarrow> int \<Rightarrow> int \<Rightarrow> int" where
  "trie_FindChild H NodeNo RelationChar =
     (case List.find (\<lambda>p. m_RelationChar p = RelationChar) (GetChildren H (nat NodeNo)) of
        Some p \<Rightarrow> m_ChildNo p | None \<Rightarrow> - 1)"

section \<open>Building the trie\<close>

definition AddNode :: "CTrieNode \<Rightarrow> CTrieHolder \<Rightarrow> CTrieHolder" where
  "AddNode T H =
     H\<lparr>m_Nodes := m_Nodes H @ [T], m_ChildrenAux := m_ChildrenAux H @ replicate (m_AlphabetSize H) (- 1)\<rparr>"

definition aux_child :: "CTrieHolder \<Rightarrow> nat \<Rightarrow> nat \<Rightarrow> int" where
  "aux_child H NodeNo i = m_ChildrenAux H ! (NodeNo * m_AlphabetSize H + i)"

text \<open>
  \<^verbatim>\<open>CreateChildrenSequence(begin, end, ParentNo, WorkRuleNo)\<close>; the sequence is never empty (an assertion
  of the source).
\<close>

fun CreateChildrenSequence :: "symbol list \<Rightarrow> nat \<Rightarrow> nat \<Rightarrow> CTrieHolder \<Rightarrow> CTrieHolder" where
  "CreateChildrenSequence [] ParentNo WorkRuleNo H = H"
| "CreateChildrenSequence (s # rest) ParentNo WorkRuleNo H =
     (let T = trie_node\<lparr>m_Parent := int ParentNo, m_Depth := m_Depth (m_Nodes H ! ParentNo) + 1,
                m_IncomingSymbol := int s\<rparr>;
          H = AddNode T H;
          ChildNo = length (m_Nodes H) - 1;
          H = H\<lparr>m_ChildrenAux := (m_ChildrenAux H)[ParentNo * m_AlphabetSize H + s := int ChildNo]\<rparr>
      in if rest \<noteq> [] then CreateChildrenSequence rest ChildNo WorkRuleNo H
         else H\<lparr>m_Nodes := (m_Nodes H)[ChildNo := (m_Nodes H ! ChildNo)\<lparr>m_GrammarRuleNo := int WorkRuleNo\<rparr>]\<rparr>)"

text \<open>
  The search for \<^verbatim>\<open>Starter\<close> in \<^verbatim>\<open>CreateTrie\<close>: down from the root along the common prefix of the
  pattern and the previous one. The result is the node and what is left of the pattern.
\<close>

fun find_starter :: "CTrieHolder \<Rightarrow> symbol list \<Rightarrow> symbol list \<Rightarrow> nat \<Rightarrow> nat \<times> symbol list" where
  "find_starter H (c # cs) (d # ds) Starter =
     (if c \<noteq> d then (Starter, c # cs) else find_starter H cs ds (nat (aux_child H Starter c)))"
| "find_starter H cs ds Starter = (Starter, cs)"

definition add_pattern :: "symbol list \<Rightarrow> symbol list \<Rightarrow> nat \<Rightarrow> CTrieHolder \<Rightarrow> CTrieHolder" where
  "add_pattern P prev RuleNo H =
     (let (Starter, rest) = find_starter H P prev 0
      in if rest \<noteq> [] then CreateChildrenSequence rest Starter RuleNo H else H)"

fun add_patterns :: "CWorkRule list \<Rightarrow> CWorkRule \<Rightarrow> nat \<Rightarrow> CTrieHolder \<Rightarrow> CTrieHolder" where
  "add_patterns [] prev RuleNo H = H"
| "add_patterns (P # Ps) prev RuleNo H =
     add_patterns Ps P (RuleNo + 1) (add_pattern (rhs P) (rhs prev) RuleNo H)"

text \<open>One node of \<^verbatim>\<open>ConvertAuxChildrenToNormal\<close>.\<close>

definition convert_node :: "nat \<Rightarrow> CTrieHolder \<Rightarrow> CTrieHolder" where
  "convert_node NodeNo H =
     H\<lparr>m_Nodes := (m_Nodes H)[NodeNo := (m_Nodes H ! NodeNo)\<lparr>m_ChildrenIndex := word_of_nat (length (m_Children H))\<rparr>],
       m_Children := m_Children H @
         map (\<lambda>i. \<lparr>m_RelationChar = int i, m_ChildNo = aux_child H NodeNo i\<rparr>)
           (filter (\<lambda>i. aux_child H NodeNo i \<noteq> - 1) [0..<m_AlphabetSize H])\<rparr>"

definition ConvertAuxChildrenToNormal :: "CTrieHolder \<Rightarrow> CTrieHolder" where
  "ConvertAuxChildrenToNormal H =
     (fold convert_node [0..<length (m_Nodes H)] (H\<lparr>m_Children := []\<rparr>))\<lparr>m_ChildrenAux := []\<rparr>"

text \<open>The assertion of \<^verbatim>\<open>CreateTrie\<close> that there is a pattern is in \<open>trie_Create\<close> below, its caller.\<close>

fun CreateTrie :: "CWorkRule list \<Rightarrow> CTrieHolder \<Rightarrow> CTrieHolder" where
  "CreateTrie [] H = H"
| "CreateTrie (P # Ps) H =
     (let H = AddNode trie_node (H\<lparr>m_Nodes := [], m_ChildrenAux := []\<rparr>);
          H = CreateChildrenSequence (rhs P) 0 0 H;
          H = add_patterns Ps P 1 H
      in ConvertAuxChildrenToNormal H)"

section \<open>The failure function\<close>

text \<open>\<^verbatim>\<open>while (r != -1 && FindChild(r, c) == -1) r = m_Nodes[r].m_FailureFunction;\<close>\<close>

partial_function (option) follow_failure :: "CTrieHolder \<Rightarrow> int \<Rightarrow> int \<Rightarrow> int option" where
  "follow_failure H c r =
     (if r \<noteq> - 1 \<and> trie_FindChild H r c = - 1 then follow_failure H c (m_FailureFunction (m_Nodes H ! nat r))
      else Some r)"

text \<open>
  The outer loop \<^verbatim>\<open>while (r != -1)\<close> of the source returns in its first turn or leaves \<open>r = -1\<close>.
\<close>

definition GetTerminatedPeriodNext :: "CTrieHolder \<Rightarrow> int \<Rightarrow> int option" where
  "GetTerminatedPeriodNext H NodeNo =
     (if NodeNo = 0 then Some (- 1)
      else
        let RelationChar = m_IncomingSymbol (m_Nodes H ! nat NodeNo);
            r = m_FailureFunction (m_Nodes H ! nat (m_Parent (m_Nodes H ! nat NodeNo)))
        in do {
          r \<leftarrow> follow_failure H RelationChar r;
          Some (if r \<noteq> - 1 then trie_FindChild H r RelationChar else - 1)
        })"

text \<open>The inner loop of \<^verbatim>\<open>InitFailureFunction\<close>, for the children of one node.\<close>

fun failure_children :: "int \<Rightarrow> CTrieRelation list \<Rightarrow> nat list \<times> CTrieHolder \<Rightarrow> (nat list \<times> CTrieHolder) option" where
  "failure_children ParentNo [] s = Some s"
| "failure_children ParentNo (p # ps) (BFS, H) =
     do {
       r \<leftarrow> follow_failure H (m_RelationChar p) (m_FailureFunction (m_Nodes H ! nat ParentNo));
       let f = (if r \<noteq> - 1 then trie_FindChild H r (m_RelationChar p) else 0);
       let c = nat (m_ChildNo p);
       failure_children ParentNo ps
         (BFS @ [c], H\<lparr>m_Nodes := (m_Nodes H)[c := (m_Nodes H ! c)\<lparr>m_FailureFunction := f\<rparr>]\<rparr>)
     }"

partial_function (option) failure_loop :: "nat \<Rightarrow> nat list \<Rightarrow> CTrieHolder \<Rightarrow> CTrieHolder option" where
  "failure_loop i BFS H =
     (if i < length BFS
      then do {
        s \<leftarrow> failure_children (int (BFS ! i)) (GetChildren H (BFS ! i)) (BFS, H);
        failure_loop (i + 1) (fst s) (snd s)
      }
      else Some H)"

definition InitFailureFunction :: "CTrieHolder \<Rightarrow> CTrieHolder option" where
  "InitFailureFunction H = failure_loop 0 [0] H"

text \<open>
  \<^verbatim>\<open>m_pSymbolInformation\<close> is used for its size, and for printing, which is left out. Without patterns the assertion of
  \<^verbatim>\<open>CreateTrie\<close> fails.
\<close>

definition trie_Create :: "CWorkRule list \<Rightarrow> (nat \<times> 's) list \<Rightarrow> CTrieHolder \<Rightarrow> CTrieHolder option" where
  "trie_Create Patterns Info H =
     (if Patterns = [] then None
      else InitFailureFunction (CreateTrie Patterns (H\<lparr>m_AlphabetSize := length Info\<rparr>)))"

definition SetSymbolInformation :: "(nat \<times> 's) list \<Rightarrow> CTrieHolder \<Rightarrow> CTrieHolder" where
  "SetSymbolInformation Info H = H\<lparr>m_AlphabetSize := length Info\<rparr>"

section \<open>Reading a text\<close>

text \<open>
  The loop over the terminated periods. A pattern that ends at the text position has at most as many
  symbols as were read, so the subtraction on \<^verbatim>\<open>size_t\<close> does not go below zero.
\<close>

partial_function (option) report_periods ::
  "CTrieHolder \<Rightarrow> nat \<Rightarrow> int \<Rightarrow> 'i COccurrence list \<Rightarrow> 'i COccurrence list option" where
  "report_periods H TextPositionNo r Occurrences =
     (if r \<noteq> - 1
      then do {
        let N = m_Nodes H ! nat r;
        let Occurrences =
          (if m_GrammarRuleNo N \<noteq> - 1
           then Occurrences @ [occurrence (TextPositionNo + 1 - unat (m_Depth N)) (TextPositionNo + 1)
                  (nat (m_GrammarRuleNo N))]
           else Occurrences);
        r \<leftarrow> GetTerminatedPeriodNext H r;
        report_periods H TextPositionNo r Occurrences
      }
      else Some Occurrences)"

definition NextState ::
  "CTrieHolder \<Rightarrow> int \<Rightarrow> nat \<Rightarrow> int \<Rightarrow> 'i COccurrence list \<Rightarrow> (int \<times> 'i COccurrence list) option" where
  "NextState H State TextPositionNo Symbol Occurrences =
     do {
       State \<leftarrow> follow_failure H Symbol State;
       let State = (if State = - 1 then 0 else trie_FindChild H State Symbol);
       Occurrences \<leftarrow> report_periods H TextPositionNo State Occurrences;
       Some (State, Occurrences)
     }"

fun read_text ::
  "CTrieHolder \<Rightarrow> nat \<Rightarrow> int list \<Rightarrow> int \<Rightarrow> 'i COccurrence list \<Rightarrow> (int \<times> 'i COccurrence list) option" where
  "read_text H i [] r Occurrences = Some (r, Occurrences)"
| "read_text H i (c # Text) r Occurrences =
     do {
       (r, Occurrences) \<leftarrow> NextState H r i c Occurrences;
       read_text H (i + 1) Text r Occurrences
     }"

definition GetOccurrences :: "CTrieHolder \<Rightarrow> int list \<Rightarrow> 'i COccurrence list option" where
  "GetOccurrences H Text = map_option snd (read_text H 0 Text 0 [])"

text \<open>Symbols that may follow a set of states.\<close>

definition UpdatePossibleOutputSymbolsbyOnState :: "CTrieHolder \<Rightarrow> nat \<Rightarrow> bool list \<Rightarrow> bool list" where
  "UpdatePossibleOutputSymbolsbyOnState H NodeNo Possible =
     fold (\<lambda>p s. s[nat (m_RelationChar p) := True]) (GetChildren H NodeNo) Possible"

partial_function (option) possible_from :: "CTrieHolder \<Rightarrow> int \<Rightarrow> bool list \<Rightarrow> bool list option" where
  "possible_from H r Possible =
     (if r \<noteq> - 1
      then possible_from H (m_FailureFunction (m_Nodes H ! nat r)) (UpdatePossibleOutputSymbolsbyOnState H (nat r) Possible)
      else Some Possible)"

fun possible_states :: "CTrieHolder \<Rightarrow> nat list \<Rightarrow> bool list \<Rightarrow> bool list option" where
  "possible_states H [] Possible = Some Possible"
| "possible_states H (State # States) Possible =
     do {
       Possible \<leftarrow> possible_from H (m_FailureFunction (m_Nodes H ! State)) (UpdatePossibleOutputSymbolsbyOnState H State Possible);
       possible_states H States Possible
     }"

text \<open>\<^verbatim>\<open>resize(n, false)\<close> and then every state of the set.\<close>

definition UpdatePossibleOutputSymbols :: "CTrieHolder \<Rightarrow> nat list \<Rightarrow> bool list \<Rightarrow> bool list option" where
  "UpdatePossibleOutputSymbols H CurrentStates Possible =
     possible_states H CurrentStates
       (take (m_AlphabetSize H) Possible @ replicate (m_AlphabetSize H - length Possible) False)"

end
