(* ===== verification/TrieAutomaton.thy ===== *)
theory TrieAutomaton
  imports AhoKorasick "HOL-Library.Sublist"
begin

text \<open>
  Correctness of the automaton of \<^verbatim>\<open>ahokorasick.cpp\<close>. Every node is named by the word that leads to it;
  the invariant \<open>spells\<close> ties the vector of nodes to the list of these words. Adding a pattern keeps the
  set of words closed under prefixes (\<open>trie_inv\<close>, \<open>built\<close>), packing the child table keeps the children
  (\<open>trie_ok\<close>), the breadth-first search gives every node the longest proper suffix of its word that is
  a node (\<open>bfs_inv\<close>, \<open>fail_ok\<close>), and the state after a text is its longest suffix that is a node. The
  main result says that the occurrences reported are those a naive search finds, in the same order.
\<close>

section \<open>Positions in a list\<close>

fun position :: "'a list \<Rightarrow> 'a \<Rightarrow> nat option" where
  "position [] x = None"
| "position (y # ys) x = (if y = x then Some 0 else map_option Suc (position ys x))"

lemma position_None: "position xs x = None \<longleftrightarrow> x \<notin> set xs"
  by (induction xs) auto

lemma position_notin [simp]: "x \<notin> set xs \<Longrightarrow> position xs x = None"
  by (simp add: position_None)

lemma position_in: "x \<in> set xs \<Longrightarrow> \<exists>n. position xs x = Some n"
  using position_None [of xs x] by (cases "position xs x") auto

lemma position_Some: "position xs x = Some n \<Longrightarrow> n < length xs \<and> xs ! n = x"
  by (induction xs arbitrary: n) (auto split: if_splits)

lemma position_nth: "distinct xs \<Longrightarrow> n < length xs \<Longrightarrow> position xs (xs ! n) = Some n"
proof (induction xs arbitrary: n)
  case (Cons y ys)
  then show ?case by (cases n) auto
qed simp

lemma position_append:
  "position (xs @ ys) x =
     (case position xs x of Some n \<Rightarrow> Some n | None \<Rightarrow> map_option ((+) (length xs)) (position ys x))"
  by (induction xs)
    (auto simp: option.map_comp comp_def split: option.split intro!: option.map_cong option.map_ident_strong [symmetric])

text \<open>The number of a word among the words of the nodes, \<open>-1\<close> when there is no such node.\<close>

definition trie_no :: "symbol list list \<Rightarrow> symbol list \<Rightarrow> int" where
  "trie_no ws w = (case position ws w of Some n \<Rightarrow> int n | None \<Rightarrow> - 1)"

lemma trie_no_nth [simp]: "distinct ws \<Longrightarrow> n < length ws \<Longrightarrow> trie_no ws (ws ! n) = int n"
  by (simp add: trie_no_def position_nth)

lemma trie_no_none [simp]: "w \<notin> set ws \<Longrightarrow> trie_no ws w = - 1"
  by (simp add: trie_no_def)

lemma trie_no_iff [simp]: "trie_no ws w = - 1 \<longleftrightarrow> w \<notin> set ws"
  by (cases "w \<in> set ws") (auto simp: trie_no_def dest: position_in)

lemma trie_no_in:
  assumes "w \<in> set ws"
  obtains n where "trie_no ws w = int n" "n < length ws" "ws ! n = w"
proof -
  obtain n where "position ws w = Some n" using position_in [OF assms] by blast
  then show ?thesis using that [of n] position_Some [of ws w n] by (simp add: trie_no_def)
qed

lemma trie_no_append_old [simp]: "w \<in> set ws \<Longrightarrow> trie_no (ws @ vs) w = trie_no ws w"
  by (auto simp: trie_no_def position_append dest: position_in)

lemma trie_no_append_new [simp]: "w \<notin> set ws \<Longrightarrow> trie_no (ws @ [w]) w = int (length ws)"
  by (simp add: trie_no_def position_append)

section \<open>Longest suffixes in a set of words\<close>

fun longest_in :: "'a list set \<Rightarrow> 'a list \<Rightarrow> 'a list" where
  "longest_in S [] = []"
| "longest_in S (x # w) = (if x # w \<in> S then x # w else longest_in S w)"

lemma longest_in_suffix: "suffix (longest_in S w) w"
  by (induction w) (auto intro: suffix_ConsI)

lemma longest_in_length: "length (longest_in S w) \<le> length w"
  by (rule suffix_length_le [OF longest_in_suffix])

lemma longest_in_id [simp]: "w \<in> S \<Longrightarrow> longest_in S w = w"
  by (cases w) auto

lemma longest_in_ne: "longest_in S w \<noteq> [] \<Longrightarrow> longest_in S w \<in> S"
  by (induction w) (auto split: if_splits)

text \<open>The set of the words of the nodes of a trie: it is closed under prefixes.\<close>

locale prefix_closed =
  fixes S :: "'a list set"
  assumes empty_word [simp, intro]: "[] \<in> S"
    and butlast_word: "w @ [c] \<in> S \<Longrightarrow> w \<in> S"
begin

lemma longest_in_mem [simp, intro]: "longest_in S w \<in> S"
  using longest_in_ne [of S w] by (cases "longest_in S w = []") auto

lemma longest_in_snoc: "longest_in S (w @ [c]) = longest_in S (longest_in S w @ [c])"
  by (induction w) (auto dest: butlast_word [of "_ # _", simplified])

text \<open>The failure link of a word, and the two ways the automaton leaves a word.\<close>

lemma longest_in_fail:
  "q @ [c] \<notin> S \<Longrightarrow> q \<noteq> [] \<Longrightarrow> longest_in S (q @ [c]) = longest_in S (longest_in S (tl q) @ [c])"
  by (cases q) (simp_all flip: longest_in_snoc)

end

text \<open>
  What is found at the end of a text: for each suffix that is a pattern, from the longest to the
  shortest, the number of the first pattern equal to it.
\<close>

fun suffix_occurrences :: "symbol list list \<Rightarrow> nat \<Rightarrow> symbol list \<Rightarrow> 'i COccurrence list" where
  "suffix_occurrences pats i [] = []"
| "suffix_occurrences pats i (x # w) =
     (case position pats (x # w) of
        Some k \<Rightarrow> [occurrence (i + 1 - length (x # w)) (i + 1) k] | None \<Rightarrow> []) @
     suffix_occurrences pats i w"

lemma suffix_occurrences_longest:
  "set pats \<subseteq> S \<Longrightarrow> suffix_occurrences pats i (longest_in S w) = suffix_occurrences pats i w"
proof (induction w)
  case (Cons x w)
  have "position pats (x # w) = None" if "x # w \<notin> S" using that Cons.prems by (intro position_notin) auto
  then show ?case using Cons by auto
qed simp

section \<open>The trie spells the prefixes of the patterns\<close>

text \<open>
  \<open>spells N ws\<close>: the word of the \<open>n\<close>-th node of \<open>N\<close> is \<open>ws ! n\<close>. Parents come before their children.
\<close>

definition node_spells :: "CTrieNode list \<Rightarrow> symbol list list \<Rightarrow> nat \<Rightarrow> bool" where
  "node_spells N ws n \<longleftrightarrow>
     m_Depth (N ! n) = word_of_nat (length (ws ! n)) \<and>
     (n = 0 \<and> ws ! n = [] \<or>
      (\<exists>p c. p < n \<and> ws ! n = ws ! p @ [c] \<and> m_Parent (N ! n) = int p \<and> m_IncomingSymbol (N ! n) = int c))"

definition spells :: "CTrieNode list \<Rightarrow> symbol list list \<Rightarrow> bool" where
  "spells N ws \<longleftrightarrow> ws \<noteq> [] \<and> length N = length ws \<and> distinct ws \<and> (\<forall>n < length ws. node_spells N ws n)"

lemma spells_root: "spells N ws \<Longrightarrow> ws ! 0 = [] \<and> [] \<in> set ws"
  unfolding spells_def node_spells_def by (metis length_greater_0_conv not_less_zero nth_mem)

lemma spells_closed:
  assumes "spells N ws"
  shows "prefix_closed (set ws)"
proof
  show "[] \<in> set ws" using spells_root [OF assms] by simp
  show "w \<in> set ws" if wc: "w @ [c] \<in> set ws" for w c
  proof -
    obtain n where n: "n < length ws" "ws ! n = w @ [c]" using wc by (metis in_set_conv_nth)
    then show ?thesis
      using assms unfolding spells_def node_spells_def by (metis butlast_snoc less_trans nth_mem snoc_eq_iff_butlast)
  qed
qed

lemma spells_child:
  assumes "spells N ws" "n < length ws" "n \<noteq> 0"
  obtains p c where "p < n" "ws ! n = ws ! p @ [c]" "m_Parent (N ! n) = int p" "m_IncomingSymbol (N ! n) = int c"
  using assms unfolding spells_def node_spells_def by blast

lemma spells_snoc:
  assumes "spells N ws" "p < length ws" "ws ! p @ [c] \<notin> set ws"
    and "m_Parent T = int p" "m_IncomingSymbol T = int c" "m_Depth T = m_Depth (N ! p) + 1"
  shows "spells (N @ [T]) (ws @ [ws ! p @ [c]])"
proof -
  have len: "length N = length ws" using assms(1) by (simp add: spells_def)
  have "node_spells (N @ [T]) (ws @ [ws ! p @ [c]]) n" if "n < Suc (length ws)" for n
  proof (cases "n = length ws")
    case True
    have "m_Depth (N ! p) = word_of_nat (length (ws ! p))"
      using assms(1,2) by (simp add: spells_def node_spells_def)
    then show ?thesis
      using True assms(2,4-6) len by (auto simp: node_spells_def nth_append)
  next
    case False
    then have n: "n < length ws" using that by simp
    then have "node_spells N ws n" using assms(1) by (simp add: spells_def)
    moreover have "(ws @ [ws ! p @ [c]]) ! k = ws ! k" "(N @ [T]) ! k = N ! k" if "k \<le> n" for k
      using n len that by (simp_all add: nth_append)
    ultimately show ?thesis unfolding node_spells_def by (metis less_imp_le le_refl)
  qed
  then show ?thesis using assms(1,3) by (simp add: spells_def)
qed

definition same_shape :: "CTrieNode \<Rightarrow> CTrieNode \<Rightarrow> bool" where
  "same_shape x y \<longleftrightarrow>
     m_Depth x = m_Depth y \<and> m_Parent x = m_Parent y \<and> m_IncomingSymbol x = m_IncomingSymbol y"

lemma spells_same_shape:
  assumes "spells N ws" "length N' = length N" "\<And>n. n < length N \<Longrightarrow> same_shape (N' ! n) (N ! n)"
  shows "spells N' ws"
  using assms unfolding spells_def node_spells_def same_shape_def by metis

text \<open>The table of children while the trie is built.\<close>

definition trie_inv :: "CTrieHolder \<Rightarrow> symbol list list \<Rightarrow> bool" where
  "trie_inv H ws \<longleftrightarrow>
     spells (m_Nodes H) ws \<and>
     length (m_ChildrenAux H) = length ws * m_AlphabetSize H \<and>
     (\<forall>n < length ws. \<forall>c < m_AlphabetSize H. aux_child H n c = trie_no ws (ws ! n @ [c])) \<and>
     (\<forall>w \<in> set ws. \<forall>c \<in> set w. c < m_AlphabetSize H)"

lemma cell_less: "n < L \<Longrightarrow> c < A \<Longrightarrow> n * A + c < L * (A::nat)"
proof -
  assume "n < L" "c < A"
  then have "n * A + c < Suc n * A" by simp
  also have "\<dots> \<le> L * A" using \<open>n < L\<close> by (intro mult_le_mono1) simp
  finally show ?thesis .
qed

lemma cell_inj: "c < A \<Longrightarrow> d < A \<Longrightarrow> n * A + c = p * A + d \<longleftrightarrow> n = p \<and> c = (d::nat)"
  by (metis add.commute div_mult_self1 div_less add_cancel_right_left add_right_cancel less_nat_zero_code)

text \<open>Registering one child.\<close>

definition new_child :: "nat \<Rightarrow> symbol \<Rightarrow> CTrieHolder \<Rightarrow> CTrieHolder" where
  "new_child p s H =
     (let H' = AddNode (trie_node\<lparr>m_Parent := int p, m_Depth := m_Depth (m_Nodes H ! p) + 1, m_IncomingSymbol := int s\<rparr>) H
      in H'\<lparr>m_ChildrenAux := (m_ChildrenAux H')[p * m_AlphabetSize H + s := int (length (m_Nodes H))]\<rparr>)"

lemma CreateChildrenSequence_Cons:
  "CreateChildrenSequence (s # rest) p R H =
     (let H = new_child p s H in
      if rest \<noteq> [] then CreateChildrenSequence rest (length (m_Nodes H) - 1) R H
      else H\<lparr>m_Nodes := (m_Nodes H)[length (m_Nodes H) - 1 :=
        (m_Nodes H ! (length (m_Nodes H) - 1))\<lparr>m_GrammarRuleNo := int R\<rparr>]\<rparr>)"
  by (simp add: new_child_def AddNode_def Let_def)

lemma new_child_simps [simp]:
  "m_AlphabetSize (new_child p s H) = m_AlphabetSize H" "m_Children (new_child p s H) = m_Children H"
  "map m_GrammarRuleNo (m_Nodes (new_child p s H)) = map m_GrammarRuleNo (m_Nodes H) @ [- 1]"
  "length (m_Nodes (new_child p s H)) = Suc (length (m_Nodes H))"
  "m_FailureFunction (m_Nodes (new_child p s H) ! 0) = (if m_Nodes H = [] then - 1 else m_FailureFunction (m_Nodes H ! 0))"
  by (simp_all add: new_child_def AddNode_def trie_node_def nth_append)

lemma new_child_inv:
  assumes "trie_inv H ws" "p < length ws" "s < m_AlphabetSize H" "ws ! p @ [s] \<notin> set ws"
  shows "trie_inv (new_child p s H) (ws @ [ws ! p @ [s]])"
proof -
  let ?w = "ws ! p @ [s]" and ?A = "m_AlphabetSize H" and ?H = "new_child p s H"
  have sp: "spells (m_Nodes H) ws" and len: "length (m_ChildrenAux H) = length ws * ?A" "length (m_Nodes H) = length ws"
    and aux: "\<And>n c. n < length ws \<Longrightarrow> c < ?A \<Longrightarrow> aux_child H n c = trie_no ws (ws ! n @ [c])"
    using assms(1) by (auto simp: trie_inv_def spells_def)
  have sp': "spells (m_Nodes ?H) (ws @ [?w])"
    using spells_snoc [OF sp assms(2,4)] by (simp add: new_child_def AddNode_def)
  note closed = prefix_closed.butlast_word [OF spells_closed [OF sp]]
  have dist: "distinct ws" using sp by (simp add: spells_def)
  have new: "aux_child ?H n c = trie_no (ws @ [?w]) ((ws @ [?w]) ! n @ [c])" if n: "n < Suc (length ws)" and c: "c < ?A" for n c
  proof (cases "n = length ws")
    case True
    have "?w @ [c] \<notin> set (ws @ [?w])" using assms(4) closed [of ?w c] by auto
    moreover have "p * ?A + s < length ws * ?A" by (rule cell_less [OF assms(2,3)])
    ultimately show ?thesis
      using True c len by (simp add: new_child_def AddNode_def aux_child_def nth_append)
  next
    case False
    then have n': "n < length ws" using n by simp
    have i: "n * ?A + c < length ws * ?A" by (rule cell_less [OF n' c])
    have eq: "ws ! n @ [c] = ?w \<longleftrightarrow> n = p \<and> c = s"
      using nth_eq_iff_index_eq [OF dist n' assms(2)] by auto
    have "aux_child ?H n c = (if n = p \<and> c = s then int (length ws) else aux_child H n c)"
      using i len cell_inj [OF c assms(3), of n p] cell_less [OF assms(2,3)]
      by (auto simp: new_child_def AddNode_def aux_child_def nth_append nth_list_update)
    also have "\<dots> = trie_no (ws @ [?w]) (ws ! n @ [c])"
    proof (cases "ws ! n @ [c] \<in> set ws")
      case True
      then have "\<not> (n = p \<and> c = s)" using assms(4) by auto
      then have "(if n = p \<and> c = s then int (length ws) else aux_child H n c) = aux_child H n c" by (rule if_not_P)
      then show ?thesis using True aux [OF n' c] by simp
    next
      case False
      then show ?thesis using eq aux [OF n' c] assms(4) by (cases "ws ! n @ [c] = ?w") auto
    qed
    finally show ?thesis using n' by (simp add: nth_append)
  qed
  have "\<forall>c \<in> set ?w. c < ?A"
    using assms(1-3) by (auto simp: trie_inv_def)
  then show ?thesis
    using sp' new assms(1) len
    by (auto simp: trie_inv_def new_child_def AddNode_def)
qed

text \<open>The words of the nodes a sequence creates below a node.\<close>

fun new_words :: "symbol list \<Rightarrow> symbol list \<Rightarrow> symbol list list" where
  "new_words w [] = []"
| "new_words w (c # cs) = (w @ [c]) # new_words (w @ [c]) cs"

lemma length_new_words [simp]: "length (new_words w cs) = length cs"
  by (induction w cs rule: new_words.induct) auto

lemma set_new_words: "set (new_words w cs) = {w @ v |v. v \<noteq> [] \<and> prefix v cs}"
proof (induction w cs rule: new_words.induct)
  case (2 w c cs)
  have "v \<noteq> [] \<and> prefix v (c # cs) \<longleftrightarrow> v = [c] \<or> (\<exists>v'. v = c # v' \<and> v' \<noteq> [] \<and> prefix v' cs)" for v
    by (cases v) auto
  then show ?case using 2 by fastforce
qed simp

definition frame :: "CTrieHolder \<Rightarrow> CTrieHolder \<Rightarrow> bool" where
  "frame H H' \<longleftrightarrow> m_AlphabetSize H' = m_AlphabetSize H \<and>
     (m_Nodes H \<noteq> [] \<longrightarrow> m_Nodes H' \<noteq> [] \<and> m_FailureFunction (m_Nodes H' ! 0) = m_FailureFunction (m_Nodes H ! 0))"

lemma set_rule_inv:
  assumes "trie_inv H ws"
  shows "trie_inv (H\<lparr>m_Nodes := (m_Nodes H)[n := (m_Nodes H ! n)\<lparr>m_GrammarRuleNo := k\<rparr>]\<rparr>) ws"
proof -
  have "same_shape ((m_Nodes H)[n := (m_Nodes H ! n)\<lparr>m_GrammarRuleNo := k\<rparr>] ! i) (m_Nodes H ! i)"
    if "i < length (m_Nodes H)" for i
    using that by (cases "i = n") (simp_all add: same_shape_def)
  then have "spells ((m_Nodes H)[n := (m_Nodes H ! n)\<lparr>m_GrammarRuleNo := k\<rparr>]) ws"
    using assms spells_same_shape unfolding trie_inv_def by (metis length_list_update)
  then show ?thesis using assms by (simp add: trie_inv_def aux_child_def)
qed

lemma CreateChildrenSequence_spec:
  assumes "trie_inv H ws" "p < length ws" "rest \<noteq> []" "\<forall>c \<in> set rest. c < m_AlphabetSize H"
    and "ws ! p @ [hd rest] \<notin> set ws"
  shows "trie_inv (CreateChildrenSequence rest p R H) (ws @ new_words (ws ! p) rest) \<and>
    map m_GrammarRuleNo (m_Nodes (CreateChildrenSequence rest p R H)) =
      map m_GrammarRuleNo (m_Nodes H) @ replicate (length rest - 1) (- 1) @ [int R] \<and>
    frame H (CreateChildrenSequence rest p R H)"
  using assms
proof (induction rest arbitrary: p H ws)
  case (Cons s rest)
  let ?H = "new_child p s H" and ?w = "ws ! p @ [s]" and ?n = "length ws"
  have inv: "trie_inv ?H (ws @ [?w])" using new_child_inv Cons.prems by simp
  have len: "length (m_Nodes H) = ?n" using Cons.prems(1) by (simp add: trie_inv_def spells_def)
  have ne: "m_Nodes H \<noteq> []" using len Cons.prems(2) by auto
  have ne': "m_Nodes ?H \<noteq> []" by (metis length_0_conv nat.distinct(1) new_child_simps(4))
  then have fr: "frame H ?H" using ne by (simp add: frame_def)
  show ?case
  proof (cases "rest = []")
    case True
    have "(m_Nodes ?H)[?n := N] ! 0 = m_Nodes ?H ! 0" for N using Cons.prems(2) by (cases ws) auto
    then show ?thesis
      using True inv len ne fr Cons.prems(2)
      by (simp add: CreateChildrenSequence_Cons Let_def set_rule_inv map_update list_update_append frame_def del: CreateChildrenSequence.simps)
  next
    case False
    have "?w @ [hd rest] \<notin> set (ws @ [?w])"
      using prefix_closed.butlast_word [OF spells_closed, of "m_Nodes H" ws ?w "hd rest"] Cons.prems(1,5)
      by (auto simp: trie_inv_def)
    then have "trie_inv (CreateChildrenSequence rest ?n R ?H) (ws @ [?w] @ new_words ?w rest) \<and>
      map m_GrammarRuleNo (m_Nodes (CreateChildrenSequence rest ?n R ?H)) =
        map m_GrammarRuleNo (m_Nodes ?H) @ replicate (length rest - 1) (- 1) @ [int R] \<and>
      frame ?H (CreateChildrenSequence rest ?n R ?H)"
      using Cons.IH [OF inv, of ?n] False Cons.prems(4) by (simp add: nth_append)
    moreover have "(- 1 :: int) # replicate (length rest - 1) (- 1) = replicate (length rest) (- 1)"
      using False by (cases rest) auto
    moreover have "frame H (CreateChildrenSequence rest ?n R ?H)" if "frame ?H (CreateChildrenSequence rest ?n R ?H)"
      using fr that ne by (simp add: frame_def)
    ultimately show ?thesis
      using False len by (simp add: CreateChildrenSequence_Cons Let_def del: CreateChildrenSequence.simps)
  qed
qed simp

definition pattern_prefixes :: "symbol list list \<Rightarrow> symbol list set" where
  "pattern_prefixes pats = insert [] {q. \<exists>p \<in> set pats. prefix q p}"

lemma pattern_is_prefix: "p \<in> set pats \<Longrightarrow> p \<in> pattern_prefixes pats"
  by (auto simp: pattern_prefixes_def)

interpretation patterns: prefix_closed "pattern_prefixes pats" for pats
  by unfold_locales (auto simp: pattern_prefixes_def dest: append_prefixD)

context prefix_closed begin

lemma prefix_word: "u @ v \<in> S \<Longrightarrow> u \<in> S"
  by (induction v rule: rev_induct) (auto dest: butlast_word simp flip: append_assoc)

end

text \<open>The trie after the patterns \<open>pats\<close> were added.\<close>

definition built :: "CTrieHolder \<Rightarrow> symbol list list \<Rightarrow> symbol list list \<Rightarrow> bool" where
  "built H ws pats \<longleftrightarrow>
     trie_inv H ws \<and> set ws = pattern_prefixes pats \<and>
     (\<forall>n < length ws. m_GrammarRuleNo (m_Nodes H ! n) = trie_no pats (ws ! n)) \<and>
     length ws \<le> Suc (sum_list (map length pats))"

lemma find_starter_spec:
  assumes "trie_inv H ws" "n < length ws" "ws ! n @ prev \<in> set ws" "find_starter H P prev n = (m, rest)"
  shows "\<exists>u ds. P = u @ rest \<and> prev = u @ ds \<and> m < length ws \<and> ws ! m = ws ! n @ u \<and>
    (rest = [] \<or> ds = [] \<or> hd rest \<noteq> hd ds)"
  using assms
proof (induction H P prev n rule: find_starter.induct)
  case (1 H c cs d ds n)
  show ?case
  proof (cases "c = d")
    case True
    have sp: "spells (m_Nodes H) ws" using 1(2) by (simp add: trie_inv_def)
    have w: "ws ! n @ [c] \<in> set ws"
      using prefix_closed.prefix_word [OF spells_closed [OF sp], of "ws ! n @ [c]" ds] 1(4) True by simp
    then have "c < m_AlphabetSize H" using 1(2) by (auto simp: trie_inv_def)
    then have a: "aux_child H n c = trie_no ws (ws ! n @ [c])" using 1(2,3) by (simp add: trie_inv_def)
    obtain k where k: "aux_child H n c = int k" "k < length ws" "ws ! k = ws ! n @ [c]"
      using trie_no_in [OF w] a by metis
    then obtain u es where "cs = u @ rest" "ds = u @ es" "m < length ws" "ws ! m = ws ! k @ u"
        "rest = [] \<or> es = [] \<or> hd rest \<noteq> hd es"
      using 1(1) [OF _ 1(2)] 1(4,5) True by auto
    then show ?thesis using k True by (intro exI [of _ "c # u"] exI [of _ es]) simp
  next
    case False
    then show ?thesis using 1(3-5) by auto
  qed
qed auto

lemma new_words_nth: "k < length cs \<Longrightarrow> new_words w cs ! k = w @ take (Suc k) cs"
proof (induction w cs arbitrary: k rule: new_words.induct)
  case (2 w c cs)
  then show ?case by (cases k) auto
qed simp

lemma lex_append: "u \<le> u @ (ds :: nat list)"
  by (induction u) auto

lemma lex_extend: "u @ c # x \<le> u @ ds \<Longrightarrow> u @ ds \<le> u @ c # y \<Longrightarrow> \<exists>z. ds = (c :: nat) # z"
proof (induction u)
  case Nil
  then show ?case by (cases ds) auto
qed simp

lemma not_yet_there:
  assumes "set ws = pattern_prefixes pats" "\<forall>q \<in> set pats. q \<le> prev" "prev \<le> P"
    and "P = u @ rest" "prev = u @ ds" "rest \<noteq> []" "ds = [] \<or> hd rest \<noteq> hd ds"
  shows "u @ [hd rest] \<notin> set ws"
proof
  assume "u @ [hd rest] \<in> set ws"
  then obtain q x where q: "q \<in> set pats" "q = u @ hd rest # x"
    using assms(1) by (auto simp: pattern_prefixes_def prefix_def)
  have "u @ hd rest # x \<le> u @ ds" "u @ ds \<le> u @ hd rest # tl rest"
    using assms q by auto
  then obtain z where "ds = hd rest # z" using lex_extend by blast
  then show False using assms(7) by simp
qed

lemma extend_pattern:
  assumes "built H ws pats" "m < length ws" "ws ! m = u" "rest \<noteq> []" "u @ [hd rest] \<notin> set ws"
    and P: "P = u @ rest" and "\<forall>c \<in> set rest. c < m_AlphabetSize H"
  shows "\<exists>ws'. built (CreateChildrenSequence rest m (length pats) H) ws' (pats @ [P]) \<and>
    frame H (CreateChildrenSequence rest m (length pats) H)"
proof -
  let ?H = "CreateChildrenSequence rest m (length pats) H" and ?ws = "ws @ new_words u rest"
  have inv: "trie_inv H ws" and S: "set ws = pattern_prefixes pats"
    and rules: "\<And>n. n < length ws \<Longrightarrow> m_GrammarRuleNo (m_Nodes H ! n) = trie_no pats (ws ! n)"
    and size: "length ws \<le> Suc (sum_list (map length pats))" and len: "length (m_Nodes H) = length ws"
    using assms(1) by (auto simp: built_def trie_inv_def spells_def)
  have spec: "trie_inv ?H ?ws" "frame H ?H"
      "map m_GrammarRuleNo (m_Nodes ?H) =
        map m_GrammarRuleNo (m_Nodes H) @ replicate (length rest - 1) (- 1) @ [int (length pats)]"
    using CreateChildrenSequence_spec [OF inv assms(2,4)] assms(3,5,7) by simp_all
  have new: "u @ v \<notin> set ws" if "v \<noteq> []" "prefix v rest" for v
  proof
    assume "u @ v \<in> set ws"
    moreover have "v = hd rest # tl v" using that by (cases v; cases rest) auto
    ultimately have "(u @ [hd rest]) @ tl v \<in> set ws" by simp
    then show False using assms(5) S patterns.prefix_word by metis
  qed
  have "set ?ws = pattern_prefixes (pats @ [P])"
  proof -
    have up: "u \<in> pattern_prefixes pats" using assms(2,3) S nth_mem by blast
    then have "q \<in> pattern_prefixes pats" if "prefix q u" for q
      using that patterns.prefix_word by (auto simp: prefix_def)
    moreover have "pattern_prefixes (pats @ [P]) =
        pattern_prefixes pats \<union> {q. prefix q u} \<union> {u @ v |v. v \<noteq> [] \<and> prefix v rest}"
      using P by (auto simp: pattern_prefixes_def prefix_append)
    ultimately show ?thesis unfolding set_append set_new_words S by blast
  qed
  moreover have "m_GrammarRuleNo (m_Nodes ?H ! n) = trie_no (pats @ [P]) (?ws ! n)" if n: "n < length ?ws" for n
  proof -
    have l: "length (m_Nodes ?H) = length ?ws" using spec(1) by (simp add: trie_inv_def spells_def)
    have notP: "P \<notin> set ws" using new [of rest] assms(4) P by simp
    have g: "m_GrammarRuleNo (m_Nodes ?H ! n) =
        (map m_GrammarRuleNo (m_Nodes H) @ replicate (length rest - 1) (- 1) @ [int (length pats)]) ! n"
      unfolding spec(3) [symmetric] using n l by simp
    show ?thesis
    proof (cases "n < length ws")
      case True
      then have "ws ! n \<noteq> P" using notP nth_mem by metis
      then have "trie_no (pats @ [P]) (ws ! n) = trie_no pats (ws ! n)"
        by (cases "ws ! n \<in> set pats") auto
      then show ?thesis using g True rules len by (simp add: nth_append)
    next
      case False
      then obtain k where k: "n = length ws + k" "k < length rest"
        using n by (metis length_append length_new_words le_add_diff_inverse nat_add_left_cancel_less not_less)
      let ?v = "take (Suc k) rest"
      have w: "?ws ! n = u @ ?v" using k by (simp add: nth_append new_words_nth)
      have "u @ ?v \<notin> set ws" using new [of ?v] k by (cases rest) (auto simp: take_is_prefix)
      then have "u @ ?v \<notin> set pats" using pattern_is_prefix S by blast
      moreover have "u @ ?v = P \<longleftrightarrow> Suc k = length rest"
        using k P by (metis append_same_eq same_append_eq length_take min.absorb2 Suc_leI take_all order_refl)
      ultimately have "trie_no (pats @ [P]) (u @ ?v) = (if Suc k = length rest then int (length pats) else - 1)"
        by auto
      then show ?thesis using g k w len by (auto simp: nth_append)
    qed
  qed
  moreover have "length ?ws \<le> Suc (sum_list (map length (pats @ [P])))" using size P by simp
  ultimately have "built ?H ?ws (pats @ [P])" using spec(1) by (simp add: built_def)
  then show ?thesis using spec(2) by blast
qed

lemma add_pattern_spec:
  assumes "built H ws pats" "prev \<in> set pats" "\<forall>q \<in> set pats. q \<le> prev" "prev \<le> P"
    and "\<forall>c \<in> set P. c < m_AlphabetSize H"
  shows "\<exists>ws'. built (add_pattern P prev (length pats) H) ws' (pats @ [P]) \<and>
    frame H (add_pattern P prev (length pats) H)"
proof -
  have inv: "trie_inv H ws" and S: "set ws = pattern_prefixes pats" and sp: "spells (m_Nodes H) ws"
    using assms(1) by (auto simp: built_def trie_inv_def)
  obtain m rest where fs: "find_starter H P prev 0 = (m, rest)" by fastforce
  have root: "ws ! 0 = []" "0 < length ws" using spells_root [OF sp] by auto
  obtain u ds where u: "P = u @ rest" "prev = u @ ds" "m < length ws" "ws ! m = u" "rest = [] \<or> ds = [] \<or> hd rest \<noteq> hd ds"
    using find_starter_spec [OF inv root(2) _ fs] pattern_is_prefix [OF assms(2)] root(1) S by auto
  show ?thesis
  proof (cases "rest = []")
    case True
    then have "P \<le> prev" using u lex_append [of u ds] by simp
    then have eq: "P = prev" using assms(4) by simp
    have "trie_no (pats @ [P]) w = trie_no pats w" for w
      using assms(2) unfolding eq by (cases "w \<in> set pats") auto
    moreover have "pattern_prefixes (pats @ [P]) = pattern_prefixes pats"
      using assms(2) unfolding eq by (auto simp: pattern_prefixes_def)
    moreover have "add_pattern P prev (length pats) H = H" using fs True by (simp add: add_pattern_def)
    ultimately show ?thesis using assms(1) by (auto simp: built_def frame_def)
  next
    case False
    have "u @ [hd rest] \<notin> set ws"
      by (rule not_yet_there [OF S assms(3,4) u(1,2) False]) (use u(5) False in auto)
    then show ?thesis
      using extend_pattern [OF assms(1) u(3,4) False _ u(1)] assms(5) u(1) fs False by (simp add: add_pattern_def)
  qed
qed

lemma frame_trans: "frame H H' \<Longrightarrow> frame H' H'' \<Longrightarrow> frame H H''"
  by (auto simp: frame_def)

lemma add_patterns_spec:
  assumes "built H ws pats" "rhs R \<in> set pats" "\<forall>q \<in> set pats. q \<le> rhs R"
    and "sorted (map rhs (R # Ps))" "\<forall>P \<in> set Ps. \<forall>c \<in> set (rhs P). c < m_AlphabetSize H"
  shows "\<exists>ws'. built (add_patterns Ps R (length pats) H) ws' (pats @ map rhs Ps) \<and>
    frame H (add_patterns Ps R (length pats) H)"
  using assms
proof (induction Ps arbitrary: H ws pats R)
  case Nil
  then show ?case by (auto simp: frame_def)
next
  case (Cons P Ps)
  let ?H = "add_pattern (rhs P) (rhs R) (length pats) H"
  obtain ws' where ws': "built ?H ws' (pats @ [rhs P])" "frame H ?H"
    using add_pattern_spec [OF Cons.prems(1-3), of "rhs P"] Cons.prems(4,5) by auto
  have "\<forall>q \<in> set (pats @ [rhs P]). q \<le> rhs P" using Cons.prems(3,4) by (auto intro: order_trans)
  moreover have "\<forall>P \<in> set Ps. \<forall>c \<in> set (rhs P). c < m_AlphabetSize ?H"
    using Cons.prems(5) ws'(2) by (simp add: frame_def)
  ultimately obtain ws'' where "built (add_patterns Ps P (length (pats @ [rhs P])) ?H) ws'' ((pats @ [rhs P]) @ map rhs Ps)"
      "frame ?H (add_patterns Ps P (length (pats @ [rhs P])) ?H)"
    using Cons.IH [OF ws'(1), of P] Cons.prems(4) by auto
  then show ?case using frame_trans [OF ws'(2)] by auto
qed

text \<open>\<open>CreateTrie\<close> up to the conversion of the child table.\<close>

definition unpacked_trie :: "CWorkRule list \<Rightarrow> CTrieHolder \<Rightarrow> CTrieHolder" where
  "unpacked_trie Patterns H =
     add_patterns (tl Patterns) (hd Patterns) 1
       (CreateChildrenSequence (rhs (hd Patterns)) 0 0 (AddNode trie_node (H\<lparr>m_Nodes := [], m_ChildrenAux := []\<rparr>)))"

lemma CreateTrie_eq: "Patterns \<noteq> [] \<Longrightarrow> CreateTrie Patterns H = ConvertAuxChildrenToNormal (unpacked_trie Patterns H)"
  by (cases Patterns) (simp_all add: unpacked_trie_def Let_def)

text \<open>What is asked of the patterns: a non-empty ordered set of rules with right parts over the alphabet.\<close>

definition patterns_ok :: "nat \<Rightarrow> CWorkRule list \<Rightarrow> bool" where
  "patterns_ok A Patterns \<longleftrightarrow>
     Patterns \<noteq> [] \<and> work_rule.ordered Patterns \<and>
     (\<forall>P \<in> set Patterns. rhs P \<noteq> [] \<and> length (rhs P) < 2 ^ 8 \<and> (\<forall>c \<in> set (rhs P). c < A)) \<and>
     Suc (sum_list (map (length \<circ> rhs) Patterns)) < 2 ^ 32"

lemma ordered_rhs: "work_rule.ordered Patterns \<Longrightarrow> sorted (map rhs Patterns)"
proof (induction Patterns)
  case (Cons P Ps)
  have "rhs x \<le> rhs y" if "work_rule_less x y" for x y
    using that by (auto simp: work_rule_less_def right_part_eq_def right_part_less_def split: if_splits)
  then show ?case using Cons by auto
qed simp

lemma unpacked_trie_spec:
  assumes "patterns_ok (m_AlphabetSize H) Patterns"
  shows "\<exists>ws. built (unpacked_trie Patterns H) ws (map rhs Patterns) \<and>
    m_AlphabetSize (unpacked_trie Patterns H) = m_AlphabetSize H \<and>
    m_FailureFunction (m_Nodes (unpacked_trie Patterns H) ! 0) = - 1"
proof -
  obtain P Ps where Ps: "Patterns = P # Ps" using assms by (cases Patterns) (auto simp: patterns_ok_def)
  let ?H0 = "AddNode trie_node (H\<lparr>m_Nodes := [], m_ChildrenAux := []\<rparr>)"
  have b0: "built ?H0 [[]] []"
    by (auto simp: built_def trie_inv_def spells_def node_spells_def AddNode_def trie_node_def pattern_prefixes_def aux_child_def)
  have f0: "m_AlphabetSize ?H0 = m_AlphabetSize H" "m_Nodes ?H0 \<noteq> []" "m_FailureFunction (m_Nodes ?H0 ! 0) = - 1"
    by (simp_all add: AddNode_def trie_node_def)
  have P: "rhs P \<noteq> []" "\<forall>c \<in> set (rhs P). c < m_AlphabetSize H" using assms Ps by (auto simp: patterns_ok_def)
  obtain ws where ws: "built (CreateChildrenSequence (rhs P) 0 0 ?H0) ws [rhs P]"
      "frame ?H0 (CreateChildrenSequence (rhs P) 0 0 ?H0)"
    using extend_pattern [OF b0, of 0 "[]" "rhs P" "rhs P"] P f0 by auto
  have "sorted (map rhs Patterns)" using assms ordered_rhs by (simp add: patterns_ok_def)
  then obtain ws' where "built (unpacked_trie Patterns H) ws' (map rhs Patterns)"
      "frame (CreateChildrenSequence (rhs P) 0 0 ?H0) (unpacked_trie Patterns H)"
    using add_patterns_spec [OF ws(1), of P Ps] assms Ps ws(2) f0
    by (auto simp: unpacked_trie_def patterns_ok_def frame_def)
  then show ?thesis using frame_trans [OF ws(2)] f0 by (auto simp: frame_def)
qed

section \<open>Packing the child table\<close>

definition relations :: "nat \<Rightarrow> symbol list list \<Rightarrow> nat \<Rightarrow> CTrieRelation list" where
  "relations A ws n =
     map (\<lambda>c. \<lparr>m_RelationChar = int c, m_ChildNo = trie_no ws (ws ! n @ [c])\<rparr>)
       (filter (\<lambda>c. ws ! n @ [c] \<in> set ws) [0..<A])"

text \<open>Where the relations of a node begin.\<close>

definition offset :: "nat \<Rightarrow> symbol list list \<Rightarrow> nat \<Rightarrow> nat" where
  "offset A ws n = length (concat (map (relations A ws) [0..<n]))"

lemma offset_Suc: "offset A ws (Suc n) = offset A ws n + length (relations A ws n)"
  by (simp add: offset_def)

lemma offset_mono: "m \<le> n \<Longrightarrow> offset A ws m \<le> offset A ws n"
  by (rule lift_Suc_mono_le) (simp_all add: offset_Suc)

lemma offset_bound:
  assumes "distinct ws"
  shows "offset A ws (length ws) \<le> length ws"
proof -
  let ?E = "SIGMA n:{..<length ws}. {c. c < A \<and> ws ! n @ [c] \<in> set ws}"
  have "offset A ws (length ws) = (\<Sum>n<length ws. length (relations A ws n))"
    by (simp add: offset_def length_concat comp_def interv_sum_list_conv_sum_set_nat atLeast0LessThan)
  also have "\<dots> = (\<Sum>n<length ws. card {c. c < A \<and> ws ! n @ [c] \<in> set ws})"
  proof (rule sum.cong [OF refl])
    fix n
    have "card (set (filter (\<lambda>c. ws ! n @ [c] \<in> set ws) [0..<A])) = length (relations A ws n)"
      by (subst distinct_card) (simp_all add: relations_def)
    moreover have "set (filter (\<lambda>c. ws ! n @ [c] \<in> set ws) [0..<A]) = {c. c < A \<and> ws ! n @ [c] \<in> set ws}" by auto
    ultimately show "length (relations A ws n) = card {c. c < A \<and> ws ! n @ [c] \<in> set ws}" by simp
  qed
  also have "\<dots> = card ?E" by (rule card_SigmaI [symmetric]) auto
  also have "\<dots> \<le> card (set ws)"
    by (rule card_inj_on_le [where f = "\<lambda>(n, c). ws ! n @ [c]"])
      (use assms in \<open>auto simp: inj_on_def nth_eq_iff_index_eq\<close>)
  also have "\<dots> = length ws" using assms by (rule distinct_card)
  finally show ?thesis .
qed

definition trie_ok :: "CTrieHolder \<Rightarrow> symbol list list \<Rightarrow> symbol list list \<Rightarrow> bool" where
  "trie_ok H ws pats \<longleftrightarrow>
     spells (m_Nodes H) ws \<and> set ws = pattern_prefixes pats \<and>
     (\<forall>w \<in> set ws. \<forall>c \<in> set w. c < m_AlphabetSize H) \<and>
     (\<forall>n < length ws. GetChildren H n = relations (m_AlphabetSize H) ws n) \<and>
     (\<forall>n < length ws. m_GrammarRuleNo (m_Nodes H ! n) = trie_no pats (ws ! n))"

lemma convert_nodes:
  assumes "trie_inv H ws" "k \<le> length ws"
  shows "fold convert_node [0..<k] (H\<lparr>m_Children := []\<rparr>) =
    H\<lparr>m_Children := concat (map (relations (m_AlphabetSize H) ws) [0..<k]),
      m_Nodes := map (\<lambda>n. if n < k then (m_Nodes H ! n)\<lparr>m_ChildrenIndex := word_of_nat (offset (m_AlphabetSize H) ws n)\<rparr>
        else m_Nodes H ! n) [0..<length ws]\<rparr>"
  using assms(2)
proof (induction k)
  case 0
  have "length (m_Nodes H) = length ws" using assms(1) by (simp add: trie_inv_def spells_def)
  then have "m_Nodes H = map (\<lambda>n. m_Nodes H ! n) [0..<length ws]" by (metis map_nth)
  then show ?case by simp
next
  case (Suc k)
  let ?A = "m_AlphabetSize H"
  let ?H = "H\<lparr>m_Children := concat (map (relations ?A ws) [0..<k]),
      m_Nodes := map (\<lambda>n. if n < k then (m_Nodes H ! n)\<lparr>m_ChildrenIndex := word_of_nat (offset ?A ws n)\<rparr>
        else m_Nodes H ! n) [0..<length ws]\<rparr>"
  have aux: "aux_child ?H k c = trie_no ws (ws ! k @ [c])" if "c < ?A" for c
    using assms(1) Suc.prems that by (simp add: trie_inv_def aux_child_def)
  have rel: "map (\<lambda>i. \<lparr>m_RelationChar = int i, m_ChildNo = aux_child ?H k i\<rparr>)
      (filter (\<lambda>i. aux_child ?H k i \<noteq> - 1) [0..<?A]) = relations ?A ws k"
  proof -
    have f: "filter (\<lambda>i. aux_child ?H k i \<noteq> - 1) [0..<?A] = filter (\<lambda>c. ws ! k @ [c] \<in> set ws) [0..<?A]"
      by (rule filter_cong) (simp_all add: aux)
    show ?thesis unfolding f relations_def [of ?A ws k] by (rule map_cong [OF refl]) (simp add: aux)
  qed
  have nodes: "(m_Nodes ?H)[k := (m_Nodes ?H ! k)\<lparr>m_ChildrenIndex := word_of_nat (length (m_Children ?H))\<rparr>] =
      map (\<lambda>n. if n < Suc k then (m_Nodes H ! n)\<lparr>m_ChildrenIndex := word_of_nat (offset ?A ws n)\<rparr>
        else m_Nodes H ! n) [0..<length ws]"
    using Suc.prems by (intro nth_equalityI) (auto simp: nth_list_update offset_def less_Suc_eq)
  have "fold convert_node [0..<Suc k] (H\<lparr>m_Children := []\<rparr>) = convert_node k ?H"
    using Suc by simp
  also have "\<dots> = H\<lparr>m_Children := concat (map (relations ?A ws) [0..<Suc k]),
      m_Nodes := map (\<lambda>n. if n < Suc k then (m_Nodes H ! n)\<lparr>m_ChildrenIndex := word_of_nat (offset ?A ws n)\<rparr>
        else m_Nodes H ! n) [0..<length ws]\<rparr>"
    unfolding convert_node_def nodes using rel by simp
  finally show ?case .
qed

lemma ConvertAuxChildrenToNormal_spec:
  assumes "built H ws pats" "length ws < 2 ^ 32"
  shows "trie_ok (ConvertAuxChildrenToNormal H) ws pats \<and>
    m_AlphabetSize (ConvertAuxChildrenToNormal H) = m_AlphabetSize H \<and>
    m_FailureFunction (m_Nodes (ConvertAuxChildrenToNormal H) ! 0) = m_FailureFunction (m_Nodes H ! 0)"
proof -
  let ?A = "m_AlphabetSize H" and ?H = "ConvertAuxChildrenToNormal H" and ?N = "length ws"
  have inv: "trie_inv H ws" and sp: "spells (m_Nodes H) ws" and len: "length (m_Nodes H) = ?N" and dist: "distinct ws"
    and ne: "0 < ?N"
    using assms(1) by (auto simp: built_def trie_inv_def spells_def)
  have H: "?H = H\<lparr>m_Children := concat (map (relations ?A ws) [0..<?N]),
      m_Nodes := map (\<lambda>n. (m_Nodes H ! n)\<lparr>m_ChildrenIndex := word_of_nat (offset ?A ws n)\<rparr>) [0..<?N],
      m_ChildrenAux := []\<rparr>"
    using convert_nodes [OF inv order_refl] len by (simp add: ConvertAuxChildrenToNormal_def cong: map_cong)
  have small: "offset ?A ws n < 2 ^ 32" if "n \<le> ?N" for n
    using offset_mono [OF that] offset_bound [OF dist, of ?A] assms(2) by (meson le_less_trans)
  then have unat: "unat (word_of_nat (offset ?A ws n) :: 32 word) = offset ?A ws n" if "n \<le> ?N" for n
    using small [OF that] by (simp add: unat_of_nat)
  have "GetChildren ?H n = relations ?A ws n" if n: "n < ?N" for n
  proof -
    have count: "GetChildrenCount ?H n = length (relations ?A ws n)"
    proof (cases "Suc n = ?N")
      case True
      then have "length (m_Children ?H) = offset ?A ws (Suc n)" by (simp add: H offset_def)
      then show ?thesis using True n unat [of n] offset_Suc [of ?A ws n] by (simp add: GetChildrenCount_def H)
    next
      case False
      let ?a = "word_of_nat (offset ?A ws (Suc n)) :: 32 word" and ?b = "word_of_nat (offset ?A ws n) :: 32 word"
      have "?b \<le> ?a" using n unat [of n] unat [of "Suc n"] by (simp add: word_le_nat_alt offset_Suc)
      then have "unat (?a - ?b) = unat ?a - unat ?b" by (rule unat_sub)
      also have "\<dots> = offset ?A ws (Suc n) - offset ?A ws n"
        unfolding unat [OF less_imp_le [OF n]] unat [OF Suc_leI [OF n]] ..
      finally have "unat (?a - ?b) = length (relations ?A ws n)" by (simp add: offset_Suc)
      then show ?thesis using False n by (simp add: GetChildrenCount_def H)
    qed
    have "[0..<?N] = [0..<n] @ n # [Suc n..<?N]" using n by (metis upt_add_eq_append upt_conv_Cons le_add_diff_inverse less_imp_le zero_le)
    then have "m_Children ?H = concat (map (relations ?A ws) [0..<n]) @ relations ?A ws n @ concat (map (relations ?A ws) [Suc n..<?N])"
      by (simp add: H)
    moreover have "unat (m_ChildrenIndex (m_Nodes ?H ! n)) = length (concat (map (relations ?A ws) [0..<n]))"
      using n unat [of n] by (simp add: H offset_def)
    ultimately show ?thesis by (simp add: GetChildren_def count)
  qed
  moreover have "spells (m_Nodes ?H) ws"
    by (rule spells_same_shape [OF sp]) (use len in \<open>auto simp: H same_shape_def\<close>)
  ultimately show ?thesis
    using assms(1) ne by (auto simp: trie_ok_def built_def trie_inv_def H)
qed

lemma CreateTrie_ok:
  assumes "patterns_ok (m_AlphabetSize H) Patterns"
  shows "\<exists>ws. trie_ok (CreateTrie Patterns H) ws (map rhs Patterns) \<and>
    m_AlphabetSize (CreateTrie Patterns H) = m_AlphabetSize H \<and>
    m_FailureFunction (m_Nodes (CreateTrie Patterns H) ! 0) = - 1"
proof -
  obtain ws where ws: "built (unpacked_trie Patterns H) ws (map rhs Patterns)"
      "m_AlphabetSize (unpacked_trie Patterns H) = m_AlphabetSize H"
      "m_FailureFunction (m_Nodes (unpacked_trie Patterns H) ! 0) = - 1"
    using unpacked_trie_spec [OF assms] by blast
  have "length ws < 2 ^ 32" using ws(1) assms by (simp add: built_def patterns_ok_def)
  moreover have "CreateTrie Patterns H = ConvertAuxChildrenToNormal (unpacked_trie Patterns H)"
    using assms CreateTrie_eq by (simp add: patterns_ok_def)
  ultimately show ?thesis using ConvertAuxChildrenToNormal_spec [OF ws(1)] ws(2,3) by auto
qed

section \<open>Failure links are longest proper suffixes\<close>

lemma find_distinct: "distinct (map g xs) \<Longrightarrow> p \<in> set xs \<Longrightarrow> List.find (\<lambda>x. g x = g p) xs = Some p"
  by (induction xs) (auto simp: image_iff)

lemma FindChild_word:
  assumes "trie_ok H ws pats" "n < length ws"
  shows "trie_FindChild H (int n) (int c) = trie_no ws (ws ! n @ [c])"
proof (cases "ws ! n @ [c] \<in> set ws")
  case True
  let ?p = "\<lparr>m_RelationChar = int c, m_ChildNo = trie_no ws (ws ! n @ [c])\<rparr>"
  have "c < m_AlphabetSize H" using assms(1) True by (auto simp: trie_ok_def)
  then have "?p \<in> set (relations (m_AlphabetSize H) ws n)" using True by (auto simp: relations_def)
  moreover have "distinct (map m_RelationChar (relations (m_AlphabetSize H) ws n))"
    by (auto simp: relations_def comp_def distinct_map inj_on_def)
  ultimately show ?thesis
    using find_distinct [of m_RelationChar _ ?p] assms by (simp add: trie_FindChild_def trie_ok_def)
next
  case False
  then have "List.find (\<lambda>p. m_RelationChar p = int c) (relations (m_AlphabetSize H) ws n) = None"
    by (auto simp: find_None_iff relations_def)
  then show ?thesis using assms False by (simp add: trie_FindChild_def trie_ok_def)
qed

lemma ok_root: "trie_ok H ws pats \<Longrightarrow> 0 < length ws \<and> ws ! 0 = [] \<and> trie_no ws [] = 0"
  using spells_root [of "m_Nodes H" ws] trie_no_nth [of ws 0] by (auto simp: trie_ok_def spells_def)

lemma ok_empty_iff: "trie_ok H ws pats \<Longrightarrow> n < length ws \<Longrightarrow> ws ! n = [] \<longleftrightarrow> n = 0"
  using ok_root [of H ws pats] nth_eq_iff_index_eq [of ws n 0] by (auto simp: trie_ok_def spells_def)

lemma ok_closed: "trie_ok H ws pats \<Longrightarrow> prefix_closed (set ws)"
  unfolding trie_ok_def by (elim conjE spells_closed)

definition fail_ok :: "CTrieHolder \<Rightarrow> symbol list list \<Rightarrow> nat \<Rightarrow> bool" where
  "fail_ok H ws n \<longleftrightarrow>
     m_FailureFunction (m_Nodes H ! n) = (if n = 0 then - 1 else trie_no ws (longest_in (set ws) (tl (ws ! n))))"

lemma follow_failure_none [simp]: "follow_failure H c (- 1) = Some (- 1)"
  by (subst follow_failure.simps) simp

text \<open>Following the links from a word to the first one that has the child, if there is one.\<close>

definition followed :: "CTrieHolder \<Rightarrow> symbol list list \<Rightarrow> symbol \<Rightarrow> symbol list \<Rightarrow> int \<Rightarrow> bool" where
  "followed H ws c b r \<longleftrightarrow>
     (if b = [] then r = - 1 else r \<noteq> - 1 \<and> trie_FindChild H r (int c) = trie_no ws b)"

lemma follow_failure_spec:
  assumes "trie_ok H ws pats" "q \<in> set ws" "\<forall>n < length ws. length (ws ! n) \<le> length q \<longrightarrow> fail_ok H ws n"
  shows "\<exists>r. follow_failure H (int c) (trie_no ws q) = Some r \<and> followed H ws c (longest_in (set ws) (q @ [c])) r"
  using assms(2,3)
proof (induction q rule: length_induct)
  case (1 q)
  let ?S = "set ws"
  obtain n where n: "trie_no ws q = int n" "n < length ws" "ws ! n = q" using trie_no_in [OF 1(2)] .
  have child: "trie_FindChild H (int n) (int c) = trie_no ws (q @ [c])"
    using FindChild_word [OF assms(1) n(2)] n(3) by simp
  show ?case
  proof (cases "q @ [c] \<in> ?S")
    case True
    then show ?thesis using n child by (subst follow_failure.simps) (simp add: followed_def)
  next
    case False
    have step: "follow_failure H (int c) (trie_no ws q) = follow_failure H (int c) (m_FailureFunction (m_Nodes H ! n))"
      using n child False by (subst follow_failure.simps) simp
    have fail: "fail_ok H ws n" using 1(3) n by simp
    show ?thesis
    proof (cases "q = []")
      case True
      then have "n = 0" using ok_empty_iff [OF assms(1) n(2)] n(3) by simp
      then show ?thesis using step fail True False by (simp add: fail_ok_def followed_def)
    next
      case ne: False
      let ?q = "longest_in ?S (tl q)"
      have "m_FailureFunction (m_Nodes H ! n) = trie_no ws ?q"
        using fail ne n ok_empty_iff [OF assms(1) n(2)] by (simp add: fail_ok_def)
      moreover have len: "length ?q < length q"
        using longest_in_length [of ?S "tl q"] ne by (cases q) auto
      moreover have "?q \<in> ?S" by (rule prefix_closed.longest_in_mem [OF ok_closed [OF assms(1)]])
      moreover have "longest_in ?S (q @ [c]) = longest_in ?S (?q @ [c])"
        by (rule prefix_closed.longest_in_fail [OF ok_closed [OF assms(1)] False ne])
      ultimately show ?thesis using 1 step by simp
    qed
  qed
qed

text \<open>Updating the link of one node.\<close>

definition set_failure :: "nat \<Rightarrow> int \<Rightarrow> CTrieHolder \<Rightarrow> CTrieHolder" where
  "set_failure c f H = H\<lparr>m_Nodes := (m_Nodes H)[c := (m_Nodes H ! c)\<lparr>m_FailureFunction := f\<rparr>]\<rparr>"

lemma set_failure_nodes:
  "i < length (m_Nodes H) \<Longrightarrow> m_Nodes (set_failure c f H) ! i =
     (if i = c then (m_Nodes H ! c)\<lparr>m_FailureFunction := f\<rparr> else m_Nodes H ! i)"
  by (auto simp: set_failure_def)

lemma set_failure_simps [simp]:
  "m_AlphabetSize (set_failure c f H) = m_AlphabetSize H" "m_Children (set_failure c f H) = m_Children H"
  "length (m_Nodes (set_failure c f H)) = length (m_Nodes H)"
  by (simp_all add: set_failure_def)

lemma set_failure_ok:
  assumes "trie_ok H ws pats"
  shows "trie_ok (set_failure c f H) ws pats"
proof -
  let ?H = "set_failure c f H"
  have len: "length (m_Nodes H) = length ws" using assms by (simp add: trie_ok_def spells_def)
  have idx: "m_ChildrenIndex (m_Nodes ?H ! i) = m_ChildrenIndex (m_Nodes H ! i)"
    "m_GrammarRuleNo (m_Nodes ?H ! i) = m_GrammarRuleNo (m_Nodes H ! i)" if "i < length ws" for i
    using that len by (simp_all add: set_failure_nodes)
  have "GetChildren ?H n = GetChildren H n" if "n < length ws" for n
    using that idx(1) [of n] idx(1) [of "n + 1"] len by (simp add: GetChildren_def GetChildrenCount_def)
  moreover have "spells (m_Nodes ?H) ws"
    using assms unfolding trie_ok_def
    by (elim conjE spells_same_shape) (auto simp: same_shape_def set_failure_nodes)
  ultimately show ?thesis using assms idx by (simp add: trie_ok_def)
qed

lemma failure_children_step:
  "failure_children x (p # ps) (BFS, H) =
     do {
       r \<leftarrow> follow_failure H (m_RelationChar p) (m_FailureFunction (m_Nodes H ! nat x));
       failure_children x ps (BFS @ [nat (m_ChildNo p)],
         set_failure (nat (m_ChildNo p)) (if r \<noteq> - 1 then trie_FindChild H r (m_RelationChar p) else 0) H)
     }"
  by (simp add: set_failure_def Let_def)

lemma child_failure:
  assumes ok: "trie_ok H ws pats" and x: "x < length ws"
    and links: "\<forall>n < length ws. length (ws ! n) \<le> length (ws ! x) \<longrightarrow> fail_ok H ws n"
  obtains r where "follow_failure H (int c) (m_FailureFunction (m_Nodes H ! x)) = Some r"
    "followed H ws c (longest_in (set ws) (tl (ws ! x @ [c]))) r"
proof (cases "x = 0")
  case True
  then have "m_FailureFunction (m_Nodes H ! x) = - 1" using links x by (simp add: fail_ok_def)
  then show ?thesis using that [of "- 1"] True ok_root [OF ok] by (simp add: followed_def)
next
  case False
  let ?q = "longest_in (set ws) (tl (ws ! x))"
  have ne: "ws ! x \<noteq> []" using ok_empty_iff [OF ok x] False by simp
  have cl: "prefix_closed (set ws)" by (rule ok_closed [OF ok])
  have "length ?q \<le> length (ws ! x)" using longest_in_length [of "set ws" "tl (ws ! x)"] by simp
  then have "\<forall>n < length ws. length (ws ! n) \<le> length ?q \<longrightarrow> fail_ok H ws n" using links by auto
  then obtain r where r: "follow_failure H (int c) (trie_no ws ?q) = Some r" "followed H ws c (longest_in (set ws) (?q @ [c])) r"
    using follow_failure_spec [OF ok prefix_closed.longest_in_mem [OF cl]] by blast
  have f: "m_FailureFunction (m_Nodes H ! x) = trie_no ws ?q" using links x False by (simp add: fail_ok_def)
  have l: "longest_in (set ws) (tl (ws ! x @ [c])) = longest_in (set ws) (?q @ [c])"
    using prefix_closed.longest_in_snoc [OF cl] ne by simp
  show ?thesis by (rule that [of r]) (use f l r in simp_all)
qed

lemma failure_children_spec:
  assumes "trie_ok H ws pats" "x < length ws" "\<forall>n < length ws. length (ws ! n) \<le> length (ws ! x) \<longrightarrow> fail_ok H ws n"
    and "\<forall>c \<in> set cs. ws ! x @ [c] \<in> set ws"
  shows "\<exists>H'. failure_children (int x) (map (\<lambda>c. \<lparr>m_RelationChar = int c, m_ChildNo = trie_no ws (ws ! x @ [c])\<rparr>) cs) (BFS, H) =
      Some (BFS @ map (\<lambda>c. nat (trie_no ws (ws ! x @ [c]))) cs, H') \<and>
    trie_ok H' ws pats \<and> m_AlphabetSize H' = m_AlphabetSize H \<and>
    (\<forall>n < length ws. fail_ok H ws n \<or> (\<exists>c \<in> set cs. ws ! n = ws ! x @ [c]) \<longrightarrow> fail_ok H' ws n)"
  using assms
proof (induction cs arbitrary: H BFS)
  case Nil
  then show ?case by auto
next
  case (Cons c cs)
  let ?w = "ws ! x @ [c]" and ?b = "longest_in (set ws) (tl (ws ! x @ [c]))"
  obtain m where m: "trie_no ws ?w = int m" "m < length ws" "ws ! m = ?w" using trie_no_in Cons.prems(4) by auto
  obtain r where r: "follow_failure H (int c) (m_FailureFunction (m_Nodes H ! x)) = Some r" "followed H ws c ?b r"
    using child_failure [OF Cons.prems(1-3)] .
  let ?f = "if r \<noteq> - 1 then trie_FindChild H r (int c) else 0"
  let ?H = "set_failure m ?f H"
  have f: "?f = trie_no ws ?b" using r(2) ok_root [OF Cons.prems(1)] by (auto simp: followed_def split: if_splits)
  have ok: "trie_ok ?H ws pats" by (rule set_failure_ok [OF Cons.prems(1)])
  have len: "length (m_Nodes H) = length ws" using Cons.prems(1) by (simp add: trie_ok_def spells_def)
  have "m \<noteq> 0" using ok_empty_iff [OF Cons.prems(1) m(2)] m(3) by auto
  then have keep: "fail_ok ?H ws n" if "n < length ws" "fail_ok H ws n \<or> n = m" for n
    using that m f len by (auto simp: fail_ok_def set_failure_nodes)
  then have "\<forall>n < length ws. length (ws ! n) \<le> length (ws ! x) \<longrightarrow> fail_ok ?H ws n" using Cons.prems(3) by blast
  then obtain H' where H': "failure_children (int x) (map (\<lambda>c. \<lparr>m_RelationChar = int c, m_ChildNo = trie_no ws (ws ! x @ [c])\<rparr>) cs) (BFS @ [m], ?H) =
      Some ((BFS @ [m]) @ map (\<lambda>c. nat (trie_no ws (ws ! x @ [c]))) cs, H')"
      "trie_ok H' ws pats" "m_AlphabetSize H' = m_AlphabetSize ?H"
      "\<forall>n < length ws. fail_ok ?H ws n \<or> (\<exists>c \<in> set cs. ws ! n = ws ! x @ [c]) \<longrightarrow> fail_ok H' ws n"
    using Cons.IH [OF ok Cons.prems(2), of "BFS @ [m]"] Cons.prems(4) by auto
  have "fail_ok H' ws n" if n: "n < length ws" "fail_ok H ws n \<or> (\<exists>d \<in> set (c # cs). ws ! n = ws ! x @ [d])" for n
  proof (cases "ws ! n = ?w")
    case True
    then have "n = m" using m n(1) Cons.prems(1) by (metis trie_no_nth of_nat_eq_iff trie_ok_def spells_def)
    then show ?thesis using H'(4) keep n(1) by blast
  next
    case False
    then show ?thesis using H'(4) keep n by auto
  qed
  then show ?case using H'(1-3) r(1) m(1) by (auto simp: failure_children_step simp del: failure_children.simps(2))
qed

text \<open>
  The breadth-first search: nodes are listed by length, and those that are not longer than the
  current one are all listed.
\<close>

definition bfs_inv :: "CTrieHolder \<Rightarrow> symbol list list \<Rightarrow> nat \<Rightarrow> nat list \<Rightarrow> bool" where
  "bfs_inv H ws i BFS \<longleftrightarrow>
     i \<le> length BFS \<and> distinct BFS \<and> 0 \<in> set BFS \<and> set BFS \<subseteq> {..<length ws} \<and>
     sorted (map (\<lambda>n. length (ws ! n)) BFS) \<and>
     (i < length BFS \<longrightarrow> (\<forall>n \<in> set BFS. length (ws ! n) \<le> Suc (length (ws ! (BFS ! i))))) \<and>
     (\<forall>n < length ws. n \<in> set BFS \<longleftrightarrow> n = 0 \<or> (\<exists>j < i. \<exists>c. ws ! n = ws ! (BFS ! j) @ [c])) \<and>
     (\<forall>n \<in> set BFS. fail_ok H ws n)"

lemma bfs_listed:
  assumes "bfs_inv H ws i BFS" "trie_ok H ws pats" "n < length ws"
    and "i < length BFS \<longrightarrow> length (ws ! n) \<le> length (ws ! (BFS ! i))"
  shows "n \<in> set BFS"
  using assms(3,4)
proof (induction "length (ws ! n)" arbitrary: n rule: less_induct)
  case less
  show ?case
  proof (cases "n = 0")
    case True
    then show ?thesis using assms(1) by (simp add: bfs_inv_def)
  next
    case False
    have sp: "spells (m_Nodes H) ws" using assms(2) by (simp add: trie_ok_def)
    obtain p c where p: "p < n" "ws ! n = ws ! p @ [c]" using spells_child [OF sp less.prems(1) False] .
    then have "p \<in> set BFS" using less by auto
    then obtain j where j: "j < length BFS" "BFS ! j = p" by (auto simp: in_set_conv_nth)
    have "j < i"
    proof (rule ccontr)
      assume "\<not> j < i"
      then have "i \<le> j" "i < length BFS" using j(1) by auto
      then have "length (ws ! (BFS ! i)) \<le> length (ws ! p)"
        using assms(1) j sorted_nth_mono [of "map (\<lambda>n. length (ws ! n)) BFS" i j] by (simp add: bfs_inv_def)
      then show False using less.prems(2) \<open>i < length BFS\<close> p(2) by simp
    qed
    then show ?thesis using assms(1) less.prems(1) p(2) j(2) unfolding bfs_inv_def by blast
  qed
qed

lemma kids_of:
  assumes "trie_ok H ws pats" "x < length ws"
  defines "kids \<equiv> map (\<lambda>c. nat (trie_no ws (ws ! x @ [c]))) (filter (\<lambda>c. ws ! x @ [c] \<in> set ws) [0..<m_AlphabetSize H])"
  shows "distinct kids" "n \<in> set kids \<longleftrightarrow> n < length ws \<and> (\<exists>c. ws ! n = ws ! x @ [c])"
proof -
  have dist: "distinct ws" using assms(1) by (simp add: trie_ok_def spells_def)
  show "distinct kids"
    unfolding kids_def distinct_map
    by (auto simp: inj_on_def) (metis butlast_snoc last_snoc nat_int trie_no_in)
  have "c < m_AlphabetSize H" if "ws ! x @ [c] \<in> set ws" for c using that assms(1) by (auto simp: trie_ok_def)
  moreover have "nat (trie_no ws (ws ! x @ [c])) = n \<longleftrightarrow> n < length ws \<and> ws ! n = ws ! x @ [c]"
    if "ws ! x @ [c] \<in> set ws" for c
    using that dist by (metis nat_int trie_no_in trie_no_nth)
  ultimately show "n \<in> set kids \<longleftrightarrow> n < length ws \<and> (\<exists>c. ws ! n = ws ! x @ [c])"
    unfolding kids_def by (auto simp: image_iff) (metis nth_mem)+
qed

lemma bfs_step:
  assumes inv: "bfs_inv H ws i BFS" and ok: "trie_ok H ws pats" and i: "i < length BFS"
  shows "\<exists>kids H'. failure_children (int (BFS ! i)) (GetChildren H (BFS ! i)) (BFS, H) = Some (BFS @ kids, H') \<and>
    trie_ok H' ws pats \<and> m_AlphabetSize H' = m_AlphabetSize H \<and> bfs_inv H' ws (Suc i) (BFS @ kids)"
proof -
  let ?x = "BFS ! i"
  let ?cs = "filter (\<lambda>c. ws ! ?x @ [c] \<in> set ws) [0..<m_AlphabetSize H]"
  let ?kids = "map (\<lambda>c. nat (trie_no ws (ws ! ?x @ [c]))) ?cs"
  have xin: "?x \<in> set BFS" using i by simp
  then have x: "?x < length ws" using inv by (auto simp: bfs_inv_def)
  have kids: "distinct ?kids" "\<And>n. n \<in> set ?kids \<longleftrightarrow> n < length ws \<and> (\<exists>c. ws ! n = ws ! ?x @ [c])"
    using kids_of [OF ok x] by auto
  have small: "\<forall>n < length ws. length (ws ! n) \<le> length (ws ! ?x) \<longrightarrow> fail_ok H ws n"
    using bfs_listed [OF inv ok] inv by (auto simp: bfs_inv_def)
  have gc: "GetChildren H ?x = map (\<lambda>c. \<lparr>m_RelationChar = int c, m_ChildNo = trie_no ws (ws ! ?x @ [c])\<rparr>) ?cs"
    using ok x by (simp add: trie_ok_def relations_def)
  have pre: "\<forall>c \<in> set ?cs. ws ! ?x @ [c] \<in> set ws" by simp
  obtain H' where H': "failure_children (int ?x) (GetChildren H ?x) (BFS, H) = Some (BFS @ ?kids, H')"
      "trie_ok H' ws pats" "m_AlphabetSize H' = m_AlphabetSize H"
      "\<forall>n < length ws. fail_ok H ws n \<or> (\<exists>c \<in> set ?cs. ws ! n = ws ! ?x @ [c]) \<longrightarrow> fail_ok H' ws n"
    using failure_children_spec [OF ok x small pre, of BFS] unfolding gc by blast
  have new: "n \<notin> set BFS" if kid: "n \<in> set ?kids" for n
  proof
    assume n: "n \<in> set BFS"
    obtain c where c: "n < length ws" "ws ! n = ws ! ?x @ [c]" using kids(2) kid by blast
    then have "n \<noteq> 0" using ok_empty_iff [OF ok c(1)] by auto
    then obtain j d where j: "j < i" "ws ! n = ws ! (BFS ! j) @ [d]" using inv n c(1) by (auto simp: bfs_inv_def)
    then have "ws ! (BFS ! j) = ws ! ?x" using c(2) by simp
    moreover have "BFS ! j \<in> set BFS" using i j(1) by simp
    then have "BFS ! j < length ws" using inv by (auto simp: bfs_inv_def)
    ultimately have "BFS ! j = ?x" using x ok by (metis nth_eq_iff_index_eq trie_ok_def spells_def)
    then show False using inv i j(1) by (auto simp: bfs_inv_def nth_eq_iff_index_eq)
  qed
  have klen: "length (ws ! n) = Suc (length (ws ! ?x))" if "n \<in> set ?kids" for n
    using that kids(2) by auto
  have dist: "distinct (BFS @ ?kids)" using inv kids(1) new by (auto simp: bfs_inv_def)
  have sorted: "sorted (map (\<lambda>n. length (ws ! n)) (BFS @ ?kids))"
  proof -
    have "sorted (map (\<lambda>n. length (ws ! n)) ?kids)"
      by (rule sorted_wrt_mono_rel [where P = "\<lambda>_ _. True"]) (use klen in auto)
    then show ?thesis using inv i klen by (auto simp: bfs_inv_def sorted_append)
  qed
  have range: "set (BFS @ ?kids) \<subseteq> {..<length ws}" using inv kids(2) by (auto simp: bfs_inv_def)
  have later: "length (ws ! n) \<le> Suc (length (ws ! ((BFS @ ?kids) ! Suc i)))"
    if "Suc i < length (BFS @ ?kids)" "n \<in> set (BFS @ ?kids)" for n
  proof -
    have "map (\<lambda>n. length (ws ! n)) (BFS @ ?kids) ! i \<le> map (\<lambda>n. length (ws ! n)) (BFS @ ?kids) ! Suc i"
      by (rule sorted_nth_mono [OF sorted]) (use that(1) in simp_all)
    then have "length (ws ! ((BFS @ ?kids) ! i)) \<le> length (ws ! ((BFS @ ?kids) ! Suc i))"
      using that(1) by (simp only: nth_map Suc_lessD)
    moreover have "(BFS @ ?kids) ! i = ?x" using i by (simp add: nth_append)
    ultimately have "length (ws ! ?x) \<le> length (ws ! ((BFS @ ?kids) ! Suc i))" by simp
    moreover have "length (ws ! n) \<le> Suc (length (ws ! ?x))"
      using that(2) inv i klen by (auto simp: bfs_inv_def)
    ultimately show ?thesis by simp
  qed
  have listed: "n \<in> set (BFS @ ?kids) \<longleftrightarrow> n = 0 \<or> (\<exists>j < Suc i. \<exists>c. ws ! n = ws ! ((BFS @ ?kids) ! j) @ [c])"
    if n: "n < length ws" for n
  proof -
    have "(BFS @ ?kids) ! j = BFS ! j" if "j < Suc i" for j using that i by (simp add: nth_append)
    moreover have "n \<in> set BFS \<longleftrightarrow> n = 0 \<or> (\<exists>j < i. \<exists>c. ws ! n = ws ! (BFS ! j) @ [c])"
      using inv n by (simp add: bfs_inv_def)
    ultimately show ?thesis using kids(2) [of n] n by (auto simp: less_Suc_eq)
  qed
  have links: "fail_ok H' ws n" if node: "n \<in> set (BFS @ ?kids)" for n
  proof -
    have "n < length ws" using range node by auto
    moreover have "fail_ok H ws n \<or> (\<exists>c \<in> set ?cs. ws ! n = ws ! ?x @ [c])"
    proof (cases "n \<in> set BFS")
      case True
      then show ?thesis using inv by (simp add: bfs_inv_def)
    next
      case False
      then obtain c where c: "n < length ws" "ws ! n = ws ! ?x @ [c]" using node kids(2) by auto
      then have w: "ws ! ?x @ [c] \<in> set ws" by (metis nth_mem)
      then have "c < m_AlphabetSize H" using ok by (auto simp: trie_ok_def)
      then show ?thesis using c(2) w by auto
    qed
    ultimately show ?thesis using H'(4) by blast
  qed
  have "bfs_inv H' ws (Suc i) (BFS @ ?kids)"
    unfolding bfs_inv_def using dist sorted range later listed links i inv by (auto simp: bfs_inv_def)
  then show ?thesis using H' by blast
qed

lemma failure_loop_spec:
  assumes "bfs_inv H ws i BFS" "trie_ok H ws pats"
  shows "\<exists>H'. failure_loop i BFS H = Some H' \<and> trie_ok H' ws pats \<and> m_AlphabetSize H' = m_AlphabetSize H \<and>
    (\<forall>n < length ws. fail_ok H' ws n)"
  using assms
proof (induction "length ws - i" arbitrary: i BFS H rule: less_induct)
  case less
  show ?case
  proof (cases "i < length BFS")
    case True
    obtain kids H' where H': "failure_children (int (BFS ! i)) (GetChildren H (BFS ! i)) (BFS, H) = Some (BFS @ kids, H')"
        "trie_ok H' ws pats" "m_AlphabetSize H' = m_AlphabetSize H" "bfs_inv H' ws (Suc i) (BFS @ kids)"
      using bfs_step [OF less.prems True] by blast
    have "length BFS = card (set BFS)" using less.prems(1) by (simp add: bfs_inv_def distinct_card)
    also have "\<dots> \<le> length ws" using less.prems(1) card_mono [of "{..<length ws}" "set BFS"] by (simp add: bfs_inv_def)
    finally have "i < length ws" using True by simp
    then have "length ws - Suc i < length ws - i" by simp
    then obtain H'' where "failure_loop (Suc i) (BFS @ kids) H' = Some H''" "trie_ok H'' ws pats"
        "m_AlphabetSize H'' = m_AlphabetSize H'" "\<forall>n < length ws. fail_ok H'' ws n"
      using less.hyps H' by blast
    then show ?thesis using H'(1,3) True by (subst failure_loop.simps) simp
  next
    case False
    then have "\<forall>n < length ws. fail_ok H ws n"
      using bfs_listed [OF less.prems] less.prems(1) by (auto simp: bfs_inv_def)
    then show ?thesis using False less.prems(2) by (subst failure_loop.simps) simp
  qed
qed

lemma InitFailureFunction_spec:
  assumes "trie_ok H ws pats" "m_FailureFunction (m_Nodes H ! 0) = - 1"
  shows "\<exists>H'. InitFailureFunction H = Some H' \<and> trie_ok H' ws pats \<and> m_AlphabetSize H' = m_AlphabetSize H \<and>
    (\<forall>n < length ws. fail_ok H' ws n)"
proof -
  have "bfs_inv H ws 0 [0]"
    using assms(2) ok_root [OF assms(1)] by (simp add: bfs_inv_def fail_ok_def)
  then show ?thesis unfolding InitFailureFunction_def by (rule failure_loop_spec [OF _ assms(1)])
qed

section \<open>Reading a text finds every occurrence\<close>

text \<open>The automaton after \<open>trie_Create\<close>.\<close>

definition automaton :: "CTrieHolder \<Rightarrow> symbol list list \<Rightarrow> symbol list list \<Rightarrow> bool" where
  "automaton H ws pats \<longleftrightarrow>
     trie_ok H ws pats \<and> (\<forall>n < length ws. fail_ok H ws n) \<and> [] \<notin> set pats \<and> (\<forall>w \<in> set ws. length w < 2 ^ 8)"

lemma trie_Create_automaton:
  assumes "patterns_ok (length Info) Patterns"
  shows "\<exists>H' ws. trie_Create Patterns Info H = Some H' \<and> automaton H' ws (map rhs Patterns) \<and>
    m_AlphabetSize H' = length Info"
proof -
  let ?H = "H\<lparr>m_AlphabetSize := length Info\<rparr>"
  obtain ws where ws: "trie_ok (CreateTrie Patterns ?H) ws (map rhs Patterns)"
      "m_AlphabetSize (CreateTrie Patterns ?H) = length Info"
      "m_FailureFunction (m_Nodes (CreateTrie Patterns ?H) ! 0) = - 1"
    using CreateTrie_ok [of ?H Patterns] assms by auto
  obtain H' where H': "InitFailureFunction (CreateTrie Patterns ?H) = Some H'" "trie_ok H' ws (map rhs Patterns)"
      "m_AlphabetSize H' = length Info" "\<forall>n < length ws. fail_ok H' ws n"
    using InitFailureFunction_spec [OF ws(1,3)] ws(2) by auto
  have "[] \<notin> set (map rhs Patterns)" using assms by (auto simp: patterns_ok_def)
  moreover have "length w < 2 ^ 8" if "w \<in> set ws" for w
  proof -
    have "w = [] \<or> (\<exists>P \<in> set Patterns. prefix w (rhs P))"
      using that H'(2) by (auto simp: trie_ok_def pattern_prefixes_def)
    then show ?thesis using assms by (auto simp: patterns_ok_def dest: prefix_length_le intro: le_less_trans)
  qed
  moreover have "Patterns \<noteq> []" using assms by (simp add: patterns_ok_def)
  ultimately show ?thesis using H' by (auto simp: trie_Create_def automaton_def)
qed

lemma GetTerminatedPeriodNext_spec:
  assumes "automaton H ws pats" "n < length ws" "n \<noteq> 0"
  shows "GetTerminatedPeriodNext H (int n) = Some
    (let b = longest_in (set ws) (tl (ws ! n)) in if b = [] then - 1 else trie_no ws b)"
proof -
  have ok: "trie_ok H ws pats" and links: "\<And>k. k < length ws \<Longrightarrow> fail_ok H ws k"
    using assms(1) by (auto simp: automaton_def)
  have "spells (m_Nodes H) ws" using ok by (simp add: trie_ok_def)
  then obtain p c where p: "p < n" "ws ! n = ws ! p @ [c]" "m_Parent (m_Nodes H ! n) = int p" "m_IncomingSymbol (m_Nodes H ! n) = int c"
    using spells_child assms(2,3) by blast
  have "p < length ws" using p(1) assms(2) by simp
  then obtain r where "follow_failure H (int c) (m_FailureFunction (m_Nodes H ! p)) = Some r"
      "followed H ws c (longest_in (set ws) (tl (ws ! p @ [c]))) r"
    using child_failure [OF ok] links by blast
  then show ?thesis using assms(3) p by (auto simp: GetTerminatedPeriodNext_def followed_def Let_def)
qed

lemma report_periods_none [simp]: "report_periods H i (- 1) occ = Some occ"
  by (subst report_periods.simps) simp

lemma report_periods_spec:
  fixes occ :: "'i COccurrence list"
  assumes "automaton H ws pats" "q \<in> set ws"
  shows "report_periods H i (trie_no ws q) occ = Some (occ @ suffix_occurrences pats i q)"
  using assms(2)
proof (induction q arbitrary: occ rule: length_induct)
  case (1 q)
  have ok: "trie_ok H ws pats" using assms(1) by (simp add: automaton_def)
  obtain n where n: "trie_no ws q = int n" "n < length ws" "ws ! n = q" using trie_no_in [OF 1(2)] .
  have rule: "m_GrammarRuleNo (m_Nodes H ! n) = trie_no pats q" using ok n by (simp add: trie_ok_def)
  show ?case
  proof (cases "q = []")
    case True
    then have "n = 0" using ok_empty_iff [OF ok n(2)] n(3) by simp
    moreover have "trie_no pats q = - 1" using True assms(1) by (simp add: automaton_def)
    ultimately show ?thesis
      using n rule True by (subst report_periods.simps) (simp add: GetTerminatedPeriodNext_def)
  next
    case False
    then have n0: "n \<noteq> 0" using ok_empty_iff [OF ok n(2)] n(3) by simp
    obtain x w where q: "q = x # w" using False by (cases q) auto
    let ?b = "longest_in (set ws) w"
    let ?here = "(case position pats q of Some k \<Rightarrow> [occurrence (i + 1 - length q) (i + 1) k] | None \<Rightarrow> []) :: 'i COccurrence list"
    have "m_Depth (m_Nodes H ! n) = word_of_nat (length q)" "length q < 2 ^ 8"
      using assms(1) ok n 1(2) by (auto simp: automaton_def trie_ok_def spells_def node_spells_def)
    then have depth: "unat (m_Depth (m_Nodes H ! n)) = length q" by (simp add: unat_of_nat)
    have subset: "set pats \<subseteq> set ws" using ok pattern_is_prefix by (auto simp: trie_ok_def)
    have rest: "suffix_occurrences pats i w = (suffix_occurrences pats i ?b :: 'i COccurrence list)"
      by (simp add: suffix_occurrences_longest [OF subset])
    have b: "?b \<in> set ws" by (rule prefix_closed.longest_in_mem [OF ok_closed [OF ok]])
    have lb: "length ?b < length q" using longest_in_length [of "set ws" w] q by simp
    have here: "(if m_GrammarRuleNo (m_Nodes H ! n) \<noteq> - 1
        then occ @ [occurrence (i + 1 - unat (m_Depth (m_Nodes H ! n))) (i + 1) (nat (m_GrammarRuleNo (m_Nodes H ! n)))] else occ) =
        occ @ ?here"
      unfolding rule depth by (auto simp: trie_no_def split: option.split)
    have "report_periods H i (int n) occ =
        report_periods H i (if ?b = [] then - 1 else trie_no ws ?b) (occ @ ?here)"
      using GetTerminatedPeriodNext_spec [OF assms(1) n(2) n0] here n(3) q
      by (subst report_periods.simps) (simp add: Let_def)
    also have "\<dots> = Some ((occ @ ?here) @ suffix_occurrences pats i ?b)"
      using 1(1) lb b by (cases "?b = []") auto
    also have "\<dots> = Some (occ @ ?here @ suffix_occurrences pats i w)" using rest by simp
    also have "?here @ suffix_occurrences pats i w = suffix_occurrences pats i q" unfolding q by simp
    finally show ?thesis using n(1) by simp
  qed
qed

lemma NextState_spec:
  assumes "automaton H ws pats" "q \<in> set ws"
  shows "NextState H (trie_no ws q) i (int c) occ =
    Some (trie_no ws (longest_in (set ws) (q @ [c])), occ @ suffix_occurrences pats i (longest_in (set ws) (q @ [c])))"
proof -
  have ok: "trie_ok H ws pats" using assms(1) by (simp add: automaton_def)
  let ?b = "longest_in (set ws) (q @ [c])"
  obtain r where r: "follow_failure H (int c) (trie_no ws q) = Some r" "followed H ws c ?b r"
    using follow_failure_spec [OF ok assms(2), of c] assms(1) unfolding automaton_def by blast
  have "?b \<in> set ws" by (rule prefix_closed.longest_in_mem [OF ok_closed [OF ok]])
  then have "report_periods H i (trie_no ws ?b) occ = Some (occ @ suffix_occurrences pats i ?b)"
    by (rule report_periods_spec [OF assms(1)])
  moreover have "(if r = - 1 then 0 else trie_FindChild H r (int c)) = trie_no ws ?b"
    using r(2) ok_root [OF ok] by (auto simp: followed_def split: if_splits)
  ultimately show ?thesis using r(1) by (simp add: NextState_def Let_def)
qed

text \<open>What a naive search reports: for each end position, the suffixes that are patterns.\<close>

definition naive_occurrences :: "symbol list list \<Rightarrow> symbol list \<Rightarrow> 'i COccurrence list" where
  "naive_occurrences pats Text =
     concat (map (\<lambda>i. suffix_occurrences pats i (take (i + 1) Text)) [0..<length Text])"

lemma naive_occurrences_snoc:
  "naive_occurrences pats (Text @ [c]) =
     naive_occurrences pats Text @ suffix_occurrences pats (length Text) (Text @ [c])"
proof -
  have "map (\<lambda>i. suffix_occurrences pats i (take (i + 1) (Text @ [c]))) [0..<length Text] =
      map (\<lambda>i. suffix_occurrences pats i (take (i + 1) Text)) [0..<length Text]"
    by (rule map_cong) auto
  then have "concat (map (\<lambda>i. suffix_occurrences pats i (take (i + 1) (Text @ [c]))) [0..<length Text]) =
      naive_occurrences pats Text"
    unfolding naive_occurrences_def by (rule arg_cong)
  then show ?thesis by (simp add: naive_occurrences_def [of pats "Text @ [c]"] del: take_append)
qed

lemma read_text_append:
  "read_text H i (Text @ [c]) r occ =
     do { (r, occ) \<leftarrow> read_text H i Text r occ; NextState H r (i + length Text) c occ }"
proof (induction Text arbitrary: i r occ)
  case Nil
  then show ?case by (cases "NextState H r i c occ") auto
next
  case (Cons d Text)
  then show ?case by (cases "NextState H r i d occ") auto
qed

lemma read_text_spec:
  assumes "automaton H ws pats"
  shows "read_text H 0 (map int Text) 0 [] =
    Some (trie_no ws (longest_in (set ws) Text), naive_occurrences pats Text)"
proof (induction Text rule: rev_induct)
  case Nil
  then show ?case using ok_root [of H ws pats] assms by (simp add: automaton_def naive_occurrences_def)
next
  case (snoc c Text)
  have ok: "trie_ok H ws pats" using assms by (simp add: automaton_def)
  note cl = ok_closed [OF ok]
  have subset: "set pats \<subseteq> set ws" using ok pattern_is_prefix by (auto simp: trie_ok_def)
  show ?case
    by (simp add: snoc read_text_append naive_occurrences_snoc suffix_occurrences_longest [OF subset]
        NextState_spec [OF assms prefix_closed.longest_in_mem [OF cl]]
        flip: prefix_closed.longest_in_snoc [OF cl])
qed

text \<open>An occurrence in the list of the naive search, in terms of the text.\<close>

lemma suffix_occurrences_iff:
  "C \<in> set (suffix_occurrences pats i w) \<longleftrightarrow>
     (\<exists>v k. v \<noteq> [] \<and> suffix v w \<and> position pats v = Some k \<and> C = occurrence (i + 1 - length v) (i + 1) k)"
proof (induction w)
  case (Cons x w)
  let ?P = "\<lambda>v. v \<noteq> [] \<and> (\<exists>k. position pats v = Some k \<and> C = occurrence (i + 1 - length v) (i + 1) k)"
  have "C \<in> set (suffix_occurrences pats i (x # w)) \<longleftrightarrow> ?P (x # w) \<or> C \<in> set (suffix_occurrences pats i w)"
    by (cases "position pats (x # w)") simp_all
  also have "\<dots> \<longleftrightarrow> (\<exists>v. suffix v (x # w) \<and> ?P v)"
    using Cons by (auto simp: suffix_Cons)
  finally show ?case by blast
qed simp

lemma naive_occurrences_iff:
  "C \<in> set (naive_occurrences pats Text) \<longleftrightarrow>
     (\<exists>s e k. s < e \<and> e \<le> length Text \<and> position pats (drop s (take e Text)) = Some k \<and> C = occurrence s e k)"
  (is "?L \<longleftrightarrow> ?R")
proof
  assume ?L
  then obtain i v k where i: "i < length Text" "v \<noteq> []" "suffix v (take (i + 1) Text)" "position pats v = Some k"
      "C = occurrence (i + 1 - length v) (i + 1) k"
    unfolding naive_occurrences_def by (auto simp: suffix_occurrences_iff)
  obtain zs where zs: "take (i + 1) Text = zs @ v" using i(3) by (auto simp: suffix_def)
  moreover have "length (take (i + 1) Text) = i + 1" using i(1) by simp
  ultimately have "v = drop (i + 1 - length v) (take (i + 1) Text)" by simp
  then show ?R using i suffix_length_le [OF i(3)] by (intro exI [of _ "i + 1 - length v"] exI [of _ "i + 1"] exI [of _ k]) auto
next
  assume ?R
  then obtain s e k where s: "s < e" "e \<le> length Text" "position pats (drop s (take e Text)) = Some k" "C = occurrence s e k"
    by blast
  then have "C \<in> set (suffix_occurrences pats (e - 1) (take (e - 1 + 1) Text))"
    unfolding suffix_occurrences_iff
    by (intro exI [of _ "drop s (take e Text)"] exI [of _ k]) (auto simp: suffix_drop)
  then show ?L using s(1,2) unfolding naive_occurrences_def by (auto intro!: bexI [of _ "e - 1"])
qed

section \<open>The main result\<close>

definition sample_patterns :: "CWorkRule list" where
  "sample_patterns =
     map (\<lambda>(n, w). \<lparr>m_OriginalRuleNo = n, m_LeftPart = 9, m_RightPart = \<lparr>m_Items = w, m_SynMainItemNo = 0\<rparr>\<rparr>)
       [(0, [0, 1]), (1, [0, 1, 2]), (2, [1]), (3, [1, 2, 2])]"

lemma sample_patterns_ok: "patterns_ok 3 sample_patterns"
proof -
  have "work_rule.ordered sample_patterns"
    by (simp add: sample_patterns_def work_rule_less_def right_part_eq_def right_part_less_def)
  then show ?thesis by (auto simp: patterns_ok_def sample_patterns_def)
qed

lemma sample_patterns_found:
  "naive_occurrences (map rhs sample_patterns) [0, 1, 2, 2] =
    [occurrence 0 2 0, occurrence 1 2 2, occurrence 0 3 1, occurrence 1 4 3]"
  by (simp add: naive_occurrences_def sample_patterns_def occurrence_def upt_rec)

text \<open>
  C21. \<^verbatim>\<open>CTrieHolder\<close> finds exactly the occurrences of its patterns: for every ordered set of non-empty
  patterns of fewer than 256 symbols over the alphabet, building the trie and its failure function ends,
  and on every text \<^verbatim>\<open>GetOccurrences\<close> returns the list of a naive search over all start and end
  positions, in the same order. An occurrence from \<open>s\<close> to \<open>e\<close> is reported exactly if the text between
  them is a pattern, with the number of the first such pattern.
\<close>

theorem GetOccurrences_correct:
  assumes "patterns_ok (length Info) Patterns"
  shows "\<exists>T. trie_Create Patterns Info H = Some T \<and>
    (\<forall>Text. GetOccurrences T (map int Text) = Some (naive_occurrences (map rhs Patterns) Text :: 'i COccurrence list)) \<and>
    (\<forall>Text (C :: 'i COccurrence). C \<in> set (the (GetOccurrences T (map int Text))) \<longleftrightarrow>
      (\<exists>s e k. s < e \<and> e \<le> length Text \<and> position (map rhs Patterns) (drop s (take e Text)) = Some k \<and> C = occurrence s e k))"
proof -
  obtain T ws where T: "trie_Create Patterns Info H = Some T" "automaton T ws (map rhs Patterns)"
    using trie_Create_automaton [OF assms] by blast
  have "GetOccurrences T (map int Text) = Some (naive_occurrences (map rhs Patterns) Text :: 'i COccurrence list)" for Text
    by (simp add: GetOccurrences_def read_text_spec [OF T(2)])
  then show ?thesis using T(1) by (simp add: naive_occurrences_iff)
qed

theorem GetOccurrences_correct_witness:
  "\<exists>T. trie_Create sample_patterns [(0, ''a''), (1, ''b''), (2, ''c'')] \<lparr>m_AlphabetSize = 0, m_Nodes = [], m_ChildrenAux = [], m_Children = []\<rparr> = Some T \<and>
    GetOccurrences T [0, 1, 2, 2] = Some [occurrence 0 2 0 :: nat COccurrence, occurrence 1 2 2, occurrence 0 3 1, occurrence 1 4 3]"
proof -
  have "patterns_ok (length [(0 :: nat, ''a''), (1, ''b''), (2, ''c'')]) sample_patterns" using sample_patterns_ok by (simp add: numeral_3_eq_3)
  then obtain T where T: "trie_Create sample_patterns [(0, ''a''), (1, ''b''), (2, ''c'')] \<lparr>m_AlphabetSize = 0, m_Nodes = [], m_ChildrenAux = [], m_Children = []\<rparr> = Some T"
      "\<forall>Text. GetOccurrences T (map int Text) = Some (naive_occurrences (map rhs sample_patterns) Text :: nat COccurrence list)"
    using GetOccurrences_correct by blast
  have "map int [0, 1, 2, 2] = [0, 1, 2, 2]" by simp
  then have "GetOccurrences T [0, 1, 2, 2] = Some (naive_occurrences (map rhs sample_patterns) [0, 1, 2, 2] :: nat COccurrence list)"
    using T(2) by metis
  then show ?thesis using T(1) sample_patterns_found by auto
qed

end
