(* ===== verification/RootPrefixes.thy ===== *)
theory RootPrefixes
  imports FirstFollow TrieAutomaton "HOL-Library.Monad_Syntax"
begin

text \<open>
  \<^verbatim>\<open>CWorkGrammar::Build_FIRST_Set_k\<close> (\<^verbatim>\<open>loader.cpp\<close>): the terminal sequences of at most \<open>PrefixLength\<close>
  symbols with which a word derived from a symbol can begin, and \<^verbatim>\<open>m_RootPrefixes\<close>, those of the root
  symbols, in the form of rules for the trie.

  A prefix, a \<^verbatim>\<open>CTinyVector<int, 3>\<close> compared lexicographically, is a list of symbols, and the assertion of its
  \<^verbatim>\<open>push_back\<close> that it has fewer than 3 is modelled as a failure; the map \<^verbatim>\<open>First_k\<close> is an ordered map to ordered sets.
  For a length of 1 to 3 the loop is shown to end without a failed assertion, and the prefixes of a symbol
  are those of the words it derives, if every nonterminal derives some word.
\<close>

section \<open>The loop\<close>

type_synonym first_map = "(symbol \<times> symbol list list) list"

text \<open>The value of \<^verbatim>\<open>First_k[X]\<close>, which creates an empty entry if there is none.\<close>

definition first_set :: "first_map \<Rightarrow> symbol \<Rightarrow> symbol list list" where
  "first_set m X = (case omap_get (<) X m of Some s \<Rightarrow> s | None \<Rightarrow> [])"

definition first_entry :: "symbol \<Rightarrow> first_map \<Rightarrow> first_map" where
  "first_entry X m = (case omap_get (<) X m of Some s \<Rightarrow> m | None \<Rightarrow> omap_set (<) X [] m)"

text \<open>
  A \<^verbatim>\<open>CTinyVector\<close> is the list of its items; \<^verbatim>\<open>push_back\<close> asserts that it is not full. A failed assertion is \<open>None\<close>.
\<close>

definition CPrefix_Size :: nat where "CPrefix_Size = 3"

definition push_back :: "symbol \<Rightarrow> symbol list \<Rightarrow> symbol list option" where
  "push_back Item v = (if length v < CPrefix_Size then Some (v @ [Item]) else None)"

fun push_back_all :: "symbol list \<Rightarrow> symbol list \<Rightarrow> symbol list option" where
  "push_back_all [] v = Some v"
| "push_back_all (Item # Items) v = Option.bind (push_back Item v) (push_back_all Items)"

text \<open>The body of the loop over \<^verbatim>\<open>ThisRuleResult\<close>, with the two assertions on \<^verbatim>\<open>UpdatedPrefix\<close>.\<close>

definition extend_prefix :: "nat \<Rightarrow> symbol list \<Rightarrow> symbol list \<Rightarrow> symbol list option" where
  "extend_prefix PrefixLength Addition Prefix =
     (if length Prefix < PrefixLength
      then do {
        UpdatedPrefix \<leftarrow> push_back_all (take (min (length Addition) (PrefixLength - length Prefix)) Addition) Prefix;
        if UpdatedPrefix \<noteq> [] \<and> length UpdatedPrefix \<le> PrefixLength then Some UpdatedPrefix else None
      }
      else Some Prefix)"

text \<open>The two loops over \<^verbatim>\<open>Additions\<close> and \<^verbatim>\<open>ThisRuleResult\<close>.\<close>

fun extend_all :: "nat \<Rightarrow> symbol list list \<Rightarrow> symbol list list \<Rightarrow> symbol list list \<Rightarrow> symbol list list option" where
  "extend_all PrefixLength [] ThisRuleResult NewRuleResult = Some NewRuleResult"
| "extend_all PrefixLength (Addition # Additions) ThisRuleResult NewRuleResult =
     do {
       Set \<leftarrow> those (map (extend_prefix PrefixLength Addition) ThisRuleResult);
       extend_all PrefixLength Additions ThisRuleResult (oset_insert_all (<) (oset_insert_all (<) Set []) NewRuleResult)
     }"

text \<open>The loop over the first symbols of a right part.\<close>

fun rule_prefixes ::
  "('a CWorkGrammar_scheme) \<Rightarrow> nat \<Rightarrow> symbol list \<Rightarrow> first_map \<Rightarrow> symbol list list \<Rightarrow> (first_map \<times> symbol list list) option" where
  "rule_prefixes G PrefixLength [] First_k ThisRuleResult = Some (First_k, ThisRuleResult)"
| "rule_prefixes G PrefixLength (SymbolNo # Symbols) First_k ThisRuleResult =
     do {
       (First_k, Additions) \<leftarrow>
         (if is_meta G SymbolNo then Some (first_entry SymbolNo First_k, first_set First_k SymbolNo)
          else map_option (\<lambda>P. (First_k, oset_insert (<) P [])) (push_back SymbolNo []));
       if Additions = [] then Some (First_k, [])
       else do {
         ThisRuleResult \<leftarrow> extend_all PrefixLength Additions ThisRuleResult [];
         rule_prefixes G PrefixLength Symbols First_k ThisRuleResult
       }
     }"

definition first_k_rule ::
  "('a CWorkGrammar_scheme) \<Rightarrow> nat \<Rightarrow> CWorkRule \<Rightarrow> first_map \<times> bool \<Rightarrow> (first_map \<times> bool) option" where
  "first_k_rule G PrefixLength R mc =
     do {
       (First_k, ThisRuleResult) \<leftarrow>
         rule_prefixes G PrefixLength (take (min PrefixLength (length (rhs R))) (rhs R)) (fst mc) (oset_insert (<) [] []);
       let s = first_set First_k (m_LeftPart R);
       let s' = oset_insert_all (<) ThisRuleResult s;
       Some (omap_set (<) (m_LeftPart R) s' First_k, snd mc \<or> length s \<noteq> length s')
     }"

fun first_k_rules ::
  "('a CWorkGrammar_scheme) \<Rightarrow> nat \<Rightarrow> CWorkRule list \<Rightarrow> first_map \<times> bool \<Rightarrow> (first_map \<times> bool) option" where
  "first_k_rules G PrefixLength [] mc = Some mc"
| "first_k_rules G PrefixLength (R # Rs) mc = Option.bind (first_k_rule G PrefixLength R mc) (first_k_rules G PrefixLength Rs)"

text \<open>The body of the outer loop, which a failed assertion ends.\<close>

definition first_k_pass :: "('a CWorkGrammar_scheme) \<Rightarrow> nat \<Rightarrow> first_map option \<Rightarrow> first_map option \<times> bool" where
  "first_k_pass G PrefixLength m =
     (case Option.bind m (\<lambda>m. first_k_rules G PrefixLength (m_EncodedRules G) (m, False)) of
        Some (m, bChanged) \<Rightarrow> (Some m, bChanged)
      | None \<Rightarrow> (None, False))"

text \<open>Collecting the prefixes of the roots; \<^verbatim>\<open>RuleId\<close> numbers them.\<close>

definition prefix_rule :: "symbol \<Rightarrow> nat \<Rightarrow> symbol list \<Rightarrow> CWorkRule" where
  "prefix_rule X RuleId p =
     \<lparr>m_OriginalRuleNo = RuleId, m_LeftPart = X, m_RightPart = \<lparr>m_Items = p, m_SynMainItemNo = 0\<rparr>\<rparr>"

definition add_root_prefix :: "symbol \<Rightarrow> symbol list \<Rightarrow> nat \<times> CWorkRule list \<Rightarrow> nat \<times> CWorkRule list" where
  "add_root_prefix X p s = (fst s + 1, oset_insert work_rule_less (prefix_rule X (fst s) p) (snd s))"

definition collect_prefixes :: "('a CWorkGrammar_scheme) \<Rightarrow> first_map \<Rightarrow> CWorkRule list \<Rightarrow> CWorkRule list" where
  "collect_prefixes G First_k RootPrefixes =
     snd (fold (\<lambda>(X, s) acc.
         if m_bGrammarRoot (m_UniqueGrammarItems G ! X) then fold (add_root_prefix X) s acc else acc)
       First_k (0, RootPrefixes))"

definition Build_FIRST_Set_k :: "nat \<Rightarrow> ('a CWorkGrammar_scheme) \<Rightarrow> ('a CWorkGrammar_scheme) option" where
  "Build_FIRST_Set_k PrefixLength G =
     do {
       First_k \<leftarrow> changed_loop (first_k_pass G PrefixLength) (Some []);
       First_k \<leftarrow> First_k;
       Some (G\<lparr>m_RootPrefixes := collect_prefixes G First_k (m_RootPrefixes G)\<rparr>)
     }"

section \<open>The loop on lists of any length\<close>

text \<open>The same loop without the assertions; they are shown to hold when \<open>PrefixLength\<close> is at most the capacity.\<close>

definition extended_prefix :: "nat \<Rightarrow> symbol list \<Rightarrow> symbol list \<Rightarrow> symbol list" where
  "extended_prefix PrefixLength Addition Prefix =
     (if length Prefix < PrefixLength
      then Prefix @ take (min (length Addition) (PrefixLength - length Prefix)) Addition else Prefix)"

text \<open>The two loops over \<^verbatim>\<open>Additions\<close> and \<^verbatim>\<open>ThisRuleResult\<close>.\<close>

definition extended_all :: "nat \<Rightarrow> symbol list list \<Rightarrow> symbol list list \<Rightarrow> symbol list list" where
  "extended_all PrefixLength Additions ThisRuleResult =
     fold (\<lambda>Addition NewRuleResult. oset_insert_all (<)
         (oset_insert_all (<) (map (extended_prefix PrefixLength Addition) ThisRuleResult) []) NewRuleResult)
       Additions []"

text \<open>The loop over the first symbols of a right part.\<close>

fun rule_prefix_lists ::
  "('a CWorkGrammar_scheme) \<Rightarrow> nat \<Rightarrow> symbol list \<Rightarrow> first_map \<Rightarrow> symbol list list \<Rightarrow> first_map \<times> symbol list list" where
  "rule_prefix_lists G PrefixLength [] First_k ThisRuleResult = (First_k, ThisRuleResult)"
| "rule_prefix_lists G PrefixLength (SymbolNo # Symbols) First_k ThisRuleResult =
     (let (First_k, Additions) =
            (if is_meta G SymbolNo then (first_entry SymbolNo First_k, first_set First_k SymbolNo)
             else (First_k, oset_insert (<) [SymbolNo] []))
      in if Additions = [] then (First_k, [])
         else rule_prefix_lists G PrefixLength Symbols First_k (extended_all PrefixLength Additions ThisRuleResult))"

definition first_k_rule_lists ::
  "('a CWorkGrammar_scheme) \<Rightarrow> nat \<Rightarrow> CWorkRule \<Rightarrow> first_map \<times> bool \<Rightarrow> first_map \<times> bool" where
  "first_k_rule_lists G PrefixLength R mc =
     (let (First_k, ThisRuleResult) =
            rule_prefix_lists G PrefixLength (take (min PrefixLength (length (rhs R))) (rhs R)) (fst mc) (oset_insert (<) [] []);
          s = first_set First_k (m_LeftPart R);
          s' = oset_insert_all (<) ThisRuleResult s
      in (omap_set (<) (m_LeftPart R) s' First_k, snd mc \<or> length s \<noteq> length s'))"

definition first_k_pass_lists :: "('a CWorkGrammar_scheme) \<Rightarrow> nat \<Rightarrow> first_map \<Rightarrow> first_map \<times> bool" where
  "first_k_pass_lists G PrefixLength m = fold (first_k_rule_lists G PrefixLength) (m_EncodedRules G) (m, False)"

section \<open>Sets of words\<close>

interpretation wordset: key_order "(<) :: symbol list \<Rightarrow> symbol list \<Rightarrow> bool" "\<lambda>w. w"
  by unfold_locales simp

lemma set_word_insert [simp]: "set (oset_insert (<) (w :: symbol list) s) = insert w (set s)"
  by (rule wordset.set_insert_inj) simp

lemma set_word_insert_all [simp]: "set (oset_insert_all (<) (ws :: symbol list list) s) = set ws \<union> set s"
  by (rule wordset.set_insert_all_inj) simp

lemma word_insert_all_length:
  assumes "wordset.ordered s"
  shows "length (oset_insert_all (<) ws s) = length s \<longleftrightarrow> set ws \<subseteq> set s"
proof -
  have "length s = card (set s)" "length (oset_insert_all (<) ws s) = card (set (oset_insert_all (<) ws s))"
    using assms wordset.ordered_distinct wordset.ordered_insert_all [OF assms] distinct_card by metis+
  then have "length (oset_insert_all (<) ws s) = length s \<longleftrightarrow> card (set ws \<union> set s) = card (set s)" by simp
  also have "\<dots> \<longleftrightarrow> set ws \<subseteq> set s"
    by (metis List.finite_set card_subset_eq finite_Un sup.absorb_iff2 sup.cobounded2)
  finally show ?thesis .
qed

lemma set_extend_all: "set (extended_all k adds this) = {extended_prefix k a p |a p. a \<in> set adds \<and> p \<in> set this}"
proof -
  have "set (fold (\<lambda>a new. oset_insert_all (<) (oset_insert_all (<) (map (extended_prefix k a) this) []) new) adds acc) =
      {extended_prefix k a p |a p. a \<in> set adds \<and> p \<in> set this} \<union> set acc" for acc
  proof (induction adds arbitrary: acc)
    case (Cons a adds)
    show ?case unfolding fold_simps Cons by auto
  qed simp
  then show ?thesis by (simp add: extended_all_def)
qed

lemma extended_prefix_take: "length p \<le> k \<Longrightarrow> extended_prefix k a p = take k (p @ a)"
  by (auto simp: extended_prefix_def min_def)

section \<open>What one rule contributes\<close>

text \<open>The prefixes a map has for a symbol, a terminal having itself.\<close>

definition symbol_prefixes :: "('a CWorkGrammar_scheme) \<Rightarrow> (symbol \<Rightarrow> symbol list set) \<Rightarrow> symbol \<Rightarrow> symbol list set" where
  "symbol_prefixes G F Y = (if is_meta G Y then F Y else {[Y]})"

definition joined :: "('a CWorkGrammar_scheme) \<Rightarrow> nat \<Rightarrow> (symbol \<Rightarrow> symbol list set) \<Rightarrow> symbol list \<Rightarrow> symbol list set" where
  "joined G k F Ys = {take k (concat ps) |ps. list_all2 (\<lambda>Y p. p \<in> symbol_prefixes G F Y) Ys ps}"

definition map_sets :: "first_map \<Rightarrow> symbol \<Rightarrow> symbol list set" where
  "map_sets m X = set (first_set m X)"

lemma map_sets_entry [simp]: "map_sets (first_entry X m) = map_sets m"
  by (rule ext) (auto simp: map_sets_def first_set_def first_entry_def natset.get_set split: option.splits)

lemma map_sets_set: "map_sets (omap_set (<) X s m) = (map_sets m)(X := set s)"
  by (rule ext) (simp add: map_sets_def first_set_def natset.get_set)

lemma rule_prefix_lists_spec:
  assumes "\<forall>p \<in> set this. length p \<le> k"
  shows "map_sets (fst (rule_prefix_lists G k Ys m this)) = map_sets m \<and>
    set (snd (rule_prefix_lists G k Ys m this)) =
      {take k (p @ concat ps) |p ps. p \<in> set this \<and> list_all2 (\<lambda>Y p. p \<in> symbol_prefixes G (map_sets m) Y) Ys ps}"
  using assms
proof (induction Ys arbitrary: m this)
  case Nil
  then show ?case by force
next
  case (Cons Y Ys)
  let ?m = "if is_meta G Y then first_entry Y m else m"
  let ?adds = "if is_meta G Y then first_set m Y else oset_insert (<) [Y] []"
  have adds: "set ?adds = symbol_prefixes G (map_sets m) Y" by (simp add: symbol_prefixes_def map_sets_def)
  have ms: "map_sets ?m = map_sets m" by simp
  have eq: "rule_prefix_lists G k (Y # Ys) m this =
      (if ?adds = [] then (?m, []) else rule_prefix_lists G k Ys ?m (extended_all k ?adds this))"
    by (simp add: Let_def)
  show ?case
  proof (cases "?adds = []")
    case True
    then have "symbol_prefixes G (map_sets m) Y = {}" using adds by (metis set_empty)
    then show ?thesis using True ms unfolding eq by (simp add: list_all2_Cons1)
  next
    case False
    let ?new = "extended_all k ?adds this"
    have new: "set ?new = {take k (p @ a) |p a. p \<in> set this \<and> a \<in> symbol_prefixes G (map_sets m) Y}"
    proof -
      have "extended_prefix k a p = take k (p @ a)" if "p \<in> set this" for a p
        using that Cons.prems extended_prefix_take by blast
      then have "(\<exists>a p. x = extended_prefix k a p \<and> a \<in> A \<and> p \<in> set this) \<longleftrightarrow>
          (\<exists>p a. x = take k (p @ a) \<and> p \<in> set this \<and> a \<in> A)" for x A by metis
      then show ?thesis unfolding set_extend_all adds by simp
    qed
    then have short: "\<forall>p \<in> set ?new. length p \<le> k" by auto
    have tk: "take k (take k u @ v) = take k (u @ v)" for u v :: "symbol list" by (simp add: min_def)
    have "{take k (q @ concat ps) |q ps. q \<in> set ?new \<and> list_all2 (\<lambda>Y p. p \<in> symbol_prefixes G (map_sets m) Y) Ys ps} =
        {take k (p @ concat ps) |p ps. p \<in> set this \<and> list_all2 (\<lambda>Y p. p \<in> symbol_prefixes G (map_sets m) Y) (Y # Ys) ps}"
      (is "?L = ?R")
    proof (intro equalityI subsetI)
      fix x assume "x \<in> ?L"
      then obtain p a ps where x: "x = take k (take k (p @ a) @ concat ps)" "p \<in> set this"
          "a \<in> symbol_prefixes G (map_sets m) Y" "list_all2 (\<lambda>Y p. p \<in> symbol_prefixes G (map_sets m) Y) Ys ps"
        unfolding new by auto
      have "x = take k (p @ concat (a # ps))" unfolding x(1) tk by simp
      then show "x \<in> ?R" using x(2-4) by (intro CollectI exI [of _ p] exI [of _ "a # ps"]) simp
    next
      fix x assume "x \<in> ?R"
      then obtain p a ps where x: "x = take k (p @ concat (a # ps))" "p \<in> set this"
          "a \<in> symbol_prefixes G (map_sets m) Y" "list_all2 (\<lambda>Y p. p \<in> symbol_prefixes G (map_sets m) Y) Ys ps"
        by (auto simp: list_all2_Cons1)
      have "x = take k (take k (p @ a) @ concat ps)" unfolding x(1) tk by simp
      then show "x \<in> ?L" unfolding new using x(2-4) by blast
    qed
    then show ?thesis using Cons.IH [OF short, of ?m] ms False unfolding eq by simp
  qed
qed

lemma rule_prefix_lists_joined:
  "map_sets (fst (rule_prefix_lists G k Ys m (oset_insert (<) [] []))) = map_sets m"
  "set (snd (rule_prefix_lists G k Ys m (oset_insert (<) [] []))) = joined G k (map_sets m) Ys"
  using rule_prefix_lists_spec [of "oset_insert (<) [] []" k G Ys m] by (simp_all add: joined_def)

definition map_ok :: "first_map \<Rightarrow> bool" where
  "map_ok m \<longleftrightarrow> natset.ordered (map fst m) \<and> (\<forall>X. wordset.ordered (first_set m X))"

lemma first_set_entry [simp]: "first_set (first_entry X m) Y = first_set m Y"
  by (auto simp: first_set_def first_entry_def natset.get_set split: option.splits)

lemma map_ok_entry: "map_ok m \<Longrightarrow> map_ok (first_entry X m)"
  by (auto simp: map_ok_def natset.ordered_set first_entry_def [of X m] split: option.splits)
    (metis first_entry_def first_set_entry option.simps(4))

lemma map_ok_set: "map_ok m \<Longrightarrow> wordset.ordered s \<Longrightarrow> map_ok (omap_set (<) X s m)"
  by (auto simp: map_ok_def natset.ordered_set first_set_def natset.get_set)

lemma map_ok_rule_prefixes: "map_ok m \<Longrightarrow> map_ok (fst (rule_prefix_lists G k Ys m this))"
  by (induction Ys arbitrary: m this) (auto simp: Let_def map_ok_entry)

text \<open>The effect of one rule on the sets.\<close>

definition rule_sets :: "('a CWorkGrammar_scheme) \<Rightarrow> nat \<Rightarrow> CWorkRule \<Rightarrow> (symbol \<Rightarrow> symbol list set) \<Rightarrow> symbol list set" where
  "rule_sets G k R F = joined G k F (take k (rhs R))"

lemma take_min_length: "take (min k (length xs)) xs = take k xs"
  by (simp add: min_def)

lemma first_k_rule_lists_spec:
  assumes "map_ok m"
  shows "map_ok (fst (first_k_rule_lists G k R (m, c)))"
    and "map_sets (fst (first_k_rule_lists G k R (m, c))) =
      (map_sets m)(m_LeftPart R := rule_sets G k R (map_sets m) \<union> map_sets m (m_LeftPart R))"
    and "snd (first_k_rule_lists G k R (m, c)) \<longleftrightarrow> c \<or> \<not> rule_sets G k R (map_sets m) \<subseteq> map_sets m (m_LeftPart R)"
proof -
  let ?p = "rule_prefix_lists G k (take k (rhs R)) m (oset_insert (<) [] [])"
  let ?s = "first_set (fst ?p) (m_LeftPart R)"
  let ?s' = "oset_insert_all (<) (snd ?p) ?s"
  have eq: "first_k_rule_lists G k R (m, c) = (omap_set (<) (m_LeftPart R) ?s' (fst ?p), c \<or> length ?s \<noteq> length ?s')"
    by (simp add: first_k_rule_lists_def take_min_length case_prod_unfold Let_def)
  have ok: "map_ok (fst ?p)" by (rule map_ok_rule_prefixes [OF assms])
  then have ord: "wordset.ordered ?s" by (simp add: map_ok_def)
  have contr: "set (snd ?p) = rule_sets G k R (map_sets m)" "map_sets (fst ?p) = map_sets m"
    by (simp_all only: rule_prefix_lists_joined rule_sets_def)
  have s: "set ?s = map_sets m (m_LeftPart R)" using contr(2) by (metis map_sets_def)
  show "map_ok (fst (first_k_rule_lists G k R (m, c)))"
    unfolding eq using map_ok_set [OF ok wordset.ordered_insert_all [OF ord]] by simp
  show "map_sets (fst (first_k_rule_lists G k R (m, c))) =
      (map_sets m)(m_LeftPart R := rule_sets G k R (map_sets m) \<union> map_sets m (m_LeftPart R))"
    unfolding eq fst_conv map_sets_set set_word_insert_all contr s by (rule refl)
  show "snd (first_k_rule_lists G k R (m, c)) \<longleftrightarrow> c \<or> \<not> rule_sets G k R (map_sets m) \<subseteq> map_sets m (m_LeftPart R)"
    unfolding eq using word_insert_all_length [OF ord, of "snd ?p"] contr s by auto
qed

section \<open>The loop computes the least solution\<close>

text \<open>The prefixes of a symbol, as the least relation closed under the rules.\<close>

inductive prefix_of :: "('a CWorkGrammar_scheme) \<Rightarrow> nat \<Rightarrow> symbol \<Rightarrow> symbol list \<Rightarrow> bool" for G k where
  prefix_rule_of: "R \<in> set (m_EncodedRules G) \<Longrightarrow> length ps = length (take k (rhs R)) \<Longrightarrow>
     \<forall>i < length ps. (if is_meta G (rhs R ! i) then prefix_of G k (rhs R ! i) (ps ! i) else ps ! i = [rhs R ! i]) \<Longrightarrow>
     prefix_of G k (m_LeftPart R) (take k (concat ps))"

definition prefixes_of :: "('a CWorkGrammar_scheme) \<Rightarrow> nat \<Rightarrow> symbol \<Rightarrow> symbol list set" where
  "prefixes_of G k X = {p. prefix_of G k X p}"

lemma list_all2_nth_iff:
  "(\<And>i. i < length xs \<Longrightarrow> xs ! i = f i) \<Longrightarrow>
     list_all2 P xs ps \<longleftrightarrow> length ps = length xs \<and> (\<forall>i < length ps. P (f i) (ps ! i))"
  by (auto simp: list_all2_conv_all_nth)

lemma rule_sets_iff:
  "x \<in> rule_sets G k R F \<longleftrightarrow>
     (\<exists>ps. length ps = length (take k (rhs R)) \<and> x = take k (concat ps) \<and>
        (\<forall>i < length ps. ps ! i \<in> symbol_prefixes G F (rhs R ! i)))"
proof -
  have "list_all2 (\<lambda>Y p. p \<in> symbol_prefixes G F Y) (take k (rhs R)) ps \<longleftrightarrow>
      length ps = length (take k (rhs R)) \<and> (\<forall>i < length ps. ps ! i \<in> symbol_prefixes G F (rhs R ! i))" for ps
    by (rule list_all2_nth_iff) simp
  then show ?thesis unfolding rule_sets_def joined_def mem_Collect_eq by (intro iff_exI) blast
qed

lemma rule_sets_prefixes:
  assumes "R \<in> set (m_EncodedRules G)" "\<And>X. F X \<subseteq> prefixes_of G k X"
  shows "rule_sets G k R F \<subseteq> prefixes_of G k (m_LeftPart R)"
proof
  fix x assume "x \<in> rule_sets G k R F"
  then obtain ps where ps: "length ps = length (take k (rhs R))" "x = take k (concat ps)"
      "\<forall>i < length ps. ps ! i \<in> symbol_prefixes G F (rhs R ! i)"
    unfolding rule_sets_iff by blast
  have "\<forall>i < length ps. (if is_meta G (rhs R ! i) then prefix_of G k (rhs R ! i) (ps ! i) else ps ! i = [rhs R ! i])"
  proof (intro allI impI)
    fix i assume "i < length ps"
    then have "ps ! i \<in> symbol_prefixes G F (rhs R ! i)" using ps(3) by blast
    then show "if is_meta G (rhs R ! i) then prefix_of G k (rhs R ! i) (ps ! i) else ps ! i = [rhs R ! i]"
      using assms(2) [of "rhs R ! i"] by (auto simp: symbol_prefixes_def prefixes_of_def split: if_splits)
  qed
  then show "x \<in> prefixes_of G k (m_LeftPart R)"
    using prefix_rule_of [OF assms(1) ps(1)] ps(2) by (simp add: prefixes_of_def)
qed

lemma closed_prefixes:
  assumes "\<And>R. R \<in> set (m_EncodedRules G) \<Longrightarrow> rule_sets G k R F \<subseteq> F (m_LeftPart R)"
  shows "prefix_of G k X p \<Longrightarrow> p \<in> F X"
proof (induction rule: prefix_of.induct)
  case (prefix_rule_of R ps)
  then have "\<forall>i < length ps. ps ! i \<in> symbol_prefixes G F (rhs R ! i)" by (auto simp: symbol_prefixes_def)
  then have "take k (concat ps) \<in> rule_sets G k R F"
    using prefix_rule_of.hyps(2) unfolding rule_sets_iff by blast
  then show ?case using assms prefix_rule_of.hyps(1) by blast
qed

lemma prefix_of_bounds:
  "prefix_of G k X p \<Longrightarrow>
     X \<in> m_LeftPart ` set (m_EncodedRules G) \<and> length p \<le> k \<and> set p \<subseteq> (\<Union>R \<in> set (m_EncodedRules G). set (rhs R))"
proof (induction rule: prefix_of.induct)
  case (prefix_rule_of R ps)
  have "set (ps ! i) \<subseteq> (\<Union>R \<in> set (m_EncodedRules G). set (rhs R))" if i: "i < length ps" for i
  proof (cases "is_meta G (rhs R ! i)")
    case True
    then show ?thesis using prefix_rule_of.IH i by auto
  next
    case False
    then have "ps ! i = [rhs R ! i]" "rhs R ! i \<in> set (rhs R)" using prefix_rule_of i by auto
    then show ?thesis using prefix_rule_of.hyps(1) by auto
  qed
  then have "\<forall>p \<in> set ps. set p \<subseteq> (\<Union>R \<in> set (m_EncodedRules G). set (rhs R))" by (metis in_set_conv_nth)
  then have "set (concat ps) \<subseteq> (\<Union>R \<in> set (m_EncodedRules G). set (rhs R))" by auto
  then show ?case using prefix_rule_of.hyps(1) set_take_subset [of k "concat ps"] by auto
qed

text \<open>A pass: it only adds prefixes, and one that changes nothing means that the sets are closed.\<close>

definition map_rel :: "first_map \<Rightarrow> (symbol \<times> symbol list) set" where
  "map_rel m = {(X, p). p \<in> map_sets m X}"

definition first_k_inv :: "('a CWorkGrammar_scheme) \<Rightarrow> nat \<Rightarrow> first_map \<Rightarrow> bool" where
  "first_k_inv G k m \<longleftrightarrow> map_ok m \<and> (\<forall>X. map_sets m X \<subseteq> prefixes_of G k X)"

lemma first_k_rules_spec:
  assumes "set Rs \<subseteq> set (m_EncodedRules G)" "first_k_inv G k m"
  shows "first_k_inv G k (fst (fold (first_k_rule_lists G k) Rs (m, c))) \<and>
    map_rel m \<subseteq> map_rel (fst (fold (first_k_rule_lists G k) Rs (m, c))) \<and>
    (c \<longrightarrow> snd (fold (first_k_rule_lists G k) Rs (m, c))) \<and>
    (\<not> c \<and> snd (fold (first_k_rule_lists G k) Rs (m, c)) \<longrightarrow> map_rel m \<noteq> map_rel (fst (fold (first_k_rule_lists G k) Rs (m, c)))) \<and>
    (\<not> snd (fold (first_k_rule_lists G k) Rs (m, c)) \<longrightarrow>
       map_sets (fst (fold (first_k_rule_lists G k) Rs (m, c))) = map_sets m \<and>
       (\<forall>R \<in> set Rs. rule_sets G k R (map_sets m) \<subseteq> map_sets m (m_LeftPart R)))"
  using assms
proof (induction Rs arbitrary: m c)
  case Nil
  then show ?case by simp
next
  case (Cons R Rs)
  obtain m1 c1 where r: "first_k_rule_lists G k R (m, c) = (m1, c1)" by fastforce
  have ok: "map_ok m" and sub: "\<And>X. map_sets m X \<subseteq> prefixes_of G k X" using Cons.prems(2) by (auto simp: first_k_inv_def)
  let ?new = "rule_sets G k R (map_sets m)"
  have one: "map_ok m1" "map_sets m1 = (map_sets m)(m_LeftPart R := ?new \<union> map_sets m (m_LeftPart R))"
      "c1 \<longleftrightarrow> c \<or> \<not> ?new \<subseteq> map_sets m (m_LeftPart R)"
    using first_k_rule_lists_spec [OF ok, of G k R c] r by simp_all
  have "?new \<subseteq> prefixes_of G k (m_LeftPart R)" using rule_sets_prefixes [OF _ sub] Cons.prems(1) by simp
  then have inv: "first_k_inv G k m1" using one(1,2) sub by (auto simp: first_k_inv_def)
  have grow: "map_rel m \<subseteq> map_rel m1" by (auto simp: map_rel_def one(2))
  have change: "map_rel m \<noteq> map_rel m1" if "\<not> ?new \<subseteq> map_sets m (m_LeftPart R)"
  proof -
    obtain p where "p \<in> ?new" "p \<notin> map_sets m (m_LeftPart R)" using \<open>\<not> ?new \<subseteq> map_sets m (m_LeftPart R)\<close> by blast
    then have "(m_LeftPart R, p) \<in> map_rel m1" "(m_LeftPart R, p) \<notin> map_rel m" by (auto simp: map_rel_def one(2))
    then show ?thesis by blast
  qed
  have same: "map_sets m1 = map_sets m" if "?new \<subseteq> map_sets m (m_LeftPart R)"
    using that one(2) by (auto simp: fun_eq_iff)
  have sub': "set Rs \<subseteq> set (m_EncodedRules G)" using Cons.prems(1) by simp
  let ?r = "fold (first_k_rule_lists G k) Rs (m1, c1)"
  have IH: "first_k_inv G k (fst ?r)" "map_rel m1 \<subseteq> map_rel (fst ?r)" "c1 \<longrightarrow> snd ?r"
      "\<not> c1 \<and> snd ?r \<longrightarrow> map_rel m1 \<noteq> map_rel (fst ?r)"
      "\<not> snd ?r \<longrightarrow> map_sets (fst ?r) = map_sets m1 \<and>
         (\<forall>R \<in> set Rs. rule_sets G k R (map_sets m1) \<subseteq> map_sets m1 (m_LeftPart R))"
    using Cons.IH [OF sub' inv, of c1] by blast+
  have "map_rel m \<noteq> map_rel (fst ?r)" if "\<not> c" "snd ?r"
  proof (cases c1)
    case True
    then have "map_rel m \<noteq> map_rel m1" using one(3) that(1) change by blast
    then show ?thesis using grow IH(2) by blast
  next
    case False
    then show ?thesis using IH(2,4) grow that(2) by blast
  qed
  moreover have "map_sets (fst ?r) = map_sets m \<and> (\<forall>R \<in> set (R # Rs). rule_sets G k R (map_sets m) \<subseteq> map_sets m (m_LeftPart R))"
    if "\<not> snd ?r"
  proof -
    have "\<not> c1" using IH(3) that by blast
    then have "?new \<subseteq> map_sets m (m_LeftPart R)" using one(3) by blast
    then show ?thesis using IH(5) that same by simp
  qed
  moreover have "fold (first_k_rule_lists G k) (R # Rs) (m, c) = ?r" by (simp only: fold_simps r)
  moreover have "c \<longrightarrow> snd ?r" using IH(3) one(3) by blast
  ultimately show ?case using IH(1,2) grow by (metis (no_types) subset_trans)
qed

text \<open>
  The loop \<open>changed_loop\<close> for a pass that may touch its state without reporting it, here by creating
  empty entries: it ends when the reported changes decrease a measure and the others do not increase it.
\<close>

lemma changed_loop_ends:
  assumes pass: "\<And>s. J s \<Longrightarrow> J (fst (pass s)) \<and> m (fst (pass s)) \<le> (m s :: nat)"
    and changed: "\<And>s. J s \<Longrightarrow> snd (pass s) \<Longrightarrow> m (fst (pass s)) < m s" and start: "J s0"
  shows "\<exists>s t. changed_loop pass s0 = Some t \<and> J s \<and> pass s = (t, False)"
proof -
  define I where "I sc \<longleftrightarrow> J (fst sc) \<and> (\<not> snd sc \<longrightarrow> (\<exists>s. J s \<and> pass s = sc))" for sc
  define f where "f sc = 2 * m (fst sc) + (if snd sc then 1 else 0)" for sc
  have step: "I (pass (fst sc))" if "I sc" for sc using that pass by (auto simp: I_def)
  have dec: "f (pass (fst sc)) < f sc" if "I sc" "snd sc" for sc
    using that pass [of "fst sc"] changed [of "fst sc"] by (cases "snd (pass (fst sc))") (auto simp: I_def f_def)
  have I0: "I (s0, True)" using start by (simp add: I_def)
  have "\<exists>tc. while_option snd (\<lambda>sc. pass (fst sc)) (s0, True) = Some tc"
    by (rule measure_while_option_Some [where P = I and f = f]) (use step dec I0 in auto)
  then obtain tc where tc: "while_option snd (\<lambda>sc. pass (fst sc)) (s0, True) = Some tc" by blast
  have "I tc" by (rule while_option_rule [OF _ tc]) (use step I0 in auto)
  moreover have "\<not> snd tc" by (rule while_option_stop [OF tc])
  ultimately show ?thesis using tc by (cases tc) (auto simp: changed_loop_def I_def)
qed

lemma first_k_loop:
  "\<exists>m. changed_loop (first_k_pass_lists G k) [] = Some m \<and> map_ok m \<and> (\<forall>X. map_sets m X = prefixes_of G k X)"
proof -
  let ?U = "m_LeftPart ` set (m_EncodedRules G) \<times> {p. set p \<subseteq> (\<Union>R \<in> set (m_EncodedRules G). set (rhs R)) \<and> length p \<le> k}"
  have fin: "finite ?U" by (intro finite_cartesian_product finite_lists_length_le) auto
  have within: "map_rel m \<subseteq> ?U" if "first_k_inv G k m" for m
  proof
    fix x assume "x \<in> map_rel m"
    then have "snd x \<in> map_sets m (fst x)" by (auto simp: map_rel_def)
    then have "prefix_of G k (fst x) (snd x)" using that unfolding first_k_inv_def prefixes_of_def by blast
    then show "x \<in> ?U" using prefix_of_bounds [of G k "fst x" "snd x"] by (cases x) simp
  qed
  note rules = first_k_rules_spec [OF subset_refl, of G k]
  have pass: "first_k_inv G k (fst (first_k_pass_lists G k m)) \<and> map_rel m \<subseteq> map_rel (fst (first_k_pass_lists G k m)) \<and>
      (snd (first_k_pass_lists G k m) \<longrightarrow> map_rel m \<noteq> map_rel (fst (first_k_pass_lists G k m)))"
    if "first_k_inv G k m" for m
    using rules [OF that, of False] by (simp add: first_k_pass_lists_def)
  have ends: "\<exists>s t. changed_loop (first_k_pass_lists G k) [] = Some t \<and> first_k_inv G k s \<and> first_k_pass_lists G k s = (t, False)"
  proof (rule changed_loop_ends [where J = "first_k_inv G k" and m = "\<lambda>m. card (?U - map_rel m)"])
    show "first_k_inv G k (fst (first_k_pass_lists G k s)) \<and> card (?U - map_rel (fst (first_k_pass_lists G k s))) \<le> card (?U - map_rel s)"
      if "first_k_inv G k s" for s
      using pass [OF that] fin by (auto intro!: card_mono)
    show "card (?U - map_rel (fst (first_k_pass_lists G k s))) < card (?U - map_rel s)"
      if "first_k_inv G k s" "snd (first_k_pass_lists G k s)" for s
    proof (rule psubset_card_mono)
      show "finite (?U - map_rel s)" using fin by simp
      show "?U - map_rel (fst (first_k_pass_lists G k s)) \<subset> ?U - map_rel s"
        using pass [OF that(1)] that(2) within [of "fst (first_k_pass_lists G k s)"] by blast
    qed
    show "first_k_inv G k []" by (simp add: first_k_inv_def map_ok_def map_sets_def first_set_def)
  qed
  then obtain s t where s: "changed_loop (first_k_pass_lists G k) [] = Some t" "first_k_inv G k s" "first_k_pass_lists G k s = (t, False)"
    by blast
  have t: "first_k_inv G k t" "map_sets t = map_sets s"
      "\<forall>R \<in> set (m_EncodedRules G). rule_sets G k R (map_sets s) \<subseteq> map_sets s (m_LeftPart R)"
    using rules [OF s(2), of False] s(3) by (simp_all add: first_k_pass_lists_def)
  have "prefixes_of G k X \<subseteq> map_sets t X" for X
    using closed_prefixes [of G k "map_sets s"] t(2,3) by (auto simp: prefixes_of_def)
  then show ?thesis using s(1) t(1) by (auto simp: first_k_inv_def)
qed

section \<open>Prefixes of derived words\<close>

definition terminal_word :: "('a CWorkGrammar_scheme) \<Rightarrow> symbol list \<Rightarrow> bool" where
  "terminal_word G w \<longleftrightarrow> (\<forall>a \<in> set w. \<not> is_meta G a)"

text \<open>Every nonterminal derives a word.\<close>

definition productive :: "('a CWorkGrammar_scheme) \<Rightarrow> bool" where
  "productive G \<longleftrightarrow> (\<forall>X. is_meta G X \<longrightarrow> (\<exists>w. derives G [X] w \<and> terminal_word G w))"

lemma derives_concat:
  "length ws = length Ys \<Longrightarrow> \<forall>i < length Ys. derives G [Ys ! i] (ws ! i) \<Longrightarrow> derives G Ys (concat ws)"
proof (induction ws Ys rule: list_induct2)
  case (Cons w ws Y Ys)
  have "derives G [Y] w" using Cons.prems by (metis length_Cons nth_Cons_0 zero_less_Suc)
  then have "derives G ([Y] @ Ys) (w @ Ys)" using derives_context [of G "[Y]" w "[]" Ys] by simp
  moreover have "\<forall>i < length Ys. derives G [Ys ! i] (ws ! i)" using Cons.prems by fastforce
  then have "derives G (w @ Ys) (w @ concat ws)" using Cons.IH derives_context [of G Ys "concat ws" w "[]"] by simp
  ultimately show ?case by (metis append_Cons append_Nil concat.simps(2) rtranclp_trans)
qed simp

lemma derives_nonempty:
  assumes "wf_grammar G" "derives G u v" "u \<noteq> []"
  shows "length u \<le> length v"
  using assms(2,3)
proof (induction rule: rtranclp_induct)
  case (step v w)
  obtain R p s where R: "R \<in> set (m_EncodedRules G)" "v = p @ m_LeftPart R # s" "w = p @ rhs R @ s"
    using step.hyps(2) by (auto simp: derives1_def)
  obtain a b where "rhs R = a # b" using wf_grammar_ruleD(1) [OF assms(1) R(1)] by (cases "rhs R") auto
  then show ?case using step R(2,3) by simp
qed simp

lemma take_concat_take:
  "take k (concat (map (take k) ws)) = take k (concat ws)"
proof (induction ws arbitrary: k)
  case (Cons w ws)
  have "take k (take k w @ concat (map (take k) ws)) = take k (w @ take k (concat (map (take k) ws)))"
    by (simp add: min_def)
  then show ?case using Cons [of k] by (simp add: min_def)
qed simp

lemma take_concat_nonempty:
  "\<forall>w \<in> set ws. w \<noteq> [] \<Longrightarrow> take k (concat (take k ws)) = take k (concat ws)"
proof (induction ws arbitrary: k)
  case (Cons w ws)
  show ?case
  proof (cases k)
    case (Suc m)
    have "take (Suc m - length w) (concat (take m ws)) = take (Suc m - length w) (concat ws)"
    proof -
      have le: "Suc m - length w \<le> m" using Cons.prems by (cases w) auto
      have "take m (concat (take m ws)) = take m (concat ws)" using Cons by simp
      then have "take (Suc m - length w) (take m (concat (take m ws))) = take (Suc m - length w) (take m (concat ws))" by simp
      then show ?thesis using le by (simp add: min_absorb1)
    qed
    then show ?thesis using Suc by simp
  qed simp
qed simp

lemma prefix_of_nonempty:
  assumes "wf_grammar G" "0 < k"
  shows "prefix_of G k X p \<Longrightarrow> p \<noteq> []"
proof (induction rule: prefix_of.induct)
  case (prefix_rule_of R ps)
  have "rhs R \<noteq> []" using wf_grammar_ruleD(1) [OF assms(1) prefix_rule_of.hyps(1)] .
  then have "0 < length ps" using prefix_rule_of.hyps(2) assms(2) by simp
  moreover from this have "ps ! 0 \<noteq> []" using prefix_rule_of.IH by (auto split: if_splits)
  ultimately have "concat ps \<noteq> []" by (cases ps) auto
  then show ?case using assms(2) by simp
qed

section \<open>The capacity suffices\<close>

lemma push_back_all_eq: "length v + length Items \<le> CPrefix_Size \<Longrightarrow> push_back_all Items v = Some (v @ Items)"
  by (induction Items arbitrary: v) (simp_all add: push_back_def)

lemma extend_prefix_eq:
  assumes "k \<le> CPrefix_Size" "Addition \<noteq> []"
  shows "extend_prefix k Addition p = Some (extended_prefix k Addition p)"
proof (cases "length p < k")
  case True
  let ?xs = "take (min (length Addition) (k - length p)) Addition"
  have "length p + length ?xs \<le> k" using True by simp
  moreover have "?xs \<noteq> []" using True assms(2) by simp
  ultimately show ?thesis using push_back_all_eq [of p ?xs] assms(1) True by (simp add: extend_prefix_def extended_prefix_def)
qed (simp add: extend_prefix_def extended_prefix_def)

lemma those_map_Some: "those (map (\<lambda>x. Some (g x)) xs) = Some (map g xs)"
  by (induction xs) simp_all

lemma extend_all_eq:
  assumes "k \<le> CPrefix_Size" "\<forall>a \<in> set Additions. a \<noteq> []"
  shows "extend_all k Additions this [] = Some (extended_all k Additions this)"
proof -
  have "extend_all k Additions this New = Some (fold (\<lambda>Addition NewRuleResult. oset_insert_all (<)
      (oset_insert_all (<) (map (extended_prefix k Addition) this) []) NewRuleResult) Additions New)" for New
    using assms(2)
  proof (induction Additions arbitrary: New)
    case (Cons a as)
    then have "extend_prefix k a = (\<lambda>p. Some (extended_prefix k a p))" using extend_prefix_eq [OF assms(1)] by auto
    then show ?case using Cons by (simp add: those_map_Some)
  qed simp
  then show ?thesis by (simp add: extended_all_def)
qed

lemma rule_prefixes_eq:
  assumes "k \<le> CPrefix_Size" "\<forall>Y. [] \<notin> map_sets m Y"
  shows "rule_prefixes G k Ys m this = Some (rule_prefix_lists G k Ys m this)"
  using assms(2)
proof (induction Ys arbitrary: m this)
  case (Cons Y Ys)
  let ?m = "if is_meta G Y then first_entry Y m else m"
  let ?adds = "if is_meta G Y then first_set m Y else oset_insert (<) [Y] []"
  have "set ?adds = symbol_prefixes G (map_sets m) Y" by (simp add: symbol_prefixes_def map_sets_def)
  then have "[] \<notin> set ?adds" using Cons.prems by (simp add: symbol_prefixes_def)
  then have adds: "\<forall>a \<in> set ?adds. a \<noteq> []" by metis
  have "\<forall>Y. [] \<notin> map_sets ?m Y" using Cons.prems by simp
  note IH = Cons.IH [OF this]
  have push: "push_back Y [] = Some [Y]" by (simp add: push_back_def CPrefix_Size_def)
  have "rule_prefixes G k (Y # Ys) m this = (if ?adds = [] then Some (?m, [])
      else Option.bind (extend_all k ?adds this []) (rule_prefixes G k Ys ?m))"
    by (simp add: push)
  then show ?case using extend_all_eq [OF assms(1) adds] IH by (simp add: Let_def)
qed simp

lemma first_k_rule_eq:
  assumes "k \<le> CPrefix_Size" "\<forall>Y. [] \<notin> map_sets m Y"
  shows "first_k_rule G k R (m, c) = Some (first_k_rule_lists G k R (m, c))"
  by (simp add: first_k_rule_def first_k_rule_lists_def Let_def case_prod_unfold rule_prefixes_eq [OF assms])

lemma first_k_inv_nonempty:
  assumes "wf_grammar G" "0 < k" "first_k_inv G k m"
  shows "\<forall>Y. [] \<notin> map_sets m Y"
proof (intro allI notI)
  fix Y assume "[] \<in> map_sets m Y"
  then have "prefix_of G k Y []" using assms(3) by (auto simp: first_k_inv_def prefixes_of_def)
  then show False using prefix_of_nonempty [OF assms(1,2)] by blast
qed

lemma first_k_rules_eq:
  assumes "wf_grammar G" "0 < k" "k \<le> CPrefix_Size"
  shows "set Rs \<subseteq> set (m_EncodedRules G) \<Longrightarrow> first_k_inv G k m \<Longrightarrow>
    first_k_rules G k Rs (m, c) = Some (fold (first_k_rule_lists G k) Rs (m, c))"
proof (induction Rs arbitrary: m c)
  case (Cons R Rs)
  obtain m1 c1 where r: "first_k_rule_lists G k R (m, c) = (m1, c1)" by fastforce
  have "first_k_inv G k (fst (fold (first_k_rule_lists G k) [R] (m, c)))"
    using first_k_rules_spec [of "[R]" G k m c] Cons.prems by simp
  then have "first_k_inv G k m1" by (simp add: r)
  then show ?case
    using Cons by (simp add: r first_k_rule_eq [OF assms(3) first_k_inv_nonempty [OF assms(1,2) Cons.prems(2)]])
qed simp

lemma first_k_loop_eq:
  assumes "wf_grammar G" "0 < k" "k \<le> CPrefix_Size"
  shows "changed_loop (first_k_pass G k) (Some []) = map_option Some (changed_loop (first_k_pass_lists G k) [])"
proof -
  let ?f = "\<lambda>mc :: first_map \<times> bool. (Some (fst mc), snd mc)"
  have pass: "first_k_pass G k (Some m) = ?f (first_k_pass_lists G k m)" if "first_k_inv G k m" for m
    using first_k_rules_eq [OF assms subset_refl that, of False]
    by (simp add: first_k_pass_def first_k_pass_lists_def split: prod.split)
  have keeps: "first_k_inv G k (fst (first_k_pass_lists G k m))" if "first_k_inv G k m" for m
    using first_k_rules_spec [OF subset_refl that, of False] by (simp add: first_k_pass_lists_def)
  have loops: "map_option ?f (while_option snd (\<lambda>mc. first_k_pass_lists G k (fst mc)) ([], True)) =
      while_option snd (\<lambda>mc. first_k_pass G k (fst mc)) (?f ([], True))"
  proof (rule while_option_commute_invariant [where P = "\<lambda>mc. first_k_inv G k (fst mc)"])
    show "first_k_inv G k (fst ([], True))" by (simp add: first_k_inv_def map_ok_def map_sets_def first_set_def)
  qed (simp_all add: pass keeps)
  have start: "(Some [], True) = ?f ([], True)" by simp
  show ?thesis unfolding changed_loop_def start loops [symmetric] by (simp add: option.map_comp comp_def)
qed

text \<open>A prefix is the beginning of a derived word.\<close>

lemma terminal_word_concat: "terminal_word G (concat ws) \<longleftrightarrow> (\<forall>w \<in> set ws. terminal_word G w)"
  by (auto simp: terminal_word_def)

lemma prefix_of_derives:
  assumes "wf_grammar G" "0 < k" "productive G"
  shows "prefix_of G k X p \<Longrightarrow> \<exists>w. derives G [X] w \<and> terminal_word G w \<and> p = take k w"
proof (induction rule: prefix_of.induct)
  case (prefix_rule_of R ps)
  have "\<exists>w. derives G [rhs R ! i] w \<and> terminal_word G w \<and> (i < length ps \<longrightarrow> ps ! i = take k w)" for i
  proof (cases "is_meta G (rhs R ! i)")
    case True
    then show ?thesis using prefix_rule_of.IH assms(3) unfolding productive_def by (cases "i < length ps") auto
  next
    case False
    then have "terminal_word G [rhs R ! i] \<and> (i < length ps \<longrightarrow> ps ! i = take k [rhs R ! i])"
      using prefix_rule_of.IH assms(2) by (auto simp: terminal_word_def take_Cons')
    then show ?thesis by blast
  qed
  then obtain f where f: "\<And>i. derives G [rhs R ! i] (f i)" "\<And>i. terminal_word G (f i)"
      "\<And>i. i < length ps \<Longrightarrow> ps ! i = take k (f i)" by metis
  let ?ws = "map f [0..<length (rhs R)]"
  have d: "derives G (rhs R) (concat ?ws)" by (rule derives_concat) (simp_all add: f(1))
  have "f i \<noteq> []" for i using derives_nonempty [OF assms(1) f(1) [of i]] by auto
  then have ne: "\<forall>w \<in> set ?ws. w \<noteq> []" by simp
  have "ps = map (take k) (take k ?ws)"
    by (rule nth_equalityI) (use prefix_rule_of.hyps(2) f(3) in auto)
  then have "take k (concat ps) = take k (concat ?ws)"
    using take_concat_take [of k "take k ?ws"] take_concat_nonempty [OF ne, of k] by simp
  moreover have "derives G [m_LeftPart R] (concat ?ws)"
    using derives_rule [OF prefix_rule_of.hyps(1)] d by (rule rtranclp_trans)
  moreover have "terminal_word G (concat ?ws)" by (simp add: terminal_word_concat f(2))
  ultimately show ?case by blast
qed

text \<open>The beginning of a derived word is a prefix, symbol by symbol of the form it is derived from.\<close>

definition prefixes_for :: "('a CWorkGrammar_scheme) \<Rightarrow> nat \<Rightarrow> symbol list \<Rightarrow> symbol list list \<Rightarrow> bool" where
  "prefixes_for G k Ys ps \<longleftrightarrow>
     list_all2 (\<lambda>Y p. if is_meta G Y then prefix_of G k Y p else p = [Y]) Ys ps"

lemma derives_prefixes:
  assumes "wf_grammar G" "0 < k" "derives G Ys w" "terminal_word G w"
  shows "\<exists>ps. prefixes_for G k Ys ps \<and> take k w = take k (concat ps)"
  using assms(3)
proof (induction rule: converse_rtranclp_induct)
  case base
  have "prefixes_for G k w (map (\<lambda>a. [a]) w)"
    using assms(4) by (auto simp: prefixes_for_def terminal_word_def list_all2_conv_all_nth)
  moreover have "concat (map (\<lambda>a. [a]) w) = w" by (induction w) auto
  ultimately show ?case by metis
next
  case (step Ys Zs)
  obtain R a b where R: "R \<in> set (m_EncodedRules G)" "Ys = a @ m_LeftPart R # b" "Zs = a @ rhs R @ b"
    using step.hyps(1) by (auto simp: derives1_def)
  obtain ps where ps: "prefixes_for G k Zs ps" "take k w = take k (concat ps)" using step.IH by blast
  obtain pa pr pb where p: "ps = pa @ pr @ pb" "prefixes_for G k a pa" "prefixes_for G k (rhs R) pr" "prefixes_for G k b pb"
    using ps(1) unfolding R(3) prefixes_for_def list_all2_append1 by auto
  let ?q = "take k (concat (take k pr))"
  have nth: "if is_meta G (rhs R ! i) then prefix_of G k (rhs R ! i) (pr ! i) else pr ! i = [rhs R ! i]"
    if "i < length pr" for i
    using p(3) that by (simp add: prefixes_for_def list_all2_conv_all_nth)
  have "prefix_of G k (m_LeftPart R) ?q"
  proof (rule prefix_rule_of [OF R(1)])
    show "length (take k pr) = length (take k (rhs R))" using p(3) by (auto simp: prefixes_for_def dest: list_all2_lengthD)
    show "\<forall>i < length (take k pr). if is_meta G (rhs R ! i) then prefix_of G k (rhs R ! i) (take k pr ! i)
        else take k pr ! i = [rhs R ! i]" using nth by simp
  qed
  moreover have "is_meta G (m_LeftPart R)" by (rule wf_grammar_ruleD(2) [OF assms(1) R(1)])
  ultimately have "prefixes_for G k Ys (pa @ ?q # pb)"
    using p(2,4) unfolding R(2) prefixes_for_def by (simp add: list_all2_appendI)
  moreover have "take k (concat ps) = take k (concat (pa @ ?q # pb))"
  proof -
    have "\<forall>q \<in> set pr. q \<noteq> []"
    proof
      fix q assume "q \<in> set pr"
      then obtain i where "i < length pr" "q = pr ! i" by (metis in_set_conv_nth)
      then show "q \<noteq> []" using nth [of i] prefix_of_nonempty [OF assms(1,2)] by (auto split: if_splits)
    qed
    then have "take k (concat pr) = ?q" using take_concat_nonempty by metis
    moreover have "take k (u @ take k v @ x) = take k (u @ v @ x)" for u v x :: "symbol list"
      by (induction u arbitrary: k) (simp_all add: min_def take_Cons')
    ultimately show ?thesis by (metis concat.simps(2) concat_append p(1) append_assoc)
  qed
  ultimately show ?case using ps(2) by metis
qed

lemma prefix_of_iff:
  assumes "wf_grammar G" "0 < k" "productive G" "is_meta G X"
  shows "prefix_of G k X p \<longleftrightarrow> (\<exists>w. derives G [X] w \<and> terminal_word G w \<and> p = take k w)"
proof
  assume "\<exists>w. derives G [X] w \<and> terminal_word G w \<and> p = take k w"
  then obtain w where w: "derives G [X] w" "terminal_word G w" "p = take k w" by blast
  obtain ps where "prefixes_for G k [X] ps" "take k w = take k (concat ps)"
    using derives_prefixes [OF assms(1,2) w(1,2)] by blast
  then obtain q where "prefix_of G k X q" "take k w = take k q"
    using assms(4) by (auto simp: prefixes_for_def list_all2_Cons1)
  moreover from this have "take k q = q" using prefix_of_bounds [of G k X q] by simp
  ultimately show "prefix_of G k X p" using w(3) by simp
qed (rule prefix_of_derives [OF assms(1-3)])

section \<open>The prefixes of the roots\<close>

lemma add_root_prefixes:
  "work_rule_key ` set (snd (fold (add_root_prefix X) s acc)) = (\<lambda>p. ((p, 0), X)) ` set s \<union> work_rule_key ` set (snd acc)"
  "work_rule.ordered (snd acc) \<Longrightarrow> work_rule.ordered (snd (fold (add_root_prefix X) s acc))"
proof (induction s arbitrary: acc)
  case (Cons p s)
  have one: "snd (add_root_prefix X p acc) = oset_insert work_rule_less (prefix_rule X (fst acc) p) (snd acc)" for acc
    by (simp add: add_root_prefix_def)
  have key: "work_rule_key (prefix_rule X n p) = ((p, 0), X)" for n by (simp add: key_defs prefix_rule_def)
  { case 1 show ?case unfolding fold_simps Cons.IH(1) one work_rule.keys_insert key by auto }
  { case 2 then show ?case unfolding fold_simps using Cons.IH(2) one work_rule.ordered_insert by metis }
qed auto

definition root_pairs :: "('a CWorkGrammar_scheme) \<Rightarrow> first_map \<Rightarrow> (symbol list \<times> symbol) set" where
  "root_pairs G m = {(p, X). m_bGrammarRoot (m_UniqueGrammarItems G ! X) \<and> (\<exists>s. (X, s) \<in> set m \<and> p \<in> set s)}"

lemma collect_prefixes_spec:
  "work_rule_key ` set (collect_prefixes G m P) = (\<lambda>(p, X). ((p, 0), X)) ` root_pairs G m \<union> work_rule_key ` set P"
  "work_rule.ordered P \<Longrightarrow> work_rule.ordered (collect_prefixes G m P)"
proof -
  let ?f = "\<lambda>(X, s) acc. if m_bGrammarRoot (m_UniqueGrammarItems G ! X) then fold (add_root_prefix X) s acc else acc"
  have "work_rule_key ` set (snd (fold ?f m acc)) = (\<lambda>(p, X). ((p, 0), X)) ` root_pairs G m \<union> work_rule_key ` set (snd acc) \<and>
      (work_rule.ordered (snd acc) \<longrightarrow> work_rule.ordered (snd (fold ?f m acc)))" for acc
  proof (induction m arbitrary: acc)
    case Nil
    then show ?case by (simp add: root_pairs_def)
  next
    case (Cons e m)
    obtain X s where e: "e = (X, s)" by fastforce
    have pairs: "root_pairs G (e # m) =
        (if m_bGrammarRoot (m_UniqueGrammarItems G ! X) then (\<lambda>p. (p, X)) ` set s else {}) \<union> root_pairs G m"
      by (auto simp: root_pairs_def e)
    show ?case
    proof (cases "m_bGrammarRoot (m_UniqueGrammarItems G ! X)")
      case True
      have "work_rule_key ` set (snd (fold ?f (e # m) acc)) =
          (\<lambda>(p, X). ((p, 0), X)) ` root_pairs G m \<union> ((\<lambda>p. ((p, 0), X)) ` set s \<union> work_rule_key ` set (snd acc))"
        using Cons [of "fold (add_root_prefix X) s acc"] add_root_prefixes(1) [of X s acc] True by (simp add: e)
      moreover have "work_rule.ordered (snd acc) \<longrightarrow> work_rule.ordered (snd (fold ?f (e # m) acc))"
        using Cons [of "fold (add_root_prefix X) s acc"] add_root_prefixes(2) [of acc X s] True by (simp add: e)
      ultimately show ?thesis unfolding pairs using True by (auto simp: image_Un image_image)
    next
      case False
      then show ?thesis unfolding pairs using Cons [of acc] by (simp add: e)
    qed
  qed
  from this [of "(0, P)"] show
    "work_rule_key ` set (collect_prefixes G m P) = (\<lambda>(p, X). ((p, 0), X)) ` root_pairs G m \<union> work_rule_key ` set P"
    "work_rule.ordered P \<Longrightarrow> work_rule.ordered (collect_prefixes G m P)"
    by (simp_all add: collect_prefixes_def)
qed

lemma root_pairs_spec:
  assumes "map_ok m" "\<forall>X. map_sets m X = prefixes_of G k X"
  shows "root_pairs G m = {(p, X). m_bGrammarRoot (m_UniqueGrammarItems G ! X) \<and> prefix_of G k X p}"
proof -
  have "(\<exists>s. (X, s) \<in> set m \<and> p \<in> set s) \<longleftrightarrow> prefix_of G k X p" for X p
  proof -
    have "prefix_of G k X p \<longleftrightarrow> p \<in> set (first_set m X)" using assms(2) unfolding map_sets_def prefixes_of_def by blast
    also have "\<dots> \<longleftrightarrow> (\<exists>s. omap_get (<) X m = Some s \<and> p \<in> set s)"
      by (cases "omap_get (<) X m") (simp_all add: first_set_def)
    also have "\<dots> \<longleftrightarrow> (\<exists>s. (X, s) \<in> set m \<and> p \<in> set s)"
      using natset.get_entry [of m X] natset.get_Some [of X m] assms(1) unfolding map_ok_def by blast
    finally show ?thesis by simp
  qed
  then show ?thesis unfolding root_pairs_def by simp
qed

text \<open>On every grammar the loop ends, and the stored rules are the prefixes of the roots the rules give.\<close>

lemma Build_FIRST_Set_k_spec:
  assumes "wf_grammar G" "0 < k" "k \<le> CPrefix_Size" "m_RootPrefixes G = []"
  obtains P where "Build_FIRST_Set_k k G = Some (G\<lparr>m_RootPrefixes := P\<rparr>)" "work_rule.ordered P"
    "\<forall>r \<in> set P. m_SynMainItemNo (m_RightPart r) = 0"
    "(\<lambda>r. (m_LeftPart r, rhs r)) ` set P = {(X, p). m_bGrammarRoot (m_UniqueGrammarItems G ! X) \<and> prefix_of G k X p}"
proof -
  obtain m where m: "changed_loop (first_k_pass_lists G k) [] = Some m" "map_ok m" "\<forall>X. map_sets m X = prefixes_of G k X"
    using first_k_loop by blast
  let ?P = "collect_prefixes G m []"
  have eq: "Build_FIRST_Set_k k G = Some (G\<lparr>m_RootPrefixes := ?P\<rparr>)" using m(1) assms(4) first_k_loop_eq [OF assms(1-3)] by (simp add: Build_FIRST_Set_k_def)
  have keys: "work_rule_key ` set ?P = (\<lambda>(p, X). ((p, 0), X)) ` root_pairs G m"
    using collect_prefixes_spec(1) [of G m "[]"] by simp
  have ord: "work_rule.ordered ?P" by (rule collect_prefixes_spec(2)) simp
  have "work_rule_key r \<in> (\<lambda>(p, X). ((p, 0), X)) ` root_pairs G m" if "r \<in> set ?P" for r
    using keys that by blast
  then have main: "\<forall>r \<in> set ?P. m_SynMainItemNo (m_RightPart r) = 0" by (fastforce simp: key_defs)
  have "(\<lambda>r. (m_LeftPart r, rhs r)) ` set ?P = (\<lambda>((p, n), X). (X, p)) ` work_rule_key ` set ?P"
    by (simp add: image_image key_defs)
  also have "\<dots> = (\<lambda>(p, X). (X, p)) ` root_pairs G m" unfolding keys by (simp add: image_image case_prod_unfold)
  also have "\<dots> = {(X, p). m_bGrammarRoot (m_UniqueGrammarItems G ! X) \<and> prefix_of G k X p}"
    unfolding root_pairs_spec [OF m(2,3)] by force
  finally show ?thesis using that eq ord main by blast
qed

text \<open>The bounds that the trie relies on.\<close>

lemma prefix_of_ok:
  assumes "wf_grammar G" "0 < k" "prefix_of G k X p"
  shows "p \<noteq> []" "length p \<le> k" "c \<in> set p \<Longrightarrow> c < length (m_UniqueGrammarItems G)" "is_meta G X"
  using prefix_of_nonempty [OF assms] prefix_of_bounds [OF assms(3)] wf_grammar_ruleD [OF assms(1)] by blast+

text \<open>
  C22. For a \<open>PrefixLength\<close> of 1, 2 or 3, the capacity of a prefix, no assertion of \<^verbatim>\<open>Build_FIRST_Set_k\<close> fails
  and it ends, and on a well-formed grammar in which every nonterminal derives a
  terminal word (the code does not check that) the rules it stores in \<^verbatim>\<open>m_RootPrefixes\<close> are exactly, with
  their root as left part, the beginnings of at most \<open>PrefixLength\<close> symbols of the terminal words the
  grammar roots derive, each once for its root, none longer than \<open>PrefixLength\<close>.
\<close>

theorem Build_FIRST_Set_k_correct:
  assumes "wf_grammar G" "productive G" "0 < k" "k \<le> 3" "m_RootPrefixes G = []"
  shows "\<exists>P. Build_FIRST_Set_k k G = Some (G\<lparr>m_RootPrefixes := P\<rparr>) \<and>
    distinct (map (\<lambda>r. (m_LeftPart r, rhs r)) P) \<and> (\<forall>r \<in> set P. length (rhs r) \<le> k) \<and>
    (\<lambda>r. (m_LeftPart r, rhs r)) ` set P =
      {(X, take k w) |X w. is_meta G X \<and> m_bGrammarRoot (m_UniqueGrammarItems G ! X) \<and>
         derives G [X] w \<and> (\<forall>a \<in> set w. \<not> is_meta G a)}"
proof -
  obtain P where P: "Build_FIRST_Set_k k G = Some (G\<lparr>m_RootPrefixes := P\<rparr>)" "work_rule.ordered P"
    "\<forall>r \<in> set P. m_SynMainItemNo (m_RightPart r) = 0"
    "(\<lambda>r. (m_LeftPart r, rhs r)) ` set P = {(X, p). m_bGrammarRoot (m_UniqueGrammarItems G ! X) \<and> prefix_of G k X p}"
    using Build_FIRST_Set_k_spec [OF assms(1,3) _ assms(5)] assms(4) by (auto simp: CPrefix_Size_def)
  have "inj_on (\<lambda>r. (m_LeftPart r, rhs r)) (set P)"
  proof (rule inj_onI)
    fix x y assume "x \<in> set P" "y \<in> set P" "(m_LeftPart x, rhs x) = (m_LeftPart y, rhs y)"
    then have "work_rule_key x = work_rule_key y" using P(3) by (simp add: key_defs)
    then show "x = y" using work_rule.ordered_distinct_keys [OF P(2)] \<open>x \<in> set P\<close> \<open>y \<in> set P\<close>
      by (simp add: distinct_map inj_on_def)
  qed
  then have dist: "distinct (map (\<lambda>r. (m_LeftPart r, rhs r)) P)"
    using work_rule.ordered_distinct [OF P(2)] by (simp add: distinct_map)
  have short: "\<forall>r \<in> set P. length (rhs r) \<le> k" using P(4) prefix_of_ok(2) [OF assms(1,3)] by blast
  have "{(X, p). m_bGrammarRoot (m_UniqueGrammarItems G ! X) \<and> prefix_of G k X p} =
      {(X, take k w) |X w. is_meta G X \<and> m_bGrammarRoot (m_UniqueGrammarItems G ! X) \<and>
         derives G [X] w \<and> (\<forall>a \<in> set w. \<not> is_meta G a)}"
    using prefix_of_iff [OF assms(1,3,2)] prefix_of_ok(4) [OF assms(1,3)] unfolding terminal_word_def by blast
  then show ?thesis using P(1,4) dist short by auto
qed

lemma sample_productive: "productive sample_grammar" "m_RootPrefixes sample_grammar = []"
proof -
  have "derives sample_grammar [m_LeftPart (sample_rule 1 0 [1, 2])] (rhs (sample_rule 1 0 [1, 2]))"
    by (rule derives_rule) code_simp
  then have "derives sample_grammar [0] [1, 2]" by (simp add: sample_rule_def)
  moreover have "terminal_word sample_grammar [1, 2]" by code_simp
  moreover have "X = 0" if "is_meta sample_grammar X" for X
  proof -
    have "X < 3" using that by (simp add: is_meta_def sample_grammar_def)
    then consider "X = 0" | "X = 1" | "X = 2" by linarith
    then show ?thesis
    proof cases
      case 2
      have "\<not> is_meta sample_grammar 1" by code_simp
      then show ?thesis using 2 that by simp
    next
      case 3
      have "\<not> is_meta sample_grammar 2" by code_simp
      then show ?thesis using 3 that by simp
    qed
  qed
  ultimately show "productive sample_grammar" unfolding productive_def by blast
  show "m_RootPrefixes sample_grammar = []" by code_simp
qed

theorem Build_FIRST_Set_k_correct_witness:
  "Build_FIRST_Set_k 2 sample_grammar =
     Some (sample_grammar\<lparr>m_RootPrefixes := [prefix_rule 0 0 [1, 1], prefix_rule 0 1 [1, 2]]\<rparr>) \<and>
   {(X, take 2 w) |X w. is_meta sample_grammar X \<and> m_bGrammarRoot (m_UniqueGrammarItems sample_grammar ! X) \<and>
      derives sample_grammar [X] w \<and> (\<forall>a \<in> set w. \<not> is_meta sample_grammar a)} = {(0, [1, 1]), (0, [1, 2])}"
proof -
  let ?P = "[prefix_rule 0 0 [1, 1], prefix_rule 0 1 [1, 2]]"
  have ev: "Build_FIRST_Set_k 2 sample_grammar = Some (sample_grammar\<lparr>m_RootPrefixes := ?P\<rparr>)" by code_simp
  obtain P where P: "Build_FIRST_Set_k 2 sample_grammar = Some (sample_grammar\<lparr>m_RootPrefixes := P\<rparr>)"
    "(\<lambda>r. (m_LeftPart r, rhs r)) ` set P =
      {(X, take 2 w) |X w. is_meta sample_grammar X \<and> m_bGrammarRoot (m_UniqueGrammarItems sample_grammar ! X) \<and>
         derives sample_grammar [X] w \<and> (\<forall>a \<in> set w. \<not> is_meta sample_grammar a)}"
    using Build_FIRST_Set_k_correct [OF sample_wf(2) sample_productive(1) _ _ sample_productive(2), of 2] by auto
  have "m_RootPrefixes (the (Build_FIRST_Set_k 2 sample_grammar)) = P" unfolding P(1) by simp
  then have "P = ?P" unfolding ev by simp
  then show ?thesis using ev P(2) by (simp add: prefix_rule_def)
qed

text \<open>A length above the capacity: the fourth symbol of a prefix does not fit.\<close>

lemma Build_FIRST_Set_k_capacity:
  "Build_FIRST_Set_k 4 (sample_grammar\<lparr>m_EncodedRules := [sample_rule 0 0 [1, 2, 1, 2]]\<rparr>) = None"
  "Build_FIRST_Set_k 3 (sample_grammar\<lparr>m_EncodedRules := [sample_rule 0 0 [1, 2, 1, 2]]\<rparr>) \<noteq> None"
  by code_simp+

end
