(* ===== verification/OutCount.thy ===== *)
theory OutCount
  imports FirstFollow Complex_Main
begin

text \<open>
  The extra information of rules (\<^verbatim>\<open>SDominantRecessive\<close>, \<^verbatim>\<open>SExtraRuleInfo\<close>, \<^verbatim>\<open>agreement.h\<close>) and
  \<^verbatim>\<open>CWorkGrammar::TransferOutCountFromSymbolToItsDependencies\<close> (\<^verbatim>\<open>loader.cpp\<close>), which restricts the
  number of words a symbol may span to what the symbols above it may span.

  Of \<^verbatim>\<open>SRuleExternalInformationAndAgreements\<close> only \<^verbatim>\<open>m_ExtraRuleInfo\<close> is a field here: the function reads
  and writes nothing else of it. The weight \<^verbatim>\<open>m_OutWeight\<close>, a \<^verbatim>\<open>double\<close> that is only copied and compared, is
  a rational.
\<close>

section \<open>Extra information of a rule\<close>

record SDominantRecessive =
  m_bDominant :: bool
  m_bRecessive :: bool

definition dominant_recessive_init :: SDominantRecessive where
  "dominant_recessive_init = \<lparr>m_bDominant = False, m_bRecessive = False\<rparr>"

definition dominant_recessive_eq :: "SDominantRecessive \<Rightarrow> SDominantRecessive \<Rightarrow> bool" where
  "dominant_recessive_eq x y \<longleftrightarrow> m_bDominant x = m_bDominant y \<and> m_bRecessive x = m_bRecessive y"

text \<open>The setters assign first and raise afterwards; the state they leave when they raise is lost with the exception.\<close>

definition SetDominant :: "bool \<Rightarrow> SDominantRecessive \<Rightarrow> string + SDominantRecessive" where
  "SetDominant bDom d =
     (let d = d\<lparr>m_bDominant := bDom\<rparr>
      in if m_bDominant d \<and> m_bRecessive d then Inl ''Error in \"SDominantRecessive::SetDominant\"'' else Inr d)"

definition SetRecessive :: "bool \<Rightarrow> SDominantRecessive \<Rightarrow> string + SDominantRecessive" where
  "SetRecessive bReces d =
     (let d = d\<lparr>m_bRecessive := bReces\<rparr>
      in if m_bDominant d \<and> m_bRecessive d then Inl ''Error in \"SDominantRecessive::SetRecessive\"'' else Inr d)"

definition dominant_HasValue :: "SDominantRecessive \<Rightarrow> bool" where
  "dominant_HasValue d \<longleftrightarrow> m_bRecessive d \<or> m_bDominant d"

definition MaxOutCount :: nat where
  "MaxOutCount = 1000"

record SExtraRuleInfo =
  m_OutGrammems :: "nat list"
  m_OutCount :: nat
  m_OutWeight :: rat
  m_bTrim :: bool
  m_bNotHRegFact :: bool
  m_DomReces :: SDominantRecessive

text \<open>\<^verbatim>\<open>clear\<close> does not touch \<^verbatim>\<open>m_DomReces\<close>, which the constructor of its type sets.\<close>

definition extra_clear :: "SExtraRuleInfo \<Rightarrow> SExtraRuleInfo" where
  "extra_clear x = x\<lparr>m_OutGrammems := [], m_OutCount := MaxOutCount, m_OutWeight := 1,
     m_bTrim := False, m_bNotHRegFact := False\<rparr>"

definition extra_init :: SExtraRuleInfo where
  "extra_init = extra_clear \<lparr>m_OutGrammems = [], m_OutCount = 0, m_OutWeight = 0, m_bTrim = False,
     m_bNotHRegFact = False, m_DomReces = dominant_recessive_init\<rparr>"

definition extra_eq :: "SExtraRuleInfo \<Rightarrow> SExtraRuleInfo \<Rightarrow> bool" where
  "extra_eq x y \<longleftrightarrow>
     m_OutGrammems x = m_OutGrammems y \<and> m_OutCount x = m_OutCount y \<and> m_OutWeight x = m_OutWeight y \<and>
     m_bTrim x = m_bTrim y \<and> m_bNotHRegFact x = m_bNotHRegFact y \<and>
     dominant_recessive_eq (m_DomReces x) (m_DomReces y)"

record SRuleExternalInformationAndAgreements =
  m_ExtraRuleInfo :: SExtraRuleInfo

type_synonym CRuleAgreement = "SRuleExternalInformationAndAgreements list"

section \<open>The dependencies of a symbol\<close>

text \<open>The symbols of the rules of a parent, for all parents in turn.\<close>

definition direct_rule ::
  "('a CWorkGrammar_scheme) \<Rightarrow> symbol \<Rightarrow> CWorkRule \<Rightarrow> nat list list \<times> bool \<Rightarrow> nat list list \<times> bool" where
  "direct_rule G Parent R vc =
     (if m_LeftPart R = Parent
      then fold (\<lambda>Dep vc. if is_meta G Dep then vset_insert Parent Dep vc else vc) (rhs R) vc else vc)"

definition direct_symbol ::
  "('a CWorkGrammar_scheme) \<Rightarrow> symbol \<Rightarrow> nat list list \<times> bool \<Rightarrow> nat list list \<times> bool" where
  "direct_symbol G Parent vc = (if is_meta G Parent then fold (direct_rule G Parent) (m_EncodedRules G) vc else vc)"

definition direct_deps :: "('a CWorkGrammar_scheme) \<Rightarrow> nat list list" where
  "direct_deps G =
     fst (fold (direct_symbol G) [0..<length (m_UniqueGrammarItems G)]
       (replicate (length (m_UniqueGrammarItems G)) [], False))"

text \<open>
  The loop over the set \<open>v ! Parent\<close>, which inserts into that set while it iterates over it. A symbol
  outside the vector, undefined in the source, ends the iteration.
\<close>

function dep_scan :: "nat \<Rightarrow> nat option \<Rightarrow> nat list list \<Rightarrow> nat list list" where
  "dep_scan Parent None v = v"
| "dep_scan Parent (Some x) v =
     (if x < length v
      then (let v' = fst (vset_insert_all Parent (v ! x) (v, False))
            in dep_scan Parent (oset_next (<) x (v' ! Parent)) v')
      else v)"
  by pat_completeness auto

termination
  by (relation "measure (\<lambda>(p, it, v). case it of None \<Rightarrow> 0 | Some x \<Rightarrow> Suc (length v - x))")
    (auto split: option.splits dest!: oset_next_Some)

definition dep_symbol :: "nat \<Rightarrow> nat list list \<times> bool \<Rightarrow> nat list list \<times> bool" where
  "dep_symbol Parent vc =
     (let v' = dep_scan Parent (case fst vc ! Parent of [] \<Rightarrow> None | x # _ \<Rightarrow> Some x) (fst vc)
      in (v', snd vc \<or> length (v' ! Parent) > length (fst vc ! Parent)))"

definition dep_pass :: "nat list list \<Rightarrow> nat list list \<times> bool" where
  "dep_pass v = fold dep_symbol [0..<length v] (v, False)"

section \<open>The maximal number of words\<close>

definition rule_out_count :: "CRuleAgreement \<Rightarrow> nat" where
  "rule_out_count A =
     (let c = (case List.find (\<lambda>x. m_OutCount (m_ExtraRuleInfo x) < MaxOutCount) A of
                 Some x \<Rightarrow> max 0 (m_OutCount (m_ExtraRuleInfo x)) | None \<Rightarrow> 0)
      in if c = 0 then MaxOutCount else c)"

definition symbol_out_count :: "('a CWorkGrammar_scheme) \<Rightarrow> CRuleAgreement list \<Rightarrow> symbol \<Rightarrow> nat" where
  "symbol_out_count G RuleInfos Parent =
     fold (\<lambda>R c. if m_LeftPart R = Parent then max c (rule_out_count (RuleInfos ! m_OriginalRuleNo R)) else c)
       (m_EncodedRules G) 0"

text \<open>The values for all symbols, 0 for terminals; a meta symbol without a rule raises the exception.\<close>

definition out_counts :: "('a CWorkGrammar_scheme) \<Rightarrow> CRuleAgreement list \<Rightarrow> string + nat list" where
  "out_counts G RuleInfos =
     fold (\<lambda>Parent r. case r of Inl e \<Rightarrow> Inl e
         | Inr M \<Rightarrow>
             (if is_meta G Parent
              then if symbol_out_count G RuleInfos Parent = 0
                   then Inl ''Unused meta-symbol in TransferOutCountFromSymbolToItsDependencies''
                   else Inr (M[Parent := symbol_out_count G RuleInfos Parent])
              else Inr M))
       [0..<length (m_UniqueGrammarItems G)] (Inr (replicate (length (m_UniqueGrammarItems G)) 0))"

definition lower_deps :: "('a CWorkGrammar_scheme) \<Rightarrow> nat list list \<Rightarrow> nat list \<Rightarrow> nat list" where
  "lower_deps G v M =
     fold (\<lambda>Parent M. if is_meta G Parent
         then fold (\<lambda>d M. M[d := min (M ! d) (M ! Parent)]) (v ! Parent) M else M)
       [0..<length (m_UniqueGrammarItems G)] M"

definition with_out_count :: "nat \<Rightarrow> CRuleAgreement \<Rightarrow> CRuleAgreement" where
  "with_out_count c A =
     (let A = (if A = [] then [\<lparr>m_ExtraRuleInfo = extra_init\<rparr>] else A)
      in butlast A @ [(last A)\<lparr>m_ExtraRuleInfo := (m_ExtraRuleInfo (last A))\<lparr>m_OutCount := c\<rparr>\<rparr>])"

definition write_out_count :: "nat list \<Rightarrow> CWorkRule \<Rightarrow> CRuleAgreement list \<Rightarrow> CRuleAgreement list" where
  "write_out_count M R RuleInfos =
     (if M ! m_LeftPart R \<noteq> MaxOutCount
      then RuleInfos[m_OriginalRuleNo R := with_out_count (M ! m_LeftPart R) (RuleInfos ! m_OriginalRuleNo R)]
      else RuleInfos)"

text \<open>The whole function; the outer option is \<open>None\<close> if the loop of the closure does not end.\<close>

definition TransferOutCountFromSymbolToItsDependencies ::
  "('a CWorkGrammar_scheme) \<Rightarrow> CRuleAgreement list \<Rightarrow> (string + bool \<times> CRuleAgreement list) option" where
  "TransferOutCountFromSymbolToItsDependencies G RuleInfos =
     map_option (\<lambda>v. case out_counts G RuleInfos of Inl e \<Rightarrow> Inl e
         | Inr M \<Rightarrow> Inr (True, fold (write_out_count (lower_deps G v M)) (m_EncodedRules G) RuleInfos))
       (changed_loop dep_pass (direct_deps G))"

section \<open>The closure of the dependencies\<close>

text \<open>The relation of a meta symbol to the meta symbols of its rules.\<close>

definition direct_rel :: "('a CWorkGrammar_scheme) \<Rightarrow> (nat \<times> nat) set" where
  "direct_rel G = {(m_LeftPart R, d) |R d. R \<in> set (m_EncodedRules G) \<and> d \<in> set (rhs R) \<and>
     is_meta G (m_LeftPart R) \<and> is_meta G d}"

lemma vset_fold_rel:
  assumes "\<And>x vc. length (fst vc) = n \<Longrightarrow> x \<in> set xs \<Longrightarrow>
      length (fst (f x vc)) = n \<and> vset_rel (fst (f x vc)) = vset_rel (fst vc) \<union> F x \<and>
      (list_all (sorted_wrt (<)) (fst vc) \<longrightarrow> list_all (sorted_wrt (<)) (fst (f x vc)))"
  shows "length (fst vc) = n \<Longrightarrow> length (fst (fold f xs vc)) = n \<and>
      vset_rel (fst (fold f xs vc)) = vset_rel (fst vc) \<union> \<Union> (F ` set xs) \<and>
      (list_all (sorted_wrt (<)) (fst vc) \<longrightarrow> list_all (sorted_wrt (<)) (fst (fold f xs vc)))"
  using assms
proof (induction xs arbitrary: vc)
  case (Cons x xs)
  have "length (fst (f x vc)) = n" "vset_rel (fst (f x vc)) = vset_rel (fst vc) \<union> F x"
      "list_all (sorted_wrt (<)) (fst vc) \<longrightarrow> list_all (sorted_wrt (<)) (fst (f x vc))"
    using Cons.prems by auto
  then show ?case using Cons.IH [of "f x vc"] Cons.prems(2) by auto
qed simp

lemma vset_insert_sorted: "list_all (sorted_wrt (<)) (fst vc) \<Longrightarrow> list_all (sorted_wrt (<)) (fst (vset_insert i a vc))"
  using vset_step_insert [of vc i a] by (simp add: vset_step_def)

lemma direct_deps_spec:
  "length (direct_deps G) = length (m_UniqueGrammarItems G)"
  "vset_rel (direct_deps G) = direct_rel G" "list_all (sorted_wrt (<)) (direct_deps G)"
proof -
  let ?n = "length (m_UniqueGrammarItems G)"
  have rule: "length (fst (direct_rule G P R vc)) = ?n \<and>
      vset_rel (fst (direct_rule G P R vc)) = vset_rel (fst vc) \<union>
        (if m_LeftPart R = P then {(P, d) |d. d \<in> set (rhs R) \<and> is_meta G d} else {}) \<and>
      (list_all (sorted_wrt (<)) (fst vc) \<longrightarrow> list_all (sorted_wrt (<)) (fst (direct_rule G P R vc)))"
    if "length (fst vc) = ?n" "is_meta G P" for P R vc
  proof (cases "m_LeftPart R = P")
    case True
    have P: "P < ?n" using \<open>is_meta G P\<close> by (simp add: is_meta_def)
    have "length (fst (fold (\<lambda>d vc. if is_meta G d then vset_insert P d vc else vc) (rhs R) vc)) = ?n \<and>
      vset_rel (fst (fold (\<lambda>d vc. if is_meta G d then vset_insert P d vc else vc) (rhs R) vc)) =
        vset_rel (fst vc) \<union> \<Union> ((\<lambda>d. if is_meta G d then {(P, d)} else {}) ` set (rhs R)) \<and>
      (list_all (sorted_wrt (<)) (fst vc) \<longrightarrow>
        list_all (sorted_wrt (<)) (fst (fold (\<lambda>d vc. if is_meta G d then vset_insert P d vc else vc) (rhs R) vc)))"
      by (rule vset_fold_rel) (use P that(1) in \<open>auto simp: vset_insert_fst vset_insert_sorted\<close>)
    then show ?thesis using True by (auto simp: direct_rule_def)
  qed (simp add: direct_rule_def that(1))
  have symbol: "length (fst (direct_symbol G P vc)) = ?n \<and>
      vset_rel (fst (direct_symbol G P vc)) = vset_rel (fst vc) \<union> {(p, d) \<in> direct_rel G. p = P} \<and>
      (list_all (sorted_wrt (<)) (fst vc) \<longrightarrow> list_all (sorted_wrt (<)) (fst (direct_symbol G P vc)))"
    if "length (fst vc) = ?n" for P vc
  proof (cases "is_meta G P")
    case True
    have "length (fst (fold (direct_rule G P) (m_EncodedRules G) vc)) = ?n \<and>
      vset_rel (fst (fold (direct_rule G P) (m_EncodedRules G) vc)) = vset_rel (fst vc) \<union>
        \<Union> ((\<lambda>R. if m_LeftPart R = P then {(P, d) |d. d \<in> set (rhs R) \<and> is_meta G d} else {}) ` set (m_EncodedRules G)) \<and>
      (list_all (sorted_wrt (<)) (fst vc) \<longrightarrow>
        list_all (sorted_wrt (<)) (fst (fold (direct_rule G P) (m_EncodedRules G) vc)))"
      by (rule vset_fold_rel, rule rule [OF _ True], assumption, rule that)
    moreover have "\<Union> ((\<lambda>R. if m_LeftPart R = P then {(P, d) |d. d \<in> set (rhs R) \<and> is_meta G d} else {}) ` set (m_EncodedRules G))
        = {(p, d) \<in> direct_rel G. p = P}"
      using True by (auto simp: direct_rel_def split: if_splits)
    ultimately show ?thesis using True by (simp add: direct_symbol_def)
  next
    case False
    then have emp: "{(p, d) \<in> direct_rel G. p = P} = {}" by (auto simp: direct_rel_def)
    have same: "direct_symbol G P vc = vc" using False by (simp add: direct_symbol_def)
    show ?thesis unfolding same emp Un_empty_right using that by (intro conjI impI refl)
  qed
  let ?r = "fold (direct_symbol G) [0..<?n] (replicate ?n [], False)"
  have "length (fst ?r) = ?n \<and>
      vset_rel (fst ?r) = vset_rel (fst (replicate ?n [] :: nat list list, False)) \<union> \<Union> ((\<lambda>P. {(p, d) \<in> direct_rel G. p = P}) ` set [0..<?n]) \<and>
      (list_all (sorted_wrt (<)) (fst (replicate ?n [] :: nat list list, False)) \<longrightarrow> list_all (sorted_wrt (<)) (fst ?r))"
    by (rule vset_fold_rel, rule symbol, assumption) simp
  moreover have "\<Union> ((\<lambda>P. {(p, d) \<in> direct_rel G. p = P}) ` set [0..<?n]) = direct_rel G"
    by (auto simp: direct_rel_def is_meta_def)
  ultimately show "length (direct_deps G) = ?n" "vset_rel (direct_deps G) = direct_rel G"
      "list_all (sorted_wrt (<)) (direct_deps G)"
    by (simp_all add: direct_deps_def)
qed

text \<open>One scan: it only adds to the set of the parent, and only what is reachable from it.\<close>

lemma vset_insert_all_other: "j \<noteq> i \<Longrightarrow> fst (vset_insert_all i as vc) ! j = fst vc ! j"
  unfolding vset_insert_all_def
  by (induction as arbitrary: vc) (auto simp: vset_insert_def case_prod_unfold Let_def)

definition scan_ok :: "nat \<Rightarrow> nat list list \<Rightarrow> nat list list \<Rightarrow> bool" where
  "scan_ok p v w \<longleftrightarrow> length w = length v \<and> (\<forall>j. j \<noteq> p \<longrightarrow> w ! j = v ! j) \<and>
     vset_rel v \<subseteq> vset_rel w \<and> vset_rel w \<subseteq> (vset_rel v)\<^sup>+ \<and>
     (list_all (sorted_wrt (<)) v \<longrightarrow> list_all (sorted_wrt (<)) w)"

lemma scan_ok_refl: "scan_ok p v v"
  by (auto simp: scan_ok_def)

lemma scan_ok_trans:
  assumes "scan_ok p u v" "scan_ok p v w"
  shows "scan_ok p u w"
proof -
  have "(vset_rel v)\<^sup>+ \<subseteq> ((vset_rel u)\<^sup>+)\<^sup>+" by (rule trancl_mono_subset) (use assms(1) in \<open>simp add: scan_ok_def\<close>)
  then have "vset_rel w \<subseteq> (vset_rel u)\<^sup>+" using assms(2) by (auto simp: scan_ok_def)
  then show ?thesis using assms by (auto simp: scan_ok_def)
qed

lemma scan_ok_insert:
  assumes "p < length v" "x < length v" "x \<in> set (v ! p)"
  shows "scan_ok p v (fst (vset_insert_all p (v ! x) (v, False)))"
proof -
  let ?w = "fst (vset_insert_all p (v ! x) (v, False))"
  have st: "vset_step (v, False) (vset_insert_all p (v ! x) (v, False))" by blast
  have rel: "vset_rel ?w = {p} \<times> set (v ! x) \<union> vset_rel v" using assms(1) by (simp add: vset_insert_all_fst)
  have "(p, y) \<in> (vset_rel v)\<^sup>+" if "y \<in> set (v ! x)" for y
  proof -
    have "(p, x) \<in> vset_rel v" "(x, y) \<in> vset_rel v" using assms that by simp_all
    then show ?thesis by (meson r_into_trancl trancl_into_trancl)
  qed
  then have "vset_rel ?w \<subseteq> (vset_rel v)\<^sup>+" unfolding rel by auto
  then show ?thesis using st vset_insert_all_other [of _ p "v ! x" "(v, False)"] unfolding scan_ok_def vset_step_def by simp
qed

lemma dep_scan_ok:
  "p < length v \<Longrightarrow> \<forall>x. it = Some x \<longrightarrow> x \<in> set (v ! p) \<Longrightarrow> scan_ok p v (dep_scan p it v)"
proof (induction p it v rule: dep_scan.induct)
  case (1 p v)
  then show ?case by (simp add: scan_ok_refl)
next
  case (2 p x v)
  show ?case
  proof (cases "x < length v")
    case True
    let ?v = "fst (vset_insert_all p (v ! x) (v, False))"
    have "scan_ok p v ?v" using scan_ok_insert 2(2,3) True by simp
    moreover have "scan_ok p ?v (dep_scan p (oset_next (<) x (?v ! p)) ?v)"
      by (rule 2(1) [OF True refl]) (use 2(2) in \<open>auto dest: oset_next_Some\<close>)
    ultimately show ?thesis using True scan_ok_trans by (simp add: Let_def)
  qed (simp add: scan_ok_refl)
qed

lemma scan_ok_same:
  assumes "scan_ok p v w" "list_all (sorted_wrt (<)) v" "p < length v" "length (w ! p) \<le> length (v ! p)"
  shows "w = v"
proof -
  have ord: "natset.ordered (v ! p)" "natset.ordered (w ! p)" using assms(1-3) by (auto simp: scan_ok_def list_all_length)
  have sub: "set (v ! p) \<subseteq> set (w ! p)"
  proof
    fix x assume "x \<in> set (v ! p)"
    then have "(p, x) \<in> vset_rel w" using assms(1,3) unfolding scan_ok_def by (metis subsetD vset_rel_iff)
    then show "x \<in> set (w ! p)" by simp
  qed
  have "card (set (w ! p)) \<le> card (set (v ! p))"
    using assms(4) natset.ordered_distinct [OF ord(1)] natset.ordered_distinct [OF ord(2)] by (simp add: distinct_card)
  then have "set (v ! p) = set (w ! p)" using sub by (simp add: card_seteq)
  then have "w ! p = v ! p" using natset.ordered_ext ord by metis
  then have "w ! j = v ! j" for j using assms(1) by (cases "j = p") (simp_all add: scan_ok_def)
  then show ?thesis using assms(1) by (intro nth_equalityI) (simp_all add: scan_ok_def)
qed

text \<open>A scan that changes nothing has checked the whole set.\<close>

lemma dep_scan_closed:
  "p < length v \<Longrightarrow> x \<in> set (v ! p) \<Longrightarrow> vset_rel v \<subseteq> {..<length v} \<times> {..<length v} \<Longrightarrow>
    list_all (sorted_wrt (<)) v \<Longrightarrow> dep_scan p (Some x) v = v \<Longrightarrow>
    y \<in> set (v ! p) \<Longrightarrow> x \<le> y \<Longrightarrow> set (v ! y) \<subseteq> set (v ! p)"
proof (induction "length v - x" arbitrary: x rule: less_induct)
  case less
  let ?v = "fst (vset_insert_all p (v ! x) (v, False))"
  have "(p, x) \<in> vset_rel v" using less.prems(1,2) by simp
  then have x: "x < length v" using less.prems(3) by blast
  have r: "dep_scan p (oset_next (<) x (?v ! p)) ?v = v" using less.prems(5) x by (simp add: Let_def)
  have s1: "scan_ok p v ?v" by (rule scan_ok_insert) (use less.prems x in auto)
  have "scan_ok p ?v (dep_scan p (oset_next (<) x (?v ! p)) ?v)"
    by (rule dep_scan_ok) (use less.prems(1) in \<open>auto dest: oset_next_Some\<close>)
  then have "scan_ok p ?v v" by (simp only: r)
  then have "vset_rel ?v = vset_rel v" using s1 by (auto simp: scan_ok_def)
  then have nc: "\<not> snd (vset_insert_all p (v ! x) (v, False))" and rel: "{p} \<times> set (v ! x) \<subseteq> vset_rel v"
    using vset_step_insert_all [of "(v, False)" p "v ! x"] vset_insert_all_fst [of p "v ! x" "(v, False)"] less.prems(1)
    by (auto simp: vset_step_def)
  have "set (v ! x) \<subseteq> set (v ! p)" using rel less.prems(1) unfolding vset_rel_def by blast
  have same: "?v = v" using nc vset_step_insert_all [of "(v, False)" p "v ! x"] by (simp add: vset_step_def)
  show ?case
  proof (cases "x = y")
    case True
    then show ?thesis using \<open>set (v ! x) \<subseteq> set (v ! p)\<close> by simp
  next
    case False
    then have "x < y" using less.prems(7) by simp
    have ord: "natset.ordered (v ! p)" using less.prems(1,4) by (simp add: list_all_length)
    obtain z where z: "oset_next (<) x (v ! p) = Some z" "z \<le> y"
      using natset.next_least [OF ord less.prems(6) \<open>x < y\<close>] by auto
    have "x < z" "z \<in> set (v ! p)" using oset_next_Some [OF z(1)] by auto
    then show ?thesis
      using less.hyps [of z] x z(2) less.prems(1,3,4,6) r unfolding same z(1) by simp
  qed
qed

text \<open>The invariant of the loop: between the direct dependencies and their transitive closure.\<close>

definition dep_inv :: "(nat \<times> nat) set \<Rightarrow> nat \<Rightarrow> nat list list \<Rightarrow> bool" where
  "dep_inv D n v \<longleftrightarrow> length v = n \<and> D \<subseteq> vset_rel v \<and> vset_rel v \<subseteq> D\<^sup>+ \<and> list_all (sorted_wrt (<)) v"

abbreviation first_of_set :: "nat list \<Rightarrow> nat option" where
  "first_of_set s \<equiv> (case s of [] \<Rightarrow> None | x # _ \<Rightarrow> Some x)"

lemma dep_inv_scan: "dep_inv D n v \<Longrightarrow> scan_ok p v w \<Longrightarrow> dep_inv D n w"
proof -
  assume v: "dep_inv D n v" and w: "scan_ok p v w"
  have "(vset_rel v)\<^sup>+ \<subseteq> (D\<^sup>+)\<^sup>+" by (rule trancl_mono_subset) (use v in \<open>simp add: dep_inv_def\<close>)
  then show ?thesis using v w by (auto simp: dep_inv_def scan_ok_def)
qed

lemma dep_symbol_spec:
  assumes "dep_inv D n v" "p < n"
  defines "w \<equiv> dep_scan p (first_of_set (v ! p)) v"
  shows "fst (dep_symbol p (v, c)) = w" "scan_ok p v w" "dep_inv D n w"
    "snd (dep_symbol p (v, c)) \<longleftrightarrow> c \<or> w \<noteq> v" "w \<noteq> v \<Longrightarrow> vset_rel v \<noteq> vset_rel w"
proof -
  have v: "p < length v" "list_all (sorted_wrt (<)) v" using assms(1,2) by (simp_all add: dep_inv_def)
  show w: "scan_ok p v w" unfolding w_def by (rule dep_scan_ok) (use v in \<open>auto split: list.splits\<close>)
  show "fst (dep_symbol p (v, c)) = w" by (simp add: dep_symbol_def w_def Let_def)
  show "dep_inv D n w" by (rule dep_inv_scan [OF assms(1) w])
  have same: "w = v" if "length (w ! p) \<le> length (v ! p)" using scan_ok_same [OF w v(2,1) that] .
  then show "snd (dep_symbol p (v, c)) \<longleftrightarrow> c \<or> w \<noteq> v" by (auto simp: dep_symbol_def w_def [symmetric])
  show "vset_rel v \<noteq> vset_rel w" if "w \<noteq> v"
  proof
    assume "vset_rel v = vset_rel w"
    then have "set (w ! p) = set (v ! p)" using v(1) w by (auto simp: scan_ok_def vset_rel_def set_eq_iff)
    moreover have "natset.ordered (v ! p)" "natset.ordered (w ! p)" using v w by (auto simp: scan_ok_def list_all_length)
    ultimately have "w ! p = v ! p" using natset.ordered_ext by metis
    then show False using same that by simp
  qed
qed

lemma dep_fold_spec:
  assumes "dep_inv D n v" "set ps \<subseteq> {..<n}"
  shows "dep_inv D n (fst (fold dep_symbol ps (v, c))) \<and> vset_rel v \<subseteq> vset_rel (fst (fold dep_symbol ps (v, c))) \<and>
    (c \<longrightarrow> snd (fold dep_symbol ps (v, c))) \<and>
    (\<not> snd (fold dep_symbol ps (v, c)) \<longrightarrow> fst (fold dep_symbol ps (v, c)) = v \<and>
       (\<forall>p \<in> set ps. dep_scan p (first_of_set (v ! p)) v = v)) \<and>
    (\<not> c \<and> snd (fold dep_symbol ps (v, c)) \<longrightarrow> vset_rel v \<noteq> vset_rel (fst (fold dep_symbol ps (v, c))))"
  using assms
proof (induction ps arbitrary: v c)
  case (Cons p ps)
  let ?w = "dep_scan p (first_of_set (v ! p)) v"
  have p: "p < n" using Cons.prems(2) by simp
  note sym = dep_symbol_spec [OF Cons.prems(1) p]
  have eq: "dep_symbol p (v, c) = (?w, c \<or> ?w \<noteq> v)" using sym(1,4) [of c] by (simp add: prod_eq_iff)
  let ?r = "fold dep_symbol ps (?w, c \<or> ?w \<noteq> v)"
  have f: "fold dep_symbol (p # ps) (v, c) = ?r" unfolding fold_simps eq ..
  have "set ps \<subseteq> {..<n}" using Cons.prems(2) by simp
  note IH = Cons.IH [OF sym(3) this, of "c \<or> ?w \<noteq> v"]
  have grow: "vset_rel v \<subseteq> vset_rel ?w" using sym(2) by (simp add: scan_ok_def)
  have "fst ?r = v \<and> (\<forall>q \<in> set (p # ps). dep_scan q (first_of_set (v ! q)) v = v)" if n: "\<not> snd ?r"
  proof -
    have "?w = v" using IH n by blast
    then show ?thesis using IH n by simp
  qed
  moreover have "vset_rel v \<noteq> vset_rel (fst ?r)" if "\<not> c" "snd ?r"
  proof (cases "?w = v")
    case True
    then show ?thesis using IH that by simp
  next
    case False
    then have "vset_rel v \<noteq> vset_rel ?w" by (rule sym(5))
    then show ?thesis using IH grow by blast
  qed
  ultimately show ?case unfolding f using IH grow by blast
qed simp

lemma direct_rel_bound: "direct_rel G \<subseteq> {..<length (m_UniqueGrammarItems G)} \<times> {..<length (m_UniqueGrammarItems G)}"
  by (auto simp: direct_rel_def is_meta_def)

lemma dep_inv_bound:
  assumes "dep_inv D n v" "D \<subseteq> {..<n} \<times> {..<n}"
  shows "vset_rel v \<subseteq> {..<n} \<times> {..<n}"
proof -
  have "D\<^sup>+ \<subseteq> {..<n} \<times> {..<n}" by (rule trancl_subset_Sigma [OF assms(2)])
  then show ?thesis using assms(1) by (auto simp: dep_inv_def)
qed

text \<open>The loop ends with the transitive closure.\<close>

lemma dep_loop:
  assumes "length v0 = n" "vset_rel v0 = D" "list_all (sorted_wrt (<)) v0" "D \<subseteq> {..<n} \<times> {..<n}"
  shows "\<exists>v. changed_loop dep_pass v0 = Some v \<and> length v = n \<and> vset_rel v = D\<^sup>+ \<and> list_all (sorted_wrt (<)) v"
proof -
  have pass: "dep_pass v = fold dep_symbol [0..<n] (v, False)" if "dep_inv D n v" for v
    using that by (simp add: dep_pass_def dep_inv_def)
  have sub: "set [0..<n] \<subseteq> {..<n}" by auto
  note spec = dep_fold_spec [OF _ sub, of D]
  have cp: "changed_pass dep_pass (dep_inv D n) (\<lambda>v. card ({..<n} \<times> {..<n} - vset_rel v))"
  proof
    fix v assume v: "dep_inv D n v"
    note s = spec [OF v, of False, folded pass [OF v]]
    show "dep_inv D n (fst (dep_pass v))" using s by blast
    show "fst (dep_pass v) = v" if "\<not> snd (dep_pass v)" using s that by blast
    show "card ({..<n} \<times> {..<n} - vset_rel (fst (dep_pass v))) < card ({..<n} \<times> {..<n} - vset_rel v)" if "snd (dep_pass v)"
    proof (rule psubset_card_mono)
      have "vset_rel v \<subset> vset_rel (fst (dep_pass v))" using s that by blast
      then show "{..<n} \<times> {..<n} - vset_rel (fst (dep_pass v)) \<subset> {..<n} \<times> {..<n} - vset_rel v"
        using dep_inv_bound [OF _ assms(4)] s by blast
    qed simp
  qed
  have "dep_inv D n v0" using assms by (auto simp: dep_inv_def)
  then obtain v where v: "changed_loop dep_pass v0 = Some v" "dep_inv D n v" "dep_pass v = (v, False)"
    using changed_pass.loop_ends [OF cp] by blast
  have fin: "\<forall>p < n. dep_scan p (first_of_set (v ! p)) v = v"
    using spec [OF v(2), of False] v(3) unfolding pass [OF v(2)] by simp
  have len: "length v = n" and sorted: "list_all (sorted_wrt (<)) v" using v(2) by (simp_all add: dep_inv_def)
  have bound: "vset_rel v \<subseteq> {..<length v} \<times> {..<length v}" using dep_inv_bound [OF v(2) assms(4)] len by simp
  have closed: "set (v ! y) \<subseteq> set (v ! p)" if p: "p < n" and y: "y \<in> set (v ! p)" for p y
  proof -
    obtain x s where x: "v ! p = x # s" using y by (cases "v ! p") auto
    have "natset.ordered (v ! p)" using sorted p len by (simp add: list_all_length)
    then have "x \<le> y" using y x by auto
    have "dep_scan p (first_of_set (v ! p)) v = v" using fin p by blast
    then have "dep_scan p (Some x) v = v" unfolding x list.case .
    moreover have "p < length v" "x \<in> set (v ! p)" using p len x by simp_all
    ultimately show ?thesis using dep_scan_closed bound sorted y \<open>x \<le> y\<close> by blast
  qed
  have "trans (vset_rel v)"
  proof (rule transI)
    fix a b c assume a: "(a, b) \<in> vset_rel v" "(b, c) \<in> vset_rel v"
    then have "a < n" "b \<in> set (v ! a)" "c \<in> set (v ! b)" using len by simp_all
    then show "(a, c) \<in> vset_rel v" using closed len by fastforce
  qed
  then have "D\<^sup>+ \<subseteq> vset_rel v" using v(2) by (metis dep_inv_def trancl_id trancl_mono_subset)
  then show ?thesis using v(1,2) by (auto simp: dep_inv_def)
qed

section \<open>The values of the symbols\<close>

lemma rule_out_count_bounds: "0 < rule_out_count A" "rule_out_count A \<le> MaxOutCount"
  by (auto simp: rule_out_count_def Let_def MaxOutCount_def find_Some_iff split: option.splits)

lemma Max_insert_max: "finite S \<Longrightarrow> Max (insert (max c r) S) = Max (insert c (insert (r :: nat) S))"
  by (cases "S = {}") (simp_all add: max.assoc)

lemma symbol_out_count_Max:
  "symbol_out_count G A X =
     Max (insert 0 ((\<lambda>R. rule_out_count (A ! m_OriginalRuleNo R)) ` {R \<in> set (m_EncodedRules G). m_LeftPart R = X}))"
proof -
  have "fold (\<lambda>R c. if m_LeftPart R = X then max c (rule_out_count (A ! m_OriginalRuleNo R)) else c) Rs c =
      Max (insert c ((\<lambda>R. rule_out_count (A ! m_OriginalRuleNo R)) ` {R \<in> set Rs. m_LeftPart R = X}))" for Rs c
  proof (induction Rs arbitrary: c)
    case (Cons R Rs)
    let ?S = "(\<lambda>R. rule_out_count (A ! m_OriginalRuleNo R)) ` {R \<in> set Rs. m_LeftPart R = X}"
    have fin: "finite ?S" by simp
    show ?case
    proof (cases "m_LeftPart R = X")
      case True
      then have "(\<lambda>R. rule_out_count (A ! m_OriginalRuleNo R)) ` {Q \<in> set (R # Rs). m_LeftPart Q = X} =
          insert (rule_out_count (A ! m_OriginalRuleNo R)) ?S" by auto
      then show ?thesis using True Cons Max_insert_max [OF fin] by simp
    next
      case False
      then have "{Q \<in> set (R # Rs). m_LeftPart Q = X} = {Q \<in> set Rs. m_LeftPart Q = X}" by auto
      then show ?thesis using False Cons by simp
    qed
  qed simp
  then show ?thesis by (simp add: symbol_out_count_def)
qed

lemma symbol_out_count_bounds:
  "symbol_out_count G A X \<le> MaxOutCount"
  "symbol_out_count G A X = 0 \<longleftrightarrow> X \<notin> m_LeftPart ` set (m_EncodedRules G)"
proof -
  let ?S = "(\<lambda>R. rule_out_count (A ! m_OriginalRuleNo R)) ` {R \<in> set (m_EncodedRules G). m_LeftPart R = X}"
  have fin: "finite (insert 0 ?S)" by simp
  show "symbol_out_count G A X \<le> MaxOutCount"
    unfolding symbol_out_count_Max by (rule Max.boundedI) (auto simp: rule_out_count_bounds(2))
  show "symbol_out_count G A X = 0 \<longleftrightarrow> X \<notin> m_LeftPart ` set (m_EncodedRules G)"
  proof (cases "?S = {}")
    case True
    then have "symbol_out_count G A X = 0" unfolding symbol_out_count_Max by (simp only: Max_singleton)
    then show ?thesis using True by auto
  next
    case False
    then obtain R where R: "R \<in> set (m_EncodedRules G)" "m_LeftPart R = X" by blast
    then have "rule_out_count (A ! m_OriginalRuleNo R) \<le> symbol_out_count G A X"
      unfolding symbol_out_count_Max by (intro Max_ge [OF fin]) blast
    then show ?thesis using R rule_out_count_bounds(1) [of "A ! m_OriginalRuleNo R"] by auto
  qed
qed

definition out_count_step :: "('a CWorkGrammar_scheme) \<Rightarrow> CRuleAgreement list \<Rightarrow> symbol \<Rightarrow> nat list \<Rightarrow> nat list" where
  "out_count_step G A X M = (if is_meta G X then M[X := symbol_out_count G A X] else M)"

lemma out_counts_cases:
  "out_counts G A = (if \<exists>X. is_meta G X \<and> X \<notin> m_LeftPart ` set (m_EncodedRules G)
     then Inl ''Unused meta-symbol in TransferOutCountFromSymbolToItsDependencies''
     else Inr (fold (out_count_step G A) [0..<length (m_UniqueGrammarItems G)] (replicate (length (m_UniqueGrammarItems G)) 0)))"
proof -
  let ?f = "\<lambda>Parent r. case r of Inl e \<Rightarrow> Inl e
         | Inr M \<Rightarrow>
             (if is_meta G Parent
              then if symbol_out_count G A Parent = 0
                   then Inl ''Unused meta-symbol in TransferOutCountFromSymbolToItsDependencies''
                   else Inr (M[Parent := symbol_out_count G A Parent])
              else Inr M)"
  have stuck: "fold ?f Xs (Inl e) = Inl e" for Xs and e :: string by (induction Xs) simp_all
  have "fold ?f Xs (Inr M) = (if \<exists>X \<in> set Xs. is_meta G X \<and> symbol_out_count G A X = 0
      then Inl ''Unused meta-symbol in TransferOutCountFromSymbolToItsDependencies''
      else Inr (fold (out_count_step G A) Xs M))" for Xs M
    by (induction Xs arbitrary: M) (auto simp: stuck out_count_step_def)
  then have "out_counts G A = (if \<exists>X \<in> set [0..<length (m_UniqueGrammarItems G)]. is_meta G X \<and> symbol_out_count G A X = 0
      then Inl ''Unused meta-symbol in TransferOutCountFromSymbolToItsDependencies''
      else Inr (fold (out_count_step G A) [0..<length (m_UniqueGrammarItems G)] (replicate (length (m_UniqueGrammarItems G)) 0)))"
    unfolding out_counts_def .
  moreover have "(\<exists>X \<in> set [0..<length (m_UniqueGrammarItems G)]. is_meta G X \<and> symbol_out_count G A X = 0) \<longleftrightarrow>
      (\<exists>X. is_meta G X \<and> X \<notin> m_LeftPart ` set (m_EncodedRules G))"
    unfolding symbol_out_count_bounds(2) by (auto simp: is_meta_def)
  ultimately show ?thesis by simp
qed

lemma out_count_values:
  "length (fold (out_count_step G A) Xs M) = length M \<and>
   (\<forall>X < length M. fold (out_count_step G A) Xs M ! X =
      (if X \<in> set Xs \<and> is_meta G X then symbol_out_count G A X else M ! X))"
proof (induction Xs arbitrary: M)
  case (Cons Y Ys)
  have "length (out_count_step G A Y M) = length M" by (simp add: out_count_step_def)
  moreover have "out_count_step G A Y M ! X = (if X = Y \<and> is_meta G X then symbol_out_count G A X else M ! X)"
    if "X < length M" for X using that by (auto simp: out_count_step_def nth_list_update)
  ultimately show ?case using Cons [of "out_count_step G A Y M"] by auto
qed simp

lemma lower_fold:
  "length (fold (\<lambda>d M. M[d := min (M ! d) (M ! P)]) ds M) = length M \<and>
   (\<forall>X < length M. P < length M \<longrightarrow> fold (\<lambda>d M. M[d := min (M ! d) (M ! P)]) ds M ! X =
      (if X \<in> set ds then min (M ! X) (M ! P) else M ! X))"
proof (induction ds arbitrary: M)
  case (Cons d ds)
  have len: "length (M[d := min (M ! d) (M ! P)]) = length M" by simp
  show ?case
  proof (intro conjI allI impI)
    fix X assume "X < length M" "P < length M"
    then show "fold (\<lambda>d M. M[d := min (M ! d) (M ! P)]) (d # ds) M ! X =
        (if X \<in> set (d # ds) then min (M ! X) (M ! P) else M ! X)"
      using Cons [of "M[d := min (M ! d) (M ! P)]"]
      by (cases "X = d"; cases "P = d") (auto simp: nth_list_update min_def)
  qed (use Cons in simp)
qed simp

text \<open>
  The pass over the parents in the order of their numbers. A parent may have been lowered before, but
  only to values of symbols above it, which are above the dependent symbol too.
\<close>

lemma lower_deps_spec:
  assumes "length v = n" "n = length (m_UniqueGrammarItems G)" "length M = n"
    and trans: "\<And>a b c. (a, b) \<in> vset_rel v \<Longrightarrow> (b, c) \<in> vset_rel v \<Longrightarrow> (a, c) \<in> vset_rel v"
    and meta: "\<And>a b. (a, b) \<in> vset_rel v \<Longrightarrow> is_meta G a"
  shows "length (lower_deps G v M) = n \<and>
    (\<forall>X < n. lower_deps G v M ! X = Min (insert (M ! X) {M ! Y |Y. (Y, X) \<in> vset_rel v}))"
proof -
  let ?step = "\<lambda>P M. if is_meta G P then fold (\<lambda>d M. M[d := min (M ! d) (M ! P)]) (v ! P) M else M"
  define good where "good k N \<longleftrightarrow> length N = n \<and>
      (\<forall>X < n. N ! X \<le> M ! X \<and> (\<forall>Y < k. (Y, X) \<in> vset_rel v \<longrightarrow> N ! X \<le> M ! Y) \<and>
         (N ! X = M ! X \<or> (\<exists>Y. (Y, X) \<in> vset_rel v \<and> N ! X = M ! Y)))" for k N
  have "good k (fold ?step [0..<k] M)" if "k \<le> n" for k
    using that
  proof (induction k)
    case 0
    then show ?case using assms(3) by (simp add: good_def)
  next
    case (Suc k)
    let ?N = "fold ?step [0..<k] M"
    have N: "good k ?N" and k: "k < n" using Suc by auto
    have eq: "fold ?step [0..<Suc k] M = ?step k ?N" by simp
    show ?case
    proof (cases "is_meta G k")
      case False
      then have "(k, X) \<notin> vset_rel v" for X using meta by blast
      then show ?thesis unfolding eq using N False by (auto simp: good_def less_Suc_eq)
    next
      case True
      have len: "length ?N = n" using N by (simp add: good_def)
      have vals: "?step k ?N ! X = (if (k, X) \<in> vset_rel v then min (?N ! X) (?N ! k) else ?N ! X)" if "X < n" for X
        using lower_fold [where P = k and ds = "v ! k" and M = ?N] True that k len assms(1) by simp
      have "length (?step k ?N) = n" using lower_fold [of k "v ! k" ?N] len True by simp
      moreover have "?step k ?N ! X \<le> M ! X \<and> (\<forall>Y < Suc k. (Y, X) \<in> vset_rel v \<longrightarrow> ?step k ?N ! X \<le> M ! Y) \<and>
          (?step k ?N ! X = M ! X \<or> (\<exists>Y. (Y, X) \<in> vset_rel v \<and> ?step k ?N ! X = M ! Y))" if X: "X < n" for X
      proof (cases "(k, X) \<in> vset_rel v")
        case rel: True
        have a: "?N ! X \<le> M ! X" "\<forall>Y < k. (Y, X) \<in> vset_rel v \<longrightarrow> ?N ! X \<le> M ! Y"
            "?N ! X = M ! X \<or> (\<exists>Y. (Y, X) \<in> vset_rel v \<and> ?N ! X = M ! Y)" using N X by (auto simp: good_def)
        have b: "?N ! k \<le> M ! k" "?N ! k = M ! k \<or> (\<exists>Y. (Y, k) \<in> vset_rel v \<and> ?N ! k = M ! Y)"
          using N k by (auto simp: good_def)
        have c: "?N ! k = M ! k \<or> (\<exists>Y. (Y, X) \<in> vset_rel v \<and> ?N ! k = M ! Y)" using b(2) trans [OF _ rel] by blast
        have m: "?step k ?N ! X = min (?N ! X) (?N ! k)" using vals [OF X] rel by simp
        then have "?step k ?N ! X = ?N ! X \<or> ?step k ?N ! X = ?N ! k" by (auto simp: min_def)
        then have "?step k ?N ! X = M ! X \<or> (\<exists>Y. (Y, X) \<in> vset_rel v \<and> ?step k ?N ! X = M ! Y)"
        proof
          assume e: "?step k ?N ! X = ?N ! k"
          show ?thesis unfolding e using c rel by blast
        next
          assume e: "?step k ?N ! X = ?N ! X"
          show ?thesis unfolding e by (rule a(3))
        qed
        then show ?thesis unfolding m using a(1,2) b(1) by (auto simp: less_Suc_eq min_le_iff_disj)
      next
        case False
        then have "?step k ?N ! X = ?N ! X" using vals [OF X] by (simp only: if_False)
        moreover have "?N ! X \<le> M ! X" "\<forall>Y < k. (Y, X) \<in> vset_rel v \<longrightarrow> ?N ! X \<le> M ! Y"
            "?N ! X = M ! X \<or> (\<exists>Y. (Y, X) \<in> vset_rel v \<and> ?N ! X = M ! Y)" using N X by (auto simp: good_def)
        ultimately show ?thesis using False by (simp only: less_Suc_eq) blast
      qed
      ultimately show ?thesis unfolding eq good_def by blast
    qed
  qed
  then have g: "good n (lower_deps G v M)" using assms(2) by (simp add: lower_deps_def)
  have "lower_deps G v M ! X = Min (insert (M ! X) {M ! Y |Y. (Y, X) \<in> vset_rel v})" if X: "X < n" for X
  proof (rule Min_eqI [symmetric])
    have "{M ! Y |Y. (Y, X) \<in> vset_rel v} \<subseteq> (!) M ` {..<n}" using assms(1) by (auto simp: vset_rel_def)
    then show "finite (insert (M ! X) {M ! Y |Y. (Y, X) \<in> vset_rel v})" by (simp add: finite_subset)
    show "lower_deps G v M ! X \<le> y" if "y \<in> insert (M ! X) {M ! Y |Y. (Y, X) \<in> vset_rel v}" for y
    proof -
      have low: "lower_deps G v M ! X \<le> M ! X" "\<forall>Y < n. (Y, X) \<in> vset_rel v \<longrightarrow> lower_deps G v M ! X \<le> M ! Y"
        using g X by (auto simp: good_def)
      have "Y < n" if "(Y, X) \<in> vset_rel v" for Y using that assms(1) by simp
      then show ?thesis using that low by blast
    qed
    show "lower_deps G v M ! X \<in> insert (M ! X) {M ! Y |Y. (Y, X) \<in> vset_rel v}" 
    proof -
      have "lower_deps G v M ! X = M ! X \<or> (\<exists>Y. (Y, X) \<in> vset_rel v \<and> lower_deps G v M ! X = M ! Y)"
        using g X by (simp add: good_def)
      then show ?thesis by blast
    qed
  qed
  then show ?thesis using g by (simp add: good_def)
qed

section \<open>The result\<close>

lemma write_fold:
  assumes "distinct (map m_OriginalRuleNo Rs)" "\<forall>R \<in> set Rs. m_OriginalRuleNo R < length A"
  shows "length (fold (write_out_count M) Rs A) = length A \<and>
    (\<forall>i. (\<forall>R \<in> set Rs. m_OriginalRuleNo R \<noteq> i) \<longrightarrow> fold (write_out_count M) Rs A ! i = A ! i) \<and>
    (\<forall>R \<in> set Rs. fold (write_out_count M) Rs A ! m_OriginalRuleNo R =
       (if M ! m_LeftPart R = MaxOutCount then A ! m_OriginalRuleNo R
        else with_out_count (M ! m_LeftPart R) (A ! m_OriginalRuleNo R)))"
  using assms
proof (induction Rs arbitrary: A)
  case (Cons R Rs)
  let ?A = "write_out_count M R A"
  have A: "length ?A = length A" "i \<noteq> m_OriginalRuleNo R \<Longrightarrow> ?A ! i = A ! i"
      "?A ! m_OriginalRuleNo R = (if M ! m_LeftPart R = MaxOutCount then A ! m_OriginalRuleNo R
        else with_out_count (M ! m_LeftPart R) (A ! m_OriginalRuleNo R))" for i
    using Cons.prems(2) by (simp_all add: write_out_count_def)
  have other: "\<forall>Q \<in> set Rs. m_OriginalRuleNo Q \<noteq> m_OriginalRuleNo R" using Cons.prems(1) by (auto simp: image_iff)
  have IH: "length (fold (write_out_count M) Rs ?A) = length A"
      "\<forall>i. (\<forall>R \<in> set Rs. m_OriginalRuleNo R \<noteq> i) \<longrightarrow> fold (write_out_count M) Rs ?A ! i = ?A ! i"
      "\<forall>R \<in> set Rs. fold (write_out_count M) Rs ?A ! m_OriginalRuleNo R =
       (if M ! m_LeftPart R = MaxOutCount then ?A ! m_OriginalRuleNo R
        else with_out_count (M ! m_LeftPart R) (?A ! m_OriginalRuleNo R))"
    using Cons.IH [of ?A] Cons.prems A(1) by auto
  show ?case
  proof (intro conjI allI impI ballI)
    show "length (fold (write_out_count M) (R # Rs) A) = length A" using IH(1) by simp
    show "fold (write_out_count M) (R # Rs) A ! i = A ! i" if "\<forall>R \<in> set (R # Rs). m_OriginalRuleNo R \<noteq> i" for i
      using that IH(2) A(2) by simp
    fix Q assume Q: "Q \<in> set (R # Rs)"
    show "fold (write_out_count M) (R # Rs) A ! m_OriginalRuleNo Q =
       (if M ! m_LeftPart Q = MaxOutCount then A ! m_OriginalRuleNo Q
        else with_out_count (M ! m_LeftPart Q) (A ! m_OriginalRuleNo Q))"
    proof (cases "Q \<in> set Rs")
      case True
      then show ?thesis using IH(3) A(2) other by simp
    next
      case False
      then have "Q = R" using Q by simp
      then show ?thesis using IH(2) A(3) other by simp
    qed
  qed
qed simp

lemma setcompr_cong: "(\<And>Y. P Y \<Longrightarrow> f Y = g Y) \<Longrightarrow> {f Y |Y. P Y} = {g Y |Y. P Y}"
  unfolding setcompr_eq_image by (rule image_cong) simp_all

text \<open>The symbols above a symbol: those that derive a form it occurs in.\<close>

lemma symbols_above:
  assumes "wf_grammar G" "is_meta G X"
  shows "Y = X \<or> (Y, X) \<in> (direct_rel G)\<^sup>+ \<longleftrightarrow> is_meta G Y \<and> (\<exists>u v. derives G [Y] (u @ X # v))"
proof
  have "is_meta G Y \<and> (\<exists>u v. derives G [Y] (u @ X # v))" if "(Y, X) \<in> (direct_rel G)\<^sup>+"
    using that
  proof (induction rule: trancl_induct)
    case (base Z)
    then obtain R where R: "R \<in> set (m_EncodedRules G)" "m_LeftPart R = Y" "Z \<in> set (rhs R)" "is_meta G Y"
      by (auto simp: direct_rel_def)
    obtain u v where "rhs R = u @ Z # v" using R(3) by (metis split_list)
    then show ?case using derives_rule [OF R(1)] R(2,4) by metis
  next
    case (step Z W)
    then obtain u v where uv: "is_meta G Y" "derives G [Y] (u @ Z # v)" by blast
    obtain R where R: "R \<in> set (m_EncodedRules G)" "m_LeftPart R = Z" "W \<in> set (rhs R)"
      using step.hyps(2) by (auto simp: direct_rel_def)
    obtain a b where ab: "rhs R = a @ W # b" using R(3) by (metis split_list)
    have "derives G (u @ [Z] @ v) (u @ (a @ W # b) @ v)" using derives_rule [OF R(1)] R(2) ab derives_context by metis
    then have "derives G [Y] ((u @ a) @ W # (b @ v))" using uv(2) by simp
    then show ?case using uv(1) by blast
  qed
  moreover have "derives G [X] ([] @ X # [])" by simp
  ultimately show "Y = X \<or> (Y, X) \<in> (direct_rel G)\<^sup>+ \<Longrightarrow> is_meta G Y \<and> (\<exists>u v. derives G [Y] (u @ X # v))"
    using assms(2) by blast
next
  assume "is_meta G Y \<and> (\<exists>u v. derives G [Y] (u @ X # v))"
  then obtain u v where Y: "is_meta G Y" "derives G [Y] (u @ X # v)" by blast
  have "\<forall>Z \<in> set w. is_meta G Z \<longrightarrow> Y = Z \<or> (Y, Z) \<in> (direct_rel G)\<^sup>+" if "derives G [Y] w" for w
    using that
  proof (induction rule: rtranclp_induct)
    case (step w z)
    obtain R p s where R: "R \<in> set (m_EncodedRules G)" "w = p @ m_LeftPart R # s" "z = p @ rhs R @ s"
      using step.hyps(2) by (auto simp: derives1_def)
    have left: "is_meta G (m_LeftPart R)" by (rule wf_grammar_ruleD(2) [OF assms(1) R(1)])
    have "Y = Z \<or> (Y, Z) \<in> (direct_rel G)\<^sup>+" if "Z \<in> set (rhs R)" "is_meta G Z" for Z
    proof -
      have "(m_LeftPart R, Z) \<in> direct_rel G" using R(1) left that by (auto simp: direct_rel_def)
      moreover have "Y = m_LeftPart R \<or> (Y, m_LeftPart R) \<in> (direct_rel G)\<^sup>+" using step.IH left R(2) by simp
      ultimately show ?thesis by (meson r_into_trancl trancl_into_trancl)
    qed
    then show ?case using step.IH R(2,3) by auto
  qed simp
  then show "Y = X \<or> (Y, X) \<in> (direct_rel G)\<^sup>+" using Y(2) assms(2) by auto
qed

text \<open>That it returns, whatever the agreements are, and when it raises.\<close>

lemma TransferOutCount_returns:
  "if \<exists>X. is_meta G X \<and> X \<notin> m_LeftPart ` set (m_EncodedRules G)
    then TransferOutCountFromSymbolToItsDependencies G A =
      Some (Inl ''Unused meta-symbol in TransferOutCountFromSymbolToItsDependencies'')
    else \<exists>A'. TransferOutCountFromSymbolToItsDependencies G A = Some (Inr (True, A')) \<and> length A' = length A"
proof -
  obtain v where v: "changed_loop dep_pass (direct_deps G) = Some v"
    using dep_loop [OF direct_deps_spec(1,2,3) direct_rel_bound] by blast
  have "length (write_out_count M R A) = length A" for M R A by (simp add: write_out_count_def)
  then have len: "length (fold (write_out_count M) Rs A) = length A" for M Rs A
    by (induction Rs arbitrary: A) simp_all
  show ?thesis
  proof (cases "\<exists>X. is_meta G X \<and> X \<notin> m_LeftPart ` set (m_EncodedRules G)")
    case True
    then show ?thesis using v by (simp add: TransferOutCountFromSymbolToItsDependencies_def out_counts_cases)
  next
    case False
    then show ?thesis using v len by (simp add: TransferOutCountFromSymbolToItsDependencies_def out_counts_cases)
  qed
qed

text \<open>
  C23. \<^verbatim>\<open>TransferOutCountFromSymbolToItsDependencies\<close> always returns. It raises its exception exactly
  when some nonterminal has no rule. Otherwise it limits every rule to the least limit of the symbols
  above its left part (those deriving a form it occurs in), the limit of a symbol being the greatest
  among its rules, where a rule without a limit allows \<^verbatim>\<open>MaxOutCount\<close> words; the limit is written into
  the last agreement of the rule, made if there is none, and nothing else changes.
\<close>

theorem TransferOutCount_correct:
  assumes "wf_grammar G" "\<forall>R \<in> set (m_EncodedRules G). m_OriginalRuleNo R < length A"
  shows "if \<exists>X. is_meta G X \<and> (\<forall>R \<in> set (m_EncodedRules G). m_LeftPart R \<noteq> X)
    then TransferOutCountFromSymbolToItsDependencies G A =
      Some (Inl ''Unused meta-symbol in TransferOutCountFromSymbolToItsDependencies'')
    else \<exists>A'. TransferOutCountFromSymbolToItsDependencies G A = Some (Inr (True, A')) \<and> length A' = length A \<and>
      (\<forall>i. (\<forall>R \<in> set (m_EncodedRules G). m_OriginalRuleNo R \<noteq> i) \<longrightarrow> A' ! i = A ! i) \<and>
      (\<forall>R \<in> set (m_EncodedRules G). \<forall>c.
         c = Min {Max {rule_out_count (A ! m_OriginalRuleNo Q) |Q. Q \<in> set (m_EncodedRules G) \<and> m_LeftPart Q = Y} |Y.
               is_meta G Y \<and> (\<exists>u v. derives G [Y] (u @ m_LeftPart R # v))} \<longrightarrow>
         A' ! m_OriginalRuleNo R =
           (if c = MaxOutCount then A ! m_OriginalRuleNo R else with_out_count c (A ! m_OriginalRuleNo R)))"
proof -
  let ?n = "length (m_UniqueGrammarItems G)"
  let ?M = "fold (out_count_step G A) [0..<?n] (replicate ?n 0)"
  obtain v where v: "changed_loop dep_pass (direct_deps G) = Some v" "length v = ?n" "vset_rel v = (direct_rel G)\<^sup>+"
    using dep_loop [OF direct_deps_spec(1,2,3) direct_rel_bound] by blast
  have unused: "(\<exists>X. is_meta G X \<and> (\<forall>R \<in> set (m_EncodedRules G). m_LeftPart R \<noteq> X)) \<longleftrightarrow>
      (\<exists>X. is_meta G X \<and> X \<notin> m_LeftPart ` set (m_EncodedRules G))" by auto
  show ?thesis
  proof (cases "\<exists>X. is_meta G X \<and> (\<forall>R \<in> set (m_EncodedRules G). m_LeftPart R \<noteq> X)")
    case True
    then show ?thesis using v(1) unused by (simp add: TransferOutCountFromSymbolToItsDependencies_def out_counts_cases)
  next
    case False
    let ?L = "lower_deps G v ?M"
    let ?A = "fold (write_out_count ?L) (m_EncodedRules G) A"
    have eq: "TransferOutCountFromSymbolToItsDependencies G A = Some (Inr (True, ?A))"
      using v(1) False unused by (simp add: TransferOutCountFromSymbolToItsDependencies_def out_counts_cases)
    have M: "length ?M = ?n" "\<And>X. is_meta G X \<Longrightarrow> ?M ! X = symbol_out_count G A X"
      using out_count_values [of G A "[0..<?n]" "replicate ?n 0"] by (simp_all add: is_meta_def)
    have sym: "symbol_out_count G A Y =
        Max {rule_out_count (A ! m_OriginalRuleNo Q) |Q. Q \<in> set (m_EncodedRules G) \<and> m_LeftPart Q = Y}" if "is_meta G Y" for Y
    proof -
      let ?S = "(\<lambda>R. rule_out_count (A ! m_OriginalRuleNo R)) ` {R \<in> set (m_EncodedRules G). m_LeftPart R = Y}"
      have "?S \<noteq> {}" using False that by auto
      then have "Max (insert 0 ?S) = Max ?S" by simp
      moreover have "?S = {rule_out_count (A ! m_OriginalRuleNo Q) |Q. Q \<in> set (m_EncodedRules G) \<and> m_LeftPart Q = Y}" by auto
      ultimately show ?thesis unfolding symbol_out_count_Max by metis
    qed
    have trans: "(a, c) \<in> vset_rel v" if "(a, b) \<in> vset_rel v" "(b, c) \<in> vset_rel v" for a b c
      using that unfolding v(3) by (rule trancl_trans)
    have above: "is_meta G a" if "(a, b) \<in> vset_rel v" for a b
      using that unfolding v(3) by (induction rule: trancl_induct) (auto simp: direct_rel_def)
    have low: "length ?L = ?n \<and> (\<forall>X < ?n. ?L ! X = Min (insert (?M ! X) {?M ! Y |Y. (Y, X) \<in> vset_rel v}))"
      by (rule lower_deps_spec [OF v(2) refl M(1)]) (erule (1) trans, erule above)
    have L: "?L ! X = Min {Max {rule_out_count (A ! m_OriginalRuleNo Q) |Q. Q \<in> set (m_EncodedRules G) \<and> m_LeftPart Q = Y} |Y.
               is_meta G Y \<and> (\<exists>u w. derives G [Y] (u @ X # w))}" if X: "is_meta G X" for X
    proof -
      have "X < ?n" using X by (simp add: is_meta_def)
      then have "?L ! X = Min (insert (?M ! X) {?M ! Y |Y. (Y, X) \<in> vset_rel v})"
        using low by blast
      also have "insert (?M ! X) {?M ! Y |Y. (Y, X) \<in> vset_rel v} = {?M ! Y |Y. Y = X \<or> (Y, X) \<in> vset_rel v}" by blast
      also have "\<dots> = {symbol_out_count G A Y |Y. is_meta G Y \<and> (\<exists>u w. derives G [Y] (u @ X # w))}"
        unfolding v(3) symbols_above [OF assms(1) X] by (rule setcompr_cong) (use M(2) in blast)
      also have "\<dots> = {Max {rule_out_count (A ! m_OriginalRuleNo Q) |Q. Q \<in> set (m_EncodedRules G) \<and> m_LeftPart Q = Y} |Y.
               is_meta G Y \<and> (\<exists>u w. derives G [Y] (u @ X # w))}"
        by (rule setcompr_cong) (use sym in blast)
      finally show ?thesis .
    qed
    have left: "is_meta G (m_LeftPart R)" if "R \<in> set (m_EncodedRules G)" for R
      using wf_grammar_ruleD(2) [OF assms(1) that] .
    have W: "length ?A = length A"
      "\<forall>i. (\<forall>R \<in> set (m_EncodedRules G). m_OriginalRuleNo R \<noteq> i) \<longrightarrow> ?A ! i = A ! i"
      "\<forall>R \<in> set (m_EncodedRules G). ?A ! m_OriginalRuleNo R =
         (if ?L ! m_LeftPart R = MaxOutCount then A ! m_OriginalRuleNo R
          else with_out_count (?L ! m_LeftPart R) (A ! m_OriginalRuleNo R))"
      using write_fold [of "m_EncodedRules G" A ?L] assms by (auto simp: wf_grammar_def)
    show ?thesis
      unfolding if_not_P [OF False]
    proof (intro exI [of _ ?A] conjI eq W(1,2) ballI allI impI)
      fix R c assume R: "R \<in> set (m_EncodedRules G)"
        and c: "c = Min {Max {rule_out_count (A ! m_OriginalRuleNo Q) |Q. Q \<in> set (m_EncodedRules G) \<and> m_LeftPart Q = Y} |Y.
               is_meta G Y \<and> (\<exists>u v. derives G [Y] (u @ m_LeftPart R # v))}"
      show "?A ! m_OriginalRuleNo R =
           (if c = MaxOutCount then A ! m_OriginalRuleNo R else with_out_count c (A ! m_OriginalRuleNo R))"
        using W(3) R L [OF left [OF R]] unfolding c by simp
    qed
  qed
qed

text \<open>\<^verbatim>\<open>S -> A b\<close>, \<^verbatim>\<open>A -> a A | a\<close>, where the rule of \<^verbatim>\<open>S\<close> is limited to three words.\<close>

definition sample_list_grammar :: CWorkGrammar where
  "sample_list_grammar = work_grammar_init\<lparr>
     m_UniqueGrammarItems := [sample_S, sample_S\<lparr>m_ItemStrId := ''A'', m_bGrammarRoot := False\<rparr>,
       sample_a\<lparr>m_bGrammarRoot := False\<rparr>, sample_b\<lparr>m_bGrammarRoot := False\<rparr>],
     m_EncodedRules := [sample_rule 0 0 [1, 3], sample_rule 2 1 [2], sample_rule 1 1 [2, 1]]\<rparr>"

definition sample_agreements :: "CRuleAgreement list" where
  "sample_agreements = [with_out_count 3 [], [], []]"

lemma sample_list_evaluated:
  "wf_grammar sample_list_grammar"
  "\<forall>R \<in> set (m_EncodedRules sample_list_grammar). m_OriginalRuleNo R < length sample_agreements"
  "TransferOutCountFromSymbolToItsDependencies sample_list_grammar sample_agreements =
     Some (Inr (True, [with_out_count 3 [], with_out_count 3 [], with_out_count 3 []]))"
  by code_simp+

lemma with_out_count_eq: "with_out_count c [] = with_out_count d [] \<longleftrightarrow> c = d" "with_out_count c [] \<noteq> []"
  by (auto simp: with_out_count_def) (metis SExtraRuleInfo.select_convs(2) SExtraRuleInfo.surjective SExtraRuleInfo.update_convs(2))

theorem TransferOutCount_correct_witness:
  "TransferOutCountFromSymbolToItsDependencies sample_list_grammar sample_agreements =
     Some (Inr (True, [with_out_count 3 [], with_out_count 3 [], with_out_count 3 []])) \<and>
   Min {Max {rule_out_count (sample_agreements ! m_OriginalRuleNo Q) |Q.
        Q \<in> set (m_EncodedRules sample_list_grammar) \<and> m_LeftPart Q = Y} |Y.
      is_meta sample_list_grammar Y \<and> (\<exists>u v. derives sample_list_grammar [Y] (u @ 1 # v))} = 3"
proof -
  let ?c = "Min {Max {rule_out_count (sample_agreements ! m_OriginalRuleNo Q) |Q.
        Q \<in> set (m_EncodedRules sample_list_grammar) \<and> m_LeftPart Q = Y} |Y.
      is_meta sample_list_grammar Y \<and> (\<exists>u v. derives sample_list_grammar [Y] (u @ 1 # v))}"
  let ?R = "sample_rule 1 1 [2, 1]"
  have R: "?R \<in> set (m_EncodedRules sample_list_grammar)" "m_LeftPart ?R = 1" "m_OriginalRuleNo ?R = 1"
    by code_simp+
  note th = TransferOutCount_correct [OF sample_list_evaluated(1,2), unfolded sample_list_evaluated(3)]
  have "[with_out_count 3 [], with_out_count 3 [], with_out_count 3 []] ! 1 =
      (if ?c = MaxOutCount then sample_agreements ! 1 else with_out_count ?c (sample_agreements ! 1))"
  proof (cases "\<exists>X. is_meta sample_list_grammar X \<and> (\<forall>R \<in> set (m_EncodedRules sample_list_grammar). m_LeftPart R \<noteq> X)")
    case True
    then show ?thesis using th by simp
  next
    case False
    obtain A' where A': "Some (Inr (True, [with_out_count 3 [], with_out_count 3 [], with_out_count 3 []])) =
        Some (Inr (True, A') :: string + bool \<times> CRuleAgreement list)"
      and all: "\<forall>R \<in> set (m_EncodedRules sample_list_grammar). \<forall>c.
         c = Min {Max {rule_out_count (sample_agreements ! m_OriginalRuleNo Q) |Q. Q \<in> set (m_EncodedRules sample_list_grammar) \<and> m_LeftPart Q = Y} |Y.
               is_meta sample_list_grammar Y \<and> (\<exists>u v. derives sample_list_grammar [Y] (u @ m_LeftPart R # v))} \<longrightarrow>
         A' ! m_OriginalRuleNo R =
           (if c = MaxOutCount then sample_agreements ! m_OriginalRuleNo R else with_out_count c (sample_agreements ! m_OriginalRuleNo R))"
      using th unfolding if_not_P [OF False] by (elim exE conjE) blast
    have "A' = [with_out_count 3 [], with_out_count 3 [], with_out_count 3 []]" using A' by simp
    then show ?thesis using bspec [OF all R(1), THEN spec, THEN mp, of ?c] unfolding R(2,3) by blast
  qed
  moreover have "sample_agreements ! 1 = []" by (simp add: sample_agreements_def)
  ultimately have "with_out_count 3 [] = (if ?c = MaxOutCount then [] else with_out_count ?c [])" by simp
  then have "?c = 3" using with_out_count_eq by (cases "?c = MaxOutCount") (simp_all only: if_True if_False refl)
  then show ?thesis using sample_list_evaluated(3) by blast
qed

end
