(* ===== verification/GrammarText.thy ===== *)
theory GrammarText
  imports WorkGrammar "HOL-Library.Monad_Syntax"
begin

text \<open>
  The smaller operations on grammar items and work grammars: their text (\<^verbatim>\<open>GetDumpString\<close>,
  \<^verbatim>\<open>GetRuleStr\<close>), their serialization (\<^verbatim>\<open>SPostfixStore\<close>, \<^verbatim>\<open>CWordFormRegExp\<close> and \<^verbatim>\<open>CGrammarItem\<close> \<^verbatim>\<open>Save\<close>
  and \<^verbatim>\<open>Load\<close>, the vectors of numbers a rule and a filter become), and the tables of special symbols
  (\<^verbatim>\<open>grammaritem.cpp\<close>, \<^verbatim>\<open>regexp.cpp\<close>, \<^verbatim>\<open>loader.cpp\<close>, \<^verbatim>\<open>agreement.h\<close>).

  A stream is the list of the values that are still to be read, one token for each value that the
  sources save by one call of the library function \<^verbatim>\<open>::Save\<close>; a token of another type stops the
  reading with \<open>None\<close>.
\<close>

section \<open>Text\<close>

definition IsAttributeName :: "string \<Rightarrow> bool" where
  "IsAttributeName S \<longleftrightarrow>
     S \<in> set [''hom'', ''type'', ''SemClass'', ''nb'', ''case'', ''name'', ''grm'', ''syn'', ''register'']"

fun TypeToString :: "SimpleItemEnum \<Rightarrow> string" where
  "TypeToString siRomanNumber = ''ROMAN''"
| "TypeToString siAnyWord = ''ANYWORD''"
| "TypeToString siNumber = ''NUMBER''"
| "TypeToString siMorphologicalyUnknown = ''LEX-UNK''"
| "TypeToString siMorphPattern = ''MORPH''"
| "TypeToString _ = ''''"

definition IsAsciiSpace :: "char \<Rightarrow> bool" where
  "IsAsciiSpace c \<longleftrightarrow> c = CHR '' '' \<or> (9 \<le> (of_char c :: nat) \<and> (of_char c :: nat) \<le> 13)"

definition StripString :: "string \<Rightarrow> string" where
  "StripString s = rev (dropWhile IsAsciiSpace (rev (dropWhile IsAsciiSpace s)))"

definition dump_attributes :: "CGrammarItem \<Rightarrow> string" where
  "dump_attributes I =
     concat (map (\<lambda>(k, v). k @ ''='' @ v @ '' '') (m_Attributes I)) @
     (if m_GrmAttribute I \<noteq> '''' then ''grm=\"'' @ m_GrmAttribute I @ ''\" '' else '''') @
     (if \<not> m_bCanHaveManyHomonyms I then ''hom=\"no\" '' else '''') @
     (if m_bSynMain I then ''syn=\"root\" '' else '''')"

definition GetDumpString :: "CGrammarItem \<Rightarrow> string" where
  "GetDumpString I =
     (if m_Type I = siString then CHR 0x27 # m_ItemStrId I @ [CHR 0x27]
      else (let Meta = (if m_Type I = siMeta then m_ItemStrId I else TypeToString (m_Type I))
            in ''['' @ Meta @ '' '' @ StripString (dump_attributes I) @ '']''))"

definition GetLeftPartStr :: "('a CWorkGrammar_scheme) \<Rightarrow> CWorkRule \<Rightarrow> string" where
  "GetLeftPartStr G R = GetDumpString (m_UniqueGrammarItems G ! m_LeftPart R)"

text \<open>The loop over the right part, from position \<open>l\<close>.\<close>

fun rule_items_str :: "('a CWorkGrammar_scheme) \<Rightarrow> nat \<Rightarrow> nat \<Rightarrow> symbol list \<Rightarrow> string" where
  "rule_items_str G AsteriskNo l [] = (if AsteriskNo = l then ''*'' else '''')"
| "rule_items_str G AsteriskNo l (s # Items) =
     (if AsteriskNo = l then ''*'' else '''') @ GetDumpString (m_UniqueGrammarItems G ! s) @
     (if Items \<noteq> [] then '', '' else '''') @ rule_items_str G AsteriskNo (Suc l) Items"

definition GetRuleStrAt :: "('a CWorkGrammar_scheme) \<Rightarrow> CWorkRule \<Rightarrow> nat \<Rightarrow> string" where
  "GetRuleStrAt G R AsteriskNo =
     GetDumpString (m_UniqueGrammarItems G ! m_LeftPart R) @ ''->'' @ rule_items_str G AsteriskNo 0 (rhs R)"

definition GetRuleStr :: "('a CWorkGrammar_scheme) \<Rightarrow> CWorkRule \<Rightarrow> string" where
  "GetRuleStr G R = GetRuleStrAt G R (m_SynMainItemNo (m_RightPart R))"

text \<open>\<^verbatim>\<open>m_AutomatSymbolInformation\<close>, a map from the numbers of the symbols to their text.\<close>

definition CreateAutomatSymbolInformation :: "('a CWorkGrammar_scheme) \<Rightarrow> (nat \<times> string) list" where
  "CreateAutomatSymbolInformation G =
     map (\<lambda>i. (i, GetDumpString (m_UniqueGrammarItems G ! i))) [0..<length (m_UniqueGrammarItems G)]"

lemma CreateAutomatSymbolInformation_length [simp]:
  "length (CreateAutomatSymbolInformation G) = length (m_UniqueGrammarItems G)"
  by (simp add: CreateAutomatSymbolInformation_def)

section \<open>Attributes of an item\<close>

definition HasPostfix_entry :: "string \<times> string \<Rightarrow> ePrefix \<Rightarrow> ePostfix \<Rightarrow> bool" where
  "HasPostfix_entry e p v \<longleftrightarrow> fst e = AlphabetPrefix p \<and> Some (snd e) = map_of AttributeValues v"

definition HasPostfixKWType :: "CGrammarItem \<Rightarrow> ePrefix \<Rightarrow> bool \<times> string" where
  "HasPostfixKWType I p =
     (if m_Attributes I = [] then (False, '''')
      else case map_of (m_Attributes I) (AlphabetPrefix p) of None \<Rightarrow> (False, '''') | Some v \<Rightarrow> (True, v))"

definition HasPostfix_named :: "CGrammarItem \<Rightarrow> string \<Rightarrow> string" where
  "HasPostfix_named I s = (case map_of (m_Attributes I) s of None \<Rightarrow> '''' | Some v \<Rightarrow> v)"

text \<open>\<^verbatim>\<open>GetRegExpPostfix\<close>: the inner option is the pointer, \<open>Inl\<close> the exception on any other prefix.\<close>

fun GetRegExpPostfix :: "CGrammarItem \<Rightarrow> ePrefix \<Rightarrow> string + CWordFormRegExp option" where
  "GetRegExpPostfix I NOT_REG_EXP =
     Inr (let r = m_WordRegExp (m_PostfixStore I) in if \<not> regexp_IsEmpty r \<and> IsNegative r then Some r else None)"
| "GetRegExpPostfix I REG_EXP =
     Inr (let r = m_WordRegExp (m_PostfixStore I) in if \<not> regexp_IsEmpty r \<and> \<not> IsNegative r then Some r else None)"
| "GetRegExpPostfix I _ = Inl ''Argument is wrong in CGrammarItem::GetPostfixKWType(ePrefix e_ValPref).''"

section \<open>Rules and filters as vectors of numbers\<close>

text \<open>\<^verbatim>\<open>int\<close> is a word of 32 bits; a \<^verbatim>\<open>size_t\<close> pushed into a vector of them loses its upper half, and a
  number read back is extended with its sign to 64 bits.\<close>

type_synonym int32 = "32 word"

definition int_of_size :: "nat \<Rightarrow> int32" where
  "int_of_size n = word_of_nat n"

definition size_of_int :: "int32 \<Rightarrow> nat" where
  "size_of_int w = nat (sint w mod 2 ^ 64)"

definition ConvertRuleIntoIntVector :: "CWorkRule \<Rightarrow> int32 list \<Rightarrow> int32 list" where
  "ConvertRuleIntoIntVector r v =
     v @ [int_of_size (m_OriginalRuleNo r)] @ [int_of_size (m_LeftPart r)] @
     [int_of_size (m_SynMainItemNo (m_RightPart r))] @ map int_of_size (rhs r)"

text \<open>The items of the vector are appended to those that the rule already has.\<close>

definition ConvertIntVectorIntoRule :: "int32 list \<Rightarrow> CWorkRule \<Rightarrow> CWorkRule" where
  "ConvertIntVectorIntoRule v r =
     \<lparr>m_OriginalRuleNo = size_of_int (v ! 0), m_LeftPart = size_of_int (v ! 1),
      m_RightPart = \<lparr>m_Items = rhs r @ map size_of_int (drop 3 v), m_SynMainItemNo = size_of_int (v ! 2)\<rparr>\<rparr>"

record CFilterPair =
  m_iItemID :: int32
  m_iWordDistance :: int32

definition filter_pair_eq :: "CFilterPair \<Rightarrow> CFilterPair \<Rightarrow> bool" where
  "filter_pair_eq x y \<longleftrightarrow> m_iItemID x = m_iItemID y \<and> m_iWordDistance x = m_iWordDistance y"

definition ConvertFilterIntoIntVector :: "CFilterPair list \<Rightarrow> int32 list \<Rightarrow> int32 list" where
  "ConvertFilterIntoIntVector f v = v @ concat (map (\<lambda>p. [m_iItemID p, m_iWordDistance p]) f)"

fun pairs_of :: "int32 list \<Rightarrow> CFilterPair list" where
  "pairs_of (a # b # v) = \<lparr>m_iItemID = a, m_iWordDistance = b\<rparr> # pairs_of v"
| "pairs_of _ = []"

definition ConvertIntVectorIntoFilter :: "int32 list \<Rightarrow> CFilterPair list \<Rightarrow> CFilterPair list" where
  "ConvertIntVectorIntoFilter v f = f @ pairs_of v"

text \<open>What fits into an \<^verbatim>\<open>int\<close> comes back.\<close>

lemma size_of_int_of_size: "n < 2 ^ 31 \<Longrightarrow> size_of_int (int_of_size n) = n"
proof -
  assume n: "n < 2 ^ 31"
  have "sint (word_of_nat n :: int32) = int n"
    using n by (simp add: sint_uint uint_nat unat_of_nat signed_take_bit_int_eq_self take_bit_nat_eq_self_iff)
  then show ?thesis using n by (simp add: size_of_int_def int_of_size_def)
qed

lemma pairs_of_concat: "pairs_of (concat (map (\<lambda>p. [m_iItemID p, m_iWordDistance p]) f)) = f"
  by (induction f) simp_all

section \<open>Serialization of items\<close>

datatype token = TPostfix ePostfix | TBool bool | TPlace EApplyPlace | TString string | TWtroka Wtroka
  | TArt SArtPointer | TType SimpleItemEnum | TAttributes "(string \<times> string) list" | TGrammems TGramBitSet
  | TNumbers "int list"

fun get_postfix :: "token list \<Rightarrow> (ePostfix \<times> token list) option" where
  "get_postfix (TPostfix x # s) = Some (x, s)"
| "get_postfix _ = None"

fun get_bool :: "token list \<Rightarrow> (bool \<times> token list) option" where
  "get_bool (TBool x # s) = Some (x, s)"
| "get_bool _ = None"

fun get_place :: "token list \<Rightarrow> (EApplyPlace \<times> token list) option" where
  "get_place (TPlace x # s) = Some (x, s)"
| "get_place _ = None"

fun get_string :: "token list \<Rightarrow> (string \<times> token list) option" where
  "get_string (TString x # s) = Some (x, s)"
| "get_string _ = None"

fun get_wtroka :: "token list \<Rightarrow> (Wtroka \<times> token list) option" where
  "get_wtroka (TWtroka x # s) = Some (x, s)"
| "get_wtroka _ = None"

fun get_art :: "token list \<Rightarrow> (SArtPointer \<times> token list) option" where
  "get_art (TArt x # s) = Some (x, s)"
| "get_art _ = None"

fun get_type :: "token list \<Rightarrow> (SimpleItemEnum \<times> token list) option" where
  "get_type (TType x # s) = Some (x, s)"
| "get_type _ = None"

fun get_attributes :: "token list \<Rightarrow> ((string \<times> string) list \<times> token list) option" where
  "get_attributes (TAttributes x # s) = Some (x, s)"
| "get_attributes _ = None"

fun get_grammems :: "token list \<Rightarrow> (TGramBitSet \<times> token list) option" where
  "get_grammems (TGrammems x # s) = Some (x, s)"
| "get_grammems _ = None"

fun get_numbers :: "token list \<Rightarrow> (int list \<times> token list) option" where
  "get_numbers (TNumbers x # s) = Some (x, s)"
| "get_numbers _ = None"

definition regexp_Save :: "CWordFormRegExp \<Rightarrow> token list" where
  "regexp_Save r = [TBool (IsNegative r), TPlace (Place r), TString (RegexPattern r)]"

text \<open>An empty pattern is read but not assigned.\<close>

definition regexp_Load :: "token list \<Rightarrow> CWordFormRegExp \<Rightarrow> (CWordFormRegExp \<times> token list) option" where
  "regexp_Load s r =
     do {
       (negative, s) \<leftarrow> get_bool s;
       (place, s) \<leftarrow> get_place s;
       (pattern, s) \<leftarrow> get_string s;
       let r = r\<lparr>IsNegative := negative, Place := place\<rparr>;
       Some (if pattern \<noteq> '''' then r\<lparr>RegexPattern := pattern\<rparr> else r, s)
     }"

text \<open>\<^verbatim>\<open>SPostfixStore::Save\<close> and \<^verbatim>\<open>Load\<close> as they are: the name attribute is there twice, the attribute
  \<^verbatim>\<open>m_lreg\<close> not at all.\<close>

definition postfix_Save :: "SPostfixStore \<Rightarrow> token list" where
  "postfix_Save p =
     [TPostfix (m_hom p), TPostfix (m_nohomonyms p), TPostfix (m_hreg p), TPostfix (m_hreg1 p), TPostfix (m_hreg2 p),
      TPostfix (m_dict p), TPostfix (m_lat p), TPostfix (m_org_morph_dict p), TPostfix (m_geo_morph_dict p),
      TPostfix (m_name_morph_dict p), TPostfix (m_name_morph_dict p), TPostfix (m_fw p), TPostfix (m_is_multiword p),
      TPostfix (m_exclude_from_normalization p), TBool (m_is_none_kwtype p), TArt (m_dict_kwtype p),
      TArt (m_dict_not_kwtype p), TArt (m_dict_label p), TArt (m_dict_not_label p)] @
     regexp_Save (m_WordRegExp p)"

definition postfix_Load :: "token list \<Rightarrow> SPostfixStore \<Rightarrow> (SPostfixStore \<times> token list) option" where
  "postfix_Load s p =
     do {
       (x, s) \<leftarrow> get_postfix s; let p = p\<lparr>m_hom := x\<rparr>;
       (x, s) \<leftarrow> get_postfix s; let p = p\<lparr>m_nohomonyms := x\<rparr>;
       (x, s) \<leftarrow> get_postfix s; let p = p\<lparr>m_hreg := x\<rparr>;
       (x, s) \<leftarrow> get_postfix s; let p = p\<lparr>m_hreg1 := x\<rparr>;
       (x, s) \<leftarrow> get_postfix s; let p = p\<lparr>m_hreg2 := x\<rparr>;
       (x, s) \<leftarrow> get_postfix s; let p = p\<lparr>m_dict := x\<rparr>;
       (x, s) \<leftarrow> get_postfix s; let p = p\<lparr>m_lat := x\<rparr>;
       (x, s) \<leftarrow> get_postfix s; let p = p\<lparr>m_org_morph_dict := x\<rparr>;
       (x, s) \<leftarrow> get_postfix s; let p = p\<lparr>m_geo_morph_dict := x\<rparr>;
       (x, s) \<leftarrow> get_postfix s; let p = p\<lparr>m_name_morph_dict := x\<rparr>;
       (x, s) \<leftarrow> get_postfix s; let p = p\<lparr>m_name_morph_dict := x\<rparr>;
       (x, s) \<leftarrow> get_postfix s; let p = p\<lparr>m_fw := x\<rparr>;
       (x, s) \<leftarrow> get_postfix s; let p = p\<lparr>m_is_multiword := x\<rparr>;
       (x, s) \<leftarrow> get_postfix s; let p = p\<lparr>m_exclude_from_normalization := x\<rparr>;
       (x, s) \<leftarrow> get_bool s; let p = p\<lparr>m_is_none_kwtype := x\<rparr>;
       (x, s) \<leftarrow> get_art s; let p = p\<lparr>m_dict_kwtype := x\<rparr>;
       (x, s) \<leftarrow> get_art s; let p = p\<lparr>m_dict_not_kwtype := x\<rparr>;
       (x, s) \<leftarrow> get_art s; let p = p\<lparr>m_dict_label := x\<rparr>;
       (x, s) \<leftarrow> get_art s; let p = p\<lparr>m_dict_not_label := x\<rparr>;
       (r, s) \<leftarrow> regexp_Load s (m_WordRegExp p);
       Some (p\<lparr>m_WordRegExp := r\<rparr>, s)
     }"

text \<open>
  \<^verbatim>\<open>LoadReplacementInterp\<close>; \<open>numbers\<close> is what splitting a value at backslashes and converting the parts with
  \<^verbatim>\<open>FromString<i64>\<close>, both of the library, gives, without the parts it warns of.
\<close>

definition LoadReplacementInterp :: "(string \<Rightarrow> int list) \<Rightarrow> CGrammarItem \<Rightarrow> CGrammarItem" where
  "LoadReplacementInterp numbers I =
     (case map_of (m_Attributes I) (AlphabetPrefix REPLACE_INTERP) of
        None \<Rightarrow> I
      | Some v \<Rightarrow> I\<lparr>m_vReplaceInterp := m_vReplaceInterp I @ numbers v,
                    m_Attributes := attr_erase (AlphabetPrefix REPLACE_INTERP) (m_Attributes I)\<rparr>)"

definition item_Save :: "CGrammarItem \<Rightarrow> token list" where
  "item_Save I =
     [TType (m_Type I), TString (m_ItemStrId I), TWtroka (m_Lemma I), TAttributes (m_Attributes I), TString (m_Source I),
      TGrammems (m_ItemGrammems I), TGrammems (m_NegativeItemGrammems I), TString (m_GrmAttribute I),
      TBool (m_bGrammarRoot I), TBool (m_bSynMain I), TBool (m_bCanHaveManyHomonyms I), TNumbers (m_vReplaceInterp I)] @
     postfix_Save (m_PostfixStore I)"

definition item_Load ::
  "(string \<Rightarrow> TKeyWordType) \<Rightarrow> (string \<Rightarrow> Wtroka) \<Rightarrow> (string \<Rightarrow> int list) \<Rightarrow> token list \<Rightarrow> CGrammarItem
     \<Rightarrow> (CGrammarItem \<times> token list) option" where
  "item_Load find_kw decode numbers s I =
     do {
       (x, s) \<leftarrow> get_type s; let I = I\<lparr>m_Type := x\<rparr>;
       (x, s) \<leftarrow> get_string s; let I = I\<lparr>m_ItemStrId := x\<rparr>;
       (x, s) \<leftarrow> get_wtroka s; let I = I\<lparr>m_Lemma := x\<rparr>;
       (x, s) \<leftarrow> get_attributes s; let I = I\<lparr>m_Attributes := x\<rparr>;
       (x, s) \<leftarrow> get_string s; let I = I\<lparr>m_Source := x\<rparr>;
       (x, s) \<leftarrow> get_grammems s; let I = I\<lparr>m_ItemGrammems := x\<rparr>;
       (x, s) \<leftarrow> get_grammems s; let I = I\<lparr>m_NegativeItemGrammems := x\<rparr>;
       (x, s) \<leftarrow> get_string s; let I = I\<lparr>m_GrmAttribute := x\<rparr>;
       (x, s) \<leftarrow> get_bool s; let I = I\<lparr>m_bGrammarRoot := x\<rparr>;
       (x, s) \<leftarrow> get_bool s; let I = I\<lparr>m_bSynMain := x\<rparr>;
       (x, s) \<leftarrow> get_bool s; let I = I\<lparr>m_bCanHaveManyHomonyms := x\<rparr>;
       (x, s) \<leftarrow> get_numbers s; let I = I\<lparr>m_vReplaceInterp := x\<rparr>;
       (x, s) \<leftarrow> postfix_Load s (m_PostfixStore I); let I = I\<lparr>m_PostfixStore := x\<rparr>;
       Some (LoadPostfixStore find_kw decode (LoadReplacementInterp numbers I), s)
     }"

lemma regexp_Load_Save:
  "regexp_Load (regexp_Save r @ s) r0 =
     Some (r\<lparr>RegexPattern := if RegexPattern r \<noteq> '''' then RegexPattern r else RegexPattern r0\<rparr>, s)"
  by (simp add: regexp_Load_def regexp_Save_def)

lemma postfix_Load_Save:
  assumes "RegexPattern (m_WordRegExp p0) = ''''"
  shows "postfix_Load (postfix_Save p @ s) p0 = Some (p\<lparr>m_lreg := m_lreg p0\<rparr>, s)"
proof -
  have "postfix_Load (postfix_Save p @ s) p0 =
      map_option (\<lambda>(r, s). (p\<lparr>m_lreg := m_lreg p0, m_WordRegExp := r\<rparr>, s)) (regexp_Load (regexp_Save (m_WordRegExp p) @ s) (m_WordRegExp p0))"
    by (simp add: postfix_Load_def postfix_Save_def)
      (cases p; cases p0; cases "regexp_Load (regexp_Save (m_WordRegExp p) @ s) (m_WordRegExp p0)"; simp add: case_prod_unfold)
  also have "\<dots> = Some (p\<lparr>m_lreg := m_lreg p0\<rparr>, s)"
    using assms by (cases "RegexPattern (m_WordRegExp p) = ''''") (simp_all add: regexp_Load_Save)
  finally show ?thesis .
qed

lemma LoadPostfixStore_no_attributes:
  assumes "\<And>p. map_of (m_Attributes I) (AlphabetPrefix p) = None"
  shows "LoadPostfixStore f d (LoadReplacementInterp n I) = I"
proof -
  have "fold (LoadPostfixStore1 f d) ps I = I" for ps
    by (induction ps) (simp_all add: LoadPostfixStore1_def assms)
  moreover have "LoadReplacementInterp n I = I" using assms [of REPLACE_INTERP] by (simp add: LoadReplacementInterp_def)
  ultimately show ?thesis by (simp add: LoadPostfixStore_def)
qed

text \<open>
  A saved item comes back, except for one attribute: once its attributes are moved into the
  store, as the compiler of grammars leaves it, an item that is saved and loaded into a new item is
  the same item without its \<^verbatim>\<open>LReg\<close> attribute, which is not written.
\<close>

lemma item_roundtrip:
  assumes "\<forall>p. map_of (m_Attributes I) (AlphabetPrefix p) = None"
  shows "item_Load find_kw decode numbers (item_Save I @ rest) grammar_item_init =
    Some (I\<lparr>m_PostfixStore := (m_PostfixStore I)\<lparr>m_lreg := PostfixCount\<rparr>\<rparr>, rest)"
proof -
  have init: "RegexPattern (m_WordRegExp (m_PostfixStore grammar_item_init)) = ''''"
    "m_lreg (m_PostfixStore grammar_item_init) = PostfixCount"
    by (simp_all add: grammar_item_init_def postfix_store_init_def regexp_init_def)
  let ?I = "I\<lparr>m_PostfixStore := (m_PostfixStore I)\<lparr>m_lreg := PostfixCount\<rparr>\<rparr>"
  have "item_Load find_kw decode numbers (item_Save I @ rest) grammar_item_init =
      Some (LoadPostfixStore find_kw decode (LoadReplacementInterp numbers ?I), rest)"
    using postfix_Load_Save [OF init(1), of "m_PostfixStore I" rest] init(2)
    by (cases I) (simp add: item_Load_def item_Save_def grammar_item_init_def)
  moreover have "LoadPostfixStore find_kw decode (LoadReplacementInterp numbers ?I) = ?I"
    by (rule LoadPostfixStore_no_attributes) (use assms in simp)
  ultimately show ?thesis by simp
qed

definition sample_lreg :: CGrammarItem where
  "sample_lreg = sample_a\<lparr>m_PostfixStore := postfix_store_init\<lparr>m_lreg := YEs, m_hreg := YEs\<rparr>\<rparr>"

lemma item_roundtrip_witness:
  "item_Load (\<lambda>_. None) (\<lambda>_. []) (\<lambda>_. []) (item_Save sample_lreg @ []) grammar_item_init =
     Some (sample_lreg\<lparr>m_PostfixStore := postfix_store_init\<lparr>m_hreg := YEs\<rparr>\<rparr>, []) \<and>
   HasPostfix sample_lreg LREG = YEs \<and>
   HasPostfix (fst (the (item_Load (\<lambda>_. None) (\<lambda>_. []) (\<lambda>_. []) (item_Save sample_lreg @ []) grammar_item_init))) LREG = PostfixCount"
proof -
  have "\<forall>p. map_of (m_Attributes sample_lreg) (AlphabetPrefix p) = None"
    by (simp add: sample_lreg_def sample_a_def grammar_item_init_def)
  from item_roundtrip [OF this, of "\<lambda>_. None" "\<lambda>_. []" "\<lambda>_. []" "[]"] show ?thesis
    by (simp add: sample_lreg_def postfix_store_init_def)
qed

text \<open>
  A rule and a filter come back from the vectors of \<^verbatim>\<open>int\<close> they are written to, as long as the
  numbers of the rule fit into an \<^verbatim>\<open>int\<close>; the vectors are appended to what the target already holds.
\<close>

lemma int_vector_roundtrip:
  assumes "m_OriginalRuleNo R < 2 ^ 31" "m_LeftPart R < 2 ^ 31" "m_SynMainItemNo (m_RightPart R) < 2 ^ 31"
    and "\<forall>s \<in> set (rhs R). s < 2 ^ 31"
  shows "ConvertIntVectorIntoRule (ConvertRuleIntoIntVector R []) Q =
      R\<lparr>m_RightPart := (m_RightPart R)\<lparr>m_Items := rhs Q @ rhs R\<rparr>\<rparr> \<and>
    ConvertIntVectorIntoFilter (ConvertFilterIntoIntVector f []) g = g @ f"
proof -
  have "map size_of_int (map int_of_size (rhs R)) = rhs R"
    using assms(4) size_of_int_of_size by (induction "rhs R") (auto simp: map_idI)
  then show ?thesis
    using assms(1-3) size_of_int_of_size
    by (simp add: ConvertIntVectorIntoRule_def ConvertRuleIntoIntVector_def ConvertIntVectorIntoFilter_def
        ConvertFilterIntoIntVector_def pairs_of_concat del: map_map)
qed

lemma int_vector_roundtrip_witness:
  "ConvertIntVectorIntoRule (ConvertRuleIntoIntVector (sample_rule 7 0 [1, 2]) []) (sample_rule 0 0 []) = sample_rule 7 0 [1, 2]"
  using int_vector_roundtrip [of "sample_rule 7 0 [1, 2]" "sample_rule 0 0 []"] by (simp add: sample_rule_def)

section \<open>Tables of special symbols\<close>

text \<open>The names of \<^verbatim>\<open>EInterpSymbs\<close>, in its order; a symbol kind is its number.\<close>

definition InterpSymbs :: "string list" where
  "InterpSymbs =
     [''FIO'', ''CompanyName'', ''CompanyNameQ'', ''CompanyNameBank'', ''CompLongName'', ''CompLongNameSub'',
      ''GEOOrgAsCompName'', ''MinOrgName'', ''GEOOrg'', ''GEO'', ''ShortName'', ''CompanyAbbrevW'', ''CompDescP'',
      ''CompDescPEllipse'', ''PossPronounCompDescrP'', ''SubCompP'', ''SubCompGeo'', ''SubCompPEllipse'',
      ''SubCompP_LReg'', ''ClearPost'', ''PostGeoBlock'', ''PostGeoBlock2'', ''PostMinBlock'', ''PostChiefVerbAcc'',
      ''PostChiefVerbIns'', ''NPStatus'', ''NPStatus_Adj'', ''NPStatus_postposition'', ''DateGr'', ''PostDescr'',
      ''PreFioNP'', ''FdoPRes'', ''FIOChain'', ''FdoCompAbbrevEllipse'', ''FdoCompDescrEllipse'',
      ''FdoEmptyDescrEllipse'', ''FdoPossessiveEllipse'', ''LOrderFdoP'', ''ROrderFdoP'']"

definition InterpSymbsCount :: nat where
  "InterpSymbsCount = 39"

text \<open>The two loops of \<^verbatim>\<open>LoadInterpSymbForGrammar\<close>; the inner one stops at the first equal name.\<close>

fun interp_symbol :: "string \<Rightarrow> nat \<Rightarrow> nat list \<Rightarrow> nat list list \<Rightarrow> nat list list" where
  "interp_symbol s i [] v = v"
| "interp_symbol s i (j # js) v =
     (if InterpSymbs ! j = s then v[j := v ! j @ [i]] else interp_symbol s i js v)"

text \<open>\<^verbatim>\<open>v.resize(n)\<close> on a vector of vectors keeps the elements there are.\<close>

definition resize_sets :: "nat \<Rightarrow> nat list list \<Rightarrow> nat list list" where
  "resize_sets n v = take n v @ replicate (n - length v) []"

definition LoadInterpSymbForGrammar :: "('a CWorkGrammar_scheme) \<Rightarrow> nat list list \<Rightarrow> nat list list" where
  "LoadInterpSymbForGrammar G v =
     fold (\<lambda>i v. interp_symbol (m_ItemStrId (m_UniqueGrammarItems G ! i)) i [0..<InterpSymbsCount] v)
       [0..<length (m_UniqueGrammarItems G)] (resize_sets InterpSymbsCount v)"

text \<open>\<^verbatim>\<open>at\<close> raises outside the vector: \<open>None\<close>.\<close>

definition IsCertainInterpSymbol :: "nat list list \<Rightarrow> nat \<Rightarrow> nat \<Rightarrow> bool option" where
  "IsCertainInterpSymbol v eInterp iSymbID =
     (if eInterp < length v then Some (list_ex (\<lambda>s. iSymbID = s) (v ! eInterp)) else None)"

text \<open>The end-of-sentence terminal: the old number stays if there is none.\<close>

definition LoadEOFSentTerminal :: "('a CWorkGrammar_scheme) \<Rightarrow> int \<Rightarrow> int" where
  "LoadEOFSentTerminal G i_EOSentNum =
     (case List.find (\<lambda>i. m_ItemStrId (m_UniqueGrammarItems G ! i) = ''EOSent'') [0..<length (m_UniqueGrammarItems G)] of
        Some i \<Rightarrow> int i | None \<Rightarrow> i_EOSentNum)"

text \<open>\<open>FindTerminal\<close> is the virtual function of \<^verbatim>\<open>ITerminalDictionary\<close>.\<close>

definition BuildTerminalIndex :: "(string \<Rightarrow> 't) \<Rightarrow> CGrammarItem list \<Rightarrow> (nat \<times> 't) list \<Rightarrow> (nat \<times> 't) list" where
  "BuildTerminalIndex FindTerminal items ix =
     fold (\<lambda>i ix. if m_Type (items ! i) \<in> {siString, siAnyWord, siFileList}
         then omap_set (<) i (FindTerminal (m_ItemStrId (items ! i))) ix else ix) [0..<length items] ix"

text \<open>
  \<^verbatim>\<open>CheckInterpretationFields\<close>: \<open>facts\<close> are the sizes of \<^verbatim>\<open>m_FactsInterpretation\<close> of the agreements of every rule.
\<close>

definition CheckInterpretationFields :: "nat list list \<Rightarrow> bool \<Rightarrow> bool" where
  "CheckInterpretationFields facts m_bNoInterpretation =
     (if m_bNoInterpretation then True else \<not> list_ex (list_ex (\<lambda>n. n > 0)) facts)"

lemma distinct_InterpSymbs: "distinct InterpSymbs" "length InterpSymbs = InterpSymbsCount"
  by code_simp+

lemma interp_symbol_spec:
  assumes "set js \<subseteq> {..<InterpSymbsCount}" "length v = InterpSymbsCount"
  shows "length (interp_symbol s i js v) = InterpSymbsCount \<and>
    (\<forall>j < InterpSymbsCount. set (interp_symbol s i js v ! j) =
       set (v ! j) \<union> (if j \<in> set js \<and> InterpSymbs ! j = s then {i} else {}))"
  using assms
proof (induction js)
  case (Cons k js)
  show ?case
  proof (cases "InterpSymbs ! k = s")
    case True
    have "j = k" if "j < InterpSymbsCount" "InterpSymbs ! j = s" for j
      using True that Cons.prems(1) distinct_InterpSymbs nth_eq_iff_index_eq by fastforce
    then show ?thesis using True Cons.prems by (auto simp: nth_list_update)
  next
    case False
    then show ?thesis using Cons by auto
  qed
qed simp

lemma LoadInterpSymb_spec:
  "length (LoadInterpSymbForGrammar G []) = InterpSymbsCount \<and>
   (\<forall>j < InterpSymbsCount. set (LoadInterpSymbForGrammar G [] ! j) =
      {i. i < length (m_UniqueGrammarItems G) \<and> m_ItemStrId (m_UniqueGrammarItems G ! i) = InterpSymbs ! j})"
proof -
  let ?f = "\<lambda>i v. interp_symbol (m_ItemStrId (m_UniqueGrammarItems G ! i)) i [0..<InterpSymbsCount] v"
  have "length (fold ?f [0..<n] (resize_sets InterpSymbsCount [])) = InterpSymbsCount \<and>
      (\<forall>j < InterpSymbsCount. set (fold ?f [0..<n] (resize_sets InterpSymbsCount []) ! j) =
         {i. i < n \<and> m_ItemStrId (m_UniqueGrammarItems G ! i) = InterpSymbs ! j})" for n
  proof (induction n)
    case 0
    then show ?case by (simp add: resize_sets_def)
  next
    case (Suc n)
    let ?v = "fold ?f [0..<n] (resize_sets InterpSymbsCount [])"
    have "fold ?f [0..<Suc n] (resize_sets InterpSymbsCount []) = ?f n ?v" by simp
    moreover have "length (?f n ?v) = InterpSymbsCount \<and> (\<forall>j < InterpSymbsCount. set (?f n ?v ! j) =
       set (?v ! j) \<union> (if j \<in> set [0..<InterpSymbsCount] \<and> InterpSymbs ! j = m_ItemStrId (m_UniqueGrammarItems G ! n) then {n} else {}))"
      by (rule interp_symbol_spec) (use Suc in auto)
    ultimately show ?case using Suc by (auto simp: less_Suc_eq)
  qed
  then show ?thesis by (simp add: LoadInterpSymbForGrammar_def)
qed

lemma find_upt_first:
  "List.find P [0..<n] = (if \<exists>i < n. P i then Some (LEAST i. P i) else None)"
proof (cases "\<exists>i < n. P i")
  case True
  then obtain i where i: "i < n" "P i" by blast
  have least: "P (LEAST i. P i)" "(LEAST i. P i) \<le> i" using i LeastI Least_le by metis+
  have "List.find P [0..<n] = Some (LEAST i. P i)"
    unfolding find_Some_iff using least i not_less_Least by (intro exI [of _ "LEAST i. P i"]) auto
  then show ?thesis using True by simp
qed (auto simp: find_None_iff)

text \<open>
  After \<^verbatim>\<open>LoadInterpSymbForGrammar\<close> on a new grammar, \<^verbatim>\<open>IsCertainInterpSymbol\<close> raises for a kind that is not
  in the enumeration and otherwise tells exactly the items that have the name of the kind;
  \<^verbatim>\<open>LoadEOFSentTerminal\<close> finds the first item named \<^verbatim>\<open>EOSent\<close>, or keeps the old number.
\<close>

lemma special_symbols_correct:
  "IsCertainInterpSymbol (LoadInterpSymbForGrammar G []) e i =
     (if e < InterpSymbsCount
      then Some (i < length (m_UniqueGrammarItems G) \<and> m_ItemStrId (m_UniqueGrammarItems G ! i) = InterpSymbs ! e)
      else None) \<and>
   LoadEOFSentTerminal G old =
     (if \<exists>i < length (m_UniqueGrammarItems G). m_ItemStrId (m_UniqueGrammarItems G ! i) = ''EOSent''
      then int (LEAST i. m_ItemStrId (m_UniqueGrammarItems G ! i) = ''EOSent'') else old)"
proof (rule conjI)
  show "IsCertainInterpSymbol (LoadInterpSymbForGrammar G []) e i =
     (if e < InterpSymbsCount
      then Some (i < length (m_UniqueGrammarItems G) \<and> m_ItemStrId (m_UniqueGrammarItems G ! i) = InterpSymbs ! e)
      else None)"
    using LoadInterpSymb_spec [of G] by (auto simp: IsCertainInterpSymbol_def list_ex_iff)
  show "LoadEOFSentTerminal G old =
     (if \<exists>i < length (m_UniqueGrammarItems G). m_ItemStrId (m_UniqueGrammarItems G ! i) = ''EOSent''
      then int (LEAST i. m_ItemStrId (m_UniqueGrammarItems G ! i) = ''EOSent'') else old)"
    unfolding LoadEOFSentTerminal_def find_upt_first
    by (cases "\<exists>i < length (m_UniqueGrammarItems G). m_ItemStrId (m_UniqueGrammarItems G ! i) = ''EOSent''")
      (simp_all only: if_True if_False option.case)
qed

end
