(* ===== verification/HashIndex.thy ===== *)
theory HashIndex
  imports Prelude
begin

text \<open>
  The index of a vector by hash of its elements, \<^verbatim>\<open>THashIndex\<close>, and the vector with such an index,
  \<^verbatim>\<open>TIndexator\<close> (\<^verbatim>\<open>kernel/gazetteer/common/hashindex.h\<close>).

  A bucket is the list of its chunks, a chunk the list of the at most 16 indices in it; the pool of
  free chunks is memory management and is left out. The keys are not part of the index: it refers
  to the vector, so the operations take the vector as an argument. The locale \<open>hash_key\<close> states
  what the index expects of the hash function and of the equality of keys.
\<close>

section \<open>Bucket count\<close>

definition y_prime_list :: "nat list" where
  "y_prime_list =
     [7, 17, 29, 53, 97, 193, 389, 769, 1543, 3079, 6151, 12289, 24593, 49157, 98317, 196613,
      393241, 786433, 1572869, 3145739, 6291469, 12582917, 25165843, 50331653, 100663319,
      201326611, 402653189, 805306457, 1610612741, 3221225473, 4294967291]"

record TPrimeSize =
  Prime :: nat
  SizeOf :: nat

definition prime_size_init :: TPrimeSize where
  "prime_size_init = \<lparr>Prime = 0, SizeOf = 0\<rparr>"

definition BucketCount :: "TPrimeSize \<Rightarrow> nat" where
  "BucketCount ps = y_prime_list ! Prime ps"

function prime_advance :: "nat \<Rightarrow> nat \<Rightarrow> nat" where
  "prime_advance p n =
     (if p < length y_prime_list - 1 \<and> y_prime_list ! (p + 1) \<le> n then prime_advance (p + 1) n else p)"
  by pat_completeness auto

termination by (relation "measure (\<lambda>(p, n). length y_prime_list - p)") auto

declare prime_advance.simps [simp del]

definition prime_resize :: "nat \<Rightarrow> TPrimeSize \<Rightarrow> TPrimeSize" where
  "prime_resize n ps = \<lparr>Prime = prime_advance (Prime ps) n, SizeOf = n\<rparr>"

definition prime_next :: "TPrimeSize \<Rightarrow> TPrimeSize" where
  "prime_next ps = prime_resize (SizeOf ps + 1) ps"

lemma prime_advance_less: "p < length y_prime_list \<Longrightarrow> prime_advance p n < length y_prime_list"
proof (induction p n rule: prime_advance.induct)
  case (1 p n)
  then show ?case by (subst prime_advance.simps) auto
qed

lemma BucketCount_pos: "Prime ps < length y_prime_list \<Longrightarrow> 0 < BucketCount ps"
proof -
  assume "Prime ps < length y_prime_list"
  then have "BucketCount ps \<in> set y_prime_list" by (simp add: BucketCount_def)
  then show ?thesis by (auto simp: y_prime_list_def)
qed

section \<open>Buckets\<close>

type_synonym TBucket = "nat list list"

definition CHUNK_SIZE :: nat where "CHUNK_SIZE = 16"

definition bucket_push_back :: "nat \<Rightarrow> TBucket \<Rightarrow> TBucket" where
  "bucket_push_back idx b =
     (if b = [] then [[idx]]
      else if length (last b) = CHUNK_SIZE then b @ [[idx]]
      else butlast b @ [last b @ [idx]])"

lemma concat_bucket_push_back: "concat (bucket_push_back idx b) = concat b @ [idx]"
proof (cases "b = []")
  case False
  then have "concat b = concat (butlast b) @ last b"
    by (metis append_butlast_last_id concat.simps concat_append append_Nil2)
  then show ?thesis using False by (auto simp: bucket_push_back_def)
qed (simp add: bucket_push_back_def)

text \<open>The chunk invariant the iterator relies on: no chunk is empty, none is too long.\<close>

definition chunks_ok :: "TBucket \<Rightarrow> bool" where
  "chunks_ok b \<longleftrightarrow> list_all (\<lambda>c. c \<noteq> [] \<and> length c \<le> CHUNK_SIZE) b"

lemma chunks_ok_push_back: "chunks_ok b \<Longrightarrow> chunks_ok (bucket_push_back idx b)"
proof (cases "b = []")
  case False
  assume "chunks_ok b"
  then have "list_all (\<lambda>c. c \<noteq> [] \<and> length c \<le> CHUNK_SIZE) (butlast b)" "length (last b) \<le> CHUNK_SIZE"
    using False by (auto simp: chunks_ok_def list_all_iff dest: in_set_butlastD)
  then show ?thesis
    using False \<open>chunks_ok b\<close> by (auto simp: chunks_ok_def bucket_push_back_def CHUNK_SIZE_def)
qed (simp add: chunks_ok_def bucket_push_back_def CHUNK_SIZE_def)

section \<open>The index\<close>

record THashIndex =
  SizeData :: TPrimeSize
  Buckets :: "TBucket list"

definition hash_index_init :: THashIndex where
  "hash_index_init = \<lparr>SizeData = prime_size_init, Buckets = replicate (BucketCount prime_size_init) []\<rparr>"

definition push_index :: "nat \<Rightarrow> nat \<Rightarrow> TBucket list \<Rightarrow> TBucket list" where
  "push_index hash idx bs =
     (let b = hash mod length bs in bs[b := bucket_push_back idx (bs ! b)])"

text \<open>
  \<^verbatim>\<open>ExtractChunks\<close> takes the chunks of the buckets and puts each in front of those before it.
\<close>

definition ExtractChunks :: "TBucket list \<Rightarrow> nat list list" where
  "ExtractChunks bs = rev (concat bs)"

definition RearrangeBuckets :: "('k \<Rightarrow> nat) \<Rightarrow> 'k list \<Rightarrow> THashIndex \<Rightarrow> THashIndex" where
  "RearrangeBuckets hash Keys ix =
     ix\<lparr>Buckets := fold (fold (\<lambda>idx. push_index (hash (Keys ! idx)) idx))
         (ExtractChunks (Buckets ix)) (replicate (BucketCount (SizeData ix)) [])\<rparr>"

definition Insert ::
  "('k \<Rightarrow> 'k \<Rightarrow> bool) \<Rightarrow> ('k \<Rightarrow> nat) \<Rightarrow> 'k list \<Rightarrow> 'k \<Rightarrow> nat \<Rightarrow> THashIndex \<Rightarrow> bool \<times> nat \<times> THashIndex" where
  "Insert eq hash Keys key index ix =
     (let h = hash key;
          bucket = Buckets ix ! (h mod length (Buckets ix))
      in case List.find (\<lambda>it. eq (Keys ! it) key) (concat bucket) of
           Some it \<Rightarrow> (False, it, ix)
         | None \<Rightarrow>
             (let ix1 = ix\<lparr>SizeData := prime_next (SizeData ix)\<rparr>;
                  ix2 = (if BucketCount (SizeData ix1) > length (Buckets ix1)
                         then RearrangeBuckets hash Keys ix1 else ix1)
              in (True, index, ix2\<lparr>Buckets := push_index h index (Buckets ix2)\<rparr>)))"

record 'k TIndexator =
  Storage :: "'k list"
  Index :: THashIndex

definition indexator_init :: "'k TIndexator" where
  "indexator_init = \<lparr>Storage = [], Index = hash_index_init\<rparr>"

definition indexator_Add ::
  "bool \<Rightarrow> ('k \<Rightarrow> 'k \<Rightarrow> bool) \<Rightarrow> ('k \<Rightarrow> nat) \<Rightarrow> 'k \<Rightarrow> 'k TIndexator \<Rightarrow> nat \<times> 'k TIndexator" where
  "indexator_Add UniqSets eq hash item t =
     (let idx = length (Storage t)
      in if \<not> UniqSets then (idx, t\<lparr>Storage := Storage t @ [item]\<rparr>)
         else (let (inserted, idx', ix') = Insert eq hash (Storage t) item idx (Index t)
               in if inserted then (idx', t\<lparr>Storage := Storage t @ [item], Index := ix'\<rparr>)
                  else (idx', t\<lparr>Index := ix'\<rparr>)))"

section \<open>What the index relies on and guarantees\<close>

definition index_ok :: "nat \<Rightarrow> THashIndex \<Rightarrow> bool" where
  "index_ok n ix \<longleftrightarrow>
     Prime (SizeData ix) < length y_prime_list \<and> Buckets ix \<noteq> [] \<and>
     (\<forall>b \<in> set (Buckets ix). chunks_ok b \<and> set (concat b) \<subseteq> {..<n})"

lemma index_ok_mono:
  assumes "index_ok n ix" "n \<le> m"
  shows "index_ok m ix"
proof -
  have "{..<n} \<subseteq> {..<m}" using assms(2) by auto
  then show ?thesis using assms(1) unfolding index_ok_def by (meson order_trans)
qed

text \<open>An index is found by its key when it is in the bucket of the key's hash.\<close>

definition placed :: "('k \<Rightarrow> nat) \<Rightarrow> 'k list \<Rightarrow> THashIndex \<Rightarrow> nat \<Rightarrow> bool" where
  "placed hash Keys ix i \<longleftrightarrow>
     i \<in> set (concat (Buckets ix ! (hash (Keys ! i) mod length (Buckets ix))))"

locale hash_key =
  fixes eq :: "'k \<Rightarrow> 'k \<Rightarrow> bool"
    and hash :: "'k \<Rightarrow> nat"
  assumes eq_refl: "eq x x"
    and eq_sym: "eq x y \<Longrightarrow> eq y x"
    and eq_trans: "eq x y \<Longrightarrow> eq y z \<Longrightarrow> eq x z"
    and eq_hash: "eq x y \<Longrightarrow> hash x = hash y"

lemma index_ok_init: "index_ok n hash_index_init"
  by (simp add: index_ok_def hash_index_init_def prime_size_init_def BucketCount_def y_prime_list_def chunks_ok_def)

lemma length_push_index [simp]: "length (push_index h i bs) = length bs"
  by (simp add: push_index_def Let_def)

lemma push_index_nth:
  assumes "bs \<noteq> []"
  shows "concat (push_index h i bs ! b) =
     (if b = h mod length bs then concat (bs ! b) @ [i] else concat (bs ! b))"
  using assms by (auto simp: push_index_def Let_def nth_list_update concat_bucket_push_back)

lemma push_index_all:
  assumes "bs \<noteq> []" "\<forall>b \<in> set bs. chunks_ok b \<and> set (concat b) \<subseteq> U" "i \<in> U"
  shows "\<forall>b \<in> set (push_index h i bs). chunks_ok b \<and> set (concat b) \<subseteq> U"
proof -
  have "bs ! (h mod length bs) \<in> set bs" using assms(1) by simp
  then have "chunks_ok (bucket_push_back i (bs ! (h mod length bs))) \<and>
      set (concat (bucket_push_back i (bs ! (h mod length bs)))) \<subseteq> U"
    using assms(2,3) chunks_ok_push_back by (auto simp: concat_bucket_push_back simp del: set_concat)
  then show ?thesis
    using assms(2) by (auto simp: push_index_def Let_def dest!: set_update_subset_insert [THEN subsetD])
qed

lemma fold_fold_concat: "fold (fold f) xss s = fold f (concat xss) s"
  by (induction xss arbitrary: s) auto

lemma push_all_nth:
  assumes "bs \<noteq> []"
  shows "length (fold (\<lambda>i. push_index (h i) i) xs bs) = length bs \<and>
     concat (fold (\<lambda>i. push_index (h i) i) xs bs ! b) =
       concat (bs ! b) @ filter (\<lambda>i. h i mod length bs = b) xs"
  using assms
proof (induction xs arbitrary: bs)
  case (Cons x xs)
  have "push_index (h x) x bs \<noteq> []" using Cons.prems by (metis length_0_conv length_push_index)
  then show ?case
    using Cons.IH [of "push_index (h x) x bs"] push_index_nth [OF Cons.prems, of "h x" x b] by auto
qed simp

lemma push_all_ok:
  assumes "bs \<noteq> []" "\<forall>b \<in> set bs. chunks_ok b \<and> set (concat b) \<subseteq> U" "set xs \<subseteq> U"
  shows "\<forall>b \<in> set (fold (\<lambda>i. push_index (h i) i) xs bs). chunks_ok b \<and> set (concat b) \<subseteq> U"
  using assms
proof (induction xs arbitrary: bs)
  case (Cons x xs)
  have ne: "push_index (h x) x bs \<noteq> []" using Cons.prems(1) by (metis length_0_conv length_push_index)
  have x: "x \<in> U" and xs: "set xs \<subseteq> U" using Cons.prems(3) by auto
  show ?case
    unfolding fold_simps(2) by (rule Cons.IH [OF ne push_index_all [OF Cons.prems(1,2) x] xs])
qed simp

text \<open>Rearranging keeps the entries and puts each into the bucket of its key.\<close>

lemma Rearrange_ok:
  assumes ok: "index_ok n ix"
  shows "index_ok n (RearrangeBuckets hash Keys ix)"
    and "placed hash Keys ix i \<Longrightarrow> placed hash Keys (RearrangeBuckets hash Keys ix) i"
proof -
  let ?m = "BucketCount (SizeData ix)" and ?xs = "concat (ExtractChunks (Buckets ix))"
  have m: "0 < ?m" using ok by (intro BucketCount_pos) (simp add: index_ok_def)
  have xs: "set ?xs = (\<Union>b \<in> set (Buckets ix). set (concat b))"
    by (auto simp: ExtractChunks_def)
  have B: "Buckets (RearrangeBuckets hash Keys ix) =
      fold (\<lambda>i. push_index (hash (Keys ! i)) i) ?xs (replicate ?m [])"
    by (simp add: RearrangeBuckets_def fold_fold_concat)
  note nth = push_all_nth [of "replicate ?m []" "\<lambda>i. hash (Keys ! i)" ?xs, folded B]
  have ne: "replicate ?m ([] :: TBucket) \<noteq> []" using m by simp
  have "\<forall>b \<in> set (Buckets (RearrangeBuckets hash Keys ix)). chunks_ok b \<and> set (concat b) \<subseteq> {..<n}"
    unfolding B by (rule push_all_ok [OF ne])
      (use ok xs in \<open>auto simp: chunks_ok_def index_ok_def simp del: set_concat\<close>)
  moreover have "Buckets (RearrangeBuckets hash Keys ix) \<noteq> []"
    using nth [of 0] m by auto
  ultimately show "index_ok n (RearrangeBuckets hash Keys ix)"
    using ok by (simp add: index_ok_def RearrangeBuckets_def)
  assume p: "placed hash Keys ix i"
  have "Buckets ix \<noteq> []" using ok by (simp add: index_ok_def)
  then have "i \<in> set ?xs" using p xs by (force simp: placed_def)
  then show "placed hash Keys (RearrangeBuckets hash Keys ix) i"
    using nth m by (simp add: placed_def del: set_concat)
qed

context hash_key begin

lemma Insert_found:
  assumes "index_ok (length Keys) ix" "Insert eq hash Keys key index ix = (False, j, ix')"
  shows "ix' = ix" "j < length Keys" "eq (Keys ! j) key"
proof -
  let ?b = "Buckets ix ! (hash key mod length (Buckets ix))"
  have f: "List.find (\<lambda>it. eq (Keys ! it) key) (concat ?b) = Some j" "ix' = ix"
    using assms(2) by (auto simp: Insert_def Let_def split: option.splits)
  have "?b \<in> set (Buckets ix)" using assms(1) by (simp add: index_ok_def)
  then have "set (concat ?b) \<subseteq> {..<length Keys}" using assms(1) by (simp add: index_ok_def del: set_concat)
  moreover have "j \<in> set (concat ?b)" using f(1) by (metis find_Some_iff nth_mem)
  ultimately show "j < length Keys" by blast
  show "ix' = ix" "eq (Keys ! j) key" using f by (auto simp: find_Some_iff)
qed

lemma Insert_new:
  assumes ok: "index_ok (length Keys) ix"
    and ins: "Insert eq hash Keys key (length Keys) ix = (True, j, ix')"
  shows "j = length Keys" "index_ok (Suc (length Keys)) ix'"
    and "placed hash (Keys @ [key]) ix' (length Keys)"
    and "\<And>i. i < length Keys \<Longrightarrow> placed hash Keys ix i \<Longrightarrow> placed hash (Keys @ [key]) ix' i \<and> \<not> eq (Keys ! i) key"
proof -
  define ix1 where "ix1 = ix\<lparr>SizeData := prime_next (SizeData ix)\<rparr>"
  define ix2 where "ix2 = (if BucketCount (SizeData ix1) > length (Buckets ix1)
      then RearrangeBuckets hash Keys ix1 else ix1)"
  have f: "List.find (\<lambda>it. eq (Keys ! it) key) (concat (Buckets ix ! (hash key mod length (Buckets ix)))) = None"
    and j: "j = length Keys" and ix': "ix' = ix2\<lparr>Buckets := push_index (hash key) (length Keys) (Buckets ix2)\<rparr>"
    using ins by (auto simp: Insert_def Let_def ix1_def ix2_def split: option.splits)
  have ok1: "index_ok (length Keys) ix1"
    using ok prime_advance_less by (simp add: index_ok_def ix1_def prime_next_def prime_resize_def)
  have ok2: "index_ok (length Keys) ix2" using ok1 Rearrange_ok(1) [OF ok1, of hash Keys] by (simp add: ix2_def)
  then have ne: "Buckets ix2 \<noteq> []" by (simp add: index_ok_def)
  show "j = length Keys" by (rule j)
  have all2: "\<forall>b \<in> set (Buckets ix2). chunks_ok b \<and> set (concat b) \<subseteq> {..<Suc (length Keys)}"
    using index_ok_mono [OF ok2, of "Suc (length Keys)"] by (simp add: index_ok_def del: set_concat)
  have B': "Buckets ix' = push_index (hash key) (length Keys) (Buckets ix2)" by (simp add: ix')
  have "\<forall>b \<in> set (Buckets ix'). chunks_ok b \<and> set (concat b) \<subseteq> {..<Suc (length Keys)}"
    unfolding B' by (rule push_index_all [OF ne all2]) simp
  moreover have "Buckets ix' \<noteq> []"
    using ne by (simp add: ix') (metis length_0_conv length_push_index)
  ultimately show "index_ok (Suc (length Keys)) ix'"
    using ok2 by (simp add: index_ok_def ix' del: set_concat)
  show "placed hash (Keys @ [key]) ix' (length Keys)"
    using push_index_nth [OF ne] by (simp add: placed_def ix' del: set_concat)
  fix i assume i: "i < length Keys" and p: "placed hash Keys ix i"
  have "placed hash Keys ix1 i" using p by (simp add: placed_def ix1_def)
  then have "placed hash Keys ix2 i" using Rearrange_ok(2) [OF ok1, of hash Keys i] by (simp add: ix2_def)
  then have "placed hash (Keys @ [key]) ix' i"
    using i push_index_nth [OF ne] by (auto simp: placed_def ix' nth_append simp del: set_concat)
  moreover have "\<not> eq (Keys ! i) key"
  proof
    assume "eq (Keys ! i) key"
    then have "i \<in> set (concat (Buckets ix ! (hash key mod length (Buckets ix))))"
      using p eq_hash by (simp add: placed_def)
    then show False using f \<open>eq (Keys ! i) key\<close> by (metis find_None_iff)
  qed
  ultimately show "placed hash (Keys @ [key]) ix' i \<and> \<not> eq (Keys ! i) key" ..
qed

text \<open>
  Adding to a vector with an index. What is returned always stands for the item. When every
  element is where its key says, the item is appended only if it is new.
\<close>

lemma Add_sound:
  assumes "index_ok (length (Storage t)) (Index t)" "indexator_Add u eq hash item t = (j, t')"
  shows "j < length (Storage t')" "eq (Storage t' ! j) item" "index_ok (length (Storage t')) (Index t')"
    and "Storage t' = Storage t \<or> j = length (Storage t) \<and> Storage t' = Storage t @ [item]"
proof -
  have "j < length (Storage t') \<and> eq (Storage t' ! j) item \<and> index_ok (length (Storage t')) (Index t') \<and>
     (Storage t' = Storage t \<or> j = length (Storage t) \<and> Storage t' = Storage t @ [item])"
  proof (cases u)
    case False
    moreover have "index_ok (Suc (length (Storage t))) (Index t)"
      using index_ok_mono [OF assms(1)] by simp
    ultimately show ?thesis using assms(2) eq_refl by (auto simp: indexator_Add_def Let_def)
  next
    case True
    obtain b k ix where I: "Insert eq hash (Storage t) item (length (Storage t)) (Index t) = (b, k, ix)"
      by (metis surj_pair)
    show ?thesis
    proof (cases b)
      case True
      then show ?thesis
        using assms(2) \<open>u\<close> Insert_new(1,2) [OF assms(1), of item k ix] I eq_refl
        by (auto simp: indexator_Add_def Let_def)
    next
      case False
      then show ?thesis
        using assms \<open>u\<close> Insert_found [OF assms(1), of item "length (Storage t)" k ix] I
        by (auto simp: indexator_Add_def Let_def)
    qed
  qed
  then show "j < length (Storage t')" "eq (Storage t' ! j) item" "index_ok (length (Storage t')) (Index t')"
    "Storage t' = Storage t \<or> j = length (Storage t) \<and> Storage t' = Storage t @ [item]" by auto
qed

definition all_placed :: "'k TIndexator \<Rightarrow> bool" where
  "all_placed t \<longleftrightarrow> index_ok (length (Storage t)) (Index t) \<and>
     (\<forall>i < length (Storage t). placed hash (Storage t) (Index t) i)"

lemma Add_unique:
  assumes inv: "all_placed t" and add: "indexator_Add True eq hash item t = (j, t')"
  shows "all_placed t'" "j < length (Storage t')" "eq (Storage t' ! j) item"
    and "Storage t' = (if list_ex (\<lambda>x. eq x item) (Storage t) then Storage t else Storage t @ [item])"
proof -
  have ok: "index_ok (length (Storage t)) (Index t)" using inv by (simp add: all_placed_def)
  note s = Add_sound [OF ok add]
  show "j < length (Storage t')" "eq (Storage t' ! j) item" by (rule s)+
  obtain b k ix where I: "Insert eq hash (Storage t) item (length (Storage t)) (Index t) = (b, k, ix)"
    by (metis surj_pair)
  have "all_placed t' \<and>
     Storage t' = (if list_ex (\<lambda>x. eq x item) (Storage t) then Storage t else Storage t @ [item])"
  proof (cases b)
    case True
    note n = Insert_new [OF ok, of item j ix]
    have I': "Insert eq hash (Storage t) item (length (Storage t)) (Index t) = (True, j, ix)"
      and t': "t' = t\<lparr>Storage := Storage t @ [item], Index := ix\<rparr>"
      using add I True by (auto simp: indexator_Add_def Let_def)
    have "\<not> list_ex (\<lambda>x. eq x item) (Storage t)"
      using n(4) [OF I'] inv by (auto simp: all_placed_def list_ex_length)
    moreover have "all_placed t'"
      using n(2-4) [OF I'] inv by (auto simp: all_placed_def t' less_Suc_eq)
    ultimately show ?thesis by (simp add: t')
  next
    case False
    then have "t' = t" using add I Insert_found [OF ok] by (auto simp: indexator_Add_def Let_def)
    then show ?thesis using s(1,2) inv by (auto simp: list_ex_length)
  qed
  then show "all_placed t'"
    "Storage t' = (if list_ex (\<lambda>x. eq x item) (Storage t) then Storage t else Storage t @ [item])"
    by blast+
qed

end

end
