(* ===== verification/CompactStorage.thy ===== *)
theory CompactStorage
  imports HashIndex
begin

text \<open>
  Storage of items and sets of items behind 32-bit indices: \<^verbatim>\<open>TCompactStorageBuilder\<close>,
  \<^verbatim>\<open>TCompactStorage\<close> (\<^verbatim>\<open>kernel/gazetteer/common/compactstorage.h\<close>) and the vector of vectors
  \<^verbatim>\<open>TVectorsVector\<close> it is saved as (\<^verbatim>\<open>vector2d.h\<close>).

  An even index stands for a single item, an odd one for a set; index 1 is the empty set. A set
  with at most one user is changed in place, a shared one is copied. The lemmas show that every
  operation returns an index of the set it should, that it changes no other index, and that saving
  and loading keeps what an index stands for.

  Indices are numbers below \<open>2^32\<close>; the conversions to \<^verbatim>\<open>TIndex\<close> are written as \<open>to_index\<close>. The hash
  table from items to indices is an association list; the hash of an index is a parameter.
\<close>

definition to_index :: "nat \<Rightarrow> nat" where
  "to_index n = n mod 2 ^ 32"

section \<open>Vector of vectors\<close>

record TVectorsVector =
  AllItems :: "nat list"
  FirstIndex :: "nat list"

definition vectors_Size :: "TVectorsVector \<Rightarrow> nat" where
  "vectors_Size v = (if length (FirstIndex v) > 0 then length (FirstIndex v) - 1 else 0)"

definition SubVector :: "TVectorsVector \<Rightarrow> nat \<Rightarrow> nat list" where
  "SubVector v index =
     take (FirstIndex v ! (index + 1) - FirstIndex v ! index) (drop (FirstIndex v ! index) (AllItems v))"

text \<open>The constructor from a vector of containers; \<open>None\<close> is the overflow exception.\<close>

fun fill_vectors :: "nat list list \<Rightarrow> nat \<Rightarrow> (nat list \<times> nat list) option" where
  "fill_vectors [] cur_size = Some ([], [])"
| "fill_vectors (values # source) cur_size =
     (if cur_size \<ge> 2 ^ 32 - 1 then None
      else case fill_vectors source (cur_size + length values) of
          None \<Rightarrow> None
        | Some (all, first) \<Rightarrow> Some (values @ all, cur_size # first))"

definition VectorsVector :: "nat list list \<Rightarrow> TVectorsVector option" where
  "VectorsVector source =
     (case fill_vectors source 0 of
        None \<Rightarrow> None
      | Some (all, first) \<Rightarrow> Some \<lparr>AllItems = all, FirstIndex = first @ [length all]\<rparr>)"

lemma fill_vectors_spec:
  assumes "fill_vectors source n = Some (all, first)"
  shows "all = concat source \<and> length first = length source \<and>
     (\<forall>i < length source. first ! i = n + length (concat (take i source)))"
  using assms
proof (induction source arbitrary: n all first)
  case (Cons v source)
  then obtain all' first' where rec: "fill_vectors source (n + length v) = Some (all', first')"
    and eq: "all = v @ all'" "first = n # first'"
    by (auto split: if_splits option.splits)
  show ?case
    using Cons.IH [OF rec] eq by (auto simp: nth_Cons split: nat.splits)
qed simp

lemma VectorsVector_spec:
  assumes "VectorsVector source = Some v"
  shows "vectors_Size v = length source" and "i < length source \<Longrightarrow> SubVector v i = source ! i"
proof -
  obtain all first where f: "fill_vectors source 0 = Some (all, first)"
    and v: "v = \<lparr>AllItems = all, FirstIndex = first @ [length all]\<rparr>"
    using assms by (auto simp: VectorsVector_def split: option.splits)
  note s = fill_vectors_spec [OF f]
  show "vectors_Size v = length source" using s by (simp add: vectors_Size_def v)
  assume i: "i < length source"
  have first: "(first @ [length all]) ! j = length (concat (take j source))" if "j \<le> length source" for j
    using s that by (cases "j < length source") (auto simp: nth_append)
  have "concat source = concat (take i source) @ source ! i @ concat (drop (Suc i) source)"
    by (metis concat.simps(2) concat_append i id_take_nth_drop)
  moreover have "length (concat (take (Suc i) source)) = length (concat (take i source)) + length (source ! i)"
    using i by (simp add: take_Suc_conv_app_nth)
  ultimately show "SubVector v i = source ! i"
    using i s first [of i] first [of "Suc i"] by (simp add: SubVector_def v)
qed

section \<open>The builder\<close>

record TRefItemSet =
  refset :: "nat list"
  RefCount :: nat

record 'a TCompactStorageBuilder =
  Items :: "'a list"
  ItemSets :: "TRefItemSet TIndexator"
  ItemIndex :: "('a \<times> nat) list"
  MaxIndex :: nat

definition EmptySetIndex :: nat where "EmptySetIndex = 1"

definition IsSingleItem :: "nat \<Rightarrow> bool" where "IsSingleItem index \<longleftrightarrow> even index"

definition ToItemIndex :: "nat \<Rightarrow> nat" where "ToItemIndex idx = 2 * idx"

definition ToSetIndex :: "nat \<Rightarrow> nat" where "ToSetIndex idx = 2 * idx + 1"

definition NextItemIndex :: "'a TCompactStorageBuilder \<Rightarrow> nat" where
  "NextItemIndex b = ToItemIndex (length (Items b))"

definition NextSetIndex :: "'a TCompactStorageBuilder \<Rightarrow> nat" where
  "NextSetIndex b = ToSetIndex (length (Storage (ItemSets b)))"

text \<open>\<^verbatim>\<open>operator ==\<close> of the sets does not see the counter; \<^verbatim>\<open>TSetHasher\<close>.\<close>

definition refset_eq :: "TRefItemSet \<Rightarrow> TRefItemSet \<Rightarrow> bool" where
  "refset_eq x y \<longleftrightarrow> refset x = refset y"

definition set_hash :: "(nat \<Rightarrow> nat) \<Rightarrow> TRefItemSet \<Rightarrow> nat" where
  "set_hash hasher x = fold (\<lambda>i res. Bit_Operations.xor (hasher i) res) (refset x) 2166136261"

definition storage_builder :: "bool \<Rightarrow> (nat \<Rightarrow> nat) \<Rightarrow> nat \<Rightarrow> 'a TCompactStorageBuilder" where
  "storage_builder u hasher maxIndex =
     \<lparr>Items = [],
      ItemSets = snd (indexator_Add u refset_eq (set_hash hasher) \<lparr>refset = [], RefCount = 0\<rparr> indexator_init),
      ItemIndex = [], MaxIndex = maxIndex\<rparr>"

definition storage_Add :: "'a \<Rightarrow> 'a TCompactStorageBuilder \<Rightarrow> nat \<times> 'a TCompactStorageBuilder" where
  "storage_Add item b =
     (case map_of (ItemIndex b) item of
        Some i \<Rightarrow> (i, b)
      | None \<Rightarrow>
          (let i = to_index (NextItemIndex b)
           in (i, b\<lparr>Items := Items b @ [item], ItemIndex := (item, i) # ItemIndex b\<rparr>)))"

definition GetItemSet :: "'a TCompactStorageBuilder \<Rightarrow> nat \<Rightarrow> TRefItemSet" where
  "GetItemSet b index = Storage (ItemSets b) ! (index div 2)"

definition set_item_set :: "nat \<Rightarrow> TRefItemSet \<Rightarrow> 'a TCompactStorageBuilder \<Rightarrow> 'a TCompactStorageBuilder" where
  "set_item_set index s b =
     b\<lparr>ItemSets := (ItemSets b)\<lparr>Storage := (Storage (ItemSets b))[index div 2 := s]\<rparr>\<rparr>"

text \<open>
  \<^verbatim>\<open>AddSet\<close> behind its assertion that the set has not exactly one item, and with it: a failed assertion is \<open>None\<close>.
\<close>

definition add_set ::
  "bool \<Rightarrow> (nat \<Rightarrow> nat) \<Rightarrow> nat list \<Rightarrow> 'a TCompactStorageBuilder \<Rightarrow> nat \<times> 'a TCompactStorageBuilder" where
  "add_set u hasher items b =
     (if items = [] then (EmptySetIndex, b)
      else
        (let (rawIndex, sets) =
               indexator_Add u refset_eq (set_hash hasher) \<lparr>refset = items, RefCount = 0\<rparr> (ItemSets b);
             s = Storage sets ! rawIndex
         in (to_index (ToSetIndex rawIndex),
             set_item_set (ToSetIndex rawIndex) (s\<lparr>RefCount := RefCount s + 1\<rparr>) (b\<lparr>ItemSets := sets\<rparr>))))"

definition AddSet ::
  "bool \<Rightarrow> (nat \<Rightarrow> nat) \<Rightarrow> nat list \<Rightarrow> 'a TCompactStorageBuilder \<Rightarrow> (nat \<times> 'a TCompactStorageBuilder) option" where
  "AddSet u hasher items b = (if length items \<noteq> 1 then Some (add_set u hasher items b) else None)"

text \<open>\<^verbatim>\<open>AddSetOrSingle\<close> calls \<^verbatim>\<open>AddSet\<close> only where the assertion holds.\<close>

definition AddSetOrSingle ::
  "bool \<Rightarrow> (nat \<Rightarrow> nat) \<Rightarrow> nat list \<Rightarrow> 'a TCompactStorageBuilder \<Rightarrow> nat \<times> 'a TCompactStorageBuilder" where
  "AddSetOrSingle u hasher items b =
     (if length items = 1 then (items ! 0, b) else the (AddSet u hasher items b))"

abbreviation index_insert :: "nat \<Rightarrow> nat list \<Rightarrow> nat list" where
  "index_insert \<equiv> oset_insert (<)"

definition AddTo ::
  "bool \<Rightarrow> (nat \<Rightarrow> nat) \<Rightarrow> nat \<Rightarrow> 'a \<Rightarrow> 'a TCompactStorageBuilder \<Rightarrow> (nat \<times> 'a TCompactStorageBuilder) option" where
  "AddTo u hasher index item b =
     (let (item_index, b) = storage_Add item b
      in if index = EmptySetIndex \<or> index = item_index then Some (item_index, b)
         else if IsSingleItem index then
           AddSet u hasher (index_insert item_index (index_insert index [])) b
         else
           (let existing_set = GetItemSet b index
            in if refset existing_set = [] then None
               else if RefCount existing_set > 1 then
                 AddSet u hasher (index_insert item_index (refset existing_set))
                   (set_item_set index (existing_set\<lparr>RefCount := RefCount existing_set - 1\<rparr>) b)
               else
                 Some (index, set_item_set index
                    (existing_set\<lparr>refset := index_insert item_index (refset existing_set)\<rparr>) b)))"

text \<open>\<^verbatim>\<open>set::erase\<close> of a number.\<close>

definition index_erase :: "nat \<Rightarrow> nat list \<Rightarrow> nat list" where
  "index_erase i s = filter (\<lambda>j. j \<noteq> i) s"

definition RemoveFrom ::
  "bool \<Rightarrow> (nat \<Rightarrow> nat) \<Rightarrow> nat \<Rightarrow> 'a \<Rightarrow> 'a TCompactStorageBuilder \<Rightarrow> (nat \<times> 'a TCompactStorageBuilder) option" where
  "RemoveFrom u hasher index item b =
     (case map_of (ItemIndex b) item of
        None \<Rightarrow> Some (index, b)
      | Some it \<Rightarrow>
          if IsSingleItem index then Some (if it = index then EmptySetIndex else index, b)
          else
            (let existing_set = GetItemSet b index
             in if refset existing_set = [] then Some (EmptySetIndex, b)
                else if RefCount existing_set > 1 then
                  Some (AddSetOrSingle u hasher (index_erase it (refset existing_set))
                    (set_item_set index (existing_set\<lparr>RefCount := RefCount existing_set - 1\<rparr>) b))
                else if length (refset existing_set) = 2 \<and> refset existing_set ! 0 = it then
                  Some (refset existing_set ! 1, b)
                else if length (refset existing_set) = 2 \<and> refset existing_set ! 1 = it then
                  Some (refset existing_set ! 0, b)
                else
                  (let existing_set = existing_set\<lparr>refset := index_erase it (refset existing_set)\<rparr>
                   in if length (refset existing_set) > 1 then Some (index, set_item_set index existing_set b) else None)))"

fun AddRangeToSet :: "nat list \<Rightarrow> 'a list \<Rightarrow> 'a TCompactStorageBuilder \<Rightarrow> nat list \<times> 'a TCompactStorageBuilder" where
  "AddRangeToSet items [] b = (items, b)"
| "AddRangeToSet items (x # xs) b =
     (let (i, b') = storage_Add x b in AddRangeToSet (index_insert i items) xs b')"

definition AddRange ::
  "bool \<Rightarrow> (nat \<Rightarrow> nat) \<Rightarrow> 'a list \<Rightarrow> 'a TCompactStorageBuilder \<Rightarrow> nat \<times> 'a TCompactStorageBuilder" where
  "AddRange u hasher xs b =
     (let (new_set, b') = AddRangeToSet [] xs b in AddSetOrSingle u hasher new_set b')"

definition AddRangeTo ::
  "bool \<Rightarrow> (nat \<Rightarrow> nat) \<Rightarrow> nat \<Rightarrow> 'a list \<Rightarrow> 'a TCompactStorageBuilder \<Rightarrow> (nat \<times> 'a TCompactStorageBuilder) option" where
  "AddRangeTo u hasher index xs b =
     (let (new_set, b) = AddRangeToSet [] xs b
      in if IsSingleItem index then Some (AddSetOrSingle u hasher (index_insert index new_set) b)
         else
           (let existing_set = GetItemSet b index
            in if refset existing_set \<noteq> [] \<and> RefCount existing_set \<le> 1 then
                 Some (index, set_item_set index
                    (existing_set\<lparr>refset := oset_insert_all (<) new_set (refset existing_set)\<rparr>) b)
               else
                 AddSet u hasher (oset_insert_all (<) (refset existing_set) new_set)
                   (if refset existing_set \<noteq> []
                    then set_item_set index (existing_set\<lparr>RefCount := RefCount existing_set - 1\<rparr>) b
                    else b)))"

definition merge_one :: "'a TCompactStorageBuilder \<Rightarrow> nat \<Rightarrow> nat list \<Rightarrow> nat list" where
  "merge_one b index new_set =
     (if IsSingleItem index then index_insert index new_set
      else oset_insert_all (<) (refset (GetItemSet b index)) new_set)"

definition Merge ::
  "bool \<Rightarrow> (nat \<Rightarrow> nat) \<Rightarrow> nat list \<Rightarrow> 'a TCompactStorageBuilder \<Rightarrow> nat \<times> 'a TCompactStorageBuilder" where
  "Merge u hasher indices b = AddSetOrSingle u hasher (fold (merge_one b) indices []) b"

definition HasItemAt :: "'a TCompactStorageBuilder \<Rightarrow> nat \<Rightarrow> 'a \<Rightarrow> bool" where
  "HasItemAt b index item =
     (case map_of (ItemIndex b) item of
        None \<Rightarrow> False
      | Some it \<Rightarrow> if IsSingleItem index then index = it
          else oset_mem (<) it (refset (GetItemSet b index)))"

definition builder_items :: "'a TCompactStorageBuilder \<Rightarrow> nat \<Rightarrow> 'a list" where
  "builder_items b index =
     (if IsSingleItem index then [Items b ! (index div 2)]
      else map (\<lambda>i. Items b ! (i div 2)) (refset (GetItemSet b index)))"

text \<open>\<^verbatim>\<open>Verify\<close> with its overflow check, as a condition.\<close>

definition storage_Verify :: "'a TCompactStorageBuilder \<Rightarrow> bool" where
  "storage_Verify b \<longleftrightarrow>
     NextItemIndex b \<le> MaxIndex b \<and> NextSetIndex b \<le> MaxIndex b \<and>
     Storage (ItemSets b) \<noteq> [] \<and> refset (Storage (ItemSets b) ! 0) = []"

section \<open>The invariant\<close>

interpretation refset: hash_key refset_eq "set_hash hasher" for hasher
  by unfold_locales (auto simp: refset_eq_def set_hash_def)

definition item_ok :: "'a TCompactStorageBuilder \<Rightarrow> nat \<Rightarrow> bool" where
  "item_ok b i \<longleftrightarrow> even i \<and> i div 2 < length (Items b)"

definition item_at :: "'a TCompactStorageBuilder \<Rightarrow> nat \<Rightarrow> 'a" where
  "item_at b i = Items b ! (i div 2)"

definition index_set_ok :: "'a TCompactStorageBuilder \<Rightarrow> nat list \<Rightarrow> bool" where
  "index_set_ok b s \<longleftrightarrow> sorted_wrt (<) s \<and> (\<forall>i \<in> set s. item_ok b i)"

definition storage_inv :: "'a TCompactStorageBuilder \<Rightarrow> bool" where
  "storage_inv b \<longleftrightarrow>
     (\<forall>x i. map_of (ItemIndex b) x = Some i \<longleftrightarrow> (\<exists>k < length (Items b). Items b ! k = x \<and> i = 2 * k)) \<and>
     (\<forall>s \<in> set (Storage (ItemSets b)). index_set_ok b (refset s)) \<and>
     Storage (ItemSets b) \<noteq> [] \<and> refset (Storage (ItemSets b) ! 0) = [] \<and>
     index_ok (length (Storage (ItemSets b))) (Index (ItemSets b))"

text \<open>No index was cut to 32 bits so far; \<^verbatim>\<open>Verify\<close> checks it when the builder is saved.\<close>

definition fits :: "'a TCompactStorageBuilder \<Rightarrow> bool" where
  "fits b \<longleftrightarrow> NextItemIndex b < 2 ^ 32 \<and> NextSetIndex b < 2 ^ 32"

definition valid_index :: "'a TCompactStorageBuilder \<Rightarrow> nat \<Rightarrow> bool" where
  "valid_index b index \<longleftrightarrow>
     (if even index then index div 2 < length (Items b) else index div 2 < length (Storage (ItemSets b)))"

definition contents :: "'a TCompactStorageBuilder \<Rightarrow> nat \<Rightarrow> 'a set" where
  "contents b index = set (builder_items b index)"

lemmas storage_defs = item_ok_def item_at_def index_set_ok_def storage_inv_def fits_def
  valid_index_def NextItemIndex_def NextSetIndex_def ToItemIndex_def ToSetIndex_def

lemma contents_single: "even i \<Longrightarrow> contents b i = {item_at b i}"
  by (simp add: contents_def builder_items_def IsSingleItem_def item_at_def)

lemma contents_set: "odd i \<Longrightarrow> contents b i = item_at b ` set (refset (GetItemSet b i))"
  by (auto simp: contents_def builder_items_def IsSingleItem_def item_at_def)

lemma map_entry:
  "storage_inv b \<Longrightarrow> map_of (ItemIndex b) x = Some i \<longleftrightarrow> item_ok b i \<and> item_at b i = x"
  unfolding storage_inv_def item_ok_def item_at_def by (metis dvd_mult_div_cancel dvd_triv_left nonzero_mult_div_cancel_left zero_neq_numeral)

lemma item_at_inj:
  "storage_inv b \<Longrightarrow> item_ok b i \<Longrightarrow> item_ok b j \<Longrightarrow> item_at b i = item_at b j \<Longrightarrow> i = j"
  by (metis map_entry option.inject)

text \<open>What may change: the builder grows, and of the sets there are only those in \<open>J\<close> may change.\<close>

definition grows :: "nat set \<Rightarrow> 'a TCompactStorageBuilder \<Rightarrow> 'a TCompactStorageBuilder \<Rightarrow> bool" where
  "grows J b b' \<longleftrightarrow>
     (\<exists>xs. Items b' = Items b @ xs) \<and>
     length (Storage (ItemSets b)) \<le> length (Storage (ItemSets b')) \<and> MaxIndex b' = MaxIndex b \<and>
     (\<forall>k < length (Storage (ItemSets b)). ToSetIndex k \<notin> J \<longrightarrow>
        refset (Storage (ItemSets b') ! k) = refset (Storage (ItemSets b) ! k))"

lemma grows_refl [intro!]: "grows J b b"
  by (auto simp: grows_def)

lemma grows_trans: "grows J b c \<Longrightarrow> grows J c d \<Longrightarrow> grows J b d"
  unfolding grows_def by (auto; metis order_less_le_trans)

lemma grows_mono: "grows J b c \<Longrightarrow> J \<subseteq> K \<Longrightarrow> grows K b c"
  unfolding grows_def by blast

lemma grows_any: "grows {} b c \<Longrightarrow> grows J b c"
  by (rule grows_mono) auto

lemma grows_item: "grows J b b' \<Longrightarrow> item_ok b i \<Longrightarrow> item_ok b' i \<and> item_at b' i = item_at b i"
  by (auto simp: grows_def storage_defs nth_append)

lemma grows_fits: "grows J b b' \<Longrightarrow> fits b' \<Longrightarrow> fits b"
  by (auto simp: grows_def storage_defs)

lemma grows_contents:
  assumes inv: "storage_inv b" and g: "grows J b b'" and i: "valid_index b i" "odd i \<longrightarrow> i \<notin> J"
  shows "valid_index b' i \<and> contents b' i = contents b i"
proof (cases "even i")
  case True
  then have "item_ok b i" using i by (simp add: storage_defs)
  then show ?thesis using True grows_item [OF g] by (auto simp: contents_single storage_defs)
next
  case False
  then have k: "i div 2 < length (Storage (ItemSets b))" "ToSetIndex (i div 2) = i"
    using i by (auto simp: storage_defs)
  then have same: "refset (GetItemSet b' i) = refset (GetItemSet b i)" "valid_index b' i"
    using g False i by (auto simp: grows_def GetItemSet_def storage_defs)
  have "\<forall>j \<in> set (refset (GetItemSet b i)). item_ok b j"
    using inv k by (auto simp: storage_defs GetItemSet_def)
  then show ?thesis using False same grows_item [OF g] by (simp add: contents_set)
qed

section \<open>The operations\<close>

lemma storage_Add_spec:
  assumes inv: "storage_inv b" and add: "storage_Add x b = (i, b')" and fit: "fits b'"
  shows "storage_inv b' \<and> grows {} b b' \<and> ItemSets b' = ItemSets b \<and> item_ok b' i \<and> item_at b' i = x"
proof (cases "map_of (ItemIndex b) x")
  case (Some j)
  then show ?thesis
    using inv add by (auto simp: storage_Add_def storage_defs)
next
  case None
  then have i: "i = to_index (2 * length (Items b))"
    and b': "b' = b\<lparr>Items := Items b @ [x], ItemIndex := (x, i) # ItemIndex b\<rparr>"
    using add by (auto simp: storage_Add_def Let_def storage_defs)
  have i2: "i = 2 * length (Items b)"
    using fit by (simp add: i b' storage_defs to_index_def)
  have new: "Items b ! k \<noteq> x" if "k < length (Items b)" for k
  proof
    assume "Items b ! k = x"
    then have "map_of (ItemIndex b) x = Some (2 * k)" using inv that by (auto simp: storage_inv_def)
    then show False using None by simp
  qed
  have "map_of (ItemIndex b') y = Some j \<longleftrightarrow> (\<exists>k < length (Items b'). Items b' ! k = y \<and> j = 2 * k)" for y j
    using inv new by (auto simp: storage_inv_def b' i2 nth_append less_Suc_eq)
  moreover have "index_set_ok b' t" if "index_set_ok b t" for t
    using that by (auto simp: index_set_ok_def item_ok_def b')
  ultimately have "storage_inv b'" using inv by (auto simp: storage_inv_def b')
  then show ?thesis
    using i2 by (auto simp: item_ok_def item_at_def b' grows_def)
qed

lemma AddRangeToSet_spec:
  assumes "storage_inv b" "index_set_ok b s" "AddRangeToSet s xs b = (s', b')" "fits b'"
  shows "storage_inv b' \<and> grows {} b b' \<and> ItemSets b' = ItemSets b \<and> index_set_ok b' s' \<and>
     item_at b' ` set s' = item_at b ` set s \<union> set xs"
  using assms
proof (induction xs arbitrary: s b)
  case (Cons x xs)
  obtain i b1 where add: "storage_Add x b = (i, b1)" by (cases "storage_Add x b")
  have rec: "AddRangeToSet (index_insert i s) xs b1 = (s', b')" using Cons.prems(3) add by simp
  have "grows {} b1 b'" "fits b1"
  proof -
    have "grows {} b (snd (storage_Add x b))" for b :: "'a TCompactStorageBuilder" and x
      by (auto simp: storage_Add_def grows_def Let_def split: option.splits)
    then have "grows {} b (snd (AddRangeToSet s xs b))" for b :: "'a TCompactStorageBuilder" and s xs
      by (induction xs arbitrary: s b) (auto split: prod.splits, metis grows_trans snd_conv)
    then show "grows {} b1 b'" using rec by (metis snd_conv)
    then show "fits b1" using Cons.prems(4) grows_fits by blast
  qed
  then have a: "storage_inv b1" "grows {} b b1" "ItemSets b1 = ItemSets b" "item_ok b1 i" "item_at b1 i = x"
    using storage_Add_spec [OF Cons.prems(1) add] by blast+
  have s1: "index_set_ok b1 (index_insert i s)"
    using Cons.prems(2) a grows_item [OF a(2)] by (auto simp: index_set_ok_def)
  have "item_at b1 ` set (index_insert i s) = insert x (item_at b ` set s)"
    using Cons.prems(2) a grows_item [OF a(2)] by (auto simp: index_set_ok_def)
  then show ?case
    using Cons.IH [OF a(1) s1 rec Cons.prems(4)] a by (auto intro: grows_trans)
qed auto

text \<open>Changing a set in place, its counter or its elements.\<close>

lemma set_item_set_spec:
  assumes inv: "storage_inv b" and i: "odd i" "valid_index b i"
    and s: "index_set_ok b (refset s)" "i = EmptySetIndex \<longrightarrow> refset s = []"
  shows "storage_inv (set_item_set i s b)" "grows {i} b (set_item_set i s b)"
    and "refset s = refset (GetItemSet b i) \<Longrightarrow> grows {} b (set_item_set i s b)"
    and "contents (set_item_set i s b) i = item_at b ` set (refset s)"
    and "fits (set_item_set i s b) = fits b"
proof -
  let ?b = "set_item_set i s b"
  have k: "i div 2 < length (Storage (ItemSets b))" using i by (simp add: storage_defs)
  have z: "i div 2 = 0 \<longrightarrow> i = EmptySetIndex"
    using i(1) by (auto simp: EmptySetIndex_def elim!: oddE)
  have "\<forall>t \<in> set (Storage (ItemSets ?b)). index_set_ok ?b (refset t)"
    using inv s(1) by (auto simp: set_item_set_def storage_defs dest!: set_update_subset_insert [THEN subsetD])
  moreover have "refset (Storage (ItemSets ?b) ! 0) = []"
    using inv s(2) z k by (cases "i div 2 = 0") (auto simp: set_item_set_def storage_inv_def)
  ultimately show "storage_inv ?b"
    using inv by (auto simp: storage_inv_def set_item_set_def)
  have ne: "k = i div 2" if "ToSetIndex k = i" for k using that by (auto simp: ToSetIndex_def)
  have ne': "ToSetIndex (i div 2) = i" using i(1) by (simp add: ToSetIndex_def)
  show "grows {i} b ?b" using ne' k by (auto simp: grows_def set_item_set_def nth_list_update)
  show "refset s = refset (GetItemSet b i) \<Longrightarrow> grows {} b ?b"
    using k by (auto simp: grows_def set_item_set_def nth_list_update GetItemSet_def)
  show "contents ?b i = item_at b ` set (refset s)"
    using i(1) k by (simp add: contents_set GetItemSet_def set_item_set_def item_at_def)
  show "fits ?b = fits b" by (simp add: set_item_set_def storage_defs)
qed

lemma add_set_spec:
  assumes inv: "storage_inv b" and s: "index_set_ok b s"
    and add: "add_set u hasher s b = (i, b')" and fit: "fits b'"
  shows "storage_inv b' \<and> grows {} b b' \<and> valid_index b' i \<and> contents b' i = item_at b ` set s"
proof (cases "s = []")
  case True
  then have "i = EmptySetIndex" "b' = b" using add by (auto simp: add_set_def)
  moreover have "GetItemSet b EmptySetIndex = Storage (ItemSets b) ! 0" "odd EmptySetIndex"
    by (simp_all add: GetItemSet_def EmptySetIndex_def)
  ultimately show ?thesis
    using inv True by (auto simp: contents_set storage_defs EmptySetIndex_def)
next
  case False
  obtain raw sets where a: "indexator_Add u refset_eq (set_hash hasher) \<lparr>refset = s, RefCount = 0\<rparr> (ItemSets b)
      = (raw, sets)" by fastforce
  define b1 where "b1 = b\<lparr>ItemSets := sets\<rparr>"
  define s1 where "s1 = (Storage sets ! raw)\<lparr>RefCount := RefCount (Storage sets ! raw) + 1\<rparr>"
  have i: "i = to_index (ToSetIndex raw)" and b': "b' = set_item_set (ToSetIndex raw) s1 b1"
    using add False a by (auto simp: add_set_def Let_def b1_def s1_def)
  have "index_ok (length (Storage (ItemSets b))) (Index (ItemSets b))" using inv by (simp add: storage_inv_def)
  note ia = refset.Add_sound [OF this a]
  have raw: "refset (Storage sets ! raw) = s" using ia(2) by (simp add: refset_eq_def)
  have zero: "Storage sets \<noteq> [] \<and> refset (Storage sets ! 0) = []"
    using ia(4) inv by (auto simp: storage_inv_def nth_append)
  have raw0: "raw \<noteq> 0" using raw zero False by (cases "raw = 0") auto
  have "refset t = s \<or> t \<in> set (Storage (ItemSets b))" if "t \<in> set (Storage sets)" for t
    using ia(4) that by (elim disjE conjE) auto
  then have "\<forall>t \<in> set (Storage sets). index_set_ok b (refset t)"
    using inv s unfolding storage_inv_def by metis
  then have inv1: "storage_inv b1"
    using inv zero ia(3) by (auto simp: storage_inv_def b1_def index_set_ok_def item_ok_def)
  have odd: "odd (ToSetIndex raw)" and val: "valid_index b1 (ToSetIndex raw)"
    using ia(1) by (auto simp: ToSetIndex_def valid_index_def b1_def)
  have s1: "index_set_ok b1 (refset s1)"
    using s raw by (simp add: s1_def index_set_ok_def item_ok_def b1_def)
  have ne: "ToSetIndex raw = EmptySetIndex \<longrightarrow> refset s1 = []"
    using raw0 by (simp add: ToSetIndex_def EmptySetIndex_def)
  note si = set_item_set_spec [OF inv1 odd val s1 ne, folded b']
  have "refset s1 = refset (GetItemSet b1 (ToSetIndex raw))"
    by (simp add: s1_def GetItemSet_def b1_def ToSetIndex_def)
  then have "grows {} b1 b'" by (rule si(3))
  moreover have "grows {} b b1"
    using ia(4) by (auto simp: grows_def b1_def nth_append)
  ultimately have g: "grows {} b b'" by (rule grows_trans [rotated])
  have "NextSetIndex b1 < 2 ^ 32" using fit si(5) by (simp add: fits_def)
  then have "ToSetIndex raw < 2 ^ 32"
    using ia(1) by (simp add: NextSetIndex_def ToSetIndex_def b1_def)
  then have i2: "i = ToSetIndex raw" by (simp add: i to_index_def)
  have "contents b' i = item_at b ` set s"
    using si(4) raw by (simp add: i2 s1_def item_at_def [abs_def] b1_def)
  moreover have "valid_index b' i"
    using val odd by (simp add: i2 b' valid_index_def set_item_set_def)
  ultimately show ?thesis using si(1) g by blast
qed

lemma AddSet_spec:
  assumes "storage_inv b" "index_set_ok b s" "AddSet u hasher s b = Some (i, b')" "fits b'"
  shows "storage_inv b' \<and> grows {} b b' \<and> valid_index b' i \<and> contents b' i = item_at b ` set s"
  using add_set_spec [OF assms(1,2) _ assms(4)] assms(3) by (simp add: AddSet_def split: if_splits)

lemma AddSetOrSingle_eq:
  "AddSetOrSingle u hasher s b = (if length s = 1 then (s ! 0, b) else add_set u hasher s b)"
  by (simp add: AddSetOrSingle_def AddSet_def)

lemma AddSetOrSingle_spec:
  assumes inv: "storage_inv b" and s: "index_set_ok b s"
    and add: "AddSetOrSingle u hasher s b = (i, b')" and fit: "fits b'"
  shows "storage_inv b' \<and> grows {} b b' \<and> valid_index b' i \<and> contents b' i = item_at b ` set s"
proof (cases "length s = 1")
  case True
  then obtain x where "s = [x]" by (auto simp: length_Suc_conv)
  then show ?thesis
    using add inv s by (auto simp: AddSetOrSingle_eq contents_single storage_defs)
next
  case False
  then show ?thesis using add_set_spec [OF inv s _ fit] add by (simp add: AddSetOrSingle_eq)
qed

lemma storage_Add_fits: "storage_Add x b = (i, b') \<Longrightarrow> fits b' \<Longrightarrow> fits b"
  by (auto simp: storage_Add_def storage_defs Let_def split: option.splits)

text \<open>
  What an operation promises: the invariant, an index of the set it should build, and that the indices
  outside \<open>J\<close> keep their sets.
\<close>

definition storage_post ::
  "nat set \<Rightarrow> 'a TCompactStorageBuilder \<Rightarrow> nat \<Rightarrow> 'a TCompactStorageBuilder \<Rightarrow> 'a set \<Rightarrow> bool" where
  "storage_post J b i b' A \<longleftrightarrow>
     storage_inv b' \<and> grows J b b' \<and> valid_index b' i \<and> contents b' i = A"

lemma contents_items:
  assumes "storage_inv b" "valid_index b i" "odd i"
  shows "index_set_ok b (refset (GetItemSet b i))"
  using assms by (auto simp: storage_inv_def valid_index_def GetItemSet_def)

lemma grows_index_set: "grows J b b' \<Longrightarrow> index_set_ok b s \<Longrightarrow> index_set_ok b' s \<and> item_at b' ` set s = item_at b ` set s"
  using grows_item by (force simp: index_set_ok_def)

lemma storage_post_trans:
  "storage_post K c i d A \<Longrightarrow> grows J b c \<Longrightarrow> J \<subseteq> K \<Longrightarrow> storage_post K b i d A"
  unfolding storage_post_def by (meson grows_mono grows_trans)

lemma storage_Add_post:
  assumes "storage_inv b" "storage_Add x b = (i, b')" "fits b'"
  shows "storage_post {} b i b' {x}"
  using storage_Add_spec [OF assms] by (auto simp: storage_post_def contents_single storage_defs)

lemma indexator_Add_length:
  "indexator_Add u eq hash x t = (j, t') \<Longrightarrow> length (Storage t) \<le> length (Storage t')"
  by (auto simp: indexator_Add_def Let_def split: if_splits prod.splits)

lemma add_set_fits: "add_set u hasher s b = (i, b') \<Longrightarrow> fits b' \<Longrightarrow> fits b"
  using indexator_Add_length [of u refset_eq "set_hash hasher" "\<lparr>refset = s, RefCount = 0\<rparr>" "ItemSets b"]
  by (auto simp: add_set_def set_item_set_def fits_def NextItemIndex_def NextSetIndex_def ToItemIndex_def
      ToSetIndex_def Let_def split: if_splits prod.splits)

lemma AddSetOrSingle_fits: "AddSetOrSingle u hasher s b = (i, b') \<Longrightarrow> fits b' \<Longrightarrow> fits b"
  by (auto simp: AddSetOrSingle_eq add_set_fits split: if_splits)

lemma AddSet_fits: "AddSet u hasher s b = Some (i, b') \<Longrightarrow> fits b' \<Longrightarrow> fits b"
  by (auto simp: AddSet_def add_set_fits split: if_splits)

lemma AddRange_post:
  assumes inv: "storage_inv b" and add: "AddRange u hasher xs b = (i, b')" and fit: "fits b'"
  shows "storage_post {} b i b' (set xs)"
proof -
  obtain s b1 where r: "AddRangeToSet [] xs b = (s, b1)" by fastforce
  have a: "AddSetOrSingle u hasher s b1 = (i, b')" using add r by (simp add: AddRange_def)
  note r1 = AddRangeToSet_spec [OF inv _ r AddSetOrSingle_fits [OF a fit]]
  have "storage_inv b1" "index_set_ok b1 s" "grows {} b b1" "item_at b1 ` set s = set xs"
    using r1 by (simp_all add: index_set_ok_def)
  then show ?thesis
    using AddSetOrSingle_spec [OF _ _ a fit] by (auto simp: storage_post_def intro: grows_trans)
qed

text \<open>Dropping one user of a shared set, before the changed copy is added.\<close>

lemma drop_user_spec:
  assumes "storage_inv b" "odd i" "valid_index b i"
    and b'_def: "b' = set_item_set i ((GetItemSet b i)\<lparr>RefCount := n\<rparr>) b"
  shows "storage_inv b'" "grows {} b b'" "fits b' = fits b"
proof -
  have s: "index_set_ok b (refset ((GetItemSet b i)\<lparr>RefCount := n\<rparr>))"
    using contents_items [OF assms(1,3,2)] by simp
  have e: "i = EmptySetIndex \<longrightarrow> refset ((GetItemSet b i)\<lparr>RefCount := n\<rparr>) = []"
    using assms(1) by (simp add: GetItemSet_def EmptySetIndex_def storage_inv_def)
  show "storage_inv b'" "grows {} b b'" "fits b' = fits b"
    using set_item_set_spec [OF assms(1,2,3) s e] by (simp_all add: b'_def)
qed

lemma in_place_post:
  assumes inv: "storage_inv b" and i: "odd i" "valid_index b i" "refset (GetItemSet b i) \<noteq> []"
    and s: "index_set_ok b s"
  shows "storage_post {i} b i (set_item_set i ((GetItemSet b i)\<lparr>refset := s\<rparr>) b) (item_at b ` set s)"
proof -
  have "i \<noteq> EmptySetIndex"
    using i(3) inv by (auto simp: GetItemSet_def EmptySetIndex_def storage_inv_def)
  then show ?thesis
    using set_item_set_spec [OF inv i(1,2), of "(GetItemSet b i)\<lparr>refset := s\<rparr>"] s i
    by (auto simp: storage_post_def valid_index_def set_item_set_def)
qed

lemma fits_set_item_set [simp]: "fits (set_item_set i s b) = fits b"
  by (simp add: set_item_set_def storage_defs)

text \<open>The set of an index is changed in place, with all its users, only if it has at most one.\<close>

definition in_place :: "'a TCompactStorageBuilder \<Rightarrow> nat \<Rightarrow> nat set" where
  "in_place b i = (if odd i \<and> RefCount (GetItemSet b i) \<le> 1 then {i} else {})"

lemma in_place_own: "odd i \<Longrightarrow> RefCount (GetItemSet b i) \<le> 1 \<Longrightarrow> in_place b i = {i}"
  by (simp add: in_place_def)

lemma in_place_same: "ItemSets b' = ItemSets b \<Longrightarrow> in_place b' i = in_place b i"
  by (simp add: in_place_def GetItemSet_def)

lemma AddTo_post:
  assumes inv: "storage_inv b" and i: "valid_index b i"
    and add: "AddTo u hasher i x b = Some (j, b')" and fit: "fits b'"
  shows "storage_post (in_place b i) b j b' (insert x (contents b i))"
proof -
  obtain k b1 where a: "storage_Add x b = (k, b1)" by fastforce
  define s where "s = GetItemSet b1 i"
  have res: "(if i = EmptySetIndex \<or> i = k then Some (k, b1)
       else if even i then AddSet u hasher (index_insert k (index_insert i [])) b1
       else if refset s = [] then None
       else if RefCount s > 1 then AddSet u hasher (index_insert k (refset s))
              (set_item_set i (s\<lparr>RefCount := RefCount s - 1\<rparr>) b1)
       else Some (i, set_item_set i (s\<lparr>refset := index_insert k (refset s)\<rparr>) b1)) = Some (j, b')"
    using add unfolding AddTo_def a Let_def prod.case IsSingleItem_def s_def .
  have fit1: "fits b1"
    using res fit by (auto split: if_splits dest: AddSet_fits)
  note A = storage_Add_spec [OF inv a fit1]
  have inv1: "storage_inv b1" and g1: "grows {} b b1" and k: "item_ok b1 k" "item_at b1 k = x" using A by blast+
  have i1: "valid_index b1 i" "contents b1 i = contents b i"
    using grows_contents [OF inv g1 i] by auto
  have s: "s = GetItemSet b i" using A by (simp add: s_def GetItemSet_def)
  consider (empty) "i = EmptySetIndex" | (same) "i = k" | (single) "i \<noteq> k" "even i"
    | (shared) "i \<noteq> EmptySetIndex" "odd i" "RefCount s > 1"
    | (own) "i \<noteq> EmptySetIndex" "odd i" "\<not> RefCount s > 1" by blast
  then have "storage_post (in_place b1 i) b1 j b' (insert x (contents b1 i))"
  proof cases
    case empty
    have "contents b1 i = {}"
      using inv1 empty by (simp add: contents_set EmptySetIndex_def GetItemSet_def storage_inv_def)
    then show ?thesis
      using res empty k inv1 by (auto simp: storage_post_def contents_single storage_defs)
  next
    case same
    then show ?thesis
      using res k inv1 by (auto simp: storage_post_def contents_single storage_defs)
  next
    case single
    have "index_set_ok b1 (index_insert k (index_insert i []))"
      using single k i1(1) by (auto simp: index_set_ok_def item_ok_def valid_index_def)
    moreover have "AddSet u hasher (index_insert k (index_insert i [])) b1 = Some (j, b')"
      using res single by (auto simp: EmptySetIndex_def simp del: oset_insert.simps)
    ultimately have "storage_inv b' \<and> grows {} b1 b' \<and> valid_index b' j \<and>
        contents b' j = item_at b1 ` set (index_insert k (index_insert i []))"
      by (rule AddSet_spec [OF inv1 _ _ fit])
    moreover have "set (index_insert k (index_insert i [])) = {k, i}" by (simp add: insert_commute)
    ultimately show ?thesis
      using single(2) k(2) by (simp add: storage_post_def contents_single grows_any del: oset_insert.simps)
  next
    case shared
    define b2 where "b2 = set_item_set i (s\<lparr>RefCount := RefCount s - 1\<rparr>) b1"
    have d: "storage_inv b2" "grows {} b1 b2"
      using drop_user_spec [OF inv1 shared(2) i1(1)] by (simp_all add: b2_def s_def)
    have ok: "index_set_ok b1 (index_insert k (refset s))"
      using contents_items [OF inv1 i1(1) shared(2)] k(1) by (auto simp: index_set_ok_def s_def)
    have add2: "AddSet u hasher (index_insert k (refset s)) b2 = Some (j, b')"
      using res shared k(1) by (auto simp: b2_def item_ok_def split: if_splits)
    have "item_at b1 ` set (index_insert k (refset s)) = insert x (contents b1 i)"
      using shared(2) k(2) by (simp add: contents_set s_def)
    then show ?thesis
      using AddSet_spec [OF d(1) _ add2 fit] grows_index_set [OF d(2) ok] d(2)
      unfolding storage_post_def by (metis empty_subsetI grows_mono grows_trans)
  next
    case own
    have ok: "index_set_ok b1 (index_insert k (refset s))"
      using contents_items [OF inv1 i1(1) own(2)] k(1) by (auto simp: index_set_ok_def s_def)
    have "item_at b1 ` set (index_insert k (refset s)) = insert x (contents b1 i)"
      using own(2) k(2) by (simp add: contents_set s_def)
    moreover have ne: "refset s \<noteq> []" using res own k(1) by (auto simp: item_ok_def split: if_splits)
    moreover have "j = i" "b' = set_item_set i (s\<lparr>refset := index_insert k (refset s)\<rparr>) b1"
      using res own k(1) by (auto simp: item_ok_def split: if_splits)
    ultimately show ?thesis
      using in_place_post [OF inv1 own(2) i1(1) _ ok] own ne in_place_own [of i b1] by (simp add: s_def)
  qed
  moreover have "in_place b1 i = in_place b i" using A by (intro in_place_same) blast
  ultimately show ?thesis using storage_post_trans [OF _ g1] i1 by simp
qed

lemma index_set_erase:
  assumes "storage_inv b" "index_set_ok b s" "item_ok b k"
  shows "index_set_ok b (index_erase k s)" "item_at b ` set (index_erase k s) = item_at b ` set s - {item_at b k}"
proof -
  show "index_set_ok b (index_erase k s)"
    using assms(2) by (auto simp: index_set_ok_def index_erase_def sorted_wrt_filter)
  have "item_at b i \<noteq> item_at b k" if "i \<in> set s" "i \<noteq> k" for i
    using item_at_inj [OF assms(1) _ assms(3)] that assms(2) by (auto simp: index_set_ok_def)
  then show "item_at b ` set (index_erase k s) = item_at b ` set s - {item_at b k}"
    by (auto simp: index_erase_def)
qed

lemma refset_update: "refset (s\<lparr>refset := is\<rparr>) = is"
  by simp

lemma RemoveFrom_post:
  assumes inv: "storage_inv b" and i: "valid_index b i"
    and rm: "RemoveFrom u hasher i x b = Some (j, b')" and fit: "fits b'"
  shows "storage_post (in_place b i) b j b' (contents b i - {x})"
proof (cases "map_of (ItemIndex b) x")
  case None
  have "x \<notin> contents b i"
  proof
    assume "x \<in> contents b i"
    then obtain k where "item_ok b k" "item_at b k = x"
      using contents_items [OF inv i] i
      by (cases "even i") (auto simp: contents_single contents_set index_set_ok_def valid_index_def item_ok_def)
    then show False using None map_entry [OF inv, of x k] by simp
  qed
  then show ?thesis using rm None inv i by (auto simp: RemoveFrom_def storage_post_def)
next
  case (Some k)
  have k: "item_ok b k" "item_at b k = x" using Some map_entry [OF inv] by blast+
  define s where "s = GetItemSet b i"
  have res: "(if even i then Some (if k = i then EmptySetIndex else i, b)
      else if refset s = [] then Some (EmptySetIndex, b)
      else if RefCount s > 1 then Some (AddSetOrSingle u hasher (index_erase k (refset s))
             (set_item_set i (s\<lparr>RefCount := RefCount s - 1\<rparr>) b))
      else if length (refset s) = 2 \<and> refset s ! 0 = k then Some (refset s ! 1, b)
      else if length (refset s) = 2 \<and> refset s ! 1 = k then Some (refset s ! 0, b)
      else if length (index_erase k (refset s)) > 1
      then Some (i, set_item_set i (s\<lparr>refset := index_erase k (refset s)\<rparr>) b) else None) = Some (j, b')"
    using rm by (simp only: RemoveFrom_def Some option.case Let_def IsSingleItem_def s_def [symmetric] refset_update)
  have empty: "storage_post (in_place b i) b EmptySetIndex b {}"
    using inv by (auto simp: storage_post_def valid_index_def EmptySetIndex_def contents_set storage_inv_def GetItemSet_def)
  show ?thesis
  proof (cases "even i")
    case True
    have "item_at b i \<noteq> x" if "k \<noteq> i"
      using item_at_inj [OF inv k(1), of i] that k(2) i True by (auto simp: item_ok_def valid_index_def)
    then show ?thesis
      using res True empty k i inv by (auto simp: storage_post_def contents_single split: if_splits)
  next
    case odd: False
    note sok = contents_items [OF inv i odd, folded s_def]
    note er = index_set_erase [OF inv sok k(1)]
    have A: "item_at b ` set (index_erase k (refset s)) = contents b i - {x}"
      using er(2) odd k(2) by (simp add: contents_set s_def)
    have two: "storage_post (in_place b i) b (refset s ! m) b (contents b i - {x})"
      if l2: "length (refset s) = 2" and m: "refset s ! (1 - m) = k" "m < 2" for m
    proof -
      obtain p q where rs: "refset s = [p, q]"
        using l2 by (auto simp: numeral_2_eq_2 length_Suc_conv)
      then have "p < q" using sok by (simp add: index_set_ok_def)
      then have "index_erase k (refset s) = [refset s ! m]"
        using m rs by (cases "m = 0") (auto simp: index_erase_def)
      moreover have "item_ok b (refset s ! m)"
        using sok l2 m(2) by (simp add: index_set_ok_def)
      ultimately show ?thesis
        using A inv by (auto simp: storage_post_def contents_single item_ok_def valid_index_def)
    qed
    show ?thesis
    proof (cases "refset s = []")
      case True
      then show ?thesis using res odd empty by (auto simp: contents_set s_def)
    next
      case ne: False
      show ?thesis
      proof (cases "RefCount s > 1")
        case True
        define b2 where "b2 = set_item_set i (s\<lparr>RefCount := RefCount s - 1\<rparr>) b"
        have d: "storage_inv b2" "grows {} b b2"
          using drop_user_spec [OF inv odd i] by (simp_all add: b2_def s_def)
        have "AddSetOrSingle u hasher (index_erase k (refset s)) b2 = (j, b')"
          using res odd ne True by (simp add: b2_def)
        then show ?thesis
          using AddSetOrSingle_spec [OF d(1) _ _ fit] grows_index_set [OF d(2) er(1)] d(2) A
          unfolding storage_post_def by (metis empty_subsetI grows_mono grows_trans)
      next
        case False
        have own: "storage_post (in_place b i) b i (set_item_set i (s\<lparr>refset := index_erase k (refset s)\<rparr>) b) (contents b i - {x})"
          using in_place_post [OF inv odd i _ er(1)] ne False in_place_own [OF odd, of b] by (simp add: s_def [symmetric] A)
        show ?thesis
          using res odd ne False two [of 1] two [of 0] own by (auto split: if_splits)
      qed
    qed
  qed
qed

lemma AddRangeTo_post:
  assumes inv: "storage_inv b" and i: "valid_index b i"
    and add: "AddRangeTo u hasher i xs b = Some (j, b')" and fit: "fits b'"
  shows "storage_post (in_place b i) b j b' (set xs \<union> contents b i)"
proof -
  obtain new b1 where r: "AddRangeToSet [] xs b = (new, b1)" by fastforce
  define s where "s = GetItemSet b1 i"
  define b2 where "b2 = (if refset s \<noteq> [] then set_item_set i (s\<lparr>RefCount := RefCount s - 1\<rparr>) b1 else b1)"
  have res: "(if even i then Some (AddSetOrSingle u hasher (index_insert i new) b1)
      else if refset s \<noteq> [] \<and> RefCount s \<le> 1
      then Some (i, set_item_set i (s\<lparr>refset := oset_insert_all (<) new (refset s)\<rparr>) b1)
      else AddSet u hasher (oset_insert_all (<) (refset s) new) b2) = Some (j, b')"
    using add unfolding AddRangeTo_def r prod.case Let_def IsSingleItem_def s_def b2_def .
  have fit1: "fits b1"
    using res fit by (auto simp: b2_def split: if_splits dest: AddSet_fits AddSetOrSingle_fits)
  have inv1: "storage_inv b1" and g1: "grows {} b b1" and new: "index_set_ok b1 new" "item_at b1 ` set new = set xs"
    using AddRangeToSet_spec [OF inv _ r fit1] by (auto simp: index_set_ok_def)
  have i1: "valid_index b1 i" "contents b1 i = contents b i"
    using grows_contents [OF inv g1 i] by auto
  have "storage_post (in_place b1 i) b1 j b' (set xs \<union> contents b1 i)"
  proof (cases "even i")
    case True
    have "index_set_ok b1 (index_insert i new)"
      using new(1) True i1(1) by (auto simp: index_set_ok_def item_ok_def valid_index_def)
    then have "storage_inv b' \<and> grows {} b1 b' \<and> valid_index b' j \<and> contents b' j = item_at b1 ` set (index_insert i new)"
      using AddSetOrSingle_spec [OF inv1 _ _ fit] res True by simp
    then show ?thesis using True new(2) by (auto simp: storage_post_def contents_single grows_any)
  next
    case odd: False
    note sok = contents_items [OF inv1 i1(1) odd, folded s_def]
    have ok: "index_set_ok b1 (oset_insert_all (<) new (refset s))" "index_set_ok b1 (oset_insert_all (<) (refset s) new)"
      using sok new(1) by (auto simp: index_set_ok_def)
    have A: "item_at b1 ` (set new \<union> set (refset s)) = set xs \<union> contents b1 i"
      using new(2) odd by (auto simp: contents_set s_def)
    show ?thesis
    proof (cases "refset s \<noteq> [] \<and> RefCount s \<le> 1")
      case True
      then have eq: "j = i" "b' = set_item_set i (s\<lparr>refset := oset_insert_all (<) new (refset s)\<rparr>) b1"
        using res odd by auto
      show ?thesis
        unfolding eq using in_place_post [OF inv1 odd i1(1) _ ok(1)] True A in_place_own [OF odd, of b1]
        by (simp add: s_def [symmetric])
    next
      case False
      have d: "storage_inv b2" "grows {} b1 b2"
        using drop_user_spec [OF inv1 odd i1(1) refl] inv1 by (auto simp: b2_def s_def)
      have add2: "AddSet u hasher (oset_insert_all (<) (refset s) new) b2 = Some (j, b')" using res odd False by auto
      have added: "storage_inv b' \<and> grows {} b2 b' \<and> valid_index b' j \<and>
          contents b' j = item_at b2 ` set (oset_insert_all (<) (refset s) new)"
        by (rule AddSet_spec [OF d(1) conjunct1 [OF grows_index_set [OF d(2) ok(2)]] add2 fit])
      have "item_at b2 ` set (oset_insert_all (<) (refset s) new) = set xs \<union> contents b1 i"
      proof -
        have S: "set (oset_insert_all (<) (refset s) new) = set new \<union> set (refset s)" by auto
        show ?thesis unfolding conjunct2 [OF grows_index_set [OF d(2) ok(2)]] unfolding S by (rule A)
      qed
      moreover have "grows (in_place b1 i) b1 b'" by (rule grows_any, rule grows_trans [OF d(2)]) (use added in simp)
      ultimately show ?thesis using added by (simp add: storage_post_def)
    qed
  qed
  moreover have "in_place b1 i = in_place b i"
    using AddRangeToSet_spec [OF inv _ r fit1] by (intro in_place_same) (simp add: index_set_ok_def)
  ultimately show ?thesis using storage_post_trans [OF _ g1] i1 by simp
qed

lemma Merge_post:
  assumes inv: "storage_inv b" and idx: "\<forall>i \<in> set js. valid_index b i"
    and m: "Merge u hasher js b = (j, b')" and fit: "fits b'"
  shows "storage_post {} b j b' (\<Union>i \<in> set js. contents b i)"
proof -
  have one: "index_set_ok b (merge_one b i s) \<and> item_at b ` set (merge_one b i s) = contents b i \<union> item_at b ` set s"
    if "valid_index b i" "index_set_ok b s" for i s
    using that contents_items [OF inv that(1)]
    by (auto simp: merge_one_def IsSingleItem_def index_set_ok_def contents_single contents_set
        item_ok_def valid_index_def)
  have "index_set_ok b (fold (merge_one b) js s) \<and>
      item_at b ` set (fold (merge_one b) js s) = (\<Union>i \<in> set js. contents b i) \<union> item_at b ` set s"
    if "index_set_ok b s" for s
    using idx that
  proof (induction js arbitrary: s)
    case (Cons i js)
    then show ?case using one [of i s] by auto
  qed simp
  from this [of "[]"] show ?thesis
    using AddSetOrSingle_spec [OF inv _ m [unfolded Merge_def] fit]
    by (auto simp: storage_post_def index_set_ok_def)
qed

lemma HasItemAt_spec:
  assumes inv: "storage_inv b" and i: "valid_index b i"
  shows "HasItemAt b i x \<longleftrightarrow> x \<in> contents b i"
proof (cases "map_of (ItemIndex b) x")
  case None
  then have no: "\<not> item_ok b k \<or> item_at b k \<noteq> x" for k using map_entry [OF inv, of x k] by auto
  then show ?thesis
    using None i contents_items [OF inv i] no [of i]
    by (cases "even i")
      (auto simp: HasItemAt_def contents_single contents_set index_set_ok_def item_ok_def valid_index_def)
next
  case (Some k)
  then have k: "item_ok b k" "item_at b k = x" using map_entry [OF inv] by blast+
  show ?thesis
  proof (cases "even i")
    case True
    then have "item_ok b i" using i by (simp add: item_ok_def valid_index_def)
    then show ?thesis
      using True Some k item_at_inj [OF inv k(1), of i] by (auto simp: HasItemAt_def IsSingleItem_def contents_single)
  next
    case False
    have "k = l" if "l \<in> set (refset (GetItemSet b i))" "item_at b l = x" for l
      using item_at_inj [OF inv k(1), of l] k(2) that contents_items [OF inv i False]
      by (simp add: index_set_ok_def)
    then have "x \<in> item_at b ` set (refset (GetItemSet b i)) \<longleftrightarrow> k \<in> set (refset (GetItemSet b i))"
      using k(2) by blast
    then show ?thesis using False Some by (simp add: HasItemAt_def IsSingleItem_def contents_set)
  qed
qed

lemma storage_builder_inv: "storage_inv (storage_builder u hasher m)"
proof -
  have ok: "index_ok (length (Storage indexator_init)) (Index indexator_init)"
    by (simp add: indexator_init_def index_ok_init)
  obtain j t where add: "indexator_Add u refset_eq (set_hash hasher) \<lparr>refset = [], RefCount = 0\<rparr> indexator_init = (j, t)"
    by fastforce
  note a = refset.Add_sound [OF ok add]
  have "Storage t = [\<lparr>refset = [], RefCount = 0\<rparr>]"
    using a(1,4) by (auto simp: indexator_init_def)
  then show ?thesis
    using a(3) add by (simp add: storage_builder_def storage_inv_def index_set_ok_def)
qed

section \<open>The saved storage\<close>

record 'a TCompactStorage =
  st_Items :: "'a list"
  st_ItemSets :: TVectorsVector

text \<open>
  \<^verbatim>\<open>Save\<close> of the builder followed by \<^verbatim>\<open>Load\<close> of the storage, without the bytes in between: the two
  vectors are written and read as they are. \<open>None\<close> stands for the exceptions of \<^verbatim>\<open>Verify\<close> on either
  side and of the overflow check of the vector of vectors.
\<close>

definition storage_Save :: "'a TCompactStorageBuilder \<Rightarrow> 'a TCompactStorage option" where
  "storage_Save b =
     (if \<not> storage_Verify b then None
      else case VectorsVector (map refset (Storage (ItemSets b))) of
          None \<Rightarrow> None
        | Some v \<Rightarrow>
            if vectors_Size v > 0 \<and> SubVector v 0 \<noteq> [] then None
            else Some \<lparr>st_Items = Items b, st_ItemSets = v\<rparr>)"

definition storage_items :: "'a TCompactStorage \<Rightarrow> nat \<Rightarrow> 'a list" where
  "storage_items t index =
     (if IsSingleItem index then [st_Items t ! (index div 2)]
      else map (\<lambda>i. st_Items t ! (i div 2)) (SubVector (st_ItemSets t) (index div 2)))"

lemma storage_Save_items:
  assumes "valid_index b i" "storage_Save b = Some t"
  shows "storage_items t i = builder_items b i"
proof -
  obtain v where v: "VectorsVector (map refset (Storage (ItemSets b))) = Some v"
    and t: "t = \<lparr>st_Items = Items b, st_ItemSets = v\<rparr>"
    using assms(2) by (auto simp: storage_Save_def split: if_splits option.splits)
  show ?thesis
    using assms(1) VectorsVector_spec(2) [OF v, of "i div 2"]
    by (simp add: storage_items_def builder_items_def IsSingleItem_def t valid_index_def GetItemSet_def)
qed

lemma Verify_fits: "storage_Verify b \<Longrightarrow> MaxIndex b < 2 ^ 32 \<Longrightarrow> fits b"
  by (simp add: storage_Verify_def fits_def)

section \<open>When the assertions hold\<close>

text \<open>Every set but the empty one at 0 has two items or more.\<close>

definition sets_ok :: "'a TCompactStorageBuilder \<Rightarrow> bool" where
  "sets_ok b \<longleftrightarrow> (\<forall>k. 0 < k \<and> k < length (Storage (ItemSets b)) \<longrightarrow> 2 \<le> length (refset (Storage (ItemSets b) ! k)))"

text \<open>Room for \<open>n\<close> more items and one more set below \<open>2^32\<close>.\<close>

definition room_for :: "nat \<Rightarrow> 'a TCompactStorageBuilder \<Rightarrow> bool" where
  "room_for n b \<longleftrightarrow> 2 * (length (Items b) + n) < 2 ^ 32 \<and> 2 * length (Storage (ItemSets b)) + 3 < 2 ^ 32"

definition grown :: "nat \<Rightarrow> 'a TCompactStorageBuilder \<Rightarrow> 'a TCompactStorageBuilder \<Rightarrow> bool" where
  "grown n b b' \<longleftrightarrow> length (Items b') \<le> length (Items b) + n \<and>
     length (Storage (ItemSets b')) \<le> Suc (length (Storage (ItemSets b)))"

lemma grown_fits: "room_for n b \<Longrightarrow> grown n b b' \<Longrightarrow> fits b'"
  by (simp add: room_for_def grown_def storage_defs)

lemma index_set_length: "index_set_ok b s \<Longrightarrow> length s = card (set s)"
  by (simp add: index_set_ok_def strict_sorted_iff distinct_card)

lemma sets_ok_same: "ItemSets b' = ItemSets b \<Longrightarrow> sets_ok b' = sets_ok b"
  by (simp add: sets_ok_def)

lemma all_nth_update:
  "k < length xs \<Longrightarrow> xs[i := x] ! k = (if i = k then x else xs ! k)"
  by simp

lemma sets_ok_set:
  "sets_ok b \<Longrightarrow> i div 2 \<noteq> 0 \<longrightarrow> 2 \<le> length (refset s) \<Longrightarrow> sets_ok (set_item_set i s b)"
  unfolding sets_ok_def set_item_set_def
  by (auto simp: all_nth_update)

lemma grown_set: "grown n b (set_item_set i s b') \<longleftrightarrow> grown n b b'"
  by (simp add: grown_def set_item_set_def)

lemma set_size:
  assumes "sets_ok b" "odd i" "valid_index b i" "refset (GetItemSet b i) \<noteq> [] \<or> i \<noteq> EmptySetIndex" "storage_inv b"
  shows "2 \<le> length (refset (GetItemSet b i))" "i div 2 \<noteq> 0"
proof -
  show "i div 2 \<noteq> 0"
  proof
    assume "i div 2 = 0"
    then have "i = EmptySetIndex" using assms(2) by (auto simp: EmptySetIndex_def elim!: oddE)
    then show False using assms(4,5) by (simp add: GetItemSet_def storage_inv_def EmptySetIndex_def)
  qed
  then show "2 \<le> length (refset (GetItemSet b i))"
    using assms(1-3) by (simp add: sets_ok_def GetItemSet_def valid_index_def)
qed

lemma add_set_grown:
  assumes "storage_inv b" "sets_ok b" "length items \<noteq> 1"
  shows "sets_ok (snd (add_set u hasher items b)) \<and> Items (snd (add_set u hasher items b)) = Items b \<and>
    length (Storage (ItemSets (snd (add_set u hasher items b)))) \<le> Suc (length (Storage (ItemSets b)))"
proof (cases "items = []")
  case False
  obtain raw sets where a: "indexator_Add u refset_eq (set_hash hasher) \<lparr>refset = items, RefCount = 0\<rparr> (ItemSets b)
      = (raw, sets)" by fastforce
  have "index_ok (length (Storage (ItemSets b))) (Index (ItemSets b))" using assms(1) by (simp add: storage_inv_def)
  note ia = refset.Add_sound [OF this a]
  have len: "2 \<le> length items" using False assms(3) by (cases items; cases "tl items") auto
  have sets: "Storage sets = Storage (ItemSets b) \<or> Storage sets = Storage (ItemSets b) @ [\<lparr>refset = items, RefCount = 0\<rparr>]"
    using ia(4) by blast
  have "sets_ok (b\<lparr>ItemSets := sets\<rparr>)" using assms(2) sets len by (auto simp: sets_ok_def nth_append)
  moreover have "refset (Storage sets ! raw) = items" using ia(2) by (simp add: refset_eq_def)
  ultimately have "sets_ok (snd (add_set u hasher items b))"
    using False a len by (simp add: add_set_def Let_def sets_ok_set)
  moreover have "length (Storage (ItemSets (snd (add_set u hasher items b)))) \<le> Suc (length (Storage (ItemSets b)))"
    using False a sets by (auto simp: add_set_def Let_def set_item_set_def)
  ultimately show ?thesis using False a by (simp add: add_set_def Let_def set_item_set_def)
qed (use assms(2) in \<open>simp add: add_set_def\<close>)

lemma storage_Add_grown:
  "ItemSets (snd (storage_Add x b)) = ItemSets b" "length (Items (snd (storage_Add x b))) \<le> Suc (length (Items b))"
  by (auto simp: storage_Add_def Let_def split: option.splits)

lemma AddRangeToSet_grown:
  "ItemSets (snd (AddRangeToSet s xs b)) = ItemSets b \<and> length (Items (snd (AddRangeToSet s xs b))) \<le> length (Items b) + length xs"
proof (induction xs arbitrary: s b)
  case (Cons x xs)
  obtain i b1 where add: "storage_Add x b = (i, b1)" by fastforce
  then show ?case using Cons [of "index_insert i s" b1] storage_Add_grown [of x b] by simp
qed simp

text \<open>A new builder has only the empty set, and \<^verbatim>\<open>AddRange\<close> and \<^verbatim>\<open>Merge\<close>, through \<^verbatim>\<open>AddSetOrSingle\<close>, keep the size of the sets.\<close>

lemma AddSetOrSingle_sets_ok: "storage_inv b \<Longrightarrow> sets_ok b \<Longrightarrow> sets_ok (snd (AddSetOrSingle u hasher s b))"
  using add_set_grown [of b s u hasher] by (simp add: AddSetOrSingle_eq)

lemma AddRange_sets_ok:
  assumes "storage_inv b" "sets_ok b" "room_for (length xs) b"
  shows "sets_ok (snd (AddRange u hasher xs b))"
proof -
  obtain s b1 where a: "AddRangeToSet [] xs b = (s, b1)" by fastforce
  have b1: "ItemSets b1 = ItemSets b" "length (Items b1) \<le> length (Items b) + length xs"
    using AddRangeToSet_grown [of "[]" xs b] a by simp_all
  then have "storage_inv b1"
    using AddRangeToSet_spec [OF assms(1) _ a grown_fits [OF assms(3)]] by (simp add: grown_def index_set_ok_def)
  then show ?thesis using AddSetOrSingle_sets_ok [of b1] sets_ok_same [OF b1(1)] assms(2) a by (simp add: AddRange_def)
qed

lemma Merge_sets_ok: "storage_inv b \<Longrightarrow> sets_ok b \<Longrightarrow> sets_ok (snd (Merge u hasher js b))"
  by (simp add: Merge_def AddSetOrSingle_sets_ok)

lemma storage_builder_sets_ok: "sets_ok (storage_builder u hasher m)"
proof -
  obtain j t where add: "indexator_Add u refset_eq (set_hash hasher) \<lparr>refset = [], RefCount = 0\<rparr> indexator_init = (j, t)"
    by fastforce
  have ok: "index_ok (length (Storage indexator_init)) (Index indexator_init)"
    by (simp add: indexator_init_def index_ok_init)
  have "length (Storage t) \<le> 1" using refset.Add_sound(4) [OF ok add] by (auto simp: indexator_init_def)
  then show ?thesis using add by (simp add: storage_builder_def sets_ok_def)
qed

text \<open>What an operation on \<open>i\<close> that returns \<open>j\<close> for the set \<open>A\<close> promises.\<close>

definition storage_updated ::
  "'a TCompactStorageBuilder \<Rightarrow> nat \<Rightarrow> 'a set \<Rightarrow> (nat \<times> 'a TCompactStorageBuilder) option \<Rightarrow> bool" where
  "storage_updated b i A res \<longleftrightarrow>
     (\<exists>j b'. res = Some (j, b') \<and> storage_inv b' \<and> sets_ok b' \<and> valid_index b' j \<and> contents b' j = A \<and>
        (\<forall>k. valid_index b k \<and> (k = i \<longrightarrow> even i \<or> RefCount (GetItemSet b i) > 1) \<longrightarrow>
           valid_index b' k \<and> contents b' k = contents b k))"

lemma storage_updatedI:
  assumes "storage_inv b" "room_for n b" "res = Some (j, b')" "sets_ok b'" "grown n b b'"
    and "fits b' \<Longrightarrow> storage_post (in_place b i) b j b' A"
  shows "storage_updated b i A res"
  using assms(3,4) assms(6) [OF grown_fits [OF assms(2,5)]] grows_contents [OF assms(1), of "in_place b i" b']
  by (auto simp: storage_updated_def storage_post_def in_place_def)

lemma AddTo_updated:
  assumes inv: "storage_inv b" and ok: "sets_ok b" and i: "valid_index b i" and room: "room_for 1 b"
  shows "storage_updated b i (insert x (contents b i)) (AddTo u hasher i x b)"
proof -
  obtain k b1 where a: "storage_Add x b = (k, b1)" by fastforce
  have b1: "ItemSets b1 = ItemSets b" "length (Items b1) \<le> Suc (length (Items b))" using storage_Add_grown [of x b] a by simp_all
  then have g1: "grown 1 b b1" by (simp add: grown_def)
  have inv1: "storage_inv b1" and g: "grows {} b b1" and k: "item_ok b1 k"
    using storage_Add_spec [OF inv a grown_fits [OF room g1]] by blast+
  have i1: "valid_index b1 i" using grows_contents [OF inv g i] by simp
  have ok1: "sets_ok b1" using sets_ok_same [OF b1(1)] ok by simp
  have added: "sets_ok (snd (add_set u hasher items c)) \<and> grown 1 b (snd (add_set u hasher items c))"
    if "storage_inv c" "sets_ok c" "length items \<noteq> 1" "Items c = Items b1"
      "length (Storage (ItemSets c)) = length (Storage (ItemSets b))" for items c
    using add_set_grown [OF that(1-3), of u hasher] that(4,5) b1(2) by (simp add: grown_def)
  define s where "s = GetItemSet b1 i"
  have res: "AddTo u hasher i x b = (if i = EmptySetIndex \<or> i = k then Some (k, b1)
       else if even i then AddSet u hasher (index_insert k (index_insert i [])) b1
       else if refset s = [] then None
       else if RefCount s > 1 then AddSet u hasher (index_insert k (refset s))
              (set_item_set i (s\<lparr>RefCount := RefCount s - 1\<rparr>) b1)
       else Some (i, set_item_set i (s\<lparr>refset := index_insert k (refset s)\<rparr>) b1))"
    unfolding AddTo_def a Let_def prod.case IsSingleItem_def s_def ..
  have "\<exists>r. AddTo u hasher i x b = Some r \<and> sets_ok (snd r) \<and> grown 1 b (snd r)"
  proof (cases "i = EmptySetIndex \<or> i = k")
    case True
    then show ?thesis using res ok1 g1 by auto
  next
    case ne: False
    show ?thesis
    proof (cases "even i")
      case True
      have "length (index_insert k (index_insert i [])) = 2" using ne by auto
      then show ?thesis using res ne True added [OF inv1 ok1, of "index_insert k (index_insert i [])"] b1(1)
        by (simp add: AddSet_def del: oset_insert.simps)
    next
      case False
      have big: "2 \<le> length (refset s)" "i div 2 \<noteq> 0" using set_size [OF ok1 False i1 _ inv1] ne by (simp_all add: s_def)
      have iok: "index_set_ok b1 (refset s)" "index_set_ok b1 (index_insert k (refset s))"
        using contents_items [OF inv1 i1 False] k by (auto simp: index_set_ok_def s_def)
      have "length (refset s) \<le> length (index_insert k (refset s))"
        unfolding index_set_length [OF iok(1)] index_set_length [OF iok(2)] by (rule card_mono) auto
      then have big2: "2 \<le> length (index_insert k (refset s))" using big(1) by linarith
      let ?b2 = "set_item_set i (s\<lparr>RefCount := RefCount s - 1\<rparr>) b1"
      have b2: "storage_inv ?b2" using drop_user_spec(1) [OF inv1 False i1 refl] by (simp add: s_def)
      have "sets_ok ?b2" using sets_ok_set [OF ok1] big(1) by simp
      note ad = added [OF b2 this, of "index_insert k (refset s)"]
      show ?thesis
      proof (cases "RefCount s > 1")
        case True
        have "refset s \<noteq> []" using big(1) by auto
        then show ?thesis using res ne False True ad big2 b1(1) by (simp add: AddSet_def set_item_set_def del: oset_insert.simps)
      next
        case own: False
        have "refset s \<noteq> []" using big(1) by auto
        then show ?thesis using res ne False own sets_ok_set [OF ok1, of i "s\<lparr>refset := index_insert k (refset s)\<rparr>"] big2 g1
          by (simp add: grown_set del: oset_insert.simps)
      qed
    qed
  qed
  then obtain j b' where r: "AddTo u hasher i x b = Some (j, b')" "sets_ok b'" "grown 1 b b'" by auto
  show ?thesis by (rule storage_updatedI [OF inv room r AddTo_post [OF inv i r(1)]])
qed

lemma RemoveFrom_updated:
  assumes inv: "storage_inv b" and ok: "sets_ok b" and i: "valid_index b i" and room: "room_for 1 b"
  shows "storage_updated b i (contents b i - {x}) (RemoveFrom u hasher i x b)"
proof -
  have g: "grown 1 b b" by (simp add: grown_def)
  have "\<exists>r. RemoveFrom u hasher i x b = Some r \<and> sets_ok (snd r) \<and> grown 1 b (snd r)"
  proof (cases "map_of (ItemIndex b) x")
    case None
    then show ?thesis using ok g by (simp add: RemoveFrom_def)
  next
    case (Some k)
    define s where "s = GetItemSet b i"
    let ?b2 = "set_item_set i (s\<lparr>RefCount := RefCount s - 1\<rparr>) b"
    have res: "RemoveFrom u hasher i x b = (if even i then Some (if k = i then EmptySetIndex else i, b)
        else if refset s = [] then Some (EmptySetIndex, b)
        else if RefCount s > 1 then Some (AddSetOrSingle u hasher (index_erase k (refset s)) ?b2)
        else if length (refset s) = 2 \<and> refset s ! 0 = k then Some (refset s ! 1, b)
        else if length (refset s) = 2 \<and> refset s ! 1 = k then Some (refset s ! 0, b)
        else if length (index_erase k (refset s)) > 1
        then Some (i, set_item_set i (s\<lparr>refset := index_erase k (refset s)\<rparr>) b) else None)"
      by (simp only: RemoveFrom_def Some option.case Let_def IsSingleItem_def s_def [symmetric] refset_update)
    show ?thesis
    proof (cases "even i \<or> refset s = []")
      case True
      then show ?thesis using res ok g by auto
    next
      case False
      then have odd: "odd i" and ne: "refset s \<noteq> []" by auto
      have big: "2 \<le> length (refset s)" "i div 2 \<noteq> 0" using set_size [OF ok odd i _ inv] ne by (simp_all add: s_def)
      have d: "distinct (refset s)"
        using contents_items [OF inv i odd] by (simp add: index_set_ok_def strict_sorted_iff s_def)
      show ?thesis
      proof (cases "RefCount s > 1")
        case True
        have b2: "storage_inv ?b2" using drop_user_spec(1) [OF inv odd i refl] by (simp add: s_def)
        have ok2: "sets_ok ?b2" using sets_ok_set [OF ok] big(1) by simp
        have "sets_ok (snd (AddSetOrSingle u hasher (index_erase k (refset s)) ?b2)) \<and>
            grown 1 b (snd (AddSetOrSingle u hasher (index_erase k (refset s)) ?b2))"
          using add_set_grown [OF b2 ok2, of "index_erase k (refset s)" u hasher] ok2 g
          by (auto simp: AddSetOrSingle_eq grown_def set_item_set_def)
        then show ?thesis using res odd ne True by simp
      next
        case own: False
        have erased: "1 < length (index_erase k (refset s))"
          if no: "\<not> (length (refset s) = 2 \<and> refset s ! 0 = k)" "\<not> (length (refset s) = 2 \<and> refset s ! 1 = k)"
        proof (cases "length (refset s) = 2")
          case True
          then have "k \<notin> set (refset s)" using no set_two [OF True] by auto
          then have "index_erase k (refset s) = refset s" unfolding index_erase_def by (intro filter_True) auto
          then show ?thesis using True by simp
        next
          case False
          have "set (index_erase k (refset s)) = set (refset s) - {k}" by (auto simp: index_erase_def)
          moreover have "distinct (index_erase k (refset s))" using d by (simp add: index_erase_def)
          ultimately have "length (index_erase k (refset s)) = card (set (refset s) - {k})" by (metis distinct_card)
          moreover have "card (set (refset s)) - 1 \<le> card (set (refset s) - {k})" by (simp add: card_Diff_singleton_if)
          ultimately show ?thesis using False big(1) distinct_card [OF d] by linarith
        qed
        have "sets_ok (set_item_set i (s\<lparr>refset := index_erase k (refset s)\<rparr>) b)"
          if "1 < length (index_erase k (refset s))" using sets_ok_set [OF ok] that by simp
        then show ?thesis using res odd ne own erased ok g by (simp add: grown_set)
      qed
    qed
  qed
  then obtain j b' where r: "RemoveFrom u hasher i x b = Some (j, b')" "sets_ok b'" "grown 1 b b'" by auto
  show ?thesis by (rule storage_updatedI [OF inv room r RemoveFrom_post [OF inv i r(1)]])
qed

lemma AddRangeTo_updated:
  assumes inv: "storage_inv b" and ok: "sets_ok b" and i: "valid_index b i" and room: "room_for (length xs) b"
  shows "if i = EmptySetIndex \<and> card (set xs) = 1 then AddRangeTo u hasher i xs b = None
    else storage_updated b i (set xs \<union> contents b i) (AddRangeTo u hasher i xs b)"
proof -
  obtain new b1 where a: "AddRangeToSet [] xs b = (new, b1)" by fastforce
  have b1: "ItemSets b1 = ItemSets b" "length (Items b1) \<le> length (Items b) + length xs"
    using AddRangeToSet_grown [of "[]" xs b] a by simp_all
  then have g1: "grown (length xs) b b1" by (simp add: grown_def)
  have inv1: "storage_inv b1" and g: "grows {} b b1" and new: "index_set_ok b1 new" "item_at b1 ` set new = set xs"
    using AddRangeToSet_spec [OF inv _ a grown_fits [OF room g1]] by (auto simp: index_set_ok_def)
  have "inj_on (item_at b1) (set new)"
    using item_at_inj [OF inv1] new(1) by (auto simp: inj_on_def index_set_ok_def)
  then have len: "length new = card (set xs)"
    unfolding new(2) [symmetric] index_set_length [OF new(1)] by (simp add: card_image)
  have i1: "valid_index b1 i" using grows_contents [OF inv g i] by simp
  have ok1: "sets_ok b1" using sets_ok_same [OF b1(1)] ok by simp
  have added: "sets_ok (snd (add_set u hasher items c)) \<and> grown (length xs) b (snd (add_set u hasher items c))"
    if "storage_inv c" "sets_ok c" "length items \<noteq> 1" "Items c = Items b1"
      "length (Storage (ItemSets c)) = length (Storage (ItemSets b))" for items c
    using add_set_grown [OF that(1-3), of u hasher] that(4,5) b1(2) by (simp add: grown_def)
  define s where "s = GetItemSet b1 i"
  define b2 where "b2 = (if refset s \<noteq> [] then set_item_set i (s\<lparr>RefCount := RefCount s - 1\<rparr>) b1 else b1)"
  let ?joined = "oset_insert_all (<) (refset s) new"
  have res: "AddRangeTo u hasher i xs b = (if even i then Some (AddSetOrSingle u hasher (index_insert i new) b1)
      else if refset s \<noteq> [] \<and> RefCount s \<le> 1
      then Some (i, set_item_set i (s\<lparr>refset := oset_insert_all (<) new (refset s)\<rparr>) b1)
      else AddSet u hasher ?joined b2)"
    unfolding AddRangeTo_def a prod.case Let_def IsSingleItem_def s_def b2_def ..
  have empty: "refset s = [] \<longleftrightarrow> i = EmptySetIndex" if "odd i"
  proof
    show "i = EmptySetIndex" if "refset s = []"
      using set_size(1) [OF ok1 \<open>odd i\<close> i1 _ inv1] that by (auto simp: s_def)
    show "refset s = []" if "i = EmptySetIndex"
      using inv1 that by (simp add: s_def GetItemSet_def storage_inv_def EmptySetIndex_def)
  qed
  show ?thesis
  proof (cases "i = EmptySetIndex \<and> card (set xs) = 1")
    case True
    then have "odd i" "refset s = []" using empty by (simp_all add: EmptySetIndex_def)
    then show ?thesis using True res len by (simp add: AddSet_def)
  next
    case no: False
    have "\<exists>r. AddRangeTo u hasher i xs b = Some r \<and> sets_ok (snd r) \<and> grown (length xs) b (snd r)"
    proof (cases "even i")
      case True
      then show ?thesis
        using res ok1 g1 added [OF inv1 ok1, of "index_insert i new"] b1(1) by (auto simp: AddSetOrSingle_eq)
    next
      case odd: False
      show ?thesis
      proof (cases "refset s = []")
        case True
        then have "length new \<noteq> 1" using no len empty odd by simp
        then show ?thesis using res odd True added [OF inv1 ok1, of new] b1(1) by (simp add: AddSet_def b2_def)
      next
        case ne: False
        have big: "2 \<le> length (refset s)" "i div 2 \<noteq> 0" using set_size [OF ok1 odd i1 _ inv1] ne by (simp_all add: s_def)
        have iok: "index_set_ok b1 (refset s)" "index_set_ok b1 ?joined" "index_set_ok b1 (oset_insert_all (<) new (refset s))"
          using contents_items [OF inv1 i1 odd] new(1) by (auto simp: index_set_ok_def s_def)
        have "length (refset s) \<le> length ?joined" "length (refset s) \<le> length (oset_insert_all (<) new (refset s))"
          unfolding index_set_length [OF iok(1)] index_set_length [OF iok(2)] index_set_length [OF iok(3)] by (rule card_mono; auto)+
        then have big2: "2 \<le> length ?joined" "2 \<le> length (oset_insert_all (<) new (refset s))" using big(1) by linarith+
        have b2: "storage_inv b2" "sets_ok b2" "Items b2 = Items b1"
            "length (Storage (ItemSets b2)) = length (Storage (ItemSets b))"
          using drop_user_spec(1) [OF inv1 odd i1 refl] inv1 sets_ok_set [OF ok1] big(1) ok1 b1(1)
          by (auto simp: b2_def s_def set_item_set_def)
        show ?thesis
        proof (cases "RefCount s \<le> 1")
          case True
          then show ?thesis
            using res odd ne g1 sets_ok_set [OF ok1, of i "s\<lparr>refset := oset_insert_all (<) new (refset s)\<rparr>"] big2(2)
            by (simp add: grown_set)
        next
          case False
          then show ?thesis using res odd ne added [OF b2(1,2) _ b2(3,4), of ?joined] big2(1) by (simp add: AddSet_def)
        qed
      qed
    qed
    then obtain j b' where r: "AddRangeTo u hasher i xs b = Some (j, b')" "sets_ok b'" "grown (length xs) b b'" by auto
    have "storage_updated b i (set xs \<union> contents b i) (AddRangeTo u hasher i xs b)"
      by (rule storage_updatedI [OF inv room r AddRangeTo_post [OF inv i r(1)]])
    then show ?thesis unfolding if_not_P [OF no] .
  qed
qed

section \<open>Properties\<close>

text \<open>
  C16. The operations of \<^verbatim>\<open>TCompactStorageBuilder\<close> on a set index \<open>i\<close>, while there is room below \<open>2^32\<close> and every stored set has two
  items or more: \<^verbatim>\<open>AddTo\<close> returns an index of the set with the item added, \<^verbatim>\<open>RemoveFrom\<close> of the set without the item,
  \<^verbatim>\<open>AddRangeTo\<close> of the set with the range added, whether the set is single, empty, shared or changed in place, and no
  assertion fails, except in one case: \<^verbatim>\<open>AddRangeTo\<close> of a range with exactly one distinct item to the empty set runs into the
  assertion of \<^verbatim>\<open>AddSet\<close>. The invariant and the size of the sets are kept, and no other index changes its set, nor
  does \<open>i\<close> itself if its set has more than one user.
\<close>

theorem storage_update_correct:
  assumes "storage_inv b" "sets_ok b" "valid_index b i" "room_for (Suc (length xs)) b"
  shows "storage_updated b i (insert x (contents b i)) (AddTo u hasher i x b) \<and>
    storage_updated b i (contents b i - {x}) (RemoveFrom u hasher i x b) \<and>
    (if i = EmptySetIndex \<and> card (set xs) = 1 then AddRangeTo u hasher i xs b = None
     else storage_updated b i (set xs \<union> contents b i) (AddRangeTo u hasher i xs b))"
proof -
  have "room_for 1 b" "room_for (length xs) b" using assms(4) by (simp_all add: room_for_def)
  then show ?thesis
    using AddTo_updated [OF assms(1-3)] RemoveFrom_updated [OF assms(1-3)] AddRangeTo_updated [OF assms(1-3)] by blast
qed

text \<open>A builder that holds the set of 5 and 7, used by one client and then by two.\<close>

definition sample_hash :: "nat \<Rightarrow> nat" where "sample_hash i = i"

definition sample_storage :: "nat TCompactStorageBuilder" where
  "sample_storage = snd (AddRange True sample_hash [5, 7] (storage_builder True sample_hash (2 ^ 32 - 1)))"

definition sample_shared :: "nat TCompactStorageBuilder" where
  "sample_shared = snd (AddRange True sample_hash [7, 5] sample_storage)"

lemmas storage_eval = AddRange_def storage_builder_def indexator_Add_def Insert_def
  indexator_init_def hash_index_init_def prime_size_init_def BucketCount_def y_prime_list_def
  storage_Add_def AddSetOrSingle_def AddSet_def add_set_def AddTo_def AddRangeTo_def GetItemSet_def set_item_set_def to_index_def
  ToSetIndex_def ToItemIndex_def NextItemIndex_def NextSetIndex_def EmptySetIndex_def IsSingleItem_def
  set_hash_def sample_hash_def refset_eq_def prime_next_def prime_resize_def push_index_def
  bucket_push_back_def CHUNK_SIZE_def RearrangeBuckets_def ExtractChunks_def Let_def prime_advance.simps
  fits_def valid_index_def builder_items_def storage_Verify_def storage_Save_def VectorsVector_def
  vectors_Size_def SubVector_def sample_storage_def sample_shared_def

lemma sample_storage_inv: "storage_inv sample_storage" "storage_inv sample_shared"
proof -
  have 1: "AddRange True sample_hash [5, 7] (storage_builder True sample_hash (2 ^ 32 - 1)) = (3, sample_storage)"
    and 2: "AddRange True sample_hash [7, 5] sample_storage = (3, sample_shared)"
    and fits: "fits sample_storage" "fits sample_shared"
    by (simp_all add: storage_eval)
  show i: "storage_inv sample_storage"
    using AddRange_post [OF storage_builder_inv 1 fits(1)] by (simp add: storage_post_def)
  show "storage_inv sample_shared"
    using AddRange_post [OF i 2 fits(2)] by (simp add: storage_post_def)
qed

lemma sample_storage_sets_ok: "sets_ok sample_shared"
proof -
  have "Storage (ItemSets sample_shared) = [\<lparr>refset = [], RefCount = 0\<rparr>, \<lparr>refset = [0, 2], RefCount = 2\<rparr>]"
    by (simp add: storage_eval)
  then show ?thesis by (auto simp: sets_ok_def less_Suc_eq)
qed

theorem storage_update_correct_witness:
  "storage_inv sample_shared \<and> contents sample_shared 3 = {5, 7} \<and>
   storage_updated sample_shared 3 {5, 7, 9} (AddTo True sample_hash 3 9 sample_shared) \<and>
   storage_updated sample_shared 3 {5, 7, 8} (AddRangeTo True sample_hash 3 [8] sample_shared) \<and>
   AddRangeTo True sample_hash EmptySetIndex [8] sample_shared = None"
proof -
  have ev: "valid_index sample_shared 3" "valid_index sample_shared EmptySetIndex" "builder_items sample_shared 3 = [5, 7]"
    by (simp_all add: storage_eval)
  have room: "room_for (Suc (length [8 :: nat])) sample_shared" by (simp add: storage_eval room_for_def)
  have c: "contents sample_shared 3 = {5, 7}" by (simp add: contents_def ev(3))
  note th = storage_update_correct [OF sample_storage_inv(2) sample_storage_sets_ok _ room, where u = True and hasher = sample_hash and x = 9]
  have ne: "3 \<noteq> EmptySetIndex" by (simp add: EmptySetIndex_def)
  show ?thesis
    using th [OF ev(1)] th [OF ev(2)] sample_storage_inv(2) ne unfolding c by (simp add: insert_commute)
qed

text \<open>
  A saved storage gives back what was put in: after \<^verbatim>\<open>AddRange\<close> and whatever growth followed, if
  the builder is saved without an overflow exception, the loaded storage iterates over exactly the
  items of the range under the index that \<^verbatim>\<open>AddRange\<close> returned.
\<close>

lemma storage_saved_correct:
  assumes "storage_inv b" and "AddRange u hasher xs b = (i, b1)" and "fits b1"
    and "grows J b1 b2" and "i \<notin> J"
    and "storage_Save b2 = Some t"
  shows "set (storage_items t i) = set xs"
proof -
  have p: "storage_inv b1" "valid_index b1 i" "contents b1 i = set xs"
    using AddRange_post [OF assms(1-3)] by (auto simp: storage_post_def)
  have "valid_index b2 i \<and> contents b2 i = contents b1 i"
    using grows_contents [OF p(1) assms(4) p(2)] assms(5) by blast
  then show ?thesis
    using storage_Save_items [OF _ assms(6)] p(3) by (simp add: contents_def)
qed

lemma storage_saved_correct_witness:
  "AddRange True sample_hash [7, 5] sample_storage = (3, sample_shared) \<and> storage_Save sample_shared \<noteq> None \<and>
   set (storage_items (the (storage_Save sample_shared)) 3) = {5, 7}"
proof -
  have ev: "AddRange True sample_hash [7, 5] sample_storage = (3, sample_shared)" "fits sample_shared"
    "storage_Save sample_shared \<noteq> None"
    by (simp_all add: storage_eval)
  then have s: "storage_Save sample_shared = Some (the (storage_Save sample_shared))" by simp
  have g: "grows {} sample_shared sample_shared" by (rule grows_refl)
  show ?thesis
    using storage_saved_correct [OF sample_storage_inv(1) ev(1,2) g _ s] ev(1) s by auto
qed

end
