(* ===== verification/GLRCells.thy ===== *)
theory GLRCells
  imports CompactStorage
begin

text \<open>
  The building blocks of the compacted GLR table (\<^verbatim>\<open>afglrparserlib/glrtable.h\<close>): the raw cell
  \<^verbatim>\<open>CSLRCell\<close>, the 64-bit compacted cell \<^verbatim>\<open>TCompactSLRCell\<close>, the bit mask of the non-empty cells,
  and the sparse matrix \<^verbatim>\<open>TSparseMatrix\<close> in Yale format. The unsigned 32-bit and 8-bit integers are
  words where the code
  shifts and masks them, numbers below \<open>2^32\<close> elsewhere; a pointer to a rule is its index in the vector of rules.
\<close>

unbundle bit_operations_syntax

section \<open>Cells\<close>

record CSLRCell =
  m_bShift :: bool
  m_GotoLine :: int
  m_ReduceRules :: "nat list"

definition slr_cell_init :: CSLRCell where
  "slr_cell_init = \<lparr>m_bShift = False, m_GotoLine = - 1, m_ReduceRules = []\<rparr>"

definition cell_IsEmpty :: "CSLRCell \<Rightarrow> bool" where
  "cell_IsEmpty c \<longleftrightarrow> m_GotoLine c = - 1 \<and> \<not> m_bShift c \<and> m_ReduceRules c = []"

record TCompactSLRCell =
  ShiftGoto :: "32 word"
  RulesIndex :: "32 word"

definition compact_Empty :: "32 word" where
  "compact_Empty = NOT 1"

definition compact_cell :: "bool \<Rightarrow> int \<Rightarrow> 32 word \<Rightarrow> TCompactSLRCell" where
  "compact_cell shift gotoLine rulesIndex =
     (let sg = (if gotoLine \<ge> 0 then word_of_int (push_bit 1 gotoLine) else compact_Empty)
      in \<lparr>ShiftGoto = (if shift then sg OR 1 else sg), RulesIndex = rulesIndex\<rparr>)"

definition HasGotoLine :: "TCompactSLRCell \<Rightarrow> bool" where
  "HasGotoLine c \<longleftrightarrow> ShiftGoto c AND compact_Empty \<noteq> compact_Empty"

definition compact_GetGotoLine :: "TCompactSLRCell \<Rightarrow> 32 word" where
  "compact_GetGotoLine c = drop_bit 1 (ShiftGoto c)"

text \<open>The packed word of a goto line is twice the line, plus the shift flag.\<close>

lemma shift_goto_unat:
  assumes "n < 2 ^ 31"
  shows "unat (ShiftGoto (compact_cell s (int n) r)) = 2 * n + of_bool s"
proof -
  have w: "word_of_int (push_bit 1 (int n)) = (word_of_nat (2 * n) :: 32 word)"
    by (simp add: push_bit_eq_mult)
  have u: "unat (word_of_nat (2 * n) :: 32 word) = 2 * n"
    using assms by (simp add: unat_of_nat del: of_nat_mult)
  have "(word_of_nat (2 * n) :: 32 word) OR 1 = word_of_nat (2 * n + 1)"
    using or_one_eq [of "word_of_nat (2 * n) :: 32 word"] by (simp add: even_word_iff bit_simps)
  moreover have "unat (word_of_nat (2 * n + 1) :: 32 word) = 2 * n + 1"
    using assms by (simp add: unat_of_nat del: of_nat_mult of_nat_add of_nat_Suc)
  ultimately show ?thesis
    unfolding compact_cell_def Let_def w using u by simp
qed

lemma compact_cell_goto:
  assumes "n < 2 ^ 31 - 1"
  shows "HasGotoLine (compact_cell s (int n) r)" and "unat (compact_GetGotoLine (compact_cell s (int n) r)) = n"
    and "RulesIndex (compact_cell s (int n) r) = r"
proof -
  let ?v = "ShiftGoto (compact_cell s (int n) r)"
  have v: "unat ?v = 2 * n + of_bool s" using shift_goto_unat assms by simp
  have "?v AND NOT 1 \<noteq> NOT 1"
  proof
    assume "?v AND NOT 1 = NOT 1"
    then have "NOT 1 \<le> ?v" by (metis word_and_le2)
    then have "unat (NOT 1 :: 32 word) \<le> unat ?v" by (simp add: word_le_nat_alt)
    then show False using v assms by (cases s) simp_all
  qed
  then show "HasGotoLine (compact_cell s (int n) r)" by (simp add: HasGotoLine_def compact_Empty_def)
  have "unat (drop_bit 1 ?v) = unat ?v div 2"
    using unat_drop_bit_eq [of 1 ?v] drop_bit_eq_div [of 1 "unat ?v"] by (simp only: power_one_right)
  then show "unat (compact_GetGotoLine (compact_cell s (int n) r)) = n"
    using v by (cases s) (simp_all add: compact_GetGotoLine_def)
  show "RulesIndex (compact_cell s (int n) r) = r" by (simp add: compact_cell_def Let_def)
qed

lemma compact_cell_no_goto:
  "\<not> HasGotoLine (compact_cell False (- 1) r)" "RulesIndex (compact_cell False (- 1) r) = r"
  by (simp_all add: compact_cell_def HasGotoLine_def)

section \<open>The mask\<close>

definition mask_set :: "nat \<Rightarrow> 8 word list \<Rightarrow> 8 word list" where
  "mask_set index Mask =
     Mask[drop_bit 3 index := (Mask ! drop_bit 3 index) OR push_bit (index AND 7) 1]"

definition mask_clear_at :: "8 word list \<Rightarrow> nat \<Rightarrow> bool" where
  "mask_clear_at Mask idx \<longleftrightarrow> (Mask ! drop_bit 3 idx) AND push_bit (idx AND 7) 1 = 0"

lemma byte_index: "drop_bit 3 (i :: nat) = i div 8" "(i :: nat) AND 7 = i mod 8"
proof -
  show "drop_bit 3 i = i div 8" by (simp add: drop_bit_eq_div)
  have "mask 3 = (7 :: nat)" by (simp add: mask_eq_exp_minus_1)
  then show "i AND 7 = i mod 8" using take_bit_eq_mask [of 3 i] by (simp add: take_bit_eq_mod)
qed

lemma mask_clear_iff: "mask_clear_at M i \<longleftrightarrow> \<not> bit (M ! (i div 8)) (i mod 8)"
proof -
  have "(w AND push_bit n 1 = 0) = (\<not> bit w n)" if "n < 8" for w :: "8 word" and n
    using that by (simp add: push_bit_of_1 and_exp_eq_0_iff_not_bit)
  then show ?thesis by (simp add: mask_clear_at_def byte_index)
qed

lemma length_mask_set [simp]: "length (mask_set i M) = length M"
  by (simp add: mask_set_def)

lemma mask_set_clear:
  assumes "i div 8 < length M"
  shows "mask_clear_at (mask_set i M) j \<longleftrightarrow> j \<noteq> i \<and> mask_clear_at M j"
proof -
  have b: "bit (push_bit (i mod 8) (1 :: 8 word)) (j mod 8) \<longleftrightarrow> i mod 8 = j mod 8"
    by (simp only: bit_simps) auto
  have e: "bit (m OR push_bit (i mod 8) 1) (j mod 8) \<longleftrightarrow> bit m (j mod 8) \<or> i mod 8 = j mod 8"
    for m :: "8 word" by (simp only: bit_or_iff b)
  have ij: "i = j \<longleftrightarrow> i div 8 = j div 8 \<and> i mod 8 = j mod 8" by (metis div_mult_mod_eq)
  have "mask_set i M ! (j div 8) =
      (if i div 8 = j div 8 then (M ! (j div 8)) OR push_bit (i mod 8) 1 else M ! (j div 8))"
    using assms by (simp add: mask_set_def byte_index nth_list_update)
  then have "bit (mask_set i M ! (j div 8)) (j mod 8) \<longleftrightarrow> bit (M ! (j div 8)) (j mod 8) \<or> i = j"
    using e ij by (cases "i div 8 = j div 8") (simp_all only: if_True if_False, simp_all)
  then show ?thesis unfolding mask_clear_iff by blast
qed

section \<open>Sparse matrix\<close>

record 'a TSparseMatrix =
  Values :: "'a list"
  RowIndex :: "nat list"
  ColumnIndex :: "nat list"

definition sparse_init :: "'a TSparseMatrix" where
  "sparse_init = \<lparr>Values = [], RowIndex = [0], ColumnIndex = []\<rparr>"

definition sparse_IsEmpty :: "'a TSparseMatrix \<Rightarrow> bool" where
  "sparse_IsEmpty m \<longleftrightarrow> Values m = []"

definition sparse_Add :: "nat \<Rightarrow> nat \<Rightarrow> 'a \<Rightarrow> 'a TSparseMatrix \<Rightarrow> 'a TSparseMatrix" where
  "sparse_Add row column v m =
     (let newRows = to_index (row + 1);
          vals = Values m @ [v];
          rows = RowIndex m @ replicate (newRows + 1 - length (RowIndex m)) (last (RowIndex m))
      in \<lparr>Values = vals, RowIndex = rows[length rows - 1 := to_index (length vals)],
          ColumnIndex = ColumnIndex m @ [column]\<rparr>)"

text \<open>\<^verbatim>\<open>std::lower_bound\<close> on an ascending range is the number of the smaller entries in front.\<close>

definition lower_bound :: "nat list \<Rightarrow> nat \<Rightarrow> nat" where
  "lower_bound xs x = length (takeWhile (\<lambda>y. y < x) xs)"

definition sparse_Get :: "'a TSparseMatrix \<Rightarrow> nat \<Rightarrow> nat \<Rightarrow> 'a" where
  "sparse_Get m row column =
     (let beg = RowIndex m ! row;
          en = RowIndex m ! (row + 1);
          index = beg + lower_bound (take (en - beg) (drop beg (ColumnIndex m))) column
      in Values m ! index)"

text \<open>Entries are added in ascending order of row and column.\<close>

definition sparse_adds :: "(nat \<times> nat \<times> 'a) list \<Rightarrow> 'a TSparseMatrix" where
  "sparse_adds es = fold (\<lambda>(r, c, v). sparse_Add r c v) es sparse_init"

definition entry_less :: "nat \<times> nat \<times> 'a \<Rightarrow> nat \<times> nat \<times> 'a \<Rightarrow> bool" where
  "entry_less x y \<longleftrightarrow> fst x < fst y \<or> fst x = fst y \<and> fst (snd x) < fst (snd y)"

definition rows_below :: "(nat \<times> nat \<times> 'a) list \<Rightarrow> nat \<Rightarrow> nat" where
  "rows_below es k = length (filter (\<lambda>e. fst e < k) es)"

definition sparse_inv :: "(nat \<times> nat \<times> 'a) list \<Rightarrow> 'a TSparseMatrix \<Rightarrow> bool" where
  "sparse_inv es m \<longleftrightarrow>
     Values m = map (\<lambda>e. snd (snd e)) es \<and> ColumnIndex m = map (\<lambda>e. fst (snd e)) es \<and>
     length (RowIndex m) = (if es = [] then 1 else fst (last es) + 2) \<and>
     (\<forall>k < length (RowIndex m). RowIndex m ! k = rows_below es k)"

lemma rows_below_all: "\<forall>e \<in> set es. fst e < k \<Longrightarrow> rows_below es k = length es"
  by (simp add: rows_below_def)

lemma rows_below_nth:
  "sorted_wrt entry_less es \<Longrightarrow> j < length es \<Longrightarrow> fst (es ! j) < k \<longleftrightarrow> j < rows_below es k"
proof (induction es arbitrary: j)
  case (Cons e es)
  show ?case
  proof (cases "fst e < k")
    case True
    then show ?thesis using Cons by (cases j) (auto simp: rows_below_def)
  next
    case False
    then have ge: "\<forall>x \<in> set (e # es). \<not> fst x < k"
      using Cons.prems(1) by (auto simp: entry_less_def)
    then have "rows_below (e # es) k = 0" by (simp add: rows_below_def filter_False)
    moreover have "(e # es) ! j \<in> set (e # es)" by (rule nth_mem) (rule Cons.prems(2))
    ultimately show ?thesis using ge by (metis not_less_zero)
  qed
qed simp

lemma sparse_Add_inv:
  assumes inv: "sparse_inv es m" and s: "sorted_wrt entry_less (es @ [(r, c, v)])"
    and bound: "r + 1 < 2 ^ 32" "length es + 1 < 2 ^ 32"
  shows "sparse_inv (es @ [(r, c, v)]) (sparse_Add r c v m)"
proof -
  let ?L = "length (RowIndex m)"
  have le: "fst e \<le> r" if "e \<in> set es" for e using s that by (auto simp: sorted_wrt_append entry_less_def)
  have L: "?L \<le> r + 2" "?L > 0"
    using inv le [of "last es"] by (auto simp: sparse_inv_def split: if_splits)
  have rows_m: "RowIndex m ! k = rows_below es k" if "k < ?L" for k using inv that by (simp add: sparse_inv_def)
  have below: "rows_below es k = length es" if "?L \<le> k + 1" for k
  proof (rule rows_below_all, rule ballI)
    fix e
    assume e: "e \<in> set es"
    have split: "es = butlast es @ [last es]" using e by (cases es) auto
    have "sorted_wrt entry_less (butlast es @ [last es])"
      using s split by (metis sorted_wrt_append)
    moreover have "e \<in> set (butlast es) \<or> e = last es" using e split by (metis Un_iff empty_iff empty_set set_ConsD set_append)
    ultimately have "fst e \<le> fst (last es)" by (auto simp: sorted_wrt_append entry_less_def)
    moreover have "es \<noteq> []" using e by auto
    ultimately show "fst e < k" using inv that by (auto simp: sparse_inv_def)
  qed
  have last: "last (RowIndex m) = length es"
    using rows_m [of "?L - 1"] below [of "?L - 1"] L by (auto simp: last_conv_nth)
  define rows where "rows = RowIndex m @ replicate (r + 2 - ?L) (length es)"
  have len: "length rows = r + 2" using L by (simp add: rows_def)
  have idx: "rows ! k = rows_below es k" if "k < r + 2" for k
    using that rows_m below [of k] by (cases "k < ?L") (auto simp: rows_def nth_append)
  have "sparse_Add r c v m = \<lparr>Values = Values m @ [v], RowIndex = rows[r + 1 := length es + 1],
      ColumnIndex = ColumnIndex m @ [c]\<rparr>"
    using bound inv len by (simp add: sparse_Add_def Let_def to_index_def rows_def last sparse_inv_def)
  moreover have "(rows[r + 1 := length es + 1]) ! k = rows_below (es @ [(r, c, v)]) k" if "k < r + 2" for k
  proof (cases "k = r + 1")
    case True
    then show ?thesis using len le rows_below_all [of es k] by (auto simp: rows_below_def less_Suc_eq_le)
  next
    case False
    then show ?thesis using len idx [OF that] that by (simp add: rows_below_def)
  qed
  ultimately show ?thesis using inv len by (simp add: sparse_inv_def)
qed

lemma sparse_adds_inv:
  assumes "sorted_wrt entry_less es" "\<forall>e \<in> set es. fst e + 1 < 2 ^ 32" "length es < 2 ^ 32"
  shows "sparse_inv es (sparse_adds es)"
  using assms
proof (induction es rule: rev_induct)
  case Nil
  show ?case by (simp add: sparse_adds_def sparse_inv_def sparse_init_def rows_below_def)
next
  case (snoc e es)
  obtain r c v where e: "e = (r, c, v)" by (cases e) auto
  have "sparse_inv es (sparse_adds es)" using snoc by (simp add: sorted_wrt_append)
  from sparse_Add_inv [OF this] snoc.prems show ?case by (simp add: e sparse_adds_def)
qed

lemma sparse_Get_inv:
  assumes inv: "sparse_inv es m" and s: "sorted_wrt entry_less es" and e: "(r, c, v) \<in> set es"
  shows "sparse_Get m r c = v"
proof -
  obtain i where i: "i < length es" "es ! i = (r, c, v)" using e by (auto simp: in_set_conv_nth)
  let ?b = "rows_below es r" and ?e = "rows_below es (r + 1)"
  have "fst (last es) \<ge> r"
  proof -
    have "i = length es - 1 \<or> entry_less (es ! i) (es ! (length es - 1))"
      using s i(1) by (cases "i < length es - 1") (auto simp: sorted_wrt_iff_nth_less)
    moreover have "last es = es ! (length es - 1)" using i(1) by (intro last_conv_nth) auto
    ultimately show ?thesis using i(2) by (auto simp: entry_less_def)
  qed
  moreover have "es \<noteq> []" using e by auto
  ultimately have idx: "RowIndex m ! r = ?b" "RowIndex m ! (r + 1) = ?e"
    using inv by (auto simp: sparse_inv_def)
  have range: "?b \<le> i" "i < ?e"
    using rows_below_nth [OF s i(1)] i(2) by (auto simp: not_less [symmetric])
  have e_le: "?e \<le> length es" by (simp add: rows_below_def)
  define slice where "slice = take (?e - ?b) (drop ?b (ColumnIndex m))"
  have slice_nth: "slice ! j = fst (snd (es ! (?b + j)))" if "j < ?e - ?b" for j
    using that e_le inv by (simp add: slice_def sparse_inv_def)
  have slice_len: "length slice = ?e - ?b" using e_le inv by (simp add: slice_def sparse_inv_def)
  have "takeWhile (\<lambda>y. y < c) slice = take (i - ?b) slice"
  proof (rule takeWhile_eq_take_P_nth)
    fix j
    assume j: "j < i - ?b" "j < length slice"
    have bj: "?b + j < ?e" "?b + j < length es" using j slice_len e_le by linarith+
    have "fst (es ! (?b + j)) = r"
      using rows_below_nth [OF s bj(2), of r] rows_below_nth [OF s bj(2), of "r + 1"] bj(1) by simp
    moreover have "entry_less (es ! (?b + j)) (es ! i)"
      using s i(1) j by (simp add: sorted_wrt_iff_nth_less)
    ultimately show "slice ! j < c" using i(2) j slice_len by (simp add: slice_nth entry_less_def)
  next
    show "i - ?b < length slice \<Longrightarrow> \<not> slice ! (i - ?b) < c"
      using slice_len range i(2) by (simp add: slice_nth)
  qed
  then have "lower_bound slice c = i - ?b" using range slice_len by (simp add: lower_bound_def)
  then have "sparse_Get m r c = Values m ! i"
    using range unfolding sparse_Get_def Let_def idx slice_def by simp
  then show ?thesis using inv i by (simp add: sparse_inv_def)
qed

section \<open>Property\<close>

text \<open>
  The sparse matrix gives back what was added: after adding entries in ascending order of row and
  column, with fewer than \<open>2^32\<close> entries and rows, \<^verbatim>\<open>Get\<close> finds by binary search in the row's slice the
  value of every entry.
\<close>

lemma sparse_matrix_roundtrip:
  assumes "sorted_wrt entry_less es" and "\<forall>e \<in> set es. fst e + 1 < 2 ^ 32" and "length es < 2 ^ 32"
    and "(r, c, v) \<in> set es"
  shows "sparse_Get (sparse_adds es) r c = v"
  by (rule sparse_Get_inv [OF sparse_adds_inv [OF assms(1-3)] assms(1,4)])

lemma sparse_matrix_roundtrip_witness:
  "sparse_Get (sparse_adds [(0, 1, 10), (2, 0, 20), (2, 3, 30 :: nat)]) 2 3 = 30"
  using sparse_matrix_roundtrip [of "[(0, 1, 10), (2, 0, 20), (2, 3, 30 :: nat)]" 2 3 30]
  by (simp add: entry_less_def)

end
