(* ===== verification/LRItems.thy ===== *)
theory LRItems
  imports FirstFollow
begin

text \<open>
  LR(0) item sets: \<^verbatim>\<open>lr-items.h\<close> and \<^verbatim>\<open>lr-items.cpp\<close>. \<^verbatim>\<open>CloseItemSet\<close> iterates over a set while it
  inserts into it; \<^verbatim>\<open>CLRCollectionSet::Compute\<close> runs over a vector of item sets while it appends to
  it. Both are shown to end. The first is the closure of an item set; the second gives the canonical
  collection: the start set, the goto function on it, and no set that cannot be reached.
\<close>

section \<open>Closing an item set\<close>

abbreviation item_set_insert :: "CLRItem \<Rightarrow> CLRItem list \<Rightarrow> CLRItem list" where
  "item_set_insert \<equiv> oset_insert lr_item_less"

definition AddToItemSet :: "CWorkRule list list \<Rightarrow> CLRItem list \<Rightarrow> symbol \<Rightarrow> CLRItem list" where
  "AddToItemSet rulesIndex ItemSet SymbolNo =
     fold (\<lambda>r s. item_set_insert \<lparr>m_pRule = r, m_DotSymbolNo = 0\<rparr> s) (rulesIndex ! SymbolNo) ItemSet"

text \<open>One turn of the inner loop of \<^verbatim>\<open>CloseItemSet\<close>, with the iterator at \<open>it\<close>.\<close>

definition close_visit ::
  "('a CWorkGrammar_scheme) \<Rightarrow> CWorkRule list list \<Rightarrow> CLRItem \<Rightarrow> CLRItem list \<times> nat list
     \<Rightarrow> CLRItem list \<times> nat list" where
  "close_visit G rulesIndex it st =
     (let (ItemSet, AlreadyAdded) = st
      in if \<not> IsFinished it then
           (let SymbolNo = GetSymbolNo it
            in if is_meta G SymbolNo \<and> \<not> oset_mem (<) SymbolNo AlreadyAdded
               then (AddToItemSet rulesIndex ItemSet SymbolNo,
                     oset_insert (<) SymbolNo AlreadyAdded)
               else st)
         else st)"

definition metas_left :: "('a CWorkGrammar_scheme) \<Rightarrow> nat list \<Rightarrow> symbol set" where
  "metas_left G AlreadyAdded = {s. is_meta G s \<and> s \<notin> set AlreadyAdded}"

lemma finite_metas_left [simp]: "finite (metas_left G A)"
  by (rule finite_subset [of _ "{..<length (m_UniqueGrammarItems G)}"])
    (auto simp: metas_left_def is_meta_def)

lemma close_visit_cases:
  "close_visit G ix it (S, A) = (S, A) \<or>
   (close_visit G ix it (S, A) =
      (AddToItemSet ix S (GetSymbolNo it), oset_insert (<) (GetSymbolNo it) A) \<and>
    \<not> IsFinished it \<and> is_meta G (GetSymbolNo it) \<and> GetSymbolNo it \<notin> set A)"
  by (auto simp: close_visit_def Let_def)

text \<open>
  The inner loop: the iterator moves to the next greater element of the set as it then is. It
  ends because either a meta symbol is marked as added, or the set stays and the iterator moves on.
\<close>

function (sequential) close_scan ::
  "('a CWorkGrammar_scheme) \<Rightarrow> CWorkRule list list \<Rightarrow> CLRItem option \<Rightarrow> CLRItem list \<times> nat list
     \<Rightarrow> CLRItem list \<times> nat list" where
  "close_scan G rulesIndex None st = st"
| "close_scan G rulesIndex (Some it) st =
     (let st' = close_visit G rulesIndex it st
      in close_scan G rulesIndex (oset_next lr_item_less it (fst st')) st')"
  by pat_completeness auto

definition scan_left :: "CLRItem option \<Rightarrow> CLRItem list \<Rightarrow> nat" where
  "scan_left it S =
     (case it of None \<Rightarrow> 0 | Some x \<Rightarrow> Suc (card {z \<in> set S. lr_item_less x z}))"

lemma scan_left_next: "scan_left (oset_next lr_item_less x S) S < scan_left (Some x) S"
proof (cases "oset_next lr_item_less x S")
  case (Some y)
  then show ?thesis
    using psubset_card_mono [OF _ lr_item.next_decreases [OF Some]] by (simp add: scan_left_def)
qed (simp add: scan_left_def)

lemma metas_left_insert:
  "is_meta G s \<Longrightarrow> s \<notin> set A \<Longrightarrow> card (metas_left G (oset_insert (<) s A)) < card (metas_left G A)"
  by (rule psubset_card_mono [OF finite_metas_left]) (auto simp: metas_left_def)

lemma metas_left_mono: "set A \<subseteq> set B \<Longrightarrow> card (metas_left G B) \<le> card (metas_left G A)"
  by (rule card_mono [OF finite_metas_left]) (auto simp: metas_left_def)

termination close_scan
proof (relation "measures [\<lambda>(G, ix, it, st). card (metas_left G (snd st)),
    \<lambda>(G, ix, it, st). scan_left it (fst st)]"; clarify?)
  fix G :: "'a CWorkGrammar_scheme" and ix it S A st'
  assume st': "st' = close_visit G ix it (S, A)"
  show "((G, ix, oset_next lr_item_less it (fst st'), st'), G, ix, Some it, S, A)
    \<in> measures [\<lambda>(G, ix, it, st). card (metas_left G (snd st)),
        \<lambda>(G, ix, it, st). scan_left it (fst st)]"
    using close_visit_cases [of G ix it S A] scan_left_next [of it S]
      metas_left_insert [of G "GetSymbolNo it" A]
    unfolding st' by auto
qed auto

lemma close_scan_added:
  "set (snd st) \<subseteq> set (snd (close_scan G ix it st)) \<and>
   (fst (close_scan G ix it st) = fst st \<or>
    card (metas_left G (snd (close_scan G ix it st))) < card (metas_left G (snd st)))"
proof (induction G ix it st rule: close_scan.induct)
  case (2 G ix it st)
  obtain S A where st: "st = (S, A)" by (cases st)
  define st' where "st' = close_visit G ix it st"
  have IH: "set (snd st') \<subseteq> set (snd (close_scan G ix (oset_next lr_item_less it (fst st')) st')) \<and>
     (fst (close_scan G ix (oset_next lr_item_less it (fst st')) st') = fst st' \<or>
      card (metas_left G (snd (close_scan G ix (oset_next lr_item_less it (fst st')) st')))
        < card (metas_left G (snd st')))"
    using 2 st'_def by blast
  consider (same) "st' = st" | (new) "set (snd st) \<subseteq> set (snd st')"
     "card (metas_left G (snd st')) < card (metas_left G (snd st))"
    using close_visit_cases [of G ix it S A] metas_left_insert [of G "GetSymbolNo it" A]
    unfolding st'_def st by fastforce
  then show ?case
    using IH metas_left_mono [of "snd st'" "snd (close_scan G ix (oset_next lr_item_less it (fst st')) st')" G]
    by cases (auto simp: st'_def [symmetric] Let_def)
qed simp

text \<open>The outer loop, \<^verbatim>\<open>do \<dots> while (SaveSize < ItemSet.size())\<close>.\<close>

function close_loop ::
  "('a CWorkGrammar_scheme) \<Rightarrow> CWorkRule list list \<Rightarrow> CLRItem list \<times> nat list \<Rightarrow> CLRItem list" where
  "close_loop G rulesIndex st =
     (let SaveSize = length (fst st);
          begin = (case fst st of [] \<Rightarrow> None | x # _ \<Rightarrow> Some x);
          st' = close_scan G rulesIndex begin st
      in if SaveSize < length (fst st') then close_loop G rulesIndex st' else fst st')"
  by pat_completeness auto

termination
proof (relation "measure (\<lambda>(G, ix, st). card (metas_left G (snd st)))"; clarify?)
  fix G :: "'a CWorkGrammar_scheme" and ix it S A S' A'
  assume "(S', A') = close_scan G ix it (S, A)" "length (fst (S, A)) < length (fst (S', A'))"
  then show "((G, ix, S', A'), G, ix, S, A) \<in> measure (\<lambda>(G, ix, st). card (metas_left G (snd st)))"
    using close_scan_added [of "(S, A)" G ix it] by (auto simp: eq_snd_iff)
qed

definition CloseItemSet ::
  "('a CWorkGrammar_scheme) \<Rightarrow> CWorkRule list list \<Rightarrow> CLRItem list \<Rightarrow> CLRItem list" where
  "CloseItemSet G rulesIndex ItemSet = close_loop G rulesIndex (ItemSet, [])"

section \<open>The closure\<close>

inductive_set lr_closure :: "('a CWorkGrammar_scheme) \<Rightarrow> CLRItem set \<Rightarrow> CLRItem set"
  for G :: "'a CWorkGrammar_scheme" and I :: "CLRItem set" where
  closure_base: "it \<in> I \<Longrightarrow> it \<in> lr_closure G I"
| closure_step: "it \<in> lr_closure G I \<Longrightarrow> \<not> IsFinished it \<Longrightarrow> is_meta G (GetSymbolNo it) \<Longrightarrow>
     r \<in> set (m_EncodedRules G) \<Longrightarrow> m_LeftPart r = GetSymbolNo it \<Longrightarrow>
     \<lparr>m_pRule = r, m_DotSymbolNo = 0\<rparr> \<in> lr_closure G I"

text \<open>The items of a grammar, a finite set on which the comparator tells items apart.\<close>

definition grammar_lr_items :: "('a CWorkGrammar_scheme) \<Rightarrow> CLRItem set" where
  "grammar_lr_items G =
     {it. m_pRule it \<in> set (m_EncodedRules G) \<and> m_DotSymbolNo it \<le> length (rhs (m_pRule it))}"

lemma finite_grammar_lr_items: "finite (grammar_lr_items G)"
proof -
  let ?f = "\<lambda>(r, d). \<lparr>m_pRule = r, m_DotSymbolNo = d\<rparr>"
  have "grammar_lr_items G \<subseteq> ?f ` (SIGMA r : set (m_EncodedRules G). {..length (rhs r)})"
  proof
    fix it assume "it \<in> grammar_lr_items G"
    then have "(m_pRule it, m_DotSymbolNo it) \<in> (SIGMA r : set (m_EncodedRules G). {..length (rhs r)})"
      "it = ?f (m_pRule it, m_DotSymbolNo it)"
      by (auto simp: grammar_lr_items_def)
    then show "it \<in> ?f ` (SIGMA r : set (m_EncodedRules G). {..length (rhs r)})" by blast
  qed
  then show ?thesis by (rule finite_subset) auto
qed

lemma lr_closure_items: "I \<subseteq> grammar_lr_items G \<Longrightarrow> lr_closure G I \<subseteq> grammar_lr_items G"
proof
  fix it assume "I \<subseteq> grammar_lr_items G" "it \<in> lr_closure G I"
  from this(2,1) show "it \<in> grammar_lr_items G"
    by induction (auto simp: grammar_lr_items_def)
qed

lemma lr_items_inj:
  assumes "wf_grammar G" "S \<subseteq> grammar_lr_items G"
  shows "inj_on lr_item_key S"
  by (rule lr_item_key_inj_on [OF wf_grammar_inj [OF assms(1)]])
    (use assms(2) in \<open>auto simp: grammar_lr_items_def\<close>)

definition start_items :: "('a CWorkGrammar_scheme) \<Rightarrow> symbol \<Rightarrow> CLRItem set" where
  "start_items G s =
     {\<lparr>m_pRule = r, m_DotSymbolNo = 0\<rparr> | r. r \<in> set (m_EncodedRules G) \<and> m_LeftPart r = s}"

lemma start_items_subset: "start_items G s \<subseteq> grammar_lr_items G"
  by (auto simp: start_items_def grammar_lr_items_def)

lemma AddToItemSet_eq:
  assumes "s < length (m_UniqueGrammarItems G)"
  shows "AddToItemSet (IndexEncodedRules G) S s =
    oset_insert_all lr_item_less
      (map (\<lambda>r. \<lparr>m_pRule = r, m_DotSymbolNo = 0\<rparr>) (filter (\<lambda>r. m_LeftPart r = s) (m_EncodedRules G))) S"
  using assms by (simp add: AddToItemSet_def IndexEncodedRules_nth oset_insert_all_def fold_map comp_def)

lemma AddToItemSet_set:
  assumes "wf_grammar G" "s < length (m_UniqueGrammarItems G)" "set S \<subseteq> grammar_lr_items G"
  shows "set (AddToItemSet (IndexEncodedRules G) S s) = start_items G s \<union> set S"
proof -
  let ?new = "map (\<lambda>r. \<lparr>m_pRule = r, m_DotSymbolNo = 0\<rparr>) (filter (\<lambda>r. m_LeftPart r = s) (m_EncodedRules G))"
  have new: "set ?new = start_items G s"
    by (auto simp: start_items_def)
  have "set ?new \<union> set S \<subseteq> grammar_lr_items G"
    unfolding new using start_items_subset [of G s] assms(3) by blast
  then have "inj_on lr_item_key (set ?new \<union> set S)"
    by (rule lr_items_inj [OF assms(1)])
  then show ?thesis
    unfolding AddToItemSet_eq [OF assms(2)] using lr_item.set_insert_all_inj new by metis
qed

lemma AddToItemSet_ordered:
  assumes "s < length (m_UniqueGrammarItems G)" "lr_item.ordered S"
  shows "lr_item.ordered (AddToItemSet (IndexEncodedRules G) S s)"
  unfolding AddToItemSet_eq [OF assms(1)] using assms(2) by (rule lr_item.ordered_insert_all)

text \<open>
  The invariant of the closing loops for the set \<open>I\<close> they started from: the set is ordered, lies
  between \<open>I\<close> and its closure, and holds the rules of every symbol marked as added.
\<close>

definition close_inv :: "('a CWorkGrammar_scheme) \<Rightarrow> CLRItem set \<Rightarrow> CLRItem list \<times> nat list \<Rightarrow> bool" where
  "close_inv G I st \<longleftrightarrow>
     lr_item.ordered (fst st) \<and> I \<subseteq> set (fst st) \<and> set (fst st) \<subseteq> lr_closure G I \<and>
     (\<forall>s \<in> set (snd st). start_items G s \<subseteq> set (fst st))"

definition item_done :: "('a CWorkGrammar_scheme) \<Rightarrow> nat list \<Rightarrow> CLRItem \<Rightarrow> bool" where
  "item_done G A it \<longleftrightarrow> IsFinished it \<or> \<not> is_meta G (GetSymbolNo it) \<or> GetSymbolNo it \<in> set A"

lemma close_visit_inv:
  assumes wf: "wf_grammar G" "I \<subseteq> grammar_lr_items G" and inv: "close_inv G I st"
    and it: "it \<in> set (fst st)" and st': "st' = close_visit G (IndexEncodedRules G) it st"
  shows "close_inv G I st'" and "set (fst st) \<subseteq> set (fst st')" and "item_done G (snd st') it"
    and "set (snd st) \<subseteq> set (snd st')"
proof -
  obtain S A where st: "st = (S, A)" by (cases st)
  let ?s = "GetSymbolNo it"
  have items: "set S \<subseteq> grammar_lr_items G"
    using inv lr_closure_items [OF wf(2)] by (auto simp: close_inv_def st)
  have "close_inv G I st' \<and> set S \<subseteq> set (fst st') \<and> item_done G (snd st') it \<and> set A \<subseteq> set (snd st')"
  proof (cases "\<not> IsFinished it \<and> is_meta G ?s \<and> ?s \<notin> set A")
    case True
    then have st'2: "st' = (AddToItemSet (IndexEncodedRules G) S ?s, oset_insert (<) ?s A)"
      by (simp add: st' st close_visit_def Let_def)
    have len: "?s < length (m_UniqueGrammarItems G)" using True by (simp add: is_meta_def)
    have "start_items G ?s \<subseteq> lr_closure G I"
      using True inv it by (auto simp: start_items_def close_inv_def st intro: closure_step)
    then show ?thesis
      using AddToItemSet_set [OF wf(1) len items] AddToItemSet_ordered [OF len] inv
      by (auto simp: st'2 close_inv_def st item_done_def)
  next
    case False
    then have "st' = st" by (auto simp: st' st close_visit_def Let_def)
    then show ?thesis using False inv st by (auto simp: item_done_def)
  qed
  then show "close_inv G I st'" "set (fst st) \<subseteq> set (fst st')" "item_done G (snd st') it"
    "set (snd st) \<subseteq> set (snd st')" by (simp_all add: st)
qed

lemma item_done_mono: "item_done G A it \<Longrightarrow> set A \<subseteq> set B \<Longrightarrow> item_done G B it"
  by (auto simp: item_done_def)

lemma close_scan_inv:
  assumes "wf_grammar G" "I \<subseteq> grammar_lr_items G" "ix = IndexEncodedRules G"
    and "close_inv G I st" "\<forall>x. it = Some x \<longrightarrow> x \<in> set (fst st)"
  shows "close_inv G I (close_scan G ix it st) \<and> set (fst st) \<subseteq> set (fst (close_scan G ix it st)) \<and>
     set (snd st) \<subseteq> set (snd (close_scan G ix it st)) \<and>
     (set (fst (close_scan G ix it st)) = set (fst st) \<longrightarrow>
       (\<forall>x. it = Some x \<longrightarrow> (\<forall>z \<in> set (fst st). z = x \<or> lr_item_less x z \<longrightarrow>
          item_done G (snd (close_scan G ix it st)) z)))"
  using assms
proof (induction G ix it st rule: close_scan.induct)
  case (2 G ix it st)
  define st' where "st' = close_visit G ix it st"
  define nx where "nx = oset_next lr_item_less it (fst st')"
  have it: "it \<in> set (fst st)" using 2(6) by simp
  note v = close_visit_inv [OF 2(2,3,5) it, of st', folded 2(4), OF st'_def]
  have mem: "\<forall>x. nx = Some x \<longrightarrow> x \<in> set (fst st')"
    by (auto simp: nx_def dest: oset_next_Some)
  note IH = 2(1) [OF st'_def, folded nx_def, OF 2(2,3,4) v(1) mem]
  define R where "R = close_scan G ix nx st'"
  have eq: "close_scan G ix (Some it) st = R"
    by (simp add: R_def nx_def st'_def Let_def)
  have visited: "item_done G (snd R) z" if R: "set (fst R) = set (fst st)" and z: "z \<in> set (fst st)"
    "z = it \<or> lr_item_less it z" for z
  proof -
    have same: "set (fst R) = set (fst st')" using IH v(2) R by (auto simp: R_def)
    show ?thesis
    proof (cases "z = it")
      case True
      then show ?thesis using item_done_mono [OF v(3)] IH by (simp add: R_def)
    next
      case False
      then obtain y where y: "nx = Some y" "z = y \<or> lr_item_less y z"
        using lr_item.next_least [of "fst st'" z it] v(1,2) z
        by (auto simp: nx_def close_inv_def)
      then show ?thesis using IH same v(2) z(1) by (auto simp: R_def)
    qed
  qed
  show ?case
    unfolding eq using IH v visited by (auto simp: R_def)
qed simp

lemma close_loop_set:
  assumes "wf_grammar G" "I \<subseteq> grammar_lr_items G" "ix = IndexEncodedRules G" "close_inv G I st"
  shows "lr_item.ordered (close_loop G ix st) \<and> set (close_loop G ix st) = lr_closure G I"
  using assms
proof (induction G ix st rule: close_loop.induct)
  case (1 G ix st)
  define it where "it = (case fst st of [] \<Rightarrow> None | x # _ \<Rightarrow> Some x)"
  define st' where "st' = close_scan G ix it st"
  have mem: "\<forall>x. it = Some x \<longrightarrow> x \<in> set (fst st)"
    by (auto simp: it_def split: list.splits)
  note s = close_scan_inv [OF 1(2-5) mem, folded st'_def]
  show ?case
  proof (cases "length (fst st) < length (fst st')")
    case True
    have "lr_item.ordered (close_loop G ix st') \<and> set (close_loop G ix st') = lr_closure G I"
      using 1(1) [OF refl it_def st'_def True 1(2-4)] s by blast
    then show ?thesis
      using True by (subst (1 2) close_loop.simps) (simp add: Let_def it_def [symmetric] st'_def [symmetric])
  next
    case False
    have ord: "lr_item.ordered (fst st)" "lr_item.ordered (fst st')"
      using 1(5) s by (auto simp: close_inv_def)
    have "card (set (fst st')) \<le> card (set (fst st))"
      using False lr_item.ordered_distinct [OF ord(1)] lr_item.ordered_distinct [OF ord(2)]
      by (simp add: distinct_card)
    then have same: "set (fst st') = set (fst st)"
      using s by (metis List.finite_set card_seteq)
    have visited: "item_done G (snd st') z" if z: "z \<in> set (fst st')" for z
    proof -
      obtain x xs where x: "fst st = x # xs" using z same by (cases "fst st") auto
      then have "z = x \<or> lr_item_less x z" using z same ord(1) by auto
      then show ?thesis using s z same x by (auto simp: it_def)
    qed
    have "lr_closure G I \<subseteq> set (fst st')"
    proof
      fix y assume "y \<in> lr_closure G I"
      then show "y \<in> set (fst st')"
      proof induction
        case (closure_base y)
        then show ?case using s by (auto simp: close_inv_def)
      next
        case (closure_step y r)
        then have "GetSymbolNo y \<in> set (snd st')" using visited by (auto simp: item_done_def)
        then have "start_items G (GetSymbolNo y) \<subseteq> set (fst st')" using s by (simp add: close_inv_def)
        then show ?case using closure_step by (auto simp: start_items_def)
      qed
    qed
    then have "lr_item.ordered (fst st') \<and> set (fst st') = lr_closure G I"
      using s by (auto simp: close_inv_def)
    then show ?thesis
      using False by (subst (1 2) close_loop.simps) (simp add: Let_def it_def [symmetric] st'_def [symmetric])
  qed
qed

lemma CloseItemSet_spec:
  assumes "wf_grammar G" "set S \<subseteq> grammar_lr_items G" "lr_item.ordered S"
  shows "lr_item.ordered (CloseItemSet G (IndexEncodedRules G) S)"
    and "set (CloseItemSet G (IndexEncodedRules G) S) = lr_closure G (set S)"
  unfolding CloseItemSet_def
  using close_loop_set [OF assms(1,2) refl, of "(S, [])"] assms(3)
  by (auto simp: close_inv_def intro: closure_base)

section \<open>The collection of item sets\<close>

record CLRCollectionSet =
  m_ItemSets :: "CLRItem list list"
  m_GotoFunction :: "(CStateAndSymbol \<times> nat) list"

definition GetGotoValue :: "symbol \<Rightarrow> nat \<Rightarrow> CLRCollectionSet \<Rightarrow> nat option" where
  "GetGotoValue SymbolNo StateNo C =
     omap_get state_and_symbol_less \<lparr>m_SymbolNo = SymbolNo, m_StateNo = StateNo\<rparr> (m_GotoFunction C)"

text \<open>The statement \<^verbatim>\<open>nextItemSets[symbol].insert(item)\<close>, for one item of the current set.\<close>

definition next_item ::
  "symbol \<Rightarrow> CLRItem \<Rightarrow> (symbol \<times> CLRItem list) list \<Rightarrow> (symbol \<times> CLRItem list) list" where
  "next_item EOSSymbol it nextItemSets =
     (if \<not> IsFinished it \<and> GetSymbolNo it \<noteq> EOSSymbol then
        (let s = GetSymbolNo it;
             old = (case omap_get (<) s nextItemSets of None \<Rightarrow> [] | Some S \<Rightarrow> S)
         in omap_set (<) s
              (item_set_insert \<lparr>m_pRule = m_pRule it, m_DotSymbolNo = m_DotSymbolNo it + 1\<rparr> old)
              nextItemSets)
      else nextItemSets)"

text \<open>\<^verbatim>\<open>std::find\<close> over the vector of sets, which compares element by element.\<close>

fun find_item_set :: "CLRItem list \<Rightarrow> CLRItem list list \<Rightarrow> nat option" where
  "find_item_set S [] = None"
| "find_item_set S (T # Ts) =
     (if list_all2 lr_item_eq T S then Some 0 else map_option Suc (find_item_set S Ts))"

definition goto_entry ::
  "('a CWorkGrammar_scheme) \<Rightarrow> CWorkRule list list \<Rightarrow> nat \<Rightarrow> symbol \<times> CLRItem list
     \<Rightarrow> CLRCollectionSet \<Rightarrow> CLRCollectionSet" where
  "goto_entry G rulesIndex i e C =
     (let newItemSet = CloseItemSet G rulesIndex (snd e);
          (newStateNo, itemSets) =
            (case find_item_set newItemSet (m_ItemSets C) of
               Some j \<Rightarrow> (j, m_ItemSets C)
             | None \<Rightarrow> (length (m_ItemSets C), m_ItemSets C @ [newItemSet]))
      in \<lparr>m_ItemSets = itemSets,
          m_GotoFunction = omap_set state_and_symbol_less
            \<lparr>m_SymbolNo = fst e, m_StateNo = i\<rparr> newStateNo (m_GotoFunction C)\<rparr>)"

definition compute_step ::
  "('a CWorkGrammar_scheme) \<Rightarrow> CWorkRule list list \<Rightarrow> nat \<times> CLRCollectionSet \<Rightarrow> nat \<times> CLRCollectionSet" where
  "compute_step G rulesIndex iC =
     (let (i, C) = iC;
          nextItemSets = fold (next_item (GetEndOfStreamSymbol G)) (m_ItemSets C ! i) []
      in (i + 1, fold (goto_entry G rulesIndex i) nextItemSets C))"

text \<open>\<open>None\<close> would mean that the loop over the growing vector never ends.\<close>

definition Compute :: "('a CWorkGrammar_scheme) \<Rightarrow> CLRCollectionSet option" where
  "Compute G =
     (let rulesIndex = IndexEncodedRules G;
          ItemSet0 = CloseItemSet G rulesIndex (AddToItemSet rulesIndex [] (GetNewRoot G))
      in map_option snd
           (while_option (\<lambda>(i, C). i < length (m_ItemSets C)) (compute_step G rulesIndex)
              (0, \<lparr>m_ItemSets = [ItemSet0], m_GotoFunction = []\<rparr>)))"

section \<open>The canonical collection\<close>

definition advance :: "CLRItem \<Rightarrow> CLRItem" where
  "advance it = \<lparr>m_pRule = m_pRule it, m_DotSymbolNo = m_DotSymbolNo it + 1\<rparr>"

text \<open>The items of a set with the dot before \<open>X\<close>, moved over it.\<close>

definition lr_kernel :: "CLRItem set \<Rightarrow> symbol \<Rightarrow> CLRItem set" where
  "lr_kernel I X = advance ` {it \<in> I. \<not> IsFinished it \<and> GetSymbolNo it = X}"

lemma advance_inj: "inj advance"
  by (rule injI, rule CLRItem.equality) (auto simp: advance_def)

lemma lr_kernel_items:
  assumes "I \<subseteq> grammar_lr_items G"
  shows "lr_kernel I X \<subseteq> grammar_lr_items G"
proof
  fix x assume "x \<in> lr_kernel I X"
  then obtain it where "it \<in> grammar_lr_items G" "\<not> IsFinished it" "x = advance it"
    using assms by (auto simp: lr_kernel_def)
  then show "x \<in> grammar_lr_items G"
    by (auto simp: grammar_lr_items_def IsFinished_def advance_def)
qed

text \<open>What the map of next item sets holds after the items \<open>its\<close>.\<close>

definition next_sets_inv :: "symbol \<Rightarrow> CLRItem set \<Rightarrow> (symbol \<times> CLRItem list) list \<Rightarrow> bool" where
  "next_sets_inv E its m \<longleftrightarrow>
     natset.ordered (map fst m) \<and>
     (\<forall>s S. (s, S) \<in> set m \<longrightarrow> lr_item.ordered S \<and> set S = lr_kernel its s) \<and>
     fst ` set m = {s. s \<noteq> E \<and> lr_kernel its s \<noteq> {}}"

lemma lr_kernel_insert:
  "lr_kernel (insert it I) X =
     (if \<not> IsFinished it \<and> GetSymbolNo it = X then insert (advance it) (lr_kernel I X) else lr_kernel I X)"
  by (auto simp: lr_kernel_def)

lemma next_item_inv:
  assumes wf: "wf_grammar G" and items: "insert it its \<subseteq> grammar_lr_items G"
    and inv: "next_sets_inv E its m"
  shows "next_sets_inv E (insert it its) (next_item E it m)"
proof (cases "\<not> IsFinished it \<and> GetSymbolNo it \<noteq> E")
  case True
  define s where "s = GetSymbolNo it"
  define old where "old = (case omap_get (<) s m of None \<Rightarrow> [] | Some S \<Rightarrow> S)"
  define new where "new = item_set_insert (advance it) old"
  have ord: "natset.ordered (map fst m)" using inv by (simp add: next_sets_inv_def)
  have old: "lr_item.ordered old \<and> set old = lr_kernel its s"
  proof (cases "omap_get (<) s m")
    case None
    then have "s \<notin> fst ` set m" using natset.get_None [of s m] by simp
    then have "lr_kernel its s = {}" using inv True by (auto simp: next_sets_inv_def s_def)
    then show ?thesis by (simp add: old_def None)
  next
    case (Some S)
    then have "(s, S) \<in> set m" using natset.get_Some [of s m S] by simp
    then show ?thesis using inv by (simp add: old_def Some next_sets_inv_def)
  qed
  have k: "lr_kernel (insert it its) s = insert (advance it) (lr_kernel its s)"
    using True by (simp add: lr_kernel_insert s_def)
  have "inj_on lr_item_key (insert (advance it) (set old))"
    by (rule lr_items_inj [OF wf]) (use lr_kernel_items [OF items, of s] k old in auto)
  then have new: "lr_item.ordered new" "set new = lr_kernel (insert it its) s"
    using lr_item.set_insert_inj lr_item.ordered_insert old k by (auto simp: new_def)
  have m': "next_item E it m = omap_set (<) s new m"
    using True by (simp add: next_item_def s_def old_def new_def Let_def advance_def)
  have other: "lr_kernel (insert it its) t = lr_kernel its t" if "t \<noteq> s" for t
    using that by (simp add: lr_kernel_insert s_def)
  have set: "set (omap_set (<) s new m) = insert (s, new) {e \<in> set m. fst e \<noteq> s}"
    by (rule set_nat_omap_set [OF ord])
  have dom: "fst ` set (omap_set (<) s new m) = insert s (fst ` set m)"
    unfolding set by force
  have iff: "t \<in> insert s (fst ` set m) \<longleftrightarrow> t \<noteq> E \<and> lr_kernel (insert it its) t \<noteq> {}" for t
    using inv other k True by (cases "t = s") (auto simp: next_sets_inv_def s_def)
  have keys: "fst ` set (omap_set (<) s new m) = {t. t \<noteq> E \<and> lr_kernel (insert it its) t \<noteq> {}}"
    unfolding dom by (rule set_eqI) (simp only: iff mem_Collect_eq)
  have vals: "lr_item.ordered S \<and> set S = lr_kernel (insert it its) t"
    if "(t, S) \<in> set (omap_set (<) s new m)" for t S
    using that inv new other unfolding set by (auto simp: next_sets_inv_def)
  show ?thesis
    unfolding next_sets_inv_def m' by (intro conjI allI impI natset.ordered_set ord vals keys)
next
  case False
  then have m': "next_item E it m = m" by (auto simp: next_item_def)
  have same: "lr_kernel (insert it its) s = lr_kernel its s" if "s \<noteq> E" for s
    using False that by (auto simp: lr_kernel_insert)
  have ne: "s \<noteq> E" if "(s, S) \<in> set m" for s S
  proof -
    have "s \<in> fst ` set m" using that by force
    then show ?thesis using inv by (simp add: next_sets_inv_def)
  qed
  have iff: "s \<noteq> E \<and> lr_kernel (insert it its) s \<noteq> {} \<longleftrightarrow> s \<noteq> E \<and> lr_kernel its s \<noteq> {}" for s
    using same by auto
  show ?thesis
    using inv unfolding next_sets_inv_def m' iff by (auto simp: same ne)
qed

lemma next_items_inv:
  assumes "wf_grammar G" "set its \<subseteq> grammar_lr_items G"
  shows "next_sets_inv E (set its) (fold (next_item E) its [])"
proof -
  have "next_sets_inv E (done0 \<union> set its) (fold (next_item E) its m)"
    if "next_sets_inv E done0 m" "done0 \<union> set its \<subseteq> grammar_lr_items G" for done0 m
    using that
  proof (induction its arbitrary: done0 m)
    case (Cons it its)
    have "next_sets_inv E (insert it done0) (next_item E it m)"
      by (rule next_item_inv [OF assms(1)]) (use Cons.prems in auto)
    then show ?case using Cons.IH [of "insert it done0"] Cons.prems(2) by simp
  qed simp
  from this [of "{}" "[]"] show ?thesis
    using assms(2) by (simp add: next_sets_inv_def lr_kernel_def)
qed

lemma find_item_set_spec:
  assumes "wf_grammar G" "\<forall>T \<in> set Ts. set T \<subseteq> grammar_lr_items G \<and> lr_item.ordered T"
    and "set S \<subseteq> grammar_lr_items G" "lr_item.ordered S"
  shows "case find_item_set S Ts of
      Some j \<Rightarrow> j < length Ts \<and> Ts ! j = S
    | None \<Rightarrow> S \<notin> set Ts"
  using assms(2)
proof (induction Ts)
  case (Cons T Ts)
  have "list_all2 lr_item_eq T S \<longleftrightarrow> T = S"
  proof
    assume "list_all2 lr_item_eq T S"
    then have "map lr_item_key T = map lr_item_key S"
      by (simp add: list_all2_conv_all_nth lr_item_eq_key list_eq_iff_nth_eq)
    moreover have "inj_on lr_item_key (set T \<union> set S)"
      by (rule lr_items_inj [OF assms(1)]) (use Cons.prems assms(3) in auto)
    ultimately show "T = S" using map_inj_on by blast
  qed (simp add: list_all2_same lr_item_eq_key)
  then show ?case using Cons by (auto split: option.splits)
qed simp

text \<open>
  The invariant of \<^verbatim>\<open>Compute\<close>, with the set \<open>D\<close> of pairs of state and symbol on which the goto function
  is already defined.
\<close>

abbreviation item_set :: "CLRCollectionSet \<Rightarrow> nat \<Rightarrow> CLRItem set" where
  "item_set C k \<equiv> set (m_ItemSets C ! k)"

definition lr_target :: "('a CWorkGrammar_scheme) \<Rightarrow> CLRItem set \<Rightarrow> symbol \<Rightarrow> CLRItem set" where
  "lr_target G I X = lr_closure G (lr_kernel I X)"

definition collection_inv ::
  "('a CWorkGrammar_scheme) \<Rightarrow> (nat \<times> symbol) set \<Rightarrow> CLRCollectionSet \<Rightarrow> bool" where
  "collection_inv G D C \<longleftrightarrow>
     m_ItemSets C \<noteq> [] \<and> item_set C 0 = lr_closure G (start_items G (GetNewRoot G)) \<and>
     (\<forall>T \<in> set (m_ItemSets C). set T \<subseteq> grammar_lr_items G \<and> lr_item.ordered T) \<and>
     distinct (m_ItemSets C) \<and>
     (\<forall>k X. (k, X) \<in> D \<longleftrightarrow> GetGotoValue X k C \<noteq> None) \<and>
     (\<forall>k X j. GetGotoValue X k C = Some j \<longrightarrow>
        k < length (m_ItemSets C) \<and> j < length (m_ItemSets C) \<and>
        lr_kernel (item_set C k) X \<noteq> {} \<and> item_set C j = lr_target G (item_set C k) X) \<and>
     (\<forall>j < length (m_ItemSets C). j \<noteq> 0 \<longrightarrow> (\<exists>k < j. \<exists>X. GetGotoValue X k C = Some j))"

lemma GetGotoValue_set:
  "GetGotoValue X k \<lparr>m_ItemSets = Is, m_GotoFunction =
      omap_set state_and_symbol_less \<lparr>m_SymbolNo = Y, m_StateNo = i\<rparr> j (m_GotoFunction C)\<rparr> =
   (if X = Y \<and> k = i then Some j else GetGotoValue X k C)"
  by (auto simp: GetGotoValue_def state_and_symbol.get_set state_and_symbol_key_def)

text \<open>One new entry of the goto function, for a set found in the collection or appended to it.\<close>

lemma collection_inv_entry:
  assumes inv: "collection_inv G D C" and i: "i < length (m_ItemSets C)" "(i, X) \<notin> D"
    and T: "set T = lr_target G (item_set C i) X" "lr_kernel (item_set C i) X \<noteq> {}"
      "lr_item.ordered T" "set T \<subseteq> grammar_lr_items G"
    and found: "case f of Some j \<Rightarrow> j < length (m_ItemSets C) \<and> m_ItemSets C ! j = T \<and> ys = []
       | None \<Rightarrow> T \<notin> set (m_ItemSets C) \<and> ys = [T]"
    and C': "m_ItemSets C' = m_ItemSets C @ ys"
    and goto: "\<And>Y k. GetGotoValue Y k C' = (if Y = X \<and> k = i
        then Some (case f of Some j \<Rightarrow> j | None \<Rightarrow> length (m_ItemSets C)) else GetGotoValue Y k C)"
  shows "collection_inv G (insert (i, X) D) C'"
proof -
  let ?n = "length (m_ItemSets C)"
  define j where "j = (case f of Some j \<Rightarrow> j | None \<Rightarrow> ?n)"
  have old: "m_ItemSets C' ! k = m_ItemSets C ! k" if "k < ?n" for k
    using that C' by (simp add: nth_append)
  have j: "j < length (m_ItemSets C')" "m_ItemSets C' ! j = T"
    using found C' by (auto simp: j_def nth_append split: option.splits)
  have goto': "GetGotoValue Y k C' = (if Y = X \<and> k = i then Some j else GetGotoValue Y k C)" for Y k
    using goto by (simp add: j_def)
  have none: "GetGotoValue X i C = None" using inv i(2) by (auto simp: collection_inv_def)
  have reach: "\<exists>k < l. \<exists>Y. GetGotoValue Y k C' = Some l"
    if l: "l < length (m_ItemSets C')" "l \<noteq> 0" for l
  proof (cases "l < ?n")
    case True
    then obtain k Y where "k < l" "GetGotoValue Y k C = Some l"
      using inv l(2) by (auto simp: collection_inv_def)
    moreover from this have "\<not> (Y = X \<and> k = i)" using none by auto
    ultimately show ?thesis using goto' by (metis (full_types))
  next
    case False
    then have "l = ?n" "j = ?n" using l(1) found C' by (auto simp: j_def split: option.splits)
    then show ?thesis using goto' i(1) by metis
  qed
  have sound: "k < length (m_ItemSets C') \<and> l < length (m_ItemSets C') \<and>
      lr_kernel (item_set C' k) Y \<noteq> {} \<and> item_set C' l = lr_target G (item_set C' k) Y"
    if "GetGotoValue Y k C' = Some l" for Y k l
  proof (cases "Y = X \<and> k = i")
    case True
    then show ?thesis using that goto' j T(1,2) i(1) old C' by simp
  next
    case False
    then have "GetGotoValue Y k C = Some l" using that goto' [of Y k] by auto
    then have "k < ?n \<and> l < ?n \<and> lr_kernel (item_set C k) Y \<noteq> {} \<and>
        item_set C l = lr_target G (item_set C k) Y"
      using inv by (auto simp: collection_inv_def)
    then show ?thesis using old C' by simp
  qed
  have dom: "(k, Y) \<in> insert (i, X) D \<longleftrightarrow> GetGotoValue Y k C' \<noteq> None" for k Y
    using inv goto' by (auto simp: collection_inv_def)
  have sets: "\<forall>S \<in> set (m_ItemSets C'). set S \<subseteq> grammar_lr_items G \<and> lr_item.ordered S"
    "distinct (m_ItemSets C')" "m_ItemSets C' \<noteq> []"
    using inv found T C' by (auto simp: collection_inv_def split: option.splits)
  have "0 < ?n" using i(1) by linarith
  then have "item_set C' 0 = lr_closure G (start_items G (GetNewRoot G))"
    using inv old by (simp add: collection_inv_def)
  then show ?thesis
    unfolding collection_inv_def using sets dom sound reach by (intro conjI) blast+
qed

lemma goto_entry_inv:
  assumes wf: "wf_grammar G" and inv: "collection_inv G D C"
    and i: "i < length (m_ItemSets C)" "(i, X) \<notin> D"
    and S: "lr_item.ordered S" "set S = lr_kernel (item_set C i) X" "S \<noteq> []"
    and C': "C' = goto_entry G (IndexEncodedRules G) i (X, S) C"
  shows "collection_inv G (insert (i, X) D) C'" and "\<exists>ys. m_ItemSets C' = m_ItemSets C @ ys"
proof -
  define T where "T = CloseItemSet G (IndexEncodedRules G) S"
  define f where "f = find_item_set T (m_ItemSets C)"
  have all: "\<forall>T \<in> set (m_ItemSets C). set T \<subseteq> grammar_lr_items G \<and> lr_item.ordered T"
    using inv by (simp add: collection_inv_def)
  then have k: "lr_kernel (item_set C i) X \<subseteq> grammar_lr_items G"
    using i(1) by (intro lr_kernel_items) simp
  have T: "lr_item.ordered T" "set T = lr_target G (item_set C i) X"
    using CloseItemSet_spec [OF wf _ S(1)] k S(2) by (auto simp: T_def lr_target_def)
  have Titems: "set T \<subseteq> grammar_lr_items G"
    using lr_closure_items [OF k] T(2) by (simp add: lr_target_def)
  have found: "case f of Some j \<Rightarrow> j < length (m_ItemSets C) \<and> m_ItemSets C ! j = T
      | None \<Rightarrow> T \<notin> set (m_ItemSets C)"
    unfolding f_def by (rule find_item_set_spec [OF wf all Titems T(1)])
  define ys where "ys = (case f of None \<Rightarrow> [T] | Some j \<Rightarrow> [])"
  have C'2: "C' = \<lparr>m_ItemSets = m_ItemSets C @ ys, m_GotoFunction =
      omap_set state_and_symbol_less \<lparr>m_SymbolNo = X, m_StateNo = i\<rparr>
        (case f of Some j \<Rightarrow> j | None \<Rightarrow> length (m_ItemSets C)) (m_GotoFunction C)\<rparr>"
    by (auto simp: C' goto_entry_def T_def [symmetric] f_def [symmetric] ys_def Let_def split: option.splits)
  show "\<exists>ys. m_ItemSets C' = m_ItemSets C @ ys" by (simp add: C'2)
  have ne: "lr_kernel (item_set C i) X \<noteq> {}" using S(2,3) by auto
  show "collection_inv G (insert (i, X) D) C'"
    by (rule collection_inv_entry [OF inv i T(2) ne T(1) Titems, where f = f and ys = ys])
      (use found in \<open>auto simp: ys_def C'2 GetGotoValue_set split: option.splits\<close>)
qed

lemma goto_entries_inv:
  assumes "wf_grammar G" "collection_inv G D C" "i < length (m_ItemSets C)"
    and "distinct (map fst es)" "\<forall>X S. (X, S) \<in> set es \<longrightarrow>
      (i, X) \<notin> D \<and> lr_item.ordered S \<and> set S = lr_kernel (item_set C i) X \<and> S \<noteq> []"
  shows "collection_inv G (D \<union> {i} \<times> fst ` set es) (fold (goto_entry G (IndexEncodedRules G) i) es C) \<and>
     (\<exists>ys. m_ItemSets (fold (goto_entry G (IndexEncodedRules G) i) es C) = m_ItemSets C @ ys)"
  using assms(2-5)
proof (induction es arbitrary: C D)
  case (Cons e es)
  obtain X S where e: "e = (X, S)" by (cases e)
  define C' where "C' = goto_entry G (IndexEncodedRules G) i (X, S) C"
  note g = goto_entry_inv [OF assms(1) Cons.prems(1,2) _ _ _ _ C'_def]
  have inv': "collection_inv G (insert (i, X) D) C'" and ext: "\<exists>ys. m_ItemSets C' = m_ItemSets C @ ys"
    using g Cons.prems(4) e by auto
  obtain ys where ys: "m_ItemSets C' = m_ItemSets C @ ys" using ext by blast
  have same: "item_set C' i = item_set C i" "i < length (m_ItemSets C')"
    using Cons.prems(2) ys by (auto simp: nth_append)
  have rest: "\<forall>Y T. (Y, T) \<in> set es \<longrightarrow> (i, Y) \<notin> insert (i, X) D \<and> lr_item.ordered T \<and>
      set T = lr_kernel (item_set C' i) Y \<and> T \<noteq> []"
    using Cons.prems(3,4) same(1) e by (auto simp: image_iff)
  show ?case
    using Cons.IH [OF inv' same(2) _ rest] Cons.prems(3) e ys
    by (auto simp: C'_def [symmetric] insert_commute)
qed simp

text \<open>The pairs on which the goto function of the first \<open>i\<close> states is defined.\<close>

definition goto_pairs :: "symbol \<Rightarrow> CLRCollectionSet \<Rightarrow> nat \<Rightarrow> (nat \<times> symbol) set" where
  "goto_pairs E C i = {(k, X). k < i \<and> X \<noteq> E \<and> lr_kernel (item_set C k) X \<noteq> {}}"

definition compute_inv :: "('a CWorkGrammar_scheme) \<Rightarrow> nat \<times> CLRCollectionSet \<Rightarrow> bool" where
  "compute_inv G iC \<longleftrightarrow>
     fst iC \<le> length (m_ItemSets (snd iC)) \<and>
     collection_inv G (goto_pairs (GetEndOfStreamSymbol G) (snd iC) (fst iC)) (snd iC)"

lemma compute_step_inv:
  assumes wf: "wf_grammar G" and inv: "compute_inv G (i, C)" and i: "i < length (m_ItemSets C)"
  shows "compute_inv G (compute_step G (IndexEncodedRules G) (i, C))"
proof -
  let ?E = "GetEndOfStreamSymbol G" and ?ix = "IndexEncodedRules G"
  define es where "es = fold (next_item ?E) (m_ItemSets C ! i) []"
  define C' where "C' = fold (goto_entry G ?ix i) es C"
  have cinv: "collection_inv G (goto_pairs ?E C i) C" using inv by (simp add: compute_inv_def)
  then have "item_set C i \<subseteq> grammar_lr_items G" using i by (simp add: collection_inv_def)
  then have es: "next_sets_inv ?E (item_set C i) es"
    unfolding es_def by (rule next_items_inv [OF wf])
  have "distinct (map fst es)"
    using es natset.ordered_distinct by (simp add: next_sets_inv_def)
  moreover have "\<forall>X S. (X, S) \<in> set es \<longrightarrow> (i, X) \<notin> goto_pairs ?E C i \<and> lr_item.ordered S \<and>
      set S = lr_kernel (item_set C i) X \<and> S \<noteq> []"
  proof (intro allI impI)
    fix X S assume XS: "(X, S) \<in> set es"
    then have "X \<in> fst ` set es" by force
    then have "lr_kernel (item_set C i) X \<noteq> {}" using es by (simp add: next_sets_inv_def)
    moreover have "lr_item.ordered S" "set S = lr_kernel (item_set C i) X"
      using es XS by (simp_all add: next_sets_inv_def)
    ultimately show "(i, X) \<notin> goto_pairs ?E C i \<and> lr_item.ordered S \<and>
      set S = lr_kernel (item_set C i) X \<and> S \<noteq> []" by (auto simp: goto_pairs_def)
  qed
  ultimately have g: "collection_inv G (goto_pairs ?E C i \<union> {i} \<times> fst ` set es) C'"
    and "\<exists>ys. m_ItemSets C' = m_ItemSets C @ ys"
    using goto_entries_inv [OF wf cinv i, of es] by (auto simp: C'_def)
  then obtain ys where ys: "m_ItemSets C' = m_ItemSets C @ ys" by blast
  have same: "item_set C' k = item_set C k" if "k \<le> i" for k
    using that i ys by (simp add: nth_append)
  have "goto_pairs ?E C' (Suc i) = goto_pairs ?E C i \<union> {i} \<times> fst ` set es"
    using es same by (auto simp: goto_pairs_def next_sets_inv_def less_Suc_eq)
  then show ?thesis
    using g i ys
    by (simp add: compute_inv_def compute_step_def es_def [symmetric] C'_def [symmetric])
qed

lemma compute_inv_bound:
  assumes "compute_inv G (i, C)"
  shows "length (m_ItemSets C) \<le> card (Pow (grammar_lr_items G))"
proof -
  have inv: "\<forall>T \<in> set (m_ItemSets C). set T \<subseteq> grammar_lr_items G \<and> lr_item.ordered T"
    "distinct (m_ItemSets C)"
    using assms by (auto simp: compute_inv_def collection_inv_def)
  have "inj_on set (set (m_ItemSets C))"
    using inv(1) lr_item.ordered_ext by (intro inj_onI) blast
  then have "length (m_ItemSets C) = card (set ` set (m_ItemSets C))"
    using inv(2) by (simp add: card_image distinct_card)
  also have "\<dots> \<le> card (Pow (grammar_lr_items G))"
    using inv(1) by (intro card_mono) (auto simp: finite_grammar_lr_items)
  finally show ?thesis .
qed

lemma Compute_spec:
  assumes wf: "wf_grammar G" and root: "GetNewRoot G < length (m_UniqueGrammarItems G)"
  shows "\<exists>C. Compute G = Some C \<and>
     collection_inv G (goto_pairs (GetEndOfStreamSymbol G) C (length (m_ItemSets C))) C"
proof -
  let ?ix = "IndexEncodedRules G" and ?b = "\<lambda>(i, C). i < length (m_ItemSets C)"
  define S0 where "S0 = AddToItemSet ?ix [] (GetNewRoot G)"
  define I0 where "I0 = CloseItemSet G ?ix S0"
  define s where "s = (0 :: nat, \<lparr>m_ItemSets = [I0], m_GotoFunction = []\<rparr>)"
  have S0: "set S0 = start_items G (GetNewRoot G)" "lr_item.ordered S0"
    using AddToItemSet_set [OF wf root, of "[]"] AddToItemSet_ordered [OF root, of "[]"]
    by (simp_all add: S0_def)
  have "set S0 \<subseteq> grammar_lr_items G" using S0(1) start_items_subset by simp
  then have I0: "lr_item.ordered I0" "set I0 = lr_closure G (start_items G (GetNewRoot G))"
    using CloseItemSet_spec [OF wf _ S0(2)] S0(1) by (simp_all add: I0_def)
  have "set I0 \<subseteq> grammar_lr_items G"
    unfolding I0(2) by (intro lr_closure_items start_items_subset)
  then have init: "compute_inv G s"
    using I0 by (simp add: s_def compute_inv_def collection_inv_def goto_pairs_def GetGotoValue_def)
  have step: "compute_inv G (compute_step G ?ix iC)" if "compute_inv G iC" "?b iC" for iC
    using compute_step_inv [OF wf, of "fst iC" "snd iC"] that by (simp add: case_prod_unfold)
  have "\<exists>t. while_option ?b (compute_step G ?ix) s = Some t"
  proof (rule measure_while_option_Some [where P = "compute_inv G" and f = "\<lambda>(i, C). card (Pow (grammar_lr_items G)) - i"])
    fix iC assume "compute_inv G iC" "?b iC"
    moreover obtain i C where "iC = (i, C)" by (cases iC)
    ultimately show "compute_inv G (compute_step G ?ix iC) \<and>
        (case compute_step G ?ix iC of (i, C) \<Rightarrow> card (Pow (grammar_lr_items G)) - i)
          < (case iC of (i, C) \<Rightarrow> card (Pow (grammar_lr_items G)) - i)"
      using step [of iC] compute_inv_bound [of G i C] by (simp add: compute_step_def)
  qed (rule init)
  then obtain i C where t: "while_option ?b (compute_step G ?ix) s = Some (i, C)" by auto
  have "compute_inv G (i, C)"
    by (rule while_option_rule [where P = "compute_inv G", OF _ t init]) (use step in auto)
  moreover have "\<not> i < length (m_ItemSets C)" using while_option_stop [OF t] by simp
  ultimately have "collection_inv G (goto_pairs (GetEndOfStreamSymbol G) C (length (m_ItemSets C))) C"
    by (auto simp: compute_inv_def)
  then show ?thesis
    using t by (intro exI [of _ C]) (simp add: Compute_def s_def I0_def S0_def Let_def)
qed

text \<open>The start set is the only one whose items all have the dot at the front.\<close>

lemma closure_dots:
  "it \<in> lr_closure G I \<Longrightarrow> it \<in> I \<or> m_DotSymbolNo it = 0"
  by (induction rule: lr_closure.induct) auto

lemma goto_not_start:
  assumes inv: "collection_inv G D C" and goto: "GetGotoValue X k C = Some j"
  shows "j \<noteq> 0"
proof
  assume "j = 0"
  then have "lr_kernel (item_set C k) X \<noteq> {}" "lr_target G (item_set C k) X = item_set C 0"
    using inv goto by (auto simp: collection_inv_def)
  then obtain it where "it \<in> lr_kernel (item_set C k) X"
    "it \<in> lr_closure G (start_items G (GetNewRoot G))"
    using inv by (auto simp: collection_inv_def lr_target_def intro: closure_base)
  then show False
    using closure_dots by (fastforce simp: lr_kernel_def advance_def start_items_def)
qed

section \<open>Properties\<close>

text \<open>
  C13. \<^verbatim>\<open>CloseItemSet\<close>, which inserts into the set it iterates over and marks each symbol once, gives on
  every set of items of a well-formed grammar its closure: the least set that holds the items and,
  with \<open>A \<rightarrow> v \<bullet> B w\<close>, every \<open>B \<rightarrow> \<bullet> w'\<close> of the grammar. The result is again an ordered set.
\<close>

theorem CloseItemSet_correct:
  assumes "wf_grammar G" "set S \<subseteq> grammar_lr_items G" "sorted_wrt lr_item_less S"
  shows "sorted_wrt lr_item_less (CloseItemSet G (IndexEncodedRules G) S) \<and>
     set (CloseItemSet G (IndexEncodedRules G) S) = lr_closure G (set S)"
  using CloseItemSet_spec [OF assms] by simp

definition sample_kernel :: "CLRItem list" where
  "sample_kernel = [\<lparr>m_pRule = sample_rule 0 0 [1, 0, 2], m_DotSymbolNo = 1\<rparr>]"

theorem CloseItemSet_correct_witness:
  "wf_grammar sample_augmented \<and> set sample_kernel \<subseteq> grammar_lr_items sample_augmented \<and>
   lr_closure sample_augmented (set sample_kernel) =
     set [\<lparr>m_pRule = sample_rule 0 0 [1, 0, 2], m_DotSymbolNo = 0\<rparr>,
      \<lparr>m_pRule = sample_rule 1 0 [1, 2], m_DotSymbolNo = 0\<rparr>,
      \<lparr>m_pRule = sample_rule 0 0 [1, 0, 2], m_DotSymbolNo = 1\<rparr>]"
proof -
  have ev: "sorted_wrt lr_item_less sample_kernel"
    "CloseItemSet sample_augmented (IndexEncodedRules sample_augmented) sample_kernel =
      [\<lparr>m_pRule = sample_rule 0 0 [1, 0, 2], m_DotSymbolNo = 0\<rparr>,
       \<lparr>m_pRule = sample_rule 1 0 [1, 2], m_DotSymbolNo = 0\<rparr>,
       \<lparr>m_pRule = sample_rule 0 0 [1, 0, 2], m_DotSymbolNo = 1\<rparr>]"
    by code_simp+
  have items: "set sample_kernel \<subseteq> grammar_lr_items sample_augmented"
    by (simp add: grammar_lr_items_def sample_kernel_def sample_augmented_def sample_rule_def)
  show ?thesis
    using CloseItemSet_correct [OF sample_wf(3) items ev(1), THEN conjunct2, symmetric]
    unfolding ev(2) by (intro conjI sample_wf(3) items)
qed

text \<open>
  C14. \<^verbatim>\<open>CLRCollectionSet::Compute\<close> ends on every augmented grammar and gives the canonical collection:
  state 0 is the closure of the rules of the new root; the goto function is defined exactly on the pairs
  of a state and a symbol other than the end symbol that stands after a dot in it, and leads to the
  closure of the items moved over the symbol; no two states are equal, no transition leads back to the
  start, and every other state is reached from a state with a smaller number.
\<close>

theorem Compute_correct:
  assumes "augmented G"
  shows "\<exists>C. Compute G = Some C \<and>
     set (m_ItemSets C ! 0) = lr_closure G (start_items G (GetNewRoot G)) \<and>
     distinct (map set (m_ItemSets C)) \<and>
     (\<forall>k < length (m_ItemSets C). \<forall>X.
        case GetGotoValue X k C of
          None \<Rightarrow> X = GetEndOfStreamSymbol G \<or> lr_kernel (set (m_ItemSets C ! k)) X = {}
        | Some j \<Rightarrow> X \<noteq> GetEndOfStreamSymbol G \<and> lr_kernel (set (m_ItemSets C ! k)) X \<noteq> {} \<and>
            j < length (m_ItemSets C) \<and> j \<noteq> 0 \<and>
            set (m_ItemSets C ! j) = lr_closure G (lr_kernel (set (m_ItemSets C ! k)) X)) \<and>
     (\<forall>j < length (m_ItemSets C). j \<noteq> 0 \<longrightarrow> (\<exists>k < j. \<exists>X. GetGotoValue X k C = Some j))"
proof -
  let ?E = "GetEndOfStreamSymbol G"
  obtain C where C: "Compute G = Some C" and
    inv: "collection_inv G (goto_pairs ?E C (length (m_ItemSets C))) C"
    using Compute_spec augmented_wf(1,2) [OF assms] by blast
  have "inj_on set (set (m_ItemSets C))"
    using inv lr_item.ordered_ext by (intro inj_onI) (auto simp: collection_inv_def)
  then have distinct: "distinct (map set (m_ItemSets C))"
    using inv by (simp add: collection_inv_def distinct_map)
  have goto: "case GetGotoValue X k C of
          None \<Rightarrow> X = ?E \<or> lr_kernel (item_set C k) X = {}
        | Some j \<Rightarrow> X \<noteq> ?E \<and> lr_kernel (item_set C k) X \<noteq> {} \<and> j < length (m_ItemSets C) \<and> j \<noteq> 0 \<and>
            item_set C j = lr_closure G (lr_kernel (item_set C k) X)"
    if k: "k < length (m_ItemSets C)" for k X
  proof (cases "GetGotoValue X k C")
    case None
    then have "(k, X) \<notin> goto_pairs ?E C (length (m_ItemSets C))" using inv by (auto simp: collection_inv_def)
    then show ?thesis using None k by (auto simp: goto_pairs_def)
  next
    case (Some j)
    then have "(k, X) \<in> goto_pairs ?E C (length (m_ItemSets C))" using inv by (auto simp: collection_inv_def)
    then show ?thesis
      using Some inv goto_not_start [OF inv Some] by (auto simp: goto_pairs_def collection_inv_def lr_target_def)
  qed
  show ?thesis
    by (intro exI [of _ C] conjI C distinct allI impI goto) (use inv in \<open>auto simp: collection_inv_def\<close>)
qed

theorem Compute_correct_witness:
  "augmented sample_augmented \<and>
   map_option (\<lambda>C. map (\<lambda>k. map (\<lambda>X. GetGotoValue X k C) [0, 1, 2, 3]) [0..<length (m_ItemSets C)])
     (Compute sample_augmented) =
   Some [[Some 1, Some 2, None, None], [None, None, None, None], [Some 3, Some 2, Some 4, None],
     [None, None, Some 5, None], [None, None, None, None], [None, None, None, None]] \<and>
   (\<exists>C. Compute sample_augmented = Some C \<and> distinct (map set (m_ItemSets C)))"
proof -
  have "map_option (\<lambda>C. map (\<lambda>k. map (\<lambda>X. GetGotoValue X k C) [0, 1, 2, 3]) [0..<length (m_ItemSets C)])
     (Compute sample_augmented) =
   Some [[Some 1, Some 2, None, None], [None, None, None, None], [Some 3, Some 2, Some 4, None],
     [None, None, Some 5, None], [None, None, None, None], [None, None, None, None]]"
    by code_simp
  then show ?thesis
    using Compute_correct [OF sample_is_augmented] sample_is_augmented by blast
qed

end
