(* ===== verification/GLRTable.thy ===== *)
theory GLRTable
  imports GLRCells LRItems "HOL-Library.Multiset"
begin

text \<open>
  The GLR table (\<^verbatim>\<open>afglrparserlib/glrtable.h\<close>, \<^verbatim>\<open>glrtable.cpp\<close>): the rule infos, the construction of the
  raw table from the canonical collection, its compaction into a bit mask, a sparse matrix and a
  storage of rule sets, and the accessors with which the parser reads the compacted table.

  Two things are shown: the raw table is the SLR table of the grammar (\<open>raw_table_correct\<close>), and the
  accessors on the compacted table give back every cell of the raw one (\<open>Compact_correct\<close>).

  A pointer to a rule info is its index in the vector; a rule agreement is a parameter of the table
  (the type \<open>'a\<close> of its entries), which the table stores and swaps without looking at it. The exception
  of \<^verbatim>\<open>CheckIndexOverflow\<close> and those of the storage are \<open>None\<close>.
\<close>

section \<open>Rule infos\<close>

record 'a CGLRRuleInfo =
  info_OriginalRuleNo :: nat
  info_RuleLength :: nat
  info_LeftPart :: nat
  info_SynMainItemNo :: nat
  m_RuleAgreement :: "'a list"

definition rule_info_Init :: "CWorkRule \<Rightarrow> 'a CGLRRuleInfo" where
  "rule_info_Init p =
     \<lparr>info_OriginalRuleNo = to_index (m_OriginalRuleNo p), info_RuleLength = to_index (length (rhs p)),
      info_LeftPart = to_index (m_LeftPart p), info_SynMainItemNo = to_index (m_SynMainItemNo (m_RightPart p)),
      m_RuleAgreement = []\<rparr>"

definition BuildRuleInfo :: "CWorkRule list \<Rightarrow> 'a CGLRRuleInfo list" where
  "BuildRuleInfo rules = sort_key info_OriginalRuleNo (map rule_info_Init rules)"

definition GetRuleInfo :: "'a CGLRRuleInfo list \<Rightarrow> CWorkRule \<Rightarrow> nat" where
  "GetRuleInfo infos R = lower_bound (map info_OriginalRuleNo infos) (to_index (m_OriginalRuleNo R))"

section \<open>The raw table\<close>

definition shift_cell :: "nat \<Rightarrow> CSLRCell \<Rightarrow> CSLRCell" where
  "shift_cell NextState cell =
     (if m_GotoLine cell \<noteq> int NextState then cell\<lparr>m_bShift := True, m_GotoLine := int NextState\<rparr> else cell)"

definition table_item ::
  "('b CWorkGrammar_scheme) \<Rightarrow> 'a CGLRRuleInfo list \<Rightarrow> CLRCollectionSet \<Rightarrow> nat \<Rightarrow> CLRItem \<Rightarrow> CSLRCell list
     \<Rightarrow> CSLRCell list" where
  "table_item G infos S i it tableLine =
     (let tableLine =
        (if \<not> IsFinished it \<and> m_Type (m_UniqueGrammarItems G ! GetSymbolNo it) \<noteq> siMeta then
           (case GetGotoValue (GetSymbolNo it) i S of
              None \<Rightarrow> tableLine
            | Some NextState \<Rightarrow>
                tableLine[GetSymbolNo it := shift_cell NextState (tableLine ! GetSymbolNo it)])
         else tableLine)
      in if IsFinished it \<and> m_LeftPart (m_pRule it) \<noteq> GetNewRoot G then
           fold (\<lambda>a line. line[a := (line ! a)\<lparr>m_ReduceRules :=
               m_ReduceRules (line ! a) @ [GetRuleInfo infos (m_pRule it)]\<rparr>])
             (m_FollowSets G ! m_LeftPart (m_pRule it)) tableLine
         else tableLine)"

definition table_goto_line ::
  "('b CWorkGrammar_scheme) \<Rightarrow> CLRCollectionSet \<Rightarrow> nat \<Rightarrow> nat \<Rightarrow> CSLRCell list \<Rightarrow> CSLRCell list" where
  "table_goto_line G S i symbolNo tableLine =
     (if m_Type (m_UniqueGrammarItems G ! symbolNo) = siMeta then
        (case GetGotoValue symbolNo i S of
           None \<Rightarrow> tableLine
         | Some nextState \<Rightarrow> tableLine[symbolNo := (tableLine ! symbolNo)\<lparr>m_GotoLine := int nextState\<rparr>])
      else tableLine)"

definition table_line ::
  "('b CWorkGrammar_scheme) \<Rightarrow> 'a CGLRRuleInfo list \<Rightarrow> CLRCollectionSet \<Rightarrow> nat \<Rightarrow> CSLRCell list" where
  "table_line G infos S i =
     fold (table_goto_line G S i) [0..<length (m_UniqueGrammarItems G)]
       (fold (table_item G infos S i) (m_ItemSets S ! i)
          (replicate (length (m_UniqueGrammarItems G)) slr_cell_init))"

definition raw_table ::
  "('b CWorkGrammar_scheme) \<Rightarrow> 'a CGLRRuleInfo list \<Rightarrow> CLRCollectionSet \<Rightarrow> CSLRCell list list" where
  "raw_table G infos S = map (table_line G infos S) [0..<length (m_ItemSets S)]"

section \<open>The compacted table\<close>

record 'a CGLRTable =
  m_RuleInfos :: "'a CGLRRuleInfo list"
  Rows :: nat
  Columns :: nat
  tbl_Mask :: "8 word list"
  SimpleCells :: "32 word TSparseMatrix"
  ComplexCells :: "TCompactSLRCell list"
  RuleIndexStorage :: "nat TCompactStorage"

definition glr_table_init :: "'a CGLRTable" where
  "glr_table_init =
     \<lparr>m_RuleInfos = [], Rows = 0, Columns = 0, tbl_Mask = [], SimpleCells = sparse_init, ComplexCells = [],
      RuleIndexStorage = \<lparr>st_Items = [], st_ItemSets = \<lparr>AllItems = [], FirstIndex = []\<rparr>\<rparr>\<rparr>"

definition table_IsEmpty :: "'a CGLRTable \<Rightarrow> bool" where
  "table_IsEmpty t \<longleftrightarrow> Rows t = 0"

definition IsEmptyCell :: "'a CGLRTable \<Rightarrow> nat \<Rightarrow> nat \<Rightarrow> bool" where
  "IsEmptyCell t row column \<longleftrightarrow> mask_clear_at (tbl_Mask t) (row * Columns t + column)"

definition GetEncodedCell :: "'a CGLRTable \<Rightarrow> nat \<Rightarrow> nat \<Rightarrow> 32 word" where
  "GetEncodedCell t row column = sparse_Get (SimpleCells t) (to_index row) (to_index column)"

definition IsSimpleCell :: "32 word \<Rightarrow> bool" where
  "IsSimpleCell encodedCell \<longleftrightarrow> encodedCell AND 1 = 0"

definition DecodeIndex :: "32 word \<Rightarrow> nat" where
  "DecodeIndex encodedCell = unat (drop_bit 1 encodedCell)"

definition GetGotoLine :: "'a CGLRTable \<Rightarrow> 32 word \<Rightarrow> nat option" where
  "GetGotoLine t encodedCell =
     (if \<not> IsSimpleCell encodedCell then
        (let complex = ComplexCells t ! DecodeIndex encodedCell
         in if HasGotoLine complex then Some (unat (compact_GetGotoLine complex)) else None)
      else None)"

definition GetSimpleCellRule :: "'a CGLRTable \<Rightarrow> 32 word \<Rightarrow> nat" where
  "GetSimpleCellRule t encodedCell = DecodeIndex encodedCell"

definition IterComplexCellRules :: "'a CGLRTable \<Rightarrow> 32 word \<Rightarrow> nat list" where
  "IterComplexCellRules t encodedCell =
     (let complex = ComplexCells t ! DecodeIndex encodedCell
      in storage_items (RuleIndexStorage t) (unat (RulesIndex complex)))"

definition SwapRuleAgreements :: "'a list list \<Rightarrow> 'a CGLRTable \<Rightarrow> 'a list list \<times> 'a CGLRTable" where
  "SwapRuleAgreements agreements t =
     fold (\<lambda>i (agreements, t).
         let info = m_RuleInfos t ! i;
             A = agreements ! info_OriginalRuleNo info
         in if A \<noteq> [] then
              (agreements[info_OriginalRuleNo info := m_RuleAgreement info],
               t\<lparr>m_RuleInfos := (m_RuleInfos t)[i := info\<lparr>m_RuleAgreement := A\<rparr>]\<rparr>)
            else (agreements, t))
       [0..<length (m_RuleInfos t)] (agreements, t)"

definition CheckIndexOverflow :: "nat \<Rightarrow> bool" where
  "CheckIndexOverflow index \<longleftrightarrow> \<not> index > drop_bit 1 (2 ^ 32 - 1 :: nat)"

definition GetRuleIndex :: "nat \<Rightarrow> nat option" where
  "GetRuleIndex rule = (if CheckIndexOverflow rule then Some (to_index rule) else None)"

text \<open>One pass of the two loops of \<^verbatim>\<open>Compact\<close>, on the table and the builder of the rule sets.\<close>

definition compact_one ::
  "(nat \<Rightarrow> nat) \<Rightarrow> nat \<times> nat \<times> CSLRCell \<Rightarrow> 'a CGLRTable \<times> nat TCompactStorageBuilder
     \<Rightarrow> ('a CGLRTable \<times> nat TCompactStorageBuilder) option" where
  "compact_one hasher x tb =
     (let (row, column, cell) = x; (t, b) = tb
      in if cell_IsEmpty cell then Some (t, b)
         else
           (let t = t\<lparr>tbl_Mask := mask_set (row * Columns t + column) (tbl_Mask t)\<rparr>
            in if length (m_ReduceRules cell) = 1 \<and> \<not> m_bShift cell \<and> m_GotoLine cell = - 1 then
                 (case GetRuleIndex (m_ReduceRules cell ! 0) of
                    None \<Rightarrow> None
                  | Some i \<Rightarrow>
                      Some (t\<lparr>SimpleCells := sparse_Add (to_index row) (to_index column)
                                (push_bit 1 (word_of_nat i)) (SimpleCells t)\<rparr>, b))
               else
                 (case map_all GetRuleIndex (m_ReduceRules cell) of
                    None \<Rightarrow> None
                  | Some tmp \<Rightarrow>
                      (let (rulesIndex, b') = AddRange True hasher tmp b
                       in Some (t\<lparr>SimpleCells := sparse_Add (to_index row) (to_index column)
                                    (word_of_nat (push_bit 1 (length (ComplexCells t)) + 1)) (SimpleCells t),
                                  ComplexCells := ComplexCells t @
                                    [compact_cell (m_bShift cell) (m_GotoLine cell) (word_of_nat rulesIndex)]\<rparr>, b')))))"

fun compact_cells ::
  "(nat \<Rightarrow> nat) \<Rightarrow> (nat \<times> nat \<times> CSLRCell) list \<Rightarrow> 'a CGLRTable \<times> nat TCompactStorageBuilder
     \<Rightarrow> ('a CGLRTable \<times> nat TCompactStorageBuilder) option" where
  "compact_cells hasher [] tb = Some tb"
| "compact_cells hasher (x # xs) tb =
     (case compact_one hasher x tb of None \<Rightarrow> None | Some tb' \<Rightarrow> compact_cells hasher xs tb')"

text \<open>The cells in the order of the two loops.\<close>

definition table_row :: "CSLRCell list list \<Rightarrow> nat \<Rightarrow> (nat \<times> nat \<times> CSLRCell) list" where
  "table_row table row = map (\<lambda>column. (row, column, table ! row ! column)) [0..<length (table ! row)]"

definition table_cells :: "CSLRCell list list \<Rightarrow> (nat \<times> nat \<times> CSLRCell) list" where
  "table_cells table = concat (map (table_row table) [0..<length table])"

definition Compact :: "(nat \<Rightarrow> nat) \<Rightarrow> CSLRCell list list \<Rightarrow> 'a CGLRTable \<Rightarrow> 'a CGLRTable option" where
  "Compact hasher table t =
     (if table = [] then Some (t\<lparr>tbl_Mask := []\<rparr>)
      else
        (let R = length table; C = length (table ! 0);
             t = t\<lparr>Rows := R, Columns := C, tbl_Mask := replicate ((R * C - 1) div 8 + 1) 0\<rparr>
         in case compact_cells hasher (table_cells table)
                  (t, storage_builder True hasher (2 ^ 32 - 1)) of
              None \<Rightarrow> None
            | Some (t, b) \<Rightarrow>
                (case storage_Save b of
                   None \<Rightarrow> None
                 | Some st \<Rightarrow>
                     if CheckIndexOverflow (length (ComplexCells t))
                     then Some (t\<lparr>RuleIndexStorage := st\<rparr>) else None)))"

definition table_Verify :: "'a CGLRTable \<Rightarrow> CSLRCell list list \<Rightarrow> bool" where
  "table_Verify t table \<longleftrightarrow>
     list_all (\<lambda>row. list_all (\<lambda>column.
         let cell = table ! row ! column; encoded = GetEncodedCell t row column
         in cell_IsEmpty cell = IsEmptyCell t row column \<and>
            (cell_IsEmpty cell \<or>
             (if IsSimpleCell encoded then
                \<not> m_bShift cell \<and> m_GotoLine cell = - 1 \<and> length (m_ReduceRules cell) = 1 \<and>
                GetSimpleCellRule t encoded = m_ReduceRules cell ! 0
              else
                (case GetGotoLine t encoded of
                   Some gotoLine \<Rightarrow> m_GotoLine cell = int gotoLine
                 | None \<Rightarrow> \<not> m_bShift cell) \<and>
                set (IterComplexCellRules t encoded) = set (m_ReduceRules cell))))
       [0..<Columns t]) [0..<Rows t]"

text \<open>\<^verbatim>\<open>BuildGLRTable\<close>; a loop over the collection that never ends would be \<open>None\<close> as well.\<close>

definition BuildGLRTable ::
  "(nat \<Rightarrow> nat) \<Rightarrow> ('b CWorkGrammar_scheme) \<Rightarrow> 'a CGLRTable \<Rightarrow> 'a CGLRTable option" where
  "BuildGLRTable hasher G t =
     (let infos = BuildRuleInfo (m_EncodedRules G)
      in case Compute G of
           None \<Rightarrow> None
         | Some S \<Rightarrow> Compact hasher (raw_table G infos S) (t\<lparr>m_RuleInfos := infos\<rparr>))"

section \<open>Compaction\<close>

text \<open>Encoded cells: twice a rule index, or twice an index of a complex cell and one.\<close>

lemma encoded_cell:
  assumes "unat w = 2 * i + of_bool s"
  shows "IsSimpleCell w \<longleftrightarrow> \<not> s" and "DecodeIndex w = i"
proof -
  have "w AND 1 = 0 \<longleftrightarrow> unat w AND 1 = 0"
    by (metis unat_eq_zero unsigned_1 unsigned_and_eq)
  then show "IsSimpleCell w \<longleftrightarrow> \<not> s"
    using assms by (cases s) (auto simp: IsSimpleCell_def and_one_eq)
  have "DecodeIndex w = unat w div 2"
    using unat_drop_bit_eq [of 1 w] drop_bit_eq_div [of 1 "unat w"]
    by (simp only: DecodeIndex_def power_one_right)
  then show "DecodeIndex w = i" using assms by (cases s) simp_all
qed

lemma encoded_simple:
  assumes "i < 2 ^ 31"
  shows "IsSimpleCell (push_bit 1 (word_of_nat i))" "DecodeIndex (push_bit 1 (word_of_nat i)) = i"
proof -
  have "(push_bit 1 (word_of_nat i) :: 32 word) = word_of_nat (2 * i)"
    by (simp add: push_bit_eq_mult)
  then have "unat (push_bit 1 (word_of_nat i) :: 32 word) = 2 * i + of_bool False"
    using assms by (simp add: unat_of_nat del: of_nat_mult)
  from encoded_cell [OF this] show "IsSimpleCell (push_bit 1 (word_of_nat i))"
    "DecodeIndex (push_bit 1 (word_of_nat i)) = i" by simp_all
qed

lemma encoded_complex:
  assumes "k < 2 ^ 31"
  shows "\<not> IsSimpleCell (word_of_nat (push_bit 1 k + 1))" "DecodeIndex (word_of_nat (push_bit 1 k + 1)) = k"
proof -
  have "unat (word_of_nat (push_bit 1 k + 1) :: 32 word) = 2 * k + of_bool True"
    using assms by (simp add: unat_of_nat push_bit_eq_mult del: of_nat_mult of_nat_add of_nat_Suc)
  from encoded_cell [OF this] show "\<not> IsSimpleCell (word_of_nat (push_bit 1 k + 1))"
    "DecodeIndex (word_of_nat (push_bit 1 k + 1)) = k" by simp_all
qed

text \<open>There is room left as long as no index was cut; what holds at the end held before.\<close>

definition room :: "'a CGLRTable \<times> nat TCompactStorageBuilder \<Rightarrow> bool" where
  "room tb \<longleftrightarrow> fits (snd tb) \<and> length (ComplexCells (fst tb)) < 2 ^ 31"

lemma AddRange_fits:
  assumes "AddRange u hasher xs b = (i, b')" "fits b'"
  shows "fits b"
proof -
  obtain s b1 where r: "AddRangeToSet [] xs b = (s, b1)" by fastforce
  then have "AddSetOrSingle u hasher s b1 = (i, b')" using assms(1) by (simp add: AddRange_def)
  then have "fits b1" using AddSetOrSingle_fits assms(2) by blast
  moreover have "fits b1 \<Longrightarrow> fits b" if "AddRangeToSet t xs b = (s, b1)" for t
    using that
  proof (induction xs arbitrary: t b)
    case (Cons x xs)
    obtain j c where c: "storage_Add x b = (j, c)" by fastforce
    then have "fits c" using Cons.IH [of "index_insert j t" c] Cons.prems by simp
    then show ?case by (rule storage_Add_fits [OF c])
  qed simp
  ultimately show ?thesis using r by blast
qed

lemma AddRange_MaxIndex:
  assumes "AddRange u hasher xs b = (i, b')"
  shows "MaxIndex b' = MaxIndex b"
proof -
  have range: "MaxIndex (snd (AddRangeToSet s xs b)) = MaxIndex b" for s
    by (induction xs arbitrary: s b) (auto simp: storage_Add_def Let_def split: prod.splits option.splits)
  obtain s b1 where r: "AddRangeToSet [] xs b = (s, b1)" by fastforce
  then have a: "AddSetOrSingle u hasher s b1 = (i, b')" using assms by (simp add: AddRange_def)
  have "MaxIndex b' = MaxIndex b1"
    using a by (auto simp: AddSetOrSingle_eq add_set_def set_item_set_def Let_def split: prod.splits if_splits)
  then show ?thesis using range [of "[]"] r by simp
qed

lemma compact_one_frame:
  assumes "compact_one hasher x (t, b) = Some (t', b')"
  shows "Rows t' = Rows t" "Columns t' = Columns t" "m_RuleInfos t' = m_RuleInfos t"
    and "MaxIndex b' = MaxIndex b" and "room (t', b') \<Longrightarrow> room (t, b)"
  using assms AddRange_fits AddRange_MaxIndex
  by (auto simp: compact_one_def Let_def room_def split: if_splits prod.splits option.splits)

lemma compact_cells_frame:
  assumes "compact_cells hasher xs (t, b) = Some (t', b')"
  shows "Rows t' = Rows t \<and> Columns t' = Columns t \<and> m_RuleInfos t' = m_RuleInfos t \<and>
     MaxIndex b' = MaxIndex b \<and> (room (t', b') \<longrightarrow> room (t, b))"
  using assms
proof (induction xs arbitrary: t b)
  case (Cons x xs)
  then obtain t1 b1 where one: "compact_one hasher x (t, b) = Some (t1, b1)"
    and rest: "compact_cells hasher xs (t1, b1) = Some (t', b')"
    by (auto split: option.splits)
  then show ?case using Cons.IH [OF rest] compact_one_frame [OF one] by simp
qed auto

definition cell_simple :: "CSLRCell \<Rightarrow> bool" where
  "cell_simple cell \<longleftrightarrow> length (m_ReduceRules cell) = 1 \<and> \<not> m_bShift cell \<and> m_GotoLine cell = - 1"

definition encodes :: "TCompactSLRCell list \<Rightarrow> nat TCompactStorageBuilder \<Rightarrow> CSLRCell \<Rightarrow> 32 word \<Rightarrow> bool" where
  "encodes Cs b cell w \<longleftrightarrow>
     (if cell_simple cell then IsSimpleCell w \<and> DecodeIndex w = m_ReduceRules cell ! 0
      else \<not> IsSimpleCell w \<and> DecodeIndex w < length Cs \<and>
        (\<exists>i < 2 ^ 32. Cs ! DecodeIndex w = compact_cell (m_bShift cell) (m_GotoLine cell) (word_of_nat i) \<and>
           valid_index b i \<and> contents b i = set (m_ReduceRules cell)))"

lemma encodes_grows:
  assumes "encodes Cs b cell w" "storage_inv b" "grows {} b b'"
  shows "encodes (Cs @ ys) b' cell w"
proof -
  have "valid_index b' i \<and> contents b' i = contents b i" if "valid_index b i" for i
    using grows_contents [OF assms(2,3) that] by simp
  moreover have "\<exists>i. i < 2 ^ 32 \<and>
      Cs ! DecodeIndex w = compact_cell (m_bShift cell) (m_GotoLine cell) (word_of_nat i) \<and>
      valid_index b i \<and> contents b i = set (m_ReduceRules cell)" if "\<not> cell_simple cell"
    using assms(1) that by (simp add: encodes_def)
  ultimately show ?thesis
    using assms(1) unfolding encodes_def by (metis (no_types, lifting) nth_append length_append trans_less_add1)
qed

lemma valid_index_fits: "valid_index b i \<Longrightarrow> fits b \<Longrightarrow> i < 2 ^ 32"
  by (auto simp: valid_index_def fits_def NextItemIndex_def NextSetIndex_def ToItemIndex_def ToSetIndex_def
      split: if_splits)

lemma map_all_GetRuleIndex: "map_all GetRuleIndex rs = Some tmp \<Longrightarrow> tmp = rs \<and> (\<forall>r \<in> set rs. r < 2 ^ 31)"
  by (induction rs arbitrary: tmp)
    (auto simp: GetRuleIndex_def CheckIndexOverflow_def drop_bit_eq_div to_index_def split: if_splits option.splits)

text \<open>The invariant of the two loops, after the cells \<open>ps\<close>.\<close>

abbreviation cell_pos :: "nat \<times> nat \<times> 'a \<Rightarrow> nat \<times> nat" where
  "cell_pos e \<equiv> (fst e, fst (snd e))"

abbreviation nonempty_cells :: "(nat \<times> nat \<times> CSLRCell) list \<Rightarrow> (nat \<times> nat \<times> CSLRCell) list" where
  "nonempty_cells ps \<equiv> filter (\<lambda>p. \<not> cell_IsEmpty (snd (snd p))) ps"

definition mask_index :: "nat \<Rightarrow> nat \<times> nat \<times> 'a \<Rightarrow> nat" where
  "mask_index C p = fst p * C + fst (snd p)"

definition compact_inv ::
  "(nat \<times> nat \<times> CSLRCell) list \<Rightarrow> 'a CGLRTable \<Rightarrow> nat TCompactStorageBuilder \<Rightarrow> bool" where
  "compact_inv ps t b \<longleftrightarrow>
     length (tbl_Mask t) = (Rows t * Columns t - 1) div 8 + 1 \<and>
     (\<forall>i < Rows t * Columns t. mask_clear_at (tbl_Mask t) i \<or> i \<in> mask_index (Columns t) ` set (nonempty_cells ps)) \<and>
     (\<forall>p \<in> set (nonempty_cells ps). \<not> mask_clear_at (tbl_Mask t) (mask_index (Columns t) p)) \<and>
     (\<exists>es. sparse_inv es (SimpleCells t) \<and>
        list_all2 (\<lambda>p e. cell_pos p = cell_pos e \<and> encodes (ComplexCells t) b (snd (snd p)) (snd (snd e)))
          (nonempty_cells ps) es) \<and>
     storage_inv b"

lemma entry_less_pos:
  "sorted_wrt entry_less xs \<longleftrightarrow>
   sorted_wrt (\<lambda>p q. fst p < fst q \<or> fst p = fst q \<and> snd p < snd q) (map cell_pos xs)"
  by (simp add: sorted_wrt_map entry_less_def [abs_def])

lemma sorted_entries:
  assumes "list_all2 (\<lambda>p e. cell_pos p = cell_pos e \<and> Q p e) ps es" "sorted_wrt entry_less ps"
  shows "sorted_wrt entry_less es"
proof -
  have "map cell_pos ps = map cell_pos es"
    using assms(1) by (induction rule: list_all2_induct) auto
  then show ?thesis using assms(2) by (simp only: entry_less_pos)
qed

lemma compact_one_inv:
  assumes inv: "compact_inv ps t b" and step: "compact_one hasher (r, c, cell) (t, b) = Some (t', b')"
    and room: "room (t', b')" and s: "sorted_wrt entry_less (ps @ [(r, c, cell)])"
    and bound: "r < Rows t" "c < Columns t" "r + 1 < 2 ^ 32" "c < 2 ^ 32" "length ps + 1 < 2 ^ 32"
  shows "compact_inv (ps @ [(r, c, cell)]) t' b'"
proof (cases "cell_IsEmpty cell")
  case True
  then show ?thesis using inv step by (simp add: compact_one_def compact_inv_def)
next
  case False
  let ?x = "(r, c, cell)" and ?i = "r * Columns t + c"
  obtain es where es: "sparse_inv es (SimpleCells t)"
    and rel: "list_all2 (\<lambda>p e. cell_pos p = cell_pos e \<and> encodes (ComplexCells t) b (snd (snd p)) (snd (snd e)))
      (nonempty_cells ps) es"
    using inv by (auto simp: compact_inv_def)
  have binv: "storage_inv b" using inv by (simp add: compact_inv_def)
  have idx: "to_index r = r" "to_index c = c" using bound by (simp_all add: to_index_def)
  \<comment> \<open>what the step does, in both cases\<close>
  obtain w ys where t': "t' = t\<lparr>tbl_Mask := mask_set ?i (tbl_Mask t),
      SimpleCells := sparse_Add r c w (SimpleCells t), ComplexCells := ComplexCells t @ ys\<rparr>"
    and w: "encodes (ComplexCells t @ ys) b' cell w" and g: "grows {} b b'" and binv': "storage_inv b'"
  proof (cases "cell_simple cell")
    case True
    then obtain i where i: "GetRuleIndex (m_ReduceRules cell ! 0) = Some i" "b' = b"
      and t': "t' = t\<lparr>tbl_Mask := mask_set ?i (tbl_Mask t),
        SimpleCells := sparse_Add r c (push_bit 1 (word_of_nat i)) (SimpleCells t)\<rparr>"
      using step False idx by (auto simp: compact_one_def cell_simple_def Let_def split: option.splits)
    have "m_ReduceRules cell ! 0 = i" "i < 2 ^ 31"
      using i by (auto simp: GetRuleIndex_def CheckIndexOverflow_def to_index_def drop_bit_eq_div split: if_splits)
    then have "encodes (ComplexCells t @ []) b' cell (push_bit 1 (word_of_nat i))"
      using True encoded_simple by (simp add: encodes_def)
    then show thesis using that [of "[]" "push_bit 1 (word_of_nat i)"] t' i binv grows_refl [of "{}" b] by simp
  next
    case complex: False
    let ?k = "length (ComplexCells t)"
    obtain tmp j where tmp: "map_all GetRuleIndex (m_ReduceRules cell) = Some tmp"
      and add: "AddRange True hasher tmp b = (j, b')"
      and t': "t' = t\<lparr>tbl_Mask := mask_set ?i (tbl_Mask t),
        SimpleCells := sparse_Add r c (word_of_nat (push_bit 1 ?k + 1)) (SimpleCells t),
        ComplexCells := ComplexCells t @ [compact_cell (m_bShift cell) (m_GotoLine cell) (word_of_nat j)]\<rparr>"
      using step False complex idx
      by (auto simp: compact_one_def cell_simple_def Let_def split: option.splits prod.splits)
    have post: "storage_post {} b j b' (set (m_ReduceRules cell))"
      using AddRange_post [OF binv add] room map_all_GetRuleIndex [OF tmp] by (simp add: room_def)
    then have j: "valid_index b' j" "contents b' j = set (m_ReduceRules cell)" "j < 2 ^ 32"
      using valid_index_fits [of b' j] room by (simp_all add: storage_post_def room_def)
    have "?k < 2 ^ 31" using room t' by (simp add: room_def)
    note enc = encoded_complex [OF this]
    have "encodes (ComplexCells t @ [compact_cell (m_bShift cell) (m_GotoLine cell) (word_of_nat j)]) b' cell
        (word_of_nat (push_bit 1 ?k + 1))"
      unfolding encodes_def using complex enc j by (auto intro!: exI [of _ j])
    then show thesis using that [OF t'] post by (simp add: storage_post_def)
  qed
  have len_es: "length es \<le> length ps" using list_all2_lengthD [OF rel] by (metis length_filter_le)
  have "list_all2 (\<lambda>p e. cell_pos p = cell_pos e \<and> encodes (ComplexCells t') b' (snd (snd p)) (snd (snd e)))
      (nonempty_cells ps) es"
    using rel encodes_grows [OF _ binv g] by (auto simp: t' elim!: list_all2_mono)
  then have rel': "list_all2 (\<lambda>p e. cell_pos p = cell_pos e \<and> encodes (ComplexCells t') b' (snd (snd p)) (snd (snd e)))
      (nonempty_cells (ps @ [?x])) (es @ [(r, c, w)])"
    using w False by (simp add: t' list_all2_appendI)
  have "sorted_wrt entry_less (nonempty_cells (ps @ [?x]))" using s by (rule sorted_wrt_filter)
  then have "sorted_wrt entry_less (es @ [(r, c, w)])" by (rule sorted_entries [OF rel'])
  then have "sparse_inv (es @ [(r, c, w)]) (sparse_Add r c w (SimpleCells t))"
    using sparse_Add_inv [OF es] bound len_es by simp
  then have sparse: "sparse_inv (es @ [(r, c, w)]) (SimpleCells t')" by (simp add: t')
  have "?i < Rows t * Columns t"
  proof -
    have "?i < (r + 1) * Columns t" using bound(2) by simp
    also have "\<dots> \<le> Rows t * Columns t" using bound(1) by (intro mult_right_mono) simp_all
    finally show ?thesis .
  qed
  then have "?i div 8 < length (tbl_Mask t)" using inv by (simp add: compact_inv_def less_Suc_eq_le div_le_mono)
  note clear = mask_set_clear [OF this]
  have mask: "length (tbl_Mask t') = (Rows t' * Columns t' - 1) div 8 + 1"
    "\<forall>i < Rows t' * Columns t'. mask_clear_at (tbl_Mask t') i \<or> i \<in> mask_index (Columns t') ` set (nonempty_cells (ps @ [?x]))"
    "\<forall>p \<in> set (nonempty_cells (ps @ [?x])). \<not> mask_clear_at (tbl_Mask t') (mask_index (Columns t') p)"
    using inv clear False by (auto simp: t' compact_inv_def mask_index_def)
  show ?thesis unfolding compact_inv_def using mask sparse rel' binv' by blast
qed

lemma compact_cells_inv:
  assumes "compact_cells hasher xs (t, b) = Some (t', b')" "compact_inv ps t b" "room (t', b')"
    and "sorted_wrt entry_less (ps @ xs)" "length (ps @ xs) < 2 ^ 32"
    and "\<forall>(r, c, cell) \<in> set xs. r < Rows t \<and> c < Columns t \<and> r + 1 < 2 ^ 32 \<and> c < 2 ^ 32"
  shows "compact_inv (ps @ xs) t' b'"
  using assms
proof (induction xs arbitrary: t b ps)
  case (Cons x xs)
  obtain r c cell where x: "x = (r, c, cell)" by (cases x) auto
  obtain t1 b1 where one: "compact_one hasher (r, c, cell) (t, b) = Some (t1, b1)"
    and rest: "compact_cells hasher xs (t1, b1) = Some (t', b')"
    using Cons.prems(1) by (auto simp: x split: option.splits)
  have room1: "room (t1, b1)" using compact_cells_frame [OF rest] Cons.prems(3) by blast
  have "sorted_wrt entry_less (ps @ [x])" using Cons.prems(4) by (simp add: sorted_wrt_append)
  then have inv1: "compact_inv (ps @ [x]) t1 b1"
    using compact_one_inv [OF Cons.prems(2) one room1] Cons.prems(5,6) by (simp add: x)
  have "\<forall>(r, c, cell) \<in> set xs. r < Rows t1 \<and> c < Columns t1 \<and> r + 1 < 2 ^ 32 \<and> c < 2 ^ 32"
    using Cons.prems(6) compact_one_frame(1,2) [OF one] by auto
  from Cons.IH [OF rest inv1 Cons.prems(3) _ _ this] Cons.prems(4,5) show ?case by simp
qed simp

lemma table_cells_set:
  "set (table_cells table) = {(r, c, table ! r ! c) |r c. r < length table \<and> c < length (table ! r)}"
  by (auto simp: table_cells_def table_row_def)

lemma table_cells_sorted: "sorted_wrt entry_less (table_cells table)"
proof -
  have row: "sorted_wrt entry_less (map (\<lambda>c. (r, c, f c)) [0..<n])" for r n and f :: "nat \<Rightarrow> CSLRCell"
    by (induction n) (auto simp: sorted_wrt_append entry_less_def)
  have "sorted_wrt entry_less (concat (map (table_row table) [0..<n]))" for n
  proof (induction n)
    case (Suc n)
    then show ?case
      using row [of n] by (auto simp: sorted_wrt_append table_row_def) (auto simp: entry_less_def)
  qed simp
  then show ?thesis by (simp add: table_cells_def)
qed

lemma table_cells_length:
  assumes "\<forall>line \<in> set table. length line = C"
  shows "length (table_cells table) = length table * C"
proof -
  have "length (concat (map (table_row table) [0..<n])) = n * C" if "n \<le> length table" for n
    using that by (induction n) (use assms in \<open>simp_all add: table_row_def Suc_le_eq\<close>)
  then show ?thesis by (simp add: table_cells_def)
qed

text \<open>What the parser reads of a cell: the goto line and the rules.\<close>

definition cell_goto :: "'a CGLRTable \<Rightarrow> nat \<Rightarrow> nat \<Rightarrow> nat option" where
  "cell_goto t row column = (if IsEmptyCell t row column then None else GetGotoLine t (GetEncodedCell t row column))"

definition cell_rules :: "'a CGLRTable \<Rightarrow> nat \<Rightarrow> nat \<Rightarrow> nat list" where
  "cell_rules t row column =
     (if IsEmptyCell t row column then []
      else let encoded = GetEncodedCell t row column
        in if IsSimpleCell encoded then [GetSimpleCellRule t encoded] else IterComplexCellRules t encoded)"

definition cell_ok :: "CSLRCell \<Rightarrow> bool" where
  "cell_ok cell \<longleftrightarrow> (m_GotoLine cell = - 1 \<and> \<not> m_bShift cell \<or> 0 \<le> m_GotoLine cell \<and> m_GotoLine cell < 2 ^ 31 - 1)"

definition raw_table_ok :: "CSLRCell list list \<Rightarrow> bool" where
  "raw_table_ok table \<longleftrightarrow> table \<noteq> [] \<and> table ! 0 \<noteq> [] \<and>
     (\<forall>line \<in> set table. length line = length (table ! 0) \<and> (\<forall>cell \<in> set line. cell_ok cell)) \<and>
     length table * length (table ! 0) < 2 ^ 32"

lemma compact_cell_decode:
  assumes "cell_ok cell" "i < 2 ^ 32"
  shows "HasGotoLine (compact_cell (m_bShift cell) (m_GotoLine cell) (word_of_nat i)) \<longleftrightarrow> 0 \<le> m_GotoLine cell"
    and "0 \<le> m_GotoLine cell \<Longrightarrow>
      unat (compact_GetGotoLine (compact_cell (m_bShift cell) (m_GotoLine cell) (word_of_nat i))) = nat (m_GotoLine cell)"
    and "unat (RulesIndex (compact_cell (m_bShift cell) (m_GotoLine cell) (word_of_nat i))) = i"
proof -
  have r: "unat (word_of_nat i :: 32 word) = i" using assms(2) by (simp add: unat_of_nat)
  show "HasGotoLine (compact_cell (m_bShift cell) (m_GotoLine cell) (word_of_nat i)) \<longleftrightarrow> 0 \<le> m_GotoLine cell"
    using assms(1) compact_cell_goto(1) [of "nat (m_GotoLine cell)" "m_bShift cell"] compact_cell_no_goto(1)
    by (auto simp: cell_ok_def nat_less_iff)
  show "unat (compact_GetGotoLine (compact_cell (m_bShift cell) (m_GotoLine cell) (word_of_nat i))) = nat (m_GotoLine cell)"
    if "0 \<le> m_GotoLine cell"
    using assms(1) compact_cell_goto(2) [of "nat (m_GotoLine cell)" "m_bShift cell"] that
    by (auto simp: cell_ok_def nat_less_iff)
  show "unat (RulesIndex (compact_cell (m_bShift cell) (m_GotoLine cell) (word_of_nat i))) = i"
    using r by (simp add: compact_cell_def Let_def)
qed

lemma Compact_cell:
  assumes ok: "raw_table_ok table" and fresh: "SimpleCells t = sparse_init" "ComplexCells t = []"
    and c: "Compact hasher table t = Some t'"
    and r: "row < length table" and col: "column < length (table ! row)"
  defines "cell \<equiv> table ! row ! column"
  shows "Rows t' = length table \<and> Columns t' = length (table ! 0) \<and> m_RuleInfos t' = m_RuleInfos t"
    and "IsEmptyCell t' row column \<longleftrightarrow> cell_IsEmpty cell"
    and "\<not> cell_IsEmpty cell \<Longrightarrow>
      (if cell_simple cell
       then IsSimpleCell (GetEncodedCell t' row column) \<and>
         DecodeIndex (GetEncodedCell t' row column) = m_ReduceRules cell ! 0
       else \<not> IsSimpleCell (GetEncodedCell t' row column) \<and>
         GetGotoLine t' (GetEncodedCell t' row column) =
           (if 0 \<le> m_GotoLine cell then Some (nat (m_GotoLine cell)) else None) \<and>
         set (IterComplexCellRules t' (GetEncodedCell t' row column)) = set (m_ReduceRules cell))"
proof -
  let ?R = "length table" and ?C = "length (table ! 0)" and ?cs = "table_cells table"
  define t0 where "t0 = t\<lparr>Rows := ?R, Columns := ?C, tbl_Mask := replicate ((?R * ?C - 1) div 8 + 1) 0\<rparr>"
  define b0 :: "nat TCompactStorageBuilder" where "b0 = storage_builder True hasher (2 ^ 32 - 1)"
  have ne: "table \<noteq> []" "?C > 0" and width: "\<And>r. r < ?R \<Longrightarrow> length (table ! r) = ?C"
    and size: "?R * ?C < 2 ^ 32"
    using ok nth_mem unfolding raw_table_ok_def by blast+
  obtain t1 b1 st where cells: "compact_cells hasher ?cs (t0, b0) = Some (t1, b1)"
    and save: "storage_Save b1 = Some st" and over: "CheckIndexOverflow (length (ComplexCells t1))"
    and t': "t' = t1\<lparr>RuleIndexStorage := st\<rparr>"
    using c [unfolded Compact_def Let_def if_not_P [OF ne(1)], folded t0_def b0_def]
    by (cases "compact_cells hasher ?cs (t0, b0)") (auto split: option.splits if_splits)
  note frame = compact_cells_frame [OF cells]
  have dims: "Rows t1 = ?R" "Columns t1 = ?C" using frame by (simp_all add: t0_def)
  then show "Rows t' = length table \<and> Columns t' = length (table ! 0) \<and> m_RuleInfos t' = m_RuleInfos t"
    using frame by (simp add: t' t0_def)
  have max: "MaxIndex b1 = 2 ^ 32 - 1"
    using frame by (simp add: b0_def storage_builder_def)
  have verified: "storage_Verify b1" using save by (auto simp: storage_Save_def split: if_splits)
  have room: "room (t1, b1)"
    using Verify_fits [OF verified] max over by (simp add: room_def CheckIndexOverflow_def drop_bit_eq_div)
  have "mask_clear_at (replicate ((?R * ?C - 1) div 8 + 1) 0) i" if "i < ?R * ?C" for i
    using that by (simp add: mask_clear_iff less_Suc_eq_le div_le_mono del: replicate_Suc)
  moreover have "sparse_inv [] (sparse_init :: 32 word TSparseMatrix)"
    by (simp add: sparse_inv_def sparse_init_def rows_below_def)
  moreover have "storage_inv b0" by (simp add: b0_def storage_builder_inv)
  ultimately have "compact_inv [] t0 b0"
    using fresh by (simp add: compact_inv_def t0_def del: replicate_Suc One_nat_def)
  moreover have bounds: "\<forall>(r, c, cell) \<in> set ?cs. r < Rows t0 \<and> c < Columns t0 \<and> r + 1 < 2 ^ 32 \<and> c < 2 ^ 32"
  proof -
    have "r + 1 < 2 ^ 32 \<and> c < 2 ^ 32" if "r < ?R" "c < ?C" for r c
    proof -
      have "?R * 1 \<le> ?R * ?C" "1 * ?C \<le> ?R * ?C"
        using ne by (intro mult_le_mono; simp add: Suc_le_eq)+
      then have "r + 1 \<le> ?R * ?C" "c < ?R * ?C" using that unfolding mult_1 mult_1_right by linarith+
      then show ?thesis using size by linarith
    qed
    then show ?thesis using width by (auto simp: table_cells_set t0_def)
  qed
  moreover have "length ?cs = ?R * ?C"
    by (rule table_cells_length) (use ok in \<open>unfold raw_table_ok_def, blast\<close>)
  ultimately have inv: "compact_inv ?cs t1 b1"
    using compact_cells_inv [OF cells _ room, of "[]"] table_cells_sorted size by simp
  have colC: "column < ?C" using col width [OF r] by simp
  have here: "(row, column, cell) \<in> set ?cs" using r col by (auto simp: table_cells_set cell_def)
  have unique: "p = (row, column, cell)" if pin: "p \<in> set ?cs" and pix: "mask_index ?C p = mask_index ?C (row, column, cell)" for p
  proof -
    obtain r' c' where p: "p = (r', c', table ! r' ! c')" "r' < ?R" "c' < ?C"
      using pin width unfolding table_cells_set by auto
    have "r' * ?C + c' = row * ?C + column" using pix by (simp add: mask_index_def p)
    then have "r' = row \<and> c' = column"
      using p(3) colC by (metis add.commute div_mult_self3 mod_mult_self3 div_less mod_less add_0_right not_less_zero)
    then show ?thesis by (simp add: p cell_def)
  qed
  have idx: "row * ?C + column < ?R * ?C"
  proof -
    have "row * ?C + column < (row + 1) * ?C" using colC by simp
    also have "\<dots> \<le> ?R * ?C" using r by (intro mult_right_mono) simp_all
    finally show ?thesis .
  qed
  show "IsEmptyCell t' row column \<longleftrightarrow> cell_IsEmpty cell"
  proof
    assume "IsEmptyCell t' row column"
    then have "mask_clear_at (tbl_Mask t1) (mask_index ?C (row, column, cell))"
      by (simp add: IsEmptyCell_def t' dims mask_index_def)
    then show "cell_IsEmpty cell" using inv here by (force simp: compact_inv_def dims)
  next
    assume e: "cell_IsEmpty cell"
    have "mask_index ?C (row, column, cell) \<notin> mask_index ?C ` set (nonempty_cells ?cs)"
      using unique e by auto
    then have "mask_clear_at (tbl_Mask t1) (mask_index ?C (row, column, cell))"
      using inv idx by (auto simp: compact_inv_def dims mask_index_def)
    then show "IsEmptyCell t' row column"
      by (simp add: IsEmptyCell_def t' dims mask_index_def)
  qed
  assume nonempty: "\<not> cell_IsEmpty cell"
  obtain es where es: "sparse_inv es (SimpleCells t1)" and
    rel: "list_all2 (\<lambda>p e. cell_pos p = cell_pos e \<and> encodes (ComplexCells t1) b1 (snd (snd p)) (snd (snd e)))
      (nonempty_cells ?cs) es"
    using inv by (auto simp: compact_inv_def)
  have "sorted_wrt entry_less es"
    by (rule sorted_entries [OF rel sorted_wrt_filter [OF table_cells_sorted]])
  note get = sparse_Get_inv [OF es this]
  obtain w where w: "(row, column, w) \<in> set es" "encodes (ComplexCells t1) b1 cell w"
    using list_all2_setD1 [OF rel, of "(row, column, cell)"] here nonempty by auto
  have "to_index row = row" "to_index column = column"
    using bounds here by (auto simp: to_index_def)
  then have enc: "GetEncodedCell t' row column = w" using get [OF w(1)] by (simp add: GetEncodedCell_def t')
  have "cell \<in> set (table ! row)" "table ! row \<in> set table" using r col by (simp_all add: cell_def)
  then have cok: "cell_ok cell" using ok by (auto simp: raw_table_ok_def)
  show "if cell_simple cell
       then IsSimpleCell (GetEncodedCell t' row column) \<and>
         DecodeIndex (GetEncodedCell t' row column) = m_ReduceRules cell ! 0
       else \<not> IsSimpleCell (GetEncodedCell t' row column) \<and>
         GetGotoLine t' (GetEncodedCell t' row column) =
           (if 0 \<le> m_GotoLine cell then Some (nat (m_GotoLine cell)) else None) \<and>
         set (IterComplexCellRules t' (GetEncodedCell t' row column)) = set (m_ReduceRules cell)"
  proof (cases "cell_simple cell")
    case True
    then show ?thesis using w(2) by (simp add: enc encodes_def)
  next
    case False
    then obtain i where i: "i < 2 ^ 32" "valid_index b1 i" "contents b1 i = set (m_ReduceRules cell)"
      and k: "ComplexCells t1 ! DecodeIndex w = compact_cell (m_bShift cell) (m_GotoLine cell) (word_of_nat i)"
      and complex: "\<not> IsSimpleCell w"
      using w(2) by (auto simp: encodes_def)
    note d = compact_cell_decode [OF cok i(1)]
    have "IterComplexCellRules t' w = builder_items b1 i"
      using storage_Save_items [OF i(2) save] d(3) by (simp add: IterComplexCellRules_def t' k)
    then have "set (IterComplexCellRules t' w) = set (m_ReduceRules cell)" using i(3) by (simp add: contents_def)
    moreover have "GetGotoLine t' w = (if 0 \<le> m_GotoLine cell then Some (nat (m_GotoLine cell)) else None)"
      using complex d(1,2) by (auto simp: GetGotoLine_def t' k Let_def)
    ultimately show ?thesis using False complex by (simp add: enc)
  qed
qed

lemma Compact_reads:
  assumes ok: "raw_table_ok table" and fresh: "SimpleCells t = sparse_init" "ComplexCells t = []"
    and c: "Compact hasher table t = Some t'"
    and r: "row < length table" and col: "column < length (table ! row)"
  shows "IsEmptyCell t' row column \<longleftrightarrow> cell_IsEmpty (table ! row ! column)"
    and "cell_goto t' row column =
      (if 0 \<le> m_GotoLine (table ! row ! column) then Some (nat (m_GotoLine (table ! row ! column))) else None)"
    and "set (cell_rules t' row column) = set (m_ReduceRules (table ! row ! column))"
proof -
  note cell = Compact_cell [OF assms]
  show e: "IsEmptyCell t' row column \<longleftrightarrow> cell_IsEmpty (table ! row ! column)" by (rule cell(2))
  let ?c = "table ! row ! column"
  have single: "set (m_ReduceRules ?c) = {m_ReduceRules ?c ! 0}" if "cell_simple ?c"
    using that by (cases "m_ReduceRules ?c") (auto simp: cell_simple_def)
  show "cell_goto t' row column = (if 0 \<le> m_GotoLine ?c then Some (nat (m_GotoLine ?c)) else None)"
    using e cell(3)
    by (cases "cell_IsEmpty ?c"; cases "cell_simple ?c")
      (auto simp: cell_goto_def cell_IsEmpty_def cell_simple_def GetGotoLine_def)
  show "set (cell_rules t' row column) = set (m_ReduceRules ?c)"
    using e cell(3) single
    by (cases "cell_IsEmpty ?c"; cases "cell_simple ?c")
      (auto simp: cell_rules_def Let_def GetSimpleCellRule_def, auto simp: cell_IsEmpty_def)
qed

lemma Compact_Verify:
  assumes ok: "raw_table_ok table" and fresh: "SimpleCells t = sparse_init" "ComplexCells t = []"
    and c: "Compact hasher table t = Some t'"
  shows "table_Verify t' table"
proof -
  have ne: "0 < length table" "0 < length (table ! 0)" using ok unfolding raw_table_ok_def by blast+
  have width: "length (table ! r) = length (table ! 0)" if "r < length table" for r
    using ok nth_mem [OF that] unfolding raw_table_ok_def by blast
  have dims: "Rows t' = length table" "Columns t' = length (table ! 0)"
    using Compact_cell(1) [OF assms ne] by simp_all
  have one: "cell_IsEmpty cell = IsEmptyCell t' row column \<and>
            (cell_IsEmpty cell \<or>
             (if IsSimpleCell encoded then
                \<not> m_bShift cell \<and> m_GotoLine cell = - 1 \<and> length (m_ReduceRules cell) = 1 \<and>
                GetSimpleCellRule t' encoded = m_ReduceRules cell ! 0
              else
                (case GetGotoLine t' encoded of
                   Some gotoLine \<Rightarrow> m_GotoLine cell = int gotoLine
                 | None \<Rightarrow> \<not> m_bShift cell) \<and>
                set (IterComplexCellRules t' encoded) = set (m_ReduceRules cell)))"
    if r: "row < length table" and c': "column < length (table ! 0)"
      and eq: "cell = table ! row ! column" "encoded = GetEncodedCell t' row column" for row column cell encoded
  proof -
    have col: "column < length (table ! row)" using c' width [OF r] by simp
    note cell = Compact_cell(2,3) [OF assms r col, folded eq]
    have "cell \<in> set (table ! row)" "table ! row \<in> set table" using r col by (simp_all add: eq)
    then have "cell_ok cell" using ok by (auto simp: raw_table_ok_def)
    then show ?thesis
      using cell by (cases "cell_simple cell") (auto simp: cell_simple_def cell_ok_def GetSimpleCellRule_def)
  qed
  show ?thesis
    unfolding table_Verify_def list_all_iff Let_def dims by (intro ballI one) simp_all
qed

section \<open>The raw table is the SLR table\<close>

lemma nth_update: "j < length xs \<Longrightarrow> xs[i := y] ! j = (if i = j then y else xs ! j)"
  by (cases "i = j") simp_all

lemma reduce_line:
  fixes line :: "CSLRCell list" and W :: "nat list" and q :: nat
  assumes "X < length line"
  defines "line' \<equiv> fold (\<lambda>a line. line[a := (line ! a)\<lparr>m_ReduceRules := m_ReduceRules (line ! a) @ [q]\<rparr>]) W line"
  shows "length line' = length line \<and> m_bShift (line' ! X) = m_bShift (line ! X) \<and>
     m_GotoLine (line' ! X) = m_GotoLine (line ! X) \<and>
     set (m_ReduceRules (line' ! X)) = set (m_ReduceRules (line ! X)) \<union> (if X \<in> set W then {q} else {})"
  unfolding line'_def using assms(1)
  by (induction W arbitrary: line) (auto simp: nth_update)

lemma table_item_length [simp]: "length (table_item G infos S i it line) = length line"
proof -
  have "length (fold (\<lambda>a line. line[a := (line ! a)\<lparr>m_ReduceRules := m_ReduceRules (line ! a) @ [q]\<rparr>]) W line) =
    length line" for q W and line :: "CSLRCell list"
    by (induction W arbitrary: line) auto
  then show ?thesis by (auto simp: table_item_def Let_def split: option.splits)
qed

abbreviation reduces :: "('b CWorkGrammar_scheme) \<Rightarrow> symbol \<Rightarrow> CLRItem \<Rightarrow> bool" where
  "reduces G X it \<equiv> IsFinished it \<and> m_LeftPart (m_pRule it) \<noteq> GetNewRoot G \<and>
     X \<in> set (m_FollowSets G ! m_LeftPart (m_pRule it))"

abbreviation reads :: "('b CWorkGrammar_scheme) \<Rightarrow> symbol \<Rightarrow> CLRItem \<Rightarrow> bool" where
  "reads G X it \<equiv> \<not> IsFinished it \<and> GetSymbolNo it = X \<and> m_Type (m_UniqueGrammarItems G ! X) \<noteq> siMeta"

lemma table_item_cell:
  fixes G :: "'b CWorkGrammar_scheme" and infos :: "'a CGLRRuleInfo list" and S i it
  assumes X: "X < length line"
  defines "line' \<equiv> table_item G infos S i it line"
  shows "set (m_ReduceRules (line' ! X)) = set (m_ReduceRules (line ! X)) \<union>
       (if reduces G X it then {GetRuleInfo infos (m_pRule it)} else {})"
    and "(m_bShift (line' ! X), m_GotoLine (line' ! X)) =
       (case GetGotoValue X i S of
          Some j \<Rightarrow> if reads G X it \<and> m_GotoLine (line ! X) \<noteq> int j then (True, int j)
            else (m_bShift (line ! X), m_GotoLine (line ! X))
        | None \<Rightarrow> (m_bShift (line ! X), m_GotoLine (line ! X)))"
proof -
  have "set (m_ReduceRules (line' ! X)) = set (m_ReduceRules (line ! X)) \<union>
       (if reduces G X it then {GetRuleInfo infos (m_pRule it)} else {}) \<and>
     (m_bShift (line' ! X), m_GotoLine (line' ! X)) =
       (case GetGotoValue X i S of
          Some j \<Rightarrow> if reads G X it \<and> m_GotoLine (line ! X) \<noteq> int j then (True, int j)
            else (m_bShift (line ! X), m_GotoLine (line ! X))
        | None \<Rightarrow> (m_bShift (line ! X), m_GotoLine (line ! X)))"
  proof (cases "IsFinished it")
    case True
    then show ?thesis
      using reduce_line [OF X] by (auto simp: line'_def table_item_def split: option.splits)
  next
    case False
    then show ?thesis
      using X by (auto simp: line'_def table_item_def shift_cell_def nth_update split: option.splits)
  qed
  then show "set (m_ReduceRules (line' ! X)) = set (m_ReduceRules (line ! X)) \<union>
       (if reduces G X it then {GetRuleInfo infos (m_pRule it)} else {})"
    and "(m_bShift (line' ! X), m_GotoLine (line' ! X)) =
       (case GetGotoValue X i S of
          Some j \<Rightarrow> if reads G X it \<and> m_GotoLine (line ! X) \<noteq> int j then (True, int j)
            else (m_bShift (line ! X), m_GotoLine (line ! X))
        | None \<Rightarrow> (m_bShift (line ! X), m_GotoLine (line ! X)))"
    by blast+
qed

lemma table_items_cell:
  fixes G :: "'b CWorkGrammar_scheme" and infos :: "'a CGLRRuleInfo list" and S i its
  assumes "X < n"
  defines "line \<equiv> fold (table_item G infos S i) its (replicate n slr_cell_init)"
  shows "length line = n"
    and "set (m_ReduceRules (line ! X)) = {GetRuleInfo infos (m_pRule it) |it. it \<in> set its \<and> reduces G X it}"
    and "(m_bShift (line ! X), m_GotoLine (line ! X)) =
       (case GetGotoValue X i S of
          Some j \<Rightarrow> if (\<exists>it \<in> set its. reads G X it) then (True, int j) else (False, - 1)
        | None \<Rightarrow> (False, - 1))"
proof -
  show len: "length line = n" unfolding line_def by (rule fold_invariant [where P = "\<lambda>l. length l = n" and Q = "\<lambda>_. True"]) simp_all
  have "length line = n \<and>
     set (m_ReduceRules (line ! X)) = {GetRuleInfo infos (m_pRule it) |it. it \<in> set its \<and> reduces G X it} \<and>
     (m_bShift (line ! X), m_GotoLine (line ! X)) =
       (case GetGotoValue X i S of
          Some j \<Rightarrow> if (\<exists>it \<in> set its. reads G X it) then (True, int j) else (False, - 1)
        | None \<Rightarrow> (False, - 1))"
    unfolding line_def
  proof (induction its rule: rev_induct)
    case Nil
    show ?case using assms(1) by (simp add: slr_cell_init_def split: option.splits)
  next
    case (snoc it its)
    then have X: "X < length (fold (table_item G infos S i) its (replicate n slr_cell_init))"
      using assms(1) by simp
    note one = table_item_cell [OF X, of G infos S i it]
    show ?case
      using snoc one by (auto split: option.splits if_splits)
  qed
  then show "set (m_ReduceRules (line ! X)) = {GetRuleInfo infos (m_pRule it) |it. it \<in> set its \<and> reduces G X it}"
    and "(m_bShift (line ! X), m_GotoLine (line ! X)) =
       (case GetGotoValue X i S of
          Some j \<Rightarrow> if (\<exists>it \<in> set its. reads G X it) then (True, int j) else (False, - 1)
        | None \<Rightarrow> (False, - 1))" by blast+
qed

lemma table_goto_line_length [simp]: "length (table_goto_line G S i s line) = length line"
  by (auto simp: table_goto_line_def split: option.splits)

lemma table_gotos_cell:
  fixes G :: "'b CWorkGrammar_scheme" and S i ss
  assumes "X < length line"
  defines "line' \<equiv> fold (table_goto_line G S i) ss line"
  shows "length line' = length line \<and> m_ReduceRules (line' ! X) = m_ReduceRules (line ! X) \<and>
     m_bShift (line' ! X) = m_bShift (line ! X) \<and>
     m_GotoLine (line' ! X) =
       (if X \<in> set ss \<and> m_Type (m_UniqueGrammarItems G ! X) = siMeta
        then (case GetGotoValue X i S of Some j \<Rightarrow> int j | None \<Rightarrow> m_GotoLine (line ! X))
        else m_GotoLine (line ! X))"
  unfolding line'_def using assms(1)
proof (induction ss arbitrary: line)
  case (Cons s ss)
  then have "X < length (table_goto_line G S i s line)" by simp
  from Cons.IH [OF this] Cons.prems show ?case
    by (auto simp: table_goto_line_def nth_update split: option.splits)
qed simp

text \<open>
  A cell of the raw table, for a collection whose goto function is defined only where an item of the
  state stands before the symbol.
\<close>

lemma raw_table_cell:
  fixes G :: "'b CWorkGrammar_scheme" and infos :: "'a CGLRRuleInfo list" and S X
  assumes X: "X < length (m_UniqueGrammarItems G)" and i: "i < length (m_ItemSets S)"
    and reads: "GetGotoValue X i S \<noteq> None \<Longrightarrow> \<exists>it \<in> set (m_ItemSets S ! i). \<not> IsFinished it \<and> GetSymbolNo it = X"
  defines "cell \<equiv> raw_table G infos S ! i ! X"
  shows "m_GotoLine cell = (case GetGotoValue X i S of Some j \<Rightarrow> int j | None \<Rightarrow> - 1)"
    and "m_bShift cell \<longleftrightarrow> GetGotoValue X i S \<noteq> None \<and> m_Type (m_UniqueGrammarItems G ! X) \<noteq> siMeta"
    and "set (m_ReduceRules cell) =
      {GetRuleInfo infos (m_pRule it) |it. it \<in> set (m_ItemSets S ! i) \<and> reduces G X it}"
    and "length (raw_table G infos S ! i) = length (m_UniqueGrammarItems G)"
proof -
  define line where "line = fold (table_item G infos S i) (m_ItemSets S ! i)
    (replicate (length (m_UniqueGrammarItems G)) slr_cell_init)"
  note items = table_items_cell [OF X, of G infos S i "m_ItemSets S ! i", folded line_def]
  have X': "X < length line" using items(1) X by simp
  note gotos = table_gotos_cell [OF X', of G S i "[0..<length (m_UniqueGrammarItems G)]"]
  have line: "raw_table G infos S ! i = fold (table_goto_line G S i) [0..<length (m_UniqueGrammarItems G)] line"
    using i by (simp add: raw_table_def table_line_def line_def)
  show "m_GotoLine cell = (case GetGotoValue X i S of Some j \<Rightarrow> int j | None \<Rightarrow> - 1)"
    "m_bShift cell \<longleftrightarrow> GetGotoValue X i S \<noteq> None \<and> m_Type (m_UniqueGrammarItems G ! X) \<noteq> siMeta"
    "set (m_ReduceRules cell) =
      {GetRuleInfo infos (m_pRule it) |it. it \<in> set (m_ItemSets S ! i) \<and> reduces G X it}"
    "length (raw_table G infos S ! i) = length (m_UniqueGrammarItems G)"
    unfolding cell_def line using gotos items X reads
    by (auto split: option.splits if_splits)
qed

section \<open>Rule infos\<close>

lemma sorted_distinct_lower_bound:
  assumes "sorted xs" "distinct xs" "i < length xs"
  shows "lower_bound xs (xs ! i) = i"
proof -
  have "takeWhile (\<lambda>y. y < xs ! i) xs = take i xs"
  proof (rule takeWhile_eq_take_P_nth)
    fix j assume "j < i" "j < length xs"
    then show "xs ! j < xs ! i"
      using assms by (metis le_neq_implies_less nat_less_le nth_eq_iff_index_eq order_less_le sorted_nth_mono)
  qed simp
  then show ?thesis using assms(3) by (simp add: lower_bound_def)
qed

text \<open>The index that \<^verbatim>\<open>GetRuleInfo\<close> finds belongs to the info of the rule.\<close>

lemma GetRuleInfo_spec:
  fixes rules :: "CWorkRule list"
  assumes dist: "distinct (map m_OriginalRuleNo rules)" and bound: "\<forall>r \<in> set rules. m_OriginalRuleNo r < 2 ^ 32"
    and r: "r \<in> set rules"
  defines "infos \<equiv> BuildRuleInfo rules :: 'a CGLRRuleInfo list"
  shows "GetRuleInfo infos r < length infos" and "infos ! GetRuleInfo infos r = rule_info_Init r"
proof -
  let ?nos = "map info_OriginalRuleNo infos"
  have same: "info_OriginalRuleNo (rule_info_Init r :: 'a CGLRRuleInfo) = m_OriginalRuleNo r" if "r \<in> set rules" for r
    using bound that by (simp add: rule_info_Init_def to_index_def)
  have set: "set infos = rule_info_Init ` set rules" by (simp add: infos_def BuildRuleInfo_def)
  have "mset ?nos = mset (map info_OriginalRuleNo (map (rule_info_Init :: CWorkRule \<Rightarrow> 'a CGLRRuleInfo) rules))"
    by (simp only: mset_map infos_def BuildRuleInfo_def mset_sort)
  moreover have "map info_OriginalRuleNo (map (rule_info_Init :: CWorkRule \<Rightarrow> 'a CGLRRuleInfo) rules) =
      map m_OriginalRuleNo rules" using same by simp
  ultimately have "mset ?nos = mset (map m_OriginalRuleNo rules)" by (rule trans [OF _ arg_cong])
  then have d: "distinct ?nos" using dist by (metis mset_eq_imp_distinct_iff)
  have sorted: "sorted ?nos" by (simp add: infos_def BuildRuleInfo_def)
  obtain k where k: "k < length infos" "infos ! k = rule_info_Init r"
    using r set by (metis imageI in_set_conv_nth)
  have "?nos ! k = to_index (m_OriginalRuleNo r)"
    using k by (simp add: rule_info_Init_def)
  then have "GetRuleInfo infos r = k"
    using sorted_distinct_lower_bound [OF sorted d, of k] k(1) by (simp add: GetRuleInfo_def)
  then show "GetRuleInfo infos r < length infos" "infos ! GetRuleInfo infos r = rule_info_Init r"
    using k by simp_all
qed

section \<open>Properties\<close>

text \<open>
  C15. Compaction loses nothing. For a raw table with rows of one width, at most \<open>2^32\<close> cells and goto
  lines below \<open>2^31 - 1\<close>, if \<^verbatim>\<open>Compact\<close> ends without an overflow exception, then for every cell the
  accessors give the goto line and the set of reduce rules of the raw cell, the mask tells the empty
  cells, and the code's own check \<^verbatim>\<open>Verify\<close> succeeds.
\<close>

theorem Compact_correct:
  assumes "raw_table_ok table" and "SimpleCells t = sparse_init" and "ComplexCells t = []"
    and "Compact hasher table t = Some t'"
  shows "table_Verify t' table \<and>
     (\<forall>row < length table. \<forall>column < length (table ! row).
        let cell = table ! row ! column in
        (IsEmptyCell t' row column \<longleftrightarrow> cell_IsEmpty cell) \<and>
        cell_goto t' row column = (if 0 \<le> m_GotoLine cell then Some (nat (m_GotoLine cell)) else None) \<and>
        set (cell_rules t' row column) = set (m_ReduceRules cell))"
  unfolding Let_def
  by (intro conjI allI impI Compact_Verify [OF assms] Compact_reads [OF assms])

definition sample_raw :: "CSLRCell list list" where
  "sample_raw =
     [[slr_cell_init, slr_cell_init\<lparr>m_bShift := True, m_GotoLine := 1\<rparr>],
      [slr_cell_init\<lparr>m_ReduceRules := [7]\<rparr>, slr_cell_init\<lparr>m_GotoLine := 0, m_ReduceRules := [3, 7]\<rparr>]]"

definition sample_compact :: "nat CGLRTable option" where
  "sample_compact = Compact sample_hash sample_raw glr_table_init"

lemmas compact_eval = sample_compact_def Compact_def sample_raw_def glr_table_init_def table_cells_def table_row_def
  compact_one_def cell_IsEmpty_def slr_cell_init_def GetRuleIndex_def CheckIndexOverflow_def drop_bit_eq_div
  AddRange_def storage_eval

lemma sample_compact_Some: "sample_compact \<noteq> None"
  by (simp add: compact_eval upt_conv_Cons split: option.splits prod.splits)

theorem Compact_correct_witness:
  "Compact sample_hash sample_raw glr_table_init = sample_compact \<and> sample_compact \<noteq> None \<and>
   cell_goto (the sample_compact) 0 1 = Some 1 \<and> cell_goto (the sample_compact) 1 1 = Some 0 \<and>
   set (cell_rules (the sample_compact) 1 1) = {3, 7} \<and> IsEmptyCell (the sample_compact) 0 0"
proof -
  have ok: "raw_table_ok sample_raw"
    by (auto simp: raw_table_ok_def sample_raw_def cell_ok_def slr_cell_init_def)
  have c: "Compact sample_hash sample_raw glr_table_init = Some (the sample_compact)"
    using sample_compact_Some by (simp add: sample_compact_def)
  have fresh: "SimpleCells (glr_table_init :: nat CGLRTable) = sparse_init"
    "ComplexCells (glr_table_init :: nat CGLRTable) = []"
    by (simp_all add: glr_table_init_def)
  have dims: "length sample_raw = 2" "length (sample_raw ! 0) = 2" "length (sample_raw ! 1) = 2"
    by (simp_all add: sample_raw_def)
  have cells: "cell_IsEmpty (sample_raw ! 0 ! 0)" "m_GotoLine (sample_raw ! 0 ! 1) = 1"
    "m_GotoLine (sample_raw ! 1 ! 1) = 0" "m_ReduceRules (sample_raw ! 1 ! 1) = [3, 7]"
    by (simp_all add: sample_raw_def slr_cell_init_def cell_IsEmpty_def)
  note r = Compact_correct [OF ok fresh c, THEN conjunct2, unfolded Let_def, rule_format]
  have "IsEmptyCell (the sample_compact) 0 0" using r [of 0 0] dims cells(1) by simp
  moreover have "cell_goto (the sample_compact) 0 1 = Some 1" using r [of 0 1] dims cells(2) by simp
  moreover have "cell_goto (the sample_compact) 1 1 = Some 0" "set (cell_rules (the sample_compact) 1 1) = {3, 7}"
    using r [of 1 1] dims cells(3,4) by simp_all
  ultimately show ?thesis using sample_compact_Some by (simp add: sample_compact_def)
qed

text \<open>Rows and goto lines of the raw table of a grammar.\<close>

lemma collection_reads:
  assumes "collection_inv G D S" "GetGotoValue X i S = Some j"
  shows "i < length (m_ItemSets S)" "j < length (m_ItemSets S)"
    and "\<exists>it \<in> set (m_ItemSets S ! i). \<not> IsFinished it \<and> GetSymbolNo it = X"
proof -
  have "i < length (m_ItemSets S) \<and> j < length (m_ItemSets S) \<and> lr_kernel (item_set S i) X \<noteq> {}"
    using assms unfolding collection_inv_def by blast
  then show "i < length (m_ItemSets S)" "j < length (m_ItemSets S)"
    "\<exists>it \<in> set (m_ItemSets S ! i). \<not> IsFinished it \<and> GetSymbolNo it = X"
    by (auto simp: lr_kernel_def)
qed

lemma raw_table_is_ok:
  fixes infos :: "'a CGLRRuleInfo list"
  assumes inv: "collection_inv G D S" and two: "2 \<le> length (m_UniqueGrammarItems G)"
    and size: "length (m_ItemSets S) * length (m_UniqueGrammarItems G) < 2 ^ 32"
  shows "raw_table_ok (raw_table G infos S)"
proof -
  let ?R = "raw_table G infos S" and ?n = "length (m_UniqueGrammarItems G)"
  note reads = collection_reads [OF inv]
  have rows: "length ?R = length (m_ItemSets S)" by (simp add: raw_table_def)
  have ne: "0 < length (m_ItemSets S)" using inv by (simp add: collection_inv_def)
  have cell: "length (?R ! i) = ?n" "X < ?n \<Longrightarrow> cell_ok (?R ! i ! X)" if i: "i < length (m_ItemSets S)" for i X
  proof -
    have pos: "0 < ?n" using two by linarith
    have before: "GetGotoValue Y i S \<noteq> None \<Longrightarrow> \<exists>it \<in> set (m_ItemSets S ! i). \<not> IsFinished it \<and> GetSymbolNo it = Y" for Y
      using reads(3) by blast
    show "length (?R ! i) = ?n" by (rule raw_table_cell(4) [OF pos i before])
    have "length (m_ItemSets S) * 2 < 2 ^ 32" by (rule le_less_trans [OF mult_le_mono2 [OF two] size])
    then have "length (m_ItemSets S) < 2 ^ 31" by simp
    then have "int j < 2 ^ 31 - 1" if "GetGotoValue X i S = Some j" for j using reads(2) [OF that] by simp
    then show "cell_ok (?R ! i ! X)" if X: "X < ?n"
      using raw_table_cell(1,2) [OF X i before, of infos] by (auto simp: cell_ok_def split: option.splits)
  qed
  have "length line = ?n \<and> (\<forall>c \<in> set line. cell_ok c)" if "line \<in> set ?R" for line
  proof -
    obtain i where i: "i < length (m_ItemSets S)" "line = ?R ! i"
      using \<open>line \<in> set ?R\<close> rows by (metis in_set_conv_nth)
    show ?thesis unfolding i(2) using cell [OF i(1)] by (metis in_set_conv_nth)
  qed
  moreover have "?R \<noteq> []" "?R ! 0 \<noteq> []" "length (?R ! 0) = ?n" using rows ne cell(1) [OF ne] two by auto
  ultimately show ?thesis unfolding raw_table_ok_def using size rows by simp
qed

text \<open>What the built table gives the parser, in terms of the collection \<open>S\<close>.\<close>

definition table_spec :: "('b CWorkGrammar_scheme) \<Rightarrow> CLRCollectionSet \<Rightarrow> 'a CGLRTable \<Rightarrow> bool" where
  "table_spec G S t \<longleftrightarrow>
     Compute G = Some S \<and> collection_inv G (goto_pairs (GetEndOfStreamSymbol G) S (length (m_ItemSets S))) S \<and>
     Rows t = length (m_ItemSets S) \<and> m_RuleInfos t = BuildRuleInfo (m_EncodedRules G) \<and>
     (\<forall>i < length (m_ItemSets S). \<forall>X < length (m_UniqueGrammarItems G).
        cell_goto t i X = GetGotoValue X i S \<and>
        set (cell_rules t i X) = {GetRuleInfo (m_RuleInfos t) (m_pRule it) |it. it \<in> set (m_ItemSets S ! i) \<and> reduces G X it}) \<and>
     (\<forall>r \<in> set (m_EncodedRules G). GetRuleInfo (m_RuleInfos t) r < length (m_RuleInfos t) \<and>
        m_RuleInfos t ! GetRuleInfo (m_RuleInfos t) r = rule_info_Init r)"

lemma table_specD:
  assumes "table_spec G S t"
  shows "Compute G = Some S" "collection_inv G (goto_pairs (GetEndOfStreamSymbol G) S (length (m_ItemSets S))) S"
    and "Rows t = length (m_ItemSets S)" "m_RuleInfos t = BuildRuleInfo (m_EncodedRules G)"
    and "i < length (m_ItemSets S) \<Longrightarrow> X < length (m_UniqueGrammarItems G) \<Longrightarrow> cell_goto t i X = GetGotoValue X i S"
    and "i < length (m_ItemSets S) \<Longrightarrow> X < length (m_UniqueGrammarItems G) \<Longrightarrow>
       set (cell_rules t i X) = {GetRuleInfo (m_RuleInfos t) (m_pRule it) |it. it \<in> set (m_ItemSets S ! i) \<and> reduces G X it}"
    and "r \<in> set (m_EncodedRules G) \<Longrightarrow> GetRuleInfo (m_RuleInfos t) r < length (m_RuleInfos t)"
    and "r \<in> set (m_EncodedRules G) \<Longrightarrow> m_RuleInfos t ! GetRuleInfo (m_RuleInfos t) r = rule_info_Init r"
  using assms unfolding table_spec_def by blast+

lemma BuildGLRTable_spec:
  fixes G :: "'b CWorkGrammar_scheme" and t t' :: "'a CGLRTable"
  assumes aug: "augmented G" and fresh: "SimpleCells t = sparse_init" "ComplexCells t = []"
    and nos: "\<forall>r \<in> set (m_EncodedRules G). m_OriginalRuleNo r < 2 ^ 32"
    and size: "\<forall>S. Compute G = Some S \<longrightarrow> length (m_ItemSets S) * length (m_UniqueGrammarItems G) < 2 ^ 32"
    and build: "BuildGLRTable hasher G t = Some t'"
  shows "\<exists>S. table_spec G S t'"
proof -
  let ?n = "length (m_UniqueGrammarItems G)"
  define infos :: "'a CGLRRuleInfo list" where "infos = BuildRuleInfo (m_EncodedRules G)"
  obtain S where S: "Compute G = Some S" and
    inv: "collection_inv G (goto_pairs (GetEndOfStreamSymbol G) S (length (m_ItemSets S))) S"
    using Compute_spec augmented_wf(1,2) [OF aug] by blast
  note reads = collection_reads [OF inv]
  have c: "Compact hasher (raw_table G infos S) (t\<lparr>m_RuleInfos := infos\<rparr>) = Some t'"
    using build S by (simp add: BuildGLRTable_def infos_def Let_def)
  have ok: "raw_table_ok (raw_table G infos S)"
    by (rule raw_table_is_ok [OF inv]) (use aug size S in \<open>simp_all add: augmented_def\<close>)
  have fresh': "SimpleCells (t\<lparr>m_RuleInfos := infos\<rparr>) = sparse_init" "ComplexCells (t\<lparr>m_RuleInfos := infos\<rparr>) = []"
    using fresh by simp_all
  have rows: "length (raw_table G infos S) = length (m_ItemSets S)" by (simp add: raw_table_def)
  have wf: "distinct (map m_OriginalRuleNo (m_EncodedRules G))"
    using aug by (simp add: augmented_def wf_grammar_def)
  have ne: "0 < length (raw_table G infos S)" "0 < length (raw_table G infos S ! 0)"
    using ok unfolding raw_table_ok_def by blast+
  have infos: "m_RuleInfos t' = infos" and Rows: "Rows t' = length (m_ItemSets S)"
    using Compact_cell(1) [OF ok fresh' c ne] rows by simp_all
  have cell: "cell_goto t' i X = GetGotoValue X i S \<and>
     set (cell_rules t' i X) = {GetRuleInfo infos (m_pRule it) |it. it \<in> set (m_ItemSets S ! i) \<and> reduces G X it}"
    if i: "i < length (m_ItemSets S)" and X: "X < ?n" for i X
  proof -
    have before: "GetGotoValue X i S \<noteq> None \<Longrightarrow> \<exists>it \<in> set (m_ItemSets S ! i). \<not> IsFinished it \<and> GetSymbolNo it = X"
      using reads(3) by blast
    note cell = raw_table_cell [OF X i before, of infos]
    have in_row: "X < length (raw_table G infos S ! i)" using cell(4) X by simp
    note read = Compact_reads [OF ok fresh' c, of i X, unfolded rows, OF i in_row]
    then show ?thesis using cell(1,3) by (auto split: option.splits)
  qed
  have rule: "GetRuleInfo infos r < length infos" "infos ! GetRuleInfo infos r = rule_info_Init r"
    if "r \<in> set (m_EncodedRules G)" for r
    using GetRuleInfo_spec [OF wf nos that, where 'a = 'a] by (simp_all add: infos_def)
  have "table_spec G S t'"
    unfolding table_spec_def infos by (intro conjI allI impI ballI S inv Rows) (use cell rule in \<open>simp_all add: infos_def\<close>)
  then show ?thesis by blast
qed

text \<open>
  C7. \<^verbatim>\<open>BuildGLRTable\<close> builds the SLR table of an augmented grammar: what the parser reads from the
  compacted table in the row of a state and the column of a symbol is the goto value of the
  canonical collection, and the infos of exactly those rules whose finished item is in the
  state, whose left part is not the new root, and in whose FOLLOW set the symbol is.
\<close>

theorem BuildGLRTable_correct:
  fixes G :: "'b CWorkGrammar_scheme" and t t' :: "'a CGLRTable"
  assumes aug: "augmented G" and fresh: "SimpleCells t = sparse_init" "ComplexCells t = []"
    and nos: "\<forall>r \<in> set (m_EncodedRules G). m_OriginalRuleNo r < 2 ^ 32"
    and size: "\<forall>S. Compute G = Some S \<longrightarrow> length (m_ItemSets S) * length (m_UniqueGrammarItems G) < 2 ^ 32"
    and build: "BuildGLRTable hasher G t = Some t'"
  shows "\<exists>S. Compute G = Some S \<and> Rows t' = length (m_ItemSets S) \<and>
     (\<forall>i < length (m_ItemSets S). \<forall>X < length (m_UniqueGrammarItems G).
        cell_goto t' i X = GetGotoValue X i S \<and>
        (\<lambda>k. m_RuleInfos t' ! k) ` set (cell_rules t' i X) =
          {rule_info_Init (m_pRule it) |it. it \<in> set (m_ItemSets S ! i) \<and> IsFinished it \<and>
             m_LeftPart (m_pRule it) \<noteq> GetNewRoot G \<and> X \<in> set (m_FollowSets G ! m_LeftPart (m_pRule it))})"
proof -
  obtain S where "table_spec G S t'" using BuildGLRTable_spec [OF assms] by blast
  note S = table_specD [OF this]
  have "m_pRule it \<in> set (m_EncodedRules G)" if "i < length (m_ItemSets S)" "it \<in> set (m_ItemSets S ! i)" for i it
    using that S(2) unfolding collection_inv_def grammar_lr_items_def by fastforce
  then have "(\<lambda>k. m_RuleInfos t' ! k) ` {GetRuleInfo (m_RuleInfos t') (m_pRule it) |it. it \<in> set (m_ItemSets S ! i) \<and> reduces G X it} =
       {rule_info_Init (m_pRule it) |it. it \<in> set (m_ItemSets S ! i) \<and> reduces G X it}" if "i < length (m_ItemSets S)" for i X
    using that S(8) by (auto simp: image_iff) metis+
  then show ?thesis using S(1,3,5,6) by auto
qed

text \<open>The table of the sample grammar \<open>S \<rightarrow> a S b | a b\<close>.\<close>

definition sample_slr :: CWorkGrammar where
  "sample_slr = sample_augmented\<lparr>m_FollowSets := [[2, 3], [1, 2], [], [], []]\<rparr>"

definition sample_item :: "nat \<Rightarrow> nat \<Rightarrow> symbol list \<Rightarrow> nat \<Rightarrow> CLRItem" where
  "sample_item no left right dot = \<lparr>m_pRule = sample_rule no left right, m_DotSymbolNo = dot\<rparr>"

definition sample_collection :: CLRCollectionSet where
  "sample_collection =
     \<lparr>m_ItemSets =
        [[sample_item 0 0 [1, 0, 2] 0, sample_item 1 0 [1, 2] 0, sample_item 2 4 [0, 3] 0],
         [sample_item 2 4 [0, 3] 1],
         [sample_item 0 0 [1, 0, 2] 0, sample_item 1 0 [1, 2] 0, sample_item 0 0 [1, 0, 2] 1, sample_item 1 0 [1, 2] 1],
         [sample_item 0 0 [1, 0, 2] 2], [sample_item 1 0 [1, 2] 2], [sample_item 0 0 [1, 0, 2] 3]],
      m_GotoFunction =
       [(\<lparr>m_SymbolNo = 0, m_StateNo = 0\<rparr>, 1), (\<lparr>m_SymbolNo = 0, m_StateNo = 2\<rparr>, 3),
        (\<lparr>m_SymbolNo = 1, m_StateNo = 0\<rparr>, 2), (\<lparr>m_SymbolNo = 1, m_StateNo = 2\<rparr>, 2),
        (\<lparr>m_SymbolNo = 2, m_StateNo = 2\<rparr>, 4), (\<lparr>m_SymbolNo = 2, m_StateNo = 3\<rparr>, 5)]\<rparr>"

definition sample_lines :: "CSLRCell list list" where
  "sample_lines =
     (let e = slr_cell_init; goto = (\<lambda>n. slr_cell_init\<lparr>m_GotoLine := n\<rparr>);
          shift = (\<lambda>n. slr_cell_init\<lparr>m_bShift := True, m_GotoLine := n\<rparr>);
          red = (\<lambda>k. slr_cell_init\<lparr>m_ReduceRules := [k]\<rparr>)
      in [[goto 1, shift 2, e, e, e], [e, e, e, e, e], [goto 3, shift 2, shift 4, e, e],
          [e, e, shift 5, e, e], [e, e, red 1, red 1, e], [e, e, red 0, red 0, e]])"

definition sample_table :: "nat CGLRTable" where
  "sample_table = the (BuildGLRTable sample_hash sample_slr glr_table_init)"

lemma sample_Compute: "Compute sample_slr = Some sample_collection"
  by code_simp

lemma sample_infos:
  "BuildRuleInfo (m_EncodedRules sample_slr) =
     [\<lparr>info_OriginalRuleNo = 0, info_RuleLength = 3, info_LeftPart = 0, info_SynMainItemNo = 0, m_RuleAgreement = []\<rparr>,
      \<lparr>info_OriginalRuleNo = 1, info_RuleLength = 2, info_LeftPart = 0, info_SynMainItemNo = 0, m_RuleAgreement = []\<rparr>,
      \<lparr>info_OriginalRuleNo = 2, info_RuleLength = 2, info_LeftPart = 4, info_SynMainItemNo = 0, m_RuleAgreement = []\<rparr>]"
  by (simp add: BuildRuleInfo_def sample_slr_def sample_augmented_def sample_rule_def rule_info_Init_def to_index_def)

lemma sample_upt: "[0..<5] = [0, 1, 2, 3, 4::nat]" "[0..<6] = [0, 1, 2, 3, 4, 5::nat]"
  by (simp_all add: upt_conv_Cons)

lemma sample_types: "map m_Type (m_UniqueGrammarItems sample_slr) = [siMeta, siString, siString, siString, siMeta]"
  by code_simp

lemma sample_size: "length (m_UniqueGrammarItems sample_slr) = 5" "GetNewRoot sample_slr = 4"
  using arg_cong [OF sample_types, of length] by (simp_all add: GetNewRoot_def)

lemma sample_type: "k < 5 \<Longrightarrow> m_Type (m_UniqueGrammarItems sample_slr ! k) = [siMeta, siString, siString, siString, siMeta] ! k"
  using arg_cong [OF sample_types, of "\<lambda>xs. xs ! k"] sample_size by simp

lemma sample_raw_table:
  "raw_table sample_slr (BuildRuleInfo (m_EncodedRules sample_slr)) sample_collection = sample_lines"
proof -
  note types = sample_type [of 0] sample_type [of 1] sample_type [of 2] sample_type [of 3] sample_type [of 4]
  have rep: "replicate 5 x = [x, x, x, x, x]" for x :: CSLRCell
    by (simp add: numeral_eq_Suc)
  have follow: "m_FollowSets sample_slr = [[2, 3], [1, 2], [], [], []]" by (simp add: sample_slr_def)
  show ?thesis
    unfolding sample_infos raw_table_def
    by (simp add: table_line_def table_item_def table_goto_line_def sample_size types [simplified] follow
      sample_collection_def sample_lines_def Let_def sample_item_def sample_rule_def IsFinished_def GetSymbolNo_def
      GetGotoValue_def GetRuleInfo_def lower_bound_def state_and_symbol_less_def slr_cell_init_def shift_cell_def
      sample_upt rep to_index_def)
qed

lemma sample_build: "BuildGLRTable sample_hash sample_slr glr_table_init = Some sample_table"
proof -
  have "Compact sample_hash sample_lines (glr_table_init\<lparr>m_RuleInfos := infos\<rparr>) \<noteq> (None :: nat CGLRTable option)" for infos
    unfolding sample_lines_def Let_def by (simp add: compact_eval sample_upt)
  then show ?thesis
    unfolding sample_table_def BuildGLRTable_def Let_def sample_Compute option.case sample_raw_table by force
qed

lemma sample_slr_ok:
  "augmented sample_slr" "\<forall>r \<in> set (m_EncodedRules sample_slr). m_OriginalRuleNo r < 2 ^ 32"
  "\<forall>S. Compute sample_slr = Some S \<longrightarrow> length (m_ItemSets S) * length (m_UniqueGrammarItems sample_slr) < 2 ^ 32"
proof -
  show "augmented sample_slr"
    using sample_is_augmented by (simp add: sample_slr_def augmented_def wf_grammar_def is_meta_def GetNewRoot_def GetEndOfStreamSymbol_def)
  show "\<forall>r \<in> set (m_EncodedRules sample_slr). m_OriginalRuleNo r < 2 ^ 32"
    by (simp add: sample_slr_def sample_augmented_def sample_rule_def)
  show "\<forall>S. Compute sample_slr = Some S \<longrightarrow> length (m_ItemSets S) * length (m_UniqueGrammarItems sample_slr) < 2 ^ 32"
    by (simp add: sample_Compute sample_size sample_collection_def)
qed

lemma sample_table_reads:
  "m_RuleInfos sample_table = BuildRuleInfo (m_EncodedRules sample_slr)"
  "i < 6 \<Longrightarrow> X < 5 \<Longrightarrow> cell_goto sample_table i X = GetGotoValue X i sample_collection"
proof -
  have fresh: "SimpleCells (glr_table_init :: nat CGLRTable) = sparse_init" "ComplexCells (glr_table_init :: nat CGLRTable) = []"
    by (simp_all add: glr_table_init_def)
  obtain S where "table_spec sample_slr S sample_table"
    using BuildGLRTable_spec [OF sample_slr_ok(1) fresh sample_slr_ok(2,3) sample_build] by blast
  note S = table_specD [OF this]
  have S': "S = sample_collection" using S(1) sample_Compute by simp
  have len: "length (m_ItemSets sample_collection) = 6" by (simp add: sample_collection_def)
  show "m_RuleInfos sample_table = BuildRuleInfo (m_EncodedRules sample_slr)" by (fact S(4))
  show "i < 6 \<Longrightarrow> X < 5 \<Longrightarrow> cell_goto sample_table i X = GetGotoValue X i sample_collection"
    using S(5) [of i X] unfolding S' len sample_size .
qed

theorem BuildGLRTable_correct_witness:
  "BuildGLRTable sample_hash sample_slr glr_table_init = Some sample_table \<and>
   Rows sample_table = 6 \<and> cell_goto sample_table 0 1 = Some 2 \<and>
   (\<lambda>k. m_RuleInfos sample_table ! k) ` set (cell_rules sample_table 4 2) = {rule_info_Init (sample_rule 1 0 [1, 2])}"
proof -
  have c: "Rows sample_table = 6 \<and>
     (\<forall>i < 6. \<forall>X < 5. cell_goto sample_table i X = GetGotoValue X i sample_collection \<and>
        (\<lambda>k. m_RuleInfos sample_table ! k) ` set (cell_rules sample_table i X) =
          {rule_info_Init (m_pRule it) |it. it \<in> set (m_ItemSets sample_collection ! i) \<and> IsFinished it \<and>
             m_LeftPart (m_pRule it) \<noteq> 4 \<and> X \<in> set (m_FollowSets sample_slr ! m_LeftPart (m_pRule it))})"
    using BuildGLRTable_correct [OF sample_slr_ok(1) _ _ sample_slr_ok(2,3) sample_build]
    by (simp add: sample_Compute sample_size) (simp add: glr_table_init_def sample_collection_def)
  moreover have "GetGotoValue 1 0 sample_collection = Some 2" by code_simp
  moreover have "{rule_info_Init (m_pRule it) |it. it \<in> set (m_ItemSets sample_collection ! 4) \<and> IsFinished it \<and>
      m_LeftPart (m_pRule it) \<noteq> 4 \<and> 2 \<in> set (m_FollowSets sample_slr ! m_LeftPart (m_pRule it))} =
      {rule_info_Init (sample_rule 1 0 [1, 2]) :: nat CGLRRuleInfo}"
    by (auto simp: sample_collection_def sample_item_def IsFinished_def sample_rule_def sample_slr_def)
  ultimately show ?thesis using sample_build by simp
qed

end
