(* ===== verification/GLR.thy ===== *)
theory GLR
  imports GLRTable "HOL-Library.Monad_Syntax"
begin

text \<open>
  The GLR parser (\<^verbatim>\<open>afglrparserlib/glr.h\<close>, \<^verbatim>\<open>glr.cpp\<close>): the graph-structured stack with its symbol
  nodes and state nodes, the sets of active nodes, pending reductions and pending shifts, and the
  operations \<^verbatim>\<open>Actor\<close>, \<^verbatim>\<open>Reducer\<close>, \<^verbatim>\<open>ReduceOnePath\<close>, \<^verbatim>\<open>Shifter\<close> and \<^verbatim>\<open>ParseSymbol\<close>, statement by statement.

  Nodes are referred to by their index in the vectors, as in the code; a rule is its index in the
  vector of rule infos, so the order of the pending reductions by rule pointer is the order of indices.
  The abstract class \<^verbatim>\<open>CInputItemFactory\<close> and the virtual methods of \<^verbatim>\<open>CInputItem\<close> are a record of
  functions: the factory may keep a state of its own (\<open>'f\<close>), which the parser threads through; an item
  is a value of type \<open>'i\<close> and \<^verbatim>\<open>NULL\<close> is \<open>None\<close>. Unsigned counters are natural numbers.

  The loops of \<^verbatim>\<open>Reducer\<close> and \<^verbatim>\<open>ParseSymbol\<close> are partial functions: a loop that does not end is \<open>None\<close>.
\<close>

section \<open>Data\<close>

record ('i, 'a, 'f) CInputItemFactory =
  CreateNewItem :: "nat \<Rightarrow> 'a list \<Rightarrow> nat \<Rightarrow> nat \<Rightarrow> nat \<Rightarrow> 'i option list \<Rightarrow> 'f \<Rightarrow> 'i option \<times> 'f"
  CreateNewLeaf :: "nat \<Rightarrow> nat \<Rightarrow> 'f \<Rightarrow> 'i option \<times> 'f"
  EqualNodes :: "'f \<Rightarrow> 'i \<Rightarrow> 'i option \<Rightarrow> bool"
  GetWeight :: "'i \<Rightarrow> nat"
  GetFactsCount :: "'i \<Rightarrow> nat"

definition MaxSymbolNodesCount :: nat where "MaxSymbolNodesCount = 10000"

record CParsingChildrenSet =
  m_ReduceRule :: nat
  pc_Items :: "nat list"

record 'i CSymbolNode =
  sn_SymbolNo :: nat
  m_pItem :: "'i option"
  m_PathTop :: "nat \<times> nat"
  sn_bDisabled :: bool
  m_OtherItemVariants :: "'i list"
  m_NodeChildren :: "nat list"
  m_ParseChildren :: "CParsingChildrenSet list"
  m_InputStart :: nat
  m_InputEnd :: nat
  m_Terminals :: "nat list"

definition AddInputItem :: "('i \<Rightarrow> nat) \<Rightarrow> 'i option \<Rightarrow> 'i CSymbolNode \<Rightarrow> 'i CSymbolNode" where
  "AddInputItem weight pItem node =
     (case (m_pItem node, pItem) of
        (Some cur, Some new) \<Rightarrow>
          if weight cur < weight new
          then node\<lparr>m_OtherItemVariants := m_OtherItemVariants node @ [cur], m_pItem := pItem\<rparr>
          else node\<lparr>m_OtherItemVariants := m_OtherItemVariants node @ [new]\<rparr>
      | (None, _) \<Rightarrow> node\<lparr>m_pItem := pItem\<rparr>
      | (Some cur, None) \<Rightarrow> node)"

definition IsLeaf :: "'i CSymbolNode \<Rightarrow> bool" where
  "IsLeaf node \<longleftrightarrow> length (m_ParseChildren node) = 0"

definition FindChild :: "nat \<Rightarrow> 'i CSymbolNode \<Rightarrow> int" where
  "FindChild NodeNo node =
     (let k = length (takeWhile (\<lambda>c. c \<noteq> NodeNo) (m_NodeChildren node))
      in if k = length (m_NodeChildren node) then - 1 else int k)"

record CStateNode =
  node_StateNo :: nat
  m_SymbolChildren :: "nat list"
  node_bDisabled :: bool
  m_ReducedTo :: "nat list"

definition state_node :: "nat \<Rightarrow> CStateNode" where
  "state_node n = \<lparr>node_StateNo = n, m_SymbolChildren = [], node_bDisabled = False, m_ReducedTo = []\<rparr>"

record CPendingReduction =
  m_SymbolNodeNo :: nat
  m_LastStateNodeNo :: nat
  m_pReduceRule :: nat

definition pending_reduction_less :: "CPendingReduction \<Rightarrow> CPendingReduction \<Rightarrow> bool" where
  "pending_reduction_less x y =
     (if m_SymbolNodeNo x \<noteq> m_SymbolNodeNo y then m_SymbolNodeNo x < m_SymbolNodeNo y
      else if m_LastStateNodeNo x \<noteq> m_LastStateNodeNo y then m_LastStateNodeNo x < m_LastStateNodeNo y
      else m_pReduceRule x < m_pReduceRule y)"

record CPendingShift =
  ps_SymbolNo :: nat
  m_StateNodeNo :: nat
  m_NextStateNo :: nat

definition pending_shift_less :: "CPendingShift \<Rightarrow> CPendingShift \<Rightarrow> bool" where
  "pending_shift_less x y =
     (if m_StateNodeNo x \<noteq> m_StateNodeNo y then m_StateNodeNo x < m_StateNodeNo y
      else if ps_SymbolNo x \<noteq> ps_SymbolNo y then ps_SymbolNo x < ps_SymbolNo y
      else m_NextStateNo x < m_NextStateNo y)"

definition pending_reduction_key :: "CPendingReduction \<Rightarrow> (nat \<times> nat) \<times> nat" where
  "pending_reduction_key x = ((m_SymbolNodeNo x, m_LastStateNodeNo x), m_pReduceRule x)"

definition pending_shift_key :: "CPendingShift \<Rightarrow> (nat \<times> nat) \<times> nat" where
  "pending_shift_key x = ((m_StateNodeNo x, ps_SymbolNo x), m_NextStateNo x)"

interpretation pending_reduction: key_order pending_reduction_less pending_reduction_key
  by unfold_locales (auto simp: pending_reduction_less_def pending_reduction_key_def)

interpretation pending_shift: key_order pending_shift_less pending_shift_key
  by unfold_locales (auto simp: pending_shift_less_def pending_shift_key_def)

section \<open>The parser\<close>

record ('i, 'f) CGLRParser =
  m_bDisableWORDSStateNodes :: bool
  m_BuiltGROUPs :: "(nat \<times> nat) list"
  m_bSynAnOptions :: bool
  m_InputLevels :: "nat list"
  m_PendingReductions :: "CPendingReduction list"
  m_PendingShifts :: "CPendingShift list"
  m_ActiveNodes :: "nat list"
  m_StateNodes :: "CStateNode list"
  m_SENTNonTerminal :: int
  m_WORDTerminal :: int
  m_GROUPNonTerminal :: int
  m_MaxLastGroup :: "int \<times> int"
  m_iCreatedGroups :: nat
  m_bRobust :: bool
  m_bBreakAfterMaxSymbolNodesCount :: bool
  m_SymbolNodes :: "'i CSymbolNode list"
  m_Factory :: 'f

text \<open>The two constructors.\<close>

definition glr_parser :: "'f \<Rightarrow> ('i, 'f) CGLRParser" where
  "glr_parser f =
     \<lparr>m_bDisableWORDSStateNodes = False, m_BuiltGROUPs = [], m_bSynAnOptions = False, m_InputLevels = [],
      m_PendingReductions = [], m_PendingShifts = [], m_ActiveNodes = [], m_StateNodes = [],
      m_SENTNonTerminal = - 1, m_WORDTerminal = - 1, m_GROUPNonTerminal = - 1, m_MaxLastGroup = (- 1, - 1),
      m_iCreatedGroups = 0, m_bRobust = False, m_bBreakAfterMaxSymbolNodesCount = True, m_SymbolNodes = [],
      m_Factory = f\<rparr>"

definition glr_parser_options :: "'f \<Rightarrow> bool \<Rightarrow> bool \<Rightarrow> int \<Rightarrow> int \<Rightarrow> int \<Rightarrow> ('i, 'f) CGLRParser" where
  "glr_parser_options f breakaftermax isrobust sentNT wordNT groupNT =
     (glr_parser f)\<lparr>m_bSynAnOptions := sentNT > - 1 \<and> wordNT > - 1 \<and> groupNT > - 1, m_InputLevels := [1],
        m_StateNodes := [state_node 0], m_SENTNonTerminal := sentNT, m_WORDTerminal := wordNT,
        m_GROUPNonTerminal := groupNT, m_bRobust := isrobust, m_bBreakAfterMaxSymbolNodesCount := breakaftermax\<rparr>"

definition PutSynAnOptions :: "int \<Rightarrow> int \<Rightarrow> int \<Rightarrow> ('i, 'f) CGLRParser \<Rightarrow> ('i, 'f) CGLRParser" where
  "PutSynAnOptions SENTNonTerminal WORDTerminal GROUPNonTerminal P =
     P\<lparr>m_SENTNonTerminal := SENTNonTerminal, m_GROUPNonTerminal := GROUPNonTerminal,
       m_WORDTerminal := WORDTerminal, m_bSynAnOptions := True\<rparr>"

definition InitGLRParser :: "('i, 'f) CGLRParser \<Rightarrow> ('i, 'f) CGLRParser" where
  "InitGLRParser P =
     P\<lparr>m_StateNodes := [state_node 0], m_SymbolNodes := [], m_InputLevels := [1], m_PendingReductions := [],
       m_PendingShifts := [], m_ActiveNodes := [], m_MaxLastGroup := (- 1, - 1), m_BuiltGROUPs := []\<rparr>"

definition CopyFrom :: "('i, 'f) CGLRParser \<Rightarrow> ('i, 'f) CGLRParser \<Rightarrow> ('i, 'f) CGLRParser" where
  "CopyFrom C P =
     P\<lparr>m_SymbolNodes := m_SymbolNodes C, m_StateNodes := m_StateNodes C, m_ActiveNodes := m_ActiveNodes C,
       m_PendingShifts := m_PendingShifts C, m_PendingReductions := m_PendingReductions C,
       m_InputLevels := m_InputLevels C, m_Factory := m_Factory C\<rparr>"

definition GetFirstNodeNoOfCurrentClosure :: "('i, 'f) CGLRParser \<Rightarrow> nat" where
  "GetFirstNodeNoOfCurrentClosure P = (if length (m_InputLevels P) = 1 then 0 else last (m_InputLevels P))"

text \<open>\<^verbatim>\<open>GetNumberOfClosureSet\<close>: the first level whose range holds the node.\<close>

definition GetNumberOfClosureSet :: "nat \<Rightarrow> ('i, 'f) CGLRParser \<Rightarrow> nat" where
  "GetNumberOfClosureSet StateNodeNo P =
     (case List.find (\<lambda>i. (if i > 0 then m_InputLevels P ! (i - 1) else 0) \<le> StateNodeNo \<and>
            StateNodeNo < m_InputLevels P ! i) [0..<length (m_InputLevels P)] of
        Some i \<Rightarrow> i | None \<Rightarrow> length (m_InputLevels P))"

section \<open>Actor\<close>

abbreviation reduction_insert :: "CPendingReduction \<Rightarrow> CPendingReduction list \<Rightarrow> CPendingReduction list" where
  "reduction_insert \<equiv> oset_insert pending_reduction_less"

definition add_reductions :: "nat \<Rightarrow> nat list \<Rightarrow> nat \<Rightarrow> ('i, 'f) CGLRParser \<Rightarrow> ('i, 'f) CGLRParser" where
  "add_reductions StateNodeNo symbols rule P =
     P\<lparr>m_PendingReductions :=
         fold (\<lambda>s. reduction_insert \<lparr>m_SymbolNodeNo = s, m_LastStateNodeNo = StateNodeNo, m_pReduceRule = rule\<rparr>)
           symbols (m_PendingReductions P)\<rparr>"

definition actor_symbol ::
  "'a CGLRTable \<Rightarrow> nat \<Rightarrow> nat \<Rightarrow> ('i, 'f) CGLRParser \<Rightarrow> ('i, 'f) CGLRParser" where
  "actor_symbol t StateNodeNo column P =
     (let Node = m_StateNodes P ! StateNodeNo; row = node_StateNo Node
      in if IsEmptyCell t row column then P
         else
           (let encoded = GetEncodedCell t row column;
                P = (case GetGotoLine t encoded of
                       None \<Rightarrow> P
                     | Some gotoLine \<Rightarrow> P\<lparr>m_PendingShifts := oset_insert pending_shift_less
                         \<lparr>ps_SymbolNo = column, m_StateNodeNo = StateNodeNo, m_NextStateNo = gotoLine\<rparr>
                         (m_PendingShifts P)\<rparr>)
            in if IsSimpleCell encoded
               then add_reductions StateNodeNo (m_SymbolChildren Node) (GetSimpleCellRule t encoded) P
               else fold (add_reductions StateNodeNo (m_SymbolChildren Node)) (IterComplexCellRules t encoded) P))"

definition Actor :: "'a CGLRTable \<Rightarrow> nat list \<Rightarrow> ('i, 'f) CGLRParser \<Rightarrow> ('i, 'f) CGLRParser" where
  "Actor t Symbols P =
     (let StateNodeNo = hd (m_ActiveNodes P)
      in fold (actor_symbol t StateNodeNo) Symbols (P\<lparr>m_ActiveNodes := tl (m_ActiveNodes P)\<rparr>))"

section \<open>Reduction of one path\<close>

text \<open>\<^verbatim>\<open>HasPathOfLengthTwo\<close>: the symbol node found, if any.\<close>

definition HasPathOfLengthTwo ::
  "('i, 'a, 'f) CInputItemFactory \<Rightarrow> 'i \<Rightarrow> nat \<Rightarrow> nat \<Rightarrow> nat \<Rightarrow> ('i, 'f) CGLRParser \<Rightarrow> nat option" where
  "HasPathOfLengthTwo F pNewItem SourceNodeNo TargetNodeNo BetweenStart P =
     (if length (m_SymbolNodes P) \<ge> MaxSymbolNodesCount \<and> m_bBreakAfterMaxSymbolNodesCount P then None
      else List.find (\<lambda>SymbolNodeNo.
          let SymbolNode = m_SymbolNodes P ! SymbolNodeNo;
              bEqualNodes = EqualNodes F (m_Factory P) pNewItem (m_pItem SymbolNode);
              bChildFound = FindChild TargetNodeNo SymbolNode \<noteq> - 1;
              bEqualWeight1 = (Some (GetWeight F pNewItem) = map_option (GetWeight F) (m_pItem SymbolNode))
          in bChildFound \<and> bEqualNodes \<and> bEqualWeight1 \<and> BetweenStart = m_InputStart SymbolNode)
        (m_SymbolChildren (m_StateNodes P ! SourceNodeNo)))"

text \<open>\<^verbatim>\<open>CreateOrReuseNode\<close>: whether the node is new, its number, and the parser.\<close>

definition CreateOrReuseNode :: "nat \<Rightarrow> ('i, 'f) CGLRParser \<Rightarrow> bool \<times> nat \<times> ('i, 'f) CGLRParser" where
  "CreateOrReuseNode StateNo P =
     (if m_bRobust P \<and> node_StateNo (m_StateNodes P ! 0) = StateNo then (False, 0, P)
      else case (if \<not> m_bSynAnOptions P
                 then List.find (\<lambda>i. node_StateNo (m_StateNodes P ! i) = StateNo)
                   [GetFirstNodeNoOfCurrentClosure P..<length (m_StateNodes P)]
                 else None) of
          Some NewNodeNo \<Rightarrow> (False, NewNodeNo, P)
        | None \<Rightarrow>
            (True, length (m_StateNodes P), P\<lparr>m_StateNodes := m_StateNodes P @ [state_node StateNo]\<rparr>))"

text \<open>The loop \<^verbatim>\<open>for (i = n; i > 0; i -= 2)\<close>.\<close>

fun steps_down :: "nat \<Rightarrow> nat list" where
  "steps_down 0 = []"
| "steps_down (Suc 0) = [1]"
| "steps_down (Suc (Suc n)) = Suc (Suc n) # steps_down n"

definition path_symbols :: "nat list \<Rightarrow> nat list" where
  "path_symbols Path = map (\<lambda>i. Path ! i) (steps_down (length Path - 2))"

definition FillRightPartItems :: "nat list \<Rightarrow> ('i, 'f) CGLRParser \<Rightarrow> 'i option list" where
  "FillRightPartItems Path P = map (\<lambda>s. m_pItem (m_SymbolNodes P ! s)) (path_symbols Path)"

definition AddTerminals :: "nat list \<Rightarrow> ('i, 'f) CGLRParser \<Rightarrow> nat list" where
  "AddTerminals Path P =
     concat (map (\<lambda>s. let symbolNode = m_SymbolNodes P ! s
         in if IsLeaf symbolNode then [sn_SymbolNo symbolNode] else m_Terminals symbolNode)
       (path_symbols Path))"

definition upd_symbol :: "nat \<Rightarrow> ('i CSymbolNode \<Rightarrow> 'i CSymbolNode) \<Rightarrow> ('i, 'f) CGLRParser \<Rightarrow> ('i, 'f) CGLRParser" where
  "upd_symbol s f P = P\<lparr>m_SymbolNodes := (m_SymbolNodes P)[s := f (m_SymbolNodes P ! s)]\<rparr>"

definition upd_state :: "nat \<Rightarrow> (CStateNode \<Rightarrow> CStateNode) \<Rightarrow> ('i, 'f) CGLRParser \<Rightarrow> ('i, 'f) CGLRParser" where
  "upd_state v f P = P\<lparr>m_StateNodes := (m_StateNodes P)[v := f (m_StateNodes P ! v)]\<rparr>"

text \<open>The reductions of a node that was processed before, through its new symbol node.\<close>

definition reprocess_symbol ::
  "'a CGLRTable \<Rightarrow> nat \<Rightarrow> nat \<Rightarrow> nat \<Rightarrow> nat \<Rightarrow> ('i, 'f) CGLRParser \<Rightarrow> ('i, 'f) CGLRParser" where
  "reprocess_symbol t gotoLine NewSymbolNode NewNodeNo column P =
     (if IsEmptyCell t gotoLine column then P
      else
        (let encodedNext = GetEncodedCell t gotoLine column
         in if IsSimpleCell encodedNext
            then add_reductions NewNodeNo [NewSymbolNode] (GetSimpleCellRule t encodedNext) P
            else fold (add_reductions NewNodeNo [NewSymbolNode]) (IterComplexCellRules t encodedNext) P))"

text \<open>The branch of \<^verbatim>\<open>ReduceOnePath\<close> that makes a new symbol node.\<close>

definition add_symbol_node ::
  "'a CGLRTable \<Rightarrow> nat list \<Rightarrow> nat \<Rightarrow> nat \<Rightarrow> nat \<Rightarrow> 'i CSymbolNode \<Rightarrow> ('i, 'f) CGLRParser \<Rightarrow> nat \<times> ('i, 'f) CGLRParser" where
  "add_symbol_node t Symbols gotoLine NewNodeNo iReducedNode SN P =
     (let NewSymbolNode = length (m_SymbolNodes P);
          P = P\<lparr>m_SymbolNodes := m_SymbolNodes P @ [SN]\<rparr>;
          P = upd_state NewNodeNo (\<lambda>v. v\<lparr>m_SymbolChildren := m_SymbolChildren v @ [NewSymbolNode]\<rparr>) P;
          P = upd_state iReducedNode (\<lambda>v. v\<lparr>m_ReducedTo := oset_insert (<) NewNodeNo (m_ReducedTo v)\<rparr>) P
      in (NewSymbolNode,
          if \<not> oset_mem (<) NewNodeNo (m_ActiveNodes P)
          then fold (reprocess_symbol t gotoLine NewSymbolNode NewNodeNo) Symbols P
          else P))"

text \<open>The rest of \<^verbatim>\<open>ReduceOnePath\<close> once an item was made: the node, its symbol node and the parse.\<close>

definition reduce_new_item ::
  "('i, 'a, 'f) CInputItemFactory \<Rightarrow> 'a CGLRTable \<Rightarrow> nat list \<Rightarrow> CPendingReduction \<Rightarrow> nat list \<Rightarrow> nat \<Rightarrow> 'i
     \<Rightarrow> ('i, 'f) CGLRParser \<Rightarrow> ('i, 'f) CGLRParser" where
  "reduce_new_item F t Symbols Reduction Path gotoLine item P =
     (let (created, NewNodeNo, P) = CreateOrReuseNode gotoLine P;
          P = (if created then P\<lparr>m_ActiveNodes := oset_insert (<) NewNodeNo (m_ActiveNodes P)\<rparr> else P);
          ChildNodeNo = last Path;
          iReducedNode = hd Path;
          iInputStart = m_InputStart (m_SymbolNodes P ! (Path ! (length Path - 2)));
          iInputEnd = m_InputEnd (m_SymbolNodes P ! (Path ! 1));
          SN = \<lparr>sn_SymbolNo = info_LeftPart (m_RuleInfos t ! m_pReduceRule Reduction), m_pItem = Some item,
                m_PathTop = (iReducedNode, Path ! 1),
                sn_bDisabled = False, m_OtherItemVariants = [], m_NodeChildren = [ChildNodeNo],
                m_ParseChildren = [], m_InputStart = iInputStart, m_InputEnd = iInputEnd,
                m_Terminals = AddTerminals Path P\<rparr>;
          (NewSymbolNode, P) =
            (case HasPathOfLengthTwo F item NewNodeNo ChildNodeNo iInputStart P of
               None \<Rightarrow> add_symbol_node t Symbols gotoLine NewNodeNo iReducedNode SN P
             | Some s \<Rightarrow> (s, upd_symbol s (AddInputItem (GetWeight F) (Some item)) P))
      in upd_symbol NewSymbolNode (\<lambda>s. s\<lparr>m_ParseChildren := m_ParseChildren s @
           [\<lparr>m_ReduceRule = m_pReduceRule Reduction, pc_Items = path_symbols Path\<rparr>]\<rparr>) P)"

definition ReduceOnePath ::
  "('i, 'a, 'f) CInputItemFactory \<Rightarrow> 'a CGLRTable \<Rightarrow> nat list \<Rightarrow> CPendingReduction \<Rightarrow> nat list
     \<Rightarrow> ('i, 'f) CGLRParser \<Rightarrow> ('i, 'f) CGLRParser" where
  "ReduceOnePath F t Symbols Reduction Path P =
     (let rule = m_RuleInfos t ! m_pReduceRule Reduction;
          LeftPart = info_LeftPart rule;
          ChildNodeNo = last Path;
          encoded = GetEncodedCell t (node_StateNo (m_StateNodes P ! ChildNodeNo)) LeftPart;
          gotoLine = (case GetGotoLine t encoded of Some g \<Rightarrow> g | None \<Rightarrow> 0);
          rightPartItems = FillRightPartItems Path P;
          iInputStart = m_InputStart (m_SymbolNodes P ! (Path ! (length Path - 2)));
          iInputEnd = m_InputEnd (m_SymbolNodes P ! (Path ! 1));
          (pNewItem, f) = CreateNewItem F LeftPart (m_RuleAgreement rule) iInputStart iInputEnd
             (info_SynMainItemNo rule) rightPartItems (m_Factory P);
          P = P\<lparr>m_Factory := f\<rparr>
      in case pNewItem of
           None \<Rightarrow> P
         | Some item \<Rightarrow>
             (let P = P\<lparr>m_iCreatedGroups := m_iCreatedGroups P + GetFactsCount F item\<rparr>;
                  P = (if int LeftPart = m_GROUPNonTerminal P
                       then P\<lparr>m_bDisableWORDSStateNodes := True,
                              m_BuiltGROUPs := oset_insert
                                (\<lambda>x y. fst x < fst y \<or> fst x = fst y \<and> snd x < snd y)
                                (iInputStart, iInputEnd) (m_BuiltGROUPs P)\<rparr>
                       else P)
              in reduce_new_item F t Symbols Reduction Path gotoLine item P))"

section \<open>Reducer\<close>

text \<open>
  The depth-first search for the paths of a reduction: \<open>Path\<close> is the DFS stack, \<open>Starts\<close> the number
  of the child that is being visited of each of its nodes.
\<close>

definition dfs_children :: "('i, 'f) CGLRParser \<Rightarrow> nat list \<Rightarrow> nat list" where
  "dfs_children P Path =
     (if length Path mod 2 = 0 then m_NodeChildren (m_SymbolNodes P ! last Path)
      else m_SymbolChildren (m_StateNodes P ! last Path))"

function reducer_back :: "('i, 'f) CGLRParser \<Rightarrow> nat list \<Rightarrow> nat list \<Rightarrow> nat list \<times> nat list" where
  "reducer_back P Path Starts =
     (if length Path > 1 then
        (let curr_children = dfs_children P Path; k = last Starts + 1
         in if k < length curr_children
            then (Path @ [curr_children ! k], butlast Starts @ [k, 0])
            else reducer_back P (butlast Path) (butlast Starts))
      else (Path, Starts))"
  by pat_completeness auto

termination by (relation "measure (\<lambda>(P, Path, Starts). length Path)") auto

declare reducer_back.simps [simp del]

definition reducer_step ::
  "('i, 'a, 'f) CInputItemFactory \<Rightarrow> 'a CGLRTable \<Rightarrow> nat list \<Rightarrow> CPendingReduction
     \<Rightarrow> nat list \<Rightarrow> nat list \<Rightarrow> ('i, 'f) CGLRParser \<Rightarrow> nat list \<times> nat list \<times> ('i, 'f) CGLRParser" where
  "reducer_step F t Symbols Reduction Path Starts P =
     (let RuleLength = info_RuleLength (m_RuleInfos t ! m_pReduceRule Reduction);
          P = (if length Path = 2 * RuleLength + 1 then ReduceOnePath F t Symbols Reduction Path P else P);
          children = dfs_children P Path
      in if length Path \<le> 2 * RuleLength \<and> children \<noteq> []
         then (Path @ [hd children], Starts @ [0], P)
         else (let (Path, Starts) = reducer_back P Path Starts in (Path, Starts, P)))"

partial_function (option) reducer_loop ::
  "('i, 'a, 'f) CInputItemFactory \<Rightarrow> 'a CGLRTable \<Rightarrow> nat list \<Rightarrow> CPendingReduction
     \<Rightarrow> nat list \<Rightarrow> nat list \<Rightarrow> ('i, 'f) CGLRParser \<Rightarrow> ('i, 'f) CGLRParser option" where
  [code]: "reducer_loop F t Symbols Reduction Path Starts P =
     (let (Path, Starts, P) = reducer_step F t Symbols Reduction Path Starts P
      in if length Path \<noteq> 1 then reducer_loop F t Symbols Reduction Path Starts P else Some P)"

definition Reducer ::
  "('i, 'a, 'f) CInputItemFactory \<Rightarrow> 'a CGLRTable \<Rightarrow> nat list \<Rightarrow> ('i, 'f) CGLRParser \<Rightarrow> ('i, 'f) CGLRParser option" where
  "Reducer F t Symbols P =
     (let Reduction = hd (m_PendingReductions P)
      in reducer_loop F t Symbols Reduction
           [m_LastStateNodeNo Reduction, m_SymbolNodeNo Reduction] [0, 0]
           (P\<lparr>m_PendingReductions := tl (m_PendingReductions P)\<rparr>))"

section \<open>Shifter\<close>

definition shift_one ::
  "('i, 'a, 'f) CInputItemFactory \<Rightarrow> CPendingShift \<Rightarrow> ('i, 'f) CGLRParser \<Rightarrow> ('i, 'f) CGLRParser" where
  "shift_one F Shift P =
     (let P = P\<lparr>m_PendingShifts := tl (m_PendingShifts P)\<rparr>;
          stateNode = m_StateNodes P ! m_StateNodeNo Shift
      in if length (m_SymbolChildren stateNode) = 0 \<and> m_bDisableWORDSStateNodes P \<and> length (m_InputLevels P) > 2
         then P
         else
           (let (_, NewNode, P) = CreateOrReuseNode (m_NextStateNo Shift) P;
                SymbolNo = ps_SymbolNo Shift;
                (found, P) =
                  (case List.find (\<lambda>s. sn_SymbolNo (m_SymbolNodes P ! s) = SymbolNo)
                          (m_SymbolChildren (m_StateNodes P ! NewNode)) of
                     Some s \<Rightarrow> (Some s, P)
                   | None \<Rightarrow>
                       (let start = length (m_InputLevels P) - 2;
                            (pItem, f) = CreateNewLeaf F SymbolNo start (m_Factory P);
                            P = P\<lparr>m_Factory := f\<rparr>
                        in case pItem of
                             None \<Rightarrow> (None, P)
                           | Some item \<Rightarrow>
                               (let SymbolNode = length (m_SymbolNodes P);
                                    SN = \<lparr>sn_SymbolNo = SymbolNo, m_pItem = pItem, m_PathTop = (0, 0),
                                      sn_bDisabled = False, m_OtherItemVariants = [], m_NodeChildren = [],
                                      m_ParseChildren = [], m_InputStart = start,
                                      m_InputEnd = length (m_InputLevels P) - 1, m_Terminals = []\<rparr>
                                in (Some SymbolNode,
                                    upd_state NewNode (\<lambda>v. v\<lparr>m_SymbolChildren := m_SymbolChildren v @ [SymbolNode]\<rparr>)
                                      (P\<lparr>m_SymbolNodes := m_SymbolNodes P @ [SN]\<rparr>)))))
            in case found of
                 None \<Rightarrow> P
               | Some SymbolNode \<Rightarrow>
                   if FindChild (m_StateNodeNo Shift) (m_SymbolNodes P ! SymbolNode) = - 1
                   then upd_symbol SymbolNode
                          (\<lambda>s. s\<lparr>m_NodeChildren := m_NodeChildren s @ [m_StateNodeNo Shift]\<rparr>) P
                   else P))"

definition Shifter ::
  "('i, 'a, 'f) CInputItemFactory \<Rightarrow> ('i, 'f) CGLRParser \<Rightarrow> ('i, 'f) CGLRParser" where
  "Shifter F P = fold (shift_one F) (m_PendingShifts P) P"

section \<open>Disabling of words\<close>

definition max_group :: "(nat \<times> nat) list \<Rightarrow> nat \<times> nat" where
  "max_group groups =
     fold (\<lambda>g maxGroup. if int (fst maxGroup) > int (fst g) then (fst g, snd maxGroup) else maxGroup)
       groups (hd groups)"

definition disable_symbol ::
  "bool \<Rightarrow> nat \<Rightarrow> nat \<Rightarrow> ('i, 'f) CGLRParser \<times> nat \<Rightarrow> ('i, 'f) CGLRParser \<times> nat" where
  "disable_symbol bCanDisable first iSymbolNode Pc =
     (let (P, iDeletedCount) = Pc;
          symbolNo = int (sn_SymbolNo (m_SymbolNodes P ! iSymbolNode));
          (P, iDeletedCount) =
            (if symbolNo = m_WORDTerminal P \<and> bCanDisable
             then (upd_symbol iSymbolNode (\<lambda>s. s\<lparr>sn_bDisabled := True\<rparr>) P, iDeletedCount + 1)
             else (P, iDeletedCount))
      in if symbolNo = m_GROUPNonTerminal P \<and> bCanDisable \<and>
            m_InputStart (m_SymbolNodes P ! iSymbolNode) > first
         then (upd_symbol iSymbolNode (\<lambda>s. s\<lparr>sn_bDisabled := True\<rparr>) P, iDeletedCount + 1)
         else (P, iDeletedCount))"

definition disable_shift ::
  "bool \<Rightarrow> nat \<Rightarrow> CPendingShift \<Rightarrow> ('i, 'f) CGLRParser \<Rightarrow> ('i, 'f) CGLRParser" where
  "disable_shift bCanDisable first pendingShift P =
     (let v = m_StateNodeNo pendingShift;
          children = m_SymbolChildren (m_StateNodes P ! v);
          (P, iDeletedCount) = fold (disable_symbol bCanDisable first) (rev children) (P, 0)
      in if length children > 0 \<and> length children = iDeletedCount
         then upd_state v (\<lambda>v. v\<lparr>m_SymbolChildren := []\<rparr>) P else P)"

definition DisableWORDSSrtateNodes :: "('i, 'f) CGLRParser \<Rightarrow> ('i, 'f) CGLRParser" where
  "DisableWORDSSrtateNodes P =
     (let maxGroup = max_group (m_BuiltGROUPs P);
          bCanDisable = (\<not> (fst (m_MaxLastGroup P) < int (fst maxGroup) \<and>
              int (fst maxGroup) \<le> snd (m_MaxLastGroup P) - 1) \<or> fst (m_MaxLastGroup P) = - 1);
          P = P\<lparr>m_MaxLastGroup := (int (fst maxGroup), int (snd maxGroup))\<rparr>
      in fold (disable_shift bCanDisable (fst maxGroup)) (m_PendingShifts P) P)"

definition DisableWORDSSrtateNodesOld :: "('i, 'f) CGLRParser \<Rightarrow> ('i, 'f) CGLRParser" where
  "DisableWORDSSrtateNodesOld P =
     fold (disable_shift True (fst (max_group (m_BuiltGROUPs P)))) (m_PendingShifts P) P"

section \<open>ParseSymbol\<close>

definition too_many_nodes :: "('i, 'f) CGLRParser \<Rightarrow> bool" where
  "too_many_nodes P \<longleftrightarrow>
     (length (m_SymbolNodes P) \<ge> MaxSymbolNodesCount \<or> m_iCreatedGroups P \<ge> MaxSymbolNodesCount * 5) \<and>
     m_bBreakAfterMaxSymbolNodesCount P"

text \<open>The loop over active nodes and pending reductions; \<open>False\<close> is the early return.\<close>

partial_function (option) parse_loop ::
  "('i, 'a, 'f) CInputItemFactory \<Rightarrow> 'a CGLRTable \<Rightarrow> nat list \<Rightarrow> ('i, 'f) CGLRParser
     \<Rightarrow> (bool \<times> ('i, 'f) CGLRParser) option" where
  [code]: "parse_loop F t Symbols P =
     (if m_ActiveNodes P \<noteq> [] \<or> m_PendingReductions P \<noteq> [] then
        do {
          P' \<leftarrow> (if m_ActiveNodes P \<noteq> [] then Some (Actor t Symbols P) else Reducer F t Symbols P);
          if too_many_nodes P' then Some (False, P') else parse_loop F t Symbols P'
        }
      else Some (True, P))"

definition parse_start :: "bool \<Rightarrow> ('i, 'f) CGLRParser \<Rightarrow> ('i, 'f) CGLRParser" where
  "parse_start bStartPoint P =
     (let P = P\<lparr>m_ActiveNodes := [], m_bDisableWORDSStateNodes := False, m_BuiltGROUPs := []\<rparr>;
          start = (if length (m_InputLevels P) > 1 then m_InputLevels P ! (length (m_InputLevels P) - 2) else 0);
          active = fold (oset_insert (<)) [start..<last (m_InputLevels P)] []
      in P\<lparr>m_ActiveNodes := (if bStartPoint then oset_insert (<) 0 active else active)\<rparr>)"

definition set_last_level :: "('i, 'f) CGLRParser \<Rightarrow> ('i, 'f) CGLRParser" where
  "set_last_level P = P\<lparr>m_InputLevels := butlast (m_InputLevels P) @ [length (m_StateNodes P)]\<rparr>"

definition parse_end ::
  "('i, 'a, 'f) CInputItemFactory \<Rightarrow> nat \<Rightarrow> ('i, 'f) CGLRParser \<Rightarrow> bool \<times> ('i, 'f) CGLRParser" where
  "parse_end F iFirstReducedStateNode P =
     (let P = set_last_level P;
          P = (if m_bDisableWORDSStateNodes P then
                 (let start = (if length (m_InputLevels P) > 1 then iFirstReducedStateNode else 0)
                  in DisableWORDSSrtateNodes (P\<lparr>m_ActiveNodes :=
                       fold (oset_insert (<)) [start..<last (m_InputLevels P)] (m_ActiveNodes P)\<rparr>))
               else P);
          P = P\<lparr>m_InputLevels := m_InputLevels P @ [length (m_StateNodes P)]\<rparr>;
          P = Shifter F P;
          bResult = (length (m_StateNodes P) - last (m_InputLevels P) > 0);
          P = (set_last_level P)\<lparr>m_bDisableWORDSStateNodes := False\<rparr>
      in (if m_bRobust P then True else bResult, P))"

definition ParseSymbol ::
  "('i, 'a, 'f) CInputItemFactory \<Rightarrow> 'a CGLRTable \<Rightarrow> nat list \<Rightarrow> bool \<Rightarrow> ('i, 'f) CGLRParser
     \<Rightarrow> (bool \<times> ('i, 'f) CGLRParser) option" where
  "ParseSymbol F t Symbols bStartPoint P =
     do {
       (finished, P') \<leftarrow> parse_loop F t Symbols (parse_start bStartPoint P);
       Some (if finished then parse_end F (length (m_StateNodes P)) P' else (False, P'))
     }"

definition HasGrammarRootAtStart :: "('b CWorkGrammar_scheme) \<Rightarrow> ('i, 'f) CGLRParser \<Rightarrow> bool" where
  "HasGrammarRootAtStart G P \<longleftrightarrow>
     list_ex (\<lambda>s. m_bGrammarRoot (m_UniqueGrammarItems G ! sn_SymbolNo s) \<and> m_InputStart s = 0) (m_SymbolNodes P)"

end
