(* ===== verification/InputItem.thy ===== *)
theory InputItem
  imports Prelude
begin

text \<open>
  \<^verbatim>\<open>CInputItem\<close> and its weights (\<^verbatim>\<open>FactExtract/Parser/common/inputitem.h\<close>, \<^verbatim>\<open>inputitem.cpp\<close>). The virtual
  methods of an item are fields of the item factory in the theory of the parser; what an item itself
  holds is the set of terminals it may stand for. A weight is a fixed-point number in a 64-bit word.

  The lemmas bound the weights: while the operands are at most 1, no operation wraps around, and the
  result is the exact value rounded down, at most 1 and between the operands.
\<close>

section \<open>Items\<close>

record CInputItem =
  m_AutomatSymbolInterpetationUnion :: "nat list"

definition AddTerminalSymbol :: "nat \<Rightarrow> CInputItem \<Rightarrow> CInputItem" where
  "AddTerminalSymbol s W =
     W\<lparr>m_AutomatSymbolInterpetationUnion := oset_insert (<) s (m_AutomatSymbolInterpetationUnion W)\<rparr>"

definition EraseTerminalSymbol :: "nat \<Rightarrow> CInputItem \<Rightarrow> CInputItem" where
  "EraseTerminalSymbol s W =
     W\<lparr>m_AutomatSymbolInterpetationUnion := filter (\<lambda>x. x \<noteq> s) (m_AutomatSymbolInterpetationUnion W)\<rparr>"

definition DeleteTerminalSymbols :: "CInputItem \<Rightarrow> CInputItem" where
  "DeleteTerminalSymbols W = W\<lparr>m_AutomatSymbolInterpetationUnion := []\<rparr>"

section \<open>Weights\<close>

definition Precision :: "64 word" where "Precision = 100000000"

record TWeight =
  weight_Value :: "64 word"

definition weight_default :: TWeight where
  "weight_default = \<lparr>weight_Value = 1 * Precision\<rparr>"

text \<open>\<^verbatim>\<open>TWeight((ui64)0)\<close> converts 0 to the \<^verbatim>\<open>double\<close> of the explicit constructor, whose value is 0.\<close>

definition weight_Zero :: TWeight where
  "weight_Zero = \<lparr>weight_Value = 0 * Precision\<rparr>"

definition weight_mean2 :: "TWeight \<Rightarrow> TWeight \<Rightarrow> TWeight" where
  "weight_mean2 w1 w2 = \<lparr>weight_Value = (weight_Value w1 + weight_Value w2) div 2\<rparr>"

definition weight_mean3 :: "TWeight \<Rightarrow> TWeight \<Rightarrow> TWeight \<Rightarrow> TWeight" where
  "weight_mean3 w1 w2 w3 = \<lparr>weight_Value = (weight_Value w1 + weight_Value w2 + weight_Value w3) div 3\<rparr>"

text \<open>\<^verbatim>\<open>numerator * Precision / denominator\<close>; a division by zero, which traps, is \<open>None\<close>.\<close>

definition weight_ratio :: "64 word \<Rightarrow> 64 word \<Rightarrow> TWeight option" where
  "weight_ratio numerator denominator =
     (if denominator = 0 then None else Some \<lparr>weight_Value = numerator * Precision div denominator\<rparr>)"

definition weight_times :: "TWeight \<Rightarrow> TWeight \<Rightarrow> TWeight" where
  "weight_times v w = v\<lparr>weight_Value := (weight_Value v * weight_Value w) div Precision\<rparr>"

definition weight_less :: "TWeight \<Rightarrow> TWeight \<Rightarrow> bool" where
  "weight_less v w \<longleftrightarrow> weight_Value v < weight_Value w"

definition weight_eq :: "TWeight \<Rightarrow> TWeight \<Rightarrow> bool" where
  "weight_eq v w \<longleftrightarrow> weight_Value v = weight_Value w"

interpretation weight: key_order weight_less weight_Value
  by unfold_locales (simp add: weight_less_def)

section \<open>Weights stay between 0 and 1\<close>

text \<open>The weight as a natural number, in units of \<open>1 / Precision\<close>.\<close>

abbreviation units :: "TWeight \<Rightarrow> nat" where "units w \<equiv> unat (weight_Value w)"

definition weight_ok :: "TWeight \<Rightarrow> bool" where
  "weight_ok w \<longleftrightarrow> weight_Value w \<le> Precision"

lemma unat_Precision [simp]: "unat Precision = 100000000"
  by (simp add: Precision_def)

lemma weight_ok_units: "weight_ok w \<longleftrightarrow> units w \<le> 100000000"
  by (simp add: weight_ok_def word_le_nat_alt)

lemma unat_add_small: "unat x + unat y < 2 ^ 64 \<Longrightarrow> unat (x + y :: 64 word) = unat x + unat y"
  by (simp add: unat_word_ariths)

lemma unat_mult_small: "unat x * unat y < 2 ^ 64 \<Longrightarrow> unat (x * y :: 64 word) = unat x * unat y"
  by (simp add: unat_word_ariths)

lemma units_mean2:
  assumes "weight_ok v" "weight_ok w"
  shows "units (weight_mean2 v w) = (units v + units w) div 2"
  using assms by (simp add: weight_ok_units weight_mean2_def unat_div unat_add_small)

lemma units_mean3:
  assumes "weight_ok u" "weight_ok v" "weight_ok w"
  shows "units (weight_mean3 u v w) = (units u + units v + units w) div 3"
  using assms by (simp add: weight_ok_units weight_mean3_def unat_div unat_add_small)

lemma units_times:
  assumes "weight_ok v" "weight_ok w"
  shows "units (weight_times v w) = units v * units w div 100000000"
proof -
  have "units v * units w \<le> 100000000 * 100000000"
    using assms by (intro mult_le_mono) (simp_all add: weight_ok_units)
  then show ?thesis by (simp add: weight_times_def unat_div unat_mult_small)
qed

lemma units_ratio:
  assumes "unat n \<le> unat d" "d \<noteq> 0" "unat n < 2 ^ 37"
  shows "\<exists>w. weight_ratio n d = Some w \<and> units w = unat n * 100000000 div unat d \<and> weight_ok w"
proof -
  have "unat n * 100000000 < 2 ^ 64" using assms(3) by simp
  then have e: "unat (n * Precision div d) = unat n * 100000000 div unat d"
    using unat_mult_small [of n Precision] by (simp add: unat_div)
  have "unat n * 100000000 \<le> 100000000 * unat d" using assms(1) by simp
  then have "unat n * 100000000 div unat d \<le> 100000000"
    using assms(2) by (metis div_le_mono nonzero_mult_div_cancel_right unat_eq_zero)
  then show ?thesis using assms(2) e by (simp add: weight_ratio_def weight_ok_units)
qed

text \<open>
  C25. Weights are numbers between 0 and 1 and never overflow: from weights that are at most 1, the means
  of two and of three are the exact means rounded down and lie between the least and the greatest
  operand, the product is the exact product rounded down and is not greater than either factor, and the
  ratio of \<open>n\<close> to \<open>d \<ge> n > 0\<close> below \<open>2\<^sup>3\<^sup>7\<close> is the exact ratio rounded down; all of them are at most 1 again.
\<close>

theorem weight_bounds:
  assumes "weight_ok u" "weight_ok v" "weight_ok w"
    and "0 < n" "n \<le> d" "unat n < 2 ^ 37"
  shows "weight_ok weight_default \<and> weight_ok weight_Zero \<and>
    weight_ok (weight_mean2 u v) \<and> units (weight_mean2 u v) = (units u + units v) div 2 \<and>
    min (units u) (units v) \<le> units (weight_mean2 u v) \<and> units (weight_mean2 u v) \<le> max (units u) (units v) \<and>
    weight_ok (weight_mean3 u v w) \<and> units (weight_mean3 u v w) = (units u + units v + units w) div 3 \<and>
    Min {units u, units v, units w} \<le> units (weight_mean3 u v w) \<and>
    units (weight_mean3 u v w) \<le> Max {units u, units v, units w} \<and>
    units (weight_times u v) = units u * units v div 100000000 \<and>
    units (weight_times u v) \<le> min (units u) (units v) \<and>
    (\<exists>r. weight_ratio n d = Some r \<and> weight_ok r \<and> units r = unat n * 100000000 div unat d)"
proof -
  have "units u * units v \<le> units u * 100000000" "units u * units v \<le> 100000000 * units v"
    using assms(1,2) by (simp_all add: weight_ok_units)
  then have "units u * units v div 100000000 \<le> units u" "units u * units v div 100000000 \<le> units v"
    by (metis div_le_mono nonzero_mult_div_cancel_right zero_neq_numeral, metis div_le_mono nonzero_mult_div_cancel_left zero_neq_numeral)
  moreover have "unat n \<le> unat d" using assms(5) by (simp add: word_le_nat_alt)
  moreover have "d \<noteq> 0" using assms(4,5) by auto
  moreover have "weight_ok weight_default" "weight_ok weight_Zero"
    by (simp_all add: weight_ok_def weight_default_def weight_Zero_def)
  ultimately show ?thesis
    using units_ratio [of n d] assms(1-3,6)
    by (simp add: units_mean2 units_mean3 units_times weight_ok_units) (auto simp: min_def max_def)
qed

theorem weight_bounds_witness:
  "weight_ok \<lparr>weight_Value = 30000000\<rparr> \<and> weight_mean2 \<lparr>weight_Value = 30000000\<rparr> weight_default = \<lparr>weight_Value = 65000000\<rparr> \<and>
   units (weight_mean3 \<lparr>weight_Value = 30000000\<rparr> weight_default weight_Zero) = 43333333 \<and>
   units (weight_times \<lparr>weight_Value = 30000000\<rparr> weight_default) = 30000000 \<and>
   (\<exists>r. weight_ratio 2 3 = Some r \<and> units r = 66666666)"
proof -
  have ok: "weight_ok \<lparr>weight_Value = 30000000\<rparr>" "weight_ok weight_default" "weight_ok weight_Zero"
    by (simp_all add: weight_ok_units weight_default_def weight_Zero_def)
  show ?thesis
    using weight_bounds [OF ok, of 2 3] ok
    by (auto simp add: weight_mean2_def weight_default_def weight_Zero_def Precision_def)
qed

end
