(* ===== verification/InputSequence.thy ===== *)
theory InputSequence
  imports GLR AhoKorasick InputItem
begin

text \<open>
  Input sequences (\<^verbatim>\<open>afglrparserlib/inputsequence.h\<close>, \<^verbatim>\<open>inputsequence.cpp\<close>): the sequence of the items of a
  sentence, which is searched for root prefixes with the trie of the grammar and then parsed with the
  GLR parser from the positions where a prefix was found.

  The grammar is given by its symbol and rule tables, its trie and its parsing table, the members
  \<^verbatim>\<open>m_TrieHolder\<close> and \<^verbatim>\<open>m_GLRTable\<close> of \<^verbatim>\<open>CWorkGrammar\<close>. The item factory of a sequence is a pointer to
  a shared object; its state is a field of the sequence and is handed to the parser and back.
  \<^verbatim>\<open>None\<close> is a loop that does not end.
\<close>

section \<open>State\<close>

record ('i, 'f) CInputSequenceGLR =
  m_InputTerminals :: "CInputItem list"
  m_Parsers :: "('i, 'f) CGLRParser list"
  m_pInputItemFactory :: 'f

definition input_sequence :: "'f \<Rightarrow> ('i, 'f) CInputSequenceGLR" where
  "input_sequence f = \<lparr>m_InputTerminals = [], m_Parsers = [], m_pInputItemFactory = f\<rparr>"

definition AddTerminal :: "CInputItem \<Rightarrow> ('i, 'f) CInputSequenceGLR \<Rightarrow> ('i, 'f) CInputSequenceGLR" where
  "AddTerminal pTerm Q = Q\<lparr>m_InputTerminals := m_InputTerminals Q @ [pTerm]\<rparr>"

abbreviation terminals :: "CInputItem \<Rightarrow> nat list" where
  "terminals W \<equiv> m_AutomatSymbolInterpetationUnion W"

section \<open>Searching with the trie\<close>

text \<open>The two inner loops, over the pairs of a current state and an interpretation of the word.\<close>

fun advance_states ::
  "CTrieHolder \<Rightarrow> nat \<Rightarrow> (nat \<times> nat) list \<Rightarrow> nat list \<Rightarrow> 'i COccurrence list \<Rightarrow> (nat list \<times> 'i COccurrence list) option" where
  "advance_states T WordNo [] NextStates Occurrences = Some (NextStates, Occurrences)"
| "advance_states T WordNo ((it, a) # pairs) NextStates Occurrences =
     do {
       (q, Occurrences) \<leftarrow> NextState T (int it) WordNo (int a) Occurrences;
       advance_states T WordNo pairs (oset_insert (<) (nat q) NextStates) Occurrences
     }"

fun find_words ::
  "CTrieHolder \<Rightarrow> nat \<Rightarrow> CInputItem list \<Rightarrow> nat list \<Rightarrow> 'i COccurrence list \<Rightarrow> 'i COccurrence list option" where
  "find_words T WordNo [] CurrentStates Occurrences = Some Occurrences"
| "find_words T WordNo (W # Ws) CurrentStates Occurrences =
     do {
       (NextStates, Occurrences) \<leftarrow>
         advance_states T WordNo (List.product CurrentStates (terminals W)) [] Occurrences;
       find_words T (WordNo + 1) Ws (if NextStates = [] then oset_insert (<) 0 [] else NextStates) Occurrences
     }"

definition FindOccurrencesWithTrie ::
  "CTrieHolder \<Rightarrow> ('i, 'f) CInputSequenceGLR \<Rightarrow> 'i COccurrence list option" where
  "FindOccurrencesWithTrie T Q = find_words T 0 (m_InputTerminals Q) [0] []"

section \<open>Parsing\<close>

text \<open>\<^verbatim>\<open>CGLRParser::Free\<close>: the items are deleted; nothing reads them afterwards.\<close>

definition parser_Free :: "('i, 'f) CGLRParser \<Rightarrow> ('i, 'f) CGLRParser" where
  "parser_Free P = P\<lparr>m_iCreatedGroups := 0\<rparr>"

text \<open>The loop over the words of \<^verbatim>\<open>ApplyGLR_Parsing\<close>; \<open>Count\<close> is the size of the sequence.\<close>

fun parse_words ::
  "('i, 'a, 'f) CInputItemFactory \<Rightarrow> ('b CWorkGrammar_scheme) \<Rightarrow> 'a CGLRTable \<Rightarrow> nat list \<Rightarrow> nat \<Rightarrow> nat \<Rightarrow> CInputItem list
     \<Rightarrow> ('i, 'f) CGLRParser \<Rightarrow> ('i, 'f) CGLRParser option" where
  "parse_words F G t StartPoints Count CurrWordNo [] P = Some P"
| "parse_words F G t StartPoints Count CurrWordNo (W # Ws) P =
     do {
       (parsed, P) \<leftarrow> ParseSymbol F t (terminals W) (oset_mem (<) CurrWordNo StartPoints) P;
       if parsed then
         if CurrWordNo + 1 = Count then
           map_option snd (ParseSymbol F t (oset_insert (<) (GetEndOfStreamSymbol G) []) False P)
         else parse_words F G t StartPoints Count (CurrWordNo + 1) Ws P
       else Some P
     }"

definition is_root_node :: "('b CWorkGrammar_scheme) \<Rightarrow> 'i CSymbolNode \<Rightarrow> bool" where
  "is_root_node G node \<longleftrightarrow>
     m_bGrammarRoot (m_UniqueGrammarItems G ! sn_SymbolNo node) \<and> \<not> sn_bDisabled node \<and>
     sn_SymbolNo node \<noteq> GetEndOfStreamSymbol G"

definition root_occurrences :: "('b CWorkGrammar_scheme) \<Rightarrow> 'i CSymbolNode list \<Rightarrow> 'i COccurrence list" where
  "root_occurrences G Output =
     map (\<lambda>i. (occurrence (m_InputStart (Output ! i)) (m_InputEnd (Output ! i)) i)\<lparr>m_pInputItem := m_pItem (Output ! i)\<rparr>)
       (filter (\<lambda>i. is_root_node G (Output ! i)) [0..<length Output])"

definition ApplyGLR_Parsing ::
  "('i, 'a, 'f) CInputItemFactory \<Rightarrow> ('b CWorkGrammar_scheme) \<Rightarrow> 'a CGLRTable \<Rightarrow> nat list \<Rightarrow> 'i COccurrence list
     \<Rightarrow> ('i, 'f) CInputSequenceGLR \<Rightarrow> (nat \<times> 'i COccurrence list \<times> ('i, 'f) CInputSequenceGLR) option" where
  "ApplyGLR_Parsing F G t StartPoints Occurrences Q =
     (if StartPoints = [] then Some (0, Occurrences, Q)
      else
        do {
          let Parser = InitGLRParser ((glr_parser (m_pInputItemFactory Q))\<lparr>m_bRobust := True\<rparr>);
          Parser \<leftarrow> parse_words F G t StartPoints (length (m_InputTerminals Q)) 0 (m_InputTerminals Q) Parser;
          let found = root_occurrences G (m_SymbolNodes Parser);
          let Q = Q\<lparr>m_pInputItemFactory := m_Factory Parser\<rparr>;
          Some (if found = [] then (0, Occurrences, Q)
                else (length (m_SymbolNodes Parser), Occurrences @ found, Q\<lparr>m_Parsers := m_Parsers Q @ [Parser]\<rparr>))
        })"

definition FreeParsers :: "('i, 'f) CInputSequenceGLR \<Rightarrow> ('i, 'f) CInputSequenceGLR" where
  "FreeParsers Q = Q\<lparr>m_Parsers := []\<rparr>"

text \<open>
  \<^verbatim>\<open>CInputSequenceGLR::Process\<close>. \<open>SetCurStartWord\<close> is the setter of \<^verbatim>\<open>CInputItemFactory\<close>, as a function on
  the state of the factory.
\<close>

definition sequence_Process ::
  "(nat \<Rightarrow> 'f \<Rightarrow> 'f) \<Rightarrow> ('i, 'a, 'f) CInputItemFactory \<Rightarrow> ('b CWorkGrammar_scheme) \<Rightarrow> CTrieHolder \<Rightarrow> 'a CGLRTable
     \<Rightarrow> 'i COccurrence list \<Rightarrow> ('i, 'f) CInputSequenceGLR \<Rightarrow> ('i COccurrence list \<times> ('i, 'f) CInputSequenceGLR) option" where
  "sequence_Process SetCurStartWord F G T t Occurrences Q =
     do {
       Prefixes \<leftarrow> FindOccurrencesWithTrie T Q;
       let StartPoints = oset_insert_all (<) (map occ_first Prefixes) [];
       (_, Occurrences, Q) \<leftarrow> ApplyGLR_Parsing F G t StartPoints Occurrences
         (Q\<lparr>m_pInputItemFactory := SetCurStartWord 0 (m_pInputItemFactory Q)\<rparr>);
       Some (Occurrences, Q)
     }"

section \<open>The sequence of a syntactic analysis\<close>

text \<open>\<^verbatim>\<open>CSynAnInputSequence\<close>: one parser of its own, which must accept every word.\<close>

record ('i, 'f) CSynAnInputSequence = "('i, 'f) CInputSequenceGLR" +
  m_Parser :: "('i, 'f) CGLRParser"

definition syn_an_sequence :: "'f \<Rightarrow> ('i, 'f) CSynAnInputSequence" where
  "syn_an_sequence f =
     \<lparr>m_InputTerminals = [], m_Parsers = [], m_pInputItemFactory = f, m_Parser = InitGLRParser (glr_parser f)\<rparr>"

fun syn_an_words ::
  "('i, 'a, 'f) CInputItemFactory \<Rightarrow> ('b CWorkGrammar_scheme) \<Rightarrow> 'a CGLRTable \<Rightarrow> nat \<Rightarrow> nat \<Rightarrow> CInputItem list
     \<Rightarrow> ('i, 'f) CGLRParser \<Rightarrow> (string + ('i, 'f) CGLRParser) option" where
  "syn_an_words F G t Count WordNo [] P = Some (Inr P)"
| "syn_an_words F G t Count WordNo (W # Ws) P =
     do {
       (parsed, P) \<leftarrow> ParseSymbol F t (terminals W) False P;
       if \<not> parsed then Some (Inl ''Can't parse symbol!'')
       else do {
         P \<leftarrow> (if WordNo + 1 = Count
           then map_option snd (ParseSymbol F t (oset_insert (<) (GetEndOfStreamSymbol G) []) False P)
           else Some P);
         syn_an_words F G t Count (WordNo + 1) Ws P
       }
     }"

definition syn_an_Process ::
  "('i, 'a, 'f) CInputItemFactory \<Rightarrow> ('b CWorkGrammar_scheme) \<Rightarrow> 'a CGLRTable
     \<Rightarrow> ('i, 'f) CSynAnInputSequence \<Rightarrow> (string + ('i, 'f) CSynAnInputSequence) option" where
  "syn_an_Process F G t Q =
     map_option (map_sum (\<lambda>e. e) (\<lambda>P. Q\<lparr>m_Parser := P, m_pInputItemFactory := m_Factory P\<rparr>))
       (syn_an_words F G t (length (m_InputTerminals Q)) 0 (m_InputTerminals Q) (m_Parser Q))"

end
