(* ===== verification/GLRInvariant.thy ===== *)
theory GLRInvariant
  imports GLR
begin

text \<open>
  What holds of the graph-structured stack: the invariant of \<^verbatim>\<open>CGLRParser\<close>, and that every operation
  of a step keeps it.

  The invariant ties the stack to the input read so far, a list of symbol sets. A state node has a
  position, the number of closed levels below it; an edge leads from a state node over a symbol node to
  a state node, and it is a transition of the table; a symbol node starts where the nodes below
  it stand (the root node 0 stands anywhere) and ends where the node above it stands; and
  every symbol node derives, in the grammar, a word of the input between its ends.
\<close>

section \<open>Words of the input\<close>

definition matches :: "symbol set list \<Rightarrow> nat \<Rightarrow> symbol list \<Rightarrow> bool" where
  "matches inputs i w \<longleftrightarrow> i + length w \<le> length inputs \<and> (\<forall>k < length w. w ! k \<in> inputs ! (i + k))"

lemma matches_append:
  "matches inputs i (u @ v) \<longleftrightarrow> matches inputs i u \<and> matches inputs (i + length u) v"
proof
  assume m: "matches inputs i (u @ v)"
  have "u ! k \<in> inputs ! (i + k)" if "k < length u" for k
    using m that unfolding matches_def by (metis length_append nth_append trans_less_add1)
  moreover have "v ! k \<in> inputs ! (i + length u + k)" if "k < length v" for k
    using m that unfolding matches_def by (metis add.assoc add_less_cancel_left length_append nth_append_length_plus)
  ultimately show "matches inputs i u \<and> matches inputs (i + length u) v"
    using m by (simp add: matches_def)
next
  assume m: "matches inputs i u \<and> matches inputs (i + length u) v"
  have "(u @ v) ! k \<in> inputs ! (i + k)" if k: "k < length u + length v" for k
  proof (cases "k < length u")
    case False
    then have "v ! (k - length u) \<in> inputs ! (i + length u + (k - length u))"
      using m k unfolding matches_def by (metis add_diff_inverse_nat nat_add_left_cancel_less)
    then show ?thesis using False by (simp add: nth_append)
  qed (use m in \<open>simp add: matches_def nth_append\<close>)
  then show "matches inputs i (u @ v)" using m by (simp add: matches_def)
qed

lemma matches_more: "matches inputs i w \<Longrightarrow> matches (inputs @ ins) i w"
  by (auto simp: matches_def nth_append)

definition spans :: "('b CWorkGrammar_scheme) \<Rightarrow> symbol set list \<Rightarrow> symbol \<Rightarrow> nat \<Rightarrow> nat \<Rightarrow> bool" where
  "spans G inputs X i j \<longleftrightarrow> (\<exists>w. j = i + length w \<and> matches inputs i w \<and> derives G [X] w)"

lemma spans_more: "spans G inputs X i j \<Longrightarrow> spans G (inputs @ ins) X i j"
  unfolding spans_def using matches_more by blast

lemma derives_trans: "derives G u v \<Longrightarrow> derives G v w \<Longrightarrow> derives G u w"
  by (rule rtranclp_trans)

text \<open>A sequence of spans, each starting where the one before ends.\<close>

fun chain :: "('s \<Rightarrow> nat) \<Rightarrow> ('s \<Rightarrow> nat) \<Rightarrow> nat \<Rightarrow> 's list \<Rightarrow> nat \<Rightarrow> bool" where
  "chain beg fin i [] j \<longleftrightarrow> i = j"
| "chain beg fin i (s # ss) j \<longleftrightarrow> beg s = i \<and> chain beg fin (fin s) ss j"

lemma chain_append: "chain beg fin i (xs @ ys) j \<longleftrightarrow> (\<exists>k. chain beg fin i xs k \<and> chain beg fin k ys j)"
  by (induction xs arbitrary: i) auto

lemma chain_cong:
  "\<forall>s \<in> set ss. beg s = beg' s \<and> fin s = fin' s \<Longrightarrow> chain beg fin i ss j \<longleftrightarrow> chain beg' fin' i ss j"
  by (induction ss arbitrary: i) auto

lemma chain_less:
  "chain beg fin i ss j \<Longrightarrow> ss \<noteq> [] \<Longrightarrow> \<forall>s \<in> set ss. beg s < fin s \<Longrightarrow> i < j"
proof (induction ss arbitrary: i)
  case (Cons s ss)
  then show ?case using Cons.IH [of "fin s"] by (cases "ss = []") force+
qed simp

lemma chain_spans:
  assumes "chain beg fin i ss j" "\<forall>s \<in> set ss. spans G inputs (lab s) (beg s) (fin s)" "i \<le> length inputs"
  shows "\<exists>w. j = i + length w \<and> matches inputs i w \<and> derives G (map lab ss) w"
  using assms
proof (induction ss arbitrary: i)
  case (Cons s ss)
  obtain u where u: "fin s = i + length u" "matches inputs i u" "derives G [lab s] u"
    using Cons.prems(1,2) by (auto simp: spans_def)
  have "fin s \<le> length inputs" using u(1,2) by (simp add: matches_def)
  then obtain v where v: "j = fin s + length v" "matches inputs (fin s) v" "derives G (map lab ss) v"
    using Cons.IH [of "fin s"] Cons.prems(1,2) by auto
  have "derives G ([lab s] @ map lab ss) (u @ map lab ss)"
    using derives_context [OF u(3), of "[]" "map lab ss"] by simp
  moreover have "derives G (u @ map lab ss) (u @ v)"
    using derives_context [OF v(3), of u "[]"] by simp
  ultimately have "derives G (map lab (s # ss)) (u @ v)" using derives_trans by fastforce
  moreover have "matches inputs i (u @ v)" using u v(2) by (simp add: matches_append)
  ultimately show ?case using u(1) v(1) by (intro exI [of _ "u @ v"]) simp
qed (auto simp: matches_def)

lemma rule_spans:
  assumes "r \<in> set (m_EncodedRules G)" "map lab ss = rhs r" "chain beg fin i ss j"
    and "\<forall>s \<in> set ss. spans G inputs (lab s) (beg s) (fin s)" "i \<le> length inputs"
  shows "spans G inputs (m_LeftPart r) i j"
  using chain_spans [OF assms(3-5)] derives_rule [OF assms(1)] derives_trans
  unfolding spans_def assms(2) by blast

section \<open>The table of an automaton\<close>

text \<open>
  What the parser relies on: each row is a set of items; a goto leads to a state other than the start,
  all of whose items with a moved dot come from the row by moving it over the symbol; a rule in a cell
  has its finished item in the row; and there is a goto for the left part of every item with the dot in
  front. \<open>I\<close> are the item sets, \<open>N\<close> is the number of rows.
\<close>

definition lr_table :: "('b CWorkGrammar_scheme) \<Rightarrow> (nat \<Rightarrow> CLRItem set) \<Rightarrow> nat \<Rightarrow> 'a CGLRTable \<Rightarrow> bool" where
  "lr_table G I N t \<longleftrightarrow>
     0 < N \<and>
     (\<forall>i < N. I i \<subseteq> grammar_lr_items G) \<and>
     (\<forall>i < N. \<forall>X < length (m_UniqueGrammarItems G). \<forall>j. cell_goto t i X = Some j \<longrightarrow>
        j < N \<and> j \<noteq> 0 \<and> (\<exists>it \<in> I j. m_DotSymbolNo it \<noteq> 0) \<and>
        (\<forall>it \<in> I j. m_DotSymbolNo it \<noteq> 0 \<longrightarrow>
           (\<exists>it' \<in> I i. m_pRule it' = m_pRule it \<and> m_DotSymbolNo it = Suc (m_DotSymbolNo it') \<and> GetSymbolNo it' = X))) \<and>
     (\<forall>i < N. \<forall>X < length (m_UniqueGrammarItems G). \<forall>k \<in> set (cell_rules t i X).
        k < length (m_RuleInfos t) \<and>
        (\<exists>it \<in> I i. IsFinished it \<and> m_LeftPart (m_pRule it) \<noteq> GetNewRoot G \<and>
           info_LeftPart (m_RuleInfos t ! k) = m_LeftPart (m_pRule it) \<and>
           info_RuleLength (m_RuleInfos t ! k) = length (rhs (m_pRule it)))) \<and>
     (\<forall>i < N. \<forall>it \<in> I i. m_DotSymbolNo it = 0 \<and> m_LeftPart (m_pRule it) \<noteq> GetNewRoot G \<longrightarrow>
        cell_goto t i (m_LeftPart (m_pRule it)) \<noteq> None)"

text \<open>A rule of the table is finished in the row: what a pending reduction remembers.\<close>

definition reducible :: "('b CWorkGrammar_scheme) \<Rightarrow> (nat \<Rightarrow> CLRItem set) \<Rightarrow> 'a CGLRTable \<Rightarrow> nat \<Rightarrow> nat \<Rightarrow> CWorkRule \<Rightarrow> bool" where
  "reducible G I t i k r \<longleftrightarrow>
     k < length (m_RuleInfos t) \<and> \<lparr>m_pRule = r, m_DotSymbolNo = length (rhs r)\<rparr> \<in> I i \<and>
     r \<in> set (m_EncodedRules G) \<and> m_LeftPart r \<noteq> GetNewRoot G \<and>
     info_LeftPart (m_RuleInfos t ! k) = m_LeftPart r \<and> info_RuleLength (m_RuleInfos t ! k) = length (rhs r)"

lemma lr_tableD:
  assumes "lr_table G I N t"
  shows "0 < N" and "i < N \<Longrightarrow> I i \<subseteq> grammar_lr_items G"
    and "i < N \<Longrightarrow> X < length (m_UniqueGrammarItems G) \<Longrightarrow> cell_goto t i X = Some j \<Longrightarrow>
        j < N \<and> j \<noteq> 0 \<and> (\<exists>it \<in> I j. m_DotSymbolNo it \<noteq> 0) \<and>
        (\<forall>it \<in> I j. m_DotSymbolNo it \<noteq> 0 \<longrightarrow>
           (\<exists>it' \<in> I i. m_pRule it' = m_pRule it \<and> m_DotSymbolNo it = Suc (m_DotSymbolNo it') \<and> GetSymbolNo it' = X))"
    and "i < N \<Longrightarrow> X < length (m_UniqueGrammarItems G) \<Longrightarrow> k \<in> set (cell_rules t i X) \<Longrightarrow>
        k < length (m_RuleInfos t) \<and>
        (\<exists>it \<in> I i. IsFinished it \<and> m_LeftPart (m_pRule it) \<noteq> GetNewRoot G \<and>
           info_LeftPart (m_RuleInfos t ! k) = m_LeftPart (m_pRule it) \<and>
           info_RuleLength (m_RuleInfos t ! k) = length (rhs (m_pRule it)))"
    and "i < N \<Longrightarrow> it \<in> I i \<Longrightarrow> m_DotSymbolNo it = 0 \<Longrightarrow> m_LeftPart (m_pRule it) \<noteq> GetNewRoot G \<Longrightarrow>
        cell_goto t i (m_LeftPart (m_pRule it)) \<noteq> None"
proof -
  note a = assms [unfolded lr_table_def]
  show "0 < N" "i < N \<Longrightarrow> I i \<subseteq> grammar_lr_items G" using a by simp_all
  show "i < N \<Longrightarrow> X < length (m_UniqueGrammarItems G) \<Longrightarrow> cell_goto t i X = Some j \<Longrightarrow>
        j < N \<and> j \<noteq> 0 \<and> (\<exists>it \<in> I j. m_DotSymbolNo it \<noteq> 0) \<and>
        (\<forall>it \<in> I j. m_DotSymbolNo it \<noteq> 0 \<longrightarrow>
           (\<exists>it' \<in> I i. m_pRule it' = m_pRule it \<and> m_DotSymbolNo it = Suc (m_DotSymbolNo it') \<and> GetSymbolNo it' = X))"
    using a [THEN conjunct2, THEN conjunct2, THEN conjunct1] by blast
  show "i < N \<Longrightarrow> X < length (m_UniqueGrammarItems G) \<Longrightarrow> k \<in> set (cell_rules t i X) \<Longrightarrow>
        k < length (m_RuleInfos t) \<and>
        (\<exists>it \<in> I i. IsFinished it \<and> m_LeftPart (m_pRule it) \<noteq> GetNewRoot G \<and>
           info_LeftPart (m_RuleInfos t ! k) = m_LeftPart (m_pRule it) \<and>
           info_RuleLength (m_RuleInfos t ! k) = length (rhs (m_pRule it)))"
    using a [THEN conjunct2, THEN conjunct2, THEN conjunct2, THEN conjunct1] by blast
  show "i < N \<Longrightarrow> it \<in> I i \<Longrightarrow> m_DotSymbolNo it = 0 \<Longrightarrow> m_LeftPart (m_pRule it) \<noteq> GetNewRoot G \<Longrightarrow>
        cell_goto t i (m_LeftPart (m_pRule it)) \<noteq> None"
    using a [THEN conjunct2, THEN conjunct2, THEN conjunct2, THEN conjunct2] by blast
qed

lemma lr_table_reducible:
  assumes "lr_table G I N t" "i < N" "X < length (m_UniqueGrammarItems G)" "k \<in> set (cell_rules t i X)"
  shows "\<exists>r. reducible G I t i k r"
proof -
  obtain it where it: "it \<in> I i" "IsFinished it" "m_LeftPart (m_pRule it) \<noteq> GetNewRoot G"
    "info_LeftPart (m_RuleInfos t ! k) = m_LeftPart (m_pRule it)"
    "info_RuleLength (m_RuleInfos t ! k) = length (rhs (m_pRule it))" and k: "k < length (m_RuleInfos t)"
    using lr_tableD(4) [OF assms] by blast
  have "\<lparr>m_pRule = m_pRule it, m_DotSymbolNo = length (rhs (m_pRule it))\<rparr> = it"
    using it(2) by (cases it) (simp add: IsFinished_def)
  then have "\<lparr>m_pRule = m_pRule it, m_DotSymbolNo = length (rhs (m_pRule it))\<rparr> \<in> I i" using it(1) by simp
  moreover have "m_pRule it \<in> set (m_EncodedRules G)"
    using lr_tableD(2) [OF assms(1,2)] it(1) by (auto simp: grammar_lr_items_def)
  ultimately show ?thesis
    using it(3-5) k by (intro exI [of _ "m_pRule it"]) (simp add: reducible_def)
qed

text \<open>\<^verbatim>\<open>Actor\<close> and the reprocessing of a node read a cell by its goto and its rules.\<close>

lemma actor_symbol_cell:
  "actor_symbol t v column P =
     fold (add_reductions v (m_SymbolChildren (m_StateNodes P ! v)))
       (cell_rules t (node_StateNo (m_StateNodes P ! v)) column)
       (case cell_goto t (node_StateNo (m_StateNodes P ! v)) column of
          None \<Rightarrow> P
        | Some g \<Rightarrow> P\<lparr>m_PendingShifts := oset_insert pending_shift_less
            \<lparr>ps_SymbolNo = column, m_StateNodeNo = v, m_NextStateNo = g\<rparr> (m_PendingShifts P)\<rparr>)"
  by (simp add: actor_symbol_def cell_goto_def cell_rules_def Let_def)

lemma reprocess_symbol_cell:
  "reprocess_symbol t g s v column P = fold (add_reductions v [s]) (cell_rules t g column) P"
  by (simp add: reprocess_symbol_def cell_rules_def Let_def)

lemma add_reductions_fold:
  "fold (add_reductions v ss) ks P =
     P\<lparr>m_PendingReductions := fold (\<lambda>k ps. fold (\<lambda>s. reduction_insert
         \<lparr>m_SymbolNodeNo = s, m_LastStateNodeNo = v, m_pReduceRule = k\<rparr>) ss ps) ks (m_PendingReductions P)\<rparr>"
  by (induction ks arbitrary: P) (simp_all add: add_reductions_def)

lemma set_reductions_fold:
  "set (fold (\<lambda>s. reduction_insert \<lparr>m_SymbolNodeNo = s, m_LastStateNodeNo = v, m_pReduceRule = k\<rparr>) ss ps) \<subseteq>
     set ps \<union> {\<lparr>m_SymbolNodeNo = s, m_LastStateNodeNo = v, m_pReduceRule = k\<rparr> |s. s \<in> set ss}"
proof (induction ss arbitrary: ps)
  case (Cons s ss)
  show ?case
    using Cons [of "reduction_insert \<lparr>m_SymbolNodeNo = s, m_LastStateNodeNo = v, m_pReduceRule = k\<rparr> ps"]
      set_oset_insert_subset [of pending_reduction_less "\<lparr>m_SymbolNodeNo = s, m_LastStateNodeNo = v, m_pReduceRule = k\<rparr>" ps]
    by fastforce
qed simp

lemma add_reductions_pending:
  "set (m_PendingReductions (fold (add_reductions v ss) ks P)) \<subseteq>
     set (m_PendingReductions P) \<union>
     {\<lparr>m_SymbolNodeNo = s, m_LastStateNodeNo = v, m_pReduceRule = k\<rparr> |s k. s \<in> set ss \<and> k \<in> set ks}"
  unfolding add_reductions_fold
proof (induction ks arbitrary: P)
  case (Cons k ks)
  let ?ps = "fold (\<lambda>s. reduction_insert \<lparr>m_SymbolNodeNo = s, m_LastStateNodeNo = v, m_pReduceRule = k\<rparr>) ss
    (m_PendingReductions P)"
  show ?case
    using Cons [of "P\<lparr>m_PendingReductions := ?ps\<rparr>"] set_reductions_fold [of v k ss "m_PendingReductions P"]
    by fastforce
qed simp

section \<open>The stack as a graph\<close>

text \<open>The symbols of input and stack: all but the new root.\<close>

definition grammar_symbol :: "('b CWorkGrammar_scheme) \<Rightarrow> symbol \<Rightarrow> bool" where
  "grammar_symbol G X \<longleftrightarrow> X < length (m_UniqueGrammarItems G) \<and> X \<noteq> GetNewRoot G"

text \<open>What the invariant sees of a parser: levels, state nodes and symbol nodes, without items and flags.\<close>

record gss_node =
  g_state :: nat
  g_children :: "nat list"

record gss_symbol =
  g_symbol :: symbol
  g_start :: nat
  g_end :: nat
  g_below :: "nat list"
  g_parses :: "CParsingChildrenSet list"

record gss =
  g_levels :: "nat list"
  g_nodes :: "gss_node list"
  g_symbols :: "gss_symbol list"

definition node_of :: "CStateNode \<Rightarrow> gss_node" where
  "node_of v = \<lparr>g_state = node_StateNo v, g_children = m_SymbolChildren v\<rparr>"

definition symbol_of :: "'i CSymbolNode \<Rightarrow> gss_symbol" where
  "symbol_of s = \<lparr>g_symbol = sn_SymbolNo s, g_start = m_InputStart s, g_end = m_InputEnd s,
     g_below = m_NodeChildren s, g_parses = m_ParseChildren s\<rparr>"

definition gss_of :: "('i, 'f) CGLRParser \<Rightarrow> gss" where
  "gss_of P = \<lparr>g_levels = m_InputLevels P, g_nodes = map node_of (m_StateNodes P),
     g_symbols = map symbol_of (m_SymbolNodes P)\<rparr>"

abbreviation gnodes :: "gss \<Rightarrow> nat" where "gnodes g \<equiv> length (g_nodes g)"
abbreviation gsyms :: "gss \<Rightarrow> nat" where "gsyms g \<equiv> length (g_symbols g)"
abbreviation gstate :: "gss \<Rightarrow> nat \<Rightarrow> nat" where "gstate g v \<equiv> g_state (g_nodes g ! v)"
abbreviation gchildren :: "gss \<Rightarrow> nat \<Rightarrow> nat list" where "gchildren g v \<equiv> g_children (g_nodes g ! v)"
abbreviation gsym :: "gss \<Rightarrow> nat \<Rightarrow> symbol" where "gsym g s \<equiv> g_symbol (g_symbols g ! s)"
abbreviation gstart :: "gss \<Rightarrow> nat \<Rightarrow> nat" where "gstart g s \<equiv> g_start (g_symbols g ! s)"
abbreviation gend :: "gss \<Rightarrow> nat \<Rightarrow> nat" where "gend g s \<equiv> g_end (g_symbols g ! s)"
abbreviation gbelow :: "gss \<Rightarrow> nat \<Rightarrow> nat list" where "gbelow g s \<equiv> g_below (g_symbols g ! s)"

text \<open>The position of a state node: how many levels are closed below it.\<close>

definition gpos :: "gss \<Rightarrow> nat \<Rightarrow> nat" where
  "gpos g v = length (filter (\<lambda>b. b \<le> v) (butlast (g_levels g)))"

definition parsed_ok :: "('b CWorkGrammar_scheme) \<Rightarrow> 'a CGLRTable \<Rightarrow> gss \<Rightarrow> nat \<Rightarrow> CParsingChildrenSet \<Rightarrow> bool" where
  "parsed_ok G t g s c \<longleftrightarrow>
     m_ReduceRule c < length (m_RuleInfos t) \<and> (\<forall>x \<in> set (pc_Items c). x < gsyms g) \<and>
     (\<exists>r \<in> set (m_EncodedRules G). info_LeftPart (m_RuleInfos t ! m_ReduceRule c) = m_LeftPart r \<and>
        gsym g s = m_LeftPart r \<and> map (gsym g) (pc_Items c) = rhs r) \<and>
     chain (gstart g) (gend g) (gstart g s) (pc_Items c) (gend g s)"

definition levels_inv :: "symbol set list \<Rightarrow> gss \<Rightarrow> bool" where
  "levels_inv inputs g \<longleftrightarrow>
     length (g_levels g) = length inputs + 1 \<and> sorted (g_levels g) \<and>
     (\<forall>b \<in> set (g_levels g). 0 < b \<and> b \<le> gnodes g)"

definition node_inv :: "nat \<Rightarrow> 'a CGLRTable \<Rightarrow> gss \<Rightarrow> nat \<Rightarrow> bool" where
  "node_inv N t g v \<longleftrightarrow>
     gstate g v < N \<and>
     (\<forall>s \<in> set (gchildren g v). s < gsyms g \<and> gend g s = gpos g v \<and>
        (\<forall>w \<in> set (gbelow g s). cell_goto t (gstate g w) (gsym g s) = Some (gstate g v)) \<and>
        (\<forall>v' < gnodes g. s \<in> set (gchildren g v') \<longrightarrow> v' = v))"

definition sym_inv :: "('b CWorkGrammar_scheme) \<Rightarrow> 'a CGLRTable \<Rightarrow> symbol set list \<Rightarrow> gss \<Rightarrow> nat \<Rightarrow> bool" where
  "sym_inv G t inputs g s \<longleftrightarrow>
     grammar_symbol G (gsym g s) \<and> gstart g s < gend g s \<and>
     (\<forall>w \<in> set (gbelow g s). w < gnodes g \<and> (w \<noteq> 0 \<longrightarrow> gpos g w = gstart g s)) \<and>
     spans G inputs (gsym g s) (gstart g s) (gend g s) \<and>
     (\<forall>c \<in> set (g_parses (g_symbols g ! s)). parsed_ok G t g s c)"

definition gss_inv :: "('b CWorkGrammar_scheme) \<Rightarrow> nat \<Rightarrow> 'a CGLRTable \<Rightarrow> symbol set list \<Rightarrow> gss \<Rightarrow> bool" where
  "gss_inv G N t inputs g \<longleftrightarrow>
     levels_inv inputs g \<and> gstate g 0 = 0 \<and> gchildren g 0 = [] \<and>
     (\<forall>v < gnodes g. node_inv N t g v) \<and> (\<forall>s < gsyms g. sym_inv G t inputs g s)"

lemmas gss_inv_defs = gss_inv_def levels_inv_def node_inv_def sym_inv_def

lemma spans_le: "spans G inputs X i j \<Longrightarrow> j \<le> length inputs"
  by (auto simp: spans_def matches_def)

lemma gpos_le: "gpos g v \<le> length (g_levels g) - 1"
  unfolding gpos_def by (metis length_butlast length_filter_le)

lemma gpos_mono: "v \<le> w \<Longrightarrow> gpos g v \<le> gpos g w"
proof -
  assume "v \<le> w"
  then have "length (filter (\<lambda>b. b \<le> v) bs) \<le> length (filter (\<lambda>b. b \<le> w) bs)" for bs
    by (induction bs) auto
  then show ?thesis by (simp add: gpos_def)
qed

lemma gss_inv_nodes: "gss_inv G N t inputs g \<Longrightarrow> 0 < gnodes g"
  by (cases "g_levels g") (auto simp: gss_inv_defs)

text \<open>A node at or above the last level stands at the current position, one below it does not.\<close>

lemma gpos_current:
  assumes "levels_inv inputs g" "last (g_levels g) \<le> v \<or> length (g_levels g) = 1"
  shows "gpos g v = length inputs"
proof -
  have "\<forall>b \<in> set (butlast (g_levels g)). b \<le> v"
  proof (cases "g_levels g" rule: rev_cases)
    case (snoc bs b)
    then show ?thesis using assms by (auto simp: levels_inv_def sorted_append)
  qed simp
  then have "filter (\<lambda>b. b \<le> v) (butlast (g_levels g)) = butlast (g_levels g)" by (simp add: filter_id_conv)
  then show ?thesis using assms(1) by (simp add: gpos_def levels_inv_def)
qed

lemma gpos_not_current:
  assumes "levels_inv inputs g" "gpos g v < length inputs"
  shows "v < last (g_levels g)" and "length (g_levels g) \<noteq> 1"
proof -
  show "length (g_levels g) \<noteq> 1" using assms by (auto simp: levels_inv_def)
  show "v < last (g_levels g)"
    using gpos_current [OF assms(1), of v] assms(2) by force
qed

section \<open>Paths in the stack\<close>

fun gpath :: "gss \<Rightarrow> nat \<Rightarrow> (nat \<times> nat) list \<Rightarrow> nat \<Rightarrow> bool" where
  "gpath g v [] w \<longleftrightarrow> v = w"
| "gpath g v ((s, u) # es) w \<longleftrightarrow> s \<in> set (gchildren g v) \<and> u \<in> set (gbelow g s) \<and> gpath g u es w"

definition flat_path :: "nat \<Rightarrow> (nat \<times> nat) list \<Rightarrow> nat list" where
  "flat_path v es = v # concat (map (\<lambda>(s, u). [s, u]) es)"

lemma edge_facts:
  assumes inv: "gss_inv G N t inputs g" and "v < gnodes g" "s \<in> set (gchildren g v)" "u \<in> set (gbelow g s)"
  shows "s < gsyms g" "u < gnodes g" "v \<noteq> 0" "gend g s = gpos g v" "u \<noteq> 0 \<Longrightarrow> gpos g u = gstart g s"
    and "cell_goto t (gstate g u) (gsym g s) = Some (gstate g v)" "gstart g s < gend g s"
    and "gsym g s < length (m_UniqueGrammarItems G)" "u < v" "u < last (g_levels g)" "length (g_levels g) \<noteq> 1"
proof -
  have v: "node_inv N t g v" using inv assms(2) by (simp add: gss_inv_def)
  show s: "s < gsyms g" and e: "gend g s = gpos g v"
    and "cell_goto t (gstate g u) (gsym g s) = Some (gstate g v)"
    using v assms(3,4) by (auto simp: node_inv_def)
  have i: "sym_inv G t inputs g s" using inv s by (simp add: gss_inv_def)
  then show "u < gnodes g" and pos: "u \<noteq> 0 \<Longrightarrow> gpos g u = gstart g s" and less: "gstart g s < gend g s"
    and "gsym g s < length (m_UniqueGrammarItems G)"
    using assms(4) by (auto simp: sym_inv_def grammar_symbol_def)
  show v0: "v \<noteq> 0" using inv assms(3) by (cases "v = 0") (auto simp: gss_inv_def)
  have lev: "levels_inv inputs g" using inv by (simp add: gss_inv_def)
  have "gend g s \<le> length inputs" using i spans_le by (auto simp: sym_inv_def)
  then have lt: "u \<noteq> 0 \<Longrightarrow> gpos g u < length inputs" and "0 < length inputs" using pos less by auto
  then show "length (g_levels g) \<noteq> 1" using lev by (auto simp: levels_inv_def)
  have "0 < last (g_levels g)" using lev by (cases "g_levels g" rule: rev_cases) (auto simp: levels_inv_def)
  then show "u < last (g_levels g)" using gpos_not_current(1) [OF lev] lt by (cases "u = 0") auto
  show "u < v"
  proof (cases "u = 0")
    case False
    then have "gpos g u < gpos g v" using pos less e by simp
    then show ?thesis using gpos_mono [of v u g] by (meson not_le)
  qed (use v0 in simp)
qed

lemma gpath_end:
  assumes inv: "gss_inv G N t inputs g" and path: "gpath g v es w" "v < gnodes g" "es \<noteq> []"
  shows "w < gnodes g" "w < v" "w < last (g_levels g)"
  using path
proof (induction es arbitrary: v)
  case (Cons e es)
  obtain s u where e: "e = (s, u)" by (cases e)
  case 1
  then show ?case using Cons.IH(1) [of u] edge_facts [OF inv, of v s u] by (cases "es = []") (auto simp: e)
  case 2
  then show ?case using Cons.IH(2) [of u] edge_facts [OF inv, of v s u] by (cases "es = []") (auto simp: e)
  case 3
  then show ?case using Cons.IH(3) [of u] edge_facts [OF inv, of v s u] by (cases "es = []") (auto simp: e)
qed simp_all

text \<open>Walking down a path takes an item back over the symbols of the path.\<close>

lemma gpath_items:
  assumes inv: "gss_inv G N t inputs g" and table: "lr_table G I N t" and path: "gpath g v es w" "v < gnodes g" "it \<in> I (gstate g v)" "m_DotSymbolNo it = d + length es"
  shows "\<exists>it' \<in> I (gstate g w). m_pRule it' = m_pRule it \<and> m_DotSymbolNo it' = d \<and>
     map (gsym g) (rev (map fst es)) = take (length es) (drop d (rhs (m_pRule it)))"
  using path
proof (induction es arbitrary: v it)
  case (Cons e es)
  obtain s u where e: "e = (s, u)" by (cases e)
  have p: "s \<in> set (gchildren g v)" "u \<in> set (gbelow g s)" "gpath g u es w" using Cons.prems(1) by (auto simp: e)
  note edge = edge_facts [OF inv Cons.prems(2) p(1,2)]
  have u: "gstate g u < N" using inv edge(2) by (simp add: gss_inv_def node_inv_def)
  obtain it1 where it1: "it1 \<in> I (gstate g u)" "m_pRule it1 = m_pRule it"
    "m_DotSymbolNo it = Suc (m_DotSymbolNo it1)" "GetSymbolNo it1 = gsym g s"
    using lr_tableD(3) [OF table u edge(8,6)] Cons.prems(3,4) by auto
  obtain it' where it': "it' \<in> I (gstate g w)" "m_pRule it' = m_pRule it" "m_DotSymbolNo it' = d"
    "map (gsym g) (rev (map fst es)) = take (length es) (drop d (rhs (m_pRule it)))"
    using Cons.IH [OF p(3) edge(2) it1(1)] it1(2,3) Cons.prems(4) by auto
  have v: "gstate g v < N" using inv Cons.prems(2) by (simp add: gss_inv_def node_inv_def)
  then have "m_DotSymbolNo it \<le> length (rhs (m_pRule it))"
    using lr_tableD(2) [OF table] Cons.prems(3) by (auto simp: grammar_lr_items_def)
  then have "d + length es < length (rhs (m_pRule it))" using Cons.prems(4) by simp
  moreover have "rhs (m_pRule it) ! (d + length es) = gsym g s"
    using it1(2-4) Cons.prems(4) by (simp add: GetSymbolNo_def)
  ultimately have "take (Suc (length es)) (drop d (rhs (m_pRule it))) =
      take (length es) (drop d (rhs (m_pRule it))) @ [gsym g s]"
    by (simp add: take_Suc_conv_app_nth)
  then show ?case using it' by (intro bexI [of _ it']) (simp_all add: e)
qed (auto intro!: bexI)

text \<open>The symbols of a path, from the bottom up, cover the input without gaps.\<close>

lemma gpath_chain:
  assumes inv: "gss_inv G N t inputs g" and path: "gpath g v es w" "v < gnodes g" "es \<noteq> []"
  shows "chain (gstart g) (gend g) (gstart g (fst (last es))) (rev (map fst es)) (gpos g v)"
    and "w \<noteq> 0 \<longrightarrow> gpos g w = gstart g (fst (last es))"
    and "\<forall>x \<in> set (map fst es). x < gsyms g"
  using path
proof (induction es arbitrary: v)
  case (Cons e es)
  obtain s u where e: "e = (s, u)" by (cases e)
  {
    case 1
    then have p: "s \<in> set (gchildren g v)" "u \<in> set (gbelow g s)" "gpath g u es w" by (auto simp: e)
    note edge = edge_facts [OF inv 1(2) p(1,2)]
    show ?case
    proof (cases "es = []")
      case False
      then have "u \<noteq> 0" using p(3) inv by (cases "u = 0"; cases es) (auto simp: gss_inv_def)
      then have "gpos g u = gstart g s" using edge(5) by simp
      then show ?thesis using Cons.IH(1) [OF p(3) edge(2) False] False edge(4) by (auto simp: e chain_append)
    qed (use edge in \<open>simp add: e\<close>)
  next
    case 2
    then have p: "s \<in> set (gchildren g v)" "u \<in> set (gbelow g s)" "gpath g u es w" by (auto simp: e)
    note edge = edge_facts [OF inv 2(2) p(1,2)]
    show ?case using Cons.IH(2) [OF p(3) edge(2)] p(3) edge(5) by (cases "es = []") (auto simp: e)
  next
    case 3
    then have p: "s \<in> set (gchildren g v)" "u \<in> set (gbelow g s)" "gpath g u es w" by (auto simp: e)
    note edge = edge_facts [OF inv 3(2) p(1,2)]
    show ?case using Cons.IH(3) [OF p(3) edge(2)] edge(1) by (cases "es = []") (auto simp: e)
  }
qed simp_all

section \<open>Steps of the graph\<close>

definition gss_add_node :: "nat \<Rightarrow> gss \<Rightarrow> gss" where
  "gss_add_node n g = g\<lparr>g_nodes := g_nodes g @ [\<lparr>g_state = n, g_children = []\<rparr>]\<rparr>"

definition gss_add_symbol :: "nat \<Rightarrow> gss_symbol \<Rightarrow> gss \<Rightarrow> gss" where
  "gss_add_symbol v x g = g\<lparr>g_symbols := g_symbols g @ [x],
     g_nodes := (g_nodes g)[v := (g_nodes g ! v)\<lparr>g_children := gchildren g v @ [gsyms g]\<rparr>]\<rparr>"

definition gss_add_parse :: "nat \<Rightarrow> CParsingChildrenSet \<Rightarrow> gss \<Rightarrow> gss" where
  "gss_add_parse s c g = g\<lparr>g_symbols :=
     (g_symbols g)[s := (g_symbols g ! s)\<lparr>g_parses := g_parses (g_symbols g ! s) @ [c]\<rparr>]\<rparr>"

definition gss_add_below :: "nat \<Rightarrow> nat \<Rightarrow> gss \<Rightarrow> gss" where
  "gss_add_below s w g = g\<lparr>g_symbols :=
     (g_symbols g)[s := (g_symbols g ! s)\<lparr>g_below := gbelow g s @ [w]\<rparr>]\<rparr>"

definition gss_clear :: "nat \<Rightarrow> gss \<Rightarrow> gss" where
  "gss_clear v g = g\<lparr>g_nodes := (g_nodes g)[v := (g_nodes g ! v)\<lparr>g_children := []\<rparr>]\<rparr>"

definition gss_set_last :: "gss \<Rightarrow> gss" where
  "gss_set_last g = g\<lparr>g_levels := butlast (g_levels g) @ [gnodes g]\<rparr>"

definition gss_push :: "gss \<Rightarrow> gss" where
  "gss_push g = g\<lparr>g_levels := g_levels g @ [gnodes g]\<rparr>"

text \<open>What every step keeps of the nodes that exist.\<close>

definition gss_ext :: "gss \<Rightarrow> gss \<Rightarrow> bool" where
  "gss_ext g g' \<longleftrightarrow>
     gnodes g \<le> gnodes g' \<and> gsyms g \<le> gsyms g' \<and>
     (\<forall>v < gnodes g. gstate g' v = gstate g v \<and> gpos g' v = gpos g v) \<and>
     (\<forall>s < gsyms g. gsym g' s = gsym g s \<and> gstart g' s = gstart g s \<and> gend g' s = gend g s)"

lemma gss_ext_refl [simp]: "gss_ext g g"
  by (simp add: gss_ext_def)

lemma gss_ext_trans: "gss_ext g g' \<Longrightarrow> gss_ext g' g'' \<Longrightarrow> gss_ext g g''"
  by (auto simp: gss_ext_def)

lemma parsed_ok_ext:
  assumes "parsed_ok G t g s c" "gss_ext g g'" "s < gsyms g"
  shows "parsed_ok G t g' s c"
proof -
  have e: "gsyms g \<le> gsyms g'" "\<And>x. x < gsyms g \<Longrightarrow> gsym g' x = gsym g x \<and> gstart g' x = gstart g x \<and> gend g' x = gend g x"
    using assms(2) by (auto simp: gss_ext_def)
  have items: "\<forall>x \<in> set (pc_Items c). x < gsyms g" using assms(1) by (simp add: parsed_ok_def)
  then have m: "map (gsym g') (pc_Items c) = map (gsym g) (pc_Items c)" using e(2) by simp
  have "chain (gstart g') (gend g') (gstart g' s) (pc_Items c) (gend g' s)"
    using assms(1,3) e(2) items chain_cong [of "pc_Items c" "gstart g'" "gstart g" "gend g'" "gend g"]
    by (simp add: parsed_ok_def)
  moreover have "\<forall>x \<in> set (pc_Items c). x < gsyms g'" using items e(1) by auto
  moreover have l: "gsym g' s = gsym g s" using e(2) assms(3) by simp
  ultimately show ?thesis using assms(1) unfolding parsed_ok_def m l by blast
qed

lemma sym_inv_ext:
  assumes "sym_inv G t inputs g s" "gss_ext g g'" "s < gsyms g"
    and below: "\<forall>w \<in> set (gbelow g' s). w \<in> set (gbelow g s) \<or> w < gnodes g' \<and> (w \<noteq> 0 \<longrightarrow> gpos g' w = gstart g s)"
    and parses: "\<forall>c \<in> set (g_parses (g_symbols g' ! s)). c \<in> set (g_parses (g_symbols g ! s)) \<or> parsed_ok G t g' s c"
  shows "sym_inv G t (inputs @ ins) g' s"
proof -
  have e: "gsym g' s = gsym g s" "gstart g' s = gstart g s" "gend g' s = gend g s"
    "\<And>w. w < gnodes g \<Longrightarrow> w < gnodes g' \<and> gpos g' w = gpos g w"
    using assms(2,3) by (auto simp: gss_ext_def)
  have "\<forall>c \<in> set (g_parses (g_symbols g' ! s)). parsed_ok G t g' s c"
    using parses assms(1) parsed_ok_ext [of G t g s _ g', OF _ assms(2,3)] by (auto simp: sym_inv_def)
  moreover have "spans G (inputs @ ins) (gsym g' s) (gstart g' s) (gend g' s)"
    using assms(1) e spans_more [of G inputs] by (simp add: sym_inv_def)
  moreover have "w < gnodes g' \<and> (w \<noteq> 0 \<longrightarrow> gpos g' w = gstart g' s)" if w: "w \<in> set (gbelow g' s)" for w
    using below w assms(1) e by (auto simp: sym_inv_def)
  ultimately show ?thesis using assms(1) e by (simp add: sym_inv_def)
qed

lemma gpos_levels: "g_levels g' = g_levels g \<Longrightarrow> gpos g' = gpos g"
  by (simp add: gpos_def fun_eq_iff)

lemma gss_add_node_inv:
  assumes inv: "gss_inv G N t inputs g" and n: "n < N"
  shows "gss_inv G N t inputs (gss_add_node n g)" "gss_ext g (gss_add_node n g)"
proof -
  let ?g = "gss_add_node n g"
  have pos: "gpos ?g = gpos g" by (rule gpos_levels) (simp add: gss_add_node_def)
  show ext: "gss_ext g ?g" unfolding gss_ext_def pos by (simp add: gss_add_node_def nth_append)
  have nth: "g_nodes ?g ! v = (if v < gnodes g then g_nodes g ! v else \<lparr>g_state = n, g_children = []\<rparr>)" if "v < gnodes ?g" for v
    using that by (auto simp: gss_add_node_def nth_append less_Suc_eq)
  have syms: "g_symbols ?g = g_symbols g" by (simp add: gss_add_node_def)
  have "node_inv N t ?g v" if "v < gnodes ?g" for v
  proof (cases "v < gnodes g")
    case True
    then have v: "node_inv N t g v" using inv by (simp add: gss_inv_def)
    have "w < gnodes g" if "s \<in> set (gchildren g v)" "w \<in> set (gbelow g s)" for s w
      using edge_facts(2) [OF inv True that] .
    then show ?thesis using v that True nth unfolding node_inv_def pos syms
      by (auto simp: gss_add_node_def nth_append split: if_splits)
  next
    case False
    then show ?thesis using that n nth by (simp add: node_inv_def)
  qed
  moreover have "sym_inv G t inputs ?g s" if "s < gsyms ?g" for s
    using sym_inv_ext [OF _ ext, of G t inputs s "[]"] inv that by (simp add: syms gss_inv_def)
  moreover have "levels_inv inputs ?g" using inv by (auto simp: gss_inv_def levels_inv_def gss_add_node_def)
  ultimately show "gss_inv G N t inputs ?g"
    using inv gss_inv_nodes [OF inv] nth [of 0] by (simp add: gss_inv_def gss_add_node_def nth_append)
qed

lemma gss_add_symbol_inv:
  assumes inv: "gss_inv G N t inputs g" and v: "v < gnodes g" "v \<noteq> 0"
    and x: "g_parses x = []" "grammar_symbol G (g_symbol x)" "g_start x < g_end x" "g_end x = gpos g v"
      "\<forall>w \<in> set (g_below x). w < gnodes g \<and> (w \<noteq> 0 \<longrightarrow> gpos g w = g_start x) \<and>
         cell_goto t (gstate g w) (g_symbol x) = Some (gstate g v)"
      "spans G inputs (g_symbol x) (g_start x) (g_end x)"
  shows "gss_inv G N t inputs (gss_add_symbol v x g)" "gss_ext g (gss_add_symbol v x g)"
proof -
  let ?g = "gss_add_symbol v x g"
  have pos: "gpos ?g = gpos g" by (rule gpos_levels) (simp add: gss_add_symbol_def)
  have nodes: "gnodes ?g = gnodes g" "gsyms ?g = Suc (gsyms g)" by (simp_all add: gss_add_symbol_def)
  have state: "gstate ?g u = gstate g u" if "u < gnodes g" for u
    using that by (simp add: gss_add_symbol_def nth_update)
  have sym: "g_symbols ?g ! s = (if s = gsyms g then x else g_symbols g ! s)" if "s \<le> gsyms g" for s
    using that by (auto simp: gss_add_symbol_def nth_append)
  have children: "gchildren ?g u = (if u = v then gchildren g v @ [gsyms g] else gchildren g u)" if "u < gnodes g" for u
    using that v by (simp add: gss_add_symbol_def nth_update)
  show ext: "gss_ext g ?g" unfolding gss_ext_def pos nodes using state sym by auto
  have "node_inv N t ?g u" if u: "u < gnodes ?g" for u
  proof -
    have u': "u < gnodes g" using u nodes by simp
    have old: "node_inv N t g u" using inv u' by (simp add: gss_inv_def)
    have less: "s < gsyms g" if "v' < gnodes g" "s \<in> set (gchildren g v')" for s v'
      using inv that by (auto simp: gss_inv_def node_inv_def)
    have "s < gsyms ?g \<and> gend ?g s = gpos ?g u \<and>
        (\<forall>w \<in> set (gbelow ?g s). cell_goto t (gstate ?g w) (gsym ?g s) = Some (gstate ?g u)) \<and>
        (\<forall>v' < gnodes ?g. s \<in> set (gchildren ?g v') \<longrightarrow> v' = u)"
      if s: "s \<in> set (gchildren ?g u)" for s
    proof (cases "s = gsyms g")
      case True
      have "u = v" using s children [OF u'] less [OF u'] True by (auto split: if_splits)
      moreover have "v' = v" if "v' < gnodes g" "s \<in> set (gchildren ?g v')" for v'
        using that children [of v'] less [of v'] True by (auto split: if_splits)
      moreover have xs: "g_symbols ?g ! s = x" using sym [of s] True by simp
      moreover have "cell_goto t (gstate ?g w) (g_symbol x) = Some (gstate ?g v)" if "w \<in> set (g_below x)" for w
        using that x(5) state [of w] state [OF v(1)] by simp
      ultimately show ?thesis using True x(4) unfolding xs pos nodes by simp
    next
      case False
      then have s': "s \<in> set (gchildren g u)" using s children [OF u'] by (auto split: if_splits)
      have "w < gnodes g" if "w \<in> set (gbelow g s)" for w using edge_facts(2) [OF inv u' s' that] .
      moreover have "v' = u" if "v' < gnodes g" "s \<in> set (gchildren ?g v')" for v'
        using old s' that children [of v'] False unfolding node_inv_def by (auto split: if_splits)
      moreover have xs: "g_symbols ?g ! s = g_symbols g ! s" using sym [of s] less [OF u' s'] by simp
      ultimately show ?thesis
        using old s' less [OF u' s', THEN less_SucI] state u' unfolding node_inv_def xs pos nodes by simp
    qed
    then show ?thesis using old state [OF u'] by (simp add: node_inv_def)
  qed
  moreover have "sym_inv G t inputs ?g s" if "s < gsyms ?g" for s
  proof (cases "s = gsyms g")
    case True
    then show ?thesis using x sym [of s] nodes by (simp add: sym_inv_def pos)
  next
    case False
    then show ?thesis
      using sym_inv_ext [OF _ ext, of G t inputs s "[]"] inv that sym [of s] nodes by (simp add: gss_inv_def)
  qed
  moreover have "levels_inv inputs ?g" using inv by (auto simp: gss_inv_def levels_inv_def gss_add_symbol_def)
  ultimately show "gss_inv G N t inputs ?g"
    using inv gss_inv_nodes [OF inv] state [of 0] children [of 0] v(2) by (simp add: gss_inv_def)
qed

text \<open>Steps that change only the symbol node \<open>s\<close>, not its ends.\<close>

lemma gss_update_symbol_inv:
  assumes inv: "gss_inv G N t inputs g" and s: "s < gsyms g"
    and g': "g' = g\<lparr>g_symbols := (g_symbols g)[s := x]\<rparr>"
    and x: "g_symbol x = gsym g s" "g_start x = gstart g s" "g_end x = gend g s"
    and below: "\<forall>w \<in> set (g_below x). w \<in> set (gbelow g s) \<or> w < gnodes g \<and> (w \<noteq> 0 \<longrightarrow> gpos g w = gstart g s) \<and>
       (\<forall>v < gnodes g. s \<in> set (gchildren g v) \<longrightarrow> cell_goto t (gstate g w) (gsym g s) = Some (gstate g v))"
    and parses: "\<forall>c \<in> set (g_parses x). c \<in> set (g_parses (g_symbols g ! s)) \<or> parsed_ok G t g s c"
  shows "gss_inv G N t inputs g'" "gss_ext g g'"
proof -
  have pos: "gpos g' = gpos g" by (rule gpos_levels) (simp add: g')
  have nodes: "g_nodes g' = g_nodes g" "gsyms g' = gsyms g" by (simp_all add: g')
  have sym: "g_symbols g' ! y = (if y = s then x else g_symbols g ! y)" if "y < gsyms g" for y
    using that s by (simp add: g' nth_update)
  show ext: "gss_ext g g'" unfolding gss_ext_def pos nodes using sym x by auto
  have "node_inv N t g' u" if u: "u < gnodes g'" for u
  proof -
    have old: "node_inv N t g u" using inv u nodes by (simp add: gss_inv_def)
    have "y < gsyms g" if "y \<in> set (gchildren g u)" for y using old that by (simp add: node_inv_def)
    then show ?thesis
      using old sym below x u unfolding node_inv_def pos nodes by (auto split: if_splits)
  qed
  moreover have "sym_inv G t inputs g' y" if "y < gsyms g'" for y
  proof -
    have y: "y < gsyms g" using that nodes by simp
    then have old: "sym_inv G t inputs g y" using inv by (simp add: gss_inv_def)
    have below': "\<forall>w \<in> set (gbelow g' y). w \<in> set (gbelow g y) \<or> w < gnodes g' \<and> (w \<noteq> 0 \<longrightarrow> gpos g' w = gstart g y)"
      using below sym [OF y] unfolding pos nodes by auto
    have parses': "\<forall>c \<in> set (g_parses (g_symbols g' ! y)). c \<in> set (g_parses (g_symbols g ! y)) \<or> parsed_ok G t g' y c"
      using parses sym [OF y] parsed_ok_ext [of G t g s _ g', OF _ ext s] by auto
    show ?thesis using sym_inv_ext [OF old ext y below' parses', of "[]"] by simp
  qed
  moreover have "levels_inv inputs g'" using inv by (auto simp: gss_inv_def levels_inv_def g')
  ultimately show "gss_inv G N t inputs g'" using inv nodes by (simp add: gss_inv_def)
qed

lemma gss_add_parse_inv:
  assumes "gss_inv G N t inputs g" "s < gsyms g" "parsed_ok G t g s c"
  shows "gss_inv G N t inputs (gss_add_parse s c g)" "gss_ext g (gss_add_parse s c g)"
  using gss_update_symbol_inv [OF assms(1,2) refl, of "(g_symbols g ! s)\<lparr>g_parses := g_parses (g_symbols g ! s) @ [c]\<rparr>"]
    assms(3) by (simp_all add: gss_add_parse_def)

lemma gss_add_below_inv:
  assumes "gss_inv G N t inputs g" "s < gsyms g" "w < gnodes g" "w \<noteq> 0 \<longrightarrow> gpos g w = gstart g s"
    and "\<forall>v < gnodes g. s \<in> set (gchildren g v) \<longrightarrow> cell_goto t (gstate g w) (gsym g s) = Some (gstate g v)"
  shows "gss_inv G N t inputs (gss_add_below s w g)" "gss_ext g (gss_add_below s w g)"
  using gss_update_symbol_inv [OF assms(1,2) refl, of "(g_symbols g ! s)\<lparr>g_below := gbelow g s @ [w]\<rparr>"]
    assms(3-5) by (simp_all add: gss_add_below_def)

lemma gss_clear_inv:
  assumes inv: "gss_inv G N t inputs g" and v: "v < gnodes g"
  shows "gss_inv G N t inputs (gss_clear v g)" "gss_ext g (gss_clear v g)"
proof -
  let ?g = "gss_clear v g"
  have pos: "gpos ?g = gpos g" by (rule gpos_levels) (simp add: gss_clear_def)
  have nodes: "gnodes ?g = gnodes g" "g_symbols ?g = g_symbols g" "g_levels ?g = g_levels g"
    by (simp_all add: gss_clear_def)
  have state: "gstate ?g u = gstate g u" and children: "gchildren ?g u = (if u = v then [] else gchildren g u)"
    if "u < gnodes g" for u
    using that by (simp_all add: gss_clear_def nth_update)
  show ext: "gss_ext g ?g" unfolding gss_ext_def pos nodes using state by simp
  have "node_inv N t ?g u" if u: "u < gnodes ?g" for u
  proof -
    have u': "u < gnodes g" using u nodes by simp
    have "w < gnodes g" if "s \<in> set (gchildren g u)" "w \<in> set (gbelow g s)" for s w
      using edge_facts(2) [OF inv u' that] .
    then show ?thesis using inv u' state children unfolding gss_inv_def node_inv_def pos nodes by auto
  qed
  moreover have "sym_inv G t inputs ?g s" if "s < gsyms ?g" for s
    using sym_inv_ext [OF _ ext, of G t inputs s "[]"] inv that by (simp add: nodes gss_inv_def)
  moreover have "levels_inv inputs ?g" using inv nodes by (auto simp: gss_inv_def levels_inv_def)
  ultimately show "gss_inv G N t inputs ?g"
    using inv gss_inv_nodes [OF inv] state [of 0] children [of 0] by (auto simp: gss_inv_def)
qed

text \<open>Closing the current level and opening the next one.\<close>

lemma levels_keep:
  assumes inv: "gss_inv G N t inputs g" and nodes: "g_nodes g' = g_nodes g" "g_symbols g' = g_symbols g"
    and pos: "\<forall>v < gnodes g. gpos g' v = gpos g v" and lev: "levels_inv (inputs @ ins) g'"
  shows "gss_inv G N t (inputs @ ins) g'" "gss_ext g g'"
proof -
  show ext: "gss_ext g g'" unfolding gss_ext_def using nodes pos by simp
  have "node_inv N t g' v" if "v < gnodes g'" for v
    using inv that nodes pos by (simp add: gss_inv_def node_inv_def)
  moreover have "sym_inv G t (inputs @ ins) g' s" if "s < gsyms g'" for s
    using sym_inv_ext [OF _ ext, of G t inputs s ins] inv that nodes pos by (auto simp: gss_inv_def sym_inv_def)
  ultimately show "gss_inv G N t (inputs @ ins) g'" using inv lev nodes by (simp add: gss_inv_def)
qed

lemma levels_split: "levels_inv inputs g \<Longrightarrow> g_levels g = butlast (g_levels g) @ [last (g_levels g)]"
  by (cases "g_levels g" rule: rev_cases) (auto simp: levels_inv_def)

lemma gss_set_last_inv:
  assumes inv: "gss_inv G N t inputs g"
  shows "gss_inv G N t inputs (gss_set_last g)" "gss_ext g (gss_set_last g)"
proof -
  have lev: "levels_inv inputs g" using inv by (simp add: gss_inv_def)
  obtain bs b where bs: "g_levels g = bs @ [b]" using levels_split [OF lev] by blast
  have "levels_inv (inputs @ []) (gss_set_last g)"
    using lev gss_inv_nodes [OF inv] by (auto simp: levels_inv_def gss_set_last_def bs sorted_append)
  moreover have "\<forall>v < gnodes g. gpos (gss_set_last g) v = gpos g v" by (simp add: gpos_def gss_set_last_def)
  ultimately show "gss_inv G N t inputs (gss_set_last g)" "gss_ext g (gss_set_last g)"
    using levels_keep [OF inv, of "gss_set_last g" "[]"] by (simp_all add: gss_set_last_def)
qed

lemma gss_push_inv:
  assumes inv: "gss_inv G N t inputs g" and last: "last (g_levels g) = gnodes g"
  shows "gss_inv G N t (inputs @ [X]) (gss_push g)" "gss_ext g (gss_push g)"
proof -
  have lev: "levels_inv inputs g" using inv by (simp add: gss_inv_def)
  obtain bs b where bs: "g_levels g = bs @ [b]" using levels_split [OF lev] by blast
  have "levels_inv (inputs @ [X]) (gss_push g)"
    using lev gss_inv_nodes [OF inv] by (auto simp: levels_inv_def gss_push_def sorted_append)
  moreover have "\<forall>v < gnodes g. gpos (gss_push g) v = gpos g v"
    using last by (simp add: gpos_def gss_push_def bs butlast_append)
  ultimately show "gss_inv G N t (inputs @ [X]) (gss_push g)" "gss_ext g (gss_push g)"
    using levels_keep [OF inv, of "gss_push g" "[X]"] by (simp_all add: gss_push_def)
qed

section \<open>The operations on the graph\<close>

lemma gss_of_simps [simp]:
  "g_levels (gss_of P) = m_InputLevels P" "gnodes (gss_of P) = length (m_StateNodes P)"
  "gsyms (gss_of P) = length (m_SymbolNodes P)"
  by (simp_all add: gss_of_def)

lemma gss_of_nth [simp]:
  "v < length (m_StateNodes P) \<Longrightarrow> g_nodes (gss_of P) ! v = node_of (m_StateNodes P ! v)"
  "s < length (m_SymbolNodes P) \<Longrightarrow> g_symbols (gss_of P) ! s = symbol_of (m_SymbolNodes P ! s)"
  by (simp_all add: gss_of_def)

lemma node_of_simps [simp]:
  "g_state (node_of v) = node_StateNo v" "g_children (node_of v) = m_SymbolChildren v"
  by (simp_all add: node_of_def)

lemma symbol_of_simps [simp]:
  "g_symbol (symbol_of s) = sn_SymbolNo s" "g_start (symbol_of s) = m_InputStart s"
  "g_end (symbol_of s) = m_InputEnd s" "g_below (symbol_of s) = m_NodeChildren s"
  "g_parses (symbol_of s) = m_ParseChildren s"
  by (simp_all add: symbol_of_def)

lemma gss_of_same [simp]:
  "gss_of (P\<lparr>m_Factory := a\<rparr>) = gss_of P" "gss_of (P\<lparr>m_iCreatedGroups := b\<rparr>) = gss_of P"
  "gss_of (P\<lparr>m_bDisableWORDSStateNodes := c\<rparr>) = gss_of P" "gss_of (P\<lparr>m_BuiltGROUPs := d\<rparr>) = gss_of P"
  "gss_of (P\<lparr>m_ActiveNodes := e\<rparr>) = gss_of P" "gss_of (P\<lparr>m_PendingReductions := f\<rparr>) = gss_of P"
  "gss_of (P\<lparr>m_PendingShifts := h\<rparr>) = gss_of P" "gss_of (P\<lparr>m_MaxLastGroup := i\<rparr>) = gss_of P"
  by (simp_all add: gss_of_def)

lemma map_update_same: "f y = f (xs ! i) \<Longrightarrow> map f (xs[i := y]) = map f xs"
  by (metis list_update_id map_update)

lemma gss_of_upd_symbol_same: "(\<And>n. symbol_of (f n) = symbol_of n) \<Longrightarrow> gss_of (upd_symbol s f P) = gss_of P"
  by (simp add: gss_of_def upd_symbol_def map_update_same)

lemma gss_of_upd_state_same: "(\<And>n. node_of (f n) = node_of n) \<Longrightarrow> gss_of (upd_state v f P) = gss_of P"
  by (simp add: gss_of_def upd_state_def map_update_same)

lemma gss_of_AddInputItem: "symbol_of (AddInputItem w i n) = symbol_of n"
  by (simp add: AddInputItem_def symbol_of_def split: option.splits)

lemma gss_of_add_parse:
  "s < length (m_SymbolNodes P) \<Longrightarrow>
   gss_of (upd_symbol s (\<lambda>n. n\<lparr>m_ParseChildren := m_ParseChildren n @ [c]\<rparr>) P) = gss_add_parse s c (gss_of P)"
  by (simp add: gss_of_def upd_symbol_def gss_add_parse_def map_update symbol_of_def)

lemma gss_of_add_below:
  "s < length (m_SymbolNodes P) \<Longrightarrow>
   gss_of (upd_symbol s (\<lambda>n. n\<lparr>m_NodeChildren := m_NodeChildren n @ [w]\<rparr>) P) = gss_add_below s w (gss_of P)"
  by (simp add: gss_of_def upd_symbol_def gss_add_below_def map_update symbol_of_def)

lemma gss_of_clear:
  "v < length (m_StateNodes P) \<Longrightarrow>
   gss_of (upd_state v (\<lambda>n. n\<lparr>m_SymbolChildren := []\<rparr>) P) = gss_clear v (gss_of P)"
  by (simp add: gss_of_def upd_state_def gss_clear_def map_update node_of_def)

lemma gss_of_add_symbol:
  "v < length (m_StateNodes P) \<Longrightarrow>
   gss_of (upd_state v (\<lambda>n. n\<lparr>m_SymbolChildren := m_SymbolChildren n @ [length (m_SymbolNodes P)]\<rparr>)
     (P\<lparr>m_SymbolNodes := m_SymbolNodes P @ [SN]\<rparr>)) = gss_add_symbol v (symbol_of SN) (gss_of P)"
  by (simp add: gss_of_def upd_state_def gss_add_symbol_def map_update node_of_def)

lemma gss_of_add_reductions [simp]: "gss_of (fold (add_reductions v ss) ks P) = gss_of P"
  by (simp add: add_reductions_fold)

text \<open>What a reduction keeps: nodes of closed levels keep their children.\<close>

definition reduce_ext :: "gss \<Rightarrow> gss \<Rightarrow> bool" where
  "reduce_ext g g' \<longleftrightarrow>
     gss_ext g g' \<and> g_levels g' = g_levels g \<and> (\<forall>s < gsyms g. gbelow g' s = gbelow g s) \<and>
     (\<forall>v < gnodes g. set (gchildren g v) \<subseteq> set (gchildren g' v) \<and>
        (v < last (g_levels g) \<and> length (g_levels g) \<noteq> 1 \<longrightarrow> gchildren g' v = gchildren g v))"

lemma reduce_ext_refl [simp]: "reduce_ext g g"
  by (simp add: reduce_ext_def)

lemma reduce_ext_trans:
  assumes 1: "reduce_ext g g'" and 2: "reduce_ext g' g''"
  shows "reduce_ext g g''"
proof -
  have le: "gnodes g \<le> gnodes g'" "gsyms g \<le> gsyms g'" and lev: "g_levels g' = g_levels g"
    using 1 by (simp_all add: reduce_ext_def gss_ext_def)
  have "set (gchildren g v) \<subseteq> set (gchildren g'' v) \<and>
      (v < last (g_levels g) \<and> length (g_levels g) \<noteq> 1 \<longrightarrow> gchildren g'' v = gchildren g v)" if "v < gnodes g" for v
  proof -
    have "v < gnodes g'" using that le by simp
    then show ?thesis using 1 2 that lev unfolding reduce_ext_def by (metis subset_trans)
  qed
  moreover have "gss_ext g g''" using 1 2 gss_ext_trans by (auto simp: reduce_ext_def)
  moreover have "\<forall>s < gsyms g. gbelow g'' s = gbelow g s" using 1 2 le by (simp add: reduce_ext_def)
  ultimately show ?thesis using 1 2 by (simp add: reduce_ext_def)
qed

lemma reduce_ext_add_node: "reduce_ext g (gss_add_node n g)"
  unfolding reduce_ext_def gss_ext_def gpos_def by (simp add: gss_add_node_def nth_append)

lemma reduce_ext_add_parse: "s < gsyms g \<Longrightarrow> reduce_ext g (gss_add_parse s c g)"
  unfolding reduce_ext_def gss_ext_def gpos_def by (simp add: gss_add_parse_def nth_update)

lemma reduce_ext_add_symbol:
  assumes "v < gnodes g" "last (g_levels g) \<le> v \<or> length (g_levels g) = 1"
  shows "reduce_ext g (gss_add_symbol v x g)"
  using assms unfolding reduce_ext_def gss_ext_def gpos_def
  by (auto simp: gss_add_symbol_def nth_update nth_append)

section \<open>The invariant of a step\<close>

definition pending_ok :: "('b CWorkGrammar_scheme) \<Rightarrow> (nat \<Rightarrow> CLRItem set) \<Rightarrow> 'a CGLRTable \<Rightarrow> symbol set list \<Rightarrow> gss
     \<Rightarrow> CPendingReduction \<Rightarrow> bool" where
  "pending_ok G I t inputs g R \<longleftrightarrow>
     m_LastStateNodeNo R < gnodes g \<and> m_SymbolNodeNo R \<in> set (gchildren g (m_LastStateNodeNo R)) \<and>
     gpos g (m_LastStateNodeNo R) = length inputs \<and>
     (\<exists>r. reducible G I t (gstate g (m_LastStateNodeNo R)) (m_pReduceRule R) r)"

definition shift_ok :: "'a CGLRTable \<Rightarrow> symbol set list \<Rightarrow> nat list \<Rightarrow> gss \<Rightarrow> CPendingShift \<Rightarrow> bool" where
  "shift_ok t inputs Symbols g S \<longleftrightarrow>
     m_StateNodeNo S < gnodes g \<and> ps_SymbolNo S \<in> set Symbols \<and>
     (m_StateNodeNo S = 0 \<or> gpos g (m_StateNodeNo S) = length inputs) \<and>
     cell_goto t (gstate g (m_StateNodeNo S)) (ps_SymbolNo S) = Some (m_NextStateNo S)"

definition active_ok :: "symbol set list \<Rightarrow> gss \<Rightarrow> nat \<Rightarrow> bool" where
  "active_ok inputs g v \<longleftrightarrow> v < gnodes g \<and> (v = 0 \<or> gpos g v = length inputs)"

definition step_inv :: "('b CWorkGrammar_scheme) \<Rightarrow> (nat \<Rightarrow> CLRItem set) \<Rightarrow> nat \<Rightarrow> 'a CGLRTable \<Rightarrow> symbol set list
     \<Rightarrow> nat list \<Rightarrow> ('i, 'f) CGLRParser \<Rightarrow> bool" where
  "step_inv G I N t inputs Symbols P \<longleftrightarrow>
     gss_inv G N t inputs (gss_of P) \<and>
     (\<forall>R \<in> set (m_PendingReductions P). pending_ok G I t inputs (gss_of P) R) \<and>
     (\<forall>S \<in> set (m_PendingShifts P). shift_ok t inputs Symbols (gss_of P) S) \<and>
     (\<forall>v \<in> set (m_ActiveNodes P). active_ok inputs (gss_of P) v)"

lemma pending_ok_ext: "pending_ok G I t inputs g R \<Longrightarrow> reduce_ext g g' \<Longrightarrow> pending_ok G I t inputs g' R"
  by (auto simp: pending_ok_def reduce_ext_def gss_ext_def)

lemma shift_ok_ext: "shift_ok t inputs Symbols g S \<Longrightarrow> gss_ext g g' \<Longrightarrow> shift_ok t inputs Symbols g' S"
  by (auto simp: shift_ok_def gss_ext_def)

lemma active_ok_ext: "active_ok inputs g v \<Longrightarrow> gss_ext g g' \<Longrightarrow> active_ok inputs g' v"
  by (auto simp: active_ok_def gss_ext_def)

end
