(* ===== verification/GLRSteps.thy ===== *)
theory GLRSteps
  imports GLRInvariant
begin

text \<open>
  The operations of \<^verbatim>\<open>CGLRParser\<close> keep the invariant of a step: \<^verbatim>\<open>CreateOrReuseNode\<close>, \<^verbatim>\<open>Actor\<close>,
  \<^verbatim>\<open>ReduceOnePath\<close>; \<^verbatim>\<open>Reducer\<close> reduces exactly the paths of the length of the rule, each once, in the
  order of the search, and ends.
\<close>

section \<open>CreateOrReuseNode\<close>

text \<open>What \<^verbatim>\<open>CreateOrReuseNode\<close> promises to its callers.\<close>

definition node_ready :: "nat \<Rightarrow> ('i, 'f) CGLRParser \<Rightarrow> nat \<Rightarrow> bool" where
  "node_ready j P v \<longleftrightarrow>
     v < length (m_StateNodes P) \<and> v \<noteq> 0 \<and> node_StateNo (m_StateNodes P ! v) = j \<and>
     (last (m_InputLevels P) \<le> v \<or> length (m_InputLevels P) = 1)"

lemma CreateOrReuseNode_spec:
  assumes inv: "gss_inv G N t inputs (gss_of P)" and j: "j < N" "j \<noteq> 0"
    and eq: "CreateOrReuseNode j P = (created, v, P')"
  shows "P' = P\<lparr>m_StateNodes := m_StateNodes P'\<rparr>" "node_ready j P' v"
    and "gss_inv G N t inputs (gss_of P')" "reduce_ext (gss_of P) (gss_of P')"
    and "\<not> created \<Longrightarrow> P' = P" "created \<Longrightarrow> v = length (m_StateNodes P) \<and> m_SymbolChildren (m_StateNodes P' ! v) = []"
proof -
  have zero: "node_StateNo (m_StateNodes P ! 0) = 0"
    using inv gss_inv_nodes [OF inv] by (simp add: gss_inv_def)
  have last: "last (m_InputLevels P) \<le> length (m_StateNodes P)"
    using inv by (cases "m_InputLevels P" rule: rev_cases) (auto simp: gss_inv_def levels_inv_def)
  let ?find = "if \<not> m_bSynAnOptions P
     then List.find (\<lambda>i. node_StateNo (m_StateNodes P ! i) = j) [GetFirstNodeNoOfCurrentClosure P..<length (m_StateNodes P)]
     else None"
  have "P' = P\<lparr>m_StateNodes := m_StateNodes P'\<rparr> \<and> node_ready j P' v \<and>
      gss_inv G N t inputs (gss_of P') \<and> reduce_ext (gss_of P) (gss_of P') \<and>
      (\<not> created \<longrightarrow> P' = P) \<and>
      (created \<longrightarrow> v = length (m_StateNodes P) \<and> m_SymbolChildren (m_StateNodes P' ! v) = [])"
  proof (cases ?find)
    case None
    then have e: "created" "v = length (m_StateNodes P)" "P' = P\<lparr>m_StateNodes := m_StateNodes P @ [state_node j]\<rparr>"
      using eq zero j(2) by (auto simp: CreateOrReuseNode_def)
    have g: "gss_of P' = gss_add_node j (gss_of P)"
      by (simp add: e(3) gss_of_def gss_add_node_def node_of_def state_node_def)
    show ?thesis
      using gss_add_node_inv(1) [OF inv j(1)] reduce_ext_add_node [of "gss_of P" j] gss_inv_nodes [OF inv] last
      unfolding g by (simp add: e node_ready_def state_node_def)
  next
    case (Some u)
    then have e: "\<not> created" "v = u" "P' = P"
      using eq zero j(2) by (auto simp: CreateOrReuseNode_def)
    have u: "u < length (m_StateNodes P)" "node_StateNo (m_StateNodes P ! u) = j" "GetFirstNodeNoOfCurrentClosure P \<le> u"
      using Some by (auto simp: find_Some_iff split: if_splits)
    then have "u \<noteq> 0" using zero j(2) by metis
    then have "node_ready j P u" using u by (auto simp: node_ready_def GetFirstNodeNoOfCurrentClosure_def split: if_splits)
    then show ?thesis using inv e by simp
  qed
  then show "P' = P\<lparr>m_StateNodes := m_StateNodes P'\<rparr>" "node_ready j P' v"
    "gss_inv G N t inputs (gss_of P')" "reduce_ext (gss_of P) (gss_of P')" "\<not> created \<Longrightarrow> P' = P"
    "created \<Longrightarrow> v = length (m_StateNodes P) \<and> m_SymbolChildren (m_StateNodes P' ! v) = []" by blast+
qed

lemma node_ready_pos:
  assumes "gss_inv G N t inputs (gss_of P)" "node_ready j P v"
  shows "gpos (gss_of P) v = length inputs"
  using assms gpos_current [of inputs "gss_of P" v] by (auto simp: gss_inv_def node_ready_def)

section \<open>Steps that add nodes, pending reductions and active nodes\<close>

lemma step_inv_ext:
  assumes "step_inv G I N t inputs Symbols P" "gss_inv G N t inputs (gss_of P')" "reduce_ext (gss_of P) (gss_of P')"
    and "\<forall>R \<in> set (m_PendingReductions P'). R \<in> set (m_PendingReductions P) \<or> pending_ok G I t inputs (gss_of P') R"
    and "\<forall>S \<in> set (m_PendingShifts P'). S \<in> set (m_PendingShifts P) \<or> shift_ok t inputs Symbols (gss_of P') S"
    and "\<forall>v \<in> set (m_ActiveNodes P'). v \<in> set (m_ActiveNodes P) \<or> active_ok inputs (gss_of P') v"
  shows "step_inv G I N t inputs Symbols P'"
proof -
  have ext: "gss_ext (gss_of P) (gss_of P')" using assms(3) by (simp add: reduce_ext_def)
  show ?thesis
    using assms pending_ok_ext [OF _ assms(3), of G I t inputs] shift_ok_ext [OF _ ext, of t inputs Symbols]
      active_ok_ext [OF _ ext, of inputs]
    unfolding step_inv_def by blast
qed

section \<open>Actor\<close>

lemma Actor_step_inv:
  assumes table: "lr_table G I N t" and syms: "\<forall>X \<in> set Symbols. grammar_symbol G X"
    and inv: "step_inv G I N t inputs Symbols P" and v: "m_ActiveNodes P \<noteq> []"
  shows "step_inv G I N t inputs Symbols (Actor t Symbols P)"
    and "gss_of (Actor t Symbols P) = gss_of P" "m_ActiveNodes (Actor t Symbols P) = tl (m_ActiveNodes P)"
proof -
  let ?v = "hd (m_ActiveNodes P)"
  define Q where "Q = P\<lparr>m_ActiveNodes := tl (m_ActiveNodes P)\<rparr>"
  have g: "gss_of Q = gss_of P" "m_StateNodes Q = m_StateNodes P" by (simp_all add: Q_def)
  have act: "active_ok inputs (gss_of P) ?v" using inv v by (auto simp: step_inv_def)
  have iQ: "step_inv G I N t inputs Symbols Q"
    using inv v by (auto simp: step_inv_def g) (auto simp: Q_def dest: list.set_sel(2))
  have step: "step_inv G I N t inputs Symbols (actor_symbol t ?v X S) \<and> gss_of (actor_symbol t ?v X S) = gss_of S \<and>
      m_StateNodes (actor_symbol t ?v X S) = m_StateNodes S \<and> m_ActiveNodes (actor_symbol t ?v X S) = m_ActiveNodes S"
    if X: "X \<in> set Symbols" and S: "step_inv G I N t inputs Symbols S" "gss_of S = gss_of P" "m_StateNodes S = m_StateNodes P"
    for X S
  proof -
    let ?q = "node_StateNo (m_StateNodes S ! ?v)"
    define S1 where "S1 = (case cell_goto t ?q X of None \<Rightarrow> S
      | Some j \<Rightarrow> S\<lparr>m_PendingShifts := oset_insert pending_shift_less
          \<lparr>ps_SymbolNo = X, m_StateNodeNo = ?v, m_NextStateNo = j\<rparr> (m_PendingShifts S)\<rparr>)"
    have S1: "gss_of S1 = gss_of S" "m_StateNodes S1 = m_StateNodes S" "m_ActiveNodes S1 = m_ActiveNodes S"
      "m_PendingReductions S1 = m_PendingReductions S" by (auto simp: S1_def split: option.split)
    have e: "actor_symbol t ?v X S = fold (add_reductions ?v (m_SymbolChildren (m_StateNodes S ! ?v))) (cell_rules t ?q X) S1"
      by (simp add: actor_symbol_cell S1_def)
    have f: "gss_of (actor_symbol t ?v X S) = gss_of S" "m_StateNodes (actor_symbol t ?v X S) = m_StateNodes S"
      "m_ActiveNodes (actor_symbol t ?v X S) = m_ActiveNodes S"
      "m_PendingShifts (actor_symbol t ?v X S) = m_PendingShifts S1"
      unfolding e by (simp_all add: S1) (simp_all add: add_reductions_fold S1)
    have v': "?v < length (m_StateNodes S)" using act S(3) by (simp add: active_ok_def)
    have gi: "gss_inv G N t inputs (gss_of S)" using S(1) by (simp add: step_inv_def)
    have q: "gstate (gss_of S) ?v = ?q" "gchildren (gss_of S) ?v = m_SymbolChildren (m_StateNodes S ! ?v)"
      using v' by simp_all
    have N: "?q < N" using gi v' by (simp add: gss_inv_def node_inv_def)
    have Xn: "X < length (m_UniqueGrammarItems G)" using syms X by (auto simp: grammar_symbol_def)
    have shifts: "\<forall>s \<in> set (m_PendingShifts S1). s \<in> set (m_PendingShifts S) \<or> shift_ok t inputs Symbols (gss_of S) s"
    proof (cases "cell_goto t ?q X")
      case (Some j)
      have "shift_ok t inputs Symbols (gss_of S) \<lparr>ps_SymbolNo = X, m_StateNodeNo = ?v, m_NextStateNo = j\<rparr>"
        using act Some X v' by (simp add: shift_ok_def active_ok_def S(2) [symmetric])
      then show ?thesis
        using set_oset_insert_subset [of pending_shift_less "\<lparr>ps_SymbolNo = X, m_StateNodeNo = ?v, m_NextStateNo = j\<rparr>" "m_PendingShifts S"]
        by (auto simp: S1_def Some)
    qed (simp add: S1_def)
    have pend: "\<forall>R \<in> set (m_PendingReductions (actor_symbol t ?v X S)). R \<in> set (m_PendingReductions S) \<or> pending_ok G I t inputs (gss_of S) R"
    proof
      fix R assume "R \<in> set (m_PendingReductions (actor_symbol t ?v X S))"
      then consider "R \<in> set (m_PendingReductions S)"
        | s k where "R = \<lparr>m_SymbolNodeNo = s, m_LastStateNodeNo = ?v, m_pReduceRule = k\<rparr>"
            "s \<in> set (m_SymbolChildren (m_StateNodes S ! ?v))" "k \<in> set (cell_rules t ?q X)"
        using add_reductions_pending [of ?v "m_SymbolChildren (m_StateNodes S ! ?v)" "cell_rules t ?q X" S1]
        unfolding e S1(4) by blast
      then show "R \<in> set (m_PendingReductions S) \<or> pending_ok G I t inputs (gss_of S) R"
      proof cases
        case 2
        have "?v \<noteq> 0" using gi 2(2) q(2) by (metis empty_iff empty_set gss_inv_def)
        then show ?thesis
          using 2 lr_table_reducible [OF table N Xn 2(3)] act v' q
          by (simp add: pending_ok_def active_ok_def S(2) [symmetric])
      qed simp
    qed
    have "step_inv G I N t inputs Symbols (actor_symbol t ?v X S)"
      by (rule step_inv_ext [OF S(1)]) (use gi shifts pend in \<open>simp_all add: f\<close>)
    then show ?thesis using f by simp
  qed
  have "step_inv G I N t inputs Symbols (fold (actor_symbol t ?v) Xs S) \<and> gss_of (fold (actor_symbol t ?v) Xs S) = gss_of P \<and>
      m_ActiveNodes (fold (actor_symbol t ?v) Xs S) = m_ActiveNodes S"
    if "set Xs \<subseteq> set Symbols" "step_inv G I N t inputs Symbols S" "gss_of S = gss_of P" "m_StateNodes S = m_StateNodes P" for Xs S
    using that
  proof (induction Xs arbitrary: S)
    case (Cons X Xs)
    then show ?case using step [of X S] by simp
  qed simp
  note a = this [OF subset_refl iQ g]
  have e: "Actor t Symbols P = fold (actor_symbol t ?v) Symbols Q" by (simp add: Actor_def Q_def)
  show "step_inv G I N t inputs Symbols (Actor t Symbols P)" "gss_of (Actor t Symbols P) = gss_of P"
    "m_ActiveNodes (Actor t Symbols P) = tl (m_ActiveNodes P)"
    using a unfolding e by (simp_all add: Q_def)
qed

section \<open>The path of a reduction\<close>

lemma flat_path_length [simp]: "length (flat_path v es) = 2 * length es + 1"
  by (induction es arbitrary: v) (auto simp: flat_path_def)

lemma flat_path_Cons: "flat_path v ((s, u) # es) = v # s # flat_path u es"
  by (simp add: flat_path_def)

lemma flat_path_hd [simp]: "hd (flat_path v es) = v"
  by (simp add: flat_path_def)

lemma flat_path_nth: "i < length es \<Longrightarrow> flat_path v es ! Suc (2 * i) = fst (es ! i)"
proof (induction es arbitrary: v i)
  case (Cons e es)
  then show ?case by (cases e; cases i) (auto simp: flat_path_Cons)
qed simp

lemma flat_path_last: "gpath g v es w \<Longrightarrow> last (flat_path v es) = w"
proof (induction es arbitrary: v)
  case (Cons e es)
  obtain s u where e: "e = (s, u)" by (cases e)
  have "flat_path u es \<noteq> []" by (simp add: flat_path_def)
  then show ?case using Cons by (simp add: e flat_path_Cons)
qed (simp add: flat_path_def)

lemma steps_down_odd: "steps_down (Suc (2 * k)) = map (\<lambda>i. Suc (2 * i)) (rev [0..<Suc k])"
  by (induction k) simp_all

lemma flat_path_ends:
  assumes "es \<noteq> []"
  shows "flat_path v es ! 1 = fst (hd es)" "flat_path v es ! Suc 0 = fst (hd es)"
    and "flat_path v es ! (2 * length es - 1) = fst (last es)"
proof -
  show "flat_path v es ! 1 = fst (hd es)" "flat_path v es ! Suc 0 = fst (hd es)"
    using flat_path_nth [of 0 es v] assms by (simp_all add: hd_conv_nth)
  obtain k where k: "length es = Suc k" using assms by (cases es) auto
  then show "flat_path v es ! (2 * length es - 1) = fst (last es)"
    using flat_path_nth [of k es v] assms by (simp add: last_conv_nth)
qed

lemma path_symbols_flat:
  assumes "es \<noteq> []"
  shows "path_symbols (flat_path v es) = rev (map fst es)"
proof -
  obtain k where k: "length es = Suc k" using assms by (cases es) auto
  have "path_symbols (flat_path v es) = map (\<lambda>i. fst (es ! i)) (rev [0..<Suc k])"
    using flat_path_nth [of _ es v] k by (simp add: path_symbols_def steps_down_odd del: upt_Suc)
  also have "\<dots> = rev (map fst (map ((!) es) [0..<length es]))" by (simp add: k rev_map del: upt_Suc)
  finally show ?thesis by (simp add: map_nth)
qed

section \<open>ReduceOnePath\<close>

text \<open>All symbols that lead to one state are the same.\<close>

lemma goto_symbol_unique:
  assumes table: "lr_table G I N t" and "i < N" "X < length (m_UniqueGrammarItems G)" "cell_goto t i X = Some j"
    and "i' < N" "Y < length (m_UniqueGrammarItems G)" "cell_goto t i' Y = Some j"
  shows "X = Y"
proof -
  obtain it where it: "it \<in> I j" "m_DotSymbolNo it \<noteq> 0" using lr_tableD(3) [OF assms(1-4)] by blast
  obtain it1 where "m_pRule it1 = m_pRule it" "m_DotSymbolNo it = Suc (m_DotSymbolNo it1)" "GetSymbolNo it1 = X"
    using lr_tableD(3) [OF assms(1-4)] it by blast
  moreover obtain it2 where "m_pRule it2 = m_pRule it" "m_DotSymbolNo it = Suc (m_DotSymbolNo it2)" "GetSymbolNo it2 = Y"
    using lr_tableD(3) [OF assms(1,5-7)] it by blast
  ultimately show ?thesis by (simp add: GetSymbolNo_def)
qed

text \<open>What a path of the length of the rule gives to the reduction.\<close>

definition reduction_path :: "('b CWorkGrammar_scheme) \<Rightarrow> (nat \<Rightarrow> CLRItem set) \<Rightarrow> 'a CGLRTable \<Rightarrow> symbol set list \<Rightarrow> gss
    \<Rightarrow> CPendingReduction \<Rightarrow> (nat \<times> nat) list \<Rightarrow> nat \<Rightarrow> bool" where
  "reduction_path G I t inputs g R es w \<longleftrightarrow>
     gpath g (m_LastStateNodeNo R) es w \<and> es \<noteq> [] \<and> m_LastStateNodeNo R < gnodes g \<and>
     gpos g (m_LastStateNodeNo R) = length inputs \<and>
     (\<exists>r. reducible G I t (gstate g (m_LastStateNodeNo R)) (m_pReduceRule R) r \<and> length es = length (rhs r))"

lemma gpath_ext: "gpath g v es w \<Longrightarrow> gss_inv G N t inputs g \<Longrightarrow> v < gnodes g \<Longrightarrow> reduce_ext g g' \<Longrightarrow> gpath g' v es w"
proof (induction es arbitrary: v)
  case (Cons e es)
  obtain s u where e: "e = (s, u)" by (cases e)
  have p: "s \<in> set (gchildren g v)" "u \<in> set (gbelow g s)" "gpath g u es w" using Cons.prems(1) by (auto simp: e)
  note edge = edge_facts [OF Cons.prems(2,3) p(1,2)]
  then show ?case using Cons.IH [OF p(3) Cons.prems(2) edge(2) Cons.prems(4)] Cons.prems(3,4) p
    by (auto simp: e reduce_ext_def)
qed simp

lemma reduction_path_ext:
  assumes "reduction_path G I t inputs g R es w" "gss_inv G N t inputs g" "reduce_ext g g'"
  shows "reduction_path G I t inputs g' R es w"
  using assms gpath_ext [OF _ assms(2) _ assms(3)] by (auto simp: reduction_path_def reduce_ext_def gss_ext_def)

lemma reduction_path_spec:
  assumes wf: "wf_grammar G" and table: "lr_table G I N t" and inv: "gss_inv G N t inputs g"
    and path: "reduction_path G I t inputs g R es w"
  obtains r j where "reducible G I t (gstate g (m_LastStateNodeNo R)) (m_pReduceRule R) r"
    "map (gsym g) (rev (map fst es)) = rhs r"
    "cell_goto t (gstate g w) (m_LeftPart r) = Some j" "j < N" "j \<noteq> 0" "w < gnodes g" "gstate g w < N"
    "w \<noteq> 0 \<longrightarrow> gpos g w = gstart g (fst (last es))"
    "chain (gstart g) (gend g) (gstart g (fst (last es))) (rev (map fst es)) (length inputs)"
    "\<forall>x \<in> set (map fst es). x < gsyms g" "gend g (fst (hd es)) = length inputs"
    "spans G inputs (m_LeftPart r) (gstart g (fst (last es))) (length inputs)"
    "gstart g (fst (last es)) < length inputs" "m_LeftPart r < length (m_UniqueGrammarItems G)"
proof -
  let ?v = "m_LastStateNodeNo R"
  have p: "gpath g ?v es w" "?v < gnodes g" "es \<noteq> []" "gpos g ?v = length inputs"
    using path by (simp_all add: reduction_path_def)
  obtain r where r: "reducible G I t (gstate g ?v) (m_pReduceRule R) r" "length es = length (rhs r)"
    using path by (auto simp: reduction_path_def)
  have rG: "r \<in> set (m_EncodedRules G)" using r(1) by (simp add: reducible_def)
  have w: "w < gnodes g" using gpath_end(1) [OF inv p(1-3)] .
  have wN: "gstate g w < N" using inv w by (simp add: gss_inv_def node_inv_def)
  obtain it where it: "it \<in> I (gstate g w)" "m_pRule it = r" "m_DotSymbolNo it = 0" "map (gsym g) (rev (map fst es)) = rhs r"
    using gpath_items [OF inv table p(1,2), of "\<lparr>m_pRule = r, m_DotSymbolNo = length (rhs r)\<rparr>" 0] r
    by (auto simp: reducible_def)
  have left: "m_LeftPart r < length (m_UniqueGrammarItems G)" using wf_grammar_ruleD(3) [OF wf rG] .
  have "m_LeftPart r \<noteq> GetNewRoot G" using r(1) by (simp add: reducible_def)
  then obtain j where j: "cell_goto t (gstate g w) (m_LeftPart r) = Some j"
    using lr_tableD(5) [OF table wN it(1)] it(2,3) by auto
  have jN: "j < N" "j \<noteq> 0" using lr_tableD(3) [OF table wN left j] by auto
  note c = gpath_chain [OF inv p(1-3)]
  have sym: "sym_inv G t inputs g x" if "x \<in> set (map fst es)" for x
    using c(3) that inv by (auto simp: gss_inv_def)
  have spans: "\<forall>x \<in> set (rev (map fst es)). spans G inputs (gsym g x) (gstart g x) (gend g x)"
    and less: "\<forall>x \<in> set (rev (map fst es)). gstart g x < gend g x"
    using sym by (auto simp: sym_inv_def)
  have lt: "gstart g (fst (last es)) < length inputs"
    using chain_less [OF c(1)] p(3,4) less by simp
  have "spans G inputs (m_LeftPart r) (gstart g (fst (last es))) (length inputs)"
    using rule_spans [OF rG it(4) _ spans] c(1) p(4) lt by simp
  moreover have "gend g (fst (hd es)) = length inputs"
    using p edge_facts(4) [OF inv p(2), of "fst (hd es)" "snd (hd es)"] by (cases es) auto
  ultimately show ?thesis using that [OF r(1) it(4) j jN w wN] c p(4) lt left by simp
qed

definition reduce_goto :: "'a CGLRTable \<Rightarrow> CPendingReduction \<Rightarrow> nat \<Rightarrow> ('i, 'f) CGLRParser \<Rightarrow> nat" where
  "reduce_goto t R w P =
     (case GetGotoLine t (GetEncodedCell t (node_StateNo (m_StateNodes P ! w))
        (info_LeftPart (m_RuleInfos t ! m_pReduceRule R))) of Some g \<Rightarrow> g | None \<Rightarrow> 0)"

lemma parser_same: "X = X\<lparr>m_bDisableWORDSStateNodes := m_bDisableWORDSStateNodes X, m_BuiltGROUPs := m_BuiltGROUPs X\<rparr>"
  by simp

text \<open>The two outcomes of \<^verbatim>\<open>ReduceOnePath\<close>: no item, or a new or an old symbol node gets a parse.\<close>

lemma ReduceOnePath_cases:
  obtains (refused) f where "ReduceOnePath F t Symbols R Path P = P\<lparr>m_Factory := f\<rparr>"
  | (reduced) f n d b item where "ReduceOnePath F t Symbols R Path P =
      reduce_new_item F t Symbols R Path (reduce_goto t R (last Path) P) item
        (P\<lparr>m_Factory := f, m_iCreatedGroups := n, m_bDisableWORDSStateNodes := d, m_BuiltGROUPs := b\<rparr>)"
proof -
  let ?rule = "m_RuleInfos t ! m_pReduceRule R"
  let ?start = "m_InputStart (m_SymbolNodes P ! (Path ! (length Path - 2)))"
  let ?fin = "m_InputEnd (m_SymbolNodes P ! (Path ! 1))"
  obtain pNewItem f where c: "CreateNewItem F (info_LeftPart ?rule) (m_RuleAgreement ?rule) ?start ?fin
    (info_SynMainItemNo ?rule) (FillRightPartItems Path P) (m_Factory P) = (pNewItem, f)"
    by fastforce
  show ?thesis
  proof (cases pNewItem)
    case None
    then show ?thesis using c that(1) [of f] by (simp add: ReduceOnePath_def Let_def)
  next
    case (Some item)
    show ?thesis
    proof (cases "int (info_LeftPart ?rule) = m_GROUPNonTerminal P")
      case True
      then show ?thesis
        using c Some by (intro that(2) [where f = f and item = item]) (simp add: ReduceOnePath_def Let_def reduce_goto_def)
    next
      case False
      show ?thesis
        using c Some False parser_same [of "P\<lparr>m_Factory := f, m_iCreatedGroups := m_iCreatedGroups P + GetFactsCount F item\<rparr>"]
        by (intro that(2) [where f = f and item = item and n = "m_iCreatedGroups P + GetFactsCount F item"
              and d = "m_bDisableWORDSStateNodes P" and b = "m_BuiltGROUPs P"])
          (simp add: ReduceOnePath_def Let_def reduce_goto_def)
    qed
  qed
qed

lemma reduce_new_item_eq:
  assumes "CreateOrReuseNode g P = (created, v, P1)"
    and A: "A = (if created then P1\<lparr>m_ActiveNodes := oset_insert (<) v (m_ActiveNodes P1)\<rparr> else P1)"
  obtains SN s P2 where
    "sn_SymbolNo SN = info_LeftPart (m_RuleInfos t ! m_pReduceRule R)" "m_NodeChildren SN = [last Path]"
    "m_ParseChildren SN = []" "m_InputStart SN = m_InputStart (m_SymbolNodes A ! (Path ! (length Path - 2)))"
    "m_InputEnd SN = m_InputEnd (m_SymbolNodes A ! (Path ! 1))"
    "HasPathOfLengthTwo F item v (last Path) (m_InputStart SN) A = None \<and>
       (s, P2) = add_symbol_node t Symbols g v (hd Path) SN A \<or>
     HasPathOfLengthTwo F item v (last Path) (m_InputStart SN) A = Some s \<and>
       P2 = upd_symbol s (AddInputItem (GetWeight F) (Some item)) A"
    "reduce_new_item F t Symbols R Path g item P = upd_symbol s (\<lambda>x. x\<lparr>m_ParseChildren := m_ParseChildren x @
       [\<lparr>m_ReduceRule = m_pReduceRule R, pc_Items = path_symbols Path\<rparr>]\<rparr>) P2"
proof -
  define SN where "SN = \<lparr>sn_SymbolNo = info_LeftPart (m_RuleInfos t ! m_pReduceRule R), m_pItem = Some item,
    m_PathTop = (hd Path, Path ! 1), sn_bDisabled = False, m_OtherItemVariants = [], m_NodeChildren = [last Path],
    m_ParseChildren = [], m_InputStart = m_InputStart (m_SymbolNodes A ! (Path ! (length Path - 2))),
    m_InputEnd = m_InputEnd (m_SymbolNodes A ! (Path ! 1)), m_Terminals = AddTerminals Path A\<rparr>"
  have start: "m_InputStart SN = m_InputStart (m_SymbolNodes A ! (Path ! (length Path - 2)))" by (simp add: SN_def)
  obtain s P2 where sP: "(case HasPathOfLengthTwo F item v (last Path) (m_InputStart SN) A of
      None \<Rightarrow> add_symbol_node t Symbols g v (hd Path) SN A
    | Some s \<Rightarrow> (s, upd_symbol s (AddInputItem (GetWeight F) (Some item)) A)) = (s, P2)"
    by fastforce
  have "reduce_new_item F t Symbols R Path g item P = upd_symbol s (\<lambda>x. x\<lparr>m_ParseChildren := m_ParseChildren x @
       [\<lparr>m_ReduceRule = m_pReduceRule R, pc_Items = path_symbols Path\<rparr>]\<rparr>) P2"
    using sP unfolding reduce_new_item_def assms(1) Let_def prod.case A [symmetric] SN_def [symmetric]
    by (simp add: start)
  moreover have "HasPathOfLengthTwo F item v (last Path) (m_InputStart SN) A = None \<and>
       (s, P2) = add_symbol_node t Symbols g v (hd Path) SN A \<or>
     HasPathOfLengthTwo F item v (last Path) (m_InputStart SN) A = Some s \<and>
       P2 = upd_symbol s (AddInputItem (GetWeight F) (Some item)) A"
    using sP by (auto split: option.splits)
  ultimately show ?thesis
    using that [of SN s P2] by (simp add: SN_def)
qed

lemma upd_simps [simp]:
  "m_PendingReductions (upd_symbol s f P) = m_PendingReductions P" "m_PendingShifts (upd_symbol s f P) = m_PendingShifts P"
  "m_ActiveNodes (upd_symbol s f P) = m_ActiveNodes P" "m_StateNodes (upd_symbol s f P) = m_StateNodes P"
  "m_InputLevels (upd_symbol s f P) = m_InputLevels P" "length (m_SymbolNodes (upd_symbol s f P)) = length (m_SymbolNodes P)"
  "m_bBreakAfterMaxSymbolNodesCount (upd_symbol s f P) = m_bBreakAfterMaxSymbolNodesCount P"
  "m_PendingReductions (upd_state v h P) = m_PendingReductions P" "m_PendingShifts (upd_state v h P) = m_PendingShifts P"
  "m_ActiveNodes (upd_state v h P) = m_ActiveNodes P" "m_SymbolNodes (upd_state v h P) = m_SymbolNodes P"
  "m_InputLevels (upd_state v h P) = m_InputLevels P" "length (m_StateNodes (upd_state v h P)) = length (m_StateNodes P)"
  "m_bBreakAfterMaxSymbolNodesCount (upd_state v h P) = m_bBreakAfterMaxSymbolNodesCount P"
  by (simp_all add: upd_symbol_def upd_state_def)

lemma reprocess_one: "reprocess_symbol t g s v X P = P\<lparr>m_PendingReductions := m_PendingReductions (reprocess_symbol t g s v X P)\<rparr>"
  by (simp add: reprocess_symbol_cell add_reductions_fold)

lemma reprocess_fold:
  "\<exists>ps. fold (reprocess_symbol t g s v) Xs P = P\<lparr>m_PendingReductions := ps\<rparr>"
proof (induction Xs arbitrary: P)
  case Nil
  have "P = P\<lparr>m_PendingReductions := m_PendingReductions P\<rparr>" by simp
  then show ?case by (metis fold_simps(1))
next
  case (Cons X Xs)
  obtain p where p: "reprocess_symbol t g s v X P = P\<lparr>m_PendingReductions := p\<rparr>" using reprocess_one by blast
  show ?case using Cons.IH [of "P\<lparr>m_PendingReductions := p\<rparr>"] by (simp add: p)
qed

lemma reprocess_fold_set:
  "set (m_PendingReductions (fold (reprocess_symbol t g s v) Xs P)) \<subseteq> set (m_PendingReductions P) \<union>
     {\<lparr>m_SymbolNodeNo = s, m_LastStateNodeNo = v, m_pReduceRule = k\<rparr> |k X. X \<in> set Xs \<and> k \<in> set (cell_rules t g X)}"
proof (induction Xs arbitrary: P)
  case (Cons X Xs)
  have "set (m_PendingReductions (reprocess_symbol t g s v X P)) \<subseteq> set (m_PendingReductions P) \<union>
      {\<lparr>m_SymbolNodeNo = s, m_LastStateNodeNo = v, m_pReduceRule = k\<rparr> |k. k \<in> set (cell_rules t g X)}"
    using add_reductions_pending [of v "[s]" "cell_rules t g X" P] by (auto simp: reprocess_symbol_cell)
  then show ?case using Cons.IH [of "reprocess_symbol t g s v X P"] by fastforce
qed simp

lemma add_symbol_node_eq:
  assumes "add_symbol_node t Symbols g v u SN P = (s, P2)"
  shows "s = length (m_SymbolNodes P)"
    and "\<exists>ps. P2 = (upd_state u (\<lambda>x. x\<lparr>m_ReducedTo := oset_insert (<) v (m_ReducedTo x)\<rparr>)
      (upd_state v (\<lambda>x. x\<lparr>m_SymbolChildren := m_SymbolChildren x @ [length (m_SymbolNodes P)]\<rparr>)
        (P\<lparr>m_SymbolNodes := m_SymbolNodes P @ [SN]\<rparr>)))\<lparr>m_PendingReductions := ps\<rparr> \<and>
     set ps \<subseteq> set (m_PendingReductions P) \<union>
       {\<lparr>m_SymbolNodeNo = s, m_LastStateNodeNo = v, m_pReduceRule = k\<rparr> |k X. X \<in> set Symbols \<and> k \<in> set (cell_rules t g X)}"
proof -
  define P1 where "P1 = upd_state u (\<lambda>x. x\<lparr>m_ReducedTo := oset_insert (<) v (m_ReducedTo x)\<rparr>)
    (upd_state v (\<lambda>x. x\<lparr>m_SymbolChildren := m_SymbolChildren x @ [length (m_SymbolNodes P)]\<rparr>)
      (P\<lparr>m_SymbolNodes := m_SymbolNodes P @ [SN]\<rparr>))"
  show s: "s = length (m_SymbolNodes P)" using assms unfolding add_symbol_node_def Let_def by blast
  have P2: "P2 = (if \<not> oset_mem (<) v (m_ActiveNodes P1) then fold (reprocess_symbol t g s v) Symbols P1 else P1)"
  proof -
    have "P2 = snd (add_symbol_node t Symbols g v u SN P)" using assms by simp
    then show ?thesis unfolding add_symbol_node_def Let_def s P1_def snd_conv .
  qed
  have "\<exists>ps. P2 = P1\<lparr>m_PendingReductions := ps\<rparr> \<and> set ps \<subseteq> set (m_PendingReductions P1) \<union>
     {\<lparr>m_SymbolNodeNo = s, m_LastStateNodeNo = v, m_pReduceRule = k\<rparr> |k X. X \<in> set Symbols \<and> k \<in> set (cell_rules t g X)}"
  proof (cases "oset_mem (<) v (m_ActiveNodes P1)")
    case True
    then have "P2 = P1\<lparr>m_PendingReductions := m_PendingReductions P1\<rparr>" using P2 by simp
    then show ?thesis by (intro exI [of _ "m_PendingReductions P1"] conjI) simp_all
  next
    case False
    obtain ps where ps: "fold (reprocess_symbol t g s v) Symbols P1 = P1\<lparr>m_PendingReductions := ps\<rparr>"
      using reprocess_fold by blast
    then show ?thesis
      using reprocess_fold_set [of t g s v Symbols P1] P2 False unfolding ps by (intro exI [of _ ps]) simp
  qed
  then show "\<exists>ps. P2 = (upd_state u (\<lambda>x. x\<lparr>m_ReducedTo := oset_insert (<) v (m_ReducedTo x)\<rparr>)
      (upd_state v (\<lambda>x. x\<lparr>m_SymbolChildren := m_SymbolChildren x @ [length (m_SymbolNodes P)]\<rparr>)
        (P\<lparr>m_SymbolNodes := m_SymbolNodes P @ [SN]\<rparr>)))\<lparr>m_PendingReductions := ps\<rparr> \<and>
     set ps \<subseteq> set (m_PendingReductions P) \<union>
       {\<lparr>m_SymbolNodeNo = s, m_LastStateNodeNo = v, m_pReduceRule = k\<rparr> |k X. X \<in> set Symbols \<and> k \<in> set (cell_rules t g X)}"
    by (simp add: P1_def)
qed

lemma add_symbol_node_spec:
  assumes v: "v < length (m_StateNodes P)" and eq: "add_symbol_node t Symbols g v u SN P = (s, P2)"
  shows "s = length (m_SymbolNodes P)" "gss_of P2 = gss_add_symbol v (symbol_of SN) (gss_of P)"
    and "m_PendingShifts P2 = m_PendingShifts P" "m_ActiveNodes P2 = m_ActiveNodes P"
    and "set (m_PendingReductions P2) \<subseteq> set (m_PendingReductions P) \<union>
     {\<lparr>m_SymbolNodeNo = s, m_LastStateNodeNo = v, m_pReduceRule = k\<rparr> |k X. X \<in> set Symbols \<and> k \<in> set (cell_rules t g X)}"
proof -
  show "s = length (m_SymbolNodes P)" by (rule add_symbol_node_eq(1) [OF eq])
  obtain ps where P2: "P2 = (upd_state u (\<lambda>x. x\<lparr>m_ReducedTo := oset_insert (<) v (m_ReducedTo x)\<rparr>)
      (upd_state v (\<lambda>x. x\<lparr>m_SymbolChildren := m_SymbolChildren x @ [length (m_SymbolNodes P)]\<rparr>)
        (P\<lparr>m_SymbolNodes := m_SymbolNodes P @ [SN]\<rparr>)))\<lparr>m_PendingReductions := ps\<rparr>"
    and ps: "set ps \<subseteq> set (m_PendingReductions P) \<union>
       {\<lparr>m_SymbolNodeNo = s, m_LastStateNodeNo = v, m_pReduceRule = k\<rparr> |k X. X \<in> set Symbols \<and> k \<in> set (cell_rules t g X)}"
    using add_symbol_node_eq(2) [OF eq] by blast
  show "gss_of P2 = gss_add_symbol v (symbol_of SN) (gss_of P)"
    unfolding P2 gss_of_same using gss_of_add_symbol [OF v, of SN]
    by (subst gss_of_upd_state_same) (simp_all add: node_of_def)
  show "m_PendingShifts P2 = m_PendingShifts P" "m_ActiveNodes P2 = m_ActiveNodes P"
    "set (m_PendingReductions P2) \<subseteq> set (m_PendingReductions P) \<union>
     {\<lparr>m_SymbolNodeNo = s, m_LastStateNodeNo = v, m_pReduceRule = k\<rparr> |k X. X \<in> set Symbols \<and> k \<in> set (cell_rules t g X)}"
    using ps by (simp_all add: P2)
qed

lemma find_SomeD: "List.find Q xs = Some x \<Longrightarrow> x \<in> set xs \<and> Q x"
  by (induction xs) (auto split: if_splits)

lemma FindChild_iff: "FindChild w s = - 1 \<longleftrightarrow> w \<notin> set (m_NodeChildren s)"
proof -
  have "length (takeWhile (\<lambda>c. c \<noteq> w) xs) = length xs \<longleftrightarrow> w \<notin> set xs" for xs :: "nat list"
    by (induction xs) auto
  then show ?thesis by (auto simp: FindChild_def Let_def)
qed

lemma HasPathOfLengthTwo_SomeD:
  assumes "HasPathOfLengthTwo F item v w start P = Some s"
  shows "s \<in> set (m_SymbolChildren (m_StateNodes P ! v))" "w \<in> set (m_NodeChildren (m_SymbolNodes P ! s))"
    and "start = m_InputStart (m_SymbolNodes P ! s)"
  using assms unfolding HasPathOfLengthTwo_def Let_def
  by (auto dest!: find_SomeD simp: FindChild_iff split: if_splits)

lemma pending_ok_goto:
  assumes table: "lr_table G I N t" and syms: "\<forall>X \<in> set Symbols. grammar_symbol G X"
    and v: "v < gnodes g" "gpos g v = length inputs" "gstate g v = j" "j < N" "s \<in> set (gchildren g v)"
    and X: "X \<in> set Symbols" "k \<in> set (cell_rules t j X)"
  shows "pending_ok G I t inputs g \<lparr>m_SymbolNodeNo = s, m_LastStateNodeNo = v, m_pReduceRule = k\<rparr>"
  using lr_table_reducible [OF table v(4) _ X(2)] syms X(1) v by (simp add: pending_ok_def grammar_symbol_def)

lemma reduce_new_item_inv:
  assumes wf: "wf_grammar G" and table: "lr_table G I N t" and syms: "\<forall>X \<in> set Symbols. grammar_symbol G X"
    and inv: "step_inv G I N t inputs Symbols P" and path: "reduction_path G I t inputs (gss_of P) R es w"
    and g: "cell_goto t (gstate (gss_of P) w) (info_LeftPart (m_RuleInfos t ! m_pReduceRule R)) = Some g"
    and P': "P' = reduce_new_item F t Symbols R (flat_path (m_LastStateNodeNo R) es) g item P"
  shows "step_inv G I N t inputs Symbols P'" "reduce_ext (gss_of P) (gss_of P')"
proof -
  let ?v = "m_LastStateNodeNo R"
  let ?Path = "flat_path ?v es"
  let ?g = "gss_of P"
  have gi: "gss_inv G N t inputs ?g" using inv by (simp add: step_inv_def)
  obtain r j where r: "reducible G I t (gstate ?g ?v) (m_pReduceRule R) r" "map (gsym ?g) (rev (map fst es)) = rhs r"
    "cell_goto t (gstate ?g w) (m_LeftPart r) = Some j" "j < N" "j \<noteq> 0" "w < gnodes ?g" "gstate ?g w < N"
    "w \<noteq> 0 \<longrightarrow> gpos ?g w = gstart ?g (fst (last es))"
    "chain (gstart ?g) (gend ?g) (gstart ?g (fst (last es))) (rev (map fst es)) (length inputs)"
    "\<forall>x \<in> set (map fst es). x < gsyms ?g" "gend ?g (fst (hd es)) = length inputs"
    "spans G inputs (m_LeftPart r) (gstart ?g (fst (last es))) (length inputs)"
    "gstart ?g (fst (last es)) < length inputs" "m_LeftPart r < length (m_UniqueGrammarItems G)"
    by (rule reduction_path_spec [OF wf table gi path])
  have left: "info_LeftPart (m_RuleInfos t ! m_pReduceRule R) = m_LeftPart r"
    and rule: "m_pReduceRule R < length (m_RuleInfos t)" "r \<in> set (m_EncodedRules G)" and "m_LeftPart r \<noteq> GetNewRoot G"
    using r(1) by (simp_all add: reducible_def)
  then have gs: "grammar_symbol G (m_LeftPart r)" using r(14) by (simp add: grammar_symbol_def)
  have gj: "g = j" using g r(3) left by simp
  have es: "es \<noteq> []" "gpath ?g ?v es w" using path by (simp_all add: reduction_path_def)
  obtain created v P1 where cr: "CreateOrReuseNode j P = (created, v, P1)" by (metis prod_cases3)
  note c = CreateOrReuseNode_spec [OF gi r(4,5) cr]
  obtain ns where ns: "P1 = P\<lparr>m_StateNodes := ns\<rparr>" using c(1) by blast
  define A where "A = (if created then P1\<lparr>m_ActiveNodes := oset_insert (<) v (m_ActiveNodes P1)\<rparr> else P1)"
  have A: "gss_of A = gss_of P1" "m_StateNodes A = m_StateNodes P1" "m_PendingReductions A = m_PendingReductions P"
    "m_PendingShifts A = m_PendingShifts P" "set (m_ActiveNodes A) \<subseteq> insert v (set (m_ActiveNodes P))"
    "m_SymbolNodes A = m_SymbolNodes P" "m_InputLevels A = m_InputLevels P"
    using set_oset_insert_subset [of "(<)" v "m_ActiveNodes P"] by (auto simp: A_def ns)
  have ready: "node_ready j A v" using c(2) by (auto simp: A_def node_ready_def)
  have gA: "gss_inv G N t inputs (gss_of A)" "reduce_ext ?g (gss_of A)" using c(3,4) A(1) by simp_all
  have posv: "gpos (gss_of A) v = length inputs" by (rule node_ready_pos [OF gA(1) ready])
  have v: "v < length (m_StateNodes A)" "v \<noteq> 0" "node_StateNo (m_StateNodes A ! v) = j"
    "last (m_InputLevels A) \<le> v \<or> length (m_InputLevels A) = 1"
    using ready by (simp_all add: node_ready_def)
  have stepA: "step_inv G I N t inputs Symbols A"
    by (rule step_inv_ext [OF inv gA]) (use A(3-5) posv v(1) in \<open>auto simp: active_ok_def\<close>)
  have ext: "gss_ext ?g (gss_of A)" using gA(2) by (simp add: reduce_ext_def)
  have same: "gsym (gss_of A) x = gsym ?g x" "gstart (gss_of A) x = gstart ?g x" "gend (gss_of A) x = gend ?g x"
    if "x < gsyms ?g" for x
    using ext that by (auto simp: gss_ext_def)
  have w: "w < gnodes (gss_of A)" "gpos (gss_of A) w = gpos ?g w" "gstate (gss_of A) w = gstate ?g w"
    using ext r(6) by (auto simp: gss_ext_def)
  have last: "last ?Path = w" by (rule flat_path_last [OF es(2)])
  have ends: "fst (last es) < gsyms ?g" "fst (hd es) < gsyms ?g" using r(10) es(1) by auto
  have idx: "?Path ! (length ?Path - 2) = fst (last es)" "?Path ! 1 = fst (hd es)"
    using flat_path_ends [OF es(1), of ?v] by simp_all
  obtain SN s P2 where SN: "sn_SymbolNo SN = m_LeftPart r" "m_NodeChildren SN = [w]" "m_ParseChildren SN = []"
    "m_InputStart SN = gstart ?g (fst (last es))" "m_InputEnd SN = length inputs"
    and split: "HasPathOfLengthTwo F item v w (m_InputStart SN) A = None \<and> (s, P2) = add_symbol_node t Symbols j v ?v SN A \<or>
     HasPathOfLengthTwo F item v w (m_InputStart SN) A = Some s \<and> P2 = upd_symbol s (AddInputItem (GetWeight F) (Some item)) A"
    and P'_eq: "P' = upd_symbol s (\<lambda>x. x\<lparr>m_ParseChildren := m_ParseChildren x @
       [\<lparr>m_ReduceRule = m_pReduceRule R, pc_Items = rev (map fst es)\<rparr>]\<rparr>) P2"
    using reduce_new_item_eq [OF cr A_def, of t R ?Path F item Symbols] r(11) ends
    unfolding P' gj last idx A(6) left path_symbols_flat [OF es(1)] flat_path_hd by (auto simp del: One_nat_def)
  have P2: "gss_inv G N t inputs (gss_of P2) \<and> reduce_ext (gss_of A) (gss_of P2) \<and> step_inv G I N t inputs Symbols P2 \<and>
      s < gsyms (gss_of P2) \<and> gsym (gss_of P2) s = m_LeftPart r \<and> gstart (gss_of P2) s = gstart ?g (fst (last es)) \<and>
      gend (gss_of P2) s = length inputs"
    using split
  proof (elim disjE conjE)
    assume eq: "(s, P2) = add_symbol_node t Symbols j v ?v SN A"
    note a = add_symbol_node_spec [OF v(1) eq [symmetric]]
    have x: "g_parses (symbol_of SN) = []" "grammar_symbol G (g_symbol (symbol_of SN))"
      "g_start (symbol_of SN) < g_end (symbol_of SN)" "g_end (symbol_of SN) = gpos (gss_of A) v"
      "\<forall>u \<in> set (g_below (symbol_of SN)). u < gnodes (gss_of A) \<and> (u \<noteq> 0 \<longrightarrow> gpos (gss_of A) u = g_start (symbol_of SN)) \<and>
         cell_goto t (gstate (gss_of A) u) (g_symbol (symbol_of SN)) = Some (gstate (gss_of A) v)"
      "spans G inputs (g_symbol (symbol_of SN)) (g_start (symbol_of SN)) (g_end (symbol_of SN))"
      using SN r(3,8,12,13) gs w posv v(1,3) by simp_all
    have gi2: "gss_inv G N t inputs (gss_of P2)" "reduce_ext (gss_of A) (gss_of P2)"
      using gss_add_symbol_inv(1) [OF gA(1) _ v(2) x] reduce_ext_add_symbol [of v "gss_of A" "symbol_of SN"] v a(2) by simp_all
    have vc: "v < gnodes (gss_of P2)" "gpos (gss_of P2) v = length inputs" "gstate (gss_of P2) v = j" "s \<in> set (gchildren (gss_of P2) v)"
      using v posv a(1,2) gpos_levels [of "gss_add_symbol v (symbol_of SN) (gss_of A)" "gss_of A"]
      by (simp_all add: gss_add_symbol_def nth_update)
    have "step_inv G I N t inputs Symbols P2"
      by (rule step_inv_ext [OF stepA gi2]) (use a(3,4,5) pending_ok_goto [OF table syms vc(1-3) r(4) vc(4)] in auto)
    moreover have "s < gsyms (gss_of P2)" "gsym (gss_of P2) s = m_LeftPart r" "gstart (gss_of P2) s = gstart ?g (fst (last es))"
      "gend (gss_of P2) s = length inputs"
      using a(1,2) SN by (simp_all add: gss_add_symbol_def nth_append)
    ultimately show ?thesis using gi2 by simp
  next
    assume find: "HasPathOfLengthTwo F item v w (m_InputStart SN) A = Some s"
      and eq: "P2 = upd_symbol s (AddInputItem (GetWeight F) (Some item)) A"
    have f: "s \<in> set (m_SymbolChildren (m_StateNodes A ! v))" "w \<in> set (m_NodeChildren (m_SymbolNodes A ! s))"
      "m_InputStart SN = m_InputStart (m_SymbolNodes A ! s)"
      by (fact HasPathOfLengthTwo_SomeD [OF find])+
    have g2: "gss_of P2 = gss_of A" unfolding eq by (rule gss_of_upd_symbol_same) (rule gss_of_AddInputItem)
    have lists: "m_PendingReductions P2 = m_PendingReductions A" "m_PendingShifts P2 = m_PendingShifts A"
      "m_ActiveNodes P2 = m_ActiveNodes A" by (simp_all add: eq)
    have st2: "step_inv G I N t inputs Symbols P2" using stepA unfolding step_inv_def g2 lists .
    have ve: "v < gnodes (gss_of A)" "s \<in> set (gchildren (gss_of A) v)" using v(1) f(1) by simp_all
    have s: "s < gsyms (gss_of A)" using gA(1) ve by (auto simp: gss_inv_def node_inv_def)
    then have ws: "w \<in> set (gbelow (gss_of A) s)" using f(2) by simp
    note edge = edge_facts [OF gA(1) ve ws]
    have "gsym (gss_of A) s = m_LeftPart r"
      using goto_symbol_unique [OF table _ edge(8,6) _ r(14), of w] goto_symbol_unique [OF table r(7) edge(8) _ r(7) r(14)]
        edge(6) w(3) v(1,3) r(3) by simp
    then show ?thesis
      using gA(1) st2 s f(3) SN(4) posv edge(4) unfolding g2 by simp
  qed
  let ?c = "\<lparr>m_ReduceRule = m_pReduceRule R, pc_Items = rev (map fst es)\<rparr>"
  have ext2: "gss_ext ?g (gss_of P2)" using P2 ext gss_ext_trans by (auto simp: reduce_ext_def)
  have same2: "gsym (gss_of P2) x = gsym ?g x \<and> gstart (gss_of P2) x = gstart ?g x \<and> gend (gss_of P2) x = gend ?g x \<and> x < gsyms (gss_of P2)"
    if "x \<in> set (rev (map fst es))" for x
    using ext2 that r(10) by (auto simp: gss_ext_def)
  have "parsed_ok G t (gss_of P2) s ?c"
  proof -
    have gs: "gstart (gss_of P2) s = gstart ?g (fst (last es))" "gend (gss_of P2) s = length inputs" using P2 by blast+
    have "map (gsym (gss_of P2)) (rev (map fst es)) = rhs r"
      using r(2) same2 by (metis (no_types, lifting) map_eq_conv)
    moreover have "chain (gstart (gss_of P2)) (gend (gss_of P2)) (gstart (gss_of P2) s) (rev (map fst es)) (gend (gss_of P2) s)"
      unfolding gs by (rule chain_cong [THEN iffD2, OF _ r(9)]) (use same2 in blast)
    ultimately show ?thesis using P2 same2 left rule unfolding parsed_ok_def by auto
  qed
  then have p: "gss_inv G N t inputs (gss_add_parse s ?c (gss_of P2))" "reduce_ext (gss_of P2) (gss_add_parse s ?c (gss_of P2))"
    using gss_add_parse_inv(1) [of G N t inputs "gss_of P2" s ?c] reduce_ext_add_parse [of s "gss_of P2" ?c] P2 by simp_all
  have gP': "gss_of P' = gss_add_parse s ?c (gss_of P2)"
    using gss_of_add_parse [of s P2 ?c] P2 by (simp add: P'_eq)
  show "step_inv G I N t inputs Symbols P'"
    by (rule step_inv_ext [of G I N t inputs Symbols P2]) (use p P2 in \<open>simp_all add: gP'\<close>, auto simp: P'_eq)
  show "reduce_ext (gss_of P) (gss_of P')"
    using reduce_ext_trans [OF gA(2)] reduce_ext_trans P2 p(2) gP' by metis
qed

lemma step_inv_same:
  assumes "gss_of P' = gss_of P" "m_PendingReductions P' = m_PendingReductions P"
    "m_PendingShifts P' = m_PendingShifts P" "m_ActiveNodes P' = m_ActiveNodes P"
  shows "step_inv G I N t inputs Symbols P' = step_inv G I N t inputs Symbols P"
  unfolding step_inv_def assms ..

lemma ReduceOnePath_inv:
  assumes wf: "wf_grammar G" and table: "lr_table G I N t" and syms: "\<forall>X \<in> set Symbols. grammar_symbol G X"
    and inv: "step_inv G I N t inputs Symbols P" and path: "reduction_path G I t inputs (gss_of P) R es w"
    and P': "P' = ReduceOnePath F t Symbols R (flat_path (m_LastStateNodeNo R) es) P"
  shows "step_inv G I N t inputs Symbols P'" "reduce_ext (gss_of P) (gss_of P')"
proof -
  have last: "last (flat_path (m_LastStateNodeNo R) es) = w"
    using path flat_path_last by (auto simp: reduction_path_def)
  have gi: "gss_inv G N t inputs (gss_of P)" using inv by (simp add: step_inv_def)
  obtain r j where r: "reducible G I t (gstate (gss_of P) (m_LastStateNodeNo R)) (m_pReduceRule R) r"
    and j: "cell_goto t (gstate (gss_of P) w) (m_LeftPart r) = Some j" and w: "w < gnodes (gss_of P)"
    using reduction_path_spec [OF wf table gi path] by blast
  have g: "cell_goto t (gstate (gss_of P) w) (info_LeftPart (m_RuleInfos t ! m_pReduceRule R)) = Some j"
    using j r by (simp add: reducible_def)
  then have goto: "reduce_goto t R w P = j" using w by (simp add: reduce_goto_def cell_goto_def split: if_splits)
  have "step_inv G I N t inputs Symbols P' \<and> reduce_ext (gss_of P) (gss_of P')"
  proof (cases F t Symbols R "flat_path (m_LastStateNodeNo R) es" P rule: ReduceOnePath_cases)
    case (refused f)
    then have "gss_of P' = gss_of P" "m_PendingReductions P' = m_PendingReductions P"
      "m_PendingShifts P' = m_PendingShifts P" "m_ActiveNodes P' = m_ActiveNodes P" by (simp_all add: P')
    then show ?thesis using inv step_inv_same by (metis reduce_ext_refl)
  next
    case (reduced f n d b item)
    define Q where "Q = P\<lparr>m_Factory := f, m_iCreatedGroups := n, m_bDisableWORDSStateNodes := d, m_BuiltGROUPs := b\<rparr>"
    have Q: "gss_of Q = gss_of P" "m_PendingReductions Q = m_PendingReductions P"
      "m_PendingShifts Q = m_PendingShifts P" "m_ActiveNodes Q = m_ActiveNodes P" by (simp_all add: Q_def)
    have P'_eq: "P' = reduce_new_item F t Symbols R (flat_path (m_LastStateNodeNo R) es) j item Q"
      using reduced unfolding P' last goto Q_def .
    have "step_inv G I N t inputs Symbols Q" using inv by (subst step_inv_same [OF Q])
    then show ?thesis
      using reduce_new_item_inv [OF wf table syms _ _ _ P'_eq, unfolded Q(1), OF _ path g] by blast
  qed
  then show "step_inv G I N t inputs Symbols P'" "reduce_ext (gss_of P) (gss_of P')" by simp_all
qed

text \<open>
  What makes the loop of \<^verbatim>\<open>ParseSymbol\<close> end: a reduction that makes no symbol node adds neither
  active nodes nor pending reductions.
\<close>

definition progress :: "('i, 'f) CGLRParser \<Rightarrow> ('i, 'f) CGLRParser \<Rightarrow> bool" where
  "progress P P' \<longleftrightarrow>
     m_bBreakAfterMaxSymbolNodesCount P' = m_bBreakAfterMaxSymbolNodesCount P \<and>
     m_PendingShifts P' = m_PendingShifts P \<and>
     (length (m_SymbolNodes P) < length (m_SymbolNodes P') \<or>
      length (m_SymbolNodes P) = length (m_SymbolNodes P') \<and>
      m_ActiveNodes P' = m_ActiveNodes P \<and> m_PendingReductions P' = m_PendingReductions P)"

lemma progress_refl [simp]: "progress P P"
  by (simp add: progress_def)

lemma progress_trans: "progress P Q \<Longrightarrow> progress Q R \<Longrightarrow> progress P R"
  by (auto simp: progress_def)

lemma reduce_new_item_progress: "progress P (reduce_new_item F t Symbols R Path g item P)"
proof -
  obtain created v P1 where cr: "CreateOrReuseNode g P = (created, v, P1)" by (metis prod_cases3)
  define A where "A = (if created then P1\<lparr>m_ActiveNodes := oset_insert (<) v (m_ActiveNodes P1)\<rparr> else P1)"
  have c: "created \<Longrightarrow> v = length (m_StateNodes P) \<and> m_StateNodes P1 = m_StateNodes P @ [state_node g]"
    "\<not> created \<Longrightarrow> P1 = P"
    using cr by (auto simp: CreateOrReuseNode_def split: if_splits option.splits)
  have ns: "\<exists>ns. P1 = P\<lparr>m_StateNodes := ns\<rparr>"
  proof -
    have "P1 = P \<or> P1 = P\<lparr>m_StateNodes := m_StateNodes P @ [state_node g]\<rparr>"
      using cr by (auto simp: CreateOrReuseNode_def split: if_splits option.splits)
    moreover have "P = P\<lparr>m_StateNodes := m_StateNodes P\<rparr>" by simp
    ultimately show ?thesis by metis
  qed
  then have A: "m_PendingReductions A = m_PendingReductions P" "m_PendingShifts A = m_PendingShifts P"
    "m_SymbolNodes A = m_SymbolNodes P" "m_bBreakAfterMaxSymbolNodesCount A = m_bBreakAfterMaxSymbolNodesCount P"
    by (auto simp: A_def)
  obtain SN s P2 where split: "HasPathOfLengthTwo F item v (last Path) (m_InputStart SN) A = None \<and>
       (s, P2) = add_symbol_node t Symbols g v (hd Path) SN A \<or>
     HasPathOfLengthTwo F item v (last Path) (m_InputStart SN) A = Some s \<and>
       P2 = upd_symbol s (AddInputItem (GetWeight F) (Some item)) A"
    and e: "reduce_new_item F t Symbols R Path g item P = upd_symbol s (\<lambda>x. x\<lparr>m_ParseChildren := m_ParseChildren x @
       [\<lparr>m_ReduceRule = m_pReduceRule R, pc_Items = path_symbols Path\<rparr>]\<rparr>) P2"
    using reduce_new_item_eq [OF cr A_def, of t R Path F item Symbols] by blast
  have "progress P P2"
    using split
  proof (elim disjE conjE)
    assume eq: "(s, P2) = add_symbol_node t Symbols g v (hd Path) SN A"
    obtain ps where "P2 = (upd_state (hd Path) (\<lambda>x. x\<lparr>m_ReducedTo := oset_insert (<) v (m_ReducedTo x)\<rparr>)
      (upd_state v (\<lambda>x. x\<lparr>m_SymbolChildren := m_SymbolChildren x @ [length (m_SymbolNodes A)]\<rparr>)
        (A\<lparr>m_SymbolNodes := m_SymbolNodes A @ [SN]\<rparr>)))\<lparr>m_PendingReductions := ps\<rparr>"
      using add_symbol_node_eq(2) [OF eq [symmetric]] by blast
    then show ?thesis using A by (simp add: progress_def)
  next
    assume find: "HasPathOfLengthTwo F item v (last Path) (m_InputStart SN) A = Some s"
      and eq: "P2 = upd_symbol s (AddInputItem (GetWeight F) (Some item)) A"
    have "s \<in> set (m_SymbolChildren (m_StateNodes A ! v))" using HasPathOfLengthTwo_SomeD(1) [OF find] .
    then have "\<not> created" using c(1) by (auto simp: A_def state_node_def)
    then have "A = P" using c(2) by (simp add: A_def)
    then show ?thesis by (simp add: progress_def eq)
  qed
  then show ?thesis by (simp add: progress_def e)
qed

lemma ReduceOnePath_progress: "progress P (ReduceOnePath F t Symbols R Path P)"
proof (cases F t Symbols R Path P rule: ReduceOnePath_cases)
  case (reduced f n d b item)
  then show ?thesis
    using reduce_new_item_progress [of "P\<lparr>m_Factory := f, m_iCreatedGroups := n, m_bDisableWORDSStateNodes := d, m_BuiltGROUPs := b\<rparr>"
        F t Symbols R Path "reduce_goto t R (last Path) P" item]
    by (simp add: progress_def)
qed (simp add: progress_def)

end
