(* ===== verification/GLRReducer.thy ===== *)
theory GLRReducer
  imports GLRSteps
begin

text \<open>
  \<^verbatim>\<open>Reducer\<close>: its depth-first search with an explicit stack ends, and it reduces exactly the paths of
  the length of the rule that start with the node and the symbol node of the pending reduction, as they
  were when it started, each once and in the order of the children. The nodes the search walks over
  are not changed by the reductions it makes, since only nodes of the last level get new children.
\<close>

section \<open>The paths of the search\<close>

definition kids :: "gss \<Rightarrow> nat list \<Rightarrow> nat list" where
  "kids g Path = (if length Path mod 2 = 0 then gbelow g (last Path) else gchildren g (last Path))"

text \<open>All extensions of a path by \<open>n\<close> nodes, in the order of the children.\<close>

fun walks :: "gss \<Rightarrow> nat \<Rightarrow> nat list \<Rightarrow> nat list list" where
  "walks g 0 Path = [Path]"
| "walks g (Suc n) Path = concat (map (\<lambda>c. walks g n (Path @ [c])) (kids g Path))"

definition stack_path :: "gss \<Rightarrow> nat \<Rightarrow> nat list \<Rightarrow> bool" where
  "stack_path g v Path \<longleftrightarrow> v < gnodes g \<and>
     (\<exists>es w. gpath g v es w \<and> (Path = flat_path v es \<or> (\<exists>s \<in> set (gchildren g w). Path = flat_path v es @ [s])))"

lemma gpath_snoc: "gpath g v es w \<Longrightarrow> s \<in> set (gchildren g w) \<Longrightarrow> u \<in> set (gbelow g s) \<Longrightarrow> gpath g v (es @ [(s, u)]) u"
  by (induction es arbitrary: v) auto

lemma flat_path_snoc: "flat_path v (es @ [(s, u)]) = flat_path v es @ [s, u]"
  by (simp add: flat_path_def)

lemma flat_path_end: "gpath g v es w \<Longrightarrow> flat_path v es ! (2 * length es) = w"
proof -
  have "flat_path v es \<noteq> []" by (simp add: flat_path_def)
  then show "gpath g v es w \<Longrightarrow> flat_path v es ! (2 * length es) = w"
    using flat_path_last [of g v es w] by (simp add: last_conv_nth)
qed

lemma stack_path_cases [consumes 1, case_names node symbol]:
  assumes "stack_path g v Path"
  obtains es w where "gpath g v es w" "Path = flat_path v es" "last Path = w" "length Path = 2 * length es + 1"
  | es w s where "gpath g v es w" "s \<in> set (gchildren g w)" "Path = flat_path v es @ [s]" "length Path = 2 * length es + 2"
    "Path ! (2 * length es) = w"
proof -
  obtain es w where es: "gpath g v es w" "Path = flat_path v es \<or> (\<exists>s \<in> set (gchildren g w). Path = flat_path v es @ [s])"
    using assms by (auto simp: stack_path_def)
  have last: "last (flat_path v es) = w" by (rule flat_path_last [OF es(1)])
  show ?thesis
    using es(2)
  proof
    assume "Path = flat_path v es"
    then show ?thesis using that(1) es(1) last by simp
  next
    assume "\<exists>s \<in> set (gchildren g w). Path = flat_path v es @ [s]"
    then obtain s where s: "s \<in> set (gchildren g w)" "Path = flat_path v es @ [s]" by blast
    have "Path ! (2 * length es) = w" using flat_path_end [OF es(1)] by (simp add: s(2) nth_append)
    then show ?thesis using that(2) [OF es(1) s(1,2)] by (simp add: s(2))
  qed
qed

text \<open>A step of the search goes down in the order of the nodes, so the search ends.\<close>

definition path_rank :: "nat list \<Rightarrow> nat" where
  "path_rank Path = (if length Path mod 2 = 0 then 2 * Path ! (length Path - 2) else 2 * last Path + 1)"

lemma stack_path_kid:
  assumes inv: "gss_inv G N t inputs g" and path: "stack_path g v Path" and c: "c \<in> set (kids g Path)"
  shows "stack_path g v (Path @ [c])" "path_rank (Path @ [c]) < path_rank Path"
proof -
  have v: "v < gnodes g" using path by (simp add: stack_path_def)
  have "stack_path g v (Path @ [c]) \<and> path_rank (Path @ [c]) < path_rank Path"
    using path
  proof (cases rule: stack_path_cases)
    case (node es w)
    have "c \<in> set (gchildren g w)" using c node by (simp add: kids_def)
    moreover have "path_rank (Path @ [c]) = 2 * last Path"
      using node flat_path_end [OF node(1)] by (simp add: path_rank_def nth_append)
    ultimately show ?thesis using v node by (auto simp: stack_path_def path_rank_def)
  next
    case (symbol es w s)
    have u: "c \<in> set (gbelow g s)" using c symbol by (simp add: kids_def)
    have w: "w < gnodes g"
      using gpath_end(1) [OF inv symbol(1) v] symbol(1) v by (cases es) auto
    have "c < w" using edge_facts(9) [OF inv w symbol(2) u] .
    moreover have "gpath g v (es @ [(s, c)]) c" "Path @ [c] = flat_path v (es @ [(s, c)])"
      using gpath_snoc [OF symbol(1,2) u] symbol(3) by (simp_all add: flat_path_snoc)
    moreover have "path_rank (Path @ [c]) = 2 * c + 1" "path_rank Path = 2 * w"
      using symbol(4,5) by (simp_all add: path_rank_def)
    ultimately show ?thesis using v by (auto simp: stack_path_def)
  qed
  then show "stack_path g v (Path @ [c])" "path_rank (Path @ [c]) < path_rank Path" by simp_all
qed

text \<open>Beyond the first node the reductions do not change what the search sees.\<close>

lemma kids_ext:
  assumes inv: "gss_inv G N t inputs g" and path: "stack_path g v Path" "2 \<le> length Path" and ext: "reduce_ext g g'"
  shows "kids g' Path = kids g Path"
  using path(1)
proof (cases rule: stack_path_cases)
  case (node es w)
  have v: "v < gnodes g" using path by (simp add: stack_path_def)
  have es: "es \<noteq> []" using node path(2) by auto
  note e = gpath_end [OF inv node(1) v es]
  have "length (g_levels g) \<noteq> 1"
    using es node(1) edge_facts(11) [OF inv v, of "fst (hd es)" "snd (hd es)"] by (cases es) auto
  then show ?thesis using ext e node by (simp add: kids_def reduce_ext_def)
next
  case (symbol es w s)
  have v: "v < gnodes g" using path by (simp add: stack_path_def)
  have "w < gnodes g" using gpath_end(1) [OF inv symbol(1) v] symbol(1) v by (cases es) auto
  then have "s < gsyms g" using inv symbol(2) by (auto simp: gss_inv_def node_inv_def)
  then show ?thesis using ext symbol by (simp add: kids_def reduce_ext_def)
qed

lemma dfs_children_kids:
  assumes inv: "gss_inv G N t inputs g" and path: "stack_path g v Path" "2 \<le> length Path" and ext: "reduce_ext g (gss_of P)"
  shows "dfs_children P Path = kids g Path"
proof -
  have v: "v < gnodes g" and le: "gnodes g \<le> length (m_StateNodes P)" "gsyms g \<le> length (m_SymbolNodes P)"
    using path ext by (simp_all add: stack_path_def reduce_ext_def gss_ext_def)
  have "dfs_children P Path = kids (gss_of P) Path"
    using path(1)
  proof (cases rule: stack_path_cases)
    case (node es w)
    have "w < gnodes g" using gpath_end(1) [OF inv node(1) v] node(1) v by (cases es) auto
    then show ?thesis using node le by (simp add: dfs_children_def kids_def)
  next
    case (symbol es w s)
    have "w < gnodes g" using gpath_end(1) [OF inv symbol(1) v] symbol(1) v by (cases es) auto
    then have "s < gsyms g" using inv symbol(2) by (auto simp: gss_inv_def node_inv_def)
    then show ?thesis using symbol le by (simp add: dfs_children_def kids_def)
  qed
  then show ?thesis using kids_ext [OF inv path ext] by simp
qed

lemma walks_stack_path:
  assumes inv: "gss_inv G N t inputs g"
  shows "stack_path g v Path \<Longrightarrow> Q \<in> set (walks g n Path) \<Longrightarrow> stack_path g v Q \<and> length Q = length Path + n"
proof (induction n arbitrary: Path)
  case (Suc n)
  then show ?case using stack_path_kid(1) [OF inv Suc.prems(1)] by fastforce
qed simp

section \<open>The search reduces the paths in order\<close>

text \<open>The situation inside \<^verbatim>\<open>Reducer\<close>: \<open>g\<close> is the stack when it started, \<open>R\<close> the reduction.\<close>

definition reducing :: "('b CWorkGrammar_scheme) \<Rightarrow> (nat \<Rightarrow> CLRItem set) \<Rightarrow> nat \<Rightarrow> 'a CGLRTable \<Rightarrow> symbol set list
    \<Rightarrow> nat list \<Rightarrow> gss \<Rightarrow> CPendingReduction \<Rightarrow> ('i, 'f) CGLRParser \<Rightarrow> bool" where
  "reducing G I N t inputs Symbols g R P \<longleftrightarrow>
     wf_grammar G \<and> lr_table G I N t \<and> (\<forall>X \<in> set Symbols. grammar_symbol G X) \<and>
     gss_inv G N t inputs g \<and> pending_ok G I t inputs g R \<and>
     step_inv G I N t inputs Symbols P \<and> reduce_ext g (gss_of P)"

definition rule_length :: "'a CGLRTable \<Rightarrow> CPendingReduction \<Rightarrow> nat" where
  "rule_length t R = info_RuleLength (m_RuleInfos t ! m_pReduceRule R)"

lemma reducing_length:
  assumes "reducing G I N t inputs Symbols g R P"
  shows "0 < rule_length t R"
proof -
  obtain r where "r \<in> set (m_EncodedRules G)" "rule_length t R = length (rhs r)"
    using assms by (auto simp: reducing_def pending_ok_def reducible_def rule_length_def)
  then show ?thesis using assms wf_grammar_ruleD(1) [of G r] by (simp add: reducing_def)
qed

lemma reducing_path:
  assumes red: "reducing G I N t inputs Symbols g R P"
    and Q: "stack_path g (m_LastStateNodeNo R) Q" "length Q = 2 * rule_length t R + 1"
  shows "reducing G I N t inputs Symbols g R (ReduceOnePath F t Symbols R Q P)"
proof -
  obtain es w where es: "gpath g (m_LastStateNodeNo R) es w" "Q = flat_path (m_LastStateNodeNo R) es" "length es = rule_length t R"
    using Q(1)
  proof (cases rule: stack_path_cases)
    case (node es w)
    then show ?thesis using that [of es w] Q(2) by simp
  next
    case (symbol es w s)
    then have "odd (length Q) \<longleftrightarrow> False" by simp
    then show ?thesis using Q(2) by simp
  qed
  have ne: "es \<noteq> []" using es(3) reducing_length [OF red] by auto
  have inv: "gss_inv G N t inputs g" and ext: "reduce_ext g (gss_of P)" using red by (simp_all add: reducing_def)
  have "reduction_path G I t inputs g R es w"
    using red es(1,3) ne by (auto simp: reduction_path_def reducing_def pending_ok_def reducible_def rule_length_def)
  then have "reduction_path G I t inputs (gss_of P) R es w" by (rule reduction_path_ext [OF _ inv ext])
  then show ?thesis
    using ReduceOnePath_inv [of G I N t Symbols inputs P R es w "ReduceOnePath F t Symbols R Q P" F] red reduce_ext_trans [OF ext]
    unfolding reducing_def es(2) by blast
qed

lemma reducing_paths:
  assumes "reducing G I N t inputs Symbols g R P"
    and "\<forall>Q \<in> set Qs. stack_path g (m_LastStateNodeNo R) Q \<and> length Q = 2 * rule_length t R + 1"
  shows "reducing G I N t inputs Symbols g R (fold (ReduceOnePath F t Symbols R) Qs P)"
  using assms
proof (induction Qs arbitrary: P)
  case (Cons Q Qs)
  then show ?case using reducing_path [OF Cons.prems(1), of Q F] by simp
qed simp

text \<open>The paths that the search has still to reduce below \<open>Path\<close>; none beyond the length of the rule.\<close>

definition below :: "gss \<Rightarrow> nat \<Rightarrow> nat list \<Rightarrow> nat list list" where
  "below g len Path = (if length Path \<le> len then walks g (len - length Path) Path else [])"

lemma below_paths:
  assumes "gss_inv G N t inputs g" "stack_path g v Path" "Q \<in> set (below g len Path)"
  shows "stack_path g v Q \<and> length Q = len"
  using walks_stack_path [OF assms(1,2)] assms(3) by (fastforce simp: below_def split: if_splits)

lemma below_step: "length Path < len \<Longrightarrow> below g len Path = concat (map (\<lambda>c. below g len (Path @ [c])) (kids g Path))"
proof -
  assume "length Path < len"
  then obtain n where "len - length Path = Suc n" "len - Suc (length Path) = n" "Suc (length Path) \<le> len"
    by (metis Suc_diff_Suc Suc_leI)
  then show ?thesis by (simp add: below_def)
qed

definition resume ::
  "('i, 'a, 'f) CInputItemFactory \<Rightarrow> 'a CGLRTable \<Rightarrow> nat list \<Rightarrow> CPendingReduction
     \<Rightarrow> nat list \<Rightarrow> nat list \<Rightarrow> ('i, 'f) CGLRParser \<Rightarrow> ('i, 'f) CGLRParser option" where
  "resume F t Symbols R Path Starts P =
     (let (Path, Starts) = reducer_back P Path Starts
      in if length Path \<noteq> 1 then reducer_loop F t Symbols R Path Starts P else Some P)"

lemma resume_back:
  assumes "2 \<le> length Path"
  shows "resume F t Symbols R Path (Sts @ [i]) P =
    (if i + 1 < length (dfs_children P Path)
     then reducer_loop F t Symbols R (Path @ [dfs_children P Path ! (i + 1)]) (Sts @ [i + 1, 0]) P
     else resume F t Symbols R (butlast Path) Sts P)"
proof -
  have "Path \<noteq> []" "length Path > 1" using assms by auto
  then show ?thesis unfolding resume_def by (subst reducer_back.simps) (simp add: Let_def)
qed

lemma reducer_loop_unfold:
  assumes "2 \<le> length Path"
  shows "reducer_loop F t Symbols R Path Starts P =
    (let P = (if length Path = 2 * rule_length t R + 1 then ReduceOnePath F t Symbols R Path P else P)
     in if length Path \<le> 2 * rule_length t R \<and> dfs_children P Path \<noteq> []
        then reducer_loop F t Symbols R (Path @ [hd (dfs_children P Path)]) (Starts @ [0]) P
        else resume F t Symbols R Path Starts P)"
  using assms by (subst reducer_loop.simps) (auto simp: reducer_step_def Let_def resume_def rule_length_def split: prod.split)

lemma concat_map_Nil: "concat (map (\<lambda>c. []) xs) = []"
  by (induction xs) simp_all

lemma reducer_search:
  fixes P :: "('i, 'f) CGLRParser"
  assumes "reducing G I N t inputs Symbols g R P" "stack_path g (m_LastStateNodeNo R) Path" "2 \<le> length Path"
  shows "reducer_loop F t Symbols R Path (Sts @ [0]) P =
    resume F t Symbols R (butlast Path) Sts (fold (ReduceOnePath F t Symbols R) (below g (2 * rule_length t R + 1) Path) P)"
  using assms
proof (induction "path_rank Path" arbitrary: Path Sts P rule: less_induct)
  case less
  let ?len = "2 * rule_length t R + 1"
  let ?red = "ReduceOnePath F t Symbols R"
  note path = less.prems(2,3)
  have inv: "gss_inv G N t inputs g" using less.prems(1) by (simp add: reducing_def)
  have kids: "dfs_children S Path = kids g Path" if "reducing G I N t inputs Symbols g R S" for S :: "('i, 'f) CGLRParser"
    using dfs_children_kids [OF inv path, of S] that by (simp add: reducing_def)
  have child: "reducer_loop F t Symbols R (Path @ [c]) (Sts' @ [0]) S =
      resume F t Symbols R Path Sts' (fold ?red (below g ?len (Path @ [c])) S)"
    if "c \<in> set (kids g Path)" "reducing G I N t inputs Symbols g R S" for c Sts' S
    using less.hyps [OF stack_path_kid(2) [OF inv path(1) that(1)] that(2) stack_path_kid(1) [OF inv path(1) that(1)]] path(2) by simp
  have keep: "reducing G I N t inputs Symbols g R (fold ?red (below g ?len (Path @ [c])) S)"
    if "c \<in> set (kids g Path)" "reducing G I N t inputs Symbols g R S" for c S
    using reducing_paths [OF that(2)] below_paths [OF inv stack_path_kid(1) [OF inv path(1) that(1)]] by blast
  have siblings: "resume F t Symbols R Path (Sts @ [i]) S =
      resume F t Symbols R (butlast Path) Sts
        (fold ?red (concat (map (\<lambda>c. below g ?len (Path @ [c])) (drop (i + 1) (kids g Path)))) S)"
    if "reducing G I N t inputs Symbols g R S" for i S
    using that
  proof (induction "length (kids g Path) - i" arbitrary: i S)
    case 0
    then show ?case using resume_back [OF path(2), of F t Symbols R Sts i S] kids by simp
  next
    case (Suc n)
    show ?case
    proof (cases "i + 1 < length (kids g Path)")
      case True
      then have "drop (i + 1) (kids g Path) = kids g Path ! (i + 1) # drop (i + 1 + 1) (kids g Path)"
        by (simp add: Cons_nth_drop_Suc)
      then show ?thesis
        using Suc.hyps(1) [of "i + 1" "fold ?red (below g ?len (Path @ [kids g Path ! (i + 1)])) S"] Suc.hyps(2) True
          resume_back [OF path(2), of F t Symbols R Sts i S] child [of "kids g Path ! (i + 1)" S "Sts @ [i + 1]"]
          keep [of "kids g Path ! (i + 1)" S] Suc.prems kids [OF Suc.prems] by simp
    next
      case False
      then show ?thesis using resume_back [OF path(2), of F t Symbols R Sts i S] kids Suc.prems by simp
    qed
  qed
  consider "length Path < ?len" | "length Path = ?len" | "?len < length Path" by linarith
  then show ?case
  proof cases
    case 1
    show ?thesis
    proof (cases "kids g Path")
      case Nil
      then show ?thesis using 1 reducer_loop_unfold [OF path(2), of F t Symbols R "Sts @ [0]" P] siblings [OF less.prems(1), of 0] kids [OF less.prems(1)]
        by (simp add: below_step)
    next
      case (Cons c cs)
      then show ?thesis
        using 1 reducer_loop_unfold [OF path(2), of F t Symbols R "Sts @ [0]" P] kids [OF less.prems(1)]
          child [of c P "Sts @ [0]"] siblings [OF keep [OF _ less.prems(1)], of c 0] less.prems(1)
        by (simp add: below_step)
    qed
  next
    case 2
    have r: "reducing G I N t inputs Symbols g R (?red Path P)" by (rule reducing_path [OF less.prems(1) path(1) 2])
    then show ?thesis using 2 reducer_loop_unfold [OF path(2), of F t Symbols R "Sts @ [0]" P] siblings [OF r, of 0] by (simp add: below_def concat_map_Nil)
  next
    case 3
    then show ?thesis using 3 reducer_loop_unfold [OF path(2), of F t Symbols R "Sts @ [0]" P] siblings [OF less.prems(1), of 0]
      by (simp add: below_def concat_map_Nil)
  qed
qed

text \<open>The state in which \<^verbatim>\<open>ParseSymbol\<close> calls \<^verbatim>\<open>Reducer\<close>.\<close>

lemma reducing_start:
  assumes "wf_grammar G" "lr_table G I N t" "\<forall>X \<in> set Symbols. grammar_symbol G X"
    and inv: "step_inv G I N t inputs Symbols P" and ne: "m_PendingReductions P \<noteq> []"
  defines "R \<equiv> hd (m_PendingReductions P)" and "Q \<equiv> P\<lparr>m_PendingReductions := tl (m_PendingReductions P)\<rparr>"
  shows "reducing G I N t inputs Symbols (gss_of P) R Q"
    and "stack_path (gss_of P) (m_LastStateNodeNo R) [m_LastStateNodeNo R, m_SymbolNodeNo R]"
proof -
  have R: "pending_ok G I t inputs (gss_of P) R" using inv ne by (simp add: R_def step_inv_def)
  have g: "gss_of Q = gss_of P" by (simp add: Q_def)
  have "step_inv G I N t inputs Symbols Q"
    using inv list.set_sel(2) [OF ne] unfolding step_inv_def g by (simp add: Q_def)
  then show "reducing G I N t inputs Symbols (gss_of P) R Q"
    using assms(1-3) inv R by (simp add: reducing_def g step_inv_def)
  have "flat_path (m_LastStateNodeNo R) [] @ [m_SymbolNodeNo R] = [m_LastStateNodeNo R, m_SymbolNodeNo R]"
    by (simp add: flat_path_def)
  then show "stack_path (gss_of P) (m_LastStateNodeNo R) [m_LastStateNodeNo R, m_SymbolNodeNo R]"
    using R unfolding stack_path_def pending_ok_def by (metis gpath.simps(1))
qed

lemma Reducer_eq:
  assumes "wf_grammar G" "lr_table G I N t" "\<forall>X \<in> set Symbols. grammar_symbol G X"
    and "step_inv G I N t inputs Symbols P" "m_PendingReductions P \<noteq> []"
  defines "R \<equiv> hd (m_PendingReductions P)"
  shows "Reducer F t Symbols P =
    Some (fold (ReduceOnePath F t Symbols R)
      (walks (gss_of P) (2 * rule_length t R - 1) [m_LastStateNodeNo R, m_SymbolNodeNo R])
      (P\<lparr>m_PendingReductions := tl (m_PendingReductions P)\<rparr>))"
proof -
  note start = reducing_start [OF assms(1-5), folded R_def]
  have len: "0 < rule_length t R" by (rule reducing_length [OF start(1)])
  have "below (gss_of P) (2 * rule_length t R + 1) [m_LastStateNodeNo R, m_SymbolNodeNo R] =
      walks (gss_of P) (2 * rule_length t R - 1) [m_LastStateNodeNo R, m_SymbolNodeNo R]"
    using len by (simp add: below_def)
  moreover have "resume F t Symbols R [m_LastStateNodeNo R] [0] S = Some S" for S
    by (simp add: resume_def reducer_back.simps)
  ultimately show ?thesis
    using reducer_search [OF start, of F "[0]"] by (simp add: Reducer_def R_def [symmetric])
qed

lemma reductions_progress: "progress P (fold (ReduceOnePath F t Symbols R) Qs P)"
  by (induction Qs arbitrary: P) (auto intro: progress_trans ReduceOnePath_progress)

lemma Reducer_inv:
  assumes "wf_grammar G" "lr_table G I N t" "\<forall>X \<in> set Symbols. grammar_symbol G X"
    and "step_inv G I N t inputs Symbols P" "m_PendingReductions P \<noteq> []"
  obtains P' where "Reducer F t Symbols P = Some P'" "step_inv G I N t inputs Symbols P'"
    "reduce_ext (gss_of P) (gss_of P')" "progress (P\<lparr>m_PendingReductions := tl (m_PendingReductions P)\<rparr>) P'"
proof -
  let ?R = "hd (m_PendingReductions P)"
  let ?Q = "P\<lparr>m_PendingReductions := tl (m_PendingReductions P)\<rparr>"
  let ?walks = "walks (gss_of P) (2 * rule_length t ?R - 1) [m_LastStateNodeNo ?R, m_SymbolNodeNo ?R]"
  note start = reducing_start [OF assms]
  have "0 < rule_length t ?R" by (rule reducing_length [OF start(1)])
  then have "\<forall>Q \<in> set ?walks. stack_path (gss_of P) (m_LastStateNodeNo ?R) Q \<and> length Q = 2 * rule_length t ?R + 1"
    using walks_stack_path [OF _ start(2), of G N t inputs] assms(4) by (fastforce simp: step_inv_def)
  then have red: "reducing G I N t inputs Symbols (gss_of P) ?R (fold (ReduceOnePath F t Symbols ?R) ?walks ?Q)"
    by (rule reducing_paths [OF start(1)])
  then show ?thesis
    using that Reducer_eq [OF assms, of F] reductions_progress unfolding reducing_def by blast
qed

end
