(* ===== verification/GLRParse.thy ===== *)
theory GLRParse
  imports GLRReducer
begin

text \<open>
  \<^verbatim>\<open>ParseSymbol\<close>: one symbol set of the input. From a parser whose stack is closed, the loop over active
  nodes and pending reductions ends (\<^verbatim>\<open>m_bBreakAfterMaxSymbolNodesCount\<close> bounds the symbol nodes), and the
  parser is closed again over the longer input.
\<close>

section \<open>The parser between two symbols\<close>

lemma gss_extD:
  assumes "gss_ext g g'"
  shows "s < gsyms g \<Longrightarrow> gsym g' s = gsym g s" "s < gsyms g \<Longrightarrow> gstart g' s = gstart g s" "s < gsyms g \<Longrightarrow> gend g' s = gend g s"
    and "s < gsyms g \<Longrightarrow> s < gsyms g'" "v < gnodes g \<Longrightarrow> v < gnodes g'"
    "v < gnodes g \<Longrightarrow> gstate g' v = gstate g v" "v < gnodes g \<Longrightarrow> gpos g' v = gpos g v"
  using assms by (simp_all add: gss_ext_def)

definition parser_ready :: "('b CWorkGrammar_scheme) \<Rightarrow> nat \<Rightarrow> 'a CGLRTable \<Rightarrow> symbol set list \<Rightarrow> ('i, 'f) CGLRParser \<Rightarrow> bool" where
  "parser_ready G N t inputs P \<longleftrightarrow>
     gss_inv G N t inputs (gss_of P) \<and> m_PendingReductions P = [] \<and> m_PendingShifts P = [] \<and>
     last (m_InputLevels P) = length (m_StateNodes P)"

lemma parser_ready_init:
  assumes "lr_table G I N t"
  shows "parser_ready G N t [] (InitGLRParser P)"
  using lr_tableD(1) [OF assms]
  by (simp add: parser_ready_def InitGLRParser_def gss_inv_defs gss_of_def node_of_def state_node_def)

lemma set_fold_insert: "set (fold (oset_insert (<)) xs ys) \<subseteq> set xs \<union> set ys"
  using set_oset_insert_all_subset unfolding oset_insert_all_def .

lemma parse_start_inv:
  assumes ready: "parser_ready G N t inputs P"
  shows "step_inv G I N t inputs Symbols (parse_start b P)" "gss_of (parse_start b P) = gss_of P"
    and "m_bBreakAfterMaxSymbolNodesCount (parse_start b P) = m_bBreakAfterMaxSymbolNodesCount P"
    and "m_PendingShifts (parse_start b P) = []"
proof -
  show g: "gss_of (parse_start b P) = gss_of P" by (simp add: parse_start_def Let_def)
  have inv: "gss_inv G N t inputs (gss_of P)" using ready by (simp add: parser_ready_def)
  then have lev: "levels_inv inputs (gss_of P)" by (simp add: gss_inv_def)
  let ?start = "if length (m_InputLevels P) > 1 then m_InputLevels P ! (length (m_InputLevels P) - 2) else 0"
  have pos: "gpos (gss_of P) v = length inputs" if "?start \<le> v" for v
  proof -
    have "\<forall>x \<in> set (butlast (m_InputLevels P)). x \<le> v"
    proof (cases "m_InputLevels P" rule: rev_cases)
      case (snoc bs b)
      then show ?thesis
      proof (cases bs rule: rev_cases)
        case (snoc cs c)
        then show ?thesis using that lev \<open>m_InputLevels P = bs @ [b]\<close>
          by (auto simp: levels_inv_def sorted_append nth_append butlast_append)
      qed simp
    qed simp
    then have "filter (\<lambda>x. x \<le> v) (butlast (m_InputLevels P)) = butlast (m_InputLevels P)" by (simp add: filter_id_conv)
    then show ?thesis using lev by (simp add: gpos_def levels_inv_def)
  qed
  have zero: "active_ok inputs (gss_of P) 0" using gss_inv_nodes [OF inv] by (simp add: active_ok_def)
  have act: "active_ok inputs (gss_of P) v" if "v \<in> set (fold (oset_insert (<)) [?start..<last (m_InputLevels P)] [])" for v
    using that set_fold_insert [of "[?start..<last (m_InputLevels P)]" "[]"] pos ready
    by (auto simp: active_ok_def parser_ready_def)
  have "m_ActiveNodes (parse_start b P) =
      (if b then oset_insert (<) 0 (fold (oset_insert (<)) [?start..<last (m_InputLevels P)] [])
       else fold (oset_insert (<)) [?start..<last (m_InputLevels P)] [])"
    by (simp add: parse_start_def Let_def)
  then have "\<forall>v \<in> set (m_ActiveNodes (parse_start b P)). active_ok inputs (gss_of P) v"
    using act zero set_oset_insert_subset [of "(<)" 0 "fold (oset_insert (<)) [?start..<last (m_InputLevels P)] []"] by auto
  then show "step_inv G I N t inputs Symbols (parse_start b P)"
    using inv ready unfolding step_inv_def g by (simp add: parse_start_def Let_def parser_ready_def)
qed (use ready in \<open>simp_all add: parse_start_def Let_def parser_ready_def\<close>)

section \<open>The loop of a step\<close>

lemma Actor_same:
  fixes P :: "('i, 'f) CGLRParser"
  shows "m_bBreakAfterMaxSymbolNodesCount (Actor t Symbols P) = m_bBreakAfterMaxSymbolNodesCount P"
  "m_SymbolNodes (Actor t Symbols P) = m_SymbolNodes P"
proof -
  have one: "m_bBreakAfterMaxSymbolNodesCount (actor_symbol t v X S) = m_bBreakAfterMaxSymbolNodesCount S \<and>
      m_SymbolNodes (actor_symbol t v X S) = m_SymbolNodes S" for v X and S :: "('i, 'f) CGLRParser"
    by (simp add: actor_symbol_cell add_reductions_fold split: option.split)
  have "m_bBreakAfterMaxSymbolNodesCount (fold (actor_symbol t v) Xs S) = m_bBreakAfterMaxSymbolNodesCount S \<and>
      m_SymbolNodes (fold (actor_symbol t v) Xs S) = m_SymbolNodes S" for v Xs and S :: "('i, 'f) CGLRParser"
    by (induction Xs arbitrary: S) (simp_all add: one)
  then show "m_bBreakAfterMaxSymbolNodesCount (Actor t Symbols P) = m_bBreakAfterMaxSymbolNodesCount P"
    "m_SymbolNodes (Actor t Symbols P) = m_SymbolNodes P" by (simp_all add: Actor_def)
qed

text \<open>One turn of the loop.\<close>

definition parse_turn ::
  "('i, 'a, 'f) CInputItemFactory \<Rightarrow> 'a CGLRTable \<Rightarrow> nat list \<Rightarrow> ('i, 'f) CGLRParser \<Rightarrow> ('i, 'f) CGLRParser option" where
  "parse_turn F t Symbols P =
     (if m_ActiveNodes P \<noteq> [] then Some (Actor t Symbols P) else Reducer F t Symbols P)"

definition parse_rank :: "('i, 'f) CGLRParser rel" where
  "parse_rank = measures [\<lambda>P. MaxSymbolNodesCount - length (m_SymbolNodes P),
     \<lambda>P. length (m_ActiveNodes P), \<lambda>P. length (m_PendingReductions P)]"

lemma parse_turn_inv:
  assumes "wf_grammar G" "lr_table G I N t" "\<forall>X \<in> set Symbols. grammar_symbol G X"
    and inv: "step_inv G I N t inputs Symbols P" and more: "m_ActiveNodes P \<noteq> [] \<or> m_PendingReductions P \<noteq> []"
  obtains P' where "parse_turn F t Symbols P = Some P'" "step_inv G I N t inputs Symbols P'" "reduce_ext (gss_of P) (gss_of P')"
    "m_bBreakAfterMaxSymbolNodesCount P' = m_bBreakAfterMaxSymbolNodesCount P"
    "m_bBreakAfterMaxSymbolNodesCount P \<Longrightarrow> \<not> too_many_nodes P' \<Longrightarrow> (P', P) \<in> parse_rank"
proof (cases "m_ActiveNodes P = []")
  case False
  note a = Actor_step_inv [OF assms(2,3) inv False]
  have "(Actor t Symbols P, P) \<in> parse_rank"
    using False a(3) Actor_same(2) [of t Symbols P] by (simp add: parse_rank_def)
  then show ?thesis
    using that [of "Actor t Symbols P"] a Actor_same [of t Symbols P] False by (simp add: parse_turn_def)
next
  case True
  then have ne: "m_PendingReductions P \<noteq> []" using more by simp
  obtain P' where P': "Reducer F t Symbols P = Some P'" "step_inv G I N t inputs Symbols P'" "reduce_ext (gss_of P) (gss_of P')"
    and pr: "progress (P\<lparr>m_PendingReductions := tl (m_PendingReductions P)\<rparr>) P'"
    by (rule Reducer_inv [OF assms(1-3) inv ne])
  have "(P', P) \<in> parse_rank" if "m_bBreakAfterMaxSymbolNodesCount P" "\<not> too_many_nodes P'"
  proof -
    have "length (m_SymbolNodes P') < MaxSymbolNodesCount"
      using that pr by (auto simp: too_many_nodes_def progress_def)
    then show ?thesis using pr ne by (auto simp: parse_rank_def progress_def)
  qed
  then show ?thesis using that [of P'] P' True pr by (simp add: parse_turn_def progress_def)
qed

lemma parse_loop_turn:
  "parse_loop F t Symbols P =
     (if m_ActiveNodes P \<noteq> [] \<or> m_PendingReductions P \<noteq> [] then
        (case parse_turn F t Symbols P of None \<Rightarrow> None
         | Some P' \<Rightarrow> if too_many_nodes P' then Some (False, P') else parse_loop F t Symbols P')
      else Some (True, P))"
  by (subst parse_loop.simps) (auto simp: parse_turn_def split: option.split)

lemma parse_loop_inv:
  assumes "wf_grammar G" "lr_table G I N t" "\<forall>X \<in> set Symbols. grammar_symbol G X"
    and "m_bBreakAfterMaxSymbolNodesCount P" "step_inv G I N t inputs Symbols P"
  shows "\<exists>finished P'. parse_loop F t Symbols P = Some (finished, P') \<and> step_inv G I N t inputs Symbols P' \<and>
     reduce_ext (gss_of P) (gss_of P') \<and> m_bBreakAfterMaxSymbolNodesCount P' \<and>
     (finished \<longrightarrow> m_ActiveNodes P' = [] \<and> m_PendingReductions P' = []) \<and> (\<not> finished \<longrightarrow> too_many_nodes P')"
proof -
  have "wf (parse_rank :: ('i, 'f) CGLRParser rel)" by (simp add: parse_rank_def)
  then show ?thesis
    using assms(4,5)
  proof (induction P rule: wf_induct_rule)
    case (less P)
    show ?case
    proof (cases "m_ActiveNodes P \<noteq> [] \<or> m_PendingReductions P \<noteq> []")
      case True
      obtain P' where P': "parse_turn F t Symbols P = Some P'" "step_inv G I N t inputs Symbols P'" "reduce_ext (gss_of P) (gss_of P')"
        "m_bBreakAfterMaxSymbolNodesCount P'" "\<not> too_many_nodes P' \<Longrightarrow> (P', P) \<in> parse_rank"
        using parse_turn_inv [OF assms(1-3) less.prems(2) True, of F] less.prems(1) by metis
      show ?thesis
      proof (cases "too_many_nodes P'")
        case False
        then obtain finished P2 where "parse_loop F t Symbols P' = Some (finished, P2)" "step_inv G I N t inputs Symbols P2"
          "reduce_ext (gss_of P') (gss_of P2)" "m_bBreakAfterMaxSymbolNodesCount P2"
          "finished \<longrightarrow> m_ActiveNodes P2 = [] \<and> m_PendingReductions P2 = []" "\<not> finished \<longrightarrow> too_many_nodes P2"
          using less.IH [OF P'(5) P'(4,2)] by blast
        then show ?thesis using P'(1) False True reduce_ext_trans [OF P'(3)] by (subst parse_loop_turn) auto
      qed (use P' True in \<open>subst parse_loop_turn, auto\<close>)
    qed (use less.prems in \<open>subst parse_loop_turn, auto\<close>)
  qed
qed

section \<open>Disabling of words\<close>

text \<open>Flags do not matter to the graph; a node may lose its children.\<close>

lemma gss_of_disable_flag: "gss_of (upd_symbol s (\<lambda>x. x\<lparr>sn_bDisabled := True\<rparr>) P) = gss_of P"
  by (rule gss_of_upd_symbol_same) (simp add: symbol_of_def)

lemma disable_symbol_same:
  assumes "disable_symbol b first s (P, n) = (P', n')"
  shows "gss_of P' = gss_of P" "m_PendingShifts P' = m_PendingShifts P" "m_PendingReductions P' = m_PendingReductions P"
    "m_bBreakAfterMaxSymbolNodesCount P' = m_bBreakAfterMaxSymbolNodesCount P"
  using assms gss_of_disable_flag [of s]
  by (auto simp: disable_symbol_def Let_def split: if_splits)

lemma disable_symbols_same:
  assumes "fold (disable_symbol b first) ss (P, n) = (P', n')"
  shows "gss_of P' = gss_of P \<and> m_PendingShifts P' = m_PendingShifts P \<and> m_PendingReductions P' = m_PendingReductions P \<and>
    m_bBreakAfterMaxSymbolNodesCount P' = m_bBreakAfterMaxSymbolNodesCount P"
  using assms
proof (induction ss arbitrary: P n)
  case (Cons s ss)
  obtain Q m where Q: "disable_symbol b first s (P, n) = (Q, m)" by fastforce
  then show ?case using disable_symbol_same [OF Q] Cons by simp
qed simp

definition shrinks :: "('i, 'f) CGLRParser \<Rightarrow> ('i, 'f) CGLRParser \<Rightarrow> bool" where
  "shrinks P P' \<longleftrightarrow>
     gss_ext (gss_of P) (gss_of P') \<and> length (m_StateNodes P') = length (m_StateNodes P) \<and> m_InputLevels P' = m_InputLevels P \<and>
     m_PendingShifts P' = m_PendingShifts P \<and> m_PendingReductions P' = m_PendingReductions P \<and>
     m_bBreakAfterMaxSymbolNodesCount P' = m_bBreakAfterMaxSymbolNodesCount P"

lemma disable_shift_inv:
  assumes inv: "gss_inv G N t inputs (gss_of P)" and v: "m_StateNodeNo S < length (m_StateNodes P)"
  shows "gss_inv G N t inputs (gss_of (disable_shift b first S P))" "shrinks P (disable_shift b first S P)"
proof -
  obtain Q n where Q: "fold (disable_symbol b first) (rev (m_SymbolChildren (m_StateNodes P ! m_StateNodeNo S))) (P, 0) = (Q, n)"
    by fastforce
  note s = disable_symbols_same [OF Q]
  then have g: "gss_of Q = gss_of P" by simp
  have len: "length (m_StateNodes Q) = length (m_StateNodes P)" "m_InputLevels Q = m_InputLevels P"
    using arg_cong [OF g, of gnodes] arg_cong [OF g, of g_levels] by simp_all
  let ?C = "upd_state (m_StateNodeNo S) (\<lambda>v. v\<lparr>m_SymbolChildren := []\<rparr>) Q"
  have "disable_shift b first S P = Q \<or> disable_shift b first S P = ?C"
    using Q by (auto simp: disable_shift_def Let_def)
  moreover have "gss_inv G N t inputs (gss_of ?C)" "gss_ext (gss_of P) (gss_of ?C)"
    using gss_clear_inv [OF inv, of "m_StateNodeNo S"] v len(1) by (simp_all add: gss_of_clear g)
  ultimately show "gss_inv G N t inputs (gss_of (disable_shift b first S P))" "shrinks P (disable_shift b first S P)"
    using inv g len s by (auto simp: shrinks_def)
qed

lemma disable_shifts_inv:
  assumes "gss_inv G N t inputs (gss_of P)" "\<forall>S \<in> set Ss. m_StateNodeNo S < length (m_StateNodes P)"
  shows "gss_inv G N t inputs (gss_of (fold (disable_shift b first) Ss P)) \<and> shrinks P (fold (disable_shift b first) Ss P)"
  using assms
proof (induction Ss arbitrary: P)
  case (Cons S Ss)
  have v: "m_StateNodeNo S < length (m_StateNodes P)" using Cons.prems(2) by simp
  note d = disable_shift_inv [OF Cons.prems(1) v, of b first]
  have "shrinks P P2" if "shrinks (disable_shift b first S P) P2" for P2
    using d(2) that gss_ext_trans by (auto simp: shrinks_def)
  then show ?case using Cons.IH [OF d(1)] Cons.prems(2) d(2) by (auto simp: shrinks_def)
qed (simp add: shrinks_def)

lemma DisableWORDSSrtateNodes_inv:
  assumes "gss_inv G N t inputs (gss_of P)" "\<forall>S \<in> set (m_PendingShifts P). m_StateNodeNo S < length (m_StateNodes P)"
  shows "gss_inv G N t inputs (gss_of (DisableWORDSSrtateNodes P))" "shrinks P (DisableWORDSSrtateNodes P)"
proof -
  let ?Q = "P\<lparr>m_MaxLastGroup := (int (fst (max_group (m_BuiltGROUPs P))), int (snd (max_group (m_BuiltGROUPs P))))\<rparr>"
  have Q: "gss_inv G N t inputs (gss_of ?Q)" "\<forall>S \<in> set (m_PendingShifts P). m_StateNodeNo S < length (m_StateNodes ?Q)"
    using assms by simp_all
  have "shrinks P P2" if "shrinks ?Q P2" for P2 using that by (simp add: shrinks_def)
  then show "gss_inv G N t inputs (gss_of (DisableWORDSSrtateNodes P))" "shrinks P (DisableWORDSSrtateNodes P)"
    using disable_shifts_inv [OF Q] by (simp_all add: DisableWORDSSrtateNodes_def Let_def)
qed

section \<open>Shifter\<close>

text \<open>What holds while the shifts over the symbols of the last set are made.\<close>

definition shifting :: "('b CWorkGrammar_scheme) \<Rightarrow> nat \<Rightarrow> 'a CGLRTable \<Rightarrow> symbol set list \<Rightarrow> nat list \<Rightarrow> ('i, 'f) CGLRParser \<Rightarrow> bool" where
  "shifting G N t inputs Symbols P \<longleftrightarrow>
     gss_inv G N t (inputs @ [set Symbols]) (gss_of P) \<and>
     (\<forall>v < gnodes (gss_of P). last (m_InputLevels P) \<le> v \<longrightarrow>
        (\<forall>s \<in> set (gchildren (gss_of P) v). gstart (gss_of P) s = length inputs))"

lemma spans_terminal:
  assumes "X \<in> set Symbols"
  shows "spans G (inputs @ [set Symbols]) X (length inputs) (Suc (length inputs))"
proof -
  have "matches (inputs @ [set Symbols]) (length inputs) [X]" using assms by (simp add: matches_def)
  moreover have "derives G [X] [X]" by simp
  ultimately show ?thesis unfolding spans_def by (intro exI [of _ "[X]"]) simp
qed

lemma shifting_node:
  assumes shifting: "shifting G N t inputs Symbols P" and j: "j < N" "j \<noteq> 0"
    and eq: "CreateOrReuseNode j P = (created, v, P')"
  shows "shifting G N t inputs Symbols P'" "node_ready j P' v" "gss_ext (gss_of P) (gss_of P')"
    "P' = P\<lparr>m_StateNodes := m_StateNodes P'\<rparr>"
proof -
  have inv: "gss_inv G N t (inputs @ [set Symbols]) (gss_of P)" using shifting by (simp add: shifting_def)
  note c = CreateOrReuseNode_spec [OF inv j eq]
  show "node_ready j P' v" "gss_ext (gss_of P) (gss_of P')" "P' = P\<lparr>m_StateNodes := m_StateNodes P'\<rparr>"
    using c(1,2,4) by (simp_all add: reduce_ext_def)
  have "gstart (gss_of P') s = length inputs"
    if v': "v' < gnodes (gss_of P')" "last (m_InputLevels P') \<le> v'" and s: "s \<in> set (gchildren (gss_of P') v')" for v' s
  proof -
    have l: "m_InputLevels P' = m_InputLevels P" using c(4) by (simp add: reduce_ext_def)
    have old: ?thesis if "v' < gnodes (gss_of P)" "s \<in> set (gchildren (gss_of P) v')"
    proof -
      have "s < gsyms (gss_of P)" using inv that by (auto simp: gss_inv_def node_inv_def)
      moreover have "gstart (gss_of P) s = length inputs" using shifting that v'(2) unfolding shifting_def l by blast
      moreover have "gss_ext (gss_of P) (gss_of P')" using c(4) by (simp add: reduce_ext_def)
      ultimately show ?thesis using gss_extD(2) by metis
    qed
    show ?thesis
    proof (cases created)
      case False
      then show ?thesis using c(5) old v'(1) s by simp
    next
      case True
      then have st: "m_StateNodes P' = m_StateNodes P @ [state_node j]"
        using eq by (auto simp: CreateOrReuseNode_def split: if_splits option.splits)
      then have "v' < gnodes (gss_of P) \<or> v' = gnodes (gss_of P)" using v'(1) by auto
      then show ?thesis
      proof
        assume a: "v' < gnodes (gss_of P)"
        then show ?thesis using s st v'(1) by (intro old) (simp_all add: nth_append)
      next
        assume "v' = gnodes (gss_of P)"
        then show ?thesis using s st v'(1) by (simp add: state_node_def)
      qed
    qed
  qed
  then show "shifting G N t inputs Symbols P'" using c(3) by (simp add: shifting_def)
qed

lemma shifting_leaf:
  assumes shifting: "shifting G N t inputs Symbols P" and X: "X \<in> set Symbols" "grammar_symbol G X"
    and v: "node_ready j P v" and SN: "sn_SymbolNo SN = X" "m_InputStart SN = length inputs" "m_InputEnd SN = Suc (length inputs)"
      "m_NodeChildren SN = []" "m_ParseChildren SN = []"
  defines "P' \<equiv> upd_state v (\<lambda>v. v\<lparr>m_SymbolChildren := m_SymbolChildren v @ [length (m_SymbolNodes P)]\<rparr>)
     (P\<lparr>m_SymbolNodes := m_SymbolNodes P @ [SN]\<rparr>)"
  shows "shifting G N t inputs Symbols P'" "gss_ext (gss_of P) (gss_of P')" "node_ready j P' v"
    "length (m_SymbolNodes P) \<in> set (m_SymbolChildren (m_StateNodes P' ! v))" "m_SymbolNodes P' ! length (m_SymbolNodes P) = SN"
proof -
  have inv: "gss_inv G N t (inputs @ [set Symbols]) (gss_of P)" using shifting by (simp add: shifting_def)
  have v': "v < length (m_StateNodes P)" "v \<noteq> 0" using v by (simp_all add: node_ready_def)
  have pos: "gpos (gss_of P) v = Suc (length inputs)" using node_ready_pos [OF inv v] by simp
  have g: "gss_of P' = gss_add_symbol v (symbol_of SN) (gss_of P)" unfolding P'_def by (rule gss_of_add_symbol [OF v'(1)])
  have x: "g_parses (symbol_of SN) = []" "grammar_symbol G (g_symbol (symbol_of SN))"
    "g_start (symbol_of SN) < g_end (symbol_of SN)" "g_end (symbol_of SN) = gpos (gss_of P) v"
    "\<forall>w \<in> set (g_below (symbol_of SN)). w < gnodes (gss_of P) \<and> (w \<noteq> 0 \<longrightarrow> gpos (gss_of P) w = g_start (symbol_of SN)) \<and>
       cell_goto t (gstate (gss_of P) w) (g_symbol (symbol_of SN)) = Some (gstate (gss_of P) v)"
    "spans G (inputs @ [set Symbols]) (g_symbol (symbol_of SN)) (g_start (symbol_of SN)) (g_end (symbol_of SN))"
    using SN X pos spans_terminal [OF X(1), of G inputs] by simp_all
  have i: "gss_inv G N t (inputs @ [set Symbols]) (gss_of P')" and ext: "gss_ext (gss_of P) (gss_of P')"
    using gss_add_symbol_inv [OF inv _ v'(2) x] v'(1) g by simp_all
  show "gss_ext (gss_of P) (gss_of P')" by (fact ext)
  show "length (m_SymbolNodes P) \<in> set (m_SymbolChildren (m_StateNodes P' ! v))" "m_SymbolNodes P' ! length (m_SymbolNodes P) = SN"
    using v'(1) by (simp_all add: P'_def upd_state_def nth_update)
  show "node_ready j P' v" using v by (auto simp: node_ready_def P'_def upd_state_def nth_update)
  have "gstart (gss_of P') s = length inputs"
    if "u < gnodes (gss_of P')" "last (m_InputLevels P') \<le> u" "s \<in> set (gchildren (gss_of P') u)" for u s
  proof (cases "s = gsyms (gss_of P)")
    case True
    then show ?thesis using SN(2) unfolding g by (simp add: gss_add_symbol_def nth_append)
  next
    case False
    then have s: "s \<in> set (gchildren (gss_of P) u)" "u < gnodes (gss_of P)"
      using that v'(1) unfolding g by (auto simp: gss_add_symbol_def nth_update split: if_splits)
    then have "s < gsyms (gss_of P)" using inv by (auto simp: gss_inv_def node_inv_def)
    moreover have "last (m_InputLevels P) \<le> u" using that(2) by (simp add: P'_def)
    then have "gstart (gss_of P) s = length inputs" using s shifting unfolding shifting_def by blast
    ultimately show ?thesis using gss_extD(2) [OF ext] by metis
  qed
  then show "shifting G N t inputs Symbols P'" using i by (simp add: shifting_def)
qed

lemma shifting_edge:
  assumes shifting: "shifting G N t inputs Symbols P" and S: "shift_ok t inputs Symbols (gss_of P) S"
    and v: "node_ready (m_NextStateNo S) P v" and s: "s \<in> set (m_SymbolChildren (m_StateNodes P ! v))"
    "sn_SymbolNo (m_SymbolNodes P ! s) = ps_SymbolNo S"
    and P': "P' = upd_symbol s (\<lambda>x. x\<lparr>m_NodeChildren := m_NodeChildren x @ [m_StateNodeNo S]\<rparr>) P"
  shows "shifting G N t inputs Symbols P'" "gss_ext (gss_of P) (gss_of P')"
proof -
  let ?g = "gss_of P"
  have inv: "gss_inv G N t (inputs @ [set Symbols]) ?g" using shifting by (simp add: shifting_def)
  have v': "v < gnodes ?g" "s \<in> set (gchildren ?g v)" "last (m_InputLevels P) \<le> v"
    using v s(1) inv by (auto simp: node_ready_def gss_inv_def levels_inv_def)
  then have s': "s < gsyms ?g" and u: "\<And>v'. v' < gnodes ?g \<Longrightarrow> s \<in> set (gchildren ?g v') \<Longrightarrow> v' = v"
    using inv by (auto simp: gss_inv_def node_inv_def)
  have start: "gstart ?g s = length inputs" using shifting v' unfolding shifting_def by blast
  have w: "m_StateNodeNo S < gnodes ?g" "m_StateNodeNo S \<noteq> 0 \<longrightarrow> gpos ?g (m_StateNodeNo S) = gstart ?g s"
    using S start by (auto simp: shift_ok_def)
  have "cell_goto t (gstate ?g (m_StateNodeNo S)) (gsym ?g s) = Some (gstate ?g v)"
    using S s(2) s' v v'(1) by (auto simp: shift_ok_def node_ready_def)
  then have e: "\<forall>v' < gnodes ?g. s \<in> set (gchildren ?g v') \<longrightarrow>
      cell_goto t (gstate ?g (m_StateNodeNo S)) (gsym ?g s) = Some (gstate ?g v')"
    using u by metis
  have g: "gss_of P' = gss_add_below s (m_StateNodeNo S) ?g" using s' gss_of_add_below by (simp add: P')
  note a = gss_add_below_inv [OF inv s' w e, folded g]
  show ext: "gss_ext ?g (gss_of P')" by (fact a(2))
  have "gstart (gss_of P') x = length inputs"
    if "u < gnodes (gss_of P')" "last (m_InputLevels P') \<le> u" "x \<in> set (gchildren (gss_of P') u)" for u x
  proof -
    have x: "u < gnodes ?g" "last (m_InputLevels P) \<le> u" "x \<in> set (gchildren ?g u)" using that by (simp_all add: P')
    then have "x < gsyms ?g" using inv by (auto simp: gss_inv_def node_inv_def)
    moreover have "gstart ?g x = length inputs" using shifting x unfolding shifting_def by blast
    ultimately show ?thesis using gss_extD(2) [OF ext] by metis
  qed
  then show "shifting G N t inputs Symbols P'" using a(1) by (simp add: shifting_def)
qed

definition shift_keeps :: "('i, 'f) CGLRParser \<Rightarrow> ('i, 'f) CGLRParser \<Rightarrow> bool" where
  "shift_keeps P P' \<longleftrightarrow>
     gss_ext (gss_of P) (gss_of P') \<and> m_PendingShifts P' = m_PendingShifts P \<and> m_PendingReductions P' = m_PendingReductions P \<and>
     m_InputLevels P' = m_InputLevels P \<and> m_bBreakAfterMaxSymbolNodesCount P' = m_bBreakAfterMaxSymbolNodesCount P"

lemma shift_keeps_trans: "shift_keeps P Q \<Longrightarrow> shift_keeps Q R \<Longrightarrow> shift_keeps P R"
  unfolding shift_keeps_def using gss_ext_trans by metis

lemma shift_one_inv:
  assumes table: "lr_table G I N t" and syms: "\<forall>X \<in> set Symbols. grammar_symbol G X"
    and shifting: "shifting G N t inputs Symbols P" and S: "shift_ok t inputs Symbols (gss_of P) S"
  shows "shifting G N t inputs Symbols (shift_one F S P)"
    "shift_keeps (P\<lparr>m_PendingShifts := tl (m_PendingShifts P)\<rparr>) (shift_one F S P)"
proof -
  define P0 where "P0 = P\<lparr>m_PendingShifts := tl (m_PendingShifts P)\<rparr>"
  have g0: "gss_of P0 = gss_of P" "m_InputLevels P0 = m_InputLevels P" by (simp_all add: P0_def)
  have s0: "shifting G N t inputs Symbols P0" using shifting unfolding shifting_def g0 .
  have inv: "gss_inv G N t (inputs @ [set Symbols]) (gss_of P0)" using s0 by (simp add: shifting_def)
  have X: "ps_SymbolNo S \<in> set Symbols" "grammar_symbol G (ps_SymbolNo S)"
    using S syms by (simp_all add: shift_ok_def)
  have "gstate (gss_of P) (m_StateNodeNo S) < N" using inv S by (simp add: g0 gss_inv_def node_inv_def shift_ok_def)
  then have j: "m_NextStateNo S < N" "m_NextStateNo S \<noteq> 0"
    using lr_tableD(3) [OF table _ _, of "gstate (gss_of P) (m_StateNodeNo S)" "ps_SymbolNo S"] X(2) S by (auto simp: shift_ok_def grammar_symbol_def)
  have "shifting G N t inputs Symbols (shift_one F S P) \<and> shift_keeps P0 (shift_one F S P)"
  proof (cases "length (m_SymbolChildren (m_StateNodes P0 ! m_StateNodeNo S)) = 0 \<and> m_bDisableWORDSStateNodes P0 \<and>
      length (m_InputLevels P0) > 2")
    case True
    then have "shift_one F S P = P0" by (simp add: shift_one_def P0_def)
    then show ?thesis using s0 by (simp add: shift_keeps_def)
  next
    case False
    obtain created v P1 where cr: "CreateOrReuseNode (m_NextStateNo S) P0 = (created, v, P1)" by (metis prod_cases3)
    note n = shifting_node [OF s0 j cr]
    obtain ns where "P1 = P0\<lparr>m_StateNodes := ns\<rparr>" using n(4) by blast
    then have k1: "shift_keeps P0 P1" and l1: "m_InputLevels P1 = m_InputLevels P0" using n(3) by (simp_all add: shift_keeps_def)
    define found where "found = List.find (\<lambda>s. sn_SymbolNo (m_SymbolNodes P1 ! s) = ps_SymbolNo S) (m_SymbolChildren (m_StateNodes P1 ! v))"
    have finish: "shifting G N t inputs Symbols P3 \<and> shift_keeps P0 P3"
      if P2: "shifting G N t inputs Symbols P2" "shift_keeps P0 P2" "node_ready (m_NextStateNo S) P2 v"
        "s \<in> set (m_SymbolChildren (m_StateNodes P2 ! v))" "sn_SymbolNo (m_SymbolNodes P2 ! s) = ps_SymbolNo S"
        and P3: "P3 = (if FindChild (m_StateNodeNo S) (m_SymbolNodes P2 ! s) = - 1
          then upd_symbol s (\<lambda>x. x\<lparr>m_NodeChildren := m_NodeChildren x @ [m_StateNodeNo S]\<rparr>) P2 else P2)" for s P2 P3
    proof (cases "FindChild (m_StateNodeNo S) (m_SymbolNodes P2 ! s) = - 1")
      case True
      have S2: "shift_ok t inputs Symbols (gss_of P2) S"
        using shift_ok_ext [OF S, of "gss_of P2"] P2(2) by (simp add: shift_keeps_def g0)
      have P3': "P3 = upd_symbol s (\<lambda>x. x\<lparr>m_NodeChildren := m_NodeChildren x @ [m_StateNodeNo S]\<rparr>) P2" using P3 True by simp
      note e = shifting_edge [OF P2(1) S2 P2(3-5) P3']
      have "shift_keeps P2 P3" using e(2) by (simp add: shift_keeps_def P3')
      then show ?thesis using e(1) shift_keeps_trans [OF P2(2)] by blast
    qed (use P2 P3 in simp)
    show ?thesis
    proof (cases found)
      case (Some s)
      have f: "s \<in> set (m_SymbolChildren (m_StateNodes P1 ! v))" "sn_SymbolNo (m_SymbolNodes P1 ! s) = ps_SymbolNo S"
        using find_SomeD [OF Some [unfolded found_def]] by simp_all
      have "shift_one F S P = (if FindChild (m_StateNodeNo S) (m_SymbolNodes P1 ! s) = - 1
          then upd_symbol s (\<lambda>x. x\<lparr>m_NodeChildren := m_NodeChildren x @ [m_StateNodeNo S]\<rparr>) P1 else P1)"
        using cr Some [unfolded found_def] unfolding shift_one_def P0_def [symmetric] Let_def if_not_P [OF False] by simp
      then show ?thesis using finish [OF n(1) k1 n(2) f] by blast
    next
      case None
      let ?start = "length (m_InputLevels P1) - 2"
      obtain pItem f where item: "CreateNewLeaf F (ps_SymbolNo S) ?start (m_Factory P1) = (pItem, f)" by fastforce
      define Q where "Q = P1\<lparr>m_Factory := f\<rparr>"
      have Q: "gss_of Q = gss_of P1" "m_InputLevels Q = m_InputLevels P1" "m_StateNodes Q = m_StateNodes P1" by (simp_all add: Q_def)
      have sQ: "shifting G N t inputs Symbols Q" "shift_keeps P0 Q" "node_ready (m_NextStateNo S) Q v"
        using n(1,2) k1 by (simp_all add: shifting_def node_ready_def Q shift_keeps_def) (simp_all add: Q_def)
      show ?thesis
      proof (cases pItem)
        case item_none: None
        have "shift_one F S P = Q"
          using cr None [unfolded found_def] item item_none
          unfolding shift_one_def P0_def [symmetric] Let_def Q_def if_not_P [OF False] by simp
        then show ?thesis using sQ by simp
      next
        case (Some i)
        define SN where "SN = \<lparr>sn_SymbolNo = ps_SymbolNo S, m_pItem = Some i, m_PathTop = (0, 0), sn_bDisabled = False,
          m_OtherItemVariants = [], m_NodeChildren = [], m_ParseChildren = [], m_InputStart = ?start,
          m_InputEnd = length (m_InputLevels P1) - 1, m_Terminals = []\<rparr>"
        define P2 where "P2 = upd_state v (\<lambda>v. v\<lparr>m_SymbolChildren := m_SymbolChildren v @ [length (m_SymbolNodes Q)]\<rparr>)
          (Q\<lparr>m_SymbolNodes := m_SymbolNodes Q @ [SN]\<rparr>)"
        have len: "length (m_InputLevels P1) = Suc (Suc (length inputs))"
          using inv l1 by (simp add: gss_inv_def levels_inv_def)
        note leaf = shifting_leaf [OF sQ(1) X sQ(3), of SN, folded P2_def]
        have lf: "shifting G N t inputs Symbols P2" "gss_ext (gss_of Q) (gss_of P2)" "node_ready (m_NextStateNo S) P2 v"
          "length (m_SymbolNodes Q) \<in> set (m_SymbolChildren (m_StateNodes P2 ! v))" "m_SymbolNodes P2 ! length (m_SymbolNodes Q) = SN"
          using leaf by (simp_all add: SN_def len)
        have "shift_keeps Q P2" using lf(2) by (simp add: shift_keeps_def P2_def)
        then have k2: "shift_keeps P0 P2" using shift_keeps_trans [OF sQ(2)] by blast
        have "shift_one F S P = (if FindChild (m_StateNodeNo S) (m_SymbolNodes P2 ! length (m_SymbolNodes Q)) = - 1
            then upd_symbol (length (m_SymbolNodes Q)) (\<lambda>x. x\<lparr>m_NodeChildren := m_NodeChildren x @ [m_StateNodeNo S]\<rparr>) P2 else P2)"
          using cr None [unfolded found_def] item Some
          unfolding shift_one_def P0_def [symmetric] Let_def P2_def Q_def SN_def if_not_P [OF False] by simp
        then show ?thesis using finish [OF lf(1) k2 lf(3,4)] lf(5) by (simp add: SN_def)
      qed
    qed
  qed
  then show "shifting G N t inputs Symbols (shift_one F S P)"
    "shift_keeps (P\<lparr>m_PendingShifts := tl (m_PendingShifts P)\<rparr>) (shift_one F S P)" by (simp_all add: P0_def)
qed

lemma shifts_inv:
  assumes table: "lr_table G I N t" and syms: "\<forall>X \<in> set Symbols. grammar_symbol G X"
    and "shifting G N t inputs Symbols P" "\<forall>S \<in> set Ss. shift_ok t inputs Symbols (gss_of P) S"
  shows "shifting G N t inputs Symbols (fold (shift_one F) Ss P) \<and>
    shift_keeps (P\<lparr>m_PendingShifts := drop (length Ss) (m_PendingShifts P)\<rparr>) (fold (shift_one F) Ss P)"
  using assms(3,4)
proof (induction Ss arbitrary: P)
  case (Cons S Ss)
  have S: "shift_ok t inputs Symbols (gss_of P) S" using Cons.prems(2) by simp
  note o = shift_one_inv [OF table syms Cons.prems(1) S, of F]
  have ext: "gss_ext (gss_of P) (gss_of (shift_one F S P))" using o(2) by (simp add: shift_keeps_def)
  have "\<forall>S' \<in> set Ss. shift_ok t inputs Symbols (gss_of (shift_one F S P)) S'"
    using Cons.prems(2) shift_ok_ext [OF _ ext, of t inputs Symbols] by auto
  note ih = Cons.IH [OF o(1) this]
  have "shift_keeps (P\<lparr>m_PendingShifts := drop (length (S # Ss)) (m_PendingShifts P)\<rparr>) P2"
    if "shift_keeps ((shift_one F S P)\<lparr>m_PendingShifts := drop (length Ss) (m_PendingShifts (shift_one F S P))\<rparr>) P2" for P2
    using that o(2) gss_ext_trans [of "gss_of P"] by (auto simp: shift_keeps_def drop_Suc)
  then show ?case using ih by simp
qed (simp add: shift_keeps_def)

section \<open>ParseSymbol\<close>

lemma gss_of_set_last: "gss_of (set_last_level P) = gss_set_last (gss_of P)"
  by (simp add: gss_of_def gss_set_last_def set_last_level_def)

lemma gss_of_push: "gss_of (P\<lparr>m_InputLevels := m_InputLevels P @ [length (m_StateNodes P)]\<rparr>) = gss_push (gss_of P)"
  by (simp add: gss_of_def gss_push_def)

lemma set_last_level_simps [simp]:
  "m_PendingReductions (set_last_level P) = m_PendingReductions P" "m_PendingShifts (set_last_level P) = m_PendingShifts P"
  "m_StateNodes (set_last_level P) = m_StateNodes P" "last (m_InputLevels (set_last_level P)) = length (m_StateNodes P)"
  "m_bBreakAfterMaxSymbolNodesCount (set_last_level P) = m_bBreakAfterMaxSymbolNodesCount P"
  by (simp_all add: set_last_level_def)

lemma parse_end_inv:
  assumes table: "lr_table G I N t" and syms: "\<forall>X \<in> set Symbols. grammar_symbol G X"
    and inv: "step_inv G I N t inputs Symbols P" and pend: "m_PendingReductions P = []"
    and eq: "parse_end F first P = (result, P')"
  shows "parser_ready G N t (inputs @ [set Symbols]) P'"
    and "m_bBreakAfterMaxSymbolNodesCount P' = m_bBreakAfterMaxSymbolNodesCount P"
proof -
  define P1 where "P1 = set_last_level P"
  have i1: "gss_inv G N t inputs (gss_of P1)" "gss_ext (gss_of P) (gss_of P1)"
    using inv gss_set_last_inv [of G N t inputs "gss_of P"] by (simp_all add: P1_def gss_of_set_last step_inv_def)
  let ?active = "fold (oset_insert (<)) [if length (m_InputLevels P1) > 1 then first else 0..<last (m_InputLevels P1)] (m_ActiveNodes P1)"
  define P2 where "P2 = (if m_bDisableWORDSStateNodes P1 then DisableWORDSSrtateNodes (P1\<lparr>m_ActiveNodes := ?active\<rparr>) else P1)"
  have sh1: "\<forall>S \<in> set (m_PendingShifts P1). shift_ok t inputs Symbols (gss_of P1) S"
    using inv shift_ok_ext [OF _ i1(2), of t inputs Symbols] by (simp add: step_inv_def P1_def)
  have "gss_inv G N t inputs (gss_of P2) \<and> shrinks P1 P2"
  proof (cases "m_bDisableWORDSStateNodes P1")
    case True
    have "\<forall>S \<in> set (m_PendingShifts P1). m_StateNodeNo S < length (m_StateNodes P1)"
      using sh1 by (auto simp: shift_ok_def)
    then have "gss_inv G N t inputs (gss_of P2) \<and> shrinks (P1\<lparr>m_ActiveNodes := ?active\<rparr>) P2"
      using DisableWORDSSrtateNodes_inv [of G N t inputs "P1\<lparr>m_ActiveNodes := ?active\<rparr>"] i1(1) True by (simp add: P2_def)
    then show ?thesis by (simp add: shrinks_def)
  qed (use i1 in \<open>simp add: P2_def shrinks_def\<close>)
  then have i2: "gss_inv G N t inputs (gss_of P2)" and s2: "shrinks P1 P2" by simp_all
  define P3 where "P3 = P2\<lparr>m_InputLevels := m_InputLevels P2 @ [length (m_StateNodes P2)]\<rparr>"
  have last2: "last (g_levels (gss_of P2)) = gnodes (gss_of P2)" using s2 by (simp add: shrinks_def P1_def)
  note push = gss_push_inv(1) [OF i2 last2, of "set Symbols"] gss_push_inv(2) [OF i2 last2]
  have g3: "gss_of P3 = gss_push (gss_of P2)" unfolding P3_def by (rule gss_of_push)
  have shifts3: "m_PendingShifts P3 = m_PendingShifts P1" and red3: "m_PendingReductions P3 = []"
    and brk3: "m_bBreakAfterMaxSymbolNodesCount P3 = m_bBreakAfterMaxSymbolNodesCount P"
    using s2 pend by (simp_all add: P3_def shrinks_def P1_def)
  have "gss_ext (gss_of P1) (gss_of P3)" using s2 push(2) gss_ext_trans by (auto simp: shrinks_def g3)
  then have sh3: "\<forall>S \<in> set (m_PendingShifts P3). shift_ok t inputs Symbols (gss_of P3) S"
    using sh1 shift_ok_ext [of t inputs Symbols] unfolding shifts3 by blast
  have "shifting G N t inputs Symbols P3" using push(1) unfolding shifting_def g3 by (auto simp: P3_def gss_push_def)
  note sh = shifts_inv [OF table syms this sh3, of F, folded Shifter_def]
  define P4 where "P4 = Shifter F P3"
  have i4: "gss_inv G N t (inputs @ [set Symbols]) (gss_of P4)" and k4: "shift_keeps (P3\<lparr>m_PendingShifts := []\<rparr>) P4"
    using sh by (simp_all add: shifting_def P4_def)
  have P': "P' = (set_last_level P4)\<lparr>m_bDisableWORDSStateNodes := False\<rparr>"
    using eq unfolding parse_end_def Let_def P1_def [symmetric] P2_def [symmetric] P3_def [symmetric] P4_def [symmetric]
    by simp
  have "gss_of P' = gss_set_last (gss_of P4)" by (simp add: P' gss_of_set_last)
  then have "gss_inv G N t (inputs @ [set Symbols]) (gss_of P')" using gss_set_last_inv(1) [OF i4] by simp
  then show "parser_ready G N t (inputs @ [set Symbols]) P'"
    using k4 red3 by (simp add: parser_ready_def P' shift_keeps_def)
  show "m_bBreakAfterMaxSymbolNodesCount P' = m_bBreakAfterMaxSymbolNodesCount P"
    using k4 brk3 by (simp add: P' shift_keeps_def)
qed

lemma ParseSymbol_inv:
  assumes "wf_grammar G" "lr_table G I N t" "\<forall>X \<in> set Symbols. grammar_symbol G X"
    and ready: "parser_ready G N t inputs P" and brk: "m_bBreakAfterMaxSymbolNodesCount P"
  obtains (closed) result P' where "ParseSymbol F t Symbols b P = Some (result, P')"
      "parser_ready G N t (inputs @ [set Symbols]) P'" "m_bBreakAfterMaxSymbolNodesCount P'"
  | (full) P' where "ParseSymbol F t Symbols b P = Some (False, P')" "step_inv G I N t inputs Symbols P'"
      "too_many_nodes P'"
proof -
  note start = parse_start_inv(1) [OF ready, of I Symbols b] parse_start_inv(3) [OF ready, of b]
  obtain finished P' where P': "parse_loop F t Symbols (parse_start b P) = Some (finished, P')" "step_inv G I N t inputs Symbols P'"
    "m_bBreakAfterMaxSymbolNodesCount P'" "finished \<longrightarrow> m_ActiveNodes P' = [] \<and> m_PendingReductions P' = []"
    "\<not> finished \<longrightarrow> too_many_nodes P'"
    using parse_loop_inv [OF assms(1-3) _ start(1), of F] start(2) brk by metis
  show ?thesis
  proof (cases finished)
    case True
    obtain result P2 where e: "parse_end F (length (m_StateNodes P)) P' = (result, P2)" by fastforce
    show ?thesis
      using closed [of result P2] parse_end_inv [OF assms(2,3) P'(2) _ e] P' True e by (simp add: ParseSymbol_def)
  next
    case False
    then show ?thesis using full [of P'] P' by (simp add: ParseSymbol_def)
  qed
qed

end
