(* ===== verification/GLRCorrect.thy ===== *)
theory GLRCorrect
  imports GLRParse
begin

text \<open>
  The table that \<^verbatim>\<open>BuildGLRTable\<close> builds is what the parser relies on, and the properties of the parser:
  what \<^verbatim>\<open>CreateOrReuseNode\<close>, \<^verbatim>\<open>Reducer\<close>, \<^verbatim>\<open>Shifter\<close> and \<^verbatim>\<open>ParseSymbol\<close> do from a well-formed stack.
\<close>

section \<open>The table of the parser\<close>

lemma closure_from_item:
  assumes "it \<in> lr_closure G J"
  shows "it \<in> J \<or> (\<exists>it0 \<in> lr_closure G J. \<not> IsFinished it0 \<and> is_meta G (GetSymbolNo it0) \<and>
     GetSymbolNo it0 = m_LeftPart (m_pRule it))"
  using assms by cases auto

definition table_limits :: "('b CWorkGrammar_scheme) \<Rightarrow> bool" where
  "table_limits G \<longleftrightarrow>
     (\<forall>r \<in> set (m_EncodedRules G). m_OriginalRuleNo r < 2 ^ 32 \<and> length (rhs r) < 2 ^ 32) \<and>
     (\<forall>S. Compute G = Some S \<longrightarrow> length (m_ItemSets S) * length (m_UniqueGrammarItems G) < 2 ^ 32)"

lemma collection_goto_Some:
  assumes inv: "collection_inv G (goto_pairs E S (length (m_ItemSets S))) S" and i: "i < length (m_ItemSets S)"
    and it: "it \<in> set (m_ItemSets S ! i)" "\<not> IsFinished it" "GetSymbolNo it \<noteq> E"
  shows "GetGotoValue (GetSymbolNo it) i S \<noteq> None"
proof -
  have "lr_kernel (set (m_ItemSets S ! i)) (GetSymbolNo it) \<noteq> {}" using it by (auto simp: lr_kernel_def)
  then have "(i, GetSymbolNo it) \<in> goto_pairs E S (length (m_ItemSets S))" using i it(3) by (simp add: goto_pairs_def)
  then show ?thesis using inv by (auto simp: collection_inv_def)
qed

lemma collection_item_set:
  assumes inv: "collection_inv G D S" and i: "i < length (m_ItemSets S)"
  shows "\<exists>J. set (m_ItemSets S ! i) = lr_closure G J \<and>
    (\<forall>it \<in> J. m_DotSymbolNo it \<noteq> 0 \<or> m_LeftPart (m_pRule it) = GetNewRoot G)"
proof (cases "i = 0")
  case True
  then show ?thesis
    using inv by (intro exI [of _ "start_items G (GetNewRoot G)"]) (auto simp: collection_inv_def start_items_def)
next
  case False
  then obtain k X where "GetGotoValue X k S = Some i" using inv i unfolding collection_inv_def by blast
  then have "set (m_ItemSets S ! i) = lr_target G (set (m_ItemSets S ! k)) X" using inv unfolding collection_inv_def by blast
  then show ?thesis
    by (intro exI [of _ "lr_kernel (set (m_ItemSets S ! k)) X"]) (auto simp: lr_target_def lr_kernel_def advance_def)
qed

lemma BuildGLRTable_lr_table:
  fixes G :: "'b CWorkGrammar_scheme" and t t' :: "'a CGLRTable"
  assumes aug: "augmented G" and fresh: "SimpleCells t = sparse_init" "ComplexCells t = []"
    and limits: "table_limits G" and build: "BuildGLRTable hasher G t = Some t'"
  shows "\<exists>S. Compute G = Some S \<and> Rows t' = length (m_ItemSets S) \<and>
    lr_table G (\<lambda>i. set (m_ItemSets S ! i)) (length (m_ItemSets S)) t'"
proof -
  let ?n = "length (m_UniqueGrammarItems G)" and ?E = "GetEndOfStreamSymbol G"
  have nos: "\<forall>r \<in> set (m_EncodedRules G). m_OriginalRuleNo r < 2 ^ 32"
    and size: "\<forall>S. Compute G = Some S \<longrightarrow> length (m_ItemSets S) * ?n < 2 ^ 32"
    using limits by (simp_all add: table_limits_def)
  obtain S where "table_spec G S t'" using BuildGLRTable_spec [OF aug fresh nos size build] by blast
  note S = table_specD [OF this]
  note inv = S(2) and goto = S(5) and rules = S(6)
  let ?I = "\<lambda>i. set (m_ItemSets S ! i)" and ?N = "length (m_ItemSets S)"
  have wf: "wf_grammar G" using aug by (simp add: augmented_def)
  have N: "0 < ?N" using inv by (simp add: collection_inv_def)
  have items: "?I i \<subseteq> grammar_lr_items G" if "i < ?N" for i using inv that by (simp add: collection_inv_def)
  have rule: "m_pRule it \<in> set (m_EncodedRules G)" if "it \<in> ?I i" "i < ?N" for it i
    using items [OF that(2)] that(1) by (auto simp: grammar_lr_items_def)
  have "1 * ?n \<le> ?N * ?n" using N by (intro mult_le_mono1) linarith
  moreover have "?N * ?n < 2 ^ 32" using size S(1) by blast
  ultimately have n: "?n < 2 ^ 32" using le_less_trans mult_1 by metis
  have goto_ok: "j < ?N \<and> j \<noteq> 0 \<and> (\<exists>it \<in> ?I j. m_DotSymbolNo it \<noteq> 0) \<and>
        (\<forall>it \<in> ?I j. m_DotSymbolNo it \<noteq> 0 \<longrightarrow>
           (\<exists>it' \<in> ?I i. m_pRule it' = m_pRule it \<and> m_DotSymbolNo it = Suc (m_DotSymbolNo it') \<and> GetSymbolNo it' = X))"
    if "i < ?N" "X < ?n" "cell_goto t' i X = Some j" for i X j
  proof -
    have g: "GetGotoValue X i S = Some j" using that goto by simp
    then have j: "j < ?N" "lr_kernel (?I i) X \<noteq> {}" "?I j = lr_closure G (lr_kernel (?I i) X)"
      using inv by (auto simp: collection_inv_def lr_target_def)
    obtain it0 where it0: "it0 \<in> lr_kernel (?I i) X" using j(2) by blast
    then have "it0 \<in> ?I j" "m_DotSymbolNo it0 \<noteq> 0"
      unfolding j(3) by (rule closure_base) (use it0 in \<open>auto simp: lr_kernel_def advance_def\<close>)
    then have "\<exists>it \<in> ?I j. m_DotSymbolNo it \<noteq> 0" by blast
    moreover have "\<exists>it' \<in> ?I i. m_pRule it' = m_pRule it \<and> m_DotSymbolNo it = Suc (m_DotSymbolNo it') \<and> GetSymbolNo it' = X"
      if "it \<in> ?I j" "m_DotSymbolNo it \<noteq> 0" for it
      using closure_dots [of it G "lr_kernel (?I i) X"] that unfolding j(3) by (auto simp: lr_kernel_def advance_def)
    ultimately show ?thesis using j(1) goto_not_start [OF inv g] by blast
  qed
  have rules_ok: "k < length (m_RuleInfos t') \<and>
        (\<exists>it \<in> ?I i. IsFinished it \<and> m_LeftPart (m_pRule it) \<noteq> GetNewRoot G \<and>
           info_LeftPart (m_RuleInfos t' ! k) = m_LeftPart (m_pRule it) \<and>
           info_RuleLength (m_RuleInfos t' ! k) = length (rhs (m_pRule it)))"
    if i: "i < ?N" and X: "X < ?n" and k: "k \<in> set (cell_rules t' i X)" for i X k
  proof -
    obtain it where it: "it \<in> ?I i" "reduces G X it" "k = GetRuleInfo (m_RuleInfos t') (m_pRule it)"
      using k unfolding rules [OF i X] by blast
    note r = rule [OF it(1) i]
    have "m_LeftPart (m_pRule it) < 2 ^ 32" using wf_grammar_ruleD(3) [OF wf r] n by simp
    moreover have "length (rhs (m_pRule it)) < 2 ^ 32" using limits r by (simp add: table_limits_def)
    ultimately show ?thesis using S(7,8) [OF r] it by (auto simp: rule_info_Init_def to_index_def)
  qed
  have left_ok: "cell_goto t' i (m_LeftPart (m_pRule it)) \<noteq> None"
    if i: "i < ?N" and it: "it \<in> ?I i" "m_DotSymbolNo it = 0" "m_LeftPart (m_pRule it) \<noteq> GetNewRoot G" for i it
  proof -
    obtain J where J: "?I i = lr_closure G J" "\<forall>it \<in> J. m_DotSymbolNo it \<noteq> 0 \<or> m_LeftPart (m_pRule it) = GetNewRoot G"
      using collection_item_set [OF inv i] by blast
    then obtain it0 where it0: "it0 \<in> ?I i" "\<not> IsFinished it0" "is_meta G (GetSymbolNo it0)"
      "GetSymbolNo it0 = m_LeftPart (m_pRule it)"
      using closure_from_item [of it G J] it by auto
    have "GetSymbolNo it0 \<noteq> ?E" using it0(3) aug by (auto simp: augmented_def)
    then show ?thesis
      using collection_goto_Some [OF inv i it0(1,2)] it0(4) goto [OF i] wf_grammar_ruleD(3) [OF wf rule [OF it(1) i]] by simp
  qed
  have "lr_table G ?I ?N t'"
    unfolding lr_table_def using N items goto_ok rules_ok left_ok by blast
  then show ?thesis using S(1,3) by blast
qed

lemma sample_table_ok:
  "lr_table sample_slr (\<lambda>i. set (m_ItemSets sample_collection ! i)) 6 sample_table"
proof -
  have limits: "table_limits sample_slr"
    using sample_slr_ok(2,3) unfolding table_limits_def
    by (simp add: sample_slr_def sample_augmented_def sample_rule_def)
  have len: "length (m_ItemSets sample_collection) = 6" by (simp add: sample_collection_def)
  have fresh: "SimpleCells (glr_table_init :: nat CGLRTable) = sparse_init" "ComplexCells (glr_table_init :: nat CGLRTable) = []"
    by (simp_all add: glr_table_init_def)
  show ?thesis
    using BuildGLRTable_lr_table [OF sample_slr_ok(1) fresh limits sample_build] by (auto simp: sample_Compute len)
qed

section \<open>Nodes, levels and items\<close>

lemma find_upt_unique:
  assumes "\<forall>i < m. Q i \<longleftrightarrow> i = n"
  shows "List.find Q [0..<m] = (if n < m then Some n else None)"
proof (cases "List.find Q [0..<m]")
  case None
  then show ?thesis using assms by (auto simp: find_None_iff)
next
  case (Some i)
  then show ?thesis using assms find_SomeD [OF Some] by auto
qed

lemma GetNumberOfClosureSet_count:
  assumes "sorted (m_InputLevels P)"
  shows "GetNumberOfClosureSet v P = length (filter (\<lambda>b. b \<le> v) (m_InputLevels P))"
proof -
  let ?L = "m_InputLevels P"
  let ?n = "length (filter (\<lambda>b. b \<le> v) ?L)"
  have split: "takeWhile (\<lambda>b. b \<le> v) xs = filter (\<lambda>b. b \<le> v) xs" if "sorted xs" for xs
    using that
  proof (induction xs)
    case (Cons x xs)
    have "filter (\<lambda>b. b \<le> v) xs = []" if "\<not> x \<le> v" using Cons.prems that by (auto simp: filter_empty_conv)
    then show ?case using Cons by simp
  qed simp
  have take: "take ?n ?L = filter (\<lambda>b. b \<le> v) ?L"
    using takeWhile_eq_take [of "\<lambda>b. b \<le> v" ?L] split [OF assms] by metis
  have le: "?L ! i \<le> v \<longleftrightarrow> i < ?n" if i: "i < length ?L" for i
  proof
    assume "i < ?n"
    then have "?L ! i = filter (\<lambda>b. b \<le> v) ?L ! i" using take by (metis nth_take)
    then show "?L ! i \<le> v" using \<open>i < ?n\<close> nth_mem by fastforce
  next
    assume v: "?L ! i \<le> v"
    show "i < ?n"
    proof (rule ccontr)
      assume "\<not> i < ?n"
      then have n: "?n \<le> i" "?n < length ?L" using i by simp_all
      have "?n = length (takeWhile (\<lambda>b. b \<le> v) ?L)" using split [OF assms] by simp
      then have "\<not> ?L ! ?n \<le> v" using n(2) nth_length_takeWhile [of "\<lambda>b. b \<le> v" ?L] by metis
      moreover have "?L ! ?n \<le> ?L ! i" using sorted_nth_mono [OF assms n(1) i] .
      ultimately show False using v by simp
    qed
  qed
  let ?in = "\<lambda>i. (if i > 0 then ?L ! (i - 1) else 0) \<le> v \<and> v < ?L ! i"
  have iff: "?in i \<longleftrightarrow> i = ?n" if "i < length ?L" for i
    using le [OF that] le [of "i - 1"] that by (cases i) auto
  have "List.find ?in [0..<length ?L] = (if ?n < length ?L then Some ?n else None)"
    by (rule find_upt_unique) (use iff in blast)
  moreover have "?n < length ?L \<or> ?n = length ?L" by (metis le_neq_implies_less length_filter_le)
  ultimately show ?thesis by (auto simp: GetNumberOfClosureSet_def)
qed

lemma walks_iff:
  assumes "gpath g v es w" "s \<in> set (gchildren g w)"
  shows "Q \<in> set (walks g (2 * n + 1) (flat_path v es @ [s])) \<longleftrightarrow>
    (\<exists>fs u x. u \<in> set (gbelow g s) \<and> gpath g u fs x \<and> length fs = n \<and> Q = flat_path v (es @ (s, u) # fs))"
  using assms
proof (induction n arbitrary: es w s)
  case 0
  have "Q \<in> set (walks g (2 * 0 + 1) (flat_path v es @ [s])) \<longleftrightarrow> (\<exists>u \<in> set (gbelow g s). Q = flat_path v (es @ [(s, u)]))"
    by (auto simp: kids_def flat_path_snoc)
  moreover have "(\<exists>fs u x. u \<in> set (gbelow g s) \<and> gpath g u fs x \<and> length fs = 0 \<and> Q = flat_path v (es @ (s, u) # fs)) \<longleftrightarrow>
      (\<exists>u \<in> set (gbelow g s). Q = flat_path v (es @ [(s, u)]))"
    by (auto intro!: gpath.simps(1) [THEN iffD2])
  ultimately show ?case by blast
next
  case (Suc n)
  have step: "walks g (2 * Suc n + 1) (flat_path v es @ [s]) =
      concat (map (\<lambda>u. concat (map (\<lambda>s'. walks g (2 * n + 1) (flat_path v (es @ [(s, u)]) @ [s'])) (gchildren g u))) (gbelow g s))"
    by (simp add: kids_def flat_path_snoc)
  have p: "gpath g v (es @ [(s, u)]) u" if "u \<in> set (gbelow g s)" for u using gpath_snoc [OF Suc.prems that] .
  show ?case (is "?l \<longleftrightarrow> ?r")
  proof
    assume ?l
    then obtain u s' where u: "u \<in> set (gbelow g s)" "s' \<in> set (gchildren g u)"
      "Q \<in> set (walks g (2 * n + 1) (flat_path v (es @ [(s, u)]) @ [s']))"
      unfolding step by auto
    then obtain fs u' x where "u' \<in> set (gbelow g s')" "gpath g u' fs x" "length fs = n" "Q = flat_path v ((es @ [(s, u)]) @ (s', u') # fs)"
      using Suc.IH [OF p [OF u(1)] u(2)] by blast
    then show ?r using u by (intro exI [of _ "(s', u') # fs"] exI [of _ u] exI [of _ x]) simp
  next
    assume ?r
    then obtain fs u x where f: "u \<in> set (gbelow g s)" "gpath g u fs x" "length fs = Suc n" "Q = flat_path v (es @ (s, u) # fs)" by blast
    then obtain s' u' fs' where fs: "fs = (s', u') # fs'" by (metis length_Suc_conv surj_pair)
    then have s': "s' \<in> set (gchildren g u)" using f(2) by simp
    have "Q \<in> set (walks g (2 * n + 1) (flat_path v (es @ [(s, u)]) @ [s']))"
      using Suc.IH [OF p [OF f(1)] s'] f fs by auto
    then show ?l unfolding step using f(1) s' by auto
  qed
qed

lemma walks_all_paths:
  assumes "0 < n" "s \<in> set (gchildren g v)"
  shows "set (walks g (2 * n - 1) [v, s]) = {flat_path v es |es. es \<noteq> [] \<and> fst (hd es) = s \<and> length es = n \<and> (\<exists>w. gpath g v es w)}"
proof -
  obtain m where m: "n = Suc m" using assms(1) by (cases n) auto
  have "Q \<in> set (walks g (2 * m + 1) (flat_path v [] @ [s])) \<longleftrightarrow>
      (\<exists>es. Q = flat_path v es \<and> es \<noteq> [] \<and> fst (hd es) = s \<and> length es = Suc m \<and> (\<exists>w. gpath g v es w))" for Q
  proof -
    have "Q \<in> set (walks g (2 * m + 1) (flat_path v [] @ [s])) \<longleftrightarrow>
        (\<exists>fs u x. u \<in> set (gbelow g s) \<and> gpath g u fs x \<and> length fs = m \<and> Q = flat_path v ((s, u) # fs))"
      using walks_iff [of g v "[]" v s Q m] assms(2) by simp
    also have "\<dots> \<longleftrightarrow> (\<exists>es. Q = flat_path v es \<and> es \<noteq> [] \<and> fst (hd es) = s \<and> length es = Suc m \<and> (\<exists>w. gpath g v es w))"
    proof
      assume "\<exists>es. Q = flat_path v es \<and> es \<noteq> [] \<and> fst (hd es) = s \<and> length es = Suc m \<and> (\<exists>w. gpath g v es w)"
      then obtain e es where "Q = flat_path v (e # es)" "fst e = s" "length es = m" "\<exists>w. gpath g v (e # es) w"
        by (metis length_Suc_conv list.sel(1))
      then show "\<exists>fs u x. u \<in> set (gbelow g s) \<and> gpath g u fs x \<and> length fs = m \<and> Q = flat_path v ((s, u) # fs)"
        by (cases e) auto
    qed (use assms(2) in force)
    finally show ?thesis .
  qed
  moreover have "flat_path v [] @ [s] = [v, s]" "2 * n - 1 = 2 * m + 1" by (simp_all add: flat_path_def m)
  ultimately show ?thesis unfolding set_eq_iff mem_Collect_eq m by simp
qed

lemma AddInputItem_items:
  assumes "m_pItem node = Some cur"
  shows "\<exists>best. m_pItem (AddInputItem weight (Some new) node) = Some best \<and>
    mset (best # m_OtherItemVariants (AddInputItem weight (Some new) node)) = add_mset new (mset (cur # m_OtherItemVariants node)) \<and>
    weight best = max (weight cur) (weight new)"
  using assms by (auto simp: AddInputItem_def max_def)

lemma AddInputItem_fold:
  assumes "m_pItem node = Some cur"
  shows "\<exists>best. m_pItem (fold (\<lambda>i. AddInputItem weight (Some i)) items node) = Some best \<and>
    mset (best # m_OtherItemVariants (fold (\<lambda>i. AddInputItem weight (Some i)) items node)) =
      mset items + mset (cur # m_OtherItemVariants node) \<and>
    weight best = fold (\<lambda>i. max (weight i)) items (weight cur)"
  using assms
proof (induction items arbitrary: node cur)
  case (Cons i items)
  obtain best where b: "m_pItem (AddInputItem weight (Some i) node) = Some best"
    "mset (best # m_OtherItemVariants (AddInputItem weight (Some i) node)) = add_mset i (mset (cur # m_OtherItemVariants node))"
    "weight best = max (weight cur) (weight i)"
    using AddInputItem_items [OF Cons.prems, of weight i] by blast
  have "mset items + mset (best # m_OtherItemVariants (AddInputItem weight (Some i) node)) =
      mset (i # items) + mset (cur # m_OtherItemVariants node)"
    unfolding b(2) by simp
  then show ?case using Cons.IH [OF b(1)] b(3) by (simp only: fold_simps o_apply max.commute)
qed simp

section \<open>A sample factory and a sample stack\<close>

definition sample_factory :: "(nat, nat, unit) CInputItemFactory" where
  "sample_factory =
     \<lparr>CreateNewItem = (\<lambda>SymbolNo agr first last main items f. (Some SymbolNo, f)),
      CreateNewLeaf = (\<lambda>SymbolNo first f. (Some SymbolNo, f)), EqualNodes = (\<lambda>f x y. True),
      GetWeight = (\<lambda>i. 100000000), GetFactsCount = (\<lambda>i. 0)\<rparr>"

definition sample_leaf :: "nat \<Rightarrow> nat \<Rightarrow> nat list \<Rightarrow> nat CSymbolNode" where
  "sample_leaf X start children =
     \<lparr>sn_SymbolNo = X, m_pItem = Some X, m_PathTop = (0, 0), sn_bDisabled = False, m_OtherItemVariants = [],
      m_NodeChildren = children, m_ParseChildren = [], m_InputStart = start, m_InputEnd = start + 1, m_Terminals = []\<rparr>"

text \<open>The stack after \<open>a b\<close>, with the reduction by \<open>S \<rightarrow> a b\<close> pending.\<close>

definition sample_stack :: "(nat, unit) CGLRParser" where
  "sample_stack =
     (InitGLRParser (glr_parser ()))\<lparr>m_InputLevels := [1, 2, 3],
        m_StateNodes := [state_node 0, (state_node 2)\<lparr>m_SymbolChildren := [0]\<rparr>, (state_node 4)\<lparr>m_SymbolChildren := [1]\<rparr>],
        m_SymbolNodes := [sample_leaf 1 0 [0], sample_leaf 2 1 [1]],
        m_PendingReductions := [\<lparr>m_SymbolNodeNo = 1, m_LastStateNodeNo = 2, m_pReduceRule = 1\<rparr>]\<rparr>"

lemma sample_cells: "cell_goto sample_table 0 1 = Some 2" "cell_goto sample_table 2 2 = Some 4"
proof -
  have "GetGotoValue 1 0 sample_collection = Some 2" "GetGotoValue 2 2 sample_collection = Some 4" by code_simp+
  then show "cell_goto sample_table 0 1 = Some 2" "cell_goto sample_table 2 2 = Some 4"
    by (simp_all add: sample_table_reads)
qed

lemma sample_rule_reducible:
  "reducible sample_slr (\<lambda>i. set (m_ItemSets sample_collection ! i)) sample_table 4 1 (sample_rule 1 0 [1, 2])"
proof -
  have "sample_item 1 0 [1, 2] 2 \<in> set (m_ItemSets sample_collection ! 4)" by (simp add: sample_collection_def)
  moreover have "sample_rule 1 0 [1, 2] \<in> set (m_EncodedRules sample_slr)" by (simp add: sample_slr_def sample_augmented_def)
  ultimately show ?thesis
    unfolding reducible_def sample_table_reads(1) sample_infos sample_size
    by (simp add: sample_item_def sample_rule_def numeral_2_eq_2)
qed

lemma sample_gss:
  "gss_of sample_stack = \<lparr>g_levels = [1, 2, 3],
     g_nodes = [\<lparr>g_state = 0, g_children = []\<rparr>, \<lparr>g_state = 2, g_children = [0]\<rparr>, \<lparr>g_state = 4, g_children = [1]\<rparr>],
     g_symbols = [\<lparr>g_symbol = 1, g_start = 0, g_end = 1, g_below = [0], g_parses = []\<rparr>,
       \<lparr>g_symbol = 2, g_start = 1, g_end = 2, g_below = [1], g_parses = []\<rparr>]\<rparr>"
  by (simp add: sample_stack_def gss_of_def InitGLRParser_def glr_parser_def node_of_def symbol_of_def state_node_def sample_leaf_def)

lemma sample_stack_gss_inv: "gss_inv sample_slr 6 sample_table [{1}, {2}] (gss_of sample_stack)"
proof -
  have d: "derives sample_slr [X] [X]" for X by simp
  have spans: "spans sample_slr [{1}, {2}] 1 0 1" "spans sample_slr [{1}, {2}] 2 1 2"
    unfolding spans_def by (rule exI [of _ "[1]"], simp add: matches_def d) (rule exI [of _ "[2]"], simp add: matches_def d)
  have lev: "levels_inv [{1}, {2}] (gss_of sample_stack)" by (simp add: levels_inv_def sample_gss)
  have nodes: "\<forall>v < Suc (Suc (Suc 0)). node_inv 6 sample_table (gss_of sample_stack) v"
    by (simp add: All_less_Suc node_inv_def sample_gss gpos_def sample_cells [simplified])
  have syms: "\<forall>s < Suc (Suc 0). sym_inv sample_slr sample_table [{1}, {2}] (gss_of sample_stack) s"
    using spans by (simp add: All_less_Suc sym_inv_def sample_gss gpos_def grammar_symbol_def sample_size numeral_2_eq_2)
  show ?thesis
    unfolding gss_inv_def using lev nodes syms by (simp add: sample_gss)
qed

lemma sample_stack_inv:
  "step_inv sample_slr (\<lambda>i. set (m_ItemSets sample_collection ! i)) 6 sample_table [{1}, {2}] [3] sample_stack"
proof -
  have lists: "m_PendingReductions sample_stack = [\<lparr>m_SymbolNodeNo = 1, m_LastStateNodeNo = 2, m_pReduceRule = 1\<rparr>]"
    "m_PendingShifts sample_stack = []" "m_ActiveNodes sample_stack = []"
    by (simp_all add: sample_stack_def InitGLRParser_def)
  have "pending_ok sample_slr (\<lambda>i. set (m_ItemSets sample_collection ! i)) sample_table [{1}, {2}] (gss_of sample_stack)
      \<lparr>m_SymbolNodeNo = 1, m_LastStateNodeNo = 2, m_pReduceRule = 1\<rparr>"
    using sample_rule_reducible by (auto simp: pending_ok_def sample_gss gpos_def)
  then show ?thesis unfolding step_inv_def lists using sample_stack_gss_inv by simp
qed

lemma sample_symbols: "\<forall>X \<in> set [3]. grammar_symbol sample_slr X" "\<forall>X \<in> set [1]. grammar_symbol sample_slr X" "wf_grammar sample_slr"
  using sample_slr_ok(1) by (simp_all add: grammar_symbol_def sample_size augmented_def)

section \<open>Properties\<close>

text \<open>
  C6. The table that \<^verbatim>\<open>BuildGLRTable\<close> builds from an augmented grammar refines the automaton the parser
  relies on: a goto leads to a row other than the start, whose items with a moved dot come from the
  row it leaves by moving the dot over the symbol; every rule read from a cell has its finished item
  in the row, and its info has the left part and the length of the rule; and from every row there is a
  goto over the left part of each item that has the dot in front, so \<^verbatim>\<open>ReduceOnePath\<close> finds its goto line.
\<close>

theorem BuildGLRTable_automaton:
  assumes "augmented G" and "SimpleCells t = sparse_init" "ComplexCells t = []"
    and "table_limits G" and "BuildGLRTable hasher G t = Some t'"
  shows "\<exists>S. Compute G = Some S \<and> Rows t' = length (m_ItemSets S) \<and>
    lr_table G (\<lambda>i. set (m_ItemSets S ! i)) (length (m_ItemSets S)) t'"
  by (rule BuildGLRTable_lr_table [OF assms])

theorem BuildGLRTable_automaton_witness:
  "augmented sample_slr \<and> table_limits sample_slr \<and> BuildGLRTable sample_hash sample_slr glr_table_init = Some sample_table \<and>
   lr_table sample_slr (\<lambda>i. set (m_ItemSets sample_collection ! i)) (length (m_ItemSets sample_collection)) sample_table"
proof -
  have limits: "table_limits sample_slr"
    using sample_slr_ok(2,3) unfolding table_limits_def
    by (simp add: sample_slr_def sample_augmented_def sample_rule_def)
  have fresh: "SimpleCells (glr_table_init :: nat CGLRTable) = sparse_init" "ComplexCells (glr_table_init :: nat CGLRTable) = []"
    by (simp_all add: glr_table_init_def)
  show ?thesis
    using BuildGLRTable_automaton [OF sample_slr_ok(1) fresh limits sample_build] sample_slr_ok(1) limits sample_build
    by (auto simp: sample_Compute)
qed

text \<open>
  C4. \<^verbatim>\<open>ParseSymbol\<close> is total and keeps the invariant of the stack: from a closed stack over the input read
  so far (levels sorted, every edge a transition of the table, every symbol node deriving a word of the
  input between its ends, every parse a rule whose parts lie side by side) it returns, and the stack is
  closed again over the input with the new symbol set, unless the bound on symbol nodes was hit,
  which gives \<^verbatim>\<open>false\<close>; then the stack still has the invariant over the old input.
\<close>

theorem ParseSymbol_correct:
  assumes "wf_grammar G" "lr_table G I N t" "\<forall>X \<in> set Symbols. grammar_symbol G X"
    and "parser_ready G N t inputs P" "m_bBreakAfterMaxSymbolNodesCount P"
  shows "\<exists>result P'. ParseSymbol F t Symbols b P = Some (result, P') \<and>
    (parser_ready G N t (inputs @ [set Symbols]) P' \<or>
     \<not> result \<and> too_many_nodes P' \<and> step_inv G I N t inputs Symbols P')"
  by (rule ParseSymbol_inv [OF assms, of F b]) auto

theorem ParseSymbol_correct_witness:
  "parser_ready sample_slr 6 sample_table [] (InitGLRParser (glr_parser ()) :: (nat, unit) CGLRParser) \<and>
   (\<exists>result P'. ParseSymbol sample_factory sample_table [1] True (InitGLRParser (glr_parser ())) = Some (result, P') \<and>
     (parser_ready sample_slr 6 sample_table [{1}] P' \<or> \<not> result \<and> too_many_nodes P'))"
proof -
  have ready: "parser_ready sample_slr 6 sample_table [] (InitGLRParser (glr_parser ()) :: (nat, unit) CGLRParser)"
    by (rule parser_ready_init [OF sample_table_ok])
  have "m_bBreakAfterMaxSymbolNodesCount (InitGLRParser (glr_parser ()) :: (nat, unit) CGLRParser)"
    by (simp add: InitGLRParser_def glr_parser_def)
  then show ?thesis
    using ParseSymbol_correct [OF sample_symbols(3) sample_table_ok sample_symbols(2) ready, of sample_factory True] ready by auto
qed

text \<open>
  C5. \<^verbatim>\<open>Reducer\<close>, a depth-first search with an explicit stack that changes the graph it walks over, ends,
  and is the same as reducing one by one, in the order of the children, the paths that were in the
  stack when it started: exactly the paths of the length of the rule that begin with the node and
  the symbol node of the pending reduction.
\<close>

theorem Reducer_correct:
  assumes "wf_grammar G" "lr_table G I N t" "\<forall>X \<in> set Symbols. grammar_symbol G X"
    and "step_inv G I N t inputs Symbols P" "m_PendingReductions P = R # Rs"
  shows "Reducer F t Symbols P =
      Some (fold (ReduceOnePath F t Symbols R)
        (walks (gss_of P) (2 * rule_length t R - 1) [m_LastStateNodeNo R, m_SymbolNodeNo R])
        (P\<lparr>m_PendingReductions := Rs\<rparr>)) \<and>
    set (walks (gss_of P) (2 * rule_length t R - 1) [m_LastStateNodeNo R, m_SymbolNodeNo R]) =
      {flat_path (m_LastStateNodeNo R) es |es. es \<noteq> [] \<and> fst (hd es) = m_SymbolNodeNo R \<and> length es = rule_length t R \<and>
        (\<exists>w. gpath (gss_of P) (m_LastStateNodeNo R) es w)}"
proof -
  have ne: "m_PendingReductions P \<noteq> []" and hd: "hd (m_PendingReductions P) = R" "tl (m_PendingReductions P) = Rs"
    using assms(5) by simp_all
  have "0 < rule_length t R" using reducing_length [OF reducing_start(1) [OF assms(1-4) ne]] by (simp add: hd)
  moreover have "m_SymbolNodeNo R \<in> set (gchildren (gss_of P) (m_LastStateNodeNo R))"
    using assms(4) unfolding step_inv_def pending_ok_def assms(5) by (metis list.set_intros(1))
  ultimately show ?thesis
    using Reducer_eq [OF assms(1-4) ne, of F] walks_all_paths [of "rule_length t R" "m_SymbolNodeNo R" "gss_of P"] by (simp add: hd)
qed

theorem Reducer_correct_witness:
  "m_PendingReductions sample_stack = [\<lparr>m_SymbolNodeNo = 1, m_LastStateNodeNo = 2, m_pReduceRule = 1\<rparr>] \<and>
   Reducer sample_factory sample_table [3] sample_stack =
     Some (ReduceOnePath sample_factory sample_table [3] \<lparr>m_SymbolNodeNo = 1, m_LastStateNodeNo = 2, m_pReduceRule = 1\<rparr>
       [2, 1, 1, 0, 0] (sample_stack\<lparr>m_PendingReductions := []\<rparr>))"
proof -
  let ?R = "\<lparr>m_SymbolNodeNo = 1, m_LastStateNodeNo = 2, m_pReduceRule = 1\<rparr>"
  have p: "m_PendingReductions sample_stack = [?R]" by (simp add: sample_stack_def InitGLRParser_def)
  have len: "rule_length sample_table ?R = 2" by (simp add: rule_length_def sample_table_reads(1) sample_infos)
  have w: "walks (gss_of sample_stack) 3 [2, 1] = [[2, 1, 1, 0, 0]]"
    by (simp add: numeral_3_eq_3 kids_def sample_gss)
  show ?thesis
    using Reducer_correct [OF sample_symbols(3) sample_table_ok sample_symbols(1) sample_stack_inv p, of sample_factory] p w len
    by simp
qed

text \<open>
  \<^verbatim>\<open>CreateOrReuseNode\<close>: the node it gives exists and is in the asked state; a node it reports as
  old is the root (in robust mode) or belongs to the current closure, and nothing changes; a new node
  has no children and is the last one, and is made only if no node of the current closure could be reused.
\<close>

lemma CreateOrReuseNode_correct:
  assumes "m_StateNodes P \<noteq> []" "CreateOrReuseNode StateNo P = (created, v, P')"
  shows "v < length (m_StateNodes P') \<and> node_StateNo (m_StateNodes P' ! v) = StateNo \<and>
    (if created
     then P' = P\<lparr>m_StateNodes := m_StateNodes P @ [state_node StateNo]\<rparr> \<and> v = length (m_StateNodes P) \<and>
       (m_bSynAnOptions P \<or> (\<forall>u < length (m_StateNodes P). GetFirstNodeNoOfCurrentClosure P \<le> u \<longrightarrow>
          node_StateNo (m_StateNodes P ! u) \<noteq> StateNo))
     else P' = P \<and> (m_bRobust P \<and> v = 0 \<or> \<not> m_bSynAnOptions P \<and> GetFirstNodeNoOfCurrentClosure P \<le> v))"
proof -
  let ?nodes = "[GetFirstNodeNoOfCurrentClosure P..<length (m_StateNodes P)]"
  let ?find = "List.find (\<lambda>i. node_StateNo (m_StateNodes P ! i) = StateNo) ?nodes"
  have new: "\<forall>u < length (m_StateNodes P). GetFirstNodeNoOfCurrentClosure P \<le> u \<longrightarrow> node_StateNo (m_StateNodes P ! u) \<noteq> StateNo"
    if "?find = None" using that by (auto simp: find_None_iff)
  have old: "u < length (m_StateNodes P) \<and> GetFirstNodeNoOfCurrentClosure P \<le> u \<and> node_StateNo (m_StateNodes P ! u) = StateNo"
    if "?find = Some u" for u using find_SomeD [OF that] by simp
  show ?thesis
  proof (cases "m_bRobust P \<and> node_StateNo (m_StateNodes P ! 0) = StateNo")
    case True
    then show ?thesis using assms by (simp add: CreateOrReuseNode_def)
  next
    case False
    note reuse = this
    show ?thesis
    proof (cases "if m_bSynAnOptions P then None else ?find")
      case None
      then have "created" "v = length (m_StateNodes P)" "P' = P\<lparr>m_StateNodes := m_StateNodes P @ [state_node StateNo]\<rparr>"
        using assms(2) reuse by (simp_all add: CreateOrReuseNode_def split: if_splits)
      then show ?thesis using new None by (auto simp: state_node_def split: if_splits)
    next
      case (Some u)
      then have "\<not> created" "v = u" "P' = P" "\<not> m_bSynAnOptions P" "?find = Some u"
        using assms(2) reuse by (simp_all add: CreateOrReuseNode_def split: if_splits)
      then show ?thesis using old by simp
    qed
  qed
qed

lemma CreateOrReuseNode_correct_witness:
  "CreateOrReuseNode 4 sample_stack = (True, 3, sample_stack\<lparr>m_StateNodes := m_StateNodes sample_stack @ [state_node 4]\<rparr>) \<and>
   node_StateNo ((m_StateNodes sample_stack @ [state_node 4]) ! 3) = 4"
proof -
  have e: "CreateOrReuseNode 4 sample_stack = (True, 3, sample_stack\<lparr>m_StateNodes := m_StateNodes sample_stack @ [state_node 4]\<rparr>)"
    by code_simp
  have "m_StateNodes sample_stack \<noteq> []" by (simp add: sample_stack_def)
  then show ?thesis using CreateOrReuseNode_correct [OF _ e] e by simp
qed

text \<open>
  \<^verbatim>\<open>GetNumberOfClosureSet\<close>: when the levels are sorted, the level of a node is the number of borders
  at or below it; a node above the last border has the number of all levels.
\<close>

lemma GetNumberOfClosureSet_correct:
  assumes "sorted (m_InputLevels P)"
  shows "GetNumberOfClosureSet v P = length (filter (\<lambda>b. b \<le> v) (m_InputLevels P))"
  by (rule GetNumberOfClosureSet_count [OF assms])

lemma GetNumberOfClosureSet_correct_witness:
  "sorted (m_InputLevels sample_stack) \<and> GetNumberOfClosureSet 1 sample_stack = 1 \<and> GetNumberOfClosureSet 5 sample_stack = 3"
proof -
  have l: "m_InputLevels sample_stack = [1, 2, 3]" by (simp add: sample_stack_def)
  then have "sorted (m_InputLevels sample_stack)" by simp
  then show ?thesis using GetNumberOfClosureSet_correct [of sample_stack] l by simp
qed

text \<open>
  \<^verbatim>\<open>AddInputItem\<close>: after any number of items are added to a symbol node that has one, the main item is
  one of them with the greatest weight, and the main item with the other variants are exactly all the items.
\<close>

lemma AddInputItem_correct:
  assumes "m_pItem node = Some cur"
  shows "\<exists>best. m_pItem (fold (\<lambda>i. AddInputItem weight (Some i)) items node) = Some best \<and>
    mset (best # m_OtherItemVariants (fold (\<lambda>i. AddInputItem weight (Some i)) items node)) =
      mset items + mset (cur # m_OtherItemVariants node) \<and>
    weight best = fold (\<lambda>i. max (weight i)) items (weight cur)"
  by (rule AddInputItem_fold [OF assms])

lemma AddInputItem_correct_witness:
  "m_pItem (sample_leaf 1 0 [0]) = Some 1 \<and>
   (\<exists>best. m_pItem (fold (\<lambda>i. AddInputItem (\<lambda>x. x) (Some i)) [5, 3] (sample_leaf 1 0 [0])) = Some best \<and> best = 5)"
proof -
  have "m_pItem (sample_leaf 1 0 [0]) = Some 1" by (simp add: sample_leaf_def)
  then show ?thesis using AddInputItem_correct [of "sample_leaf 1 0 [0]" 1 "\<lambda>x. x" "[5, 3]"] by auto
qed

end
