(* ===== verification/SequenceCorrect.thy ===== *)
theory SequenceCorrect
  imports InputSequence GLRCorrect TrieAutomaton
begin

text \<open>
  Correctness of \<^verbatim>\<open>inputsequence.cpp\<close>: searching a sequence of ambiguous words with the trie finds the
  patterns that some choice of interpretations spells, and the occurrences that \<^verbatim>\<open>ApplyGLR_Parsing\<close> and
  \<^verbatim>\<open>Process\<close> report are parts of the input derived from a root symbol of the grammar.
\<close>

section \<open>Searching with the trie\<close>

abbreviation inputs_of :: "CInputItem list \<Rightarrow> symbol set list" where
  "inputs_of Ws \<equiv> map (\<lambda>W. set (terminals W)) Ws"

text \<open>The choices of interpretations of the words from \<open>j\<close> up to \<open>i\<close>.\<close>

definition choices :: "symbol set list \<Rightarrow> nat \<Rightarrow> nat \<Rightarrow> symbol list set" where
  "choices inputs j i = {v. j + length v = i \<and> matches inputs j v}"

text \<open>The occurrences that end at \<open>i\<close> or before.\<close>

definition spelled :: "symbol list list \<Rightarrow> symbol set list \<Rightarrow> nat \<Rightarrow> 'i COccurrence set" where
  "spelled pats inputs i =
     {occurrence s e k |s e k. s < e \<and> e \<le> i \<and> (\<exists>w \<in> choices inputs s e. position pats w = Some k)}"

lemma choices_empty: "j \<le> length inputs \<Longrightarrow> choices inputs j j = {[]}"
  by (auto simp: choices_def matches_def)

lemma choices_snoc:
  assumes "j \<le> i" "i < length inputs"
  shows "choices inputs j (Suc i) = {v @ [a] |v a. v \<in> choices inputs j i \<and> a \<in> inputs ! i}"
proof -
  have single: "matches inputs i [a] \<longleftrightarrow> a \<in> inputs ! i" for a using assms(2) by (simp add: matches_def)
  have "w \<in> choices inputs j (Suc i) \<longleftrightarrow> (\<exists>v a. w = v @ [a] \<and> v \<in> choices inputs j i \<and> a \<in> inputs ! i)" for w
  proof (cases w rule: rev_cases)
    case Nil
    then show ?thesis using assms(1) by (simp add: choices_def)
  next
    case (snoc v a)
    have "matches inputs j (v @ [a]) \<longleftrightarrow> matches inputs j v \<and> matches inputs (j + length v) [a]"
      by (rule matches_append)
    then show ?thesis using snoc single by (auto simp: choices_def)
  qed
  then show ?thesis by blast
qed

lemma choices_exist: "j \<le> i \<Longrightarrow> i \<le> length inputs \<Longrightarrow> \<forall>k. j \<le> k \<and> k < i \<longrightarrow> inputs ! k \<noteq> {} \<Longrightarrow> choices inputs j i \<noteq> {}"
proof (induction i rule: nat_induct_at_least [of j])
  case base
  then show ?case using choices_empty by auto
next
  case (Suc i)
  then show ?case by (auto simp: choices_snoc)
qed

lemma spelled_step:
  assumes j: "j \<le> i" and i: "i < length inputs" and full: "\<forall>k. j \<le> k \<and> k < i \<longrightarrow> inputs ! k \<noteq> {}"
    and start: "j = 0 \<or> inputs ! (j - 1) = {}"
  shows "spelled pats inputs (Suc i) = spelled pats inputs i \<union>
    (\<Union>v \<in> choices inputs j i. \<Union>a \<in> inputs ! i. set (suffix_occurrences pats i (v @ [a])))"
proof (intro equalityI subsetI)
  fix C assume "C \<in> spelled pats inputs (Suc i)"
  then obtain s e k w where C: "C = occurrence s e k" "s < e" "e \<le> Suc i" "w \<in> choices inputs s e" "position pats w = Some k"
    by (auto simp: spelled_def)
  show "C \<in> spelled pats inputs i \<union> (\<Union>v \<in> choices inputs j i. \<Union>a \<in> inputs ! i. set (suffix_occurrences pats i (v @ [a])))"
  proof (cases "e = Suc i")
    case True
    have w: "s + length w = Suc i" "matches inputs s w" using C(4) True by (auto simp: choices_def)
    have "j \<le> s"
    proof (rule ccontr)
      assume "\<not> j \<le> s"
      then have less: "s \<le> j - 1" "j \<noteq> 0" "j - 1 - s < length w" using w(1) j by auto
      have "w ! (j - 1 - s) \<in> inputs ! (s + (j - 1 - s))" using w(2) less(3) unfolding matches_def by blast
      moreover have "s + (j - 1 - s) = j - 1" using less(1) by simp
      ultimately show False using start less(2) by simp
    qed
    moreover have "s \<le> i" using C(2) True by simp
    ultimately obtain z where z: "z \<in> choices inputs j s" using choices_exist [of j s inputs] full i by fastforce
    then have "matches inputs j (z @ w)" using w(2) by (auto simp: choices_def matches_append)
    then have "z @ w \<in> choices inputs j (Suc i)" using z w(1) by (simp add: choices_def)
    then obtain v a where v: "z @ w = v @ [a]" "v \<in> choices inputs j i" "a \<in> inputs ! i"
      using choices_snoc [OF j i] by auto
    have "suffix w (v @ [a])" unfolding v(1) [symmetric] by (simp add: suffix_def)
    moreover have "w \<noteq> []" using w(1) C(2) True by auto
    moreover have "s = i + 1 - length w" using w(1) by simp
    ultimately have "C \<in> set (suffix_occurrences pats i (v @ [a]))"
      unfolding suffix_occurrences_iff using C(1,5) True by auto
    then show ?thesis using v by blast
  next
    case False
    then have "e \<le> i" using C(3) by simp
    then show ?thesis using C by (auto simp: spelled_def)
  qed
next
  fix C :: "'a COccurrence"
  assume "C \<in> spelled pats inputs i \<union> (\<Union>v \<in> choices inputs j i. \<Union>a \<in> inputs ! i. set (suffix_occurrences pats i (v @ [a])))"
  then consider "C \<in> spelled pats inputs i"
    | v a where "v \<in> choices inputs j i" "a \<in> inputs ! i" "C \<in> set (suffix_occurrences pats i (v @ [a]))" by blast
  then show "C \<in> spelled pats inputs (Suc i)"
  proof cases
    case 1
    then show ?thesis using le_Suc_eq unfolding spelled_def by blast
  next
    case (2 v a)
    obtain u k where u: "u \<noteq> []" "suffix u (v @ [a])" "position pats u = Some k" "C = occurrence (i + 1 - length u) (i + 1) k"
      using 2(3) unfolding suffix_occurrences_iff by blast
    obtain z where z: "v @ [a] = z @ u" using u(2) by (auto simp: suffix_def)
    have va: "v @ [a] \<in> choices inputs j (Suc i)" using 2 choices_snoc [OF j i] by blast
    then have "matches inputs (j + length z) u" "j + (length z + length u) = Suc i"
      unfolding z by (auto simp: choices_def matches_append)
    moreover from this(2) have "i + 1 - length u = j + length z" by simp
    ultimately have "u \<in> choices inputs (i + 1 - length u) (i + 1)" by (simp add: choices_def)
    moreover have "i + 1 - length u < i + 1" using u(1) by simp
    ultimately show ?thesis
      using u(3,4) unfolding spelled_def Suc_eq_plus1 by blast
  qed
qed

text \<open>The states of the automaton after a set of words.\<close>

definition states_of :: "symbol list list \<Rightarrow> symbol list set \<Rightarrow> nat set" where
  "states_of ws V = (\<lambda>v. nat (trie_no ws (longest_in (set ws) v))) ` V"

lemma state_word:
  assumes "automaton T ws pats"
  shows "nat (trie_no ws (longest_in (set ws) v)) < length ws"
    and "ws ! nat (trie_no ws (longest_in (set ws) v)) = longest_in (set ws) v"
proof -
  have "longest_in (set ws) v \<in> set ws"
    using assms prefix_closed.longest_in_mem [OF ok_closed] by (auto simp: automaton_def)
  then obtain n where "trie_no ws (longest_in (set ws) v) = int n" "n < length ws" "ws ! n = longest_in (set ws) v"
    by (rule trie_no_in)
  then show "nat (trie_no ws (longest_in (set ws) v)) < length ws"
    "ws ! nat (trie_no ws (longest_in (set ws) v)) = longest_in (set ws) v" by simp_all
qed

lemma advance_states_spec:
  assumes "automaton T ws pats" "\<forall>p \<in> set pairs. fst p < length ws"
  shows "\<exists>States' Occ'. advance_states T i pairs States Occ = Some (States', Occ') \<and>
    set States' = set States \<union> states_of ws {ws ! it @ [a] |it a. (it, a) \<in> set pairs} \<and>
    set Occ' = set Occ \<union> (\<Union>(it, a) \<in> set pairs. set (suffix_occurrences pats i (ws ! it @ [a])))"
  using assms(2)
proof (induction pairs arbitrary: States Occ)
  case Nil
  then show ?case by (simp add: states_of_def)
next
  case (Cons p pairs)
  obtain it a where p: "p = (it, a)" by (cases p)
  have ok: "trie_ok T ws pats" using assms(1) by (simp add: automaton_def)
  have subset: "set pats \<subseteq> set ws" using ok pattern_is_prefix by (auto simp: trie_ok_def)
  have it: "it < length ws" "ws ! it \<in> set ws" "trie_no ws (ws ! it) = int it"
    using Cons.prems p ok by (auto simp: trie_ok_def spells_def)
  let ?w = "ws ! it @ [a]"
  let ?States = "oset_insert (<) (nat (trie_no ws (longest_in (set ws) ?w))) States"
  let ?Occ = "Occ @ suffix_occurrences pats i ?w"
  have step: "NextState T (int it) i (int a) Occ = Some (trie_no ws (longest_in (set ws) ?w), ?Occ)"
    using NextState_spec [OF assms(1) it(2), of i a Occ] it(3) by (simp add: suffix_occurrences_longest [OF subset])
  obtain States' Occ' where r: "advance_states T i pairs ?States ?Occ = Some (States', Occ')"
      "set States' = set ?States \<union> states_of ws {ws ! it @ [a] |it a. (it, a) \<in> set pairs}"
      "set Occ' = set ?Occ \<union> (\<Union>(it, a) \<in> set pairs. set (suffix_occurrences pats i (ws ! it @ [a])))"
    using Cons.IH [of ?States ?Occ] Cons.prems by auto
  have "advance_states T i (p # pairs) States Occ = Some (States', Occ')" using r(1) step p by simp
  moreover have "set States' = set States \<union> states_of ws {ws ! it @ [a] |it a. (it, a) \<in> set (p # pairs)}"
    unfolding r(2) p states_of_def by auto
  moreover have "set Occ' = set Occ \<union> (\<Union>(it, a) \<in> set (p # pairs). set (suffix_occurrences pats i (ws ! it @ [a])))"
    unfolding r(3) p by auto
  ultimately show ?case by blast
qed

lemma find_words_spec:
  fixes Occ :: "'a COccurrence list"
  assumes aut: "automaton T ws pats" and "inputs = inputs_of (Us @ Ws)" and "i = length Us"
    and "j \<le> i" "\<forall>k. j \<le> k \<and> k < i \<longrightarrow> inputs ! k \<noteq> {}" "j = 0 \<or> inputs ! (j - 1) = {}"
    and "set States = states_of ws (choices inputs j i)" "set Occ = spelled pats inputs i"
  shows "\<exists>Occ'. find_words T i Ws States Occ = Some Occ' \<and> set Occ' = spelled pats inputs (length inputs)"
  using assms(2-)
proof (induction Ws arbitrary: Us i j States Occ)
  case Nil
  then show ?case by simp
next
  case (Cons W Ws)
  let ?A = "terminals W" and ?in = "inputs_of (Us @ W # Ws)"
  have i: "i < length inputs" and A: "inputs ! i = set ?A" and inputs: "inputs = ?in"
    using Cons.prems(1,2) by (simp_all add: nth_append)
  have ok: "trie_ok T ws pats" using aut by (simp add: automaton_def)
  have subset: "set pats \<subseteq> set ws" using ok pattern_is_prefix by (auto simp: trie_ok_def)
  note cl = ok_closed [OF ok]
  let ?V = "choices inputs j i" and ?pairs = "List.product States ?A"
  have "\<forall>p \<in> set ?pairs. fst p < length ws"
    using Cons.prems(6) state_word(1) [OF aut] by (auto simp: states_of_def)
  then obtain Next Occ1 where adv: "advance_states T i ?pairs [] Occ = Some (Next, Occ1)"
      "set Next = states_of ws {ws ! it @ [a] |it a. (it, a) \<in> set ?pairs}"
      "set Occ1 = set Occ \<union> (\<Union>(it, a) \<in> set ?pairs. set (suffix_occurrences pats i (ws ! it @ [a])))"
    using advance_states_spec [OF aut, of ?pairs i "[]" Occ] by auto
  have words: "{ws ! it @ [a] |it a. (it, a) \<in> set ?pairs} =
      (\<lambda>(v, a). longest_in (set ws) v @ [a]) ` (?V \<times> set ?A)"
    using Cons.prems(6) by (auto simp: states_of_def state_word(2) [OF aut] image_iff) (metis state_word(2) [OF aut])+
  have nexts: "set Next = states_of ws (choices inputs j (Suc i))"
  proof -
    have "set Next = (\<lambda>(v, a). nat (trie_no ws (longest_in (set ws) (longest_in (set ws) v @ [a])))) ` (?V \<times> set ?A)"
      unfolding adv(2) words states_of_def image_image by (simp add: case_prod_unfold)
    also have "\<dots> = states_of ws ((\<lambda>(v, a). v @ [a]) ` (?V \<times> set ?A))"
      unfolding states_of_def image_image by (simp add: case_prod_unfold flip: prefix_closed.longest_in_snoc [OF cl])
    also have "(\<lambda>(v, a). v @ [a]) ` (?V \<times> set ?A) = choices inputs j (Suc i)"
      unfolding choices_snoc [OF Cons.prems(3) i] A by auto
    finally show ?thesis .
  qed
  have occs: "set Occ1 = spelled pats inputs (Suc i)"
  proof -
    have "(\<Union>(it, a) \<in> set ?pairs. set (suffix_occurrences pats i (ws ! it @ [a]) :: 'a COccurrence list)) =
        (\<Union>w \<in> {ws ! it @ [a] |it a. (it, a) \<in> set ?pairs}. set (suffix_occurrences pats i w))" by blast
    also have "\<dots> = (\<Union>v \<in> ?V. \<Union>a \<in> set ?A. set (suffix_occurrences pats i (longest_in (set ws) v @ [a])))"
      unfolding words by auto
    also have "\<dots> = (\<Union>v \<in> ?V. \<Union>a \<in> set ?A. set (suffix_occurrences pats i (v @ [a])))"
    proof -
      have "(suffix_occurrences pats i (longest_in (set ws) v @ [a]) :: 'a COccurrence list) = suffix_occurrences pats i (v @ [a])" for v a
        by (metis prefix_closed.longest_in_snoc [OF cl] suffix_occurrences_longest [OF subset])
      then show ?thesis by simp
    qed
    also have "set Occ \<union> \<dots> = spelled pats inputs (Suc i)"
      unfolding Cons.prems(7) A [symmetric] by (rule spelled_step [OF Cons.prems(3) i Cons.prems(4,5), symmetric])
    finally show ?thesis unfolding adv(3) .
  qed
  let ?j = "if ?A = [] then Suc i else j" and ?States = "if Next = [] then oset_insert (<) 0 [] else Next"
  have empty: "Next = [] \<longleftrightarrow> ?A = []"
  proof -
    have "?V \<noteq> {}" by (rule choices_exist) (use Cons.prems(3,4) i in auto)
    then have "choices inputs j (Suc i) = {} \<longleftrightarrow> ?A = []"
      unfolding choices_snoc [OF Cons.prems(3) i] A by (cases ?A) auto
    moreover have "Next = [] \<longleftrightarrow> set Next = {}" by simp
    ultimately show ?thesis unfolding nexts by (simp add: states_of_def)
  qed
  have "set ?States = states_of ws (choices inputs ?j (Suc i))"
  proof (cases "?A = []")
    case True
    then show ?thesis using empty choices_empty [of "Suc i" inputs] i ok_root [OF ok] by (simp add: states_of_def)
  next
    case False
    then show ?thesis using empty nexts by simp
  qed
  moreover have "\<forall>k. ?j \<le> k \<and> k < Suc i \<longrightarrow> inputs ! k \<noteq> {}" using Cons.prems(4) A by (auto simp: less_Suc_eq)
  moreover have "?j = 0 \<or> inputs ! (?j - 1) = {}" using Cons.prems(5) A by simp
  moreover have "?j \<le> Suc i" "inputs = inputs_of ((Us @ [W]) @ Ws)" "Suc i = length (Us @ [W])"
    using Cons.prems(1-3) by simp_all
  ultimately obtain Occ' where "find_words T (Suc i) Ws ?States Occ1 = Some Occ'" "set Occ' = spelled pats inputs (length inputs)"
    using Cons.IH [of "Us @ [W]" "Suc i" ?j ?States Occ1] occs by blast
  then show ?case using adv(1) by simp
qed

lemma FindOccurrencesWithTrie_spec:
  assumes "automaton T ws pats"
  shows "\<exists>Occ :: 'i COccurrence list. FindOccurrencesWithTrie T Q = Some Occ \<and>
    set Occ = spelled pats (inputs_of (m_InputTerminals Q)) (length (m_InputTerminals Q))"
proof -
  let ?in = "inputs_of (m_InputTerminals Q)"
  have "set [0 :: nat] = states_of ws (choices ?in 0 0)"
    using ok_root assms choices_empty [of 0 ?in] by (auto simp: states_of_def automaton_def)
  moreover have "set [] = (spelled pats ?in 0 :: 'i COccurrence set)" by (auto simp: spelled_def)
  ultimately show ?thesis
    using find_words_spec [OF assms, of ?in "[]" "m_InputTerminals Q" 0 0 "[0]" "[] :: 'i COccurrence list"]
    unfolding FindOccurrencesWithTrie_def by simp
qed

section \<open>Parsing\<close>

text \<open>What every symbol node of a parser satisfies over the words \<open>inputs\<close>.\<close>

definition nodes_span :: "('b CWorkGrammar_scheme) \<Rightarrow> symbol set list \<Rightarrow> ('i, 'f) CGLRParser \<Rightarrow> bool" where
  "nodes_span G inputs P \<longleftrightarrow>
     (\<forall>n \<in> set (m_SymbolNodes P). grammar_symbol G (sn_SymbolNo n) \<and> m_InputStart n < m_InputEnd n \<and>
        spans G inputs (sn_SymbolNo n) (m_InputStart n) (m_InputEnd n))"

lemma nodes_span_gss: "gss_inv G N t inputs (gss_of P) \<Longrightarrow> nodes_span G inputs P"
  by (auto simp: nodes_span_def gss_inv_def sym_inv_def in_set_conv_nth gss_of_def symbol_of_def)

lemma nodes_span_more: "nodes_span G inputs P \<Longrightarrow> nodes_span G (inputs @ ins) P"
  by (auto simp: nodes_span_def intro: spans_more)

lemma nodes_span_step: "step_inv G I N t inputs Symbols P \<Longrightarrow> nodes_span G inputs P"
  by (auto simp: step_inv_def intro: nodes_span_gss)

lemma nodes_span_ready: "parser_ready G N t inputs P \<Longrightarrow> nodes_span G inputs P"
  by (auto simp: parser_ready_def intro: nodes_span_gss)

lemma ParseSymbol_spans:
  assumes "wf_grammar G" "lr_table G I N t" "\<forall>X \<in> set Symbols. grammar_symbol G X"
    and "parser_ready G N t inputs P" "m_bBreakAfterMaxSymbolNodesCount P"
  shows "\<exists>result P'. ParseSymbol F t Symbols b P = Some (result, P') \<and> nodes_span G (inputs @ [set Symbols]) P' \<and>
    (result \<longrightarrow> parser_ready G N t (inputs @ [set Symbols]) P' \<and> m_bBreakAfterMaxSymbolNodesCount P')"
proof (rule ParseSymbol_inv [OF assms, of F b])
  fix result P' assume "ParseSymbol F t Symbols b P = Some (result, P')"
    "parser_ready G N t (inputs @ [set Symbols]) P'" "m_bBreakAfterMaxSymbolNodesCount P'"
  then show ?thesis using nodes_span_ready by blast
next
  fix P' assume "ParseSymbol F t Symbols b P = Some (False, P')" "step_inv G I N t inputs Symbols P'"
  then show ?thesis using nodes_span_more [OF nodes_span_step] by blast
qed

text \<open>The end symbol and the interpretations of the words are symbols of the input.\<close>

definition words_ok :: "('b CWorkGrammar_scheme) \<Rightarrow> CInputItem list \<Rightarrow> bool" where
  "words_ok G Ws \<longleftrightarrow> (\<forall>W \<in> set Ws. \<forall>X \<in> set (terminals W). X < GetEndOfStreamSymbol G)"

lemma augmented_end: "augmented G \<Longrightarrow> grammar_symbol G (GetEndOfStreamSymbol G)"
  by (auto simp: augmented_def grammar_symbol_def GetEndOfStreamSymbol_def GetNewRoot_def)

lemma words_ok_symbol: "words_ok G Ws \<Longrightarrow> W \<in> set Ws \<Longrightarrow> \<forall>X \<in> set (terminals W). grammar_symbol G X"
  by (force simp: words_ok_def grammar_symbol_def GetEndOfStreamSymbol_def GetNewRoot_def)

lemma parse_words_spans:
  assumes aug: "augmented G" and tab: "lr_table G I N t" and "words_ok G Ws"
    and "parser_ready G N t inputs P" "m_bBreakAfterMaxSymbolNodesCount P" "Count = i + length Ws"
  shows "\<exists>P'. parse_words F G t StartPoints Count i Ws P = Some P' \<and>
    nodes_span G (inputs @ inputs_of Ws @ [{GetEndOfStreamSymbol G}]) P'"
  using assms(3-)
proof (induction Ws arbitrary: i P inputs)
  case Nil
  then show ?case using nodes_span_more [OF nodes_span_ready] by auto
next
  case (Cons W Ws)
  have wf: "wf_grammar G" using aug by (simp add: augmented_def)
  have syms: "\<forall>X \<in> set (terminals W). grammar_symbol G X" by (rule words_ok_symbol [OF Cons.prems(1)]) simp
  obtain result P1 where P1: "ParseSymbol F t (terminals W) (oset_mem (<) i StartPoints) P = Some (result, P1)"
      "nodes_span G (inputs @ [set (terminals W)]) P1"
      "result \<longrightarrow> parser_ready G N t (inputs @ [set (terminals W)]) P1 \<and> m_bBreakAfterMaxSymbolNodesCount P1"
    using ParseSymbol_spans [OF wf tab syms Cons.prems(2,3)] by blast
  consider "\<not> result" | "result" "i + 1 = Count" | "result" "i + 1 \<noteq> Count" by blast
  then show ?case
  proof cases
    case 1
    then show ?thesis using P1 nodes_span_more [OF P1(2), of "inputs_of Ws @ [{GetEndOfStreamSymbol G}]"] by simp
  next
    case 2
    have "\<forall>X \<in> set (oset_insert (<) (GetEndOfStreamSymbol G) []). grammar_symbol G X" using augmented_end [OF aug] by simp
    then obtain result' P2 where P2: "ParseSymbol F t (oset_insert (<) (GetEndOfStreamSymbol G) []) False P1 = Some (result', P2)"
        "nodes_span G ((inputs @ [set (terminals W)]) @ [{GetEndOfStreamSymbol G}]) P2"
      using ParseSymbol_spans [OF wf tab, of "oset_insert (<) (GetEndOfStreamSymbol G) []"] P1(3) 2(1) by fastforce
    moreover have "Ws = []" using 2(2) Cons.prems(4) by simp
    ultimately show ?thesis using P1(1) 2 by auto
  next
    case 3
    then show ?thesis using P1 Cons.IH [of "inputs @ [set (terminals W)]" P1 "i + 1"] Cons.prems(1,4) by (simp add: words_ok_def)
  qed
qed

text \<open>Only the rule of the new root has the end symbol, so nothing else derives it.\<close>

lemma derives_without_end:
  assumes "augmented G" "derives G u w" "GetNewRoot G \<notin> set u" "GetEndOfStreamSymbol G \<notin> set u"
  shows "GetNewRoot G \<notin> set w \<and> GetEndOfStreamSymbol G \<notin> set w"
  using assms(2-)
proof (induction rule: rtranclp_induct)
  case (step v w)
  obtain R p s where R: "R \<in> set (m_EncodedRules G)" "v = p @ m_LeftPart R # s" "w = p @ rhs R @ s"
    using step.hyps(2) by (auto simp: derives1_def)
  have "m_LeftPart R \<noteq> GetNewRoot G" using step R(2) by auto
  then have "GetNewRoot G \<notin> set (rhs R)" "GetEndOfStreamSymbol G \<notin> set (rhs R)"
    using assms(1) R(1) by (auto simp: augmented_def list_all_iff)
  then show ?case using step R(2,3) by auto
qed simp

lemma root_span:
  assumes aug: "augmented G" and "nodes_span G (inputs @ [{GetEndOfStreamSymbol G}]) P" "node \<in> set (m_SymbolNodes P)"
    and "is_root_node G node"
  shows "sn_SymbolNo node < GetEndOfStreamSymbol G \<and> m_InputStart node < m_InputEnd node \<and>
    spans G inputs (sn_SymbolNo node) (m_InputStart node) (m_InputEnd node)"
proof -
  let ?X = "sn_SymbolNo node" and ?E = "GetEndOfStreamSymbol G"
  have X: "grammar_symbol G ?X" "m_InputStart node < m_InputEnd node"
      "spans G (inputs @ [{?E}]) ?X (m_InputStart node) (m_InputEnd node)"
    using assms(2,3) by (auto simp: nodes_span_def)
  have "?X \<noteq> ?E" using assms(4) by (simp add: is_root_node_def)
  moreover have "?X < length (m_UniqueGrammarItems G)" "?X \<noteq> GetNewRoot G" using X(1) by (auto simp: grammar_symbol_def)
  ultimately have less: "?X < ?E" by (auto simp: GetEndOfStreamSymbol_def GetNewRoot_def)
  obtain w where w: "m_InputEnd node = m_InputStart node + length w" "matches (inputs @ [{?E}]) (m_InputStart node) w" "derives G [?X] w"
    using X(3) by (auto simp: spans_def)
  have noend: "?E \<notin> set w"
    using derives_without_end [OF aug w(3)] \<open>?X \<noteq> ?E\<close> \<open>?X \<noteq> GetNewRoot G\<close> by auto
  have "m_InputStart node + length w \<le> length inputs"
  proof (rule ccontr)
    assume a: "\<not> ?thesis"
    have b: "m_InputStart node + length w \<le> length inputs + 1" "0 < length w" using w(1,2) X(2) by (simp_all add: matches_def)
    then have last: "m_InputStart node + (length w - 1) = length inputs" using a by linarith
    have "w ! (length w - 1) \<in> (inputs @ [{?E}]) ! (m_InputStart node + (length w - 1))"
      using w(2) b(2) unfolding matches_def by (metis diff_less zero_less_one)
    then have "w ! (length w - 1) = ?E" unfolding last by simp
    then show False using noend b(2) by (metis diff_less nth_mem zero_less_one)
  qed
  then have "matches inputs (m_InputStart node) w" using w(2) by (auto simp: matches_def nth_append)
  then show ?thesis using w X(2) less by (auto simp: spans_def)
qed

text \<open>An occurrence reported for a parser: an enabled node, with its ends and its item.\<close>

definition occurrence_ok :: "('b CWorkGrammar_scheme) \<Rightarrow> symbol set list \<Rightarrow> 'i CSymbolNode list \<Rightarrow> 'i COccurrence \<Rightarrow> bool" where
  "occurrence_ok G inputs Output C \<longleftrightarrow>
     occ_GrammarRuleNo C < length Output \<and> occ_first C < occ_second C \<and> occ_second C \<le> length inputs \<and>
     m_pInputItem C = m_pItem (Output ! occ_GrammarRuleNo C) \<and>
     \<not> sn_bDisabled (Output ! occ_GrammarRuleNo C) \<and>
     occ_first C = m_InputStart (Output ! occ_GrammarRuleNo C) \<and> occ_second C = m_InputEnd (Output ! occ_GrammarRuleNo C) \<and>
     (\<exists>X < GetEndOfStreamSymbol G. m_bGrammarRoot (m_UniqueGrammarItems G ! X) \<and>
        X = sn_SymbolNo (Output ! occ_GrammarRuleNo C) \<and> spans G inputs X (occ_first C) (occ_second C))"

text \<open>The nodes that the search has to report, in terms of the grammar: enabled nodes of a symbol of the grammar
  that is marked as a root.\<close>

definition enabled_root :: "('b CWorkGrammar_scheme) \<Rightarrow> 'i CSymbolNode \<Rightarrow> bool" where
  "enabled_root G node \<longleftrightarrow>
     \<not> sn_bDisabled node \<and> sn_SymbolNo node < GetEndOfStreamSymbol G \<and> m_bGrammarRoot (m_UniqueGrammarItems G ! sn_SymbolNo node)"

lemma root_occurrences_complete:
  assumes "augmented G" "nodes_span G (inputs @ [{GetEndOfStreamSymbol G}]) P"
  shows "map occ_GrammarRuleNo (root_occurrences G (m_SymbolNodes P)) =
    filter (\<lambda>i. enabled_root G (m_SymbolNodes P ! i)) [0..<length (m_SymbolNodes P)]"
proof -
  have "is_root_node G (m_SymbolNodes P ! i) = enabled_root G (m_SymbolNodes P ! i)" if "i < length (m_SymbolNodes P)" for i
    using root_span [OF assms nth_mem [OF that]] by (auto simp: enabled_root_def is_root_node_def)
  then have "filter (\<lambda>i. is_root_node G (m_SymbolNodes P ! i)) [0..<length (m_SymbolNodes P)] =
      filter (\<lambda>i. enabled_root G (m_SymbolNodes P ! i)) [0..<length (m_SymbolNodes P)]"
    by (intro filter_cong) auto
  then show ?thesis by (simp add: root_occurrences_def occurrence_def comp_def)
qed

lemma root_occurrences_ok:
  assumes "augmented G" "nodes_span G (inputs @ [{GetEndOfStreamSymbol G}]) P" "C \<in> set (root_occurrences G (m_SymbolNodes P))"
  shows "occurrence_ok G inputs (m_SymbolNodes P) C"
proof -
  obtain i where i: "i < length (m_SymbolNodes P)" "is_root_node G (m_SymbolNodes P ! i)"
      "C = (occurrence (m_InputStart (m_SymbolNodes P ! i)) (m_InputEnd (m_SymbolNodes P ! i)) i)\<lparr>m_pInputItem := m_pItem (m_SymbolNodes P ! i)\<rparr>"
    using assms(3) by (auto simp: root_occurrences_def)
  note r = root_span [OF assms(1,2) nth_mem [OF i(1)] i(2)]
  have root: "m_bGrammarRoot (m_UniqueGrammarItems G ! sn_SymbolNo (m_SymbolNodes P ! i))" "\<not> sn_bDisabled (m_SymbolNodes P ! i)"
    using i(2) by (simp_all add: is_root_node_def)
  have "m_InputEnd (m_SymbolNodes P ! i) \<le> length inputs" using r spans_le by blast
  then show ?thesis unfolding i(3) occurrence_ok_def occurrence_def using i(1) r root(1,2) by simp
qed

lemma ApplyGLR_Parsing_spec:
  assumes "augmented G" "lr_table G I N t" "words_ok G (m_InputTerminals Q)"
  shows "\<exists>n new Q'. ApplyGLR_Parsing F G t StartPoints Occ Q = Some (n, Occ @ new, Q') \<and>
    m_InputTerminals Q' = m_InputTerminals Q \<and>
    (if new = [] then n = 0 \<and> m_Parsers Q' = m_Parsers Q
     else StartPoints \<noteq> [] \<and> (\<exists>P. m_Parsers Q' = m_Parsers Q @ [P] \<and> n = length (m_SymbolNodes P) \<and>
       (\<forall>C \<in> set new. occurrence_ok G (inputs_of (m_InputTerminals Q)) (m_SymbolNodes P) C) \<and>
       map occ_GrammarRuleNo new = filter (\<lambda>i. enabled_root G (m_SymbolNodes P ! i)) [0..<length (m_SymbolNodes P)]))"
proof (cases "StartPoints = []")
  case True
  then show ?thesis by (intro exI [of _ 0] exI [of _ "[]"] exI [of _ Q]) (simp add: ApplyGLR_Parsing_def)
next
  case False
  let ?P = "InitGLRParser ((glr_parser (m_pInputItemFactory Q))\<lparr>m_bRobust := True\<rparr>)"
  have "m_bBreakAfterMaxSymbolNodesCount ?P" by (simp add: InitGLRParser_def glr_parser_def)
  then obtain P where P: "parse_words F G t StartPoints (length (m_InputTerminals Q)) 0 (m_InputTerminals Q) ?P = Some P"
      "nodes_span G (inputs_of (m_InputTerminals Q) @ [{GetEndOfStreamSymbol G}]) P"
    using parse_words_spans [OF assms parser_ready_init [OF assms(2)], where StartPoints = StartPoints and F = F and i = 0] by auto
  let ?new = "root_occurrences G (m_SymbolNodes P)"
  have ok: "\<forall>C \<in> set ?new. occurrence_ok G (inputs_of (m_InputTerminals Q)) (m_SymbolNodes P) C"
    using root_occurrences_ok [OF assms(1) P(2)] by blast
  note complete = root_occurrences_complete [OF assms(1) P(2)]
  let ?Q = "Q\<lparr>m_pInputItemFactory := m_Factory P\<rparr>"
  have "ApplyGLR_Parsing F G t StartPoints Occ Q =
      Some (if ?new = [] then (0, Occ, ?Q) else (length (m_SymbolNodes P), Occ @ ?new, ?Q\<lparr>m_Parsers := m_Parsers ?Q @ [P]\<rparr>))"
    using P(1) False by (simp add: ApplyGLR_Parsing_def Let_def)
  then show ?thesis using False ok complete by (cases "?new = []") auto
qed

lemma syn_an_words_spans:
  assumes aug: "augmented G" and tab: "lr_table G I N t" and "words_ok G Ws"
    and "parser_ready G N t inputs P" "m_bBreakAfterMaxSymbolNodesCount P" "Count = i + length Ws"
  shows "\<exists>r. syn_an_words F G t Count i Ws P = Some r \<and>
    (case r of Inl e \<Rightarrow> e = ''Can't parse symbol!''
     | Inr P' \<Rightarrow> nodes_span G (inputs @ inputs_of Ws @ [{GetEndOfStreamSymbol G}]) P')"
  using assms(3-)
proof (induction Ws arbitrary: i P inputs)
  case Nil
  then show ?case using nodes_span_more [OF nodes_span_ready] by auto
next
  case (Cons W Ws)
  have wf: "wf_grammar G" using aug by (simp add: augmented_def)
  have syms: "\<forall>X \<in> set (terminals W). grammar_symbol G X" by (rule words_ok_symbol [OF Cons.prems(1)]) simp
  obtain result P1 where P1: "ParseSymbol F t (terminals W) False P = Some (result, P1)"
      "result \<longrightarrow> parser_ready G N t (inputs @ [set (terminals W)]) P1 \<and> m_bBreakAfterMaxSymbolNodesCount P1"
    using ParseSymbol_spans [OF wf tab syms Cons.prems(2,3)] by blast
  consider "\<not> result" | "result" "i + 1 = Count" | "result" "i + 1 \<noteq> Count" by blast
  then show ?case
  proof cases
    case 1
    then show ?thesis using P1 by auto
  next
    case 2
    have "\<forall>X \<in> set (oset_insert (<) (GetEndOfStreamSymbol G) []). grammar_symbol G X" using augmented_end [OF aug] by simp
    then obtain result' P2 where P2: "ParseSymbol F t (oset_insert (<) (GetEndOfStreamSymbol G) []) False P1 = Some (result', P2)"
        "nodes_span G ((inputs @ [set (terminals W)]) @ [{GetEndOfStreamSymbol G}]) P2"
      using ParseSymbol_spans [OF wf tab, of "oset_insert (<) (GetEndOfStreamSymbol G) []"] P1(2) 2(1) by fastforce
    moreover have "Ws = []" using 2(2) Cons.prems(4) by simp
    ultimately show ?thesis using P1(1) 2 by auto
  next
    case 3
    then obtain r where "syn_an_words F G t Count (i + 1) Ws P1 = Some r"
      "case r of Inl e \<Rightarrow> e = ''Can't parse symbol!''
       | Inr P' \<Rightarrow> nodes_span G ((inputs @ [set (terminals W)]) @ inputs_of Ws @ [{GetEndOfStreamSymbol G}]) P'"
      using P1 Cons.IH [of "inputs @ [set (terminals W)]" P1 "i + 1"] Cons.prems(1,4) by (auto simp: words_ok_def)
    then show ?thesis using P1(1) 3 by (intro exI [of _ r]) (cases r, simp_all)
  qed
qed

section \<open>A sample sequence\<close>

text \<open>The sentence \<open>a b\<close> of the sample grammar, and the trie of its root prefix \<open>a\<close>.\<close>

definition sample_sequence :: "(nat, unit) CInputSequenceGLR" where
  "sample_sequence =
     fold (\<lambda>X. AddTerminal (AddTerminalSymbol X \<lparr>m_AutomatSymbolInterpetationUnion = []\<rparr>)) [1, 2] (input_sequence ())"

lemma sample_sequence_ok:
  "m_InputTerminals sample_sequence = [\<lparr>m_AutomatSymbolInterpetationUnion = [1]\<rparr>, \<lparr>m_AutomatSymbolInterpetationUnion = [2]\<rparr>]"
  "words_ok sample_slr (m_InputTerminals sample_sequence)"
  by (simp_all add: sample_sequence_def AddTerminal_def AddTerminalSymbol_def input_sequence_def words_ok_def
      GetEndOfStreamSymbol_def sample_size)

definition sample_prefixes :: "CWorkRule list" where
  "sample_prefixes = [\<lparr>m_OriginalRuleNo = 0, m_LeftPart = 0, m_RightPart = \<lparr>m_Items = [1], m_SynMainItemNo = 0\<rparr>\<rparr>]"

lemma sample_prefixes_ok: "patterns_ok (length [(0 :: nat, ''S''), (1, ''a''), (2, ''b'')]) sample_prefixes"
  by (simp add: patterns_ok_def sample_prefixes_def)

abbreviation empty_trie :: CTrieHolder where
  "empty_trie \<equiv> \<lparr>m_AlphabetSize = 0, m_Nodes = [], m_ChildrenAux = [], m_Children = []\<rparr>"

section \<open>Properties\<close>

text \<open>
  C20. \<^verbatim>\<open>FindOccurrencesWithTrie\<close> searches a sentence of ambiguous words: it follows the set of states that
  any choice of interpretations leads to, starts again after a word without interpretation, and reports an
  occurrence from \<open>s\<close> to \<open>e\<close> exactly if some choice of one interpretation for each of these words is
  a pattern, with the number of the first such pattern.
\<close>

theorem FindOccurrencesWithTrie_correct:
  assumes "patterns_ok (length Info) Patterns" "trie_Create Patterns Info H = Some T"
  shows "\<exists>Occ :: 'i COccurrence list. FindOccurrencesWithTrie T Q = Some Occ \<and>
    (\<forall>C. C \<in> set Occ \<longleftrightarrow>
      (\<exists>s e k w. s < e \<and> e \<le> length (m_InputTerminals Q) \<and> length w = e - s \<and>
        (\<forall>i < e - s. w ! i \<in> set (terminals (m_InputTerminals Q ! (s + i)))) \<and>
        position (map rhs Patterns) w = Some k \<and> C = occurrence s e k))"
proof -
  obtain ws where ws: "automaton T ws (map rhs Patterns)" using trie_Create_automaton [OF assms(1), of H] assms(2) by auto
  obtain Occ :: "'i COccurrence list" where Occ: "FindOccurrencesWithTrie T Q = Some Occ"
      "set Occ = spelled (map rhs Patterns) (inputs_of (m_InputTerminals Q)) (length (m_InputTerminals Q))"
    using FindOccurrencesWithTrie_spec [OF ws] by blast
  have "w \<in> choices (inputs_of (m_InputTerminals Q)) s e \<longleftrightarrow>
      length w = e - s \<and> (\<forall>i < e - s. w ! i \<in> set (terminals (m_InputTerminals Q ! (s + i))))"
    if "s < e" "e \<le> length (m_InputTerminals Q)" for s e w
    using that by (auto simp: choices_def matches_def)
  note choice = this
  have "C \<in> set Occ \<longleftrightarrow>
      (\<exists>s e k w. s < e \<and> e \<le> length (m_InputTerminals Q) \<and> length w = e - s \<and>
        (\<forall>i < e - s. w ! i \<in> set (terminals (m_InputTerminals Q ! (s + i)))) \<and>
        position (map rhs Patterns) w = Some k \<and> C = occurrence s e k)" (is "_ \<longleftrightarrow> ?R") for C
  proof
    assume "C \<in> set Occ"
    then obtain s e k w where w: "C = occurrence s e k" "s < e" "e \<le> length (m_InputTerminals Q)"
        "w \<in> choices (inputs_of (m_InputTerminals Q)) s e" "position (map rhs Patterns) w = Some k"
      unfolding Occ(2) spelled_def by blast
    then show ?R using choice [OF w(2,3)] by blast
  next
    assume ?R
    then obtain s e k w where w: "s < e" "e \<le> length (m_InputTerminals Q)" "C = occurrence s e k"
        "position (map rhs Patterns) w = Some k" "w \<in> choices (inputs_of (m_InputTerminals Q)) s e"
      using choice by blast
    then show "C \<in> set Occ" unfolding Occ(2) spelled_def by blast
  qed
  then show ?thesis using Occ(1) by blast
qed

theorem FindOccurrencesWithTrie_correct_witness:
  "\<exists>T Occ. trie_Create sample_prefixes [(0, ''S''), (1, ''a''), (2, ''b'')] empty_trie = Some T \<and>
     FindOccurrencesWithTrie T sample_sequence = Some Occ \<and> (occurrence 0 1 0 :: nat COccurrence) \<in> set Occ"
proof -
  obtain T where T: "trie_Create sample_prefixes [(0, ''S''), (1, ''a''), (2, ''b'')] empty_trie = Some T"
    using trie_Create_automaton [OF sample_prefixes_ok] by blast
  obtain Occ :: "nat COccurrence list" where Occ: "FindOccurrencesWithTrie T sample_sequence = Some Occ"
    "\<forall>C. C \<in> set Occ \<longleftrightarrow>
      (\<exists>s e k w. s < e \<and> e \<le> length (m_InputTerminals sample_sequence) \<and> length w = e - s \<and>
        (\<forall>i < e - s. w ! i \<in> set (terminals (m_InputTerminals sample_sequence ! (s + i)))) \<and>
        position (map rhs sample_prefixes) w = Some k \<and> C = occurrence s e k)"
    using FindOccurrencesWithTrie_correct [OF sample_prefixes_ok T] by blast
  have "position (map rhs sample_prefixes) [1] = Some 0" by (simp add: sample_prefixes_def)
  then have "occurrence 0 1 0 \<in> set Occ"
    unfolding Occ(2) [rule_format] sample_sequence_ok(1)
    by (intro exI [of _ 0] exI [of _ 1] exI [of _ "[1]"]) simp
  then show ?thesis using T Occ(1) by blast
qed

text \<open>
  C18. \<^verbatim>\<open>ApplyGLR_Parsing\<close> is total and sound: over the table of an augmented grammar it returns for every
  sentence whose interpretations are symbols of the grammar. Every occurrence it appends is a symbol
  node of the parser it keeps, with the item and the ends of that node; the node is not disabled, its symbol
  is a root of the grammar other than the two symbols of the augmentation and derives the words between the
  ends. The nodes reported are all the enabled root nodes of the parser, in the order of the nodes.
  Without such a node, and without start points, it keeps no parser and returns 0.
\<close>

theorem ApplyGLR_Parsing_correct:
  assumes "augmented G" "lr_table G I N t" "words_ok G (m_InputTerminals Q)"
  shows "\<exists>n new Q'. ApplyGLR_Parsing F G t StartPoints Occ Q = Some (n, Occ @ new, Q') \<and>
    m_InputTerminals Q' = m_InputTerminals Q \<and>
    (if new = [] then n = 0 \<and> m_Parsers Q' = m_Parsers Q
     else StartPoints \<noteq> [] \<and> (\<exists>P. m_Parsers Q' = m_Parsers Q @ [P] \<and> n = length (m_SymbolNodes P) \<and>
       (\<forall>C \<in> set new. occurrence_ok G (inputs_of (m_InputTerminals Q)) (m_SymbolNodes P) C) \<and>
       map occ_GrammarRuleNo new = filter (\<lambda>i. enabled_root G (m_SymbolNodes P ! i)) [0..<length (m_SymbolNodes P)]))"
  by (rule ApplyGLR_Parsing_spec [OF assms])

theorem ApplyGLR_Parsing_correct_witness:
  "\<exists>n new Q'. ApplyGLR_Parsing sample_factory sample_slr sample_table [0] [] sample_sequence = Some (n, [] @ new, Q') \<and>
    (\<forall>C \<in> set new. occ_first C < occ_second C \<and> occ_second C \<le> 2)"
proof -
  note ok = sample_slr_ok(1) sample_table_ok sample_sequence_ok(2)
  obtain n new Q' where r: "ApplyGLR_Parsing sample_factory sample_slr sample_table [0] [] sample_sequence = Some (n, [] @ new, Q')"
    "if new = [] then n = 0 \<and> m_Parsers Q' = m_Parsers sample_sequence
     else [0 :: nat] \<noteq> [] \<and> (\<exists>P. m_Parsers Q' = m_Parsers sample_sequence @ [P] \<and> n = length (m_SymbolNodes P) \<and>
       (\<forall>C \<in> set new. occurrence_ok sample_slr (inputs_of (m_InputTerminals sample_sequence)) (m_SymbolNodes P) C) \<and>
       map occ_GrammarRuleNo new = filter (\<lambda>i. enabled_root sample_slr (m_SymbolNodes P ! i)) [0..<length (m_SymbolNodes P)])"
    using ApplyGLR_Parsing_correct [OF ok, of sample_factory "[0]" "[]"] by blast
  have "\<forall>C \<in> set new. occ_first C < occ_second C \<and> occ_second C \<le> 2"
    using r(2) sample_sequence_ok(1) by (auto simp: occurrence_ok_def split: if_splits)
  then show ?thesis using r(1) by blast
qed

lemma sequence_Process_spec:
  fixes Q :: "('i, 'f) CInputSequenceGLR"
  assumes "augmented G" "lr_table G I N t" "words_ok G (m_InputTerminals Q)"
    and "patterns_ok (length Info) Patterns" "trie_Create Patterns Info H = Some T"
  shows "\<exists>new Q'. sequence_Process SetCurStartWord F G T t Occ Q = Some (Occ @ new, Q') \<and>
    (\<forall>C \<in> set new. occ_first C < occ_second C \<and>
       (\<exists>X < GetEndOfStreamSymbol G. m_bGrammarRoot (m_UniqueGrammarItems G ! X) \<and>
          spans G (inputs_of (m_InputTerminals Q)) X (occ_first C) (occ_second C))) \<and>
    ((\<forall>s e. choices (inputs_of (m_InputTerminals Q)) s e \<inter> rhs ` set Patterns = {}) \<longrightarrow>
       new = [] \<and> m_Parsers Q' = m_Parsers Q)"
proof -
  obtain ws where ws: "automaton T ws (map rhs Patterns)" using trie_Create_automaton [OF assms(4), of H] assms(5) by auto
  obtain Prefixes :: "'i COccurrence list" where P: "FindOccurrencesWithTrie T Q = Some Prefixes"
      "set Prefixes = spelled (map rhs Patterns) (inputs_of (m_InputTerminals Q)) (length (m_InputTerminals Q))"
    using FindOccurrencesWithTrie_spec [OF ws] by blast
  let ?Start = "oset_insert_all (<) (map occ_first Prefixes) []"
  let ?Q = "Q\<lparr>m_pInputItemFactory := SetCurStartWord 0 (m_pInputItemFactory Q)\<rparr>"
  obtain n new Q' where r: "ApplyGLR_Parsing F G t ?Start Occ ?Q = Some (n, Occ @ new, Q')"
    "if new = [] then n = 0 \<and> m_Parsers Q' = m_Parsers ?Q
     else ?Start \<noteq> [] \<and> (\<exists>P. m_Parsers Q' = m_Parsers ?Q @ [P] \<and> n = length (m_SymbolNodes P) \<and>
       (\<forall>C \<in> set new. occurrence_ok G (inputs_of (m_InputTerminals ?Q)) (m_SymbolNodes P) C))"
    using ApplyGLR_Parsing_spec [of G I N t ?Q F ?Start Occ] assms(1-3) by (auto split: if_splits)
  have "?Start = []" if none: "\<forall>s e. choices (inputs_of (m_InputTerminals Q)) s e \<inter> rhs ` set Patterns = {}"
  proof -
    have "position (map rhs Patterns) w = None" if "w \<in> choices (inputs_of (m_InputTerminals Q)) s e" for w s e
      using that none by (intro position_notin) auto
    then have "set Prefixes = {}" unfolding P(2) spelled_def by fastforce
    then show ?thesis by simp
  qed
  then show ?thesis
    using P(1) r by (auto simp: sequence_Process_def Let_def occurrence_ok_def split: if_splits)
qed

text \<open>
  C17. The two stages together: \<^verbatim>\<open>Process\<close> searches the sentence for root prefixes and parses from the
  positions where one starts. It returns, the occurrences it appends are root symbols that derive the
  words they span, and nothing is parsed and nothing reported when no choice of interpretations
  contains a prefix.
\<close>

theorem sequence_Process_correct:
  fixes Q :: "('i, 'f) CInputSequenceGLR"
  assumes "augmented G" "lr_table G I N t" "words_ok G (m_InputTerminals Q)"
    and "patterns_ok (length Info) Patterns" "trie_Create Patterns Info H = Some T"
  shows "\<exists>new Q'. sequence_Process SetCurStartWord F G T t Occ Q = Some (Occ @ new, Q') \<and>
    (\<forall>C \<in> set new. occ_first C < occ_second C \<and>
       (\<exists>X < GetEndOfStreamSymbol G. m_bGrammarRoot (m_UniqueGrammarItems G ! X) \<and>
          spans G (inputs_of (m_InputTerminals Q)) X (occ_first C) (occ_second C))) \<and>
    ((\<forall>s e. choices (inputs_of (m_InputTerminals Q)) s e \<inter> rhs ` set Patterns = {}) \<longrightarrow>
       new = [] \<and> m_Parsers Q' = m_Parsers Q)"
  by (rule sequence_Process_spec [OF assms])

theorem sequence_Process_correct_witness:
  "\<exists>T new Q'. trie_Create sample_prefixes [(0, ''S''), (1, ''a''), (2, ''b'')] empty_trie = Some T \<and>
     sequence_Process (\<lambda>i f. f) sample_factory sample_slr T sample_table [] sample_sequence = Some ([] @ new, Q') \<and>
     (\<forall>C \<in> set new. occ_first C < occ_second C)"
proof -
  obtain T where T: "trie_Create sample_prefixes [(0, ''S''), (1, ''a''), (2, ''b'')] empty_trie = Some T"
    using trie_Create_automaton [OF sample_prefixes_ok] by blast
  show ?thesis
    using sequence_Process_correct [OF sample_slr_ok(1) sample_table_ok sample_sequence_ok(2) sample_prefixes_ok T,
        of "\<lambda>i f. f" sample_factory "[]"] T by blast
qed

text \<open>
  C19. \<^verbatim>\<open>CSynAnInputSequence::Process\<close> returns or raises its one exception: when it returns, every enabled
  root node of its parser derives the words between its ends.
\<close>

theorem syn_an_Process_correct:
  assumes "augmented G" "lr_table G I N t" "words_ok G (m_InputTerminals Q)"
    and "m_Parser Q = InitGLRParser (glr_parser f)"
  shows "\<exists>r. syn_an_Process F G t Q = Some r \<and>
    (case r of Inl e \<Rightarrow> e = ''Can't parse symbol!''
     | Inr Q' \<Rightarrow> \<forall>node \<in> set (m_SymbolNodes (m_Parser Q')). is_root_node G node \<longrightarrow>
         spans G (inputs_of (m_InputTerminals Q)) (sn_SymbolNo node) (m_InputStart node) (m_InputEnd node))"
proof -
  have "m_bBreakAfterMaxSymbolNodesCount (m_Parser Q)" by (simp add: assms(4) InitGLRParser_def glr_parser_def)
  then obtain r where r: "syn_an_words F G t (length (m_InputTerminals Q)) 0 (m_InputTerminals Q) (m_Parser Q) = Some r"
      "case r of Inl e \<Rightarrow> e = ''Can't parse symbol!''
       | Inr P' \<Rightarrow> nodes_span G ([] @ inputs_of (m_InputTerminals Q) @ [{GetEndOfStreamSymbol G}]) P'"
    using syn_an_words_spans [OF assms(1-3), of "[]" "m_Parser Q" _ 0 F] parser_ready_init [OF assms(2)] assms(4) by auto
  show ?thesis
  proof (cases r)
    case (Inl e)
    then show ?thesis using r by (simp add: syn_an_Process_def)
  next
    case (Inr P')
    then have "nodes_span G (inputs_of (m_InputTerminals Q) @ [{GetEndOfStreamSymbol G}]) P'" using r(2) by simp
    then show ?thesis using r(1) Inr root_span [OF assms(1)] by (auto simp: syn_an_Process_def)
  qed
qed

theorem syn_an_Process_correct_witness:
  "\<exists>r. syn_an_Process sample_factory sample_slr sample_table
      ((syn_an_sequence () :: (nat, unit) CSynAnInputSequence)\<lparr>m_InputTerminals := m_InputTerminals sample_sequence\<rparr>) = Some r \<and>
    (\<forall>e. r = Inl e \<longrightarrow> e = ''Can't parse symbol!'')"
proof -
  let ?Q = "(syn_an_sequence () :: (nat, unit) CSynAnInputSequence)\<lparr>m_InputTerminals := m_InputTerminals sample_sequence\<rparr>"
  have "words_ok sample_slr (m_InputTerminals ?Q)" "m_Parser ?Q = InitGLRParser (glr_parser ())"
    using sample_sequence_ok(2) by (simp_all add: syn_an_sequence_def)
  then obtain r where "syn_an_Process sample_factory sample_slr sample_table ?Q = Some r"
    "case r of Inl e \<Rightarrow> e = ''Can't parse symbol!''
     | Inr Q' \<Rightarrow> \<forall>node \<in> set (m_SymbolNodes (m_Parser Q')). is_root_node sample_slr node \<longrightarrow>
         spans sample_slr (inputs_of (m_InputTerminals ?Q)) (sn_SymbolNo node) (m_InputStart node) (m_InputEnd node)"
    using syn_an_Process_correct [OF sample_slr_ok(1) sample_table_ok, of ?Q "()" sample_factory] by blast
  then show ?thesis by auto
qed

end
