(* ===== verification/GrammarCompiler.thy ===== *)
theory GrammarCompiler
  imports RootPrefixes OutCount GrammarText SequenceCorrect
begin

text \<open>
  \<^verbatim>\<open>BuildGLRTableForGrammar\<close> (\<^verbatim>\<open>loader.cpp\<close>), the composition of the parts: root prefixes, trie,
  augmentation, FIRST and FOLLOW sets, limits on the number of words, table. The theorems say when it
  succeeds, that what it builds makes \<^verbatim>\<open>CInputSequenceGLR::Process\<close> report only phrases of the grammar that was
  compiled, and that the search for prefixes skips no position where such a phrase starts.
\<close>

section \<open>The composition\<close>

definition BuildAutomat :: "CWorkRule list \<Rightarrow> ('a CWorkGrammar_scheme) \<Rightarrow> CTrieHolder \<Rightarrow> CTrieHolder option" where
  "BuildAutomat EncodedRules G H = trie_Create EncodedRules (CreateAutomatSymbolInformation G) H"

text \<open>
  The state is the grammar, the agreements, the trie and the table, in the code members of \<^verbatim>\<open>CWorkGrammar\<close>.
  The outer option is \<open>None\<close> if an assertion fails or a loop does not end, \<open>Inl\<close> is an exception. \<^verbatim>\<open>BuildGLRTable\<close> of the model
  has one \<open>None\<close> for a collection that never ends and for an overflow exception, which the last lines tell apart.
\<close>

definition build_augmented ::
  "(nat \<Rightarrow> nat) \<Rightarrow> CTrieHolder \<Rightarrow> 'r CGLRTable
     \<Rightarrow> string + bool \<times> ('a CWorkGrammar_scheme) \<times> CRuleAgreement list
     \<Rightarrow> (string + bool \<times> ('a CWorkGrammar_scheme) \<times> CRuleAgreement list \<times> CTrieHolder \<times> 'r CGLRTable) option" where
  "build_augmented hasher H t Augmented =
     (case Augmented of
        Inl e \<Rightarrow> Some (Inl e)
      | Inr (ok, G, Agreements) \<Rightarrow>
          if \<not> ok then Some (Inr (False, G, Agreements, H, t))
          else do {
            G \<leftarrow> Build_FIRST_Set G;
            G \<leftarrow> Build_FOLLOW_Set G;
            r \<leftarrow> TransferOutCountFromSymbolToItsDependencies G Agreements;
            case r of
              Inl e \<Rightarrow> Some (Inl e)
            | Inr (_, Agreements) \<Rightarrow>
                if Compute G = None then None
                else Some (case BuildGLRTable hasher G t of
                        None \<Rightarrow> Inl ''GLR-Table compacting: maximum index reached''
                      | Some t \<Rightarrow> Inr (True, G, Agreements, H, t))
          })"

definition BuildGLRTableForGrammar ::
  "(nat \<Rightarrow> nat) \<Rightarrow> ('a CWorkGrammar_scheme) \<Rightarrow> CRuleAgreement list \<Rightarrow> CTrieHolder \<Rightarrow> 'r CGLRTable
     \<Rightarrow> (string + bool \<times> ('a CWorkGrammar_scheme) \<times> CRuleAgreement list \<times> CTrieHolder \<times> 'r CGLRTable) option" where
  "BuildGLRTableForGrammar hasher G Agreements H t =
     do {
       G \<leftarrow> Build_FIRST_Set_k 1 G;
       H \<leftarrow> BuildAutomat (m_RootPrefixes G) G H;
       build_augmented hasher H t (AugmentGrammar G Agreements)
     }"

section \<open>The trie of the root prefixes\<close>

lemma sum_list_map_one: "\<forall>x \<in> set xs. f x = (1::nat) \<Longrightarrow> sum_list (map f xs) = length xs"
  by (induction xs) auto

text \<open>The prefixes of length 1 are the first symbols.\<close>

lemma prefix_of_one:
  assumes "wf_grammar G"
  shows "prefix_of G 1 X p \<longleftrightarrow> (\<exists>a. p = [a] \<and> first_of G X a)"
proof
  show "\<exists>a. p = [a] \<and> first_of G X a" if "prefix_of G 1 X p"
    using that
  proof (induction rule: prefix_of.induct)
    case (prefix_rule_of R ps)
    obtain Y w where rhs: "rhs R = Y # w" using wf_grammar_ruleD(1) [OF assms prefix_rule_of.hyps(1)] by (cases "rhs R") auto
    then obtain q where q: "ps = [q]" using prefix_rule_of.hyps(2) by (cases ps) auto
    show ?case
    proof (cases "is_meta G Y")
      case True
      then obtain a where "q = [a]" "first_of G Y a" using prefix_rule_of.IH rhs q by auto
      then show ?thesis using first_meta [OF prefix_rule_of.hyps(1) rhs True] q by simp
    next
      case False
      then show ?thesis using prefix_rule_of.IH first_terminal [OF prefix_rule_of.hyps(1) rhs] rhs q by simp
    qed
  qed
  have "prefix_of G 1 X [a]" if "first_of G X a" for a
    using that
  proof (induction rule: first_of.induct)
    case (first_terminal R a w)
    then show ?case using prefix_of.intros [of R G "[[a]]" 1] by simp
  next
    case (first_meta R Y w a)
    then show ?case using prefix_of.intros [of R G "[[a]]" 1] by simp
  qed
  then show "\<exists>a. p = [a] \<and> first_of G X a \<Longrightarrow> prefix_of G 1 X p" by blast
qed

text \<open>A root that derives a form that begins with a terminal, so that there is a prefix to search for.\<close>

definition has_root_prefix :: "('a CWorkGrammar_scheme) \<Rightarrow> bool" where
  "has_root_prefix G \<longleftrightarrow> (\<exists>X a w. is_meta G X \<and> m_bGrammarRoot (m_UniqueGrammarItems G ! X) \<and> \<not> is_meta G a \<and>
     derives G [X] (a # w))"

lemma root_prefixes_patterns:
  assumes "wf_grammar G" "m_RootPrefixes G = []"
    and small: "Suc (length (m_UniqueGrammarItems G) * length (m_UniqueGrammarItems G)) < 2 ^ 32"
  obtains P where "Build_FIRST_Set_k 1 G = Some (G\<lparr>m_RootPrefixes := P\<rparr>)"
    "if has_root_prefix G then patterns_ok (length (m_UniqueGrammarItems G)) P else P = []"
    "(\<lambda>r. (m_LeftPart r, rhs r)) ` set P = {(X, p). m_bGrammarRoot (m_UniqueGrammarItems G ! X) \<and> prefix_of G 1 X p}"
proof -
  let ?n = "length (m_UniqueGrammarItems G)" and ?key = "\<lambda>r. (m_LeftPart r, rhs r)"
  obtain P where P: "Build_FIRST_Set_k 1 G = Some (G\<lparr>m_RootPrefixes := P\<rparr>)" "work_rule.ordered P"
    "\<forall>r \<in> set P. m_SynMainItemNo (m_RightPart r) = 0"
    "?key ` set P = {(X, p). m_bGrammarRoot (m_UniqueGrammarItems G ! X) \<and> prefix_of G 1 X p}"
    using Build_FIRST_Set_k_spec [OF assms(1) _ _ assms(2), of 1] by (auto simp: CPrefix_Size_def)
  have one: "\<exists>c < ?n. rhs r = [c]" and left: "m_LeftPart r < ?n" if "r \<in> set P" for r
  proof -
    have p: "prefix_of G 1 (m_LeftPart r) (rhs r)" using P(4) that by blast
    note ok = prefix_of_ok [OF assms(1) _ p]
    show "\<exists>c < ?n. rhs r = [c]" using ok(1,2) ok(3) by (cases "rhs r") auto
    show "m_LeftPart r < ?n" using ok(4) by (simp add: is_meta_def)
  qed
  have "inj_on ?key (set P)"
  proof (rule inj_onI)
    fix x y assume xy: "x \<in> set P" "y \<in> set P" "?key x = ?key y"
    then have "work_rule_key x = work_rule_key y" using P(3) by (simp add: key_defs)
    then show "x = y" using work_rule.ordered_distinct_keys [OF P(2)] xy(1,2) by (simp add: distinct_map inj_on_def)
  qed
  then have "length P = card (?key ` set P)"
    using work_rule.ordered_distinct [OF P(2)] by (simp add: card_image distinct_card)
  also have "\<dots> \<le> card ({..<?n} \<times> (\<lambda>c. [c]) ` {..<?n})"
    by (rule card_mono) (use one left in fastforce)+
  also have "\<dots> = ?n * ?n" by (simp add: card_cartesian_product card_image inj_on_def)
  finally have len: "length P \<le> ?n * ?n" .
  have sum: "sum_list (map (length \<circ> rhs) P) = length P" by (rule sum_list_map_one) (use one in fastforce)
  have empty: "P \<noteq> [] \<longleftrightarrow> has_root_prefix G"
  proof -
    have "P \<noteq> [] \<longleftrightarrow> (\<exists>X p. m_bGrammarRoot (m_UniqueGrammarItems G ! X) \<and> prefix_of G 1 X p)"
    proof
      assume "P \<noteq> []"
      then obtain x where "x \<in> set P" by (cases P) auto
      then have "(m_LeftPart x, rhs x) \<in> ?key ` set P" by blast
      then show "\<exists>X p. m_bGrammarRoot (m_UniqueGrammarItems G ! X) \<and> prefix_of G 1 X p" unfolding P(4) by blast
    next
      assume "\<exists>X p. m_bGrammarRoot (m_UniqueGrammarItems G ! X) \<and> prefix_of G 1 X p"
      then have "?key ` set P \<noteq> {}" unfolding P(4) by blast
      then show "P \<noteq> []" by auto
    qed
    also have "\<dots> \<longleftrightarrow> has_root_prefix G"
      unfolding has_root_prefix_def using prefix_of_ok(4) [OF assms(1)] first_of_iff_derives [OF assms(1)]
      by (metis prefix_of_one [OF assms(1)] zero_less_one)
    finally show ?thesis .
  qed
  have "rhs r \<noteq> [] \<and> length (rhs r) < 2 ^ 8 \<and> (\<forall>c \<in> set (rhs r). c < ?n)" if "r \<in> set P" for r
    using one [OF that] by auto
  moreover have "Suc (sum_list (map (length \<circ> rhs) P)) < 2 ^ 32" unfolding sum using len small by linarith
  ultimately have "patterns_ok ?n P" if "P \<noteq> []" unfolding patterns_ok_def using P(2) that by blast
  then show ?thesis using that P(1,4) empty by auto
qed

section \<open>The augmented grammar\<close>

text \<open>What a stage that only adds its own tables keeps.\<close>

definition same_rules :: "('a CWorkGrammar_scheme) \<Rightarrow> ('a CWorkGrammar_scheme) \<Rightarrow> bool" where
  "same_rules G G' \<longleftrightarrow> m_EncodedRules G' = m_EncodedRules G \<and> m_UniqueGrammarItems G' = m_UniqueGrammarItems G"

lemma same_rulesD:
  assumes "same_rules G G'"
  shows "is_meta G' = is_meta G" "derives1 G' = derives1 G" "wf_grammar G' = wf_grammar G" "augmented G' = augmented G"
    "GetNewRoot G' = GetNewRoot G" "GetEndOfStreamSymbol G' = GetEndOfStreamSymbol G" "first_of G' X a = first_of G X a"
proof -
  have "m_EncodedRules G' = m_EncodedRules G" "m_UniqueGrammarItems G' = m_UniqueGrammarItems G"
    using assms by (simp_all add: same_rules_def)
  note e = this
  show m: "is_meta G' = is_meta G" "derives1 G' = derives1 G" and "wf_grammar G' = wf_grammar G"
    "GetNewRoot G' = GetNewRoot G" "GetEndOfStreamSymbol G' = GetEndOfStreamSymbol G"
    by (simp_all add: e is_meta_def derives1_def wf_grammar_def GetNewRoot_def GetEndOfStreamSymbol_def fun_eq_iff)
  then show "augmented G' = augmented G" by (simp add: augmented_def e)
  show "first_of G' X a = first_of G X a" using e m by (metis first_of_cong)
qed

lemma augmented_derives:
  assumes "wf_grammar G" "set (m_EncodedRules G') = insert R (set (m_EncodedRules G))"
    and "length (m_UniqueGrammarItems G) \<le> m_LeftPart R"
  shows "derives G u v \<Longrightarrow> derives G' u v"
    and "derives G' u v \<Longrightarrow> \<forall>s \<in> set u. s < length (m_UniqueGrammarItems G) \<Longrightarrow> derives G u v"
proof -
  show "derives G' u v" if "derives G u v"
    using that by (rule mono_rtranclp [rule_format, rotated]) (use assms(2) in \<open>auto simp: derives1_def\<close>)
  show "derives G u v" if d: "derives G' u v" and u: "\<forall>s \<in> set u. s < length (m_UniqueGrammarItems G)"
  proof -
    have "derives G u v \<and> (\<forall>s \<in> set v. s < length (m_UniqueGrammarItems G))" using d
    proof (induction rule: rtranclp_induct)
      case base
      then show ?case using u by simp
    next
      case (step y z)
      obtain Q p s where Q: "Q \<in> set (m_EncodedRules G')" "y = p @ m_LeftPart Q # s" "z = p @ rhs Q @ s"
        using step.hyps(2) by (auto simp: derives1_def)
      have "m_LeftPart Q < length (m_UniqueGrammarItems G)" using step.IH Q(2) by simp
      then have QG: "Q \<in> set (m_EncodedRules G)" using Q(1) assms(2,3) by auto
      then have "derives1 G y z" using Q(2,3) by (auto simp: derives1_def)
      then have "derives G u z" using step.IH by (meson rtranclp.rtrancl_into_rtrancl)
      moreover have "\<forall>s \<in> set z. s < length (m_UniqueGrammarItems G)"
        using step.IH Q(2,3) wf_grammar_ruleD(4) [OF assms(1) QG] by auto
      ultimately show ?case by blast
    qed
    then show ?thesis by blast
  qed
qed

section \<open>Outcomes\<close>

text \<open>
  What compilation makes of a grammar and its agreements: the augmented grammar, whose only new rule leads from the new
  root to the root followed by the end symbol, and the trie of the root prefixes.
\<close>

definition compiled_grammar ::
  "('a CWorkGrammar_scheme) \<Rightarrow> nat \<Rightarrow> ('a CWorkGrammar_scheme) \<Rightarrow> CTrieHolder \<Rightarrow> bool" where
  "compiled_grammar G n G' T \<longleftrightarrow> augmented G' \<and>
     m_UniqueGrammarItems G' = m_UniqueGrammarItems G @ [end_of_input_item, new_root_item] \<and>
     (\<exists>R root. set (m_EncodedRules G') = insert R (set (m_EncodedRules G)) \<and> m_LeftPart R = GetNewRoot G' \<and>
        m_OriginalRuleNo R = n \<and> rhs R = [root, GetEndOfStreamSymbol G'] \<and>
        root < length (m_UniqueGrammarItems G) \<and> m_bGrammarRoot (m_UniqueGrammarItems G ! root)) \<and>
     (\<exists>P (Info :: (nat \<times> string) list) H. (\<lambda>r. (m_LeftPart r, rhs r)) ` set P =
          {(X, p). m_bGrammarRoot (m_UniqueGrammarItems G ! X) \<and> prefix_of G 1 X p} \<and>
        patterns_ok (length Info) P \<and> trie_Create P Info H = Some T)"

text \<open>What it promises when it returns true.\<close>

definition compiled ::
  "('a CWorkGrammar_scheme) \<Rightarrow> nat \<Rightarrow> ('a CWorkGrammar_scheme) \<Rightarrow> CTrieHolder \<Rightarrow> 'r CGLRTable \<Rightarrow> bool" where
  "compiled G n G' T t \<longleftrightarrow> compiled_grammar G n G' T \<and> (table_limits G' \<longrightarrow> (\<exists>I N. lr_table G' I N t))"

lemma Build_sets:
  assumes "wf_grammar G"
  obtains F W where "Build_FIRST_Set G = Some (G\<lparr>m_FirstSets := F\<rparr>)"
    "Build_FOLLOW_Set (G\<lparr>m_FirstSets := F\<rparr>) = Some (G\<lparr>m_FirstSets := F, m_FollowSets := W\<rparr>)"
proof -
  obtain F where F: "Build_FIRST_Set G = Some (G\<lparr>m_FirstSets := F\<rparr>)" "length F = length (m_UniqueGrammarItems G)"
    "\<forall>X a. (X, a) \<in> vset_rel F \<longleftrightarrow> first_of G X a" using Build_FIRST_Set_spec [OF assms] by blast
  have same: "same_rules G (G\<lparr>m_FirstSets := F\<rparr>)" by (simp add: same_rules_def)
  have "wf_grammar (G\<lparr>m_FirstSets := F\<rparr>)" using same_rulesD(3) [OF same] assms by simp
  moreover have "\<forall>X a. (X, a) \<in> vset_rel (m_FirstSets (G\<lparr>m_FirstSets := F\<rparr>)) \<longleftrightarrow> first_of (G\<lparr>m_FirstSets := F\<rparr>) X a"
    using F(3) same_rulesD(7) [OF same] by simp
  ultimately obtain W where "Build_FOLLOW_Set (G\<lparr>m_FirstSets := F\<rparr>) = Some (G\<lparr>m_FirstSets := F, m_FollowSets := W\<rparr>)"
    using Build_FOLLOW_Set_spec [of "G\<lparr>m_FirstSets := F\<rparr>"] F(2) by auto
  then show ?thesis using that F(1) by blast
qed

text \<open>The stages after the trie, for the outcome of \<^verbatim>\<open>AugmentGrammar\<close>.\<close>

lemma build_augmented_spec:
  assumes wf: "wf_grammar G" and nums: "\<forall>r \<in> set (m_EncodedRules G). m_OriginalRuleNo r < length A"
    and table: "SimpleCells t = sparse_init" "ComplexCells t = []" and aug: "AugmentGrammar G A = Inr (True, G1, A1)"
    and trie: "(\<lambda>r. (m_LeftPart r, rhs r)) ` set P = {(X, p). m_bGrammarRoot (m_UniqueGrammarItems G ! X) \<and> prefix_of G 1 X p}"
      "patterns_ok (length (Info :: (nat \<times> string) list)) P" "trie_Create P Info H = Some T"
  shows "if \<exists>X. is_meta G X \<and> X \<notin> m_LeftPart ` set (m_EncodedRules G)
    then build_augmented hasher T t (AugmentGrammar G A) =
      Some (Inl ''Unused meta-symbol in TransferOutCountFromSymbolToItsDependencies'')
    else \<exists>G' A'. compiled_grammar G (length A) G' T \<and> length A' = Suc (length A) \<and>
      TransferOutCountFromSymbolToItsDependencies G' (A @ [[]]) = Some (Inr (True, A')) \<and>
      (case BuildGLRTable hasher G' t of
         None \<Rightarrow> build_augmented hasher T t (AugmentGrammar G A) = Some (Inl ''GLR-Table compacting: maximum index reached'')
       | Some t' \<Rightarrow> build_augmented hasher T t (AugmentGrammar G A) = Some (Inr (True, G', A', T, t')) \<and>
           compiled G (length A) G' T t')"
proof -
  let ?n = "length (m_UniqueGrammarItems G)"
  note a = AugmentGrammar_augmented [OF wf nums aug]
  have A1: "A1 = A @ [[]]" using aug by (auto simp: AugmentGrammar_def Let_def split: if_splits)
  obtain R root where R: "set (m_EncodedRules G1) = insert R (set (m_EncodedRules G))" "m_LeftPart R = GetNewRoot G1"
    "m_OriginalRuleNo R = length A" "rhs R = [root, GetEndOfStreamSymbol G1]" "root < ?n"
    "m_bGrammarRoot (m_UniqueGrammarItems G ! root)"
    using a(2) by auto
  have items: "m_UniqueGrammarItems G1 = m_UniqueGrammarItems G @ [end_of_input_item, new_root_item]" using a(3) by simp
  have wf2: "wf_grammar G1" using augmented_wf(1) [OF a(1)] .
  obtain F W where FW: "Build_FIRST_Set G1 = Some (G1\<lparr>m_FirstSets := F\<rparr>)"
    "Build_FOLLOW_Set (G1\<lparr>m_FirstSets := F\<rparr>) = Some (G1\<lparr>m_FirstSets := F, m_FollowSets := W\<rparr>)"
    using Build_sets [OF wf2] by blast
  let ?G2 = "G1\<lparr>m_FirstSets := F, m_FollowSets := W\<rparr>"
  have same2: "same_rules G1 ?G2" by (simp add: same_rules_def)
  have aug2: "augmented ?G2" using same_rulesD(4) [OF same2] a(1) by simp
  have cg: "compiled_grammar G (length A) ?G2 T"
    unfolding compiled_grammar_def
  proof (intro conjI)
    show "\<exists>R root. set (m_EncodedRules ?G2) = insert R (set (m_EncodedRules G)) \<and> m_LeftPart R = GetNewRoot ?G2 \<and>
        m_OriginalRuleNo R = length A \<and> rhs R = [root, GetEndOfStreamSymbol ?G2] \<and> root < ?n \<and>
        m_bGrammarRoot (m_UniqueGrammarItems G ! root)"
      using R same_rulesD(5,6) [OF same2] by (intro exI [of _ R] exI [of _ root]) simp
  qed (use aug2 items trie in auto)
  have new: "m_LeftPart R = Suc ?n" using R(2) augmented_items(1) [OF items] by simp
  have "is_meta ?G2 X \<longleftrightarrow> is_meta G X \<or> X = Suc ?n" for X
    using items by (auto simp: is_meta_def nth_append end_of_input_item_def new_root_item_def less_Suc_eq)
  moreover have "m_LeftPart ` set (m_EncodedRules ?G2) = insert (Suc ?n) (m_LeftPart ` set (m_EncodedRules G))"
    using R(1) new by simp
  moreover have "\<not> is_meta G (Suc ?n)" by (simp add: is_meta_def)
  ultimately have unused: "(\<exists>X. is_meta ?G2 X \<and> X \<notin> m_LeftPart ` set (m_EncodedRules ?G2)) \<longleftrightarrow>
      (\<exists>X. is_meta G X \<and> X \<notin> m_LeftPart ` set (m_EncodedRules G))" by auto
  note out = TransferOutCount_returns [of ?G2 "A @ [[]]", unfolded unused]
  show ?thesis
  proof (cases "\<exists>X. is_meta G X \<and> X \<notin> m_LeftPart ` set (m_EncodedRules G)")
    case True
    then show ?thesis using out FW by (simp add: aug build_augmented_def A1)
  next
    case False
    then obtain A' where A': "TransferOutCountFromSymbolToItsDependencies ?G2 (A @ [[]]) = Some (Inr (True, A'))"
      "length A' = Suc (length A)" using out by (auto simp only: if_False length_append_singleton)
    obtain S where S: "Compute ?G2 = Some S" using Compute_spec augmented_wf(1,2) [OF aug2] by blast
    have res: "build_augmented hasher T t (AugmentGrammar G A) = Some (case BuildGLRTable hasher ?G2 t of
        None \<Rightarrow> Inl ''GLR-Table compacting: maximum index reached'' | Some t' \<Rightarrow> Inr (True, ?G2, A', T, t'))"
      using FW A'(1) S by (simp add: aug build_augmented_def A1)
    have "compiled G (length A) ?G2 T t'" if "BuildGLRTable hasher ?G2 t = Some t'" for t'
      unfolding compiled_def using cg BuildGLRTable_lr_table [OF aug2 table _ that] by blast
    then show ?thesis
      using False cg A' res by (intro if_not_P [THEN iffD2] exI [of _ ?G2] exI [of _ A']) (auto split: option.split)
  qed
qed

lemma BuildGLRTableForGrammar_spec:
  assumes wf: "wf_grammar G" and fresh: "m_RootPrefixes G = []"
    and small: "Suc (length (m_UniqueGrammarItems G) * length (m_UniqueGrammarItems G)) < 2 ^ 32"
    and nums: "\<forall>r \<in> set (m_EncodedRules G). m_OriginalRuleNo r < length A"
    and table: "SimpleCells t = sparse_init" "ComplexCells t = []"
  shows "if \<not> has_root_prefix G then BuildGLRTableForGrammar hasher G A H t = None
    else if GetCountOfRoots G \<noteq> 1
    then BuildGLRTableForGrammar hasher G A H t = Some (Inl ''A simple grammar should have only one root.'')
    else if \<exists>I \<in> set (m_UniqueGrammarItems G). m_ItemStrId I \<in> {NEW_ROOT, END_OF_INPUT}
    then \<exists>P T. BuildGLRTableForGrammar hasher G A H t = Some (Inr (False, G\<lparr>m_RootPrefixes := P\<rparr>, A, T, t))
    else if \<exists>X. is_meta G X \<and> X \<notin> m_LeftPart ` set (m_EncodedRules G)
    then BuildGLRTableForGrammar hasher G A H t =
      Some (Inl ''Unused meta-symbol in TransferOutCountFromSymbolToItsDependencies'')
    else \<exists>G' A' T. compiled_grammar G (length A) G' T \<and> length A' = Suc (length A) \<and>
      TransferOutCountFromSymbolToItsDependencies G' (A @ [[]]) = Some (Inr (True, A')) \<and>
      (case BuildGLRTable hasher G' t of
         None \<Rightarrow> BuildGLRTableForGrammar hasher G A H t = Some (Inl ''GLR-Table compacting: maximum index reached'')
       | Some t' \<Rightarrow> BuildGLRTableForGrammar hasher G A H t = Some (Inr (True, G', A', T, t')) \<and>
           compiled G (length A) G' T t')"
proof -
  obtain P where P: "Build_FIRST_Set_k 1 G = Some (G\<lparr>m_RootPrefixes := P\<rparr>)"
    "if has_root_prefix G then patterns_ok (length (m_UniqueGrammarItems G)) P else P = []"
    "(\<lambda>r. (m_LeftPart r, rhs r)) ` set P = {(X, p). m_bGrammarRoot (m_UniqueGrammarItems G ! X) \<and> prefix_of G 1 X p}"
    using root_prefixes_patterns [OF wf fresh small] by blast
  let ?G = "G\<lparr>m_RootPrefixes := P\<rparr>"
  have rules: "same_rules G ?G" by (simp add: same_rules_def)
  note same = same_rulesD(1,3) [OF rules]
  have wf1: "wf_grammar ?G" using same(2) wf by simp
  have nums1: "\<forall>r \<in> set (m_EncodedRules ?G). m_OriginalRuleNo r < length A" using nums by simp
  show ?thesis
  proof (cases "has_root_prefix G")
    case False
    then have "BuildAutomat P ?G H = None" using P(2) by (simp add: BuildAutomat_def trie_Create_def)
    then show ?thesis using False P(1) by (simp add: BuildGLRTableForGrammar_def)
  next
    case True
    then have ok: "patterns_ok (length (m_UniqueGrammarItems G)) P" using P(2) by simp
    obtain T where T: "BuildAutomat P ?G H = Some T"
      using trie_Create_automaton [of "CreateAutomatSymbolInformation ?G" P H] ok by (auto simp: BuildAutomat_def)
    have eq: "BuildGLRTableForGrammar hasher G A H t = build_augmented hasher T t (AugmentGrammar ?G A)"
      unfolding BuildGLRTableForGrammar_def P(1) by (simp add: T)
    consider "GetCountOfRoots G \<noteq> 1"
      | "GetCountOfRoots G = 1" "\<exists>I \<in> set (m_UniqueGrammarItems G). m_ItemStrId I \<in> {NEW_ROOT, END_OF_INPUT}"
      | "GetCountOfRoots G = 1" "\<not> (\<exists>I \<in> set (m_UniqueGrammarItems G). m_ItemStrId I \<in> {NEW_ROOT, END_OF_INPUT})"
      by blast
    then show ?thesis
    proof cases
      case 1
      then have "AugmentGrammar ?G A = Inl ''A simple grammar should have only one root.''"
        by (simp add: AugmentGrammar_def GetCountOfRoots_def)
      then show ?thesis using 1 True by (simp add: eq build_augmented_def)
    next
      case 2
      then have "AugmentGrammar ?G A = Inr (False, ?G, A)"
        by (auto simp: AugmentGrammar_def GetCountOfRoots_def list_ex_iff)
      then show ?thesis using 2 True by (auto simp: eq build_augmented_def)
    next
      case 3
      then obtain G1 A1 where aug: "AugmentGrammar ?G A = Inr (True, G1, A1)"
        by (auto simp: AugmentGrammar_def GetCountOfRoots_def list_ex_iff Let_def)
      have trie: "(\<lambda>r. (m_LeftPart r, rhs r)) ` set P = {(X, p). m_bGrammarRoot (m_UniqueGrammarItems ?G ! X) \<and> prefix_of ?G 1 X p}"
        unfolding P(3) prefix_of_one [OF wf] prefix_of_one [OF wf1] same_rulesD(7) [OF rules] by simp
      have "patterns_ok (length (CreateAutomatSymbolInformation ?G)) P" using ok by simp
      note b = build_augmented_spec [OF wf1 nums1 table aug trie this T [unfolded BuildAutomat_def], of hasher]
      have cg: "compiled_grammar ?G n G' T = compiled_grammar G n G' T" "compiled ?G n G' T t' = compiled G n G' T t'" for n G' t'
        using P(3) trie by (simp_all add: compiled_def compiled_grammar_def)
      show ?thesis
      proof (cases "\<exists>X. is_meta G X \<and> X \<notin> m_LeftPart ` set (m_EncodedRules G)")
        case False
        have "m_EncodedRules ?G = m_EncodedRules G" by simp
        note stages = b [unfolded cg same this if_not_P [OF False]]
        obtain G' A' where "compiled_grammar G (length A) G' T \<and> length A' = Suc (length A) \<and>
            TransferOutCountFromSymbolToItsDependencies G' (A @ [[]]) = Some (Inr (True, A')) \<and>
            (case BuildGLRTable hasher G' t of
               None \<Rightarrow> BuildGLRTableForGrammar hasher G A H t = Some (Inl ''GLR-Table compacting: maximum index reached'')
             | Some t' \<Rightarrow> BuildGLRTableForGrammar hasher G A H t = Some (Inr (True, G', A', T, t')) \<and>
                 compiled G (length A) G' T t')"
          using stages unfolding eq by blast
        then show ?thesis using False 3 True by (simp only: simp_thms if_False if_True) blast
      qed (use b 3 True in \<open>simp add: eq same\<close>)
    qed
  qed
qed

section \<open>Parsing with a compiled grammar\<close>

lemma compiled_spans:
  assumes "wf_grammar G" "compiled G n G' T t" "X < GetEndOfStreamSymbol G'"
  shows "spans G' inputs X i j \<longleftrightarrow> spans G inputs X i j"
    and "m_UniqueGrammarItems G' ! X = m_UniqueGrammarItems G ! X" "X < length (m_UniqueGrammarItems G)"
proof -
  have items: "m_UniqueGrammarItems G' = m_UniqueGrammarItems G @ [end_of_input_item, new_root_item]"
    using assms(2) by (simp add: compiled_def compiled_grammar_def)
  obtain R where R: "set (m_EncodedRules G') = insert R (set (m_EncodedRules G))" "m_LeftPart R = GetNewRoot G'"
    using assms(2) by (auto simp: compiled_def compiled_grammar_def)
  have X: "X < length (m_UniqueGrammarItems G)" using assms(3) augmented_items(2) [OF items] by simp
  then show "X < length (m_UniqueGrammarItems G)" "m_UniqueGrammarItems G' ! X = m_UniqueGrammarItems G ! X"
    by (simp_all add: items nth_append)
  have "length (m_UniqueGrammarItems G) \<le> m_LeftPart R" using R(2) augmented_items(1) [OF items] by simp
  note der = augmented_derives [OF assms(1) R(1) this]
  show "spans G' inputs X i j \<longleftrightarrow> spans G inputs X i j"
    unfolding spans_def using der(1) [of "[X]"] der(2) [of "[X]"] X by auto
qed


text \<open>What is asked of a grammar to be compiled.\<close>

definition compilable :: "('a CWorkGrammar_scheme) \<Rightarrow> CRuleAgreement list \<Rightarrow> bool" where
  "compilable G A \<longleftrightarrow> wf_grammar G \<and> productive G \<and> m_RootPrefixes G = [] \<and>
     (\<exists>X. is_meta G X \<and> m_bGrammarRoot (m_UniqueGrammarItems G ! X)) \<and>
     Suc (length (m_UniqueGrammarItems G) * length (m_UniqueGrammarItems G)) < 2 ^ 32 \<and>
     (\<forall>r \<in> set (m_EncodedRules G). m_OriginalRuleNo r < length A)"

lemma compilable_has_root_prefix:
  assumes "compilable G A"
  shows "has_root_prefix G"
proof -
  obtain X where X: "is_meta G X" "m_bGrammarRoot (m_UniqueGrammarItems G ! X)" using assms by (auto simp: compilable_def)
  then obtain w where w: "derives G [X] w" "terminal_word G w" using assms unfolding compilable_def productive_def by blast
  have "wf_grammar G" using assms by (simp add: compilable_def)
  then have "length [X] \<le> length w" using derives_nonempty [OF _ w(1)] by simp
  then obtain a v where "w = a # v" by (cases w) auto
  then show ?thesis using X w unfolding has_root_prefix_def terminal_word_def by auto
qed

lemma compilable_compiled:
  assumes "compilable G A" "SimpleCells t = sparse_init" "ComplexCells t = []"
    and "BuildGLRTableForGrammar hasher G A H t = Some (Inr (True, G', A', T, t'))"
  shows "wf_grammar G" "compiled G (length A) G' T t'"
  using BuildGLRTableForGrammar_spec [of G A t hasher H] assms compilable_has_root_prefix [OF assms(1)]
  by (auto simp: compilable_def split: if_splits option.splits)

text \<open>
  C1. End to end: if a grammar compiles, then on every sentence over its symbols \<^verbatim>\<open>CInputSequenceGLR::Process\<close>
  with the trie and the table that were built returns, and every occurrence it appends is a root of the
  \<^emph>\<open>original\<close> grammar that derives, in the original grammar, a choice of interpretations of the words it spans.
\<close>

theorem compiled_Process_sound:
  fixes Q :: "('i, 'f) CInputSequenceGLR"
  assumes "compilable G A" "SimpleCells t = sparse_init" "ComplexCells t = []"
    and "BuildGLRTableForGrammar hasher G A H t = Some (Inr (True, G', A', T, t'))"
    and "table_limits G'" "words_ok G' (m_InputTerminals Q)"
  shows "\<exists>new Q'. sequence_Process SetCurStartWord F G' T t' Occ Q = Some (Occ @ new, Q') \<and>
    (\<forall>C \<in> set new. \<exists>X w. X < length (m_UniqueGrammarItems G) \<and> m_bGrammarRoot (m_UniqueGrammarItems G ! X) \<and>
       derives G [X] w \<and> occ_second C = occ_first C + length w \<and> w \<noteq> [] \<and>
       occ_second C \<le> length (m_InputTerminals Q) \<and>
       (\<forall>k < length w. w ! k \<in> set (terminals (m_InputTerminals Q ! (occ_first C + k)))))"
proof -
  note c = compilable_compiled [OF assms(1-4)]
  obtain P and Info :: "(nat \<times> string) list" and H0 where P: "patterns_ok (length Info) P" "trie_Create P Info H0 = Some T"
    using c(2) by (auto simp: compiled_def compiled_grammar_def)
  obtain I N where tab: "lr_table G' I N t'" using c(2) assms(5) by (auto simp: compiled_def compiled_grammar_def)
  have aug: "augmented G'" using c(2) by (simp add: compiled_def compiled_grammar_def)
  obtain new Q' where r: "sequence_Process SetCurStartWord F G' T t' Occ Q = Some (Occ @ new, Q')"
    "\<forall>C \<in> set new. occ_first C < occ_second C \<and>
       (\<exists>X < GetEndOfStreamSymbol G'. m_bGrammarRoot (m_UniqueGrammarItems G' ! X) \<and>
          spans G' (inputs_of (m_InputTerminals Q)) X (occ_first C) (occ_second C))"
    using sequence_Process_spec [OF aug tab assms(6) P, of SetCurStartWord F Occ] by blast
  have "\<exists>X w. X < length (m_UniqueGrammarItems G) \<and> m_bGrammarRoot (m_UniqueGrammarItems G ! X) \<and>
       derives G [X] w \<and> occ_second C = occ_first C + length w \<and> w \<noteq> [] \<and>
       occ_second C \<le> length (m_InputTerminals Q) \<and>
       (\<forall>k < length w. w ! k \<in> set (terminals (m_InputTerminals Q ! (occ_first C + k))))" if C: "C \<in> set new" for C
  proof -
    obtain X where X: "X < GetEndOfStreamSymbol G'" "m_bGrammarRoot (m_UniqueGrammarItems G' ! X)"
        "spans G' (inputs_of (m_InputTerminals Q)) X (occ_first C) (occ_second C)" and lt: "occ_first C < occ_second C"
      using r(2) C by blast
    note s = compiled_spans [OF c X(1)]
    obtain w where w: "occ_second C = occ_first C + length w" "matches (inputs_of (m_InputTerminals Q)) (occ_first C) w" "derives G [X] w"
      using X(3) s(1) unfolding spans_def by blast
    then show ?thesis using X(2) s(2,3) lt by (intro exI [of _ X] exI [of _ w]) (auto simp: matches_def)
  qed
  then show ?thesis using r(1) by blast
qed

text \<open>
  C2. The search for root prefixes loses nothing: if a grammar compiles, then for every phrase of a sentence of
  terminals, a choice of interpretations of the words from \<open>s\<close> on that a root nonterminal derives, the search
  with the trie reports an occurrence that starts at \<open>s\<close>, so the parser is started there.
\<close>

theorem compiled_prefixes_complete:
  fixes Q :: "('i, 'f) CInputSequenceGLR"
  assumes "compilable G A" "SimpleCells t = sparse_init" "ComplexCells t = []"
    and "BuildGLRTableForGrammar hasher G A H t = Some (Inr (True, G', A', T, t'))"
    and "\<forall>W \<in> set (m_InputTerminals Q). \<forall>a \<in> set (terminals W). \<not> is_meta G a"
    and "is_meta G X" "m_bGrammarRoot (m_UniqueGrammarItems G ! X)" "derives G [X] w"
    and "s + length w \<le> length (m_InputTerminals Q)" "\<forall>k < length w. w ! k \<in> set (terminals (m_InputTerminals Q ! (s + k)))"
  shows "\<exists>Occ :: 'i COccurrence list. FindOccurrencesWithTrie T Q = Some Occ \<and> (\<exists>C \<in> set Occ. occ_first C = s)"
proof -
  note c = compilable_compiled [OF assms(1-4)]
  obtain P and Info :: "(nat \<times> string) list" and H0 where P: "patterns_ok (length Info) P" "trie_Create P Info H0 = Some T"
    "(\<lambda>r. (m_LeftPart r, rhs r)) ` set P = {(X, p). m_bGrammarRoot (m_UniqueGrammarItems G ! X) \<and> prefix_of G 1 X p}"
    using c(2) by (auto simp: compiled_def compiled_grammar_def)
  obtain ws where ws: "automaton T ws (map rhs P)" using trie_Create_automaton [OF P(1), of H0] P(2) by auto
  obtain Occ :: "'i COccurrence list" where Occ: "FindOccurrencesWithTrie T Q = Some Occ"
      "set Occ = spelled (map rhs P) (inputs_of (m_InputTerminals Q)) (length (m_InputTerminals Q))"
    using FindOccurrencesWithTrie_spec [OF ws] by blast
  have "length [X] \<le> length w" by (rule derives_nonempty [OF c(1) assms(8)]) simp
  then obtain a v where w: "w = a # v" by (cases w) auto
  have "terminal_word G w"
    unfolding terminal_word_def
  proof
    fix b assume "b \<in> set w"
    then obtain k where "k < length w" "b = w ! k" by (metis in_set_conv_nth)
    then show "\<not> is_meta G b" using assms(5,9,10) by (meson add_less_cancel_left less_le_trans nth_mem)
  qed
  then have "prefix_of G 1 X [a]"
    using prefix_of_iff [OF c(1) _ _ assms(6)] assms(1,8) w by (fastforce simp: compilable_def)
  then have "(X, [a]) \<in> (\<lambda>r. (m_LeftPart r, rhs r)) ` set P" unfolding P(3) using assms(7) by simp
  then have "[a] \<in> set (map rhs P)" by auto
  then obtain k where k: "position (map rhs P) [a] = Some k" using position_in by metis
  have "matches (inputs_of (m_InputTerminals Q)) s [a]" using assms(9,10) w by (auto simp: matches_def)
  then have "[a] \<in> choices (inputs_of (m_InputTerminals Q)) s (Suc s)" by (simp add: choices_def)
  then have "(occurrence s (Suc s) k :: 'i COccurrence) \<in> set Occ"
    unfolding Occ(2) spelled_def using k assms(9) w by (intro CollectI exI [of _ s] exI [of _ "Suc s"] exI [of _ k]) auto
  moreover have "occ_first (occurrence s (Suc s) k :: 'i COccurrence) = s" by (simp add: occurrence_def)
  ultimately show ?thesis using Occ(1) by metis
qed

section \<open>The sample grammar compiled\<close>

definition sample_final :: CWorkGrammar where
  "sample_final = sample_augmented\<lparr>m_FirstSets := [[1], [], [], [], [1]],
     m_FollowSets := [[2, 3], [1, 2], [], [], []], m_RootPrefixes := [prefix_rule 0 0 [1]]\<rparr>"

lemma sample_stages:
  "Build_FIRST_Set_k 1 sample_grammar = Some (sample_grammar\<lparr>m_RootPrefixes := [prefix_rule 0 0 [1]]\<rparr>)"
  "AugmentGrammar (sample_grammar\<lparr>m_RootPrefixes := [prefix_rule 0 0 [1]]\<rparr>) [[], []] =
     Inr (True, sample_augmented\<lparr>m_RootPrefixes := [prefix_rule 0 0 [1]]\<rparr>, [[], [], [] :: CRuleAgreement])"
  "Build_FIRST_Set (sample_augmented\<lparr>m_RootPrefixes := [prefix_rule 0 0 [1]]\<rparr>) =
     Some (sample_augmented\<lparr>m_RootPrefixes := [prefix_rule 0 0 [1]], m_FirstSets := [[1], [], [], [], [1]]\<rparr>)"
  "Build_FOLLOW_Set (sample_augmented\<lparr>m_RootPrefixes := [prefix_rule 0 0 [1]], m_FirstSets := [[1], [], [], [], [1]]\<rparr>) =
     Some sample_final"
  "TransferOutCountFromSymbolToItsDependencies sample_final [[], [], []] = Some (Inr (True, [[], [], []]))"
  "Compute sample_final = Some sample_collection"
  by code_simp+

lemma sample_final_build: "BuildGLRTable sample_hash sample_final glr_table_init = Some sample_table"
proof -
  have rules: "m_EncodedRules sample_final = m_EncodedRules sample_slr" and items: "m_UniqueGrammarItems sample_final = m_UniqueGrammarItems sample_slr"
    and "m_FollowSets sample_final = m_FollowSets sample_slr" by (simp_all add: sample_final_def sample_slr_def)
  then have "table_item sample_final = (table_item sample_slr :: nat CGLRRuleInfo list \<Rightarrow> _)" "table_goto_line sample_final = table_goto_line sample_slr"
    by (intro ext, simp add: table_item_def table_goto_line_def GetNewRoot_def)+
  then have "raw_table sample_final = (raw_table sample_slr :: nat CGLRRuleInfo list \<Rightarrow> _)"
    using items by (intro ext) (simp add: raw_table_def table_line_def)
  then show ?thesis
    using sample_build unfolding BuildGLRTable_def sample_stages(6) sample_Compute rules by simp
qed

lemma sample_compilable: "compilable sample_grammar [[], []]"
proof -
  have "is_meta sample_grammar 0" "m_bGrammarRoot (m_UniqueGrammarItems sample_grammar ! 0)" by code_simp+
  moreover have "length (m_UniqueGrammarItems sample_grammar) = 3" by (simp add: sample_grammar_def)
  ultimately show ?thesis
    using sample_wf(2) sample_productive sample_nums unfolding compilable_def by auto
qed

lemma sample_fresh: "SimpleCells (glr_table_init :: nat CGLRTable) = sparse_init" "ComplexCells (glr_table_init :: nat CGLRTable) = []"
  by (simp_all add: glr_table_init_def)

lemma sample_compiles:
  obtains T where "BuildGLRTableForGrammar sample_hash sample_grammar [[], []] empty_trie glr_table_init =
    Some (Inr (True, sample_final, [[], [], []], T, sample_table))"
proof -
  obtain P where P: "Build_FIRST_Set_k 1 sample_grammar = Some (sample_grammar\<lparr>m_RootPrefixes := P\<rparr>)"
    "patterns_ok (length (m_UniqueGrammarItems sample_grammar)) P"
    using root_prefixes_patterns [of sample_grammar] sample_compilable compilable_has_root_prefix [OF sample_compilable]
    unfolding compilable_def by metis
  have "m_RootPrefixes (the (Build_FIRST_Set_k 1 sample_grammar)) = P" unfolding P(1) by simp
  then have "P = [prefix_rule 0 0 [1]]" unfolding sample_stages(1) by simp
  then obtain T where T: "BuildAutomat [prefix_rule 0 0 [1]] (sample_grammar\<lparr>m_RootPrefixes := [prefix_rule 0 0 [1]]\<rparr>) empty_trie = Some T"
    using trie_Create_automaton [of "CreateAutomatSymbolInformation (sample_grammar\<lparr>m_RootPrefixes := [prefix_rule 0 0 [1]]\<rparr>)"] P(2)
    by (auto simp: BuildAutomat_def)
  have "Compute sample_final \<noteq> None" by (simp add: sample_stages(6))
  have "BuildGLRTableForGrammar sample_hash sample_grammar [[], []] empty_trie glr_table_init =
      build_augmented sample_hash T glr_table_init (AugmentGrammar (sample_grammar\<lparr>m_RootPrefixes := [prefix_rule 0 0 [1]]\<rparr>) [[], []])"
    unfolding BuildGLRTableForGrammar_def sample_stages(1) using T by simp
  also have "\<dots> = Some (Inr (True, sample_final, [[], [], []], T, sample_table))"
    unfolding build_augmented_def sample_stages(2) sum.case prod.case
    by (simp add: sample_stages(3-6) sample_final_build del: One_nat_def)
  finally show ?thesis by (rule that)
qed


text \<open>Without a root there is no prefix, and compilation fails; with a reserved name it returns false.\<close>

lemma no_root_fails:
  assumes "wf_grammar G" "m_RootPrefixes G = []"
    and "Suc (length (m_UniqueGrammarItems G) * length (m_UniqueGrammarItems G)) < 2 ^ 32"
    and "\<forall>r \<in> set (m_EncodedRules G). m_OriginalRuleNo r < length A"
    and "SimpleCells t = sparse_init" "ComplexCells t = []" "GetCountOfRoots G = 0"
  shows "BuildGLRTableForGrammar hasher G A H t = None"
proof -
  have "\<not> m_bGrammarRoot I" if "I \<in> set (m_UniqueGrammarItems G)" for I
    using assms(7) that by (auto simp: GetCountOfRoots_def filter_empty_conv)
  then have "\<not> has_root_prefix G" by (auto simp: has_root_prefix_def is_meta_def)
  then show ?thesis using BuildGLRTableForGrammar_spec [OF assms(1-6), of hasher H] by simp
qed

lemma sample_final_limits: "table_limits sample_final" "words_ok sample_final (m_InputTerminals sample_sequence)"
proof -
  have "m_EncodedRules sample_final = m_EncodedRules sample_augmented" "length (m_UniqueGrammarItems sample_final) = 5"
    using sample_size by (simp_all add: sample_final_def sample_slr_def)
  then show "table_limits sample_final"
    by (auto simp: table_limits_def sample_stages(6) sample_collection_def sample_augmented_def sample_rule_def)
  have "GetEndOfStreamSymbol sample_final = GetEndOfStreamSymbol sample_slr"
    by (simp add: sample_final_def sample_slr_def GetEndOfStreamSymbol_def)
  then show "words_ok sample_final (m_InputTerminals sample_sequence)" using sample_sequence_ok(2) by (simp add: words_ok_def)
qed

theorem compiled_Process_sound_witness:
  "\<exists>T new Q'. BuildGLRTableForGrammar sample_hash sample_grammar [[], []] empty_trie glr_table_init =
       Some (Inr (True, sample_final, [[], [], []], T, sample_table)) \<and>
     sequence_Process (\<lambda>i f. f) sample_factory sample_final T sample_table [] sample_sequence = Some ([] @ new, Q') \<and>
     (\<forall>C \<in> set new. \<exists>X w. derives sample_grammar [X] w \<and> occ_second C = occ_first C + length w \<and> w \<noteq> [])"
proof -
  obtain T where T: "BuildGLRTableForGrammar sample_hash sample_grammar [[], []] empty_trie glr_table_init =
    Some (Inr (True, sample_final, [[], [], []], T, sample_table))" by (rule sample_compiles)
  show ?thesis
    using compiled_Process_sound [OF sample_compilable sample_fresh T sample_final_limits, of "\<lambda>i f. f" sample_factory "[]"] T
    by blast
qed

theorem compiled_prefixes_complete_witness:
  "\<exists>T Occ. BuildGLRTableForGrammar sample_hash sample_grammar [[], []] empty_trie glr_table_init =
       Some (Inr (True, sample_final, [[], [], []], T, sample_table)) \<and>
     FindOccurrencesWithTrie T sample_sequence = Some (Occ :: nat COccurrence list) \<and> (\<exists>C \<in> set Occ. occ_first C = 0)"
proof -
  obtain T where T: "BuildGLRTableForGrammar sample_hash sample_grammar [[], []] empty_trie glr_table_init =
    Some (Inr (True, sample_final, [[], [], []], T, sample_table))" by (rule sample_compiles)
  have meta: "is_meta sample_grammar 0" "m_bGrammarRoot (m_UniqueGrammarItems sample_grammar ! 0)"
    "\<not> is_meta sample_grammar 1" "\<not> is_meta sample_grammar 2" by code_simp+
  have "derives sample_grammar [m_LeftPart (sample_rule 1 0 [1, 2])] (rhs (sample_rule 1 0 [1, 2]))"
    by (rule derives_rule) code_simp
  then have d: "derives sample_grammar [0] [1, 2]" by (simp add: sample_rule_def)
  have words: "\<forall>W \<in> set (m_InputTerminals sample_sequence). \<forall>a \<in> set (terminals W). \<not> is_meta sample_grammar a"
    "0 + length [1, 2 :: nat] \<le> length (m_InputTerminals sample_sequence)"
    "\<forall>k < length [1, 2 :: nat]. [1, 2] ! k \<in> set (terminals (m_InputTerminals sample_sequence ! (0 + k)))"
    using meta(3,4) sample_sequence_ok(1) by (auto simp: less_Suc_eq)
  show ?thesis
    using compiled_prefixes_complete [OF sample_compilable sample_fresh T words(1) meta(1,2) d words(2,3)] T by blast
qed

end
