(* ===== verification/UnusedSymbols.thy ===== *)
theory UnusedSymbols
  imports FirstFollow "HOL-Library.Monad_Syntax"
begin

text \<open>
  \<^verbatim>\<open>CWorkGrammar::DeleteUnusedSymbols\<close> (\<^verbatim>\<open>loader.cpp\<close>): the symbols that occur in rules are numbered anew in
  the order in which the rules mention them, the others are dropped. The map of the numbers is a bijection
  from the used symbols to the new numbers, so the grammar stays the same up to the names of its symbols.

  \<^verbatim>\<open>UpdateOld2NewMap\<close> is called with a reference to a symbol of a right part, an \<^verbatim>\<open>int\<close> of 4 bytes, cast to a reference to
  \<^verbatim>\<open>size_t\<close>. The model has the size of \<^verbatim>\<open>size_t\<close> in bytes (\<^verbatim>\<open>SIZEOF_SIZE_T\<close> of \<^verbatim>\<open>util/system/platform.h\<close>, 4 or 8) as a
  parameter \<open>W\<close>: with 4 bytes the reference is the element; with 8 bytes it is the element and its successor (little
  endian), a write to it clears the successor, and at the last element it reaches beyond the vector, which is \<open>None\<close>.
\<close>

section \<open>The operations\<close>

type_synonym number_map = "(nat \<times> nat) list"

definition UpdateOld2NewMap :: "number_map \<Rightarrow> nat \<Rightarrow> nat \<Rightarrow> number_map \<times> nat \<times> nat" where
  "UpdateOld2NewMap Old2New Index MaxNewIndex =
     (case omap_get (<) Index Old2New of
        None \<Rightarrow> (omap_set (<) Index MaxNewIndex Old2New, MaxNewIndex, MaxNewIndex + 1)
      | Some New \<Rightarrow> (Old2New, New, MaxNewIndex))"

text \<open>
  Reading \<^verbatim>\<open>(size_t&)Items[l]\<close>: the keys of the map are \<^verbatim>\<open>int\<close>, so the number is cut to its lower 4 bytes. Writing a
  new number, which fits into the lower 4 bytes.
\<close>

definition read_size_t_ref :: "nat \<Rightarrow> nat list \<Rightarrow> nat \<Rightarrow> nat option" where
  "read_size_t_ref W Items l = (if l + W div 4 \<le> length Items then Some (Items ! l) else None)"

definition write_size_t_ref :: "nat \<Rightarrow> nat list \<Rightarrow> nat \<Rightarrow> nat \<Rightarrow> nat list option" where
  "write_size_t_ref W Items l New =
     (if l + W div 4 \<le> length Items then Some (if W = 4 then Items[l := New] else Items[l := New, Suc l := 0]) else None)"

fun update_items :: "nat \<Rightarrow> nat list \<Rightarrow> number_map \<times> nat list \<times> nat \<Rightarrow> (number_map \<times> nat list \<times> nat) option" where
  "update_items W [] st = Some st"
| "update_items W (l # ls) (Old2New, Items, n) =
     do {
       s \<leftarrow> read_size_t_ref W Items l;
       let (Old2New, s', n) = UpdateOld2NewMap Old2New s n;
       Items \<leftarrow> write_size_t_ref W Items l s';
       update_items W ls (Old2New, Items, n)
     }"

definition update_rule ::
  "nat \<Rightarrow> CWorkRule \<Rightarrow> CWorkRule list \<times> number_map \<times> nat \<Rightarrow> (CWorkRule list \<times> number_map \<times> nat) option" where
  "update_rule W R st =
     (let (NewEncodedRules, Old2New, n) = st;
          (Old2New, Left, n) = UpdateOld2NewMap Old2New (m_LeftPart R) n
      in do {
        (Old2New, Items, n) \<leftarrow> update_items W [0..<length (rhs R)] (Old2New, rhs R, n);
        Some (oset_insert work_rule_less (R\<lparr>m_LeftPart := Left, m_RightPart := (m_RightPart R)\<lparr>m_Items := Items\<rparr>\<rparr>) NewEncodedRules,
          Old2New, n)
      })"

fun update_rules ::
  "nat \<Rightarrow> CWorkRule list \<Rightarrow> CWorkRule list \<times> number_map \<times> nat \<Rightarrow> (CWorkRule list \<times> number_map \<times> nat) option" where
  "update_rules W [] st = Some st"
| "update_rules W (R # Rs) st = do { st \<leftarrow> update_rule W R st; update_rules W Rs st }"

definition DeleteUnusedSymbols :: "nat \<Rightarrow> ('a CWorkGrammar_scheme) \<Rightarrow> ('a CWorkGrammar_scheme) option" where
  "DeleteUnusedSymbols W G =
     do {
       (NewEncodedRules, Old2New, CountOfUsedSymbols) \<leftarrow> update_rules W (m_EncodedRules G) ([], [], 0);
       Some (G\<lparr>m_EncodedRules := NewEncodedRules,
          m_UniqueGrammarItems :=
            fold (\<lambda>(old, new) v. v[new := m_UniqueGrammarItems G ! old]) Old2New
              (replicate CountOfUsedSymbols grammar_item_init)\<rparr>)
     }"

section \<open>The references\<close>

text \<open>With references of the size of an \<^verbatim>\<open>int\<close> the elements are numbered one after the other.\<close>

fun renumber_items :: "number_map \<Rightarrow> nat list \<Rightarrow> nat \<Rightarrow> number_map \<times> nat list \<times> nat" where
  "renumber_items Old2New [] n = (Old2New, [], n)"
| "renumber_items Old2New (s # Items) n =
     (let (Old2New, s', n) = UpdateOld2NewMap Old2New s n;
          (Old2New, Items', n) = renumber_items Old2New Items n
      in (Old2New, s' # Items', n))"

definition renumber_rule ::
  "CWorkRule \<Rightarrow> CWorkRule list \<times> number_map \<times> nat \<Rightarrow> CWorkRule list \<times> number_map \<times> nat" where
  "renumber_rule R st =
     (let (NewEncodedRules, Old2New, n) = st;
          (Old2New, Left, n) = UpdateOld2NewMap Old2New (m_LeftPart R) n;
          (Old2New, Items, n) = renumber_items Old2New (rhs R) n
      in (oset_insert work_rule_less (R\<lparr>m_LeftPart := Left, m_RightPart := (m_RightPart R)\<lparr>m_Items := Items\<rparr>\<rparr>) NewEncodedRules,
          Old2New, n))"

lemma update_items_int:
  "update_items 4 [length pre..<length pre + length Items] (m, pre @ Items, n) =
     (let (m', Items', n') = renumber_items m Items n in Some (m', pre @ Items', n'))"
proof (induction Items arbitrary: pre m n)
  case (Cons s Items)
  obtain m1 s1 n1 where u: "UpdateOld2NewMap m s n = (m1, s1, n1)" by (metis prod_cases3)
  have "[length pre..<length pre + length (s # Items)] = length pre # [length (pre @ [s1])..<length (pre @ [s1]) + length Items]"
    using upt_conv_Cons [of "length pre" "length pre + length (s # Items)"] by simp
  then show ?case
    using Cons.IH [of "pre @ [s1]" m1 n1] u
    by (simp add: read_size_t_ref_def write_size_t_ref_def Let_def split: prod.splits)
qed simp

lemma update_rule_int: "update_rule 4 R st = Some (renumber_rule R st)"
  using update_items_int [of "[]" "rhs R"] by (auto simp: update_rule_def renumber_rule_def Let_def split: prod.splits)

lemma update_rules_int: "update_rules 4 Rs st = Some (fold renumber_rule Rs st)"
  by (induction Rs arbitrary: st) (simp_all add: update_rule_int)

text \<open>With references of 8 bytes the last reference of a right part reaches beyond it.\<close>

lemma update_items_beyond:
  assumes "ls \<noteq> []" "length Items \<le> Suc (last ls)"
  shows "update_items 8 ls (m, Items, n) = None"
  using assms
proof (induction ls arbitrary: m Items n)
  case (Cons l ls)
  then show ?case
    by (cases "ls = []")
      (auto simp: read_size_t_ref_def write_size_t_ref_def Let_def split: prod.splits)
qed simp

lemma update_rule_beyond: "rhs R \<noteq> [] \<Longrightarrow> update_rule 8 R st = None"
  using update_items_beyond [of "[0..<length (rhs R)]" "rhs R"]
  by (auto simp: update_rule_def Let_def split: prod.splits)

section \<open>The map of the numbers\<close>

definition number_map_ok :: "number_map \<Rightarrow> nat \<Rightarrow> bool" where
  "number_map_ok m n \<longleftrightarrow> natset.ordered (map fst m) \<and> inj_on snd (set m) \<and> snd ` set m = {..<n}"

definition extends_map :: "number_map \<Rightarrow> number_map \<Rightarrow> bool" where
  "extends_map m m' \<longleftrightarrow> set m \<subseteq> set m'"

lemma number_map_value: "number_map_ok m n \<Longrightarrow> omap_get (<) s m = Some k \<longleftrightarrow> (s, k) \<in> set m"
  using natset.get_entry [of m s k] natset.get_Some [of s m k] by (auto simp: number_map_ok_def)

lemma UpdateOld2NewMap_spec:
  assumes "number_map_ok m n" "UpdateOld2NewMap m s n = (m', s', n')"
  shows "number_map_ok m' n' \<and> extends_map m m' \<and> (s, s') \<in> set m' \<and> fst ` set m' = insert s (fst ` set m)"
proof (cases "omap_get (<) s m")
  case None
  then have eq: "m' = omap_set (<) s n m" "s' = n" "n' = Suc n" using assms(2) by (auto simp: UpdateOld2NewMap_def)
  have new: "s \<notin> fst ` set m" using None natset.get_None [of s m] by simp
  have set: "set m' = insert (s, n) (set m)"
    using set_nat_omap_set [of m s n] assms(1) new unfolding eq number_map_ok_def by force
  have "inj_on snd (set m')" unfolding set using assms(1) by (auto simp: number_map_ok_def inj_on_def)
  moreover have "snd ` set m' = {..<n'}" unfolding set eq(3) using assms(1) by (simp add: number_map_ok_def lessThan_Suc)
  moreover have "natset.ordered (map fst m')" unfolding eq using assms(1) by (simp add: natset.ordered_set number_map_ok_def)
  ultimately show ?thesis using set eq by (auto simp: number_map_ok_def extends_map_def)
next
  case (Some k)
  then have "m' = m" "s' = k" "n' = n" using assms(2) by (auto simp: UpdateOld2NewMap_def)
  moreover have "(s, k) \<in> set m" using Some number_map_value [OF assms(1)] by blast
  ultimately show ?thesis using assms(1) by (force simp: extends_map_def)
qed

lemma renumber_items_spec:
  "number_map_ok m n \<Longrightarrow> renumber_items m xs n = (m', ys, n') \<Longrightarrow>
     number_map_ok m' n' \<and> extends_map m m' \<and> list_all2 (\<lambda>x y. (x, y) \<in> set m') xs ys \<and>
     fst ` set m' = set xs \<union> fst ` set m"
proof (induction xs arbitrary: m n ys)
  case Nil
  then show ?case by (simp add: extends_map_def)
next
  case (Cons x xs)
  obtain m1 y n1 where u: "UpdateOld2NewMap m x n = (m1, y, n1)" by (metis prod_cases3)
  obtain ys' where r: "renumber_items m1 xs n1 = (m', ys', n')" "ys = y # ys'"
    using Cons.prems(2) u by (auto simp: Let_def split: prod.splits)
  note a = UpdateOld2NewMap_spec [OF Cons.prems(1) u]
  note b = Cons.IH [OF _ r(1)]
  show ?case using a b r(2) by (auto simp: extends_map_def)
qed

text \<open>A rule with its symbols renamed.\<close>

definition rename_rule :: "(symbol \<Rightarrow> symbol) \<Rightarrow> CWorkRule \<Rightarrow> CWorkRule" where
  "rename_rule f R = R\<lparr>m_LeftPart := f (m_LeftPart R), m_RightPart := (m_RightPart R)\<lparr>m_Items := map f (rhs R)\<rparr>\<rparr>"

definition rule_symbols :: "CWorkRule \<Rightarrow> symbol set" where
  "rule_symbols R = insert (m_LeftPart R) (set (rhs R))"

definition map_fun_of :: "number_map \<Rightarrow> nat \<Rightarrow> nat" where
  "map_fun_of m s = the (omap_get (<) s m)"

lemma map_fun_of_eq: "number_map_ok m n \<Longrightarrow> (s, k) \<in> set m \<Longrightarrow> map_fun_of m s = k"
  using number_map_value [of m n s k] by (simp add: map_fun_of_def)

lemma renumber_rules_spec:
  "number_map_ok m n \<Longrightarrow> fold renumber_rule Rs (S, m, n) = (S', m', n') \<Longrightarrow>
     number_map_ok m' n' \<and> extends_map m m' \<and>
     S' = oset_insert_all work_rule_less (map (rename_rule (map_fun_of m')) Rs) S \<and>
     fst ` set m' = (\<Union>R \<in> set Rs. rule_symbols R) \<union> fst ` set m"
proof (induction Rs arbitrary: S m n)
  case Nil
  then show ?case by (simp add: extends_map_def)
next
  case (Cons R Rs)
  obtain m1 l n1 where u: "UpdateOld2NewMap m (m_LeftPart R) n = (m1, l, n1)" by (metis prod_cases3)
  obtain m2 ys n2 where w: "renumber_items m1 (rhs R) n1 = (m2, ys, n2)" by (metis prod_cases3)
  let ?Q = "R\<lparr>m_LeftPart := l, m_RightPart := (m_RightPart R)\<lparr>m_Items := ys\<rparr>\<rparr>"
  have "renumber_rule R (S, m, n) = (oset_insert work_rule_less ?Q S, m2, n2)" by (simp add: renumber_rule_def u w)
  then have r: "fold renumber_rule Rs (oset_insert work_rule_less ?Q S, m2, n2) = (S', m', n')" using Cons.prems(2) by simp
  note a = UpdateOld2NewMap_spec [OF Cons.prems(1) u]
  have b: "number_map_ok m2 n2 \<and> extends_map m1 m2 \<and> list_all2 (\<lambda>x y. (x, y) \<in> set m2) (rhs R) ys \<and>
      fst ` set m2 = set (rhs R) \<union> fst ` set m1" using renumber_items_spec [OF _ w] a by blast
  have c: "number_map_ok m' n' \<and> extends_map m2 m' \<and>
      S' = oset_insert_all work_rule_less (map (rename_rule (map_fun_of m')) Rs) (oset_insert work_rule_less ?Q S) \<and>
      fst ` set m' = (\<Union>R \<in> set Rs. rule_symbols R) \<union> fst ` set m2" using Cons.IH [OF _ r] b by blast
  have ok: "number_map_ok m' n'" using c by blast
  have "(m_LeftPart R, l) \<in> set m'" using a b c by (auto simp: extends_map_def)
  then have "l = map_fun_of m' (m_LeftPart R)" using map_fun_of_eq [OF ok] by simp
  moreover have "list_all2 (\<lambda>x y. y = map_fun_of m' x) (rhs R) ys"
    using b c map_fun_of_eq [OF ok] by (auto simp: extends_map_def elim!: list_all2_mono)
  then have "ys = map (map_fun_of m') (rhs R)" by (simp add: list_all2_conv_all_nth nth_equalityI)
  ultimately have "?Q = rename_rule (map_fun_of m') R" by (simp add: rename_rule_def)
  then show ?case using a b c by (auto simp: extends_map_def rule_symbols_def)
qed

lemma fill_items:
  assumes "inj_on snd (set m)" "\<forall>e \<in> set m. snd e < length v" "distinct m"
  shows "length (fold (\<lambda>(old, new) v. v[new := F old]) m v) = length v \<and>
    (\<forall>(old, new) \<in> set m. fold (\<lambda>(old, new) v. v[new := F old]) m v ! new = F old) \<and>
    (\<forall>i. i \<notin> snd ` set m \<longrightarrow> fold (\<lambda>(old, new) v. v[new := F old]) m v ! i = v ! i)"
  using assms
proof (induction m arbitrary: v)
  case (Cons e m)
  obtain old new where e: "e = (old, new)" by fastforce
  let ?v = "v[new := F old]"
  have IH: "length (fold (\<lambda>(old, new) v. v[new := F old]) m ?v) = length v"
      "\<forall>(old, new) \<in> set m. fold (\<lambda>(old, new) v. v[new := F old]) m ?v ! new = F old"
      "\<forall>i. i \<notin> snd ` set m \<longrightarrow> fold (\<lambda>(old, new) v. v[new := F old]) m ?v ! i = ?v ! i"
    using Cons.IH [of ?v] Cons.prems by auto
  have "new \<notin> snd ` set m"
  proof
    assume "new \<in> snd ` set m"
    then obtain x where "x \<in> set m" "snd x = snd e" using e by auto
    then have "x = e" using Cons.prems(1) by (auto simp: inj_on_def)
    then show False using \<open>x \<in> set m\<close> Cons.prems(3) by simp
  qed
  then show ?case using IH Cons.prems(2) e by auto
qed simp

section \<open>The grammar up to the names of its symbols\<close>

definition used_symbols :: "('a CWorkGrammar_scheme) \<Rightarrow> symbol set" where
  "used_symbols G = (\<Union>R \<in> set (m_EncodedRules G). rule_symbols R)"

text \<open>\<open>G'\<close> is \<open>G\<close> with the symbols renamed by \<open>f\<close>.\<close>

definition renamed :: "(symbol \<Rightarrow> symbol) \<Rightarrow> ('a CWorkGrammar_scheme) \<Rightarrow> ('a CWorkGrammar_scheme) \<Rightarrow> bool" where
  "renamed f G G' \<longleftrightarrow> inj_on f (used_symbols G) \<and> f ` used_symbols G = {..<length (m_UniqueGrammarItems G')} \<and>
     set (m_EncodedRules G') = rename_rule f ` set (m_EncodedRules G) \<and>
     (\<forall>s \<in> used_symbols G. m_UniqueGrammarItems G' ! f s = m_UniqueGrammarItems G ! s)"

lemma rename_simps [simp]:
  "m_LeftPart (rename_rule f R) = f (m_LeftPart R)" "rhs (rename_rule f R) = map f (rhs R)"
  "m_OriginalRuleNo (rename_rule f R) = m_OriginalRuleNo R"
  "m_SynMainItemNo (m_RightPart (rename_rule f R)) = m_SynMainItemNo (m_RightPart R)"
  by (simp_all add: rename_rule_def)

lemma rename_key_inj:
  assumes "inj_on f (used_symbols G)" "wf_grammar G"
  shows "inj_on work_rule_key (rename_rule f ` set (m_EncodedRules G))"
proof (rule inj_onI)
  fix x y assume "x \<in> rename_rule f ` set (m_EncodedRules G)" "y \<in> rename_rule f ` set (m_EncodedRules G)"
    and key: "work_rule_key x = work_rule_key y"
  then obtain R Q where R: "R \<in> set (m_EncodedRules G)" "x = rename_rule f R" and Q: "Q \<in> set (m_EncodedRules G)" "y = rename_rule f Q"
    by blast
  have used: "set (rhs R) \<union> set (rhs Q) \<subseteq> used_symbols G" "m_LeftPart R \<in> used_symbols G" "m_LeftPart Q \<in> used_symbols G"
    using R(1) Q(1) by (auto simp: used_symbols_def rule_symbols_def)
  have "map f (rhs R) = map f (rhs Q)" "f (m_LeftPart R) = f (m_LeftPart Q)"
      "m_SynMainItemNo (m_RightPart R) = m_SynMainItemNo (m_RightPart Q)"
    using key unfolding R(2) Q(2) by (simp_all add: key_defs)
  then have "work_rule_key R = work_rule_key Q"
    using used assms(1) inj_on_map_eq_map [OF inj_on_subset [OF assms(1) used(1)]] by (auto simp: key_defs dest: inj_onD)
  moreover have "work_rule.ordered (m_EncodedRules G)" using assms(2) by (simp add: wf_grammar_def)
  ultimately have "R = Q" using work_rule.ordered_distinct_keys R(1) Q(1) by (metis distinct_map inj_onD)
  then show "x = y" using R(2) Q(2) by simp
qed

lemma DeleteUnusedSymbols_spec:
  assumes "wf_grammar G"
  shows "\<exists>f G'. DeleteUnusedSymbols 4 G = Some G' \<and> renamed f G G' \<and> work_rule.ordered (m_EncodedRules G')"
proof -
  obtain S m n where r: "fold renumber_rule (m_EncodedRules G) ([], [], 0) = (S, m, n)" by (metis prod_cases3)
  have "number_map_ok [] 0" by (simp add: number_map_ok_def)
  from renumber_rules_spec [OF this r] have ok: "number_map_ok m n"
    and S: "S = oset_insert_all work_rule_less (map (rename_rule (map_fun_of m)) (m_EncodedRules G)) []"
    and keys: "fst ` set m = used_symbols G" by (simp_all add: used_symbols_def)
  let ?f = "map_fun_of m"
  have val: "(s, ?f s) \<in> set m" if "s \<in> used_symbols G" for s
    using that map_fun_of_eq [OF ok] unfolding keys [symmetric] by auto
  have inj: "inj_on ?f (used_symbols G)"
  proof (rule inj_onI)
    fix s u assume "s \<in> used_symbols G" "u \<in> used_symbols G" "?f s = ?f u"
    then have "(s, ?f s) \<in> set m" "(u, ?f s) \<in> set m" using val by metis+
    moreover have "inj_on snd (set m)" using ok by (simp add: number_map_ok_def)
    ultimately show "s = u" by (metis inj_onD prod.inject snd_conv)
  qed
  have image: "?f ` used_symbols G = {..<n}"
  proof -
    have "?f ` used_symbols G = snd ` set m"
      unfolding keys [symmetric] image_image using map_fun_of_eq [OF ok] by (intro image_cong) auto
    then show ?thesis using ok by (simp add: number_map_ok_def)
  qed
  have rules: "set S = rename_rule ?f ` set (m_EncodedRules G)"
    unfolding S using work_rule.set_insert_all_inj [of "map (rename_rule ?f) (m_EncodedRules G)" "[]"] rename_key_inj [OF inj assms]
    by simp
  have ord: "work_rule.ordered S" unfolding S by (rule work_rule.ordered_insert_all) simp
  let ?items = "fold (\<lambda>(old, new) v. v[new := m_UniqueGrammarItems G ! old]) m (replicate n grammar_item_init)"
  have "distinct m" using ok natset.ordered_distinct distinct_map by (metis number_map_ok_def)
  then have items: "length ?items = n" "\<forall>(old, new) \<in> set m. ?items ! new = m_UniqueGrammarItems G ! old"
    using fill_items [of m "replicate n grammar_item_init" "\<lambda>s. m_UniqueGrammarItems G ! s"] ok by (auto simp: number_map_ok_def)
  let ?G = "G\<lparr>m_EncodedRules := S, m_UniqueGrammarItems := ?items\<rparr>"
  have eq: "DeleteUnusedSymbols 4 G = Some ?G"
    by (simp add: DeleteUnusedSymbols_def update_rules_int r)
  have "\<forall>s \<in> used_symbols G. ?items ! ?f s = m_UniqueGrammarItems G ! s" using items(2) val by fastforce
  then have "renamed ?f G ?G" unfolding renamed_def using inj image rules items(1) by simp
  then show ?thesis using ord eq by (intro exI [of _ ?f] exI [of _ ?G]) simp
qed

lemma renamed_meta:
  assumes "renamed f G G'" "s \<in> used_symbols G" "s < length (m_UniqueGrammarItems G)"
  shows "is_meta G' (f s) \<longleftrightarrow> is_meta G s"
proof -
  have "f s < length (m_UniqueGrammarItems G')" using assms(1,2) by (auto simp: renamed_def)
  then show ?thesis using assms by (simp add: is_meta_def renamed_def)
qed

lemma renamed_wf:
  assumes "renamed f G G'" "wf_grammar G" "work_rule.ordered (m_EncodedRules G')"
  shows "wf_grammar G'"
proof -
  have "distinct (map m_OriginalRuleNo (m_EncodedRules G'))"
  proof -
    have "inj_on m_OriginalRuleNo (set (m_EncodedRules G'))"
    proof (rule inj_onI)
      fix x y assume "x \<in> set (m_EncodedRules G')" "y \<in> set (m_EncodedRules G')" and eq: "m_OriginalRuleNo x = m_OriginalRuleNo y"
      then obtain R Q where "R \<in> set (m_EncodedRules G)" "x = rename_rule f R" "Q \<in> set (m_EncodedRules G)" "y = rename_rule f Q"
        using assms(1) by (auto simp: renamed_def)
      moreover from this have "R = Q" using eq wf_grammar_inj [OF assms(2)] by (auto dest: inj_onD)
      ultimately show "x = y" by simp
    qed
    then show ?thesis using work_rule.ordered_distinct [OF assms(3)] by (simp add: distinct_map)
  qed
  moreover have "wf_rule (m_UniqueGrammarItems G') x" if "x \<in> set (m_EncodedRules G')" for x
  proof -
    obtain R where R: "R \<in> set (m_EncodedRules G)" "x = rename_rule f R" using assms(1) \<open>x \<in> set (m_EncodedRules G')\<close> by (auto simp: renamed_def)
    have used: "m_LeftPart R \<in> used_symbols G" "set (rhs R) \<subseteq> used_symbols G" using R(1) by (auto simp: used_symbols_def rule_symbols_def)
    have "is_meta G' (f (m_LeftPart R))"
      using renamed_meta [OF assms(1) used(1)] wf_grammar_ruleD(2,3) [OF assms(2) R(1)] by simp
    moreover have "\<forall>s \<in> set (rhs R). f s < length (m_UniqueGrammarItems G')" using used(2) assms(1) by (auto simp: renamed_def)
    moreover have "rhs R \<noteq> []" by (rule wf_grammar_ruleD(1) [OF assms(2) R(1)])
    ultimately show ?thesis using R(2) by (auto simp: wf_rule_def is_meta_def list_all_iff)
  qed
  ultimately show ?thesis using assms(3) by (simp add: wf_grammar_def list_all_iff)
qed

lemma renamed_derives:
  assumes "renamed f G G'" "set u \<subseteq> used_symbols G"
  shows "derives G' (map f u) w \<longleftrightarrow> (\<exists>v. w = map f v \<and> set v \<subseteq> used_symbols G \<and> derives G u v)"
proof
  assume "derives G' (map f u) w"
  then show "\<exists>v. w = map f v \<and> set v \<subseteq> used_symbols G \<and> derives G u v"
  proof (induction rule: rtranclp_induct)
    case base
    then show ?case using assms(2) by blast
  next
    case (step y z)
    obtain v where v: "y = map f v" "set v \<subseteq> used_symbols G" "derives G u v" using step.IH by blast
    obtain Q p s where Q: "Q \<in> set (m_EncodedRules G')" "y = p @ m_LeftPart Q # s" "z = p @ rhs Q @ s"
      using step.hyps(2) by (auto simp: derives1_def)
    obtain R where R: "R \<in> set (m_EncodedRules G)" "Q = rename_rule f R" using assms(1) Q(1) by (auto simp: renamed_def)
    have used: "m_LeftPart R \<in> used_symbols G" "set (rhs R) \<subseteq> used_symbols G" using R(1) by (auto simp: used_symbols_def rule_symbols_def)
    have "map f v = p @ (f (m_LeftPart R) # s)" using v(1) Q(2) R(2) by simp
    then obtain a c where ac: "v = a @ c" "map f a = p" "map f c = f (m_LeftPart R) # s" by (auto simp: map_eq_append_conv)
    obtain X b where ab: "v = a @ X # b" "map f a = p" "f X = f (m_LeftPart R)" "map f b = s"
      using ac by (cases c) auto
    have "X = m_LeftPart R" using ab(1,3) v(2) used(1) assms(1) by (auto simp: renamed_def dest: inj_onD)
    then have "derives1 G v (a @ rhs R @ b)" using R(1) ab(1) by (auto simp: derives1_def)
    moreover have "z = map f (a @ rhs R @ b)" using Q(3) R(2) ab by simp
    moreover have "set (a @ rhs R @ b) \<subseteq> used_symbols G" using ab(1) v(2) used(2) by auto
    moreover have "derives G u (a @ rhs R @ b)" using v(3) calculation(1) by (rule rtranclp.rtrancl_into_rtrancl)
    ultimately show ?case by blast
  qed
next
  assume "\<exists>v. w = map f v \<and> set v \<subseteq> used_symbols G \<and> derives G u v"
  then obtain v where v: "w = map f v" "derives G u v" by blast
  have "derives G' (map f u) (map f v)" using v(2)
  proof (induction rule: rtranclp_induct)
    case (step y z)
    obtain R p s where R: "R \<in> set (m_EncodedRules G)" "y = p @ m_LeftPart R # s" "z = p @ rhs R @ s"
      using step.hyps(2) by (auto simp: derives1_def)
    have "rename_rule f R \<in> set (m_EncodedRules G')" using assms(1) R(1) by (auto simp: renamed_def)
    then have "derives1 G' (map f y) (map f z)" unfolding derives1_def using R(2,3)
      by (intro bexI [of _ "rename_rule f R"] exI [of _ "map f p"] exI [of _ "map f s"]) simp_all
    then show ?case using step.IH by (meson rtranclp.rtrancl_into_rtrancl)
  qed simp
  then show "derives G' (map f u) w" using v(1) by simp
qed

text \<open>
  C24. \<^verbatim>\<open>DeleteUnusedSymbols\<close> keeps the grammar up to the names of its symbols where \<^verbatim>\<open>size_t\<close> has the size of an \<^verbatim>\<open>int\<close>:
  there is a bijection from the symbols that occur in rules onto the new numbers such that every symbol keeps its item,
  the rules are the old ones renamed, the grammar is still well formed, and it derives from a form of used symbols exactly
  what the old grammar does, renamed. Where \<^verbatim>\<open>size_t\<close> has 8 bytes the function accesses memory beyond the right part of
  the first rule, for every grammar with a rule.
\<close>

theorem DeleteUnusedSymbols_correct:
  assumes "wf_grammar G"
  shows "(\<exists>G' f. DeleteUnusedSymbols 4 G = Some G' \<and> wf_grammar G' \<and>
       bij_betw f (\<Union>R \<in> set (m_EncodedRules G). insert (m_LeftPart R) (set (rhs R)))
           {..<length (m_UniqueGrammarItems G')} \<and>
       (\<forall>R \<in> set (m_EncodedRules G). \<forall>s \<in> insert (m_LeftPart R) (set (rhs R)).
          m_UniqueGrammarItems G' ! f s = m_UniqueGrammarItems G ! s) \<and>
       set (m_EncodedRules G') = rename_rule f ` set (m_EncodedRules G) \<and>
       (\<forall>u w. set u \<subseteq> (\<Union>R \<in> set (m_EncodedRules G). insert (m_LeftPart R) (set (rhs R))) \<longrightarrow>
          (derives G' (map f u) w \<longleftrightarrow> (\<exists>v. w = map f v \<and> derives G u v)))) \<and>
    (DeleteUnusedSymbols 8 G = None \<longleftrightarrow> m_EncodedRules G \<noteq> [])"
proof (rule conjI)
  obtain f G' where f: "DeleteUnusedSymbols 4 G = Some G'" "renamed f G G'" "work_rule.ordered (m_EncodedRules G')"
    using DeleteUnusedSymbols_spec [OF assms] by blast
  have used: "used_symbols G = (\<Union>R \<in> set (m_EncodedRules G). insert (m_LeftPart R) (set (rhs R)))"
    by (simp add: used_symbols_def rule_symbols_def)
  have stays: "set v \<subseteq> used_symbols G" if "derives G u v" "set u \<subseteq> used_symbols G" for u v
    using that
  proof (induction rule: rtranclp_induct)
    case (step y z)
    have "set z \<subseteq> set y \<union> used_symbols G"
      using step.hyps(2) by (auto simp: derives1_def used_symbols_def rule_symbols_def)
    then show ?case using step by blast
  qed
  show "\<exists>G' f. DeleteUnusedSymbols 4 G = Some G' \<and> wf_grammar G' \<and>
       bij_betw f (\<Union>R \<in> set (m_EncodedRules G). insert (m_LeftPart R) (set (rhs R)))
           {..<length (m_UniqueGrammarItems G')} \<and>
       (\<forall>R \<in> set (m_EncodedRules G). \<forall>s \<in> insert (m_LeftPart R) (set (rhs R)).
          m_UniqueGrammarItems G' ! f s = m_UniqueGrammarItems G ! s) \<and>
       set (m_EncodedRules G') = rename_rule f ` set (m_EncodedRules G) \<and>
       (\<forall>u w. set u \<subseteq> (\<Union>R \<in> set (m_EncodedRules G). insert (m_LeftPart R) (set (rhs R))) \<longrightarrow>
          (derives G' (map f u) w \<longleftrightarrow> (\<exists>v. w = map f v \<and> derives G u v)))"
    unfolding used [symmetric]
  proof (intro conjI exI [of _ f] exI [of _ G'])
    show "DeleteUnusedSymbols 4 G = Some G'" by (rule f(1))
    show "wf_grammar G'" by (rule renamed_wf [OF f(2) assms f(3)])
    show "bij_betw f (used_symbols G) {..<length (m_UniqueGrammarItems G')}"
      using f(2) by (simp add: renamed_def bij_betw_def)
    show "\<forall>R \<in> set (m_EncodedRules G). \<forall>s \<in> insert (m_LeftPart R) (set (rhs R)).
          m_UniqueGrammarItems G' ! f s = m_UniqueGrammarItems G ! s"
      using f(2) unfolding renamed_def used by blast
    show "set (m_EncodedRules G') = rename_rule f ` set (m_EncodedRules G)" using f(2) by (simp add: renamed_def)
    show "\<forall>u w. set u \<subseteq> used_symbols G \<longrightarrow> (derives G' (map f u) w \<longleftrightarrow> (\<exists>v. w = map f v \<and> derives G u v))"
      using renamed_derives [OF f(2)] stays by blast
  qed
  show "DeleteUnusedSymbols 8 G = None \<longleftrightarrow> m_EncodedRules G \<noteq> []"
  proof (cases "m_EncodedRules G")
    case (Cons R Rs)
    then have "rhs R \<noteq> []" using wf_grammar_ruleD(1) [OF assms] by simp
    then show ?thesis using Cons by (simp add: DeleteUnusedSymbols_def update_rule_beyond)
  qed (simp add: DeleteUnusedSymbols_def)
qed

definition sample_unused :: CWorkGrammar where
  "sample_unused = work_grammar_init\<lparr>
     m_UniqueGrammarItems := [sample_b, sample_S, sample_a],
     m_EncodedRules := [sample_rule 0 1 [2]]\<rparr>"

theorem DeleteUnusedSymbols_correct_witness:
  "wf_grammar sample_unused \<and> DeleteUnusedSymbols 8 sample_unused = None \<and>
   (\<exists>G'. DeleteUnusedSymbols 4 sample_unused = Some G' \<and> wf_grammar G' \<and>
     m_UniqueGrammarItems G' = [sample_S, sample_a] \<and> m_EncodedRules G' = [sample_rule 0 0 [1]])"
proof -
  have wf: "wf_grammar sample_unused" by code_simp
  have "map_option m_UniqueGrammarItems (DeleteUnusedSymbols 4 sample_unused) = Some [sample_S, sample_a]"
    "map_option m_EncodedRules (DeleteUnusedSymbols 4 sample_unused) = Some [sample_rule 0 0 [1]]" by code_simp+
  moreover have "m_EncodedRules sample_unused \<noteq> []" by (simp add: sample_unused_def)
  ultimately show ?thesis using DeleteUnusedSymbols_correct [OF wf] wf by auto
qed

end
