(* ===== verification/LR0.thy ===== *)
theory LR0
  imports GLRCorrect RootPrefixes
begin

text \<open>
  The LR(0) table and parser of \<^verbatim>\<open>afglrparserlib/lr0.h\<close> and \<^verbatim>\<open>lr0.cpp\<close>. The grammar that \<^verbatim>\<open>CLR0Table\<close> points to is an
  argument. A period is the pair of its ends in the item that inherits it. An operation is \<open>None\<close> where an
  assertion of the source fails.
\<close>

section \<open>The table\<close>

record CTableItem =
  m_GotoState :: int
  ti_pReduceRule :: "CWorkRule option"

definition table_item_init :: CTableItem where
  "table_item_init = \<lparr>m_GotoState = - 1, ti_pReduceRule = None\<rparr>"

record CLR0Table =
  m_ParsingTable :: "CTableItem list list"

text \<open>The inner loop of \<^verbatim>\<open>InitReduceActions\<close>; \<open>None\<close> is \<^verbatim>\<open>return false\<close>.\<close>

fun put_reduce_rule :: "CWorkRule \<Rightarrow> CTableItem list \<Rightarrow> CTableItem list option" where
  "put_reduce_rule r [] = Some []"
| "put_reduce_rule r (c # cs) =
     (if m_GotoState c \<noteq> - 1 then None
      else map_option (Cons (c\<lparr>ti_pReduceRule := Some r\<rparr>)) (put_reduce_rule r cs))"

fun InitReduceActions ::
  "('a CWorkGrammar_scheme) \<Rightarrow> CLRItem list \<Rightarrow> CTableItem list \<Rightarrow> CTableItem list option" where
  "InitReduceActions G [] NewState = Some NewState"
| "InitReduceActions G (it # ItemSet) NewState =
     (if IsFinished it \<and> m_LeftPart (m_pRule it) + 1 \<noteq> length (m_UniqueGrammarItems G)
      then case put_reduce_rule (m_pRule it) NewState of
             None \<Rightarrow> None
           | Some NewState \<Rightarrow> InitReduceActions G ItemSet NewState
      else InitReduceActions G ItemSet NewState)"

text \<open>The loop over the symbols of a state; \<open>None\<close> is the reduce/reduce conflict.\<close>

fun put_gotos :: "CLRCollectionSet \<Rightarrow> nat \<Rightarrow> symbol list \<Rightarrow> CTableItem list \<Rightarrow> CTableItem list option" where
  "put_gotos S i [] NewState = Some NewState"
| "put_gotos S i (SymbolNo # Symbols) NewState =
     (case GetGotoValue SymbolNo i S of
        None \<Rightarrow> put_gotos S i Symbols NewState
      | Some Target \<Rightarrow>
          if m_GotoState (NewState ! SymbolNo) \<noteq> - 1 then None
          else put_gotos S i Symbols
                 (NewState[SymbolNo := (NewState ! SymbolNo)\<lparr>m_GotoState := int Target\<rparr>]))"

fun build_states ::
  "('a CWorkGrammar_scheme) \<Rightarrow> CLRCollectionSet \<Rightarrow> nat list \<Rightarrow> CTableItem list list
     \<Rightarrow> bool \<times> CTableItem list list" where
  "build_states G S [] Table = (True, Table)"
| "build_states G S (i # States) Table =
     (case put_gotos S i [0..<length (m_UniqueGrammarItems G)]
             (replicate (length (m_UniqueGrammarItems G)) table_item_init) of
        None \<Rightarrow> (False, Table)
      | Some NewState \<Rightarrow>
          (case InitReduceActions G (m_ItemSets S ! i) NewState of
             None \<Rightarrow> (False, Table)
           | Some NewState \<Rightarrow> build_states G S States (Table @ [NewState])))"

definition BuildLRTable :: "('a CWorkGrammar_scheme) \<Rightarrow> (bool \<times> CLR0Table) option" where
  "BuildLRTable G =
     map_option (\<lambda>S. let (ok, Table) = build_states G S [0..<length (m_ItemSets S)] []
                     in (ok, \<lparr>m_ParsingTable = Table\<rparr>)) (Compute G)"

section \<open>The parser\<close>

record CLR0StackItem =
  stk_Start :: nat
  stk_End :: nat
  stk_StateNo :: nat

record CLR0OutputItem =
  out_Start :: nat
  out_End :: nat
  out_pRule :: CWorkRule

record CLR0Parser =
  m_StateStack :: "CLR0StackItem list"
  m_Output :: "CLR0OutputItem list"

definition lr0_parser_at :: "nat \<Rightarrow> CLR0Parser" where
  "lr0_parser_at Offset =
     \<lparr>m_StateStack = [\<lparr>stk_Start = Offset, stk_End = Offset, stk_StateNo = 0\<rparr>], m_Output = []\<rparr>"

definition lr0_parser :: CLR0Parser where
  "lr0_parser = \<lparr>m_StateStack = [\<lparr>stk_Start = 0, stk_End = 0, stk_StateNo = 0\<rparr>], m_Output = []\<rparr>"

definition ShiftAction :: "nat \<Rightarrow> symbol \<Rightarrow> CLR0Table \<Rightarrow> CLR0Parser \<Rightarrow> (bool \<times> CLR0Parser) option" where
  "ShiftAction InputSymbolOffset InputSymbol LR0Table P =
     (if m_StateStack P = [] then None
      else let State = stk_StateNo (last (m_StateStack P)); ParsingTable = m_ParsingTable LR0Table
        in if \<not> State < length ParsingTable \<or> \<not> InputSymbol < length (ParsingTable ! State) then None
           else let T = ParsingTable ! State ! InputSymbol
             in if m_GotoState T = - 1 then Some (False, P)
                else Some (True, P\<lparr>m_StateStack := m_StateStack P @
                       [\<lparr>stk_Start = InputSymbolOffset, stk_End = InputSymbolOffset + 1,
                         stk_StateNo = nat (m_GotoState T)\<rparr>]\<rparr>))"

definition ReduceAction :: "CLR0Table \<Rightarrow> CLR0Parser \<Rightarrow> CLR0Parser option" where
  "ReduceAction LR0Table P =
     (if m_StateStack P = [] then None
      else let ParsingTable = m_ParsingTable LR0Table;
               InputSymbolOffset = stk_End (last (m_StateStack P));
               State = stk_StateNo (last (m_StateStack P))
        in if \<not> State < length ParsingTable \<or> ParsingTable ! State = [] then None
           else case ti_pReduceRule (ParsingTable ! State ! 0) of
                  None \<Rightarrow> None
                | Some rule \<Rightarrow>
                    let RuleSize = length (rhs rule)
                    in if \<not> RuleSize < length (m_StateStack P) then None
                       else let Stack = take (length (m_StateStack P) - RuleSize) (m_StateStack P);
                                OutputItem = \<lparr>out_Start = stk_End (last Stack), out_End = InputSymbolOffset, out_pRule = rule\<rparr>;
                                T1 = ParsingTable ! stk_StateNo (last Stack) ! m_LeftPart rule
                            in if m_GotoState T1 = - 1 then None
                               else Some \<lparr>m_StateStack = Stack @
                                        [\<lparr>stk_Start = stk_End (last Stack), stk_End = InputSymbolOffset,
                                          stk_StateNo = nat (m_GotoState T1)\<rparr>],
                                      m_Output = m_Output P @ [OutputItem]\<rparr>)"

definition ShouldReduce :: "CLR0Table \<Rightarrow> CLR0Parser \<Rightarrow> bool option" where
  "ShouldReduce LR0Table P =
     (let State = stk_StateNo (last (m_StateStack P)); ParsingTable = m_ParsingTable LR0Table
      in if ParsingTable ! State = [] then None
         else Some (ti_pReduceRule (ParsingTable ! State ! 0) \<noteq> None))"

text \<open>
  The parser is driven from outside: it reduces when \<^verbatim>\<open>ShouldReduce\<close> says so, and is given the next symbol of the
  input otherwise. A state is the input read so far and the parser.
\<close>

inductive lr0_step :: "CLR0Table \<Rightarrow> nat \<Rightarrow> symbol list \<times> CLR0Parser \<Rightarrow> symbol list \<times> CLR0Parser \<Rightarrow> bool"
  for T :: CLR0Table and Offset :: nat where
  lr0_shift: "ShiftAction (Offset + length w) X T P = Some (True, P') \<Longrightarrow> lr0_step T Offset (w, P) (w @ [X], P')"
| lr0_reduce: "ShouldReduce T P = Some True \<Longrightarrow> ReduceAction T P = Some P' \<Longrightarrow> lr0_step T Offset (w, P) (w, P')"

section \<open>The table of a grammar\<close>

text \<open>The items that ask for a reduction in a state: finished, but not the rule of the new root.\<close>

definition reduce_items :: "('a CWorkGrammar_scheme) \<Rightarrow> CLRItem list \<Rightarrow> CLRItem list" where
  "reduce_items G = filter (\<lambda>it. IsFinished it \<and> m_LeftPart (m_pRule it) + 1 \<noteq> length (m_UniqueGrammarItems G))"

lemma put_reduce_rule_Some:
  "put_reduce_rule r cs =
     (if \<forall>c \<in> set cs. m_GotoState c = - 1 then Some (map (\<lambda>c. c\<lparr>ti_pReduceRule := Some r\<rparr>) cs) else None)"
  by (induction cs) auto

lemma InitReduceActions_Some:
  "InitReduceActions G its cs =
     (if reduce_items G its = [] then Some cs
      else if \<forall>c \<in> set cs. m_GotoState c = - 1
      then Some (map (\<lambda>c. c\<lparr>ti_pReduceRule := Some (m_pRule (last (reduce_items G its)))\<rparr>) cs) else None)"
  by (induction its arbitrary: cs) (auto simp: reduce_items_def put_reduce_rule_Some o_def)

definition goto_int :: "CLRCollectionSet \<Rightarrow> nat \<Rightarrow> symbol \<Rightarrow> int" where
  "goto_int S i X = (case GetGotoValue X i S of None \<Rightarrow> - 1 | Some j \<Rightarrow> int j)"

lemma put_gotos_Some:
  assumes "distinct Xs" "\<forall>X \<in> set Xs. X < length cs \<and> m_GotoState (cs ! X) = - 1"
  shows "\<exists>cs'. put_gotos S i Xs cs = Some cs' \<and> length cs' = length cs \<and>
    (\<forall>X < length cs. cs' ! X = (if X \<in> set Xs then (cs ! X)\<lparr>m_GotoState := goto_int S i X\<rparr> else cs ! X))"
  using assms
proof (induction Xs arbitrary: cs)
  case (Cons X Xs)
  show ?case
  proof (cases "GetGotoValue X i S")
    case None
    obtain cs' where cs': "put_gotos S i Xs cs = Some cs'" "length cs' = length cs"
      "\<forall>Y < length cs. cs' ! Y = (if Y \<in> set Xs then (cs ! Y)\<lparr>m_GotoState := goto_int S i Y\<rparr> else cs ! Y)"
      using Cons.IH [of cs] Cons.prems by auto
    have "(cs ! X)\<lparr>m_GotoState := goto_int S i X\<rparr> = cs ! X"
      using Cons.prems(2) None by (simp add: goto_int_def)
    then show ?thesis using cs' None Cons.prems(1) by auto
  next
    case (Some j)
    let ?cs = "cs[X := (cs ! X)\<lparr>m_GotoState := int j\<rparr>]"
    have "\<forall>Y \<in> set Xs. Y < length ?cs \<and> m_GotoState (?cs ! Y) = - 1"
      using Cons.prems by (auto simp: nth_list_update)
    then obtain cs' where cs': "put_gotos S i Xs ?cs = Some cs'" "length cs' = length cs"
      "\<forall>Y < length cs. cs' ! Y = (if Y \<in> set Xs then (?cs ! Y)\<lparr>m_GotoState := goto_int S i Y\<rparr> else ?cs ! Y)"
      using Cons.IH [of ?cs] Cons.prems(1) by auto
    show ?thesis
      using cs' Some Cons.prems by (auto simp: nth_list_update goto_int_def)
  qed
qed auto

text \<open>A state whose line can be filled: no symbol can be shifted where a rule is to be reduced.\<close>

definition lr0_conflict :: "('a CWorkGrammar_scheme) \<Rightarrow> CLRCollectionSet \<Rightarrow> nat \<Rightarrow> bool" where
  "lr0_conflict G S i \<longleftrightarrow> reduce_items G (m_ItemSets S ! i) \<noteq> [] \<and>
     (\<exists>X < length (m_UniqueGrammarItems G). GetGotoValue X i S \<noteq> None)"

definition lr0_cell :: "('a CWorkGrammar_scheme) \<Rightarrow> CLRCollectionSet \<Rightarrow> nat \<Rightarrow> symbol \<Rightarrow> CTableItem" where
  "lr0_cell G S i X = \<lparr>m_GotoState = goto_int S i X,
     ti_pReduceRule = (case reduce_items G (m_ItemSets S ! i) of [] \<Rightarrow> None
       | its \<Rightarrow> Some (m_pRule (last its)))\<rparr>"

lemma state_line:
  obtains cs where "put_gotos S i [0..<length (m_UniqueGrammarItems G)]
      (replicate (length (m_UniqueGrammarItems G)) table_item_init) = Some cs"
    and "InitReduceActions G (m_ItemSets S ! i) cs =
      (if lr0_conflict G S i then None else Some (map (lr0_cell G S i) [0..<length (m_UniqueGrammarItems G)]))"
proof -
  let ?n = "length (m_UniqueGrammarItems G)"
  obtain cs where cs: "put_gotos S i [0..<?n] (replicate ?n table_item_init) = Some cs" "length cs = ?n"
    "\<forall>X < ?n. cs ! X = table_item_init\<lparr>m_GotoState := goto_int S i X\<rparr>"
    using put_gotos_Some [of "[0..<?n]" "replicate ?n table_item_init" S i] by (auto simp: table_item_init_def)
  have eq: "cs = map (\<lambda>X. table_item_init\<lparr>m_GotoState := goto_int S i X\<rparr>) [0..<?n]"
    using cs(2,3) by (intro nth_equalityI) auto
  have "(\<forall>c \<in> set cs. m_GotoState c = - 1) \<longleftrightarrow> (\<forall>X < ?n. GetGotoValue X i S = None)"
    unfolding eq by (auto simp: goto_int_def split: option.splits)
  then have "InitReduceActions G (m_ItemSets S ! i) cs =
      (if lr0_conflict G S i then None else Some (map (lr0_cell G S i) [0..<?n]))"
    unfolding InitReduceActions_Some lr0_conflict_def
    by (auto simp: eq lr0_cell_def table_item_init_def goto_int_def split: list.splits)
  with cs(1) show ?thesis by (rule that)
qed

lemma build_states_eq:
  "build_states G S is Table =
     (let good = takeWhile (\<lambda>i. \<not> lr0_conflict G S i) is
      in (good = is, Table @ map (\<lambda>i. map (lr0_cell G S i) [0..<length (m_UniqueGrammarItems G)]) good))"
proof (induction "is" arbitrary: Table)
  case (Cons i "is")
  show ?case
    by (rule state_line [of S i G]) (simp add: Cons.IH Let_def)
qed simp

lemma BuildLRTable_eq:
  assumes "Compute G = Some S"
  shows "\<exists>ok T. BuildLRTable G = Some (ok, T) \<and> (ok \<longleftrightarrow> (\<forall>i < length (m_ItemSets S). \<not> lr0_conflict G S i)) \<and>
    (ok \<longrightarrow> m_ParsingTable T =
       map (\<lambda>i. map (lr0_cell G S i) [0..<length (m_UniqueGrammarItems G)]) [0..<length (m_ItemSets S)])"
proof -
  let ?is = "[0..<length (m_ItemSets S)]"
  have tw: "takeWhile (\<lambda>i. \<not> lr0_conflict G S i) ?is = ?is \<longleftrightarrow> (\<forall>i < length (m_ItemSets S). \<not> lr0_conflict G S i)"
    by (simp add: takeWhile_eq_all_conv Ball_def)
  let ?t = "takeWhile (\<lambda>i. \<not> lr0_conflict G S i) ?is"
    and ?f = "map (\<lambda>i. map (lr0_cell G S i) [0..<length (m_UniqueGrammarItems G)])"
  have "BuildLRTable G = Some (?t = ?is, \<lparr>m_ParsingTable = ?f ?t\<rparr>)"
    by (simp add: BuildLRTable_def build_states_eq assms Let_def)
  moreover have "?t = ?is \<longrightarrow> m_ParsingTable \<lparr>m_ParsingTable = ?f ?t\<rparr> = ?f ?is"
    unfolding CLR0Table.select_convs by (rule impI, erule arg_cong)
  ultimately show ?thesis using tw by blast
qed

section \<open>The automaton behind the table\<close>

text \<open>A grammar whose table was built, with its collection.\<close>

definition lr0_grammar :: "('a CWorkGrammar_scheme) \<Rightarrow> CLRCollectionSet \<Rightarrow> CLR0Table \<Rightarrow> bool" where
  "lr0_grammar G S T \<longleftrightarrow> augmented G \<and> Compute G = Some S \<and> BuildLRTable G = Some (True, T)"

lemma lr0_grammarD:
  assumes "lr0_grammar G S T"
  shows "wf_grammar G" and "augmented G"
    and "collection_inv G (goto_pairs (GetEndOfStreamSymbol G) S (length (m_ItemSets S))) S"
    and "m_ParsingTable T = map (\<lambda>i. map (lr0_cell G S i) [0..<length (m_UniqueGrammarItems G)]) [0..<length (m_ItemSets S)]"
    and "i < length (m_ItemSets S) \<Longrightarrow> reduce_items G (m_ItemSets S ! i) \<noteq> [] \<Longrightarrow>
      X < length (m_UniqueGrammarItems G) \<Longrightarrow> GetGotoValue X i S = None"
    and "0 < length (m_UniqueGrammarItems G)"
proof -
  have aug: "augmented G" and S: "Compute G = Some S" and B: "BuildLRTable G = Some (True, T)"
    using assms by (simp_all add: lr0_grammar_def)
  show "augmented G" by (rule aug)
  show "wf_grammar G" "0 < length (m_UniqueGrammarItems G)" using aug by (auto simp: augmented_def)
  show "collection_inv G (goto_pairs (GetEndOfStreamSymbol G) S (length (m_ItemSets S))) S"
    using Compute_spec [of G] augmented_wf(1,2) [OF aug] S by auto
  show "m_ParsingTable T = map (\<lambda>i. map (lr0_cell G S i) [0..<length (m_UniqueGrammarItems G)]) [0..<length (m_ItemSets S)]"
    using BuildLRTable_eq [OF S] B by auto
  have "\<forall>i < length (m_ItemSets S). \<not> lr0_conflict G S i" using BuildLRTable_eq [OF S] B by auto
  then show "i < length (m_ItemSets S) \<Longrightarrow> reduce_items G (m_ItemSets S ! i) \<noteq> [] \<Longrightarrow>
      X < length (m_UniqueGrammarItems G) \<Longrightarrow> GetGotoValue X i S = None"
    by (auto simp: lr0_conflict_def)
qed

text \<open>The goto function of a collection, from its invariant.\<close>

lemma goto_SomeD:
  assumes inv: "collection_inv G D S" and g: "GetGotoValue X i S = Some j"
  shows "i < length (m_ItemSets S)" "j < length (m_ItemSets S)" "lr_kernel (item_set S i) X \<noteq> {}"
    "item_set S j = lr_closure G (lr_kernel (item_set S i) X)"
  using assms unfolding collection_inv_def lr_target_def by blast+

lemma goto_item_back:
  assumes "collection_inv G D S" "GetGotoValue X i S = Some j" "it \<in> item_set S j" "m_DotSymbolNo it \<noteq> 0"
  shows "\<exists>it' \<in> item_set S i. \<not> IsFinished it' \<and> GetSymbolNo it' = X \<and> it = advance it'"
proof -
  have "it \<in> lr_closure G (lr_kernel (item_set S i) X)" using goto_SomeD(4) [OF assms(1,2)] assms(3) by simp
  from closure_dots [OF this] have "it \<in> lr_kernel (item_set S i) X" using assms(4) by simp
  then show ?thesis by (auto simp: lr_kernel_def)
qed

lemma goto_item_forth:
  assumes "collection_inv G D S" "GetGotoValue X i S = Some j" "it \<in> item_set S i" "\<not> IsFinished it" "GetSymbolNo it = X"
  shows "advance it \<in> item_set S j"
  unfolding goto_SomeD(4) [OF assms(1,2)] by (rule closure_base) (use assms(3-5) in \<open>auto simp: lr_kernel_def\<close>)

lemma collection_rule:
  assumes "collection_inv G D S" "i < length (m_ItemSets S)" "it \<in> item_set S i"
  shows "m_pRule it \<in> set (m_EncodedRules G)" "m_DotSymbolNo it \<le> length (rhs (m_pRule it))"
  using assms by (auto simp: collection_inv_def grammar_lr_items_def)

lemma collection_start_dot:
  assumes "collection_inv G D S" "it \<in> item_set S 0"
  shows "m_DotSymbolNo it = 0"
proof -
  have "it \<in> lr_closure G (start_items G (GetNewRoot G))" using assms by (simp add: collection_inv_def)
  then show ?thesis using closure_dots by (fastforce simp: start_items_def)
qed

text \<open>A state is closed: before a nonterminal all its rules are there with the dot in front.\<close>

lemma collection_closed:
  assumes inv: "collection_inv G D S" and i: "i < length (m_ItemSets S)"
    and it: "it \<in> item_set S i" "\<not> IsFinished it" "GetSymbolNo it = m_LeftPart r" "is_meta G (m_LeftPart r)"
    and r: "r \<in> set (m_EncodedRules G)"
  shows "\<lparr>m_pRule = r, m_DotSymbolNo = 0\<rparr> \<in> item_set S i"
proof -
  obtain J where J: "item_set S i = lr_closure G J" using collection_item_set [OF inv i] by blast
  show ?thesis using it r unfolding J by (intro closure_step [of it]) auto
qed

text \<open>There is a goto for the left part of every rule that is begun in a state.\<close>

lemma collection_left:
  assumes aug: "augmented G" and inv: "collection_inv G (goto_pairs (GetEndOfStreamSymbol G) S (length (m_ItemSets S))) S"
    and i: "i < length (m_ItemSets S)"
    and it: "it \<in> item_set S i" "m_DotSymbolNo it = 0" "m_LeftPart (m_pRule it) \<noteq> GetNewRoot G"
  shows "\<exists>j. GetGotoValue (m_LeftPart (m_pRule it)) i S = Some j"
proof -
  obtain J where J: "item_set S i = lr_closure G J" "\<forall>it \<in> J. m_DotSymbolNo it \<noteq> 0 \<or> m_LeftPart (m_pRule it) = GetNewRoot G"
    using collection_item_set [OF inv i] by blast
  then obtain it0 where it0: "it0 \<in> item_set S i" "\<not> IsFinished it0" "is_meta G (GetSymbolNo it0)"
    "GetSymbolNo it0 = m_LeftPart (m_pRule it)"
    using closure_from_item [of it G J] it by auto
  have "GetSymbolNo it0 \<noteq> GetEndOfStreamSymbol G" using it0(3) aug by (auto simp: augmented_def)
  then show ?thesis using collection_goto_Some [OF inv i it0(1,2)] it0(4) by auto
qed

lemma collection_state_0: "collection_inv G D S \<Longrightarrow> 0 < length (m_ItemSets S)"
  by (simp add: collection_inv_def)

lemma goto_symbol:
  assumes wf: "wf_grammar G" and inv: "collection_inv G D S" and g: "GetGotoValue X i S = Some j"
  shows "X < length (m_UniqueGrammarItems G)"
proof -
  note d = goto_SomeD [OF inv g]
  obtain it where it: "it \<in> item_set S i" "\<not> IsFinished it" "GetSymbolNo it = X"
    using d(3) by (auto simp: lr_kernel_def)
  note r = collection_rule [OF inv d(1) it(1)]
  have "m_DotSymbolNo it < length (rhs (m_pRule it))" using r(2) it(2) by (simp add: IsFinished_def)
  then have "X \<in> set (rhs (m_pRule it))" using it(3) by (auto simp: GetSymbolNo_def)
  then show ?thesis using wf_grammar_ruleD(4) [OF wf r(1)] by simp
qed

section \<open>What the parser has read\<close>

text \<open>
  A stack that the parser can have after the input \<open>w\<close>: from state 0 on, every item is reached from the one below
  it by a symbol that derives the part of the input between its ends.
\<close>

inductive stack_run ::
  "('a CWorkGrammar_scheme) \<Rightarrow> CLRCollectionSet \<Rightarrow> nat \<Rightarrow> CLR0StackItem list \<Rightarrow> symbol list \<Rightarrow> bool"
  for G :: "'a CWorkGrammar_scheme" and S :: CLRCollectionSet and Offset :: nat where
  run_start: "stack_run G S Offset [\<lparr>stk_Start = Offset, stk_End = Offset, stk_StateNo = 0\<rparr>] []"
| run_push: "stack_run G S Offset ss w \<Longrightarrow> GetGotoValue X (stk_StateNo (last ss)) S = Some j \<Longrightarrow> derives G [X] v \<Longrightarrow>
    stack_run G S Offset (ss @ [\<lparr>stk_Start = Offset + length w, stk_End = Offset + length w + length v, stk_StateNo = j\<rparr>]) (w @ v)"

lemma stack_run_top:
  assumes "stack_run G S Offset ss w" "collection_inv G D S"
  shows "ss \<noteq> []" "stk_End (last ss) = Offset + length w" "stk_StateNo (last ss) < length (m_ItemSets S)"
  using assms(1)
proof (induction rule: stack_run.induct)
  case run_start
  { case 3 show ?case using collection_state_0 [OF assms(2)] by simp }
qed (use goto_SomeD(2) [OF assms(2)] in auto)

text \<open>Below an item of the top state lie the symbols before its dot, over the state in which its rule was begun.\<close>

lemma stack_run_item:
  assumes inv: "collection_inv G D S" and "stack_run G S Offset ss w" "\<lparr>m_pRule = r, m_DotSymbolNo = d\<rparr> \<in> item_set S (stk_StateNo (last ss))"
  shows "\<exists>ss0 ts w0 v. ss = ss0 @ ts \<and> length ts = d \<and> w = w0 @ v \<and> stack_run G S Offset ss0 w0 \<and>
    derives G (take d (rhs r)) v \<and> \<lparr>m_pRule = r, m_DotSymbolNo = 0\<rparr> \<in> item_set S (stk_StateNo (last ss0))"
  using assms(2,3)
proof (induction d arbitrary: ss w)
  case 0
  then show ?case by (intro exI [of _ ss] exI [of _ "[]"] exI [of _ w]) simp
next
  case (Suc d)
  from Suc.prems(1) show ?case
  proof cases
    case run_start
    then show ?thesis using collection_start_dot [OF inv] Suc.prems(2) by fastforce
  next
    case (run_push ss' w' X j v')
    have "\<lparr>m_pRule = r, m_DotSymbolNo = Suc d\<rparr> \<in> item_set S j" using Suc.prems(2) run_push(1) by simp
    from goto_item_back [OF inv run_push(4) this] obtain it' where it': "it' \<in> item_set S (stk_StateNo (last ss'))"
      "\<not> IsFinished it'" "GetSymbolNo it' = X" "\<lparr>m_pRule = r, m_DotSymbolNo = Suc d\<rparr> = advance it'" by auto
    have eq: "it' = \<lparr>m_pRule = r, m_DotSymbolNo = d\<rparr>" using it'(4) by (cases it') (simp add: advance_def)
    obtain ss0 ts w0 v where IH: "ss' = ss0 @ ts" "length ts = d" "w' = w0 @ v" "stack_run G S Offset ss0 w0"
      "derives G (take d (rhs r)) v" "\<lparr>m_pRule = r, m_DotSymbolNo = 0\<rparr> \<in> item_set S (stk_StateNo (last ss0))"
      using Suc.IH [OF run_push(3)] it'(1) unfolding eq by blast
    have len: "d < length (rhs r)"
      using collection_rule(2) [OF inv stack_run_top(3) [OF run_push(3) inv] it'(1)] it'(2) by (simp add: eq IsFinished_def)
    then have "take (Suc d) (rhs r) = take d (rhs r) @ [X]"
      using it'(3) by (simp add: eq GetSymbolNo_def take_Suc_conv_app_nth)
    moreover have "derives G (take d (rhs r) @ [X]) (v @ [X])" using derives_context [OF IH(5), of "[]" "[X]"] by simp
    moreover have "derives G (v @ [X]) (v @ v')" using derives_context [OF run_push(5), of v "[]"] by simp
    ultimately have "derives G (take (Suc d) (rhs r)) (v @ v')" using derives_trans by metis
    then show ?thesis
      using IH run_push(1,2) by (intro exI [of _ ss0] exI [of _ "ts @ [last ss]"] exI [of _ w0] exI [of _ "v @ v'"]) simp
  qed
qed

lemma lr0_cell_at:
  assumes "lr0_grammar G S T" "i < length (m_ItemSets S)" "X < length (m_UniqueGrammarItems G)"
  shows "m_ParsingTable T ! i ! X = lr0_cell G S i X" "length (m_ParsingTable T) = length (m_ItemSets S)"
    "length (m_ParsingTable T ! i) = length (m_UniqueGrammarItems G)"
  using lr0_grammarD(4) [OF assms(1)] assms(2,3) by simp_all

lemma ShiftAction_eq:
  assumes g: "lr0_grammar G S T" and run: "stack_run G S Offset (m_StateStack P) w" and X: "X < length (m_UniqueGrammarItems G)"
  shows "ShiftAction k X T P = Some (case GetGotoValue X (stk_StateNo (last (m_StateStack P))) S of
      None \<Rightarrow> (False, P)
    | Some j \<Rightarrow> (True, P\<lparr>m_StateStack := m_StateStack P @ [\<lparr>stk_Start = k, stk_End = k + 1, stk_StateNo = j\<rparr>]\<rparr>))"
proof -
  note top = stack_run_top [OF run lr0_grammarD(3) [OF g]]
  show ?thesis
    using top(1,3) X lr0_cell_at [OF g top(3) X]
    by (simp add: ShiftAction_def Let_def lr0_cell_def goto_int_def split: option.splits)
qed

lemma ShouldReduce_eq:
  assumes g: "lr0_grammar G S T" and run: "stack_run G S Offset (m_StateStack P) w"
  shows "ShouldReduce T P = Some (reduce_items G (m_ItemSets S ! stk_StateNo (last (m_StateStack P))) \<noteq> [])"
proof -
  note top = stack_run_top [OF run lr0_grammarD(3) [OF g]]
  note cell = lr0_cell_at [OF g top(3) lr0_grammarD(6) [OF g]]
  then have "m_ParsingTable T ! stk_StateNo (last (m_StateStack P)) \<noteq> []" using lr0_grammarD(6) [OF g] by auto
  then show ?thesis
    using cell(1) by (simp add: ShouldReduce_def Let_def lr0_cell_def split: list.splits)
qed

lemma reduce_items_root:
  "reduce_items G its = filter (\<lambda>it. IsFinished it \<and> m_LeftPart (m_pRule it) \<noteq> GetNewRoot G) its"
  if "0 < length (m_UniqueGrammarItems G)"
  unfolding reduce_items_def GetNewRoot_def using that by (intro filter_cong) auto

lemma reduce_item_shape:
  assumes "lr0_grammar G S T" "i < length (m_ItemSets S)" "it \<in> set (reduce_items G (m_ItemSets S ! i))"
  shows "\<lparr>m_pRule = m_pRule it, m_DotSymbolNo = length (rhs (m_pRule it))\<rparr> \<in> item_set S i"
    "m_LeftPart (m_pRule it) \<noteq> GetNewRoot G"
proof -
  have *: "it \<in> item_set S i" "IsFinished it" "m_LeftPart (m_pRule it) \<noteq> GetNewRoot G"
    using assms(3) unfolding reduce_items_root [OF lr0_grammarD(6) [OF assms(1)]] by auto
  have "\<lparr>m_pRule = m_pRule it, m_DotSymbolNo = length (rhs (m_pRule it))\<rparr> = it"
    using *(2) by (cases it) (simp add: IsFinished_def)
  then show "\<lparr>m_pRule = m_pRule it, m_DotSymbolNo = length (rhs (m_pRule it))\<rparr> \<in> item_set S i"
    using *(1) by simp
  show "m_LeftPart (m_pRule it) \<noteq> GetNewRoot G" by (rule *(3))
qed

text \<open>A reduction takes the symbols of its rule from the stack, and finds the goto for its left part.\<close>

lemma ReduceAction_eq:
  assumes g: "lr0_grammar G S T" and run: "stack_run G S Offset (m_StateStack P) w"
    and red: "reduce_items G (m_ItemSets S ! stk_StateNo (last (m_StateStack P))) = its" "its \<noteq> []" "r = m_pRule (last its)"
  shows "\<exists>ss0 ts w0 v j. m_StateStack P = ss0 @ ts \<and> length ts = length (rhs r) \<and> w = w0 @ v \<and>
    r \<in> set (m_EncodedRules G) \<and> stack_run G S Offset ss0 w0 \<and> derives G (rhs r) v \<and>
    GetGotoValue (m_LeftPart r) (stk_StateNo (last ss0)) S = Some j \<and>
    ReduceAction T P = Some
      \<lparr>m_StateStack = ss0 @ [\<lparr>stk_Start = Offset + length w0, stk_End = Offset + length w0 + length v, stk_StateNo = j\<rparr>],
       m_Output = m_Output P @ [\<lparr>out_Start = Offset + length w0, out_End = Offset + length w0 + length v, out_pRule = r\<rparr>]\<rparr>"
proof -
  note inv = lr0_grammarD(3) [OF g]
  note top = stack_run_top [OF run inv]
  let ?q = "stk_StateNo (last (m_StateStack P))"
  note shape = reduce_item_shape [OF g top(3), unfolded red(1), OF last_in_set [OF red(2)], folded red(3)]
  from stack_run_item [OF inv run shape(1)] obtain ss0 ts w0 v where s: "m_StateStack P = ss0 @ ts" "length ts = length (rhs r)"
    "w = w0 @ v" "stack_run G S Offset ss0 w0" "derives G (rhs r) v"
    "\<lparr>m_pRule = r, m_DotSymbolNo = 0\<rparr> \<in> item_set S (stk_StateNo (last ss0))" by auto
  note top0 = stack_run_top [OF s(4) inv]
  have r: "r \<in> set (m_EncodedRules G)" using collection_rule(1) [OF inv top(3) shape(1)] by simp
  obtain j where j: "GetGotoValue (m_LeftPart r) (stk_StateNo (last ss0)) S = Some j"
    using collection_left [OF lr0_grammarD(2) [OF g] inv top0(3) s(6)] shape(2) by auto
  note cell = lr0_cell_at [OF g top(3) lr0_grammarD(6) [OF g]]
  have "m_ParsingTable T ! ?q \<noteq> []" using cell(3) lr0_grammarD(6) [OF g] by auto
  moreover have "ti_pReduceRule (m_ParsingTable T ! ?q ! 0) = Some r"
    using cell(1) red by (simp add: lr0_cell_def split: list.splits)
  moreover have "m_GotoState (m_ParsingTable T ! stk_StateNo (last ss0) ! m_LeftPart r) = int j"
    using lr0_cell_at(1) [OF g top0(3) wf_grammar_ruleD(3) [OF lr0_grammarD(1) [OF g] r]] j
    by (simp add: lr0_cell_def goto_int_def)
  ultimately have "ReduceAction T P = Some
      \<lparr>m_StateStack = ss0 @ [\<lparr>stk_Start = Offset + length w0, stk_End = Offset + length w0 + length v, stk_StateNo = j\<rparr>],
       m_Output = m_Output P @ [\<lparr>out_Start = Offset + length w0, out_End = Offset + length w0 + length v, out_pRule = r\<rparr>]\<rparr>"
    using top cell(2) s(1-3) top0(1,2) by (simp add: ReduceAction_def Let_def)
  then show ?thesis using s r j by blast
qed

text \<open>Every rule put out derives the part of the input it is put out for.\<close>

definition outputs_ok :: "('a CWorkGrammar_scheme) \<Rightarrow> nat \<Rightarrow> symbol list \<Rightarrow> CLR0OutputItem list \<Rightarrow> bool" where
  "outputs_ok G Offset w Os \<longleftrightarrow> (\<forall>O' \<in> set Os. out_pRule O' \<in> set (m_EncodedRules G) \<and>
     (\<exists>u v z. w = u @ v @ z \<and> derives G (rhs (out_pRule O')) v \<and>
        out_Start O' = Offset + length u \<and> out_End O' = Offset + length u + length v))"

lemma outputs_ok_more: "outputs_ok G Offset w Os \<Longrightarrow> outputs_ok G Offset (w @ x) Os"
  unfolding outputs_ok_def by (metis append.assoc)

lemma outputs_ok_snoc:
  assumes "outputs_ok G Offset w Os" "w = w0 @ v" "r \<in> set (m_EncodedRules G)" "derives G (rhs r) v"
  shows "outputs_ok G Offset w
    (Os @ [\<lparr>out_Start = Offset + length w0, out_End = Offset + length w0 + length v, out_pRule = r\<rparr>])"
proof -
  have "w = w0 @ v @ []" using assms(2) by simp
  then have "\<exists>u v' z. w = u @ v' @ z \<and> derives G (rhs r) v' \<and>
      Offset + length w0 = Offset + length u \<and> Offset + length w0 + length v = Offset + length u + length v'"
    using assms(4) by blast
  then show ?thesis using assms(1,3) unfolding outputs_ok_def by (simp only: set_append list.set) (auto simp del: add_left_cancel)
qed

lemma lr0_step_inv:
  assumes g: "lr0_grammar G S T" and step: "lr0_step T Offset (w, P) (w', P')"
    and inv: "stack_run G S Offset (m_StateStack P) w" "outputs_ok G Offset w (m_Output P)"
  shows "stack_run G S Offset (m_StateStack P') w' \<and> outputs_ok G Offset w' (m_Output P')"
  using step
proof cases
  case (lr0_shift X)
  then have X: "X < length (m_UniqueGrammarItems G)"
    using lr0_cell_at [OF g stack_run_top(3) [OF inv(1) lr0_grammarD(3) [OF g]] lr0_grammarD(6) [OF g]]
    by (auto simp: ShiftAction_def Let_def split: if_splits)
  obtain j where j: "GetGotoValue X (stk_StateNo (last (m_StateStack P))) S = Some j"
    "P' = P\<lparr>m_StateStack := m_StateStack P @ [\<lparr>stk_Start = Offset + length w, stk_End = Offset + length w + 1, stk_StateNo = j\<rparr>]\<rparr>"
    using lr0_shift ShiftAction_eq [OF g inv(1) X, of "Offset + length w"] by (auto split: option.splits)
  have "stack_run G S Offset (m_StateStack P') (w @ [X])"
    using run_push [OF inv(1) j(1), of "[X]"] j(2) by simp
  then show ?thesis using lr0_shift j(2) outputs_ok_more [OF inv(2)] by simp
next
  case lr0_reduce
  let ?its = "reduce_items G (m_ItemSets S ! stk_StateNo (last (m_StateStack P)))"
  have "?its \<noteq> []" using lr0_reduce ShouldReduce_eq [OF g inv(1)] by simp
  from ReduceAction_eq [OF g inv(1) refl this refl] obtain ss0 ts w0 v j r where s: "w = w0 @ v"
    "r \<in> set (m_EncodedRules G)" "stack_run G S Offset ss0 w0" "derives G (rhs r) v"
    "GetGotoValue (m_LeftPart r) (stk_StateNo (last ss0)) S = Some j"
    "P' = \<lparr>m_StateStack = ss0 @ [\<lparr>stk_Start = Offset + length w0, stk_End = Offset + length w0 + length v, stk_StateNo = j\<rparr>],
       m_Output = m_Output P @ [\<lparr>out_Start = Offset + length w0, out_End = Offset + length w0 + length v, out_pRule = r\<rparr>]\<rparr>"
    using lr0_reduce by auto
  have "derives G [m_LeftPart r] v" using derives_trans [OF derives_rule [OF s(2)] s(4)] .
  from run_push [OF s(3,5) this] have "stack_run G S Offset (m_StateStack P') w" using s(1,6) by simp
  moreover have "outputs_ok G Offset w (m_Output P')"
    using outputs_ok_snoc [OF inv(2) s(1,2,4)] s(6) by simp
  ultimately show ?thesis using lr0_reduce by simp
qed

lemma lr0_steps_inv:
  assumes g: "lr0_grammar G S T" and steps: "(lr0_step T Offset)\<^sup>*\<^sup>* ([], lr0_parser_at Offset) (w, P)"
  shows "stack_run G S Offset (m_StateStack P) w \<and> outputs_ok G Offset w (m_Output P)"
  using steps
proof (induction "(w, P)" arbitrary: w P rule: rtranclp_induct)
  case base
  then show ?case by (auto simp: lr0_parser_at_def outputs_ok_def run_start)
next
  case (step y)
  obtain w' P' where "y = (w', P')" by (cases y)
  then show ?case using step lr0_step_inv [OF g] by blast
qed

section \<open>Nothing is missed\<close>

text \<open>Derivations as trees.\<close>

inductive parses :: "('a CWorkGrammar_scheme) \<Rightarrow> symbol \<Rightarrow> symbol list \<Rightarrow> bool" for G :: "'a CWorkGrammar_scheme" where
  parse_leaf: "parses G X [X]"
| parse_node: "r \<in> set (m_EncodedRules G) \<Longrightarrow> list_all2 (parses G) (rhs r) ws \<Longrightarrow> parses G (m_LeftPart r) (concat ws)"
monos list_all2_mono

lemma derives_parses:
  assumes "derives G Xs w"
  shows "\<exists>ws. list_all2 (parses G) Xs ws \<and> w = concat ws"
  using assms
proof (induction rule: converse_rtranclp_induct)
  case base
  have "list_all2 (parses G) w (map (\<lambda>a. [a]) w)" by (simp add: list_all2_conv_all_nth parse_leaf)
  moreover have "w = concat (map (\<lambda>a. [a]) w)" by (induction w) auto
  ultimately show ?case by blast
next
  case (step Xs Ys)
  obtain R p s where R: "R \<in> set (m_EncodedRules G)" "Xs = p @ m_LeftPart R # s" "Ys = p @ rhs R @ s"
    using step.hyps(1) by (auto simp: derives1_def)
  obtain a b c where ws: "w = concat (a @ b @ c)" "list_all2 (parses G) p a" "list_all2 (parses G) (rhs R) b"
      "list_all2 (parses G) s c"
    using step.IH unfolding R(3) list_all2_append1 by blast
  have "list_all2 (parses G) Xs (a @ [concat b] @ c)"
    using ws(2-4) parse_node [OF R(1) ws(3)] unfolding R(2) by (simp add: list_all2_appendI)
  then show ?case using ws(1) by (intro exI [of _ "a @ [concat b] @ c"]) simp
qed

text \<open>No state asks for two reductions. \<^verbatim>\<open>BuildLRTable\<close> does not check it.\<close>

definition one_reduction :: "('a CWorkGrammar_scheme) \<Rightarrow> CLRCollectionSet \<Rightarrow> bool" where
  "one_reduction G S \<longleftrightarrow> (\<forall>i < length (m_ItemSets S). length (reduce_items G (m_ItemSets S ! i)) \<le> 1)"

text \<open>From a stack whose top can be left by a symbol, the parser gets past any word the symbol derives.\<close>

definition parser_passes ::
  "('a CWorkGrammar_scheme) \<Rightarrow> CLRCollectionSet \<Rightarrow> CLR0Table \<Rightarrow> nat \<Rightarrow> symbol \<Rightarrow> symbol list \<Rightarrow> bool" where
  "parser_passes G S T Offset X v \<longleftrightarrow> derives G [X] v \<and> (\<forall>w P j. stack_run G S Offset (m_StateStack P) w \<longrightarrow>
     GetGotoValue X (stk_StateNo (last (m_StateStack P))) S = Some j \<longrightarrow>
     (\<exists>P'. (lr0_step T Offset)\<^sup>*\<^sup>* (w, P) (w @ v, P') \<and> m_StateStack P' = m_StateStack P @
        [\<lparr>stk_Start = Offset + length w, stk_End = Offset + length w + length v, stk_StateNo = j\<rparr>]))"

lemma parser_passes_leaf:
  assumes g: "lr0_grammar G S T"
  shows "parser_passes G S T Offset X [X]"
  unfolding parser_passes_def
proof (intro conjI allI impI rtranclp.rtrancl_refl)
  fix w and P :: CLR0Parser and j assume run: "stack_run G S Offset (m_StateStack P) w"
    and j: "GetGotoValue X (stk_StateNo (last (m_StateStack P))) S = Some j"
  let ?P = "P\<lparr>m_StateStack := m_StateStack P @ [\<lparr>stk_Start = Offset + length w, stk_End = Offset + length w + 1, stk_StateNo = j\<rparr>]\<rparr>"
  have "ShiftAction (Offset + length w) X T P = Some (True, ?P)"
    using ShiftAction_eq [OF g run goto_symbol [OF lr0_grammarD(1) [OF g] lr0_grammarD(3) [OF g] j]] j by simp
  from lr0_shift [OF this] show "\<exists>P'. (lr0_step T Offset)\<^sup>*\<^sup>* (w, P) (w @ [X], P') \<and> m_StateStack P' = m_StateStack P @
      [\<lparr>stk_Start = Offset + length w, stk_End = Offset + length w + length [X], stk_StateNo = j\<rparr>]"
    by (intro exI [of _ ?P]) (simp add: r_into_rtranclp)
qed

lemma parser_passes_items:
  assumes g: "lr0_grammar G S T" and left: "m_LeftPart r \<noteq> GetNewRoot G"
    and "list_all2 (parser_passes G S T Offset) (drop k (rhs r)) vs" "stack_run G S Offset (m_StateStack P) w"
    and "\<lparr>m_pRule = r, m_DotSymbolNo = k\<rparr> \<in> item_set S (stk_StateNo (last (m_StateStack P)))"
  shows "\<exists>P' ts. (lr0_step T Offset)\<^sup>*\<^sup>* (w, P) (w @ concat vs, P') \<and> m_StateStack P' = m_StateStack P @ ts \<and>
    length ts = length vs \<and> stack_run G S Offset (m_StateStack P') (w @ concat vs) \<and>
    \<lparr>m_pRule = r, m_DotSymbolNo = length (rhs r)\<rparr> \<in> item_set S (stk_StateNo (last (m_StateStack P')))"
  using assms(3-5)
proof (induction vs arbitrary: k P w rule: list.induct)
  case Nil
  note top = stack_run_top [OF Nil.prems(2) lr0_grammarD(3) [OF g]]
  have "k = length (rhs r)"
    using Nil.prems(1) collection_rule(2) [OF lr0_grammarD(3) [OF g] top(3) Nil.prems(3)] by simp
  then show ?case using Nil.prems by (intro exI [of _ P] exI [of _ "[]"]) simp
next
  case (Cons v vs)
  note inv = lr0_grammarD(3) [OF g]
  note top = stack_run_top [OF Cons.prems(2) inv]
  let ?it = "\<lparr>m_pRule = r, m_DotSymbolNo = k\<rparr>" and ?q = "stk_StateNo (last (m_StateStack P))"
  have r: "r \<in> set (m_EncodedRules G)" using collection_rule(1) [OF inv top(3) Cons.prems(3)] by simp
  have k: "k < length (rhs r)" using Cons.prems(1) by (cases "k < length (rhs r)") auto
  then have dr: "drop k (rhs r) = rhs r ! k # drop (Suc k) (rhs r)" by (rule Cons_nth_drop_Suc [symmetric])
  have pass: "parser_passes G S T Offset (rhs r ! k) v" "list_all2 (parser_passes G S T Offset) (drop (Suc k) (rhs r)) vs"
    using Cons.prems(1) unfolding dr by simp_all
  have it: "\<not> IsFinished ?it" "GetSymbolNo ?it = rhs r ! k" using k by (simp_all add: IsFinished_def GetSymbolNo_def)
  have "GetEndOfStreamSymbol G \<notin> set (rhs r)"
    using lr0_grammarD(2) [OF g] r left by (auto simp: augmented_def list_all_iff)
  then have "GetSymbolNo ?it \<noteq> GetEndOfStreamSymbol G" using k it(2) nth_mem by fastforce
  then obtain j where j: "GetGotoValue (rhs r ! k) ?q S = Some j"
    using collection_goto_Some [OF inv top(3) Cons.prems(3) it(1)] it(2) by auto
  obtain P1 where P1: "(lr0_step T Offset)\<^sup>*\<^sup>* (w, P) (w @ v, P1)"
    "m_StateStack P1 = m_StateStack P @ [\<lparr>stk_Start = Offset + length w, stk_End = Offset + length w + length v, stk_StateNo = j\<rparr>]"
    using pass(1) Cons.prems(2) j unfolding parser_passes_def by blast
  have "stack_run G S Offset (m_StateStack P1) (w @ v)"
    unfolding P1(2) by (rule run_push [OF Cons.prems(2) j]) (use pass(1) in \<open>simp add: parser_passes_def\<close>)
  moreover have "\<lparr>m_pRule = r, m_DotSymbolNo = Suc k\<rparr> \<in> item_set S (stk_StateNo (last (m_StateStack P1)))"
    using goto_item_forth [OF inv j Cons.prems(3) it] P1(2) by (simp add: advance_def)
  ultimately obtain P' ts where P': "(lr0_step T Offset)\<^sup>*\<^sup>* (w @ v, P1) ((w @ v) @ concat vs, P')"
    "m_StateStack P' = m_StateStack P1 @ ts" "length ts = length vs" "stack_run G S Offset (m_StateStack P') ((w @ v) @ concat vs)"
    "\<lparr>m_pRule = r, m_DotSymbolNo = length (rhs r)\<rparr> \<in> item_set S (stk_StateNo (last (m_StateStack P')))"
    using Cons.IH [OF pass(2)] by blast
  show ?case
    using P' P1(2) rtranclp_trans [OF P1(1) P'(1)]
    by (intro exI [of _ P'] exI [of _ "\<lparr>stk_Start = Offset + length w, stk_End = Offset + length w + length v, stk_StateNo = j\<rparr> # ts"]) simp
qed

lemma parser_passes_node:
  assumes g: "lr0_grammar G S T" and one: "one_reduction G S" and r: "r \<in> set (m_EncodedRules G)"
    and kids: "list_all2 (parser_passes G S T Offset) (rhs r) vs"
  shows "parser_passes G S T Offset (m_LeftPart r) (concat vs)"
  unfolding parser_passes_def
proof (intro conjI allI impI)
  have "\<forall>i < length (rhs r). derives G [rhs r ! i] (vs ! i)" and len: "length vs = length (rhs r)"
    using kids by (auto simp: list_all2_conv_all_nth parser_passes_def)
  then have "derives G (rhs r) (concat vs)" using derives_concat by blast
  then show "derives G [m_LeftPart r] (concat vs)" using derives_trans [OF derives_rule [OF r]] by blast
next
  fix w and P :: CLR0Parser and j
  assume run: "stack_run G S Offset (m_StateStack P) w"
    and j: "GetGotoValue (m_LeftPart r) (stk_StateNo (last (m_StateStack P))) S = Some j"
  note inv = lr0_grammarD(3) [OF g]
  note top = stack_run_top [OF run inv]
  obtain it where it: "it \<in> item_set S (stk_StateNo (last (m_StateStack P)))" "\<not> IsFinished it" "GetSymbolNo it = m_LeftPart r"
    using goto_SomeD(3) [OF inv j] by (auto simp: lr_kernel_def)
  note rule = collection_rule [OF inv top(3) it(1)]
  have "m_DotSymbolNo it < length (rhs (m_pRule it))" using rule(2) it(2) by (simp add: IsFinished_def)
  then have "m_LeftPart r \<in> set (rhs (m_pRule it))" using it(3) nth_mem unfolding GetSymbolNo_def by metis
  then have left: "m_LeftPart r \<noteq> GetNewRoot G"
    using lr0_grammarD(2) [OF g] rule(1) by (auto simp: augmented_def list_all_iff)
  have begun: "\<lparr>m_pRule = r, m_DotSymbolNo = 0\<rparr> \<in> item_set S (stk_StateNo (last (m_StateStack P)))"
    by (rule collection_closed [OF inv top(3) it wf_grammar_ruleD(2) [OF lr0_grammarD(1) [OF g] r] r])
  obtain P1 ts where P1: "(lr0_step T Offset)\<^sup>*\<^sup>* (w, P) (w @ concat vs, P1)" "m_StateStack P1 = m_StateStack P @ ts"
    "length ts = length vs" "stack_run G S Offset (m_StateStack P1) (w @ concat vs)"
    "\<lparr>m_pRule = r, m_DotSymbolNo = length (rhs r)\<rparr> \<in> item_set S (stk_StateNo (last (m_StateStack P1)))"
    using parser_passes_items [OF g left, of Offset 0 vs P w] kids run begun by auto
  let ?q = "stk_StateNo (last (m_StateStack P1))"
  note top1 = stack_run_top [OF P1(4) inv]
  have "\<lparr>m_pRule = r, m_DotSymbolNo = length (rhs r)\<rparr> \<in> set (reduce_items G (m_ItemSets S ! ?q))"
    using P1(5) left unfolding reduce_items_root [OF lr0_grammarD(6) [OF g]] by (simp add: IsFinished_def)
  moreover have "length (reduce_items G (m_ItemSets S ! ?q)) \<le> 1" using one top1(3) by (simp add: one_reduction_def)
  ultimately have its: "reduce_items G (m_ItemSets S ! ?q) = [\<lparr>m_pRule = r, m_DotSymbolNo = length (rhs r)\<rparr>]"
    by (cases "reduce_items G (m_ItemSets S ! ?q)") auto
  from ReduceAction_eq [OF g P1(4) its _ refl] obtain ss0 ts' w0 v j' P' where s: "m_StateStack P1 = ss0 @ ts'" "length ts' = length (rhs r)"
    "w @ concat vs = w0 @ v" "stack_run G S Offset ss0 w0"
    "GetGotoValue (m_LeftPart r) (stk_StateNo (last ss0)) S = Some j'" "ReduceAction T P1 = Some P'"
    "m_StateStack P' = ss0 @ [\<lparr>stk_Start = Offset + length w0, stk_End = Offset + length w0 + length v, stk_StateNo = j'\<rparr>]"
    by auto
  have "length vs = length (rhs r)" using kids by (auto dest: list_all2_lengthD)
  then have ss0: "ss0 = m_StateStack P" using P1(2,3) s(1,2) by simp
  then have w0: "length w0 = length w" using stack_run_top(2) [OF s(4) inv] top(2) by simp
  then have "w0 = w" "v = concat vs" using s(3) by (simp_all add: append_eq_append_conv)
  then have P': "m_StateStack P' = m_StateStack P @
      [\<lparr>stk_Start = Offset + length w, stk_End = Offset + length w + length (concat vs), stk_StateNo = j\<rparr>]"
    using s(5,7) j ss0 by simp
  have "lr0_step T Offset (w @ concat vs, P1) (w @ concat vs, P')"
    using s(6) its by (intro lr0_reduce) (simp_all add: ShouldReduce_eq [OF g P1(4)])
  then show "\<exists>P'. (lr0_step T Offset)\<^sup>*\<^sup>* (w, P) (w @ concat vs, P') \<and> m_StateStack P' = m_StateStack P @
      [\<lparr>stk_Start = Offset + length w, stk_End = Offset + length w + length (concat vs), stk_StateNo = j\<rparr>]"
    using rtranclp.rtrancl_into_rtrancl [OF P1(1)] P' by blast
qed

lemma parser_passes_parses:
  assumes "lr0_grammar G S T" "one_reduction G S" "parses G X v"
  shows "parser_passes G S T Offset X v"
  using assms(3)
proof (induction rule: parses.induct)
  case (parse_leaf X)
  show ?case by (rule parser_passes_leaf [OF assms(1)])
next
  case (parse_node r ws)
  then show ?case by (intro parser_passes_node [OF assms(1,2)]) (auto elim: list_all2_mono)
qed

lemma root_symbol:
  assumes "augmented G" "R \<in> set (m_EncodedRules G)" "m_LeftPart R = GetNewRoot G" "rhs R = [root, GetEndOfStreamSymbol G]"
  shows "root < GetEndOfStreamSymbol G"
proof -
  obtain X where X: "X < GetEndOfStreamSymbol G" "map rhs (filter (\<lambda>r. m_LeftPart r = GetNewRoot G) (m_EncodedRules G)) = [[X, GetEndOfStreamSymbol G]]"
    using assms(1) by (auto simp: augmented_def)
  have "rhs R \<in> set (map rhs (filter (\<lambda>r. m_LeftPart r = GetNewRoot G) (m_EncodedRules G)))" using assms(2,3) by simp
  then show ?thesis using X assms(4) by simp
qed

lemma start_goto:
  assumes g: "lr0_grammar G S T"
    and R: "R \<in> set (m_EncodedRules G)" "m_LeftPart R = GetNewRoot G" "rhs R = [root, GetEndOfStreamSymbol G]"
  shows "\<exists>j. GetGotoValue root 0 S = Some j"
    and "GetGotoValue X 0 S = Some j \<Longrightarrow> GetGotoValue root 0 S = Some j \<Longrightarrow> X = root"
proof -
  note inv = lr0_grammarD(3) [OF g]
  note zero = collection_state_0 [OF inv]
  let ?it = "\<lparr>m_pRule = R, m_DotSymbolNo = 0\<rparr>"
  have "item_set S 0 = lr_closure G (start_items G (GetNewRoot G))" using inv by (simp add: collection_inv_def)
  moreover have "?it \<in> start_items G (GetNewRoot G)" using R(1,2) by (simp add: start_items_def)
  ultimately have it: "?it \<in> item_set S 0" "\<not> IsFinished ?it" "GetSymbolNo ?it = root"
    using R(3) by (auto simp: IsFinished_def GetSymbolNo_def intro: closure_base)
  have "root \<noteq> GetEndOfStreamSymbol G" using root_symbol [OF lr0_grammarD(2) [OF g] R] by simp
  then show "\<exists>j. GetGotoValue root 0 S = Some j"
    using collection_goto_Some [OF inv zero it(1,2)] it(3) by auto
  assume X: "GetGotoValue X 0 S = Some j" and root: "GetGotoValue root 0 S = Some j"
  have "advance ?it \<in> item_set S j" by (rule goto_item_forth [OF inv root it])
  from goto_item_back [OF inv X this] obtain it' where "GetSymbolNo it' = X" "advance ?it = advance it'"
    by (auto simp: advance_def)
  then show "X = root" using injD [OF advance_inj, of ?it it'] it(3) by auto
qed

lemma stack_run_two:
  assumes "stack_run G S Offset [s, s'] w"
  obtains X v where "w = v" "GetGotoValue X 0 S = Some (stk_StateNo s')" "derives G [X] v"
  using assms
proof cases
  case (run_push ss u X j v)
  from run_push(1) have s: "ss = [s]" "s' = \<lparr>stk_Start = Offset + length u, stk_End = Offset + length u + length v, stk_StateNo = j\<rparr>"
    by (cases ss rule: rev_cases; simp)+
  from run_push(3) have "stk_StateNo s = 0 \<and> u = []"
    unfolding s(1)
  proof cases
    case (run_push ss' u' X' j' v')
    then have "stack_run G S Offset [] u'" by simp
    then show ?thesis by cases simp_all
  qed simp
  then show ?thesis using that run_push(2,4,5) s by auto
qed

section \<open>Properties\<close>

text \<open>
  \<^verbatim>\<open>BuildLRTable\<close> returns on every augmented grammar; it reports success exactly when no state in which a rule
  is finished (other than that of the new root) has a goto. Then the table has a line for every state and a cell
  for every symbol, with the goto of the collection in it, or -1, and the same reduction in every cell of the
  line: the last finished rule of the state, so that of several finished rules the others are lost without notice.
\<close>

lemma BuildLRTable_correct:
  assumes "augmented G"
  shows "\<exists>S ok T. Compute G = Some S \<and> BuildLRTable G = Some (ok, T) \<and>
    (ok \<longleftrightarrow> (\<forall>i < length (m_ItemSets S). reduce_items G (m_ItemSets S ! i) = [] \<or>
        (\<forall>X < length (m_UniqueGrammarItems G). GetGotoValue X i S = None))) \<and>
    (ok \<longrightarrow> length (m_ParsingTable T) = length (m_ItemSets S) \<and>
      (\<forall>i < length (m_ItemSets S). length (m_ParsingTable T ! i) = length (m_UniqueGrammarItems G) \<and>
        (\<forall>X < length (m_UniqueGrammarItems G).
           m_GotoState (m_ParsingTable T ! i ! X) = (case GetGotoValue X i S of None \<Rightarrow> - 1 | Some j \<Rightarrow> int j) \<and>
           ti_pReduceRule (m_ParsingTable T ! i ! X) =
             (if reduce_items G (m_ItemSets S ! i) = [] then None
              else Some (m_pRule (last (reduce_items G (m_ItemSets S ! i))))))))"
proof -
  obtain S where S: "Compute G = Some S" using Compute_spec [of G] augmented_wf(1,2) [OF assms] by blast
  obtain ok T where T: "BuildLRTable G = Some (ok, T)" "ok \<longleftrightarrow> (\<forall>i < length (m_ItemSets S). \<not> lr0_conflict G S i)"
    "ok \<longrightarrow> m_ParsingTable T =
       map (\<lambda>i. map (lr0_cell G S i) [0..<length (m_UniqueGrammarItems G)]) [0..<length (m_ItemSets S)]"
    using BuildLRTable_eq [OF S] by blast
  show ?thesis
    by (intro exI conjI, rule S, rule T(1))
      (use T(2,3) in \<open>auto simp: lr0_conflict_def lr0_cell_def goto_int_def split: list.splits\<close>)
qed

definition sample_lr0 :: CLR0Table where
  "sample_lr0 =
     (let c = (\<lambda>g. \<lparr>m_GotoState = g, ti_pReduceRule = None\<rparr>); r = (\<lambda>r. \<lparr>m_GotoState = - 1, ti_pReduceRule = Some r\<rparr>)
      in \<lparr>m_ParsingTable =
        [map c [1, 2, - 1, - 1, - 1], map c [- 1, - 1, - 1, - 1, - 1], map c [3, 2, 4, - 1, - 1], map c [- 1, - 1, 5, - 1, - 1],
         replicate 5 (r (sample_rule 1 0 [1, 2])), replicate 5 (r (sample_rule 0 0 [1, 0, 2]))]\<rparr>)"

lemma sample_BuildLRTable: "BuildLRTable sample_slr = Some (True, sample_lr0)"
  by code_simp

lemma BuildLRTable_correct_witness:
  "augmented sample_slr \<and>
   (\<exists>S. Compute sample_slr = Some S \<and> length (m_ParsingTable sample_lr0) = length (m_ItemSets S))"
  using BuildLRTable_correct [OF sample_slr_ok(1)] sample_slr_ok(1) by (auto simp: sample_BuildLRTable)

text \<open>
  C9. The LR(0) parser is safe: in every state that it can get to from its start, with shifts of the next symbol and
  reductions when \<^verbatim>\<open>ShouldReduce\<close> holds, no assertion fails, a shift is refused when a reduction is due, and every
  rule of the output derives the part of the input between the ends noted with it.
\<close>

theorem LR0Parser_safe:
  assumes "augmented G" "BuildLRTable G = Some (True, T)"
    and "(lr0_step T Offset)\<^sup>*\<^sup>* ([], lr0_parser_at Offset) (w, P)"
  shows "\<exists>reduce. ShouldReduce T P = Some reduce \<and> (reduce \<longrightarrow> ReduceAction T P \<noteq> None) \<and>
    (\<forall>X < length (m_UniqueGrammarItems G). \<exists>shifted P'.
        ShiftAction (Offset + length w) X T P = Some (shifted, P') \<and> (reduce \<longrightarrow> \<not> shifted \<and> P' = P)) \<and>
    (\<forall>O' \<in> set (m_Output P). out_pRule O' \<in> set (m_EncodedRules G) \<and>
       (\<exists>u v z. w = u @ v @ z \<and> derives G (rhs (out_pRule O')) v \<and>
          out_Start O' = Offset + length u \<and> out_End O' = Offset + length u + length v))"
proof -
  obtain S where "Compute G = Some S" using Compute_spec [of G] augmented_wf(1,2) [OF assms(1)] by blast
  then have g: "lr0_grammar G S T" using assms(1,2) by (simp add: lr0_grammar_def)
  have run: "stack_run G S Offset (m_StateStack P) w" and out: "outputs_ok G Offset w (m_Output P)"
    using lr0_steps_inv [OF g assms(3)] by auto
  let ?q = "stk_StateNo (last (m_StateStack P))"
  have "\<exists>shifted P'. ShiftAction (Offset + length w) X T P = Some (shifted, P') \<and>
      (reduce_items G (m_ItemSets S ! ?q) \<noteq> [] \<longrightarrow> \<not> shifted \<and> P' = P)"
    if X: "X < length (m_UniqueGrammarItems G)" for X
    using lr0_grammarD(5) [OF g stack_run_top(3) [OF run lr0_grammarD(3) [OF g]] _ X]
    by (cases "reduce_items G (m_ItemSets S ! ?q) = []") (auto simp: ShiftAction_eq [OF g run X] split: option.splits)
  moreover have "reduce_items G (m_ItemSets S ! ?q) \<noteq> [] \<longrightarrow> ReduceAction T P \<noteq> None"
    using ReduceAction_eq [OF g run refl _ refl] by auto
  ultimately show ?thesis
    using out ShouldReduce_eq [OF g run] unfolding outputs_ok_def by blast
qed

text \<open>
  C8. The LR(0) parser recognises the grammar: if no state has two finished rules, then the words after which the stack
  of the parser can consist of the start state and the goto of the root are exactly those that the root derives.
\<close>

theorem LR0Parser_recognises:
  assumes "augmented G" "Compute G = Some S" "BuildLRTable G = Some (True, T)"
    and "\<forall>i < length (m_ItemSets S). length (reduce_items G (m_ItemSets S ! i)) \<le> 1"
    and "R \<in> set (m_EncodedRules G)" "m_LeftPart R = GetNewRoot G" "rhs R = [root, GetEndOfStreamSymbol G]"
  shows "(\<exists>P. (lr0_step T Offset)\<^sup>*\<^sup>* ([], lr0_parser_at Offset) (w, P) \<and>
      map (\<lambda>s. int (stk_StateNo s)) (m_StateStack P) = [0, m_GotoState (m_ParsingTable T ! 0 ! root)])
    \<longleftrightarrow> derives G [root] w"
proof -
  have g: "lr0_grammar G S T" using assms(1-3) by (simp add: lr0_grammar_def)
  note inv = lr0_grammarD(3) [OF g]
  have one: "one_reduction G S" using assms(4) by (simp add: one_reduction_def)
  note sg = start_goto [OF g assms(5-7)]
  obtain j where j: "GetGotoValue root 0 S = Some j" using sg(1) by blast
  have root: "root < length (m_UniqueGrammarItems G)"
    using root_symbol [OF assms(1,5-7)] by (simp add: GetEndOfStreamSymbol_def)
  have start_stack: "m_StateStack (lr0_parser_at Offset) = [\<lparr>stk_Start = Offset, stk_End = Offset, stk_StateNo = 0\<rparr>]"
    by (simp add: lr0_parser_at_def)
  have start: "stack_run G S Offset (m_StateStack (lr0_parser_at Offset)) []"
    unfolding start_stack by (rule run_start)
  have cell: "m_GotoState (m_ParsingTable T ! 0 ! root) = int j"
    using lr0_cell_at(1) [OF g collection_state_0 [OF inv] root] j by (simp add: lr0_cell_def goto_int_def)
  show ?thesis
  proof
    assume "\<exists>P. (lr0_step T Offset)\<^sup>*\<^sup>* ([], lr0_parser_at Offset) (w, P) \<and>
      map (\<lambda>s. int (stk_StateNo s)) (m_StateStack P) = [0, m_GotoState (m_ParsingTable T ! 0 ! root)]"
    then obtain P s s' where P: "(lr0_step T Offset)\<^sup>*\<^sup>* ([], lr0_parser_at Offset) (w, P)"
      "m_StateStack P = [s, s']" "stk_StateNo s' = j" by (auto simp: cell map_eq_Cons_conv)
    from lr0_steps_inv [OF g P(1)] P(2) have "stack_run G S Offset [s, s'] w" by simp
    from stack_run_two [OF this] obtain X v where "w = v" "GetGotoValue X 0 S = Some j" "derives G [X] v"
      unfolding P(3) by blast
    then show "derives G [root] w" using sg(2) j by blast
  next
    assume "derives G [root] w"
    then obtain ws where "list_all2 (parses G) [root] ws" "w = concat ws" using derives_parses by blast
    then have "parses G root w" by (auto simp: list_all2_Cons1)
    from parser_passes_parses [OF g one this, of Offset] obtain P where
      "(lr0_step T Offset)\<^sup>*\<^sup>* ([], lr0_parser_at Offset) ([] @ w, P)" "m_StateStack P = m_StateStack (lr0_parser_at Offset) @
        [\<lparr>stk_Start = Offset + length ([] :: symbol list), stk_End = Offset + length ([] :: symbol list) + length w, stk_StateNo = j\<rparr>]"
      unfolding parser_passes_def using start j by (metis last.simps CLR0StackItem.select_convs(3) start_stack)
    then show "\<exists>P. (lr0_step T Offset)\<^sup>*\<^sup>* ([], lr0_parser_at Offset) (w, P) \<and>
      map (\<lambda>s. int (stk_StateNo s)) (m_StateStack P) = [0, m_GotoState (m_ParsingTable T ! 0 ! root)]"
      by (intro exI [of _ P]) (simp add: cell lr0_parser_at_def)
  qed
qed

lemma sample_lr0_facts:
  "\<forall>i < length (m_ItemSets sample_collection). length (reduce_items sample_slr (m_ItemSets sample_collection ! i)) \<le> 1"
  "sample_rule 2 4 [0, 3] \<in> set (m_EncodedRules sample_slr)" "m_LeftPart (sample_rule 2 4 [0, 3]) = GetNewRoot sample_slr"
  "rhs (sample_rule 2 4 [0, 3]) = [0, GetEndOfStreamSymbol sample_slr]"
  "derives sample_slr [0] [1, 2]"
proof -
  have "list_all (\<lambda>its. length (reduce_items sample_slr its) \<le> 1) (m_ItemSets sample_collection)" by code_simp
  then show "\<forall>i < length (m_ItemSets sample_collection). length (reduce_items sample_slr (m_ItemSets sample_collection ! i)) \<le> 1"
    by (simp add: list_all_length)
  show "sample_rule 2 4 [0, 3] \<in> set (m_EncodedRules sample_slr)" by (simp add: sample_slr_def sample_augmented_def)
  show "m_LeftPart (sample_rule 2 4 [0, 3]) = GetNewRoot sample_slr"
    "rhs (sample_rule 2 4 [0, 3]) = [0, GetEndOfStreamSymbol sample_slr]" by code_simp+
  have "sample_rule 1 0 [1, 2] \<in> set (m_EncodedRules sample_slr)" by (simp add: sample_slr_def sample_augmented_def)
  from derives_rule [OF this] show "derives sample_slr [0] [1, 2]" by (simp add: sample_rule_def)
qed

theorem LR0Parser_recognises_witness:
  "\<exists>P. (lr0_step sample_lr0 7)\<^sup>*\<^sup>* ([], lr0_parser_at 7) ([1, 2], P) \<and>
      map (\<lambda>s. int (stk_StateNo s)) (m_StateStack P) = [0, m_GotoState (m_ParsingTable sample_lr0 ! 0 ! 0)]"
  using LR0Parser_recognises [OF sample_slr_ok(1) sample_Compute sample_BuildLRTable sample_lr0_facts(1-4), of 7 "[1, 2]"]
    sample_lr0_facts(5) by blast

definition sample_lr0_state :: CLR0Parser where
  "sample_lr0_state = \<lparr>m_StateStack = [\<lparr>stk_Start = 7, stk_End = 7, stk_StateNo = 0\<rparr>, \<lparr>stk_Start = 7, stk_End = 9, stk_StateNo = 1\<rparr>],
     m_Output = [\<lparr>out_Start = 7, out_End = 9, out_pRule = sample_rule 1 0 [1, 2]\<rparr>]\<rparr>"

lemma sample_lr0_steps: "(lr0_step sample_lr0 7)\<^sup>*\<^sup>* ([], lr0_parser_at 7) ([1, 2], sample_lr0_state)"
proof -
  let ?s = "\<lambda>a b q. \<lparr>stk_Start = a, stk_End = b, stk_StateNo = q\<rparr>"
  let ?P1 = "\<lparr>m_StateStack = [?s 7 7 0, ?s 7 8 2], m_Output = []\<rparr>" and ?P2 = "\<lparr>m_StateStack = [?s 7 7 0, ?s 7 8 2, ?s 8 9 4], m_Output = []\<rparr>"
  have ev: "ShiftAction 7 1 sample_lr0 (lr0_parser_at 7) = Some (True, ?P1)" "ShiftAction 8 2 sample_lr0 ?P1 = Some (True, ?P2)"
    "ShouldReduce sample_lr0 ?P2 = Some True" "ReduceAction sample_lr0 ?P2 = Some sample_lr0_state"
    by code_simp+
  have "lr0_step sample_lr0 7 ([], lr0_parser_at 7) ([] @ [1], ?P1)" by (rule lr0_shift) (use ev(1) in simp)
  moreover have "lr0_step sample_lr0 7 ([1], ?P1) ([1] @ [2], ?P2)" by (rule lr0_shift) (use ev(2) in simp)
  moreover have "lr0_step sample_lr0 7 ([1, 2], ?P2) ([1, 2], sample_lr0_state)" by (rule lr0_reduce) (rule ev)+
  ultimately show ?thesis by (simp add: rtranclp.rtrancl_into_rtrancl)
qed

theorem LR0Parser_safe_witness:
  "ShouldReduce sample_lr0 sample_lr0_state = Some False \<and>
   (\<exists>u v z. [1, 2] = u @ v @ z \<and> derives sample_slr [1, 2] v \<and> 7 = 7 + length u \<and> 9 = 7 + length u + length v)"
proof -
  have "ShouldReduce sample_lr0 sample_lr0_state = Some False" by code_simp
  then show ?thesis
    using LR0Parser_safe [OF sample_slr_ok(1) sample_BuildLRTable sample_lr0_steps]
    by (fastforce simp: sample_lr0_state_def sample_rule_def)
qed

end
