(* ===== verification/WordsPair.thy ===== *)
theory WordsPair
  imports Prelude "HOL-Library.Product_Lexorder"
begin

text \<open>
  Periods of a sentence, \<^verbatim>\<open>CWordsPair\<close> (\<^verbatim>\<open>FactExtract/Parser/afdocparser/common/wordspair.h\<close>), and the sets of nested
  periods built from them, \<^verbatim>\<open>CPeriodSubTree\<close> (\<^verbatim>\<open>FactExtract/Parser/afdocparser/rusie/periodtree.h\<close>, \<^verbatim>\<open>periodtree.cpp\<close>).
  The order of periods is none on all of them; it is one on the sets in which any two periods are nested or
  apart, and the lemmas are about those. An operation is \<open>None\<close> where an assertion fails. Pointers to periods are
  the periods.
\<close>

section \<open>Periods\<close>

record CWordsPair =
  FirstWord :: int
  LastWord :: int

definition pair_valid :: "int \<Rightarrow> int \<Rightarrow> bool" where
  "pair_valid f l \<longleftrightarrow> f = - 1 \<and> l = - 1 \<or> f \<noteq> - 1 \<and> l \<noteq> - 1 \<and> f \<le> l"

definition words_pair_empty :: CWordsPair where
  "words_pair_empty = \<lparr>FirstWord = - 1, LastWord = - 1\<rparr>"

definition words_pair_at :: "int \<Rightarrow> CWordsPair option" where
  "words_pair_at v = (if v \<ge> - 1 then Some \<lparr>FirstWord = v, LastWord = v\<rparr> else None)"

definition words_pair :: "int \<Rightarrow> int \<Rightarrow> CWordsPair option" where
  "words_pair f l = (if pair_valid f l then Some \<lparr>FirstWord = f, LastWord = l\<rparr> else None)"

definition SetPair :: "int \<Rightarrow> int \<Rightarrow> CWordsPair \<Rightarrow> CWordsPair option" where
  "SetPair f l p = (if pair_valid f l then Some (p\<lparr>FirstWord := f, LastWord := l\<rparr>) else None)"

definition SetPairOf :: "CWordsPair \<Rightarrow> CWordsPair \<Rightarrow> CWordsPair option" where
  "SetPairOf q p = SetPair (FirstWord q) (LastWord q) p"

definition SetFirstWord :: "int \<Rightarrow> CWordsPair \<Rightarrow> CWordsPair option" where
  "SetFirstWord f p = (if f \<noteq> - 1 \<and> LastWord p \<ge> f then Some (p\<lparr>FirstWord := f\<rparr>) else None)"

definition SetLastWord :: "int \<Rightarrow> CWordsPair \<Rightarrow> CWordsPair option" where
  "SetLastWord l p = (if l \<noteq> - 1 \<and> l \<ge> FirstWord p then Some (p\<lparr>LastWord := l\<rparr>) else None)"

definition pair_reset :: "CWordsPair \<Rightarrow> CWordsPair" where
  "pair_reset p = p\<lparr>FirstWord := - 1, LastWord := - 1\<rparr>"

text \<open>The assertions keep the number of words positive, so that the conversion to \<^verbatim>\<open>size_t\<close> does not wrap.\<close>

definition pair_Size :: "CWordsPair \<Rightarrow> nat" where
  "pair_Size p = nat (LastWord p - FirstWord p + 1)"

definition pair_IsValid :: "CWordsPair \<Rightarrow> bool" where
  "pair_IsValid p \<longleftrightarrow> FirstWord p \<noteq> - 1 \<and> LastWord p \<noteq> - 1"

definition pair_eq :: "CWordsPair \<Rightarrow> CWordsPair \<Rightarrow> bool" where
  "pair_eq p q \<longleftrightarrow> FirstWord p = FirstWord q \<and> LastWord p = LastWord q"

definition Includes :: "CWordsPair \<Rightarrow> CWordsPair \<Rightarrow> bool" where
  "Includes p q \<longleftrightarrow> FirstWord p \<le> FirstWord q \<and> LastWord p \<ge> LastWord q"

definition Contains :: "CWordsPair \<Rightarrow> int \<Rightarrow> bool" where
  "Contains p w \<longleftrightarrow> FirstWord p \<le> w \<and> LastWord p \<ge> w"

definition FromLeft :: "CWordsPair \<Rightarrow> CWordsPair \<Rightarrow> bool" where
  "FromLeft p q \<longleftrightarrow> FirstWord p < FirstWord q \<and> LastWord p < FirstWord q"

definition FromRight :: "CWordsPair \<Rightarrow> CWordsPair \<Rightarrow> bool" where
  "FromRight p q \<longleftrightarrow> FirstWord p > LastWord q \<and> LastWord p > LastWord q"

definition Intersects :: "CWordsPair \<Rightarrow> CWordsPair \<Rightarrow> bool" where
  "Intersects p q \<longleftrightarrow> LastWord p \<ge> FirstWord q \<and> LastWord q \<ge> FirstWord p"

definition pair_less :: "CWordsPair \<Rightarrow> CWordsPair \<Rightarrow> bool" where
  "pair_less p q \<longleftrightarrow> (Includes q p \<or> FromRight q p) \<and> \<not> pair_eq p q"

definition simple_period_less :: "CWordsPair \<Rightarrow> CWordsPair \<Rightarrow> bool" where
  "simple_period_less p q \<longleftrightarrow> (if FirstWord p < FirstWord q then True else LastWord p < LastWord q)"

section \<open>Sets of periods\<close>

text \<open>A subtree is a period itself, and holds an ordered set of periods.\<close>

record CPeriodSubTree =
  tree_Pair :: CWordsPair
  m_Periods :: "CWordsPair list"

definition period_subtree :: "CWordsPair \<Rightarrow> CPeriodSubTree" where
  "period_subtree p = \<lparr>tree_Pair = words_pair_empty, m_Periods = oset_insert pair_less p []\<rparr>"

definition EraseMainPeriod :: "CPeriodSubTree \<Rightarrow> CPeriodSubTree option" where
  "EraseMainPeriod t = (if m_Periods t = [] then None else Some (t\<lparr>m_Periods := butlast (m_Periods t)\<rparr>))"

definition CloneBase :: "CPeriodSubTree \<Rightarrow> CPeriodSubTree option" where
  "CloneBase t = map_option (\<lambda>p. \<lparr>tree_Pair = p, m_Periods = oset_insert_all pair_less (m_Periods t) []\<rparr>)
     (SetPair (FirstWord (tree_Pair t)) (LastWord (tree_Pair t)) words_pair_empty)"

definition AddPeriod :: "CWordsPair \<Rightarrow> CPeriodSubTree \<Rightarrow> CPeriodSubTree option" where
  "AddPeriod p t =
     (let t = t\<lparr>m_Periods := oset_insert pair_less p (m_Periods t)\<rparr>
      in if \<not> Includes (tree_Pair t) p
         then map_option (\<lambda>q. t\<lparr>tree_Pair := q\<rparr>) (SetPairOf p (tree_Pair t)) else Some t)"

text \<open>The exception on an empty set of periods is \<open>Inl\<close>.\<close>

definition GetMainPeriodBase :: "CPeriodSubTree \<Rightarrow> string + CWordsPair" where
  "GetMainPeriodBase t =
     (if m_Periods t = [] then Inl ''Failed \"CClauseSubTree::GetMainClause\" ( m_Clauses is empty)''
      else Inr (last (m_Periods t)))"

definition AddSubPeriods :: "CPeriodSubTree \<Rightarrow> CWordsPair \<Rightarrow> CPeriodSubTree \<Rightarrow> CPeriodSubTree option" where
  "AddSubPeriods pSubTree p t =
     (let t = t\<lparr>m_Periods := oset_insert pair_less p (oset_insert_all pair_less (m_Periods pSubTree) (m_Periods t))\<rparr>
      in case GetMainPeriodBase t of
           Inl _ \<Rightarrow> None
         | Inr main \<Rightarrow> map_option (\<lambda>q. t\<lparr>tree_Pair := q\<rparr>) (SetPairOf main (tree_Pair t)))"

definition GetIncludedClauseRBase :: "CPeriodSubTree \<Rightarrow> CWordsPair option" where
  "GetIncludedClauseRBase t =
     (if length (m_Periods t) = 1 then None
      else let main = last (m_Periods t); prev = last (butlast (m_Periods t))
        in if LastWord main = LastWord prev then Some prev else None)"

definition GetIncludedClauseLBase :: "CPeriodSubTree \<Rightarrow> CWordsPair option" where
  "GetIncludedClauseLBase t =
     (if length (m_Periods t) = 1 then None
      else let main = last (m_Periods t); prev = hd (m_Periods t)
        in if FirstWord main = FirstWord prev then Some prev else None)"

text \<open>The loop of \<^verbatim>\<open>GetIncludedPeriodsBase\<close> over the periods below the main one, from right to left.\<close>

fun included_from_right :: "int \<Rightarrow> CWordsPair list \<Rightarrow> CWordsPair list" where
  "included_from_right rBorder [] = []"
| "included_from_right rBorder (wp # wps) =
     (if LastWord wp < rBorder then wp # included_from_right (FirstWord wp) wps
      else included_from_right rBorder wps)"

definition GetIncludedPeriodsBase :: "CPeriodSubTree \<Rightarrow> CWordsPair list \<Rightarrow> CWordsPair list" where
  "GetIncludedPeriodsBase t periods =
     (if length (m_Periods t) = 1 then periods
      else periods @ included_from_right (LastWord (last (m_Periods t)) + 1) (rev (butlast (m_Periods t))))"

section \<open>The order of nested periods\<close>

definition pair_key :: "CWordsPair \<Rightarrow> int \<times> int" where
  "pair_key p = (LastWord p, - FirstWord p)"

definition key_less :: "CWordsPair \<Rightarrow> CWordsPair \<Rightarrow> bool" where
  "key_less p q \<longleftrightarrow> pair_key p < pair_key q"

interpretation period: key_order key_less pair_key
  by unfold_locales (simp add: key_less_def)

lemma inj_pair_key: "inj_on pair_key A"
  by (rule inj_onI) (auto simp: pair_key_def intro: CWordsPair.equality)

text \<open>Nested or apart.\<close>

definition pair_nested :: "CWordsPair \<Rightarrow> CWordsPair \<Rightarrow> bool" where
  "pair_nested p q \<longleftrightarrow> Includes p q \<or> Includes q p \<or> \<not> Intersects p q"

definition nested_periods :: "CWordsPair set \<Rightarrow> bool" where
  "nested_periods A \<longleftrightarrow> (\<forall>p \<in> A. FirstWord p \<le> LastWord p) \<and> (\<forall>p \<in> A. \<forall>q \<in> A. pair_nested p q)"

lemma pair_less_key:
  assumes "FirstWord p \<le> LastWord p" "FirstWord q \<le> LastWord q" "pair_nested p q"
  shows "pair_less p q \<longleftrightarrow> key_less p q"
  using assms
  by (auto simp: pair_less_def key_less_def pair_key_def pair_nested_def Includes_def FromRight_def Intersects_def pair_eq_def)

lemma oset_insert_cong:
  "\<forall>y \<in> set ys. lt x y = lt' x y \<and> lt y x = lt' y x \<Longrightarrow> oset_insert lt x ys = oset_insert lt' x ys"
  by (induction ys) auto

lemma nested_insert:
  assumes "nested_periods (insert p (set ps))"
  shows "oset_insert pair_less p ps = oset_insert key_less p ps"
  by (rule oset_insert_cong) (use assms pair_less_key in \<open>auto simp: nested_periods_def\<close>)

lemma nested_insert_all:
  assumes "nested_periods (set ps \<union> set qs)"
  shows "oset_insert_all pair_less ps qs = oset_insert_all key_less ps qs"
  using assms
proof (induction ps arbitrary: qs)
  case (Cons p ps)
  have "oset_insert pair_less p qs = oset_insert key_less p qs"
    by (rule nested_insert) (use Cons.prems in \<open>auto simp: nested_periods_def\<close>)
  moreover have "set (oset_insert key_less p qs) = insert p (set qs)" by (rule period.set_insert_inj [OF inj_pair_key])
  ultimately show ?case using Cons.IH [of "oset_insert key_less p qs"] Cons.prems by simp
qed simp

text \<open>A subtree over nested periods: the set is in order, and the main period, the last one, includes all the others.\<close>

definition subtree_ok :: "CPeriodSubTree \<Rightarrow> bool" where
  "subtree_ok t \<longleftrightarrow> m_Periods t \<noteq> [] \<and> period.ordered (m_Periods t) \<and> nested_periods (set (m_Periods t)) \<and>
     (\<forall>p \<in> set (m_Periods t). Includes (last (m_Periods t)) p)"

section \<open>The periods directly below the main one\<close>

text \<open>
  What is found from right to left: the outermost periods of a list in descending order. \<open>old\<close> are the periods
  already seen; each lies in one of them that is not left of the border.
\<close>

lemma included_from_right_outermost:
  assumes "sorted_wrt (\<lambda>p q. key_less q p) (old @ wps)" "nested_periods (set (old @ wps))"
    and "\<forall>p \<in> set old. \<exists>q \<in> set old. Includes q p \<and> rBorder \<le> FirstWord q"
    and "old \<noteq> [] \<longrightarrow> (\<exists>q \<in> set old. FirstWord q = rBorder)" "old = [] \<longrightarrow> (\<forall>p \<in> set wps. LastWord p < rBorder)"
  shows "included_from_right rBorder wps = filter (\<lambda>p. \<forall>q \<in> set (old @ wps). Includes q p \<longrightarrow> q = p) wps"
  using assms
proof (induction wps arbitrary: old rBorder)
  case (Cons wp wps)
  have before: "key_less wp q" if "q \<in> set old" for q using Cons.prems(1) that by (auto simp: sorted_wrt_append)
  have after: "key_less q wp" if "q \<in> set wps" for q using Cons.prems(1) that by (auto simp: sorted_wrt_append)
  have valid: "FirstWord wp \<le> LastWord wp" using Cons.prems(2) by (simp add: nested_periods_def)
  have eq: "old @ wp # wps = (old @ [wp]) @ wps" by simp
  show ?case
  proof (cases "LastWord wp < rBorder")
    case True
    have "q = wp" if q: "q \<in> set (old @ wp # wps)" "Includes q wp" for q
    proof (rule ccontr)
      assume "q \<noteq> wp"
      then consider "q \<in> set old" | "q \<in> set wps" using q(1) by auto
      then show False
      proof cases
        case 1
        then obtain q' where "Includes q' q" "rBorder \<le> FirstWord q'" using Cons.prems(3) by blast
        then show False using q(2) True valid by (simp add: Includes_def)
      next
        case 2
        then show False using after [OF 2] q(2) by (auto simp: key_less_def pair_key_def Includes_def)
      qed
    qed
    moreover have "included_from_right (FirstWord wp) wps =
        filter (\<lambda>p. \<forall>q \<in> set ((old @ [wp]) @ wps). Includes q p \<longrightarrow> q = p) wps"
    proof (rule Cons.IH)
      show "\<forall>p \<in> set (old @ [wp]). \<exists>q \<in> set (old @ [wp]). Includes q p \<and> FirstWord wp \<le> FirstWord q"
        using Cons.prems(3) True valid by (force simp: Includes_def)
    qed (use Cons.prems(1,2) in simp_all)
    ultimately show ?thesis using True unfolding eq by simp
  next
    case False
    then have "old \<noteq> []" using Cons.prems(5) by auto
    then obtain q where q: "q \<in> set old" "FirstWord q = rBorder" using Cons.prems(4) by blast
    have "pair_nested q wp" using Cons.prems(2) q(1) by (simp add: nested_periods_def)
    then have inc: "Includes q wp" "q \<noteq> wp"
      using before [OF q(1)] q(2) False valid
      by (auto simp: pair_nested_def key_less_def pair_key_def Includes_def Intersects_def)
    have "included_from_right rBorder wps =
        filter (\<lambda>p. \<forall>q \<in> set ((old @ [wp]) @ wps). Includes q p \<longrightarrow> q = p) wps"
    proof (rule Cons.IH)
      show "\<forall>p \<in> set (old @ [wp]). \<exists>q \<in> set (old @ [wp]). Includes q p \<and> rBorder \<le> FirstWord q"
        using Cons.prems(3) inc(1) q by fastforce
    qed (use Cons.prems(1,2) q in auto)
    then show ?thesis using False inc q(1) unfolding eq by auto
  qed
qed simp

lemma outermost_disjoint:
  assumes "sorted_wrt (\<lambda>p q. key_less q p) ps" "nested_periods (set ps)" "set ps \<subseteq> A"
  shows "sorted_wrt FromRight (filter (\<lambda>p. \<forall>q \<in> A. Includes q p \<longrightarrow> q = p) ps)"
  using assms
proof (induction ps)
  case (Cons p ps)
  have "FromRight p q" if q: "q \<in> set ps" "\<forall>r \<in> A. Includes r p \<longrightarrow> r = p" "\<forall>r \<in> A. Includes r q \<longrightarrow> r = q" for q
  proof -
    have "key_less q p" "pair_nested p q" "FirstWord p \<le> LastWord p" "FirstWord q \<le> LastWord q"
      using Cons.prems(1,2) q(1) by (auto simp: nested_periods_def)
    moreover have "q \<noteq> p" using \<open>key_less q p\<close> by auto
    then have "\<not> Includes p q" "\<not> Includes q p" using q Cons.prems(3) by auto
    ultimately show ?thesis
      by (auto simp: pair_nested_def key_less_def pair_key_def Intersects_def FromRight_def)
  qed
  moreover have "nested_periods (set ps)" using Cons.prems(2) by (simp add: nested_periods_def)
  ultimately show ?case using Cons by auto
qed simp

section \<open>Properties\<close>

text \<open>
  In a set of nested periods below a main one, \<^verbatim>\<open>GetIncludedPeriodsBase\<close> appends exactly the periods that lie
  directly below the main period, that is, in no other one, from right to left, and no two of them overlap.
\<close>

lemma GetIncludedPeriodsBase_correct:
  assumes "subtree_ok t"
  shows "\<exists>found. GetIncludedPeriodsBase t periods = periods @ found \<and>
    set found = {p \<in> set (butlast (m_Periods t)). \<forall>q \<in> set (butlast (m_Periods t)). Includes q p \<longrightarrow> q = p} \<and>
    sorted_wrt FromRight found"
proof -
  obtain ps main where ps: "m_Periods t = ps @ [main]"
    using assms by (cases "m_Periods t" rule: rev_cases) (auto simp: subtree_ok_def)
  have ok: "period.ordered (ps @ [main])" "nested_periods (set (ps @ [main]))" "\<forall>p \<in> set ps. Includes main p"
    using assms by (auto simp: subtree_ok_def ps)
  have sorted: "sorted_wrt (\<lambda>p q. key_less q p) (rev ps)" and nested: "nested_periods (set (rev ps))"
    using ok(1,2) by (auto simp: sorted_wrt_append sorted_wrt_rev nested_periods_def)
  let ?found = "filter (\<lambda>p. \<forall>q \<in> set (rev ps). Includes q p \<longrightarrow> q = p) (rev ps)"
  have "included_from_right (LastWord main + 1) (rev ps) = ?found"
    using included_from_right_outermost [of "[]" "rev ps" "LastWord main + 1"] sorted nested ok(3)
    by (auto simp: Includes_def)
  then have "GetIncludedPeriodsBase t periods = periods @ ?found"
    by (simp add: GetIncludedPeriodsBase_def ps)
  moreover have "sorted_wrt FromRight ?found" by (rule outermost_disjoint [OF sorted nested]) simp
  ultimately show ?thesis by (intro exI [of _ ?found]) (auto simp: ps)
qed

definition sample_period :: "int \<Rightarrow> int \<Rightarrow> CWordsPair" where
  "sample_period f l = \<lparr>FirstWord = f, LastWord = l\<rparr>"

definition sample_tree :: CPeriodSubTree where
  "sample_tree = \<lparr>tree_Pair = sample_period 0 9,
     m_Periods = [sample_period 1 2, sample_period 0 3, sample_period 6 8, sample_period 5 8, sample_period 0 9]\<rparr>"

lemma sample_tree_ok: "subtree_ok sample_tree"
  by (auto simp: subtree_ok_def sample_tree_def sample_period_def key_less_def pair_key_def nested_periods_def
    pair_nested_def Includes_def Intersects_def)

lemma GetIncludedPeriodsBase_correct_witness:
  "GetIncludedPeriodsBase sample_tree [] = [sample_period 5 8, sample_period 0 3] \<and>
   sorted_wrt FromRight (GetIncludedPeriodsBase sample_tree [])"
proof -
  have "GetIncludedPeriodsBase sample_tree [] = [sample_period 5 8, sample_period 0 3]" by code_simp
  then show ?thesis using GetIncludedPeriodsBase_correct [OF sample_tree_ok, of "[]"] by auto
qed

lemma SetPairOf_eq: "pair_valid (FirstWord p) (LastWord p) \<Longrightarrow> SetPairOf p q = Some p"
  by (cases p, cases q) (simp add: SetPairOf_def SetPair_def)

lemma Includes_key: "Includes p q \<Longrightarrow> q \<noteq> p \<Longrightarrow> key_less q p"
  by (cases p, cases q) (auto simp: key_less_def pair_key_def Includes_def)

lemma greatest_last:
  assumes "period.ordered ps" "p \<in> set ps" "\<And>q. q \<in> set ps \<Longrightarrow> q \<noteq> p \<Longrightarrow> key_less q p"
  obtains bs where "ps = bs @ [p]" "p \<notin> set bs"
proof -
  obtain bs cs where ps: "ps = bs @ p # cs" using assms(2) by (auto simp: in_set_conv_decomp)
  have "q \<noteq> p \<and> key_less p q" if "q \<in> set cs" for q using assms(1) that by (auto simp: ps sorted_wrt_append)
  then have "cs = []" using assms(3) period.lt_asym by (cases cs) (force simp: ps)+
  moreover have "p \<notin> set bs" using assms(1) by (auto simp: ps sorted_wrt_append)
  ultimately show ?thesis using that ps by simp
qed

text \<open>
  C28. On nested periods the order of \<^verbatim>\<open>SPeriodOrder\<close> is that of the last word and then of the first word downwards, and
  \<^verbatim>\<open>AddSubPeriods\<close> keeps the invariant of subtrees: it returns if the periods of both trees and the new one are
  nested and the new one includes them all; the set of the result is the union, in order, its main period, also
  the period of the tree, is the new one. \<^verbatim>\<open>EraseMainPeriod\<close> then leaves the union without it.
\<close>

theorem AddSubPeriods_correct:
  assumes "period.ordered (m_Periods t)"
    and "nested_periods (insert p (set (m_Periods s) \<union> set (m_Periods t)))"
    and "\<forall>q \<in> set (m_Periods s) \<union> set (m_Periods t). Includes p q" "pair_valid (FirstWord p) (LastWord p)"
  shows "\<exists>t'. AddSubPeriods s p t = Some t' \<and> subtree_ok t' \<and> tree_Pair t' = p \<and> GetMainPeriodBase t' = Inr p \<and>
    set (m_Periods t') = insert p (set (m_Periods s) \<union> set (m_Periods t)) \<and>
    (\<exists>t''. EraseMainPeriod t' = Some t'' \<and> set (m_Periods t'') = (set (m_Periods s) \<union> set (m_Periods t)) - {p} \<and>
       period.ordered (m_Periods t''))"
proof -
  let ?qs = "oset_insert_all key_less (m_Periods s) (m_Periods t)" and ?U = "set (m_Periods s) \<union> set (m_Periods t)"
  have qs: "set ?qs = ?U" "period.ordered ?qs"
    using period.set_insert_all_inj [OF inj_pair_key] assms(1) by auto
  have "nested_periods ?U" using assms(2) by (simp add: nested_periods_def)
  then have "oset_insert_all pair_less (m_Periods s) (m_Periods t) = ?qs" by (rule nested_insert_all)
  moreover have "oset_insert pair_less p ?qs = oset_insert key_less p ?qs"
    by (rule nested_insert) (use assms(2) qs(1) in simp)
  ultimately have eq: "oset_insert pair_less p (oset_insert_all pair_less (m_Periods s) (m_Periods t)) = oset_insert key_less p ?qs"
    by simp
  let ?ps = "oset_insert key_less p ?qs"
  have ps: "set ?ps = insert p ?U" "period.ordered ?ps"
    using period.set_insert_inj [OF inj_pair_key, of p ?qs] period.ordered_insert [OF qs(2)] qs(1) by auto
  obtain bs where bs: "?ps = bs @ [p]" "p \<notin> set bs"
    by (rule greatest_last [OF ps(2), of p]) (use ps(1) assms(3) Includes_key in auto)
  have "last ?ps = p" and split: "butlast ?ps = bs" unfolding bs(1) by simp_all
  have "insert p (set bs) = insert p ?U" using ps(1) unfolding bs(1) by simp
  then have but: "set (butlast ?ps) = ?U - {p}" using bs(2) split by auto
  have ordered: "period.ordered (butlast ?ps)" using ps(2) split unfolding bs(1) by (simp add: sorted_wrt_append)
  obtain t' where t': "AddSubPeriods s p t = Some t'" "tree_Pair t' = p" "m_Periods t' = ?ps"
    by (rule that [of "t\<lparr>m_Periods := ?ps, tree_Pair := p\<rparr>"])
      (simp_all add: AddSubPeriods_def eq GetMainPeriodBase_def \<open>last ?ps = p\<close> SetPairOf_eq [OF assms(4)])
  have "Includes p p" by (simp add: Includes_def)
  then have inc: "\<forall>q \<in> set ?ps. Includes (last ?ps) q" unfolding ps(1) \<open>last ?ps = p\<close> using assms(3) by blast
  have "subtree_ok t'" unfolding subtree_ok_def t'(3) using ps assms(2) inc by simp
  moreover have "GetMainPeriodBase t' = Inr p" by (simp add: GetMainPeriodBase_def t'(3) \<open>last ?ps = p\<close>)
  moreover have "EraseMainPeriod t' = Some (t'\<lparr>m_Periods := butlast ?ps\<rparr>)" by (simp add: EraseMainPeriod_def t'(3))
  moreover have "set (m_Periods (t'\<lparr>m_Periods := butlast ?ps\<rparr>)) = ?U - {p}" "period.ordered (m_Periods (t'\<lparr>m_Periods := butlast ?ps\<rparr>))"
    using but ordered by simp_all
  moreover have "set (m_Periods t') = insert p ?U" using ps(1) t'(3) by simp
  ultimately show ?thesis using t'(1,2) by blast
qed

theorem AddSubPeriods_correct_witness:
  "\<exists>t'. AddSubPeriods (sample_tree\<lparr>m_Periods := [sample_period 6 8]\<rparr>) (sample_period 0 9)
       (sample_tree\<lparr>m_Periods := [sample_period 1 2, sample_period 0 3]\<rparr>) = Some t' \<and>
     subtree_ok t' \<and> m_Periods t' = [sample_period 1 2, sample_period 0 3, sample_period 6 8, sample_period 0 9]"
proof -
  let ?s = "sample_tree\<lparr>m_Periods := [sample_period 6 8]\<rparr>" and ?t = "sample_tree\<lparr>m_Periods := [sample_period 1 2, sample_period 0 3]\<rparr>"
  have "map_option m_Periods (AddSubPeriods ?s (sample_period 0 9) ?t) =
      Some [sample_period 1 2, sample_period 0 3, sample_period 6 8, sample_period 0 9]" by code_simp
  moreover have "period.ordered (m_Periods ?t)" by (simp add: sample_period_def key_less_def pair_key_def)
  moreover have "nested_periods (insert (sample_period 0 9) (set (m_Periods ?s) \<union> set (m_Periods ?t)))"
    by (simp add: nested_periods_def sample_period_def pair_nested_def Includes_def Intersects_def)
  moreover have "\<forall>q \<in> set (m_Periods ?s) \<union> set (m_Periods ?t). Includes (sample_period 0 9) q"
    "pair_valid (FirstWord (sample_period 0 9)) (LastWord (sample_period 0 9))"
    by (simp_all add: Includes_def sample_period_def pair_valid_def)
  ultimately show ?thesis using AddSubPeriods_correct [of ?t "sample_period 0 9" ?s] by auto
qed

text \<open>The comparison of \<^verbatim>\<open>SSimplePeriodOrder\<close> is not an order: two periods may each be below the other.\<close>

lemma simple_period_less_symmetric:
  "simple_period_less (sample_period 1 5) (sample_period 2 3)" "simple_period_less (sample_period 2 3) (sample_period 1 5)"
  by (simp_all add: simple_period_less_def sample_period_def)

end
