(* ===== verification/WeightGroup.thy ===== *)
theory WeightGroup
  imports WordsPair InputItem GrammarItem "HOL-Library.Monad_Syntax"
begin

text \<open>
  Syntactic groups, the input items that a fact grammar builds (\<^verbatim>\<open>FactExtract/Parser/afdocparser/rusie/group.h\<close>,
  \<^verbatim>\<open>primitivegroup.h\<close>, \<^verbatim>\<open>factgroup.h\<close>, \<^verbatim>\<open>factgroup.cpp\<close>), with the agreements that were checked when a group was
  built (\<^verbatim>\<open>SAgr\<close> of \<^verbatim>\<open>agreement.h\<close>) and the weight of a group. The classes form a tree; a pointer to a group is the
  group. The words are a type variable, and what a group asks of a word is a record of functions.
\<close>

section \<open>Agreements\<close>

datatype ECoordFunc =
    SubjVerb | SubjAdjShort | GendreNumberCase | GendreNumber | NumberCaseAgr | CaseAgr | NumberAgr | AnyFunc
  | CheckLettForAbbrevs | CheckQuoted | CheckLQuoted | CheckRQuoted | FeminCaseAgr | FioAgr | GendreCase
  | IzafetAgr | AfterNumAgr | GeoAgr | CoordFuncCount

record SAgr =
  m_AgreeItems :: "int list"
  agr_Grammems :: TGramBitSet
  agr_NegativeGrammems :: TGramBitSet
  e_AgrProcedure :: ECoordFunc
  m_bNegativeAgreement :: bool

definition gram_any :: "TGramBitSet \<Rightarrow> bool" where
  "gram_any g \<longleftrightarrow> list_ex (\<lambda>chunk. chunk \<noteq> 0) g"

definition agr_init :: SAgr where
  "agr_init = \<lparr>m_AgreeItems = [], agr_Grammems = [], agr_NegativeGrammems = [], e_AgrProcedure = CoordFuncCount,
     m_bNegativeAgreement = False\<rparr>"

definition agr_unary :: "int \<Rightarrow> TGramBitSet \<Rightarrow> bool \<Rightarrow> SAgr" where
  "agr_unary iItemNum iGrammems bNegative =
     (let A = agr_init\<lparr>m_bNegativeAgreement := bNegative, m_AgreeItems := [iItemNum]\<rparr>
      in if \<not> bNegative then A\<lparr>agr_Grammems := iGrammems\<rparr> else A\<lparr>agr_NegativeGrammems := iGrammems\<rparr>)"

definition IsUnary :: "SAgr \<Rightarrow> bool" where
  "IsUnary A \<longleftrightarrow> length (m_AgreeItems A) = 1 \<and> gram_any (agr_Grammems A)"

record CCheckedAgreement =
  m_AgreementType :: SAgr
  m_WordNo1 :: int
  m_WordNo2 :: int

definition checked_IsUnary :: "CCheckedAgreement \<Rightarrow> bool" where
  "checked_IsUnary A \<longleftrightarrow> IsUnary (m_AgreementType A) \<and> m_WordNo1 A = m_WordNo2 A"

section \<open>Groups\<close>

record CWeightSynGroup =
  wg_Pair :: CWordsPair
  UserWeight :: TWeight
  m_KwtypesCount :: int
  m_CheckedAgrs :: "CCheckedAgreement list"

definition weight_group_init :: CWeightSynGroup where
  "weight_group_init =
     \<lparr>wg_Pair = words_pair_empty, UserWeight = weight_default, m_KwtypesCount = - 1, m_CheckedAgrs = []\<rparr>"

text \<open>A primitive group is a word; a fact group has its main group and its children.\<close>

datatype 'w CGroup =
    CPrimitiveGroup CWordsPair 'w
  | CFactSynGroup CWeightSynGroup "'w CGroup" "'w CGroup list"

record 'w CWordQueries =
  GetSourcePair :: "'w \<Rightarrow> CWordsPair"
  IsComma :: "'w \<Rightarrow> bool"
  IsAndConj :: "'w \<Rightarrow> bool"

fun group_Pair :: "'w CGroup \<Rightarrow> CWordsPair" where
  "group_Pair (CPrimitiveGroup p w) = p"
| "group_Pair (CFactSynGroup g main Children) = wg_Pair g"

fun GetMainPrimitiveGroup :: "'w CGroup \<Rightarrow> CWordsPair \<times> 'w" where
  "GetMainPrimitiveGroup (CPrimitiveGroup p w) = (p, w)"
| "GetMainPrimitiveGroup (CFactSynGroup g main Children) = GetMainPrimitiveGroup main"

fun GetMainWord :: "'w CGroup \<Rightarrow> 'w" where
  "GetMainWord (CPrimitiveGroup p w) = w"
| "GetMainWord (CFactSynGroup g main Children) = GetMainWord main"

text \<open>\<^verbatim>\<open>GetCoverage\<close> of an input item is 0 unless it is a fact group.\<close>

fun GetCoverage :: "'w CWordQueries \<Rightarrow> 'w CGroup \<Rightarrow> nat" where
  "GetCoverage W (CPrimitiveGroup p w) = 0"
| "GetCoverage W (CFactSynGroup g main Children) =
     sum_list (map (\<lambda>c. case c of
         CPrimitiveGroup p w \<Rightarrow>
           (if \<not> IsComma W w \<and> \<not> IsAndConj W w then pair_Size (GetSourcePair W w) else 0)
       | CFactSynGroup g' main' Children' \<Rightarrow> GetCoverage W c) Children)"

fun GetMaxChildWithThisFirstWord :: "int \<Rightarrow> 'w CGroup \<Rightarrow> 'w CGroup option"
  and max_child_of :: "int \<Rightarrow> 'w CGroup list \<Rightarrow> 'w CGroup option" where
  "GetMaxChildWithThisFirstWord n (CPrimitiveGroup p w) = None"
| "GetMaxChildWithThisFirstWord n (CFactSynGroup g main Children) =
     (if FirstWord (wg_Pair g) = n then Some (CFactSynGroup g main Children) else max_child_of n Children)"
| "max_child_of n [] = None"
| "max_child_of n (c # cs) =
     (if Includes (group_Pair c) \<lparr>FirstWord = n, LastWord = n\<rparr> then GetMaxChildWithThisFirstWord n c
      else max_child_of n cs)"

fun GetChildByWordPair :: "CWordsPair \<Rightarrow> 'w CGroup \<Rightarrow> 'w CGroup option"
  and child_of_pair :: "CWordsPair \<Rightarrow> 'w CGroup list \<Rightarrow> 'w CGroup option" where
  "GetChildByWordPair q (CPrimitiveGroup p w) = None"
| "GetChildByWordPair q (CFactSynGroup g main Children) =
     (if pair_eq (wg_Pair g) q then Some (CFactSynGroup g main Children) else child_of_pair q Children)"
| "child_of_pair q [] = None"
| "child_of_pair q (c # cs) = (if Includes (group_Pair c) q then GetChildByWordPair q c else child_of_pair q cs)"

fun GetFirstWord :: "'w CGroup \<Rightarrow> string + 'w" where
  "GetFirstWord (CPrimitiveGroup p w) = Inr w"
| "GetFirstWord (CFactSynGroup g main Children) =
     (if pair_Size (wg_Pair g) = 1 then Inr (GetMainWord main)
      else case Children of [] \<Rightarrow> Inl ''No children'' | c # _ \<Rightarrow> GetFirstWord c)"

fun GetLastWord :: "'w CGroup \<Rightarrow> string + 'w" where
  "GetLastWord (CPrimitiveGroup p w) = Inr w"
| "GetLastWord (CFactSynGroup g main Children) =
     (if pair_Size (wg_Pair g) = 1 then Inr (GetMainWord main)
      else if Children = [] then Inl ''No children'' else last (map GetLastWord Children))"

section \<open>The weight of a group\<close>

definition MaxRelationWeight :: int where "MaxRelationWeight = 3"

definition GetAgreementWeight :: "CCheckedAgreement \<Rightarrow> int" where
  "GetAgreementWeight A =
     (case e_AgrProcedure (m_AgreementType A) of
        GendreNumberCase \<Rightarrow> MaxRelationWeight
      | GendreNumber \<Rightarrow> 2
      | GendreCase \<Rightarrow> 2
      | NumberCaseAgr \<Rightarrow> 2
      | CaseAgr \<Rightarrow> 1
      | FeminCaseAgr \<Rightarrow> 1
      | _ \<Rightarrow> 0)"

definition GetRelevantAgrWeight :: "CCheckedAgreement list \<Rightarrow> int" where
  "GetRelevantAgrWeight CheckedAgrs = sum_list (map GetAgreementWeight CheckedAgrs)"

text \<open>\<^verbatim>\<open>size_t\<close> and \<^verbatim>\<open>ui64\<close> are 64-bit words; a division by zero is \<open>None\<close>.\<close>

definition GetWeightByAgreement :: "CWeightSynGroup \<Rightarrow> TWeight option" where
  "GetWeightByAgreement g =
     (let weight = GetRelevantAgrWeight (m_CheckedAgrs g); group_size = word_of_nat (pair_Size (wg_Pair g)) :: 64 word
      in if group_size = 1 then Some weight_default
         else let norm = (word_of_int MaxRelationWeight * group_size * (group_size - 1)) div 2
           in if weight = 0 then weight_ratio 9 (10 * norm) else weight_ratio (word_of_int weight) norm)"

definition IncrementKwtypesCount :: "int \<Rightarrow> CWeightSynGroup \<Rightarrow> CWeightSynGroup" where
  "IncrementKwtypesCount delta g =
     (let g = g\<lparr>m_KwtypesCount := m_KwtypesCount g + delta\<rparr>
      in if int (pair_Size (wg_Pair g)) < m_KwtypesCount g
         then g\<lparr>m_KwtypesCount := int (pair_Size (wg_Pair g))\<rparr> else g)"

definition GetWeightByKwTypes :: "CWeightSynGroup \<Rightarrow> TWeight option" where
  "GetWeightByKwTypes g =
     (if m_KwtypesCount g \<noteq> - 1 \<and> m_KwtypesCount g \<le> int (pair_Size (wg_Pair g))
      then weight_ratio (word_of_int (m_KwtypesCount g)) (word_of_nat (pair_Size (wg_Pair g))) else None)"

definition group_GetWeight :: "CWeightSynGroup \<Rightarrow> TWeight option" where
  "group_GetWeight g =
     do {
       a \<leftarrow> GetWeightByAgreement g;
       k \<leftarrow> GetWeightByKwTypes g;
       Some (weight_mean3 a k (UserWeight g))
     }"

fun AddAgreementsFrom :: "'w CGroup \<Rightarrow> CWeightSynGroup \<Rightarrow> CWeightSynGroup" where
  "AddAgreementsFrom (CFactSynGroup f main Children) g = g\<lparr>m_CheckedAgrs := m_CheckedAgrs g @ m_CheckedAgrs f\<rparr>"
| "AddAgreementsFrom (CPrimitiveGroup p w) g = g"

definition AddUserWeight :: "TWeight \<Rightarrow> CWeightSynGroup \<Rightarrow> CWeightSynGroup" where
  "AddUserWeight w g = g\<lparr>UserWeight := weight_times (UserWeight g) w\<rparr>"

fun AddWeightOfChild :: "'w CGroup \<Rightarrow> CWeightSynGroup \<Rightarrow> CWeightSynGroup" where
  "AddWeightOfChild (CFactSynGroup f main Children) g =
     AddUserWeight (UserWeight f) (AddAgreementsFrom (CFactSynGroup f main Children) (IncrementKwtypesCount (m_KwtypesCount f) g))"
| "AddWeightOfChild (CPrimitiveGroup p w) g = g"

section \<open>The agreements of a new group\<close>

definition MaxChildrenCount :: nat where "MaxChildrenCount = 250"

text \<open>
  One pass of \<^verbatim>\<open>SaveCheckedAgreements\<close> over the agreements of a rule. The state is \<^verbatim>\<open>DepentOnRoot\<close>, the agreements
  stored so far and \<^verbatim>\<open>bNewAgreemsFound\<close>.
\<close>

definition item_range :: "int \<Rightarrow> 'w CGroup list \<Rightarrow> bool" where
  "item_range i children \<longleftrightarrow> \<not> (i < 0 \<or> nat i \<ge> length children)"

definition main_first :: "'w CGroup list \<Rightarrow> int \<Rightarrow> int" where
  "main_first children i = FirstWord (fst (GetMainPrimitiveGroup (children ! nat i)))"

fun agreements_pass ::
  "'w CGroup list \<Rightarrow> SAgr list \<Rightarrow> bool list \<times> CCheckedAgreement list \<times> bool
     \<Rightarrow> string + bool list \<times> CCheckedAgreement list \<times> bool" where
  "agreements_pass children [] st = Inr st"
| "agreements_pass children (agr # agreements) (dep, stored, bNew) =
     (let checked = (\<lambda>i1 i2. \<lparr>m_AgreementType = agr, m_WordNo1 = main_first children i1, m_WordNo2 = main_first children i2\<rparr>)
      in if IsUnary agr then
           (let iChild = m_AgreeItems agr ! 0
            in if \<not> item_range iChild children then Inl ''Bad agreement.''
               else agreements_pass children agreements (dep, stored @ [checked iChild iChild], bNew))
         else if length (m_AgreeItems agr) \<noteq> 2 then agreements_pass children agreements (dep, stored, bNew)
         else
           (let i1 = m_AgreeItems agr ! 0; i2 = m_AgreeItems agr ! 1
            in if \<not> item_range i1 children \<or> \<not> item_range i2 children then Inl ''Bad agreement.''
               else if dep ! nat i1 = dep ! nat i2 then agreements_pass children agreements (dep, stored, bNew)
               else if m_bNegativeAgreement agr then agreements_pass children agreements (dep, stored, bNew)
               else agreements_pass children agreements
                      (if \<not> dep ! nat i1 then dep[nat i1 := True] else dep[nat i2 := True],
                       stored @ [checked i1 i2], True)))"

text \<open>The outer loop; \<open>None\<close> would be not returning.\<close>

partial_function (option) agreements_loop ::
  "'w CGroup list \<Rightarrow> SAgr list \<Rightarrow> bool list \<times> CCheckedAgreement list
     \<Rightarrow> (string + bool list \<times> CCheckedAgreement list) option" where
  "agreements_loop children agreements st =
     (case agreements_pass children agreements (fst st, snd st, False) of
        Inl e \<Rightarrow> Some (Inl e)
      | Inr (dep, stored, bNew) \<Rightarrow>
          if bNew then agreements_loop children agreements (dep, stored) else Some (Inr (dep, stored)))"

declare agreements_loop.simps [code]

text \<open>
  \<^verbatim>\<open>SaveCheckedAgreements\<close>: the agreements of the children, then the loop. The outer \<open>None\<close> is the failed assertion, or
  not returning.
\<close>

definition SaveCheckedAgreements ::
  "SAgr list \<Rightarrow> nat \<Rightarrow> 'w CGroup list \<Rightarrow> CWeightSynGroup \<Rightarrow> (string + CWeightSynGroup) option" where
  "SaveCheckedAgreements agreements iSynMainItemNo children g =
     (if \<not> length children < MaxChildrenCount then None
      else let g = fold AddAgreementsFrom children g
        in case agreements_loop children agreements
                  ((replicate MaxChildrenCount False)[iSynMainItemNo := True], m_CheckedAgrs g) of
             None \<Rightarrow> None
           | Some (Inl e) \<Rightarrow> Some (Inl e)
           | Some (Inr (_, stored)) \<Rightarrow> Some (Inr (g\<lparr>m_CheckedAgrs := stored\<rparr>)))"

section \<open>Which agreements are stored\<close>

text \<open>An agreement with a number that is no child is an error, of the unary ones and of those between two items.\<close>

definition bad_agreement :: "'w CGroup list \<Rightarrow> SAgr \<Rightarrow> bool" where
  "bad_agreement children agr \<longleftrightarrow>
     (IsUnary agr \<or> length (m_AgreeItems agr) = 2) \<and> (\<exists>i \<in> set (m_AgreeItems agr). \<not> item_range i children)"

definition binary_agreement :: "SAgr \<Rightarrow> bool" where
  "binary_agreement agr \<longleftrightarrow> \<not> IsUnary agr \<and> length (m_AgreeItems agr) = 2 \<and> \<not> m_bNegativeAgreement agr"

definition agreement_edges :: "SAgr list \<Rightarrow> (nat \<times> nat) set" where
  "agreement_edges agreements =
     (\<lambda>agr. (nat (m_AgreeItems agr ! 0), nat (m_AgreeItems agr ! 1))) ` {agr \<in> set agreements. binary_agreement agr}"

lemma agreement_edges_Cons:
  "agreement_edges (agr # agreements) = (if binary_agreement agr
     then insert (nat (m_AgreeItems agr ! 0), nat (m_AgreeItems agr ! 1)) (agreement_edges agreements)
     else agreement_edges agreements)"
  by (auto simp: agreement_edges_def)

lemma items_one: "IsUnary agr \<Longrightarrow> set (m_AgreeItems agr) = {m_AgreeItems agr ! 0}"
  by (cases "m_AgreeItems agr") (auto simp: IsUnary_def)

abbreviation depends :: "bool list \<Rightarrow> nat set" where
  "depends dep \<equiv> {i. i < length dep \<and> dep ! i}"

text \<open>
  An agreement as it is stored: the agreement of the rule, with the first words of the main primitive groups of the
  children it names.
\<close>

definition stored_agreement :: "'w CGroup list \<Rightarrow> SAgr list \<Rightarrow> CCheckedAgreement \<Rightarrow> bool" where
  "stored_agreement children agreements A \<longleftrightarrow>
     m_AgreementType A \<in> set agreements \<and> (IsUnary (m_AgreementType A) \<or> binary_agreement (m_AgreementType A)) \<and>
     m_WordNo1 A = FirstWord (fst (GetMainPrimitiveGroup (children ! nat (hd (m_AgreeItems (m_AgreementType A)))))) \<and>
     m_WordNo2 A = FirstWord (fst (GetMainPrimitiveGroup (children ! nat (last (m_AgreeItems (m_AgreementType A))))))"

definition binary_ends :: "CCheckedAgreement list \<Rightarrow> (nat \<times> nat) list" where
  "binary_ends stored =
     map (\<lambda>A. (nat (m_AgreeItems (m_AgreementType A) ! 0), nat (m_AgreeItems (m_AgreementType A) ! 1)))
       (filter (\<lambda>A. \<not> IsUnary (m_AgreementType A)) stored)"

definition unary_types :: "CCheckedAgreement list \<Rightarrow> SAgr list" where
  "unary_types stored = map m_AgreementType (filter (\<lambda>A. IsUnary (m_AgreementType A)) stored)"

text \<open>Edges that grow a tree from a set of nodes: each has one end among the nodes reached before it.\<close>

fun grows_tree :: "'n set \<Rightarrow> ('n \<times> 'n) list \<Rightarrow> bool" where
  "grows_tree D [] = True"
| "grows_tree D ((i, j) # es) = ((i \<in> D) \<noteq> (j \<in> D) \<and> grows_tree (D \<union> {i, j}) es)"

definition reached :: "'n set \<Rightarrow> ('n \<times> 'n) list \<Rightarrow> 'n set" where
  "reached D es = D \<union> fst ` set es \<union> snd ` set es"

lemma reached_simps [simp]:
  "reached D [] = D" "reached D ((i, j) # es) = reached (insert i (insert j D)) es"
  "reached D (es @ fs) = reached (reached D es) fs"
  by (auto simp: reached_def)

lemma grows_tree_append: "grows_tree D (es @ fs) \<longleftrightarrow> grows_tree D es \<and> grows_tree (reached D es) fs"
  by (induction es arbitrary: D) (auto simp: insert_commute)

lemma grows_tree_card: "finite D \<Longrightarrow> grows_tree D es \<Longrightarrow> card (reached D es) = card D + length es"
  by (induction D es rule: grows_tree.induct) (auto simp: insert_absorb)

lemma stored_types_simps [simp]:
  "binary_ends [] = []" "unary_types [] = []"
  "binary_ends (A # As) = (if IsUnary (m_AgreementType A) then binary_ends As
     else (nat (m_AgreeItems (m_AgreementType A) ! 0), nat (m_AgreeItems (m_AgreementType A) ! 1)) # binary_ends As)"
  "unary_types (A # As) = (if IsUnary (m_AgreementType A) then m_AgreementType A # unary_types As else unary_types As)"
  "binary_ends (As @ Bs) = binary_ends As @ binary_ends Bs" "unary_types (As @ Bs) = unary_types As @ unary_types Bs"
  by (simp_all add: binary_ends_def unary_types_def)

lemma stored_agreement_Cons: "stored_agreement children agreements A \<Longrightarrow> stored_agreement children (agr # agreements) A"
  by (simp add: stored_agreement_def)

lemma stored_agreement_checked:
  "IsUnary agr \<Longrightarrow> stored_agreement children (agr # agreements)
     \<lparr>m_AgreementType = agr, m_WordNo1 = main_first children (m_AgreeItems agr ! 0),
      m_WordNo2 = main_first children (m_AgreeItems agr ! 0)\<rparr>"
  "binary_agreement agr \<Longrightarrow> stored_agreement children (agr # agreements)
     \<lparr>m_AgreementType = agr, m_WordNo1 = main_first children (m_AgreeItems agr ! 0),
      m_WordNo2 = main_first children (m_AgreeItems agr ! 1)\<rparr>"
  by (auto simp: stored_agreement_def main_first_def IsUnary_def binary_agreement_def hd_conv_nth last_conv_nth
      numeral_2_eq_2 simp flip: length_greater_0_conv)

text \<open>What a pass does, for agreements without an error among them.\<close>

definition pass_result ::
  "'w CGroup list \<Rightarrow> SAgr list \<Rightarrow> bool list \<times> CCheckedAgreement list \<times> bool
     \<Rightarrow> bool list \<times> CCheckedAgreement list \<times> bool \<Rightarrow> bool" where
  "pass_result children agreements st st' \<longleftrightarrow>
     (\<exists>dep stored bNew dep' new bNew'. st = (dep, stored, bNew) \<and> st' = (dep', stored @ new, bNew') \<and>
        length dep' = length dep \<and> depends dep \<subseteq> depends dep' \<and> (bNew' \<longleftrightarrow> bNew \<or> dep' \<noteq> dep) \<and>
        depends dep' \<subseteq> ((agreement_edges agreements) \<union> (agreement_edges agreements)\<inverse>)\<^sup>* `` depends dep \<and>
        (\<forall>A \<in> set new. stored_agreement children agreements A) \<and> unary_types new = filter IsUnary agreements \<and>
        grows_tree (depends dep) (binary_ends new) \<and> depends dep' = reached (depends dep) (binary_ends new) \<and>
        (dep' = dep \<longrightarrow> (\<forall>(i, j) \<in> agreement_edges agreements. dep ! i = dep ! j)))"

lemma pass_resultD:
  assumes "pass_result children agreements (dep, stored, bNew) st'"
  obtains dep' new where "st' = (dep', stored @ new, bNew \<or> dep' \<noteq> dep)" "length dep' = length dep"
    "depends dep \<subseteq> depends dep'"
    "depends dep' \<subseteq> ((agreement_edges agreements) \<union> (agreement_edges agreements)\<inverse>)\<^sup>* `` depends dep"
    "\<forall>A \<in> set new. stored_agreement children agreements A" "unary_types new = filter IsUnary agreements"
    "grows_tree (depends dep) (binary_ends new)" "depends dep' = reached (depends dep) (binary_ends new)"
    "dep' = dep \<longrightarrow> (\<forall>(i, j) \<in> agreement_edges agreements. dep ! i = dep ! j)"
  using assms unfolding pass_result_def prod.inject by blast

lemma depends_update:
  assumes "i < length dep" "\<not> dep ! i"
  shows "depends (dep[i := True]) = insert i (depends dep)" "card (depends (dep[i := True])) = Suc (card (depends dep))"
proof -
  show eq: "depends (dep[i := True]) = insert i (depends dep)" using assms(1) by (auto simp: nth_list_update)
  have "i \<notin> depends dep" "finite (depends dep)" using assms(2) by auto
  then show "card (depends (dep[i := True])) = Suc (card (depends dep))" unfolding eq by simp
qed

lemma depends_eq: "length dep' = length dep \<Longrightarrow> depends dep' = depends dep \<Longrightarrow> dep' = dep"
  by (intro nth_equalityI) auto

text \<open>A new dependent at one end of an edge, followed by the rest of the pass.\<close>

lemma pass_result_link:
  assumes rest: "pass_result children agreements (dep[k := True], stored @ [A], True) st'"
    and ends: "(i, j) = (nat (m_AgreeItems agr ! 0), nat (m_AgreeItems agr ! 1))" "binary_agreement agr" "m_AgreementType A = agr"
    and A: "stored_agreement children (agr # agreements) A"
    and k: "k < length dep" "\<not> dep ! k" "k = i \<and> j < length dep \<and> dep ! j \<or> k = j \<and> i < length dep \<and> dep ! i"
  shows "pass_result children (agr # agreements) (dep, stored, bNew) st'"
proof -
  let ?E = "agreement_edges agreements" and ?F = "agreement_edges (agr # agreements)"
  obtain dep' new where r: "st' = (dep', (stored @ [A]) @ new, True \<or> dep' \<noteq> dep[k := True])" "length dep' = length (dep[k := True])"
    "depends (dep[k := True]) \<subseteq> depends dep'" "depends dep' \<subseteq> (?E \<union> ?E\<inverse>)\<^sup>* `` depends (dep[k := True])"
    "\<forall>A \<in> set new. stored_agreement children agreements A" "unary_types new = filter IsUnary agreements"
    "grows_tree (depends (dep[k := True])) (binary_ends new)" "depends dep' = reached (depends (dep[k := True])) (binary_ends new)"
    by (rule pass_resultD [OF rest])
  have F: "?F = insert (i, j) ?E" using ends(1,2) by (simp add: agreement_edges_Cons)
  have sub: "(?E \<union> ?E\<inverse>)\<^sup>* \<subseteq> (?F \<union> ?F\<inverse>)\<^sup>*" by (rule rtrancl_mono) (auto simp: F)
  have "k \<in> (?F \<union> ?F\<inverse>)\<^sup>* `` depends dep"
    using k(3)
  proof
    assume *: "k = i \<and> j < length dep \<and> dep ! j"
    then have "(j, k) \<in> (?F \<union> ?F\<inverse>)\<^sup>*" by (auto simp: F)
    then show ?thesis using * by blast
  next
    assume *: "k = j \<and> i < length dep \<and> dep ! i"
    then have "(i, k) \<in> (?F \<union> ?F\<inverse>)\<^sup>*" by (auto simp: F)
    then show ?thesis using * by blast
  qed
  then have "depends (dep[k := True]) \<subseteq> (?F \<union> ?F\<inverse>)\<^sup>* `` depends dep"
    unfolding depends_update [OF k(1,2)] by auto
  then have "(?F \<union> ?F\<inverse>)\<^sup>* `` depends (dep[k := True]) \<subseteq> (?F \<union> ?F\<inverse>)\<^sup>* `` ((?F \<union> ?F\<inverse>)\<^sup>* `` depends dep)"
    by (rule Image_mono [OF subset_refl])
  also have "\<dots> = (?F \<union> ?F\<inverse>)\<^sup>* `` depends dep" by (simp add: relcomp_Image [symmetric])
  finally have "depends dep' \<subseteq> (?F \<union> ?F\<inverse>)\<^sup>* `` depends dep"
    using r(4) Image_mono [OF sub subset_refl] by (rule subset_trans [OF _ subset_trans, rotated 2])
  moreover have "k \<in> depends dep'" using r(3) unfolding depends_update [OF k(1,2)] by blast
  then have "dep' \<noteq> dep" using k(2) by auto
  moreover have unary: "\<not> IsUnary (m_AgreementType A)" using ends(2,3) by (simp add: binary_agreement_def)
  moreover have "unary_types (A # new) = filter IsUnary (agr # agreements)" using unary r(6) ends(3) by simp
  moreover have more: "depends (dep[k := True]) = insert i (insert j (depends dep))"
    unfolding depends_update(1) [OF k(1,2)] using k(1,3) by auto
  have one: "(i \<in> depends dep) \<noteq> (j \<in> depends dep)" using k by auto
  have es: "binary_ends (A # new) = (i, j) # binary_ends new" using unary ends(1,3) by simp
  have "depends dep \<union> {i, j} = depends (dep[k := True])" unfolding more by auto
  then have "grows_tree (depends dep) (binary_ends (A # new))" unfolding es grows_tree.simps using one r(7) by simp
  moreover have "depends dep' = reached (depends dep) (binary_ends (A # new))" unfolding es reached_simps more [symmetric] by (rule r(8))
  moreover have "depends dep \<subseteq> depends dep'" using r(3) unfolding depends_update(1) [OF k(1,2)] by blast
  moreover have "\<forall>B \<in> set (A # new). stored_agreement children (agr # agreements) B"
    using r(5) A by (auto intro: stored_agreement_Cons)
  ultimately show ?thesis
    unfolding pass_result_def using r(1,2)
    by (intro exI [of _ dep] exI [of _ stored] exI [of _ bNew] exI [of _ dep'] exI [of _ "A # new"] exI [of _ True]) simp
qed

lemma pass_result_skip:
  assumes rest: "pass_result children agreements (dep, stored @ xs, bNew) st'"
    and xs: "\<forall>A \<in> set xs. stored_agreement children (agr # agreements) A" "unary_types xs = filter IsUnary [agr]"
      "binary_ends xs = []"
    and edge: "binary_agreement agr \<Longrightarrow> dep ! nat (m_AgreeItems agr ! 0) = dep ! nat (m_AgreeItems agr ! 1)"
  shows "pass_result children (agr # agreements) (dep, stored, bNew) st'"
proof -
  let ?E = "agreement_edges agreements" and ?F = "agreement_edges (agr # agreements)"
  obtain dep' new where r: "st' = (dep', (stored @ xs) @ new, bNew \<or> dep' \<noteq> dep)" "length dep' = length dep"
    "depends dep \<subseteq> depends dep'" "depends dep' \<subseteq> (?E \<union> ?E\<inverse>)\<^sup>* `` depends dep"
    "\<forall>A \<in> set new. stored_agreement children agreements A" "unary_types new = filter IsUnary agreements"
    "grows_tree (depends dep) (binary_ends new)" "depends dep' = reached (depends dep) (binary_ends new)"
    "dep' = dep \<longrightarrow> (\<forall>(i, j) \<in> ?E. dep ! i = dep ! j)"
    by (rule pass_resultD [OF rest])
  have "?E \<subseteq> ?F" by (auto simp: agreement_edges_Cons)
  then have "(?E \<union> ?E\<inverse>)\<^sup>* \<subseteq> (?F \<union> ?F\<inverse>)\<^sup>*" by (intro rtrancl_mono) auto
  then have "depends dep' \<subseteq> (?F \<union> ?F\<inverse>)\<^sup>* `` depends dep" using r(4) by blast
  moreover have "dep' = dep \<longrightarrow> (\<forall>(i, j) \<in> ?F. dep ! i = dep ! j)" using r(9) edge by (auto simp: agreement_edges_Cons)
  moreover have "unary_types (xs @ new) = filter IsUnary (agr # agreements)" using r(6) xs(2) by simp
  moreover have "binary_ends (xs @ new) = binary_ends new" using xs(3) by simp
  moreover have "\<forall>B \<in> set (xs @ new). stored_agreement children (agr # agreements) B"
    using r(5) xs(1) by (auto intro: stored_agreement_Cons)
  ultimately show ?thesis
    unfolding pass_result_def
    using r(1-3,7,8)
    by (intro exI [of _ dep] exI [of _ stored] exI [of _ bNew] exI [of _ dep'] exI [of _ "xs @ new"] exI [of _ "bNew \<or> dep' \<noteq> dep"]) simp
qed

lemma agreements_pass_Inr:
  assumes "\<forall>agr \<in> set agreements. \<not> bad_agreement children agr" "length children \<le> length dep"
  shows "\<exists>st'. agreements_pass children agreements (dep, stored, bNew) = Inr st' \<and> pass_result children agreements (dep, stored, bNew) st'"
  using assms
proof (induction agreements arbitrary: dep stored bNew)
  case Nil
  have "pass_result children [] (dep, stored, bNew) (dep, stored, bNew)"
    by (simp add: pass_result_def agreement_edges_def)
  then show ?case by simp
next
  case (Cons agr agreements)
  let ?i1 = "m_AgreeItems agr ! 0" and ?i2 = "m_AgreeItems agr ! 1"
  have ok: "\<not> bad_agreement children agr" "\<forall>agr \<in> set agreements. \<not> bad_agreement children agr" using Cons.prems(1) by auto
  note IH = Cons.IH [OF ok(2)]
  consider (unary) "IsUnary agr" | (short) "\<not> IsUnary agr" "length (m_AgreeItems agr) \<noteq> 2"
    | (two) "\<not> IsUnary agr" "length (m_AgreeItems agr) = 2" by blast
  then show ?case
  proof cases
    case unary
    have "item_range ?i1 children" using ok(1) unary items_one [OF unary] by (auto simp: bad_agreement_def)
    then show ?thesis
      using IH [OF Cons.prems(2), of "stored @ [\<lparr>m_AgreementType = agr, m_WordNo1 = main_first children ?i1,
          m_WordNo2 = main_first children ?i1\<rparr>]" bNew] unary
      by (auto simp: binary_agreement_def Let_def stored_agreement_checked intro!: pass_result_skip)
  next
    case short
    then show ?thesis
      using IH [OF Cons.prems(2), of stored bNew] by (auto simp: binary_agreement_def intro!: pass_result_skip [where xs = "[]"])
  next
    case two
    have range: "item_range ?i1 children" "item_range ?i2 children"
      using ok(1) two set_two [OF two(2)] by (auto simp: bad_agreement_def)
    then have len: "nat ?i1 < length dep" "nat ?i2 < length dep" using Cons.prems(2) by (auto simp: item_range_def)
    show ?thesis
    proof (cases "dep ! nat ?i1 = dep ! nat ?i2 \<or> m_bNegativeAgreement agr")
      case True
      then have "agreements_pass children (agr # agreements) (dep, stored, bNew) =
          agreements_pass children agreements (dep, stored, bNew)" using two range by (auto simp: Let_def)
      moreover have "pass_result children (agr # agreements) (dep, stored, bNew) st'" if "pass_result children agreements (dep, stored, bNew) st'" for st'
        by (rule pass_result_skip [where xs = "[]"]) (use that True two in \<open>auto simp: binary_agreement_def\<close>)
      ultimately show ?thesis using IH [OF Cons.prems(2), of stored bNew] by auto
    next
      case False
      define k where "k = (if \<not> dep ! nat ?i1 then nat ?i1 else nat ?i2)"
      let ?A = "\<lparr>m_AgreementType = agr, m_WordNo1 = main_first children ?i1, m_WordNo2 = main_first children ?i2\<rparr>"
      have bin: "binary_agreement agr" using two False by (simp add: binary_agreement_def)
      have eq: "agreements_pass children (agr # agreements) (dep, stored, bNew) =
          agreements_pass children agreements (dep[k := True], stored @ [?A], True)"
        using two range False by (simp add: Let_def k_def)
      have k: "k < length dep" "\<not> dep ! k"
        "k = nat ?i1 \<and> nat ?i2 < length dep \<and> dep ! nat ?i2 \<or> k = nat ?i2 \<and> nat ?i1 < length dep \<and> dep ! nat ?i1"
        using False len by (auto simp: k_def)
      obtain st' where st': "agreements_pass children agreements (dep[k := True], stored @ [?A], True) = Inr st'"
        "pass_result children agreements (dep[k := True], stored @ [?A], True) st'"
        using IH [of "dep[k := True]" "stored @ [?A]" True] Cons.prems(2) by auto
      have "pass_result children (agr # agreements) (dep, stored, bNew) st'"
        by (rule pass_result_link [OF st'(2) refl bin _ stored_agreement_checked(2) [OF bin] k]) simp
      then show ?thesis using eq st'(1) by auto
    qed
  qed
qed

lemma agreements_pass_Inl:
  assumes "agr \<in> set agreements" "bad_agreement children agr"
  shows "agreements_pass children agreements st = Inl ''Bad agreement.''"
  using assms
proof (induction agreements arbitrary: st)
  case (Cons a agreements)
  obtain dep stored bNew where st: "st = (dep, stored, bNew)" by (cases st)
  show ?case
  proof (cases "bad_agreement children a")
    case True
    then show ?thesis
    proof (cases "IsUnary a")
      case True
      then show ?thesis using \<open>bad_agreement children a\<close> items_one [OF True] by (simp add: bad_agreement_def st Let_def)
    next
      case False
      then have "length (m_AgreeItems a) = 2" using \<open>bad_agreement children a\<close> by (simp add: bad_agreement_def)
      then have "\<not> item_range (m_AgreeItems a ! 0) children \<or> \<not> item_range (m_AgreeItems a ! 1) children"
        using \<open>bad_agreement children a\<close> unfolding bad_agreement_def set_two [OF \<open>length (m_AgreeItems a) = 2\<close>] by blast
      then show ?thesis using False \<open>length (m_AgreeItems a) = 2\<close> by (auto simp: st Let_def)
    qed
  next
    case False
    then have "\<And>st'. agreements_pass children agreements st' = Inl ''Bad agreement.''" using Cons by auto
    then show ?thesis unfolding st by (simp add: Let_def)
  qed
qed simp

text \<open>What the loop does: the same, until the dependents are closed under the agreements.\<close>

definition loop_result :: "'w CGroup list \<Rightarrow> SAgr list \<Rightarrow> bool list \<Rightarrow> bool list \<Rightarrow> CCheckedAgreement list \<Rightarrow> bool" where
  "loop_result children agreements dep dep' new \<longleftrightarrow>
     length dep' = length dep \<and> depends dep \<subseteq> depends dep' \<and>
     depends dep' \<subseteq> (agreement_edges agreements \<union> (agreement_edges agreements)\<inverse>)\<^sup>* `` depends dep \<and>
     (\<forall>A \<in> set new. stored_agreement children agreements A) \<and>
     (\<exists>n. unary_types new = concat (replicate (Suc n) (filter IsUnary agreements))) \<and>
     grows_tree (depends dep) (binary_ends new) \<and> depends dep' = reached (depends dep) (binary_ends new) \<and>
     (\<forall>(i, j) \<in> agreement_edges agreements. dep' ! i = dep' ! j)"

lemma agreements_loop_Inr:
  assumes "\<forall>agr \<in> set agreements. \<not> bad_agreement children agr" "length children \<le> length dep"
  shows "\<exists>dep' new. agreements_loop children agreements (dep, stored) = Some (Inr (dep', stored @ new)) \<and>
    loop_result children agreements dep dep' new"
  using assms(2)
proof (induction "length dep - card (depends dep)" arbitrary: dep stored rule: less_induct)
  case less
  let ?R = "(agreement_edges agreements \<union> (agreement_edges agreements)\<inverse>)\<^sup>*"
  obtain st' where pass: "agreements_pass children agreements (dep, stored, False) = Inr st'"
    "pass_result children agreements (dep, stored, False) st'" using agreements_pass_Inr [OF assms(1) less.prems] by blast
  obtain dep1 new1 where r: "st' = (dep1, stored @ new1, False \<or> dep1 \<noteq> dep)" "length dep1 = length dep"
    "depends dep \<subseteq> depends dep1" "depends dep1 \<subseteq> ?R `` depends dep"
    "\<forall>A \<in> set new1. stored_agreement children agreements A" "unary_types new1 = filter IsUnary agreements"
    "grows_tree (depends dep) (binary_ends new1)" "depends dep1 = reached (depends dep) (binary_ends new1)"
    "dep1 = dep \<longrightarrow> (\<forall>(i, j) \<in> agreement_edges agreements. dep ! i = dep ! j)"
    by (rule pass_resultD [OF pass(2)])
  show ?case
  proof (cases "dep1 \<noteq> dep")
    case False
    then have "agreements_loop children agreements (dep, stored) = Some (Inr (dep1, stored @ new1))"
      using pass(1) r(1) by (subst agreements_loop.simps) simp
    moreover have "unary_types new1 = concat (replicate (Suc 0) (filter IsUnary agreements))" using r(6) by simp
    then have "\<exists>n. unary_types new1 = concat (replicate (Suc n) (filter IsUnary agreements))" by (rule exI)
    moreover have "\<forall>(i, j) \<in> agreement_edges agreements. dep1 ! i = dep1 ! j" using r(9) False by simp
    ultimately show ?thesis unfolding loop_result_def using r(2-5,7,8) by (intro exI [of _ dep1] exI [of _ new1] conjI)
  next
    case True
    have "depends dep \<noteq> depends dep1" using depends_eq [OF r(2)] True by metis
    then have "card (depends dep) < card (depends dep1)" using r(3) by (intro psubset_card_mono) auto
    moreover have "card (depends dep1) \<le> length dep1" by (rule order_trans [OF card_mono [of "{..<length dep1}"]]) auto
    ultimately have "length dep1 - card (depends dep1) < length dep - card (depends dep)" using r(2) by linarith
    then obtain dep' new where IH: "agreements_loop children agreements (dep1, stored @ new1) = Some (Inr (dep', (stored @ new1) @ new))"
      "loop_result children agreements dep1 dep' new"
      using less.hyps [of dep1 "stored @ new1"] less.prems r(2) by auto
    note l = IH(2) [unfolded loop_result_def]
    have "agreements_loop children agreements (dep, stored) = Some (Inr (dep', stored @ new1 @ new))"
      using pass(1) r(1) True IH(1) by (subst agreements_loop.simps) simp
    moreover have "?R `` depends dep1 \<subseteq> ?R `` depends dep"
      using Image_mono [OF subset_refl r(4), of ?R] by (simp add: relcomp_Image [symmetric])
    then have "depends dep' \<subseteq> ?R `` depends dep" using l by blast
    moreover have "\<forall>A \<in> set (new1 @ new). stored_agreement children agreements A" using r(5) l by auto
    moreover obtain n where "unary_types new = concat (replicate (Suc n) (filter IsUnary agreements))" using l by blast
    then have "unary_types (new1 @ new) = concat (replicate (Suc (Suc n)) (filter IsUnary agreements))" using r(6) by simp
    then have "\<exists>n. unary_types (new1 @ new) = concat (replicate (Suc n) (filter IsUnary agreements))" by (rule exI)
    moreover have "grows_tree (depends dep) (binary_ends (new1 @ new))" using r(7,8) l by (simp add: grows_tree_append)
    moreover have "depends dep' = reached (depends dep1) (binary_ends new)" using l by blast
    then have "depends dep' = reached (depends dep) (binary_ends (new1 @ new))" unfolding r(8) stored_types_simps reached_simps .
    moreover have "length dep' = length dep" "depends dep \<subseteq> depends dep'" using r(2,3) l by simp_all blast
    moreover have "\<forall>(i, j) \<in> agreement_edges agreements. dep' ! i = dep' ! j" using l by blast
    ultimately show ?thesis unfolding loop_result_def by (intro exI [of _ dep'] exI [of _ "new1 @ new"] conjI)
  qed
qed

lemma closed_reach:
  assumes "\<forall>(i, j) \<in> E. P i = P j" "(x, y) \<in> (E \<union> E\<inverse>)\<^sup>*"
  shows "P x = P y"
  using assms(2) by (induction rule: rtrancl_induct) (use assms(1) in auto)

fun agreements_of :: "'w CGroup \<Rightarrow> CCheckedAgreement list" where
  "agreements_of (CFactSynGroup f main Children) = m_CheckedAgrs f"
| "agreements_of (CPrimitiveGroup p w) = []"

lemma fold_AddAgreementsFrom:
  "fold AddAgreementsFrom cs g = g\<lparr>m_CheckedAgrs := m_CheckedAgrs g @ concat (map agreements_of cs)\<rparr>"
proof (induction cs arbitrary: g)
  case (Cons c cs)
  then show ?case by (cases c) simp_all
qed simp

section \<open>Properties\<close>


definition sample_word_group :: "nat \<Rightarrow> nat CGroup" where
  "sample_word_group i = CPrimitiveGroup \<lparr>FirstWord = int i, LastWord = int i\<rparr> i"

definition sample_binary :: "int \<Rightarrow> int \<Rightarrow> SAgr" where
  "sample_binary i j = agr_init\<lparr>m_AgreeItems := [i, j], e_AgrProcedure := CaseAgr\<rparr>"


end
