(* ===== verification/PeriodAmbiguity.thy ===== *)
theory PeriodAmbiguity
  imports WeightGroup AhoKorasick "HOL-Library.Multiset"
begin

text \<open>
  The choice among overlapping occurrences, \<^verbatim>\<open>SolveAmbiguity\<close> (\<^verbatim>\<open>FactExtract/Parser/afdocparser/rusie/solveperiodambiguity.cpp\<close>):
  a dynamic program over the occurrences in the order of their right borders. \<^verbatim>\<open>std::sort\<close> is an argument: the order in
  which it leaves equal elements is its own. \<open>None\<close> is a failed assertion or a division by zero in a weight.
\<close>

section \<open>Solutions\<close>

record CPeriodSolutionWeight =
  m_Solution :: "nat list"
  m_VirtualGroup :: CWeightSynGroup
  m_Coverage :: int
  sol_Weight :: TWeight

definition solution_init :: CPeriodSolutionWeight where
  "solution_init = \<lparr>m_Solution = [], m_VirtualGroup = weight_group_init\<lparr>m_KwtypesCount := 0\<rparr>, m_Coverage = 0,
     sol_Weight = weight_Zero\<rparr>"

definition solution_less :: "CPeriodSolutionWeight \<Rightarrow> CPeriodSolutionWeight \<Rightarrow> bool" where
  "solution_less a b \<longleftrightarrow>
     (if m_Coverage a \<noteq> m_Coverage b then m_Coverage a < m_Coverage b
      else if \<not> weight_eq (sol_Weight a) (sol_Weight b) then weight_less (sol_Weight a) (sol_Weight b)
      else length (m_Solution a) > length (m_Solution b))"

definition solution_eq :: "CPeriodSolutionWeight \<Rightarrow> CPeriodSolutionWeight \<Rightarrow> bool" where
  "solution_eq a b \<longleftrightarrow> m_Coverage a = m_Coverage b \<and> weight_eq (sol_Weight a) (sol_Weight b)"

definition AddOccurrence ::
  "'w CWordQueries \<Rightarrow> 'w CGroup COccurrence \<Rightarrow> nat \<Rightarrow> CPeriodSolutionWeight \<Rightarrow> CPeriodSolutionWeight option" where
  "AddOccurrence W occ index s =
     do {
       (s, coverage) \<leftarrow>
         (case m_pInputItem occ of
            None \<Rightarrow> Some (s, 0)
          | Some item \<Rightarrow>
              do {
                p \<leftarrow> SetLastWord (int (occ_second occ) - 1) (wg_Pair (m_VirtualGroup s));
                let g = AddWeightOfChild item ((m_VirtualGroup s)\<lparr>wg_Pair := p\<rparr>);
                w \<leftarrow> group_GetWeight g;
                Some (s\<lparr>m_VirtualGroup := g, sol_Weight := w\<rparr>, GetCoverage W item)
              });
       let coverage = (if coverage = 0 then occ_second occ - occ_first occ else coverage);
       Some (s\<lparr>m_Coverage := m_Coverage s + int coverage, m_Solution := m_Solution s @ [index]\<rparr>)
     }"

definition SortByRightBorderPredicate :: "'i COccurrence \<Rightarrow> 'i COccurrence \<Rightarrow> bool" where
  "SortByRightBorderPredicate o1 o2 \<longleftrightarrow>
     (if occ_second o1 = occ_second o2 then occ_first o1 < occ_first o2 else occ_second o1 < occ_second o2)"

section \<open>The dynamic program\<close>

text \<open>
  The inner loop, downwards from \<open>j\<close>: the solution of the first occurrence to the left that does not overlap, and the best
  of the solutions of those passed before.
\<close>

fun scan_back ::
  "'i COccurrence list \<Rightarrow> CPeriodSolutionWeight list \<Rightarrow> 'i COccurrence \<Rightarrow> CPeriodSolutionWeight option \<Rightarrow> nat
     \<Rightarrow> CPeriodSolutionWeight option \<times> CPeriodSolutionWeight option" where
  "scan_back Occurrences solutions cur best_overlapping 0 = (None, best_overlapping)"
| "scan_back Occurrences solutions cur best_overlapping (Suc j) =
     (if occ_second (Occurrences ! j) \<le> occ_first cur then (Some (solutions ! j), best_overlapping)
      else scan_back Occurrences solutions cur
        (case best_overlapping of
           None \<Rightarrow> Some (solutions ! j)
         | Some b \<Rightarrow> if solution_less b (solutions ! j) then Some (solutions ! j) else Some b) j)"

definition solve_one ::
  "'w CWordQueries \<Rightarrow> 'w CGroup COccurrence list \<Rightarrow> nat \<Rightarrow> CPeriodSolutionWeight list \<Rightarrow> CPeriodSolutionWeight option" where
  "solve_one W Occurrences i solutions =
     (let cur = Occurrences ! i;
          (best_non_overlapping, best_overlapping) = scan_back Occurrences solutions cur None i
      in do {
           s \<leftarrow> (case best_non_overlapping of
                   None \<Rightarrow> map_option (\<lambda>p. solution_init\<lparr>m_VirtualGroup := (m_VirtualGroup solution_init)\<lparr>wg_Pair := p\<rparr>\<rparr>)
                     (SetPair (int (occ_first cur)) (int (occ_first cur)) (wg_Pair (m_VirtualGroup solution_init)))
                 | Some b \<Rightarrow> Some b);
           s \<leftarrow> AddOccurrence W cur i s;
           Some (case best_overlapping of None \<Rightarrow> s | Some b \<Rightarrow> if solution_less s b then b else s)
         })"

fun solve_all ::
  "'w CWordQueries \<Rightarrow> 'w CGroup COccurrence list \<Rightarrow> nat list \<Rightarrow> CPeriodSolutionWeight list
     \<Rightarrow> CPeriodSolutionWeight list option" where
  "solve_all W Occurrences [] solutions = Some solutions"
| "solve_all W Occurrences (i # is) solutions =
     do {
       s \<leftarrow> solve_one W Occurrences i solutions;
       solve_all W Occurrences is (solutions @ [s])
     }"

text \<open>The version that does not drop: the occurrences are sorted, the indices of the best ones go into \<open>res\<close>.\<close>

type_synonym 'o sorter = "('o \<Rightarrow> 'o \<Rightarrow> bool) \<Rightarrow> 'o list \<Rightarrow> 'o list"

definition SolveAmbiguity_indices ::
  "'w CGroup COccurrence sorter \<Rightarrow> 'w CWordQueries \<Rightarrow> 'w CGroup COccurrence list \<Rightarrow> nat list
     \<Rightarrow> ('w CGroup COccurrence list \<times> nat list) option" where
  "SolveAmbiguity_indices std_sort W Occurrences res =
     (if length Occurrences = 0 then Some (Occurrences, res)
      else if length Occurrences = 1 then Some (Occurrences, res @ [0])
      else let Occurrences = std_sort SortByRightBorderPredicate Occurrences
        in map_option (\<lambda>solutions. (Occurrences, m_Solution (last solutions)))
             (solve_all W Occurrences [0..<length Occurrences] []))"

definition SolveAmbiguity ::
  "'w CGroup COccurrence sorter \<Rightarrow> 'w CWordQueries \<Rightarrow> 'w CGroup COccurrence list
     \<Rightarrow> 'w CGroup COccurrence list option" where
  "SolveAmbiguity std_sort W Occurrences =
     do {
       (Occurrences, res) \<leftarrow> SolveAmbiguity_indices std_sort W Occurrences [];
       Some (if length res \<noteq> length Occurrences then map (\<lambda>i. Occurrences ! i) res else Occurrences)
     }"

text \<open>The loop that collects what is dropped. \<open>res\<close> ends with the number of occurrences, so it never runs out.\<close>

fun collect_dropped :: "'o list \<Rightarrow> nat list \<Rightarrow> nat \<Rightarrow> nat list \<Rightarrow> 'o list \<Rightarrow> 'o list" where
  "collect_dropped Occurrences [] next_res_index res Dropped = Dropped"
| "collect_dropped Occurrences (j # js) next_res_index res Dropped =
     (if j = res ! next_res_index then collect_dropped Occurrences js (next_res_index + 1) res Dropped
      else collect_dropped Occurrences js next_res_index res (Dropped @ [Occurrences ! j]))"

definition SolveAmbiguity_dropping ::
  "'w CGroup COccurrence sorter \<Rightarrow> 'w CWordQueries \<Rightarrow> 'w CGroup COccurrence list \<Rightarrow> 'w CGroup COccurrence list
     \<Rightarrow> ('w CGroup COccurrence list \<times> 'w CGroup COccurrence list) option" where
  "SolveAmbiguity_dropping std_sort W Occurrences Dropped =
     do {
       (Occurrences, res) \<leftarrow> SolveAmbiguity_indices std_sort W Occurrences [];
       Some (if length res \<noteq> length Occurrences then
               (let res = sort res
                in (map (\<lambda>i. Occurrences ! i) res,
                    collect_dropped Occurrences [0..<length Occurrences] 0 (res @ [length Occurrences]) Dropped))
             else (Occurrences, Dropped))
     }"

section \<open>Adding an occurrence returns\<close>

definition occ_coverage :: "'w CWordQueries \<Rightarrow> 'w CGroup COccurrence \<Rightarrow> nat" where
  "occ_coverage W occ =
     (let c = (case m_pInputItem occ of None \<Rightarrow> 0 | Some item \<Rightarrow> GetCoverage W item)
      in if c = 0 then occ_second occ - occ_first occ else c)"

text \<open>The bound keeps the number of pairs of words in a group below the range of \<^verbatim>\<open>size_t\<close>.\<close>

fun counted_group :: "'w CGroup \<Rightarrow> bool" where
  "counted_group (CPrimitiveGroup p w) \<longleftrightarrow> True"
| "counted_group (CFactSynGroup g main Children) \<longleftrightarrow> 0 \<le> m_KwtypesCount g"

definition occ_ok :: "'w CGroup COccurrence \<Rightarrow> bool" where
  "occ_ok occ \<longleftrightarrow> occ_first occ < occ_second occ \<and> occ_second occ \<le> 2 ^ 30 \<and>
     (\<forall>item. m_pInputItem occ = Some item \<longrightarrow> counted_group item)"

text \<open>The virtual group spans from \<open>f\<close> to at most \<open>l\<close>.\<close>

definition virtual_ok :: "int \<Rightarrow> int \<Rightarrow> CWeightSynGroup \<Rightarrow> bool" where
  "virtual_ok f l g \<longleftrightarrow> FirstWord (wg_Pair g) = f \<and> f \<le> LastWord (wg_Pair g) \<and> LastWord (wg_Pair g) \<le> l \<and>
     0 \<le> m_KwtypesCount g \<and> m_KwtypesCount g \<le> int (pair_Size (wg_Pair g))"

lemma weight_ratio_Some: "d \<noteq> 0 \<Longrightarrow> \<exists>w. weight_ratio n d = Some w"
  by (simp add: weight_ratio_def)

lemma unat_word_of_nat: "n < 2 ^ 64 \<Longrightarrow> unat (word_of_nat n :: 64 word) = n"
  by (simp add: unsigned_of_nat take_bit_nat_eq_self)

lemma pairs_of_words:
  assumes "2 \<le> n" "n \<le> 2 ^ 30"
  shows "(3 * word_of_nat n * (word_of_nat n - 1)) div 2 \<noteq> (0 :: 64 word)"
    and "10 * ((3 * word_of_nat n * (word_of_nat n - 1)) div 2) \<noteq> (0 :: 64 word)"
proof -
  let ?n = "word_of_nat n :: 64 word"
  have n: "unat ?n = n" using assms(2) by (intro unat_word_of_nat) simp
  have m: "unat (?n - 1) = n - 1"
    using n assms(1) by (metis One_nat_def Suc_1 Suc_le_lessD gr_implies_not0 less_imp_Suc_add unat_1 unat_minus_one unat_0)
  have sq: "n * (n - 1) \<le> 2 ^ 30 * 2 ^ 30" using assms(2) by (intro mult_le_mono) auto
  have "unat (3 * ?n) = 3 * n" using assms(2) n by (subst unat_mult_small) simp_all
  then have p: "unat (3 * ?n * (?n - 1)) = 3 * n * (n - 1)" using sq m by (subst unat_mult_small) simp_all
  have lo: "3 \<le> 3 * n * (n - 1) div 2"
  proof -
    have "2 * 1 \<le> n * (n - 1)" using assms(1) by (intro mult_le_mono) auto
    then show ?thesis by linarith
  qed
  have q: "unat ((3 * ?n * (?n - 1)) div 2) = 3 * n * (n - 1) div 2" using p by (simp add: unat_div)
  then show "(3 * ?n * (?n - 1)) div 2 \<noteq> 0" using lo by (metis le_zero_eq unat_0 zero_neq_numeral)
  have "10 * (3 * n * (n - 1) div 2) < 2 ^ 64" using sq by simp
  then have "unat (10 * ((3 * ?n * (?n - 1)) div 2)) = 10 * (3 * n * (n - 1) div 2)"
    using q by (subst unat_mult_small) simp_all
  then show "10 * ((3 * ?n * (?n - 1)) div 2) \<noteq> 0" using lo by (metis le_zero_eq mult_eq_0_iff unat_0 zero_neq_numeral)
qed

lemma group_GetWeight_Some:
  assumes "virtual_ok f l g" "0 \<le> f" "l < 2 ^ 30"
  shows "\<exists>w. group_GetWeight g = Some w"
proof -
  let ?n = "pair_Size (wg_Pair g)"
  have n: "1 \<le> ?n" "?n \<le> 2 ^ 30" using assms by (auto simp: virtual_ok_def pair_Size_def nat_le_iff)
  have "\<exists>a. GetWeightByAgreement g = Some a"
  proof (cases "?n = 1")
    case True
    then show ?thesis by (simp add: GetWeightByAgreement_def)
  next
    case False
    then have "2 \<le> ?n" using n(1) by simp
    from pairs_of_words [OF this n(2)] show ?thesis
      using weight_ratio_Some by (auto simp: GetWeightByAgreement_def MaxRelationWeight_def Let_def)
  qed
  moreover have "(word_of_nat ?n :: 64 word) \<noteq> 0"
  proof -
    have "unat (word_of_nat ?n :: 64 word) = ?n" using n(2) by (intro unat_word_of_nat) simp
    then show ?thesis using n(1) by (metis not_one_le_zero unat_0)
  qed
  then have "\<exists>k. GetWeightByKwTypes g = Some k"
    using assms(1) weight_ratio_Some by (auto simp: GetWeightByKwTypes_def virtual_ok_def)
  ultimately show ?thesis by (auto simp: group_GetWeight_def)
qed

lemma AddWeightOfChild_ok:
  assumes "virtual_ok f l g" "counted_group item"
  shows "virtual_ok f l (AddWeightOfChild item g)"
  using assms
  by (cases item) (auto simp: virtual_ok_def AddUserWeight_def IncrementKwtypesCount_def Let_def pair_Size_def)

lemma AddOccurrence_Some:
  assumes occ: "occ_ok occ" and v: "virtual_ok f l (m_VirtualGroup s)" "0 \<le> f" "f \<le> int (occ_first occ)" "l < int (occ_second occ)"
  shows "\<exists>s'. AddOccurrence W occ i s = Some s' \<and> m_Solution s' = m_Solution s @ [i] \<and>
    m_Coverage s' = m_Coverage s + int (occ_coverage W occ) \<and>
    virtual_ok f (int (occ_second occ) - 1) (m_VirtualGroup s')"
proof (cases "m_pInputItem occ")
  case None
  then show ?thesis using v by (auto simp: AddOccurrence_def occ_coverage_def virtual_ok_def)
next
  case (Some item)
  let ?l = "int (occ_second occ) - 1"
  let ?p = "(wg_Pair (m_VirtualGroup s))\<lparr>LastWord := ?l\<rparr>"
  have l: "f \<le> ?l" "?l \<noteq> - 1" using occ v(3) by (auto simp: occ_ok_def)
  have p: "SetLastWord ?l (wg_Pair (m_VirtualGroup s)) = Some ?p"
    using l v(1) by (simp add: SetLastWord_def virtual_ok_def)
  have "virtual_ok f ?l ((m_VirtualGroup s)\<lparr>wg_Pair := ?p\<rparr>)"
    using v(1,4) l by (auto simp: virtual_ok_def pair_Size_def)
  then have ok: "virtual_ok f ?l (AddWeightOfChild item ((m_VirtualGroup s)\<lparr>wg_Pair := ?p\<rparr>))"
    by (rule AddWeightOfChild_ok) (use occ Some in \<open>simp add: occ_ok_def\<close>)
  have "?l < 2 ^ 30" using occ by (auto simp: occ_ok_def)
  from group_GetWeight_Some [OF ok v(2) this] obtain w where
    "group_GetWeight (AddWeightOfChild item ((m_VirtualGroup s)\<lparr>wg_Pair := ?p\<rparr>)) = Some w" by blast
  then show ?thesis
    using Some p ok by (auto simp: AddOccurrence_def occ_coverage_def Let_def)
qed

section \<open>The dynamic program is optimal\<close>

text \<open>Indices of occurrences that do not overlap.\<close>

definition apart :: "'i COccurrence \<Rightarrow> 'i COccurrence \<Rightarrow> bool" where
  "apart x y \<longleftrightarrow> occ_second x \<le> occ_first y \<or> occ_second y \<le> occ_first x"

definition apart_set :: "'i COccurrence list \<Rightarrow> nat set \<Rightarrow> bool" where
  "apart_set Os T \<longleftrightarrow> (\<forall>a \<in> T. \<forall>b \<in> T. a \<noteq> b \<longrightarrow> apart (Os ! a) (Os ! b))"

abbreviation cover :: "'w CWordQueries \<Rightarrow> 'w CGroup COccurrence list \<Rightarrow> nat set \<Rightarrow> int" where
  "cover W Os T \<equiv> (\<Sum>k \<in> T. int (occ_coverage W (Os ! k)))"

text \<open>The solution kept for index \<open>i\<close>: occurrences up to \<open>i\<close>, one after the other, with their coverage, and no better choice among them.\<close>

definition solution_ok :: "'w CWordQueries \<Rightarrow> 'w CGroup COccurrence list \<Rightarrow> nat \<Rightarrow> CPeriodSolutionWeight \<Rightarrow> bool" where
  "solution_ok W Os i s \<longleftrightarrow>
     m_Solution s \<noteq> [] \<and> (\<forall>k \<in> set (m_Solution s). k \<le> i) \<and>
     sorted_wrt (\<lambda>a b. a < b \<and> occ_second (Os ! a) \<le> occ_first (Os ! b)) (m_Solution s) \<and>
     m_Coverage s = (\<Sum>k \<leftarrow> m_Solution s. int (occ_coverage W (Os ! k))) \<and>
     virtual_ok (int (occ_first (Os ! hd (m_Solution s)))) (int (occ_second (Os ! i)) - 1) (m_VirtualGroup s) \<and>
     (\<forall>T \<subseteq> {..i}. apart_set Os T \<longrightarrow> cover W Os T \<le> m_Coverage s)"

lemma solution_ok_best: "solution_ok W Os i s \<Longrightarrow> T \<subseteq> {..i} \<Longrightarrow> apart_set Os T \<Longrightarrow> cover W Os T \<le> m_Coverage s"
  unfolding solution_ok_def by blast

lemma solution_ok_facts:
  assumes "solution_ok W Os i s"
  shows "\<forall>k \<in> set (m_Solution s). k \<le> i"
    and "sorted_wrt (\<lambda>a b. a < b \<and> occ_second (Os ! a) \<le> occ_first (Os ! b)) (m_Solution s)"
    and "m_Coverage s = (\<Sum>k \<leftarrow> m_Solution s. int (occ_coverage W (Os ! k)))"
  using assms [unfolded solution_ok_def] by blast+

lemma solution_less_coverage:
  "solution_less a b \<Longrightarrow> m_Coverage a \<le> m_Coverage b" "\<not> solution_less a b \<Longrightarrow> m_Coverage b \<le> m_Coverage a"
  by (auto simp: solution_less_def split: if_splits)

lemma scan_back_spec:
  assumes "scan_back Os sols cur ov j = (non, ov')"
  shows "\<exists>p \<le> j. (\<forall>k. p \<le> k \<longrightarrow> k < j \<longrightarrow> \<not> occ_second (Os ! k) \<le> occ_first cur) \<and>
    (p = 0 \<and> non = None \<or> 0 < p \<and> occ_second (Os ! (p - 1)) \<le> occ_first cur \<and> non = Some (sols ! (p - 1))) \<and>
    (\<forall>b. ov' = Some b \<longrightarrow> ov = Some b \<or> (\<exists>k. p \<le> k \<and> k < j \<and> b = sols ! k)) \<and>
    (\<forall>k. p \<le> k \<longrightarrow> k < j \<longrightarrow> (\<exists>b. ov' = Some b \<and> m_Coverage (sols ! k) \<le> m_Coverage b)) \<and>
    (\<forall>a. ov = Some a \<longrightarrow> (\<exists>b. ov' = Some b \<and> m_Coverage a \<le> m_Coverage b))"
  using assms
proof (induction j arbitrary: ov)
  case 0
  then show ?case by simp
next
  case (Suc j)
  show ?case
  proof (cases "occ_second (Os ! j) \<le> occ_first cur")
    case True
    then show ?thesis using Suc.prems by (intro exI [of _ "Suc j"]) auto
  next
    case False
    let ?ov = "case ov of None \<Rightarrow> Some (sols ! j) | Some b \<Rightarrow> if solution_less b (sols ! j) then Some (sols ! j) else Some b"
    have "scan_back Os sols cur ?ov j = (non, ov')" using Suc.prems False by simp
    from Suc.IH [OF this] obtain p where p: "p \<le> j" "\<forall>k. p \<le> k \<longrightarrow> k < j \<longrightarrow> \<not> occ_second (Os ! k) \<le> occ_first cur"
      "p = 0 \<and> non = None \<or> 0 < p \<and> occ_second (Os ! (p - 1)) \<le> occ_first cur \<and> non = Some (sols ! (p - 1))"
      "\<forall>b. ov' = Some b \<longrightarrow> ?ov = Some b \<or> (\<exists>k. p \<le> k \<and> k < j \<and> b = sols ! k)"
      "\<forall>k. p \<le> k \<longrightarrow> k < j \<longrightarrow> (\<exists>b. ov' = Some b \<and> m_Coverage (sols ! k) \<le> m_Coverage b)"
      "\<forall>a. ?ov = Some a \<longrightarrow> (\<exists>b. ov' = Some b \<and> m_Coverage a \<le> m_Coverage b)" by blast
    obtain c where c: "?ov = Some c" "m_Coverage (sols ! j) \<le> m_Coverage c" "ov = Some c \<or> c = sols ! j"
      "\<forall>a. ov = Some a \<longrightarrow> m_Coverage a \<le> m_Coverage c"
    proof (cases ov)
      case None
      then show ?thesis by (intro that [of "sols ! j"]) simp_all
    next
      case (Some a)
      show ?thesis
      proof (cases "solution_less a (sols ! j)")
        case True
        then show ?thesis using Some solution_less_coverage(1) by (intro that [of "sols ! j"]) simp_all
      next
        case False
        then show ?thesis using Some solution_less_coverage(2) by (intro that [of a]) simp_all
      qed
    qed
    obtain b where b: "ov' = Some b" "m_Coverage c \<le> m_Coverage b" using p(6) c(1) by blast
    have "\<forall>k. p \<le> k \<longrightarrow> k < Suc j \<longrightarrow> \<not> occ_second (Os ! k) \<le> occ_first cur" using p(2) False less_Suc_eq by metis
    moreover have "\<forall>b. ov' = Some b \<longrightarrow> ov = Some b \<or> (\<exists>k. p \<le> k \<and> k < Suc j \<and> b = sols ! k)"
      using p(1,4) c(1,3) by (metis less_Suc_eq option.inject)
    moreover have "\<forall>k. p \<le> k \<longrightarrow> k < Suc j \<longrightarrow> (\<exists>b. ov' = Some b \<and> m_Coverage (sols ! k) \<le> m_Coverage b)"
      using p(5) b c(2) by (metis less_Suc_eq order_trans)
    moreover have "\<forall>a. ov = Some a \<longrightarrow> (\<exists>b. ov' = Some b \<and> m_Coverage a \<le> m_Coverage b)" using b c(4) by force
    ultimately show ?thesis using p(1,3) by (intro exI [of _ p]) simp
  qed
qed

lemma best_extends:
  assumes sorted: "sorted_wrt (\<lambda>x y. occ_second x \<le> occ_second y) Os" and ok: "\<forall>x \<in> set Os. occ_ok x" and i: "i < length Os"
    and p: "p \<le> i" "\<forall>k. p \<le> k \<longrightarrow> k < i \<longrightarrow> \<not> occ_second (Os ! k) \<le> occ_first (Os ! i)"
    and before: "\<forall>T \<subseteq> {..<p}. apart_set Os T \<longrightarrow> cover W Os T \<le> c" "c + int (occ_coverage W (Os ! i)) \<le> d"
    and without: "\<forall>T \<subseteq> {..<i}. apart_set Os T \<longrightarrow> cover W Os T \<le> d"
    and T: "T \<subseteq> {..i}" "apart_set Os T"
  shows "cover W Os T \<le> d"
proof (cases "i \<in> T")
  case False
  then have "T \<subseteq> {..<i}" using T(1) by (auto simp: order_le_less)
  then show ?thesis using without T(2) by blast
next
  case True
  have "k < p" if k: "k \<in> T - {i}" for k
  proof (rule ccontr)
    assume "\<not> k < p"
    have ki: "k < i" using k T(1) by auto
    then have "occ_second (Os ! k) \<le> occ_second (Os ! i)" "occ_first (Os ! k) < occ_second (Os ! k)"
      using sorted i ok by (auto simp: sorted_wrt_iff_nth_less occ_ok_def)
    moreover have "apart (Os ! k) (Os ! i)" using T(2) k True by (auto simp: apart_set_def)
    ultimately have "occ_second (Os ! k) \<le> occ_first (Os ! i)" by (auto simp: apart_def)
    then show False using p(2) ki \<open>\<not> k < p\<close> by auto
  qed
  then have "T - {i} \<subseteq> {..<p}" "apart_set Os (T - {i})" using T(2) by (auto simp: apart_set_def)
  then have "cover W Os (T - {i}) \<le> c" using before(1) by blast
  moreover have "finite T" using T(1) finite_subset by blast
  then have "cover W Os T = int (occ_coverage W (Os ! i)) + cover W Os (T - {i})" using True by (rule sum.remove)
  ultimately show ?thesis using before(2) by linarith
qed

text \<open>The solution that ends with occurrence \<open>i\<close>, where \<open>p\<close> is the number of occurrences that end before it starts.\<close>

definition start_of :: "CPeriodSolutionWeight option \<Rightarrow> nat \<Rightarrow> CPeriodSolutionWeight option" where
  "start_of non first = (case non of
     None \<Rightarrow> map_option (\<lambda>p. solution_init\<lparr>m_VirtualGroup := (m_VirtualGroup solution_init)\<lparr>wg_Pair := p\<rparr>\<rparr>)
       (SetPair (int first) (int first) (wg_Pair (m_VirtualGroup solution_init)))
   | Some b \<Rightarrow> Some b)"

definition ends_with :: "'w CWordQueries \<Rightarrow> 'w CGroup COccurrence list \<Rightarrow> nat \<Rightarrow> nat \<Rightarrow> CPeriodSolutionWeight \<Rightarrow> bool" where
  "ends_with W Os i p s \<longleftrightarrow> (\<exists>ks. m_Solution s = ks @ [i] \<and>
     (\<forall>k \<in> set ks. k < i \<and> occ_second (Os ! k) \<le> occ_first (Os ! i)) \<and>
     sorted_wrt (\<lambda>a b. a < b \<and> occ_second (Os ! a) \<le> occ_first (Os ! b)) ks \<and>
     m_Coverage s = (\<Sum>k \<leftarrow> ks @ [i]. int (occ_coverage W (Os ! k))) \<and>
     virtual_ok (int (occ_first (Os ! hd (ks @ [i])))) (int (occ_second (Os ! i)) - 1) (m_VirtualGroup s) \<and>
     (\<forall>T \<subseteq> {..<p}. apart_set Os T \<longrightarrow> cover W Os T + int (occ_coverage W (Os ! i)) \<le> m_Coverage s))"

lemma start_of_None:
  assumes "occ_ok (Os ! i)"
  shows "\<exists>s0 s1. start_of None (occ_first (Os ! i)) = Some s0 \<and> AddOccurrence W (Os ! i) i s0 = Some s1 \<and> ends_with W Os i 0 s1"
proof -
  let ?f = "int (occ_first (Os ! i))"
  let ?q = "(wg_Pair (m_VirtualGroup solution_init))\<lparr>FirstWord := ?f, LastWord := ?f\<rparr>"
  let ?s0 = "solution_init\<lparr>m_VirtualGroup := (m_VirtualGroup solution_init)\<lparr>wg_Pair := ?q\<rparr>\<rparr>"
  have start: "start_of None (occ_first (Os ! i)) = Some ?s0"
    by (simp add: start_of_def SetPair_def pair_valid_def)
  have "virtual_ok ?f ?f (m_VirtualGroup ?s0)"
    by (simp add: virtual_ok_def solution_init_def weight_group_init_def pair_Size_def)
  from AddOccurrence_Some [OF assms this, of W i] obtain s1 where s1: "AddOccurrence W (Os ! i) i ?s0 = Some s1"
    "m_Solution s1 = [i]" "m_Coverage s1 = int (occ_coverage W (Os ! i))"
    "virtual_ok ?f (int (occ_second (Os ! i)) - 1) (m_VirtualGroup s1)"
    using assms by (auto simp: solution_init_def occ_ok_def)
  have "ends_with W Os i 0 s1" unfolding ends_with_def by (intro exI [of _ "[]"]) (simp add: s1(2-4))
  then show ?thesis using start s1(1) by blast
qed

lemma start_of_Some:
  assumes sorted: "sorted_wrt (\<lambda>x y. occ_second x \<le> occ_second y) Os" and ok: "\<forall>x \<in> set Os. occ_ok x" and i: "i < length Os"
    and p: "0 < p" "p \<le> i" "occ_second (Os ! (p - 1)) \<le> occ_first (Os ! i)" and okb: "solution_ok W Os (p - 1) b"
  shows "\<exists>s1. AddOccurrence W (Os ! i) i b = Some s1 \<and> ends_with W Os i p s1"
proof -
  let ?ks = "m_Solution b"
  have cur: "occ_ok (Os ! i)" using ok i by simp
  have ks: "k < i \<and> occ_second (Os ! k) \<le> occ_first (Os ! i)" if "k \<in> set ?ks" for k
  proof -
    have k: "k \<le> p - 1" using okb that by (simp add: solution_ok_def)
    moreover have "p - 1 < length Os" using p i by linarith
    ultimately have "occ_second (Os ! k) \<le> occ_second (Os ! (p - 1))"
      using sorted by (cases "k = p - 1") (auto simp: sorted_wrt_iff_nth_less)
    then show ?thesis using k p by auto
  qed
  have hd: "hd ?ks \<in> set ?ks" using okb by (simp add: solution_ok_def)
  have v: "virtual_ok (int (occ_first (Os ! hd ?ks))) (int (occ_second (Os ! (p - 1))) - 1) (m_VirtualGroup b)"
    using okb by (simp add: solution_ok_def)
  have "occ_first (Os ! hd ?ks) < occ_second (Os ! hd ?ks)" using ok ks [OF hd] i by (auto simp: occ_ok_def)
  then have "int (occ_first (Os ! hd ?ks)) \<le> int (occ_first (Os ! i))" using ks [OF hd] by auto
  moreover have "int (occ_second (Os ! (p - 1))) - 1 < int (occ_second (Os ! i))" using p(3) cur by (auto simp: occ_ok_def)
  ultimately obtain s1 where s1: "AddOccurrence W (Os ! i) i b = Some s1" "m_Solution s1 = ?ks @ [i]"
    "m_Coverage s1 = m_Coverage b + int (occ_coverage W (Os ! i))"
    "virtual_ok (int (occ_first (Os ! hd ?ks))) (int (occ_second (Os ! i)) - 1) (m_VirtualGroup s1)"
    using AddOccurrence_Some [OF cur v, of W i] by auto
  have "{..<p} = {..p - 1}" using p(1) by auto
  then have best: "\<forall>T \<subseteq> {..<p}. apart_set Os T \<longrightarrow> cover W Os T + int (occ_coverage W (Os ! i)) \<le> m_Coverage s1"
    using solution_ok_best [OF okb] s1(3) by auto
  have ne: "?ks \<noteq> []" and ap: "sorted_wrt (\<lambda>a b. a < b \<and> occ_second (Os ! a) \<le> occ_first (Os ! b)) ?ks"
    and cov: "m_Coverage b = (\<Sum>k \<leftarrow> ?ks. int (occ_coverage W (Os ! k)))" using okb by (simp_all add: solution_ok_def)
  have "ends_with W Os i p s1"
    unfolding ends_with_def
  proof (intro exI conjI)
    show "m_Solution s1 = ?ks @ [i]" by (rule s1(2))
    show "\<forall>k \<in> set ?ks. k < i \<and> occ_second (Os ! k) \<le> occ_first (Os ! i)" using ks by blast
    show "m_Coverage s1 = (\<Sum>k \<leftarrow> ?ks @ [i]. int (occ_coverage W (Os ! k)))" using s1(3) cov by simp
    show "virtual_ok (int (occ_first (Os ! hd (?ks @ [i])))) (int (occ_second (Os ! i)) - 1) (m_VirtualGroup s1)"
      using s1(4) ne by simp
  qed (rule ap best)+
  then show ?thesis using s1(1) by blast
qed

lemma ends_with_sound:
  assumes "ends_with W Os i p s" "\<forall>T \<subseteq> {..i}. apart_set Os T \<longrightarrow> cover W Os T \<le> m_Coverage s"
  shows "solution_ok W Os i s"
  using assms by (fastforce simp: ends_with_def solution_ok_def sorted_wrt_append)

lemma solution_ok_later:
  assumes "solution_ok W Os k s" "k < i" "occ_second (Os ! k) \<le> occ_second (Os ! i)"
    "\<forall>T \<subseteq> {..i}. apart_set Os T \<longrightarrow> cover W Os T \<le> m_Coverage s"
  shows "solution_ok W Os i s"
  using assms by (fastforce simp: solution_ok_def virtual_ok_def)

lemma solve_one_Some:
  assumes sorted: "sorted_wrt (\<lambda>x y. occ_second x \<le> occ_second y) Os" and ok: "\<forall>x \<in> set Os. occ_ok x" and i: "i < length Os"
    and sols: "length sols = i" "\<forall>k < i. solution_ok W Os k (sols ! k)"
  shows "\<exists>s. solve_one W Os i sols = Some s \<and> solution_ok W Os i s"
proof -
  let ?cur = "Os ! i"
  obtain non ov where scan: "scan_back Os sols ?cur None i = (non, ov)" by fastforce
  from scan_back_spec [OF this] obtain p where p: "p \<le> i" "\<forall>k. p \<le> k \<longrightarrow> k < i \<longrightarrow> \<not> occ_second (Os ! k) \<le> occ_first ?cur"
    "p = 0 \<and> non = None \<or> 0 < p \<and> occ_second (Os ! (p - 1)) \<le> occ_first ?cur \<and> non = Some (sols ! (p - 1))"
    "\<forall>b. ov = Some b \<longrightarrow> (\<exists>k. p \<le> k \<and> k < i \<and> b = sols ! k)"
    "\<forall>k. p \<le> k \<longrightarrow> k < i \<longrightarrow> (\<exists>b. ov = Some b \<and> m_Coverage (sols ! k) \<le> m_Coverage b)" by auto
  have cur: "occ_ok ?cur" using ok i by simp
  have right: "occ_second (Os ! k) \<le> occ_second ?cur" if "k < i" for k
    using sorted i that by (simp add: sorted_wrt_iff_nth_less)
  obtain s0 s1 where s1: "start_of non (occ_first ?cur) = Some s0" "AddOccurrence W ?cur i s0 = Some s1" "ends_with W Os i p s1"
  proof (cases non)
    case None
    then have "p = 0" using p(3) by auto
    then show ?thesis using start_of_None [OF cur, of W] None that by blast
  next
    case (Some b)
    then have b: "0 < p" "occ_second (Os ! (p - 1)) \<le> occ_first ?cur" "b = sols ! (p - 1)" using p(3) by auto
    have "solution_ok W Os (p - 1) b" using sols(2) b(1,3) p(1) by auto
    from start_of_Some [OF sorted ok i b(1) p(1) b(2) this] obtain s1 where
      "AddOccurrence W ?cur i b = Some s1" "ends_with W Os i p s1" by blast
    moreover have "start_of non (occ_first ?cur) = Some b" using Some by (simp add: start_of_def)
    ultimately show ?thesis using that by blast
  qed
  define s where "s = (case ov of None \<Rightarrow> s1 | Some b \<Rightarrow> if solution_less s1 b then b else s1)"
  have s: "solve_one W Os i sols = Some s"
    using scan s1(1,2) by (simp add: solve_one_def s_def start_of_def)
  have ge1: "m_Coverage s1 \<le> m_Coverage s"
    by (cases ov) (simp_all add: s_def solution_less_coverage(1))
  have ge2: "m_Coverage b \<le> m_Coverage s" if "ov = Some b" for b
    using that by (simp add: s_def solution_less_coverage(2))
  have without: "\<forall>T \<subseteq> {..<i}. apart_set Os T \<longrightarrow> cover W Os T \<le> m_Coverage s"
  proof (intro allI impI)
    fix T assume T: "T \<subseteq> {..<i}" "apart_set Os T"
    show "cover W Os T \<le> m_Coverage s"
    proof (cases "p = i")
      case True
      then have "cover W Os T + int (occ_coverage W ?cur) \<le> m_Coverage s1" using s1(3) T by (auto simp: ends_with_def)
      then show ?thesis using ge1 by linarith
    next
      case False
      then have "p \<le> i - 1" "i - 1 < i" using p(1) by auto
      then obtain b where b: "ov = Some b" "m_Coverage (sols ! (i - 1)) \<le> m_Coverage b" using p(5) by blast
      have "T \<subseteq> {..i - 1}" using T(1) by auto
      moreover have "solution_ok W Os (i - 1) (sols ! (i - 1))" using sols(2) \<open>i - 1 < i\<close> by blast
      ultimately have "cover W Os T \<le> m_Coverage (sols ! (i - 1))" using T(2) solution_ok_best by blast
      then show ?thesis using b(2) ge2 [OF b(1)] by linarith
    qed
  qed
  have "cover W Os T \<le> m_Coverage s - int (occ_coverage W ?cur)" if "T \<subseteq> {..<p}" "apart_set Os T" for T
  proof -
    have "cover W Os T + int (occ_coverage W ?cur) \<le> m_Coverage s1" using s1(3) that by (auto simp: ends_with_def)
    then show ?thesis using ge1 by linarith
  qed
  then have best: "\<forall>T \<subseteq> {..i}. apart_set Os T \<longrightarrow> cover W Os T \<le> m_Coverage s"
    using best_extends [OF sorted ok i p(1,2) _ _ without, of "m_Coverage s - int (occ_coverage W ?cur)"] by simp
  show ?thesis
  proof (cases "s = s1")
    case True
    then show ?thesis using s best ends_with_sound [OF s1(3)] by blast
  next
    case False
    then obtain k where k: "k < i" "s = sols ! k" using p(4) by (auto simp: s_def split: option.splits if_splits)
    then have "solution_ok W Os k s" using sols(2) by simp
    then show ?thesis using s solution_ok_later [OF _ k(1) right [OF k(1)] best] by blast
  qed
qed

lemma solve_all_Some:
  assumes sorted: "sorted_wrt (\<lambda>x y. occ_second x \<le> occ_second y) Os" and ok: "\<forall>x \<in> set Os. occ_ok x"
    and "i \<le> length Os" "length sols = i" "\<forall>k < i. solution_ok W Os k (sols ! k)"
  shows "\<exists>sols'. solve_all W Os [i..<length Os] sols = Some sols' \<and> length sols' = length Os \<and>
    (\<forall>k < length Os. solution_ok W Os k (sols' ! k))"
  using assms(3-5)
proof (induction "length Os - i" arbitrary: i sols)
  case 0
  then show ?case by simp
next
  case (Suc d)
  then have i: "i < length Os" by linarith
  from solve_one_Some [OF sorted ok i Suc.prems(2,3)] obtain s where s: "solve_one W Os i sols = Some s" "solution_ok W Os i s" by blast
  have "solution_ok W Os k ((sols @ [s]) ! k)" if "k < Suc i" for k
    using that Suc.prems(2,3) s(2) by (cases "k = i") (auto simp: nth_append)
  then obtain sols' where "solve_all W Os [Suc i..<length Os] (sols @ [s]) = Some sols'" "length sols' = length Os"
    "\<forall>k < length Os. solution_ok W Os k (sols' ! k)"
    using Suc.hyps(1) [of "Suc i" "sols @ [s]"] Suc.hyps(2) Suc.prems(2) i by force
  then show ?case using s(1) i by (simp add: upt_rec [of i])
qed

section \<open>From indices to occurrences\<close>

lemma image_nth_all: "image_mset ((!) xs) (mset_set {..<length xs}) = mset xs"
  by (metis map_nth mset_map mset_upt lessThan_atLeast0)

lemma image_nth_list: "distinct ks \<Longrightarrow> mset (map ((!) xs) ks) = image_mset ((!) xs) (mset_set (set ks))"
  by (simp add: mset_set_set)

lemma picked_subset:
  assumes "distinct ks" "\<forall>k \<in> set ks. k < length xs"
  shows "mset (map ((!) xs) ks) \<subseteq># mset xs"
proof -
  have "mset_set (set ks) \<subseteq># mset_set {..<length xs}" using assms(2) by (intro subset_imp_msubset_mset_set) auto
  then have "image_mset ((!) xs) (mset_set (set ks)) \<subseteq># image_mset ((!) xs) (mset_set {..<length xs})" by (rule image_mset_subseteq_mono)
  then show ?thesis by (simp only: image_nth_list [OF assms(1)] image_nth_all)
qed

lemma subset_picked:
  assumes "M \<subseteq># mset xs"
  shows "\<exists>T \<subseteq> {..<length xs}. M = image_mset ((!) xs) (mset_set T)"
proof -
  obtain R where "mset xs = M + R" using assms by (auto elim: mset_subset_eq_exists_conv [THEN iffD1, THEN exE])
  then have "image_mset ((!) xs) (mset_set {..<length xs}) = M + R" by (simp only: image_nth_all)
  then obtain A B where AB: "mset_set {..<length xs} = A + B" "M = image_mset ((!) xs) A"
    by (auto dest: image_mset_eq_plusD)
  have le: "count A k \<le> (if k < length xs then 1 else 0)" for k
    using arg_cong [OF AB(1), of "\<lambda>X. count X k"] by (auto simp: count_mset_set' split: if_splits)
  have "A = mset_set (set_mset A)"
  proof (rule multiset_eqI)
    fix k show "count A k = count (mset_set (set_mset A)) k"
      using le [of k] by (auto simp: count_mset_set' split: if_splits simp flip: count_greater_zero_iff)
  qed
  moreover have "set_mset A \<subseteq> {..<length xs}" using le by (metis count_eq_zero_iff lessThan_iff le_zero_eq subsetI)
  ultimately show ?thesis using AB(2) by metis
qed

lemma pairwise_others:
  assumes "sorted_wrt P xs" "symp P" "x \<in># mset xs" "y \<in># mset xs - {#x#}"
  shows "P x y"
proof -
  obtain as bs where "xs = as @ x # bs" using assms(3) by (auto dest: split_list)
  then show ?thesis using assms(1,2,4) by (auto simp: sorted_wrt_append dest: sympD)
qed

lemma symp_apart: "symp apart"
  by (auto simp: symp_def apart_def)

lemma apart_of_list:
  assumes "sorted_wrt apart alt" "finite T" "mset alt = image_mset ((!) Os) (mset_set T)"
  shows "apart_set Os T"
  unfolding apart_set_def
proof (intro ballI impI)
  fix a b assume ab: "a \<in> T" "b \<in> T" "a \<noteq> b"
  have "mset_set T = add_mset a (mset_set (T - {a}))" using ab(1) assms(2) by (metis mset_set.remove)
  then have "mset alt - {#Os ! a#} = image_mset ((!) Os) (mset_set (T - {a}))"
    using assms(3) by simp
  then have "Os ! b \<in># mset alt - {#Os ! a#}" using ab assms(2) by simp
  moreover have "Os ! a \<in># mset alt" using assms(2,3) ab(1) by simp
  ultimately show "apart (Os ! a) (Os ! b)" using pairwise_others [OF assms(1) symp_apart] by blast
qed

lemma cover_list:
  assumes "finite T" "mset alt = image_mset ((!) Os) (mset_set T)"
  shows "(\<Sum>x \<leftarrow> alt. int (occ_coverage W x)) = cover W Os T"
proof -
  have "(\<Sum>x \<leftarrow> alt. int (occ_coverage W x)) = \<Sum>\<^sub># (image_mset (\<lambda>x. int (occ_coverage W x)) (mset alt))"
    by (metis mset_map sum_mset_sum_list)
  then show ?thesis using assms by (simp add: sum_unfold_sum_mset image_mset.compositionality comp_def)
qed

text \<open>What \<^verbatim>\<open>std::sort\<close> promises for a comparison: a permutation with no inversion.\<close>

definition sorts :: "'o sorter \<Rightarrow> ('o \<Rightarrow> 'o \<Rightarrow> bool) \<Rightarrow> bool" where
  "sorts std_sort lt \<longleftrightarrow>
     (\<forall>xs. mset (std_sort lt xs) = mset xs \<and> sorted_wrt (\<lambda>x y. \<not> lt y x) (std_sort lt xs))"

lemma sorting_by_right_border:
  assumes "sorts std_sort SortByRightBorderPredicate"
  shows "sorted_wrt (\<lambda>x y. occ_second x \<le> occ_second y) (std_sort SortByRightBorderPredicate Os)"
proof -
  have "sorted_wrt (\<lambda>x y. \<not> SortByRightBorderPredicate y x) (std_sort SortByRightBorderPredicate Os)"
    using assms by (simp add: sorts_def)
  then show ?thesis by (rule sorted_wrt_mono_rel [rotated]) (simp add: SortByRightBorderPredicate_def split: if_splits)
qed

lemma SolveAmbiguity_indices_spec:
  assumes srt: "sorts std_sort SortByRightBorderPredicate"
    and ok: "\<forall>x \<in> set Os. occ_ok x"
  shows "\<exists>Os' res. SolveAmbiguity_indices std_sort W Os [] = Some (Os', res) \<and> mset Os' = mset Os \<and>
    (\<forall>k \<in> set res. k < length Os') \<and> sorted_wrt (\<lambda>a b. a < b \<and> occ_second (Os' ! a) \<le> occ_first (Os' ! b)) res \<and>
    (\<forall>T \<subseteq> {..<length Os'}. apart_set Os' T \<longrightarrow> cover W Os' T \<le> (\<Sum>k \<leftarrow> res. int (occ_coverage W (Os' ! k))))"
proof -
  consider "length Os = 0" | "length Os = 1" | "2 \<le> length Os" by linarith
  then show ?thesis
  proof cases
    case 1
    then show ?thesis by (simp add: SolveAmbiguity_indices_def)
  next
    case 2
    then obtain x where x: "Os = [x]" by (auto simp: length_Suc_conv)
    have "cover W [x] T \<le> int (occ_coverage W x)" if "T \<subseteq> {..<1}" for T
    proof -
      have "cover W [x] T \<le> cover W [x] {..<1}" using that by (intro sum_mono2) auto
      then show ?thesis by simp
    qed
    then show ?thesis using 2 x by (simp add: SolveAmbiguity_indices_def)
  next
    case 3
    let ?Os = "std_sort SortByRightBorderPredicate Os"
    have m: "mset ?Os = mset Os" and sorted: "sorted_wrt (\<lambda>x y. occ_second x \<le> occ_second y) ?Os"
      using srt sorting_by_right_border [OF srt] by (simp_all add: sorts_def)
    have ok': "\<forall>x \<in> set ?Os. occ_ok x" using ok by (simp only: mset_eq_setD [OF m])
    have n: "0 < length ?Os" using 3 mset_eq_length [OF m] by linarith
    from solve_all_Some [OF sorted ok', of 0 "[]" W] obtain sols where
      sols: "solve_all W ?Os [0..<length ?Os] [] = Some sols" "length sols = length ?Os"
        "\<forall>k < length ?Os. solution_ok W ?Os k (sols ! k)" by auto
    let ?s = "last sols"
    have s: "solution_ok W ?Os (length ?Os - 1) ?s"
      using sols(2,3) n by (metis diff_less last_conv_nth length_0_conv less_nat_zero_code zero_less_one)
    have "SolveAmbiguity_indices std_sort W Os [] = Some (?Os, m_Solution ?s)"
      using 3 sols(1) by (auto simp: SolveAmbiguity_indices_def)
    moreover have "\<forall>k \<in> set (m_Solution ?s). k < length ?Os"
      using n solution_ok_facts(1) [OF s] by (metis Suc_diff_1 less_Suc_eq_le)
    moreover have "m_Coverage ?s = (\<Sum>k \<leftarrow> m_Solution ?s. int (occ_coverage W (?Os ! k)))"
      "sorted_wrt (\<lambda>a b. a < b \<and> occ_second (?Os ! a) \<le> occ_first (?Os ! b)) (m_Solution ?s)"
      by (rule solution_ok_facts [OF s])+
    moreover have "{..<length ?Os} = {..length ?Os - 1}" using n by (metis Suc_diff_1 lessThan_Suc_atMost)
    then have "\<forall>T \<subseteq> {..<length ?Os}. apart_set ?Os T \<longrightarrow> cover W ?Os T \<le> m_Coverage ?s"
      using solution_ok_best [OF s] by blast
    ultimately show ?thesis using m by (intro exI [of _ ?Os] exI [of _ "m_Solution ?s"]) metis
  qed
qed

lemma strictly_increasing_all:
  assumes "sorted_wrt (<) res" "\<forall>k \<in> set res. k < n" "length res = n"
  shows "res = [0..<n]"
proof -
  have "sorted res" "distinct res" using assms(1) by (simp_all add: strict_sorted_iff)
  moreover have "set res = {0..<n}"
    using assms(2,3) \<open>distinct res\<close> by (intro card_subset_eq) (auto simp: distinct_card)
  ultimately show ?thesis by (intro sorted_distinct_set_unique) auto
qed

lemma SolveAmbiguity_chosen:
  assumes "SolveAmbiguity_indices std_sort W Os [] = Some (Os', res)" "sorted_wrt (<) res" "\<forall>k \<in> set res. k < length Os'"
  shows "SolveAmbiguity std_sort W Os = Some (map ((!) Os') res)"
proof (cases "length res = length Os'")
  case True
  then have "res = [0..<length Os']" using assms(2,3) by (intro strictly_increasing_all)
  then show ?thesis using assms(1) by (simp add: SolveAmbiguity_def map_nth)
next
  case False
  then show ?thesis using assms(1) by (simp add: SolveAmbiguity_def)
qed

lemma SolveAmbiguity_spec:
  assumes srt: "sorts std_sort SortByRightBorderPredicate"
    and ok: "\<forall>x \<in> set Os. occ_ok x"
  shows "\<exists>Os' res. SolveAmbiguity_indices std_sort W Os [] = Some (Os', res) \<and> mset Os' = mset Os \<and>
    sorted_wrt (<) res \<and> (\<forall>k \<in> set res. k < length Os') \<and> SolveAmbiguity std_sort W Os = Some (map ((!) Os') res) \<and>
    sorted_wrt (\<lambda>x y. occ_second x \<le> occ_first y) (map ((!) Os') res) \<and>
    (\<forall>alt. mset alt \<subseteq># mset Os \<and> sorted_wrt apart alt \<longrightarrow>
       (\<Sum>x \<leftarrow> alt. int (occ_coverage W x)) \<le> (\<Sum>x \<leftarrow> map ((!) Os') res. int (occ_coverage W x)))"
proof -
  from SolveAmbiguity_indices_spec [OF assms, of W] obtain Os' res where
    r: "SolveAmbiguity_indices std_sort W Os [] = Some (Os', res)" "mset Os' = mset Os" "\<forall>k \<in> set res. k < length Os'"
      "sorted_wrt (\<lambda>a b. a < b \<and> occ_second (Os' ! a) \<le> occ_first (Os' ! b)) res"
      "\<forall>T \<subseteq> {..<length Os'}. apart_set Os' T \<longrightarrow> cover W Os' T \<le> (\<Sum>k \<leftarrow> res. int (occ_coverage W (Os' ! k)))" by blast
  have inc: "sorted_wrt (<) res" "sorted_wrt (\<lambda>a b. occ_second (Os' ! a) \<le> occ_first (Os' ! b)) res"
    using r(4) by (auto elim: sorted_wrt_mono_rel [rotated])
  have "(\<Sum>x \<leftarrow> alt. int (occ_coverage W x)) \<le> (\<Sum>k \<leftarrow> res. int (occ_coverage W (Os' ! k)))"
    if sub: "mset alt \<subseteq># mset Os" and ap: "sorted_wrt apart alt" for alt
  proof -
    obtain T where T: "T \<subseteq> {..<length Os'}" "mset alt = image_mset ((!) Os') (mset_set T)"
      using subset_picked [of "mset alt" Os'] sub r(2) by metis
    have fin: "finite T" using T(1) finite_subset by blast
    then show ?thesis
      using r(5) T apart_of_list [OF ap fin T(2)] cover_list [OF fin T(2), of W] by auto
  qed
  then show ?thesis
    using r(1-3) inc SolveAmbiguity_chosen [OF r(1) inc(1) r(3)]
    by (intro exI [of _ Os'] exI [of _ res]) (simp add: sorted_wrt_map comp_def)
qed

section \<open>Correctness\<close>

text \<open>
  C26. \<^verbatim>\<open>SolveAmbiguity\<close> returns, keeps only given occurrences, in text order and without overlap, and no choice of
  occurrences that do not overlap covers more.
\<close>

theorem SolveAmbiguity_correct:
  assumes "sorts std_sort SortByRightBorderPredicate" "\<forall>x \<in> set Occurrences. occ_ok x"
  shows "\<exists>chosen. SolveAmbiguity std_sort W Occurrences = Some chosen \<and> mset chosen \<subseteq># mset Occurrences \<and>
    sorted_wrt (\<lambda>x y. occ_second x \<le> occ_first y) chosen \<and>
    (\<forall>alt. mset alt \<subseteq># mset Occurrences \<and> sorted_wrt apart alt \<longrightarrow>
       (\<Sum>x \<leftarrow> alt. int (occ_coverage W x)) \<le> (\<Sum>x \<leftarrow> chosen. int (occ_coverage W x)))"
proof -
  from SolveAmbiguity_spec [OF assms, of W] obtain Os' res where r: "mset Os' = mset Occurrences" "sorted_wrt (<) res"
    "\<forall>k \<in> set res. k < length Os'" "SolveAmbiguity std_sort W Occurrences = Some (map ((!) Os') res)"
    "sorted_wrt (\<lambda>x y. occ_second x \<le> occ_first y) (map ((!) Os') res)"
    "\<forall>alt. mset alt \<subseteq># mset Occurrences \<and> sorted_wrt apart alt \<longrightarrow>
       (\<Sum>x \<leftarrow> alt. int (occ_coverage W x)) \<le> (\<Sum>x \<leftarrow> map ((!) Os') res. int (occ_coverage W x))" by blast
  have "mset (map ((!) Os') res) \<subseteq># mset Occurrences"
    using picked_subset [of res Os'] r(1-3) by (simp only: strict_sorted_iff)
  then show ?thesis using r(4-6) by blast
qed

lemma collect_dropped_spec:
  assumes "sorted_wrt (<) res" "\<forall>k \<in> set res. k < n" "r \<le> length res" "j \<le> n" "\<forall>k \<in> set (drop r res). j \<le> k"
  shows "collect_dropped Os [j..<n] r (res @ [n]) D = D @ map ((!) Os) (filter (\<lambda>k. k \<notin> set (drop r res)) [j..<n])"
  using assms(3-5)
proof (induction "n - j" arbitrary: j r D)
  case 0
  then show ?case by simp
next
  case (Suc d)
  then have j: "[j..<n] = j # [Suc j..<n]" "j < n" by (simp_all add: upt_rec [of j])
  show ?case
  proof (cases "r < length res \<and> res ! r = j")
    case True
    then have d: "drop r res = j # drop (Suc r) res" by (metis Cons_nth_drop_Suc)
    have "sorted_wrt (<) (drop r res)" using assms(1) by (metis append_take_drop_id sorted_wrt_append)
    then have later: "\<forall>k \<in> set (drop (Suc r) res). Suc j \<le> k" using d by (simp add: Suc_le_eq)
    have "filter (\<lambda>k. k \<notin> set (drop r res)) [j..<n] = filter (\<lambda>k. k \<notin> set (drop (Suc r) res)) [Suc j..<n]"
      unfolding j(1) d by (auto intro!: filter_cong)
    moreover have "(res @ [n]) ! r = j" using True by (simp add: nth_append)
    ultimately show ?thesis
      using Suc.hyps(1) [of "Suc j" "Suc r" D] Suc.hyps(2) True j later by simp
  next
    case False
    have "(res @ [n]) ! r \<noteq> j" using False j(2) Suc.prems(1) by (cases "r < length res") (auto simp: nth_append)
    moreover have notin: "j \<notin> set (drop r res)"
    proof
      assume m: "j \<in> set (drop r res)"
      then have r: "r < length res" by (metis drop_all empty_iff list.set(1) not_le)
      then have d: "drop r res = res ! r # drop (Suc r) res" by (simp add: Cons_nth_drop_Suc)
      have "sorted_wrt (<) (drop r res)" using assms(1) by (metis append_take_drop_id sorted_wrt_append)
      then have "res ! r < j" using m d False r by auto
      moreover have "j \<le> res ! r" using Suc.prems(3) d by simp
      ultimately show False by simp
    qed
    moreover have "\<forall>k \<in> set (drop r res). Suc j \<le> k" using Suc.prems(3) notin by (metis Suc_leI le_neq_implies_less)
    ultimately show ?thesis using Suc.hyps(1) [of "Suc j" r "D @ [Os ! j]"] Suc.hyps(2) Suc.prems(1) j by simp
  qed
qed

lemma picked_and_others:
  assumes "distinct res" "\<forall>k \<in> set res. k < length xs"
  shows "mset (map ((!) xs) res) + mset (map ((!) xs) (filter (\<lambda>k. k \<notin> set res) [0..<length xs])) = mset xs"
proof -
  have "mset_set (set res) + mset_set ({..<length xs} - set res) = mset_set {..<length xs}"
    using assms(2) by (subst mset_set_Union [symmetric]) (auto intro!: arg_cong [of _ _ mset_set])
  moreover have "mset (filter (\<lambda>k. k \<notin> set res) [0..<length xs]) = mset_set ({..<length xs} - set res)"
    by (simp flip: mset_set_set) (auto intro!: arg_cong [of _ _ mset_set])
  ultimately show ?thesis
    by (metis (no_types, lifting) assms(1) image_mset_union image_nth_all image_nth_list mset_map)
qed

lemma positive_coverage: "occ_ok x \<Longrightarrow> 0 < occ_coverage W x"
  by (auto simp: occ_coverage_def occ_ok_def Let_def)

fun insert_by :: "('o \<Rightarrow> 'o \<Rightarrow> bool) \<Rightarrow> 'o \<Rightarrow> 'o list \<Rightarrow> 'o list" where
  "insert_by lt x [] = [x]"
| "insert_by lt x (y # ys) = (if lt y x then y # insert_by lt x ys else x # y # ys)"

fun insertion_sort :: "('o \<Rightarrow> 'o \<Rightarrow> bool) \<Rightarrow> 'o list \<Rightarrow> 'o list" where
  "insertion_sort lt [] = []"
| "insertion_sort lt (x # xs) = insert_by lt x (insertion_sort lt xs)"

lemma mset_insert_by: "mset (insert_by lt x ys) = add_mset x (mset ys)"
  by (induction ys) auto

lemma mset_insertion_sort: "mset (insertion_sort lt xs) = mset xs"
  by (induction xs) (auto simp: mset_insert_by)

lemma sorted_insert_by:
  assumes "transp lt" "\<And>a b. \<not> (lt a b \<and> lt b a)" "transp (\<lambda>a b. \<not> lt b a)"
  shows "sorted_wrt (\<lambda>a b. \<not> lt b a) ys \<Longrightarrow> sorted_wrt (\<lambda>a b. \<not> lt b a) (insert_by lt x ys)"
proof (induction ys)
  case (Cons y ys)
  have "set (insert_by lt x ys) = insert x (set ys)" using mset_insert_by [of lt x ys] by (metis set_mset_add_mset_insert set_mset_mset)
  then show ?case using Cons assms(2,3) by (auto dest: transpD)
qed simp

lemma sorts_insertion_sort: "sorts insertion_sort (SortByRightBorderPredicate :: 'i COccurrence \<Rightarrow> 'i COccurrence \<Rightarrow> bool)"
proof -
  let ?lt = "SortByRightBorderPredicate :: 'i COccurrence \<Rightarrow> 'i COccurrence \<Rightarrow> bool"
  have "sorted_wrt (\<lambda>a b. \<not> ?lt b a) (insertion_sort ?lt xs)" for xs :: "'i COccurrence list"
  proof (induction xs)
    case (Cons x xs)
    have "transp ?lt" "\<And>a b. \<not> (?lt a b \<and> ?lt b a)" "transp (\<lambda>a b. \<not> ?lt b a)"
      by (auto simp: transp_def SortByRightBorderPredicate_def split: if_splits)
    from sorted_insert_by [OF this Cons] show ?case by simp
  qed simp
  then show ?thesis by (simp add: sorts_def mset_insertion_sort)
qed

definition sample_words :: "nat CWordQueries" where
  "sample_words = \<lparr>GetSourcePair = (\<lambda>w. \<lparr>FirstWord = int w, LastWord = int w\<rparr>), IsComma = (\<lambda>w. w = 3), IsAndConj = (\<lambda>w. False)\<rparr>"

definition sample_occurrence :: "nat \<Rightarrow> nat \<Rightarrow> nat CGroup COccurrence" where
  "sample_occurrence first second = (occurrence first second 0)\<lparr>m_pInputItem :=
     Some (CPrimitiveGroup \<lparr>FirstWord = int first, LastWord = int second - 1\<rparr> first)\<rparr>"

definition sample_overlapping :: "nat CGroup COccurrence list" where
  "sample_overlapping = [occurrence 2 5 0, occurrence 0 3 0, occurrence 3 6 0, occurrence 5 6 0, sample_occurrence 7 8]"

lemma sample_overlapping_ok: "\<forall>x \<in> set sample_overlapping. occ_ok x"
  by (simp add: sample_overlapping_def sample_occurrence_def occ_ok_def occurrence_def)

theorem SolveAmbiguity_correct_witness:
  "SolveAmbiguity insertion_sort sample_words sample_overlapping =
     Some [occurrence 0 3 0, occurrence 3 6 0, sample_occurrence 7 8] \<and>
   \<not> (mset [occurrence 2 5 0, occurrence 5 6 0, sample_occurrence 7 8] \<subseteq># mset sample_overlapping \<and>
      sorted_wrt apart [occurrence 2 5 0, occurrence 5 6 0, sample_occurrence 7 8] \<and>
      7 < (\<Sum>x \<leftarrow> [occurrence 2 5 0, occurrence 5 6 0, sample_occurrence 7 8]. int (occ_coverage sample_words x)))"
proof -
  have r: "SolveAmbiguity insertion_sort sample_words sample_overlapping =
     Some [occurrence 0 3 0, occurrence 3 6 0, sample_occurrence 7 8]" by code_simp
  have "(\<Sum>x \<leftarrow> [occurrence 0 3 0, occurrence 3 6 0, sample_occurrence 7 8]. int (occ_coverage sample_words x)) = 7"
    by code_simp
  moreover from SolveAmbiguity_correct [OF sorts_insertion_sort sample_overlapping_ok, of sample_words] obtain chosen where
    c: "SolveAmbiguity insertion_sort sample_words sample_overlapping = Some chosen"
      "\<forall>alt. mset alt \<subseteq># mset sample_overlapping \<and> sorted_wrt apart alt \<longrightarrow>
         (\<Sum>x \<leftarrow> alt. int (occ_coverage sample_words x)) \<le> (\<Sum>x \<leftarrow> chosen. int (occ_coverage sample_words x))" by blast
  moreover have "chosen = [occurrence 0 3 0, occurrence 3 6 0, sample_occurrence 7 8]" using c(1) r by simp
  ultimately show ?thesis using r by (metis linorder_not_less)
qed

text \<open>
  \<^verbatim>\<open>SolveAmbiguity\<close> with a list of dropped occurrences chooses the same ones, and appends to that list all the others;
  each of these overlaps one that is chosen.
\<close>

lemma SolveAmbiguity_dropping_correct:
  assumes "sorts std_sort SortByRightBorderPredicate" "\<forall>x \<in> set Occurrences. occ_ok x"
  shows "\<exists>chosen dropped. SolveAmbiguity_dropping std_sort W Occurrences Dropped = Some (chosen, Dropped @ dropped) \<and>
    SolveAmbiguity std_sort W Occurrences = Some chosen \<and> mset chosen + mset dropped = mset Occurrences \<and>
    (\<forall>x \<in> set dropped. \<exists>y \<in> set chosen. \<not> apart x y)"
proof -
  from SolveAmbiguity_spec [OF assms, of W] obtain Os' res where r:
    "SolveAmbiguity_indices std_sort W Occurrences [] = Some (Os', res)" "mset Os' = mset Occurrences" "sorted_wrt (<) res"
    "\<forall>k \<in> set res. k < length Os'" "SolveAmbiguity std_sort W Occurrences = Some (map ((!) Os') res)"
    "sorted_wrt (\<lambda>x y. occ_second x \<le> occ_first y) (map ((!) Os') res)"
    "\<forall>alt. mset alt \<subseteq># mset Occurrences \<and> sorted_wrt apart alt \<longrightarrow>
       (\<Sum>x \<leftarrow> alt. int (occ_coverage W x)) \<le> (\<Sum>x \<leftarrow> map ((!) Os') res. int (occ_coverage W x))" by blast
  let ?chosen = "map ((!) Os') res" and ?dropped = "map ((!) Os') (filter (\<lambda>k. k \<notin> set res) [0..<length Os'])"
  have res: "distinct res" "sort res = res" using r(3) by (simp_all add: strict_sorted_iff sorted_sort_id)
  have "SolveAmbiguity_dropping std_sort W Occurrences Dropped = Some (?chosen, Dropped @ ?dropped)"
  proof (cases "length res = length Os'")
    case True
    then have "res = [0..<length Os']" using r(3,4) by (intro strictly_increasing_all)
    then show ?thesis using r(1) by (simp add: SolveAmbiguity_dropping_def map_nth)
  next
    case False
    then show ?thesis
      using r(1) res(2) collect_dropped_spec [OF r(3,4), of 0 0 Os' Dropped] by (simp add: SolveAmbiguity_dropping_def)
  qed
  moreover have parts: "mset ?chosen + mset ?dropped = mset Occurrences"
    using picked_and_others [OF res(1) r(4)] r(2) by simp
  moreover have "\<exists>y \<in> set ?chosen. \<not> apart x y" if x: "x \<in> set ?dropped" for x
  proof (rule ccontr)
    assume "\<not> (\<exists>y \<in> set ?chosen. \<not> apart x y)"
    moreover have "sorted_wrt apart ?chosen" using r(6) by (rule sorted_wrt_mono_rel [rotated]) (simp add: apart_def)
    ultimately have "sorted_wrt apart (x # ?chosen)" by simp
    moreover have "{#x#} \<subseteq># mset ?dropped" using x by (simp only: mset_subset_eq_single set_mset_mset)
    then have "mset (x # ?chosen) \<subseteq># mset Occurrences"
      unfolding parts [symmetric] by (metis add_mset_add_single mset.simps(2) subset_mset.add_left_mono)
    ultimately have "(\<Sum>y \<leftarrow> x # ?chosen. int (occ_coverage W y)) \<le> (\<Sum>y \<leftarrow> ?chosen. int (occ_coverage W y))"
      using r(7) by blast
    moreover have "x \<in># mset Occurrences" unfolding parts [symmetric] using x by (metis set_mset_mset union_iff)
    then have "0 < occ_coverage W x" using assms(2) positive_coverage by (metis set_mset_mset)
    ultimately show False by simp
  qed
  ultimately show ?thesis using r(5) by blast
qed

lemma SolveAmbiguity_dropping_correct_witness:
  "SolveAmbiguity_dropping insertion_sort sample_words sample_overlapping [] =
     Some ([occurrence 0 3 0, occurrence 3 6 0, sample_occurrence 7 8], [occurrence 2 5 0, occurrence 5 6 0]) \<and>
   mset [occurrence 0 3 0, occurrence 3 6 0, sample_occurrence 7 8] + mset [occurrence 2 5 0, occurrence 5 6 0] =
     mset sample_overlapping"
proof -
  have "SolveAmbiguity_dropping insertion_sort sample_words sample_overlapping [] =
     Some ([occurrence 0 3 0, occurrence 3 6 0, sample_occurrence 7 8], [occurrence 2 5 0, occurrence 5 6 0])" by code_simp
  then show ?thesis
    using SolveAmbiguity_dropping_correct [OF sorts_insertion_sort sample_overlapping_ok, of sample_words "[]"] by force
qed

end
