(* ===== verification/GramBits.thy ===== *)
theory GramBits
  imports Prelude "HOL-Library.Word" "HOL-Library.Char_ord"
begin

text \<open>
  Grammemes and sets of them: the enumeration \<^verbatim>\<open>TGrammar\<close> (\<^verbatim>\<open>library/lemmer/dictlib/yx_gram_enum.h\<close>), bit sets over an
  enumeration (\<^verbatim>\<open>library/token/enumbitset.h\<close>) and \<^verbatim>\<open>TGramBitSet\<close> (\<^verbatim>\<open>library/lemmer/dictlib/grammarhelper.h\<close>, \<^verbatim>\<open>.cpp\<close>). A grammeme is
  its number; a bit set over the 125 grammemes is a word of that length, whose operations are those of the bit map.
\<close>

unbundle bit_operations_syntax

section \<open>Grammemes\<close>

type_synonym TGrammar = nat

abbreviation (input) gInvalid :: TGrammar where "gInvalid \<equiv> 0"
abbreviation (input) gFirst :: TGrammar where "gFirst \<equiv> 127"
abbreviation (input) gMax :: TGrammar where "gMax \<equiv> 252"
abbreviation (input) gAdjective :: TGrammar where "gAdjective \<equiv> 128"
abbreviation (input) gAdverb :: TGrammar where "gAdverb \<equiv> 129"
abbreviation (input) gConjunction :: TGrammar where "gConjunction \<equiv> 131"
abbreviation (input) gInterjunction :: TGrammar where "gInterjunction \<equiv> 132"
abbreviation (input) gNumeral :: TGrammar where "gNumeral \<equiv> 133"
abbreviation (input) gParticle :: TGrammar where "gParticle \<equiv> 134"
abbreviation (input) gPreposition :: TGrammar where "gPreposition \<equiv> 135"
abbreviation (input) gSubstantive :: TGrammar where "gSubstantive \<equiv> 136"
abbreviation (input) gVerb :: TGrammar where "gVerb \<equiv> 137"
abbreviation (input) gAdjNumeral :: TGrammar where "gAdjNumeral \<equiv> 138"
abbreviation (input) gAdjPronoun :: TGrammar where "gAdjPronoun \<equiv> 139"
abbreviation (input) gAdvPronoun :: TGrammar where "gAdvPronoun \<equiv> 140"
abbreviation (input) gSubstPronoun :: TGrammar where "gSubstPronoun \<equiv> 141"
abbreviation (input) gAbbreviation :: TGrammar where "gAbbreviation \<equiv> 145"
abbreviation (input) gInformal :: TGrammar where "gInformal \<equiv> 147"
abbreviation (input) gDistort :: TGrammar where "gDistort \<equiv> 148"
abbreviation (input) gContracted :: TGrammar where "gContracted \<equiv> 149"
abbreviation (input) gObscene :: TGrammar where "gObscene \<equiv> 150"
abbreviation (input) gRare :: TGrammar where "gRare \<equiv> 151"
abbreviation (input) gAwkward :: TGrammar where "gAwkward \<equiv> 152"
abbreviation (input) gObsolete :: TGrammar where "gObsolete \<equiv> 153"
abbreviation (input) gFirstName :: TGrammar where "gFirstName \<equiv> 155"
abbreviation (input) gSurname :: TGrammar where "gSurname \<equiv> 156"
abbreviation (input) gPatr :: TGrammar where "gPatr \<equiv> 157"
abbreviation (input) gGeo :: TGrammar where "gGeo \<equiv> 158"
abbreviation (input) gPresent :: TGrammar where "gPresent \<equiv> 160"
abbreviation (input) gNotpast :: TGrammar where "gNotpast \<equiv> 161"
abbreviation (input) gPast :: TGrammar where "gPast \<equiv> 162"
abbreviation (input) gFuture :: TGrammar where "gFuture \<equiv> 163"
abbreviation (input) gPast2 :: TGrammar where "gPast2 \<equiv> 164"
abbreviation (input) gNominative :: TGrammar where "gNominative \<equiv> 165"
abbreviation (input) gGenitive :: TGrammar where "gGenitive \<equiv> 166"
abbreviation (input) gDative :: TGrammar where "gDative \<equiv> 167"
abbreviation (input) gAccusative :: TGrammar where "gAccusative \<equiv> 168"
abbreviation (input) gInstrumental :: TGrammar where "gInstrumental \<equiv> 169"
abbreviation (input) gAblative :: TGrammar where "gAblative \<equiv> 170"
abbreviation (input) gPartitive :: TGrammar where "gPartitive \<equiv> 171"
abbreviation (input) gLocative :: TGrammar where "gLocative \<equiv> 172"
abbreviation (input) gVocative :: TGrammar where "gVocative \<equiv> 173"
abbreviation (input) gSingular :: TGrammar where "gSingular \<equiv> 174"
abbreviation (input) gPlural :: TGrammar where "gPlural \<equiv> 175"
abbreviation (input) gGerund :: TGrammar where "gGerund \<equiv> 176"
abbreviation (input) gInfinitive :: TGrammar where "gInfinitive \<equiv> 177"
abbreviation (input) gParticiple :: TGrammar where "gParticiple \<equiv> 178"
abbreviation (input) gIndicative :: TGrammar where "gIndicative \<equiv> 179"
abbreviation (input) gImperative :: TGrammar where "gImperative \<equiv> 180"
abbreviation (input) gConditional :: TGrammar where "gConditional \<equiv> 181"
abbreviation (input) gSubjunctive :: TGrammar where "gSubjunctive \<equiv> 182"
abbreviation (input) gShort :: TGrammar where "gShort \<equiv> 183"
abbreviation (input) gFull :: TGrammar where "gFull \<equiv> 184"
abbreviation (input) gSuperlative :: TGrammar where "gSuperlative \<equiv> 185"
abbreviation (input) gComparative :: TGrammar where "gComparative \<equiv> 186"
abbreviation (input) gPossessive :: TGrammar where "gPossessive \<equiv> 187"
abbreviation (input) gPerson1 :: TGrammar where "gPerson1 \<equiv> 188"
abbreviation (input) gPerson2 :: TGrammar where "gPerson2 \<equiv> 189"
abbreviation (input) gPerson3 :: TGrammar where "gPerson3 \<equiv> 190"
abbreviation (input) gFeminine :: TGrammar where "gFeminine \<equiv> 191"
abbreviation (input) gMasculine :: TGrammar where "gMasculine \<equiv> 192"
abbreviation (input) gNeuter :: TGrammar where "gNeuter \<equiv> 193"
abbreviation (input) gMasFem :: TGrammar where "gMasFem \<equiv> 194"
abbreviation (input) gPerfect :: TGrammar where "gPerfect \<equiv> 195"
abbreviation (input) gImperfect :: TGrammar where "gImperfect \<equiv> 196"
abbreviation (input) gPassive :: TGrammar where "gPassive \<equiv> 197"
abbreviation (input) gActive :: TGrammar where "gActive \<equiv> 198"
abbreviation (input) gReflexive :: TGrammar where "gReflexive \<equiv> 199"
abbreviation (input) gImpersonal :: TGrammar where "gImpersonal \<equiv> 200"
abbreviation (input) gAnimated :: TGrammar where "gAnimated \<equiv> 201"
abbreviation (input) gInanimated :: TGrammar where "gInanimated \<equiv> 202"
abbreviation (input) gPraedic :: TGrammar where "gPraedic \<equiv> 203"
abbreviation (input) gParenth :: TGrammar where "gParenth \<equiv> 204"
abbreviation (input) gTransitive :: TGrammar where "gTransitive \<equiv> 205"
abbreviation (input) gIntransitive :: TGrammar where "gIntransitive \<equiv> 206"
abbreviation (input) gDefinite :: TGrammar where "gDefinite \<equiv> 207"
abbreviation (input) gIndefinite :: TGrammar where "gIndefinite \<equiv> 208"
abbreviation (input) gSimConj :: TGrammar where "gSimConj \<equiv> 209"
abbreviation (input) gSubConj :: TGrammar where "gSubConj \<equiv> 210"
abbreviation (input) gPronounConj :: TGrammar where "gPronounConj \<equiv> 211"
abbreviation (input) gCorrelateConj :: TGrammar where "gCorrelateConj \<equiv> 212"
abbreviation (input) gAuxVerb :: TGrammar where "gAuxVerb \<equiv> 213"
abbreviation (input) gPoss1pSg :: TGrammar where "gPoss1pSg \<equiv> 216"
abbreviation (input) gPoss1pPl :: TGrammar where "gPoss1pPl \<equiv> 217"
abbreviation (input) gPoss2pSg :: TGrammar where "gPoss2pSg \<equiv> 219"
abbreviation (input) gPoss2pPl :: TGrammar where "gPoss2pPl \<equiv> 220"
abbreviation (input) gPoss3p :: TGrammar where "gPoss3p \<equiv> 221"
abbreviation (input) gPoss3pSg :: TGrammar where "gPoss3pSg \<equiv> 222"
abbreviation (input) gPoss3pPl :: TGrammar where "gPoss3pPl \<equiv> 223"
abbreviation (input) gPredic1pSg :: TGrammar where "gPredic1pSg \<equiv> 224"
abbreviation (input) gPredic1pPl :: TGrammar where "gPredic1pPl \<equiv> 225"
abbreviation (input) gPredic2pSg :: TGrammar where "gPredic2pSg \<equiv> 226"
abbreviation (input) gPredic2pPl :: TGrammar where "gPredic2pPl \<equiv> 227"
abbreviation (input) gPredic3pSg :: TGrammar where "gPredic3pSg \<equiv> 228"
abbreviation (input) gPredic3pPl :: TGrammar where "gPredic3pPl \<equiv> 229"
abbreviation (input) gElative :: TGrammar where "gElative \<equiv> 230"
abbreviation (input) gDerivedAdjective :: TGrammar where "gDerivedAdjective \<equiv> 231"
abbreviation (input) gMedial :: TGrammar where "gMedial \<equiv> 235"
abbreviation (input) gHuman :: TGrammar where "gHuman \<equiv> 236"
abbreviation (input) gConverb :: TGrammar where "gConverb \<equiv> 239"

section \<open>Bit sets over an enumeration\<close>

type_synonym grams = "125 word"

definition gram_IsValid :: "TGrammar \<Rightarrow> bool" where
  "gram_IsValid c \<longleftrightarrow> c \<ge> gFirst \<and> c < gMax"

text \<open>\<^verbatim>\<open>Pos\<close> throws on a value outside the enumeration; the operations below are for values in it, the safe ones for all.\<close>

definition Pos :: "TGrammar \<Rightarrow> nat" where
  "Pos c = c - gFirst"

definition Has :: "grams \<Rightarrow> TGrammar \<Rightarrow> bool" where
  "Has g c = bit g (Pos c)"

definition gram_Set :: "TGrammar \<Rightarrow> grams \<Rightarrow> grams" where
  "gram_Set c g = set_bit (Pos c) g"

definition gram_Reset :: "TGrammar \<Rightarrow> grams \<Rightarrow> grams" where
  "gram_Reset c g = unset_bit (Pos c) g"

definition SafeTest :: "grams \<Rightarrow> TGrammar \<Rightarrow> bool" where
  "SafeTest g c \<longleftrightarrow> (if gram_IsValid c then Has g c else False)"

definition SafeSet :: "TGrammar \<Rightarrow> grams \<Rightarrow> grams" where
  "SafeSet c g = (if gram_IsValid c then gram_Set c g else g)"

definition SafeReset :: "TGrammar \<Rightarrow> grams \<Rightarrow> grams" where
  "SafeReset c g = (if gram_IsValid c then gram_Reset c g else g)"

definition grammems :: "TGrammar list \<Rightarrow> grams" where
  "grammems cs = fold gram_Set cs 0"

definition HasAny :: "grams \<Rightarrow> grams \<Rightarrow> bool" where
  "HasAny g m \<longleftrightarrow> g AND m \<noteq> 0"

definition HasAll :: "grams \<Rightarrow> grams \<Rightarrow> bool" where
  "HasAll g m \<longleftrightarrow> g AND m = m"

definition gram_Count :: "grams \<Rightarrow> nat" where
  "gram_Count g = length (filter (bit g) [0..<125])"

text \<open>The first set bit from a position on, or the size.\<close>

definition next_bit :: "grams \<Rightarrow> nat \<Rightarrow> nat" where
  "next_bit g i = (case List.find (bit g) [i..<125] of Some j \<Rightarrow> j | None \<Rightarrow> 125)"

definition FindFirst :: "grams \<Rightarrow> TGrammar" where
  "FindFirst g = next_bit g 0 + gFirst"

definition FindNext :: "grams \<Rightarrow> TGrammar \<Rightarrow> TGrammar" where
  "FindNext g c = (if c < gFirst then FindFirst g else next_bit g (Suc (c - gFirst)) + gFirst)"

text \<open>\<^verbatim>\<open>operator <\<close> compares the chunks of 64 bits, the lower one first.\<close>

definition gram_chunks :: "grams \<Rightarrow> nat \<times> nat" where
  "gram_chunks g = (unat (take_bit 64 g), unat (drop_bit 64 g))"

definition gram_less :: "grams \<Rightarrow> grams \<Rightarrow> bool" where
  "gram_less g h \<longleftrightarrow>
     (if fst (gram_chunks g) < fst (gram_chunks h) then True
      else if fst (gram_chunks g) > fst (gram_chunks h) then False
      else if snd (gram_chunks g) < snd (gram_chunks h) then True
      else if snd (gram_chunks g) > snd (gram_chunks h) then False
      else False)"

text \<open>
  The loop \<^verbatim>\<open>for (bit = FindFirst(); bit != End; bit = FindNext(bit))\<close>, with the grammemes it visits. \<open>None\<close> would be not
  returning.
\<close>

partial_function (option) visit_from :: "grams \<Rightarrow> TGrammar \<Rightarrow> TGrammar list option" where
  "visit_from g c =
     (if c = gMax then Some [] else Option.bind (visit_from g (FindNext g c)) (\<lambda>cs. Some (c # cs)))"

declare visit_from.simps [code]

definition visit :: "grams \<Rightarrow> TGrammar list option" where
  "visit g = visit_from g (FindFirst g)"

text \<open>The stream is a list of 32-bit numbers; \<open>None\<close> is its end or the exception of \<^verbatim>\<open>Pos\<close>.\<close>

definition set_Save :: "grams \<Rightarrow> 32 word list option" where
  "set_Save g = map_option (\<lambda>cs. word_of_nat (gram_Count g) # map word_of_nat cs) (visit g)"

fun load_bits :: "nat \<Rightarrow> 32 word list \<Rightarrow> grams \<Rightarrow> (grams \<times> 32 word list) option" where
  "load_bits 0 buffer g = Some (g, buffer)"
| "load_bits (Suc n) [] g = None"
| "load_bits (Suc n) (b # buffer) g = (if gram_IsValid (unat b) then load_bits n buffer (gram_Set (unat b) g) else None)"

fun set_Load :: "32 word list \<Rightarrow> (grams \<times> 32 word list) option" where
  "set_Load [] = None"
| "set_Load (sz # buffer) = load_bits (unat sz) buffer 0"

section \<open>Sets of grammemes\<close>

definition ReplaceByMask :: "grams \<Rightarrow> grams \<Rightarrow> grams \<Rightarrow> grams" where
  "ReplaceByMask src_grammems m g = (g AND NOT m) OR (src_grammems AND m)"

definition ReplaceByMaskIfAny :: "grams \<Rightarrow> grams \<Rightarrow> grams \<Rightarrow> grams" where
  "ReplaceByMaskIfAny src_grammems m g =
     (let rep_grammems = src_grammems AND m in if rep_grammems \<noteq> 0 then (g AND NOT m) OR rep_grammems else g)"

definition Tr_sets :: "grams \<Rightarrow> grams \<Rightarrow> bool \<Rightarrow> bool \<Rightarrow> grams \<Rightarrow> grams" where
  "Tr_sets src dst clean reset g =
     (if HasAll g src then
        (let g = (if clean then g AND NOT src else g); g = (if reset then 0 else g) in g OR dst)
      else g)"

definition Tr_set :: "TGrammar \<Rightarrow> grams \<Rightarrow> bool \<Rightarrow> bool \<Rightarrow> grams \<Rightarrow> grams" where
  "Tr_set src dst clean reset g =
     (if Has g src then
        (let g = (if clean then gram_Reset src g else g); g = (if reset then 0 else g) in g OR dst)
      else g)"

text \<open>The unions and intersections of a collection.\<close>

definition UniteGrammems :: "grams list \<Rightarrow> grams" where
  "UniteGrammems gs = fold (\<lambda>h res. res OR h) gs 0"

definition IntersectGrammems :: "grams list \<Rightarrow> grams" where
  "IntersectGrammems gs = (case gs of [] \<Rightarrow> 0 | g # gs \<Rightarrow> fold (\<lambda>h res. res AND h) gs g)"

definition AllMajorGenders :: grams where "AllMajorGenders = grammems [gMasculine, gFeminine, gNeuter]"
definition AllGenders :: grams where "AllGenders = grammems [gMasculine, gFeminine, gNeuter, gMasFem]"
definition AllMajorCases :: grams where
  "AllMajorCases = grammems [gNominative, gGenitive, gDative] OR grammems [gAccusative, gInstrumental, gAblative]"
definition AllMinorCases :: grams where "AllMinorCases = grammems [gPartitive, gLocative, gVocative]"
definition AllCases :: grams where "AllCases = AllMajorCases OR AllMinorCases"
definition AllNumbers :: grams where "AllNumbers = grammems [gSingular, gPlural]"
definition AllTimes :: grams where "AllTimes = grammems [gPresent, gFuture, gPast, gNotpast]"
definition AllPersons :: grams where "AllPersons = grammems [gPerson1, gPerson2, gPerson3]"
definition AllGrammems :: grams where "AllGrammems = NOT 0"

text \<open>\<^verbatim>\<open>TGrammarBunch\<close> is a \<^verbatim>\<open>yset\<close> of grammeme sets.\<close>

type_synonym TGrammarBunch = "grams list"

definition bunch_insert :: "grams \<Rightarrow> TGrammarBunch \<Rightarrow> TGrammarBunch" where
  "bunch_insert g bunch = oset_insert gram_less g bunch"

definition bunch_of :: "grams list \<Rightarrow> TGrammarBunch" where
  "bunch_of gs = fold bunch_insert gs []"

definition ToGrammarBunch :: "grams \<Rightarrow> grams list \<Rightarrow> TGrammarBunch \<Rightarrow> TGrammarBunch" where
  "ToGrammarBunch stem flexes bunch =
     fold (\<lambda>f bunch. let bits = stem OR f in if bits \<noteq> 0 then bunch_insert bits bunch else bunch) flexes bunch"

definition gram_Normalize :: "grams \<Rightarrow> grams" where
  "gram_Normalize gram =
     Tr_sets (grammems [gAdjective, gPlural]) AllMajorGenders False False
       (Tr_set gMasFem (grammems [gMasculine, gFeminine]) True False gram)"

text \<open>A bunch is normalized as a whole as soon as one of its members calls for it; \<open>known\<close> are the languages of the switch.\<close>

definition bunch_Normalize :: "bool \<Rightarrow> TGrammarBunch \<Rightarrow> TGrammarBunch" where
  "bunch_Normalize known bunch =
     (if \<not> known then bunch
      else if list_ex (\<lambda>g. HasAny g (grammems [gMasFem, gAdjective])) bunch then bunch_of (map gram_Normalize bunch)
      else bunch)"

section \<open>Bytes and hexadecimal strings\<close>

text \<open>A byte of the chain is the number of a grammeme; the chain of \<^verbatim>\<open>FromBytes(const char*)\<close> ends at the zero byte. \<open>None\<close> is
  the exception of \<^verbatim>\<open>Pos\<close>.\<close>

definition ToBytes :: "grams \<Rightarrow> nat list option" where
  "ToBytes g = visit g"

definition FromBytes :: "nat list \<Rightarrow> grams option" where
  "FromBytes bytes = (if list_all gram_IsValid bytes then Some (fold gram_Set bytes 0) else None)"

definition FromBytes_chain :: "nat list \<Rightarrow> grams option" where
  "FromBytes_chain bytes = FromBytes (takeWhile (\<lambda>b. b \<noteq> 0) bytes)"

definition hex_digit :: "nat \<Rightarrow> char" where
  "hex_digit part = char_of ((if part < 10 then of_char (CHR ''0'') else of_char (CHR ''A'') - 10) + part)"

definition ToHexString :: "grams \<Rightarrow> string option" where
  "ToHexString g = map_option (\<lambda>bytes. concat (map (\<lambda>b. [hex_digit (b div 16), hex_digit (b mod 16)]) bytes)) (ToBytes g)"

definition hex_part :: "char \<Rightarrow> nat option" where
  "hex_part ch =
     (if CHR ''0'' \<le> ch \<and> ch \<le> CHR ''9'' then Some (of_char ch - of_char (CHR ''0''))
      else if CHR ''A'' \<le> ch \<and> ch \<le> CHR ''F'' then Some (of_char ch - of_char (CHR ''A'') + 10)
      else if CHR ''a'' \<le> ch \<and> ch \<le> CHR ''f'' then Some (of_char ch - of_char (CHR ''a'') + 10)
      else None)"

text \<open>A string of odd length is read up to its final zero, which is no digit: \<^verbatim>\<open>TException\<close>, \<open>None\<close>.\<close>

fun hex_bytes :: "string \<Rightarrow> nat list option" where
  "hex_bytes [] = Some []"
| "hex_bytes [c] = None"
| "hex_bytes (c # d # s) =
     (case (hex_part c, hex_part d) of
        (Some h, Some l) \<Rightarrow> map_option (Cons (h * 16 + l)) (hex_bytes s)
      | _ \<Rightarrow> None)"

definition FromHexString :: "string \<Rightarrow> grams option" where
  "FromHexString s = Option.bind (hex_bytes s) FromBytes"

section \<open>Bit sets are sets of grammemes\<close>

lemma bit_fold_set: "bit (fold gram_Set (map (\<lambda>i. i + 127) is) g) n \<longleftrightarrow> n < 125 \<and> (n \<in> set is \<or> bit g n)"
  by (induction "is" arbitrary: g) (auto simp: gram_Set_def Pos_def bit_set_bit_iff bit_imp_le_length dest: bit_imp_le_length)

lemma next_bit_less: "next_bit g i < 125 \<Longrightarrow> bit g (next_bit g i) \<and> i \<le> next_bit g i"
proof (cases "List.find (bit g) [i..<125]")
  case None
  then show "next_bit g i < 125 \<Longrightarrow> bit g (next_bit g i) \<and> i \<le> next_bit g i" by (simp add: next_bit_def)
next
  case (Some j)
  then have "bit g j \<and> i \<le> j" by (auto simp: find_Some_iff)
  then show ?thesis using Some by (simp add: next_bit_def)
qed

lemma filter_from_next:
  "filter (bit g) [i..<125] = (if next_bit g i < 125 then next_bit g i # filter (bit g) [Suc (next_bit g i)..<125] else [])"
proof (induction "125 - i" arbitrary: i)
  case 0
  then show ?case by (simp add: next_bit_def)
next
  case (Suc d)
  then have i: "i < 125" by linarith
  show ?case
  proof (cases "bit g i")
    case True
    then have "next_bit g i = i" using i by (simp add: next_bit_def upt_rec [of i])
    then show ?thesis using True i by (simp add: upt_rec [of i])
  next
    case False
    then have "next_bit g i = next_bit g (Suc i)" using i by (simp add: next_bit_def upt_rec [of i])
    then show ?thesis using Suc.hyps(1) [of "Suc i"] Suc.hyps(2) False i by (simp add: upt_rec [of i])
  qed
qed

lemma next_bit_le: "next_bit g i \<le> 125"
  by (auto simp: next_bit_def find_Some_iff less_imp_le split: option.splits)

lemma visit_from_eq: "visit_from g (next_bit g i + 127) = Some (map (\<lambda>i. i + 127) (filter (bit g) [i..<125]))"
proof (induction "125 - i" arbitrary: i rule: less_induct)
  case less
  show ?case
  proof (cases "next_bit g i < 125")
    case True
    then have "i \<le> next_bit g i" using next_bit_less by blast
    then have "125 - Suc (next_bit g i) < 125 - i" using True by linarith
    from less [OF this] show ?thesis
      using True by (subst visit_from.simps, subst filter_from_next) (simp add: FindNext_def)
  next
    case False
    then have "next_bit g i = 125" using next_bit_le [of g i] by simp
    then show ?thesis by (subst visit_from.simps, subst filter_from_next) simp
  qed
qed

lemma visit_eq: "visit g = Some (map (\<lambda>i. i + 127) (filter (bit g) [0..<125]))"
  by (simp add: visit_def FindFirst_def visit_from_eq)

lemma set_of_bits: "fold gram_Set (map (\<lambda>i. i + 127) (filter (bit g) [0..<125])) 0 = g"
  by (rule bit_word_eqI) (auto simp: bit_fold_set dest: bit_imp_le_length)

lemma load_bits_eq:
  "list_all gram_IsValid cs \<Longrightarrow> load_bits (length cs) (map word_of_nat cs @ buffer) g = Some (fold gram_Set cs g, buffer)"
proof (induction cs arbitrary: g)
  case (Cons c cs)
  then have "gram_IsValid c" "c < 2 ^ 32" by (simp_all add: gram_IsValid_def)
  then show ?case using Cons by (simp add: unsigned_of_nat take_bit_nat_eq_self)
qed simp

lemma hex_part_digit: "n < 16 \<Longrightarrow> hex_part (hex_digit n) = Some n"
proof -
  assume "n < 16"
  then have "n \<in> set [0..<16]" by simp
  moreover have "list_all (\<lambda>n. hex_part (hex_digit n) = Some n) [0..<16]" by code_simp
  ultimately show ?thesis by (simp only: list_all_iff)
qed

lemma hex_bytes_digits:
  "\<forall>b \<in> set bytes. b < 256 \<Longrightarrow> hex_bytes (concat (map (\<lambda>b. [hex_digit (b div 16), hex_digit (b mod 16)]) bytes)) = Some bytes"
  by (induction bytes) (auto simp: hex_part_digit div_less_iff_less_mult)

text \<open>
  C29. A set of grammemes comes back from its bytes, from its hexadecimal string and from a stream, and the loop over
  its grammemes ends.
\<close>

theorem grammems_roundtrip:
  "Option.bind (ToBytes g) FromBytes = Some g \<and> Option.bind (ToBytes g) FromBytes_chain = Some g \<and>
   Option.bind (ToHexString g) FromHexString = Some g \<and>
   Option.bind (set_Save g) (\<lambda>s. set_Load (s @ buffer)) = Some (g, buffer)"
proof -
  let ?cs = "map (\<lambda>i. i + 127) (filter (bit g) [0..<125])"
  have valid: "list_all gram_IsValid ?cs" by (auto simp: list_all_iff gram_IsValid_def)
  then have from_bytes: "FromBytes ?cs = Some g" unfolding FromBytes_def set_of_bits by simp
  moreover have "takeWhile (\<lambda>b. b \<noteq> 0) ?cs = ?cs" unfolding takeWhile_eq_all_conv by auto
  ultimately have chain: "FromBytes_chain ?cs = Some g" by (simp only: FromBytes_chain_def)
  have "hex_bytes (concat (map (\<lambda>b. [hex_digit (b div 16), hex_digit (b mod 16)]) ?cs)) = Some ?cs"
    by (rule hex_bytes_digits) auto
  then have hex: "Option.bind (ToHexString g) FromHexString = Some g"
    using from_bytes by (simp add: ToHexString_def ToBytes_def visit_eq FromHexString_def)
  have "length ?cs \<le> 125" using length_filter_le [of "bit g" "[0..<125]"] by simp
  then have "unat (word_of_nat (gram_Count g) :: 32 word) = length ?cs"
    by (simp add: gram_Count_def unsigned_of_nat take_bit_nat_eq_self)
  moreover have "load_bits (length ?cs) (map word_of_nat ?cs @ buffer) 0 = Some (fold gram_Set ?cs 0, buffer)"
    by (rule load_bits_eq [OF valid])
  ultimately have "Option.bind (set_Save g) (\<lambda>s. set_Load (s @ buffer)) = Some (g, buffer)"
    by (simp add: set_Save_def visit_eq set_of_bits del: map_map)
  then show ?thesis using from_bytes chain hex by (simp add: ToBytes_def visit_eq)
qed

section \<open>The order of bit sets\<close>

lemma gram_chunks_inj: "gram_chunks g = gram_chunks h \<longleftrightarrow> g = h"
proof
  assume "gram_chunks g = gram_chunks h"
  then have e: "take_bit 64 g = take_bit 64 h" "drop_bit 64 g = drop_bit 64 h"
    by (simp_all add: gram_chunks_def word_unat_eq_iff)
  have "g = push_bit 64 (drop_bit 64 g) + take_bit 64 g" "h = push_bit 64 (drop_bit 64 h) + take_bit 64 h"
    by (simp_all add: bits_ident)
  then show "g = h" using e by simp
qed simp

interpretation gramset: key_order gram_less gram_chunks
  by unfold_locales (auto simp: gram_less_def less_prod_def prod_eq_iff)

lemma inj_gram_chunks: "inj_on gram_chunks A"
  by (rule inj_onI) (simp add: gram_chunks_inj)

lemma set_bunch_insert [simp]: "set (bunch_insert g b) = insert g (set b)"
  unfolding bunch_insert_def by (rule gramset.set_insert_inj [OF inj_gram_chunks])

lemma ordered_bunch_insert [simp]: "gramset.ordered b \<Longrightarrow> gramset.ordered (bunch_insert g b)"
  unfolding bunch_insert_def by (rule gramset.ordered_insert)

lemma fold_bunch_insert:
  "set (fold bunch_insert gs b) = set gs \<union> set b" "gramset.ordered b \<Longrightarrow> gramset.ordered (fold bunch_insert gs b)"
  by (induction gs arbitrary: b) auto

lemma bunch_of_set [simp]: "set (bunch_of gs) = set gs" "gramset.ordered (bunch_of gs)"
  by (simp_all add: bunch_of_def fold_bunch_insert)

section \<open>Bits of the operations\<close>

lemma bit_UniteGrammems: "bit (UniteGrammems gs) n \<longleftrightarrow> (\<exists>g \<in> set gs. bit g n)"
proof -
  have "bit (fold (\<lambda>h res. res OR h) gs r) n \<longleftrightarrow> bit r n \<or> (\<exists>g \<in> set gs. bit g n)" for r
    by (induction gs arbitrary: r) (auto simp: bit_or_iff)
  then show ?thesis by (simp add: UniteGrammems_def)
qed

lemma UniteGrammems_set: "set gs = set hs \<Longrightarrow> UniteGrammems gs = UniteGrammems hs"
  by (rule bit_word_eqI) (simp add: bit_UniteGrammems)

lemma UniteGrammems_zero: "UniteGrammems gs = 0 \<longleftrightarrow> (\<forall>g \<in> set gs. g = 0)"
proof
  assume u: "UniteGrammems gs = 0"
  show "\<forall>g \<in> set gs. g = 0"
  proof
    fix g assume g: "g \<in> set gs"
    show "g = 0"
    proof (rule bit_word_eqI)
      fix n show "bit g n = bit (0 :: grams) n" using u g bit_UniteGrammems [of gs n] by auto
    qed
  qed
next
  assume "\<forall>g \<in> set gs. g = 0"
  then show "UniteGrammems gs = 0" by (intro bit_word_eqI) (auto simp: bit_UniteGrammems)
qed

lemma HasAll_iff: "HasAll g m \<longleftrightarrow> (\<forall>n. bit m n \<longrightarrow> bit g n)"
proof
  assume a: "HasAll g m"
  have "bit (g AND m) n = bit m n" for n using a by (simp only: HasAll_def)
  then show "\<forall>n. bit m n \<longrightarrow> bit g n" unfolding bit_and_iff by blast
next
  assume "\<forall>n. bit m n \<longrightarrow> bit g n"
  then show "HasAll g m" unfolding HasAll_def by (intro bit_word_eqI) (auto simp: bit_and_iff)
qed

lemma HasAny_iff: "HasAny g m \<longleftrightarrow> (\<exists>n. bit g n \<and> bit m n)"
proof
  assume "HasAny g m"
  then show "\<exists>n. bit g n \<and> bit m n"
    unfolding HasAny_def by (rule contrapos_np) (intro bit_word_eqI, auto simp: bit_and_iff)
next
  assume "\<exists>n. bit g n \<and> bit m n"
  then obtain n where "bit (g AND m) n" by (auto simp: bit_and_iff)
  then show "HasAny g m" unfolding HasAny_def by auto
qed

lemma HasAny_commute: "HasAny g m \<longleftrightarrow> HasAny m g"
  by (auto simp: HasAny_iff)

lemma HasAll_refl [simp]: "HasAll g g"
  by (simp add: HasAll_iff)

lemma HasAll_trans: "HasAll a b \<Longrightarrow> HasAll b c \<Longrightarrow> HasAll a c"
  by (simp add: HasAll_iff)

lemma bit_grammems: "bit (grammems cs) n \<longleftrightarrow> n < 125 \<and> n \<in> Pos ` set cs"
proof -
  have "bit (fold gram_Set cs g) n \<longleftrightarrow> n < 125 \<and> (n \<in> Pos ` set cs \<or> bit g n)" for g
    by (induction cs arbitrary: g) (auto simp: gram_Set_def bit_set_bit_iff bit_imp_le_length dest: bit_imp_le_length)
  then show ?thesis by (simp add: grammems_def)
qed

lemma grammems_append: "grammems cs OR grammems ds = grammems (cs @ ds)"
  by (rule bit_word_eqI) (auto simp: bit_or_iff bit_grammems)

lemma gram_Set_grammems: "gram_Set c (grammems cs) = grammems (cs @ [c])"
  by (simp add: grammems_def)

lemma Pos_inj: "gram_IsValid c \<Longrightarrow> gram_IsValid d \<Longrightarrow> Pos c = Pos d \<longleftrightarrow> c = d"
  by (auto simp: gram_IsValid_def Pos_def)

lemma grammems_disjoint:
  assumes "list_all gram_IsValid (cs @ ds)" "set cs \<inter> set ds = {}"
  shows "\<not> HasAny (grammems cs) (grammems ds)"
proof
  assume "HasAny (grammems cs) (grammems ds)"
  then obtain c d where "c \<in> set cs" "d \<in> set ds" "Pos c = Pos d" by (auto simp: HasAny_iff bit_grammems)
  moreover from this have "c = d" using assms(1) Pos_inj by (auto simp: list_all_iff)
  ultimately show False using assms(2) by auto
qed

end
