(* ===== verification/GramFeatures.thy ===== *)
theory GramFeatures
  imports GramBits "HOL-Library.Monad_Syntax"
begin

text \<open>
  Grammatical features, groups of grammemes such as case, number or gender
  (\<^verbatim>\<open>FactExtract/Parser/inflectorlib/gramfeatures.h\<close>, \<^verbatim>\<open>gramfeatures.cpp\<close>): the table of features with its consistency check,
  the replacement of features and the measure of agreement of two sets of grammemes.
\<close>

section \<open>Features\<close>

datatype FeatureType = PoS | SubPoS | Gender | Case | Number | Anim | Tense | Person | Perfect | Transitive | Vox | Poss
  | Predic | Det | FeatureMax

definition feature_no :: "FeatureType \<Rightarrow> nat" where
  "feature_no t =
     (case t of PoS \<Rightarrow> 0 | SubPoS \<Rightarrow> 1 | Gender \<Rightarrow> 2 | Case \<Rightarrow> 3 | Number \<Rightarrow> 4 | Anim \<Rightarrow> 5 | Tense \<Rightarrow> 6 | Person \<Rightarrow> 7
      | Perfect \<Rightarrow> 8 | Transitive \<Rightarrow> 9 | Vox \<Rightarrow> 10 | Poss \<Rightarrow> 11 | Predic \<Rightarrow> 12 | Det \<Rightarrow> 13 | FeatureMax \<Rightarrow> 14)"

record TFeature =
  feature_Type :: FeatureType
  OrderedValues :: "TGrammar list"
  feature_Set :: grams
  IsHomogeneous :: bool

text \<open>The constructor; \<open>None\<close> is the failed assertion that a value is unique.\<close>

fun add_values :: "TGrammar list \<Rightarrow> grams \<Rightarrow> grams option" where
  "add_values [] g = Some g"
| "add_values (c # cs) g = (if Has g c then None else add_values cs (gram_Set c g))"

definition feature_init :: "FeatureType \<Rightarrow> bool \<Rightarrow> TGrammar list \<Rightarrow> TFeature option" where
  "feature_init type homogeneous values =
     map_option (\<lambda>g. \<lparr>feature_Type = type, OrderedValues = values, feature_Set = g, IsHomogeneous = homogeneous\<rparr>)
       (add_values values 0)"

record TFeatureHolder =
  Features :: "TFeature list"
  MutableFeatures :: "FeatureType list"
  NormalMutableSet :: grams
  MutableSet :: grams
  FreeSet :: grams
  UnwantedSet :: grams
  RestrictedSet :: grams
  ClearedSet :: grams
  RequiredSet :: grams
  GrammemTypes :: "FeatureType list"

text \<open>\<^verbatim>\<open>Add\<close>: \<open>Inl\<close> is its exception, \<open>None\<close> a failed assertion.\<close>

fun register_values :: "FeatureType \<Rightarrow> TGrammar list \<Rightarrow> FeatureType list \<Rightarrow> string + FeatureType list" where
  "register_values type [] types = Inr types"
| "register_values type (c # cs) types =
     (if gram_IsValid c then
        (let gtype = types ! (c - gFirst)
         in if gtype \<noteq> type then
              (if gtype \<noteq> FeatureMax then Inl ''Several features for grammem is not allowed''
               else register_values type cs (types[c - gFirst := type]))
            else register_values type cs types)
      else register_values type cs types)"

definition feature_Add ::
  "FeatureType \<Rightarrow> bool \<Rightarrow> TGrammar list \<Rightarrow> TFeatureHolder \<Rightarrow> (string + TFeatureHolder) option" where
  "feature_Add type homogeneous values H =
     (if feature_no type \<noteq> length (Features H) then None
      else do {
        f \<leftarrow> feature_init type homogeneous values;
        let H = H\<lparr>Features := Features H @ [f]\<rparr>;
        Some (case register_values type (OrderedValues f) (GrammemTypes H) of
                Inl e \<Rightarrow> Inl e
              | Inr types \<Rightarrow> Inr (H\<lparr>GrammemTypes := types\<rparr>))
      })"

definition BitSet :: "TFeatureHolder \<Rightarrow> FeatureType \<Rightarrow> grams" where
  "BitSet H type = feature_Set (Features H ! feature_no type)"

definition Ordered :: "TFeatureHolder \<Rightarrow> FeatureType \<Rightarrow> TGrammar list" where
  "Ordered H type = OrderedValues (Features H ! feature_no type)"

definition TypeOf :: "TFeatureHolder \<Rightarrow> TGrammar \<Rightarrow> FeatureType option" where
  "TypeOf H grammem = (if gram_IsValid grammem then Some (GrammemTypes H ! (grammem - gFirst)) else None)"

definition GetFeature :: "TFeatureHolder \<Rightarrow> grams \<Rightarrow> FeatureType \<Rightarrow> grams" where
  "GetFeature H g type = BitSet H type AND g"

definition HasFeature :: "TFeatureHolder \<Rightarrow> grams \<Rightarrow> FeatureType \<Rightarrow> bool" where
  "HasFeature H g type = HasAny (BitSet H type) g"

section \<open>The table\<close>

definition feature_table :: "(FeatureType \<times> bool \<times> TGrammar list) list" where
  "feature_table =
     [(PoS, False, [gSubstantive, gAdjective, gVerb, gParticiple, gAdverb, gNumeral, gAdjNumeral, gSubstPronoun, gAdjPronoun,
        gPraedic, gPreposition, gConjunction, gInterjunction, gParenth, gParticle]),
      (SubPoS, False, [gShort, gComparative, gSuperlative, gInfinitive, gImperative, gGerund, gDerivedAdjective]),
      (Gender, True, [gMasculine, gFeminine, gNeuter, gMasFem]),
      (Case, True, [gNominative, gGenitive, gDative, gAccusative, gInstrumental, gAblative, gPartitive, gLocative, gVocative,
        gElative]),
      (Number, True, [gSingular, gPlural]),
      (Anim, True, [gAnimated, gInanimated, gHuman]),
      (Tense, True, [gPresent, gNotpast, gPast, gFuture, gPast2]),
      (Person, True, [gPerson1, gPerson2, gPerson3]),
      (Perfect, True, [gImperfect, gPerfect]),
      (Transitive, True, [gTransitive, gIntransitive]),
      (Vox, True, [gActive, gPassive, gReflexive, gImpersonal, gMedial]),
      (Poss, True, [gPossessive, gPoss1pSg, gPoss1pPl, gPoss2pSg, gPoss2pPl, gPoss3p]),
      (Predic, True, [gPredic1pSg, gPredic1pPl, gPredic2pSg, gPredic2pPl, gPredic3pSg, gPredic3pPl]),
      (Det, True, [gDefinite, gIndefinite])]"

definition feature_holder_empty :: TFeatureHolder where
  "feature_holder_empty = \<lparr>Features = [], MutableFeatures = [], NormalMutableSet = 0, MutableSet = 0, FreeSet = 0,
     UnwantedSet = 0, RestrictedSet = 0, ClearedSet = 0, RequiredSet = 0,
     GrammemTypes = replicate (gMax - gFirst) FeatureMax\<rparr>"

fun add_features :: "(FeatureType \<times> bool \<times> TGrammar list) list \<Rightarrow> TFeatureHolder \<Rightarrow> (string + TFeatureHolder) option" where
  "add_features [] H = Some (Inr H)"
| "add_features ((type, homogeneous, values) # fs) H =
     (case feature_Add type homogeneous values H of
        None \<Rightarrow> None
      | Some (Inl e) \<Rightarrow> Some (Inl e)
      | Some (Inr H) \<Rightarrow> add_features fs H)"

text \<open>The constructor after the features were added.\<close>

definition fill_sets :: "TFeatureHolder \<Rightarrow> TFeatureHolder" where
  "fill_sets H =
     (let H = H\<lparr>MutableFeatures := [Case, Number, Gender, Person, Anim]\<rparr>;
          H = fold (\<lambda>type H. H\<lparr>MutableSet := MutableSet H OR BitSet H type,
                 NormalMutableSet := gram_Set (Ordered H type ! 0) (NormalMutableSet H)\<rparr>) (MutableFeatures H) H;
          H = H\<lparr>FreeSet := grammems [gFull, gIndicative, gAuxVerb] OR BitSet H Tense\<rparr>;
          H = H\<lparr>UnwantedSet := grammems [gInformal, gDistort, gContracted, gObscene, gRare] OR grammems [gAwkward, gObsolete]\<rparr>;
          H = H\<lparr>RestrictedSet := grammems [gGerund, gInfinitive] OR grammems [gImperative, gConditional, gSubjunctive]
                 OR grammems [gComparative, gSuperlative] OR grammems [gConverb]\<rparr>;
          H = H\<lparr>ClearedSet := BitSet H Poss OR BitSet H Predic OR grammems [gDerivedAdjective]\<rparr>
      in H\<lparr>RequiredSet := NOT (MutableSet H OR FreeSet H OR UnwantedSet H OR RestrictedSet H OR ClearedSet H)\<rparr>)"

definition TFeatureHolder_init :: "(string + TFeatureHolder) option" where
  "TFeatureHolder_init =
     (case add_features feature_table feature_holder_empty of
        None \<Rightarrow> None
      | Some (Inl e) \<Rightarrow> Some (Inl e)
      | Some (Inr H) \<Rightarrow> if length (Features H) \<noteq> feature_no FeatureMax then None else Some (Inr (fill_sets H)))"

definition DefaultFeatures :: TFeatureHolder where
  "DefaultFeatures = (case TFeatureHolder_init of Some (Inr H) \<Rightarrow> H | _ \<Rightarrow> feature_holder_empty)"

section \<open>Operations on features\<close>

definition ExtendAllFeatures :: "TFeatureHolder \<Rightarrow> grams \<Rightarrow> grams" where
  "ExtendAllFeatures H g =
     fold (\<lambda>f res. if HasFeature H g (feature_Type f) then res OR feature_Set f else res) (Features H) g"

definition ReplaceFeatures :: "TFeatureHolder \<Rightarrow> grams \<Rightarrow> grams \<Rightarrow> grams" where
  "ReplaceFeatures H g features = (g AND NOT (ExtendAllFeatures H features)) OR features"

text \<open>A mask of features is the set of its types.\<close>

definition SupportedFeatures :: "TFeatureHolder \<Rightarrow> grams \<Rightarrow> FeatureType set" where
  "SupportedFeatures H g = set (filter (HasFeature H g) (map feature_Type (Features H)))"

definition SupportedMutableFeatures :: "TFeatureHolder \<Rightarrow> grams \<Rightarrow> FeatureType set" where
  "SupportedMutableFeatures H g = set (filter (HasFeature H g) (MutableFeatures H))"

definition IsExplicitControversial :: "grams \<Rightarrow> grams \<Rightarrow> TFeature \<Rightarrow> bool" where
  "IsExplicitControversial f1 f2 feature \<longleftrightarrow>
     (if IsHomogeneous feature then \<not> HasAll f1 f2 \<and> \<not> HasAll f2 f1 else f1 \<noteq> f2)"

definition IsControversial :: "grams \<Rightarrow> grams \<Rightarrow> TFeature \<Rightarrow> bool" where
  "IsControversial g1 g2 feature \<longleftrightarrow>
     (if \<not> HasAny g1 (feature_Set feature) \<or> \<not> HasAny g2 (feature_Set feature) then False
      else IsExplicitControversial (g1 AND feature_Set feature) (g2 AND feature_Set feature) feature)"

definition ControversialFeatures :: "TFeatureHolder \<Rightarrow> grams \<Rightarrow> grams \<Rightarrow> FeatureType set" where
  "ControversialFeatures H g1 g2 = set (map feature_Type (filter (IsControversial g1 g2) (Features H)))"

definition ExtendControversial :: "TFeatureHolder \<Rightarrow> grams \<Rightarrow> grams \<Rightarrow> grams" where
  "ExtendControversial H g1 g2 =
     fold (\<lambda>f res. if IsControversial g1 g2 f then res OR feature_Set f else res) (Features H) 0"

definition NonControversial :: "TFeatureHolder \<Rightarrow> grams \<Rightarrow> grams \<Rightarrow> bool" where
  "NonControversial H g1 g2 \<longleftrightarrow> \<not> list_ex (IsControversial g1 g2) (Features H)"

definition NormalMutable :: "TFeatureHolder \<Rightarrow> grams \<Rightarrow> grams" where
  "NormalMutable H g =
     fold (\<lambda>type res. if HasFeature H g type then res OR BitSet H type else res) (MutableFeatures H) 0 AND NormalMutableSet H"

definition IsNormalOnly :: "TFeatureHolder \<Rightarrow> grams \<Rightarrow> bool" where
  "IsNormalOnly H g = HasAll (NormalMutableSet H) g"

definition HasNormal :: "TFeatureHolder \<Rightarrow> FeatureType \<Rightarrow> grams \<Rightarrow> bool" where
  "HasNormal H type g = Has g (Ordered H type ! 0)"

definition MutableOf :: "TFeatureHolder \<Rightarrow> grams \<Rightarrow> grams" where "MutableOf H g = g AND MutableSet H"
definition FreeOf :: "TFeatureHolder \<Rightarrow> grams \<Rightarrow> grams" where "FreeOf H g = g AND FreeSet H"
definition UnwantedOf :: "TFeatureHolder \<Rightarrow> grams \<Rightarrow> grams" where "UnwantedOf H g = g AND UnwantedSet H"
definition RestrictedOf :: "TFeatureHolder \<Rightarrow> grams \<Rightarrow> grams" where "RestrictedOf H g = g AND RestrictedSet H"
definition ClearedOf :: "TFeatureHolder \<Rightarrow> grams \<Rightarrow> grams" where "ClearedOf H g = g AND ClearedSet H"
definition RequiredOf :: "TFeatureHolder \<Rightarrow> grams \<Rightarrow> grams" where "RequiredOf H g = g AND RequiredSet H"

section \<open>The measure of agreement\<close>

record TAgreementMeasure =
  ArgeedExplicitly :: nat
  AgreedImplicitly :: nat
  Disagreed :: nat

definition IncAgreementStat :: "grams \<Rightarrow> grams \<Rightarrow> TFeature \<Rightarrow> TAgreementMeasure \<Rightarrow> TAgreementMeasure" where
  "IncAgreementStat g1 g2 feature m =
     (let f1 = g1 AND feature_Set feature; f2 = g2 AND feature_Set feature; has1 = f1 \<noteq> 0; has2 = f2 \<noteq> 0
      in if has1 \<noteq> has2 then m\<lparr>AgreedImplicitly := AgreedImplicitly m + 1\<rparr>
         else if has1 then
           (if IsExplicitControversial f1 f2 feature then m\<lparr>Disagreed := Disagreed m + 1\<rparr>
            else m\<lparr>ArgeedExplicitly := ArgeedExplicitly m + 1\<rparr>)
         else m)"

definition agreement_measure_default :: TAgreementMeasure where
  "agreement_measure_default = \<lparr>ArgeedExplicitly = 0, AgreedImplicitly = 0, Disagreed = 2 ^ 64 - 1\<rparr>"

definition agreement_measure :: "grams \<Rightarrow> grams \<Rightarrow> TAgreementMeasure" where
  "agreement_measure g1 g2 =
     (let m = fold (IncAgreementStat g1 g2) (Features DefaultFeatures)
            \<lparr>ArgeedExplicitly = 0, AgreedImplicitly = 0, Disagreed = 0\<rparr>
      in if ArgeedExplicitly m = 0 then m\<lparr>AgreedImplicitly := 0\<rparr> else m)"

datatype EResult = EQUAL | BETTER | WORSE

definition MoreIsWorse :: "nat \<Rightarrow> nat \<Rightarrow> EResult" where
  "MoreIsWorse a1 a2 = (if a1 > a2 then WORSE else if a1 = a2 then EQUAL else BETTER)"

definition MoreIsBetter :: "nat \<Rightarrow> nat \<Rightarrow> EResult" where
  "MoreIsBetter a1 a2 = MoreIsWorse a2 a1"

definition TrueIsBetter :: "bool \<Rightarrow> bool \<Rightarrow> EResult" where
  "TrueIsBetter a1 a2 = (if a1 then (if a2 then EQUAL else BETTER) else (if a2 then BETTER else EQUAL))"

definition measure_Compare :: "TAgreementMeasure \<Rightarrow> TAgreementMeasure \<Rightarrow> EResult" where
  "measure_Compare m a =
     (let res = MoreIsBetter (ArgeedExplicitly m) (ArgeedExplicitly a)
      in if res = EQUAL then
           (let res = MoreIsWorse (Disagreed m) (Disagreed a)
            in if res = EQUAL then MoreIsBetter (AgreedImplicitly m) (AgreedImplicitly a) else res)
         else res)"

definition ResetIfBetter :: "TAgreementMeasure \<Rightarrow> TAgreementMeasure \<Rightarrow> TAgreementMeasure \<times> bool" where
  "ResetIfBetter a m = (if measure_Compare a m \<noteq> BETTER then (m, False) else (a, True))"

section \<open>The table is consistent\<close>

lemma add_values_eq:
  assumes "distinct (bs @ cs)" "list_all gram_IsValid (bs @ cs)"
  shows "add_values cs (grammems bs) = Some (grammems (bs @ cs))"
  using assms
proof (induction cs arbitrary: bs)
  case (Cons c cs)
  have "\<not> Has (grammems bs) c"
  proof
    assume "Has (grammems bs) c"
    then obtain b where "b \<in> set bs" "Pos b = Pos c" by (auto simp: Has_def bit_grammems)
    then show False using Cons.prems Pos_inj by (auto simp: list_all_iff)
  qed
  then show ?case using Cons.IH [of "bs @ [c]"] Cons.prems by (simp add: gram_Set_grammems)
qed simp

definition feature_of :: "FeatureType \<times> bool \<times> TGrammar list \<Rightarrow> TFeature" where
  "feature_of e = (case e of (type, homogeneous, values) \<Rightarrow>
     \<lparr>feature_Type = type, OrderedValues = values, feature_Set = grammems values, IsHomogeneous = homogeneous\<rparr>)"

fun register_all :: "(FeatureType \<times> bool \<times> TGrammar list) list \<Rightarrow> FeatureType list \<Rightarrow> string + FeatureType list" where
  "register_all [] types = Inr types"
| "register_all ((type, homogeneous, values) # fs) types =
     (case register_values type values types of Inl e \<Rightarrow> Inl e | Inr types \<Rightarrow> register_all fs types)"

lemma add_features_eq:
  assumes "list_all (\<lambda>(type, homogeneous, values). distinct values \<and> list_all gram_IsValid values) fs"
    and "map (feature_no \<circ> fst) fs = [length (Features H)..<length (Features H) + length fs]"
    and "register_all fs (GrammemTypes H) = Inr types"
  shows "add_features fs H = Some (Inr (H\<lparr>Features := Features H @ map feature_of fs, GrammemTypes := types\<rparr>))"
  using assms
proof (induction fs arbitrary: H)
  case (Cons f fs)
  obtain type homogeneous vals where f: "f = (type, homogeneous, vals)" by (cases f)
  from Cons.prems(3) obtain ts where ts: "register_values type vals (GrammemTypes H) = Inr ts" "register_all fs ts = Inr types"
    by (auto simp: f split: sum.splits)
  have no: "feature_no type = length (Features H)" "map (feature_no \<circ> fst) fs = [Suc (length (Features H))..<Suc (length (Features H) + length fs)]"
    using Cons.prems(2) by (simp_all add: f upt_conv_Cons comp_def del: upt_Suc)
  have "add_values vals 0 = Some (grammems vals)"
    using add_values_eq [of "[]" vals] Cons.prems(1) by (simp add: f grammems_def)
  then have "feature_Add type homogeneous vals H =
      Some (Inr (H\<lparr>Features := Features H @ [feature_of f], GrammemTypes := ts\<rparr>))"
    using no(1) ts(1) by (simp add: feature_Add_def feature_init_def feature_of_def f)
  moreover have "add_features fs (H\<lparr>Features := Features H @ [feature_of f], GrammemTypes := ts\<rparr>) =
      Some (Inr (H\<lparr>Features := Features H @ map feature_of (f # fs), GrammemTypes := types\<rparr>))"
    using Cons.IH [of "H\<lparr>Features := Features H @ [feature_of f], GrammemTypes := ts\<rparr>"] Cons.prems(1) no(2) ts(2)
    by (simp add: f comp_def del: upt_Suc)
  ultimately show ?case by (simp add: f)
qed simp

definition table_types :: "FeatureType list" where
  "table_types = (case register_all feature_table (replicate 125 FeatureMax) of Inr types \<Rightarrow> types | Inl _ \<Rightarrow> [])"

lemma table_checks:
  "list_all (\<lambda>(type, homogeneous, values). distinct values \<and> list_all gram_IsValid values) feature_table"
  "map (feature_no \<circ> fst) feature_table = [0..<14]"
  "sorted_wrt (\<lambda>(_, _, vs) (_, _, ws). list_all (\<lambda>v. v \<notin> set ws) vs) feature_table"
  by code_simp+

lemma register_all_check:
  "(case register_all feature_table (replicate 125 FeatureMax) of
      Inr types \<Rightarrow> list_all (\<lambda>(type, _, values). list_all (\<lambda>v. types ! (v - 127) = type) values) feature_table
    | Inl _ \<Rightarrow> False)"
  by code_simp

lemma register_all_table:
  "register_all feature_table (replicate 125 FeatureMax) = Inr table_types"
  "list_all (\<lambda>(type, _, values). list_all (\<lambda>v. table_types ! (v - 127) = type) values) feature_table"
  using register_all_check by (auto simp: table_types_def split: sum.splits)

definition table_holder :: TFeatureHolder where
  "table_holder = feature_holder_empty\<lparr>Features := map feature_of feature_table, GrammemTypes := table_types\<rparr>"

lemma holder_init: "TFeatureHolder_init = Some (Inr (fill_sets table_holder))"
proof -
  have "add_features feature_table feature_holder_empty =
      Some (Inr (feature_holder_empty\<lparr>Features := Features feature_holder_empty @ map feature_of feature_table, GrammemTypes := table_types\<rparr>))"
  proof (rule add_features_eq [OF table_checks(1)])
    have "length feature_table = 14" by (simp add: feature_table_def)
    then show "map (feature_no \<circ> fst) feature_table =
        [length (Features feature_holder_empty)..<length (Features feature_holder_empty) + length feature_table]"
      using table_checks(2) by (simp add: feature_holder_empty_def)
    show "register_all feature_table (GrammemTypes feature_holder_empty) = Inr table_types"
      using register_all_table(1) by (simp add: feature_holder_empty_def)
  qed
  then have "add_features feature_table feature_holder_empty = Some (Inr table_holder)"
    by (simp add: table_holder_def) (simp add: feature_holder_empty_def)
  moreover have "length (Features table_holder) = feature_no FeatureMax"
    by (simp add: table_holder_def feature_table_def feature_no_def)
  ultimately show ?thesis by (simp add: TFeatureHolder_init_def)
qed

lemma DefaultFeatures_eq: "DefaultFeatures = fill_sets table_holder"
  by (simp add: DefaultFeatures_def holder_init)

lemma fill_sets_keeps: "Features (fill_sets H) = Features H" "GrammemTypes (fill_sets H) = GrammemTypes H"
  by (simp_all add: fill_sets_def Let_def)

lemma DefaultFeatures_fields:
  "Features DefaultFeatures = map feature_of feature_table" "GrammemTypes DefaultFeatures = table_types"
  by (simp_all add: DefaultFeatures_eq fill_sets_keeps table_holder_def)

definition values_of :: "FeatureType \<Rightarrow> TGrammar list" where
  "values_of type = snd (snd (feature_table ! feature_no type))"

lemma BitSet_table: "Features H = map feature_of feature_table \<Longrightarrow> type \<noteq> FeatureMax \<Longrightarrow> BitSet H type = grammems (values_of type)"
  by (cases type) (simp_all add: BitSet_def values_of_def feature_no_def feature_table_def feature_of_def)

lemma features_disjoint:
  "sorted_wrt (\<lambda>f f'. \<not> HasAny (feature_Set f) (feature_Set f')) (Features DefaultFeatures)"
proof -
  have "sorted_wrt (\<lambda>e e'. list_all (\<lambda>v. v \<notin> set (snd (snd e'))) (snd (snd e))) feature_table"
    using table_checks(3) by (simp add: case_prod_beta')
  moreover have "\<not> HasAny (feature_Set (feature_of e)) (feature_Set (feature_of e'))"
    if "e \<in> set feature_table" "e' \<in> set feature_table" "list_all (\<lambda>v. v \<notin> set (snd (snd e'))) (snd (snd e))" for e e'
  proof -
    have "list_all gram_IsValid (snd (snd e))" "list_all gram_IsValid (snd (snd e'))"
      using table_checks(1) that(1,2) by (auto simp: list_all_iff)
    moreover have "set (snd (snd e)) \<inter> set (snd (snd e')) = {}" using that(3) by (auto simp: list_all_iff)
    ultimately show ?thesis by (simp add: feature_of_def case_prod_beta grammems_disjoint)
  qed
  ultimately show ?thesis
    unfolding DefaultFeatures_fields sorted_wrt_map by (rule sorted_wrt_mono_rel [rotated]) auto
qed

section \<open>Properties\<close>

lemma fill_sets_eq:
  assumes "Features H = map feature_of feature_table" "MutableSet H = 0" "NormalMutableSet H = 0"
  shows "MutableSet (fill_sets H) = grammems (concat (map values_of [Case, Number, Gender, Person, Anim]))"
    and "FreeSet (fill_sets H) = grammems ([gFull, gIndicative, gAuxVerb] @ values_of Tense)"
    and "UnwantedSet (fill_sets H) = grammems [gInformal, gDistort, gContracted, gObscene, gRare, gAwkward, gObsolete]"
    and "RestrictedSet (fill_sets H) =
      grammems [gGerund, gInfinitive, gImperative, gConditional, gSubjunctive, gComparative, gSuperlative, gConverb]"
    and "ClearedSet (fill_sets H) = grammems (values_of Poss @ values_of Predic @ [gDerivedAdjective])"
    and "RequiredSet (fill_sets H) = NOT (MutableSet (fill_sets H) OR FreeSet (fill_sets H) OR UnwantedSet (fill_sets H)
      OR RestrictedSet (fill_sets H) OR ClearedSet (fill_sets H))"
proof -
  have b: "BitSet (H\<lparr>MutableFeatures := a, MutableSet := b, NormalMutableSet := c\<rparr>) t = BitSet H t"
    "BitSet (H\<lparr>MutableFeatures := a\<rparr>) t = BitSet H t" for a b c t
    by (simp_all add: BitSet_def)
  have z: "grammems [] = 0" by (simp add: grammems_def)
  have bs: "BitSet H' t = grammems (values_of t)" if "Features H' = Features H" "t \<noteq> FeatureMax" for H' t
    using BitSet_table assms(1) that by simp
  show "MutableSet (fill_sets H) = grammems (concat (map values_of [Case, Number, Gender, Person, Anim]))"
    by (simp add: fill_sets_def Let_def bs assms(2,3) grammems_append or.assoc)
  show "FreeSet (fill_sets H) = grammems ([gFull, gIndicative, gAuxVerb] @ values_of Tense)"
    by (simp add: fill_sets_def Let_def bs grammems_append)
  show "UnwantedSet (fill_sets H) = grammems [gInformal, gDistort, gContracted, gObscene, gRare, gAwkward, gObsolete]"
    "RestrictedSet (fill_sets H) =
      grammems [gGerund, gInfinitive, gImperative, gConditional, gSubjunctive, gComparative, gSuperlative, gConverb]"
    by (simp_all add: fill_sets_def Let_def grammems_append)
  show "ClearedSet (fill_sets H) = grammems (values_of Poss @ values_of Predic @ [gDerivedAdjective])"
    by (simp add: fill_sets_def Let_def bs grammems_append)
  show "RequiredSet (fill_sets H) = NOT (MutableSet (fill_sets H) OR FreeSet (fill_sets H) OR UnwantedSet (fill_sets H)
      OR RestrictedSet (fill_sets H) OR ClearedSet (fill_sets H))"
    by (simp add: fill_sets_def Let_def)
qed

lemma sets_disjoint:
  "list_all gram_IsValid (concat (map values_of [Case, Number, Gender, Person, Anim]) @ ([gFull, gIndicative, gAuxVerb] @ values_of Tense) @
     [gInformal, gDistort, gContracted, gObscene, gRare, gAwkward, gObsolete] @
     [gGerund, gInfinitive, gImperative, gConditional, gSubjunctive, gComparative, gSuperlative, gConverb] @
     (values_of Poss @ values_of Predic @ [gDerivedAdjective]))"
  "distinct (concat (map values_of [Case, Number, Gender, Person, Anim]) @ ([gFull, gIndicative, gAuxVerb] @ values_of Tense) @
     [gInformal, gDistort, gContracted, gObscene, gRare, gAwkward, gObsolete] @
     [gGerund, gInfinitive, gImperative, gConditional, gSubjunctive, gComparative, gSuperlative, gConverb] @
     (values_of Poss @ values_of Predic @ [gDerivedAdjective]))"
  by code_simp+

definition treatment_sets :: "TFeatureHolder \<Rightarrow> grams list" where
  "treatment_sets H = [MutableSet H, FreeSet H, UnwantedSet H, RestrictedSet H, ClearedSet H, RequiredSet H]"

lemma five_sets_partition:
  assumes "list_all gram_IsValid (a @ b @ c @ d @ e)" "distinct (a @ b @ c @ d @ e)"
  shows "sorted_wrt (\<lambda>s t. \<not> HasAny s t) [grammems a, grammems b, grammems c, grammems d, grammems e,
      NOT (grammems a OR grammems b OR grammems c OR grammems d OR grammems e)]"
proof -
  have d: "\<not> HasAny (grammems x) (grammems y)" if "list_all gram_IsValid (x @ y)" "set x \<inter> set y = {}" for x y
    using that by (rule grammems_disjoint)
  have pairs: "\<not> HasAny (grammems a) (grammems b)" "\<not> HasAny (grammems a) (grammems c)" "\<not> HasAny (grammems a) (grammems d)"
    "\<not> HasAny (grammems a) (grammems e)" "\<not> HasAny (grammems b) (grammems c)" "\<not> HasAny (grammems b) (grammems d)"
    "\<not> HasAny (grammems b) (grammems e)" "\<not> HasAny (grammems c) (grammems d)" "\<not> HasAny (grammems c) (grammems e)"
    "\<not> HasAny (grammems d) (grammems e)"
    using assms by (intro d; simp add: Int_Un_distrib)+
  have comp: "\<not> HasAny x (NOT y)" if "HasAll y x" for x y :: grams
    using that by (auto simp: HasAny_iff HasAll_iff bit_not_iff)
  let ?u = "grammems a OR grammems b OR grammems c OR grammems d OR grammems e"
  have "HasAll ?u (grammems a)" "HasAll ?u (grammems b)" "HasAll ?u (grammems c)" "HasAll ?u (grammems d)" "HasAll ?u (grammems e)"
    by (simp_all add: HasAll_iff bit_or_iff)
  note all = this [THEN comp]
  show ?thesis
    unfolding sorted_wrt.simps list.set ball_simps ball_empty simp_thms by (intro conjI pairs all)
qed

lemma treatment_sets_partition:
  "sorted_wrt (\<lambda>s t. \<not> HasAny s t) (treatment_sets DefaultFeatures)"
  "UniteGrammems (treatment_sets DefaultFeatures) = AllGrammems"
proof -
  have t: "Features table_holder = map feature_of feature_table" "MutableSet table_holder = 0" "NormalMutableSet table_holder = 0"
    by (simp_all add: table_holder_def feature_holder_empty_def)
  note eq = fill_sets_eq [OF t, folded DefaultFeatures_eq]
  show "sorted_wrt (\<lambda>s t. \<not> HasAny s t) (treatment_sets DefaultFeatures)"
    unfolding treatment_sets_def eq(6) unfolding eq(1-5) by (rule five_sets_partition [OF sets_disjoint])
  have all: "UniteGrammems [m, f, u, r, c, NOT (m OR f OR u OR r OR c)] = AllGrammems" for m f u r c :: grams
    by (rule bit_word_eqI) (simp only: bit_UniteGrammems AllGrammems_def bit_or_iff bit_not_iff list.set bex_simps bit_simps, auto)
  show "UniteGrammems (treatment_sets DefaultFeatures) = AllGrammems"
    unfolding treatment_sets_def eq(6) by (rule all)
qed

text \<open>
  The constructor of the table of features raises no exception and fails no assertion. In its result the features
  are pairwise disjoint and of the types of the enumeration in order, every grammeme of a feature is registered with
  that type, and the six sets that say how a grammeme is treated in inflection divide all grammemes among them.
\<close>

lemma TFeatureHolder_init_correct:
  "TFeatureHolder_init = Some (Inr DefaultFeatures) \<and>
   map (\<lambda>f. feature_no (feature_Type f)) (Features DefaultFeatures) = [0..<feature_no FeatureMax] \<and>
   sorted_wrt (\<lambda>f f'. \<not> HasAny (feature_Set f) (feature_Set f')) (Features DefaultFeatures) \<and>
   list_all (\<lambda>f. feature_Set f = grammems (OrderedValues f) \<and>
       list_all (\<lambda>c. TypeOf DefaultFeatures c = Some (feature_Type f)) (OrderedValues f)) (Features DefaultFeatures) \<and>
   sorted_wrt (\<lambda>s t. \<not> HasAny s t) (treatment_sets DefaultFeatures) \<and>
   UniteGrammems (treatment_sets DefaultFeatures) = AllGrammems"
proof -
  have "feature_Set (feature_of e) = grammems (OrderedValues (feature_of e)) \<and>
      list_all (\<lambda>c. TypeOf DefaultFeatures c = Some (feature_Type (feature_of e))) (OrderedValues (feature_of e))"
    if "e \<in> set feature_table" for e
  proof -
    obtain type homogeneous vs where e: "e = (type, homogeneous, vs)" by (cases e)
    have "list_all gram_IsValid vs" "list_all (\<lambda>v. table_types ! (v - 127) = type) vs"
      using table_checks(1) register_all_table(2) that by (auto simp: e list_all_iff)
    then show ?thesis by (simp add: e feature_of_def TypeOf_def DefaultFeatures_fields list_all_iff)
  qed
  then have "list_all (\<lambda>f. feature_Set f = grammems (OrderedValues f) \<and>
       list_all (\<lambda>c. TypeOf DefaultFeatures c = Some (feature_Type f)) (OrderedValues f)) (Features DefaultFeatures)"
    by (simp add: DefaultFeatures_fields(1) list_all_iff)
  moreover have "map (\<lambda>f. feature_no (feature_Type f)) (Features DefaultFeatures) = [0..<feature_no FeatureMax]"
    using table_checks(2) by (simp add: DefaultFeatures_fields(1) feature_of_def case_prod_beta' comp_def feature_no_def del: upt_conv_Cons)
  ultimately show ?thesis
    using holder_init features_disjoint treatment_sets_partition by (simp add: DefaultFeatures_eq)
qed

lemma bit_ExtendAllFeatures:
  "bit (ExtendAllFeatures H g) n \<longleftrightarrow>
     bit g n \<or> (\<exists>f \<in> set (Features H). HasFeature H g (feature_Type f) \<and> bit (feature_Set f) n)"
proof -
  have "bit (fold (\<lambda>f res. if P f then res OR feature_Set f else res) fs r) n \<longleftrightarrow>
      bit r n \<or> (\<exists>f \<in> set fs. P f \<and> bit (feature_Set f) n)" for P :: "TFeature \<Rightarrow> bool" and fs r
    by (induction fs arbitrary: r) (auto simp: bit_or_iff)
  then show ?thesis by (simp add: ExtendAllFeatures_def)
qed

lemma BitSet_feature: "f \<in> set (Features DefaultFeatures) \<Longrightarrow> BitSet DefaultFeatures (feature_Type f) = feature_Set f"
  by (auto simp: DefaultFeatures_fields(1) feature_table_def BitSet_def feature_no_def feature_of_def)

lemma features_apart:
  assumes "f \<in> set (Features DefaultFeatures)" "f' \<in> set (Features DefaultFeatures)" "bit (feature_Set f) n" "bit (feature_Set f') n"
  shows "f = f'"
proof -
  obtain i j where ij: "f = Features DefaultFeatures ! i" "f' = Features DefaultFeatures ! j"
    "i < length (Features DefaultFeatures)" "j < length (Features DefaultFeatures)"
    using assms(1,2) by (auto simp: in_set_conv_nth)
  have "\<not> (i < j)" "\<not> (j < i)"
    using features_disjoint ij assms(3,4) by (auto simp: sorted_wrt_iff_nth_less HasAny_iff)
  then show ?thesis using ij by (simp add: nat_neq_iff)
qed

text \<open>
  \<^verbatim>\<open>ReplaceFeatures\<close> puts the given grammemes in place of those of the same features: every feature that they have is
  theirs in the result, every other feature is as it was, and grammemes of no feature are only added.
\<close>

lemma ReplaceFeatures_correct:
  "HasAll (ReplaceFeatures DefaultFeatures g new) new \<and>
   list_all (\<lambda>f. ReplaceFeatures DefaultFeatures g new AND feature_Set f =
       (if HasAny new (feature_Set f) then new AND feature_Set f else g AND feature_Set f)) (Features DefaultFeatures) \<and>
   ReplaceFeatures DefaultFeatures g new AND NOT (UniteGrammems (map feature_Set (Features DefaultFeatures))) =
     (g OR new) AND NOT (UniteGrammems (map feature_Set (Features DefaultFeatures))) \<and>
   ReplaceFeatures DefaultFeatures (ReplaceFeatures DefaultFeatures g new) new = ReplaceFeatures DefaultFeatures g new"
proof -
  let ?F = "Features DefaultFeatures" and ?r = "ReplaceFeatures DefaultFeatures g new"
  have has: "HasFeature DefaultFeatures new (feature_Type f) \<longleftrightarrow> HasAny new (feature_Set f)" if "f \<in> set ?F" for f
    using BitSet_feature [OF that] HasAny_commute by (simp add: HasFeature_def)
  have r: "bit ?r n \<longleftrightarrow> bit new n \<or> bit g n \<and> \<not> (\<exists>f \<in> set ?F. HasAny new (feature_Set f) \<and> bit (feature_Set f) n)" for n
    using has by (auto simp: ReplaceFeatures_def bit_or_iff bit_and_iff bit_not_iff bit_ExtendAllFeatures dest: bit_imp_le_length)
  have "?r AND feature_Set f = (if HasAny new (feature_Set f) then new AND feature_Set f else g AND feature_Set f)"
    if f: "f \<in> set ?F" for f
  proof (rule bit_word_eqI)
    fix n
    show "bit (?r AND feature_Set f) n = bit (if HasAny new (feature_Set f) then new AND feature_Set f else g AND feature_Set f) n"
    proof (cases "bit (feature_Set f) n")
      case True
      then have "(\<exists>f' \<in> set ?F. HasAny new (feature_Set f') \<and> bit (feature_Set f') n) \<longleftrightarrow> HasAny new (feature_Set f)"
        using f features_apart by blast
      moreover have "bit new n \<Longrightarrow> HasAny new (feature_Set f)" using True by (auto simp: HasAny_iff)
      ultimately show ?thesis using True by (auto simp: bit_and_iff r)
    qed (simp add: bit_and_iff)
  qed
  moreover have "?r AND NOT (UniteGrammems (map feature_Set ?F)) = (g OR new) AND NOT (UniteGrammems (map feature_Set ?F))"
    by (rule bit_word_eqI) (auto simp: bit_and_iff bit_or_iff bit_not_iff r bit_UniteGrammems)
  moreover have "ReplaceFeatures DefaultFeatures ?r new = ?r"
  proof (rule bit_word_eqI)
    fix n
    have "bit (ReplaceFeatures DefaultFeatures ?r new) n \<longleftrightarrow>
        bit new n \<or> bit ?r n \<and> \<not> (\<exists>f \<in> set ?F. HasAny new (feature_Set f) \<and> bit (feature_Set f) n)"
      using has by (auto simp: ReplaceFeatures_def [of DefaultFeatures ?r] bit_or_iff bit_and_iff bit_not_iff bit_ExtendAllFeatures dest: bit_imp_le_length)
    then show "bit (ReplaceFeatures DefaultFeatures ?r new) n = bit ?r n" by (auto simp: r)
  qed
  moreover have "HasAll ?r new" by (simp add: HasAll_iff r)
  ultimately show ?thesis by (simp add: list_all_iff)
qed

lemma IsExplicitControversial_commute: "IsExplicitControversial f1 f2 f \<longleftrightarrow> IsExplicitControversial f2 f1 f"
  by (auto simp: IsExplicitControversial_def)

lemma agreement_measure_commute: "agreement_measure g1 g2 = agreement_measure g2 g1"
proof -
  have "IncAgreementStat g1 g2 = IncAgreementStat g2 g1"
    by (intro ext) (simp add: IncAgreementStat_def Let_def IsExplicitControversial_commute)
  then show ?thesis by (simp add: agreement_measure_def)
qed

text \<open>Each of two different flags is better than the other one.\<close>

lemma TrueIsBetter_both: "TrueIsBetter True False = BETTER" "TrueIsBetter False True = BETTER"
  by (simp_all add: TrueIsBetter_def)

end
