(* ===== verification/Agreement.thy ===== *)
theory Agreement
  imports GramBits WeightGroup
begin

text \<open>
  Agreement of sets of grammemes (\<^verbatim>\<open>library/lemmer/dictlib/gleiche.h\<close>, \<^verbatim>\<open>gleiche.cpp\<close>, and
  \<^verbatim>\<open>FactExtract/Parser/afdocparser/rus/gleiche.h\<close>, \<^verbatim>\<open>gleiche.cpp\<close>): the checks of case, number, gender, tense and person,
  agreement of collections of forms, and the selection of the forms that agree.
\<close>

section \<open>Tests of \<^verbatim>\<open>TMorph\<close>\<close>

definition IsPersonalVerb :: "grams \<Rightarrow> bool" where
  "IsPersonalVerb g \<longleftrightarrow> Has g gVerb \<and> \<not> HasAny g (grammems [gParticiple, gGerund, gInfinitive, gImperative, gAuxVerb])"

definition IsPresentTense :: "grams \<Rightarrow> bool" where
  "IsPresentTense g \<longleftrightarrow> Has g gPresent \<or> HasAll g (grammems [gNotpast, gImperfect])"

definition IsFutureTense :: "grams \<Rightarrow> bool" where
  "IsFutureTense g \<longleftrightarrow>
     Has g gFuture \<or> HasAll g (grammems [gNotpast, gPerfect]) \<or> Has g gNotpast \<and> \<not> HasAny g (grammems [gPerfect, gImperfect])"

definition IsPastTense :: "grams \<Rightarrow> bool" where
  "IsPastTense g \<longleftrightarrow> HasAny g (grammems [gPast, gPast2])"

definition IsPresentOrFutureTense :: "grams \<Rightarrow> bool" where
  "IsPresentOrFutureTense g \<longleftrightarrow> HasAny g (grammems [gFuture, gPresent, gNotpast])"

definition IsFullAdjective :: "grams \<Rightarrow> bool" where
  "IsFullAdjective g \<longleftrightarrow> Has g gAdjective \<and> \<not> Has g gShort"

definition IsFullParticiple :: "grams \<Rightarrow> bool" where
  "IsFullParticiple g \<longleftrightarrow> Has g gParticiple \<and> \<not> Has g gShort"

definition IsShortAdjective :: "grams \<Rightarrow> bool" where
  "IsShortAdjective g \<longleftrightarrow> HasAll g (grammems [gAdjective, gShort])"

definition IsShortParticiple :: "grams \<Rightarrow> bool" where
  "IsShortParticiple g \<longleftrightarrow> HasAll g (grammems [gParticiple, gShort])"

definition IsMorphNoun :: "grams \<Rightarrow> bool" where
  "IsMorphNoun g \<longleftrightarrow> HasAny g (grammems [gSubstantive, gSubstPronoun, gPronounConj])"

definition IsMorphAdjective :: "grams \<Rightarrow> bool" where
  "IsMorphAdjective g \<longleftrightarrow> HasAny g (grammems [gAdjPronoun, gAdjective, gParticiple, gAdjNumeral]) \<and> \<not> Has g gShort"

section \<open>Normalization\<close>

definition NormalizeCases :: "grams \<Rightarrow> grams" where
  "NormalizeCases g =
     (let res = g;
          res = (if Has g gPartitive then gram_Set gGenitive res else res);
          res = (if Has g gLocative then gram_Set gAblative res else res)
      in if Has g gVocative then gram_Set gNominative res else res)"

definition NormalizeGenders :: "grams \<Rightarrow> grams" where
  "NormalizeGenders g = (if Has g gMasFem then gram_Set gFeminine (gram_Set gMasculine g) else g)"

definition NormalizeTenses :: "grams \<Rightarrow> grams" where
  "NormalizeTenses g =
     (let res = g
      in if Has res gNotpast then
           (let res = gram_Reset gNotpast res;
                res = (if Has res gImperfect then gram_Set gPresent res else res)
            in if Has res gPerfect then gram_Set gFuture res else res)
         else res)"

definition NormalizeAll :: "grams \<Rightarrow> grams" where
  "NormalizeAll g =
     (if HasAny g (grammems [gMasFem, gPartitive, gLocative, gVocative] OR grammems [gNotpast])
      then NormalizeTenses (NormalizeCases (NormalizeGenders g)) else g)"

text \<open>A null \<^verbatim>\<open>normfunc\<close> is \<open>None\<close>.\<close>

definition GetCommonGrammems :: "grams \<Rightarrow> grams \<Rightarrow> (grams \<Rightarrow> grams) option \<Rightarrow> grams" where
  "GetCommonGrammems g1 g2 normfunc = (case normfunc of Some f \<Rightarrow> f g1 AND f g2 | None \<Rightarrow> g1 AND g2)"

definition GeneralCheck :: "grams \<Rightarrow> grams \<Rightarrow> grams \<Rightarrow> (grams \<Rightarrow> grams) option \<Rightarrow> grams" where
  "GeneralCheck g1 g2 grp normfunc = GetCommonGrammems g1 g2 normfunc AND grp"

definition GeneralCheck2 :: "grams \<Rightarrow> grams \<Rightarrow> grams \<Rightarrow> grams \<Rightarrow> (grams \<Rightarrow> grams) option \<Rightarrow> grams" where
  "GeneralCheck2 g1 g2 group1 group2 normfunc =
     (let res = GetCommonGrammems g1 g2 normfunc
      in if HasAny res group1 \<and> HasAny res group2 then res AND (group1 OR group2) else 0)"

section \<open>The checks\<close>

definition NoCheck :: "grams \<Rightarrow> grams \<Rightarrow> grams" where "NoCheck g1 g2 = AllGrammems"

definition CaseCheck :: "grams \<Rightarrow> grams \<Rightarrow> grams" where
  "CaseCheck g1 g2 = GeneralCheck g1 g2 AllCases (Some NormalizeCases)"

definition NumberCheck :: "grams \<Rightarrow> grams \<Rightarrow> grams" where
  "NumberCheck g1 g2 = GeneralCheck g1 g2 AllNumbers None"

definition TenseCheck :: "grams \<Rightarrow> grams \<Rightarrow> grams" where
  "TenseCheck g1 g2 = GeneralCheck g1 g2 AllTimes (Some NormalizeTenses)"

definition CaseNumberCheck :: "grams \<Rightarrow> grams \<Rightarrow> grams" where
  "CaseNumberCheck g1 g2 = GeneralCheck2 g1 g2 AllCases AllNumbers (Some NormalizeCases)"

definition CaseFirstPluralCheck :: "grams \<Rightarrow> grams \<Rightarrow> grams" where
  "CaseFirstPluralCheck g1 g2 = (if Has g1 gPlural then CaseCheck g1 g2 else 0)"

definition GenderNumberCheck :: "grams \<Rightarrow> grams \<Rightarrow> grams" where
  "GenderNumberCheck g1 g2 =
     (let res = GetCommonGrammems g1 g2 (Some NormalizeGenders)
      in if Has res gPlural \<or> Has res gSingular \<and> HasAny res AllGenders then res AND (AllNumbers OR AllGenders) else 0)"

definition GenderCaseCheck :: "grams \<Rightarrow> grams \<Rightarrow> grams" where
  "GenderCaseCheck g1 g2 = GeneralCheck2 g1 g2 AllGenders AllCases (Some NormalizeAll)"

definition PersonNumberCheck :: "grams \<Rightarrow> grams \<Rightarrow> grams" where
  "PersonNumberCheck g1 g2 = GeneralCheck2 g1 g2 AllPersons AllNumbers None"

definition GenderNumberCaseCheck :: "grams \<Rightarrow> grams \<Rightarrow> grams" where
  "GenderNumberCaseCheck g1 g2 =
     (let res = GetCommonGrammems g1 g2 (Some NormalizeAll)
      in if HasAny res AllCases \<and> HasAny res AllNumbers \<and>
            (HasAny res AllGenders \<or> \<not> HasAny g1 AllGenders \<or> \<not> HasAny g2 AllGenders) then
           (let res = res AND (AllNumbers OR AllCases OR AllGenders)
            in if HasAll res (grammems [gSingular, gMasculine, gAccusative]) then
                 (let a1 = Has g1 gAnimated; a2 = Has g2 gAnimated
                  in if a1 \<noteq> Has g1 gInanimated \<and> a2 \<noteq> Has g2 gInanimated \<and> a1 \<noteq> a2 then 0 else res)
               else res)
         else 0)"

definition SubjectPredicateCheck :: "grams \<Rightarrow> grams \<Rightarrow> grams" where
  "SubjectPredicateCheck gsubj gpredic =
     (if \<not> Has gsubj gNominative then 0
      else let both = GetCommonGrammems gsubj gpredic (Some NormalizeTenses)
        in if IsPastTense gpredic \<or> Has gpredic gShort then
             (if Has gsubj gPerson1 \<or> Has gsubj gPerson2 then
                (let both = both OR (gsubj AND AllPersons)
                 in if Has both gPlural then both
                    else if Has both gSingular \<and> (Has gpredic gMasculine \<or> Has gpredic gFeminine) then
                      both OR (gpredic AND grammems [gMasculine, gFeminine])
                    else 0)
              else GenderNumberCheck gsubj gpredic)
           else if IsPresentOrFutureTense gpredic then
             (if Has both gPerson1 \<or> Has both gPerson2 then PersonNumberCheck gsubj gpredic
              else NumberCheck gsubj gpredic)
           else if Has gpredic gImperative then
             (let res = NumberCheck gsubj gpredic
              in if res = 0 \<or> \<not> Has gsubj gPerson2 then 0 else gram_Set gPerson2 res)
           else 0)"

definition FeminCaseCheck :: "grams \<Rightarrow> grams \<Rightarrow> grams" where
  "FeminCaseCheck g1 g2 =
     (let (name, status) = (if HasAny g1 (grammems [gSurname, gFirstName]) then (g1, g2) else (g2, g1));
          res = GetCommonGrammems name status (Some NormalizeAll)
      in if HasAny res AllCases \<and> HasAny res AllNumbers then
           (let res = res AND (AllCases OR AllNumbers OR AllGenders)
            in if HasAny res AllGenders then res
               else if Has name gFeminine then res OR grammems [gFeminine]
               else if Has name gMasculine \<and> \<not> Has status gFeminine then res OR grammems [gMasculine]
               else 0)
         else 0)"

definition IzafetCheck :: "grams \<Rightarrow> grams \<Rightarrow> grams" where
  "IzafetCheck g1 g2 =
     (if Has g1 gSubstantive \<and> HasAny g1 (grammems [gNominative, gGenitive]) \<and> Has g2 gSubstantive \<and>
         HasAny g2 (grammems [gPoss1pSg, gPoss1pPl, gPoss2pSg, gPoss2pPl] OR grammems [gPoss3p, gPoss3pSg, gPoss3pPl])
      then g2 else 0)"

definition AfterNumber :: "grams \<Rightarrow> bool" where
  "AfterNumber g =
     (if \<not> Has g gGenitive then False else if IsMorphAdjective g then Has g gPlural else IsMorphNoun g)"

definition AfterNumberCheck :: "grams \<Rightarrow> grams \<Rightarrow> grams" where
  "AfterNumberCheck g1 g2 =
     (if AfterNumber g1 \<and> AfterNumber g2 then grammems [gPlural] else GenderNumberCaseCheck g1 g2)"

text \<open>\<^verbatim>\<open>GetGleicheFunc\<close>, the null pointer as \<open>None\<close>.\<close>

type_synonym TGleicheFunc = "(grams \<Rightarrow> grams \<Rightarrow> grams) option"

definition GetGleicheFunc :: "ECoordFunc \<Rightarrow> TGleicheFunc" where
  "GetGleicheFunc func =
     (case func of
        SubjVerb \<Rightarrow> Some SubjectPredicateCheck | SubjAdjShort \<Rightarrow> Some SubjectPredicateCheck
      | GendreNumberCase \<Rightarrow> Some GenderNumberCaseCheck | GendreNumber \<Rightarrow> Some GenderNumberCheck
      | GendreCase \<Rightarrow> Some GenderCaseCheck | NumberCaseAgr \<Rightarrow> Some CaseNumberCheck | CaseAgr \<Rightarrow> Some CaseCheck
      | FeminCaseAgr \<Rightarrow> Some FeminCaseCheck | NumberAgr \<Rightarrow> Some NumberCheck | IzafetAgr \<Rightarrow> Some IzafetCheck
      | AfterNumAgr \<Rightarrow> Some AfterNumberCheck | AnyFunc \<Rightarrow> Some NoCheck | _ \<Rightarrow> None)"

section \<open>Agreement of collections\<close>

definition GleicheGrammems :: "grams list \<Rightarrow> grams list \<Rightarrow> TGleicheFunc \<Rightarrow> grams" where
  "GleicheGrammems gs1 gs2 func =
     (case func of None \<Rightarrow> 0 | Some f \<Rightarrow> fold (\<lambda>g1. fold (\<lambda>g2 res. res OR f g1 g2) gs2) gs1 0)"

definition Gleiche :: "grams list \<Rightarrow> grams list \<Rightarrow> TGleicheFunc \<Rightarrow> bool" where
  "Gleiche gs1 gs2 func =
     (case func of None \<Rightarrow> False | Some f \<Rightarrow> list_ex (\<lambda>g1. list_ex (\<lambda>g2. f g1 g2 \<noteq> 0) gs2) gs1)"

definition GleicheGrammems_single :: "grams \<Rightarrow> grams \<Rightarrow> TGleicheFunc \<Rightarrow> grams" where
  "GleicheGrammems_single g1 g2 func = (case func of None \<Rightarrow> 0 | Some f \<Rightarrow> f g1 g2)"

definition Gleiche_single :: "grams \<Rightarrow> grams \<Rightarrow> TGleicheFunc \<Rightarrow> bool" where
  "Gleiche_single g1 g2 func \<longleftrightarrow> GleicheGrammems_single g1 g2 func \<noteq> 0"

text \<open>With the grammemes of the stems.\<close>

definition GleicheGrammems_stem :: "grams \<Rightarrow> grams \<Rightarrow> grams list \<Rightarrow> grams list \<Rightarrow> TGleicheFunc \<Rightarrow> grams" where
  "GleicheGrammems_stem stem1 stem2 flexes1 flexes2 func =
     (case func of None \<Rightarrow> 0
      | Some f \<Rightarrow> fold (\<lambda>g1. fold (\<lambda>g2 res. res OR f (g1 OR stem1) (g2 OR stem2)) flexes2) flexes1 0)"

definition Gleiche_stem :: "grams \<Rightarrow> grams \<Rightarrow> grams list \<Rightarrow> grams list \<Rightarrow> TGleicheFunc \<Rightarrow> bool" where
  "Gleiche_stem stem1 stem2 flexes1 flexes2 func =
     (case func of None \<Rightarrow> False
      | Some f \<Rightarrow> list_ex (\<lambda>g1. list_ex (\<lambda>g2. f (g1 OR stem1) (g2 OR stem2) \<noteq> 0) flexes2) flexes1)"

text \<open>\<^verbatim>\<open>GleicheForms\<close> adds the forms that agree to the two bunches it is given.\<close>

definition GleicheForms ::
  "TGrammarBunch \<Rightarrow> TGrammarBunch \<Rightarrow> TGrammarBunch \<Rightarrow> TGrammarBunch \<Rightarrow> ECoordFunc \<Rightarrow> grams \<times> TGrammarBunch \<times> TGrammarBunch" where
  "GleicheForms grams1 grams2 res_grams1 res_grams2 func =
     (case GetGleicheFunc func of
        None \<Rightarrow> (0, res_grams1, res_grams2)
      | Some gfunc \<Rightarrow>
          fold (\<lambda>g1. fold (\<lambda>g2 (res, res_grams1, res_grams2).
              (let tmp = gfunc g1 g2
               in if tmp \<noteq> 0 then (res OR tmp, bunch_insert g1 res_grams1, bunch_insert g2 res_grams2)
                  else (res, res_grams1, res_grams2))) grams2) grams1
            (0, res_grams1, res_grams2))"

definition GleicheForms_single :: "grams \<Rightarrow> TGrammarBunch \<Rightarrow> TGrammarBunch \<Rightarrow> ECoordFunc \<Rightarrow> grams \<times> TGrammarBunch" where
  "GleicheForms_single grams1 grams2 res_grams2 func =
     (case GleicheForms (bunch_insert grams1 []) grams2 [] res_grams2 func of (res, _, res_grams2) \<Rightarrow> (res, res_grams2))"

definition restore_form :: "grams \<Rightarrow> grams \<Rightarrow> grams" where
  "restore_form tmp g2 =
     ReplaceByMaskIfAny tmp (grammems [gAnimated, gInanimated])
       (ReplaceByMaskIfAny tmp AllPersons (ReplaceByMaskIfAny tmp AllTimes (ReplaceByMaskIfAny tmp AllNumbers
         (ReplaceByMaskIfAny tmp AllGenders (ReplaceByMaskIfAny tmp AllCases g2)))))"

definition GleicheAndRestoreForms ::
  "TGrammarBunch \<Rightarrow> grams \<Rightarrow> TGrammarBunch \<Rightarrow> TGrammarBunch \<Rightarrow> ECoordFunc \<Rightarrow> grams \<times> TGrammarBunch \<times> TGrammarBunch" where
  "GleicheAndRestoreForms grams1 g2 res_grams1 res_grams2 func =
     (case GetGleicheFunc func of
        None \<Rightarrow> (0, res_grams1, res_grams2)
      | Some gfunc \<Rightarrow>
          fold (\<lambda>g1 (res, res_grams1, res_grams2).
              (let tmp = gfunc g1 g2
               in if tmp \<noteq> 0 then
                    (res OR tmp, bunch_insert g1 res_grams1, bunch_insert (restore_form tmp g2) res_grams2)
                  else (res, res_grams1, res_grams2))) grams1
            (0, res_grams1, res_grams2))"

section \<open>Bits of the normalized sets\<close>

lemma bit_NormalizeCases:
  "bit (NormalizeCases g) n \<longleftrightarrow>
     bit g n \<or> n = Pos gGenitive \<and> Has g gPartitive \<or> n = Pos gAblative \<and> Has g gLocative \<or> n = Pos gNominative \<and> Has g gVocative"
  by (auto simp: NormalizeCases_def Let_def gram_Set_def bit_set_bit_iff Pos_def)

lemma bit_NormalizeGenders:
  "bit (NormalizeGenders g) n \<longleftrightarrow> bit g n \<or> (n = Pos gMasculine \<or> n = Pos gFeminine) \<and> Has g gMasFem"
  by (auto simp: NormalizeGenders_def gram_Set_def bit_set_bit_iff Pos_def)

lemma bit_NormalizeTenses:
  "bit (NormalizeTenses g) n \<longleftrightarrow>
     bit g n \<and> n \<noteq> Pos gNotpast \<or> n = Pos gPresent \<and> Has g gNotpast \<and> Has g gImperfect \<or> n = Pos gFuture \<and> Has g gNotpast \<and> Has g gPerfect"
  by (auto simp: NormalizeTenses_def Let_def gram_Set_def gram_Reset_def Has_def bit_set_bit_iff bit_unset_bit_iff Pos_def)

lemma NormalizeAll_eq: "NormalizeAll g = NormalizeTenses (NormalizeCases (NormalizeGenders g))"
proof (cases "HasAny g (grammems [gMasFem, gPartitive, gLocative, gVocative] OR grammems [gNotpast])")
  case False
  then have "\<not> bit g (Pos c)" if "c \<in> {gMasFem, gPartitive, gLocative, gVocative, gNotpast}" for c
    using that by (auto simp: HasAny_iff bit_or_iff bit_grammems Pos_def)
  then have none: "\<not> Has g gMasFem" "\<not> Has g gPartitive" "\<not> Has g gLocative" "\<not> Has g gVocative" "\<not> Has g gNotpast"
    by (simp_all add: Has_def)
  then have "NormalizeGenders g = g" by (simp add: NormalizeGenders_def)
  moreover have "NormalizeCases g = g" using none by (simp add: NormalizeCases_def)
  moreover have "NormalizeTenses g = g" using none by (simp add: NormalizeTenses_def)
  ultimately show ?thesis using False by (simp add: NormalizeAll_def)
qed (simp add: NormalizeAll_def)

lemma bit_groups:
  "bit AllCases n \<longleftrightarrow> n \<in> Pos ` {gNominative, gGenitive, gDative, gAccusative, gInstrumental, gAblative, gPartitive, gLocative, gVocative}"
  "bit AllGenders n \<longleftrightarrow> n \<in> Pos ` {gMasculine, gFeminine, gNeuter, gMasFem}"
  "bit AllNumbers n \<longleftrightarrow> n \<in> Pos ` {gSingular, gPlural}"
  "bit AllPersons n \<longleftrightarrow> n \<in> Pos ` {gPerson1, gPerson2, gPerson3}"
  by (auto simp: AllCases_def AllMajorCases_def AllMinorCases_def AllGenders_def AllNumbers_def AllPersons_def bit_or_iff bit_grammems Pos_def)

lemma bit_NormalizeAll:
  "bit AllCases n \<Longrightarrow> bit (NormalizeAll g) n = bit (NormalizeCases g) n"
  "bit AllGenders n \<Longrightarrow> bit (NormalizeAll g) n = bit (NormalizeGenders g) n"
  "bit AllNumbers n \<Longrightarrow> bit (NormalizeAll g) n = bit g n"
  by (auto simp: NormalizeAll_eq bit_NormalizeTenses bit_NormalizeCases bit_NormalizeGenders Has_def bit_groups Pos_def)

lemma bit_NormalizeCases_number: "bit AllNumbers n \<Longrightarrow> bit (NormalizeCases g) n = bit g n"
  by (auto simp: bit_NormalizeCases bit_groups Pos_def)

section \<open>What the checks test\<close>

lemma HasAny_and: "HasAny (g1 AND g2) m \<longleftrightarrow> (\<exists>n. bit m n \<and> bit g1 n \<and> bit g2 n)"
  by (auto simp: HasAny_iff bit_and_iff)

lemma HasAny_normalized:
  "HasAny (NormalizeAll g1 AND NormalizeAll g2) AllCases = HasAny (NormalizeCases g1 AND NormalizeCases g2) AllCases"
  "HasAny (NormalizeAll g1 AND NormalizeAll g2) AllGenders = HasAny (NormalizeGenders g1 AND NormalizeGenders g2) AllGenders"
  "HasAny (NormalizeAll g1 AND NormalizeAll g2) AllNumbers = HasAny (g1 AND g2) AllNumbers"
  "HasAny (NormalizeCases g1 AND NormalizeCases g2) AllNumbers = HasAny (g1 AND g2) AllNumbers"
  unfolding HasAny_and using bit_NormalizeAll bit_NormalizeCases_number by metis+

lemma nonzero_HasAny: "g AND m \<noteq> 0 \<longleftrightarrow> HasAny g m"
  by (simp add: HasAny_def)

lemma HasAny_or: "HasAny g (m OR m') \<longleftrightarrow> HasAny g m \<or> HasAny g m'"
  by (auto simp: HasAny_iff bit_or_iff)

lemma check_nonzero:
  "CaseCheck g1 g2 \<noteq> 0 \<longleftrightarrow> HasAny (NormalizeCases g1 AND NormalizeCases g2) AllCases"
  "NumberCheck g1 g2 \<noteq> 0 \<longleftrightarrow> HasAny (g1 AND g2) AllNumbers"
  by (simp_all add: CaseCheck_def NumberCheck_def GeneralCheck_def GetCommonGrammems_def nonzero_HasAny)

lemma GeneralCheck2_nonzero:
  "GeneralCheck2 g1 g2 m1 m2 normfunc \<noteq> 0 \<longleftrightarrow>
     HasAny (GetCommonGrammems g1 g2 normfunc) m1 \<and> HasAny (GetCommonGrammems g1 g2 normfunc) m2"
  by (simp add: GeneralCheck2_def Let_def nonzero_HasAny HasAny_or)

lemma Has_HasAny: "Has g c \<Longrightarrow> bit m (Pos c) \<Longrightarrow> HasAny g m"
  by (auto simp: Has_def HasAny_iff)

text \<open>
  C30. What each check of agreement tests: agreement in case and number is agreement in each of the two; agreement in gender,
  number and case is agreement in case and number where the genders have something in common or one of the two has no
  gender, save that a singular masculine accusative must not be animate on one side and inanimate on the other; gender
  and number agree in the plural or with a common gender in the singular.
\<close>

theorem agreement_checks_correct:
  "(CaseNumberCheck g1 g2 \<noteq> 0 \<longleftrightarrow> CaseCheck g1 g2 \<noteq> 0 \<and> NumberCheck g1 g2 \<noteq> 0) \<and>
   (GenderNumberCaseCheck g1 g2 \<noteq> 0 \<longleftrightarrow>
      CaseCheck g1 g2 \<noteq> 0 \<and> NumberCheck g1 g2 \<noteq> 0 \<and>
      (HasAny (NormalizeGenders g1 AND NormalizeGenders g2) AllGenders \<or> \<not> HasAny g1 AllGenders \<or> \<not> HasAny g2 AllGenders) \<and>
      \<not> (HasAll (NormalizeAll g1 AND NormalizeAll g2) (grammems [gSingular, gMasculine, gAccusative]) \<and>
         Has g1 gAnimated \<noteq> Has g1 gInanimated \<and> Has g2 gAnimated \<noteq> Has g2 gInanimated \<and> Has g1 gAnimated \<noteq> Has g2 gAnimated)) \<and>
   (GenderCaseCheck g1 g2 \<noteq> 0 \<longleftrightarrow> HasAny (NormalizeGenders g1 AND NormalizeGenders g2) AllGenders \<and> CaseCheck g1 g2 \<noteq> 0) \<and>
   (GenderNumberCheck g1 g2 \<noteq> 0 \<longleftrightarrow>
      Has g1 gPlural \<and> Has g2 gPlural \<or>
      Has g1 gSingular \<and> Has g2 gSingular \<and> HasAny (NormalizeGenders g1 AND NormalizeGenders g2) AllGenders) \<and>
   (PersonNumberCheck g1 g2 \<noteq> 0 \<longleftrightarrow> HasAny (g1 AND g2) AllPersons \<and> NumberCheck g1 g2 \<noteq> 0)"
proof (intro conjI)
  show "CaseNumberCheck g1 g2 \<noteq> 0 \<longleftrightarrow> CaseCheck g1 g2 \<noteq> 0 \<and> NumberCheck g1 g2 \<noteq> 0"
    by (simp add: CaseNumberCheck_def GeneralCheck2_nonzero GetCommonGrammems_def check_nonzero HasAny_normalized)
  show "GenderCaseCheck g1 g2 \<noteq> 0 \<longleftrightarrow> HasAny (NormalizeGenders g1 AND NormalizeGenders g2) AllGenders \<and> CaseCheck g1 g2 \<noteq> 0"
    by (simp add: GenderCaseCheck_def GeneralCheck2_nonzero GetCommonGrammems_def check_nonzero HasAny_normalized)
  show "PersonNumberCheck g1 g2 \<noteq> 0 \<longleftrightarrow> HasAny (g1 AND g2) AllPersons \<and> NumberCheck g1 g2 \<noteq> 0"
    by (simp add: PersonNumberCheck_def GeneralCheck2_nonzero GetCommonGrammems_def check_nonzero)
  let ?r = "NormalizeGenders g1 AND NormalizeGenders g2"
  have num: "Has ?r gPlural \<longleftrightarrow> Has g1 gPlural \<and> Has g2 gPlural" "Has ?r gSingular \<longleftrightarrow> Has g1 gSingular \<and> Has g2 gSingular"
    by (auto simp: Has_def bit_and_iff bit_NormalizeGenders Pos_def)
  have "Has ?r gPlural \<Longrightarrow> HasAny ?r AllNumbers" by (rule Has_HasAny) (auto simp: bit_groups)
  then show "GenderNumberCheck g1 g2 \<noteq> 0 \<longleftrightarrow> Has g1 gPlural \<and> Has g2 gPlural \<or>
      Has g1 gSingular \<and> Has g2 gSingular \<and> HasAny ?r AllGenders"
    by (auto simp: GenderNumberCheck_def Let_def GetCommonGrammems_def nonzero_HasAny HasAny_or num)
  let ?a = "NormalizeAll g1 AND NormalizeAll g2" and ?spec = "grammems [gSingular, gMasculine, gAccusative]"
    and ?all = "AllNumbers OR AllCases OR AllGenders"
  have "HasAll (?a AND ?all) ?spec = HasAll ?a ?spec"
  proof -
    have "bit ?all n" if "bit ?spec n" for n using that by (auto simp: bit_grammems bit_or_iff bit_groups)
    then show ?thesis by (auto simp: HasAll_iff bit_and_iff)
  qed
  moreover have "HasAny ?a AllCases \<Longrightarrow> ?a AND ?all \<noteq> 0" by (simp add: nonzero_HasAny HasAny_or)
  ultimately show "GenderNumberCaseCheck g1 g2 \<noteq> 0 \<longleftrightarrow>
      CaseCheck g1 g2 \<noteq> 0 \<and> NumberCheck g1 g2 \<noteq> 0 \<and>
      (HasAny ?r AllGenders \<or> \<not> HasAny g1 AllGenders \<or> \<not> HasAny g2 AllGenders) \<and>
      \<not> (HasAll ?a ?spec \<and> Has g1 gAnimated \<noteq> Has g1 gInanimated \<and> Has g2 gAnimated \<noteq> Has g2 gInanimated \<and>
         Has g1 gAnimated \<noteq> Has g2 gAnimated)"
    by (simp add: GenderNumberCaseCheck_def Let_def GetCommonGrammems_def check_nonzero HasAny_normalized) blast
qed

theorem agreement_checks_correct_witness:
  "GenderNumberCheck (grammems [gPlural, gFeminine]) (grammems [gPlural]) \<noteq> 0 \<and>
   GenderNumberCheck (grammems [gPlural]) (grammems [gSingular]) = 0"
proof -
  have "Has (grammems [gPlural, gFeminine]) gPlural" "Has (grammems [gPlural]) gPlural"
    "\<not> Has (grammems [gSingular]) gPlural" "\<not> Has (grammems [gPlural]) gSingular"
    by (simp_all add: Has_def bit_grammems Pos_def)
  then show ?thesis
    using agreement_checks_correct [of "grammems [gPlural, gFeminine]" "grammems [gPlural]"]
      agreement_checks_correct [of "grammems [gPlural]" "grammems [gSingular]"]
    by blast
qed

section \<open>Agreement of collections\<close>

lemma bit_fold_or: "bit (fold (\<lambda>x res. res OR h x) xs r) n \<longleftrightarrow> bit r n \<or> (\<exists>x \<in> set xs. bit (h x) n)" for r :: grams
  by (induction xs arbitrary: r) (auto simp: bit_or_iff)

lemma bit_fold_or_pairs:
  "bit (fold (\<lambda>x. fold (\<lambda>y res. res OR h x y) ys) xs r) n \<longleftrightarrow> bit r n \<or> (\<exists>x \<in> set xs. \<exists>y \<in> set ys. bit (h x y) n)" for r :: grams
  by (induction xs arbitrary: r) (auto simp: bit_fold_or)

lemma bit_GleicheGrammems:
  "bit (GleicheGrammems gs1 gs2 (Some f)) n \<longleftrightarrow> (\<exists>g1 \<in> set gs1. \<exists>g2 \<in> set gs2. bit (f g1 g2) n)"
  by (simp add: GleicheGrammems_def bit_fold_or_pairs)

lemma word_nonzero_bit: "g \<noteq> 0 \<longleftrightarrow> (\<exists>n. bit g n)" for g :: grams
  by (metis bit_0_eq bit_word_eqI bot_apply bot_bool_def)

lemma Gleiche_GleicheGrammems: "Gleiche gs1 gs2 func \<longleftrightarrow> GleicheGrammems gs1 gs2 func \<noteq> 0"
proof (cases func)
  case (Some f)
  then show ?thesis
    by (auto simp: Gleiche_def list_ex_iff word_nonzero_bit bit_GleicheGrammems)
qed (simp add: Gleiche_def GleicheGrammems_def)

text \<open>What does not depend on the order of two sets does not depend on the order of two collections.\<close>

locale symmetric_check =
  fixes f :: "grams \<Rightarrow> grams \<Rightarrow> grams"
  assumes commute: "f g1 g2 = f g2 g1"
begin

lemma GleicheGrammems_commute: "GleicheGrammems gs1 gs2 (Some f) = GleicheGrammems gs2 gs1 (Some f)"
  by (rule bit_word_eqI) (simp add: bit_GleicheGrammems, metis commute)

lemma Gleiche_commute: "Gleiche gs1 gs2 (Some f) = Gleiche gs2 gs1 (Some f)"
  by (simp add: Gleiche_GleicheGrammems GleicheGrammems_commute)

end

lemma GetCommonGrammems_commute: "GetCommonGrammems g1 g2 normfunc = GetCommonGrammems g2 g1 normfunc"
  by (simp add: GetCommonGrammems_def and.commute split: option.split)

lemma GeneralCheck2_commute: "GeneralCheck2 g1 g2 m1 m2 normfunc = GeneralCheck2 g2 g1 m1 m2 normfunc"
  by (simp add: GeneralCheck2_def GetCommonGrammems_commute)

lemma GenderNumberCaseCheck_commute: "GenderNumberCaseCheck g1 g2 = GenderNumberCaseCheck g2 g1"
  unfolding GenderNumberCaseCheck_def Let_def GetCommonGrammems_commute [of g1 g2] by (intro if_cong refl; blast)

interpretation gnc: symmetric_check GenderNumberCaseCheck by unfold_locales (rule GenderNumberCaseCheck_commute)
interpretation gn: symmetric_check GenderNumberCheck
  by unfold_locales (simp add: GenderNumberCheck_def GetCommonGrammems_commute)
interpretation gc: symmetric_check GenderCaseCheck
  by unfold_locales (simp add: GenderCaseCheck_def GeneralCheck2_commute)
interpretation cn: symmetric_check CaseNumberCheck
  by unfold_locales (simp add: CaseNumberCheck_def GeneralCheck2_commute)
interpretation case_agr: symmetric_check CaseCheck
  by unfold_locales (simp add: CaseCheck_def GeneralCheck_def GetCommonGrammems_commute)
interpretation number_agr: symmetric_check NumberCheck
  by unfold_locales (simp add: NumberCheck_def GeneralCheck_def GetCommonGrammems_commute)
interpretation after_number: symmetric_check AfterNumberCheck
  by unfold_locales (auto simp: AfterNumberCheck_def GenderNumberCaseCheck_commute)
interpretation any: symmetric_check NoCheck by unfold_locales (simp add: NoCheck_def)

text \<open>
  C31. Two collections of forms agree exactly when the grammemes they agree in are not empty, and for every agreement but those
  of a subject with its predicate, of a name with its status and of an izafet the order of the two makes no difference.
\<close>

theorem Gleiche_correct:
  "Gleiche gs1 gs2 (GetGleicheFunc func) = (GleicheGrammems gs1 gs2 (GetGleicheFunc func) \<noteq> 0) \<and>
   list_all (\<lambda>sym. Gleiche gs1 gs2 (GetGleicheFunc sym) = Gleiche gs2 gs1 (GetGleicheFunc sym) \<and>
       GleicheGrammems gs1 gs2 (GetGleicheFunc sym) = GleicheGrammems gs2 gs1 (GetGleicheFunc sym))
     [GendreNumberCase, GendreNumber, GendreCase, NumberCaseAgr, CaseAgr, NumberAgr, AfterNumAgr, AnyFunc]"
proof -
  note commute = gnc.GleicheGrammems_commute [of gs1 gs2] gn.GleicheGrammems_commute [of gs1 gs2]
    gc.GleicheGrammems_commute [of gs1 gs2] cn.GleicheGrammems_commute [of gs1 gs2] case_agr.GleicheGrammems_commute [of gs1 gs2]
    number_agr.GleicheGrammems_commute [of gs1 gs2] after_number.GleicheGrammems_commute [of gs1 gs2]
    any.GleicheGrammems_commute [of gs1 gs2]
  show ?thesis by (simp add: Gleiche_GleicheGrammems GetGleicheFunc_def commute)
qed

section \<open>Selection of forms\<close>

definition agreeing :: "(grams \<Rightarrow> grams \<Rightarrow> grams) \<Rightarrow> grams set \<Rightarrow> grams set \<Rightarrow> grams set" where
  "agreeing f A B = {g \<in> A. \<exists>h \<in> B. f g h \<noteq> 0}"

lemma forms_row:
  assumes "fold (\<lambda>g2 (res, r1, r2). let tmp = f g1 g2 in if tmp \<noteq> 0 then (res OR tmp, bunch_insert g1 r1, bunch_insert g2 r2)
      else (res, r1, r2)) hs (res, r1, r2) = (res', r1', r2')"
    and "gramset.ordered r1" "gramset.ordered r2"
  shows "res' = fold (\<lambda>g2 res. res OR f g1 g2) hs res \<and> gramset.ordered r1' \<and> gramset.ordered r2' \<and>
    set r1' = set r1 \<union> agreeing f {g1} (set hs) \<and> set r2' = set r2 \<union> agreeing (\<lambda>h g. f g h) (set hs) {g1}"
  using assms
proof (induction hs arbitrary: res r1 r2)
  case Nil
  then show ?case by (auto simp: agreeing_def)
next
  case (Cons h hs)
  show ?case
  proof (cases "f g1 h = 0")
    case True
    then have "agreeing f {g1} (set (h # hs)) = agreeing f {g1} (set hs)"
      "agreeing (\<lambda>h g. f g h) (set (h # hs)) {g1} = agreeing (\<lambda>h g. f g h) (set hs) {g1}"
      by (auto simp: agreeing_def)
    then show ?thesis using Cons.IH [of res r1 r2] Cons.prems True by simp
  next
    case False
    then have "agreeing f {g1} (set (h # hs)) = insert g1 (agreeing f {g1} (set hs))"
      "agreeing (\<lambda>h g. f g h) (set (h # hs)) {g1} = insert h (agreeing (\<lambda>h g. f g h) (set hs) {g1})"
      by (auto simp: agreeing_def)
    then show ?thesis
      using Cons.IH [of "res OR f g1 h" "bunch_insert g1 r1" "bunch_insert h r2"] Cons.prems False by simp
  qed
qed

lemma forms_rows:
  assumes "fold (\<lambda>g1. fold (\<lambda>g2 (res, r1, r2). let tmp = f g1 g2 in if tmp \<noteq> 0 then (res OR tmp, bunch_insert g1 r1, bunch_insert g2 r2)
      else (res, r1, r2)) hs) gs (res, r1, r2) = (res', r1', r2')"
    and "gramset.ordered r1" "gramset.ordered r2"
  shows "res' = fold (\<lambda>g1. fold (\<lambda>g2 res. res OR f g1 g2) hs) gs res \<and> gramset.ordered r1' \<and> gramset.ordered r2' \<and>
    set r1' = set r1 \<union> agreeing f (set gs) (set hs) \<and> set r2' = set r2 \<union> agreeing (\<lambda>h g. f g h) (set hs) (set gs)"
  using assms
proof (induction gs arbitrary: res r1 r2)
  case Nil
  then show ?case by (auto simp: agreeing_def)
next
  case (Cons g gs)
  obtain res1 q1 q2 where row: "fold (\<lambda>g2 (res, r1, r2). let tmp = f g g2 in if tmp \<noteq> 0 then (res OR tmp, bunch_insert g r1, bunch_insert g2 r2)
      else (res, r1, r2)) hs (res, r1, r2) = (res1, q1, q2)" using prod_cases3 by blast
  note one = forms_row [where f = f, OF row Cons.prems(2,3)]
  note rest = Cons.IH [of res1 q1 q2]
  have "agreeing f (set (g # gs)) (set hs) = agreeing f {g} (set hs) \<union> agreeing f (set gs) (set hs)"
    "agreeing (\<lambda>h g. f g h) (set hs) (set (g # gs)) = agreeing (\<lambda>h g. f g h) (set hs) {g} \<union> agreeing (\<lambda>h g. f g h) (set hs) (set gs)"
    by (auto simp: agreeing_def)
  then show ?case using one rest Cons.prems(1) row by auto
qed

lemma bunch_eqI: "gramset.ordered b \<Longrightarrow> gramset.ordered c \<Longrightarrow> set b = set c \<Longrightarrow> b = c"
proof -
  assume "gramset.ordered b" "gramset.ordered c" "set b = set c"
  then have "map gram_chunks c = map gram_chunks b"
    by (intro strict_sorted_equal) (simp_all add: gramset.ordered_iff)
  moreover have "inj gram_chunks" by (simp add: inj_def gram_chunks_inj)
  ultimately show "b = c" by (metis map_injective)
qed

lemma GleicheForms_step:
  assumes "gramset.ordered r1" "gramset.ordered r2" "GetGleicheFunc func = Some f"
    and "GleicheForms gs hs r1 r2 func = (res, r1', r2')"
  shows "res = GleicheGrammems gs hs (Some f) \<and> gramset.ordered r1' \<and> gramset.ordered r2' \<and>
    set r1' = set r1 \<union> agreeing f (set gs) (set hs) \<and> set r2' = set r2 \<union> agreeing (\<lambda>h g. f g h) (set hs) (set gs)"
  using forms_rows [of f hs gs 0 r1 r2 res r1' r2'] assms by (simp add: GleicheForms_def GleicheGrammems_def)

text \<open>
  C32. \<^verbatim>\<open>GleicheForms\<close> returns the grammemes that the two bunches agree in and adds to the result bunches exactly the forms that have
  a partner on the other side. From empty result bunches, a second selection among the forms selected changes nothing.
\<close>

theorem GleicheForms_correct:
  assumes "gramset.ordered r1" "gramset.ordered r2" "GetGleicheFunc func = Some f"
    and forms: "GleicheForms gs hs r1 r2 func = (res, r1', r2')"
  shows "res = GleicheGrammems gs hs (Some f) \<and> gramset.ordered r1' \<and> gramset.ordered r2' \<and>
    set r1' = set r1 \<union> {g \<in> set gs. \<exists>h \<in> set hs. f g h \<noteq> 0} \<and>
    set r2' = set r2 \<union> {h \<in> set hs. \<exists>g \<in> set gs. f g h \<noteq> 0} \<and>
    (r1 = [] \<and> r2 = [] \<longrightarrow> GleicheForms r1' r2' [] [] func = (res, r1', r2'))"
proof -
  note step = GleicheForms_step [OF assms]
  have "GleicheForms r1' r2' [] [] func = (res, r1', r2')" if "r1 = []" "r2 = []"
  proof -
    obtain res2 q1 q2 where again: "GleicheForms r1' r2' [] [] func = (res2, q1, q2)" using prod_cases3 by blast
    have "gramset.ordered ([] :: grams list)" using assms(1) that by simp
    note step2 = GleicheForms_step [OF this this assms(3) again]
    have sets: "set r1' = agreeing f (set gs) (set hs)" "set r2' = agreeing (\<lambda>h g. f g h) (set hs) (set gs)"
      using step that by simp_all
    have "set q1 = set r1'" "set q2 = set r2'" using step2 sets by (auto simp: agreeing_def)
    then have "q1 = r1'" "q2 = r2'" using step step2 bunch_eqI by blast+
    moreover have "bit (GleicheGrammems r1' r2' (Some f)) n = bit (GleicheGrammems gs hs (Some f)) n" for n
    proof -
      have "bit (f g h) n \<Longrightarrow> f g h \<noteq> 0" for g h by auto
      then show ?thesis unfolding bit_GleicheGrammems sets agreeing_def by blast
    qed
    then have "res2 = res" using step step2 by (metis bit_word_eqI)
    ultimately show ?thesis using again by simp
  qed
  then show ?thesis using step by (simp add: agreeing_def)
qed

theorem GleicheForms_correct_witness:
  "GleicheForms [1] [2] [] [] AnyFunc = (AllGrammems, [1], [2]) \<and> AllGrammems = GleicheGrammems [1] [2] (Some NoCheck)"
proof -
  have e: "GleicheForms [1] [2] [] [] AnyFunc = (AllGrammems, [1], [2])"
    by (simp add: GleicheForms_def GetGleicheFunc_def NoCheck_def AllGrammems_def bunch_insert_def oset_insert.simps)
  have "GetGleicheFunc AnyFunc = Some NoCheck" by (simp add: GetGleicheFunc_def)
  from GleicheForms_correct [OF _ _ this e] e show ?thesis by (metis sorted_wrt.simps(1))
qed

end
