(* ===== verification/HomonymGrammems.thy ===== *)
theory HomonymGrammems
  imports Agreement
begin

text \<open>
  The grammemes of a homonym (\<^verbatim>\<open>FactExtract/Parser/afdocparser/common/homonymbase.h\<close>, \<^verbatim>\<open>homonymbase.cpp\<close>): the set of the
  grammemes of its forms and the union of them, the parts of speech, and the agreement of two homonyms
  (\<^verbatim>\<open>afdocparser/rus/gleiche.cpp\<close>).
\<close>

section \<open>\<^verbatim>\<open>THomonymGrammems\<close>\<close>

record THomonymGrammems =
  hg_Forms :: TGrammarBunch
  hg_All :: grams

definition hg_empty :: THomonymGrammems where "hg_empty = \<lparr>hg_Forms = [], hg_All = 0\<rparr>"

definition hg_Reset :: "THomonymGrammems \<Rightarrow> THomonymGrammems" where
  "hg_Reset h = h\<lparr>hg_Forms := [], hg_All := 0\<rparr>"

definition hg_Reset_gram :: "grams \<Rightarrow> THomonymGrammems \<Rightarrow> THomonymGrammems" where
  "hg_Reset_gram gram h = h\<lparr>hg_Forms := [], hg_All := gram\<rparr>"

definition hg_Reset_forms :: "TGrammarBunch \<Rightarrow> THomonymGrammems \<Rightarrow> THomonymGrammems" where
  "hg_Reset_forms forms h = (let h = h\<lparr>hg_Forms := forms\<rparr> in h\<lparr>hg_All := UniteGrammems (hg_Forms h)\<rparr>)"

definition hg_ResetAbbrev :: "THomonymGrammems \<Rightarrow> THomonymGrammems" where
  "hg_ResetAbbrev h = hg_Reset_gram (grammems [gSubstantive] OR AllCases OR AllGenders OR AllNumbers) h"

definition hg_ResetSingleForm :: "grams \<Rightarrow> THomonymGrammems \<Rightarrow> THomonymGrammems" where
  "hg_ResetSingleForm form h = h\<lparr>hg_Forms := bunch_insert form [], hg_All := form\<rparr>"

definition AllPOS :: grams where
  "AllPOS =
     grammems [gSubstantive, gAdjective, gVerb, gSubstPronoun]
     OR grammems [gAdjPronoun, gNumeral, gAdjNumeral, gAdverb, gAdvPronoun]
     OR grammems [gPraedic, gPreposition, gConjunction, gInterjunction]
     OR grammems [gParenth, gParticle, gParticiple, gGerund]
     OR grammems [gInfinitive, gShort, gComparative, gPossessive]
     OR grammems [gSubConj, gSimConj, gPronounConj]
     OR grammems [gCorrelateConj, gImperative, gAuxVerb]"

definition forms_update :: "(grams \<Rightarrow> grams) \<Rightarrow> TGrammarBunch \<Rightarrow> TGrammarBunch" where
  "forms_update f forms = fold (\<lambda>g tmp. let gr = f g in if gr \<noteq> 0 then bunch_insert gr tmp else tmp) forms []"

definition hg_SetPOS :: "grams \<Rightarrow> THomonymGrammems \<Rightarrow> THomonymGrammems" where
  "hg_SetPOS POS h =
     (let h = h\<lparr>hg_All := ReplaceByMask POS AllPOS (hg_All h)\<rparr>
      in h\<lparr>hg_Forms := forms_update (ReplaceByMask POS AllPOS) (hg_Forms h)\<rparr>)"

definition hg_Has :: "THomonymGrammems \<Rightarrow> TGrammar \<Rightarrow> bool" where "hg_Has h grammem = Has (hg_All h) grammem"
definition hg_HasAll :: "THomonymGrammems \<Rightarrow> grams \<Rightarrow> bool" where "hg_HasAll h g = HasAll (hg_All h) g"
definition hg_HasAny :: "THomonymGrammems \<Rightarrow> grams \<Rightarrow> bool" where "hg_HasAny h g = HasAny (hg_All h) g"

definition hg_Replace :: "TGrammar \<Rightarrow> TGrammar \<Rightarrow> THomonymGrammems \<Rightarrow> THomonymGrammems" where
  "hg_Replace grOld grNew h =
     (if (grOld = gInvalid \<or> \<not> hg_Has h grOld) \<and> (grNew = gInvalid \<or> hg_Has h grNew) then h
      else let h = h\<lparr>hg_All := SafeSet grNew (SafeReset grOld (hg_All h))\<rparr>
        in h\<lparr>hg_Forms := forms_update (\<lambda>g. SafeSet grNew (SafeReset grOld g)) (hg_Forms h)\<rparr>)"

definition hg_Delete :: "TGrammar \<Rightarrow> THomonymGrammems \<Rightarrow> THomonymGrammems" where "hg_Delete gr h = hg_Replace gr gInvalid h"
definition hg_Add :: "TGrammar \<Rightarrow> THomonymGrammems \<Rightarrow> THomonymGrammems" where "hg_Add gr h = hg_Replace gInvalid gr h"

definition hg_Replace_set :: "grams \<Rightarrow> grams \<Rightarrow> THomonymGrammems \<Rightarrow> THomonymGrammems" where
  "hg_Replace_set grOld grNew h =
     (if (grOld = 0 \<or> \<not> hg_HasAny h grOld) \<and> (grNew = 0 \<or> hg_HasAll h grNew) then h
      else let noOld = NOT grOld; h = h\<lparr>hg_All := (hg_All h AND noOld) OR grNew\<rparr>
        in h\<lparr>hg_Forms := forms_update (\<lambda>g. (g AND noOld) OR grNew) (hg_Forms h)\<rparr>)"

definition hg_Delete_set :: "grams \<Rightarrow> THomonymGrammems \<Rightarrow> THomonymGrammems" where "hg_Delete_set gr h = hg_Replace_set gr 0 h"
definition hg_Add_set :: "grams \<Rightarrow> THomonymGrammems \<Rightarrow> THomonymGrammems" where "hg_Add_set gr h = hg_Replace_set 0 gr h"

definition hg_AddForm :: "grams \<Rightarrow> THomonymGrammems \<Rightarrow> THomonymGrammems" where
  "hg_AddForm g h =
     (let h = (if g \<noteq> 0 then h\<lparr>hg_Forms := bunch_insert g (hg_Forms h)\<rparr> else h) in h\<lparr>hg_All := hg_All h OR g\<rparr>)"

text \<open>\<^verbatim>\<open>operator |=\<close>.\<close>

definition hg_join :: "THomonymGrammems \<Rightarrow> THomonymGrammems \<Rightarrow> THomonymGrammems" where
  "hg_join h g = (let h = h\<lparr>hg_Forms := fold bunch_insert (hg_Forms g) (hg_Forms h)\<rparr> in h\<lparr>hg_All := hg_All h OR hg_All g\<rparr>)"

text \<open>\<^verbatim>\<open>operator <\<close> with the lexicographic order of \<^verbatim>\<open>yset\<close>.\<close>

fun bunch_less :: "TGrammarBunch \<Rightarrow> TGrammarBunch \<Rightarrow> bool" where
  "bunch_less b [] = False"
| "bunch_less [] (g # gs) = True"
| "bunch_less (h # hs) (g # gs) = (if gram_less h g then True else if gram_less g h then False else bunch_less hs gs)"

definition hg_less :: "THomonymGrammems \<Rightarrow> THomonymGrammems \<Rightarrow> bool" where
  "hg_less h g = (if hg_All h \<noteq> hg_All g then gram_less (hg_All h) (hg_All g) else bunch_less (hg_Forms h) (hg_Forms g))"

definition hg_Empty :: "THomonymGrammems \<Rightarrow> bool" where "hg_Empty h \<longleftrightarrow> hg_All h = 0 \<and> hg_Forms h = []"
definition hg_HasForms :: "THomonymGrammems \<Rightarrow> bool" where "hg_HasForms h \<longleftrightarrow> hg_Forms h \<noteq> []"

definition hg_HasFormWith :: "grams \<Rightarrow> THomonymGrammems \<Rightarrow> bool" where
  "hg_HasFormWith g h = (if hg_HasForms h then list_ex (\<lambda>f. HasAll f g) (hg_Forms h) else hg_HasAll h g)"

definition hg_HasAllCases :: "THomonymGrammems \<Rightarrow> bool" where "hg_HasAllCases h = hg_HasAll h AllMajorCases"
definition hg_IsIndeclinable :: "THomonymGrammems \<Rightarrow> bool" where
  "hg_IsIndeclinable h \<longleftrightarrow> hg_HasAllCases h \<and> hg_HasAll h AllNumbers"
definition hg_HasNominativeOnly :: "THomonymGrammems \<Rightarrow> bool" where
  "hg_HasNominativeOnly h \<longleftrightarrow> hg_All h AND AllCases = grammems [gNominative]"
definition hg_GetPOS :: "THomonymGrammems \<Rightarrow> grams" where "hg_GetPOS h = hg_All h AND AllPOS"

section \<open>Parts of speech of \<^verbatim>\<open>CHomonymBase\<close>\<close>

definition IsName :: "THomonymGrammems \<Rightarrow> bool" where
  "IsName h \<longleftrightarrow> hg_HasAny h (grammems [gSurname, gFirstName, gPatr]) \<and> (hg_Has h gSingular \<or> \<not> hg_Has h gPlural)"

definition IsShortAdjectiveOrParticiple :: "THomonymGrammems \<Rightarrow> bool" where
  "IsShortAdjectiveOrParticiple h \<longleftrightarrow> hg_HasAny h (grammems [gAdjective, gParticiple]) \<and> hg_Has h gShort"

definition IsConj :: "THomonymGrammems \<Rightarrow> bool" where
  "IsConj h \<longleftrightarrow> hg_HasAny h (grammems [gConjunction, gSubConj, gSimConj, gPronounConj, gCorrelateConj])"

definition IsSubConj :: "THomonymGrammems \<Rightarrow> bool" where "IsSubConj h \<longleftrightarrow> hg_Has h gSubConj \<or> hg_Has h gPronounConj"

definition hom_IsMorphNoun :: "THomonymGrammems \<Rightarrow> bool" where
  "hom_IsMorphNoun h \<longleftrightarrow> hg_HasAny h (grammems [gSubstantive, gSubstPronoun, gPronounConj])"

definition IsMorphAdj :: "THomonymGrammems \<Rightarrow> bool" where
  "IsMorphAdj h \<longleftrightarrow> hg_HasAny h (grammems [gAdjPronoun, gAdjective, gParticiple, gAdjNumeral]) \<and> \<not> hg_Has h gShort"

definition HasPOS_one :: "grams \<Rightarrow> TGrammar \<Rightarrow> bool" where
  "HasPOS_one g POS =
     (if POS = gVerb then IsPersonalVerb g
      else if POS = gParticiple then IsFullParticiple g
      else if POS = gAdjective then IsFullAdjective g
      else Has g POS)"

definition HasPOS :: "grams \<Rightarrow> grams \<Rightarrow> bool" where
  "HasPOS g POS = (if gram_Count POS = 1 then HasPOS_one g (FindFirst POS) else HasAll g POS)"

definition HasAnyOfPOS :: "grams \<Rightarrow> THomonymGrammems \<Rightarrow> bool" where
  "HasAnyOfPOS POS h =
     (let exceptions = grammems [gVerb, gAdjective, gParticiple]
      in if HasAny POS exceptions then
           (if Has POS gVerb \<and> IsPersonalVerb (hg_All h) \<or> Has POS gAdjective \<and> IsFullAdjective (hg_All h) \<or>
               Has POS gParticiple \<and> IsFullParticiple (hg_All h) then True
            else hg_HasAny h (POS AND NOT exceptions))
         else hg_HasAny h POS)"

definition HasAnyOfPOS_bunch :: "TGrammarBunch \<Rightarrow> THomonymGrammems \<Rightarrow> bool" where
  "HasAnyOfPOS_bunch POS h = list_ex (HasPOS (hg_All h)) POS"

text \<open>The last grammeme of a set, found by \<^verbatim>\<open>FindNext\<close>; \<open>None\<close> would be not returning.\<close>

partial_function (option) last_found :: "grams \<Rightarrow> TGrammar \<Rightarrow> TGrammar \<Rightarrow> TGrammar option" where
  "last_found res lst nxt = (if nxt < gMax then last_found res nxt (FindNext res nxt) else Some lst)"

declare last_found.simps [code]

definition GetMinimalPOS :: "THomonymGrammems \<Rightarrow> grams option" where
  "GetMinimalPOS h =
     (let res = hg_GetPOS h; n = gram_Count res
      in if n \<ge> 2 then
           Option.bind (last_found res (FindFirst res) (FindNext res (FindFirst res))) (\<lambda>lst.
             Some (if lst = gShort \<or> lst = gPossessive then
                     (if n > 2 then res AND grammems [lst, gAdjective, gParticiple] else res)
                   else grammems [lst]))
         else Some res)"

definition HasSamePOS :: "THomonymGrammems \<Rightarrow> THomonymGrammems \<Rightarrow> bool" where
  "HasSamePOS h g \<longleftrightarrow> GetMinimalPOS h = GetMinimalPOS g"

section \<open>Agreement of homonyms\<close>

definition hg_Gleiche :: "THomonymGrammems \<Rightarrow> THomonymGrammems \<Rightarrow> TGleicheFunc \<Rightarrow> bool" where
  "hg_Gleiche h1 h2 func =
     (if hg_HasForms h1 \<and> hg_HasForms h2 then Gleiche (hg_Forms h1) (hg_Forms h2) func
      else Gleiche_single (hg_All h1) (hg_All h2) func)"

definition hg_GleicheGrammems :: "THomonymGrammems \<Rightarrow> THomonymGrammems \<Rightarrow> TGleicheFunc \<Rightarrow> grams" where
  "hg_GleicheGrammems h1 h2 func =
     (if hg_HasForms h1 \<and> hg_HasForms h2 then GleicheGrammems (hg_Forms h1) (hg_Forms h2) func
      else GleicheGrammems_single (hg_All h1) (hg_All h2) func)"

definition GleicheSimPredics :: "THomonymGrammems \<Rightarrow> THomonymGrammems \<Rightarrow> bool" where
  "GleicheSimPredics h1 h2 =
     (let res = GetCommonGrammems (hg_All h1) (hg_All h2) (Some NormalizeAll)
      in if \<not> HasAny res AllNumbers then False
         else let p1 = IsShortAdjectiveOrParticiple h1; p2 = IsShortAdjectiveOrParticiple h2
           in if p1 \<and> p2 then hg_Has h1 gPlural \<or> HasAny res AllGenders
              else if p1 \<or> p2 then True
              else HasAny res AllGenders \<or> HasAny res AllPersons \<or> IsPastTense (hg_All h1) \<or> IsPastTense (hg_All h2))"

section \<open>The operations as steps\<close>

inductive hg_step :: "THomonymGrammems \<Rightarrow> THomonymGrammems \<Rightarrow> bool" where
  reset: "hg_step h (hg_Reset h)"
| reset_gram: "hg_step h (hg_Reset_gram g h)"
| reset_forms: "gramset.ordered forms \<Longrightarrow> hg_step h (hg_Reset_forms forms h)"
| reset_abbrev: "hg_step h (hg_ResetAbbrev h)"
| reset_single: "hg_step h (hg_ResetSingleForm g h)"
| set_pos: "hg_step h (hg_SetPOS POS h)"
| replace: "hg_step h (hg_Replace grOld grNew h)"
| replace_set: "hg_step h (hg_Replace_set old new h)"
| add_form: "hg_step h (hg_AddForm g h)"

inductive hg_reachable :: "THomonymGrammems \<Rightarrow> bool" where
  start: "hg_reachable hg_empty"
| step: "hg_reachable h \<Longrightarrow> hg_step h h' \<Longrightarrow> hg_reachable h'"
| join: "hg_reachable h \<Longrightarrow> hg_reachable g \<Longrightarrow> hg_reachable (hg_join h g)"

text \<open>The forms are an ordered set within the union.\<close>

definition hg_ok :: "THomonymGrammems \<Rightarrow> bool" where
  "hg_ok h \<longleftrightarrow> gramset.ordered (hg_Forms h) \<and> HasAll (hg_All h) (UniteGrammems (hg_Forms h))"

section \<open>The union contains the forms\<close>

lemma forms_update_set: "set (forms_update f forms) = f ` set forms - {0}"
proof -
  have "set (fold (\<lambda>g tmp. let gr = f g in if gr \<noteq> 0 then bunch_insert gr tmp else tmp) forms b) = set b \<union> (f ` set forms - {0})" for b
    by (induction forms arbitrary: b) (auto simp: Let_def)
  then show ?thesis by (simp add: forms_update_def)
qed

lemma forms_update_ordered [simp]: "gramset.ordered (forms_update f forms)"
proof -
  have "gramset.ordered b \<Longrightarrow>
      gramset.ordered (fold (\<lambda>g tmp. let gr = f g in if gr \<noteq> 0 then bunch_insert gr tmp else tmp) forms b)" for b
    by (induction forms arbitrary: b) (auto simp: Let_def)
  then show ?thesis by (simp add: forms_update_def)
qed

lemma bit_UniteGrammems_update: "bit (UniteGrammems (forms_update f forms)) n \<longleftrightarrow> (\<exists>g \<in> set forms. bit (f g) n)"
  by (auto simp: bit_UniteGrammems forms_update_set)

lemma fold_bunch_insert_set: "set (fold bunch_insert gs b) = set gs \<union> set b"
  by (induction gs arbitrary: b) auto

lemma fold_bunch_insert_ordered: "gramset.ordered b \<Longrightarrow> gramset.ordered (fold bunch_insert gs b)"
  by (induction gs arbitrary: b) auto

lemma hg_ok_iff: "hg_ok h \<longleftrightarrow> gramset.ordered (hg_Forms h) \<and> (\<forall>f \<in> set (hg_Forms h). HasAll (hg_All h) f)"
  by (auto simp: hg_ok_def HasAll_iff bit_UniteGrammems)

lemma HasAll_update:
  assumes "HasAll a g"
  shows "HasAll (ReplaceByMask s m a) (ReplaceByMask s m g)" and "HasAll ((a AND x) OR y) ((g AND x) OR y)"
    and "HasAll (SafeSet c (SafeReset d a)) (SafeSet c (SafeReset d g))"
  using assms
  by (auto simp: HasAll_iff ReplaceByMask_def bit_or_iff bit_and_iff SafeSet_def SafeReset_def gram_Set_def gram_Reset_def
      bit_set_bit_iff bit_unset_bit_iff)

lemma hg_ok_update:
  assumes "hg_ok h" "\<And>g. HasAll (hg_All h) g \<Longrightarrow> HasAll (f (hg_All h)) (f g)"
  shows "hg_ok (h\<lparr>hg_All := f (hg_All h), hg_Forms := forms_update f (hg_Forms h)\<rparr>)"
  using assms by (auto simp: hg_ok_iff forms_update_set)

lemma hg_step_ok: "hg_step h h' \<Longrightarrow> hg_ok h \<Longrightarrow> hg_ok h'"
proof (induction rule: hg_step.induct)
  case (set_pos h POS)
  then show ?case
    using hg_ok_update [of h "ReplaceByMask POS AllPOS"] HasAll_update(1) by (simp add: hg_SetPOS_def)
next
  case (replace h grOld grNew)
  then show ?case
    using hg_ok_update [of h "\<lambda>g. SafeSet grNew (SafeReset grOld g)"] HasAll_update(3) by (simp add: hg_Replace_def Let_def)
next
  case (replace_set h old new)
  then show ?case
    using hg_ok_update [of h "\<lambda>g. (g AND NOT old) OR new"] HasAll_update(2) by (simp add: hg_Replace_set_def Let_def)
next
  case (add_form h g)
  then show ?case by (auto simp: hg_AddForm_def hg_ok_iff HasAll_iff bit_or_iff)
qed (auto simp: hg_ok_iff hg_Reset_def hg_Reset_gram_def hg_Reset_forms_def hg_ResetAbbrev_def hg_ResetSingleForm_def
    HasAll_iff bit_UniteGrammems)

lemma hg_join_ok: "hg_ok h \<Longrightarrow> hg_ok g \<Longrightarrow> hg_ok (hg_join h g)"
  by (auto simp: hg_join_def hg_ok_iff HasAll_iff bit_or_iff fold_bunch_insert_set fold_bunch_insert_ordered)

lemma hg_reachable_ok: "hg_reachable h \<Longrightarrow> hg_ok h"
proof (induction rule: hg_reachable.induct)
  case start
  show ?case by (simp add: hg_empty_def hg_ok_iff)
qed (simp_all add: hg_step_ok hg_join_ok)

text \<open>
  C33. Whatever operations made them, the grammemes of a homonym keep their forms as an ordered set whose union is contained in
  the set of all grammemes, so a grammeme that some form has is found in the whole set.
\<close>

theorem homonym_grammems_invariant:
  assumes "hg_reachable h"
  shows "gramset.ordered (hg_Forms h) \<and> HasAll (hg_All h) (UniteGrammems (hg_Forms h)) \<and> (hg_HasFormWith g h \<longrightarrow> hg_HasAll h g)"
proof -
  have ok: "hg_ok h" using assms by (rule hg_reachable_ok)
  then have "HasAll (hg_All h) f" if "f \<in> set (hg_Forms h)" for f using that by (simp add: hg_ok_iff)
  then have "hg_HasFormWith g h \<Longrightarrow> hg_HasAll h g"
    using HasAll_trans by (auto simp: hg_HasFormWith_def hg_HasAll_def list_ex_iff split: if_splits)
  then show ?thesis using ok by (simp add: hg_ok_def)
qed

theorem homonym_grammems_invariant_witness:
  "hg_Forms (hg_AddForm 2 (hg_AddForm 1 hg_empty)) = [1, 2] \<and>
   HasAll (hg_All (hg_AddForm 2 (hg_AddForm 1 hg_empty))) (UniteGrammems (hg_Forms (hg_AddForm 2 (hg_AddForm 1 hg_empty))))"
proof -
  have "hg_reachable (hg_AddForm 2 (hg_AddForm 1 hg_empty))"
    by (rule hg_reachable.step [OF hg_reachable.step [OF hg_reachable.start hg_step.add_form] hg_step.add_form])
  from homonym_grammems_invariant [OF this] show ?thesis
    by (simp add: hg_AddForm_def hg_empty_def bunch_insert_def oset_insert.simps gram_less_def gram_chunks_def take_bit_eq_mod
        drop_bit_eq_div)
qed

text \<open>
  When the set of all grammemes is the union of the forms, and there are forms, it stays so: changing the part of speech and
  replacing, deleting and adding grammemes change both alike, and so do adding a form and taking in another homonym.
\<close>

lemma homonym_grammems_exact:
  assumes "hg_Forms h \<noteq> []" "hg_All h = UniteGrammems (hg_Forms h)" "hg_All h' = UniteGrammems (hg_Forms h')"
  shows "list_all (\<lambda>k. hg_All k = UniteGrammems (hg_Forms k))
    [hg_SetPOS POS h, hg_Replace grOld grNew h, hg_Replace_set old new h, hg_AddForm g h, hg_join h h', hg_ResetSingleForm g h]"
proof -
  have upd: "hg_All k = UniteGrammems (hg_Forms k)"
    if k: "k = h\<lparr>hg_All := f (hg_All h), hg_Forms := forms_update f (hg_Forms h)\<rparr>"
      and f: "\<And>n. bit (f (UniteGrammems (hg_Forms h))) n \<longleftrightarrow> (\<exists>g \<in> set (hg_Forms h). bit (f g) n)" for k f
    by (rule bit_word_eqI) (simp add: k f assms(2) bit_UniteGrammems_update)
  have ne: "\<exists>g. g \<in> set (hg_Forms h)" using assms(1) by (cases "hg_Forms h") auto
  let ?bits = "\<lambda>f. \<forall>n. bit (f (UniteGrammems (hg_Forms h))) n \<longleftrightarrow> (\<exists>g \<in> set (hg_Forms h). bit (f g) n)"
  have "?bits (ReplaceByMask POS AllPOS)"
    using ne by (auto simp: ReplaceByMask_def bit_or_iff bit_and_iff bit_not_iff bit_UniteGrammems dest: bit_imp_le_length)
  then have 1: "hg_All (hg_SetPOS POS h) = UniteGrammems (hg_Forms (hg_SetPOS POS h))"
    by (intro upd [where f = "ReplaceByMask POS AllPOS"]) (simp_all add: hg_SetPOS_def)
  have "?bits (\<lambda>g. SafeSet grNew (SafeReset grOld g))"
    using ne by (auto simp: SafeSet_def SafeReset_def gram_Set_def gram_Reset_def bit_set_bit_iff bit_unset_bit_iff bit_UniteGrammems)
  then have 2: "hg_All (hg_Replace grOld grNew h) = UniteGrammems (hg_Forms (hg_Replace grOld grNew h))"
    using upd [where f = "\<lambda>g. SafeSet grNew (SafeReset grOld g)", OF refl] assms(2) by (simp add: hg_Replace_def Let_def)
  have "?bits (\<lambda>g. (g AND NOT old) OR new)"
    using ne by (auto simp: bit_or_iff bit_and_iff bit_not_iff bit_UniteGrammems dest: bit_imp_le_length)
  then have 3: "hg_All (hg_Replace_set old new h) = UniteGrammems (hg_Forms (hg_Replace_set old new h))"
    using upd [where f = "\<lambda>g. (g AND NOT old) OR new", OF refl] assms(2) by (simp add: hg_Replace_set_def Let_def)
  have 4: "hg_All (hg_AddForm g h) = UniteGrammems (hg_Forms (hg_AddForm g h))"
    by (rule bit_word_eqI) (auto simp: hg_AddForm_def assms(2) bit_or_iff bit_UniteGrammems)
  have 5: "hg_All (hg_join h h') = UniteGrammems (hg_Forms (hg_join h h'))"
    by (rule bit_word_eqI) (auto simp: hg_join_def assms(2,3) bit_or_iff bit_UniteGrammems fold_bunch_insert_set)
  have 6: "hg_All (hg_ResetSingleForm g h) = UniteGrammems (hg_Forms (hg_ResetSingleForm g h))"
    by (rule bit_word_eqI) (simp add: hg_ResetSingleForm_def bit_UniteGrammems)
  show ?thesis using 1 2 3 4 5 6 by simp
qed

section \<open>The minimal part of speech\<close>

lemma last_found_eq:
  "last_found res lst (next_bit res i + 127) =
     Some (if filter (bit res) [i..<125] = [] then lst else last (filter (bit res) [i..<125]) + 127)"
proof (induction "125 - i" arbitrary: i lst rule: less_induct)
  case less
  show ?case
  proof (cases "next_bit res i < 125")
    case True
    then have "i \<le> next_bit res i" using next_bit_less by blast
    then have "125 - Suc (next_bit res i) < 125 - i" using True by linarith
    from less [OF this, of "next_bit res i + 127"] show ?thesis
      using True filter_from_next [of res i] by (subst last_found.simps) (simp add: FindNext_def)
  next
    case False
    then show ?thesis using filter_from_next [of res i] by (subst last_found.simps) simp
  qed
qed

lemma last_filter:
  assumes "res \<noteq> 0"
  shows "last_found res (FindFirst res) (FindNext res (FindFirst res)) = Some (last (filter (bit res) [0..<125]) + 127)"
proof -
  obtain n where "bit res n" using assms word_nonzero_bit by blast
  then have "n \<in> set (filter (bit res) [0..<125])" by (auto dest: bit_imp_le_length)
  then have first: "next_bit res 0 < 125" using filter_from_next [of res 0] by (auto split: if_splits)
  have "FindNext res (FindFirst res) = next_bit res (Suc (next_bit res 0)) + 127" by (simp add: FindNext_def FindFirst_def)
  then show ?thesis using first filter_from_next [of res 0] by (simp add: last_found_eq FindFirst_def)
qed

lemma le_last: "sorted xs \<Longrightarrow> x \<in> set xs \<Longrightarrow> x \<le> last xs" for x :: nat
  by (induction xs) auto

lemma last_filter_greatest:
  fixes res :: grams
  assumes "res \<noteq> 0"
  defines "m \<equiv> last (filter (bit res) [0..<125])"
  shows "bit res m" and "bit res n \<Longrightarrow> n \<le> m"
proof -
  let ?xs = "filter (bit res) [0..<125]"
  have mem: "bit res k \<Longrightarrow> k \<in> set ?xs" for k by (auto dest: bit_imp_le_length)
  have ne: "?xs \<noteq> []" using assms(1) mem word_nonzero_bit by fastforce
  then have "last ?xs \<in> set ?xs" by (rule last_in_set)
  then show "bit res m" by (simp add: m_def)
  have "sorted ?xs" by (intro sorted_wrt_filter) simp
  then show "bit res n \<Longrightarrow> n \<le> m" using mem [of n] le_last unfolding m_def by blast
qed

lemma gram_Count_zero: "gram_Count 0 = 0"
  by (simp add: gram_Count_def)

lemma gram_Count_single: "n < 125 \<Longrightarrow> gram_Count (grammems [n + 127]) = 1"
proof -
  assume "n < 125"
  then have "filter (bit (grammems [n + 127])) [0..<125] = filter (\<lambda>i. i = n) [0..<125]"
    by (intro filter_cong) (auto simp: bit_grammems Pos_def)
  moreover have "length (filter (\<lambda>i. i = n) [0..<k]) = (if n < k then 1 else 0)" for k by (induction k) auto
  ultimately show ?thesis using \<open>n < 125\<close> by (simp add: gram_Count_def)
qed

text \<open>
  \<^verbatim>\<open>GetMinimalPOS\<close> returns a part of the parts of speech of the homonym, empty only when it has none, which contains the
  greatest of them; unless that one is the short form or the possessive, or there are fewer than two, it is the only one.
\<close>

lemma GetMinimalPOS_correct:
  "\<exists>r. GetMinimalPOS h = Some r \<and> HasAll (hg_GetPOS h) r \<and> (r = 0 \<longleftrightarrow> hg_GetPOS h = 0) \<and>
     (\<forall>n. bit (hg_GetPOS h) n \<longrightarrow> (\<exists>m. n \<le> m \<and> bit r m)) \<and>
     (gram_Count r \<le> 1 \<or> Has r gShort \<or> Has r gPossessive)"
proof (cases "gram_Count (hg_GetPOS h) \<ge> 2")
  case False
  then show ?thesis by (intro exI [of _ "hg_GetPOS h"]) (auto simp: GetMinimalPOS_def Let_def)
next
  case True
  define res where "res = hg_GetPOS h"
  define m where "m = last (filter (bit res) [0..<125])"
  have ne: "res \<noteq> 0" using True gram_Count_zero by (auto simp: res_def)
  have m: "bit res m" "\<And>n. bit res n \<Longrightarrow> n \<le> m" using last_filter_greatest [OF ne] by (simp_all add: m_def)
  have m125: "m < 125" using m(1) bit_imp_le_length by fastforce
  define r where "r = (if m + 127 = gShort \<or> m + 127 = gPossessive then
      (if gram_Count res > 2 then res AND grammems [m + 127, gAdjective, gParticiple] else res) else grammems [m + 127])"
  have "GetMinimalPOS h = Some r"
    using True last_filter [OF ne] by (simp add: GetMinimalPOS_def Let_def r_def res_def m_def)
  moreover have rm: "bit r m" using m(1) m125 by (auto simp: r_def bit_and_iff bit_grammems Pos_def)
  moreover have "HasAll res r" using m(1) by (auto simp: r_def HasAll_iff bit_and_iff bit_grammems Pos_def)
  moreover have "r \<noteq> 0" using rm by auto
  moreover have "gram_Count r \<le> 1 \<or> Has r gShort \<or> Has r gPossessive"
  proof (cases "m + 127 = gShort \<or> m + 127 = gPossessive")
    case True
    then have "m = Pos gShort \<or> m = Pos gPossessive" by (auto simp: Pos_def)
    then show ?thesis using rm by (auto simp: Has_def)
  next
    case False
    then show ?thesis using gram_Count_single [OF m125] by (simp add: r_def)
  qed
  ultimately show ?thesis using m ne by (auto simp: res_def)
qed

lemma GetMinimalPOS_correct_witness:
  "\<exists>r. GetMinimalPOS (hg_Reset_gram (grammems [gVerb]) hg_empty) = Some r \<and> r \<noteq> 0"
proof -
  have "bit (hg_GetPOS (hg_Reset_gram (grammems [gVerb]) hg_empty)) (Pos gVerb)"
    by (simp add: hg_GetPOS_def hg_Reset_gram_def AllPOS_def bit_and_iff bit_or_iff bit_grammems Pos_def)
  then have "hg_GetPOS (hg_Reset_gram (grammems [gVerb]) hg_empty) \<noteq> 0" by auto
  then show ?thesis using GetMinimalPOS_correct [of "hg_Reset_gram (grammems [gVerb]) hg_empty"] by auto
qed

text \<open>Agreement of homonyms: exactly when there are common grammemes.\<close>

lemma hg_Gleiche_GleicheGrammems: "hg_Gleiche h1 h2 func \<longleftrightarrow> hg_GleicheGrammems h1 h2 func \<noteq> 0"
  by (simp add: hg_Gleiche_def hg_GleicheGrammems_def Gleiche_GleicheGrammems Gleiche_single_def)

end
