(* ===== verification/HomonymWord.thy ===== *)
theory HomonymWord
  imports HomonymGrammems
begin

text \<open>
  Homonyms with their dictionary articles and words with their homonyms (\<^verbatim>\<open>FactExtract/Parser/afdocparser/rus/homonym.h\<close>,
  \<^verbatim>\<open>homonym.cpp\<close>, \<^verbatim>\<open>word.h\<close>, \<^verbatim>\<open>word.cpp\<close>). An article of the gazetteer is an element of a type variable, with its keyword type
  as a function. The texts and lemmas are fields; what is done to them by the morphological analysis is not modelled, and neither
  are the labels of a homonym and the words it was made from.
\<close>

section \<open>Homonyms\<close>

datatype EDicType = CONJ_DICT | PREDIC_DICT | TEMPLATE_DICT | PREP_DICT | KW_DICT

datatype ENameType = FirstName | Surname | Patronomyc | InitialName | InitialPatronomyc | NameTypeCount | NoName

record SDictIndex =
  m_DicType :: EDicType
  m_iArt :: int

record 'g CHomonym =
  hom_Lemma :: Wtroka
  hom_Grammems :: THomonymGrammems
  IsDictionaryHom :: bool
  m_bDeleted :: bool
  m_NameType :: "ENameType list"
  hom_Terminals :: "nat list"
  m_DicIndexes :: "EDicType \<Rightarrow> int"
  m_KWtype2Articles :: "TKeyWordType \<Rightarrow> SDictIndex list"
  m_GztArticle :: "'g option"
  m_ExtraGztArticles :: "'g list"

definition homonym_init :: "Wtroka \<Rightarrow> 'g CHomonym" where
  "homonym_init lemma_text =
     \<lparr>hom_Lemma = lemma_text, hom_Grammems = hg_empty, IsDictionaryHom = False, m_bDeleted = False, m_NameType = [],
      hom_Terminals = [], m_DicIndexes = (\<lambda>_. - 1), m_KWtype2Articles = (\<lambda>_. []), m_GztArticle = None,
      m_ExtraGztArticles = []\<rparr>"

text \<open>\<^verbatim>\<open>Clone\<close> copies everything but the mark of deletion.\<close>

definition homonym_Clone :: "'g CHomonym \<Rightarrow> 'g CHomonym" where
  "homonym_Clone h = h\<lparr>m_bDeleted := False\<rparr>"

definition homonym_Delete :: "'g CHomonym \<Rightarrow> 'g CHomonym" where "homonym_Delete h = h\<lparr>m_bDeleted := True\<rparr>"
definition homonym_Undelete :: "'g CHomonym \<Rightarrow> 'g CHomonym" where "homonym_Undelete h = h\<lparr>m_bDeleted := False\<rparr>"

definition HasGztArticle :: "'g CHomonym \<Rightarrow> bool" where "HasGztArticle h \<longleftrightarrow> m_GztArticle h \<noteq> None"

definition homonym_HasAuxArticle :: "EDicType \<Rightarrow> 'g CHomonym \<Rightarrow> bool" where
  "homonym_HasAuxArticle dicType h =
     (case dicType of
        PREDIC_DICT \<Rightarrow> m_DicIndexes h PREDIC_DICT \<noteq> - 1 \<or> m_DicIndexes h TEMPLATE_DICT \<noteq> - 1
      | d \<Rightarrow> m_DicIndexes h d \<noteq> - 1)"

definition homonym_PutAuxArticle :: "SDictIndex \<Rightarrow> 'g CHomonym \<Rightarrow> 'g CHomonym" where
  "homonym_PutAuxArticle i h =
     (let h = h\<lparr>m_DicIndexes := (m_DicIndexes h)(m_DicType i := m_iArt i)\<rparr>
      in if m_DicType i = KW_DICT then h\<lparr>m_GztArticle := None\<rparr> else h)"

definition homonym_PutGztArticle :: "('g \<Rightarrow> TKeyWordType) \<Rightarrow> 'g \<Rightarrow> 'g CHomonym \<Rightarrow> 'g CHomonym" where
  "homonym_PutGztArticle GetType gzt h =
     (let h = h\<lparr>m_GztArticle := Some gzt\<rparr>;
          h = h\<lparr>m_DicIndexes := (m_DicIndexes h)(KW_DICT := - 1)\<rparr>
      in if m_ExtraGztArticles h \<noteq> [] \<and> GetType gzt \<noteq> GetType (hd (m_ExtraGztArticles h))
         then h\<lparr>m_ExtraGztArticles := []\<rparr> else h)"

definition SetNameType :: "ENameType \<Rightarrow> 'g CHomonym \<Rightarrow> 'g CHomonym" where
  "SetNameType t h = (if t = NoName then h else h\<lparr>m_NameType := List.insert t (m_NameType h)\<rparr>)"

definition HasNameType :: "ENameType \<Rightarrow> 'g CHomonym \<Rightarrow> bool" where
  "HasNameType t h \<longleftrightarrow> t \<noteq> NoName \<and> t \<in> set (m_NameType h)"

definition homonym_InitNameType :: "'g CHomonym \<Rightarrow> 'g CHomonym \<times> bool" where
  "homonym_InitNameType h =
     (let g = hom_Grammems h
      in if hg_All g AND AllNumbers = grammems [gPlural] then (h, False)
         else if hg_Has g gSurname then (SetNameType Surname h, True)
         else if hg_Has g gPatr then (SetNameType Patronomyc h, True)
         else if hg_Has g gFirstName \<and> \<not> hg_Has g gPossessive then (SetNameType FirstName h, True)
         else (h, False))"

definition ResetGenderFromHomonym :: "'g CHomonym \<Rightarrow> 'g CHomonym \<Rightarrow> 'g CHomonym" where
  "ResetGenderFromHomonym from h =
     (let h = (if hg_Has (hom_Grammems from) gFeminine
               then h\<lparr>hom_Grammems := hg_Replace gMasculine gFeminine (hom_Grammems h)\<rparr> else h)
      in if hg_Has (hom_Grammems from) gMasculine
         then h\<lparr>hom_Grammems := hg_Replace gFeminine gMasculine (hom_Grammems h)\<rparr> else h)"

text \<open>\<^verbatim>\<open>GetSimilarSubjectForms\<close>, the forms of the first homonym corrected by the second.\<close>

definition similar_form :: "grams \<Rightarrow> grams \<Rightarrow> TGrammarBunch \<Rightarrow> TGrammarBunch" where
  "similar_form g1 g2 res =
     (let common = GleicheGrammems_single g1 g2 (Some GenderNumberCaseCheck)
      in if common = 0 then res
         else let common = (if \<not> HasAny common AllGenders then common OR ((g1 OR g2) AND AllGenders) else common)
           in bunch_insert ((g1 AND NOT (AllCases OR AllNumbers OR AllGenders)) OR common) res)"

definition GetSimilarSubjectForms :: "THomonymGrammems \<Rightarrow> THomonymGrammems \<Rightarrow> TGrammarBunch \<times> bool" where
  "GetSimilarSubjectForms h1 h2 =
     (let res = fold (\<lambda>g1. fold (\<lambda>g2. similar_form g1 g2) (hg_Forms h2)) (hg_Forms h1) []
      in (res, res \<noteq> []))"

section \<open>Words\<close>

record 'g CWord =
  m_Homonyms :: "'g CHomonym list"
  m_DeletedHomCount :: nat
  m_txt :: Wtroka
  m_bUp :: bool
  is_initial :: bool
  m_bIgnoreUpperCase :: bool

text \<open>\<^verbatim>\<open>IterHomonyms\<close> visits the homonyms that are not deleted; \<^verbatim>\<open>GetID\<close> is the index.\<close>

fun skip_deleted :: "'g CHomonym list \<Rightarrow> nat \<Rightarrow> nat" where
  "skip_deleted [] i = i"
| "skip_deleted (h # hs) i = (if m_bDeleted h then skip_deleted hs (Suc i) else i)"

definition iter_begin :: "'g CWord \<Rightarrow> nat" where
  "iter_begin w = skip_deleted (m_Homonyms w) 0"

definition iter_next :: "'g CWord \<Rightarrow> nat \<Rightarrow> nat" where
  "iter_next w i = skip_deleted (drop (Suc i) (m_Homonyms w)) (Suc i)"

definition iter_Ok :: "'g CWord \<Rightarrow> nat \<Rightarrow> bool" where
  "iter_Ok w i \<longleftrightarrow> i < length (m_Homonyms w)"

partial_function (option) iter_from :: "'g CWord \<Rightarrow> nat \<Rightarrow> nat list option" where
  "iter_from w i =
     (if iter_Ok w i then Option.bind (iter_from w (iter_next w i)) (\<lambda>is. Some (i # is)) else Some [])"

declare iter_from.simps [code]

definition IterHomonyms :: "'g CWord \<Rightarrow> nat list" where
  "IterHomonyms w = filter (\<lambda>i. \<not> m_bDeleted (m_Homonyms w ! i)) [0..<length (m_Homonyms w)]"

text \<open>
  The loop over an iterator with a mask: the start is not compared with the mask, and it ends with the first 32 homonyms. A shift by
  32 or more, which is undefined in the source, gives 0 here, so that a homonym after the first 32 is in no mask.
\<close>

definition TestMask :: "32 word \<Rightarrow> nat \<Rightarrow> bool" where
  "TestMask m i \<longleftrightarrow> push_bit i 1 AND m \<noteq> 0"

definition IterMask :: "'g CWord \<Rightarrow> 32 word \<Rightarrow> nat list" where
  "IterMask w m =
     (let m = (if m \<noteq> 0 then m else NOT 0); is = takeWhile (\<lambda>i. i < 32) (IterHomonyms w)
      in take 1 is @ filter (TestMask m) (drop 1 is))"

definition GetRusHomonymsCount :: "'g CWord \<Rightarrow> nat" where
  "GetRusHomonymsCount w = length (m_Homonyms w) - m_DeletedHomCount w"

text \<open>The first homonym with a property, or -1.\<close>

definition first_homonym :: "('g CHomonym \<Rightarrow> bool) \<Rightarrow> 'g CWord \<Rightarrow> int" where
  "first_homonym P w = (case List.find (\<lambda>i. P (m_Homonyms w ! i)) (IterHomonyms w) of Some i \<Rightarrow> int i | None \<Rightarrow> - 1)"

definition HasPOSi :: "grams \<Rightarrow> 'g CWord \<Rightarrow> int" where
  "HasPOSi POS w = first_homonym (\<lambda>h. HasPOS (hg_All (hom_Grammems h)) POS) w"

definition word_HasPOS :: "grams \<Rightarrow> 'g CWord \<Rightarrow> bool" where "word_HasPOS POS w \<longleftrightarrow> HasPOSi POS w \<noteq> - 1"

definition HasMorphNoun_i :: "'g CWord \<Rightarrow> int" where
  "HasMorphNoun_i w = first_homonym (\<lambda>h. hom_IsMorphNoun (hom_Grammems h)) w"

definition HasMorphNoun :: "'g CWord \<Rightarrow> bool" where "HasMorphNoun w \<longleftrightarrow> HasMorphNoun_i w \<noteq> - 1"

definition HasMorphNounWithGrammems_i :: "grams \<Rightarrow> 'g CWord \<Rightarrow> int" where
  "HasMorphNounWithGrammems_i g w = first_homonym (\<lambda>h. hom_IsMorphNoun (hom_Grammems h) \<and> hg_HasAll (hom_Grammems h) g) w"

definition HasMorphAdj_i :: "'g CWord \<Rightarrow> int" where
  "HasMorphAdj_i w = first_homonym (\<lambda>h. IsMorphAdj (hom_Grammems h)) w"

definition HasConjHomonym_i :: "'g CWord \<Rightarrow> int" where
  "HasConjHomonym_i w = first_homonym (\<lambda>h. IsConj (hom_Grammems h)) w"

definition HasSubConjHomonym_i :: "'g CWord \<Rightarrow> int" where
  "HasSubConjHomonym_i w = first_homonym (\<lambda>h. IsSubConj (hom_Grammems h)) w"

definition HasOneConjHomonym :: "'g CWord \<Rightarrow> bool" where
  "HasOneConjHomonym w \<longleftrightarrow> length (filter (\<lambda>i. IsConj (hom_Grammems (m_Homonyms w ! i))) (IterHomonyms w)) = 1"

definition word_HasUnknownPOS :: "'g CWord \<Rightarrow> bool" where
  "word_HasUnknownPOS w \<longleftrightarrow> list_ex (\<lambda>i. hg_GetPOS (hom_Grammems (m_Homonyms w ! i)) = 0) (IterHomonyms w)"

definition HasOnlyPOS :: "grams \<Rightarrow> 'g CWord \<Rightarrow> bool" where
  "HasOnlyPOS POS w \<longleftrightarrow> GetRusHomonymsCount w = 1 \<and> word_HasPOS POS w"

definition HasOnlyPOSes :: "grams \<Rightarrow> 'g CWord \<Rightarrow> bool" where
  "HasOnlyPOSes POSes w \<longleftrightarrow> list_all (\<lambda>i. HasAnyOfPOS POSes (hom_Grammems (m_Homonyms w ! i))) (IterHomonyms w)"

text \<open>\<^verbatim>\<open>GetHomIDsByKWType\<close> adds the homonyms with the article to a mask.\<close>

definition GetHomIDsByKWType :: "('g CHomonym \<Rightarrow> SArtPointer \<Rightarrow> bool) \<Rightarrow> SArtPointer \<Rightarrow> 'g CWord \<Rightarrow> 32 word \<Rightarrow> 32 word" where
  "GetHomIDsByKWType HasArticle artP w homIDs =
     fold (\<lambda>i homIDs. if HasArticle (m_Homonyms w ! i) artP then homIDs OR push_bit i 1 else homIDs) (IterHomonyms w) homIDs"

definition HasFirstHomonymByHomIDs_i :: "32 word \<Rightarrow> 'g CWord \<Rightarrow> int" where
  "HasFirstHomonymByHomIDs_i homIDs w =
     (let is = filter (TestMask homIDs) (IterHomonyms w)
      in case List.find (\<lambda>i. hg_Has (hom_Grammems (m_Homonyms w ! i)) gMasculine) is of
           Some i \<Rightarrow> int i
         | None \<Rightarrow> (case is of [] \<Rightarrow> - 1 | i # _ \<Rightarrow> int i))"

text \<open>Deletion, of the homonym with an index.\<close>

definition delete_hom :: "nat \<Rightarrow> 'g CWord \<Rightarrow> 'g CWord" where
  "delete_hom i w =
     (if \<not> m_bDeleted (m_Homonyms w ! i) then
        w\<lparr>m_DeletedHomCount := m_DeletedHomCount w + 1, m_Homonyms := (m_Homonyms w)[i := homonym_Delete (m_Homonyms w ! i)]\<rparr>
      else w)"

definition undelete_hom :: "nat \<Rightarrow> 'g CWord \<Rightarrow> 'g CWord" where
  "undelete_hom i w =
     (if m_bDeleted (m_Homonyms w ! i) then
        (let w = (if m_DeletedHomCount w > 0 then w\<lparr>m_DeletedHomCount := m_DeletedHomCount w - 1\<rparr> else w)
         in w\<lparr>m_Homonyms := (m_Homonyms w)[i := homonym_Undelete (m_Homonyms w ! i)]\<rparr>)
      else w)"

definition DeleteHomonym :: "nat \<Rightarrow> 'g CWord \<Rightarrow> 'g CWord" where
  "DeleteHomonym i w = (if GetRusHomonymsCount w > 1 then delete_hom i w else w)"

definition DeleteAllHomonyms :: "'g CWord \<Rightarrow> 'g CWord" where
  "DeleteAllHomonyms w = fold delete_hom [0..<length (m_Homonyms w)] w"

definition DeleteHomonymWithPOS :: "grams \<Rightarrow> 'g CWord \<Rightarrow> 'g CWord" where
  "DeleteHomonymWithPOS POS w =
     (if length (m_Homonyms w) = 1 then w
      else let (w, del_homs) = fold (\<lambda>i (w, del_homs).
                 if \<not> m_bDeleted (m_Homonyms w ! i) \<and> HasPOS (hg_All (hom_Grammems (m_Homonyms w ! i))) POS
                 then (delete_hom i w, del_homs @ [i]) else (w, del_homs)) [0..<length (m_Homonyms w)] (w, [])
        in if GetRusHomonymsCount w = 0 then fold undelete_hom del_homs w else w)"

text \<open>Addition. \<open>IsUpper\<close> is the property of characters.\<close>

definition CanAddHomonym :: "(nat \<Rightarrow> bool) \<Rightarrow> 'g CHomonym \<Rightarrow> 'g CWord \<Rightarrow> bool" where
  "CanAddHomonym IsUpper h w =
     (let g = hom_Grammems h
      in if hg_Has g gAbbreviation \<and> \<not> m_bIgnoreUpperCase w \<and> (\<not> m_bUp w \<or> \<not> list_all IsUpper (m_txt w)) then False
         else if (hg_Has g gGeo \<or> IsName g) \<and> hom_IsMorphNoun g \<and> \<not> m_bUp w \<and> \<not> m_bIgnoreUpperCase w then False
         else True)"

definition AddRusHomonym :: "'g CHomonym \<Rightarrow> 'g CWord \<Rightarrow> 'g CWord \<times> int" where
  "AddRusHomonym h w = (w\<lparr>m_Homonyms := m_Homonyms w @ [h]\<rparr>, int (length (m_Homonyms w)))"

definition AddHomonym :: "(nat \<Rightarrow> bool) \<Rightarrow> 'g CHomonym \<Rightarrow> bool \<Rightarrow> 'g CWord \<Rightarrow> 'g CWord \<times> int" where
  "AddHomonym IsUpper h bAllowIgnore w =
     (if bAllowIgnore \<and> \<not> CanAddHomonym IsUpper h w then (w, - 1) else AddRusHomonym h w)"

text \<open>Articles. \<open>GetAuxKWType\<close> and \<open>HasArticle\<close> are functions of the dictionaries.\<close>

definition PutAuxArticle ::
  "(SDictIndex \<Rightarrow> TKeyWordType) \<Rightarrow> ('g CHomonym \<Rightarrow> SArtPointer \<Rightarrow> bool) \<Rightarrow> nat \<Rightarrow> SDictIndex \<Rightarrow> bool \<Rightarrow> 'g CWord \<Rightarrow> 'g CWord \<times> int" where
  "PutAuxArticle GetAuxKWType HasArticle iH dicIndex bCloneAnyWay w =
     (let h = m_Homonyms w ! iH;
          has_gzt = (m_DicType dicIndex = KW_DICT \<and> HasGztArticle h)
      in if has_gzt \<or> m_DicIndexes h (m_DicType dicIndex) \<noteq> - 1 then
           (let kwType = GetAuxKWType dicIndex
            in if \<not> bCloneAnyWay \<and> \<not> has_gzt \<and> HasArticle h \<lparr>m_strArt = [], m_KWType = kwType\<rparr> then
                 (w\<lparr>m_Homonyms := (m_Homonyms w)[iH :=
                      h\<lparr>m_KWtype2Articles := (m_KWtype2Articles h)(kwType := m_KWtype2Articles h kwType @ [dicIndex])\<rparr>]\<rparr>, int iH)
               else AddRusHomonym (homonym_PutAuxArticle dicIndex (homonym_Clone h)) w)
         else (w\<lparr>m_Homonyms := (m_Homonyms w)[iH := homonym_PutAuxArticle dicIndex h]\<rparr>, int iH))"

definition PutGztArticle :: "('g \<Rightarrow> TKeyWordType) \<Rightarrow> nat \<Rightarrow> 'g \<Rightarrow> bool \<Rightarrow> 'g CWord \<Rightarrow> 'g CWord \<times> int" where
  "PutGztArticle GetType iH gzt bClone w =
     (let h = m_Homonyms w ! iH; has_aux_kw = homonym_HasAuxArticle KW_DICT h
      in if \<not> has_aux_kw \<and> \<not> HasGztArticle h then
           (w\<lparr>m_Homonyms := (m_Homonyms w)[iH := homonym_PutGztArticle GetType gzt h]\<rparr>, int iH)
         else if bClone \<or> has_aux_kw \<or> map_option GetType (m_GztArticle h) \<noteq> Some (GetType gzt) then
           AddRusHomonym (homonym_PutGztArticle GetType gzt (homonym_Clone h)) w
         else (w\<lparr>m_Homonyms := (m_Homonyms w)[iH := h\<lparr>m_ExtraGztArticles := List.insert gzt (m_ExtraGztArticles h)\<rparr>]\<rparr>, int iH))"

text \<open>The name types of the homonyms of a word that is no hyphenated surname: the prediction of such a surname is not modelled.\<close>

definition word_InitNameType :: "'g CWord \<Rightarrow> 'g CWord \<times> bool" where
  "word_InitNameType w =
     (if \<not> m_bUp w then (w, False)
      else fold (\<lambda>i (w, bRes).
          if m_bDeleted (m_Homonyms w ! i) then (w, bRes)
          else let (h, named) = homonym_InitNameType (m_Homonyms w ! i);
                   h' = (if is_initial w then SetNameType InitialPatronomyc (SetNameType InitialName h) else h)
            in (w\<lparr>m_Homonyms := (m_Homonyms w)[i := h']\<rparr>, bRes \<or> named \<or> is_initial w))
        [0..<length (m_Homonyms w)] (w, False))"

section \<open>Iteration\<close>

lemma skip_deleted_le: "i \<le> skip_deleted hs i \<and> skip_deleted hs i \<le> i + length hs"
  by (induction hs i rule: skip_deleted.induct) auto

lemma filter_skip_deleted:
  "filter (\<lambda>j. \<not> m_bDeleted (hs ! (j - i))) [i..<i + length hs] =
     (let j = skip_deleted hs i in if j < i + length hs then j # filter (\<lambda>j. \<not> m_bDeleted (hs ! (j - i))) [Suc j..<i + length hs] else [])"
proof (induction hs i rule: skip_deleted.induct)
  case (1 i)
  then show ?case by simp
next
  case (2 h hs i)
  have shift: "filter (\<lambda>j. \<not> m_bDeleted ((h # hs) ! (j - i))) [k..<i + length (h # hs)] =
      filter (\<lambda>j. \<not> m_bDeleted (hs ! (j - Suc i))) [k..<Suc i + length hs]" if "Suc i \<le> k" for k
    using that by (intro filter_cong) (auto simp: nth_Cons' Suc_diff_le)
  have upt: "[i..<i + length (h # hs)] = i # [Suc i..<i + length (h # hs)]" by (simp add: upt_conv_Cons del: upt_Suc)
  show ?case
  proof (cases "m_bDeleted h")
    case True
    then show ?thesis
      using 2 shift [of "Suc i"] shift [of "Suc (skip_deleted hs (Suc i))"] skip_deleted_le [of "Suc i" hs]
      unfolding upt by (simp add: Let_def)
  next
    case False
    then show ?thesis unfolding upt by (simp add: Let_def)
  qed
qed

lemma drop_nth_filter:
  "k \<le> length hs \<Longrightarrow> filter (\<lambda>j. \<not> m_bDeleted (drop k hs ! (j - k))) [k..<length hs] = filter (\<lambda>j. \<not> m_bDeleted (hs ! j)) [k..<length hs]"
  by (intro filter_cong) auto

lemma iter_from_eq:
  assumes "k \<le> length (m_Homonyms w)"
  shows "iter_from w (skip_deleted (drop k (m_Homonyms w)) k) =
    Some (filter (\<lambda>i. \<not> m_bDeleted (m_Homonyms w ! i)) [k..<length (m_Homonyms w)])"
  using assms
proof (induction "length (m_Homonyms w) - k" arbitrary: k rule: less_induct)
  case less
  let ?n = "length (m_Homonyms w)" and ?j = "skip_deleted (drop k (m_Homonyms w)) k"
  have eq: "filter (\<lambda>i. \<not> m_bDeleted (m_Homonyms w ! i)) [k..<?n] =
      (if ?j < ?n then ?j # filter (\<lambda>i. \<not> m_bDeleted (m_Homonyms w ! i)) [Suc ?j..<?n] else [])"
  proof -
    have "filter (\<lambda>j. \<not> m_bDeleted (drop k (m_Homonyms w) ! (j - k))) [m..<?n] =
        filter (\<lambda>i. \<not> m_bDeleted (m_Homonyms w ! i)) [m..<?n]" if "k \<le> m" for m
      using that by (intro filter_cong) auto
    then show ?thesis
      using filter_skip_deleted [of "drop k (m_Homonyms w)" k] skip_deleted_le [of k "drop k (m_Homonyms w)"] less.prems
      by (simp add: Let_def)
  qed
  show ?case
  proof (cases "?j < ?n")
    case True
    have "k \<le> ?j" using skip_deleted_le [of k "drop k (m_Homonyms w)"] by simp
    then have "?n - Suc ?j < ?n - k" using True by linarith
    then show ?thesis
      using less.hyps [of "Suc ?j"] True eq by (subst iter_from.simps) (simp add: iter_Ok_def iter_next_def)
  next
    case False
    then show ?thesis using eq by (subst iter_from.simps) (simp add: iter_Ok_def)
  qed
qed

lemma IterHomonyms_eq: "iter_from w (iter_begin w) = Some (IterHomonyms w)"
  using iter_from_eq [of 0 w] by (simp add: iter_begin_def IterHomonyms_def)

section \<open>Deletion and its count\<close>

definition word_ok :: "'g CWord \<Rightarrow> bool" where
  "word_ok w \<longleftrightarrow> m_DeletedHomCount w = length (filter m_bDeleted (m_Homonyms w))"

lemma length_filter_neg: "length (filter P xs) + length (filter (\<lambda>x. \<not> P x) xs) = length xs"
  by (induction xs) auto

lemma IterHomonyms_length: "length (IterHomonyms w) = length (filter (\<lambda>h. \<not> m_bDeleted h) (m_Homonyms w))"
proof -
  have "filter (\<lambda>h. \<not> m_bDeleted h) (map ((!) (m_Homonyms w)) [0..<length (m_Homonyms w)]) =
      map ((!) (m_Homonyms w)) (IterHomonyms w)"
    by (simp add: filter_map IterHomonyms_def comp_def)
  then show ?thesis by (metis length_map map_nth)
qed

lemma count_ok: "word_ok w \<Longrightarrow> GetRusHomonymsCount w = length (IterHomonyms w)"
  using length_filter_neg [of m_bDeleted "m_Homonyms w"] by (simp add: word_ok_def GetRusHomonymsCount_def IterHomonyms_length)

lemma filter_update_length:
  assumes "i < length xs"
  shows "length (filter P (xs[i := x])) + (if P (xs ! i) then 1 else 0) = length (filter P xs) + (if P x then 1 else 0)"
  using assms
proof (induction xs arbitrary: i)
  case (Cons y ys)
  show ?case
  proof (cases i)
    case (Suc j)
    then show ?thesis using Cons.IH [of j] Cons.prems by (auto split: if_splits)
  qed simp
qed simp

lemma delete_hom_ok: "i < length (m_Homonyms w) \<Longrightarrow> word_ok w \<Longrightarrow> word_ok (delete_hom i w)"
  using filter_update_length [of i "m_Homonyms w" m_bDeleted "homonym_Delete (m_Homonyms w ! i)"]
  by (auto simp: word_ok_def delete_hom_def homonym_Delete_def split: if_splits)

lemma delete_hom_length [simp]: "length (m_Homonyms (delete_hom i w)) = length (m_Homonyms w)"
  by (simp add: delete_hom_def)

lemma deleted_fold:
  assumes "distinct D" "\<forall>i \<in> set D. i < length (m_Homonyms w) \<and> \<not> m_bDeleted (m_Homonyms w ! i)"
  shows "fold delete_hom D w =
    w\<lparr>m_DeletedHomCount := m_DeletedHomCount w + length D,
      m_Homonyms := map (\<lambda>i. if i \<in> set D then homonym_Delete (m_Homonyms w ! i) else m_Homonyms w ! i) [0..<length (m_Homonyms w)]\<rparr>"
  using assms
proof (induction D arbitrary: w)
  case Nil
  then show ?case by (simp add: map_nth)
next
  case (Cons i D)
  let ?w = "delete_hom i w"
  have w: "?w = w\<lparr>m_DeletedHomCount := m_DeletedHomCount w + 1, m_Homonyms := (m_Homonyms w)[i := homonym_Delete (m_Homonyms w ! i)]\<rparr>"
    using Cons.prems(2) by (simp add: delete_hom_def)
  have "\<forall>j \<in> set D. j < length (m_Homonyms ?w) \<and> \<not> m_bDeleted (m_Homonyms ?w ! j)"
    using Cons.prems by (auto simp: w nth_list_update)
  then have "fold delete_hom D ?w = ?w\<lparr>m_DeletedHomCount := m_DeletedHomCount ?w + length D,
      m_Homonyms := map (\<lambda>j. if j \<in> set D then homonym_Delete (m_Homonyms ?w ! j) else m_Homonyms ?w ! j) [0..<length (m_Homonyms ?w)]\<rparr>"
    using Cons.IH Cons.prems(1) by simp
  moreover have "map (\<lambda>j. if j \<in> set D then homonym_Delete (m_Homonyms ?w ! j) else m_Homonyms ?w ! j) [0..<length (m_Homonyms ?w)] =
      map (\<lambda>j. if j \<in> set (i # D) then homonym_Delete (m_Homonyms w ! j) else m_Homonyms w ! j) [0..<length (m_Homonyms w)]"
    using Cons.prems by (auto simp: w nth_list_update)
  ultimately show ?case by (simp add: w)
qed

lemma undeleted_fold:
  assumes "distinct D" "\<forall>i \<in> set D. i < length (m_Homonyms w) \<and> m_bDeleted (m_Homonyms w ! i)" "length D \<le> m_DeletedHomCount w"
  shows "fold undelete_hom D w =
    w\<lparr>m_DeletedHomCount := m_DeletedHomCount w - length D,
      m_Homonyms := map (\<lambda>i. if i \<in> set D then homonym_Undelete (m_Homonyms w ! i) else m_Homonyms w ! i) [0..<length (m_Homonyms w)]\<rparr>"
  using assms
proof (induction D arbitrary: w)
  case Nil
  then show ?case by (simp add: map_nth)
next
  case (Cons i D)
  let ?w = "undelete_hom i w"
  have w: "?w = w\<lparr>m_DeletedHomCount := m_DeletedHomCount w - 1, m_Homonyms := (m_Homonyms w)[i := homonym_Undelete (m_Homonyms w ! i)]\<rparr>"
    using Cons.prems(2,3) by (simp add: undelete_hom_def)
  have "\<forall>j \<in> set D. j < length (m_Homonyms ?w) \<and> m_bDeleted (m_Homonyms ?w ! j)"
    using Cons.prems by (auto simp: w nth_list_update)
  then have "fold undelete_hom D ?w = ?w\<lparr>m_DeletedHomCount := m_DeletedHomCount ?w - length D,
      m_Homonyms := map (\<lambda>j. if j \<in> set D then homonym_Undelete (m_Homonyms ?w ! j) else m_Homonyms ?w ! j) [0..<length (m_Homonyms ?w)]\<rparr>"
    using Cons.IH [of ?w] Cons.prems(1,3) by (simp add: w)
  moreover have "map (\<lambda>j. if j \<in> set D then homonym_Undelete (m_Homonyms ?w ! j) else m_Homonyms ?w ! j) [0..<length (m_Homonyms ?w)] =
      map (\<lambda>j. if j \<in> set (i # D) then homonym_Undelete (m_Homonyms w ! j) else m_Homonyms w ! j) [0..<length (m_Homonyms w)]"
    using Cons.prems by (auto simp: w nth_list_update)
  ultimately show ?case by (simp add: w)
qed

lemma undelete_deleted:
  assumes "distinct D" "\<forall>i \<in> set D. i < length (m_Homonyms w) \<and> \<not> m_bDeleted (m_Homonyms w ! i)"
  shows "fold undelete_hom D (fold delete_hom D w) = w"
proof -
  note d = deleted_fold [OF assms]
  let ?w = "fold delete_hom D w"
  have "fold undelete_hom D ?w = ?w\<lparr>m_DeletedHomCount := m_DeletedHomCount ?w - length D,
      m_Homonyms := map (\<lambda>i. if i \<in> set D then homonym_Undelete (m_Homonyms ?w ! i) else m_Homonyms ?w ! i) [0..<length (m_Homonyms ?w)]\<rparr>"
    using assms by (intro undeleted_fold) (auto simp: d homonym_Delete_def)
  moreover have "homonym_Undelete (homonym_Delete (m_Homonyms w ! i)) = m_Homonyms w ! i" if "i \<in> set D" for i
    using assms(2) that by (simp add: homonym_Undelete_def homonym_Delete_def)
  then have "map (\<lambda>i. if i \<in> set D then homonym_Undelete (m_Homonyms ?w ! i) else m_Homonyms ?w ! i) [0..<length (m_Homonyms ?w)] = m_Homonyms w"
    by (intro nth_equalityI) (auto simp: d)
  ultimately show ?thesis by (simp add: d)
qed

lemma delete_scan:
  fixes POS :: grams
  assumes "distinct xs" "\<forall>i \<in> set xs. i < length (m_Homonyms w)"
  defines "P \<equiv> \<lambda>w i. \<not> m_bDeleted (m_Homonyms w ! i) \<and> HasPOS (hg_All (hom_Grammems (m_Homonyms w ! i))) POS"
  shows "fold (\<lambda>i (w, ds). if P w i then (delete_hom i w, ds @ [i]) else (w, ds)) xs (w, ds) =
    (fold delete_hom (filter (P w) xs) w, ds @ filter (P w) xs)"
  using assms(1,2)
proof (induction xs arbitrary: w ds)
  case (Cons i xs)
  have "filter (P (delete_hom i w)) xs = filter (P w) xs"
    using Cons.prems by (intro filter_cong) (auto simp: P_def delete_hom_def nth_list_update)
  then show ?case using Cons.IH [of "delete_hom i w"] Cons.IH [of w] Cons.prems by simp
qed simp

text \<open>The homonyms to stay when a part of speech is removed, and the state without them.\<close>

definition without_POS :: "grams \<Rightarrow> 'g CWord \<Rightarrow> nat list" where
  "without_POS POS w = filter (\<lambda>i. \<not> HasPOS (hg_All (hom_Grammems (m_Homonyms w ! i))) POS) (IterHomonyms w)"

lemma DeleteHomonymWithPOS_eq:
  assumes "word_ok w"
  shows "DeleteHomonymWithPOS POS w =
    (if length (m_Homonyms w) = 1 \<or> without_POS POS w = [] then w
     else fold delete_hom (filter (\<lambda>i. HasPOS (hg_All (hom_Grammems (m_Homonyms w ! i))) POS) (IterHomonyms w)) w)"
proof -
  let ?D = "filter (\<lambda>i. HasPOS (hg_All (hom_Grammems (m_Homonyms w ! i))) POS) (IterHomonyms w)"
  have D: "?D = filter (\<lambda>i. \<not> m_bDeleted (m_Homonyms w ! i) \<and> HasPOS (hg_All (hom_Grammems (m_Homonyms w ! i))) POS) [0..<length (m_Homonyms w)]"
    by (simp add: IterHomonyms_def conj_commute)
  have in_D: "distinct ?D" "\<forall>i \<in> set ?D. i < length (m_Homonyms w) \<and> \<not> m_bDeleted (m_Homonyms w ! i)"
    by (auto simp: IterHomonyms_def)
  have "length ?D + length (without_POS POS w) = length (IterHomonyms w)"
    unfolding without_POS_def by (rule length_filter_neg)
  moreover have "GetRusHomonymsCount (fold delete_hom ?D w) = length (m_Homonyms w) - (m_DeletedHomCount w + length ?D)"
    by (simp add: deleted_fold [OF in_D] GetRusHomonymsCount_def)
  moreover have "GetRusHomonymsCount w = length (m_Homonyms w) - m_DeletedHomCount w" by (simp add: GetRusHomonymsCount_def)
  ultimately have "GetRusHomonymsCount (fold delete_hom ?D w) = length (without_POS POS w)"
    using count_ok [OF assms] by simp
  then have zero: "GetRusHomonymsCount (fold delete_hom ?D w) = 0 \<longleftrightarrow> without_POS POS w = []" by simp
  have "fold (\<lambda>i (w, ds). if \<not> m_bDeleted (m_Homonyms w ! i) \<and> HasPOS (hg_All (hom_Grammems (m_Homonyms w ! i))) POS
      then (delete_hom i w, ds @ [i]) else (w, ds)) [0..<length (m_Homonyms w)] (w, []) = (fold delete_hom ?D w, ?D)"
    using delete_scan [of "[0..<length (m_Homonyms w)]" w POS "[]"] unfolding D by simp
  then show ?thesis using zero undelete_deleted [OF in_D] by (simp add: DeleteHomonymWithPOS_def)
qed

lemma IterHomonyms_deleted:
  assumes "distinct D" "\<forall>i \<in> set D. i < length (m_Homonyms w) \<and> \<not> m_bDeleted (m_Homonyms w ! i)"
  shows "IterHomonyms (fold delete_hom D w) = filter (\<lambda>i. i \<notin> set D) (IterHomonyms w)"
  unfolding deleted_fold [OF assms] IterHomonyms_def filter_filter
  by (intro filter_cong) (auto simp: homonym_Delete_def)

lemma IterHomonyms_without_POS:
  assumes "word_ok w"
  shows "IterHomonyms (DeleteHomonymWithPOS POS w) =
    (if length (m_Homonyms w) = 1 \<or> without_POS POS w = [] then IterHomonyms w else without_POS POS w)"
proof -
  let ?P = "\<lambda>i. HasPOS (hg_All (hom_Grammems (m_Homonyms w ! i))) POS"
  have "IterHomonyms (fold delete_hom (filter ?P (IterHomonyms w)) w) = filter (\<lambda>i. i \<notin> set (filter ?P (IterHomonyms w))) (IterHomonyms w)"
    by (rule IterHomonyms_deleted) (auto simp: IterHomonyms_def)
  also have "\<dots> = without_POS POS w" unfolding without_POS_def by (intro filter_cong) auto
  finally show ?thesis using DeleteHomonymWithPOS_eq [OF assms] by simp
qed

section \<open>What words go through\<close>

inductive word_reach :: "'g CWord \<Rightarrow> bool" where
  start: "word_reach \<lparr>m_Homonyms = [], m_DeletedHomCount = 0, m_txt = t, m_bUp = up, is_initial = ini, m_bIgnoreUpperCase = ign\<rparr>"
| add: "word_reach w \<Longrightarrow> \<not> m_bDeleted h \<Longrightarrow> word_reach (fst (AddHomonym IsUpper h bAllowIgnore w))"
| delete: "word_reach w \<Longrightarrow> i < length (m_Homonyms w) \<Longrightarrow> word_reach (DeleteHomonym i w)"
| delete_pos: "word_reach w \<Longrightarrow> word_reach (DeleteHomonymWithPOS POS w)"
| delete_all: "word_reach w \<Longrightarrow> word_reach (DeleteAllHomonyms w)"
| put_aux: "word_reach w \<Longrightarrow> iH < length (m_Homonyms w) \<Longrightarrow> word_reach (fst (PutAuxArticle GetAuxKWType HasArticle iH d b w))"
| put_gzt: "word_reach w \<Longrightarrow> iH < length (m_Homonyms w) \<Longrightarrow> word_reach (fst (PutGztArticle GetType iH gzt b w))"
| names: "word_reach w \<Longrightarrow> word_reach (fst (word_InitNameType w))"

lemma AddRusHomonym_ok: "word_ok w \<Longrightarrow> \<not> m_bDeleted h \<Longrightarrow> word_ok (fst (AddRusHomonym h w))"
  by (simp add: AddRusHomonym_def word_ok_def)

lemma update_ok:
  assumes "word_ok w" "i < length (m_Homonyms w)" "m_bDeleted h = m_bDeleted (m_Homonyms w ! i)"
  shows "word_ok (w\<lparr>m_Homonyms := (m_Homonyms w)[i := h]\<rparr>)"
  using filter_update_length [of i "m_Homonyms w" m_bDeleted h] assms by (simp add: word_ok_def)

lemma fold_delete_ok:
  "word_ok w \<Longrightarrow> \<forall>i \<in> set is. i < length (m_Homonyms w) \<Longrightarrow> word_ok (fold delete_hom is w)"
  by (induction "is" arbitrary: w) (auto simp: delete_hom_ok)

lemma SetNameType_deleted [simp]: "m_bDeleted (SetNameType t h) = m_bDeleted h"
  by (simp add: SetNameType_def)

lemma homonym_InitNameType_deleted: "m_bDeleted (fst (homonym_InitNameType h)) = m_bDeleted h"
  by (simp add: homonym_InitNameType_def Let_def)

lemma word_InitNameType_ok:
  fixes w :: "'g CWord"
  shows "word_ok w \<Longrightarrow> word_ok (fst (word_InitNameType w))"
proof -
  let ?f = "\<lambda>i (w :: 'g CWord, bRes). if m_bDeleted (m_Homonyms w ! i) then (w, bRes)
      else let (h, named) = homonym_InitNameType (m_Homonyms w ! i);
               h' = (if is_initial w then SetNameType InitialPatronomyc (SetNameType InitialName h) else h)
        in (w\<lparr>m_Homonyms := (m_Homonyms w)[i := h']\<rparr>, bRes \<or> named \<or> is_initial w)"
  have step: "word_ok (fst (?f i (v, b))) \<and> length (m_Homonyms (fst (?f i (v, b)))) = length (m_Homonyms v)"
    if "word_ok v" "i < length (m_Homonyms v)" for v :: "'g CWord" and i b
    using that update_ok [OF that] homonym_InitNameType_deleted [of "m_Homonyms v ! i"]
    by (simp add: case_prod_beta Let_def)
  have "word_ok (fst (fold ?f is (v, b)))" if "word_ok v" "\<forall>i \<in> set is. i < length (m_Homonyms v)" for "is" v b
    using that
  proof (induction "is" arbitrary: v b)
    case (Cons i "is")
    then show ?case using step [of v i b] by (cases "?f i (v, b)") auto
  qed simp
  then show "word_ok w \<Longrightarrow> word_ok (fst (word_InitNameType w))" by (simp add: word_InitNameType_def)
qed

lemma PutAux_deleted [simp]: "m_bDeleted (homonym_PutAuxArticle i h) = m_bDeleted h"
  by (simp add: homonym_PutAuxArticle_def Let_def)

lemma PutGzt_deleted [simp]: "m_bDeleted (homonym_PutGztArticle GetType g h) = m_bDeleted h"
  by (simp add: homonym_PutGztArticle_def Let_def)

lemma Clone_not_deleted [simp]: "\<not> m_bDeleted (homonym_Clone h)"
  by (simp add: homonym_Clone_def)

lemma DeleteHomonymWithPOS_ok: "word_ok w \<Longrightarrow> word_ok (DeleteHomonymWithPOS POS w)"
  using DeleteHomonymWithPOS_eq [of w POS] fold_delete_ok [of w] by (auto simp: IterHomonyms_def)

lemma word_reach_ok: "word_reach w \<Longrightarrow> word_ok w"
proof (induction rule: word_reach.induct)
  case (add w h IsUpper bAllowIgnore)
  then show ?case by (simp add: AddHomonym_def AddRusHomonym_ok)
next
  case (put_aux w iH GetAuxKWType HasArticle d b)
  then show ?case by (simp add: PutAuxArticle_def Let_def update_ok AddRusHomonym_ok)
next
  case (put_gzt w iH GetType gzt b)
  then show ?case by (simp add: PutGztArticle_def Let_def update_ok AddRusHomonym_ok)
next
  case (delete_all w)
  then show ?case using fold_delete_ok [of w "[0..<length (m_Homonyms w)]"] by (simp add: DeleteAllHomonyms_def)
qed (simp_all add: word_ok_def [of "\<lparr>m_Homonyms = [], m_DeletedHomCount = 0, m_txt = _, m_bUp = _, is_initial = _, m_bIgnoreUpperCase = _\<rparr>"]
    DeleteHomonym_def delete_hom_ok DeleteHomonymWithPOS_ok word_InitNameType_ok)

text \<open>
  C34. Through whatever a word goes, the iteration over its homonyms returns the indices of exactly those that are not deleted, and
  their number is the size of the vector less the count of deleted ones, which does not underflow.
\<close>

theorem word_homonyms_invariant:
  assumes "word_reach w"
  shows "iter_from w (iter_begin w) = Some (filter (\<lambda>i. \<not> m_bDeleted (m_Homonyms w ! i)) [0..<length (m_Homonyms w)]) \<and>
    GetRusHomonymsCount w = length (IterHomonyms w) \<and> m_DeletedHomCount w \<le> length (m_Homonyms w)"
  using IterHomonyms_eq [of w] count_ok [OF word_reach_ok [OF assms]] word_reach_ok [OF assms]
  by (simp add: IterHomonyms_def word_ok_def)

definition sample_word :: "nat CWord" where
  "sample_word =
     fst (AddHomonym (\<lambda>_. True) (homonym_init [1]) False (fst (AddHomonym (\<lambda>_. True) (homonym_init [0]) False
       \<lparr>m_Homonyms = [], m_DeletedHomCount = 0, m_txt = [], m_bUp = False, is_initial = False, m_bIgnoreUpperCase = False\<rparr>)))"

lemma sample_word_reach: "word_reach sample_word"
  unfolding sample_word_def by (intro word_reach.add word_reach.start) (simp_all add: homonym_init_def)

theorem word_homonyms_invariant_witness:
  "GetRusHomonymsCount (DeleteHomonym 0 sample_word) = 1 \<and> IterHomonyms (DeleteHomonym 0 sample_word) = [1] \<and>
   iter_from (DeleteHomonym 0 sample_word) (iter_begin (DeleteHomonym 0 sample_word)) = Some [1]"
proof -
  have "length (m_Homonyms sample_word) = 2" by (simp add: sample_word_def AddHomonym_def AddRusHomonym_def)
  then have "word_reach (DeleteHomonym 0 sample_word)" by (intro word_reach.delete sample_word_reach) simp
  moreover have "IterHomonyms (DeleteHomonym 0 sample_word) = [1]"
    by (simp add: sample_word_def AddHomonym_def AddRusHomonym_def DeleteHomonym_def GetRusHomonymsCount_def delete_hom_def
        homonym_init_def homonym_Delete_def IterHomonyms_def)
  ultimately show ?thesis using word_homonyms_invariant [of "DeleteHomonym 0 sample_word"] by (simp add: IterHomonyms_def)
qed

lemma IterHomonyms_DeleteAll: "IterHomonyms (DeleteAllHomonyms w) = []"
proof -
  have "length (m_Homonyms (fold delete_hom is w)) = length (m_Homonyms w) \<and>
      (\<forall>i < length (m_Homonyms w). i \<in> set is \<or> m_bDeleted (m_Homonyms w ! i) \<longrightarrow>
         m_bDeleted (m_Homonyms (fold delete_hom is w) ! i))" for "is"
  proof (induction "is" arbitrary: w)
    case (Cons k ks)
    have "length (m_Homonyms (delete_hom k w)) = length (m_Homonyms w)"
      "i < length (m_Homonyms w) \<Longrightarrow> i = k \<or> m_bDeleted (m_Homonyms w ! i) \<Longrightarrow> m_bDeleted (m_Homonyms (delete_hom k w) ! i)" for i
      by (cases "i = k"; auto simp: delete_hom_def homonym_Delete_def)+
    then show ?case using Cons.IH [of "delete_hom k w"] by auto
  qed simp
  from this [of "[0..<length (m_Homonyms w)]"] show ?thesis
    by (auto simp: IterHomonyms_def DeleteAllHomonyms_def filter_empty_conv)
qed

text \<open>
  C35. Removing a part of speech from a word deletes exactly the homonyms that have it, unless the word has a single homonym or none
  would be left: then nothing is deleted. Neither this nor the deletion of a homonym by its number takes the last one from a
  word; \<^verbatim>\<open>DeleteAllHomonyms\<close>, which has no such guard, leaves none.
\<close>

theorem DeleteHomonymWithPOS_correct:
  assumes "word_reach w"
  shows "IterHomonyms (DeleteHomonymWithPOS POS w) =
      (let rest = filter (\<lambda>i. \<not> HasPOS (hg_All (hom_Grammems (m_Homonyms w ! i))) POS) (IterHomonyms w)
       in if length (m_Homonyms w) = 1 \<or> rest = [] then IterHomonyms w else rest) \<and>
    (IterHomonyms w \<noteq> [] \<longrightarrow> IterHomonyms (DeleteHomonymWithPOS POS w) \<noteq> [] \<and> IterHomonyms (DeleteHomonym i w) \<noteq> []) \<and>
    IterHomonyms (DeleteAllHomonyms w) = []"
proof -
  have ok: "word_ok w" using assms by (rule word_reach_ok)
  have "IterHomonyms (DeleteHomonym i w) \<noteq> []" if ne: "IterHomonyms w \<noteq> []"
  proof (cases "GetRusHomonymsCount w > 1")
    case True
    then have two: "length (IterHomonyms w) > 1" using count_ok [OF ok] by simp
    have "\<exists>j \<in> set (IterHomonyms w). j \<noteq> i"
    proof (rule ccontr)
      assume "\<not> (\<exists>j \<in> set (IterHomonyms w). j \<noteq> i)"
      then have "set (IterHomonyms w) \<subseteq> {i}" by auto
      moreover have "distinct (IterHomonyms w)" by (simp add: IterHomonyms_def)
      ultimately have "length (IterHomonyms w) \<le> 1"
        using card_mono [of "{i}" "set (IterHomonyms w)"] distinct_card [of "IterHomonyms w"] by simp
      then show False using two by simp
    qed
    then obtain j where "j < length (m_Homonyms w)" "\<not> m_bDeleted (m_Homonyms w ! j)" "j \<noteq> i" by (auto simp: IterHomonyms_def)
    then have "j \<in> set (IterHomonyms (delete_hom i w))" by (simp add: IterHomonyms_def delete_hom_def)
    then show ?thesis using True by (auto simp: DeleteHomonym_def)
  qed (use ne in \<open>simp add: DeleteHomonym_def\<close>)
  then show ?thesis using IterHomonyms_without_POS [OF ok, of POS] IterHomonyms_DeleteAll [of w] by (auto simp: without_POS_def Let_def)
qed

theorem DeleteHomonymWithPOS_correct_witness:
  "IterHomonyms (DeleteHomonymWithPOS 0 sample_word) = [0, 1]"
proof -
  have "IterHomonyms sample_word = [0, 1]"
    by (simp add: sample_word_def AddHomonym_def AddRusHomonym_def homonym_init_def IterHomonyms_def)
  moreover have "HasPOS g 0" for g by (simp add: HasPOS_def gram_Count_zero HasAll_def)
  ultimately show ?thesis using DeleteHomonymWithPOS_correct [OF sample_word_reach, of 0] by simp
qed

section \<open>Articles of a homonym\<close>

text \<open>
  A homonym has no main article of the gazetteer beside one of the auxiliary dictionary of keywords, and its articles of the
  gazetteer, the main one and the additional ones, are of one keyword type.
\<close>

definition articles_ok :: "('g \<Rightarrow> TKeyWordType) \<Rightarrow> 'g CHomonym \<Rightarrow> bool" where
  "articles_ok GetType h \<longleftrightarrow>
     (m_DicIndexes h KW_DICT \<noteq> - 1 \<longrightarrow> m_GztArticle h = None) \<and>
     list_all (\<lambda>e. GetType e = GetType (hd (m_ExtraGztArticles h))) (m_ExtraGztArticles h) \<and>
     (\<forall>g. m_GztArticle h = Some g \<longrightarrow> list_all (\<lambda>e. GetType e = GetType g) (m_ExtraGztArticles h))"

lemma articles_ok_Clone: "articles_ok GetType h \<Longrightarrow> articles_ok GetType (homonym_Clone h)"
  by (simp add: articles_ok_def homonym_Clone_def)

lemma articles_ok_PutAux: "articles_ok GetType h \<Longrightarrow> articles_ok GetType (homonym_PutAuxArticle i h)"
  by (auto simp: articles_ok_def homonym_PutAuxArticle_def Let_def)

lemma articles_ok_PutGzt: "articles_ok GetType h \<Longrightarrow> articles_ok GetType (homonym_PutGztArticle GetType g h)"
proof (cases "m_ExtraGztArticles h \<noteq> [] \<and> GetType g \<noteq> GetType (hd (m_ExtraGztArticles h))")
  case True
  then show ?thesis by (simp add: articles_ok_def homonym_PutGztArticle_def Let_def)
next
  case False
  assume "articles_ok GetType h"
  then have "\<forall>e \<in> set (m_ExtraGztArticles h). GetType e = GetType (hd (m_ExtraGztArticles h))"
    unfolding articles_ok_def list_all_iff by blast
  then have "list_all (\<lambda>e. GetType e = GetType g) (m_ExtraGztArticles h)"
    using False by (cases "m_ExtraGztArticles h") (auto simp: list_all_iff)
  moreover have "homonym_PutGztArticle GetType g h =
      h\<lparr>m_GztArticle := Some g, m_DicIndexes := (m_DicIndexes h)(KW_DICT := - 1)\<rparr>"
    using False by (auto simp: homonym_PutGztArticle_def Let_def)
  ultimately show ?thesis using \<open>articles_ok GetType h\<close> by (simp add: articles_ok_def)
qed

lemma articles_ok_extra:
  assumes "articles_ok GetType h" "m_GztArticle h = Some g" "GetType g = GetType e"
  shows "articles_ok GetType (h\<lparr>m_ExtraGztArticles := List.insert e (m_ExtraGztArticles h)\<rparr>)"
  using assms by (auto simp: articles_ok_def list_all_iff List.insert_def)

lemma list_all_update: "list_all P xs \<Longrightarrow> P x \<Longrightarrow> list_all P (xs[i := x])"
  by (simp add: list_all_length nth_list_update all_conj_distrib) (metis nth_list_update_eq nth_list_update_neq)

lemma update_articles:
  "list_all (articles_ok T) (m_Homonyms w) \<Longrightarrow> articles_ok T h \<Longrightarrow> list_all (articles_ok T) (m_Homonyms (w\<lparr>m_Homonyms := (m_Homonyms w)[i := h]\<rparr>))"
  by (simp add: list_all_update)

lemma append_articles:
  "list_all (articles_ok T) (m_Homonyms w) \<Longrightarrow> articles_ok T h \<Longrightarrow> list_all (articles_ok T) (m_Homonyms (fst (AddRusHomonym h w)))"
  by (simp add: AddRusHomonym_def)

text \<open>
  C36. Putting an article on a homonym of a word gives the index of a homonym that has the article, which is a copy where the
  homonym is taken; and it keeps every homonym of the word from having a \<^emph>\<open>main\<close> article of the gazetteer
  (\<^verbatim>\<open>m_GztArticle\<close>) beside one of the auxiliary dictionary of keywords, and from having articles of two keyword types in the
  gazetteer. Additional articles of the gazetteer (\<^verbatim>\<open>m_ExtraGztArticles\<close>) can stand beside an article of the dictionary, which
  the comment of \<^verbatim>\<open>PutAuxArticle\<close> excludes (lemma \<open>PutAuxArticle_keeps_extra\<close> below).
\<close>

theorem PutArticle_correct:
  assumes "list_all (articles_ok GetType) (m_Homonyms w)" "iH < length (m_Homonyms w)"
    and aux: "PutAuxArticle GetAuxKWType HasArticle iH d b w = (w1, i1)"
    and gzt: "PutGztArticle GetType iH g b w = (w2, i2)"
  shows "list_all (articles_ok GetType) (m_Homonyms w1) \<and> list_all (articles_ok GetType) (m_Homonyms w2) \<and>
    0 \<le> i1 \<and> nat i1 < length (m_Homonyms w1) \<and> 0 \<le> i2 \<and> nat i2 < length (m_Homonyms w2) \<and>
    (m_DicIndexes (m_Homonyms w1 ! nat i1) (m_DicType d) = m_iArt d \<or>
     d \<in> set (m_KWtype2Articles (m_Homonyms w1 ! nat i1) (GetAuxKWType d))) \<and>
    (m_GztArticle (m_Homonyms w2 ! nat i2) = Some g \<or> g \<in> set (m_ExtraGztArticles (m_Homonyms w2 ! nat i2)))"
proof -
  let ?h = "m_Homonyms w ! iH"
  have h: "articles_ok GetType ?h" using assms(1,2) by (simp add: list_all_length)
  have put_aux: "m_DicIndexes (homonym_PutAuxArticle d h) (m_DicType d) = m_iArt d" for h :: "'a CHomonym"
    by (simp add: homonym_PutAuxArticle_def Let_def)
  have put_gzt: "m_GztArticle (homonym_PutGztArticle GetType g h) = Some g" for h by (simp add: homonym_PutGztArticle_def Let_def)
  have kw: "articles_ok GetType (?h\<lparr>m_KWtype2Articles := k\<rparr>)" for k using h by (simp add: articles_ok_def)
  have "list_all (articles_ok GetType) (m_Homonyms w1) \<and> 0 \<le> i1 \<and> nat i1 < length (m_Homonyms w1) \<and>
      (m_DicIndexes (m_Homonyms w1 ! nat i1) (m_DicType d) = m_iArt d \<or>
       d \<in> set (m_KWtype2Articles (m_Homonyms w1 ! nat i1) (GetAuxKWType d)))"
    using aux assms(1,2) update_articles [OF assms(1) kw, of iH] update_articles [OF assms(1) articles_ok_PutAux [OF h], of iH d]
      append_articles [OF assms(1) articles_ok_PutAux [OF articles_ok_Clone [OF h]], of d] put_aux
    by (auto simp: PutAuxArticle_def Let_def AddRusHomonym_def split: if_splits)
  moreover have "list_all (articles_ok GetType) (m_Homonyms w2) \<and> 0 \<le> i2 \<and> nat i2 < length (m_Homonyms w2) \<and>
      (m_GztArticle (m_Homonyms w2 ! nat i2) = Some g \<or> g \<in> set (m_ExtraGztArticles (m_Homonyms w2 ! nat i2)))"
  proof (cases "homonym_HasAuxArticle KW_DICT ?h \<or> b \<or> map_option GetType (m_GztArticle ?h) \<noteq> Some (GetType g) \<or> \<not> HasGztArticle ?h")
    case True
    then show ?thesis
      using gzt assms(2) update_articles [OF assms(1) articles_ok_PutGzt [OF h], of iH g]
        append_articles [OF assms(1) articles_ok_PutGzt [OF articles_ok_Clone [OF h]], of g] put_gzt
      by (auto simp: PutGztArticle_def Let_def AddRusHomonym_def split: if_splits)
  next
    case False
    then obtain g0 where "m_GztArticle ?h = Some g0" "GetType g0 = GetType g" by auto
    then show ?thesis
      using False gzt assms(2) update_articles [OF assms(1) articles_ok_extra [OF h], of g0 g iH]
      by (auto simp: PutGztArticle_def Let_def)
  qed
  ultimately show ?thesis by blast
qed

theorem PutArticle_correct_witness:
  "m_GztArticle (m_Homonyms (fst (PutGztArticle (\<lambda>_. None) 0 7 False sample_word)) ! 0) = Some 7"
proof -
  have h: "m_Homonyms sample_word = [homonym_init [0], homonym_init [1]]"
    by (simp add: sample_word_def AddHomonym_def AddRusHomonym_def)
  have "snd (PutGztArticle (\<lambda>_. None) 0 7 False sample_word) = 0"
    by (simp add: PutGztArticle_def h homonym_init_def homonym_HasAuxArticle_def HasGztArticle_def)
  moreover have "m_ExtraGztArticles (m_Homonyms (fst (PutGztArticle (\<lambda>_. None) 0 7 False sample_word)) ! 0) = []"
    by (simp add: PutGztArticle_def h homonym_init_def homonym_HasAuxArticle_def HasGztArticle_def homonym_PutGztArticle_def)
  moreover have "list_all (articles_ok (\<lambda>_. None)) (m_Homonyms sample_word)"
    by (simp add: h articles_ok_def homonym_init_def)
  ultimately show ?thesis
    using PutArticle_correct [of "\<lambda>_. None" sample_word 0 "\<lambda>_. None" "\<lambda>_ _. False" "\<lparr>m_DicType = CONJ_DICT, m_iArt = 0\<rparr>" False _ _ 7,
        OF _ _ prod.collapse [symmetric] prod.collapse [symmetric]] by (simp add: h)
qed

text \<open>An article of the auxiliary dictionary removes the main article of the gazetteer, but not the additional ones.\<close>

lemma PutAuxArticle_keeps_extra:
  "m_GztArticle (homonym_PutAuxArticle \<lparr>m_DicType = KW_DICT, m_iArt = i\<rparr> h) = None"
  "m_ExtraGztArticles (homonym_PutAuxArticle \<lparr>m_DicType = KW_DICT, m_iArt = i\<rparr> h) = m_ExtraGztArticles h"
  by (simp_all add: homonym_PutAuxArticle_def)

end
