(* ===== verification/ReduceConstraints.thy ===== *)
theory ReduceConstraints
  imports HomonymWord OutCount GramFeatures
begin

text \<open>
  The checks that the fact extractor makes when the parser reduces a rule
  (\<^verbatim>\<open>FactExtract/Parser/afdocparser/rusie/tomitaitemsholder.h\<close>, \<^verbatim>\<open>tomitaitemsholder.cpp\<close>): agreement of the children,
  grammemes, keyword types, word forms and the rest, for each alternative of the constraints of a rule in turn. A group is
  one of \<open>WeightGroup\<close> over words with, beside it, what the checks read of it. What the dictionaries, the gazetteer of places
  and the regular expressions answer is a field of the record of the items holder. A check returns the constraints, which it
  may have changed, and whether it holds; \<open>Inl\<close> is an exception or a failed assertion.
\<close>

section \<open>Words, groups and constraints\<close>

text \<open>
  A word of the text: its homonyms, the source words it stands for, its quotes, and the name of a person that its first homonym
  was made from, as the source words of each part that is valid.
\<close>

record 'g CTextWord =
  tw_Word :: "'g CWord"
  tw_SourcePair :: CWordsPair
  HasOpenQuote :: bool
  HasCloseQuote :: bool
  IsMultiWord :: bool
  m_NameMembers :: "(ENameType \<Rightarrow> CWordsPair option) option"

text \<open>A fact is the list of the values of the fields of its type.\<close>

type_synonym CFactFields = "CWordsPair option list"

record 'g CReduceGroup =
  rg_Group :: "'g CTextWord CGroup"
  rg_Grammems :: THomonymGrammems
  rg_ChildHomonyms :: "32 word list"
  rg_IsFactGroup :: bool
  rg_Facts :: "CFactFields list"

definition rg_MainWord :: "'g CReduceGroup \<Rightarrow> 'g CTextWord" where
  "rg_MainWord p = GetMainWord (rg_Group p)"

definition rg_MainFirst :: "'g CReduceGroup \<Rightarrow> int" where
  "rg_MainFirst p = FirstWord (fst (GetMainPrimitiveGroup (rg_Group p)))"

definition GetMainHomIDs :: "'g CReduceGroup \<Rightarrow> 32 word" where
  "GetMainHomIDs p = rg_ChildHomonyms p ! nat (rg_MainFirst p - FirstWord (group_Pair (rg_Group p)))"

record SKWSet =
  kw_bNegative :: bool
  m_bApplyToTheFirstWord :: bool
  m_KWset :: "SArtPointer list"

record SGrammemUnion =
  m_GramUnion :: "TGramBitSet list"
  m_NegGramUnion :: "TGramBitSet list"
  m_CheckFormGrammem :: "bool list"

text \<open>The constraints of an alternative; what only the interpretation of facts and the weights read of them is left out.\<close>

record SRuleConstraints = SRuleExternalInformationAndAgreements +
  m_RulesAgrs :: "SAgr list"
  m_KWSets :: "(nat \<times> SKWSet) list"
  m_WFRegExps :: "(nat \<times> CWordFormRegExp) list"
  m_RuleGrammemUnion :: "(nat \<times> SGrammemUnion) list"
  m_FirstWordConstraints :: "(nat \<times> bool) list"

record 'g SReduceConstraints =
  c_Agreements :: "SRuleConstraints list"
  c_Children :: "'g CReduceGroup list"
  TrimTree :: "nat list option"
  LeftPriorityOrder :: "CWordsPair list option"
  c_Grammems :: THomonymGrammems
  c_ChildHomonyms :: "32 word list"
  c_SymbolNo :: nat
  FirstItemIndex :: nat
  MainItemIndex :: nat
  ChainSize :: nat
  CurrentConstraintIndex :: nat

definition constraints_init :: "SRuleConstraints list \<Rightarrow> 'g CReduceGroup list \<Rightarrow> nat \<Rightarrow> nat \<Rightarrow> nat \<Rightarrow> nat \<Rightarrow> 'g SReduceConstraints" where
  "constraints_init agreements children symbolNo firstItem mainItem chainSize =
     \<lparr>c_Agreements = agreements, c_Children = children, TrimTree = None, LeftPriorityOrder = None, c_Grammems = hg_empty,
      c_ChildHomonyms = replicate chainSize 0, c_SymbolNo = symbolNo, FirstItemIndex = firstItem, MainItemIndex = mainItem,
      ChainSize = chainSize, CurrentConstraintIndex = 0\<rparr>"

definition constr_Get :: "'g SReduceConstraints \<Rightarrow> SRuleConstraints" where
  "constr_Get c = c_Agreements c ! CurrentConstraintIndex c"

definition GetChildGroup :: "'g SReduceConstraints \<Rightarrow> nat \<Rightarrow> 'g CReduceGroup" where
  "GetChildGroup c i = c_Children c ! i"

text \<open>
  The items holder, with the words of the sentence and of the chain, and what it asks: \<open>re_Matches\<close> of the regular
  expressions, \<open>kw_HasArticle\<close> of the dictionaries for keyword articles, \<open>geo_Impl\<close> and \<open>IsGeoArticle\<close> of the gazetteer.
\<close>

record 'g CTomitaItemsHolder =
  h_Words :: "int \<Rightarrow> 'g CTextWord"
  h_ChainWords :: "int \<Rightarrow> 'g CTextWord"
  h_CurStartWord :: nat
  re_Matches :: "string \<Rightarrow> Wtroka \<Rightarrow> bool"
  kw_HasArticle :: "'g CHomonym \<Rightarrow> SArtPointer \<Rightarrow> bool"
  geo_Impl :: "('g \<Rightarrow> 'g \<Rightarrow> bool) option"
  IsGeoArticle :: "'g \<Rightarrow> bool"
  char_IsUpper :: "nat \<Rightarrow> bool"
  char_IsDash :: "nat \<Rightarrow> bool"

text \<open>The grammemes that a grammar stores as two 64-bit chunks.\<close>

definition to_grams :: "TGramBitSet \<Rightarrow> grams" where
  "to_grams g = word_of_nat (foldr (\<lambda>chunk n. chunk + 2 ^ 64 * n) g 0)"

section \<open>Grammemes of an item\<close>

definition GetFormsWithGrammems :: "grams \<Rightarrow> TGrammarBunch \<Rightarrow> TGrammarBunch \<Rightarrow> TGrammarBunch" where
  "GetFormsWithGrammems g forms res = fold (\<lambda>f res. if HasAll g f \<or> HasAll f g then bunch_insert f res else res) forms res"

definition AssignOutputGrammems :: "THomonymGrammems \<Rightarrow> grams \<Rightarrow> THomonymGrammems" where
  "AssignOutputGrammems h out = (if out \<noteq> 0 then hg_Reset_gram (ReplaceFeatures DefaultFeatures (hg_All h) out) h else h)"

text \<open>
  \<^verbatim>\<open>CheckItemGrammems\<close>: the loop over the forms stops at the first one that is not as wanted.
\<close>

definition CheckItemGrammems :: "grams \<Rightarrow> bool \<Rightarrow> THomonymGrammems \<Rightarrow> THomonymGrammems \<times> bool" where
  "CheckItemGrammems g allow h =
     (if hg_HasForms h then
        (case List.find (\<lambda>f. HasAll f g \<noteq> allow) (hg_Forms h) of
           None \<Rightarrow> (h, True)
         | Some _ \<Rightarrow>
             if \<not> allow then (h, False)
             else let tmp = fold (\<lambda>f tmp. if HasAll f g = allow then bunch_insert f tmp else tmp) (hg_Forms h) []
               in if tmp \<noteq> [] then (hg_Reset_forms tmp h, True) else (h, False))
      else if hg_All h \<noteq> 0 \<and> hg_HasAll h g = allow then
        (let h = (if allow then AssignOutputGrammems h g else h) in (h, \<not> hg_Empty h))
      else (h, \<not> allow))"

definition CheckItemPositiveNegativeGrammems :: "grams \<Rightarrow> grams \<Rightarrow> THomonymGrammems \<Rightarrow> THomonymGrammems \<times> bool" where
  "CheckItemPositiveNegativeGrammems Posit Neg h =
     (let (h, ok) = (if Neg \<noteq> 0 then CheckItemGrammems Neg False h else (h, True))
      in if \<not> ok then (h, False)
         else let (h, ok) = (if Posit \<noteq> 0 then CheckItemGrammems Posit True h else (h, True)) in (h, ok))"

definition CheckItemPositiveNegativeUnitedGrammems :: "grams \<Rightarrow> grams \<Rightarrow> nat \<Rightarrow> 'g CReduceGroup list \<Rightarrow> bool" where
  "CheckItemPositiveNegativeUnitedGrammems Posit Neg iChildNum children =
     (let srcGram = rg_Grammems (children ! iChildNum)
      in if Neg \<noteq> 0 \<and> hg_HasAll srcGram Neg then False else hg_HasAll srcGram Posit)"

text \<open>One child of \<^verbatim>\<open>ReduceCheckGrammemUnion\<close>, then all of them; the grammemes of the children are a list.\<close>

definition grammem_union_child :: "'g SReduceConstraints \<Rightarrow> nat \<Rightarrow> SGrammemUnion \<Rightarrow> THomonymGrammems \<Rightarrow> THomonymGrammems" where
  "grammem_union_child c iChild u P =
     fold (\<lambda>i ResInterp.
         let pos = to_grams (m_GramUnion u ! i); neg = to_grams (m_NegGramUnion u ! i)
         in if m_CheckFormGrammem u ! i then
              (case CheckItemPositiveNegativeGrammems pos neg P of (g, ok) \<Rightarrow> if ok then hg_join ResInterp g else ResInterp)
            else if CheckItemPositiveNegativeUnitedGrammems pos neg iChild (c_Children c) then hg_join ResInterp P
            else ResInterp)
       [0..<length (m_GramUnion u)] hg_empty"

fun grammem_unions ::
  "'g SReduceConstraints \<Rightarrow> (nat \<times> SGrammemUnion) list \<Rightarrow> THomonymGrammems list \<Rightarrow> THomonymGrammems list \<times> bool" where
  "grammem_unions c [] Interps = (Interps, True)"
| "grammem_unions c ((iChild, u) # us) Interps =
     (if m_GramUnion u = [] then grammem_unions c us Interps
      else let ResInterp = grammem_union_child c iChild u (Interps ! iChild)
        in if hg_Empty ResInterp then (Interps, False) else grammem_unions c us (Interps[iChild := ResInterp]))"

definition ReduceCheckGrammemUnion :: "'g SReduceConstraints \<Rightarrow> THomonymGrammems list \<Rightarrow> THomonymGrammems list \<times> bool" where
  "ReduceCheckGrammemUnion c Interps = grammem_unions c (m_RuleGrammemUnion (constr_Get c)) Interps"

section \<open>Homonyms of the children\<close>

text \<open>The loop of \<^verbatim>\<open>HasOnlyOneHomId\<close> goes to the size of the mask in bytes.\<close>

definition HasOnlyOneHomId :: "32 word \<Rightarrow> bool" where
  "HasOnlyOneHomId iHomIDs =
     (if iHomIDs = 0 then False
      else push_bit (case List.find (\<lambda>i. TestMask iHomIDs i) [0..<4] of Some i \<Rightarrow> i | None \<Rightarrow> 4) 1 = iHomIDs)"

definition hom_agrees :: "THomonymGrammems \<Rightarrow> THomonymGrammems \<Rightarrow> bool" where
  "hom_agrees interp h =
     (if hg_HasForms interp then list_ex (\<lambda>f. hg_HasFormWith f h) (hg_Forms interp)
      else if hg_All interp \<noteq> 0 then hg_HasAny h (hg_All interp)
      else True)"

definition GetNewHomIDsByGrammems :: "THomonymGrammems \<Rightarrow> 'g CWord \<Rightarrow> 32 word \<Rightarrow> 32 word" where
  "GetNewHomIDsByGrammems interp w iOldHomIDs =
     fold (\<lambda>i res.
         if \<not> TestMask iOldHomIDs i then res
         else if hom_agrees interp (hom_Grammems (m_Homonyms w ! i)) then res OR push_bit i 1
         else res) (IterHomonyms w) 0"

definition hom_index :: "'g CTomitaItemsHolder \<Rightarrow> 'g SReduceConstraints \<Rightarrow> int \<Rightarrow> nat" where
  "hom_index H c iWord = nat (iWord - int (FirstItemIndex c + h_CurStartWord H))"

definition index_ok :: "'g CTomitaItemsHolder \<Rightarrow> 'g SReduceConstraints \<Rightarrow> int \<Rightarrow> bool" where
  "index_ok H c iWord \<longleftrightarrow> iWord \<ge> int (FirstItemIndex c + h_CurStartWord H) \<and> hom_index H c iWord < length (c_ChildHomonyms c)"

definition AdjustChildHomonyms :: "'g CTomitaItemsHolder \<Rightarrow> THomonymGrammems list \<Rightarrow> 'g SReduceConstraints \<Rightarrow> 'g SReduceConstraints" where
  "AdjustChildHomonyms H Interps c =
     fold (\<lambda>i c.
         let p = GetChildGroup c i; iHomIDs = GetMainHomIDs p
         in if hg_Empty (Interps ! i) \<or> Interps ! i = rg_Grammems p \<or> HasOnlyOneHomId iHomIDs then c
            else let iNewHomIDs = GetNewHomIDsByGrammems (Interps ! i) (tw_Word (rg_MainWord p)) iHomIDs
              in c\<lparr>c_ChildHomonyms := (c_ChildHomonyms c)[hom_index H c (rg_MainFirst p) := iNewHomIDs AND iHomIDs]\<rparr>)
       [0..<length (c_Children c)] c"

section \<open>Agreement\<close>

definition fio_side :: "(ENameType \<Rightarrow> CWordsPair option) \<Rightarrow> ENameType \<Rightarrow> bool" where
  "fio_side members part = FromLeft (the (members part)) (the (members Surname))"

text \<open>\<^verbatim>\<open>CheckFioAgreement\<close>; only the surname of the second name is tested.\<close>

definition CheckFioAgreement :: "'g CTextWord \<Rightarrow> 'g CTextWord \<Rightarrow> bool" where
  "CheckFioAgreement W1 W2 =
     (if IsMultiWord W1 \<noteq> IsMultiWord W2 then False
      else if \<not> IsMultiWord W1 \<and> \<not> IsMultiWord W2 then True
      else if GetRusHomonymsCount (tw_Word W1) = 0 \<or> GetRusHomonymsCount (tw_Word W2) = 0 then True
      else case (m_NameMembers W1, m_NameMembers W2) of
        (Some WS1, Some WS2) \<Rightarrow>
          if WS2 Surname = None \<or> WS2 Surname = None then True
          else if WS1 InitialName \<noteq> None \<and> WS2 InitialName \<noteq> None then fio_side WS1 InitialName = fio_side WS2 InitialName
          else if WS1 FirstName \<noteq> None \<and> WS2 FirstName \<noteq> None then fio_side WS1 FirstName = fio_side WS2 FirstName
          else True
      | _ \<Rightarrow> True)"

definition GetFirstAgrWord :: "'g CTomitaItemsHolder \<Rightarrow> 'g SReduceConstraints \<Rightarrow> SAgr \<Rightarrow> 'g CTextWord" where
  "GetFirstAgrWord H c agr = h_ChainWords H (FirstWord (group_Pair (rg_Group (GetChildGroup c (nat (hd (m_AgreeItems agr)))))))"

definition GetLastAgrWord :: "'g CTomitaItemsHolder \<Rightarrow> 'g SReduceConstraints \<Rightarrow> SAgr \<Rightarrow> 'g CTextWord" where
  "GetLastAgrWord H c agr = h_ChainWords H (LastWord (group_Pair (rg_Group (GetChildGroup c (nat (last (m_AgreeItems agr)))))))"

definition ReduceCheckQuotedPositions :: "'g CTomitaItemsHolder \<Rightarrow> 'g SReduceConstraints \<Rightarrow> SAgr \<Rightarrow> bool" where
  "ReduceCheckQuotedPositions H c agr =
     (if c_Children c = [] then True
      else case e_AgrProcedure agr of
        CheckQuoted \<Rightarrow>
          (HasOpenQuote (GetFirstAgrWord H c agr) \<and> HasCloseQuote (GetLastAgrWord H c agr)) \<noteq> m_bNegativeAgreement agr
      | CheckLQuoted \<Rightarrow> HasOpenQuote (GetFirstAgrWord H c agr) \<noteq> m_bNegativeAgreement agr
      | CheckRQuoted \<Rightarrow> HasCloseQuote (GetLastAgrWord H c agr) \<noteq> m_bNegativeAgreement agr
      | _ \<Rightarrow> True)"

text \<open>The grammemes of all homonyms of a word are added to those of its group.\<close>

definition join_homonyms :: "'g CWord \<Rightarrow> THomonymGrammems \<Rightarrow> THomonymGrammems" where
  "join_homonyms w ancode = fold (\<lambda>i ancode. hg_join ancode (hom_Grammems (m_Homonyms w ! i))) (IterHomonyms w) ancode"

text \<open>
  The agreement of two children whose words have grammemes: whether they agree, and their grammemes then. In the first two
  cases of \<^verbatim>\<open>GleicheAndRestoreForms\<close> the child with forms comes first whatever its number.
\<close>

definition agree_forms ::
  "ECoordFunc \<Rightarrow> THomonymGrammems \<Rightarrow> THomonymGrammems \<Rightarrow> THomonymGrammems \<Rightarrow> THomonymGrammems
     \<Rightarrow> bool \<times> THomonymGrammems \<times> THomonymGrammems" where
  "agree_forms proc ancode1 ancode2 Interp1 Interp2 =
     (if \<not> hg_HasForms ancode1 \<and> \<not> hg_HasForms ancode2 then
        (let gUnion = GleicheGrammems_single (hg_All Interp1) (hg_All Interp2) (GetGleicheFunc proc)
         in (gUnion \<noteq> 0, AssignOutputGrammems Interp1 gUnion, AssignOutputGrammems Interp2 gUnion))
      else
        (let (gUnion, interp_ancodes1, interp_ancodes2) =
               (if \<not> hg_HasForms ancode1 then
                  (case GleicheAndRestoreForms (hg_Forms ancode2) (hg_All Interp1) [] [] proc of (u, r2, r1) \<Rightarrow> (u, r1, r2))
                else if \<not> hg_HasForms ancode2 then GleicheAndRestoreForms (hg_Forms ancode1) (hg_All Interp2) [] [] proc
                else GleicheForms (hg_Forms ancode1) (hg_Forms ancode2) [] [] proc)
         in (gUnion \<noteq> 0, hg_Reset_forms interp_ancodes1 Interp1, hg_Reset_forms interp_ancodes2 Interp2)))"

definition agree_children ::
  "'g SReduceConstraints \<Rightarrow> SAgr \<Rightarrow> nat \<Rightarrow> nat \<Rightarrow> THomonymGrammems list \<Rightarrow> THomonymGrammems list option" where
  "agree_children c agr i1 i2 Interps =
     (let w1 = tw_Word (rg_MainWord (GetChildGroup c i1)); w2 = tw_Word (rg_MainWord (GetChildGroup c i2));
          Interp1 = Interps ! i1; Interp2 = Interps ! i2
      in if (word_HasUnknownPOS w1 \<and> hg_Empty Interp1) \<or> (word_HasUnknownPOS w2 \<and> hg_Empty Interp2) then Some Interps
         else let ancode1 = (if m_bNegativeAgreement agr then join_homonyms w1 Interp1 else Interp1);
                  ancode2 = (if m_bNegativeAgreement agr then join_homonyms w2 Interp2 else Interp2);
                  (agreed, new1, new2) = agree_forms (e_AgrProcedure agr) ancode1 ancode2 Interp1 Interp2
           in if agreed = m_bNegativeAgreement agr then None
              else if agreed then Some (Interps[i1 := new1, i2 := new2])
              else Some Interps)"

text \<open>One agreement of a rule; \<open>None\<close> when it fails. The grammemes of the children are a list.\<close>

definition check_agreement ::
  "'g CTomitaItemsHolder \<Rightarrow> 'g SReduceConstraints \<Rightarrow> SAgr \<Rightarrow> THomonymGrammems list \<Rightarrow> THomonymGrammems list option" where
  "check_agreement H c agr Interps =
     (if e_AgrProcedure agr = GeoAgr then Some Interps
      else if length (m_AgreeItems agr) = 1 then
        (if e_AgrProcedure agr \<noteq> CoordFuncCount then
           (if ReduceCheckQuotedPositions H c agr then Some Interps else None)
         else
           (let i = nat (m_AgreeItems agr ! 0);
                (p, ok) = CheckItemPositiveNegativeGrammems (to_grams (agr_Grammems agr)) (to_grams (agr_NegativeGrammems agr)) (Interps ! i)
            in if ok then Some (Interps[i := p]) else None))
      else
        (let i1 = nat (m_AgreeItems agr ! 0); i2 = nat (m_AgreeItems agr ! 1);
             w1 = rg_MainWord (GetChildGroup c i1); w2 = rg_MainWord (GetChildGroup c i2)
         in if e_AgrProcedure agr = FioAgr then (if CheckFioAgreement w1 w2 then Some Interps else None)
            else if (e_AgrProcedure agr = SubjVerb \<or> e_AgrProcedure agr = GendreNumberCase) \<and> HasMorphNoun (tw_Word w2)
              then agree_children c agr i2 i1 Interps
            else agree_children c agr i1 i2 Interps))"

fun check_agreements ::
  "'g CTomitaItemsHolder \<Rightarrow> 'g SReduceConstraints \<Rightarrow> SAgr list \<Rightarrow> THomonymGrammems list \<Rightarrow> THomonymGrammems list option" where
  "check_agreements H c [] Interps = Some Interps"
| "check_agreements H c (agr # agrs) Interps =
     (case check_agreement H c agr Interps of None \<Rightarrow> None | Some Interps \<Rightarrow> check_agreements H c agrs Interps)"

definition ReduceCheckGroupAgreement :: "'g CTomitaItemsHolder \<Rightarrow> 'g SReduceConstraints \<Rightarrow> 'g SReduceConstraints \<times> bool" where
  "ReduceCheckGroupAgreement H c =
     (let c = c\<lparr>c_Grammems := hg_Reset (c_Grammems c)\<rparr>
      in case check_agreements H c (m_RulesAgrs (constr_Get c)) (map rg_Grammems (c_Children c)) of
           None \<Rightarrow> (c, False)
         | Some Interps \<Rightarrow>
             let (Interps, ok) = ReduceCheckGrammemUnion c Interps
             in if \<not> ok then (c, False)
                else let c = c\<lparr>c_Grammems := Interps ! MainItemIndex c\<rparr> in (AdjustChildHomonyms H Interps c, True))"

section \<open>The other checks\<close>

definition ReduceCheckOutputGrammems :: "'g SReduceConstraints \<Rightarrow> 'g SReduceConstraints \<times> bool" where
  "ReduceCheckOutputGrammems c =
     (let out = to_grams (m_OutGrammems (m_ExtraRuleInfo (constr_Get c)))
      in (if out \<noteq> 0 then c\<lparr>c_Grammems := AssignOutputGrammems (c_Grammems c) out\<rparr> else c, True))"

definition ReduceCheckOutputGroupSize :: "'g SReduceConstraints \<Rightarrow> bool" where
  "ReduceCheckOutputGroupSize c \<longleftrightarrow> ChainSize c \<le> m_OutCount (m_ExtraRuleInfo (constr_Get c))"

text \<open>The word that a keyword set is about, with its number in the chain and the mask of its homonyms.\<close>

definition kw_word :: "SKWSet \<Rightarrow> 'g CReduceGroup \<Rightarrow> string + 'g CTextWord \<times> int \<times> 32 word" where
  "kw_word s p =
     (if m_bApplyToTheFirstWord s \<and> rg_IsFactGroup p then
        (case GetFirstWord (rg_Group p) of
           Inl e \<Rightarrow> Inl e
         | Inr w \<Rightarrow> Inr (w, FirstWord (group_Pair (rg_Group p)), rg_ChildHomonyms p ! 0))
      else Inr (rg_MainWord p, rg_MainFirst p, GetMainHomIDs p))"

definition word_HasArticle :: "'g CTomitaItemsHolder \<Rightarrow> SArtPointer \<Rightarrow> 'g CWord \<Rightarrow> bool" where
  "word_HasArticle H artP w \<longleftrightarrow> first_homonym (\<lambda>h. kw_HasArticle H h artP) w \<noteq> - 1"

text \<open>The forms left when homonyms are dropped: those of a dropped homonym go unless a homonym that stays has them.\<close>

definition forms_of_mask :: "'g CWord \<Rightarrow> (nat \<Rightarrow> bool) \<Rightarrow> TGrammarBunch" where
  "forms_of_mask w P =
     fold (\<lambda>i forms. if P i then fold bunch_insert (hg_Forms (hom_Grammems (m_Homonyms w ! i))) forms else forms) (IterHomonyms w) []"

definition drop_forms :: "'g CWord \<Rightarrow> 32 word \<Rightarrow> 32 word \<Rightarrow> THomonymGrammems \<Rightarrow> THomonymGrammems" where
  "drop_forms w resHomonyms droppedHomonyms g =
     (let remainedForms = forms_of_mask w (\<lambda>i. TestMask resHomonyms i);
          droppedForms = forms_of_mask w (\<lambda>i. \<not> TestMask resHomonyms i \<and> TestMask droppedHomonyms i)
      in hg_Reset_forms (fold (\<lambda>f res. if f \<notin> set droppedForms \<or> f \<in> set remainedForms then bunch_insert f res else res)
           (hg_Forms g) []) g)"

text \<open>
  One keyword set: \<open>Inr (c, None)\<close> goes on, \<open>Inr (c, Some b)\<close> returns \<open>b\<close>. The assertion is on the number of the word in the chain.
\<close>

definition check_kw_set ::
  "'g CTomitaItemsHolder \<Rightarrow> nat \<Rightarrow> SKWSet \<Rightarrow> 'g SReduceConstraints \<Rightarrow> string + 'g SReduceConstraints \<times> bool option" where
  "check_kw_set H iChild s c =
     (case kw_word s (GetChildGroup c iChild) of
        Inl e \<Rightarrow> Inl e
      | Inr (tw, iCheckWord, oldHomIDs) \<Rightarrow>
          (let w = tw_Word tw
           in if kw_bNegative s \<and> list_ex (\<lambda>art. word_HasArticle H art w) (m_KWset s) then Inr (c, Some False)
              else
                let used = (if kw_bNegative s then 0 else fold (\<lambda>art. GetHomIDsByKWType (kw_HasArticle H) art w) (m_KWset s) 0);
                    used = (if c_ChildHomonyms c ! iChild \<noteq> 0 then used AND c_ChildHomonyms c ! iChild else used)
                in if \<not> kw_bNegative s \<and> used = 0 then Inr (c, Some False)
                   else if HasOnlyOneHomId oldHomIDs then Inr (c, None)
                   else if \<not> index_ok H c iCheckWord then Inl ''ii >= 0 && (size_t)ii < pConstr->ChildHomonyms.size()''
                   else
                     let resHomonyms = oldHomIDs AND used
                     in if resHomonyms = 0 then Inr (c, Some True)
                        else
                          let c = c\<lparr>c_ChildHomonyms := (c_ChildHomonyms c)[hom_index H c iCheckWord := resHomonyms]\<rparr>
                          in Inr (if hg_HasForms (c_Grammems c) \<and> resHomonyms \<noteq> oldHomIDs
                                  then c\<lparr>c_Grammems := drop_forms w resHomonyms (oldHomIDs AND NOT used) (c_Grammems c)\<rparr> else c, None)))"

fun check_kw_sets ::
  "'g CTomitaItemsHolder \<Rightarrow> (nat \<times> SKWSet) list \<Rightarrow> 'g SReduceConstraints \<Rightarrow> string + 'g SReduceConstraints \<times> bool" where
  "check_kw_sets H [] c = Inr (c, True)"
| "check_kw_sets H ((iChild, s) # ss) c =
     (case check_kw_set H iChild s c of
        Inl e \<Rightarrow> Inl e
      | Inr (c, Some b) \<Rightarrow> Inr (c, b)
      | Inr (c, None) \<Rightarrow> check_kw_sets H ss c)"

definition ReduceCheckKWSets :: "'g CTomitaItemsHolder \<Rightarrow> 'g SReduceConstraints \<Rightarrow> string + 'g SReduceConstraints \<times> bool" where
  "ReduceCheckKWSets H c = check_kw_sets H (m_KWSets (constr_Get c)) c"

definition Accepted :: "'g CTomitaItemsHolder \<Rightarrow> CWordFormRegExp \<Rightarrow> Wtroka \<Rightarrow> bool" where
  "Accepted H RE text_w \<longleftrightarrow> re_Matches H (RegexPattern RE) text_w \<noteq> IsNegative RE"

definition wf_word :: "CWordFormRegExp \<Rightarrow> 'g CReduceGroup \<Rightarrow> string + 'g CTextWord" where
  "wf_word RE p =
     (if rg_IsFactGroup p then
        (case Place RE of
           ApplyToFirstWord \<Rightarrow> GetFirstWord (rg_Group p)
         | ApplyToLastWord \<Rightarrow> GetLastWord (rg_Group p)
         | ApplyToMainWord \<Rightarrow> Inr (rg_MainWord p))
      else Inr (rg_MainWord p))"

text \<open>The assertion of \<^verbatim>\<open>ReduceCheckWFSets\<close> is that the regular expression is not empty.\<close>

fun check_wf_sets :: "'g CTomitaItemsHolder \<Rightarrow> 'g SReduceConstraints \<Rightarrow> (nat \<times> CWordFormRegExp) list \<Rightarrow> string + bool" where
  "check_wf_sets H c [] = Inr True"
| "check_wf_sets H c ((iChild, RE) # res) =
     (case wf_word RE (GetChildGroup c iChild) of
        Inl e \<Rightarrow> Inl e
      | Inr w \<Rightarrow>
          if RegexPattern RE = '''' then Inl ''!RE.IsEmpty()''
          else if \<not> Accepted H RE (m_txt (tw_Word w)) then Inr False else check_wf_sets H c res)"

definition ReduceCheckWFSets :: "'g CTomitaItemsHolder \<Rightarrow> 'g SReduceConstraints \<Rightarrow> string + bool" where
  "ReduceCheckWFSets H c = check_wf_sets H c (m_WFRegExps (constr_Get c))"

definition first_word_of :: "'g CReduceGroup \<Rightarrow> string + 'g CTextWord" where
  "first_word_of p = (if rg_IsFactGroup p then GetFirstWord (rg_Group p) else Inr (rg_MainWord p))"

fun check_first_words :: "'g SReduceConstraints \<Rightarrow> (nat \<times> bool) list \<Rightarrow> string + bool" where
  "check_first_words c [] = Inr True"
| "check_first_words c ((iChild, isFirstWord) # cs) =
     (case first_word_of (GetChildGroup c iChild) of
        Inl e \<Rightarrow> Inl e
      | Inr w \<Rightarrow>
          if FirstWord (tw_SourcePair w) = 0
          then (if \<not> isFirstWord then Inr False else check_first_words c cs)
          else (if isFirstWord then Inr False else check_first_words c cs))"

definition ReduceCheckFirstWord :: "'g SReduceConstraints \<Rightarrow> string + bool" where
  "ReduceCheckFirstWord c = check_first_words c (m_FirstWordConstraints (constr_Get c))"

definition ReduceCheckTrim :: "'g SReduceConstraints \<Rightarrow> 'g SReduceConstraints \<times> bool" where
  "ReduceCheckTrim c =
     (case TrimTree c of
        Some tree \<Rightarrow> if m_bTrim (m_ExtraRuleInfo (constr_Get c))
                      then (c\<lparr>TrimTree := Some (oset_insert (<) (c_SymbolNo c) tree)\<rparr>, True) else (c, True)
      | None \<Rightarrow> (c, True))"

definition ReduceCheckLeftDominantRecessive :: "'g SReduceConstraints \<Rightarrow> 'g SReduceConstraints \<times> bool" where
  "ReduceCheckLeftDominantRecessive c =
     (let d = m_DomReces (m_ExtraRuleInfo (constr_Get c))
      in case LeftPriorityOrder c of
           None \<Rightarrow> (c, True)
         | Some order \<Rightarrow>
             if \<not> dominant_HasValue d then (c, True)
             else let WP = \<lparr>FirstWord = FirstWord (group_Pair (rg_Group (GetChildGroup c 0))),
                            LastWord = LastWord (group_Pair (rg_Group (GetChildGroup c (length (c_Children c) - 1))))\<rparr>;
                      order = (if m_bDominant d then oset_insert pair_less WP order else order);
                      c = c\<lparr>LeftPriorityOrder := Some order\<rparr>
               in (c, \<not> (m_bRecessive d \<and> list_ex (\<lambda>p. FirstWord p \<le> FirstWord WP \<and> LastWord p \<ge> FirstWord WP) order)))"

definition HasAtLeastTwoUpper :: "'g CTomitaItemsHolder \<Rightarrow> 'g CWord \<Rightarrow> bool" where
  "HasAtLeastTwoUpper H w \<longleftrightarrow>
     m_bUp w \<and> list_ex (\<lambda>i. char_IsUpper H (m_txt w ! i) \<and> \<not> char_IsDash H (m_txt w ! (i - 1))) [1..<length (m_txt w)]"

definition IsUpperLetterPointInitial :: "'g CWord \<Rightarrow> bool" where
  "IsUpperLetterPointInitial w \<longleftrightarrow> length (m_txt w) = 2 \<and> m_bUp w \<and> m_txt w ! 1 = 46"

definition IsWSUpperCase :: "'g CTomitaItemsHolder \<Rightarrow> CWordsPair \<Rightarrow> bool" where
  "IsWSUpperCase H p \<longleftrightarrow>
     (pair_IsValid p \<longrightarrow>
       list_all (\<lambda>i. let w = tw_Word (h_Words H i)
         in HasAtLeastTwoUpper H w \<or> IsUpperLetterPointInitial w \<or> \<not> length (m_txt w) > 1) [FirstWord p..LastWord p])"

definition ReduceCheckNotHRegFact :: "'g CTomitaItemsHolder \<Rightarrow> 'g SReduceConstraints \<Rightarrow> bool" where
  "ReduceCheckNotHRegFact H c \<longleftrightarrow>
     (if \<not> m_bNotHRegFact (m_ExtraRuleInfo (constr_Get c)) then True
      else let facts = concat (map rg_Facts (filter rg_IsFactGroup (c_Children c)))
        in if list_ex (list_ex (\<lambda>v. case v of None \<Rightarrow> False | Some WP \<Rightarrow> \<not> IsWSUpperCase H WP)) facts then True
           else facts = [])"

section \<open>Places\<close>

text \<open>
  The place articles of a homonym: none unless its main article is of a type of places. The source asserts of each further article
  that it has the type of the main one, as \<open>articles_ok\<close> says; it is not asserted here.
\<close>

definition geo_articles :: "'g CTomitaItemsHolder \<Rightarrow> 'g CHomonym \<Rightarrow> 'g list" where
  "geo_articles H h =
     (case m_GztArticle h of
        None \<Rightarrow> []
      | Some art \<Rightarrow> if IsGeoArticle H art then art # m_ExtraGztArticles h else [])"

definition IsRelatedGeo_articles :: "'g CTomitaItemsHolder \<Rightarrow> 'g \<Rightarrow> 'g \<Rightarrow> bool" where
  "IsRelatedGeo_articles H a1 a2 = (case geo_Impl H of Some rel \<Rightarrow> rel a1 a2 | None \<Rightarrow> False)"

definition IsRelatedGeo_homonym :: "'g CTomitaItemsHolder \<Rightarrow> 'g CHomonym \<Rightarrow> 'g \<Rightarrow> bool" where
  "IsRelatedGeo_homonym H h obj = list_ex (\<lambda>art. IsRelatedGeo_articles H obj art) (geo_articles H h)"

definition IsRelatedGeo :: "'g CTomitaItemsHolder \<Rightarrow> 'g CHomonym \<Rightarrow> 'g CHomonym \<Rightarrow> bool" where
  "IsRelatedGeo H h obj = list_ex (\<lambda>art. IsRelatedGeo_homonym H obj art) (geo_articles H h)"

definition HaveRelatedGeo ::
  "'g CTomitaItemsHolder \<Rightarrow> bool \<Rightarrow> 'g CWord \<Rightarrow> 'g CWord \<Rightarrow> 32 word \<Rightarrow> 32 word \<Rightarrow> (32 word \<times> 32 word) option" where
  "HaveRelatedGeo H negate w1 w2 hom1 hom2 =
     (let (res1, res2) = fold (\<lambda>i1. fold (\<lambda>i2 (res1, res2).
              if IsRelatedGeo H (m_Homonyms w1 ! i1) (m_Homonyms w2 ! i2) \<noteq> negate
              then (res1 OR push_bit i1 1, res2 OR push_bit i2 1) else (res1, res2)) (IterMask w2 hom2)) (IterMask w1 hom1) (0, 0)
      in if res1 \<noteq> 0 \<and> res2 \<noteq> 0 then Some (res1, res2) else None)"

text \<open>
  \<^verbatim>\<open>ReduceCheckGeoAgreement\<close> works on a copy of the masks, which replaces them when all agreements hold. It takes the positions in
  the list of agreeing items for the numbers of the children.
\<close>

fun geo_pairs :: "'g CTomitaItemsHolder \<Rightarrow> 'g SReduceConstraints \<Rightarrow> bool \<Rightarrow> nat list \<Rightarrow> 32 word list \<Rightarrow> 32 word list option" where
  "geo_pairs H c negate [] homs = Some homs"
| "geo_pairs H c negate (i2 # is) homs =
     (let i1 = i2 - 1
      in case HaveRelatedGeo H negate (tw_Word (rg_MainWord (GetChildGroup c i1))) (tw_Word (rg_MainWord (GetChildGroup c i2)))
           (homs ! i1) (homs ! i2) of
           None \<Rightarrow> None
         | Some (mask1, mask2) \<Rightarrow> geo_pairs H c negate is (homs[i1 := mask1, i2 := mask2]))"

fun geo_agreements :: "'g CTomitaItemsHolder \<Rightarrow> 'g SReduceConstraints \<Rightarrow> SAgr list \<Rightarrow> 32 word list \<Rightarrow> 32 word list option" where
  "geo_agreements H c [] homs = Some homs"
| "geo_agreements H c (agr # agrs) homs =
     (if e_AgrProcedure agr = GeoAgr then
        (case geo_pairs H c (m_bNegativeAgreement agr) [1..<length (m_AgreeItems agr)] homs of
           None \<Rightarrow> None
         | Some homs \<Rightarrow> geo_agreements H c agrs homs)
      else geo_agreements H c agrs homs)"

definition ReduceCheckGeoAgreement :: "'g CTomitaItemsHolder \<Rightarrow> 'g SReduceConstraints \<Rightarrow> 'g SReduceConstraints \<times> bool" where
  "ReduceCheckGeoAgreement H c =
     (case geo_agreements H c (m_RulesAgrs (constr_Get c)) (c_ChildHomonyms c) of
        None \<Rightarrow> (c, False)
      | Some homs \<Rightarrow> (c\<lparr>c_ChildHomonyms := homs\<rparr>, True))"

section \<open>The alternatives of a rule\<close>

text \<open>A conjunction of checks, each of which may change the constraints, evaluated from the left.\<close>

definition and_then :: "string + 'c \<times> bool \<Rightarrow> ('c \<Rightarrow> string + 'c \<times> bool) \<Rightarrow> string + 'c \<times> bool" where
  "and_then m k = (case m of Inl e \<Rightarrow> Inl e | Inr (c, ok) \<Rightarrow> if ok then k c else Inr (c, False))"

definition reading :: "('c \<Rightarrow> string + bool) \<Rightarrow> 'c \<Rightarrow> string + 'c \<times> bool" where
  "reading check c = map_sum id (Pair c) (check c)"

definition check_alternative :: "'g CTomitaItemsHolder \<Rightarrow> 'g SReduceConstraints \<Rightarrow> string + 'g SReduceConstraints \<times> bool" where
  "check_alternative H c =
     and_then (and_then (and_then (and_then (and_then (and_then (and_then (and_then (and_then
       (Inr (ReduceCheckGroupAgreement H c))
       (\<lambda>c. Inr (ReduceCheckOutputGrammems c)))
       (\<lambda>c. Inr (c, ReduceCheckOutputGroupSize c)))
       (ReduceCheckKWSets H))
       (reading (ReduceCheckWFSets H)))
       (\<lambda>c. Inr (ReduceCheckTrim c)))
       (\<lambda>c. Inr (ReduceCheckLeftDominantRecessive c)))
       (reading ReduceCheckFirstWord))
       (\<lambda>c. Inr (c, ReduceCheckNotHRegFact H c)))
       (\<lambda>c. Inr (ReduceCheckGeoAgreement H c))"

fun check_alternatives :: "'g CTomitaItemsHolder \<Rightarrow> nat list \<Rightarrow> 'g SReduceConstraints \<Rightarrow> string + 'g SReduceConstraints \<times> bool" where
  "check_alternatives H [] c = Inr (c, False)"
| "check_alternatives H (i # is) c =
     (case check_alternative H (c\<lparr>CurrentConstraintIndex := i\<rparr>) of
        Inl e \<Rightarrow> Inl e
      | Inr (c, ok) \<Rightarrow> if ok then Inr (c, True) else check_alternatives H is c)"

definition ReduceCheckConstraintSet :: "'g CTomitaItemsHolder \<Rightarrow> 'g SReduceConstraints \<Rightarrow> string + 'g SReduceConstraints \<times> bool" where
  "ReduceCheckConstraintSet H c = check_alternatives H [0..<length (c_Agreements c)] c"

section \<open>New groups\<close>

definition HasTerminalSymbol :: "int \<Rightarrow> 'g CHomonym \<Rightarrow> bool" where
  "HasTerminalSymbol iS h \<longleftrightarrow> 0 \<le> iS \<and> nat iS \<in> set (hom_Terminals h)"

definition prim_ResetGrammems :: "int \<Rightarrow> 'g CReduceGroup \<Rightarrow> 'g CReduceGroup" where
  "prim_ResetGrammems iS p =
     (let w = tw_Word (rg_MainWord p)
      in p\<lparr>rg_Grammems := fold (\<lambda>i g. if HasTerminalSymbol iS (m_Homonyms w ! i) then hg_join g (hom_Grammems (m_Homonyms w ! i)) else g)
             (IterHomonyms w) (hg_Reset (rg_Grammems p))\<rparr>)"

text \<open>The symbol of a new primitive group is -1.\<close>

definition prim_init :: "'g CTextWord \<Rightarrow> int \<Rightarrow> 'g CReduceGroup" where
  "prim_init pWord iW =
     prim_ResetGrammems (- 1) \<lparr>rg_Group = CPrimitiveGroup \<lparr>FirstWord = iW, LastWord = iW\<rparr> pWord, rg_Grammems = hg_empty,
       rg_ChildHomonyms = [0], rg_IsFactGroup = False, rg_Facts = []\<rparr>"

definition prim_SetActiveSymbol :: "int \<Rightarrow> 'g CReduceGroup \<Rightarrow> 'g CReduceGroup" where
  "prim_SetActiveSymbol iS p =
     (let w = tw_Word (rg_MainWord p)
      in prim_ResetGrammems iS (p\<lparr>rg_ChildHomonyms :=
           [fold (\<lambda>i active. if HasTerminalSymbol iS (m_Homonyms w ! i) then active OR push_bit i 1 else active)
              (takeWhile (\<lambda>i. i < 32) (IterHomonyms w)) (hd (rg_ChildHomonyms p))]\<rparr>))"

text \<open>The clause word of a primitive group, and its homonym if the loop over the first 4 bits of the mask finds one.\<close>

definition prim_GetMainClauseWord :: "'g CReduceGroup \<Rightarrow> string + int \<times> nat option" where
  "prim_GetMainClauseWord p =
     (if hd (rg_ChildHomonyms p) = 0 then Inl '' m_ActiveHomonyms in \"CPrimitiveGroup::GetMainClauseWord\"''
      else Inr (FirstWord (group_Pair (rg_Group p)), List.find (\<lambda>i. TestMask (hd (rg_ChildHomonyms p)) i) [0..<4]))"

definition IntersectChildHomonyms :: "32 word list \<Rightarrow> 'g CReduceGroup \<Rightarrow> 'g CReduceGroup" where
  "IntersectChildHomonyms homs p =
     p\<lparr>rg_ChildHomonyms := map2 (\<lambda>m h. if m AND h \<noteq> 0 then m AND h else m) (rg_ChildHomonyms p) homs\<rparr>"

definition AppendChildHomonymsFrom :: "'g CReduceGroup list \<Rightarrow> 'g CReduceGroup \<Rightarrow> 'g CReduceGroup" where
  "AppendChildHomonymsFrom children p =
     fold (\<lambda>child p. p\<lparr>rg_ChildHomonyms := rg_ChildHomonyms p @ rg_ChildHomonyms child\<rparr>) children p"

text \<open>A plain syntactic group keeps of its children only the main one.\<close>

definition syn_group :: "'g CReduceGroup \<Rightarrow> THomonymGrammems \<Rightarrow> CWordsPair \<Rightarrow> 'g CReduceGroup" where
  "syn_group pMainGroup g p =
     \<lparr>rg_Group = CFactSynGroup (weight_group_init\<lparr>wg_Pair := p\<rparr>) (rg_Group pMainGroup) [], rg_Grammems = g, rg_ChildHomonyms = [],
      rg_IsFactGroup = False, rg_Facts = []\<rparr>"

text \<open>\<^verbatim>\<open>CreateNewItem\<close> for a word and for a rule; the group comes with the constraints that were checked, or is null.\<close>

definition CreateWordItem :: "'g CTomitaItemsHolder \<Rightarrow> nat \<Rightarrow> nat \<Rightarrow> 'g CReduceGroup" where
  "CreateWordItem H SymbolNo iFirstItemNo =
     (let iW = int (iFirstItemNo + h_CurStartWord H)
      in prim_SetActiveSymbol (int SymbolNo) (prim_init (h_ChainWords H iW) iW))"

definition CreateRuleItem ::
  "'g CTomitaItemsHolder \<Rightarrow> nat \<Rightarrow> SRuleConstraints list \<Rightarrow> nat \<Rightarrow> nat \<Rightarrow> nat \<Rightarrow> 'g CReduceGroup list
     \<Rightarrow> string + ('g CReduceGroup \<times> SRuleConstraints) option" where
  "CreateRuleItem H SymbolNo agreements iFirstItemNo iLastItemNo iSynMainItemNo children =
     (if iSynMainItemNo > length children then Inl ''Bad iSynMainItemNo in \"CFDOChain::CreateNewItem\"''
      else
        case ReduceCheckConstraintSet H
               (constraints_init agreements children SymbolNo iFirstItemNo iSynMainItemNo (iLastItemNo - iFirstItemNo + 1)) of
          Inl e \<Rightarrow> Inl e
        | Inr (c, ok) \<Rightarrow>
            if \<not> ok then Inr None
            else let p = \<lparr>FirstWord = int (iFirstItemNo + h_CurStartWord H), LastWord = int (iLastItemNo + h_CurStartWord H) - 1\<rparr>
              in Inr (Some (AppendChildHomonymsFrom children (syn_group (children ! iSynMainItemNo) (c_Grammems c) p), constr_Get c)))"

section \<open>Masks of homonyms\<close>

lemma hom_nonzero: "m \<noteq> 0 \<longleftrightarrow> (\<exists>n. bit m n)" for m :: "32 word"
  using bit_imp_le_length [of m] by (auto simp: bit_eq_iff)

lemma bit_hom: "bit (push_bit i 1 :: 32 word) n \<longleftrightarrow> i < 32 \<and> n = i"
  by (auto simp: bit_exp_iff)

lemma TestMask_bit: "TestMask m i \<longleftrightarrow> bit m i"
proof -
  have "bit m i \<Longrightarrow> i < 32" using bit_imp_le_length [of m i] by simp
  then show ?thesis unfolding TestMask_def hom_nonzero bit_and_iff bit_hom by blast
qed

text \<open>A mask counts as having one homonym only when this is one of the first five.\<close>

lemma HasOnlyOneHomId_iff: "HasOnlyOneHomId m \<longleftrightarrow> (\<exists>i \<le> 4. m = push_bit i 1)"
proof -
  let ?k = "case List.find (\<lambda>i. TestMask m i) [0..<4] of Some i \<Rightarrow> i | None \<Rightarrow> 4"
  have "?k \<le> 4" by (auto split: option.splits simp: find_Some_iff)
  moreover have "?k = i" "m \<noteq> 0" if "i \<le> 4" "m = push_bit i 1" for i
  proof -
    have "TestMask m j \<longleftrightarrow> j = i" for j unfolding TestMask_bit that(2) bit_hom using that(1) by auto
    moreover have "i \<in> {0, 1, 2, 3, 4}" using that(1) by auto
    moreover have "[0..<4] = [0, 1, 2, 3 :: nat]" by (simp add: upt_rec)
    ultimately show "?k = i" by auto
    show "m \<noteq> 0" unfolding hom_nonzero that(2) bit_hom using that(1) by auto
  qed
  ultimately show ?thesis unfolding HasOnlyOneHomId_def by auto
qed

lemma HasOnlyOneHomId_late: "\<not> HasOnlyOneHomId (push_bit 5 1)"
  by (simp add: HasOnlyOneHomId_def TestMask_def upt_rec)

lemma GetNewHomIDsByGrammems_bit:
  "bit (GetNewHomIDsByGrammems interp w old) n \<longleftrightarrow>
     n < 32 \<and> bit old n \<and> n \<in> set (IterHomonyms w) \<and> hom_agrees interp (hom_Grammems (m_Homonyms w ! n))"
proof -
  let ?f = "\<lambda>i res. if \<not> TestMask old i then res
         else if hom_agrees interp (hom_Grammems (m_Homonyms w ! i)) then res OR push_bit i 1 else res"
  have "bit (fold ?f is res) n \<longleftrightarrow>
      bit res n \<or> (n < 32 \<and> bit old n \<and> n \<in> set is \<and> hom_agrees interp (hom_Grammems (m_Homonyms w ! n)))" for "is" and res :: "32 word"
  proof (induction "is" arbitrary: res)
    case (Cons i "is")
    have "bit (?f i res) n \<longleftrightarrow> bit res n \<or> (n < 32 \<and> bit old n \<and> n = i \<and> hom_agrees interp (hom_Grammems (m_Homonyms w ! n)))"
      by (auto simp: TestMask_bit bit_or_iff bit_hom simp del: push_bit_of_1)
    then show ?case by (simp add: Cons.IH del: push_bit_of_1) blast
  qed simp
  then show ?thesis by (simp add: GetNewHomIDsByGrammems_def)
qed

section \<open>Grammemes of an item\<close>

lemma fold_insert_filter:
  assumes "gramset.ordered b"
  shows "gramset.ordered (fold (\<lambda>f b. if P f then bunch_insert f b else b) fs b) \<and>
    set (fold (\<lambda>f b. if P f then bunch_insert f b else b) fs b) = {f \<in> set fs. P f} \<union> set b"
  using assms by (induction fs arbitrary: b) auto

lemma fold_insert_eq_filter:
  assumes "gramset.ordered fs"
  shows "fold (\<lambda>f b. if P f then bunch_insert f b else b) fs [] = filter P fs"
proof -
  have "gramset.ordered []" by simp
  moreover have "gramset.ordered (filter P fs)" using assms by (simp add: gramset.ordered_iff sorted_wrt_map sorted_wrt_filter)
  ultimately show ?thesis using fold_insert_filter [of "[]" P fs] by (intro bunch_eqI) auto
qed

lemma filter_all: "\<forall>x \<in> set xs. P x \<Longrightarrow> filter P xs = xs"
  by (simp add: filter_id_conv)

lemma HasAll_zero: "HasAll 0 g \<longleftrightarrow> g = 0"
  by (simp add: HasAll_def)

lemma AssignOutputGrammems_HasAll: "g \<noteq> 0 \<Longrightarrow> hg_HasAll (AssignOutputGrammems h g) g"
  by (auto simp: AssignOutputGrammems_def hg_HasAll_def hg_Reset_gram_def ReplaceFeatures_def HasAll_iff bit_or_iff)

lemma AssignOutputGrammems_eq: "g \<noteq> 0 \<Longrightarrow> AssignOutputGrammems h g = hg_Reset_gram (ReplaceFeatures DefaultFeatures (hg_All h) g) h"
  by (simp add: AssignOutputGrammems_def)

lemma AssignOutputGrammems_Forms: "g \<noteq> 0 \<Longrightarrow> hg_Forms (AssignOutputGrammems h g) = []"
  by (simp add: AssignOutputGrammems_def hg_Reset_gram_def)

lemma AssignOutputGrammems_ok: "hg_ok h \<Longrightarrow> hg_ok (AssignOutputGrammems h g)"
  by (auto simp: AssignOutputGrammems_def hg_ok_iff hg_Reset_gram_def)

lemma Reset_filter_ok: "hg_ok h \<Longrightarrow> hg_ok (hg_Reset_forms (filter P (hg_Forms h)) h)"
  by (auto simp: hg_ok_iff hg_Reset_forms_def gramset.ordered_iff sorted_wrt_map sorted_wrt_filter HasAll_iff bit_UniteGrammems)



text \<open>So an item without forms that has all the unwanted grammemes passes.\<close>

lemma CheckItemGrammems_unwanted: "\<not> hg_HasForms h \<Longrightarrow> snd (CheckItemGrammems g False h)"
  by (auto simp: CheckItemGrammems_def hg_Empty_def)

section \<open>Agreement of two children\<close>

lemma agreeing_filter:
  assumes "gramset.ordered gs" "gramset.ordered r" "set r = agreeing f (set gs) B"
  shows "r = filter (\<lambda>g. \<exists>h \<in> B. f g h \<noteq> 0) gs"
proof -
  have "gramset.ordered (filter (\<lambda>g. \<exists>h \<in> B. f g h \<noteq> 0) gs)"
    using assms(1) by (simp add: gramset.ordered_iff sorted_wrt_map sorted_wrt_filter)
  then show ?thesis using assms(2,3) by (intro bunch_eqI) (auto simp: agreeing_def)
qed

lemma GleicheForms_filter:
  assumes "gramset.ordered gs" "gramset.ordered hs" "GetGleicheFunc func = Some f"
    "GleicheForms gs hs [] [] func = (u, r1, r2)"
  shows "(u \<noteq> 0 \<longleftrightarrow> (\<exists>g \<in> set gs. \<exists>h \<in> set hs. f g h \<noteq> 0)) \<and>
    r1 = filter (\<lambda>g. \<exists>h \<in> set hs. f g h \<noteq> 0) gs \<and> r2 = filter (\<lambda>h. \<exists>g \<in> set gs. f g h \<noteq> 0) hs"
proof -
  have nil: "gramset.ordered []" by simp
  note step = GleicheForms_step [OF nil nil assms(3,4)]
  have "u \<noteq> 0 \<longleftrightarrow> Gleiche gs hs (Some f)" using step by (simp add: Gleiche_GleicheGrammems)
  also have "\<dots> \<longleftrightarrow> (\<exists>g \<in> set gs. \<exists>h \<in> set hs. f g h \<noteq> 0)" by (auto simp: Gleiche_def list_ex_iff)
  finally have "u \<noteq> 0 \<longleftrightarrow> (\<exists>g \<in> set gs. \<exists>h \<in> set hs. f g h \<noteq> 0)" .
  moreover have "r1 = filter (\<lambda>g. \<exists>h \<in> set hs. f g h \<noteq> 0) gs" using step agreeing_filter [OF assms(1), of r1 f "set hs"] by simp
  moreover have "r2 = filter (\<lambda>h. \<exists>g \<in> set gs. f g h \<noteq> 0) hs"
    using step agreeing_filter [OF assms(2), of r2 "\<lambda>h g. f g h" "set gs"] by simp
  ultimately show ?thesis by blast
qed

text \<open>All the forms of a word: those of its group and of its homonyms.\<close>

definition word_forms :: "'g CWord \<Rightarrow> THomonymGrammems \<Rightarrow> grams set" where
  "word_forms w g = set (hg_Forms g) \<union> (\<Union>i \<in> set (IterHomonyms w). set (hg_Forms (hom_Grammems (m_Homonyms w ! i))))"

lemma hg_join_Forms: "set (hg_Forms (hg_join h g)) = set (hg_Forms h) \<union> set (hg_Forms g)"
  by (auto simp: hg_join_def fold_bunch_insert_set)

lemma hg_join_ordered: "gramset.ordered (hg_Forms h) \<Longrightarrow> gramset.ordered (hg_Forms (hg_join h g))"
  by (simp add: hg_join_def fold_bunch_insert_ordered)

lemma join_homonyms_Forms:
  "set (hg_Forms (join_homonyms w g)) = word_forms w g"
  "gramset.ordered (hg_Forms g) \<Longrightarrow> gramset.ordered (hg_Forms (join_homonyms w g))"
proof -
  have "set (hg_Forms (fold (\<lambda>i a. hg_join a (hom_Grammems (m_Homonyms w ! i))) is g)) =
      set (hg_Forms g) \<union> (\<Union>i \<in> set is. set (hg_Forms (hom_Grammems (m_Homonyms w ! i))))" for "is" g
    by (induction "is" arbitrary: g) (auto simp: hg_join_Forms)
  then show "set (hg_Forms (join_homonyms w g)) = word_forms w g" by (simp add: join_homonyms_def word_forms_def)
  have "gramset.ordered (hg_Forms g) \<Longrightarrow>
      gramset.ordered (hg_Forms (fold (\<lambda>i a. hg_join a (hom_Grammems (m_Homonyms w ! i))) is g))" for "is" g
    by (induction "is" arbitrary: g) (auto simp: hg_join_ordered)
  then show "gramset.ordered (hg_Forms g) \<Longrightarrow> gramset.ordered (hg_Forms (join_homonyms w g))"
    by (simp add: join_homonyms_def)
qed

text \<open>
  C39. The agreement of two children that have forms. A positive agreement fails when no form of the one agrees with a form of the
  other, and else leaves to each exactly the forms that agree with one of the other, which is never nothing. A negative
  agreement fails when a form of the one group or of any homonym of its word agrees with one of the other, and else changes
  nothing.
\<close>

theorem agree_children_correct:
  fixes c :: "'g SReduceConstraints" and i1 i2 :: nat
  defines "w1 \<equiv> tw_Word (rg_MainWord (GetChildGroup c i1))" and "w2 \<equiv> tw_Word (rg_MainWord (GetChildGroup c i2))"
  assumes "gramset.ordered (hg_Forms (Interps ! i1))" "gramset.ordered (hg_Forms (Interps ! i2))"
    and "hg_HasForms (Interps ! i1)" "hg_HasForms (Interps ! i2)"
    and "GetGleicheFunc (e_AgrProcedure agr) = Some f"
  shows "agree_children c agr i1 i2 Interps =
    (if m_bNegativeAgreement agr then
       (if \<exists>g \<in> word_forms w1 (Interps ! i1). \<exists>h \<in> word_forms w2 (Interps ! i2). f g h \<noteq> 0 then None else Some Interps)
     else
       (let fs1 = hg_Forms (Interps ! i1); fs2 = hg_Forms (Interps ! i2);
            agreed1 = filter (\<lambda>g. \<exists>h \<in> set fs2. f g h \<noteq> 0) fs1; agreed2 = filter (\<lambda>h. \<exists>g \<in> set fs1. f g h \<noteq> 0) fs2
        in if agreed1 = [] then None
           else Some (Interps[i1 := hg_Reset_forms agreed1 (Interps ! i1), i2 := hg_Reset_forms agreed2 (Interps ! i2)])))"
proof -
  let ?I1 = "Interps ! i1" and ?I2 = "Interps ! i2"
  have ne: "\<not> hg_Empty ?I1" "\<not> hg_Empty ?I2" using assms(5,6) by (auto simp: hg_Empty_def hg_HasForms_def)
  show ?thesis
  proof (cases "m_bNegativeAgreement agr")
    case True
    let ?a1 = "join_homonyms w1 ?I1" and ?a2 = "join_homonyms w2 ?I2"
    have forms: "hg_HasForms ?a1" "hg_HasForms ?a2"
    proof -
      have "set (hg_Forms ?I1) \<noteq> {}" "set (hg_Forms ?I2) \<noteq> {}" using assms(5,6) by (simp_all add: hg_HasForms_def)
      then show "hg_HasForms ?a1" "hg_HasForms ?a2"
        using join_homonyms_Forms(1) [of w1 ?I1] join_homonyms_Forms(1) [of w2 ?I2] by (auto simp: hg_HasForms_def word_forms_def)
    qed
    obtain u r1 r2 where G: "GleicheForms (hg_Forms ?a1) (hg_Forms ?a2) [] [] (e_AgrProcedure agr) = (u, r1, r2)"
      using prod_cases3 by blast
    note res = GleicheForms_filter [OF join_homonyms_Forms(2) [OF assms(3)] join_homonyms_Forms(2) [OF assms(4)] assms(7) G]
    have "u \<noteq> 0 \<longleftrightarrow> (\<exists>g \<in> word_forms w1 ?I1. \<exists>h \<in> word_forms w2 ?I2. f g h \<noteq> 0)"
      using res by (simp add: join_homonyms_Forms(1))
    then show ?thesis
      using True forms ne G by (simp add: agree_children_def agree_forms_def Let_def w1_def [symmetric] w2_def [symmetric])
  next
    case False
    obtain u r1 r2 where G: "GleicheForms (hg_Forms ?I1) (hg_Forms ?I2) [] [] (e_AgrProcedure agr) = (u, r1, r2)"
      using prod_cases3 by blast
    note res = GleicheForms_filter [OF assms(3,4,7) G]
    have "u = 0 \<longleftrightarrow> filter (\<lambda>g. \<exists>h \<in> set (hg_Forms ?I2). f g h \<noteq> 0) (hg_Forms ?I1) = []"
      using res by (auto simp: filter_empty_conv)
    then show ?thesis
      using False assms(5,6) ne G res by (auto simp: agree_children_def agree_forms_def Let_def)
  qed
qed

definition sample_text_word :: "nat CTextWord" where
  "sample_text_word =
     \<lparr>tw_Word = sample_word, tw_SourcePair = \<lparr>FirstWord = 0, LastWord = 0\<rparr>, HasOpenQuote = False, HasCloseQuote = False,
      IsMultiWord = False, m_NameMembers = None\<rparr>"

definition sample_group :: "nat CReduceGroup" where
  "sample_group =
     \<lparr>rg_Group = CPrimitiveGroup \<lparr>FirstWord = 0, LastWord = 0\<rparr> sample_text_word, rg_Grammems = hg_empty, rg_ChildHomonyms = [3],
      rg_IsFactGroup = False, rg_Facts = []\<rparr>"

theorem agree_children_correct_witness:
  "agree_children (constraints_init [] [sample_group, sample_group] 0 0 0 2) (agr_init\<lparr>e_AgrProcedure := AnyFunc\<rparr>) 0 1
     [\<lparr>hg_Forms = [1], hg_All = 1\<rparr>, \<lparr>hg_Forms = [2], hg_All = 2\<rparr>] =
   Some [\<lparr>hg_Forms = [1], hg_All = 1\<rparr>, \<lparr>hg_Forms = [2], hg_All = 2\<rparr>]"
proof -
  let ?I = "[\<lparr>hg_Forms = [1], hg_All = 1\<rparr>, \<lparr>hg_Forms = [2], hg_All = 2\<rparr>]" and ?agr = "agr_init\<lparr>e_AgrProcedure := AnyFunc\<rparr>"
  have "GetGleicheFunc (e_AgrProcedure ?agr) = Some NoCheck" by (simp add: GetGleicheFunc_def)
  moreover have "gramset.ordered (hg_Forms (?I ! 0))" "gramset.ordered (hg_Forms (?I ! 1))"
    "hg_HasForms (?I ! 0)" "hg_HasForms (?I ! 1)" by (simp_all add: hg_HasForms_def)
  ultimately show ?thesis
    using agree_children_correct [of ?I 0 1 ?agr NoCheck "constraints_init [] [sample_group, sample_group] 0 0 0 2"]
    by (simp add: agr_init_def NoCheck_def AllGrammems_def hg_Reset_forms_def UniteGrammems_def)
qed

section \<open>Places\<close>

lemma related_row:
  assumes "fold (\<lambda>j (r1, r2). if R i j then (r1 OR push_bit i 1, r2 OR push_bit j 1) else (r1, r2)) js (r1, r2) =
    (r1' :: 32 word, r2' :: 32 word)"
  shows "(bit r1' n \<longleftrightarrow> bit r1 n \<or> (n < 32 \<and> n = i \<and> (\<exists>j \<in> set js. R i j))) \<and>
    (bit r2' n \<longleftrightarrow> bit r2 n \<or> (n < 32 \<and> n \<in> set js \<and> R i n))"
  using assms
proof (induction js arbitrary: r1 r2)
  case (Cons j js)
  show ?case
  proof (cases "R i j")
    case True
    have "fold (\<lambda>j (r1, r2). if R i j then (r1 OR push_bit i 1, r2 OR push_bit j 1) else (r1, r2)) js
        (r1 OR push_bit i 1, r2 OR push_bit j 1) = (r1', r2')" using Cons.prems by (simp only: fold_simps prod.case True if_True)
    from Cons.IH [OF this] show ?thesis using True unfolding bit_or_iff bit_hom list.set by blast
  next
    case False
    have "fold (\<lambda>j (r1, r2). if R i j then (r1 OR push_bit i 1, r2 OR push_bit j 1) else (r1, r2)) js (r1, r2) = (r1', r2')"
      using Cons.prems by (simp only: fold_simps prod.case False if_False)
    from Cons.IH [OF this] show ?thesis using False unfolding list.set by blast
  qed
qed (simp only: fold_simps prod.inject list.set, blast)

lemma related_rows:
  assumes "fold (\<lambda>i. fold (\<lambda>j (r1, r2). if R i j then (r1 OR push_bit i 1, r2 OR push_bit j 1) else (r1, r2)) js) is (r1, r2) =
    (r1' :: 32 word, r2' :: 32 word)"
  shows "(bit r1' n \<longleftrightarrow> bit r1 n \<or> (n < 32 \<and> n \<in> set is \<and> (\<exists>j \<in> set js. R n j))) \<and>
    (bit r2' n \<longleftrightarrow> bit r2 n \<or> (n < 32 \<and> n \<in> set js \<and> (\<exists>i \<in> set is. R i n)))"
  using assms
proof (induction "is" arbitrary: r1 r2)
  case (Cons i "is")
  obtain q1 q2 where row: "fold (\<lambda>j (r1, r2). if R i j then (r1 OR push_bit i 1, r2 OR push_bit j 1) else (r1, r2)) js (r1, r2) =
      (q1 :: 32 word, q2 :: 32 word)" using prod.exhaust by blast
  have "fold (\<lambda>i. fold (\<lambda>j (r1, r2). if R i j then (r1 OR push_bit i 1, r2 OR push_bit j 1) else (r1, r2)) js) is (q1, q2) = (r1', r2')"
    using Cons.prems by (simp only: fold_simps row)
  from Cons.IH [OF this] related_row [where R = R, OF row, of n] show ?case unfolding list.set by blast
qed (simp only: fold_simps prod.inject list.set, blast)

lemma IterMask_bound: "i \<in> set (IterMask w m) \<Longrightarrow> i < 32"
  by (auto simp: IterMask_def Let_def dest!: in_set_takeD in_set_dropD set_takeWhileD)

text \<open>
  C40. \<^verbatim>\<open>HaveRelatedGeo\<close> holds exactly when some homonym visited of the one word and some of the other are related, or unrelated in a
  negative agreement, and then the masks hold exactly the homonyms that have such a partner.
\<close>

theorem HaveRelatedGeo_correct:
  fixes H :: "'g CTomitaItemsHolder" and w1 w2 :: "'g CWord" and hom1 hom2 :: "32 word" and negate :: bool
  defines "R \<equiv> \<lambda>i j. IsRelatedGeo H (m_Homonyms w1 ! i) (m_Homonyms w2 ! j) \<noteq> negate"
  shows "case HaveRelatedGeo H negate w1 w2 hom1 hom2 of
      None \<Rightarrow> list_all (\<lambda>i. list_all (\<lambda>j. \<not> R i j) (IterMask w2 hom2)) (IterMask w1 hom1)
    | Some (mask1, mask2) \<Rightarrow> mask1 \<noteq> 0 \<and> mask2 \<noteq> 0 \<and>
        {n. bit mask1 n} = {i \<in> set (IterMask w1 hom1). list_ex (R i) (IterMask w2 hom2)} \<and>
        {n. bit mask2 n} = {j \<in> set (IterMask w2 hom2). list_ex (\<lambda>i. R i j) (IterMask w1 hom1)}"
proof -
  obtain r1 r2 where f: "fold (\<lambda>i. fold (\<lambda>j (r1, r2). if R i j then (r1 OR push_bit i 1, r2 OR push_bit j 1) else (r1, r2))
      (IterMask w2 hom2)) (IterMask w1 hom1) (0, 0) = (r1 :: 32 word, r2 :: 32 word)" using prod.exhaust by blast
  have b1: "bit r1 n \<longleftrightarrow> n \<in> set (IterMask w1 hom1) \<and> (\<exists>j \<in> set (IterMask w2 hom2). R n j)"
    and b2: "bit r2 n \<longleftrightarrow> n \<in> set (IterMask w2 hom2) \<and> (\<exists>i \<in> set (IterMask w1 hom1). R i n)" for n
    using related_rows [where R = R, OF f, of n] IterMask_bound [of n w1 hom1] IterMask_bound [of n w2 hom2] by auto
  have e: "HaveRelatedGeo H negate w1 w2 hom1 hom2 = (if r1 \<noteq> 0 \<and> r2 \<noteq> 0 then Some (r1, r2) else None)"
    using f by (simp add: HaveRelatedGeo_def R_def del: push_bit_of_1)
  show ?thesis
  proof (cases "r1 \<noteq> 0 \<and> r2 \<noteq> 0")
    case True
    then show ?thesis by (auto simp: e b1 b2 list_ex_iff)
  next
    case False
    then have "\<not> (\<exists>i \<in> set (IterMask w1 hom1). \<exists>j \<in> set (IterMask w2 hom2). R i j)"
      unfolding hom_nonzero b1 b2 by blast
    then show ?thesis using False by (auto simp: e list_all_iff)
  qed
qed

section \<open>The alternatives of a rule\<close>

text \<open>What no check changes, and what only the first checks change.\<close>

definition same_rule :: "'g SReduceConstraints \<Rightarrow> 'g SReduceConstraints \<Rightarrow> bool" where
  "same_rule c c' \<longleftrightarrow>
     c_Agreements c' = c_Agreements c \<and> c_Children c' = c_Children c \<and> ChainSize c' = ChainSize c \<and>
     CurrentConstraintIndex c' = CurrentConstraintIndex c \<and> MainItemIndex c' = MainItemIndex c \<and> length (c_ChildHomonyms c') = length (c_ChildHomonyms c)"

lemma same_rule_refl [simp, intro]: "same_rule c c"
  by (simp add: same_rule_def)

lemma same_rule_trans: "same_rule c d \<Longrightarrow> same_rule d e \<Longrightarrow> same_rule c e"
  by (simp add: same_rule_def)

lemma same_rule_update [simp]:
  "same_rule c (c\<lparr>c_Grammems := g\<rparr>)" "same_rule c (c\<lparr>c_ChildHomonyms := (c_ChildHomonyms c)[i := m]\<rparr>)"
  "same_rule c (c\<lparr>TrimTree := t\<rparr>)" "same_rule c (c\<lparr>LeftPriorityOrder := p\<rparr>)"
  by (simp_all add: same_rule_def)

lemma same_rule_Get: "same_rule c c' \<Longrightarrow> constr_Get c' = constr_Get c"
  by (simp add: same_rule_def constr_Get_def)

lemma same_rule_Child: "same_rule c c' \<Longrightarrow> GetChildGroup c' = GetChildGroup c"
  by (simp add: same_rule_def GetChildGroup_def fun_eq_iff)

lemma AdjustChildHomonyms_same: "same_rule c (AdjustChildHomonyms H Interps c)"
proof -
  have step: "same_rule c (fold f is c)" if "\<And>i c. same_rule c (f i c)" for f "is" and c :: "'g SReduceConstraints"
    by (induction "is" arbitrary: c) (auto intro: same_rule_trans that)
  show ?thesis unfolding AdjustChildHomonyms_def by (rule step) (simp add: Let_def)
qed

lemma same_rule_grammems: "same_rule (c\<lparr>c_Grammems := g\<rparr>) d \<Longrightarrow> same_rule c d"
  by (simp add: same_rule_def)

lemma GroupAgreement_same: "same_rule c (fst (ReduceCheckGroupAgreement H c))"
  by (auto simp: ReduceCheckGroupAgreement_def Let_def case_prod_beta intro: same_rule_grammems AdjustChildHomonyms_same split: option.splits)

lemma OutputGrammems_same: "same_rule c (fst (ReduceCheckOutputGrammems c))"
  by (simp add: ReduceCheckOutputGrammems_def Let_def)

lemma Trim_same: "same_rule c (fst (ReduceCheckTrim c)) \<and> c_Grammems (fst (ReduceCheckTrim c)) = c_Grammems c"
  by (auto simp: ReduceCheckTrim_def split: option.splits)

lemma Dominant_same:
  "same_rule c (fst (ReduceCheckLeftDominantRecessive c)) \<and> c_Grammems (fst (ReduceCheckLeftDominantRecessive c)) = c_Grammems c"
  by (auto simp: ReduceCheckLeftDominantRecessive_def Let_def split: option.splits)

lemma geo_pairs_length: "geo_pairs H c negate is homs = Some homs' \<Longrightarrow> length homs' = length homs"
  by (induction "is" arbitrary: homs) (auto simp: Let_def split: option.splits)

lemma geo_agreements_length: "geo_agreements H c agrs homs = Some homs' \<Longrightarrow> length homs' = length homs"
  by (induction agrs arbitrary: homs) (auto dest: geo_pairs_length split: if_splits option.splits)

lemma Geo_same:
  "same_rule c (fst (ReduceCheckGeoAgreement H c)) \<and> c_Grammems (fst (ReduceCheckGeoAgreement H c)) = c_Grammems c"
  by (auto simp: ReduceCheckGeoAgreement_def same_rule_def dest: geo_agreements_length split: option.splits)

lemma kw_set_same:
  assumes "check_kw_set H i s c = Inr (c', r)"
  shows "same_rule c c' \<and> (hg_Forms (c_Grammems c) = [] \<longrightarrow> c_Grammems c' = c_Grammems c)"
proof -
  have upd: "same_rule c (c\<lparr>c_ChildHomonyms := (c_ChildHomonyms c)[j := m], c_Grammems := g\<rparr>)" for j m g
    by (simp add: same_rule_def)
  show ?thesis
    using assms by (auto simp: check_kw_set_def Let_def hg_HasForms_def upd split: sum.splits prod.splits if_splits)
qed

lemma kw_sets_same:
  "check_kw_sets H ss c = Inr (c', r) \<Longrightarrow> same_rule c c' \<and> (hg_Forms (c_Grammems c) = [] \<longrightarrow> c_Grammems c' = c_Grammems c)"
proof (induction H ss c rule: check_kw_sets.induct)
  case (2 H i s ss c)
  obtain d b where d: "check_kw_set H i s c = Inr (d, b)" using 2(2) by (auto split: sum.splits)
  show ?case
  proof (cases b)
    case None
    then show ?thesis using 2 d kw_set_same [OF d] by (auto intro: same_rule_trans)
  next
    case (Some x)
    then show ?thesis using 2(2) d kw_set_same [OF d] by auto
  qed
qed simp

lemma and_then_True: "and_then m k = Inr (c, True) \<longleftrightarrow> (\<exists>d. m = Inr (d, True) \<and> k d = Inr (c, True))"
  by (auto simp: and_then_def split: sum.splits prod.splits if_splits)

lemma reading_True: "reading check c = Inr (d, True) \<longleftrightarrow> d = c \<and> check c = Inr True"
  by (auto simp: reading_def map_sum_def split: sum.splits)

lemma check_wf_sets_True:
  "check_wf_sets H c res = Inr True \<longleftrightarrow>
     list_all (\<lambda>(k, RE). RegexPattern RE \<noteq> [] \<and> (\<exists>w. wf_word RE (GetChildGroup c k) = Inr w \<and> Accepted H RE (m_txt (tw_Word w)))) res"
  by (induction res) (auto split: sum.splits if_splits)

lemma check_first_words_True:
  "check_first_words c cs = Inr True \<longleftrightarrow>
     list_all (\<lambda>(k, isFirst). \<exists>w. first_word_of (GetChildGroup c k) = Inr w \<and> (FirstWord (tw_SourcePair w) = 0) = isFirst) cs"
  by (induction cs) (auto split: sum.splits if_splits)

lemma GetHomIDs_bit:
  "bit (GetHomIDsByKWType P art w m) n \<longleftrightarrow> bit m n \<or> (n < 32 \<and> n \<in> set (IterHomonyms w) \<and> P (m_Homonyms w ! n) art)"
proof -
  have "bit (fold (\<lambda>i m. if P (m_Homonyms w ! i) art then m OR push_bit i 1 else m) is m) n \<longleftrightarrow>
      bit m n \<or> (n < 32 \<and> n \<in> set is \<and> P (m_Homonyms w ! n) art)" for "is" and m :: "32 word"
  proof (induction "is" arbitrary: m)
    case (Cons i "is")
    have "bit (if P (m_Homonyms w ! i) art then m OR push_bit i 1 else m) n \<longleftrightarrow> bit m n \<or> (n < 32 \<and> n = i \<and> P (m_Homonyms w ! n) art)"
      by (auto simp: bit_or_iff bit_hom simp del: push_bit_of_1)
    then show ?case by (simp add: Cons.IH del: push_bit_of_1) blast
  qed simp
  then show ?thesis by (simp add: GetHomIDsByKWType_def)
qed

lemma GetHomIDs_set_bit:
  "bit (fold (\<lambda>art. GetHomIDsByKWType P art w) arts m) n \<longleftrightarrow>
     bit m n \<or> (n < 32 \<and> n \<in> set (IterHomonyms w) \<and> (\<exists>art \<in> set arts. P (m_Homonyms w ! n) art))"
  by (induction arts arbitrary: m) (auto simp: GetHomIDs_bit)

section \<open>What an accepted alternative demands\<close>

text \<open>Steps made in turn, one for each element of a list.\<close>

inductive in_turn :: "('a \<Rightarrow> 's \<Rightarrow> 's \<Rightarrow> bool) \<Rightarrow> 'a list \<Rightarrow> 's \<Rightarrow> 's \<Rightarrow> bool" for R where
  in_turn_Nil: "in_turn R [] s s"
| in_turn_Cons: "R a s t \<Longrightarrow> in_turn R as t u \<Longrightarrow> in_turn R (a # as) s u"

text \<open>Wanted and unwanted grammemes of an item, and what is left of it.\<close>

definition grammems_checked :: "grams \<Rightarrow> grams \<Rightarrow> THomonymGrammems \<Rightarrow> THomonymGrammems \<Rightarrow> bool" where
  "grammems_checked P N h h' \<longleftrightarrow>
     (if hg_HasForms h then
        (N \<noteq> 0 \<longrightarrow> (\<forall>f \<in> set (hg_Forms h). \<not> HasAll f N)) \<and>
        (P \<noteq> 0 \<longrightarrow> hg_Forms h' \<noteq> [] \<and> set (hg_Forms h') = {f \<in> set (hg_Forms h). HasAll f P})
      else P \<noteq> 0 \<longrightarrow> hg_HasAll h P \<and> h' = hg_Reset_gram (ReplaceFeatures DefaultFeatures (hg_All h) P) h) \<and>
     (P = 0 \<longrightarrow> h' = h)"

lemma fold_insert_set: "set (fold (\<lambda>f b. if P f then bunch_insert f b else b) fs []) = {f \<in> set fs. P f}"
  using fold_insert_filter [of "[]" P fs] by simp

lemma CheckItemGrammems_unwanted_eq:
  assumes "CheckItemGrammems g False h = (h', True)"
  shows "h' = h \<and> (hg_HasForms h \<longrightarrow> (\<forall>f \<in> set (hg_Forms h). \<not> HasAll f g))"
  using assms by (auto simp: CheckItemGrammems_def find_None_iff split: if_splits option.splits)

lemma CheckItemGrammems_wanted_eq:
  assumes "CheckItemGrammems g True h = (h', True)" "g \<noteq> 0"
  shows "if hg_HasForms h then hg_Forms h' \<noteq> [] \<and> set (hg_Forms h') = {f \<in> set (hg_Forms h). HasAll f g}
    else hg_HasAll h g \<and> h' = hg_Reset_gram (ReplaceFeatures DefaultFeatures (hg_All h) g) h"
proof (cases "hg_HasForms h")
  case True
  let ?kept = "fold (\<lambda>f tmp. if HasAll f g then bunch_insert f tmp else tmp) (hg_Forms h) []"
  show ?thesis
  proof (cases "List.find (\<lambda>f. \<not> HasAll f g) (hg_Forms h)")
    case None
    then have "\<forall>f \<in> set (hg_Forms h). HasAll f g" by (simp add: find_None_iff)
    moreover have "h' = h" using assms(1) True None by (simp add: CheckItemGrammems_def)
    moreover note True
    ultimately show ?thesis by (auto simp: hg_HasForms_def)
  next
    case (Some x)
    then have "?kept \<noteq> [] \<and> h' = hg_Reset_forms ?kept h"
      using assms(1) True by (simp add: CheckItemGrammems_def Let_def split: if_splits)
    then show ?thesis using True fold_insert_set [of "\<lambda>f. HasAll f g" "hg_Forms h"] by (simp add: hg_Reset_forms_def)
  qed
next
  case False
  then show ?thesis
    using assms by (auto simp: CheckItemGrammems_def AssignOutputGrammems_eq Let_def split: if_splits)
qed

lemma PositiveNegative_checked:
  assumes "CheckItemPositiveNegativeGrammems P N h = (h', True)"
  shows "grammems_checked P N h h'"
proof -
  obtain h1 where N: "(if N \<noteq> 0 then CheckItemGrammems N False h else (h, True)) = (h1, True)"
    and P: "(if P \<noteq> 0 then CheckItemGrammems P True h1 else (h1, True)) = (h', True)"
    using assms unfolding CheckItemPositiveNegativeGrammems_def Let_def by (auto split: prod.splits if_splits)
  have h1: "h1 = h \<and> (N \<noteq> 0 \<longrightarrow> hg_HasForms h \<longrightarrow> (\<forall>f \<in> set (hg_Forms h). \<not> HasAll f N))"
    using N CheckItemGrammems_unwanted_eq [of N h h1] by (auto split: if_splits)
  have "P \<noteq> 0 \<Longrightarrow> (if hg_HasForms h then hg_Forms h' \<noteq> [] \<and> set (hg_Forms h') = {f \<in> set (hg_Forms h). HasAll f P}
      else hg_HasAll h P \<and> h' = hg_Reset_gram (ReplaceFeatures DefaultFeatures (hg_All h) P) h)"
    using P h1 CheckItemGrammems_wanted_eq [of P h h'] by simp
  then show ?thesis using P h1 unfolding grammems_checked_def by (auto split: if_splits)
qed

text \<open>
  The agreement of two children by a function of two sets of grammemes: their forms agree when both have forms, else the whole
  sets stand for them. In a mixed case the set without forms is always the second argument.
\<close>

definition sets_agree :: "(grams \<Rightarrow> grams \<Rightarrow> grams) \<Rightarrow> grams set \<Rightarrow> grams set \<Rightarrow> grams \<Rightarrow> grams \<Rightarrow> bool" where
  "sets_agree f F1 F2 A1 A2 \<longleftrightarrow>
     (if F1 = {} \<and> F2 = {} then f A1 A2 \<noteq> 0
      else if F1 = {} then \<exists>b \<in> F2. f b A1 \<noteq> 0
      else if F2 = {} then \<exists>a \<in> F1. f a A2 \<noteq> 0
      else \<exists>a \<in> F1. \<exists>b \<in> F2. f a b \<noteq> 0)"

text \<open>What a positive agreement leaves of the one child and of the other.\<close>

definition agreed_rest :: "(grams \<Rightarrow> grams \<Rightarrow> grams) \<Rightarrow> THomonymGrammems \<Rightarrow> THomonymGrammems \<Rightarrow> THomonymGrammems \<Rightarrow> THomonymGrammems \<Rightarrow> bool" where
  "agreed_rest f I1 I2 g1 g2 \<longleftrightarrow>
     (if hg_HasForms I1 then
        set (hg_Forms g1) = (if hg_HasForms I2 then {a \<in> set (hg_Forms I1). \<exists>b \<in> set (hg_Forms I2). f a b \<noteq> 0}
                             else {a \<in> set (hg_Forms I1). f a (hg_All I2) \<noteq> 0})
      else if \<not> hg_HasForms I2 then g1 = AssignOutputGrammems I1 (f (hg_All I1) (hg_All I2)) else True) \<and>
     (if hg_HasForms I2 then
        set (hg_Forms g2) = (if hg_HasForms I1 then {b \<in> set (hg_Forms I2). \<exists>a \<in> set (hg_Forms I1). f a b \<noteq> 0}
                             else {b \<in> set (hg_Forms I2). f b (hg_All I1) \<noteq> 0})
      else if \<not> hg_HasForms I1 then g2 = AssignOutputGrammems I2 (f (hg_All I1) (hg_All I2)) else True)"

definition pair_agrees ::
  "SAgr \<Rightarrow> 'g CWord \<Rightarrow> 'g CWord \<Rightarrow> THomonymGrammems \<Rightarrow> THomonymGrammems \<Rightarrow> THomonymGrammems \<Rightarrow> THomonymGrammems \<Rightarrow> bool" where
  "pair_agrees agr w1 w2 I1 I2 g1 g2 \<longleftrightarrow>
     (if word_HasUnknownPOS w1 \<and> hg_Empty I1 \<or> word_HasUnknownPOS w2 \<and> hg_Empty I2 then g1 = I1 \<and> g2 = I2
      else if m_bNegativeAgreement agr then
        g1 = I1 \<and> g2 = I2 \<and>
        (\<forall>f. GetGleicheFunc (e_AgrProcedure agr) = Some f \<longrightarrow> \<not> sets_agree f (word_forms w1 I1) (word_forms w2 I2) (hg_All I1) (hg_All I2))
      else \<exists>f. GetGleicheFunc (e_AgrProcedure agr) = Some f \<and>
        sets_agree f (set (hg_Forms I1)) (set (hg_Forms I2)) (hg_All I1) (hg_All I2) \<and> agreed_rest f I1 I2 g1 g2)"

lemma restore_fold:
  assumes "fold (\<lambda>g1 (res, r1, r2). let tmp = f g1 g in
      if tmp \<noteq> 0 then (res OR tmp, bunch_insert g1 r1, bunch_insert (restore_form tmp g) r2) else (res, r1, r2)) gs (u, r1, r2) = (u', r1', r2')"
    and "gramset.ordered r1"
  shows "(u' \<noteq> 0 \<longleftrightarrow> u \<noteq> 0 \<or> (\<exists>a \<in> set gs. f a g \<noteq> 0)) \<and> set r1' = set r1 \<union> {a \<in> set gs. f a g \<noteq> 0}"
  using assms
proof (induction gs arbitrary: u r1 r2)
  case (Cons a gs)
  show ?case
  proof (cases "f a g = 0")
    case True
    then show ?thesis using Cons.IH [of u r1 r2] Cons.prems by auto
  next
    case False
    then show ?thesis
      using Cons.IH [of "u OR f a g" "bunch_insert a r1" "bunch_insert (restore_form (f a g) g) r2"] Cons.prems
      by (auto simp: or_eq_0_iff Let_def)
  qed
qed simp

lemma RestoreForms_sets:
  assumes "GleicheAndRestoreForms gs g [] [] func = (u, r1, r2)" "GetGleicheFunc func = Some f"
  shows "(u \<noteq> 0 \<longleftrightarrow> (\<exists>a \<in> set gs. f a g \<noteq> 0)) \<and> set r1 = {a \<in> set gs. f a g \<noteq> 0}"
  using restore_fold [of f g gs 0 "[]" "[]" u r1 r2] assms by (simp add: GleicheAndRestoreForms_def)

text \<open>The agreement of \<open>agree_forms\<close> in terms of the forms, for the grammemes that are compared.\<close>

lemma agree_forms_sets:
  assumes "agree_forms proc a1 a2 I1 I2 = (agreed, g1, g2)" "GetGleicheFunc proc = Some f"
  shows "agreed = sets_agree f (set (hg_Forms a1)) (set (hg_Forms a2)) (hg_All I1) (hg_All I2)"
    and "a1 = I1 \<Longrightarrow> a2 = I2 \<Longrightarrow> agreed_rest f I1 I2 g1 g2"
proof -
  have nil: "gramset.ordered []" by simp
  have empty: "set xs = {} \<longleftrightarrow> xs = []" for xs :: TGrammarBunch by simp
  note one = RestoreForms_sets [OF _ assms(2)]
  note calc = agree_forms_def hg_HasForms_def hg_Reset_forms_def Let_def
  note spec = sets_agree_def agreed_rest_def hg_HasForms_def empty
  consider (none) "hg_Forms a1 = []" "hg_Forms a2 = []" | (second) "hg_Forms a1 = []" "hg_Forms a2 \<noteq> []"
    | (first) "hg_Forms a1 \<noteq> []" "hg_Forms a2 = []" | (both) "hg_Forms a1 \<noteq> []" "hg_Forms a2 \<noteq> []" by blast
  then have "agreed = sets_agree f (set (hg_Forms a1)) (set (hg_Forms a2)) (hg_All I1) (hg_All I2) \<and>
    (a1 = I1 \<longrightarrow> a2 = I2 \<longrightarrow> agreed_rest f I1 I2 g1 g2)"
  proof cases
    case none
    then show ?thesis using assms(1,2) by (auto simp: calc spec GleicheGrammems_single_def)
  next
    case second
    obtain u r1 r2 where G: "GleicheAndRestoreForms (hg_Forms a2) (hg_All I1) [] [] proc = (u, r1, r2)" using prod_cases3 by blast
    then have "agreed = (u \<noteq> 0)" "set (hg_Forms g2) = set r1" using assms(1) second by (auto simp: calc)
    then show ?thesis using second one [OF G] by (auto simp: spec)
  next
    case first
    obtain u r1 r2 where G: "GleicheAndRestoreForms (hg_Forms a1) (hg_All I2) [] [] proc = (u, r1, r2)" using prod_cases3 by blast
    then have "agreed = (u \<noteq> 0)" "set (hg_Forms g1) = set r1" using assms(1) first by (auto simp: calc)
    then show ?thesis using first one [OF G] by (auto simp: spec)
  next
    case both
    obtain u r1 r2 where G: "GleicheForms (hg_Forms a1) (hg_Forms a2) [] [] proc = (u, r1, r2)" using prod_cases3 by blast
    then have "agreed = (u \<noteq> 0)" "set (hg_Forms g1) = set r1" "set (hg_Forms g2) = set r2" using assms(1) both by (auto simp: calc)
    moreover have "u \<noteq> 0 \<longleftrightarrow> Gleiche (hg_Forms a1) (hg_Forms a2) (Some f)"
      using GleicheForms_step [OF nil nil assms(2) G] by (simp add: Gleiche_GleicheGrammems)
    ultimately show ?thesis
      using both GleicheForms_step [OF nil nil assms(2) G] by (auto simp: spec Gleiche_def list_ex_iff agreeing_def)
  qed
  then show "agreed = sets_agree f (set (hg_Forms a1)) (set (hg_Forms a2)) (hg_All I1) (hg_All I2)"
    "a1 = I1 \<Longrightarrow> a2 = I2 \<Longrightarrow> agreed_rest f I1 I2 g1 g2" by blast+
qed

lemma agree_children_ok:
  assumes "agree_children c agr i1 i2 I = Some J"
  shows "\<exists>g1 g2. J = I[i1 := g1, i2 := g2] \<and>
    pair_agrees agr (tw_Word (rg_MainWord (GetChildGroup c i1))) (tw_Word (rg_MainWord (GetChildGroup c i2))) (I ! i1) (I ! i2) g1 g2"
proof -
  let ?w1 = "tw_Word (rg_MainWord (GetChildGroup c i1))" and ?w2 = "tw_Word (rg_MainWord (GetChildGroup c i2))"
    and ?I1 = "I ! i1" and ?I2 = "I ! i2" and ?neg = "m_bNegativeAgreement agr"
  let ?a1 = "if ?neg then join_homonyms ?w1 ?I1 else ?I1" and ?a2 = "if ?neg then join_homonyms ?w2 ?I2 else ?I2"
  have same: "I[i1 := ?I1, i2 := ?I2] = I" by simp
  obtain agreed g1 g2 where A: "agree_forms (e_AgrProcedure agr) ?a1 ?a2 ?I1 ?I2 = (agreed, g1, g2)" using prod_cases3 by blast
  show ?thesis
  proof (cases "word_HasUnknownPOS ?w1 \<and> hg_Empty ?I1 \<or> word_HasUnknownPOS ?w2 \<and> hg_Empty ?I2")
    case True
    then have "J = I" using assms by (simp add: agree_children_def Let_def)
    then show ?thesis using True same unfolding pair_agrees_def by metis
  next
    case False
    have J: "agreed \<noteq> ?neg" "J = (if agreed then I[i1 := g1, i2 := g2] else I)"
      using assms False A by (simp_all add: agree_children_def Let_def split: if_splits)
    show ?thesis
    proof (cases ?neg)
      case True
      have "\<not> sets_agree f (word_forms ?w1 ?I1) (word_forms ?w2 ?I2) (hg_All ?I1) (hg_All ?I2)"
        if "GetGleicheFunc (e_AgrProcedure agr) = Some f" for f
        using agree_forms_sets(1) [OF A that] J(1) True by (simp add: join_homonyms_Forms(1))
      then have "pair_agrees agr ?w1 ?w2 ?I1 ?I2 ?I1 ?I2" using False True by (simp add: pair_agrees_def)
      moreover have "J = I" using J True by simp
      ultimately show ?thesis using same by metis
    next
      case pos: False
      obtain f where f: "GetGleicheFunc (e_AgrProcedure agr) = Some f"
        using A J(1) pos by (cases "GetGleicheFunc (e_AgrProcedure agr)")
          (auto simp: agree_forms_def GleicheGrammems_single_def GleicheAndRestoreForms_def GleicheForms_def Let_def split: if_splits)
      then have "pair_agrees agr ?w1 ?w2 ?I1 ?I2 g1 g2"
        using agree_forms_sets [OF A f] J(1) pos False by (auto simp: pair_agrees_def)
      then show ?thesis using J pos by auto
    qed
  qed
qed

text \<open>
  One agreement of a rule, on the children's grammemes before it and after it. A child is that with the number of the item; an
  agreement of a subject with its predicate or by gender, number and case takes the second child first if its word can be a noun.
\<close>

definition quotes_ok :: "'g CTomitaItemsHolder \<Rightarrow> 'g CReduceGroup \<Rightarrow> SAgr \<Rightarrow> bool" where
  "quotes_ok H p agr \<longleftrightarrow>
     (let opening = HasOpenQuote (h_ChainWords H (FirstWord (group_Pair (rg_Group p))));
          closing = HasCloseQuote (h_ChainWords H (LastWord (group_Pair (rg_Group p))))
      in (e_AgrProcedure agr = CheckQuoted \<longrightarrow> (opening \<and> closing) \<noteq> m_bNegativeAgreement agr) \<and>
         (e_AgrProcedure agr = CheckLQuoted \<longrightarrow> opening \<noteq> m_bNegativeAgreement agr) \<and>
         (e_AgrProcedure agr = CheckRQuoted \<longrightarrow> closing \<noteq> m_bNegativeAgreement agr))"

definition noun_first :: "SAgr \<Rightarrow> 'g CWord \<Rightarrow> bool" where
  "noun_first agr w \<longleftrightarrow> (e_AgrProcedure agr = SubjVerb \<or> e_AgrProcedure agr = GendreNumberCase) \<and> HasMorphNoun w"

definition agreement_ok ::
  "'g CTomitaItemsHolder \<Rightarrow> 'g CReduceGroup list \<Rightarrow> SAgr \<Rightarrow> THomonymGrammems list \<Rightarrow> THomonymGrammems list \<Rightarrow> bool" where
  "agreement_ok H children agr I J \<longleftrightarrow>
     (let item = \<lambda>k. nat (m_AgreeItems agr ! k); main = \<lambda>k. rg_MainWord (children ! k)
      in if e_AgrProcedure agr = GeoAgr then J = I
         else if length (m_AgreeItems agr) = 1 then
           (if e_AgrProcedure agr = CoordFuncCount then
              \<exists>g. J = I[item 0 := g] \<and> grammems_checked (to_grams (agr_Grammems agr)) (to_grams (agr_NegativeGrammems agr)) (I ! item 0) g
            else (children \<noteq> [] \<longrightarrow> quotes_ok H (children ! item 0) agr) \<and> J = I)
         else if e_AgrProcedure agr = FioAgr then CheckFioAgreement (main (item 0)) (main (item 1)) \<and> J = I
         else \<exists>i1 i2 g1 g2. (i1, i2) = (if noun_first agr (tw_Word (main (item 1))) then (item 1, item 0) else (item 0, item 1)) \<and>
           J = I[i1 := g1, i2 := g2] \<and> pair_agrees agr (tw_Word (main i1)) (tw_Word (main i2)) (I ! i1) (I ! i2) g1 g2)"

lemma check_agreement_ok:
  assumes "check_agreement H c agr I = Some J"
  shows "agreement_ok H (c_Children c) agr I J"
proof -
  let ?item = "\<lambda>k. nat (m_AgreeItems agr ! k)" and ?main = "\<lambda>k. rg_MainWord (c_Children c ! k)"
  consider (geo) "e_AgrProcedure agr = GeoAgr" | (quoted) "e_AgrProcedure agr \<noteq> GeoAgr" "length (m_AgreeItems agr) = 1" "e_AgrProcedure agr \<noteq> CoordFuncCount"
    | (gram) "length (m_AgreeItems agr) = 1" "e_AgrProcedure agr = CoordFuncCount"
    | (fio) "length (m_AgreeItems agr) \<noteq> 1" "e_AgrProcedure agr = FioAgr"
    | (agr) "e_AgrProcedure agr \<noteq> GeoAgr" "length (m_AgreeItems agr) \<noteq> 1" "e_AgrProcedure agr \<noteq> FioAgr" by blast
  then show ?thesis
  proof cases
    case geo
    then show ?thesis using assms by (simp add: check_agreement_def agreement_ok_def)
  next
    case quoted
    then have "m_AgreeItems agr = [m_AgreeItems agr ! 0]" by (cases "m_AgreeItems agr") simp_all
    then have ends: "hd (m_AgreeItems agr) = m_AgreeItems agr ! 0" "last (m_AgreeItems agr) = m_AgreeItems agr ! 0" by (metis list.sel(1), metis last.simps)
    have "J = I" "ReduceCheckQuotedPositions H c agr" using assms quoted by (simp_all add: check_agreement_def split: if_splits)
    then show ?thesis using quoted ends
      by (auto simp: agreement_ok_def quotes_ok_def ReduceCheckQuotedPositions_def GetFirstAgrWord_def GetLastAgrWord_def GetChildGroup_def Let_def)
  next
    case gram
    let ?P = "to_grams (agr_Grammems agr)" and ?N = "to_grams (agr_NegativeGrammems agr)"
    obtain g where "CheckItemPositiveNegativeGrammems ?P ?N (I ! ?item 0) = (g, True)" "J = I[?item 0 := g]"
      using assms gram by (auto simp: check_agreement_def Let_def split: prod.splits if_splits)
    then show ?thesis using gram PositiveNegative_checked by (auto simp: agreement_ok_def Let_def)
  next
    case fio
    then show ?thesis using assms by (auto simp: check_agreement_def agreement_ok_def GetChildGroup_def Let_def split: if_splits)
  next
    case agr
    obtain i1 i2 where i: "(i1, i2) = (if noun_first agr (tw_Word (?main (?item 1))) then (?item 1, ?item 0) else (?item 0, ?item 1))"
      by (metis surj_pair)
    have "agree_children c agr i1 i2 I = Some J"
      using assms agr i by (auto simp: check_agreement_def noun_first_def GetChildGroup_def Let_def split: if_splits)
    from agree_children_ok [OF this] i
    have "\<exists>i1 i2 g1 g2. (i1, i2) = (if noun_first agr (tw_Word (?main (?item 1))) then (?item 1, ?item 0) else (?item 0, ?item 1)) \<and>
      J = I[i1 := g1, i2 := g2] \<and> pair_agrees agr (tw_Word (?main i1)) (tw_Word (?main i2)) (I ! i1) (I ! i2) g1 g2"
      unfolding GetChildGroup_def by blast
    then show ?thesis using agr unfolding agreement_ok_def Let_def by (simp only: if_False simp_thms)
  qed
qed

lemma check_agreements_ok:
  "check_agreements H c agrs I = Some J \<Longrightarrow> in_turn (agreement_ok H (c_Children c)) agrs I J"
  by (induction agrs arbitrary: I) (auto intro: in_turn.intros check_agreement_ok split: option.splits)

text \<open>
  A union of grammemes of a child: a disjunction of wanted and unwanted grammemes, each for single forms or for the whole set of
  the child before the agreements. The forms left are among those of the alternatives that hold.
\<close>

definition union_passes :: "'g CReduceGroup \<Rightarrow> SGrammemUnion \<Rightarrow> nat \<Rightarrow> THomonymGrammems \<Rightarrow> THomonymGrammems \<Rightarrow> bool" where
  "union_passes p u i h h' \<longleftrightarrow>
     (let P = to_grams (m_GramUnion u ! i); N = to_grams (m_NegGramUnion u ! i)
      in if m_CheckFormGrammem u ! i then grammems_checked P N h h'
         else \<not> (N \<noteq> 0 \<and> hg_HasAll (rg_Grammems p) N) \<and> hg_HasAll (rg_Grammems p) P \<and> h' = h)"

definition union_ok ::
  "'g CReduceGroup list \<Rightarrow> nat \<times> SGrammemUnion \<Rightarrow> THomonymGrammems list \<Rightarrow> THomonymGrammems list \<Rightarrow> bool" where
  "union_ok children ku I J \<longleftrightarrow>
     (let (k, u) = ku
      in if m_GramUnion u = [] then J = I
         else \<exists>g. J = I[k := g] \<and> \<not> hg_Empty g \<and>
           (\<exists>i < length (m_GramUnion u). \<exists>h. union_passes (children ! k) u i (I ! k) h) \<and>
           (\<forall>f \<in> set (hg_Forms g). \<exists>i < length (m_GramUnion u). \<exists>h. union_passes (children ! k) u i (I ! k) h \<and> f \<in> set (hg_Forms h)))"

lemma fold_joins:
  assumes "\<And>i R. step i R = R \<or> (\<exists>h. Q i h \<and> step i R = hg_join R h)"
  shows "(fold step is R = R \<or> (\<exists>i \<in> set is. \<exists>h. Q i h)) \<and>
    (\<forall>f \<in> set (hg_Forms (fold step is R)). f \<in> set (hg_Forms R) \<or> (\<exists>i \<in> set is. \<exists>h. Q i h \<and> f \<in> set (hg_Forms h)))"
proof (induction "is" arbitrary: R)
  case (Cons i "is")
  consider "step i R = R" | h where "Q i h" "step i R = hg_join R h" using assms by blast
  then show ?case
  proof cases
    case 1
    then show ?thesis using Cons.IH [of R] by auto
  next
    case (2 h)
    then show ?thesis using Cons.IH [of "hg_join R h"] by (auto simp: hg_join_Forms)
  qed
qed simp

lemma grammem_union_child_ok:
  fixes c :: "'g SReduceConstraints"
  defines "Q \<equiv> \<lambda>u k P i. union_passes (c_Children c ! k) u i P"
  shows "(hg_Empty (grammem_union_child c k u P) \<or> (\<exists>i < length (m_GramUnion u). \<exists>h. Q u k P i h)) \<and>
    (\<forall>f \<in> set (hg_Forms (grammem_union_child c k u P)). \<exists>i < length (m_GramUnion u). \<exists>h. Q u k P i h \<and> f \<in> set (hg_Forms h))"
proof -
  let ?step = "\<lambda>i ResInterp.
         let pos = to_grams (m_GramUnion u ! i); neg = to_grams (m_NegGramUnion u ! i)
         in if m_CheckFormGrammem u ! i then
              (case CheckItemPositiveNegativeGrammems pos neg P of (g, ok) \<Rightarrow> if ok then hg_join ResInterp g else ResInterp)
            else if CheckItemPositiveNegativeUnitedGrammems pos neg k (c_Children c) then hg_join ResInterp P
            else ResInterp"
  have step: "?step i R = R \<or> (\<exists>h. Q u k P i h \<and> ?step i R = hg_join R h)" for i R
    unfolding Q_def union_passes_def Let_def CheckItemPositiveNegativeUnitedGrammems_def
    by (auto split: prod.splits if_splits intro: PositiveNegative_checked)
  obtain F where F: "grammem_union_child c k u P = F" and fold_F: "F = fold ?step [0..<length (m_GramUnion u)] hg_empty"
    by (simp only: grammem_union_child_def)
  have "(F = hg_empty \<or> (\<exists>i \<in> set [0..<length (m_GramUnion u)]. \<exists>h. Q u k P i h)) \<and>
      (\<forall>f \<in> set (hg_Forms F). f \<in> set (hg_Forms hg_empty) \<or> (\<exists>i \<in> set [0..<length (m_GramUnion u)]. \<exists>h. Q u k P i h \<and> f \<in> set (hg_Forms h)))"
    unfolding fold_F by (rule fold_joins [of ?step "Q u k P", OF step])
  then show ?thesis unfolding F by (simp add: hg_empty_def hg_Empty_def Bex_def atLeast0LessThan) (elim conjE disjE; simp)
qed

lemma grammem_unions_ok:
  "grammem_unions c us I = (J, True) \<Longrightarrow> in_turn (union_ok (c_Children c)) us I J"
proof (induction us arbitrary: I)
  case (Cons ku us)
  obtain k u where ku: "ku = (k, u)" by force
  let ?g = "grammem_union_child c k u (I ! k)" and ?I = "if m_GramUnion u = [] then I else I[k := grammem_union_child c k u (I ! k)]"
  have "m_GramUnion u \<noteq> [] \<Longrightarrow> \<not> hg_Empty ?g" and rest: "grammem_unions c us ?I = (J, True)"
    using Cons.prems by (auto simp: ku Let_def split: if_splits)
  then have "union_ok (c_Children c) ku I ?I"
    using grammem_union_child_ok [of c k u "I ! k"] by (auto simp: union_ok_def ku)
  then show ?case using Cons.IH [OF rest] by (rule in_turn_Cons)
qed (auto intro: in_turn_Nil)

text \<open>
  A keyword set: its word has none of the unwanted articles, or a homonym with a wanted one. The sets after one on a word with several
  active homonyms are looked at only if no homonym outside these has a wanted article, and if the set is not of unwanted ones.
\<close>

definition has_wanted :: "'g CTomitaItemsHolder \<Rightarrow> SKWSet \<Rightarrow> 'g CWord \<Rightarrow> nat \<Rightarrow> bool" where
  "has_wanted H s w i \<longleftrightarrow> i \<in> set (IterHomonyms w) \<and> list_ex (kw_HasArticle H (m_Homonyms w ! i)) (m_KWset s)"

definition kw_ok :: "'g CTomitaItemsHolder \<Rightarrow> 'g CReduceGroup \<Rightarrow> SKWSet \<Rightarrow> bool" where
  "kw_ok H p s \<longleftrightarrow>
     (case kw_word s p of Inl e \<Rightarrow> False | Inr (tw, n, old) \<Rightarrow> (\<exists>i. has_wanted H s (tw_Word tw) i) \<noteq> kw_bNegative s)"

definition kw_may_end :: "'g CTomitaItemsHolder \<Rightarrow> 'g CReduceGroup \<Rightarrow> SKWSet \<Rightarrow> bool" where
  "kw_may_end H p s \<longleftrightarrow>
     (case kw_word s p of Inl e \<Rightarrow> False
      | Inr (tw, n, old) \<Rightarrow> \<not> HasOnlyOneHomId old \<and> (kw_bNegative s \<or> (\<exists>i. has_wanted H s (tw_Word tw) i \<and> \<not> bit old i)))"

fun kw_sets_ok :: "'g CTomitaItemsHolder \<Rightarrow> 'g CReduceGroup list \<Rightarrow> (nat \<times> SKWSet) list \<Rightarrow> bool" where
  "kw_sets_ok H children [] \<longleftrightarrow> True"
| "kw_sets_ok H children ((k, s) # ss) \<longleftrightarrow>
     kw_ok H (children ! k) s \<and> (kw_may_end H (children ! k) s \<or> kw_sets_ok H children ss)"

lemma word_HasArticle_iff: "word_HasArticle H art w \<longleftrightarrow> (\<exists>i \<in> set (IterHomonyms w). kw_HasArticle H (m_Homonyms w ! i) art)"
proof (cases "List.find (\<lambda>i. kw_HasArticle H (m_Homonyms w ! i) art) (IterHomonyms w)")
  case None
  then have "\<not> (\<exists>i \<in> set (IterHomonyms w). kw_HasArticle H (m_Homonyms w ! i) art)" by (simp add: find_None_iff)
  then show ?thesis by (simp add: word_HasArticle_def first_homonym_def None)
next
  case (Some i)
  then have "\<exists>i \<in> set (IterHomonyms w). kw_HasArticle H (m_Homonyms w ! i) art" by (metis find_Some_iff nth_mem)
  then show ?thesis by (simp add: word_HasArticle_def first_homonym_def Some)
qed

lemma check_kw_set_ok:
  assumes "check_kw_set H k s c = Inr (d, r)" "r \<noteq> Some False"
  shows "kw_ok H (c_Children c ! k) s \<and> (r = None \<or> kw_may_end H (c_Children c ! k) s)"
proof -
  obtain tw n old where w: "kw_word s (c_Children c ! k) = Inr (tw, n, old)"
    using assms(1) by (auto simp: check_kw_set_def GetChildGroup_def split: sum.splits)
  let ?w = "tw_Word tw"
  let ?used = "fold (\<lambda>art. GetHomIDsByKWType (kw_HasArticle H) art ?w) (m_KWset s) 0"
  let ?m = "if c_ChildHomonyms c ! k \<noteq> 0 then ?used AND c_ChildHomonyms c ! k else ?used"
  have used: "bit ?used i \<Longrightarrow> has_wanted H s ?w i" for i by (auto simp: GetHomIDs_set_bit has_wanted_def list_ex_iff)
  show ?thesis
  proof (cases "kw_bNegative s")
    case True
    have "\<not> list_ex (\<lambda>art. word_HasArticle H art ?w) (m_KWset s)" using assms True w by (auto simp: check_kw_set_def GetChildGroup_def)
    then have "\<not> (\<exists>i. has_wanted H s ?w i)" by (auto simp: word_HasArticle_iff has_wanted_def list_ex_iff)
    moreover have "r = None \<or> \<not> HasOnlyOneHomId old" using assms True w by (auto simp: check_kw_set_def GetChildGroup_def Let_def split: if_splits)
    ultimately show ?thesis using True w by (auto simp: kw_ok_def kw_may_end_def)
  next
    case False
    have m: "?m \<noteq> 0" and r: "r = None \<or> \<not> HasOnlyOneHomId old \<and> old AND ?m = 0"
      using assms False w by (auto simp: check_kw_set_def GetChildGroup_def Let_def split: if_splits)
    obtain i where i: "bit ?m i" using m unfolding hom_nonzero by blast
    then have want: "has_wanted H s ?w i" using used by (auto simp: bit_and_iff split: if_splits)
    have "\<not> bit old i" if "old AND ?m = 0" using that i by (metis bit_0_eq bit_and_iff bot_apply bot_bool_def)
    then show ?thesis using r want False w by (auto simp: kw_ok_def kw_may_end_def)
  qed
qed

lemma check_kw_sets_ok:
  "check_kw_sets H ss c = Inr (d, True) \<Longrightarrow> kw_sets_ok H (c_Children c) ss"
proof (induction H ss c rule: check_kw_sets.induct)
  case (2 H k s ss c)
  obtain e r where r: "check_kw_set H k s c = Inr (e, r)" using 2(2) by (auto split: sum.splits)
  have "r \<noteq> Some False" using 2(2) r by auto
  note ok = check_kw_set_ok [OF r this]
  show ?case
  proof (cases r)
    case None
    then have "kw_sets_ok H (c_Children e) ss" using 2 r by simp
    moreover have "c_Children e = c_Children c" using kw_set_same [OF r] by (simp add: same_rule_def)
    ultimately show ?thesis using ok by simp
  next
    case (Some b)
    then show ?thesis using ok by simp
  qed
qed simp

lemma drop_forms_subset: "set (hg_Forms (drop_forms w m d g)) \<subseteq> set (hg_Forms g)"
  by (auto simp: drop_forms_def hg_Reset_forms_def fold_insert_set Let_def)

lemma kw_sets_forms:
  "check_kw_sets H ss c = Inr (d, r) \<Longrightarrow> set (hg_Forms (c_Grammems d)) \<subseteq> set (hg_Forms (c_Grammems c))"
proof (induction H ss c rule: check_kw_sets.induct)
  case (2 H k s ss c)
  obtain e b where e: "check_kw_set H k s c = Inr (e, b)" using 2(2) by (auto split: sum.splits)
  have sub: "set (hg_Forms (c_Grammems e)) \<subseteq> set (hg_Forms (c_Grammems c))"
    using e by (auto simp: check_kw_set_def Let_def dest: subsetD [OF drop_forms_subset] split: sum.splits prod.splits if_splits)
  show ?case
  proof (cases b)
    case None
    then have "set (hg_Forms (c_Grammems d)) \<subseteq> set (hg_Forms (c_Grammems e))" using 2 e by simp
    then show ?thesis using sub by blast
  next
    case (Some x)
    then show ?thesis using 2(2) e sub by simp
  qed
qed simp

text \<open>
  An agreement of places: each two children whose numbers follow each other and are below the number of the items have homonyms
  with related places, or with unrelated ones if the agreement is negative.
\<close>

definition places_ok :: "'g CTomitaItemsHolder \<Rightarrow> 'g CReduceGroup list \<Rightarrow> SAgr \<Rightarrow> bool" where
  "places_ok H children agr \<longleftrightarrow>
     e_AgrProcedure agr = GeoAgr \<longrightarrow>
       (\<forall>k \<in> {1..<length (m_AgreeItems agr)}.
         let w1 = tw_Word (rg_MainWord (children ! (k - 1))); w2 = tw_Word (rg_MainWord (children ! k))
         in \<exists>i \<in> set (IterHomonyms w1). \<exists>j \<in> set (IterHomonyms w2).
              IsRelatedGeo H (m_Homonyms w1 ! i) (m_Homonyms w2 ! j) \<noteq> m_bNegativeAgreement agr)"

lemma HaveRelatedGeo_Some:
  assumes "HaveRelatedGeo H negate w1 w2 hom1 hom2 = Some masks"
  shows "\<exists>i \<in> set (IterHomonyms w1). \<exists>j \<in> set (IterHomonyms w2). IsRelatedGeo H (m_Homonyms w1 ! i) (m_Homonyms w2 ! j) \<noteq> negate"
proof -
  let ?R = "\<lambda>i j. IsRelatedGeo H (m_Homonyms w1 ! i) (m_Homonyms w2 ! j) \<noteq> negate"
  have sub: "i \<in> set (IterMask w m) \<Longrightarrow> i \<in> set (IterHomonyms w)" for i and w :: "'a CWord" and m
    by (auto simp: IterMask_def Let_def dest!: in_set_takeD in_set_dropD set_takeWhileD)
  obtain r1 r2 where f: "fold (\<lambda>i. fold (\<lambda>j (r1, r2). if ?R i j then (r1 OR push_bit i 1, r2 OR push_bit j 1) else (r1, r2))
      (IterMask w2 hom2)) (IterMask w1 hom1) (0, 0) = (r1 :: 32 word, r2 :: 32 word)" using prod.exhaust by blast
  have "r1 \<noteq> 0" using assms f by (simp add: HaveRelatedGeo_def del: push_bit_of_1 split: if_splits)
  then obtain n where "bit r1 n" unfolding hom_nonzero by blast
  then have "n \<in> set (IterMask w1 hom1) \<and> (\<exists>j \<in> set (IterMask w2 hom2). ?R n j)" using related_rows [where R = ?R, OF f, of n] by auto
  then show ?thesis using sub by blast
qed

lemma geo_pairs_ok:
  "geo_pairs H c negate is homs = Some homs' \<Longrightarrow> \<forall>k \<in> set is.
     \<exists>i \<in> set (IterHomonyms (tw_Word (rg_MainWord (GetChildGroup c (k - 1))))).
     \<exists>j \<in> set (IterHomonyms (tw_Word (rg_MainWord (GetChildGroup c k)))).
       IsRelatedGeo H (m_Homonyms (tw_Word (rg_MainWord (GetChildGroup c (k - 1)))) ! i)
         (m_Homonyms (tw_Word (rg_MainWord (GetChildGroup c k))) ! j) \<noteq> negate"
proof (induction "is" arbitrary: homs)
  case (Cons k "is")
  then show ?case using HaveRelatedGeo_Some by (fastforce simp: Let_def split: option.splits)
qed simp

lemma geo_agreements_ok:
  "geo_agreements H c agrs homs = Some homs' \<Longrightarrow> list_all (places_ok H (c_Children c)) agrs"
proof (induction agrs arbitrary: homs)
  case (Cons agr agrs)
  show ?case
  proof (cases "e_AgrProcedure agr = GeoAgr")
    case True
    then obtain homs1 where 1: "geo_pairs H c (m_bNegativeAgreement agr) [1..<length (m_AgreeItems agr)] homs = Some homs1"
      "geo_agreements H c agrs homs1 = Some homs'" using Cons.prems by (auto split: option.splits)
    have "places_ok H (c_Children c) agr"
      using geo_pairs_ok [OF 1(1)] unfolding places_ok_def Let_def set_upt GetChildGroup_def by blast
    then show ?thesis using Cons.IH [OF 1(2)] by simp
  next
    case False
    then show ?thesis using Cons by (auto simp: places_ok_def)
  qed
qed simp

text \<open>
  What an accepted alternative demands of the children, the size and the grammemes of the new group. These are of the main child
  after the agreements and the unions, less the forms that the keyword sets drop, or those with the output grammemes.
\<close>

definition grammems_ok ::
  "'g CTomitaItemsHolder \<Rightarrow> 'g CReduceGroup list \<Rightarrow> nat \<Rightarrow> THomonymGrammems \<Rightarrow> SRuleConstraints \<Rightarrow> bool" where
  "grammems_ok H children iMain g info \<longleftrightarrow>
     (\<exists>I J. in_turn (agreement_ok H children) (m_RulesAgrs info) (map rg_Grammems children) I \<and>
       in_turn (union_ok children) (m_RuleGrammemUnion info) I J \<and>
       (let out = to_grams (m_OutGrammems (m_ExtraRuleInfo info))
        in if out \<noteq> 0 then g = hg_Reset_gram (ReplaceFeatures DefaultFeatures (hg_All (J ! iMain)) out) (J ! iMain)
           else set (hg_Forms g) \<subseteq> set (hg_Forms (J ! iMain)) \<and> (\<not> hg_HasForms (J ! iMain) \<longrightarrow> g = J ! iMain)))"

definition alternative_ok ::
  "'g CTomitaItemsHolder \<Rightarrow> 'g CReduceGroup list \<Rightarrow> nat \<Rightarrow> nat \<Rightarrow> THomonymGrammems \<Rightarrow> SRuleConstraints \<Rightarrow> bool" where
  "alternative_ok H children iMain chain_size g info \<longleftrightarrow>
     chain_size \<le> m_OutCount (m_ExtraRuleInfo info) \<and> grammems_ok H children iMain g info \<and>
     kw_sets_ok H children (m_KWSets info) \<and>
     list_all (\<lambda>(k, RE). RegexPattern RE \<noteq> [] \<and> (\<exists>w. wf_word RE (children ! k) = Inr w \<and> Accepted H RE (m_txt (tw_Word w))))
       (m_WFRegExps info) \<and>
     list_all (\<lambda>(k, isFirst). \<exists>w. first_word_of (children ! k) = Inr w \<and> (FirstWord (tw_SourcePair w) = 0) = isFirst)
       (m_FirstWordConstraints info) \<and>
     (m_bNotHRegFact (m_ExtraRuleInfo info) \<longrightarrow>
        (\<forall>p \<in> set children. rg_IsFactGroup p \<longrightarrow> rg_Facts p = []) \<or>
        (\<exists>p \<in> set children. rg_IsFactGroup p \<and> (\<exists>fact \<in> set (rg_Facts p). \<exists>WP. Some WP \<in> set fact \<and> \<not> IsWSUpperCase H WP))) \<and>
     list_all (places_ok H children) (m_RulesAgrs info)"

lemma GroupAgreement_ok:
  assumes "ReduceCheckGroupAgreement H c = (d, True)"
  shows "\<exists>I J. in_turn (agreement_ok H (c_Children c)) (m_RulesAgrs (constr_Get c)) (map rg_Grammems (c_Children c)) I \<and>
    in_turn (union_ok (c_Children c)) (m_RuleGrammemUnion (constr_Get c)) I J \<and> c_Grammems d = J ! MainItemIndex c"
proof -
  let ?c = "c\<lparr>c_Grammems := hg_Reset (c_Grammems c)\<rparr>"
  have adjust: "c_Grammems (AdjustChildHomonyms H I e) = c_Grammems e" for I and e :: "'a SReduceConstraints"
  proof -
    have "c_Grammems (fold f is e) = c_Grammems e" if "\<And>i e. c_Grammems (f i e) = c_Grammems e" for f "is" and e :: "'a SReduceConstraints"
      by (induction "is" arbitrary: e) (simp_all add: that)
    note step = this
    show ?thesis unfolding AdjustChildHomonyms_def Let_def by (rule step) simp
  qed
  have get: "constr_Get ?c = constr_Get c" "c_Children ?c = c_Children c" by (simp_all add: constr_Get_def)
  obtain I J where I: "check_agreements H ?c (m_RulesAgrs (constr_Get ?c)) (map rg_Grammems (c_Children ?c)) = Some I"
    and J: "ReduceCheckGrammemUnion ?c I = (J, True)" and d: "d = AdjustChildHomonyms H J (?c\<lparr>c_Grammems := J ! MainItemIndex ?c\<rparr>)"
    using assms by (auto simp: ReduceCheckGroupAgreement_def Let_def split: option.splits prod.splits if_splits)
  have "c_Grammems d = J ! MainItemIndex c" unfolding d adjust by simp
  then show ?thesis
    using check_agreements_ok [OF I] grammem_unions_ok [OF J [unfolded ReduceCheckGrammemUnion_def]] unfolding get by blast
qed

lemma NotHRegFact_iff:
  "ReduceCheckNotHRegFact H c \<Longrightarrow> m_bNotHRegFact (m_ExtraRuleInfo (constr_Get c)) \<Longrightarrow>
     (\<forall>p \<in> set (c_Children c). rg_IsFactGroup p \<longrightarrow> rg_Facts p = []) \<or>
     (\<exists>p \<in> set (c_Children c). rg_IsFactGroup p \<and> (\<exists>fact \<in> set (rg_Facts p). \<exists>WP. Some WP \<in> set fact \<and> \<not> IsWSUpperCase H WP))"
  by (fastforce simp: ReduceCheckNotHRegFact_def Let_def list_ex_iff split: if_splits option.splits)

lemma check_alternative_ok:
  assumes "check_alternative H c = Inr (c', True)"
  shows "same_rule c c' \<and> alternative_ok H (c_Children c) (MainItemIndex c) (ChainSize c) (c_Grammems c') (constr_Get c)"
proof -
  obtain c1 c2 c3 c4 c5 where steps:
    "ReduceCheckGroupAgreement H c = (c1, True)" "ReduceCheckOutputGrammems c1 = (c2, True)" "ReduceCheckOutputGroupSize c2"
    "ReduceCheckKWSets H c2 = Inr (c3, True)" "ReduceCheckWFSets H c3 = Inr True" "ReduceCheckTrim c3 = (c4, True)"
    "ReduceCheckLeftDominantRecessive c4 = (c5, True)" "ReduceCheckFirstWord c5 = Inr True" "ReduceCheckNotHRegFact H c5"
    "ReduceCheckGeoAgreement H c5 = (c', True)"
    using assms unfolding check_alternative_def and_then_True reading_True by auto
  have 1: "same_rule c c1" using GroupAgreement_same [of c H] steps(1) by simp
  have 2: "same_rule c c2" using 1 OutputGrammems_same [of c1] steps(2) by (auto intro: same_rule_trans)
  have kw: "same_rule c2 c3" "hg_Forms (c_Grammems c2) = [] \<Longrightarrow> c_Grammems c3 = c_Grammems c2"
    using kw_sets_same steps(4) unfolding ReduceCheckKWSets_def by blast+
  have 3: "same_rule c c3" using 2 kw(1) by (rule same_rule_trans)
  have 4: "same_rule c c4" using 3 Trim_same [of c3] steps(6) by (auto intro: same_rule_trans)
  have 5: "same_rule c c5" using 4 Dominant_same [of c4] steps(7) by (auto intro: same_rule_trans)
  have 6: "same_rule c c'" using 5 Geo_same [of c5 H] steps(10) by (auto intro: same_rule_trans)
  have g: "c_Grammems c' = c_Grammems c3"
    using Trim_same [of c3] Dominant_same [of c4] Geo_same [of c5 H] steps(6,7,10) by simp
  let ?info = "constr_Get c" and ?out = "to_grams (m_OutGrammems (m_ExtraRuleInfo (constr_Get c)))"
  obtain I J where IJ: "in_turn (agreement_ok H (c_Children c)) (m_RulesAgrs ?info) (map rg_Grammems (c_Children c)) I"
    "in_turn (union_ok (c_Children c)) (m_RuleGrammemUnion ?info) I J" "c_Grammems c1 = J ! MainItemIndex c"
    using GroupAgreement_ok [OF steps(1)] by blast
  let ?G = "J ! MainItemIndex c"
  have out: "c_Grammems c2 = AssignOutputGrammems ?G ?out"
    using steps(2) same_rule_Get [OF 1] IJ(3) by (auto simp: ReduceCheckOutputGrammems_def AssignOutputGrammems_def Let_def)
  have "if ?out \<noteq> 0 then c_Grammems c' = hg_Reset_gram (ReplaceFeatures DefaultFeatures (hg_All ?G) ?out) ?G
      else set (hg_Forms (c_Grammems c')) \<subseteq> set (hg_Forms ?G) \<and> (\<not> hg_HasForms ?G \<longrightarrow> c_Grammems c' = ?G)"
  proof (cases "?out = 0")
    case True
    then have "c_Grammems c2 = ?G" by (simp add: out AssignOutputGrammems_def)
    then show ?thesis using True g kw(2) kw_sets_forms [OF steps(4) [unfolded ReduceCheckKWSets_def]] by (simp add: hg_HasForms_def)
  next
    case False
    then have "hg_Forms (c_Grammems c2) = []" by (simp add: out AssignOutputGrammems_Forms)
    then show ?thesis using False g kw(2) by (simp add: out AssignOutputGrammems_eq)
  qed
  then have "grammems_ok H (c_Children c) (MainItemIndex c) (c_Grammems c') ?info"
    using IJ(1,2) unfolding grammems_ok_def Let_def by blast
  moreover have "kw_sets_ok H (c_Children c) (m_KWSets ?info)"
    using check_kw_sets_ok [OF steps(4) [unfolded ReduceCheckKWSets_def]] same_rule_Get [OF 2] 2 by (simp add: same_rule_def)
  moreover have "list_all (places_ok H (c_Children c)) (m_RulesAgrs ?info)"
  proof -
    obtain homs where "geo_agreements H c5 (m_RulesAgrs (constr_Get c5)) (c_ChildHomonyms c5) = Some homs"
      using steps(10) by (auto simp: ReduceCheckGeoAgreement_def split: option.splits)
    from geo_agreements_ok [OF this] show ?thesis using same_rule_Get [OF 5] 5 by (simp add: same_rule_def)
  qed
  moreover have "ChainSize c \<le> m_OutCount (m_ExtraRuleInfo ?info)"
    using steps(3) 2 same_rule_Get [OF 2] by (simp add: ReduceCheckOutputGroupSize_def same_rule_def)
  moreover have "list_all (\<lambda>(k, RE). RegexPattern RE \<noteq> [] \<and> (\<exists>w. wf_word RE (c_Children c ! k) = Inr w \<and> Accepted H RE (m_txt (tw_Word w)))) (m_WFRegExps ?info)"
    using steps(5) same_rule_Get [OF 3] same_rule_Child [OF 3] by (simp add: ReduceCheckWFSets_def check_wf_sets_True GetChildGroup_def)
  moreover have "list_all (\<lambda>(k, isFirst). \<exists>w. first_word_of (c_Children c ! k) = Inr w \<and> (FirstWord (tw_SourcePair w) = 0) = isFirst)
      (m_FirstWordConstraints ?info)"
    using steps(8) same_rule_Get [OF 5] same_rule_Child [OF 5] by (simp add: ReduceCheckFirstWord_def check_first_words_True GetChildGroup_def)
  moreover have "c_Children c5 = c_Children c" using 5 by (simp add: same_rule_def)
  ultimately show ?thesis
    using 6 NotHRegFact_iff [OF steps(9)] same_rule_Get [OF 5] unfolding alternative_ok_def Let_def by presburger
qed

lemma check_alternative_same:
  assumes "check_alternative H c = Inr (c', ok)"
  shows "same_rule c c'"
proof -
  have and_then: "same_rule c d" if "and_then m k = Inr (d, b)" "\<And>d b. m = Inr (d, b) \<Longrightarrow> same_rule c d"
    "\<And>d e b. k d = Inr (e, b) \<Longrightarrow> same_rule d e" for m k d b
    using that by (auto simp: and_then_def intro: same_rule_trans split: sum.splits prod.splits if_splits)
  have read: "reading f d = Inr (e, b) \<Longrightarrow> same_rule d e" for f and d e :: "'a SReduceConstraints" and b
    by (auto simp: reading_def map_sum_def split: sum.splits)
  have rest: "ReduceCheckOutputGrammems d = (e, b) \<Longrightarrow> same_rule d e" "ReduceCheckTrim d = (e, b) \<Longrightarrow> same_rule d e"
    "ReduceCheckLeftDominantRecessive d = (e, b) \<Longrightarrow> same_rule d e" "ReduceCheckGeoAgreement H d = (e, b) \<Longrightarrow> same_rule d e"
    for d e :: "'a SReduceConstraints" and b
    using OutputGrammems_same [of d] Trim_same [of d] Dominant_same [of d] Geo_same [of d H] by simp_all
  have group: "Inr (ReduceCheckGroupAgreement H c) = (Inr (d, b) :: string + 'a SReduceConstraints \<times> bool) \<Longrightarrow> same_rule c d" for d b
    using GroupAgreement_same [of c H] by auto
  have kws: "ReduceCheckKWSets H d = Inr (e, b) \<Longrightarrow> same_rule d e" for d e b
    using kw_sets_same unfolding ReduceCheckKWSets_def by blast
  show ?thesis using assms unfolding check_alternative_def
    by (elim and_then group kws read) (auto dest: rest)
qed

lemma check_alternatives_ok:
  assumes "check_alternatives H is c = Inr (c', True)"
  shows "c_Agreements c' = c_Agreements c \<and> c_Children c' = c_Children c \<and> CurrentConstraintIndex c' \<in> set is \<and>
    alternative_ok H (c_Children c) (MainItemIndex c) (ChainSize c) (c_Grammems c') (c_Agreements c ! CurrentConstraintIndex c')"
  using assms
proof (induction "is" arbitrary: c)
  case (Cons i "is")
  let ?c = "c\<lparr>CurrentConstraintIndex := i\<rparr>"
  obtain d ok where d: "check_alternative H ?c = Inr (d, ok)" using Cons.prems by (auto split: sum.splits)
  have same: "same_rule ?c d" by (rule check_alternative_same [OF d])
  show ?case
  proof (cases ok)
    case True
    then have "c' = d" using Cons.prems d by simp
    then show ?thesis using check_alternative_ok [of H ?c d] d True same by (simp add: same_rule_def constr_Get_def)
  next
    case False
    then show ?thesis using Cons.IH [of d] Cons.prems d same by (simp add: same_rule_def)
  qed
qed simp

lemma AppendChildHomonyms_eq:
  "rg_ChildHomonyms (AppendChildHomonymsFrom children p) = rg_ChildHomonyms p @ concat (map rg_ChildHomonyms children) \<and>
   rg_Group (AppendChildHomonymsFrom children p) = rg_Group p \<and> rg_Grammems (AppendChildHomonymsFrom children p) = rg_Grammems p"
proof -
  have "rg_ChildHomonyms (fold (\<lambda>child p. p\<lparr>rg_ChildHomonyms := rg_ChildHomonyms p @ rg_ChildHomonyms child\<rparr>) children p) =
      rg_ChildHomonyms p @ concat (map rg_ChildHomonyms children) \<and>
    rg_Group (fold (\<lambda>child p. p\<lparr>rg_ChildHomonyms := rg_ChildHomonyms p @ rg_ChildHomonyms child\<rparr>) children p) = rg_Group p \<and>
    rg_Grammems (fold (\<lambda>child p. p\<lparr>rg_ChildHomonyms := rg_ChildHomonyms p @ rg_ChildHomonyms child\<rparr>) children p) = rg_Grammems p" for p
    by (induction children arbitrary: p) auto
  then show ?thesis by (simp add: AppendChildHomonymsFrom_def)
qed


definition sample_holder :: "nat CTomitaItemsHolder" where
  "sample_holder =
     \<lparr>h_Words = (\<lambda>_. sample_text_word), h_ChainWords = (\<lambda>_. sample_text_word), h_CurStartWord = 0, re_Matches = (\<lambda>_ _. False),
      kw_HasArticle = (\<lambda>_ _. False), geo_Impl = None, IsGeoArticle = (\<lambda>_. False), char_IsUpper = (\<lambda>_. False), char_IsDash = (\<lambda>_. False)\<rparr>"

definition sample_info :: SRuleConstraints where
  "sample_info =
     \<lparr>m_ExtraRuleInfo = extra_init, m_RulesAgrs = [agr_init\<lparr>m_AgreeItems := [0], e_AgrProcedure := CheckQuoted, m_bNegativeAgreement := True\<rparr>],
      m_KWSets = [(0, \<lparr>kw_bNegative = True, m_bApplyToTheFirstWord = False, m_KWset = [art_empty]\<rparr>)], m_WFRegExps = [], m_RuleGrammemUnion = [],
      m_FirstWordConstraints = [(0, True)]\<rparr>"


section \<open>Keyword sets\<close>

text \<open>
  A set of unwanted articles on a word with several homonyms, none of which has them, ends the check of the keyword sets: those
  after it are not looked at.
\<close>

lemma unwanted_set_ends_check:
  assumes "kw_bNegative s" "kw_word s (GetChildGroup c i) = Inr (w, n, old)" "\<not> HasOnlyOneHomId old"
    and "\<not> list_ex (\<lambda>art. word_HasArticle H art (tw_Word w)) (m_KWset s)" "index_ok H c n"
  shows "check_kw_sets H ((i, s) # ss) c = Inr (c, True)"
  using assms by (simp add: check_kw_set_def Let_def)

text \<open>A wanted set that goes on leaves of the homonyms of the word only those with one of its articles.\<close>

lemma check_kw_set_mask:
  assumes "\<not> kw_bNegative s" "kw_word s (GetChildGroup c i) = Inr (tw, n, old)" "\<not> HasOnlyOneHomId old"
    and "check_kw_set H i s c = Inr (c', None)" "hom_index H c n < length (c_ChildHomonyms c)"
    and "bit (c_ChildHomonyms c' ! hom_index H c n) k"
  shows "bit old k \<and> k \<in> set (IterHomonyms (tw_Word tw)) \<and> (\<exists>art \<in> set (m_KWset s). kw_HasArticle H (m_Homonyms (tw_Word tw) ! k) art)"
proof -
  let ?used = "fold (\<lambda>art. GetHomIDsByKWType (kw_HasArticle H) art (tw_Word tw)) (m_KWset s) 0"
  have "c_ChildHomonyms c' ! hom_index H c n = old AND (if c_ChildHomonyms c ! i \<noteq> 0 then ?used AND c_ChildHomonyms c ! i else ?used)"
    using assms(1-5) by (auto simp: check_kw_set_def Let_def split: if_splits)
  then have "bit old k \<and> bit ?used k" using assms(6) by (simp add: bit_and_iff split: if_splits)
  then show ?thesis by (simp add: GetHomIDs_set_bit)
qed


end
