(* ===== verification/Spec2Isabelle.thy ===== *)
theory Spec2Isabelle
  imports GrammarCompiler UnusedSymbols LR0 PeriodAmbiguity GramFeatures HomonymGrammems HomonymWord ReduceConstraints
begin

text \<open>
  A verification library for the grammar compiler and the parser of the Tomita parser, the directory
  \<^verbatim>\<open>src/FactExtract/Parser/afglrparserlib\<close> (file names below are relative to it), with the containers
  and values it takes from \<^verbatim>\<open>src/kernel/gazetteer/common\<close> and \<^verbatim>\<open>src/FactExtract/Parser/common\<close>.

  \<^bold>\<open>The program.\<close> A grammar of the extraction language arrives as a list of rules over named symbols
  (\<^verbatim>\<open>CParseGrammar\<close>). It is encoded as a work grammar: numbered symbols and an ordered set of rules
  (\<^verbatim>\<open>CWorkGrammar\<close>). \<^verbatim>\<open>BuildGLRTableForGrammar\<close> computes from it the prefixes of its roots, a trie over them
  with a failure function, the augmented grammar, its FIRST and FOLLOW sets, the limits on the number of
  facts, the canonical LR(0) collection and the SLR table, in a compact form. A sentence is a sequence of
  words, each with the set of terminals it can be read as. \<^verbatim>\<open>CInputSequenceGLR::Process\<close> searches it with the
  trie for places where a root can begin, runs a GLR parser over a graph-structured stack from each of them
  and collects the root nodes as occurrences.

  \<^bold>\<open>Theories and sources.\<close>
  \<^item> \<open>Prelude\<close>: ordered sets and maps as sorted lists (\<^verbatim>\<open>yset\<close>, \<^verbatim>\<open>ymap\<close>) in the locale \<open>key_order\<close>; loops that run
    passes over a vector of sets until nothing changes (locales \<open>changed_pass\<close>, \<open>vset_pass\<close>).
  \<^item> \<open>CommonTypes\<close>, \<open>GrammarItem\<close>: \<^verbatim>\<open>commontypes.h\<close>, \<^verbatim>\<open>grammaritem.h/.cpp\<close>, the tables of \<^verbatim>\<open>agreement.h\<close> and the article
    names of \<^verbatim>\<open>toma_constants\<close>. Every \<^verbatim>\<open>operator<\<close> is shown to be a strict linear order on the key that the
    matching \<^verbatim>\<open>operator==\<close> compares (the interpretations of \<open>key_order\<close>), which is what the ordered containers need.
  \<^item> \<open>WorkGrammar\<close>: \<^verbatim>\<open>sourcegrammarparser.cpp\<close> and the first half of \<^verbatim>\<open>loader.cpp\<close>: encoding, validation, rule index,
    augmentation with its exception and its refusal.
  \<^item> \<open>FirstFollow\<close>, \<open>RootPrefixes\<close>, \<open>OutCount\<close>, \<open>UnusedSymbols\<close>, \<open>GrammarText\<close>: the other algorithms of \<^verbatim>\<open>loader.cpp\<close>
    and the text and token streams of \<^verbatim>\<open>grammaritem.cpp\<close>.
  \<^item> \<open>LRItems\<close>: \<^verbatim>\<open>lr-items.cpp\<close>. \<open>HashIndex\<close>, \<open>CompactStorage\<close>, \<open>GLRCells\<close>, \<open>GLRTable\<close>: \<^verbatim>\<open>hashindex.h\<close>, \<^verbatim>\<open>compactstorage.h\<close>,
    \<^verbatim>\<open>vector2d.h\<close> and \<^verbatim>\<open>glrtable.h/.cpp\<close>: the raw table, its compaction into a bit mask, a sparse matrix of simple
    cells and a vector of complex ones, with all indices on 32-bit words.
  \<^item> \<open>LR0\<close>: \<^verbatim>\<open>lr0.h/.cpp\<close>, the table and the parser of an LR(0) grammar, with the proof that the parser recognises
    the language of the grammar.
  \<^item> \<open>GLR\<close>: the state and the operations of \<^verbatim>\<open>glr.h/.cpp\<close>. \<open>GLRInvariant\<close>, \<open>GLRSteps\<close>, \<open>GLRReducer\<close>, \<open>GLRParse\<close>, \<open>GLRCorrect\<close>: the
    invariant of the graph-structured stack, that every operation keeps it, and the correctness of
    \<^verbatim>\<open>ParseSymbol\<close>.
  \<^item> \<open>AhoKorasick\<close>, \<open>TrieAutomaton\<close>: \<^verbatim>\<open>ahokorasick.h/.cpp\<close> and the proof that the automaton finds exactly the
    occurrences of its patterns.
  \<^item> \<open>InputItem\<close>, \<open>InputSequence\<close>, \<open>SequenceCorrect\<close>: \<^verbatim>\<open>inputitem.h/.cpp\<close>, \<^verbatim>\<open>inputsequence.h/.cpp\<close>.
  \<^item> \<open>WordsPair\<close>, \<open>WeightGroup\<close>, \<open>PeriodAmbiguity\<close>, from \<^verbatim>\<open>FactExtract/Parser/afdocparser\<close>: the periods of a sentence and the
    sets of nested ones (\<^verbatim>\<open>wordspair.h\<close>, \<^verbatim>\<open>periodtree.h/.cpp\<close>), the groups that a rule builds with their checked
    agreements and weights (\<^verbatim>\<open>group.h\<close>, \<^verbatim>\<open>factgroup.h/.cpp\<close>), and the choice among overlapping occurrences that runs
    on what the parser reports (\<^verbatim>\<open>solveperiodambiguity.cpp\<close>), which is shown to cover as much as any choice can.
  \<^item> \<open>GramBits\<close>, \<open>GramFeatures\<close>: grammemes and bit sets of them (\<^verbatim>\<open>library/token/enumbitset.h\<close>,
    \<^verbatim>\<open>library/lemmer/dictlib/grammarhelper.h/.cpp\<close>) and the table of grammatical features
    (\<^verbatim>\<open>FactExtract/Parser/inflectorlib/gramfeatures.h/.cpp\<close>). A set of grammemes is a word of 125 bits.
  \<^item> \<open>Agreement\<close>, \<open>HomonymGrammems\<close>: the agreement of grammemes and of collections of forms (\<^verbatim>\<open>gleiche.h/.cpp\<close> of
    \<^verbatim>\<open>library/lemmer/dictlib\<close> and of \<^verbatim>\<open>afdocparser/rus\<close>) and the grammemes of a homonym (\<^verbatim>\<open>homonymbase.h/.cpp\<close>), with the
    locale \<open>symmetric_check\<close> for the agreements that do not depend on the order of the two sides.
  \<^item> \<open>HomonymWord\<close>: homonyms with their dictionary articles and words with their homonyms (\<^verbatim>\<open>homonym.h/.cpp\<close> and
    \<^verbatim>\<open>word.h/.cpp\<close> of \<^verbatim>\<open>afdocparser/rus\<close>): iteration, deletion with its roll back, articles. What asks the morphology
    (the prediction of surnames and patronymics) is left out.
  \<^item> \<open>ReduceConstraints\<close>: the checks that the fact extractor makes when the parser reduces a rule, and the groups it makes then
    (\<^verbatim>\<open>tomitaitemsholder.h/.cpp\<close>, \<^verbatim>\<open>syngroup.cpp\<close>, \<^verbatim>\<open>primitivegroup.cpp\<close> of \<^verbatim>\<open>afdocparser/rusie\<close>): this is what \<^verbatim>\<open>CreateNewItem\<close>
    of the factory of the parser does there. The dictionaries, the regular expressions and the gazetteer of places are fields
    of its record.
  \<^item> \<open>GrammarCompiler\<close>: \<^verbatim>\<open>BuildGLRTableForGrammar\<close> and the theorems from the source of a grammar to the occurrences.

  \<^bold>\<open>Correspondence.\<close> A class or struct is a record with the fields of the source; a field that another class has
  too carries a prefix. A method is a function of the record, called by its name, that returns the record
  updated. \<^verbatim>\<open>yset\<close> and \<^verbatim>\<open>ymap\<close> are sorted lists without duplicates with the comparator of the source, so
  iteration order is that of the program. A pointer to a rule of a grammar is the rule, a pointer to a rule info its
  index. An exception (\<^verbatim>\<open>ythrow\<close>) is \<open>Inl\<close> of its message. An assertion (\<^verbatim>\<open>YASSERT\<close>) that data can violate is \<open>None\<close>: of the
  index storage (\<open>AddSet\<close>, \<open>RemoveFrom\<close>), of a trie without patterns (\<open>trie_Create\<close>), of the capacity of a prefix
  (\<open>push_back\<close>); it is \<open>Inl\<close> in the checks of keyword sets and regular expressions. The one after which \<^verbatim>\<open>AugmentGrammar\<close>
  returns false is this result, and that of \<^verbatim>\<open>CheckItemGrammems\<close> is a hypothesis. The input items, whose class is
  abstract, are a type variable, and the factory that makes them (\<^verbatim>\<open>CInputItemFactory\<close>, pure virtual) is a
  record of functions with a state of its own: no theorem assumes anything of it.

  \<^bold>\<open>Loops.\<close> A loop whose end is not structural is a \<open>while_option\<close> loop, a \<open>partial_function\<close> into
  options or a function with a measure: \<open>None\<close> is not
  returning, and each theorem about such a function states that it returns. There is no fuel anywhere. The
  measures are the missing elements of vectors of sets over the finite symbols (FIRST, FOLLOW), the missing
  words of bounded length (\<^verbatim>\<open>Build_FIRST_Set_k\<close>), the item sets not yet found (\<^verbatim>\<open>Compute\<close>), the nodes above
  the failure state (the trie), and for \<^verbatim>\<open>ParseSymbol\<close> the
  lexicographic order of the room below the bound on symbol nodes and of the pending sets (\<open>parse_rank\<close>).

  \<^bold>\<open>What the lemmas show.\<close> Correctness of the compilation stages against inductive specifications over derivations of
  the grammar (\<open>derives\<close>, \<open>prefix_of\<close>, the closure and goto of item sets); equality of the compacted table with
  the raw one through all its accessors; the invariant of the parser (levels sorted, every edge of the stack a
  transition of the table, every symbol node deriving a word of the input between its ends, every parse a
  rule whose parts lie side by side); equality of the depth-first search of \<^verbatim>\<open>Reducer\<close> with the set of paths of
  the length of the rule; and the composition: every reported occurrence is a root of the original grammar
  over a reading of the words it spans, and every place where a phrase of a root begins is tried. Of the
  reduction of a rule: what each check of grammemes, agreement, articles and places tests and leaves, and that a group
  is made only if all the checks of an alternative hold.

  \<^bold>\<open>Bounds.\<close> Sizes are natural numbers where the program cannot exceed \<^verbatim>\<open>size_t\<close>. Where it narrows, the width is
  kept: indices of the compact table and of the storage are 32-bit words with the overflow check of
  \<^verbatim>\<open>CheckIndexOverflow\<close> (\<open>table_limits\<close> is the precondition under which it cannot be exceeded), weights are
  64-bit fixed point numbers, the vectors of saved rules are 32-bit integers, and the depth of the
  trie is 8 bits in the program; the patterns are at most 3 symbols long there (\<open>PrefixLength\<close> is 1), so it
it
  is a natural number here. A prefix holds 3 symbols at most. The size of \<^verbatim>\<open>size_t\<close> is a parameter of
  \<open>DeleteUnusedSymbols\<close>, which casts a reference to an int to one to it: with 8 bytes this reaches beyond the end.
  A shift of a 32-bit mask of homonyms by 32 or more, undefined in the source, gives 0. The factors of \<^verbatim>\<open>SExtraRuleInfo\<close> are rationals in place of \<^verbatim>\<open>double\<close>.

  \<^bold>\<open>Not modelled.\<close> The completeness of the GLR parse: the parser does not re-examine old reductions in every case
  and cuts off at a number of nodes, so only soundness of its nodes is claimed. The byte level of saved
  files. Regular expressions (Pire), the morphological analysis of words and the interpretation of
  facts, which the parser reaches only through the factory. The homonyms of a group and what a group asks of a word
  (\<open>CWordQueries\<close>, a record of functions), and \<^verbatim>\<open>std::sort\<close>, an argument of which only \<open>sorts\<close> is assumed. \<^verbatim>\<open>TryToDisableSymbolNode\<close> and the dumps to a terminal, which nothing
  depends on. The manifest lists every other part of the repository with the reason.
\<close>

end
